(* ===== verification/Prelude.thy ===== *)
theory Prelude
  imports Main "HOL-Library.Word" "HOL-Library.Monad_Syntax" "HOL-Library.Multiset"
begin

text \<open>
  Shared vocabulary of the development.  Every operation of the kernel is a
  function of explicit state into the option type: \<^term>\<open>None\<close> is ``the call
  does not come back'' (the default \<^verbatim>\<open>RT_ASSERT\<close> handler spins forever) or
  ``the C code would access memory outside the object it works on''.  A
  theorem that an operation returns is therefore an equation with
  \<^term>\<open>Some\<close> on the right.

  The theory also holds the generic facts on lists, options and machine words
  on which the component proofs run.
\<close>

section \<open>Collections\<close>

named_theorems rt_consts \<open>unfolding of the numeric constants of rtdef.h\<close>
named_theorems rt_ops \<open>definitions of kernel operations that are safe to unfold\<close>
named_theorems rt_frame \<open>what an operation leaves unchanged\<close>

section \<open>Assertions\<close>

definition rt_assert :: "bool \<Rightarrow> unit option" where
  "rt_assert b = (if b then Some () else None)"

lemma rt_assert_True [simp]: "rt_assert True = Some ()"
  by (simp add: rt_assert_def)

lemma rt_assert_False [simp]: "rt_assert False = None"
  by (simp add: rt_assert_def)

lemma rt_assert_eq_Some [simp]: "rt_assert b = Some u \<longleftrightarrow> b"
  by (simp add: rt_assert_def)

lemma rt_assert_bind_eq_Some [simp]:
  "Option.bind (rt_assert b) f = Some x \<longleftrightarrow> b \<and> f () = Some x"
  by (simp add: rt_assert_def)

lemma rt_assert_bind_True: "b \<Longrightarrow> Option.bind (rt_assert b) f = f ()"
  by (simp add: rt_assert_def)

text \<open>The same test for an access that is only defined inside its object.\<close>

abbreviation c_access :: "bool \<Rightarrow> unit option" where "c_access \<equiv> rt_assert"

lemmas bind_Some_iff = Option.bind_eq_Some_conv

section \<open>Insertion at the first element that satisfies a test\<close>

text \<open>
  Three lists of the kernel are kept in order by the same loop: walk until the
  first element that has to stay behind the new one, insert there, and append
  when there is none.
\<close>

fun insert_where :: "('a \<Rightarrow> bool) \<Rightarrow> 'a \<Rightarrow> 'a list \<Rightarrow> 'a list" where
  "insert_where P x [] = [x]"
| "insert_where P x (y # ys) = (if P y then x # y # ys else y # insert_where P x ys)"

lemma insert_where_split:
  "insert_where P x xs = takeWhile (\<lambda>y. \<not> P y) xs @ x # dropWhile (\<lambda>y. \<not> P y) xs"
  by (induction xs) auto

lemma set_insert_where [simp]: "set (insert_where P x xs) = insert x (set xs)"
  by (induction xs) auto

lemma mset_insert_where [simp]: "mset (insert_where P x xs) = add_mset x (mset xs)"
  by (induction xs) auto

lemma length_insert_where [simp]: "length (insert_where P x xs) = Suc (length xs)"
  by (induction xs) auto

lemma insert_where_not_Nil [simp]: "insert_where P x xs \<noteq> []"
  by (cases xs) auto

lemma distinct_insert_where [simp]:
  "distinct (insert_where P x xs) \<longleftrightarrow> x \<notin> set xs \<and> distinct xs"
  by (induction xs) auto

lemma insert_where_cong:
  "\<lbrakk>\<And>y. y \<in> set xs \<Longrightarrow> P y = Q y\<rbrakk> \<Longrightarrow> insert_where P x xs = insert_where Q x xs"
  by (induction xs) auto

lemma filter_insert_where:
  "x \<notin> set xs \<Longrightarrow> filter (\<lambda>y. y \<noteq> x) (insert_where P x xs) = xs"
  by (induction xs) (auto intro: filter_True)

lemma sorted_insert_where:
  assumes "sorted (map f xs)"
  shows "sorted (map f (insert_where (\<lambda>y. f x < f y) x xs))"
  using assms by (induction xs) (auto simp: not_less)

text \<open>Elements with the key of the new one all stay in front of it: arrival order.\<close>

lemma insert_where_stable:
  assumes "sorted (map f xs)"
  shows "filter (\<lambda>y. f y = f x) (insert_where (\<lambda>y. f x < f y) x xs)
       = filter (\<lambda>y. f y = f x) xs @ [x]"
  using assms
proof (induction xs)
  case Nil
  then show ?case by simp
next
  case (Cons a as)
  have rest: "filter (\<lambda>y. f y = f x) as = []" if "f x < f a"
    using Cons.prems that by (auto simp: filter_empty_conv)
  show ?case
    using Cons rest by auto
qed

section \<open>Lists without an element\<close>

lemma removeAll_notin: "x \<notin> set xs \<Longrightarrow> removeAll x xs = xs"
  by (rule removeAll_id)

lemma removeAll_hd: "distinct (x # xs) \<Longrightarrow> removeAll x (x # xs) = xs"
  by (simp add: removeAll_id)

lemma removeAll_eq_Nil: "removeAll x xs = [] \<longleftrightarrow> set xs \<subseteq> {x}"
  by (induction xs) auto

lemma removeAll_split:
  assumes "distinct (xs @ x # ys)" shows "removeAll x (xs @ x # ys) = xs @ ys"
  using assms by (simp add: removeAll_id)

lemma sorted_map_removeAll: "sorted (map f xs) \<Longrightarrow> sorted (map f (removeAll x xs))"
  by (induction xs) auto

section \<open>Machine words\<close>

unbundle bit_operations_syntax

lemma and_not_mask_twice [simp]: "(x AND NOT m) AND m = (0 :: 'a :: len word)"
  by (rule bit_word_eqI) (simp add: bit_and_iff bit_not_iff)

lemma or_and_not [simp]: "(a OR (x AND NOT m)) AND m = (a AND m :: 'a :: len word)"
  by (rule bit_word_eqI) (auto simp: bit_and_iff bit_or_iff bit_not_iff)

lemma or_and_not_sub: "k AND m = k \<Longrightarrow> (a OR (x AND NOT m)) AND k = (a AND k :: 'a :: len word)"
  by (rule bit_word_eqI) (metis bit_and_iff bit_or_iff bit_not_iff bit_imp_le_length)

lemma bit_push_bit_1 [simp]:
  "bit (push_bit p (1 :: 'a :: len word)) q \<longleftrightarrow> q = p \<and> p < LENGTH('a)"
  by (auto simp: bit_simps)

lemma word_all_bits_zero:
  "(w = (0 :: 'a :: len word)) \<longleftrightarrow> (\<forall>p < LENGTH('a). \<not> bit w p)"
  by (auto intro: bit_word_eqI)

lemma unat_lt_nat: "x < y \<longleftrightarrow> unat x < unat (y :: 'a :: len word)"
  by (rule word_less_nat_alt)

lemma unat_plus_one:
  fixes x y :: "'a :: len word"
  assumes "x < y" shows "unat (x + 1) = unat x + 1"
proof -
  have "unat x + unat (1 :: 'a word) \<le> unat y"
    using assms by (simp add: unat_lt_nat)
  also have "\<dots> < 2 ^ LENGTH('a)"
    by (rule unsigned_less)
  finally show ?thesis unfolding unat_add_lem by simp
qed

end
