(* ===== verification/RtList.thy ===== *)
theory RtList
  imports Prelude
begin

text \<open>
  The intrusive circular lists of \<^verbatim>\<open>include/rtservice.h\<close>, at the level of the
  \<^verbatim>\<open>next\<close> and \<^verbatim>\<open>prev\<close> pointers, and the interface the kernel components use
  them through.  A heap gives every list node its two links; an address is
  either a list head (a variable or a field of an object) or the node embedded
  in an element.  The locale \<^verbatim>\<open>list_family\<close> states what a family of such lists
  promises in terms of HOL lists; it is interpreted here on the pointer
  functions and, in the theory of the kernel state, on the lists of the kernel
  model, so both keep the same contract.
\<close>

section \<open>The pointer functions\<close>

datatype ('h, 'n) addr = HeadAt 'h | NodeAt 'n

record ('h, 'n) heap =
  nxt :: "('h, 'n) addr \<Rightarrow> ('h, 'n) addr"
  prv :: "('h, 'n) addr \<Rightarrow> ('h, 'n) addr"

definition set_next :: "('h, 'n) addr \<Rightarrow> ('h, 'n) addr \<Rightarrow> ('h, 'n) heap \<Rightarrow> ('h, 'n) heap" where
  "set_next a b m = m\<lparr>nxt := (nxt m)(a := b)\<rparr>"

definition set_prev :: "('h, 'n) addr \<Rightarrow> ('h, 'n) addr \<Rightarrow> ('h, 'n) heap \<Rightarrow> ('h, 'n) heap" where
  "set_prev a b m = m\<lparr>prv := (prv m)(a := b)\<rparr>"

definition rt_list_init :: "('h, 'n) addr \<Rightarrow> ('h, 'n) heap \<Rightarrow> ('h, 'n) heap" where
  "rt_list_init l m = set_next l l (set_prev l l m)"

definition rt_list_insert_after ::
    "('h, 'n) addr \<Rightarrow> ('h, 'n) addr \<Rightarrow> ('h, 'n) heap \<Rightarrow> ('h, 'n) heap" where
  "rt_list_insert_after l n m0 =
    (let m1 = set_prev (nxt m0 l) n m0;
         m2 = set_next n (nxt m1 l) m1;
         m3 = set_next l n m2
     in set_prev n l m3)"

definition rt_list_insert_before ::
    "('h, 'n) addr \<Rightarrow> ('h, 'n) addr \<Rightarrow> ('h, 'n) heap \<Rightarrow> ('h, 'n) heap" where
  "rt_list_insert_before l n m0 =
    (let m1 = set_next (prv m0 l) n m0;
         m2 = set_prev n (prv m1 l) m1;
         m3 = set_prev l n m2
     in set_next n l m3)"

definition rt_list_remove :: "('h, 'n) addr \<Rightarrow> ('h, 'n) heap \<Rightarrow> ('h, 'n) heap" where
  "rt_list_remove n m0 =
    (let m1 = set_prev (nxt m0 n) (prv m0 n) m0;
         m2 = set_next (prv m1 n) (nxt m1 n) m1
     in set_next n n (set_prev n n m2))"

definition rt_list_isempty :: "('h, 'n) addr \<Rightarrow> ('h, 'n) heap \<Rightarrow> bool" where
  "rt_list_isempty l m \<longleftrightarrow> nxt m l = l"

text \<open>
  The counting loop of \<^verbatim>\<open>rt_list_len\<close>; the fuel is the number of loop tests
  the caller is prepared to wait for, and the counter is an \<^verbatim>\<open>unsigned int\<close>.
\<close>

fun rt_list_len_loop ::
    "nat \<Rightarrow> ('h, 'n) addr \<Rightarrow> ('h, 'n) addr \<Rightarrow> 32 word \<Rightarrow> ('h, 'n) heap \<Rightarrow> 32 word option" where
  "rt_list_len_loop 0 l p len m = None"
| "rt_list_len_loop (Suc k) l p len m =
    (if nxt m p \<noteq> l then rt_list_len_loop k l (nxt m p) (len + 1) m else Some len)"

definition rt_list_len :: "nat \<Rightarrow> ('h, 'n) addr \<Rightarrow> ('h, 'n) heap \<Rightarrow> 32 word option" where
  "rt_list_len k l m = rt_list_len_loop k l l 0 m"

section \<open>Doubly linked segments\<close>

fun dseg :: "('h, 'n) heap \<Rightarrow> ('h, 'n) addr \<Rightarrow> ('h, 'n) addr list \<Rightarrow> ('h, 'n) addr \<Rightarrow> bool" where
  "dseg m a [] b \<longleftrightarrow> nxt m a = b \<and> prv m b = a"
| "dseg m a (x # xs) b \<longleftrightarrow> nxt m a = x \<and> prv m x = a \<and> dseg m x xs b"

definition clist :: "('h, 'n) heap \<Rightarrow> ('h, 'n) addr \<Rightarrow> ('h, 'n) addr list \<Rightarrow> bool" where
  "clist m l xs \<longleftrightarrow> dseg m l xs l \<and> distinct (l # xs)"

lemma dseg_append [simp]:
  "dseg m a (xs @ y # ys) b \<longleftrightarrow> dseg m a xs y \<and> dseg m y ys b"
  by (induction xs arbitrary: a) auto

lemma dseg_frame:
  assumes "\<And>x. x \<in> insert a (set xs) \<Longrightarrow> nxt m' x = nxt m x"
    and "\<And>x. x \<in> insert b (set xs) \<Longrightarrow> prv m' x = prv m x"
  shows "dseg m' a xs b = dseg m a xs b"
  using assms by (induction xs arbitrary: a) auto

lemma dseg_first: "dseg m a xs b \<Longrightarrow> nxt m a = hd (xs @ [b])"
  by (cases xs) auto

lemma dseg_last: "dseg m a xs b \<Longrightarrow> prv m b = last (a # xs)"
  by (induction xs arbitrary: a) auto

lemma dseg_new_end:
  assumes "dseg m a xs b" "distinct (a # xs)" "n \<notin> set xs"
    and "\<And>x. x \<in> insert a (set xs) \<Longrightarrow> x \<noteq> last (a # xs) \<Longrightarrow> nxt m' x = nxt m x"
    and "\<And>x. x \<in> set xs \<Longrightarrow> prv m' x = prv m x"
    and "nxt m' (last (a # xs)) = n" "prv m' n = last (a # xs)"
  shows "dseg m' a xs n"
  using assms
proof (induction xs arbitrary: a)
  case Nil
  then show ?case by simp
next
  case (Cons x xs)
  have "dseg m' x xs n"
    by (rule Cons.IH) (use Cons.prems in auto)
  moreover have "a \<noteq> last (x # xs)"
    using Cons.prems(2) last_in_set [of "x # xs"] by auto
  then have "nxt m' a = nxt m a"
    using Cons.prems(4) [of a] by auto
  moreover have "prv m' x = prv m x"
    using Cons.prems(5) [of x] by simp
  ultimately show ?case
    using Cons.prems(1) by simp
qed

lemma dseg_new_start:
  assumes "dseg m a ys b"
    and "\<And>x. x \<in> set ys \<Longrightarrow> nxt m' x = nxt m x"
    and "\<And>x. x \<in> set (tl (ys @ [b])) \<Longrightarrow> prv m' x = prv m x"
    and "nxt m' n = hd (ys @ [b])" "prv m' (hd (ys @ [b])) = n"
  shows "dseg m' n ys b"
proof (cases ys)
  case Nil
  with assms show ?thesis by simp
next
  case (Cons y ys')
  have "dseg m' y ys' b = dseg m y ys' b"
    using assms(2,3) Cons by (intro dseg_frame) auto
  with assms Cons show ?thesis by simp
qed

lemma dseg_split:
  assumes "dseg m a (xs @ ys) b"
  shows "dseg m a xs (hd (ys @ [b]))" "dseg m (last (a # xs)) ys b"
  using assms
  by (cases ys; simp; fail) (use assms in \<open>induction xs arbitrary: a; auto\<close>)

lemma dseg_insert:
  assumes seg: "dseg m a (xs @ ys) b"
    and dist: "distinct (a # xs @ ys)" "distinct (xs @ ys @ [b])"
    and new: "n \<notin> set (a # b # xs @ ys)"
    and u: "u = last (a # xs)" and v: "v = hd (ys @ [b])"
    and nx: "nxt m' = (nxt m)(u := n, n := v)" and pv: "prv m' = (prv m)(v := n, n := u)"
  shows "dseg m' a (xs @ n # ys) b"
proof -
  have u_in: "u \<in> set (a # xs)" and v_in: "v \<in> set (ys @ [b])"
    by (auto simp: u v hd_append intro: last_in_set)
  have vxs: "v \<notin> set xs"
    using v_in dist by auto
  have uys: "u \<notin> set ys"
    using u_in dist by auto
  have vtl: "v \<notin> set (tl (ys @ [b]))"
    using dist(2) v by (cases ys) auto
  have "dseg m' a xs n"
    by (rule dseg_new_end [OF dseg_split(1) [OF seg]])
       (use dist new u v nx pv vxs in auto)
  moreover have "dseg m' n ys b"
    by (rule dseg_new_start [OF dseg_split(2) [OF seg]])
       (use dist new u v nx pv uys vtl v_in in \<open>auto dest: list.set_sel(2) [rotated]\<close>)
  ultimately show ?thesis by simp
qed

lemma dseg_delete:
  assumes seg: "dseg m a (xs @ n # ys) b"
    and dist: "distinct (a # xs @ n # ys)" "distinct (xs @ n # ys @ [b])"
    and u: "u = last (a # xs)" and v: "v = hd (ys @ [b])"
    and nx: "nxt m' = (nxt m)(u := v, n := n)" and pv: "prv m' = (prv m)(v := u, n := n)"
  shows "dseg m' a (xs @ ys) b"
proof -
  have u_in: "u \<in> set (a # xs)" and v_in: "v \<in> set (ys @ [b])"
    by (auto simp: u v hd_append intro: last_in_set)
  have un: "u \<noteq> n" and vn: "v \<noteq> n" and vxs: "v \<notin> set xs" and uys: "u \<notin> set ys"
    using u_in v_in dist by auto
  have front: "dseg m' a xs v"
    by (rule dseg_new_end [of m a xs n]) (use seg dist u un vn vxs nx pv in auto)
  show ?thesis
  proof (cases ys)
    case Nil
    with front v show ?thesis by simp
  next
    case (Cons y ys')
    have "dseg m' y ys' b = dseg m y ys' b"
      using dist uys un vn v Cons by (intro dseg_frame) (auto simp: nx pv)
    with seg front v Cons show ?thesis by simp
  qed
qed

section \<open>Links after each operation\<close>

lemma links_insert_after:
  assumes "n \<noteq> l"
  shows "nxt (rt_list_insert_after l n m) = (nxt m)(l := n, n := nxt m l)"
    and "prv (rt_list_insert_after l n m) = (prv m)(nxt m l := n, n := l)"
  using assms by (auto simp: rt_list_insert_after_def set_next_def set_prev_def Let_def)

lemma links_insert_before:
  assumes "n \<noteq> l"
  shows "nxt (rt_list_insert_before l n m) = (nxt m)(prv m l := n, n := l)"
    and "prv (rt_list_insert_before l n m) = (prv m)(l := n, n := prv m l)"
  using assms by (auto simp: rt_list_insert_before_def set_next_def set_prev_def Let_def)

lemma links_remove:
  shows "nxt (rt_list_remove n m) = (nxt m)(prv m n := nxt m n, n := n)"
    and "prv (rt_list_remove n m) = (prv m)(nxt m n := prv m n, n := n)"
  by (auto simp: rt_list_remove_def set_next_def set_prev_def Let_def)

lemma clist_frame:
  assumes "\<And>x. x \<in> insert l (set xs) \<Longrightarrow> nxt m' x = nxt m x \<and> prv m' x = prv m x"
  shows "clist m' l xs = clist m l xs"
  unfolding clist_def using dseg_frame [of l xs m' m l] assms by auto

lemma clist_init: "clist (rt_list_init l m) l []"
  by (simp add: clist_def rt_list_init_def set_next_def set_prev_def)

lemma clist_isempty: "clist m l xs \<Longrightarrow> rt_list_isempty l m \<longleftrightarrow> xs = []"
  by (cases xs) (auto simp: clist_def rt_list_isempty_def)

lemma clist_next: "clist m l (x # xs) \<Longrightarrow> nxt m l = x"
  by (simp add: clist_def)

lemma clist_insert_after:
  assumes "clist m l xs" "n \<notin> set (l # xs)"
  shows "clist (rt_list_insert_after l n m) l (n # xs)"
proof -
  have "dseg (rt_list_insert_after l n m) l ([] @ n # xs) l"
    by (rule dseg_insert [of m _ _ _ _ _ l "nxt m l"])
       (use assms in \<open>auto simp: clist_def links_insert_after dest: dseg_first\<close>)
  then show ?thesis
    using assms by (auto simp: clist_def)
qed

lemma clist_insert_before_node:
  assumes "clist m l (xs @ p # ys)" "n \<notin> set (l # xs @ p # ys)"
  shows "clist (rt_list_insert_before p n m) l (xs @ n # p # ys)"
proof -
  have "prv m p = last (l # xs)"
    using assms(1) dseg_last [of m l xs p] by (auto simp: clist_def)
  then have "dseg (rt_list_insert_before p n m) l (xs @ n # (p # ys)) l"
    by (intro dseg_insert [of m l xs "p # ys" l n "prv m p" p])
       (use assms in \<open>auto simp: clist_def links_insert_before fun_upd_twist\<close>)
  then show ?thesis
    using assms by (auto simp: clist_def)
qed

lemma clist_insert_before:
  assumes "clist m l xs" "n \<notin> set (l # xs)"
  shows "clist (rt_list_insert_before l n m) l (xs @ [n])"
proof -
  have "prv m l = last (l # xs)"
    using assms(1) dseg_last [of m l xs l] by (auto simp: clist_def)
  then have "dseg (rt_list_insert_before l n m) l (xs @ n # []) l"
    by (intro dseg_insert [of m _ _ _ _ _ "prv m l" l])
       (use assms in \<open>auto simp: clist_def links_insert_before fun_upd_twist\<close>)
  then show ?thesis
    using assms by (auto simp: clist_def)
qed

lemma clist_remove:
  assumes "clist m l (xs @ n # ys)"
  shows "clist (rt_list_remove n m) l (xs @ ys)"
    and "clist (rt_list_remove n m) n []"
proof -
  have pn: "prv m n = last (l # xs)" and nn: "nxt m n = hd (ys @ [l])"
    using assms dseg_last [of m l xs n] dseg_first [of m n ys l] by (auto simp: clist_def)
  have "dseg (rt_list_remove n m) l (xs @ ys) l"
    by (rule dseg_delete [of m l xs n ys l "prv m n" "nxt m n"])
       (use assms pn nn in \<open>auto simp: clist_def links_remove\<close>)
  then show "clist (rt_list_remove n m) l (xs @ ys)"
    using assms by (auto simp: clist_def)
  show "clist (rt_list_remove n m) n []"
    by (simp add: clist_def links_remove)
qed

text \<open>The counting loop ends after one test per element and one for the head.\<close>

lemma rt_list_len_loop_steps:
  assumes "dseg m p xs l" "l \<notin> set xs" "length xs < k"
  shows "rt_list_len_loop k l p len m = Some (len + of_nat (length xs))"
  using assms
proof (induction xs arbitrary: p k len)
  case Nil
  then show ?case by (cases k) auto
next
  case (Cons x xs)
  obtain k' where k: "k = Suc k'"
    using Cons.prems by (cases k) auto
  have "rt_list_len_loop k' l x (len + 1) m = Some (len + 1 + of_nat (length xs))"
    using Cons.prems k by (intro Cons.IH) auto
  with Cons.prems k show ?case by (auto simp: add.assoc)
qed

lemma clist_len:
  "clist m l xs \<Longrightarrow> length xs < k \<Longrightarrow> rt_list_len k l m = Some (of_nat (length xs))"
  using rt_list_len_loop_steps [of m l xs l k 0] by (simp add: clist_def rt_list_len_def)

section \<open>The interface of a family of lists\<close>

definition family_ok :: "('h \<Rightarrow> 'n list) \<Rightarrow> bool" where
  "family_ok F \<longleftrightarrow> (\<forall>h. distinct (F h)) \<and>
    (\<forall>h k n. n \<in> set (F h) \<longrightarrow> n \<in> set (F k) \<longrightarrow> h = k)"

definition unlinked :: "'n \<Rightarrow> ('h \<Rightarrow> 'n list) \<Rightarrow> bool" where
  "unlinked n F \<longleftrightarrow> (\<forall>h. n \<notin> set (F h))"

definition family_remove :: "'n \<Rightarrow> ('h \<Rightarrow> 'n list) \<Rightarrow> 'h \<Rightarrow> 'n list" where
  "family_remove n F = (\<lambda>h. removeAll n (F h))"

lemma unlinked_remove [simp]: "unlinked n (family_remove n F)"
  by (simp add: unlinked_def family_remove_def)

lemma family_remove_unlinked: "unlinked n F \<Longrightarrow> family_remove n F = F"
  by (simp add: unlinked_def family_remove_def)

lemma family_ok_remove: "family_ok F \<Longrightarrow> family_ok (family_remove n F)"
  by (auto simp: family_ok_def family_remove_def distinct_removeAll)

lemma family_ok_insert:
  assumes "family_ok F" "unlinked n F" "distinct ys" "set ys = insert n (set (F h))"
  shows "family_ok (F(h := ys))"
  using assms by (auto simp: family_ok_def unlinked_def)

locale list_family =
  fixes rep :: "'s \<Rightarrow> ('h \<Rightarrow> 'n list) \<Rightarrow> bool"
    and push_front :: "'h \<Rightarrow> 'n \<Rightarrow> 's \<Rightarrow> 's"
    and push_back :: "'h \<Rightarrow> 'n \<Rightarrow> 's \<Rightarrow> 's"
    and put_before :: "'n \<Rightarrow> 'n \<Rightarrow> 's \<Rightarrow> 's"
    and unlink :: "'n \<Rightarrow> 's \<Rightarrow> 's"
    and is_empty :: "'h \<Rightarrow> 's \<Rightarrow> bool"
    and front :: "'h \<Rightarrow> 's \<Rightarrow> 'n option"
  assumes rep_ok: "rep s F \<Longrightarrow> family_ok F"
    and rep_push_front: "rep s F \<Longrightarrow> unlinked n F \<Longrightarrow> rep (push_front h n s) (F(h := n # F h))"
    and rep_push_back: "rep s F \<Longrightarrow> unlinked n F \<Longrightarrow> rep (push_back h n s) (F(h := F h @ [n]))"
    and rep_put_before: "rep s F \<Longrightarrow> unlinked n F \<Longrightarrow> F h = xs @ p # ys \<Longrightarrow>
          rep (put_before p n s) (F(h := xs @ n # p # ys))"
    and rep_unlink: "rep s F \<Longrightarrow> rep (unlink n s) (family_remove n F)"
    and is_empty_iff: "rep s F \<Longrightarrow> is_empty h s \<longleftrightarrow> F h = []"
    and front_eq: "rep s F \<Longrightarrow> F h = n # xs \<Longrightarrow> front h s = Some n"
begin

text \<open>Taking the first element off a list leaves the others, in order.\<close>

lemma rep_pop_front:
  assumes "rep s F" "F h = n # xs"
  shows "front h s = Some n" and "rep (unlink n s) (F(h := xs))"
proof -
  show "front h s = Some n"
    by (rule front_eq [OF assms])
  have "family_remove n F = F(h := xs)"
  proof
    fix k
    show "family_remove n F k = (F(h := xs)) k"
      using rep_ok [OF assms(1)] assms(2) unfolding family_ok_def family_remove_def
      by (cases "k = h") (auto intro!: removeAll_id, (metis list.set_intros(1) distinct.simps(2))+)
  qed
  then show "rep (unlink n s) (F(h := xs))"
    using rep_unlink [OF assms(1), of n] by simp
qed

text \<open>Moving an element to another list: the round trip of suspend and resume.\<close>

lemma rep_move_back:
  assumes "rep s F"
  shows "rep (push_back h n (unlink n s)) ((family_remove n F)(h := removeAll n (F h) @ [n]))"
  using rep_push_back [OF rep_unlink [OF assms] unlinked_remove, of h n] by (simp add: family_remove_def)

text \<open>The search loop of the ordered lists: stop at the first element that passes the test.\<close>

lemma rep_insert_where:
  assumes "rep s F" "unlinked n F"
  shows "rep (case dropWhile (\<lambda>y. \<not> P y) (F h) of [] \<Rightarrow> push_back h n s | p # _ \<Rightarrow> put_before p n s)
             (F(h := insert_where P n (F h)))"
proof (cases "dropWhile (\<lambda>y. \<not> P y) (F h)")
  case Nil
  then have "takeWhile (\<lambda>y. \<not> P y) (F h) = F h"
    by (metis takeWhile_dropWhile_id append_Nil2)
  then show ?thesis
    unfolding insert_where_split using rep_push_back [OF assms, of h]
    by (metis (no_types, lifting) Nil list.simps(4))
next
  case (Cons p ys)
  then have "F h = takeWhile (\<lambda>y. \<not> P y) (F h) @ p # ys"
    by (metis takeWhile_dropWhile_id)
  from rep_put_before [OF assms this] show ?thesis
    unfolding insert_where_split Cons by simp
qed

end

section \<open>The pointer functions keep the interface\<close>

definition heap_rep :: "('h, 'n) heap \<Rightarrow> ('h \<Rightarrow> 'n list) \<Rightarrow> bool" where
  "heap_rep m F \<longleftrightarrow> family_ok F \<and>
    (\<forall>h. clist m (HeadAt h) (map NodeAt (F h))) \<and>
    (\<forall>n. unlinked n F \<longrightarrow> clist m (NodeAt n) [])"

definition heap_front :: "'h \<Rightarrow> ('h, 'n) heap \<Rightarrow> 'n option" where
  "heap_front h m = (case nxt m (HeadAt h) of NodeAt n \<Rightarrow> Some n | HeadAt _ \<Rightarrow> None)"

lemma unlinked_upd:
  "unlinked k (F(h := ys)) \<longleftrightarrow> k \<notin> set ys \<and> (\<forall>g. g \<noteq> h \<longrightarrow> k \<notin> set (F g))"
  by (auto simp: unlinked_def)

text \<open>
  An insertion writes only the links of the new node and of the list it goes
  to, so the other lists and the unlinked nodes stay as they are.
\<close>

lemma heap_rep_insert:
  assumes rep: "heap_rep m F" and new: "unlinked n F"
    and target: "clist m' (HeadAt h) (map NodeAt ys)"
    and perm: "set ys = insert n (set (F h))" "distinct ys"
    and frame: "\<And>a. a \<noteq> HeadAt h \<Longrightarrow> a \<noteq> NodeAt n \<Longrightarrow> a \<notin> NodeAt ` set (F h) \<Longrightarrow>
                  nxt m' a = nxt m a \<and> prv m' a = prv m a"
  shows "heap_rep m' (F(h := ys))"
proof -
  have ok: "family_ok F"
    using rep by (simp add: heap_rep_def)
  have others: "clist m' (HeadAt k) (map NodeAt (F k))" if "k \<noteq> h" for k
  proof -
    have disj: "\<And>x. x \<in> set (F k) \<Longrightarrow> x \<notin> set (F h) \<and> x \<noteq> n"
      using ok new that by (auto simp: family_ok_def unlinked_def)
    have "clist m' (HeadAt k) (map NodeAt (F k)) = clist m (HeadAt k) (map NodeAt (F k))"
      by (rule clist_frame, rule frame) (use disj that in auto)
    then show ?thesis
      using rep by (simp add: heap_rep_def)
  qed
  have free: "clist m' (NodeAt k) []" if "unlinked k (F(h := ys))" for k
  proof -
    have k: "k \<noteq> n" "k \<notin> set (F h)" "unlinked k F"
      using that perm unfolding unlinked_upd by (auto simp: unlinked_def)
    have "clist m' (NodeAt k) [] = clist m (NodeAt k) []"
      by (rule clist_frame, rule frame) (use k in auto)
    then show ?thesis
      using rep k by (simp add: heap_rep_def)
  qed
  show ?thesis
    unfolding heap_rep_def using family_ok_insert [OF ok new perm(2,1)] target others free by auto
qed

lemma heap_rep_clist: "heap_rep m F \<Longrightarrow> clist m (HeadAt h) (map NodeAt (F h))"
  by (simp add: heap_rep_def)

lemma heap_rep_ok: "heap_rep m F \<Longrightarrow> family_ok F"
  by (simp add: heap_rep_def)

lemma clist_next_in: "clist m l xs \<Longrightarrow> nxt m l \<in> insert l (set xs)"
  using dseg_first [of m l xs l] by (cases xs) (auto simp: clist_def)

lemma clist_prev_in: "clist m l xs \<Longrightarrow> prv m l \<in> insert l (set xs)"
  using dseg_last [of m l xs l] by (auto simp: clist_def)

lemma clist_prev_node: "clist m l (xs @ p # ys) \<Longrightarrow> prv m p = last (l # xs)"
  using dseg_last [of m l xs p] by (simp add: clist_def)

lemma clist_next_node: "clist m l (xs @ p # ys) \<Longrightarrow> nxt m p = hd (ys @ [l])"
  using dseg_first [of m p ys l] by (simp add: clist_def)

lemma heap_rep_insert_after:
  assumes "heap_rep m F" "unlinked n F"
  shows "heap_rep (rt_list_insert_after (HeadAt h) (NodeAt n) m) (F(h := n # F h))"
proof (rule heap_rep_insert [OF assms])
  have c: "clist m (HeadAt h) (map NodeAt (F h))" and n: "n \<notin> set (F h)"
    using assms by (auto simp: heap_rep_def unlinked_def)
  show "clist (rt_list_insert_after (HeadAt h) (NodeAt n) m) (HeadAt h) (map NodeAt (n # F h))"
    using clist_insert_after [OF c, of "NodeAt n"] n by auto
  show "distinct (n # F h)"
    using assms n by (auto simp: heap_rep_def family_ok_def)
  fix a :: "('a, 'b) addr"
  assume "a \<noteq> HeadAt h" "a \<noteq> NodeAt n" "a \<notin> NodeAt ` set (F h)"
  then show "nxt (rt_list_insert_after (HeadAt h) (NodeAt n) m) a = nxt m a \<and>
             prv (rt_list_insert_after (HeadAt h) (NodeAt n) m) a = prv m a"
    using clist_next_in [OF c] by (auto simp: links_insert_after)
qed simp

lemma heap_rep_insert_before:
  assumes "heap_rep m F" "unlinked n F"
  shows "heap_rep (rt_list_insert_before (HeadAt h) (NodeAt n) m) (F(h := F h @ [n]))"
proof (rule heap_rep_insert [OF assms])
  have c: "clist m (HeadAt h) (map NodeAt (F h))" and n: "n \<notin> set (F h)"
    using assms by (auto simp: heap_rep_def unlinked_def)
  show "clist (rt_list_insert_before (HeadAt h) (NodeAt n) m) (HeadAt h) (map NodeAt (F h @ [n]))"
    using clist_insert_before [OF c, of "NodeAt n"] n by auto
  show "distinct (F h @ [n])"
    using assms n by (auto simp: heap_rep_def family_ok_def)
  fix a :: "('a, 'b) addr"
  assume "a \<noteq> HeadAt h" "a \<noteq> NodeAt n" "a \<notin> NodeAt ` set (F h)"
  then show "nxt (rt_list_insert_before (HeadAt h) (NodeAt n) m) a = nxt m a \<and>
             prv (rt_list_insert_before (HeadAt h) (NodeAt n) m) a = prv m a"
    using clist_prev_in [OF c] by (auto simp: links_insert_before)
qed simp

lemma heap_rep_put_before:
  assumes "heap_rep m F" "unlinked n F" "F h = xs @ p # ys"
  shows "heap_rep (rt_list_insert_before (NodeAt p) (NodeAt n) m) (F(h := xs @ n # p # ys))"
proof (rule heap_rep_insert [OF assms(1,2)])
  have c: "clist m (HeadAt h) (map NodeAt xs @ NodeAt p # map NodeAt ys)"
    using heap_rep_clist [OF assms(1), of h] assms(3) by simp
  have "n \<notin> set (F h)"
    using assms(2) by (simp add: unlinked_def)
  then have n: "n \<notin> set (xs @ p # ys)"
    by (simp add: assms(3))
  show "clist (rt_list_insert_before (NodeAt p) (NodeAt n) m) (HeadAt h) (map NodeAt (xs @ n # p # ys))"
    using clist_insert_before_node [OF c, of "NodeAt n"] n by auto
  have "distinct (F h)"
    using assms(1) by (auto simp: heap_rep_def family_ok_def)
  with assms(3) n show "distinct (xs @ n # p # ys)"
    by auto
  show "set (xs @ n # p # ys) = insert n (set (F h))"
    using assms(3) by auto
  fix a :: "('a, 'b) addr"
  assume a: "a \<noteq> HeadAt h" "a \<noteq> NodeAt n" "a \<notin> NodeAt ` set (F h)"
  have "prv m (NodeAt p) \<in> insert (HeadAt h) (NodeAt ` set xs)"
    unfolding clist_prev_node [OF c] using last_in_set [of "map NodeAt xs"] by auto
  with a n assms(3) show "nxt (rt_list_insert_before (NodeAt p) (NodeAt n) m) a = nxt m a \<and>
             prv (rt_list_insert_before (NodeAt p) (NodeAt n) m) a = prv m a"
    by (auto simp: links_insert_before)
qed

lemma heap_rep_remove_unlinked:
  assumes "heap_rep m F" "unlinked n F"
  shows "heap_rep (rt_list_remove (NodeAt n) m) (family_remove n F)"
proof -
  have "clist m (NodeAt n) []"
    using assms by (simp add: heap_rep_def)
  then have "nxt (rt_list_remove (NodeAt n) m) = nxt m" "prv (rt_list_remove (NodeAt n) m) = prv m"
    by (simp_all add: links_remove clist_def fun_upd_idem)
  then have "clist (rt_list_remove (NodeAt n) m) l xs = clist m l xs" for l xs
    by (intro clist_frame) simp
  with assms show ?thesis
    by (simp add: heap_rep_def family_remove_unlinked)
qed

lemma heap_rep_remove_linked:
  assumes rep: "heap_rep m F" and F: "F h = xs @ n # ys"
  shows "heap_rep (rt_list_remove (NodeAt n) m) (family_remove n F)"
proof -
  let ?m = "rt_list_remove (NodeAt n) m"
  have ok: "family_ok F" and c: "clist m (HeadAt h) (map NodeAt xs @ NodeAt n # map NodeAt ys)"
    using rep heap_rep_clist [OF rep, of h] F by (auto simp: heap_rep_def)
  have dist: "distinct (xs @ n # ys)"
    using ok F by (metis family_ok_def)
  have touched: "prv m (NodeAt n) \<in> insert (HeadAt h) (NodeAt ` set (F h))"
    "nxt m (NodeAt n) \<in> insert (HeadAt h) (NodeAt ` set (F h))"
    unfolding clist_prev_node [OF c] clist_next_node [OF c] F
    using last_in_set [of "map NodeAt xs"] by (auto simp: hd_append hd_map)
  have frame: "nxt ?m a = nxt m a \<and> prv ?m a = prv m a"
    if "a \<noteq> HeadAt h" "a \<notin> NodeAt ` set (F h)" for a
    using touched that F by (auto simp: links_remove)
  have lists: "clist ?m (HeadAt k) (map NodeAt (family_remove n F k))" for k
  proof (cases "k = h")
    case True
    then show ?thesis
      using clist_remove(1) [OF c] removeAll_split [OF dist] F by (simp add: family_remove_def)
  next
    case False
    have disj: "x \<notin> set (F h)" if "x \<in> set (F k)" for x
      using ok False that by (auto simp: family_ok_def)
    have same: "removeAll n (F k) = F k"
      using disj F by (intro removeAll_id) auto
    have "clist ?m (HeadAt k) (map NodeAt (F k)) = clist m (HeadAt k) (map NodeAt (F k))"
      by (rule clist_frame, rule frame) (use disj False in auto)
    then show ?thesis
      using heap_rep_clist [OF rep] by (simp add: same family_remove_def)
  qed
  have free: "clist ?m (NodeAt k) []" if "unlinked k (family_remove n F)" for k
  proof (cases "k = n")
    case True
    then show ?thesis using clist_remove(2) [OF c] by simp
  next
    case False
    with that have u: "unlinked k F"
      by (auto simp: unlinked_def family_remove_def)
    have "clist ?m (NodeAt k) [] = clist m (NodeAt k) []"
      by (rule clist_frame, rule frame) (use u in \<open>auto simp: unlinked_def\<close>)
    then show ?thesis
      using rep u by (simp add: heap_rep_def)
  qed
  show ?thesis
    unfolding heap_rep_def using family_ok_remove [OF ok] lists free by auto
qed

lemma heap_rep_remove:
  assumes "heap_rep m F"
  shows "heap_rep (rt_list_remove (NodeAt n) m) (family_remove n F)"
proof (cases "unlinked n F")
  case True
  with assms show ?thesis by (rule heap_rep_remove_unlinked)
next
  case False
  then obtain h where "n \<in> set (F h)"
    by (auto simp: unlinked_def)
  then obtain xs ys where "F h = xs @ n # ys"
    by (meson split_list)
  with assms show ?thesis by (rule heap_rep_remove_linked)
qed

interpretation ptr: list_family heap_rep
  "\<lambda>h n. rt_list_insert_after (HeadAt h) (NodeAt n)"
  "\<lambda>h n. rt_list_insert_before (HeadAt h) (NodeAt n)"
  "\<lambda>p n. rt_list_insert_before (NodeAt p) (NodeAt n)"
  "\<lambda>n. rt_list_remove (NodeAt n)"
  "\<lambda>h. rt_list_isempty (HeadAt h)"
  heap_front
proof unfold_locales
  show "rt_list_isempty (HeadAt h) s \<longleftrightarrow> F h = []" if "heap_rep s F"
    for s :: "('h, 'n) heap" and F h
    using clist_isempty [OF heap_rep_clist [OF that]] by simp
  show "heap_front h s = Some n" if "heap_rep s F" "F h = n # xs"
    for s :: "('h, 'n) heap" and F h n xs
    using clist_next [of s "HeadAt h"] heap_rep_clist [OF that(1), of h] that(2)
    by (simp add: heap_front_def)
qed (auto intro: heap_rep_ok heap_rep_insert_after heap_rep_insert_before
       heap_rep_put_before heap_rep_remove)

end
