(* ===== verification/KernelState.thy ===== *)
theory KernelState
  imports RtList
begin

text \<open>
  The state of the kernel: the structures of \<^verbatim>\<open>include/rtdef.h\<close> as records, the
  static variables of the kernel sources as fields of one record, and the
  constants of the build \<^verbatim>\<open>bsp/allwinner/d1s_d1h/rtconfig.h\<close> (64-bit, one CPU,
  32 priorities, 100 ticks per second, RT-Smart, no stack overflow check).

  Objects are named by identifiers that stand for their addresses.  The
  intrusive lists through \<^verbatim>\<open>thread->tlist\<close>, \<^verbatim>\<open>timer->row\<close> and \<^verbatim>\<open>object->list\<close> are
  families of HOL lists indexed by the list head; they keep the interface
  \<^verbatim>\<open>list_family\<close> that the pointer functions keep.
\<close>

section \<open>Constants\<close>

type_synonym err = int

definition RT_EOK :: err where [rt_consts]: "RT_EOK = 0"
definition RT_ERROR :: err where [rt_consts]: "RT_ERROR = 1"
definition RT_ETIMEOUT :: err where [rt_consts]: "RT_ETIMEOUT = 2"
definition RT_EFULL :: err where [rt_consts]: "RT_EFULL = 3"
definition RT_EEMPTY :: err where [rt_consts]: "RT_EEMPTY = 4"
definition RT_ENOMEM :: err where [rt_consts]: "RT_ENOMEM = 5"
definition RT_ENOSYS :: err where [rt_consts]: "RT_ENOSYS = 6"
definition RT_EBUSY :: err where [rt_consts]: "RT_EBUSY = 7"
definition RT_EIO :: err where [rt_consts]: "RT_EIO = 8"
definition RT_EINTR :: err where [rt_consts]: "RT_EINTR = 9"
definition RT_EINVAL :: err where [rt_consts]: "RT_EINVAL = 10"
definition RT_ENOENT :: err where [rt_consts]: "RT_ENOENT = 11"
definition RT_ENOSPC :: err where [rt_consts]: "RT_ENOSPC = 12"
definition RT_EPERM :: err where [rt_consts]: "RT_EPERM = 13"
definition RT_ETRAP :: err where [rt_consts]: "RT_ETRAP = 14"

declare rt_consts [simp]

abbreviation (input) RT_THREAD_PRIORITY_MAX :: nat where "RT_THREAD_PRIORITY_MAX \<equiv> 32"
abbreviation (input) RT_TICK_PER_SECOND :: int where "RT_TICK_PER_SECOND \<equiv> 100"
abbreviation (input) RT_NAME_MAX :: nat where "RT_NAME_MAX \<equiv> 20"
abbreviation (input) RT_TICK_MAX :: "32 word" where "RT_TICK_MAX \<equiv> 0xffffffff"
abbreviation (input) RT_TICK_HALF :: "32 word" where "RT_TICK_HALF \<equiv> 0x7fffffff"
abbreviation (input) RT_WAITING_FOREVER :: int where "RT_WAITING_FOREVER \<equiv> -1"
abbreviation (input) RT_WAITING_NO :: int where "RT_WAITING_NO \<equiv> 0"

abbreviation (input) RT_THREAD_INIT :: "8 word" where "RT_THREAD_INIT \<equiv> 0"
abbreviation (input) RT_THREAD_CLOSE :: "8 word" where "RT_THREAD_CLOSE \<equiv> 1"
abbreviation (input) RT_THREAD_READY :: "8 word" where "RT_THREAD_READY \<equiv> 2"
abbreviation (input) RT_THREAD_RUNNING :: "8 word" where "RT_THREAD_RUNNING \<equiv> 3"
abbreviation (input) RT_THREAD_SUSPEND_MASK :: "8 word" where "RT_THREAD_SUSPEND_MASK \<equiv> 4"
abbreviation (input) RT_THREAD_SUSPEND_INTERRUPTIBLE :: "8 word" where "RT_THREAD_SUSPEND_INTERRUPTIBLE \<equiv> 4"
abbreviation (input) RT_THREAD_SUSPEND_KILLABLE :: "8 word" where "RT_THREAD_SUSPEND_KILLABLE \<equiv> 6"
abbreviation (input) RT_THREAD_SUSPEND_UNINTERRUPTIBLE :: "8 word" where "RT_THREAD_SUSPEND_UNINTERRUPTIBLE \<equiv> 7"
abbreviation (input) RT_THREAD_STAT_MASK :: "8 word" where "RT_THREAD_STAT_MASK \<equiv> 7"
abbreviation (input) RT_THREAD_STAT_YIELD :: "8 word" where "RT_THREAD_STAT_YIELD \<equiv> 8"
abbreviation (input) RT_THREAD_STAT_SIGNAL :: "8 word" where "RT_THREAD_STAT_SIGNAL \<equiv> 0x10"
abbreviation (input) RT_THREAD_STAT_SIGNAL_PENDING :: "8 word" where "RT_THREAD_STAT_SIGNAL_PENDING \<equiv> 0x40"

abbreviation (input) RT_INTERRUPTIBLE :: int where "RT_INTERRUPTIBLE \<equiv> 0"
abbreviation (input) RT_KILLABLE :: int where "RT_KILLABLE \<equiv> 1"
abbreviation (input) RT_UNINTERRUPTIBLE :: int where "RT_UNINTERRUPTIBLE \<equiv> 2"

abbreviation (input) RT_TIMER_FLAG_ACTIVATED :: "8 word" where "RT_TIMER_FLAG_ACTIVATED \<equiv> 1"
abbreviation (input) RT_TIMER_FLAG_PERIODIC :: "8 word" where "RT_TIMER_FLAG_PERIODIC \<equiv> 2"
abbreviation (input) RT_TIMER_FLAG_SOFT_TIMER :: "8 word" where "RT_TIMER_FLAG_SOFT_TIMER \<equiv> 4"

abbreviation (input) RT_IPC_FLAG_FIFO :: "8 word" where "RT_IPC_FLAG_FIFO \<equiv> 0"
abbreviation (input) RT_IPC_FLAG_PRIO :: "8 word" where "RT_IPC_FLAG_PRIO \<equiv> 1"
abbreviation (input) RT_IPC_CMD_RESET :: int where "RT_IPC_CMD_RESET \<equiv> 1"

abbreviation (input) RT_Object_Class_Thread :: "8 word" where "RT_Object_Class_Thread \<equiv> 1"
abbreviation (input) RT_Object_Class_Semaphore :: "8 word" where "RT_Object_Class_Semaphore \<equiv> 2"
abbreviation (input) RT_Object_Class_Mutex :: "8 word" where "RT_Object_Class_Mutex \<equiv> 3"
abbreviation (input) RT_Object_Class_Event :: "8 word" where "RT_Object_Class_Event \<equiv> 4"
abbreviation (input) RT_Object_Class_MailBox :: "8 word" where "RT_Object_Class_MailBox \<equiv> 5"
abbreviation (input) RT_Object_Class_MessageQueue :: "8 word" where "RT_Object_Class_MessageQueue \<equiv> 6"
abbreviation (input) RT_Object_Class_MemPool :: "8 word" where "RT_Object_Class_MemPool \<equiv> 8"
abbreviation (input) RT_Object_Class_Device :: "8 word" where "RT_Object_Class_Device \<equiv> 9"
abbreviation (input) RT_Object_Class_Timer :: "8 word" where "RT_Object_Class_Timer \<equiv> 0xa"
abbreviation (input) RT_Object_Class_Memory :: "8 word" where "RT_Object_Class_Memory \<equiv> 0xc"
abbreviation (input) RT_Object_Class_Channel :: "8 word" where "RT_Object_Class_Channel \<equiv> 0xd"
abbreviation (input) RT_Object_Class_Custom :: "8 word" where "RT_Object_Class_Custom \<equiv> 0xe"
abbreviation (input) RT_Object_Class_Static :: "8 word" where "RT_Object_Class_Static \<equiv> 0x80"

section \<open>Identifiers\<close>

type_synonym tid = nat

datatype timer_id = ThreadTimer tid | UserTimer nat

datatype obj_id = OThread tid | OTimer timer_id | OSem nat | OMutex nat | OEvent nat
  | OMailbox nat | OMq nat | OMempool nat | OOther nat

datatype list_id = Ready nat | SemWait nat | MutexWait nat | EventWait nat
  | MbRecv nat | MbSend nat | MqRecv nat | MqSend nat | MpWait nat | CompWait nat | DqPush nat
  | DqPop nat | Defunct

datatype tlist_id = HardTimers | SoftTimers | HardPending | SoftPending

datatype argument = ArgThread tid | ArgNum "64 word"

datatype timeout_fn = thread_timeout_fn | user_fn nat

text \<open>\<^verbatim>\<open>RT_ALIGN\<close> on \<^verbatim>\<open>rt_size_t\<close> values.\<close>

definition RT_ALIGN :: "64 word \<Rightarrow> 64 word \<Rightarrow> 64 word" where
  "RT_ALIGN sz align = (sz + align - 1) AND NOT (align - 1)"

section \<open>Structures\<close>

record rt_object =
  obj_name :: string
  obj_type :: "8 word"
  obj_flag :: "8 word"

record rt_thread =
  stat :: "8 word"
  current_priority :: "8 word"
  init_priority :: "8 word"
  number_mask :: "32 word"
  taken_object_list :: "nat list"
  pending_object :: "obj_id option"
  event_set :: "32 word"
  event_info :: "8 word"
  thr_init_tick :: "64 word"
  remaining_tick :: "64 word"
  thr_error :: err
  entry :: "64 word"
  thr_parameter :: "64 word"
  stack_addr :: "64 word"
  stack_size :: "32 word"
  cleanup :: "nat option"
  wakeup_func :: "nat option"
  wakeup_data :: "64 word"
  lwp :: "nat option"
  sigq_pending :: "64 word"

record rt_timer =
  timeout_func :: timeout_fn
  parameter :: argument
  init_tick :: "32 word"
  timeout_tick :: "32 word"

record rt_semaphore =
  sem_value :: "16 word"

record rt_mutex =
  ceiling_priority :: "8 word"
  mtx_priority :: "8 word"
  hold :: "8 word"
  owner :: "tid option"

record rt_event =
  ev_set :: "32 word"

record rt_mailbox =
  mb_pool :: "64 word list"
  mb_size :: "16 word"
  mb_entry :: "16 word"
  in_offset :: "16 word"
  out_offset :: "16 word"

record rt_mq_message =
  msg_next :: "nat option"
  msg_length :: "64 word"
  msg_prio :: int
  msg_data :: "8 word list"

record rt_messagequeue =
  mq_pool :: "rt_mq_message list"
  msg_size :: "16 word"
  max_msgs :: "16 word"
  mq_entry :: "16 word"
  msg_queue_head :: "nat option"
  msg_queue_tail :: "nat option"
  msg_queue_free :: "nat option"

record kernel =
  threads :: "tid \<Rightarrow> rt_thread"
  timers :: "timer_id \<Rightarrow> rt_timer"
  objs :: "obj_id \<Rightarrow> rt_object"
  object_list :: "8 word \<Rightarrow> obj_id list"
  lists :: "list_id \<Rightarrow> tid list"
  timer_lists :: "tlist_id \<Rightarrow> timer_id list"
  rt_thread_ready_priority_group :: "32 word"
  rt_current_thread :: "tid option"
  rt_current_priority :: "8 word"
  rt_scheduler_lock_nest :: "16 word"
  rt_interrupt_nest :: "8 word"
  rt_tick :: "32 word"
  soft_timer_busy :: bool
  random_nr :: "32 word"
  lwp_pending :: "nat \<Rightarrow> 64 word"
  sems :: "nat \<Rightarrow> rt_semaphore"
  mutexes :: "nat \<Rightarrow> rt_mutex"
  events :: "nat \<Rightarrow> rt_event"
  mailboxes :: "nat \<Rightarrow> rt_mailbox"
  mqs :: "nat \<Rightarrow> rt_messagequeue"
  global_errno :: err

text \<open>The statically allocated threads of \<^verbatim>\<open>idle.c\<close> and \<^verbatim>\<open>timer.c\<close>.\<close>

definition idle_thread :: tid where "idle_thread = 0"
definition timer_thread :: tid where "timer_thread = 1"

section \<open>Field updates\<close>

abbreviation thr :: "kernel \<Rightarrow> tid \<Rightarrow> rt_thread" where "thr s t \<equiv> threads s t"

definition upd_thread :: "tid \<Rightarrow> (rt_thread \<Rightarrow> rt_thread) \<Rightarrow> kernel \<Rightarrow> kernel" where
  "upd_thread t f s = s\<lparr>threads := (threads s)(t := f (threads s t))\<rparr>"

definition upd_timer :: "timer_id \<Rightarrow> (rt_timer \<Rightarrow> rt_timer) \<Rightarrow> kernel \<Rightarrow> kernel" where
  "upd_timer t f s = s\<lparr>timers := (timers s)(t := f (timers s t))\<rparr>"

definition upd_obj :: "obj_id \<Rightarrow> (rt_object \<Rightarrow> rt_object) \<Rightarrow> kernel \<Rightarrow> kernel" where
  "upd_obj a f s = s\<lparr>objs := (objs s)(a := f (objs s a))\<rparr>"

declare upd_thread_def [simp] upd_timer_def [simp] upd_obj_def [simp]

text \<open>The thread lists of the kernel: operations on the family of lists through \<^verbatim>\<open>tlist\<close>.\<close>

definition tl_push_front :: "list_id \<Rightarrow> tid \<Rightarrow> kernel \<Rightarrow> kernel" where
  "tl_push_front l t s = s\<lparr>lists := (lists s)(l := t # lists s l)\<rparr>"

definition tl_push_back :: "list_id \<Rightarrow> tid \<Rightarrow> kernel \<Rightarrow> kernel" where
  "tl_push_back l t s = s\<lparr>lists := (lists s)(l := lists s l @ [t])\<rparr>"

definition put_before_in :: "'a \<Rightarrow> 'a \<Rightarrow> 'a list \<Rightarrow> 'a list" where
  "put_before_in p t xs =
     (if p \<in> set xs then takeWhile (\<lambda>x. x \<noteq> p) xs @ t # dropWhile (\<lambda>x. x \<noteq> p) xs else xs)"

definition tl_put_before :: "tid \<Rightarrow> tid \<Rightarrow> kernel \<Rightarrow> kernel" where
  "tl_put_before p t s = s\<lparr>lists := (\<lambda>l. put_before_in p t (lists s l))\<rparr>"

definition tl_remove :: "tid \<Rightarrow> kernel \<Rightarrow> kernel" where
  "tl_remove t s = s\<lparr>lists := family_remove t (lists s)\<rparr>"

definition tl_isempty :: "list_id \<Rightarrow> kernel \<Rightarrow> bool" where
  "tl_isempty l s \<longleftrightarrow> lists s l = []"

definition tl_first :: "list_id \<Rightarrow> kernel \<Rightarrow> tid option" where
  "tl_first l s = (case lists s l of [] \<Rightarrow> None | t # _ \<Rightarrow> Some t)"

definition kernel_rep :: "kernel \<Rightarrow> (list_id \<Rightarrow> tid list) \<Rightarrow> bool" where
  "kernel_rep s F \<longleftrightarrow> lists s = F \<and> family_ok F"

lemma put_before_in_split:
  "p \<notin> set xs \<Longrightarrow> put_before_in p t (xs @ p # ys) = xs @ t # p # ys"
  unfolding put_before_in_def by (induction xs) auto

interpretation klist: list_family kernel_rep tl_push_front tl_push_back tl_put_before
  tl_remove tl_isempty tl_first
proof unfold_locales
  fix s :: kernel and F and n p :: tid and h xs ys
  assume rep: "kernel_rep s F" and new: "unlinked n F" and F: "F h = xs @ p # ys"
  have ok: "family_ok F" and lists: "lists s = F"
    using rep by (simp_all add: kernel_rep_def)
  have dist: "distinct (F h)"
    using ok unfolding family_ok_def by blast
  have "n \<notin> set (F h)"
    using new by (simp add: unlinked_def)
  then have fresh: "n \<notin> set xs" "n \<noteq> p" "n \<notin> set ys"
    by (simp_all add: F)
  have other: "p \<notin> set (F k)" if "k \<noteq> h" for k
    using ok F that unfolding family_ok_def by (metis in_set_conv_decomp)
  have "put_before_in p n (F k) = (F(h := xs @ n # p # ys)) k" for k
    using dist F other put_before_in_split [of p xs n ys]
    by (cases "k = h") (auto simp: put_before_in_def)
  moreover have "family_ok (F(h := xs @ n # p # ys))"
    by (rule family_ok_insert [OF ok new]) (use dist F fresh in auto)
  ultimately show "kernel_rep (tl_put_before p n s) (F(h := xs @ n # p # ys))"
    by (simp add: kernel_rep_def tl_put_before_def lists fun_eq_iff)
qed (auto simp: kernel_rep_def tl_push_front_def tl_push_back_def tl_remove_def tl_isempty_def
       tl_first_def family_ok_remove unlinked_def family_ok_def [of "lists _"]
       intro!: family_ok_insert)

section \<open>The state at reset, and a small running system\<close>

text \<open>
  \<^verbatim>\<open>kernel_reset\<close> is the zero-initialised image with empty lists;
  \<^verbatim>\<open>small_system\<close> is a consistent running state on which the properties are
  instantiated: thread 2 runs at priority 10, threads 3 and 4 are ready at the
  same priority, the idle thread is ready at priority 31.
\<close>

definition blank_thread :: rt_thread where
  "blank_thread = \<lparr>stat = 0, current_priority = 0, init_priority = 0, number_mask = 0,
     taken_object_list = [], pending_object = None, event_set = 0, event_info = 0,
     thr_init_tick = 0, remaining_tick = 0, thr_error = 0, entry = 0, thr_parameter = 0,
     stack_addr = 0, stack_size = 0, cleanup = None, wakeup_func = None, wakeup_data = 0,
     lwp = None, sigq_pending = 0\<rparr>"

definition kernel_reset :: kernel where
  "kernel_reset = \<lparr>
     threads = (\<lambda>_. blank_thread),
     timers = (\<lambda>_. \<lparr>timeout_func = user_fn 0, parameter = ArgNum 0, init_tick = 0, timeout_tick = 0\<rparr>),
     objs = (\<lambda>_. \<lparr>obj_name = [], obj_type = 0, obj_flag = 0\<rparr>),
     object_list = (\<lambda>_. []),
     lists = (\<lambda>_. []), timer_lists = (\<lambda>_. []),
     rt_thread_ready_priority_group = 0, rt_current_thread = None, rt_current_priority = 0,
     rt_scheduler_lock_nest = 0, rt_interrupt_nest = 0, rt_tick = 0,
     soft_timer_busy = False, random_nr = 0, lwp_pending = (\<lambda>_. 0),
     sems = (\<lambda>_. \<lparr>sem_value = 0\<rparr>),
     mutexes = (\<lambda>_. \<lparr>ceiling_priority = 0, mtx_priority = 0, hold = 0, owner = None\<rparr>),
     events = (\<lambda>_. \<lparr>ev_set = 0\<rparr>),
     mailboxes = (\<lambda>_. \<lparr>mb_pool = [], mb_size = 0, mb_entry = 0, in_offset = 0, out_offset = 0\<rparr>),
     mqs = (\<lambda>_. \<lparr>mq_pool = [], msg_size = 0, max_msgs = 0, mq_entry = 0,
                  msg_queue_head = None, msg_queue_tail = None, msg_queue_free = None\<rparr>),
     global_errno = 0\<rparr>"

definition sample_thread :: "8 word \<Rightarrow> 8 word \<Rightarrow> rt_thread" where
  "sample_thread st p = blank_thread\<lparr>stat := st, current_priority := p, init_priority := p,
     number_mask := push_bit (unat p) 1, thr_init_tick := 10, remaining_tick := 10\<rparr>"

fun sample_type :: "obj_id \<Rightarrow> 8 word" where
  "sample_type (OThread _) = RT_Object_Class_Static OR RT_Object_Class_Thread"
| "sample_type (OTimer _) = RT_Object_Class_Static OR RT_Object_Class_Timer"
| "sample_type (OSem _) = RT_Object_Class_Static OR RT_Object_Class_Semaphore"
| "sample_type (OMutex _) = RT_Object_Class_Static OR RT_Object_Class_Mutex"
| "sample_type (OEvent _) = RT_Object_Class_Static OR RT_Object_Class_Event"
| "sample_type (OMailbox _) = RT_Object_Class_Static OR RT_Object_Class_MailBox"
| "sample_type (OMq _) = RT_Object_Class_Static OR RT_Object_Class_MessageQueue"
| "sample_type (OMempool _) = RT_Object_Class_Static OR RT_Object_Class_MemPool"
| "sample_type (OOther _) = RT_Object_Class_Custom"

definition small_system :: kernel where
  "small_system = kernel_reset\<lparr>
     threads := (\<lambda>t. if t = 0 then sample_thread 2 31 else if t = 2 then sample_thread 3 10
                     else if t = 3 \<or> t = 4 then sample_thread 2 10 else blank_thread),
     timers := (\<lambda>t. case t of ThreadTimer n \<Rightarrow> \<lparr>timeout_func = thread_timeout_fn,
                       parameter = ArgThread n, init_tick = 0, timeout_tick = 0\<rparr>
                   | UserTimer n \<Rightarrow> \<lparr>timeout_func = user_fn n, parameter = ArgNum 0,
                       init_tick = 5, timeout_tick = 0\<rparr>),
     objs := (\<lambda>a. \<lparr>obj_name = [], obj_type = sample_type a, obj_flag = 0\<rparr>),
     lists := (\<lambda>_. [])(Ready 10 := [3, 4], Ready 31 := [0]),
     rt_thread_ready_priority_group := 0x80000400,
     rt_current_thread := Some 2, rt_current_priority := 10\<rparr>"

end
