(* ===== verification/Kservice.thy ===== *)
theory Kservice
  imports Prelude
begin

text \<open>
  Find-first-set of \<^verbatim>\<open>src/kservice.c\<close>: the byte-table routine the scheduler
  uses in this build, and the 37-entry routine of \<^verbatim>\<open>RT_USING_TINY_FFS\<close>.  Both
  return one plus the position of the lowest set bit, and zero for zero.
\<close>

section \<open>The byte table\<close>

definition lowest_bit_bitmap :: "nat list" where
  "lowest_bit_bitmap =
   [0, 0, 1, 0, 2, 0, 1, 0, 3, 0, 1, 0, 2, 0, 1, 0,
    4, 0, 1, 0, 2, 0, 1, 0, 3, 0, 1, 0, 2, 0, 1, 0,
    5, 0, 1, 0, 2, 0, 1, 0, 3, 0, 1, 0, 2, 0, 1, 0,
    4, 0, 1, 0, 2, 0, 1, 0, 3, 0, 1, 0, 2, 0, 1, 0,
    6, 0, 1, 0, 2, 0, 1, 0, 3, 0, 1, 0, 2, 0, 1, 0,
    4, 0, 1, 0, 2, 0, 1, 0, 3, 0, 1, 0, 2, 0, 1, 0,
    5, 0, 1, 0, 2, 0, 1, 0, 3, 0, 1, 0, 2, 0, 1, 0,
    4, 0, 1, 0, 2, 0, 1, 0, 3, 0, 1, 0, 2, 0, 1, 0,
    7, 0, 1, 0, 2, 0, 1, 0, 3, 0, 1, 0, 2, 0, 1, 0,
    4, 0, 1, 0, 2, 0, 1, 0, 3, 0, 1, 0, 2, 0, 1, 0,
    5, 0, 1, 0, 2, 0, 1, 0, 3, 0, 1, 0, 2, 0, 1, 0,
    4, 0, 1, 0, 2, 0, 1, 0, 3, 0, 1, 0, 2, 0, 1, 0,
    6, 0, 1, 0, 2, 0, 1, 0, 3, 0, 1, 0, 2, 0, 1, 0,
    4, 0, 1, 0, 2, 0, 1, 0, 3, 0, 1, 0, 2, 0, 1, 0,
    5, 0, 1, 0, 2, 0, 1, 0, 3, 0, 1, 0, 2, 0, 1, 0,
    4, 0, 1, 0, 2, 0, 1, 0, 3, 0, 1, 0, 2, 0, 1, 0]"

definition rt_ffs :: "32 word \<Rightarrow> nat" where
  "rt_ffs value =
    (if value = 0 then 0
     else if value AND 0xff \<noteq> 0 then lowest_bit_bitmap ! unat (value AND 0xff) + 1
     else if value AND 0xff00 \<noteq> 0 then lowest_bit_bitmap ! unat (drop_bit 8 (value AND 0xff00)) + 9
     else if value AND 0xff0000 \<noteq> 0 then lowest_bit_bitmap ! unat (drop_bit 16 (value AND 0xff0000)) + 17
     else lowest_bit_bitmap ! unat (drop_bit 24 (value AND 0xff000000)) + 25)"

definition lowest_bit_bitmap_tiny :: "nat list" where
  "lowest_bit_bitmap_tiny =
   [0,  1,  2, 27,  3, 24, 28, 32,
    4, 17, 25, 31, 29, 12, 32, 14,
    5,  8, 18, 32, 26, 23, 32, 16,
   30, 11, 13,  7, 32, 22, 15, 10,
    6, 21,  9, 20, 19]"

definition rt_ffs_tiny :: "32 word \<Rightarrow> nat" where
  "rt_ffs_tiny value = lowest_bit_bitmap_tiny ! (unat ((value AND (value - 1)) XOR value) mod 37)"

section \<open>What the table holds\<close>

definition lowest_bit :: "'a :: len word \<Rightarrow> nat \<Rightarrow> bool" where
  "lowest_bit w p \<longleftrightarrow> bit w p \<and> (\<forall>q < p. \<not> bit w q)"

lemma lowest_bit_unique: "lowest_bit w p \<Longrightarrow> lowest_bit w q \<Longrightarrow> p = q"
  unfolding lowest_bit_def by (metis linorder_neqE_nat)

lemma lowest_bit_exists: "w \<noteq> 0 \<Longrightarrow> \<exists>p. lowest_bit w p"
  unfolding lowest_bit_def
  by (metis (mono_tags, lifting) bit_word_eqI bit_0_eq bot_apply bot_bool_def exists_least_iff)

definition byte_entry_ok :: "nat \<times> nat \<Rightarrow> bool" where
  "byte_entry_ok = (\<lambda>(b, p). p < 8 \<and> odd (b div 2 ^ p) \<and> b mod 2 ^ p = 0)"

lemma byte_table: "list_all byte_entry_ok (zip [1..<256] (tl lowest_bit_bitmap))"
  unfolding lowest_bit_bitmap_def byte_entry_ok_def by (simp add: upt_rec)

lemma byte_table_entry:
  assumes "0 < b" "b < 256"
  shows "byte_entry_ok (b, lowest_bit_bitmap ! b)"
proof -
  have "length lowest_bit_bitmap = 256"
    by (simp add: lowest_bit_bitmap_def)
  moreover have "(b, lowest_bit_bitmap ! b) \<in> set (zip [1..<256] (tl lowest_bit_bitmap))"
    unfolding set_zip using assms calculation
    by (auto simp: nth_tl intro!: exI [of _ "b - 1"])
  ultimately show ?thesis
    using byte_table by (auto simp: list_all_iff)
qed

lemma lowest_bit_byte:
  fixes w :: "32 word"
  assumes "w \<noteq> 0" "unat w < 256"
  shows "lowest_bit w (lowest_bit_bitmap ! unat w) \<and> lowest_bit_bitmap ! unat w < 8"
proof -
  let ?p = "lowest_bit_bitmap ! unat w"
  have e: "?p < 8" "odd (unat w div 2 ^ ?p)" "unat w mod 2 ^ ?p = 0"
    using byte_table_entry [of "unat w"] assms
    by (auto simp: byte_entry_ok_def unat_eq_0 zero_less_iff_neq_zero)
  have "bit (unat w) ?p"
    using e by (simp add: bit_iff_odd)
  moreover have "\<not> bit (unat w) q" if "q < ?p" for q
  proof -
    have "bit (take_bit ?p (unat w)) q \<longleftrightarrow> bit (unat w) q"
      using that by (simp add: bit_take_bit_iff)
    moreover have "take_bit ?p (unat w) = 0"
      using e by (simp add: take_bit_eq_mod)
    ultimately show ?thesis by simp
  qed
  ultimately show ?thesis
    using e by (auto simp: lowest_bit_def bit_unsigned_iff)
qed

text \<open>Byte \<open>k\<close> of a word whose lower bytes are zero decides the lowest set bit.\<close>

lemma lowest_bit_shifted:
  fixes v :: "32 word"
  assumes "lowest_bit (drop_bit n v AND 0xff) p" "\<And>q. q < n \<Longrightarrow> \<not> bit v q" "p < 8"
  shows "lowest_bit v (p + n)"
  unfolding lowest_bit_def
proof (intro conjI allI impI)
  have mask8: "(0xff :: 32 word) = mask 8"
    by (simp add: mask_eq_exp_minus_1)
  show "bit v (p + n)"
    using assms(1) by (simp add: lowest_bit_def bit_and_iff bit_drop_bit_eq add.commute)
  fix q
  assume q: "q < p + n"
  show "\<not> bit v q"
  proof (cases "q < n")
    case True
    then show ?thesis by (rule assms(2))
  next
    case False
    then have "\<not> bit (drop_bit n v AND 0xff) (q - n)"
      using assms(1) q by (auto simp: lowest_bit_def)
    moreover have "q - n < 8"
      using False q assms(3) by linarith
    ultimately have "\<not> bit v (n + (q - n))"
      unfolding mask8 by (simp add: bit_and_iff bit_drop_bit_eq bit_mask_iff)
    with False show ?thesis by simp
  qed
qed

lemma byte_zero_bits:
  fixes v :: "32 word"
  assumes "drop_bit n v AND 0xff = 0" "n \<le> q" "q < n + 8"
  shows "\<not> bit v q"
proof -
  have "\<not> bit (drop_bit n v AND mask 8) (q - n)"
    using assms(1) by (simp add: mask_eq_exp_minus_1)
  then have "\<not> bit (drop_bit n v) (q - n)"
    using assms(2,3) by (auto simp: bit_and_iff bit_mask_iff dest: bit_imp_le_length)
  then show ?thesis
    using assms(2) by (simp add: bit_drop_bit_eq)
qed

lemma and_push_bit_field:
  "(v :: 'a :: len word) AND push_bit n m = push_bit n (drop_bit n v AND m)"
  by (rule bit_word_eqI) (auto simp: bit_and_iff bit_push_bit_iff bit_drop_bit_eq)

lemma byte_fields:
  fixes v :: "32 word"
  shows "drop_bit 8 (v AND 0xff00) = drop_bit 8 v AND 0xff"
    and "drop_bit 16 (v AND 0xff0000) = drop_bit 16 v AND 0xff"
    and "drop_bit 24 (v AND 0xff000000) = drop_bit 24 v AND 0xff"
    and "v AND 0xff00 = 0 \<longleftrightarrow> drop_bit 8 v AND 0xff = 0"
    and "v AND 0xff0000 = 0 \<longleftrightarrow> drop_bit 16 v AND 0xff = 0"
proof -
  show 1: "drop_bit 8 (v AND 0xff00) = drop_bit 8 v AND 0xff"
    and 2: "drop_bit 16 (v AND 0xff0000) = drop_bit 16 v AND 0xff"
    and 3: "drop_bit 24 (v AND 0xff000000) = drop_bit 24 v AND 0xff"
    by (simp_all add: drop_bit_and)
  have "v AND 0xff00 = push_bit 8 (drop_bit 8 v AND 0xff)"
    "v AND 0xff0000 = push_bit 16 (drop_bit 16 v AND 0xff)"
    using and_push_bit_field [of v 8 "0xff"] and_push_bit_field [of v 16 "0xff"] by simp_all
  then show "v AND 0xff00 = 0 \<longleftrightarrow> drop_bit 8 v AND 0xff = 0"
    "v AND 0xff0000 = 0 \<longleftrightarrow> drop_bit 16 v AND 0xff = 0"
    using 1 2 by (metis push_bit_of_0 drop_bit_of_0)+
qed

section \<open>Correctness\<close>

lemma rt_ffs_lowest:
  assumes "value \<noteq> 0"
  shows "\<exists>p. lowest_bit value p \<and> p < 32 \<and> rt_ffs value = p + 1"
proof -
  let ?byte = "\<lambda>n. drop_bit n value AND 0xff"
  have field: "lowest_bit value (lowest_bit_bitmap ! unat (?byte n) + n)"
    if "?byte n \<noteq> 0" "\<And>q. q < n \<Longrightarrow> \<not> bit value q" for n
  proof -
    have "unat (?byte n) < 256"
      using word_and_le1 [of "drop_bit n value" "0xff"] by (simp add: word_le_nat_alt)
    with that lowest_bit_byte [of "?byte n"] show ?thesis
      by (intro lowest_bit_shifted) auto
  qed
  have low: "\<not> bit value q" if "?byte n = 0" "n \<le> q" "q < n + 8" for n q
    using byte_zero_bits that by blast
  consider (b0) "?byte 0 \<noteq> 0" | (b1) "?byte 0 = 0" "?byte 8 \<noteq> 0"
    | (b2) "?byte 0 = 0" "?byte 8 = 0" "?byte 16 \<noteq> 0"
    | (b3) "?byte 0 = 0" "?byte 8 = 0" "?byte 16 = 0"
    by blast
  then have "lowest_bit value (rt_ffs value - 1) \<and> 0 < rt_ffs value"
  proof cases
    case b0
    then show ?thesis using field [of 0] assms by (simp add: rt_ffs_def)
  next
    case b1
    then show ?thesis
      using field [of 8] low [of 0] assms unfolding rt_ffs_def byte_fields by (simp add: add.commute)
  next
    case b2
    have "\<not> bit value q" if "q < 16" for q
      using low [of 0 q] low [of 8 q] that b2 by (cases "q < 8") auto
    with b2 show ?thesis
      using field [of 16] assms unfolding rt_ffs_def byte_fields by (simp add: add.commute)
  next
    case b3
    have z: "\<not> bit value q" if "q < 24" for q
      using low [of 0 q] low [of 8 q] low [of 16 q] that b3
      by (cases "q < 8"; cases "q < 16") auto
    have "?byte 24 \<noteq> 0"
    proof
      assume "?byte 24 = 0"
      then have "\<not> bit value q" if "q < 32" for q
        using low [of 24 q] z [of q] that by (cases "q < 24") auto
      then have "value = 0" by (simp add: word_all_bits_zero)
      with assms show False by simp
    qed
    with b3 z show ?thesis
      using field [of 24] assms unfolding rt_ffs_def byte_fields by (simp add: add.commute)
  qed
  moreover have "rt_ffs value - 1 < 32" if "lowest_bit value (rt_ffs value - 1)"
    using that by (auto simp: lowest_bit_def dest: bit_imp_le_length)
  ultimately show ?thesis by (intro exI [of _ "rt_ffs value - 1"]) auto
qed

lemma isolate_lowest:
  fixes v :: "'a :: len word"
  assumes "lowest_bit v p"
  shows "(v AND (v - 1)) XOR v = push_bit p 1"
proof -
  define q where "q = Suc p"
  define hi where "hi = push_bit q (drop_bit q v)"
  define one where "one = push_bit p (1 :: 'a word)"
  have p: "p < LENGTH('a)"
    using assms by (auto simp: lowest_bit_def dest: bit_imp_le_length)
  have hi: "bit hi n \<longleftrightarrow> q \<le> n \<and> bit v n" for n
    by (auto simp: hi_def bit_push_bit_iff bit_drop_bit_eq dest: bit_imp_le_length)
  have one: "bit one n \<longleftrightarrow> n = p" for n
    unfolding one_def using p by (simp only: bit_push_bit_1) simp
  have low: "bit v n \<longleftrightarrow> n = p" if "n < q" for n
    using assms that by (auto simp: lowest_bit_def q_def less_Suc_eq)
  have "v = hi OR one"
  proof (rule bit_word_eqI)
    fix n
    show "bit v n = bit (hi OR one) n"
      using low [of n] by (cases "n < q") (auto simp: bit_or_iff hi one q_def)
  qed
  also have "\<dots> = hi + one"
    by (rule disjunctive_add [symmetric]) (auto simp: hi one q_def)
  finally have "v - 1 = hi + (one - 1)"
    by (metis add_diff_eq)
  also have "one - 1 = mask p"
    by (simp add: one_def mask_eq_exp_minus_1 push_bit_of_1)
  also have "hi + mask p = hi OR mask p"
    by (rule disjunctive_add) (auto simp: hi bit_mask_iff q_def)
  finally have vm: "v - 1 = hi OR mask p" .
  have "(v AND (v - 1)) XOR v = one"
  proof (rule bit_word_eqI)
    fix n
    show "bit ((v AND (v - 1)) XOR v) n = bit one n"
      using low [of n] unfolding vm
      by (cases "n < q") (auto simp: bit_or_iff bit_and_iff bit_xor_iff bit_mask_iff hi one q_def)
  qed
  then show ?thesis by (simp only: one_def)
qed

definition tiny_entry_ok :: "nat \<Rightarrow> bool" where
  "tiny_entry_ok p \<longleftrightarrow> lowest_bit_bitmap_tiny ! (2 ^ p mod 37) = p + 1"

lemma tiny_table: "list_all tiny_entry_ok [0..<32]"
  unfolding tiny_entry_ok_def lowest_bit_bitmap_tiny_def by (simp add: upt_rec)

lemma rt_ffs_tiny_lowest:
  assumes "lowest_bit value p"
  shows "rt_ffs_tiny value = p + 1"
proof -
  have "p < 32"
    using assms by (auto simp: lowest_bit_def dest: bit_imp_le_length)
  then have "tiny_entry_ok p"
    using tiny_table by (auto simp: list_all_iff)
  moreover have "unat (push_bit p (1 :: 32 word)) = 2 ^ p"
    using \<open>p < 32\<close> unfolding unsigned_push_bit_eq
    by (simp add: take_bit_nat_eq_self push_bit_of_1)
  ultimately show ?thesis
    unfolding rt_ffs_tiny_def isolate_lowest [OF assms] tiny_entry_ok_def by simp
qed

text \<open>
  C1. \<^verbatim>\<open>__rt_ffs\<close> returns the position of the lowest set bit, counted from one,
  and zero only for zero; the \<^verbatim>\<open>RT_USING_TINY_FFS\<close> variant computes the same
  value for every 32-bit argument.
\<close>

theorem rt_ffs_correct:
  "rt_ffs v = (if v = 0 then 0 else Suc (LEAST p. bit v p)) \<and> rt_ffs_tiny v = rt_ffs v"
proof (cases "v = 0")
  case True
  then show ?thesis
    by (simp add: rt_ffs_def rt_ffs_tiny_def lowest_bit_bitmap_tiny_def)
next
  case False
  then obtain p where p: "lowest_bit v p" "rt_ffs v = p + 1"
    using rt_ffs_lowest by blast
  have "(LEAST p. bit v p) = p"
    using p(1) by (intro Least_equality) (auto simp: lowest_bit_def not_less [symmetric])
  with p False rt_ffs_tiny_lowest show ?thesis by simp
qed

end
