(* ===== verification/Scheduler.thy ===== *)
theory Scheduler
  imports KernelState Kservice
begin

text \<open>
  The uniprocessor scheduler of \<^verbatim>\<open>src/scheduler_up.c\<close>: the ready queues with
  their priority bitmap, \<^verbatim>\<open>rt_schedule\<close>, the scheduler lock, and
  the invariant \<^verbatim>\<open>sched_inv\<close> that ties the bitmap, the queues, the thread states
  and the running thread together.

  \<^verbatim>\<open>rt_schedule\<close> returns the state at the moment the new thread owns the CPU;
  statements a C function has after the call run when its thread is switched in
  again.  The architecture's context switch saves and restores registers and is
  not part of this state.
\<close>

section \<open>Operations\<close>

definition set_stat :: "8 word \<Rightarrow> rt_thread \<Rightarrow> rt_thread" where
  "set_stat st r = r\<lparr>stat := st OR (stat r AND NOT RT_THREAD_STAT_MASK)\<rparr>"

definition stat_of :: "kernel \<Rightarrow> tid \<Rightarrow> 8 word" where
  "stat_of s t = stat (thr s t) AND RT_THREAD_STAT_MASK"

definition prio_of :: "kernel \<Rightarrow> tid \<Rightarrow> nat" where
  "prio_of s t = unat (current_priority (thr s t))"

definition scheduler_get_highest_priority_thread :: "kernel \<Rightarrow> (tid \<times> nat) option" where
  "scheduler_get_highest_priority_thread s = do {
     c_access (rt_thread_ready_priority_group s \<noteq> 0);
     let highest_ready_priority = rt_ffs (rt_thread_ready_priority_group s) - 1;
     to_thread \<leftarrow> tl_first (Ready highest_ready_priority) s;
     Some (to_thread, highest_ready_priority)
   }"

definition rt_schedule_insert_thread :: "tid \<Rightarrow> kernel \<Rightarrow> kernel option" where
  "rt_schedule_insert_thread t s =
    (if rt_current_thread s = Some t then Some (upd_thread t (set_stat RT_THREAD_RUNNING) s)
     else do {
       let s1 = upd_thread t (set_stat RT_THREAD_READY) s;
       c_access (prio_of s1 t < RT_THREAD_PRIORITY_MAX);
       let s2 = (if stat (thr s1 t) AND RT_THREAD_STAT_YIELD \<noteq> 0
                 then tl_push_back (Ready (prio_of s1 t)) t s1
                 else tl_push_front (Ready (prio_of s1 t)) t s1);
       Some (s2\<lparr>rt_thread_ready_priority_group :=
                  rt_thread_ready_priority_group s2 OR number_mask (thr s2 t)\<rparr>)
     })"

definition rt_schedule_remove_thread :: "tid \<Rightarrow> kernel \<Rightarrow> kernel option" where
  "rt_schedule_remove_thread t s = do {
     let s1 = tl_remove t s;
     c_access (prio_of s1 t < RT_THREAD_PRIORITY_MAX);
     Some (if tl_isempty (Ready (prio_of s1 t)) s1
           then s1\<lparr>rt_thread_ready_priority_group :=
                     rt_thread_ready_priority_group s1 AND NOT (number_mask (thr s1 t))\<rparr>
           else s1)
   }"

definition rt_system_scheduler_init :: "kernel \<Rightarrow> kernel" where
  "rt_system_scheduler_init s = s\<lparr>
     rt_scheduler_lock_nest := 0,
     lists := (\<lambda>l. case l of Ready p \<Rightarrow> if p < RT_THREAD_PRIORITY_MAX then [] else lists s l
                           | _ \<Rightarrow> lists s l),
     rt_thread_ready_priority_group := 0\<rparr>"

definition rt_system_scheduler_start :: "kernel \<Rightarrow> kernel option" where
  "rt_system_scheduler_start s = do {
     (to_thread, _) \<leftarrow> scheduler_get_highest_priority_thread s;
     s1 \<leftarrow> rt_schedule_remove_thread to_thread (s\<lparr>rt_current_thread := Some to_thread\<rparr>);
     Some (upd_thread to_thread (\<lambda>r. r\<lparr>stat := RT_THREAD_RUNNING\<rparr>) s1)
   }"

definition rt_schedule :: "kernel \<Rightarrow> kernel option" where
  "rt_schedule s =
    (if rt_scheduler_lock_nest s \<noteq> 0 \<or> rt_thread_ready_priority_group s = 0 then Some s
     else do {
       (first, highest_ready_priority) \<leftarrow> scheduler_get_highest_priority_thread s;
       current \<leftarrow> rt_current_thread s;
       let running = (stat_of s current = RT_THREAD_RUNNING);
       let keep = (running \<and> (prio_of s current < highest_ready_priority \<or>
                     prio_of s current = highest_ready_priority \<and>
                     stat (thr s current) AND RT_THREAD_STAT_YIELD = 0));
       let need_insert_from_thread = (running \<and> \<not> keep);
       let to_thread = (if keep then current else first);
       let s1 = (if running
                 then upd_thread current (\<lambda>r. r\<lparr>stat := stat r AND NOT RT_THREAD_STAT_YIELD\<rparr>) s
                 else s);
       if to_thread \<noteq> current
       then do {
         let s2 = s1\<lparr>rt_current_priority := of_nat highest_ready_priority,
                     rt_current_thread := Some to_thread\<rparr>;
         s3 \<leftarrow> (if need_insert_from_thread then rt_schedule_insert_thread current s2 else Some s2);
         s4 \<leftarrow> rt_schedule_remove_thread to_thread s3;
         Some (upd_thread to_thread (set_stat RT_THREAD_RUNNING) s4)
       }
       else do {
         s2 \<leftarrow> rt_schedule_remove_thread current s1;
         Some (upd_thread current (set_stat RT_THREAD_RUNNING) s2)
       }
     })"

text \<open>
  What a thread does when it comes back from \<^verbatim>\<open>rt_hw_context_switch\<close>: the flag
  tells that \<^verbatim>\<open>rt_thread_handle_sig\<close> is called next.
\<close>

definition rt_schedule_switched_in :: "kernel \<Rightarrow> (bool \<times> kernel) option" where
  "rt_schedule_switched_in s = do {
     current \<leftarrow> rt_current_thread s;
     Some (if stat (thr s current) AND RT_THREAD_STAT_SIGNAL_PENDING \<noteq> 0
           then (True, upd_thread current
                   (\<lambda>r. r\<lparr>stat := stat r AND NOT RT_THREAD_STAT_SIGNAL_PENDING\<rparr>) s)
           else (False, s))
   }"

definition rt_enter_critical :: "kernel \<Rightarrow> kernel" where
  "rt_enter_critical s = s\<lparr>rt_scheduler_lock_nest := rt_scheduler_lock_nest s + 1\<rparr>"

definition rt_exit_critical :: "kernel \<Rightarrow> kernel option" where
  "rt_exit_critical s =
    (let s1 = s\<lparr>rt_scheduler_lock_nest := rt_scheduler_lock_nest s - 1\<rparr>
     in if sint (rt_scheduler_lock_nest s1) \<le> 0
        then let s2 = s1\<lparr>rt_scheduler_lock_nest := 0\<rparr>
             in if rt_current_thread s2 \<noteq> None then rt_schedule s2 else Some s2
        else Some s1)"

definition rt_critical_level :: "kernel \<Rightarrow> 16 word" where
  "rt_critical_level s = rt_scheduler_lock_nest s"

section \<open>The invariant\<close>

definition started :: "rt_thread \<Rightarrow> bool" where
  "started r \<longleftrightarrow> number_mask r = push_bit (unat (current_priority r)) 1"

definition thr_ok :: "rt_thread \<Rightarrow> bool" where
  "thr_ok r \<longleftrightarrow> unat (current_priority r) < RT_THREAD_PRIORITY_MAX \<and>
     (stat r AND RT_THREAD_STAT_MASK \<noteq> RT_THREAD_INIT \<longrightarrow>
      stat r AND RT_THREAD_STAT_MASK \<noteq> RT_THREAD_CLOSE \<longrightarrow> started r)"

fun list_fits :: "list_id \<Rightarrow> rt_thread \<Rightarrow> bool" where
  "list_fits (Ready p) r \<longleftrightarrow>
     stat r AND RT_THREAD_STAT_MASK = RT_THREAD_READY \<and> unat (current_priority r) = p"
| "list_fits Defunct r \<longleftrightarrow> stat r AND RT_THREAD_STAT_MASK = RT_THREAD_CLOSE"
| "list_fits _ r \<longleftrightarrow> stat r AND RT_THREAD_SUSPEND_MASK = RT_THREAD_SUSPEND_MASK"

definition ready_inv :: "kernel \<Rightarrow> bool" where
  "ready_inv s \<longleftrightarrow> family_ok (lists s) \<and> (\<forall>t. thr_ok (thr s t)) \<and>
     (\<forall>l t. t \<in> set (lists s l) \<longrightarrow> list_fits l (thr s t)) \<and>
     (\<forall>p < RT_THREAD_PRIORITY_MAX.
        bit (rt_thread_ready_priority_group s) p \<longleftrightarrow> lists s (Ready p) \<noteq> [])"

definition cur_inv :: "kernel \<Rightarrow> bool" where
  "cur_inv s \<longleftrightarrow> (\<forall>t. rt_current_thread s = Some t \<longrightarrow> stat_of s t \<noteq> RT_THREAD_READY) \<and>
     (\<forall>t. stat_of s t = RT_THREAD_RUNNING \<longrightarrow> rt_current_thread s = Some t)"

definition sched_inv :: "kernel \<Rightarrow> bool" where
  "sched_inv s \<longleftrightarrow> ready_inv s \<and> cur_inv s"

section \<open>Basic facts\<close>

lemma set_stat_simps [simp]:
  "stat (set_stat st r) = st OR (stat r AND - 8)"
  "current_priority (set_stat st r) = current_priority r"
  "number_mask (set_stat st r) = number_mask r"
  "started (set_stat st r) = started r"
  by (simp_all add: set_stat_def started_def)

text \<open>Complements of numerals are evaluated to negative numerals.\<close>

lemma stat_mask_set [simp]: "(st OR (x AND - 8)) AND (7 :: 8 word) = st AND 7"
  using or_and_not [of st x 7] by simp

lemma stat_suspend_set [simp]: "(st OR (x AND - 8)) AND (4 :: 8 word) = st AND 4"
  using or_and_not_sub [of 4 7 st x] by simp

lemma stat_clear_yield [simp]:
  "(x AND - 9) AND (7 :: 8 word) = x AND 7"
  "(x AND - 9) AND (4 :: 8 word) = x AND 4"
  by (simp_all add: and.assoc)

lemma stat_suspend_mask: "x AND (4 :: 8 word) = (x AND 7) AND 4"
  by (simp add: and.assoc)

lemma suspended_not_ready:
  fixes x :: "8 word"
  assumes "x AND 4 = 4"
  shows "x AND 7 \<noteq> 0" "x AND 7 \<noteq> 1" "x AND 7 \<noteq> 2" "x AND 7 \<noteq> 3"
  using assms unfolding stat_suspend_mask [of x] by auto

lemma ready_not_suspended:
  fixes x :: "8 word"
  shows "x AND 7 = 2 \<Longrightarrow> x AND 4 \<noteq> 4" "x AND 7 = 3 \<Longrightarrow> x AND 4 \<noteq> 4"
    "x AND 7 = 1 \<Longrightarrow> x AND 4 \<noteq> 4" "x AND 7 = 0 \<Longrightarrow> x AND 4 \<noteq> 4"
  unfolding stat_suspend_mask [of x] by auto

lemma ready_invD:
  assumes "ready_inv s"
  shows "family_ok (lists s)" "thr_ok (thr s t)" "t \<in> set (lists s l) \<Longrightarrow> list_fits l (thr s t)"
    "p < 32 \<Longrightarrow> bit (rt_thread_ready_priority_group s) p \<longleftrightarrow> lists s (Ready p) \<noteq> []"
  using assms by (auto simp: ready_inv_def)

lemma ready_inv_cong:
  "\<lbrakk>threads s' = threads s; lists s' = lists s;
    rt_thread_ready_priority_group s' = rt_thread_ready_priority_group s\<rbrakk>
   \<Longrightarrow> ready_inv s' = ready_inv s"
  by (simp add: ready_inv_def)

lemma cur_inv_cong:
  "\<lbrakk>threads s' = threads s; rt_current_thread s' = rt_current_thread s\<rbrakk> \<Longrightarrow> cur_inv s' = cur_inv s"
  by (simp add: cur_inv_def stat_of_def)

lemmas sched_inv_cong = ready_inv_cong cur_inv_cong

lemma ready_lists_beyond:
  assumes "ready_inv s" "\<not> p < 32" shows "lists s (Ready p) = []"
proof -
  have False if "t \<in> set (lists s (Ready p))" for t
    using ready_invD(2,3) [OF assms(1), of t] that assms(2) by (fastforce simp: thr_ok_def)
  then show ?thesis by (metis list.set_intros(1) neq_Nil_conv)
qed

text \<open>A thread outside every list may change, as long as it stays well formed.\<close>

lemma ready_inv_unlinked_upd:
  assumes "ready_inv s" "unlinked t (lists s)" "thr_ok (f (thr s t))"
  shows "ready_inv (upd_thread t f s)"
  using assms by (auto simp: ready_inv_def unlinked_def)

lemma ready_inv_upd:
  assumes "ready_inv s" "thr_ok (f (thr s t))"
    "\<And>l. t \<in> set (lists s l) \<Longrightarrow> list_fits l (thr s t) \<Longrightarrow> list_fits l (f (thr s t))"
  shows "ready_inv (upd_thread t f s)"
  using assms by (auto simp: ready_inv_def)

text \<open>Putting a thread outside every list into a list it fits.\<close>

lemma ready_inv_link:
  assumes "ready_inv s" "unlinked t (lists s)" "list_fits l (thr s t)"
    and "distinct ys" "set ys = insert t (set (lists s l))"
    and "\<And>p. p < 32 \<Longrightarrow> bit g p \<longleftrightarrow> bit (rt_thread_ready_priority_group s) p \<or> l = Ready p"
  shows "ready_inv (s\<lparr>lists := (lists s)(l := ys), rt_thread_ready_priority_group := g\<rparr>)"
proof -
  have "ys \<noteq> []"
    using assms(5) by auto
  with assms show ?thesis
    by (auto simp: ready_inv_def intro: family_ok_insert)
qed

section \<open>Insertion and removal\<close>

definition ready_insert :: "tid \<Rightarrow> kernel \<Rightarrow> kernel" where
  "ready_insert t s =
    (let r = set_stat RT_THREAD_READY (thr s t); p = prio_of s t;
         q = lists s (Ready p)
     in s\<lparr>threads := (threads s)(t := r),
          lists := (lists s)(Ready p := (if stat r AND RT_THREAD_STAT_YIELD \<noteq> 0 then q @ [t] else t # q)),
          rt_thread_ready_priority_group := rt_thread_ready_priority_group s OR number_mask r\<rparr>)"

lemma insert_thread_ready:
  assumes "rt_current_thread s \<noteq> Some t" "prio_of s t < 32"
  shows "rt_schedule_insert_thread t s = Some (ready_insert t s)"
  using assms
  by (simp add: rt_schedule_insert_thread_def ready_insert_def Let_def tl_push_back_def
      tl_push_front_def prio_of_def)

lemma insert_thread_current:
  "rt_current_thread s = Some t \<Longrightarrow>
   rt_schedule_insert_thread t s = Some (upd_thread t (set_stat RT_THREAD_RUNNING) s)"
  by (simp add: rt_schedule_insert_thread_def)

lemma prio_lt: "ready_inv s \<Longrightarrow> prio_of s t < 32"
  using ready_invD(2) [of s t] by (simp add: prio_of_def thr_ok_def)

lemma ready_inv_insert:
  assumes "ready_inv s" "unlinked t (lists s)" "started (thr s t)"
  shows "ready_inv (ready_insert t s)"
proof -
  let ?s1 = "upd_thread t (set_stat RT_THREAD_READY) s"
  let ?p = "prio_of s t"
  let ?q = "lists s (Ready ?p)"
  let ?r = "set_stat RT_THREAD_READY (thr s t)"
  have ok1: "ready_inv ?s1"
    using assms ready_invD(2) [OF assms(1), of t]
    by (intro ready_inv_unlinked_upd) (auto simp: thr_ok_def)
  have "ready_inv (?s1\<lparr>lists := (lists ?s1)(Ready ?p := (if stat ?r AND 8 \<noteq> 0 then ?q @ [t] else t # ?q)),
          rt_thread_ready_priority_group := rt_thread_ready_priority_group s OR number_mask ?r\<rparr>)"
  proof (rule ready_inv_link [OF ok1])
    show "distinct (if stat ?r AND 8 \<noteq> 0 then ?q @ [t] else t # ?q)"
      using assms(1,2) by (auto simp: ready_inv_def family_ok_def unlinked_def)
  qed (use assms prio_lt [OF assms(1), of t] in
        \<open>auto simp: bit_or_iff started_def prio_of_def simp del: push_bit_of_1\<close>)
  moreover have "ready_insert t s = ?s1\<lparr>lists := (lists ?s1)(Ready ?p := (if stat ?r AND 8 \<noteq> 0 then ?q @ [t] else t # ?q)),
          rt_thread_ready_priority_group := rt_thread_ready_priority_group s OR number_mask ?r\<rparr>"
    by (simp add: ready_insert_def Let_def)
  ultimately show ?thesis by simp
qed

definition ready_remove :: "tid \<Rightarrow> kernel \<Rightarrow> kernel" where
  "ready_remove t s =
    (let s1 = tl_remove t s
     in if lists s1 (Ready (prio_of s t)) = []
        then s1\<lparr>rt_thread_ready_priority_group :=
                  rt_thread_ready_priority_group s AND NOT (number_mask (thr s t))\<rparr>
        else s1)"

lemma remove_thread_eq:
  "prio_of s t < 32 \<Longrightarrow> rt_schedule_remove_thread t s = Some (ready_remove t s)"
  by (simp add: rt_schedule_remove_thread_def ready_remove_def Let_def tl_remove_def tl_isempty_def
      prio_of_def)

lemma ready_remove_frame [simp]:
  "threads (ready_remove t s) = threads s" "lists (ready_remove t s) = family_remove t (lists s)"
  "rt_current_thread (ready_remove t s) = rt_current_thread s"
  by (simp_all add: ready_remove_def Let_def tl_remove_def)

lemma ready_inv_remove:
  assumes "ready_inv s" "started (thr s t)"
  shows "ready_inv (ready_remove t s)"
proof -
  have other: "t \<notin> set (lists s (Ready p))" if "p \<noteq> prio_of s t" for p
    using ready_invD(3) [OF assms(1), of t "Ready p"] that by (auto simp: prio_of_def)
  have bits: "bit (rt_thread_ready_priority_group (ready_remove t s)) p \<longleftrightarrow>
              family_remove t (lists s) (Ready p) \<noteq> []" if "p < 32" for p
    using that ready_invD(4) [OF assms(1), of p] other [of p] prio_lt [OF assms(1), of t] assms(2)
    by (cases "p = prio_of s t")
       (auto simp: ready_remove_def Let_def tl_remove_def family_remove_def bit_and_iff bit_not_iff
         started_def prio_of_def removeAll_id simp del: push_bit_of_1)
  show ?thesis
    unfolding ready_inv_def ready_remove_frame
    using assms(1) bits family_ok_remove [of "lists s" t]
    by (auto simp: ready_inv_def family_remove_def)
qed

section \<open>Choosing the next thread\<close>

lemma highest_ready:
  assumes "ready_inv s" "rt_thread_ready_priority_group s \<noteq> 0"
  obtains t p ts where "scheduler_get_highest_priority_thread s = Some (t, p)"
    "lists s (Ready p) = t # ts" "p < 32" "\<And>q. q < p \<Longrightarrow> lists s (Ready q) = []"
proof -
  obtain p where p: "lowest_bit (rt_thread_ready_priority_group s) p" "p < 32"
    "rt_ffs (rt_thread_ready_priority_group s) = p + 1"
    using rt_ffs_lowest [OF assms(2)] by blast
  then obtain t ts where "lists s (Ready p) = t # ts"
    using ready_invD(4) [OF assms(1) p(2)] by (auto simp: lowest_bit_def neq_Nil_conv)
  moreover have "lists s (Ready q) = []" if "q < p" for q
    using ready_invD(4) [OF assms(1), of q] p that by (auto simp: lowest_bit_def)
  ultimately show thesis
    using p assms(2) that
    by (simp add: scheduler_get_highest_priority_thread_def tl_first_def)
qed

section \<open>The cases of rt\_schedule\<close>

definition clear_yield :: "rt_thread \<Rightarrow> rt_thread" where
  "clear_yield r = r\<lparr>stat := stat r AND NOT RT_THREAD_STAT_YIELD\<rparr>"

lemma clear_yield_simps [simp]:
  "stat (clear_yield r) = stat r AND - 9"
  "current_priority (clear_yield r) = current_priority r"
  "number_mask (clear_yield r) = number_mask r"
  "started (clear_yield r) = started r"
  "thr_ok (clear_yield r) = thr_ok r"
  by (simp_all add: clear_yield_def started_def thr_ok_def)

definition switch_to :: "tid \<Rightarrow> nat \<Rightarrow> kernel \<Rightarrow> kernel" where
  "switch_to t p s =
     upd_thread t (set_stat RT_THREAD_RUNNING)
       (ready_remove t (s\<lparr>rt_current_priority := of_nat p, rt_current_thread := Some t\<rparr>))"

definition put_back :: "tid \<Rightarrow> kernel \<Rightarrow> kernel" where
  "put_back c s = ready_insert c (upd_thread c clear_yield s)"

lemma unlinked_current:
  assumes "sched_inv s" "rt_current_thread s = Some c" "stat_of s c = RT_THREAD_RUNNING"
  shows "unlinked c (lists s)"
proof -
  have "\<not> list_fits l (thr s c)" for l
    using assms(3) ready_not_suspended(2) [of "stat (thr s c)"] by (cases l) (auto simp: stat_of_def)
  then show ?thesis
    using assms(1) by (auto simp: sched_inv_def ready_inv_def unlinked_def)
qed

lemma ready_remove_unlinked:
  assumes "ready_inv s" "started (thr s t)" "unlinked t (lists s)"
  shows "ready_remove t s = s"
proof -
  have "rt_thread_ready_priority_group s AND NOT (number_mask (thr s t)) = rt_thread_ready_priority_group s"
    if "lists s (Ready (prio_of s t)) = []"
    using that ready_invD(4) [OF assms(1)] prio_lt [OF assms(1), of t] assms(2)
    by (intro bit_word_eqI)
       (auto simp: bit_and_iff bit_not_iff started_def prio_of_def simp del: push_bit_of_1)
  then show ?thesis
    using family_remove_unlinked [OF assms(3)]
    by (simp add: ready_remove_def Let_def tl_remove_def)
qed

lemma started_running:
  "ready_inv s \<Longrightarrow> stat_of s t = RT_THREAD_RUNNING \<Longrightarrow> started (thr s t)"
  "ready_inv s \<Longrightarrow> stat_of s t = RT_THREAD_READY \<Longrightarrow> started (thr s t)"
  using ready_invD(2) [of s t] by (auto simp: thr_ok_def stat_of_def)

lemma started_suspended:
  "ready_inv s \<Longrightarrow> stat (thr s t) AND 4 = 4 \<Longrightarrow> started (thr s t)"
  using ready_invD(2) [of s t] suspended_not_ready [of "stat (thr s t)"]
  by (auto simp: thr_ok_def)

lemma rt_schedule_locked:
  "rt_scheduler_lock_nest s \<noteq> 0 \<or> rt_thread_ready_priority_group s = 0 \<Longrightarrow> rt_schedule s = Some s"
  by (auto simp: rt_schedule_def)

lemma rt_schedule_keep:
  assumes inv: "sched_inv s" and c: "rt_current_thread s = Some c"
    and free: "rt_scheduler_lock_nest s = 0" "rt_thread_ready_priority_group s \<noteq> 0"
    and top: "scheduler_get_highest_priority_thread s = Some (t, p)"
    and run: "stat_of s c = RT_THREAD_RUNNING"
    and keep: "prio_of s c < p \<or> prio_of s c = p \<and> stat (thr s c) AND RT_THREAD_STAT_YIELD = 0"
  shows "rt_schedule s = Some (upd_thread c (\<lambda>r. set_stat RT_THREAD_RUNNING (clear_yield r)) s)"
proof -
  let ?s1 = "upd_thread c clear_yield s"
  have r: "ready_inv s" and u: "unlinked c (lists s)" and st: "started (thr s c)"
    using inv unlinked_current [OF inv c run] started_running(1) run by (auto simp: sched_inv_def)
  have r1: "ready_inv ?s1"
    using r u ready_invD(2) [OF r, of c] by (intro ready_inv_unlinked_upd) auto
  have p1: "prio_of ?s1 c < 32"
    by (rule prio_lt [OF r1])
  have "ready_remove c ?s1 = ?s1"
    using r1 u st by (intro ready_remove_unlinked) auto
  then have rm: "rt_schedule_remove_thread c ?s1 = Some ?s1"
    using remove_thread_eq [OF p1] by simp
  have "rt_schedule s = do { s2 \<leftarrow> rt_schedule_remove_thread c ?s1;
           Some (upd_thread c (set_stat RT_THREAD_RUNNING) s2) }"
    unfolding rt_schedule_def Let_def
    using free c top run keep by (simp add: clear_yield_def [abs_def])
  then show ?thesis unfolding rm by simp
qed

lemma rt_schedule_from_suspended:
  assumes inv: "sched_inv s" and c: "rt_current_thread s = Some c"
    and free: "rt_scheduler_lock_nest s = 0" "rt_thread_ready_priority_group s \<noteq> 0"
    and top: "scheduler_get_highest_priority_thread s = Some (t, p)" "t \<noteq> c"
    and run: "stat_of s c \<noteq> RT_THREAD_RUNNING"
  shows "rt_schedule s = Some (switch_to t p s)"
proof -
  have "prio_of (s\<lparr>rt_current_priority := of_nat p, rt_current_thread := Some t\<rparr>) t < 32"
    using inv prio_lt [of s t] by (simp add: sched_inv_def prio_of_def)
  then show ?thesis
    using free c top run
    by (simp add: rt_schedule_def switch_to_def remove_thread_eq)
qed

lemma rt_schedule_preempt:
  assumes inv: "sched_inv s" and c: "rt_current_thread s = Some c"
    and free: "rt_scheduler_lock_nest s = 0" "rt_thread_ready_priority_group s \<noteq> 0"
    and top: "scheduler_get_highest_priority_thread s = Some (t, p)" "t \<noteq> c"
    and run: "stat_of s c = RT_THREAD_RUNNING"
    and less: "p < prio_of s c \<or> prio_of s c = p \<and> stat (thr s c) AND RT_THREAD_STAT_YIELD \<noteq> 0"
  shows "rt_schedule s = Some (switch_to t p (put_back c s))"
proof -
  let ?s2 = "(upd_thread c clear_yield s)\<lparr>rt_current_priority := of_nat p, rt_current_thread := Some t\<rparr>"
  have r: "ready_inv s"
    using inv by (simp add: sched_inv_def)
  have ins: "rt_schedule_insert_thread c ?s2 = Some (ready_insert c ?s2)"
    using top(2) prio_lt [OF r, of c] by (intro insert_thread_ready) (auto simp: prio_of_def)
  have rem: "rt_schedule_remove_thread t (ready_insert c ?s2) = Some (ready_remove t (ready_insert c ?s2))"
    using top(2) prio_lt [OF r, of t] by (intro remove_thread_eq) (auto simp: ready_insert_def Let_def prio_of_def)
  have keep: "\<not> (prio_of s c < p \<or> prio_of s c = p \<and> stat (thr s c) AND RT_THREAD_STAT_YIELD = 0)"
    using less by auto
  have "rt_schedule s = do { s3 \<leftarrow> rt_schedule_insert_thread c ?s2; s4 \<leftarrow> rt_schedule_remove_thread t s3;
          Some (upd_thread t (set_stat RT_THREAD_RUNNING) s4) }"
    unfolding rt_schedule_def Let_def
    using free c top run keep by (auto simp: clear_yield_def [abs_def])
  also have "\<dots> = Some (upd_thread t (set_stat RT_THREAD_RUNNING) (ready_remove t (ready_insert c ?s2)))"
    unfolding ins Option.bind.bind_lunit rem ..
  also have "ready_insert c ?s2 =
      (put_back c s)\<lparr>rt_current_priority := of_nat p, rt_current_thread := Some t\<rparr>"
    by (simp add: ready_insert_def Let_def put_back_def prio_of_def)
  finally show ?thesis by (simp add: switch_to_def)
qed

section \<open>The invariant is kept\<close>

lemma ready_inv_put_back:
  assumes "sched_inv s" "rt_current_thread s = Some c" "stat_of s c = RT_THREAD_RUNNING"
  shows "ready_inv (put_back c s)"
  unfolding put_back_def
proof (rule ready_inv_insert)
  have r: "ready_inv s" and u: "unlinked c (lists s)"
    using assms unlinked_current by (auto simp: sched_inv_def)
  show "ready_inv (upd_thread c clear_yield s)"
    using r u ready_invD(2) [OF r, of c] by (intro ready_inv_unlinked_upd) auto
  show "unlinked c (lists (upd_thread c clear_yield s))"
    using u by simp
  show "started (thr (upd_thread c clear_yield s) c)"
    using started_running(1) [OF r assms(3)] by simp
qed

lemma sched_inv_switch:
  assumes r: "ready_inv s" and t: "t \<in> set (lists s (Ready p))"
    and one: "\<And>u. stat_of s u \<noteq> RT_THREAD_RUNNING"
  shows "sched_inv (switch_to t p s)"
proof -
  let ?s0 = "s\<lparr>rt_current_priority := of_nat p, rt_current_thread := Some t\<rparr>"
  have f: "list_fits (Ready p) (thr s t)"
    using ready_invD(3) [OF r t] .
  then have st: "started (thr s t)"
    using started_running(2) [OF r, of t] by (simp add: stat_of_def)
  have "ready_inv (ready_remove t ?s0)"
    using r st by (intro ready_inv_remove) (simp_all add: ready_inv_def)
  then have "ready_inv (switch_to t p s)"
    unfolding switch_to_def using st ready_invD(2) [OF r, of t]
    by (intro ready_inv_unlinked_upd) (auto simp: thr_ok_def)
  moreover have "cur_inv (switch_to t p s)"
    using one by (auto simp: cur_inv_def switch_to_def stat_of_def)
  ultimately show ?thesis by (simp add: sched_inv_def)
qed

lemma put_back_frame [simp]:
  "rt_current_thread (put_back c s) = rt_current_thread s"
  "u \<noteq> c \<Longrightarrow> thr (put_back c s) u = thr s u"
  "thr (put_back c s) c = set_stat RT_THREAD_READY (clear_yield (thr s c))"
  by (simp_all add: put_back_def ready_insert_def Let_def)

lemma put_back_lists:
  "lists (put_back c s) = (lists s)(Ready (prio_of s c) := c # lists s (Ready (prio_of s c)))"
proof -
  have "(2 OR ((stat (thr s c) AND - 9) AND - 8)) AND 8 = (0 :: 8 word)"
    by (simp add: bit.conj_disj_distrib2 and.assoc)
  then show ?thesis
    by (simp add: put_back_def ready_insert_def Let_def prio_of_def)
qed

lemma other_not_running:
  "sched_inv s \<Longrightarrow> rt_current_thread s = Some c \<Longrightarrow> u \<noteq> c \<Longrightarrow> stat_of s u \<noteq> RT_THREAD_RUNNING"
  by (auto simp: sched_inv_def cur_inv_def)

lemma ready_not_current:
  assumes "sched_inv s" "rt_current_thread s = Some c" "t \<in> set (lists s (Ready p))"
  shows "t \<noteq> c"
  using assms ready_invD(3) [of s t "Ready p"] by (auto simp: sched_inv_def cur_inv_def stat_of_def)

text \<open>
  The three outcomes of \<^verbatim>\<open>rt_schedule\<close> in a consistent state whose scheduler is
  not locked, as a case rule for the proofs about its callers.
\<close>

lemma rt_schedule_cases:
  assumes inv: "sched_inv s" and c: "rt_current_thread s = Some c"
  obtains (idle) "rt_scheduler_lock_nest s \<noteq> 0 \<or> rt_thread_ready_priority_group s = 0"
      "rt_schedule s = Some s"
  | (keep) t p where "scheduler_get_highest_priority_thread s = Some (t, p)"
      "stat_of s c = RT_THREAD_RUNNING" "prio_of s c \<le> p" "\<And>q. q < p \<Longrightarrow> lists s (Ready q) = []"
      "rt_schedule s = Some (upd_thread c (\<lambda>r. set_stat RT_THREAD_RUNNING (clear_yield r)) s)"
  | (preempt) t p ts where "lists s (Ready p) = t # ts" "t \<noteq> c" "\<And>q. q < p \<Longrightarrow> lists s (Ready q) = []"
      "stat_of s c = RT_THREAD_RUNNING"
      "p < prio_of s c \<or> prio_of s c = p \<and> stat (thr s c) AND RT_THREAD_STAT_YIELD \<noteq> 0"
      "rt_schedule s = Some (switch_to t p (put_back c s))"
  | (leave) t p ts where "lists s (Ready p) = t # ts" "t \<noteq> c" "\<And>q. q < p \<Longrightarrow> lists s (Ready q) = []"
      "stat_of s c \<noteq> RT_THREAD_RUNNING" "rt_schedule s = Some (switch_to t p s)"
proof (cases "rt_scheduler_lock_nest s \<noteq> 0 \<or> rt_thread_ready_priority_group s = 0")
  case True
  then show thesis using idle rt_schedule_locked by blast
next
  case False
  then have free: "rt_scheduler_lock_nest s = 0" "rt_thread_ready_priority_group s \<noteq> 0" by auto
  have r: "ready_inv s" using inv by (simp add: sched_inv_def)
  obtain t p ts where top: "scheduler_get_highest_priority_thread s = Some (t, p)"
    "lists s (Ready p) = t # ts" "\<And>q. q < p \<Longrightarrow> lists s (Ready q) = []"
    using highest_ready [OF r free(2)] by metis
  have tc: "t \<noteq> c"
    using ready_not_current [OF inv c, of t p] top(2) by simp
  show thesis
  proof (cases "stat_of s c = RT_THREAD_RUNNING")
    case False
    then show thesis
      using leave [OF top(2) tc top(3)] rt_schedule_from_suspended [OF inv c free top(1) tc] by blast
  next
    case run: True
    show thesis
    proof (cases "prio_of s c < p \<or> prio_of s c = p \<and> stat (thr s c) AND RT_THREAD_STAT_YIELD = 0")
      case True
      then show thesis
        using keep [OF top(1) run _ top(3)] rt_schedule_keep [OF inv c free top(1) run] by auto
    next
      case False
      then have "p < prio_of s c \<or> prio_of s c = p \<and> stat (thr s c) AND RT_THREAD_STAT_YIELD \<noteq> 0"
        by auto
      then show thesis
        using preempt [OF top(2) tc top(3) run] rt_schedule_preempt [OF inv c free top(1) tc run] by blast
    qed
  qed
qed

lemma put_back_stat:
  assumes "sched_inv s" "rt_current_thread s = Some c"
  shows "stat_of (put_back c s) u \<noteq> RT_THREAD_RUNNING"
  using other_not_running [OF assms, of u] by (cases "u = c") (auto simp: stat_of_def)

lemma in_put_back: "t \<in> set (lists s l) \<Longrightarrow> t \<in> set (lists (put_back c s) l)"
  by (auto simp: put_back_lists)

lemma sched_inv_schedule:
  assumes inv: "sched_inv s" and c: "rt_current_thread s = Some c"
  shows "\<exists>s'. rt_schedule s = Some s' \<and> sched_inv s'"
  using inv c
proof (cases rule: rt_schedule_cases)
  case idle
  then show ?thesis using inv by blast
next
  case (keep t p)
  have r: "ready_inv s" using inv by (simp add: sched_inv_def)
  have "ready_inv (upd_thread c (\<lambda>r. set_stat RT_THREAD_RUNNING (clear_yield r)) s)"
    using r unlinked_current [OF inv c keep(2)] ready_invD(2) [OF r, of c] keep(2)
    by (intro ready_inv_unlinked_upd) (auto simp: thr_ok_def stat_of_def)
  moreover have "cur_inv (upd_thread c (\<lambda>r. set_stat RT_THREAD_RUNNING (clear_yield r)) s)"
    using inv c by (auto simp: sched_inv_def cur_inv_def stat_of_def)
  ultimately show ?thesis using keep by (auto simp: sched_inv_def)
next
  case (preempt t p ts)
  have "sched_inv (switch_to t p (put_back c s))"
    using preempt(1) put_back_stat [OF inv c]
    by (intro sched_inv_switch ready_inv_put_back [OF inv c preempt(4)] in_put_back) auto
  with preempt show ?thesis by blast
next
  case (leave t p ts)
  have "stat_of s u \<noteq> RT_THREAD_RUNNING" for u
    using leave(4) other_not_running [OF inv c, of u] by (cases "u = c") auto
  then have "sched_inv (switch_to t p s)"
    using leave inv by (intro sched_inv_switch) (auto simp: sched_inv_def)
  with leave show ?thesis by blast
qed

section \<open>The contract of the ready queues\<close>

locale ready_queue =
  fixes inv :: "'s \<Rightarrow> bool" and linked :: "'s \<Rightarrow> 't \<Rightarrow> bool" and ready_to_go :: "'s \<Rightarrow> 't \<Rightarrow> bool"
    and enqueue :: "'t \<Rightarrow> 's \<Rightarrow> 's option" and dequeue :: "'t \<Rightarrow> 's \<Rightarrow> 's option"
  assumes enqueue_ok: "inv s \<Longrightarrow> \<not> linked s t \<Longrightarrow> ready_to_go s t \<Longrightarrow>
            \<exists>s'. enqueue t s = Some s' \<and> inv s'"
    and dequeue_ok: "inv s \<Longrightarrow> ready_to_go s t \<Longrightarrow>
            \<exists>s'. dequeue t s = Some s' \<and> inv s' \<and> \<not> linked s' t \<and> ready_to_go s' t"
begin

text \<open>
  Taking a thread out, changing it, and putting it back: the shape of a
  priority change and of a wake-up.
\<close>

lemma requeue_ok:
  assumes "inv s" "ready_to_go s t"
    and change: "\<And>s1. inv s1 \<Longrightarrow> \<not> linked s1 t \<Longrightarrow> ready_to_go s1 t \<Longrightarrow>
                   inv (f s1) \<and> \<not> linked (f s1) t \<and> ready_to_go (f s1) t"
  shows "\<exists>s'. Option.bind (dequeue t s) (\<lambda>s1. enqueue t (f s1)) = Some s' \<and> inv s'"
proof -
  obtain s1 where s1: "dequeue t s = Some s1" "inv s1" "\<not> linked s1 t" "ready_to_go s1 t"
    using dequeue_ok [OF assms(1,2)] by blast
  then have "inv (f s1)" "\<not> linked (f s1) t" "ready_to_go (f s1) t"
    using change by auto
  then obtain s' where "enqueue t (f s1) = Some s'" "inv s'"
    using enqueue_ok by blast
  with s1 show ?thesis by simp
qed

end

lemma sched_inv_insert:
  assumes "sched_inv s" "unlinked t (lists s)" "started (thr s t)"
  shows "\<exists>s'. rt_schedule_insert_thread t s = Some s' \<and> sched_inv s'"
proof (cases "rt_current_thread s = Some t")
  case True
  have r: "ready_inv s" using assms(1) by (simp add: sched_inv_def)
  have "ready_inv (upd_thread t (set_stat RT_THREAD_RUNNING) s)"
    using r assms(2,3) ready_invD(2) [OF r, of t]
    by (intro ready_inv_unlinked_upd) (auto simp: thr_ok_def)
  moreover have "cur_inv (upd_thread t (set_stat RT_THREAD_RUNNING) s)"
    using assms(1) True by (auto simp: sched_inv_def cur_inv_def stat_of_def)
  ultimately show ?thesis
    using True by (simp add: insert_thread_current sched_inv_def)
next
  case False
  have r: "ready_inv s" using assms(1) by (simp add: sched_inv_def)
  have "ready_inv (ready_insert t s)"
    by (rule ready_inv_insert [OF r assms(2,3)])
  moreover have "cur_inv (ready_insert t s)"
    using assms(1) False by (auto simp: sched_inv_def cur_inv_def stat_of_def ready_insert_def Let_def)
  ultimately show ?thesis
    using insert_thread_ready [OF False prio_lt [OF r]] by (simp add: sched_inv_def)
qed

lemma sched_inv_remove:
  assumes "sched_inv s" "started (thr s t)"
  shows "rt_schedule_remove_thread t s = Some (ready_remove t s) \<and> sched_inv (ready_remove t s)"
proof -
  have r: "ready_inv s" using assms(1) by (simp add: sched_inv_def)
  have "cur_inv (ready_remove t s) = cur_inv s"
    by (rule cur_inv_cong) simp_all
  with assms ready_inv_remove [OF r assms(2)] remove_thread_eq [OF prio_lt [OF r]] show ?thesis
    by (simp add: sched_inv_def)
qed

interpretation rq: ready_queue sched_inv "\<lambda>s t. \<not> unlinked t (lists s)" "\<lambda>s t. started (thr s t)"
  rt_schedule_insert_thread rt_schedule_remove_thread
  by unfold_locales (use sched_inv_insert sched_inv_remove in auto)

section \<open>Properties\<close>

definition runnable :: "kernel \<Rightarrow> tid set" where
  "runnable s = {t. (\<exists>p. t \<in> set (lists s (Ready p))) \<or>
                    rt_current_thread s = Some t \<and> stat_of s t = RT_THREAD_RUNNING}"

lemma runnable_switch:
  assumes "t \<in> set (lists s (Ready p))"
  shows "runnable (switch_to t p s) = {u. \<exists>q. u \<in> set (lists s (Ready q))}"
  using assms by (auto simp: runnable_def switch_to_def stat_of_def family_remove_def)

lemma ready_put_back:
  "{u. \<exists>q. u \<in> set (lists (put_back c s) (Ready q))} = insert c {u. \<exists>q. u \<in> set (lists s (Ready q))}"
  unfolding put_back_lists by (auto split: if_splits) metis

lemma runnable_running:
  "rt_current_thread s = Some c \<Longrightarrow> stat_of s c = RT_THREAD_RUNNING \<Longrightarrow>
   runnable s = insert c {u. \<exists>q. u \<in> set (lists s (Ready q))}"
  by (auto simp: runnable_def)

lemma top_priority:
  assumes "sched_inv s" "rt_current_thread s = Some c"
    and "\<And>q. q < prio_of s c \<Longrightarrow> lists s (Ready q) = []" "t \<in> runnable s"
  shows "prio_of s c \<le> prio_of s t"
proof (cases "t = c")
  case False
  then obtain p where p: "t \<in> set (lists s (Ready p))"
    using assms(2,4) by (auto simp: runnable_def)
  then have "prio_of s t = p"
    using assms(1) ready_invD(3) [of s t "Ready p"] by (simp add: sched_inv_def prio_of_def)
  with p assms(3) [of p] show ?thesis by (cases "p < prio_of s c") auto
qed simp

lemma switch_to_facts [simp]:
  "rt_current_thread (switch_to t p s) = Some t"
  "stat_of (switch_to t p s) t = RT_THREAD_RUNNING"
  "prio_of (switch_to t p s) u = prio_of s u"
  "lists (switch_to t p s) = family_remove t (lists s)"
  by (simp_all add: switch_to_def stat_of_def prio_of_def)

lemma prio_of_put_back [simp]: "prio_of (put_back c s) u = prio_of s u"
  by (cases "u = c") (simp_all add: prio_of_def)

lemma prio_of_ready: "ready_inv s \<Longrightarrow> t \<in> set (lists s (Ready p)) \<Longrightarrow> prio_of s t = p"
  using ready_invD(3) [of s t "Ready p"] by (simp add: prio_of_def)

lemma schedule_outcome:
  assumes inv: "sched_inv s" and c: "rt_current_thread s = Some c"
    and free: "rt_scheduler_lock_nest s = 0" "rt_thread_ready_priority_group s \<noteq> 0"
  shows "\<exists>s' c'. rt_schedule s = Some s' \<and> rt_current_thread s' = Some c' \<and>
     stat_of s' c' = RT_THREAD_RUNNING \<and> runnable s' = runnable s \<and>
     (\<forall>q < prio_of s' c'. lists s' (Ready q) = [])"
  using inv c
proof (cases rule: rt_schedule_cases)
  case idle
  then show ?thesis using free by auto
next
  case (keep t p)
  then show ?thesis
    using c by (auto simp: runnable_def stat_of_def prio_of_def)
next
  case (preempt t p ts)
  have r: "ready_inv s" using inv by (simp add: sched_inv_def)
  have tp: "prio_of s t = p"
    using prio_of_ready [OF r, of t p] preempt(1) by simp
  have "runnable (switch_to t p (put_back c s)) = runnable s"
    using preempt(1) runnable_switch [of t "put_back c s" p] in_put_back [of t s "Ready p" c]
    by (simp add: ready_put_back runnable_running [OF c preempt(4)])
  moreover have "lists (switch_to t p (put_back c s)) (Ready q) = []" if "q < p" for q
    using preempt(3) [OF that] preempt(5) that by (auto simp: put_back_lists family_remove_def)
  ultimately show ?thesis
    using preempt(6) tp by (intro exI [of _ "switch_to t p (put_back c s)"] exI [of _ t]) simp
next
  case (leave t p ts)
  have r: "ready_inv s" using inv by (simp add: sched_inv_def)
  have tp: "prio_of s t = p"
    using prio_of_ready [OF r, of t p] leave(1) by simp
  have "runnable (switch_to t p s) = runnable s"
    using leave c runnable_switch [of t s p] by (auto simp: runnable_def)
  moreover have "lists (switch_to t p s) (Ready q) = []" if "q < p" for q
    using leave(3) [OF that] by (simp add: family_remove_def)
  ultimately show ?thesis
    using leave(5) tp by (intro exI [of _ "switch_to t p s"] exI [of _ t]) simp
qed

text \<open>
  C2. In a consistent kernel whose scheduler is not locked and which has a ready
  thread, \<^verbatim>\<open>rt_schedule\<close> comes back in a consistent state in which exactly one
  runnable thread runs, no runnable thread is lost or invented, and the running
  thread has the highest priority (the lowest number) of all of them.
\<close>

theorem rt_schedule_runs_highest:
  assumes inv: "sched_inv s" and c: "rt_current_thread s = Some c"
    and free: "rt_scheduler_lock_nest s = 0" "rt_thread_ready_priority_group s \<noteq> 0"
  shows "\<exists>s' c'. rt_schedule s = Some s' \<and> sched_inv s' \<and> rt_current_thread s' = Some c' \<and>
     stat_of s' c' = RT_THREAD_RUNNING \<and> runnable s' = runnable s \<and>
     runnable s' \<subseteq> {t. prio_of s' c' \<le> prio_of s' t}"
proof -
  obtain s' c' where o: "rt_schedule s = Some s'" "rt_current_thread s' = Some c'"
    "stat_of s' c' = RT_THREAD_RUNNING" "runnable s' = runnable s"
    "\<forall>q < prio_of s' c'. lists s' (Ready q) = []"
    using schedule_outcome [OF assms] by blast
  moreover have "sched_inv s'"
    using sched_inv_schedule [OF inv c] o(1) by auto
  ultimately show ?thesis
    using top_priority [of s' c'] by auto
qed

section \<open>The small system is consistent\<close>

lemma sched_inv_reset: "sched_inv kernel_reset"
  by (auto simp: sched_inv_def ready_inv_def cur_inv_def kernel_reset_def family_ok_def thr_ok_def
      stat_of_def blank_thread_def)

lemma small_bits:
  "bit (0x80000400 :: 32 word) p \<longleftrightarrow> p = 10 \<or> p = 31" if "p < 32"
proof -
  have "p \<in> set [0..<32]" using that by simp
  moreover have "\<forall>q \<in> set [0..<32]. bit (0x80000400 :: 32 word) q \<longleftrightarrow> q = 10 \<or> q = 31"
    by (simp add: upt_rec)
  ultimately show ?thesis by blast
qed

lemma sched_inv_small: "sched_inv small_system"
proof -
  have "family_ok (lists small_system)"
    by (auto simp: family_ok_def small_system_def split: if_splits)
  moreover have "thr_ok (thr small_system t)" for t
    by (auto simp: small_system_def thr_ok_def sample_thread_def blank_thread_def started_def)
  moreover have "list_fits l (thr small_system t)" if "t \<in> set (lists small_system l)" for l t
    using that by (auto simp: small_system_def sample_thread_def blank_thread_def split: if_splits)
  moreover have "bit (rt_thread_ready_priority_group small_system) p \<longleftrightarrow>
                 lists small_system (Ready p) \<noteq> []" if "p < 32" for p
    using small_bits [OF that] by (simp add: small_system_def)
  moreover have "cur_inv small_system"
    by (auto simp: cur_inv_def small_system_def stat_of_def sample_thread_def blank_thread_def split: if_splits)
  ultimately show ?thesis
    by (simp add: sched_inv_def ready_inv_def)
qed

theorem rt_schedule_runs_highest_witness:
  "\<exists>s' c'. rt_schedule small_system = Some s' \<and> sched_inv s' \<and> rt_current_thread s' = Some c' \<and>
     stat_of s' c' = RT_THREAD_RUNNING \<and> runnable s' = runnable small_system \<and>
     runnable s' \<subseteq> {t. prio_of s' c' \<le> prio_of s' t}"
  by (rule rt_schedule_runs_highest [of small_system 2])
     (use sched_inv_small in \<open>simp_all add: small_system_def kernel_reset_def\<close>)

section \<open>Critical sections\<close>

fun exit_critical_times :: "nat \<Rightarrow> kernel \<Rightarrow> kernel option" where
  "exit_critical_times 0 s = Some s"
| "exit_critical_times (Suc k) s = Option.bind (rt_exit_critical s) (exit_critical_times k)"

lemma enter_critical_times:
  "(rt_enter_critical ^^ n) s = s\<lparr>rt_scheduler_lock_nest := rt_scheduler_lock_nest s + of_nat n\<rparr>"
  by (induction n) (simp_all add: rt_enter_critical_def add.commute add.assoc)

lemma sint_of_nat_small: "n < 2 ^ 15 \<Longrightarrow> sint (of_nat n :: 16 word) = int n"
  by (simp add: signed_of_nat signed_take_bit_int_eq_self)

lemma exit_critical_nested:
  assumes "rt_scheduler_lock_nest s = of_nat (Suc (Suc m))" "Suc m < 2 ^ 15"
  shows "rt_exit_critical s = Some (s\<lparr>rt_scheduler_lock_nest := of_nat (Suc m)\<rparr>)"
proof -
  have e: "rt_scheduler_lock_nest s - 1 = of_nat (Suc m)"
    using assms(1) by simp
  have "\<not> sint (of_nat (Suc m) :: 16 word) \<le> 0"
    using sint_of_nat_small [OF assms(2)] by simp
  then show ?thesis
    unfolding rt_exit_critical_def Let_def e by (simp del: of_nat_Suc)
qed

lemma exit_critical_last:
  "rt_scheduler_lock_nest s = 1 \<Longrightarrow> rt_exit_critical s =
     (if rt_current_thread s = None then Some (s\<lparr>rt_scheduler_lock_nest := 0\<rparr>)
      else rt_schedule (s\<lparr>rt_scheduler_lock_nest := 0\<rparr>))"
  by (simp add: rt_exit_critical_def Let_def)

lemma exit_critical_times_nested:
  assumes "k < n" "n < 2 ^ 15" "rt_scheduler_lock_nest s = of_nat n"
  shows "exit_critical_times k s = Some (s\<lparr>rt_scheduler_lock_nest := of_nat (n - k)\<rparr>)"
  using assms
proof (induction k arbitrary: n s)
  case 0
  then show ?case by simp
next
  case (Suc k)
  obtain m where n: "n = Suc (Suc m)"
    using Suc.prems(1) by (metis Suc_lessE lessE)
  have "rt_exit_critical s = Some (s\<lparr>rt_scheduler_lock_nest := of_nat (Suc m)\<rparr>)"
    using Suc.prems n by (intro exit_critical_nested) auto
  then show ?case
    using Suc.IH [of "Suc m" "s\<lparr>rt_scheduler_lock_nest := of_nat (Suc m)\<rparr>"] Suc.prems n
    by (simp del: of_nat_Suc)
qed

lemma exit_critical_times_add:
  "exit_critical_times (j + k) s = Option.bind (exit_critical_times j s) (exit_critical_times k)"
  by (induction j arbitrary: s) (auto split: bind_split)

text \<open>
  Critical sections nest: after \<open>n\<close> calls of \<^verbatim>\<open>rt_enter_critical\<close> (fewer
  than \<open>2\<^sup>1\<^sup>5\<close>, the range of the signed 16-bit counter) \<^verbatim>\<open>rt_schedule\<close> does
  nothing until the \<open>n\<close>-th \<^verbatim>\<open>rt_exit_critical\<close>, which schedules once.
\<close>

theorem critical_sections_nest:
  assumes "rt_scheduler_lock_nest s = 0" "0 < n" "n < 2 ^ 15"
  shows "rt_schedule ((rt_enter_critical ^^ n) s) = Some ((rt_enter_critical ^^ n) s) \<and>
     (k < n \<longrightarrow> exit_critical_times k ((rt_enter_critical ^^ n) s)
                 = Some ((rt_enter_critical ^^ (n - k)) s)) \<and>
     exit_critical_times n ((rt_enter_critical ^^ n) s)
       = (if rt_current_thread s = None then Some s else rt_schedule s)"
proof (intro conjI impI)
  let ?s = "(rt_enter_critical ^^ n) s"
  have nest: "rt_scheduler_lock_nest ?s = of_nat n"
    using assms(1) by (simp add: enter_critical_times)
  have "sint (of_nat n :: 16 word) \<noteq> 0"
    using sint_of_nat_small [OF assms(3)] assms(2) by simp
  then have "(of_nat n :: 16 word) \<noteq> 0"
    by (metis signed_0)
  then show "rt_schedule ?s = Some ?s"
    using nest by (intro rt_schedule_locked) simp
  show "exit_critical_times k ?s = Some ((rt_enter_critical ^^ (n - k)) s)" if "k < n"
    using exit_critical_times_nested [OF that assms(3) nest] assms(1)
    by (simp add: enter_critical_times)
  have "exit_critical_times (n - 1) ?s = Some (s\<lparr>rt_scheduler_lock_nest := 1\<rparr>)"
    using exit_critical_times_nested [of "n - 1" n ?s] assms nest by (simp add: enter_critical_times)
  then have "exit_critical_times ((n - 1) + 1) ?s = rt_exit_critical (s\<lparr>rt_scheduler_lock_nest := 1\<rparr>)"
    unfolding exit_critical_times_add by (simp add: bind_rzero) (simp split: bind_split)
  moreover have "s\<lparr>rt_scheduler_lock_nest := 0\<rparr> = s"
    using assms(1) by simp
  ultimately show "exit_critical_times n ?s
      = (if rt_current_thread s = None then Some s else rt_schedule s)"
    using assms(2) by (simp add: exit_critical_last)
qed

theorem critical_sections_nest_witness:
  "rt_schedule ((rt_enter_critical ^^ 3) small_system) = Some ((rt_enter_critical ^^ 3) small_system) \<and>
   exit_critical_times 2 ((rt_enter_critical ^^ 3) small_system)
     = Some ((rt_enter_critical ^^ 1) small_system) \<and>
   exit_critical_times 3 ((rt_enter_critical ^^ 3) small_system) = rt_schedule small_system"
  using critical_sections_nest [of small_system 3 2] by (simp add: small_system_def kernel_reset_def)

section \<open>What scheduling leaves alone\<close>

definition rest :: "kernel \<Rightarrow> kernel" where
  "rest s = s\<lparr>threads := (\<lambda>_. blank_thread), lists := (\<lambda>_. []), rt_thread_ready_priority_group := 0,
     rt_current_thread := None, rt_current_priority := 0, rt_scheduler_lock_nest := 0\<rparr>"

definition same_rest :: "kernel \<Rightarrow> kernel \<Rightarrow> bool" where
  "same_rest s s' \<longleftrightarrow> rest s' = rest s"

lemma rest_upd [simp]:
  "rest (s\<lparr>threads := a\<rparr>) = rest s" "rest (s\<lparr>lists := b\<rparr>) = rest s"
  "rest (s\<lparr>rt_thread_ready_priority_group := c\<rparr>) = rest s"
  "rest (s\<lparr>rt_current_thread := d\<rparr>) = rest s" "rest (s\<lparr>rt_current_priority := e\<rparr>) = rest s"
  "rest (s\<lparr>rt_scheduler_lock_nest := f\<rparr>) = rest s"
  by (simp_all add: rest_def)

lemma rest_lists [simp]:
  "rest (tl_push_front l t s) = rest s" "rest (tl_push_back l t s) = rest s"
  "rest (tl_remove t s) = rest s" "rest (tl_put_before p t s) = rest s"
  by (simp_all add: tl_push_front_def tl_push_back_def tl_remove_def tl_put_before_def)

lemma same_rest_refl [simp]: "same_rest s s"
  by (simp add: same_rest_def)

lemma same_rest_trans: "same_rest s s' \<Longrightarrow> same_rest s' s'' \<Longrightarrow> same_rest s s''"
  by (simp add: same_rest_def)

lemma rest_fields:
  "timers (rest s) = timers s" "objs (rest s) = objs s" "object_list (rest s) = object_list s"
  "timer_lists (rest s) = timer_lists s" "rt_tick (rest s) = rt_tick s"
  "rt_interrupt_nest (rest s) = rt_interrupt_nest s" "soft_timer_busy (rest s) = soft_timer_busy s"
  "random_nr (rest s) = random_nr s" "lwp_pending (rest s) = lwp_pending s" "sems (rest s) = sems s"
  "mutexes (rest s) = mutexes s" "events (rest s) = events s" "mailboxes (rest s) = mailboxes s"
  "mqs (rest s) = mqs s"
  by (simp_all add: rest_def)

lemma same_rest_fields:
  assumes "same_rest s s'"
  shows "timers s' = timers s" "objs s' = objs s" "object_list s' = object_list s"
    "timer_lists s' = timer_lists s" "rt_tick s' = rt_tick s" "rt_interrupt_nest s' = rt_interrupt_nest s"
    "soft_timer_busy s' = soft_timer_busy s" "random_nr s' = random_nr s" "lwp_pending s' = lwp_pending s"
    "sems s' = sems s" "mutexes s' = mutexes s" "events s' = events s" "mailboxes s' = mailboxes s"
    "mqs s' = mqs s"
  using assms unfolding same_rest_def by (metis rest_fields)+

lemma insert_thread_keeps:
  assumes "rt_schedule_insert_thread t s = Some s'"
  shows "rest s' = rest s \<and> rt_current_thread s' = rt_current_thread s \<and>
     rt_scheduler_lock_nest s' = rt_scheduler_lock_nest s"
  using assms
  by (auto simp: rt_schedule_insert_thread_def Let_def tl_push_front_def tl_push_back_def split: if_splits)

lemma remove_thread_keeps:
  assumes "rt_schedule_remove_thread t s = Some s'"
  shows "rest s' = rest s \<and> rt_current_thread s' = rt_current_thread s \<and>
     rt_scheduler_lock_nest s' = rt_scheduler_lock_nest s \<and> threads s' = threads s"
  using assms by (auto simp: rt_schedule_remove_thread_def Let_def tl_remove_def split: if_splits)

lemma schedule_keeps:
  assumes "rt_schedule s = Some s'"
  shows "rest s' = rest s \<and> rt_scheduler_lock_nest s' = rt_scheduler_lock_nest s \<and>
     (rt_current_thread s' = None \<longleftrightarrow> rt_current_thread s = None)"
  using assms unfolding rt_schedule_def Let_def
  by (auto simp: bind_Some_iff split: if_splits dest!: insert_thread_keeps remove_thread_keeps)

lemma exit_critical_keeps: "rt_exit_critical s = Some s' \<Longrightarrow> rest s' = rest s"
  by (auto simp: rt_exit_critical_def Let_def split: if_splits dest!: schedule_keeps)

lemma sched_inv_lock [simp]:
  "sched_inv (s\<lparr>rt_scheduler_lock_nest := n\<rparr>) = sched_inv s"
  by (simp add: sched_inv_def ready_inv_def cur_inv_def stat_of_def)

lemma critical_neutral:
  assumes "sched_inv s"
  shows "\<exists>s'. rt_exit_critical (rt_enter_critical s) = Some s' \<and> sched_inv s' \<and> same_rest s s'"
proof -
  let ?s = "s\<lparr>rt_scheduler_lock_nest := 0\<rparr>"
  have rest: "same_rest s s'" if "rt_exit_critical (rt_enter_critical s) = Some s'" for s'
    using exit_critical_keeps [OF that] by (simp add: same_rest_def rt_enter_critical_def)
  have "\<exists>s'. rt_exit_critical (rt_enter_critical s) = Some s' \<and> sched_inv s'"
    using assms sched_inv_schedule [of ?s]
    by (auto simp: rt_exit_critical_def rt_enter_critical_def Let_def)
  with rest show ?thesis by blast
qed

end
