(* ===== verification/Object.thy ===== *)
theory Object
  imports Scheduler
begin

text \<open>
  Kernel objects, \<^verbatim>\<open>src/object.c\<close>: the containers of named objects per class.
  An object's name is the content of its 20-byte name array as a C string, so
  copying truncates with \<^verbatim>\<open>take\<close> and \<^verbatim>\<open>rt_strncmp\<close> over at most
  \<^verbatim>\<open>RT_NAME_MAX\<close> bytes compares these prefixes.  Memory for a new object
  comes from \<^verbatim>\<open>RT_KERNEL_MALLOC\<close>; its answer is an argument of
  \<^verbatim>\<open>rt_object_allocate\<close>.
\<close>

section \<open>Operations\<close>

definition object_classes :: "8 word list" where
  "object_classes = [RT_Object_Class_Thread, RT_Object_Class_Semaphore, RT_Object_Class_Mutex,
     RT_Object_Class_Event, RT_Object_Class_MailBox, RT_Object_Class_MessageQueue,
     RT_Object_Class_MemPool, RT_Object_Class_Device, RT_Object_Class_Timer,
     RT_Object_Class_Memory, RT_Object_Class_Channel, RT_Object_Class_Custom]"

definition rt_object_get_information :: "8 word \<Rightarrow> 8 word option" where
  "rt_object_get_information type = find (\<lambda>c. c = type) object_classes"

definition rt_object_get_length :: "8 word \<Rightarrow> kernel \<Rightarrow> nat" where
  "rt_object_get_length type s =
    (case rt_object_get_information type of
       None \<Rightarrow> 0
     | Some information \<Rightarrow> length (object_list s information))"

text \<open>The loop of \<^verbatim>\<open>rt_object_get_pointers\<close>: store, count, stop when the array is full.\<close>

fun get_pointers_loop :: "obj_id list \<Rightarrow> obj_id list \<Rightarrow> nat \<Rightarrow> obj_id list" where
  "get_pointers_loop [] pointers maxlen = pointers"
| "get_pointers_loop (a # as) pointers maxlen =
    (let pointers' = pointers @ [a]
     in if length pointers' \<ge> maxlen then pointers' else get_pointers_loop as pointers' maxlen)"

definition rt_object_get_pointers :: "8 word \<Rightarrow> int \<Rightarrow> kernel \<Rightarrow> obj_id list" where
  "rt_object_get_pointers type maxlen s =
    (if maxlen \<le> 0 then []
     else case rt_object_get_information type of
            None \<Rightarrow> []
          | Some information \<Rightarrow> get_pointers_loop (object_list s information) [] (nat maxlen))"

definition rt_object_init :: "obj_id \<Rightarrow> 8 word \<Rightarrow> string \<Rightarrow> kernel \<Rightarrow> kernel option" where
  "rt_object_init a type name s = do {
     information \<leftarrow> rt_object_get_information type;
     let s1 = rt_enter_critical s;
     rt_assert (a \<notin> set (object_list s1 information));
     s2 \<leftarrow> rt_exit_critical s1;
     let s3 = upd_obj a (\<lambda>r. r\<lparr>obj_type := type OR RT_Object_Class_Static,
                               obj_name := take RT_NAME_MAX name\<rparr>) s2;
     Some (s3\<lparr>object_list := (object_list s3)(information := a # object_list s3 information)\<rparr>)
   }"

definition obj_unlink :: "obj_id \<Rightarrow> kernel \<Rightarrow> kernel" where
  "obj_unlink a s = s\<lparr>object_list := family_remove a (object_list s)\<rparr>"

definition rt_object_detach :: "obj_id \<Rightarrow> kernel \<Rightarrow> kernel" where
  "rt_object_detach a s = obj_unlink a (upd_obj a (\<lambda>r. r\<lparr>obj_type := 0\<rparr>) s)"

text \<open>\<^verbatim>\<open>rt_memset(object, 0, size)\<close>: the structure behind the identifier is zeroed.\<close>

definition zero_object :: "obj_id \<Rightarrow> kernel \<Rightarrow> kernel" where
  "zero_object a s =
    (let s1 = s\<lparr>objs := (objs s)(a := objs kernel_reset a)\<rparr>
     in case a of
          OThread t \<Rightarrow> s1\<lparr>threads := (threads s1)(t := blank_thread)\<rparr>
        | OTimer t \<Rightarrow> s1\<lparr>timers := (timers s1)(t := timers kernel_reset t)\<rparr>
        | OSem n \<Rightarrow> s1\<lparr>sems := (sems s1)(n := sems kernel_reset n)\<rparr>
        | OMutex n \<Rightarrow> s1\<lparr>mutexes := (mutexes s1)(n := mutexes kernel_reset n)\<rparr>
        | OEvent n \<Rightarrow> s1\<lparr>events := (events s1)(n := events kernel_reset n)\<rparr>
        | OMailbox n \<Rightarrow> s1\<lparr>mailboxes := (mailboxes s1)(n := mailboxes kernel_reset n)\<rparr>
        | OMq n \<Rightarrow> s1\<lparr>mqs := (mqs s1)(n := mqs kernel_reset n)\<rparr>
        | _ \<Rightarrow> s1)"

definition rt_object_allocate ::
    "obj_id option \<Rightarrow> 8 word \<Rightarrow> string \<Rightarrow> kernel \<Rightarrow> (obj_id option \<times> kernel) option" where
  "rt_object_allocate mem type name s = do {
     information \<leftarrow> rt_object_get_information type;
     case mem of
       None \<Rightarrow> Some (None, s)
     | Some a \<Rightarrow> do {
         let s1 = upd_obj a (\<lambda>r. r\<lparr>obj_type := type, obj_flag := 0, obj_name := take RT_NAME_MAX name\<rparr>)
                    (zero_object a s);
         Some (Some a, s1\<lparr>object_list := (object_list s1)(information := a # object_list s1 information)\<rparr>)
       }
   }"

definition rt_object_is_systemobject :: "obj_id \<Rightarrow> kernel \<Rightarrow> bool" where
  "rt_object_is_systemobject a s \<longleftrightarrow> obj_type (objs s a) AND RT_Object_Class_Static \<noteq> 0"

definition rt_object_get_type :: "obj_id \<Rightarrow> kernel \<Rightarrow> 8 word" where
  "rt_object_get_type a s = obj_type (objs s a) AND NOT RT_Object_Class_Static"

definition rt_object_delete :: "obj_id \<Rightarrow> kernel \<Rightarrow> kernel option" where
  "rt_object_delete a s = do {
     rt_assert (\<not> rt_object_is_systemobject a s);
     Some (obj_unlink a (upd_obj a (\<lambda>r. r\<lparr>obj_type := 0\<rparr>) s))
   }"

definition same_name :: "string \<Rightarrow> string \<Rightarrow> bool" where
  "same_name a b \<longleftrightarrow> take RT_NAME_MAX a = take RT_NAME_MAX b"

definition rt_object_find :: "string option \<Rightarrow> 8 word \<Rightarrow> kernel \<Rightarrow> (obj_id option \<times> kernel) option" where
  "rt_object_find name type s =
    (case (name, rt_object_get_information type) of
       (Some nm, Some information) \<Rightarrow> do {
         let s1 = rt_enter_critical s;
         let object = find (\<lambda>a. same_name (obj_name (objs s1 a)) nm) (object_list s1 information);
         s2 \<leftarrow> rt_exit_critical s1;
         Some (object, s2)
       }
     | _ \<Rightarrow> Some (None, s))"

definition rt_object_get_name :: "obj_id option \<Rightarrow> 8 word \<Rightarrow> kernel \<Rightarrow> err \<times> string option" where
  "rt_object_get_name object name_size s =
    (case object of
       Some a \<Rightarrow> if name_size \<noteq> 0 then (RT_EOK, Some (take (unat name_size) (obj_name (objs s a))))
                 else (- RT_EINVAL, None)
     | None \<Rightarrow> (- RT_EINVAL, None))"

text \<open>
  Custom objects carry a destructor; \<^verbatim>\<open>destroy\<close> is what calling it on the
  object's data returns, or \<^verbatim>\<open>None\<close> for a null pointer.
\<close>

definition rt_custom_object_create ::
    "obj_id option \<Rightarrow> string \<Rightarrow> kernel \<Rightarrow> (obj_id option \<times> kernel) option" where
  "rt_custom_object_create mem name s = rt_object_allocate mem RT_Object_Class_Custom name s"

definition rt_custom_object_destroy ::
    "err option \<Rightarrow> obj_id option \<Rightarrow> kernel \<Rightarrow> (err \<times> kernel) option" where
  "rt_custom_object_destroy destroy obj s =
    (case obj of
       Some a \<Rightarrow>
         if obj_type (objs s a) = RT_Object_Class_Custom
         then do {
           let ret = (case destroy of Some r \<Rightarrow> r | None \<Rightarrow> -1);
           s1 \<leftarrow> rt_object_delete a s;
           Some (ret, s1)
         }
         else Some (-1, s)
     | None \<Rightarrow> Some (-1, s))"

section \<open>The containers\<close>

definition obj_inv :: "kernel \<Rightarrow> bool" where
  "obj_inv s \<longleftrightarrow> family_ok (object_list s) \<and>
     (\<forall>c a. a \<in> set (object_list s c) \<longrightarrow> c \<in> set object_classes \<and> rt_object_get_type a s = c)"

lemma get_information_Some:
  "rt_object_get_information type = Some c \<longleftrightarrow> c = type \<and> type \<in> set object_classes"
  by (auto simp: rt_object_get_information_def find_Some_iff object_classes_def)

lemma get_information_in: "type \<in> set object_classes \<Longrightarrow> rt_object_get_information type = Some type"
  by (simp add: get_information_Some)

lemma class_not_static: "c \<in> set object_classes \<Longrightarrow> c AND NOT RT_Object_Class_Static = c"
  by (auto simp: object_classes_def)

lemma class_or_static:
  "c \<in> set object_classes \<Longrightarrow> (c OR RT_Object_Class_Static) AND NOT RT_Object_Class_Static = c"
  by (auto simp: object_classes_def)

lemma get_pointers_loop_take:
  "length acc < maxlen \<Longrightarrow> get_pointers_loop as acc maxlen = acc @ take (maxlen - length acc) as"
proof (induction as arbitrary: acc)
  case (Cons a as)
  then show ?case
    by (cases "length acc + 1 < maxlen") (auto simp: Let_def take_Cons')
qed simp

section \<open>Registration and lookup\<close>

lemma find_total:
  assumes "sched_inv s" "type \<in> set object_classes"
  shows "\<exists>s'. rt_object_find (Some name) type s =
      Some (find (\<lambda>a. same_name (obj_name (objs s a)) name) (object_list s type), s') \<and> sched_inv s' \<and> same_rest s s'"
proof -
  obtain s' where s': "rt_exit_critical (rt_enter_critical s) = Some s'" "sched_inv s'" "same_rest s s'"
    using critical_neutral [OF assms(1)] by blast
  have "objs (rt_enter_critical s) = objs s" "object_list (rt_enter_critical s) = object_list s"
    by (simp_all add: rt_enter_critical_def)
  with s' show ?thesis
    by (simp add: rt_object_find_def get_information_in [OF assms(2)])
qed

lemma object_init_result:
  assumes "sched_inv s" "type \<in> set object_classes" "a \<notin> set (object_list s type)"
  obtains s0 where "same_rest s s0" "sched_inv s0"
    "rt_object_init a type name s =
       Some (s0\<lparr>objs := (objs s)(a := (objs s a)\<lparr>obj_type := type OR RT_Object_Class_Static,
                                               obj_name := take RT_NAME_MAX name\<rparr>),
               object_list := (object_list s)(type := a # object_list s type)\<rparr>)"
proof -
  obtain s0 where s0: "rt_exit_critical (rt_enter_critical s) = Some s0" "sched_inv s0" "same_rest s s0"
    using critical_neutral [OF assms(1)] by blast
  have "object_list (rt_enter_critical s) = object_list s"
    by (simp add: rt_enter_critical_def)
  with s0 assms(3) same_rest_fields [OF s0(3)] that show thesis
    by (simp add: rt_object_init_def get_information_in [OF assms(2)])
qed

lemma obj_inv_link:
  assumes "obj_inv s" "type \<in> set object_classes" "unlinked a (object_list s)"
    "rt_object_get_type a s' = type" "\<And>b. b \<noteq> a \<Longrightarrow> objs s' b = objs s b"
    "object_list s' = (object_list s)(type := a # object_list s type)"
  shows "obj_inv s'"
proof -
  have "family_ok (object_list s')"
    unfolding assms(6)
    by (rule family_ok_insert) (use assms(1,3) in \<open>auto simp: obj_inv_def family_ok_def unlinked_def\<close>)
  moreover have "rt_object_get_type b s' = c \<and> c \<in> set object_classes" if "b \<in> set (object_list s' c)" for b c
  proof (cases "b = a")
    case True
    then have "c = type"
      using that assms(3,6) by (auto simp: unlinked_def split: if_splits)
    with True assms(2,4) show ?thesis by simp
  next
    case False
    then have "b \<in> set (object_list s c)"
      using that assms(6) by (auto split: if_splits)
    with False assms(1,5) show ?thesis
      by (auto simp: obj_inv_def rt_object_get_type_def)
  qed
  ultimately show ?thesis by (auto simp: obj_inv_def)
qed

lemma obj_inv_unlink:
  assumes "obj_inv s"
  shows "obj_inv (obj_unlink a (upd_obj a f s))"
proof -
  have "rt_object_get_type b (obj_unlink a (upd_obj a f s)) = c \<and> c \<in> set object_classes"
    if "b \<in> set (object_list (obj_unlink a (upd_obj a f s)) c)" for b c
    using that assms by (auto simp: obj_inv_def obj_unlink_def family_remove_def rt_object_get_type_def)
  then show ?thesis
    using assms family_ok_remove [of "object_list s" a] by (auto simp: obj_inv_def obj_unlink_def)
qed

text \<open>
  C4. Registering an object under a name and class: \<^verbatim>\<open>rt_object_init\<close> returns,
  keeps the containers well formed (every object in one container, of its own
  class), and \<^verbatim>\<open>rt_object_find\<close> with that name and class then returns the object,
  even when an older object has the same name.
\<close>

theorem object_init_find:
  assumes "sched_inv s" "obj_inv s" "type \<in> set object_classes" "unlinked a (object_list s)"
  shows "\<exists>s1 s2. rt_object_init a type name s = Some s1 \<and> obj_inv s1 \<and>
     rt_object_find (Some name) type s1 = Some (Some a, s2) \<and> same_rest s1 s2"
proof -
  have "a \<notin> set (object_list s type)"
    using assms(4) by (simp add: unlinked_def)
  from object_init_result [OF assms(1,3) this, of name] obtain s0
    where s0: "same_rest s s0" "sched_inv s0" and init: "rt_object_init a type name s =
       Some (s0\<lparr>objs := (objs s)(a := (objs s a)\<lparr>obj_type := type OR RT_Object_Class_Static,
                                               obj_name := take RT_NAME_MAX name\<rparr>),
               object_list := (object_list s)(type := a # object_list s type)\<rparr>)" (is "_ = Some ?s1")
    by metis
  have inv1: "obj_inv ?s1"
    by (rule obj_inv_link [OF assms(2,3,4)])
       (use class_or_static [OF assms(3)] in \<open>simp_all add: rt_object_get_type_def\<close>)
  have sched1: "sched_inv ?s1"
    using s0(2) by (simp add: sched_inv_def ready_inv_def cur_inv_def stat_of_def)
  obtain s2 where "rt_object_find (Some name) type ?s1 = Some (Some a, s2)" "same_rest ?s1 s2"
    using find_total [OF sched1 assms(3), of name] by (auto simp: same_name_def)
  with init inv1 show ?thesis by blast
qed

lemma obj_inv_small: "obj_inv small_system"
  by (simp add: obj_inv_def small_system_def kernel_reset_def family_ok_def)

theorem object_init_find_witness:
  "\<exists>s1 s2. rt_object_init (OSem 7) RT_Object_Class_Semaphore ''lock'' small_system = Some s1 \<and> obj_inv s1 \<and>
     rt_object_find (Some ''lock'') RT_Object_Class_Semaphore s1 = Some (Some (OSem 7), s2) \<and> same_rest s1 s2"
  by (rule object_init_find [OF sched_inv_small obj_inv_small])
     (simp_all add: object_classes_def unlinked_def small_system_def kernel_reset_def)

text \<open>
  Listing a class: \<^verbatim>\<open>rt_object_get_pointers\<close> returns the objects of the class in list order,
  as many as fit the caller's array and never more than \<^verbatim>\<open>rt_object_get_length\<close>;
  a detached object is no longer found under any class.
\<close>

theorem object_listing:
  "rt_object_get_pointers type maxlen s =
     take (nat maxlen) (if type \<in> set object_classes then object_list s type else []) \<and>
   rt_object_get_length type s = (if type \<in> set object_classes then length (object_list s type) else 0) \<and>
   a \<notin> set (rt_object_get_pointers c n (rt_object_detach a s))"
proof (intro conjI)
  have ptrs: "rt_object_get_pointers type maxlen s =
     take (nat maxlen) (if type \<in> set object_classes then object_list s type else [])" for type maxlen s
  proof (cases "type \<in> set object_classes")
    case True
    then show ?thesis
      by (simp add: rt_object_get_pointers_def get_information_in get_pointers_loop_take)
  next
    case False
    then have "rt_object_get_information type = None"
      using get_information_Some [of type] by (cases "rt_object_get_information type") auto
    with False show ?thesis by (simp add: rt_object_get_pointers_def)
  qed
  then show "rt_object_get_pointers type maxlen s =
     take (nat maxlen) (if type \<in> set object_classes then object_list s type else [])" .
  show "rt_object_get_length type s = (if type \<in> set object_classes then length (object_list s type) else 0)"
    using get_information_Some [of type]
    by (cases "rt_object_get_information type") (auto simp: rt_object_get_length_def get_information_in)
  show "a \<notin> set (rt_object_get_pointers c n (rt_object_detach a s))"
    unfolding ptrs
    by (auto simp: rt_object_detach_def obj_unlink_def family_remove_def dest: in_set_takeD)
qed

end
