(* ===== verification/TimerCore.thy ===== *)
theory TimerCore
  imports Object
begin

text \<open>
  Timers, \<^verbatim>\<open>src/timer.c\<close>, first part: initialisation, stop, control and removal,
  which thread suspension and resumption rely on.  The skip list has one level
  (\<^verbatim>\<open>RT_TIMER_SKIP_LIST_LEVEL\<close> is 1), so a timer has one list node; the
  family \<^verbatim>\<open>timer_lists\<close> holds the hard and the soft timer list and the local
  list that keeps a timer while its callback runs.
\<close>

section \<open>Operations\<close>

datatype timer_arg = TTick "32 word" | TState "32 word" | TFunc timeout_fn | TParm argument | TNone

definition tm_remove :: "timer_id \<Rightarrow> kernel \<Rightarrow> kernel" where
  "tm_remove t s = s\<lparr>timer_lists := family_remove t (timer_lists s)\<rparr>"

definition timer_flag :: "kernel \<Rightarrow> timer_id \<Rightarrow> 8 word" where
  "timer_flag s t = obj_flag (objs s (OTimer t))"

definition timer_clear :: "8 word \<Rightarrow> timer_id \<Rightarrow> kernel \<Rightarrow> kernel" where
  "timer_clear m t s = upd_obj (OTimer t) (\<lambda>r. r\<lparr>obj_flag := obj_flag r AND NOT m\<rparr>) s"

definition timer_set :: "8 word \<Rightarrow> timer_id \<Rightarrow> kernel \<Rightarrow> kernel" where
  "timer_set m t s = upd_obj (OTimer t) (\<lambda>r. r\<lparr>obj_flag := obj_flag r OR m\<rparr>) s"

definition timer_init ::
    "timer_id \<Rightarrow> timeout_fn \<Rightarrow> argument \<Rightarrow> 32 word \<Rightarrow> 8 word \<Rightarrow> kernel \<Rightarrow> kernel" where
  "timer_init t timeout param time flag s =
     upd_timer t (\<lambda>r. r\<lparr>timeout_func := timeout, parameter := param, timeout_tick := 0, init_tick := time\<rparr>)
       (upd_obj (OTimer t) (\<lambda>r. r\<lparr>obj_flag := flag AND NOT RT_TIMER_FLAG_ACTIVATED\<rparr>) s)"

definition timer_list_next_timeout :: "tlist_id \<Rightarrow> kernel \<Rightarrow> err \<times> 32 word option" where
  "timer_list_next_timeout l s =
    (case timer_lists s l of
       [] \<Rightarrow> (- RT_ERROR, None)
     | t # _ \<Rightarrow> (RT_EOK, Some (timeout_tick (timers s t))))"

definition rt_timer_init ::
    "timer_id \<Rightarrow> string \<Rightarrow> timeout_fn \<Rightarrow> argument \<Rightarrow> 32 word \<Rightarrow> 8 word \<Rightarrow> kernel \<Rightarrow> kernel option" where
  "rt_timer_init t name timeout param time flag s = do {
     rt_assert (time < RT_TICK_HALF);
     s1 \<leftarrow> rt_object_init (OTimer t) RT_Object_Class_Timer name s;
     Some (timer_init t timeout param time flag s1)
   }"

definition rt_timer_detach :: "timer_id \<Rightarrow> kernel \<Rightarrow> (err \<times> kernel) option" where
  "rt_timer_detach t s = do {
     rt_assert (rt_object_get_type (OTimer t) s = RT_Object_Class_Timer);
     rt_assert (rt_object_is_systemobject (OTimer t) s);
     Some (RT_EOK, rt_object_detach (OTimer t)
             (timer_clear RT_TIMER_FLAG_ACTIVATED t (tm_remove t s)))
   }"

definition rt_timer_create ::
    "timer_id option \<Rightarrow> string \<Rightarrow> timeout_fn \<Rightarrow> argument \<Rightarrow> 32 word \<Rightarrow> 8 word \<Rightarrow>
     kernel \<Rightarrow> (timer_id option \<times> kernel) option" where
  "rt_timer_create mem name timeout param time flag s = do {
     rt_assert (time < RT_TICK_HALF);
     (a, s1) \<leftarrow> rt_object_allocate (map_option OTimer mem) RT_Object_Class_Timer name s;
     Some (case mem of
             None \<Rightarrow> (None, s1)
           | Some t \<Rightarrow> (Some t, timer_init t timeout param time flag s1))
   }"

definition rt_timer_delete :: "timer_id \<Rightarrow> kernel \<Rightarrow> (err \<times> kernel) option" where
  "rt_timer_delete t s = do {
     rt_assert (rt_object_get_type (OTimer t) s = RT_Object_Class_Timer);
     rt_assert (\<not> rt_object_is_systemobject (OTimer t) s);
     s1 \<leftarrow> rt_object_delete (OTimer t) (timer_clear RT_TIMER_FLAG_ACTIVATED t (tm_remove t s));
     Some (RT_EOK, s1)
   }"

definition rt_timer_stop :: "timer_id \<Rightarrow> kernel \<Rightarrow> (err \<times> kernel) option" where
  "rt_timer_stop t s = do {
     rt_assert (rt_object_get_type (OTimer t) s = RT_Object_Class_Timer);
     Some (if timer_flag s t AND RT_TIMER_FLAG_ACTIVATED = 0 then (- RT_ERROR, s)
           else (RT_EOK, timer_clear RT_TIMER_FLAG_ACTIVATED t (tm_remove t s)))
   }"

definition rt_timer_control ::
    "timer_id \<Rightarrow> int \<Rightarrow> timer_arg \<Rightarrow> kernel \<Rightarrow> (err \<times> timer_arg \<times> kernel) option" where
  "rt_timer_control t cmd arg s = do {
     rt_assert (rt_object_get_type (OTimer t) s = RT_Object_Class_Timer);
     if cmd = 1 then Some (RT_EOK, TTick (init_tick (timers s t)), s)
     else if cmd = 0 then
       (case arg of
          TTick time \<Rightarrow> do {
            rt_assert (time < RT_TICK_HALF);
            Some (RT_EOK, arg, upd_timer t (\<lambda>r. r\<lparr>init_tick := time\<rparr>) s)
          }
        | _ \<Rightarrow> None)
     else if cmd = 2 then Some (RT_EOK, arg, timer_clear RT_TIMER_FLAG_PERIODIC t s)
     else if cmd = 3 then Some (RT_EOK, arg, timer_set RT_TIMER_FLAG_PERIODIC t s)
     else if cmd = 4 then
       Some (RT_EOK, TState (if timer_flag s t AND RT_TIMER_FLAG_ACTIVATED \<noteq> 0 then 1 else 0), s)
     else if cmd = 5 then Some (RT_EOK, TTick (timeout_tick (timers s t)), s)
     else if cmd = 6 then Some (RT_EOK, TFunc (timeout_func (timers s t)), s)
     else if cmd = 7 then
       (case arg of TFunc f \<Rightarrow> Some (RT_EOK, arg, upd_timer t (\<lambda>r. r\<lparr>timeout_func := f\<rparr>) s) | _ \<Rightarrow> None)
     else if cmd = 8 then Some (RT_EOK, TParm (parameter (timers s t)), s)
     else if cmd = 9 then
       (case arg of TParm p \<Rightarrow> Some (RT_EOK, arg, upd_timer t (\<lambda>r. r\<lparr>parameter := p\<rparr>) s) | _ \<Rightarrow> None)
     else Some (RT_EOK, arg, s)
   }"

definition rt_timer_next_timeout_tick :: "kernel \<Rightarrow> 32 word" where
  "rt_timer_next_timeout_tick s =
    (case timer_list_next_timeout HardTimers s of (_, Some tick) \<Rightarrow> tick | (_, None) \<Rightarrow> RT_TICK_MAX)"

definition rt_system_timer_init :: "kernel \<Rightarrow> kernel" where
  "rt_system_timer_init s = s\<lparr>timer_lists := (timer_lists s)(HardTimers := [])\<rparr>"

section \<open>The timer lists\<close>

definition active :: "kernel \<Rightarrow> timer_id \<Rightarrow> bool" where
  "active s t \<longleftrightarrow> timer_flag s t AND RT_TIMER_FLAG_ACTIVATED \<noteq> 0"

definition soft :: "kernel \<Rightarrow> timer_id \<Rightarrow> bool" where
  "soft s t \<longleftrightarrow> timer_flag s t AND RT_TIMER_FLAG_SOFT_TIMER \<noteq> 0"

definition periodic :: "kernel \<Rightarrow> timer_id \<Rightarrow> bool" where
  "periodic s t \<longleftrightarrow> timer_flag s t AND RT_TIMER_FLAG_PERIODIC \<noteq> 0"

definition timer_inv :: "kernel \<Rightarrow> bool" where
  "timer_inv s \<longleftrightarrow> family_ok (timer_lists s) \<and>
     (\<forall>t. t \<in> set (timer_lists s HardTimers) \<longrightarrow> active s t \<and> \<not> soft s t) \<and>
     (\<forall>t. t \<in> set (timer_lists s SoftTimers) \<longrightarrow> active s t \<and> soft s t)"

end
