(* ===== verification/ThreadCore.thy ===== *)
theory ThreadCore
  imports TimerCore
begin

text \<open>
  Suspension and resumption of threads, \<^verbatim>\<open>src/thread.c\<close>, with the RT-Smart
  signal check of \<^verbatim>\<open>components/lwp/lwp_signal.c\<close>, and the invariant
  \<^verbatim>\<open>kernel_inv\<close> of the whole kernel state that the operations of threads, timers
  and IPC objects keep.
\<close>

section \<open>Operations\<close>

definition sigqueue_isempty :: "64 word \<Rightarrow> bool" where
  "sigqueue_isempty pending \<longleftrightarrow> pending = 0"

definition sigqueue_ismember :: "64 word \<Rightarrow> nat \<Rightarrow> bool" where
  "sigqueue_ismember pending signo \<longleftrightarrow> 1 AND drop_bit (signo - 1) pending \<noteq> 0"

abbreviation (input) SIGKILL :: nat where "SIGKILL \<equiv> 9"

definition lwp_thread_signal_suspend_check :: "tid \<Rightarrow> int \<Rightarrow> kernel \<Rightarrow> int option" where
  "lwp_thread_signal_suspend_check t suspend_flag s =
    (let pending = sigq_pending (thr s t);
         process = (case lwp (thr s t) of None \<Rightarrow> None | Some n \<Rightarrow> Some (lwp_pending s n))
     in if suspend_flag = RT_INTERRUPTIBLE then
          Some (if \<not> sigqueue_isempty pending then 0
                else case process of
                       Some p \<Rightarrow> if \<not> sigqueue_isempty p then 0 else 1
                     | None \<Rightarrow> 1)
        else if suspend_flag = RT_KILLABLE then
          Some (if sigqueue_ismember pending SIGKILL then 0
                else case process of
                       Some p \<Rightarrow> if sigqueue_ismember p SIGKILL then 0 else 1
                     | None \<Rightarrow> 1)
        else if suspend_flag = RT_UNINTERRUPTIBLE then Some 1
        else None)"

definition rt_thread_set_suspend_state :: "tid \<Rightarrow> int \<Rightarrow> kernel \<Rightarrow> kernel option" where
  "rt_thread_set_suspend_state t suspend_flag s =
    (if suspend_flag = RT_INTERRUPTIBLE then
       Some (upd_thread t (set_stat RT_THREAD_SUSPEND_INTERRUPTIBLE) s)
     else if suspend_flag = RT_KILLABLE then
       Some (upd_thread t (set_stat RT_THREAD_SUSPEND_KILLABLE) s)
     else if suspend_flag = RT_UNINTERRUPTIBLE then
       Some (upd_thread t (set_stat RT_THREAD_SUSPEND_UNINTERRUPTIBLE) s)
     else None)"

definition rt_thread_suspend_with_flag :: "tid \<Rightarrow> int \<Rightarrow> kernel \<Rightarrow> (err \<times> kernel) option" where
  "rt_thread_suspend_with_flag t suspend_flag s = do {
     rt_assert (rt_object_get_type (OThread t) s = RT_Object_Class_Thread);
     rt_assert (rt_current_thread s = Some t);
     if stat_of s t \<noteq> RT_THREAD_READY \<and> stat_of s t \<noteq> RT_THREAD_RUNNING
     then Some (- RT_ERROR, s)
     else do {
       chk \<leftarrow> lwp_thread_signal_suspend_check t suspend_flag s;
       if chk = 0 then Some (- RT_EINTR, s)
       else do {
         s1 \<leftarrow> rt_schedule_remove_thread t s;
         s2 \<leftarrow> rt_thread_set_suspend_state t suspend_flag s1;
         (_, s3) \<leftarrow> rt_timer_stop (ThreadTimer t) s2;
         Some (RT_EOK, s3)
       }
     }
   }"

definition rt_thread_suspend :: "tid \<Rightarrow> kernel \<Rightarrow> (err \<times> kernel) option" where
  "rt_thread_suspend t s = rt_thread_suspend_with_flag t RT_UNINTERRUPTIBLE s"

definition rt_thread_resume :: "tid \<Rightarrow> kernel \<Rightarrow> (err \<times> kernel) option" where
  "rt_thread_resume t s = do {
     rt_assert (rt_object_get_type (OThread t) s = RT_Object_Class_Thread);
     if stat (thr s t) AND RT_THREAD_SUSPEND_MASK \<noteq> RT_THREAD_SUSPEND_MASK
     then Some (- RT_ERROR, s)
     else do {
       (_, s1) \<leftarrow> rt_timer_stop (ThreadTimer t) (tl_remove t s);
       s2 \<leftarrow> rt_schedule_insert_thread t (upd_thread t (\<lambda>r. r\<lparr>wakeup_func := None\<rparr>) s1);
       Some (RT_EOK, s2)
     }
   }"

text \<open>
  A wake-up function is named by a number; \<^verbatim>\<open>call\<close> says what calling it does.
\<close>

definition rt_thread_wakeup ::
    "(nat \<Rightarrow> 64 word \<Rightarrow> tid \<Rightarrow> kernel \<Rightarrow> (err \<times> kernel) option) \<Rightarrow> tid \<Rightarrow> kernel \<Rightarrow> (err \<times> kernel) option" where
  "rt_thread_wakeup call t s = do {
     rt_assert (rt_object_get_type (OThread t) s = RT_Object_Class_Thread);
     case wakeup_func (thr s t) of
       Some f \<Rightarrow> do {
         (ret, s1) \<leftarrow> call f (wakeup_data (thr s t)) t s;
         Some (ret, upd_thread t (\<lambda>r. r\<lparr>wakeup_func := None\<rparr>) s1)
       }
     | None \<Rightarrow> rt_thread_resume t s
   }"

definition rt_thread_wakeup_set :: "tid \<Rightarrow> nat option \<Rightarrow> 64 word \<Rightarrow> kernel \<Rightarrow> kernel option" where
  "rt_thread_wakeup_set t func user_data s = do {
     rt_assert (rt_object_get_type (OThread t) s = RT_Object_Class_Thread);
     Some (upd_thread t (\<lambda>r. r\<lparr>wakeup_func := func, wakeup_data := user_data\<rparr>) s)
   }"

section \<open>The kernel invariant\<close>

definition live :: "kernel \<Rightarrow> tid \<Rightarrow> bool" where
  "live s t \<longleftrightarrow> stat_of s t \<noteq> RT_THREAD_INIT \<and> stat_of s t \<noteq> RT_THREAD_CLOSE"

definition suspended :: "kernel \<Rightarrow> tid \<Rightarrow> bool" where
  "suspended s t \<longleftrightarrow> stat (thr s t) AND RT_THREAD_SUSPEND_MASK = RT_THREAD_SUSPEND_MASK"

definition thread_object_ok :: "kernel \<Rightarrow> tid \<Rightarrow> bool" where
  "thread_object_ok s t \<longleftrightarrow>
     rt_object_get_type (OThread t) s = RT_Object_Class_Thread \<and>
     rt_object_get_type (OTimer (ThreadTimer t)) s = RT_Object_Class_Timer \<and>
     \<not> soft s (ThreadTimer t) \<and> \<not> periodic s (ThreadTimer t) \<and>
     timeout_func (timers s (ThreadTimer t)) = thread_timeout_fn \<and>
     parameter (timers s (ThreadTimer t)) = ArgThread t"

definition thread_inv :: "kernel \<Rightarrow> bool" where
  "thread_inv s \<longleftrightarrow> (\<forall>t. live s t \<longrightarrow> thread_object_ok s t) \<and>
     (\<forall>t. ThreadTimer t \<in> set (timer_lists s HardTimers) \<longrightarrow> suspended s t)"

definition kernel_inv :: "kernel \<Rightarrow> bool" where
  "kernel_inv s \<longleftrightarrow> sched_inv s \<and> timer_inv s \<and> thread_inv s"

section \<open>Invariant parts that do not interfere\<close>

lemma sched_inv_cong_all:
  "\<lbrakk>threads s' = threads s; lists s' = lists s; rt_current_thread s' = rt_current_thread s;
    rt_thread_ready_priority_group s' = rt_thread_ready_priority_group s\<rbrakk> \<Longrightarrow> sched_inv s' = sched_inv s"
  by (simp add: sched_inv_def ready_inv_def cur_inv_def stat_of_def)

lemma timer_inv_cong:
  "\<lbrakk>timer_lists s' = timer_lists s; objs s' = objs s\<rbrakk> \<Longrightarrow> timer_inv s' = timer_inv s"
  by (simp add: timer_inv_def active_def soft_def timer_flag_def)

lemma thread_object_ok_cong:
  "\<lbrakk>objs s' = objs s; timers s' = timers s\<rbrakk> \<Longrightarrow> thread_object_ok s' t = thread_object_ok s t"
  by (simp add: thread_object_ok_def rt_object_get_type_def soft_def periodic_def timer_flag_def)

lemma rest_timer_inv: "rest s' = rest s \<Longrightarrow> timer_inv s' = timer_inv s"
  by (metis rest_fields timer_inv_cong)

lemma rest_thread_object_ok: "rest s' = rest s \<Longrightarrow> thread_object_ok s' t = thread_object_ok s t"
  by (metis rest_fields thread_object_ok_cong)

text \<open>
  A scheduler step keeps \<^verbatim>\<open>thread_inv\<close> when it makes no thread live that was not,
  and wakes no thread whose timer still runs.
\<close>

lemma thread_inv_sched_step:
  assumes "thread_inv s" "rest s' = rest s"
    and "\<And>t. live s' t \<Longrightarrow> live s t \<or> thread_object_ok s t"
    and "\<And>t. suspended s t \<Longrightarrow> ThreadTimer t \<in> set (timer_lists s HardTimers) \<Longrightarrow> suspended s' t"
  shows "thread_inv s'"
proof -
  have "timer_lists s' = timer_lists s"
    using assms(2) by (metis rest_fields(4))
  with assms show ?thesis
    by (auto simp: thread_inv_def rest_thread_object_ok [OF assms(2)])
qed

lemma suspended_live: "suspended s t \<Longrightarrow> live s t"
  using suspended_not_ready [of "stat (thr s t)"] by (simp add: suspended_def live_def stat_of_def)

lemma running_live: "stat_of s t = RT_THREAD_RUNNING \<Longrightarrow> live s t"
  by (simp add: live_def)

lemma live_started: "ready_inv s \<Longrightarrow> live s t \<Longrightarrow> started (thr s t)"
  using ready_invD(2) [of s t] by (auto simp: live_def thr_ok_def stat_of_def)

lemma kernel_invD:
  assumes "kernel_inv s"
  shows "sched_inv s" "ready_inv s" "cur_inv s" "timer_inv s" "thread_inv s"
    "live s t \<Longrightarrow> thread_object_ok s t"
    "ThreadTimer t \<in> set (timer_lists s HardTimers) \<Longrightarrow> suspended s t"
  using assms by (auto simp: kernel_inv_def sched_inv_def thread_inv_def)

lemma sched_inv_other [simp]:
  "sched_inv (s\<lparr>timers := x0\<rparr>) = sched_inv s"
  "sched_inv (s\<lparr>objs := x1\<rparr>) = sched_inv s"
  "sched_inv (s\<lparr>object_list := x2\<rparr>) = sched_inv s"
  "sched_inv (s\<lparr>timer_lists := x3\<rparr>) = sched_inv s"
  "sched_inv (s\<lparr>rt_tick := x4\<rparr>) = sched_inv s"
  "sched_inv (s\<lparr>rt_interrupt_nest := x5\<rparr>) = sched_inv s"
  "sched_inv (s\<lparr>soft_timer_busy := x6\<rparr>) = sched_inv s"
  "sched_inv (s\<lparr>random_nr := x7\<rparr>) = sched_inv s"
  "sched_inv (s\<lparr>lwp_pending := x8\<rparr>) = sched_inv s"
  "sched_inv (s\<lparr>sems := x9\<rparr>) = sched_inv s"
  "sched_inv (s\<lparr>mutexes := x10\<rparr>) = sched_inv s"
  "sched_inv (s\<lparr>events := x11\<rparr>) = sched_inv s"
  "sched_inv (s\<lparr>mailboxes := x12\<rparr>) = sched_inv s"
  "sched_inv (s\<lparr>mqs := x13\<rparr>) = sched_inv s"
  "sched_inv (s\<lparr>rt_current_priority := x14\<rparr>) = sched_inv s"
  by (simp_all add: sched_inv_def ready_inv_def cur_inv_def stat_of_def)

lemma obs_other [simp]:
  "live (s\<lparr>timers := x0\<rparr>) t = live s t"
  "suspended (s\<lparr>timers := x0\<rparr>) t = suspended s t"
  "stat_of (s\<lparr>timers := x0\<rparr>) t = stat_of s t"
  "prio_of (s\<lparr>timers := x0\<rparr>) t = prio_of s t"
  "live (s\<lparr>objs := x1\<rparr>) t = live s t"
  "suspended (s\<lparr>objs := x1\<rparr>) t = suspended s t"
  "stat_of (s\<lparr>objs := x1\<rparr>) t = stat_of s t"
  "prio_of (s\<lparr>objs := x1\<rparr>) t = prio_of s t"
  "live (s\<lparr>object_list := x2\<rparr>) t = live s t"
  "suspended (s\<lparr>object_list := x2\<rparr>) t = suspended s t"
  "stat_of (s\<lparr>object_list := x2\<rparr>) t = stat_of s t"
  "prio_of (s\<lparr>object_list := x2\<rparr>) t = prio_of s t"
  "live (s\<lparr>timer_lists := x3\<rparr>) t = live s t"
  "suspended (s\<lparr>timer_lists := x3\<rparr>) t = suspended s t"
  "stat_of (s\<lparr>timer_lists := x3\<rparr>) t = stat_of s t"
  "prio_of (s\<lparr>timer_lists := x3\<rparr>) t = prio_of s t"
  "live (s\<lparr>rt_tick := x4\<rparr>) t = live s t"
  "suspended (s\<lparr>rt_tick := x4\<rparr>) t = suspended s t"
  "stat_of (s\<lparr>rt_tick := x4\<rparr>) t = stat_of s t"
  "prio_of (s\<lparr>rt_tick := x4\<rparr>) t = prio_of s t"
  "live (s\<lparr>rt_interrupt_nest := x5\<rparr>) t = live s t"
  "suspended (s\<lparr>rt_interrupt_nest := x5\<rparr>) t = suspended s t"
  "stat_of (s\<lparr>rt_interrupt_nest := x5\<rparr>) t = stat_of s t"
  "prio_of (s\<lparr>rt_interrupt_nest := x5\<rparr>) t = prio_of s t"
  "live (s\<lparr>soft_timer_busy := x6\<rparr>) t = live s t"
  "suspended (s\<lparr>soft_timer_busy := x6\<rparr>) t = suspended s t"
  "stat_of (s\<lparr>soft_timer_busy := x6\<rparr>) t = stat_of s t"
  "prio_of (s\<lparr>soft_timer_busy := x6\<rparr>) t = prio_of s t"
  "live (s\<lparr>random_nr := x7\<rparr>) t = live s t"
  "suspended (s\<lparr>random_nr := x7\<rparr>) t = suspended s t"
  "stat_of (s\<lparr>random_nr := x7\<rparr>) t = stat_of s t"
  "prio_of (s\<lparr>random_nr := x7\<rparr>) t = prio_of s t"
  "live (s\<lparr>lwp_pending := x8\<rparr>) t = live s t"
  "suspended (s\<lparr>lwp_pending := x8\<rparr>) t = suspended s t"
  "stat_of (s\<lparr>lwp_pending := x8\<rparr>) t = stat_of s t"
  "prio_of (s\<lparr>lwp_pending := x8\<rparr>) t = prio_of s t"
  "live (s\<lparr>sems := x9\<rparr>) t = live s t"
  "suspended (s\<lparr>sems := x9\<rparr>) t = suspended s t"
  "stat_of (s\<lparr>sems := x9\<rparr>) t = stat_of s t"
  "prio_of (s\<lparr>sems := x9\<rparr>) t = prio_of s t"
  "live (s\<lparr>mutexes := x10\<rparr>) t = live s t"
  "suspended (s\<lparr>mutexes := x10\<rparr>) t = suspended s t"
  "stat_of (s\<lparr>mutexes := x10\<rparr>) t = stat_of s t"
  "prio_of (s\<lparr>mutexes := x10\<rparr>) t = prio_of s t"
  "live (s\<lparr>events := x11\<rparr>) t = live s t"
  "suspended (s\<lparr>events := x11\<rparr>) t = suspended s t"
  "stat_of (s\<lparr>events := x11\<rparr>) t = stat_of s t"
  "prio_of (s\<lparr>events := x11\<rparr>) t = prio_of s t"
  "live (s\<lparr>mailboxes := x12\<rparr>) t = live s t"
  "suspended (s\<lparr>mailboxes := x12\<rparr>) t = suspended s t"
  "stat_of (s\<lparr>mailboxes := x12\<rparr>) t = stat_of s t"
  "prio_of (s\<lparr>mailboxes := x12\<rparr>) t = prio_of s t"
  "live (s\<lparr>mqs := x13\<rparr>) t = live s t"
  "suspended (s\<lparr>mqs := x13\<rparr>) t = suspended s t"
  "stat_of (s\<lparr>mqs := x13\<rparr>) t = stat_of s t"
  "prio_of (s\<lparr>mqs := x13\<rparr>) t = prio_of s t"
  "live (s\<lparr>rt_current_priority := x14\<rparr>) t = live s t"
  "suspended (s\<lparr>rt_current_priority := x14\<rparr>) t = suspended s t"
  "stat_of (s\<lparr>rt_current_priority := x14\<rparr>) t = stat_of s t"
  "prio_of (s\<lparr>rt_current_priority := x14\<rparr>) t = prio_of s t"
  by (simp_all add: live_def suspended_def stat_of_def prio_of_def)

lemma obs_objs [simp]:
  "rt_object_get_type a (s\<lparr>timers := x0\<rparr>) = rt_object_get_type a s"
  "soft (s\<lparr>timers := x0\<rparr>) = soft s"
  "periodic (s\<lparr>timers := x0\<rparr>) = periodic s"
  "active (s\<lparr>timers := x0\<rparr>) = active s"
  "rt_object_get_type a (s\<lparr>object_list := x1\<rparr>) = rt_object_get_type a s"
  "soft (s\<lparr>object_list := x1\<rparr>) = soft s"
  "periodic (s\<lparr>object_list := x1\<rparr>) = periodic s"
  "active (s\<lparr>object_list := x1\<rparr>) = active s"
  "rt_object_get_type a (s\<lparr>timer_lists := x2\<rparr>) = rt_object_get_type a s"
  "soft (s\<lparr>timer_lists := x2\<rparr>) = soft s"
  "periodic (s\<lparr>timer_lists := x2\<rparr>) = periodic s"
  "active (s\<lparr>timer_lists := x2\<rparr>) = active s"
  "rt_object_get_type a (s\<lparr>rt_tick := x3\<rparr>) = rt_object_get_type a s"
  "soft (s\<lparr>rt_tick := x3\<rparr>) = soft s"
  "periodic (s\<lparr>rt_tick := x3\<rparr>) = periodic s"
  "active (s\<lparr>rt_tick := x3\<rparr>) = active s"
  "rt_object_get_type a (s\<lparr>rt_interrupt_nest := x4\<rparr>) = rt_object_get_type a s"
  "soft (s\<lparr>rt_interrupt_nest := x4\<rparr>) = soft s"
  "periodic (s\<lparr>rt_interrupt_nest := x4\<rparr>) = periodic s"
  "active (s\<lparr>rt_interrupt_nest := x4\<rparr>) = active s"
  "rt_object_get_type a (s\<lparr>soft_timer_busy := x5\<rparr>) = rt_object_get_type a s"
  "soft (s\<lparr>soft_timer_busy := x5\<rparr>) = soft s"
  "periodic (s\<lparr>soft_timer_busy := x5\<rparr>) = periodic s"
  "active (s\<lparr>soft_timer_busy := x5\<rparr>) = active s"
  "rt_object_get_type a (s\<lparr>random_nr := x6\<rparr>) = rt_object_get_type a s"
  "soft (s\<lparr>random_nr := x6\<rparr>) = soft s"
  "periodic (s\<lparr>random_nr := x6\<rparr>) = periodic s"
  "active (s\<lparr>random_nr := x6\<rparr>) = active s"
  "rt_object_get_type a (s\<lparr>lwp_pending := x7\<rparr>) = rt_object_get_type a s"
  "soft (s\<lparr>lwp_pending := x7\<rparr>) = soft s"
  "periodic (s\<lparr>lwp_pending := x7\<rparr>) = periodic s"
  "active (s\<lparr>lwp_pending := x7\<rparr>) = active s"
  "rt_object_get_type a (s\<lparr>sems := x8\<rparr>) = rt_object_get_type a s"
  "soft (s\<lparr>sems := x8\<rparr>) = soft s"
  "periodic (s\<lparr>sems := x8\<rparr>) = periodic s"
  "active (s\<lparr>sems := x8\<rparr>) = active s"
  "rt_object_get_type a (s\<lparr>mutexes := x9\<rparr>) = rt_object_get_type a s"
  "soft (s\<lparr>mutexes := x9\<rparr>) = soft s"
  "periodic (s\<lparr>mutexes := x9\<rparr>) = periodic s"
  "active (s\<lparr>mutexes := x9\<rparr>) = active s"
  "rt_object_get_type a (s\<lparr>events := x10\<rparr>) = rt_object_get_type a s"
  "soft (s\<lparr>events := x10\<rparr>) = soft s"
  "periodic (s\<lparr>events := x10\<rparr>) = periodic s"
  "active (s\<lparr>events := x10\<rparr>) = active s"
  "rt_object_get_type a (s\<lparr>mailboxes := x11\<rparr>) = rt_object_get_type a s"
  "soft (s\<lparr>mailboxes := x11\<rparr>) = soft s"
  "periodic (s\<lparr>mailboxes := x11\<rparr>) = periodic s"
  "active (s\<lparr>mailboxes := x11\<rparr>) = active s"
  "rt_object_get_type a (s\<lparr>mqs := x12\<rparr>) = rt_object_get_type a s"
  "soft (s\<lparr>mqs := x12\<rparr>) = soft s"
  "periodic (s\<lparr>mqs := x12\<rparr>) = periodic s"
  "active (s\<lparr>mqs := x12\<rparr>) = active s"
  "rt_object_get_type a (s\<lparr>rt_current_priority := x13\<rparr>) = rt_object_get_type a s"
  "soft (s\<lparr>rt_current_priority := x13\<rparr>) = soft s"
  "periodic (s\<lparr>rt_current_priority := x13\<rparr>) = periodic s"
  "active (s\<lparr>rt_current_priority := x13\<rparr>) = active s"
  "rt_object_get_type a (s\<lparr>threads := x14\<rparr>) = rt_object_get_type a s"
  "soft (s\<lparr>threads := x14\<rparr>) = soft s"
  "periodic (s\<lparr>threads := x14\<rparr>) = periodic s"
  "active (s\<lparr>threads := x14\<rparr>) = active s"
  "rt_object_get_type a (s\<lparr>lists := x15\<rparr>) = rt_object_get_type a s"
  "soft (s\<lparr>lists := x15\<rparr>) = soft s"
  "periodic (s\<lparr>lists := x15\<rparr>) = periodic s"
  "active (s\<lparr>lists := x15\<rparr>) = active s"
  "rt_object_get_type a (s\<lparr>rt_thread_ready_priority_group := x16\<rparr>) = rt_object_get_type a s"
  "soft (s\<lparr>rt_thread_ready_priority_group := x16\<rparr>) = soft s"
  "periodic (s\<lparr>rt_thread_ready_priority_group := x16\<rparr>) = periodic s"
  "active (s\<lparr>rt_thread_ready_priority_group := x16\<rparr>) = active s"
  "rt_object_get_type a (s\<lparr>rt_current_thread := x17\<rparr>) = rt_object_get_type a s"
  "soft (s\<lparr>rt_current_thread := x17\<rparr>) = soft s"
  "periodic (s\<lparr>rt_current_thread := x17\<rparr>) = periodic s"
  "active (s\<lparr>rt_current_thread := x17\<rparr>) = active s"
  "rt_object_get_type a (s\<lparr>rt_scheduler_lock_nest := x18\<rparr>) = rt_object_get_type a s"
  "soft (s\<lparr>rt_scheduler_lock_nest := x18\<rparr>) = soft s"
  "periodic (s\<lparr>rt_scheduler_lock_nest := x18\<rparr>) = periodic s"
  "active (s\<lparr>rt_scheduler_lock_nest := x18\<rparr>) = active s"
  by (simp_all add: rt_object_get_type_def soft_def periodic_def active_def timer_flag_def fun_eq_iff)

lemma kernel_inv_other [simp]:
  "kernel_inv (s\<lparr>object_list := x0\<rparr>) = kernel_inv s"
  "kernel_inv (s\<lparr>rt_tick := x1\<rparr>) = kernel_inv s"
  "kernel_inv (s\<lparr>rt_interrupt_nest := x2\<rparr>) = kernel_inv s"
  "kernel_inv (s\<lparr>soft_timer_busy := x3\<rparr>) = kernel_inv s"
  "kernel_inv (s\<lparr>random_nr := x4\<rparr>) = kernel_inv s"
  "kernel_inv (s\<lparr>lwp_pending := x5\<rparr>) = kernel_inv s"
  "kernel_inv (s\<lparr>sems := x6\<rparr>) = kernel_inv s"
  "kernel_inv (s\<lparr>mutexes := x7\<rparr>) = kernel_inv s"
  "kernel_inv (s\<lparr>events := x8\<rparr>) = kernel_inv s"
  "kernel_inv (s\<lparr>mailboxes := x9\<rparr>) = kernel_inv s"
  "kernel_inv (s\<lparr>mqs := x10\<rparr>) = kernel_inv s"
  "kernel_inv (s\<lparr>rt_current_priority := x11\<rparr>) = kernel_inv s"
  "kernel_inv (s\<lparr>rt_scheduler_lock_nest := x12\<rparr>) = kernel_inv s"
  by (simp_all add: kernel_inv_def timer_inv_def thread_inv_def active_def soft_def timer_flag_def
      thread_object_ok_def rt_object_get_type_def periodic_def live_def suspended_def stat_of_def)

text \<open>Removing a timer that is in no callback and clearing flag bits of an unlinked timer.\<close>

lemma sched_inv_timer_ops [simp]:
  "sched_inv (tm_remove t s) = sched_inv s" "sched_inv (timer_clear m t s) = sched_inv s"
  by (simp_all add: tm_remove_def timer_clear_def)

lemma kernel_inv_tm_remove:
  assumes "kernel_inv s" shows "kernel_inv (tm_remove t s)"
proof -
  have "timer_inv (tm_remove t s)"
    using assms family_ok_remove [of "timer_lists s" t]
    by (auto simp: kernel_inv_def tm_remove_def timer_inv_def family_remove_def active_def soft_def timer_flag_def)
  moreover have "thread_object_ok (tm_remove t s) u = thread_object_ok s u" for u
    by (rule thread_object_ok_cong) (simp_all add: tm_remove_def)
  ultimately show ?thesis
    using assms by (auto simp: kernel_inv_def thread_inv_def tm_remove_def family_remove_def)
qed

lemma kernel_inv_timer_clear:
  assumes "kernel_inv s" "t \<notin> set (timer_lists s HardTimers)" "t \<notin> set (timer_lists s SoftTimers)"
    and m: "m = RT_TIMER_FLAG_ACTIVATED"
  shows "kernel_inv (timer_clear m t s)"
proof -
  have fl: "soft (timer_clear m t s) u = soft s u" "periodic (timer_clear m t s) u = periodic s u"
    "u \<noteq> t \<Longrightarrow> active (timer_clear m t s) u = active s u" for u
    by (simp_all add: m timer_clear_def soft_def periodic_def active_def timer_flag_def and.assoc)
  have tl: "timer_lists (timer_clear m t s) = timer_lists s" "timers (timer_clear m t s) = timers s"
    "rt_object_get_type a (timer_clear m t s) = rt_object_get_type a s"
    "live (timer_clear m t s) u = live s u" "suspended (timer_clear m t s) u = suspended s u" for a u
    by (simp_all add: timer_clear_def rt_object_get_type_def)
  have "timer_inv (timer_clear m t s)"
    unfolding timer_inv_def tl fl using assms fl(3) by (auto simp: kernel_inv_def timer_inv_def) metis+
  moreover have "thread_object_ok (timer_clear m t s) u = thread_object_ok s u" for u
    by (simp add: thread_object_ok_def fl tl)
  ultimately show ?thesis
    using assms(1) by (simp add: kernel_inv_def thread_inv_def tl)
qed

section \<open>Stopping a timer\<close>

definition timer_off :: "timer_id \<Rightarrow> kernel \<Rightarrow> kernel" where
  "timer_off t s = (if active s t then timer_clear RT_TIMER_FLAG_ACTIVATED t (tm_remove t s) else s)"

lemma timer_stop_eq:
  assumes "rt_object_get_type (OTimer t) s = RT_Object_Class_Timer"
  shows "rt_timer_stop t s = Some (if active s t then RT_EOK else - RT_ERROR, timer_off t s)"
  using assms by (simp add: rt_timer_stop_def timer_off_def active_def)

lemma timer_off_frame [simp]:
  "threads (timer_off t s) = threads s" "lists (timer_off t s) = lists s"
  "rt_current_thread (timer_off t s) = rt_current_thread s"
  "rt_thread_ready_priority_group (timer_off t s) = rt_thread_ready_priority_group s"
  "rt_scheduler_lock_nest (timer_off t s) = rt_scheduler_lock_nest s"
  "timers (timer_off t s) = timers s" "rt_tick (timer_off t s) = rt_tick s"
  "rt_interrupt_nest (timer_off t s) = rt_interrupt_nest s"
  "sems (timer_off t s) = sems s" "mutexes (timer_off t s) = mutexes s" "events (timer_off t s) = events s"
  "mailboxes (timer_off t s) = mailboxes s" "mqs (timer_off t s) = mqs s"
  "rt_object_get_type a (timer_off t s) = rt_object_get_type a s"
  "soft (timer_off t s) u = soft s u" "periodic (timer_off t s) u = periodic s u"
  by (simp_all add: timer_off_def timer_clear_def tm_remove_def rt_object_get_type_def soft_def
      periodic_def timer_flag_def and.assoc)

lemma timer_off_active [simp]:
  "\<not> active (timer_off t s) t" "u \<noteq> t \<Longrightarrow> active (timer_off t s) u = active s u"
  by (simp_all add: timer_off_def timer_clear_def tm_remove_def active_def timer_flag_def and.assoc)

lemma timer_off_lists: "set (timer_lists (timer_off t s) l) \<subseteq> set (timer_lists s l)"
  by (auto simp: timer_off_def timer_clear_def tm_remove_def family_remove_def)

lemma timer_off_unlinked:
  assumes "timer_inv s" shows "t \<notin> set (timer_lists (timer_off t s) HardTimers)"
    "t \<notin> set (timer_lists (timer_off t s) SoftTimers)"
  using assms by (auto simp: timer_off_def timer_clear_def tm_remove_def family_remove_def timer_inv_def)

lemma timer_inv_off:
  assumes "timer_inv s" shows "timer_inv (timer_off t s)"
proof -
  have "family_ok (timer_lists (timer_off t s))"
    using assms family_ok_remove [of "timer_lists s" t]
    by (simp add: timer_inv_def timer_off_def timer_clear_def tm_remove_def)
  then show ?thesis
    using assms timer_off_lists [of t s] timer_off_unlinked [OF assms, of t]
    by (auto simp: timer_inv_def) (metis subsetD timer_off_active(2))+
qed

lemma thread_object_ok_off [simp]: "thread_object_ok (timer_off t s) u = thread_object_ok s u"
  by (simp add: thread_object_ok_def)

lemma live_off [simp]: "live (timer_off t s) u = live s u" "suspended (timer_off t s) u = suspended s u"
  by (simp_all add: live_def suspended_def stat_of_def)

lemma kernel_inv_off: "kernel_inv s \<Longrightarrow> kernel_inv (timer_off t s)"
  using timer_off_lists [of t s HardTimers]
  by (auto simp: kernel_inv_def timer_inv_off thread_inv_def sched_inv_cong_all [of "timer_off t s" s])

lemma sched_inv_fields:
  assumes "sched_inv s" "\<And>r. stat (f r) AND 7 = stat r AND 7" "\<And>r. stat (f r) AND 4 = stat r AND 4"
    "\<And>r. current_priority (f r) = current_priority r" "\<And>r. number_mask (f r) = number_mask r"
  shows "sched_inv (upd_thread t f s)"
proof -
  let ?s = "upd_thread t f s"
  have fits: "list_fits l (thr ?s u) = list_fits l (thr s u)" for l u
    using assms by (cases l) auto
  have "stat_of ?s u = stat_of s u" "thr_ok (thr ?s u) = thr_ok (thr s u)" for u
    using assms by (auto simp: stat_of_def thr_ok_def started_def)
  then show ?thesis
    using assms(1) fits by (simp add: sched_inv_def ready_inv_def cur_inv_def)
qed

lemma kernel_inv_fields:
  assumes "kernel_inv s" "\<And>r. stat (f r) AND 7 = stat r AND 7" "\<And>r. stat (f r) AND 4 = stat r AND 4"
    "\<And>r. current_priority (f r) = current_priority r" "\<And>r. number_mask (f r) = number_mask r"
  shows "kernel_inv (upd_thread t f s)"
    and "suspended (upd_thread t f s) u = suspended s u"
proof -
  let ?s = "upd_thread t f s"
  have "sched_inv ?s"
    using kernel_invD(1) [OF assms(1)] assms(2-5) by (rule sched_inv_fields)
  moreover have "timer_inv ?s = timer_inv s"
    by (rule timer_inv_cong) simp_all
  moreover have "thread_object_ok ?s u = thread_object_ok s u" for u
    by (rule thread_object_ok_cong) simp_all
  moreover have l: "live ?s u = live s u" "suspended ?s u = suspended s u" for u
    using assms by (auto simp: live_def stat_of_def suspended_def)
  ultimately show "kernel_inv ?s"
    using assms(1) by (simp add: kernel_inv_def thread_inv_def)
  show "suspended ?s u = suspended s u" by (rule l(2))
qed

lemma stat_or_yield [simp]:
  "(x OR 8) AND (7 :: 8 word) = x AND 7" "(x OR 8) AND (4 :: 8 word) = x AND 4"
  by (simp_all add: bit.conj_disj_distrib2)

lemma kernel_inv_error: "kernel_inv s \<Longrightarrow> kernel_inv (upd_thread t (\<lambda>r. r\<lparr>thr_error := e\<rparr>) s)"
  by (rule kernel_inv_fields) simp_all

section \<open>Suspension of the running thread\<close>

definition suspend_code :: "int \<Rightarrow> 8 word" where
  "suspend_code flag = (if flag = RT_INTERRUPTIBLE then RT_THREAD_SUSPEND_INTERRUPTIBLE
     else if flag = RT_KILLABLE then RT_THREAD_SUSPEND_KILLABLE else RT_THREAD_SUSPEND_UNINTERRUPTIBLE)"

definition suspend_flags :: "int set" where
  "suspend_flags = {RT_INTERRUPTIBLE, RT_KILLABLE, RT_UNINTERRUPTIBLE}"

definition suspended_self :: "tid \<Rightarrow> int \<Rightarrow> kernel \<Rightarrow> kernel" where
  "suspended_self t flag s = timer_off (ThreadTimer t) (upd_thread t (set_stat (suspend_code flag)) s)"

lemma suspend_code_mask [simp]: "suspend_code flag AND 4 = 4"
  by (simp add: suspend_code_def)

lemma suspend_code_stat [simp]:
  "suspend_code flag AND 7 \<noteq> 2" "suspend_code flag AND 7 \<noteq> 3" "suspend_code flag AND 7 \<noteq> 0"
  "suspend_code flag AND 7 \<noteq> 1"
  by (auto simp: suspend_code_def)

lemma kernel_inv_thread_upd:
  assumes inv: "kernel_inv s" and u: "unlinked t (lists s)" and ok: "thr_ok (f (thr s t))"
    and cur: "rt_current_thread s = Some t \<longleftrightarrow> stat (f (thr s t)) AND 7 = 3 \<or> rt_current_thread s = Some t"
    and nr: "rt_current_thread s = Some t \<Longrightarrow> stat (f (thr s t)) AND 7 \<noteq> 2"
    and live: "thread_object_ok s t \<or> stat (f (thr s t)) AND 7 = 0 \<or> stat (f (thr s t)) AND 7 = 1"
    and tm: "ThreadTimer t \<in> set (timer_lists s HardTimers) \<Longrightarrow> stat (f (thr s t)) AND 4 = 4"
  shows "kernel_inv (upd_thread t f s)"
proof -
  let ?s = "upd_thread t f s"
  have "ready_inv ?s"
    using kernel_invD(2) [OF inv] u ok by (rule ready_inv_unlinked_upd)
  moreover have "cur_inv ?s"
    using kernel_invD(3) [OF inv] cur nr by (auto simp: cur_inv_def stat_of_def)
  moreover have "timer_inv ?s"
    using kernel_invD(4) [OF inv] timer_inv_cong [of ?s s] by simp
  moreover have "thread_inv ?s"
  proof -
    have "thread_object_ok ?s u = thread_object_ok s u" for u
      by (rule thread_object_ok_cong) simp_all
    then show ?thesis
      using kernel_invD(5) [OF inv] live tm
      by (auto simp: thread_inv_def live_def stat_of_def suspended_def)
  qed
  ultimately show ?thesis by (simp add: kernel_inv_def sched_inv_def)
qed

lemma suspend_self:
  assumes inv: "kernel_inv s" and c: "rt_current_thread s = Some t"
    and run: "stat_of s t = RT_THREAD_RUNNING" and flag: "flag \<in> suspend_flags"
    and chk: "lwp_thread_signal_suspend_check t flag s = Some k" "k \<noteq> 0"
  shows "rt_thread_suspend_with_flag t flag s = Some (RT_EOK, suspended_self t flag s)"
proof -
  let ?s1 = "upd_thread t (set_stat (suspend_code flag)) s"
  have r: "ready_inv s" and u: "unlinked t (lists s)" and st: "started (thr s t)"
    using kernel_invD(1,2) [OF inv] unlinked_current [OF _ c run] started_running(1) run by auto
  have ok: "thread_object_ok s t"
    using kernel_invD(6) [OF inv running_live [OF run]] .
  have rem: "rt_schedule_remove_thread t s = Some s"
    using remove_thread_eq [OF prio_lt [OF r]] ready_remove_unlinked [OF r st u] by simp
  have set: "rt_thread_set_suspend_state t flag s = Some ?s1"
    using flag by (auto simp: rt_thread_set_suspend_state_def suspend_code_def suspend_flags_def)
  have stop: "rt_timer_stop (ThreadTimer t) ?s1 =
      Some (if active ?s1 (ThreadTimer t) then RT_EOK else - RT_ERROR, timer_off (ThreadTimer t) ?s1)"
    by (rule timer_stop_eq) (use ok in \<open>simp add: thread_object_ok_def rt_object_get_type_def\<close>)
  show ?thesis
    unfolding rt_thread_suspend_with_flag_def
    using ok c run chk
    by (simp add: thread_object_ok_def rem set stop suspended_self_def del: upd_thread_def)
qed

lemma suspended_self_ok:
  assumes inv: "kernel_inv s" and c: "rt_current_thread s = Some t"
    and run: "stat_of s t = RT_THREAD_RUNNING"
  shows "kernel_inv (suspended_self t flag s)" "unlinked t (lists (suspended_self t flag s))"
    "suspended (suspended_self t flag s) t" "rt_current_thread (suspended_self t flag s) = Some t"
    "ThreadTimer t \<notin> set (timer_lists (suspended_self t flag s) HardTimers)"
proof -
  let ?s1 = "upd_thread t (set_stat (suspend_code flag)) s"
  have r: "ready_inv s" and u: "unlinked t (lists s)" and st: "started (thr s t)"
    using kernel_invD(1,2) [OF inv] unlinked_current [OF _ c run] started_running(1) run by auto
  have "kernel_inv ?s1"
    by (rule kernel_inv_thread_upd [OF inv u])
       (use c st ready_invD(2) [OF r, of t] kernel_invD(6) [OF inv running_live [OF run]]
        in \<open>auto simp: thr_ok_def\<close>)
  then show "kernel_inv (suspended_self t flag s)"
    unfolding suspended_self_def by (rule kernel_inv_off)
  show "ThreadTimer t \<notin> set (timer_lists (suspended_self t flag s) HardTimers)"
    unfolding suspended_self_def using \<open>kernel_inv ?s1\<close>
    by (intro timer_off_unlinked) (simp add: kernel_inv_def)
  show "unlinked t (lists (suspended_self t flag s))" "suspended (suspended_self t flag s) t"
    "rt_current_thread (suspended_self t flag s) = Some t"
    using u c by (simp_all add: suspended_self_def suspended_def)
qed

section \<open>Resumption\<close>

definition resumed :: "tid \<Rightarrow> kernel \<Rightarrow> kernel" where
  "resumed t s =
    (let s1 = upd_thread t (\<lambda>r. r\<lparr>wakeup_func := None\<rparr>) (timer_off (ThreadTimer t) (tl_remove t s))
     in if rt_current_thread s = Some t then upd_thread t (set_stat RT_THREAD_RUNNING) s1
        else ready_insert t s1)"

lemma ready_inv_tl_remove:
  assumes "ready_inv s" "suspended s t"
  shows "ready_inv (tl_remove t s)"
proof -
  have "t \<notin> set (lists s (Ready p))" for p
    using ready_invD(3) [OF assms(1), of t "Ready p"] assms(2)
      ready_not_suspended(1) [of "stat (thr s t)"]
    by (auto simp: suspended_def)
  then have "family_remove t (lists s) (Ready p) = lists s (Ready p)" for p
    by (simp add: family_remove_def)
  then show ?thesis
    using assms(1) family_ok_remove [of "lists s" t]
    by (auto simp: ready_inv_def tl_remove_def) (simp add: family_remove_def)
qed

lemma kernel_inv_tl_remove:
  assumes "kernel_inv s" "suspended s t" shows "kernel_inv (tl_remove t s)"
proof -
  have "cur_inv (tl_remove t s) = cur_inv s"
    by (rule cur_inv_cong) (simp_all add: tl_remove_def)
  moreover have "timer_inv (tl_remove t s) = timer_inv s"
    by (rule timer_inv_cong) (simp_all add: tl_remove_def)
  moreover have "thread_inv (tl_remove t s) = thread_inv s"
    by (simp add: thread_inv_def tl_remove_def live_def suspended_def stat_of_def
        thread_object_ok_def rt_object_get_type_def soft_def periodic_def timer_flag_def)
  ultimately show ?thesis
    using assms ready_inv_tl_remove [of s t] by (auto simp: kernel_inv_def sched_inv_def)
qed

lemma resume_suspended:
  assumes inv: "kernel_inv s" and susp: "suspended s t"
  shows "rt_thread_resume t s = Some (RT_EOK, resumed t s)"
proof -
  let ?s0 = "tl_remove t s"
  let ?s1 = "upd_thread t (\<lambda>r. r\<lparr>wakeup_func := None\<rparr>) (timer_off (ThreadTimer t) ?s0)"
  have ok: "thread_object_ok s t"
    using kernel_invD(6) [OF inv suspended_live [OF susp]] .
  have stop: "rt_timer_stop (ThreadTimer t) ?s0 =
      Some (if active ?s0 (ThreadTimer t) then RT_EOK else - RT_ERROR, timer_off (ThreadTimer t) ?s0)"
    by (rule timer_stop_eq) (use ok in \<open>simp add: thread_object_ok_def rt_object_get_type_def tl_remove_def\<close>)
  have cur: "rt_current_thread ?s1 = rt_current_thread s"
    by (simp add: tl_remove_def)
  have "prio_of ?s1 t < 32"
    using prio_lt [OF kernel_invD(2) [OF inv], of t] by (simp add: prio_of_def tl_remove_def)
  then have ins: "rt_schedule_insert_thread t ?s1 =
      Some (if rt_current_thread s = Some t then upd_thread t (set_stat RT_THREAD_RUNNING) ?s1
            else ready_insert t ?s1)"
    using cur insert_thread_current [of ?s1 t] insert_thread_ready [of ?s1 t] by auto
  show ?thesis
    unfolding rt_thread_resume_def resumed_def Let_def
    using ok susp by (simp add: thread_object_ok_def suspended_def stop ins del: upd_thread_def)
qed

lemma live_ready_insert: "live (ready_insert t s) u \<Longrightarrow> u \<noteq> t \<Longrightarrow> live s u"
  "suspended s u \<Longrightarrow> u \<noteq> t \<Longrightarrow> suspended (ready_insert t s) u"
  by (auto simp: live_def suspended_def stat_of_def ready_insert_def Let_def)

lemma rest_ready_insert [simp]: "rest (ready_insert t s) = rest s"
  by (simp add: ready_insert_def Let_def rest_def)

lemma kernel_inv_insert:
  assumes inv: "kernel_inv s" and u: "unlinked t (lists s)" and ok: "thread_object_ok s t"
    and st: "started (thr s t)" and nt: "ThreadTimer t \<notin> set (timer_lists s HardTimers)"
    and c: "rt_current_thread s \<noteq> Some t"
  shows "kernel_inv (ready_insert t s)"
proof -
  have r: "ready_inv s" using kernel_invD(2) [OF inv] .
  have "sched_inv (ready_insert t s)"
    using sched_inv_insert [OF kernel_invD(1) [OF inv] u st] insert_thread_ready [OF c prio_lt [OF r]]
    by simp
  moreover have "timer_inv (ready_insert t s)"
    using rest_timer_inv [of "ready_insert t s" s] kernel_invD(4) [OF inv] by simp
  moreover have "thread_inv (ready_insert t s)"
    using nt ok live_ready_insert
    by (intro thread_inv_sched_step [OF kernel_invD(5) [OF inv]]) (auto, metis+)
  ultimately show ?thesis by (simp add: kernel_inv_def)
qed

lemma kernel_inv_resumed:
  assumes inv: "kernel_inv s" and susp: "suspended s t"
  shows "kernel_inv (resumed t s)"
proof -
  let ?s1 = "timer_off (ThreadTimer t) (tl_remove t s)"
  let ?s2 = "upd_thread t (\<lambda>r. r\<lparr>wakeup_func := None\<rparr>) ?s1"
  have inv1: "kernel_inv ?s1"
    by (intro kernel_inv_off kernel_inv_tl_remove assms)
  have u: "unlinked t (lists ?s1)"
    by (simp add: tl_remove_def)
  have st: "started (thr s t)" and tok: "thr_ok (thr s t)" and ok: "thread_object_ok s t"
    using live_started [OF kernel_invD(2) [OF inv] suspended_live [OF susp]]
      ready_invD(2) [OF kernel_invD(2) [OF inv], of t] kernel_invD(6) [OF inv suspended_live [OF susp]] by auto
  have ok1: "thread_object_ok ?s1 t"
    using ok thread_object_ok_cong [of "tl_remove t s" s t] by (simp add: tl_remove_def)
  have nt: "ThreadTimer t \<notin> set (timer_lists ?s1 HardTimers)"
    using kernel_inv_tl_remove [OF assms] by (intro timer_off_unlinked) (simp add: kernel_inv_def)
  have inv2: "kernel_inv ?s2"
    by (rule kernel_inv_thread_upd [OF inv1 u])
       (use st tok ok1 nt susp kernel_invD(3) [OF inv] in
        \<open>auto simp: tl_remove_def thr_ok_def started_def suspended_def cur_inv_def stat_of_def\<close>)
  show ?thesis
  proof (cases "rt_current_thread s = Some t")
    case True
    have "kernel_inv (upd_thread t (set_stat RT_THREAD_RUNNING) ?s2)"
      by (rule kernel_inv_thread_upd [OF inv2])
         (use u st tok nt ok1 thread_object_ok_cong [of ?s2 ?s1 t] True in
           \<open>auto simp: tl_remove_def thr_ok_def started_def\<close>)
    with True show ?thesis by (simp add: resumed_def)
  next
    case False
    have "kernel_inv (ready_insert t ?s2)"
      by (rule kernel_inv_insert [OF inv2])
         (use u st nt ok1 thread_object_ok_cong [of ?s2 ?s1 t] False in
           \<open>auto simp: tl_remove_def started_def\<close>)
    with False show ?thesis by (simp add: resumed_def)
  qed
qed

section \<open>Scheduling changes only the state byte of threads\<close>

definition stat_only :: "kernel \<Rightarrow> kernel \<Rightarrow> bool" where
  "stat_only s s' \<longleftrightarrow> (\<forall>u. (thr s' u)\<lparr>stat := 0\<rparr> = (thr s u)\<lparr>stat := 0\<rparr>)"

lemma stat_only_refl [simp]: "stat_only s s"
  by (simp add: stat_only_def)

lemma stat_only_trans: "stat_only s s' \<Longrightarrow> stat_only s' s'' \<Longrightarrow> stat_only s s''"
  by (simp add: stat_only_def)

lemma stat_upd_fields: "r\<lparr>stat := 0\<rparr> = r'\<lparr>stat := 0\<rparr> \<Longrightarrow>
    thr_error r = thr_error r' \<and> current_priority r = current_priority r' \<and>
    taken_object_list r = taken_object_list r' \<and> pending_object r = pending_object r' \<and>
    event_set r = event_set r' \<and> event_info r = event_info r' \<and> init_priority r = init_priority r' \<and>
    remaining_tick r = remaining_tick r' \<and> thr_init_tick r = thr_init_tick r' \<and> number_mask r = number_mask r'"
  by (cases r; cases r') simp

lemma stat_only_fields:
  assumes "stat_only s s'"
  shows "thr_error (thr s' u) = thr_error (thr s u)" "current_priority (thr s' u) = current_priority (thr s u)"
    "taken_object_list (thr s' u) = taken_object_list (thr s u)"
    "pending_object (thr s' u) = pending_object (thr s u)" "event_set (thr s' u) = event_set (thr s u)"
    "event_info (thr s' u) = event_info (thr s u)" "init_priority (thr s' u) = init_priority (thr s u)"
    "prio_of s' u = prio_of s u"
  using assms stat_upd_fields [of "thr s' u" "thr s u"] by (simp_all add: stat_only_def prio_of_def)

lemma stat_only_insert: "rt_schedule_insert_thread t s = Some s' \<Longrightarrow> stat_only s s'"
  by (auto simp: rt_schedule_insert_thread_def Let_def stat_only_def tl_push_front_def tl_push_back_def
      set_stat_def split: if_splits)

lemma stat_only_schedule:
  assumes "rt_schedule s = Some s'" shows "stat_only s s'"
  using assms unfolding rt_schedule_def Let_def
  by (auto simp: bind_Some_iff stat_only_def set_stat_def split: if_splits
      dest!: remove_thread_keeps stat_only_insert)

section \<open>Scheduling keeps the kernel invariant\<close>

lemma set_stat_live:
  "stat_of s t = 2 \<or> stat_of s t = 3 \<Longrightarrow> st = 2 \<or> st = 3 \<Longrightarrow>
   live (upd_thread t (set_stat st) s) u = live s u \<and>
   suspended (upd_thread t (set_stat st) s) u = suspended s u"
  using ready_not_suspended [of "stat (thr s t)"]
  by (auto simp: live_def suspended_def stat_of_def)

lemma switch_to_live:
  assumes "stat_of s t = RT_THREAD_READY"
  shows "live (switch_to t p s) u = live s u" "suspended (switch_to t p s) u = suspended s u"
  using assms ready_not_suspended(1) [of "stat (thr s t)"]
  by (auto simp: live_def suspended_def stat_of_def switch_to_def)

lemma put_back_live:
  assumes "stat_of s c = RT_THREAD_RUNNING"
  shows "live (put_back c s) u = live s u" "suspended (put_back c s) u = suspended s u"
  using assms ready_not_suspended(2) [of "stat (thr s c)"]
  by (cases "u = c"; auto simp: live_def suspended_def stat_of_def)+

lemma put_back_stat_of: "u \<noteq> c \<Longrightarrow> stat_of (put_back c s) u = stat_of s u"
  by (simp add: stat_of_def)

lemma ready_stat: "ready_inv s \<Longrightarrow> t \<in> set (lists s (Ready p)) \<Longrightarrow> stat_of s t = RT_THREAD_READY"
  using ready_invD(3) [of s t "Ready p"] by (simp add: stat_of_def)

lemma schedule_live:
  assumes inv: "sched_inv s" and c: "rt_current_thread s = Some c" and s': "rt_schedule s = Some s'"
  shows "live s' u = live s u \<and> suspended s' u = suspended s u"
  using inv c
proof (cases rule: rt_schedule_cases)
  case idle
  with s' show ?thesis by simp
next
  case (keep t p)
  with s' ready_not_suspended(2) [of "stat (thr s c)"] show ?thesis
    by (cases "u = c") (auto simp: live_def suspended_def stat_of_def)
next
  case (preempt t p ts)
  have "stat_of (put_back c s) t = RT_THREAD_READY"
    using ready_stat [of s t p] inv preempt(1,2) by (simp add: sched_inv_def put_back_stat_of)
  with preempt s' put_back_live [OF preempt(4), of u] show ?thesis
    by (simp add: switch_to_live)
next
  case (leave t p ts)
  have "stat_of s t = RT_THREAD_READY"
    using ready_stat [of s t p] inv leave(1) by (simp add: sched_inv_def)
  with leave s' show ?thesis by (simp add: switch_to_live)
qed

lemma kernel_inv_schedule:
  assumes inv: "kernel_inv s" and c: "rt_current_thread s = Some c"
  shows "\<exists>s'. rt_schedule s = Some s' \<and> kernel_inv s' \<and> rest s' = rest s \<and>
     (\<forall>u. live s' u = live s u \<and> suspended s' u = suspended s u) \<and> rt_current_thread s' \<noteq> None"
proof -
  have si: "sched_inv s" using kernel_invD(1) [OF inv] .
  obtain s' where s': "rt_schedule s = Some s'" "sched_inv s'"
    using sched_inv_schedule [OF si c] by blast
  have k: "rest s' = rest s" "rt_current_thread s' \<noteq> None"
    using schedule_keeps [OF s'(1)] c by auto
  have l: "\<And>u. live s' u = live s u \<and> suspended s' u = suspended s u"
    by (rule schedule_live [OF si c s'(1)])
  have "thread_inv s'"
    by (rule thread_inv_sched_step [OF kernel_invD(5) [OF inv] k(1)]) (use l in auto)
  moreover have "timer_inv s'"
    using rest_timer_inv [OF k(1)] kernel_invD(4) [OF inv] by simp
  ultimately show ?thesis
    using s' k l by (auto simp: kernel_inv_def)
qed

lemma kernel_inv_small: "kernel_inv small_system"
proof -
  have "timer_inv small_system"
    by (simp add: timer_inv_def small_system_def kernel_reset_def family_ok_def)
  moreover have "thread_inv small_system"
    by (auto simp: thread_inv_def small_system_def kernel_reset_def thread_object_ok_def
        rt_object_get_type_def soft_def periodic_def timer_flag_def)
  ultimately show ?thesis
    using sched_inv_small by (simp add: kernel_inv_def)
qed

section \<open>Properties\<close>

text \<open>
  C6. The running thread suspends: when no deliverable signal is pending,
  \<^verbatim>\<open>rt_thread_suspend_with_flag\<close> returns \<^verbatim>\<open>RT_EOK\<close>, the thread is in the
  suspended state the flag asks for, is in no list, its timer is stopped, and
  every part of the kernel invariant holds; when a signal is pending it returns
  \<^verbatim>\<open>-RT_EINTR\<close> and nothing has changed.
\<close>

theorem thread_suspend_self:
  assumes "kernel_inv s" "rt_current_thread s = Some t" "stat_of s t = RT_THREAD_RUNNING"
    and "flag \<in> suspend_flags" "lwp_thread_signal_suspend_check t flag s = Some k"
  shows "\<exists>r s'. rt_thread_suspend_with_flag t flag s = Some (r, s') \<and> kernel_inv s' \<and>
     (if k = 0 then r = - RT_EINTR \<and> s' = s
      else r = RT_EOK \<and> stat_of s' t = suspend_code flag \<and> unlinked t (lists s') \<and>
           ThreadTimer t \<notin> set (timer_lists s' HardTimers))"
proof (cases "k = 0")
  case True
  have "thread_object_ok s t"
    using kernel_invD(6) [OF assms(1) running_live [OF assms(3)]] .
  with True assms show ?thesis
    by (simp add: rt_thread_suspend_with_flag_def thread_object_ok_def)
next
  case False
  have "suspend_code flag AND 7 = suspend_code flag"
    by (simp add: suspend_code_def)
  then have "stat_of (suspended_self t flag s) t = suspend_code flag"
    by (simp add: suspended_self_def stat_of_def)
  with False suspend_self [OF assms False] suspended_self_ok [OF assms(1,2,3), of flag] show ?thesis
    by auto
qed

theorem thread_suspend_self_witness:
  "\<exists>r s'. rt_thread_suspend_with_flag 2 RT_KILLABLE small_system = Some (r, s') \<and> kernel_inv s' \<and>
     r = RT_EOK \<and> stat_of s' 2 = RT_THREAD_SUSPEND_KILLABLE \<and> unlinked 2 (lists s') \<and>
     ThreadTimer 2 \<notin> set (timer_lists s' HardTimers)"
  using thread_suspend_self [OF kernel_inv_small, of 2 RT_KILLABLE 1]
  by (simp add: small_system_def kernel_reset_def sample_thread_def blank_thread_def stat_of_def
      suspend_flags_def lwp_thread_signal_suspend_check_def sigqueue_ismember_def suspend_code_def)

text \<open>
  C7. A suspended thread is resumed: \<^verbatim>\<open>rt_thread_resume\<close> returns \<^verbatim>\<open>RT_EOK\<close>, takes
  the thread out of whatever wait list it was in, stops its timer and makes it
  runnable at its priority, keeping the kernel invariant; any other thread is
  refused with \<^verbatim>\<open>-RT_ERROR\<close> and nothing has changed.
\<close>

theorem thread_resume:
  assumes "kernel_inv s" "live s t"
  shows "\<exists>r s'. rt_thread_resume t s = Some (r, s') \<and> kernel_inv s' \<and>
     (if suspended s t
      then r = RT_EOK \<and> t \<in> runnable s' \<and> ThreadTimer t \<notin> set (timer_lists s' HardTimers) \<and>
           thr_error (thr s' t) = thr_error (thr s t) \<and> prio_of s' t = prio_of s t
      else r = - RT_ERROR \<and> s' = s)"
proof (cases "suspended s t")
  case True
  have k: "kernel_inv (resumed t s)"
    by (rule kernel_inv_resumed [OF assms(1) True])
  have "t \<in> runnable (resumed t s)" "thr_error (thr (resumed t s) t) = thr_error (thr s t)"
    "prio_of (resumed t s) t = prio_of s t"
    by (auto simp: resumed_def Let_def runnable_def stat_of_def ready_insert_def prio_of_def tl_remove_def
        set_stat_def)
  moreover have "\<not> suspended (resumed t s) t"
    by (auto simp: resumed_def Let_def suspended_def ready_insert_def tl_remove_def)
  then have "ThreadTimer t \<notin> set (timer_lists (resumed t s) HardTimers)"
    using kernel_invD(7) [OF k] by blast
  ultimately show ?thesis
    using True k resume_suspended [OF assms(1) True] by simp
next
  case False
  have "thread_object_ok s t"
    using kernel_invD(6) [OF assms] .
  with False assms(1) show ?thesis
    by (simp add: rt_thread_resume_def thread_object_ok_def suspended_def)
qed

theorem thread_resume_witness:
  "\<exists>s'. rt_thread_resume 2 (suspended_self 2 RT_UNINTERRUPTIBLE small_system) = Some (RT_EOK, s') \<and>
     2 \<in> runnable s'"
proof -
  have run: "stat_of small_system 2 = 3" and cur: "rt_current_thread small_system = Some 2"
    by (simp_all add: small_system_def kernel_reset_def sample_thread_def blank_thread_def stat_of_def)
  note ok = suspended_self_ok [OF kernel_inv_small cur run, of RT_UNINTERRUPTIBLE]
  show ?thesis
    using thread_resume [OF ok(1) suspended_live [OF ok(3)]] ok(3) by auto
qed

end
