(* ===== verification/Timer.thy ===== *)
theory Timer
  imports ThreadCore
begin

text \<open>
  Timers, \<^verbatim>\<open>src/timer.c\<close>, second part: starting a timer, the expiry of hard
  timers in the tick interrupt and of soft timers in the timer thread; and the
  system tick of \<^verbatim>\<open>src/clock.c\<close>.  A timer that is started goes into its list
  before the first timer that is later than it; lateness is decided on the
  difference of 32-bit ticks, so it survives the wrap-around of the counter.

  Callbacks of user timers are code outside the kernel: the check functions
  take an argument \<^verbatim>\<open>call\<close> that says what calling function \<open>n\<close> does.  The
  expiry loops take fuel, one unit per iteration, and give \<^verbatim>\<open>None\<close> when it runs
  out; the theorems show how much is enough.
\<close>

section \<open>Starting a timer\<close>

definition later :: "32 word \<Rightarrow> 32 word \<Rightarrow> bool" where
  "later a b \<longleftrightarrow> a - b \<noteq> 0 \<and> a - b < RT_TICK_HALF"

definition rt_timer_start :: "timer_id \<Rightarrow> kernel \<Rightarrow> (err \<times> kernel) option" where
  "rt_timer_start t s = do {
     rt_assert (rt_object_get_type (OTimer t) s = RT_Object_Class_Timer);
     let s1 = timer_clear RT_TIMER_FLAG_ACTIVATED t (tm_remove t s);
     let s2 = upd_timer t (\<lambda>r. r\<lparr>timeout_tick := rt_tick s1 + init_tick r\<rparr>) s1;
     let l = (if soft s2 t then SoftTimers else HardTimers);
     let row = insert_where (\<lambda>u. later (timeout_tick (timers s2 u)) (timeout_tick (timers s2 t))) t
                 (timer_lists s2 l);
     let s3 = s2\<lparr>random_nr := random_nr s2 + 1, timer_lists := (timer_lists s2)(l := row)\<rparr>;
     let s4 = timer_set RT_TIMER_FLAG_ACTIVATED t s3;
     if soft s4 t \<and> \<not> soft_timer_busy s4 \<and> suspended s4 timer_thread
     then do {
       (_, s5) \<leftarrow> rt_thread_resume timer_thread s4;
       s6 \<leftarrow> rt_schedule s5;
       Some (RT_EOK, s6)
     }
     else Some (RT_EOK, s4)
   }"

section \<open>Expiry\<close>

definition thread_timeout :: "tid \<Rightarrow> kernel \<Rightarrow> kernel option" where
  "thread_timeout t s = do {
     rt_assert (suspended s t);
     rt_assert (rt_object_get_type (OThread t) s = RT_Object_Class_Thread);
     let s1 = tl_remove t (upd_thread t (\<lambda>r. r\<lparr>thr_error := - RT_ETIMEOUT\<rparr>) s);
     s2 \<leftarrow> rt_schedule_insert_thread t s1;
     rt_schedule s2
   }"

type_synonym callbacks = "nat \<Rightarrow> argument \<Rightarrow> kernel \<Rightarrow> kernel option"

definition call_timeout :: "callbacks \<Rightarrow> timer_id \<Rightarrow> kernel \<Rightarrow> kernel option" where
  "call_timeout call t s =
    (case timeout_func (timers s t) of
       thread_timeout_fn \<Rightarrow>
         (case parameter (timers s t) of ArgThread u \<Rightarrow> thread_timeout u s | ArgNum _ \<Rightarrow> None)
     | user_fn n \<Rightarrow> call n (parameter (timers s t)) s)"

definition expire_begin :: "tlist_id \<Rightarrow> timer_id \<Rightarrow> kernel \<Rightarrow> kernel" where
  "expire_begin pending t s =
    (let s1 = tm_remove t s;
         s2 = (if periodic s1 t then s1 else timer_clear RT_TIMER_FLAG_ACTIVATED t s1)
     in s2\<lparr>timer_lists := (timer_lists s2)(pending := t # timer_lists s2 pending)\<rparr>)"

definition expire_end :: "tlist_id \<Rightarrow> timer_id \<Rightarrow> kernel \<Rightarrow> kernel option" where
  "expire_end pending t s =
    (if timer_lists s pending = [] then Some s
     else let s1 = tm_remove t s
          in if periodic s1 t \<and> active s1 t
             then map_option snd (rt_timer_start t (timer_clear RT_TIMER_FLAG_ACTIVATED t s1))
             else Some s1)"

fun rt_timer_check_loop :: "callbacks \<Rightarrow> nat \<Rightarrow> 32 word \<Rightarrow> kernel \<Rightarrow> kernel option" where
  "rt_timer_check_loop call 0 current_tick s = None"
| "rt_timer_check_loop call (Suc fuel) current_tick s =
    (case timer_lists s HardTimers of
       [] \<Rightarrow> Some s
     | t # _ \<Rightarrow>
         if current_tick - timeout_tick (timers s t) < RT_TICK_HALF
         then do {
           s1 \<leftarrow> call_timeout call t (expire_begin HardPending t s);
           let current_tick' = rt_tick s1;
           s2 \<leftarrow> expire_end HardPending t s1;
           rt_timer_check_loop call fuel current_tick' s2
         }
         else Some s)"

definition rt_timer_check :: "callbacks \<Rightarrow> nat \<Rightarrow> kernel \<Rightarrow> kernel option" where
  "rt_timer_check call fuel s =
     rt_timer_check_loop call fuel (rt_tick s) (s\<lparr>timer_lists := (timer_lists s)(HardPending := [])\<rparr>)"

fun rt_soft_timer_check_loop :: "callbacks \<Rightarrow> nat \<Rightarrow> kernel \<Rightarrow> kernel option" where
  "rt_soft_timer_check_loop call 0 s = None"
| "rt_soft_timer_check_loop call (Suc fuel) s =
    (case timer_lists s SoftTimers of
       [] \<Rightarrow> Some s
     | t # _ \<Rightarrow>
         if rt_tick s - timeout_tick (timers s t) < RT_TICK_HALF
         then do {
           s1 \<leftarrow> call_timeout call t ((expire_begin SoftPending t s)\<lparr>soft_timer_busy := True\<rparr>);
           s2 \<leftarrow> expire_end SoftPending t (s1\<lparr>soft_timer_busy := False\<rparr>);
           rt_soft_timer_check_loop call fuel s2
         }
         else Some s)"

definition rt_soft_timer_check :: "callbacks \<Rightarrow> nat \<Rightarrow> kernel \<Rightarrow> kernel option" where
  "rt_soft_timer_check call fuel s =
     rt_soft_timer_check_loop call fuel (s\<lparr>timer_lists := (timer_lists s)(SoftPending := [])\<rparr>)"

section \<open>The clock\<close>

definition rt_tick_get :: "kernel \<Rightarrow> 32 word" where
  "rt_tick_get s = rt_tick s"

definition rt_tick_set :: "32 word \<Rightarrow> kernel \<Rightarrow> kernel" where
  "rt_tick_set tick s = s\<lparr>rt_tick := tick\<rparr>"

definition rt_tick_increase :: "callbacks \<Rightarrow> nat \<Rightarrow> kernel \<Rightarrow> kernel option" where
  "rt_tick_increase call fuel s = do {
     let s1 = s\<lparr>rt_tick := rt_tick s + 1\<rparr>;
     thread \<leftarrow> rt_current_thread s1;
     let s2 = upd_thread thread (\<lambda>r. r\<lparr>remaining_tick := remaining_tick r - 1\<rparr>) s1;
     s3 \<leftarrow> (if remaining_tick (thr s2 thread) = 0
            then rt_schedule (upd_thread thread
                   (\<lambda>r. r\<lparr>remaining_tick := thr_init_tick r, stat := stat r OR RT_THREAD_STAT_YIELD\<rparr>) s2)
            else Some s2);
     rt_timer_check call fuel s3
   }"

text \<open>Signed 32-bit milliseconds; C division truncates, and here both operands are non-negative.\<close>

definition rt_tick_from_millisecond :: "int \<Rightarrow> 32 word" where
  "rt_tick_from_millisecond ms =
    (if ms < 0 then word_of_int RT_WAITING_FOREVER
     else word_of_int (RT_TICK_PER_SECOND * (ms div 1000))
          + word_of_int ((RT_TICK_PER_SECOND * (ms mod 1000) + 999) div 1000))"

definition rt_tick_get_millisecond :: "kernel \<Rightarrow> 32 word" where
  "rt_tick_get_millisecond s = rt_tick_get s * 10"

section \<open>Order of the hard timers\<close>

definition remaining :: "kernel \<Rightarrow> timer_id \<Rightarrow> nat" where
  "remaining s t = unat (timeout_tick (timers s t) - rt_tick s)"

definition timer_order :: "kernel \<Rightarrow> bool" where
  "timer_order s \<longleftrightarrow> sorted (map (remaining s) (timer_lists s HardTimers)) \<and>
     (\<forall>t. t \<in> set (timer_lists s HardTimers) \<longrightarrow> remaining s t < 0x7fffffff)"

lemma later_iff:
  fixes a b n :: "32 word"
  assumes "unat (a - n) < 0x7fffffff" "unat (b - n) < 0x7fffffff"
  shows "later a b \<longleftrightarrow> unat (b - n) < unat (a - n)"
proof -
  define x y where "x = a - n" and "y = b - n"
  have d: "a - b = x - y"
    by (simp add: x_def y_def)
  have u: "unat (x - y) = (if unat y \<le> unat x then unat x - unat y else unat x + 2 ^ 32 - unat y)"
    using unat_sub_if' [of x y] by simp
  have "later a b \<longleftrightarrow> unat (x - y) \<noteq> 0 \<and> unat (x - y) < 0x7fffffff"
    by (simp add: later_def d unat_lt_nat unat_eq_0)
  also have "\<dots> \<longleftrightarrow> unat y < unat x"
    using assms unfolding x_def [symmetric] y_def [symmetric] u by (auto split: if_splits)
  finally show ?thesis by (simp add: x_def y_def)
qed

lemma expired_iff:
  fixes n a :: "32 word"
  assumes "unat (a - n) < 0x7fffffff"
  shows "n - a < RT_TICK_HALF \<longleftrightarrow> a = n"
proof -
  have "n - a = 0 - (a - n)" by simp
  then have "unat (n - a) = (if a = n then 0 else 2 ^ 32 - unat (a - n))"
    using unat_sub_if' [of 0 "a - n"] by (auto simp: unat_eq_0)
  then show ?thesis
    using assms by (auto simp: unat_lt_nat)
qed

section \<open>The effect of starting a hard timer\<close>

definition timer_on :: "timer_id \<Rightarrow> kernel \<Rightarrow> kernel" where
  "timer_on t s =
    (let due = rt_tick s + init_tick (timers s t);
         rows = family_remove t (timer_lists s)
     in s\<lparr>timers := (timers s)(t := (timers s t)\<lparr>timeout_tick := due\<rparr>),
          timer_lists := rows(HardTimers :=
             insert_where (\<lambda>u. later (timeout_tick (timers s u)) due) t (rows HardTimers)),
          objs := (objs s)(OTimer t := (objs s (OTimer t))\<lparr>obj_flag :=
             (timer_flag s t AND NOT RT_TIMER_FLAG_ACTIVATED) OR RT_TIMER_FLAG_ACTIVATED\<rparr>),
          random_nr := random_nr s + 1\<rparr>)"

lemma get_type_timer_ops [simp]:
  "rt_object_get_type a (tm_remove t s) = rt_object_get_type a s"
  "rt_object_get_type a (timer_clear m t s) = rt_object_get_type a s"
  "rt_object_get_type a (timer_set m t s) = rt_object_get_type a s"
  by (simp_all add: rt_object_get_type_def tm_remove_def timer_clear_def timer_set_def)

lemma timer_start_hard:
  assumes "rt_object_get_type (OTimer t) s = RT_Object_Class_Timer" "\<not> soft s t"
  shows "rt_timer_start t s = Some (RT_EOK, timer_on t s)"
proof -
  let ?rows = "family_remove t (timer_lists s)"
  let ?due = "rt_tick s + init_tick (timers s t)"
  have row: "insert_where (\<lambda>u. later (timeout_tick (((timers s)(t := (timers s t)\<lparr>timeout_tick := ?due\<rparr>)) u)) ?due) t
               (?rows HardTimers)
           = insert_where (\<lambda>u. later (timeout_tick (timers s u)) ?due) t (?rows HardTimers)"
    by (rule insert_where_cong) (auto simp: family_remove_def)
  have soft: "(obj_flag (objs s (OTimer t)) AND - 2) AND 4 = 0"
    using assms(2) by (simp add: soft_def timer_flag_def and.assoc)
  have soft2: "((obj_flag (objs s (OTimer t)) AND - 2) OR 1) AND 4 = 0"
    using assms(2) by (simp add: soft_def timer_flag_def and.assoc bit.conj_disj_distrib2)
  show ?thesis
    using assms(1) row soft soft2
    by (simp add: rt_timer_start_def timer_on_def Let_def timer_clear_def tm_remove_def timer_set_def
        soft_def timer_flag_def)
qed

lemma timer_on_frame [simp]:
  "threads (timer_on t s) = threads s" "lists (timer_on t s) = lists s"
  "rt_current_thread (timer_on t s) = rt_current_thread s"
  "rt_thread_ready_priority_group (timer_on t s) = rt_thread_ready_priority_group s"
  "rt_scheduler_lock_nest (timer_on t s) = rt_scheduler_lock_nest s" "rt_tick (timer_on t s) = rt_tick s"
  "sems (timer_on t s) = sems s" "mutexes (timer_on t s) = mutexes s" "events (timer_on t s) = events s"
  "mailboxes (timer_on t s) = mailboxes s" "mqs (timer_on t s) = mqs s"
  "rt_object_get_type a (timer_on t s) = rt_object_get_type a s"
  "soft (timer_on t s) u = soft s u" "periodic (timer_on t s) u = periodic s u"
  "timeout_func (timers (timer_on t s) u) = timeout_func (timers s u)"
  "parameter (timers (timer_on t s) u) = parameter (timers s u)"
  "init_tick (timers (timer_on t s) u) = init_tick (timers s u)"
  "soft_timer_busy (timer_on t s) = soft_timer_busy s"
  "timer_lists (timer_on t s) HardPending = removeAll t (timer_lists s HardPending)"
  "stat_of (timer_on t s) x = stat_of s x" "prio_of (timer_on t s) x = prio_of s x"
  "live (timer_on t s) x = live s x" "suspended (timer_on t s) x = suspended s x"
  by (auto simp: timer_on_def Let_def rt_object_get_type_def soft_def periodic_def timer_flag_def and.assoc
      bit.conj_disj_distrib2 family_remove_def stat_of_def prio_of_def live_def suspended_def)

lemma timer_on_active: "active (timer_on t s) u \<longleftrightarrow> u = t \<or> active s u"
  by (auto simp: timer_on_def Let_def active_def timer_flag_def bit.conj_disj_distrib2 and.assoc)

lemma timer_on_list:
  "timer_lists (timer_on t s) HardTimers =
     insert_where (\<lambda>u. later (timeout_tick (timers s u)) (rt_tick s + init_tick (timers s t))) t
       (removeAll t (timer_lists s HardTimers))"
  by (simp add: timer_on_def Let_def family_remove_def)

lemma timer_inv_on:
  assumes "timer_inv s" "\<not> soft s t"
  shows "timer_inv (timer_on t s)"
proof -
  let ?rows = "family_remove t (timer_lists s)"
  have "family_ok (timer_lists (timer_on t s))"
    unfolding timer_on_def Let_def
    using family_ok_remove [of "timer_lists s" t] assms(1)
    by (simp, intro family_ok_insert) (auto simp: timer_inv_def family_ok_def family_remove_def unlinked_def)
  moreover have "timer_lists (timer_on t s) SoftTimers = removeAll t (timer_lists s SoftTimers)"
    by (simp add: timer_on_def Let_def family_remove_def)
  ultimately show ?thesis
    using assms by (auto simp: timer_inv_def timer_on_active timer_on_list)
qed

lemma thread_object_ok_on [simp]: "thread_object_ok (timer_on t s) u = thread_object_ok s u"
  by (simp add: thread_object_ok_def)

lemma kernel_inv_on:
  assumes "kernel_inv s" "\<not> soft s t" "\<And>u. t = ThreadTimer u \<Longrightarrow> suspended s u"
  shows "kernel_inv (timer_on t s)"
  using assms timer_inv_on [of s t]
  by (auto simp: kernel_inv_def thread_inv_def timer_on_list sched_inv_cong_all [of "timer_on t s" s])

lemma remaining_on:
  "remaining (timer_on t s) u = (if u = t then unat (init_tick (timers s t)) else remaining s u)"
  by (auto simp: remaining_def timer_on_def Let_def)

lemma timer_order_on:
  assumes "timer_order s" "unat (init_tick (timers s t)) < 0x7fffffff"
  shows "timer_order (timer_on t s)"
    and "timer_lists (timer_on t s) HardTimers =
       insert_where (\<lambda>u. remaining (timer_on t s) t < remaining (timer_on t s) u) t
         (removeAll t (timer_lists s HardTimers))"
proof -
  let ?s = "timer_on t s"
  let ?row = "removeAll t (timer_lists s HardTimers)"
  have sorted: "sorted (map (remaining ?s) ?row)"
  proof -
    have eq: "map (remaining ?s) ?row = map (remaining s) ?row"
      by (auto simp: remaining_on)
    show ?thesis
      unfolding eq using assms(1) by (simp add: timer_order_def sorted_map_removeAll)
  qed
  show row: "timer_lists ?s HardTimers = insert_where (\<lambda>u. remaining ?s t < remaining ?s u) t ?row"
    unfolding timer_on_list
  proof (rule insert_where_cong)
    fix u
    assume u: "u \<in> set ?row"
    then have "remaining s u < 0x7fffffff"
      using assms(1) by (auto simp: timer_order_def)
    then show "later (timeout_tick (timers s u)) (rt_tick s + init_tick (timers s t)) =
               (remaining ?s t < remaining ?s u)"
      using u later_iff [of "timeout_tick (timers s u)" "rt_tick s" "rt_tick s + init_tick (timers s t)"]
        assms(2) by (simp add: remaining_def [symmetric] remaining_on)
  qed
  have "sorted (map (remaining ?s) (timer_lists ?s HardTimers))"
    unfolding row by (rule sorted_insert_where [OF sorted])
  moreover have "remaining ?s u < 0x7fffffff" if "u \<in> set (timer_lists ?s HardTimers)" for u
    using that assms by (auto simp: remaining_on timer_on_list timer_order_def)
  ultimately show "timer_order ?s" by (simp add: timer_order_def)
qed

section \<open>The timeout of a waiting thread\<close>

lemma thread_timeout_ok:
  assumes inv: "kernel_inv s" and cur: "rt_current_thread s \<noteq> None" and susp: "suspended s u"
    and nt: "ThreadTimer u \<notin> set (timer_lists s HardTimers)"
  shows "\<exists>s'. thread_timeout u s = Some s' \<and> kernel_inv s' \<and> rest s' = rest s \<and>
     rt_current_thread s' \<noteq> None \<and> \<not> suspended s' u \<and> thr_error (thr s' u) = - RT_ETIMEOUT \<and>
     (\<forall>v. v \<noteq> u \<longrightarrow> suspended s' v = suspended s v \<and> thr_error (thr s' v) = thr_error (thr s v))"
proof -
  let ?s0 = "upd_thread u (\<lambda>r. r\<lparr>thr_error := - RT_ETIMEOUT\<rparr>) s"
  let ?s1 = "tl_remove u ?s0"
  have inv0: "kernel_inv ?s0"
    by (rule kernel_inv_error [OF inv])
  have susp0: "suspended ?s0 u"
    using susp by (simp add: suspended_def)
  have inv1: "kernel_inv ?s1"
    by (rule kernel_inv_tl_remove [OF inv0 susp0])
  have u1: "unlinked u (lists ?s1)" and nt1: "ThreadTimer u \<notin> set (timer_lists ?s1 HardTimers)"
    and susp1: "suspended ?s1 u" and cur1: "rt_current_thread ?s1 = rt_current_thread s"
    using nt susp by (simp_all add: tl_remove_def suspended_def)
  have ok: "thread_object_ok ?s1 u" and st: "started (thr ?s1 u)"
    using kernel_invD(6) [OF inv1 suspended_live [OF susp1]]
      live_started [OF kernel_invD(2) [OF inv1] suspended_live [OF susp1]] by auto
  obtain s2 where s2: "rt_schedule_insert_thread u ?s1 = Some s2" "kernel_inv s2"
    "\<not> suspended s2 u" "\<And>v. v \<noteq> u \<Longrightarrow> suspended s2 v = suspended s v"
  proof (cases "rt_current_thread s = Some u")
    case True
    have "kernel_inv (upd_thread u (set_stat RT_THREAD_RUNNING) ?s1)"
      by (rule kernel_inv_thread_upd [OF inv1 u1])
         (use st ok nt1 cur1 True ready_invD(2) [OF kernel_invD(2) [OF inv1], of u] in \<open>auto simp: thr_ok_def\<close>)
    then show thesis
      using that insert_thread_current [of ?s1 u] True cur1
      by (simp add: suspended_def tl_remove_def)
  next
    case False
    have "kernel_inv (ready_insert u ?s1)"
      by (rule kernel_inv_insert [OF inv1 u1 ok st nt1]) (use cur1 False in simp)
    moreover have "rt_schedule_insert_thread u ?s1 = Some (ready_insert u ?s1)"
      using insert_thread_ready [of ?s1 u] prio_lt [OF kernel_invD(2) [OF inv1], of u] False cur1 by simp
    ultimately show thesis
      using that by (simp add: suspended_def ready_insert_def Let_def tl_remove_def)
  qed
  note k2 = insert_thread_keeps [OF s2(1)]
  obtain c where "rt_current_thread s2 = Some c"
    using cur cur1 k2 by auto
  then obtain s' where s': "rt_schedule s2 = Some s'" "kernel_inv s'" "rest s' = rest s2"
    "\<And>v. live s' v = live s2 v \<and> suspended s' v = suspended s2 v" "rt_current_thread s' \<noteq> None"
    using kernel_inv_schedule [OF s2(2)] by metis
  have err: "thr_error (thr s' v) = thr_error (thr ?s1 v)" for v
    using stat_only_fields(1) [OF stat_only_insert [OF s2(1)]] stat_only_fields(1) [OF stat_only_schedule [OF s'(1)]]
    by simp
  have "thread_timeout u s = Some s'"
    unfolding thread_timeout_def Let_def
    using susp ok s2(1) s'(1) by (simp add: thread_object_ok_def rt_object_get_type_def tl_remove_def)
  then show ?thesis
    using s' s2 k2 err by (auto simp: tl_remove_def)
qed

section \<open>One expiry\<close>

definition hard_timer_ok :: "kernel \<Rightarrow> timer_id \<Rightarrow> bool" where
  "hard_timer_ok s t \<longleftrightarrow> rt_object_get_type (OTimer t) s = RT_Object_Class_Timer \<and> unat (init_tick (timers s t)) < 0x7fffffff \<and>
     (periodic s t \<longrightarrow> init_tick (timers s t) \<noteq> 0) \<and>
     (\<forall>n. t = UserTimer n \<longrightarrow> (\<exists>k. timeout_func (timers s t) = user_fn k))"

definition tick_inv :: "kernel \<Rightarrow> bool" where
  "tick_inv s \<longleftrightarrow> kernel_inv s \<and> rt_current_thread s \<noteq> None \<and> timer_order s \<and>
     (\<forall>t. t \<in> set (timer_lists s HardTimers) \<longrightarrow> hard_timer_ok s t)"

definition expired :: "kernel \<Rightarrow> timer_id set" where
  "expired s = {t. t \<in> set (timer_lists s HardTimers) \<and> remaining s t = 0}"

text \<open>
  The state in which the function of a timer runs: the timer itself is in the local list of
  \<^verbatim>\<open>rt_timer_check\<close>, from which it is started again when it is periodic.
\<close>

definition call_inv :: "kernel \<Rightarrow> bool" where
  "call_inv s \<longleftrightarrow> tick_inv s \<and> (\<forall>t. t \<in> set (timer_lists s HardPending) \<longrightarrow> hard_timer_ok s t \<and> \<not> soft s t)"

text \<open>
  What the kernel relies on in the function of a user timer.  It comes back and keeps the invariant.  It may
  stop, restart, start and change timers, its own among them, and wake threads; but a timer that it
  starts is not due at once, it does not change the tick, it does not suspend other threads nor
  overwrite the error of a thread that is not waiting, and the timer of a waiting thread runs on unless
  the thread is woken.
\<close>

definition well_behaved :: "callbacks \<Rightarrow> bool" where
  "well_behaved call \<longleftrightarrow> (\<forall>k a s. call_inv s \<longrightarrow> (\<exists>s'. call k a s = Some s' \<and> call_inv s' \<and> rt_tick s' = rt_tick s \<and> expired s' \<subseteq> expired s \<and>
     (timer_lists s' HardPending = timer_lists s HardPending \<or> timer_lists s' HardPending = []) \<and>
     (\<forall>u. \<not> suspended s u \<longrightarrow> \<not> suspended s' u \<and> thr_error (thr s' u) = thr_error (thr s u)) \<and>
     (\<forall>u. ThreadTimer u \<in> set (timer_lists s HardTimers) \<longrightarrow> suspended s' u \<longrightarrow>
        ThreadTimer u \<in> set (timer_lists s' HardTimers) \<and> remaining s' (ThreadTimer u) = remaining s (ThreadTimer u))))"

text \<open>The functions of the timers do not wake the thread \<open>u\<close>.\<close>

definition spares :: "tid \<Rightarrow> callbacks \<Rightarrow> bool" where
  "spares u call \<longleftrightarrow> (\<forall>k a s s'. call_inv s \<longrightarrow> call k a s = Some s' \<longrightarrow> suspended s u \<longrightarrow> suspended s' u)"

text \<open>
  The functions of the timers change no timer, except that a function may stop the timer it was called for.
\<close>

definition stopped_itself :: "kernel \<Rightarrow> kernel \<Rightarrow> bool" where
  "stopped_itself s s' \<longleftrightarrow> (\<exists>t. timer_lists s HardPending = [t] \<and> timer_lists s' = (timer_lists s)(HardPending := []) \<and>
     objs s' = objs (timer_clear RT_TIMER_FLAG_ACTIVATED t s))"

definition timers_alone :: "kernel \<Rightarrow> kernel \<Rightarrow> bool" where
  "timers_alone s s' \<longleftrightarrow> timer_lists s' = timer_lists s \<and> objs s' = objs s"

definition own_timer_only :: "callbacks \<Rightarrow> bool" where
  "own_timer_only call \<longleftrightarrow> (\<forall>k a s s'. call_inv s \<longrightarrow> call k a s = Some s' \<longrightarrow> timers s' = timers s \<and> (timers_alone s s' \<or> stopped_itself s s'))"

definition keeps_armed :: "callbacks \<Rightarrow> timeout_fn \<Rightarrow> bool" where
  "keeps_armed call f \<longleftrightarrow> (\<forall>k a s s'. f = user_fn k \<longrightarrow> call_inv s \<longrightarrow> call k a s = Some s' \<longrightarrow> timers_alone s s')"

lemma call_inv_sched_step:
  assumes "call_inv s" "kernel_inv s'" "rest s' = rest s" "rt_current_thread s' \<noteq> None"
  shows "call_inv s'" "expired s' = expired s"
proof -
  have "same_rest s s'" using assms(3) by (simp add: same_rest_def)
  note f = same_rest_fields [OF this]
  have rem: "remaining s' = remaining s" by (simp add: remaining_def fun_eq_iff f)
  show "call_inv s'"
    using assms(1,2,4) by (auto simp: call_inv_def tick_inv_def timer_order_def rem hard_timer_ok_def periodic_def timer_flag_def soft_def
        rt_object_get_type_def f)
  show "expired s' = expired s" by (simp add: expired_def rem f)
qed

lemma tick_inv_sched_step:
  assumes "tick_inv s" "kernel_inv s'" "rest s' = rest s" "rt_current_thread s' \<noteq> None"
  shows "tick_inv s'" "expired s' = expired s" "timer_lists s' = timer_lists s" "rt_tick s' = rt_tick s"
proof -
  have sr: "same_rest s s'"
    using assms(3) by (simp add: same_rest_def)
  note f = same_rest_fields [OF sr]
  have rem: "remaining s' = remaining s"
    by (simp add: remaining_def fun_eq_iff f)
  show "tick_inv s'"
    using assms(1,2,4) by (auto simp: tick_inv_def timer_order_def rem hard_timer_ok_def periodic_def timer_flag_def
        rt_object_get_type_def f)
  show "expired s' = expired s" "timer_lists s' = timer_lists s" "rt_tick s' = rt_tick s"
    by (simp_all add: expired_def rem f)
qed

lemma timer_family_head:
  assumes "timer_inv s" "timer_lists s HardTimers = t # ts"
  shows "removeAll t (timer_lists s HardTimers) = ts" "t \<notin> set ts"
    "t \<notin> set (timer_lists s SoftTimers)"
proof -
  have "distinct (t # ts)"
    using assms by (metis timer_inv_def family_ok_def)
  then show "removeAll t (timer_lists s HardTimers) = ts" "t \<notin> set ts"
    using assms(2) removeAll_hd [of t ts] by auto
  show "t \<notin> set (timer_lists s SoftTimers)"
    using assms by (auto simp: timer_inv_def)
qed

lemma expire_begin_facts:
  assumes "timer_inv s" "timer_lists s HardTimers = t # ts" "timer_lists s HardPending = []"
  defines "s1 \<equiv> expire_begin HardPending t s"
  shows "threads s1 = threads s" "lists s1 = lists s" "rt_current_thread s1 = rt_current_thread s"
    "rt_thread_ready_priority_group s1 = rt_thread_ready_priority_group s" "timers s1 = timers s"
    "rt_tick s1 = rt_tick s" "timer_lists s1 HardTimers = ts" "timer_lists s1 HardPending = [t]"
    "timer_lists s1 SoftTimers = timer_lists s SoftTimers"
    "rt_object_get_type a s1 = rt_object_get_type a s" "soft s1 u = soft s u" "periodic s1 u = periodic s u"
    "active s1 u \<longleftrightarrow> (if u = t then periodic s t \<and> active s t else active s u)"
  using assms(3) timer_family_head [OF assms(1,2)]
  by (auto simp: s1_def expire_begin_def Let_def tm_remove_def timer_clear_def family_remove_def
      rt_object_get_type_def soft_def periodic_def active_def timer_flag_def and.assoc)

lemma kernel_inv_expire_begin:
  assumes "kernel_inv s" "timer_lists s HardTimers = t # ts" "timer_lists s HardPending = []"
  shows "kernel_inv (expire_begin HardPending t s)"
proof -
  let ?s = "expire_begin HardPending t s"
  note ti = kernel_invD(4) [OF assms(1)]
  note f = expire_begin_facts [OF ti assms(2,3)]
  have "family_ok (timer_lists ?s)"
    unfolding expire_begin_def Let_def
    using ti family_ok_remove [of "timer_lists s" t] assms(3)
    by (simp add: timer_clear_def tm_remove_def, intro conjI impI family_ok_insert)
       (auto simp: timer_inv_def family_remove_def unlinked_def)
  then have "timer_inv ?s"
    using ti f timer_family_head [OF ti assms(2)] assms(2) by (auto simp: timer_inv_def)
  moreover have "thread_object_ok ?s u = thread_object_ok s u" for u
    by (simp add: thread_object_ok_def f)
  moreover have "live ?s u = live s u" "suspended ?s u = suspended s u" for u
    by (simp_all add: live_def suspended_def stat_of_def f)
  ultimately show ?thesis
    using assms(1,2) f by (auto simp: kernel_inv_def thread_inv_def sched_inv_cong_all [of ?s s])
qed

lemma call_inv_begin:
  assumes inv: "tick_inv s" and t: "timer_lists s HardTimers = t # ts" "timer_lists s HardPending = []"
  shows "call_inv (expire_begin HardPending t s)" "expired (expire_begin HardPending t s) = expired s - {t}"
proof -
  let ?b = "expire_begin HardPending t s"
  have k: "kernel_inv s" and cur: "rt_current_thread s \<noteq> None" and ord: "timer_order s"
    and ok: "\<And>u. u \<in> set (timer_lists s HardTimers) \<Longrightarrow> hard_timer_ok s u"
    using inv by (auto simp: tick_inv_def)
  note ti = kernel_invD(4) [OF k]
  note f = expire_begin_facts [OF ti t] and head = timer_family_head [OF ti t(1)]
  have rem: "remaining ?b = remaining s" by (simp add: remaining_def fun_eq_iff f)
  have hard: "hard_timer_ok ?b u = hard_timer_ok s u" for u by (simp add: hard_timer_ok_def f)
  have "timer_order ?b" using ord t(1) by (simp add: timer_order_def rem f)
  then have "tick_inv ?b" using kernel_inv_expire_begin [OF k t] cur ok t(1) by (auto simp: tick_inv_def f hard)
  moreover have "\<not> soft s t" using ti t(1) by (auto simp: timer_inv_def)
  ultimately show "call_inv ?b" using ok [of t] t(1) by (simp add: call_inv_def f hard)
  show "expired ?b = expired s - {t}" using head(2) t(1) by (auto simp: expired_def rem f)
qed

text \<open>The call of the timeout function, for the timer of a thread and for a user timer.\<close>

definition timeout_step :: "callbacks \<Rightarrow> timer_id \<Rightarrow> kernel \<Rightarrow> kernel \<Rightarrow> bool" where
  "timeout_step call t b s1 \<longleftrightarrow> call_inv s1 \<and> rt_tick s1 = rt_tick b \<and> expired s1 \<subseteq> expired b \<and>
     (timer_lists s1 HardPending = timer_lists b HardPending \<or> timer_lists s1 HardPending = []) \<and>
     (\<forall>u. \<not> suspended b u \<longrightarrow> \<not> suspended s1 u \<and> thr_error (thr s1 u) = thr_error (thr b u)) \<and>
     (\<forall>u. ThreadTimer u \<in> set (timer_lists b HardTimers) \<longrightarrow> suspended s1 u \<longrightarrow>
        ThreadTimer u \<in> set (timer_lists s1 HardTimers) \<and> remaining s1 (ThreadTimer u) = remaining b (ThreadTimer u)) \<and>
     (\<forall>u. t = ThreadTimer u \<longrightarrow> \<not> suspended s1 u \<and> thr_error (thr s1 u) = - RT_ETIMEOUT \<and> timers_alone b s1 \<and> timers s1 = timers b) \<and>
     (\<forall>u. t \<noteq> ThreadTimer u \<longrightarrow> spares u call \<longrightarrow> suspended b u \<longrightarrow> suspended s1 u) \<and>
     (own_timer_only call \<longrightarrow> timers s1 = timers b \<and> (timers_alone b s1 \<or> stopped_itself b s1) \<and>
        (keeps_armed call (timeout_func (timers b t)) \<longrightarrow> timers_alone b s1))"

lemma call_timeout_ok:
  assumes inv: "tick_inv s" and call: "well_behaved call"
    and t: "timer_lists s HardTimers = t # ts" "timer_lists s HardPending = []"
  defines "b \<equiv> expire_begin HardPending t s"
  shows "\<exists>s1. call_timeout call t b = Some s1 \<and> timeout_step call t b s1"
proof -
  have k: "kernel_inv s" and cur: "rt_current_thread s \<noteq> None" and ok: "hard_timer_ok s t"
    using inv t by (auto simp: tick_inv_def)
  note f = expire_begin_facts [OF kernel_invD(4) [OF k] t, folded b_def]
  have cb: "call_inv b" unfolding b_def by (rule call_inv_begin(1) [OF inv t])
  have kb: "kernel_inv b" using cb by (simp add: call_inv_def tick_inv_def)
  show ?thesis
  proof (cases t)
    case (ThreadTimer u)
    have su: "suspended s u"
      using kernel_invD(7) [OF k, of u] t ThreadTimer by simp
    then have sb: "suspended b u" by (simp add: suspended_def f)
    have "thread_object_ok s u"
      using kernel_invD(6) [OF k suspended_live [OF su]] .
    then have c: "call_timeout call t b = thread_timeout u b"
      using ThreadTimer by (simp add: call_timeout_def thread_object_ok_def f)
    have "ThreadTimer u \<notin> set (timer_lists b HardTimers)"
      using f(7) timer_family_head(2) [OF kernel_invD(4) [OF k] t(1)] ThreadTimer by simp
    then obtain s1 where s1: "thread_timeout u b = Some s1" "kernel_inv s1" "rest s1 = rest b"
      "rt_current_thread s1 \<noteq> None" "\<not> suspended s1 u" "thr_error (thr s1 u) = - RT_ETIMEOUT"
      "\<And>v. v \<noteq> u \<Longrightarrow> suspended s1 v = suspended b v \<and> thr_error (thr s1 v) = thr_error (thr b v)"
      using thread_timeout_ok [OF kb] cur f(3) sb by metis
    have "same_rest b s1" using s1(3) by (simp add: same_rest_def)
    note sr = same_rest_fields [OF this]
    note ci = call_inv_sched_step [OF cb s1(2,3,4)]
    have "\<not> suspended s1 v \<and> thr_error (thr s1 v) = thr_error (thr b v)" if "\<not> suspended b v" for v
      using that sb s1(7) [of v] by (cases "v = u") auto
    moreover have "suspended s1 v" if "v \<noteq> u" "suspended b v" for v using that s1(7) by simp
    moreover have "timers_alone b s1" by (simp add: timers_alone_def sr)
    moreover have "remaining s1 = remaining b" by (simp add: remaining_def fun_eq_iff sr)
    ultimately show ?thesis using c s1(1,5,6) ci sr ThreadTimer by (auto simp: timeout_step_def)
  next
    case (UserTimer n)
    then obtain j where j: "timeout_func (timers b t) = user_fn j"
      using ok f(5) by (auto simp: hard_timer_ok_def)
    then have c: "call_timeout call t b = call j (parameter (timers b t)) b"
      by (simp add: call_timeout_def)
    obtain s1 where s1: "call j (parameter (timers b t)) b = Some s1" "call_inv s1 \<and> rt_tick s1 = rt_tick b \<and> expired s1 \<subseteq> expired b \<and>
     (timer_lists s1 HardPending = timer_lists b HardPending \<or> timer_lists s1 HardPending = []) \<and>
     (\<forall>u. \<not> suspended b u \<longrightarrow> \<not> suspended s1 u \<and> thr_error (thr s1 u) = thr_error (thr b u)) \<and>
     (\<forall>u. ThreadTimer u \<in> set (timer_lists b HardTimers) \<longrightarrow> suspended s1 u \<longrightarrow>
        ThreadTimer u \<in> set (timer_lists s1 HardTimers) \<and> remaining s1 (ThreadTimer u) = remaining b (ThreadTimer u))"
      using call cb unfolding well_behaved_def by blast
    have "\<forall>u. spares u call \<longrightarrow> suspended b u \<longrightarrow> suspended s1 u" using s1(1) cb by (auto simp: spares_def)
    moreover have "own_timer_only call \<longrightarrow> timers s1 = timers b \<and> (timers_alone b s1 \<or> stopped_itself b s1)"
      using s1(1) cb unfolding own_timer_only_def by blast
    moreover have "keeps_armed call (timeout_func (timers b t)) \<longrightarrow> timers_alone b s1"
      using s1(1) j cb unfolding keeps_armed_def by blast
    ultimately show ?thesis using c s1 UserTimer unfolding timeout_step_def by auto
  qed
qed

lemma timeout_stepD:
  assumes "timeout_step call t b s1"
  shows "call_inv s1" "rt_tick s1 = rt_tick b" "expired s1 \<subseteq> expired b" "timer_lists s1 HardPending = timer_lists b HardPending \<or> timer_lists s1 HardPending = []"
    "\<And>u. \<not> suspended b u \<Longrightarrow> \<not> suspended s1 u \<and> thr_error (thr s1 u) = thr_error (thr b u)"
    "\<And>u. ThreadTimer u \<in> set (timer_lists b HardTimers) \<Longrightarrow> suspended s1 u \<Longrightarrow>
        ThreadTimer u \<in> set (timer_lists s1 HardTimers) \<and> remaining s1 (ThreadTimer u) = remaining b (ThreadTimer u)"
    "\<And>u. t = ThreadTimer u \<Longrightarrow> \<not> suspended s1 u \<and> thr_error (thr s1 u) = - RT_ETIMEOUT"
    "\<And>u. t = ThreadTimer u \<Longrightarrow> timers_alone b s1" "\<And>u. t = ThreadTimer u \<Longrightarrow> timers s1 = timers b"
    "\<And>u. t \<noteq> ThreadTimer u \<Longrightarrow> spares u call \<Longrightarrow> suspended b u \<Longrightarrow> suspended s1 u"
    "own_timer_only call \<Longrightarrow> timers s1 = timers b" "own_timer_only call \<Longrightarrow> timers_alone b s1 \<or> stopped_itself b s1"
    "own_timer_only call \<Longrightarrow> keeps_armed call (timeout_func (timers b t)) \<Longrightarrow> timers_alone b s1"
  using assms unfolding timeout_step_def by blast+

lemma expire_end_ok:
  assumes ci: "call_inv s1" and pend: "timer_lists s1 HardPending = [t]" and thr: "periodic s1 t \<Longrightarrow> \<forall>u. t \<noteq> ThreadTimer u"
  defines "again \<equiv> periodic s1 t \<and> active s1 t"
  defines "s2 \<equiv> (if again then timer_on t (timer_clear RT_TIMER_FLAG_ACTIVATED t (tm_remove t s1)) else tm_remove t s1)"
  shows "expire_end HardPending t s1 = Some s2" "tick_inv s2" "timer_lists s2 HardPending = []" "threads s2 = threads s1" "rt_tick s2 = rt_tick s1"
    "periodic s2 u = periodic s1 u" "active s2 u = active s1 u" "timeout_func (timers s2 u) = timeout_func (timers s1 u)"
    "set (timer_lists s2 HardTimers) = (if again then insert t (set (timer_lists s1 HardTimers)) else set (timer_lists s1 HardTimers))"
    "remaining s2 u = (if again \<and> u = t then unat (init_tick (timers s1 t)) else remaining s1 u)"
proof -
  let ?r = "tm_remove t s1"
  let ?c = "timer_clear RT_TIMER_FLAG_ACTIVATED t ?r"
  have k: "kernel_inv s1" and cur: "rt_current_thread s1 \<noteq> None" and ord: "timer_order s1" and ok: "hard_timer_ok s1 t" "\<not> soft s1 t"
    and oks: "\<And>u. u \<in> set (timer_lists s1 HardTimers) \<Longrightarrow> hard_timer_ok s1 u"
    using ci pend by (auto simp: call_inv_def tick_inv_def)
  have "family_ok (timer_lists s1)" using kernel_invD(4) [OF k] by (simp add: timer_inv_def)
  then have new: "t \<notin> set (timer_lists s1 HardTimers)" using pend unfolding family_ok_def by (metis list.set_intros(1) tlist_id.distinct(3) tlist_id.distinct(1) disjoint_iff)
  have kr: "kernel_inv ?r"
    by (rule kernel_inv_tm_remove [OF k])
  have kc: "kernel_inv ?c"
    by (rule kernel_inv_timer_clear [OF kr]) (simp_all add: tm_remove_def family_remove_def)
  have flags: "periodic ?r u = periodic s1 u" "active ?r u = active s1 u" "periodic ?c u = periodic s1 u" "soft ?c u = soft s1 u" "suspended ?c v = suspended s1 v"
    "timer_lists ?r HardTimers = timer_lists s1 HardTimers" "timer_lists ?c HardTimers = timer_lists s1 HardTimers" "timers ?r = timers s1" "timers ?c = timers s1"
    "remaining ?r u = remaining s1 u" "remaining ?c u = remaining s1 u" for u v
    using new by (simp_all add: periodic_def active_def soft_def timer_flag_def tm_remove_def timer_clear_def family_remove_def remaining_def and.assoc suspended_def)
  have start: "rt_timer_start t ?c = Some (RT_EOK, timer_on t ?c)"
    by (rule timer_start_hard) (use ok in \<open>simp_all add: hard_timer_ok_def flags\<close>)
  show "expire_end HardPending t s1 = Some s2"
    using pend start by (simp add: expire_end_def Let_def s2_def flags again_def)
  have kon: "kernel_inv (timer_on t ?c)" if again
    by (rule kernel_inv_on [OF kc]) (use ok(2) thr that in \<open>auto simp: flags again_def\<close>)
  have ordr: "timer_order ?r" "timer_order ?c" using ord unfolding timer_order_def flags by (simp_all add: flags [abs_def] cong: map_cong)
  have "timer_order s2" unfolding s2_def using ordr timer_order_on(1) [of ?c t] ok(1) by (simp add: flags hard_timer_ok_def)
  moreover show sets: "set (timer_lists s2 HardTimers) = (if again then insert t (set (timer_lists s1 HardTimers)) else set (timer_lists s1 HardTimers))"
    using new by (simp add: s2_def timer_on_list flags)
  moreover show per2: "periodic s2 u = periodic s1 u" for u by (simp add: s2_def flags)
  moreover show f2: "timeout_func (timers s2 u) = timeout_func (timers s1 u)" for u by (simp add: s2_def flags)
  have "hard_timer_ok s2 u = hard_timer_ok s1 u" for u by (simp add: hard_timer_ok_def per2 f2) (simp add: s2_def flags)
  then have "hard_timer_ok s2 u" if "u \<in> set (timer_lists s2 HardTimers)" for u using that oks ok(1) by (auto simp: sets split: if_splits)
  moreover have "kernel_inv s2" "rt_current_thread s2 = rt_current_thread s1" using kr kon by (simp_all add: s2_def tm_remove_def timer_clear_def)
  ultimately show "tick_inv s2" using cur by (simp add: tick_inv_def)
  show "timer_lists s2 HardPending = []" "threads s2 = threads s1" "rt_tick s2 = rt_tick s1"
    using pend by (simp_all add: s2_def tm_remove_def timer_clear_def family_remove_def)
  show "active s2 u = active s1 u"
    by (auto simp: s2_def timer_on_active flags again_def) (auto simp: active_def timer_clear_def timer_flag_def tm_remove_def split: if_splits)
  show "remaining s2 u = (if again \<and> u = t then unat (init_tick (timers s1 t)) else remaining s1 u)"
    by (simp add: s2_def remaining_on flags)
qed

text \<open>
  What a run of the expiry loop does to the threads, \<open>E\<close> being the timers that were due: whoever is
  awake stays so; a thread that is still waiting has its timer running on and the timer was not due; a thread
  that no timer function wakes is awake with \<^verbatim>\<open>-RT_ETIMEOUT\<close> exactly if its timer was due.
\<close>

definition wake_rel :: "callbacks \<Rightarrow> timer_id set \<Rightarrow> kernel \<Rightarrow> kernel \<Rightarrow> bool" where
  "wake_rel call E s s' \<longleftrightarrow> rt_tick s' = rt_tick s \<and>
     (\<forall>u. \<not> suspended s u \<longrightarrow> \<not> suspended s' u \<and> thr_error (thr s' u) = thr_error (thr s u)) \<and>
     (\<forall>u. ThreadTimer u \<in> set (timer_lists s HardTimers) \<longrightarrow> suspended s' u \<longrightarrow> ThreadTimer u \<notin> E \<and>
        ThreadTimer u \<in> set (timer_lists s' HardTimers) \<and> remaining s' (ThreadTimer u) = remaining s (ThreadTimer u)) \<and>
     (\<forall>u. spares u call \<longrightarrow> suspended s u \<longrightarrow>
        (if ThreadTimer u \<in> E then \<not> suspended s' u \<and> thr_error (thr s' u) = - RT_ETIMEOUT else suspended s' u))"

text \<open>
  What it does to the timers when their functions change no timer but their own: exactly the due one-shot
  timers leave the list; a due periodic timer is due again strictly later, unless its own function has
  stopped it; all other timers keep their state and their time.
\<close>

definition fire_rel :: "callbacks \<Rightarrow> timer_id set \<Rightarrow> kernel \<Rightarrow> kernel \<Rightarrow> bool" where
  "fire_rel call E s s' \<longleftrightarrow> (\<forall>u. periodic s' u = periodic s u \<and> timeout_func (timers s' u) = timeout_func (timers s u)) \<and>
     (\<forall>u. u \<notin> E \<longrightarrow> active s' u = active s u \<and> remaining s' u = remaining s u) \<and>
     set (timer_lists s' HardTimers) = {u. u \<in> set (timer_lists s HardTimers) \<and> (u \<in> E \<longrightarrow> periodic s u \<and> active s' u)} \<and>
     (\<forall>u. u \<in> E \<longrightarrow> periodic s u \<longrightarrow> (active s' u \<longrightarrow> 0 < remaining s' u) \<and> (keeps_armed call (timeout_func (timers s u)) \<longrightarrow> active s' u))"

lemma fire_rel_trans:
  assumes "fire_rel call {t} s s1" "fire_rel call E s1 s2" "t \<notin> E"
  shows "fire_rel call (insert t E) s s2"
  using assms unfolding fire_rel_def by (auto 0 3)

lemma fire_rel_expired:
  assumes "fire_rel call {t} s s2" "t \<in> expired s"
  shows "expired s2 = expired s - {t}"
proof -
  have "u \<in> expired s2 \<longleftrightarrow> u \<in> expired s - {t}" for u
    using assms unfolding fire_rel_def expired_def by (cases "u = t") auto
  then show ?thesis by blast
qed

lemma wake_relD:
  assumes "wake_rel call E s s'"
  shows "rt_tick s' = rt_tick s" "\<not> suspended s u \<Longrightarrow> \<not> suspended s' u \<and> thr_error (thr s' u) = thr_error (thr s u)"
    "ThreadTimer u \<in> set (timer_lists s HardTimers) \<Longrightarrow> suspended s' u \<Longrightarrow> ThreadTimer u \<notin> E \<and>
        ThreadTimer u \<in> set (timer_lists s' HardTimers) \<and> remaining s' (ThreadTimer u) = remaining s (ThreadTimer u)"
    "spares u call \<Longrightarrow> suspended s u \<Longrightarrow> ThreadTimer u \<in> E \<Longrightarrow> \<not> suspended s' u \<and> thr_error (thr s' u) = - RT_ETIMEOUT"
    "spares u call \<Longrightarrow> suspended s u \<Longrightarrow> ThreadTimer u \<notin> E \<Longrightarrow> suspended s' u"
  using assms unfolding wake_rel_def by metis+

lemma wake_rel_step:
  assumes 1: "wake_rel call {t} s s1" and 2: "wake_rel call (expired s1) s1 s2" and t: "t \<in> expired s" "expired s1 \<subseteq> expired s - {t}"
  shows "wake_rel call (expired s) s s2"
proof -
  note d1 = wake_relD [OF 1] and d2 = wake_relD [OF 2]
  have still: "suspended s1 u" if "suspended s2 u" for u using d2(2) that by blast
  have due: "ThreadTimer u \<in> expired s1" if "ThreadTimer u \<in> expired s" "suspended s1 u" for u
    using that d1(3) [of u] by (auto simp: expired_def)
  have "ThreadTimer u \<notin> expired s \<and> ThreadTimer u \<in> set (timer_lists s2 HardTimers) \<and> remaining s2 (ThreadTimer u) = remaining s (ThreadTimer u)"
    if "ThreadTimer u \<in> set (timer_lists s HardTimers)" "suspended s2 u" for u
    using d1(3) [OF that(1) still [OF that(2)]] d2(3) [OF _ that(2)] due [OF _ still [OF that(2)]] by auto
  moreover have "if ThreadTimer u \<in> expired s then \<not> suspended s2 u \<and> thr_error (thr s2 u) = - RT_ETIMEOUT else suspended s2 u"
    if u: "spares u call" "suspended s u" for u
  proof (cases "ThreadTimer u = t")
    case True
    then show ?thesis using d1(4) [OF u] d2(2) [of u] t(1) by simp
  next
    case False
    then have s1: "suspended s1 u" using d1(5) [OF u] by simp
    show ?thesis using d2(4,5) [OF u(1) s1] due [OF _ s1] t(2) by (cases "ThreadTimer u \<in> expired s") auto
  qed
  ultimately show ?thesis unfolding wake_rel_def using d1(1,2) d2(1,2) by auto
qed

lemma wake_rel_timeout:
  assumes t: "timer_inv s" "timer_lists s HardTimers = t # ts" "timer_lists s HardPending = []"
    and step: "timeout_step call t (expire_begin HardPending t s) s1"
    and s2: "rt_tick s2 = rt_tick s1" "threads s2 = threads s1" "\<And>u. ThreadTimer u \<in> set (timer_lists s1 HardTimers) \<Longrightarrow>
      ThreadTimer u \<in> set (timer_lists s2 HardTimers) \<and> remaining s2 (ThreadTimer u) = remaining s1 (ThreadTimer u)"
  shows "wake_rel call {t} s s2"
proof -
  let ?b = "expire_begin HardPending t s"
  note f = expire_begin_facts [OF t] and d = timeout_stepD [OF step]
  have susp: "suspended ?b u = suspended s u" "suspended s2 u = suspended s1 u" "thr_error (thr ?b u) = thr_error (thr s u)" "thr_error (thr s2 u) = thr_error (thr s1 u)" for u
    using s2(2) by (simp_all add: suspended_def f)
  have rem: "remaining ?b u = remaining s u" for u by (simp add: remaining_def f)
  have "ThreadTimer u \<noteq> t \<and> ThreadTimer u \<in> set (timer_lists s2 HardTimers) \<and> remaining s2 (ThreadTimer u) = remaining s (ThreadTimer u)"
    if "ThreadTimer u \<in> set (timer_lists s HardTimers)" "suspended s2 u" for u
  proof -
    have ne: "ThreadTimer u \<noteq> t" using d(7) [of u] that(2) susp by auto
    then have "ThreadTimer u \<in> set (timer_lists ?b HardTimers)" using that(1) t(2) f(7) by auto
    then show ?thesis using ne d(6) [of u] that(2) s2(3) [of u] susp rem by simp
  qed
  moreover have "if ThreadTimer u = t then \<not> suspended s2 u \<and> thr_error (thr s2 u) = - RT_ETIMEOUT else suspended s2 u" if "spares u call" "suspended s u" for u
    using d(7) [of u] d(10) [of u] that susp by auto
  moreover have "\<not> suspended s2 u \<and> thr_error (thr s2 u) = thr_error (thr s u)" if "\<not> suspended s u" for u
    using d(5) [of u] that susp by simp
  moreover have "rt_tick s2 = rt_tick s" using d(2) f(6) s2(1) by simp
  ultimately show ?thesis unfolding wake_rel_def singleton_iff by blast
qed

lemma fire_rel_timeout:
  assumes inv: "tick_inv s" and t: "timer_lists s HardTimers = t # ts" "timer_lists s HardPending = []"
    and step: "timeout_step call t (expire_begin HardPending t s) s1" and own: "own_timer_only call"
    and s2: "timer_lists s1 HardPending = [] \<Longrightarrow> s2 = s1"
      "timer_lists s1 HardPending = [t] \<Longrightarrow> (\<forall>u. periodic s2 u = periodic s1 u \<and> active s2 u = active s1 u \<and> timeout_func (timers s2 u) = timeout_func (timers s1 u)) \<and>
        set (timer_lists s2 HardTimers) = (if periodic s1 t \<and> active s1 t then insert t (set (timer_lists s1 HardTimers)) else set (timer_lists s1 HardTimers)) \<and>
        (\<forall>u. remaining s2 u = (if (periodic s1 t \<and> active s1 t) \<and> u = t then unat (init_tick (timers s1 t)) else remaining s1 u))"
  shows "fire_rel call {t} s s2"
proof -
  let ?b = "expire_begin HardPending t s"
  have k: "kernel_inv s" and ok: "hard_timer_ok s t" using inv t(1) by (auto simp: tick_inv_def)
  note ti = kernel_invD(4) [OF k]
  note f = expire_begin_facts [OF ti t] and head = timer_family_head [OF ti t(1)] and d = timeout_stepD [OF step]
  have act: "active s t" using ti t(1) by (auto simp: timer_inv_def)
  have tm: "timers s1 = timers s" using d(11) [OF own] f(5) by simp
  have rem: "remaining s1 u = remaining s u" for u using d(2) f(6) by (simp add: remaining_def tm)
  have per: "periodic s1 u = periodic s u" for u
  proof -
    have "periodic s1 u = periodic ?b u"
    proof (cases "timers_alone ?b s1")
      case True
      then show ?thesis by (simp add: timers_alone_def periodic_def timer_flag_def)
    next
      case False
      then obtain t' where "objs s1 = objs (timer_clear RT_TIMER_FLAG_ACTIVATED t' ?b)" using d(12) [OF own] unfolding stopped_itself_def by blast
      then show ?thesis by (simp add: periodic_def timer_flag_def timer_clear_def and.assoc)
    qed
    then show ?thesis using f(12) by simp
  qed
  have HT1: "set (timer_lists s1 HardTimers) = set ts"
    using d(12) [OF own] f(7) by (auto simp: timers_alone_def stopped_itself_def)
  have set_s: "set (timer_lists s HardTimers) = insert t (set ts)" using t(1) by simp
  consider (alone) "timers_alone ?b s1" | (stop) "stopped_itself ?b s1" "\<not> timers_alone ?b s1" using d(12) [OF own] by blast
  then show ?thesis
  proof cases
    case alone
    then have a: "active s1 u = active ?b u" "timer_lists s1 HardPending = [t]" for u using f(8) by (simp_all add: timers_alone_def active_def timer_flag_def)
    note e = s2(2) [OF a(2)]
    have i0: "periodic s t \<Longrightarrow> 0 < unat (init_tick (timers s t))" using ok by (simp add: hard_timer_ok_def unat_gt_0)
    have "active s2 u = (if u = t then periodic s t else active s u)" for u using e a(1) f(13) [of u] act by auto
    moreover have "periodic s1 t \<and> active s1 t \<longleftrightarrow> periodic s t" using a(1) f(13) [of t] act per by simp
    ultimately show ?thesis unfolding fire_rel_def using e head(2) i0 by (auto simp: per rem tm HT1 set_s)
  next
    case stop
    then have n: "timer_lists s1 HardPending = []" "\<And>u. active s1 u \<longleftrightarrow> u \<noteq> t \<and> active s u"
      using f(8,13) by (auto simp: stopped_itself_def active_def timer_clear_def timer_flag_def and.assoc)
    have "\<not> keeps_armed call (timeout_func (timers s t))" using d(13) [OF own] stop(2) f(5) by auto
    then show ?thesis unfolding fire_rel_def s2(1) [OF n(1)] using head(2) by (auto simp: per rem tm HT1 set_s n(2))
  qed
qed

lemma expire_step:
  assumes inv: "tick_inv s" and call: "well_behaved call"
    and t: "timer_lists s HardTimers = t # ts" "timer_lists s HardPending = []"
  shows "\<exists>s1 s2. call_timeout call t (expire_begin HardPending t s) = Some s1 \<and> rt_tick s1 = rt_tick s \<and>
     expire_end HardPending t s1 = Some s2 \<and> tick_inv s2 \<and> timer_lists s2 HardPending = [] \<and>
     expired s2 \<subseteq> expired s - {t} \<and> wake_rel call {t} s s2 \<and> (own_timer_only call \<longrightarrow> fire_rel call {t} s s2)"
proof -
  let ?b = "expire_begin HardPending t s"
  have k: "kernel_inv s" using inv by (simp add: tick_inv_def)
  note ti = kernel_invD(4) [OF k]
  note f = expire_begin_facts [OF ti t]
  obtain s1 where s1: "call_timeout call t ?b = Some s1" and step: "timeout_step call t ?b s1" using call_timeout_ok [OF inv call t] by blast
  note d = timeout_stepD [OF step]
  have exp: "expired s1 \<subseteq> expired s - {t}" using d(3) call_inv_begin(2) [OF inv t] by simp
  have tick: "rt_tick s1 = rt_tick s" using d(2) f(6) by simp
  show ?thesis
  proof (cases "timer_lists s1 HardPending = []")
    case True
    have "expire_end HardPending t s1 = Some s1" "tick_inv s1" using True d(1) by (simp_all add: expire_end_def call_inv_def)
    moreover have "wake_rel call {t} s s1" by (rule wake_rel_timeout [OF ti t step]) simp_all
    moreover have "own_timer_only call \<longrightarrow> fire_rel call {t} s s1" using fire_rel_timeout [OF inv t step, of s1] True by simp
    ultimately show ?thesis using s1 exp True tick by blast
  next
    case False
    then have pend: "timer_lists s1 HardPending = [t]" using d(4) f(8) by simp
    have per: "\<forall>u. t \<noteq> ThreadTimer u" if "periodic s1 t"
    proof (rule allI notI)+
      fix u assume u: "t = ThreadTimer u"
      have "\<not> periodic s t" using kernel_invD(6,7) [OF k] suspended_live [of s u] t(1) u by (auto simp: thread_object_ok_def)
      then show False using d(8) [OF u] f(12) that by (simp add: timers_alone_def periodic_def timer_flag_def)
    qed
    define s2 where "s2 = (if periodic s1 t \<and> active s1 t then timer_on t (timer_clear RT_TIMER_FLAG_ACTIVATED t (tm_remove t s1)) else tm_remove t s1)"
    note e = expire_end_ok [OF d(1) pend per, folded s2_def]
    have i0: "periodic s1 t \<Longrightarrow> 0 < unat (init_tick (timers s1 t))"
      using d(1) pend by (simp add: call_inv_def hard_timer_ok_def unat_gt_0)
    have "expired s2 \<subseteq> expired s1" using e(9,10) i0 by (auto simp: expired_def split: if_splits)
    moreover have "wake_rel call {t} s s2"
    proof (rule wake_rel_timeout [OF ti t step e(5,4)])
      fix u assume u: "ThreadTimer u \<in> set (timer_lists s1 HardTimers)"
      have "family_ok (timer_lists s1)" using d(1) by (simp add: call_inv_def tick_inv_def kernel_inv_def timer_inv_def)
      then have "ThreadTimer u \<noteq> t" using u pend unfolding family_ok_def by (metis list.set_intros(1) tlist_id.distinct(3))
      then show "ThreadTimer u \<in> set (timer_lists s2 HardTimers) \<and> remaining s2 (ThreadTimer u) = remaining s1 (ThreadTimer u)" using e(9,10) u by simp
    qed
    moreover have "own_timer_only call \<longrightarrow> fire_rel call {t} s s2"
      using fire_rel_timeout [OF inv t step, of s2] e(6-10) pend by simp
    ultimately show ?thesis using s1 exp e(1-3) tick by blast
  qed
qed

section \<open>Properties\<close>

lemma check_loop:
  assumes "tick_inv s" "well_behaved call" "timer_lists s HardPending = []" "card (expired s) < fuel"
  shows "\<exists>s'. rt_timer_check_loop call fuel (rt_tick s) s = Some s' \<and> tick_inv s' \<and> expired s' = {} \<and>
     wake_rel call (expired s) s s' \<and> (own_timer_only call \<longrightarrow> fire_rel call (expired s) s s')"
  using assms
proof (induction fuel arbitrary: s)
  case 0
  then show ?case by simp
next
  case (Suc fuel)
  have fin: "finite (expired s)"
    by (simp add: expired_def)
  have idle: "wake_rel call {} s s" "fire_rel call {} s s" by (auto simp: wake_rel_def fire_rel_def)
  show ?case
  proof (cases "timer_lists s HardTimers")
    case Nil
    then have "expired s = {}" by (simp add: expired_def)
    then show ?thesis using Suc.prems Nil idle by simp
  next
    case (Cons t ts)
    have rt: "remaining s t < 0x7fffffff" and srt: "sorted (map (remaining s) (t # ts))"
      using Suc.prems(1) Cons by (auto simp: tick_inv_def timer_order_def)
    have exp: "rt_tick s - timeout_tick (timers s t) < RT_TICK_HALF \<longleftrightarrow> remaining s t = 0"
      using expired_iff [of "timeout_tick (timers s t)" "rt_tick s"] rt
      by (auto simp: remaining_def unat_eq_0)
    show ?thesis
    proof (cases "remaining s t = 0")
      case True
      then have te: "t \<in> expired s"
        using Cons by (simp add: expired_def)
      obtain s1 s2 where s1: "call_timeout call t (expire_begin HardPending t s) = Some s1"
        "rt_tick s1 = rt_tick s" "expire_end HardPending t s1 = Some s2"
        and s2: "tick_inv s2" "timer_lists s2 HardPending = []" "expired s2 \<subseteq> expired s - {t}"
          "wake_rel call {t} s s2" "own_timer_only call \<longrightarrow> fire_rel call {t} s s2"
        using expire_step [OF Suc.prems(1,2) Cons Suc.prems(3)] by blast
      have tick2: "rt_tick s2 = rt_tick s" using wake_relD(1) [OF s2(4)] .
      have "card (expired s2) \<le> card (expired s - {t})" using s2(3) fin by (intro card_mono) auto
      then have "card (expired s2) < fuel"
        using card_Diff1_less [OF fin te] Suc.prems(4) by linarith
      then obtain s' where s': "rt_timer_check_loop call fuel (rt_tick s) s2 = Some s'" "tick_inv s'" "expired s' = {}"
        "wake_rel call (expired s2) s2 s'" "own_timer_only call \<longrightarrow> fire_rel call (expired s2) s2 s'"
        using Suc.IH [OF s2(1) Suc.prems(2) s2(2)] tick2 by auto
      have "fire_rel call (expired s) s s'" if "own_timer_only call"
        using fire_rel_trans [of call t s s2 "expired s2" s'] fire_rel_expired [of call t s s2] s2(5) s'(5) te that
        by (simp add: insert_absorb)
      moreover have "wake_rel call (expired s) s s'" by (rule wake_rel_step [OF s2(4) s'(4) te s2(3)])
      ultimately show ?thesis using s1 s'(1-3) Cons exp True by auto
    next
      case False
      have "expired s = {}"
        using srt False Cons by (auto simp: expired_def)
      with False Suc.prems Cons exp idle show ?thesis by auto
    qed
  qed
qed

lemma tick_inv_pending:
  assumes "tick_inv s" shows "tick_inv (s\<lparr>timer_lists := (timer_lists s)(HardPending := [])\<rparr>)"
proof -
  let ?s = "s\<lparr>timer_lists := (timer_lists s)(HardPending := [])\<rparr>"
  have "family_ok (timer_lists ?s)"
    using assms by (auto simp: tick_inv_def kernel_inv_def timer_inv_def family_ok_def)
  then have "timer_inv ?s"
    using assms by (auto simp: tick_inv_def kernel_inv_def timer_inv_def active_def soft_def timer_flag_def)
  moreover have "thread_object_ok ?s u = thread_object_ok s u" for u
    by (rule thread_object_ok_cong) simp_all
  ultimately have "kernel_inv ?s"
    using assms by (simp add: tick_inv_def kernel_inv_def thread_inv_def)
  moreover have "remaining ?s = remaining s"
    by (simp add: remaining_def fun_eq_iff)
  ultimately show ?thesis
    using assms by (simp add: tick_inv_def timer_order_def hard_timer_ok_def periodic_def
        timer_flag_def rt_object_get_type_def)
qed

lemma timer_check_result:
  assumes "tick_inv s" "well_behaved call" "card (expired s) < fuel"
  shows "\<exists>s'. rt_timer_check call fuel s = Some s' \<and> tick_inv s' \<and> expired s' = {} \<and>
     wake_rel call (expired s) s s' \<and> (own_timer_only call \<longrightarrow> fire_rel call (expired s) s s')"
proof -
  let ?s = "s\<lparr>timer_lists := (timer_lists s)(HardPending := [])\<rparr>"
  have e: "expired ?s = expired s"
    by (simp add: expired_def remaining_def)
  obtain s' where "rt_timer_check_loop call fuel (rt_tick ?s) ?s = Some s'" "tick_inv s'" "expired s' = {}"
    "wake_rel call (expired ?s) ?s s'" "own_timer_only call \<longrightarrow> fire_rel call (expired ?s) ?s s'"
    using check_loop [OF tick_inv_pending [OF assms(1)] assms(2), of fuel] assms(3) e by force
  moreover have "wake_rel call E ?s s' = wake_rel call E s s'" "fire_rel call E ?s s' = fire_rel call E s s'" for E
    by (simp_all add: wake_rel_def fire_rel_def remaining_def periodic_def active_def timer_flag_def)
  ultimately show ?thesis
    using e by (auto simp: rt_timer_check_def)
qed

lemma tick_inv_small: "tick_inv small_system"
  using kernel_inv_small
  by (simp add: tick_inv_def timer_order_def small_system_def kernel_reset_def)

text \<open>A system in which thread 2 has suspended itself and sleeps for three ticks.\<close>

definition sleeping_system :: kernel where
  "sleeping_system = timer_on (ThreadTimer 2)
     (upd_timer (ThreadTimer 2) (\<lambda>r. r\<lparr>init_tick := 3\<rparr>) (suspended_self 2 RT_INTERRUPTIBLE small_system))"

lemma kernel_inv_init_tick:
  "kernel_inv s \<Longrightarrow> kernel_inv (upd_timer t (\<lambda>r. r\<lparr>init_tick := x\<rparr>) s)"
  by (auto simp: kernel_inv_def timer_inv_def thread_inv_def active_def soft_def timer_flag_def
      thread_object_ok_def rt_object_get_type_def periodic_def)

lemma sleeping_system_lists:
  "timer_lists sleeping_system HardTimers = [ThreadTimer 2]" "remaining sleeping_system (ThreadTimer 2) = 3"
  by (simp_all add: sleeping_system_def timer_on_list remaining_on suspended_self_def timer_off_def active_def
      timer_flag_def small_system_def kernel_reset_def)

lemma tick_inv_sleeping: "tick_inv sleeping_system"
proof -
  have run: "stat_of small_system 2 = 3" and cur: "rt_current_thread small_system = Some 2"
    by (simp_all add: small_system_def kernel_reset_def sample_thread_def blank_thread_def stat_of_def)
  note ok = suspended_self_ok [OF kernel_inv_small cur run, of RT_INTERRUPTIBLE]
  let ?s = "upd_timer (ThreadTimer 2) (\<lambda>r. r\<lparr>init_tick := 3\<rparr>) (suspended_self 2 RT_INTERRUPTIBLE small_system)"
  have "thread_object_ok (suspended_self 2 RT_INTERRUPTIBLE small_system) 2"
    using kernel_invD(6) [OF ok(1) suspended_live [OF ok(3)]] .
  then have ns: "\<not> soft ?s (ThreadTimer 2)" "\<not> periodic ?s (ThreadTimer 2)"
    "rt_object_get_type (OTimer (ThreadTimer 2)) ?s = RT_Object_Class_Timer"
    by (simp_all add: thread_object_ok_def soft_def periodic_def timer_flag_def rt_object_get_type_def)
  have su: "suspended ?s 2"
    using ok(3) by (simp add: suspended_def)
  have k: "kernel_inv sleeping_system"
    unfolding sleeping_system_def
    by (rule kernel_inv_on [OF kernel_inv_init_tick [OF ok(1)]]) (use ns su in auto)
  moreover have "hard_timer_ok sleeping_system (ThreadTimer 2)"
    using ns by (simp add: sleeping_system_def hard_timer_ok_def)
  moreover have "rt_current_thread sleeping_system \<noteq> None"
    using ok(4) by (simp add: sleeping_system_def)
  ultimately show ?thesis
    by (simp add: tick_inv_def timer_order_def sleeping_system_lists)
qed

text \<open>
  The same system with a periodic timer of three ticks, before and after three ticks; and the function of the
  manual's example for periodic timers, which stops its own timer.
\<close>

definition alarm_system :: kernel where
  "alarm_system = timer_on (UserTimer 3) (timer_set RT_TIMER_FLAG_PERIODIC (UserTimer 3)
     (upd_timer (UserTimer 3) (\<lambda>r. r\<lparr>init_tick := 3\<rparr>) sleeping_system))"


definition stop_own :: callbacks where
  "stop_own k a s = (case timer_lists s HardPending of [t] \<Rightarrow> map_option snd (rt_timer_stop t s) | _ \<Rightarrow> Some s)"

lemma stop_own_cases:
  assumes "call_inv s"
  shows "\<exists>s'. stop_own k a s = Some s' \<and> (s' = s \<or> (\<exists>t. timer_lists s HardPending = [t] \<and> s' = timer_off t s \<and> active s t))"
proof (cases "\<exists>t. timer_lists s HardPending = [t]")
  case True
  then obtain t where t: "timer_lists s HardPending = [t]" by blast
  then have "rt_object_get_type (OTimer t) s = RT_Object_Class_Timer" using assms by (auto simp: call_inv_def hard_timer_ok_def)
  then have "stop_own k a s = Some (timer_off t s)" using t by (simp add: stop_own_def timer_stop_eq)
  then show ?thesis using t by (cases "active s t") (auto simp: timer_off_def)
qed (auto simp: stop_own_def split: list.splits)

lemma off_pending:
  assumes inv: "call_inv s" and t: "timer_lists s HardPending = [t]" "active s t"
  shows "call_inv (timer_off t s)" "timer_lists (timer_off t s) = (timer_lists s)(HardPending := [])"
    "objs (timer_off t s) = objs (timer_clear RT_TIMER_FLAG_ACTIVATED t s)" "remaining (timer_off t s) = remaining s"
proof -
  have k: "kernel_inv s" using inv by (simp add: call_inv_def tick_inv_def)
  have "family_ok (timer_lists s)" using kernel_invD(4) [OF k] by (simp add: timer_inv_def)
  then have other: "t \<notin> set (timer_lists s l)" if "l \<noteq> HardPending" for l using that t(1) unfolding family_ok_def by (metis list.set_intros(1))
  then have "removeAll t (timer_lists s l) = (if l = HardPending then [] else timer_lists s l)" for l using t(1) by simp
  then show lists: "timer_lists (timer_off t s) = (timer_lists s)(HardPending := [])"
    using t(2) by (simp add: timer_off_def timer_clear_def tm_remove_def family_remove_def fun_eq_iff)
  show "objs (timer_off t s) = objs (timer_clear RT_TIMER_FLAG_ACTIVATED t s)"
    using t(2) by (simp add: timer_off_def timer_clear_def tm_remove_def)
  show rem: "remaining (timer_off t s) = remaining s" by (simp add: remaining_def fun_eq_iff)
  have "hard_timer_ok (timer_off t s) u = hard_timer_ok s u" for u by (simp add: hard_timer_ok_def)
  then show "call_inv (timer_off t s)"
    using inv kernel_inv_off [OF k, of t] by (simp add: call_inv_def tick_inv_def timer_order_def rem lists)
qed

lemma stop_own_ok: "well_behaved stop_own" "own_timer_only stop_own" "spares u stop_own"
proof -
  have alone: "timers_alone s s" for s by (simp add: timers_alone_def)
  have stop: "stopped_itself s (timer_off t s)" "expired (timer_off t s) = expired s" if "call_inv s" "timer_lists s HardPending = [t]" "active s t" for s t
    using off_pending [OF that] that(2) by (auto simp: stopped_itself_def expired_def)
  show "own_timer_only stop_own" unfolding own_timer_only_def
  proof (intro allI impI)
    fix k a s s' assume s: "call_inv s" "stop_own k a s = Some s'"
    then show "timers s' = timers s \<and> (timers_alone s s' \<or> stopped_itself s s')"
      using stop_own_cases [OF s(1), of k a] alone stop(1) by auto
  qed
  show "spares u stop_own" unfolding spares_def
  proof (intro allI impI)
    fix k a s s' assume s: "call_inv s" "stop_own k a s = Some s'" "suspended s u"
    then show "suspended s' u" using stop_own_cases [OF s(1), of k a] by auto
  qed
  show "well_behaved stop_own" unfolding well_behaved_def
  proof (intro allI impI)
    fix k a s assume inv: "call_inv s"
    obtain s' where s': "stop_own k a s = Some s'" "s' = s \<or> (\<exists>t. timer_lists s HardPending = [t] \<and> s' = timer_off t s \<and> active s t)"
      using stop_own_cases [OF inv] by blast
    then consider "s' = s" | t where "timer_lists s HardPending = [t]" "s' = timer_off t s" "active s t" by blast
    then have "call_inv s' \<and> rt_tick s' = rt_tick s \<and> expired s' \<subseteq> expired s \<and>
     (timer_lists s' HardPending = timer_lists s HardPending \<or> timer_lists s' HardPending = []) \<and>
     (\<forall>u. \<not> suspended s u \<longrightarrow> \<not> suspended s' u \<and> thr_error (thr s' u) = thr_error (thr s u)) \<and>
     (\<forall>u. ThreadTimer u \<in> set (timer_lists s HardTimers) \<longrightarrow> suspended s' u \<longrightarrow>
        ThreadTimer u \<in> set (timer_lists s' HardTimers) \<and> remaining s' (ThreadTimer u) = remaining s (ThreadTimer u))"
    proof cases
      case 1
      then show ?thesis using inv by simp
    next
      case (2 t)
      then show ?thesis using off_pending [OF inv 2(1,3)] stop(2) [OF inv 2(1,3)] by simp
    qed
    with s'(1) show "\<exists>s'. stop_own k a s = Some s' \<and> call_inv s' \<and> rt_tick s' = rt_tick s \<and> expired s' \<subseteq> expired s \<and>
     (timer_lists s' HardPending = timer_lists s HardPending \<or> timer_lists s' HardPending = []) \<and>
     (\<forall>u. \<not> suspended s u \<longrightarrow> \<not> suspended s' u \<and> thr_error (thr s' u) = thr_error (thr s u)) \<and>
     (\<forall>u. ThreadTimer u \<in> set (timer_lists s HardTimers) \<longrightarrow> suspended s' u \<longrightarrow>
        ThreadTimer u \<in> set (timer_lists s' HardTimers) \<and> remaining s' (ThreadTimer u) = remaining s (ThreadTimer u))" by blast
  qed
qed

lemma alarm_system_facts:
  "tick_inv alarm_system" "timer_lists alarm_system HardTimers = [ThreadTimer 2, UserTimer 3]"
  "remaining alarm_system (ThreadTimer 2) = 3" "remaining alarm_system (UserTimer 3) = 3" "periodic alarm_system (UserTimer 3)" "\<not> periodic alarm_system (ThreadTimer 2)"
  "rt_tick alarm_system = 0" "suspended alarm_system 2"
proof -
  let ?a = "upd_timer (UserTimer 3) (\<lambda>r. r\<lparr>init_tick := 3\<rparr>) sleeping_system"
  define p where "p = timer_set RT_TIMER_FLAG_PERIODIC (UserTimer 3) ?a"
  have al: "alarm_system = timer_on (UserTimer 3) p" by (simp add: alarm_system_def p_def)
  have k0: "kernel_inv ?a" by (rule kernel_inv_init_tick) (use tick_inv_sleeping in \<open>simp add: tick_inv_def\<close>)
  have obj: "obj_flag (objs sleeping_system (OTimer (UserTimer 3))) = 0" "rt_object_get_type (OTimer (UserTimer 3)) sleeping_system = RT_Object_Class_Timer"
    "timeout_func (timers sleeping_system (UserTimer 3)) = user_fn 3" "rt_tick sleeping_system = 0"
    by (simp_all add: sleeping_system_def timer_on_def Let_def suspended_self_def timer_off_def active_def timer_flag_def small_system_def kernel_reset_def
        rt_object_get_type_def)
  have flag: "timer_flag p u = (if u = UserTimer 3 then 2 else timer_flag sleeping_system u)" for u
    by (simp add: p_def timer_flag_def timer_set_def obj)
  have "thread_object_ok p u = thread_object_ok ?a u" for u
    by (simp add: thread_object_ok_def rt_object_get_type_def soft_def periodic_def timer_flag_def timer_set_def p_def)
  moreover have "timer_inv p"
  proof -
    have same: "timer_lists p = timer_lists ?a" by (simp add: p_def timer_set_def)
    have fl: "active p u = active ?a u" "soft p u = soft ?a u" for u using flag [of u] obj(1) by (auto simp: active_def soft_def timer_flag_def)
    show ?thesis using kernel_invD(4) [OF k0] unfolding timer_inv_def same fl by blast
  qed
  ultimately have k: "kernel_inv p" using k0 by (simp add: p_def kernel_inv_def thread_inv_def timer_set_def live_def suspended_def stat_of_def)
  have ns: "\<not> soft p (UserTimer 3)" "periodic p (UserTimer 3)" "periodic p (ThreadTimer 2) = periodic sleeping_system (ThreadTimer 2)"
    unfolding soft_def periodic_def flag by simp_all
  have lists: "timer_lists p HardTimers = [ThreadTimer 2]" "rt_tick p = 0" "init_tick (timers p (UserTimer 3)) = 3" "rt_current_thread p = rt_current_thread sleeping_system"
    by (simp_all add: p_def timer_set_def sleeping_system_lists obj)
  have rem: "remaining p (ThreadTimer 2) = 3" using sleeping_system_lists(2) by (simp add: p_def remaining_def timer_set_def)
  have ord: "timer_order p" by (simp add: timer_order_def lists rem)
  note on = timer_order_on [OF ord, of "UserTimer 3", folded al]
  show rem1: "remaining alarm_system (ThreadTimer 2) = 3" and rem2: "remaining alarm_system (UserTimer 3) = 3"
    using rem lists(3) by (simp_all add: al remaining_on)
  show l: "timer_lists alarm_system HardTimers = [ThreadTimer 2, UserTimer 3]"
    using on(2) lists(1,3) rem1 rem2 by simp
  show per: "periodic alarm_system (UserTimer 3)" using ns(2) unfolding al by simp
  have h2: "hard_timer_ok sleeping_system (ThreadTimer 2)" and su: "suspended sleeping_system 2"
    using tick_inv_sleeping kernel_invD(7) [of sleeping_system 2] by (auto simp: tick_inv_def sleeping_system_lists)
  have "\<not> periodic sleeping_system (ThreadTimer 2)"
    using kernel_invD(6) [OF _ suspended_live [OF su]] tick_inv_sleeping by (auto simp: tick_inv_def thread_object_ok_def)
  then show np: "\<not> periodic alarm_system (ThreadTimer 2)" using ns(3) unfolding al by simp
  have ty: "rt_object_get_type a p = rt_object_get_type a sleeping_system" "timeout_func (timers p u) = timeout_func (timers sleeping_system u)"
    "init_tick (timers p (ThreadTimer 2)) = init_tick (timers sleeping_system (ThreadTimer 2))" for a u
    by (simp_all add: p_def timer_set_def rt_object_get_type_def)
  have "hard_timer_ok alarm_system (ThreadTimer 2)" using h2 np unfolding hard_timer_ok_def al timer_on_frame ty by blast
  moreover have "hard_timer_ok alarm_system (UserTimer 3)" using obj(2,3) lists(3) unfolding hard_timer_ok_def al timer_on_frame ty by simp
  moreover have "kernel_inv alarm_system" unfolding al by (rule kernel_inv_on [OF k ns(1)]) simp
  moreover have "rt_current_thread alarm_system \<noteq> None" using tick_inv_sleeping lists(4) by (simp add: al tick_inv_def)
  moreover have "timer_order alarm_system" using on(1) lists(3) by simp
  ultimately show "tick_inv alarm_system" by (simp add: tick_inv_def l)
  show "rt_tick alarm_system = 0" "suspended alarm_system 2" using lists(2) su by (simp_all add: al) (simp add: suspended_def p_def timer_set_def)
qed




text \<open>
  C9. Starting a hard timer: \<^verbatim>\<open>rt_timer_start\<close> returns \<^verbatim>\<open>RT_EOK\<close>, the timer is
  due \<^verbatim>\<open>init_tick\<close> ticks from now, the list stays ordered by the time that remains
  (whatever the tick counter, so also across its wrap-around), the other timers
  keep their order, and among timers due at the same tick the new one is last.
\<close>

theorem timer_start_ordered:
  assumes "kernel_inv s" "timer_order s" "hard_timer_ok s t" "\<not> soft s t"
    and "\<forall>u. t = ThreadTimer u \<longrightarrow> suspended s u"
  shows "\<exists>s'. rt_timer_start t s = Some (RT_EOK, s') \<and> kernel_inv s' \<and> timer_order s' \<and>
     remaining s' t = unat (init_tick (timers s t)) \<and>
     filter (\<lambda>u. u \<noteq> t) (timer_lists s' HardTimers) = removeAll t (timer_lists s HardTimers) \<and>
     last (filter (\<lambda>u. remaining s' u = remaining s' t) (timer_lists s' HardTimers)) = t"
proof -
  let ?s = "timer_on t s"
  have bound: "unat (init_tick (timers s t)) < 0x7fffffff"
    and ty: "rt_object_get_type (OTimer t) s = RT_Object_Class_Timer"
    using assms(3) by (auto simp: hard_timer_ok_def)
  note ord = timer_order_on [OF assms(2) bound]
  have "sorted (map (remaining ?s) (filter (\<lambda>u. u \<noteq> t) (timer_lists ?s HardTimers)))"
    using ord(1) by (auto simp: timer_order_def intro: sorted_filter)
  moreover have flt: "filter (\<lambda>u. u \<noteq> t) (timer_lists ?s HardTimers) = removeAll t (timer_lists s HardTimers)"
    unfolding ord(2) by (rule filter_insert_where) simp
  ultimately have "sorted (map (remaining ?s) (removeAll t (timer_lists s HardTimers)))"
    by simp
  from insert_where_stable [OF this, of t]
  have "last (filter (\<lambda>u. remaining ?s u = remaining ?s t) (timer_lists ?s HardTimers)) = t"
    unfolding ord(2) by simp
  with ord(1) flt timer_start_hard [OF ty assms(4)] kernel_inv_on [OF assms(1,4)] assms(5) show ?thesis
    by (intro exI [of _ ?s]) (simp add: remaining_on)
qed

theorem timer_start_ordered_witness:
  "\<exists>s'. rt_timer_start (UserTimer 1) small_system = Some (RT_EOK, s') \<and> kernel_inv s' \<and> timer_order s' \<and>
     remaining s' (UserTimer 1) = 5"
proof -
  have "hard_timer_ok small_system (UserTimer 1)" "\<not> soft small_system (UserTimer 1)" "timer_order small_system"
    "unat (init_tick (timers small_system (UserTimer 1))) = 5"
    using tick_inv_small
    by (simp_all add: tick_inv_def hard_timer_ok_def soft_def periodic_def timer_flag_def small_system_def
        kernel_reset_def rt_object_get_type_def)
  then show ?thesis
    using timer_start_ordered [OF kernel_inv_small, of "UserTimer 1"] by auto
qed

section \<open>The tick interrupt\<close>

lemma remaining_tick_step:
  assumes "remaining s t \<noteq> 0"
  shows "remaining (s\<lparr>rt_tick := rt_tick s + 1\<rparr>) t = remaining s t - 1"
proof -
  let ?d = "timeout_tick (timers s t) - rt_tick s"
  have "timeout_tick (timers s t) - (rt_tick s + 1) = ?d - 1" by simp
  moreover have "unat (?d - 1) = unat ?d - 1"
    using assms unat_sub_if' [of ?d 1] by (auto simp: remaining_def)
  ultimately show ?thesis by (simp add: remaining_def diff_diff_eq [symmetric])
qed

lemma tick_inv_advance:
  assumes "tick_inv s" "expired s = {}"
  shows "tick_inv (s\<lparr>rt_tick := rt_tick s + 1\<rparr>)"
proof -
  let ?s = "s\<lparr>rt_tick := rt_tick s + 1\<rparr>"
  have pos: "remaining s t \<noteq> 0" if "t \<in> set (timer_lists s HardTimers)" for t
    using assms(2) that by (auto simp: expired_def)
  have "map (remaining ?s) (timer_lists s HardTimers)
      = map (\<lambda>n. n - 1) (map (remaining s) (timer_lists s HardTimers))"
    using pos by (simp add: remaining_tick_step)
  moreover have "sorted (map (\<lambda>n. n - 1) ns)" if "sorted ns" for ns :: "nat list"
    using that by (induction ns) auto
  ultimately have "sorted (map (remaining ?s) (timer_lists s HardTimers))"
    using assms(1) by (simp add: tick_inv_def timer_order_def del: map_map)
  moreover have "remaining ?s t < 0x7fffffff" if "t \<in> set (timer_lists s HardTimers)" for t
    using pos [OF that] assms(1) that by (simp add: remaining_tick_step tick_inv_def timer_order_def less_imp_diff_less)
  ultimately show ?thesis
    using assms(1) by (simp add: tick_inv_def timer_order_def hard_timer_ok_def periodic_def timer_flag_def
        rt_object_get_type_def)
qed

lemma tick_slice:
  assumes inv: "tick_inv s" and c: "rt_current_thread s = Some c"
  obtains s3 where "(if remaining_tick (thr s c) - 1 = 0
      then rt_schedule (upd_thread c (\<lambda>r. r\<lparr>remaining_tick := thr_init_tick r, stat := stat r OR 8\<rparr>)
             (upd_thread c (\<lambda>r. r\<lparr>remaining_tick := remaining_tick r - 1\<rparr>) s))
      else Some (upd_thread c (\<lambda>r. r\<lparr>remaining_tick := remaining_tick r - 1\<rparr>) s)) = Some s3"
    "tick_inv s3" "rest s3 = rest s" "\<And>u. suspended s3 u = suspended s u"
    "\<And>u. thr_error (thr s3 u) = thr_error (thr s u)"
proof -
  let ?s1 = "upd_thread c (\<lambda>r. r\<lparr>remaining_tick := remaining_tick r - 1\<rparr>) s"
  let ?s2 = "upd_thread c (\<lambda>r. r\<lparr>remaining_tick := thr_init_tick r, stat := stat r OR 8\<rparr>) ?s1"
  have k: "kernel_inv s" using inv by (simp add: tick_inv_def)
  have k1: "kernel_inv ?s1" "suspended ?s1 u = suspended s u" for u
    by (rule kernel_inv_fields [OF k]; simp)+
  have k2: "kernel_inv ?s2" "suspended ?s2 u = suspended ?s1 u" for u
    by (rule kernel_inv_fields [OF k1(1)]; simp)+
  show thesis
  proof (cases "remaining_tick (thr s c) - 1 = 0")
    case True
    obtain s3 where s3: "rt_schedule ?s2 = Some s3" "kernel_inv s3" "rest s3 = rest ?s2"
      "\<And>u. suspended s3 u = suspended ?s2 u" "rt_current_thread s3 \<noteq> None"
      using kernel_inv_schedule [OF k2(1), of c] c by auto
    have r: "rest s3 = rest s"
      using s3(3) by simp
    have "thr_error (thr s3 u) = thr_error (thr s u)" for u
      using stat_only_fields(1) [OF stat_only_schedule [OF s3(1)], of u] by (cases "u = c") auto
    with True s3 r k1 k2 tick_inv_sched_step(1) [OF inv s3(2) r s3(5)] that [of s3] show thesis
      by auto
  next
    case False
    have r: "rest ?s1 = rest s" by simp
    have "tick_inv ?s1"
      using tick_inv_sched_step(1) [OF inv k1(1) r] c by simp
    moreover have "thr_error (thr ?s1 u) = thr_error (thr s u)" for u
      by (cases "u = c") auto
    ultimately show thesis
      using that [of ?s1] False r k1(2) by auto
  qed
qed

text \<open>The tick with all its work, as the caller of the interrupt sees it.\<close>

lemma tick_increase_result:
  assumes inv: "tick_inv s" and none: "expired s = {}" and call: "well_behaved call"
    and fuel: "length (timer_lists s HardTimers) < fuel"
  obtains s0 s' where "rt_tick_increase call fuel s = Some s'" "tick_inv s'" "expired s' = {}"
    "wake_rel call (expired s0) s0 s'" "rt_tick s0 = rt_tick s + 1" "timer_lists s0 = timer_lists s"
    "timers s0 = timers s" "\<And>u. suspended s0 u = suspended s u"
    "\<And>u. thr_error (thr s0 u) = thr_error (thr s u)"
proof -
  let ?s = "s\<lparr>rt_tick := rt_tick s + 1\<rparr>"
  have inv1: "tick_inv ?s"
    by (rule tick_inv_advance [OF inv none])
  obtain c where c: "rt_current_thread ?s = Some c"
    using inv by (auto simp: tick_inv_def)
  obtain s0 where s0: "(if remaining_tick (thr ?s c) - 1 = 0
      then rt_schedule (upd_thread c (\<lambda>r. r\<lparr>remaining_tick := thr_init_tick r, stat := stat r OR 8\<rparr>)
             (upd_thread c (\<lambda>r. r\<lparr>remaining_tick := remaining_tick r - 1\<rparr>) ?s))
      else Some (upd_thread c (\<lambda>r. r\<lparr>remaining_tick := remaining_tick r - 1\<rparr>) ?s)) = Some s0"
    and s0_inv: "tick_inv s0" and s0_rest: "rest s0 = rest ?s"
    and s0_susp: "\<And>u. suspended s0 u = suspended ?s u"
    and s0_err: "\<And>u. thr_error (thr s0 u) = thr_error (thr ?s u)"
    using tick_slice [OF inv1 c] by blast
  have "same_rest ?s s0" using s0_rest by (simp add: same_rest_def)
  note f = same_rest_fields [OF this]
  have "card (expired s0) \<le> card (set (timer_lists s HardTimers))"
    by (rule card_mono) (auto simp: expired_def f)
  then have "card (expired s0) < fuel"
    using fuel card_length [of "timer_lists s HardTimers"] by linarith
  then obtain s' where s': "rt_timer_check call fuel s0 = Some s'" "tick_inv s'" "expired s' = {}"
    "wake_rel call (expired s0) s0 s'"
    using timer_check_result [OF s0_inv call] by blast
  have run: "rt_tick_increase call fuel s = Some s'"
    unfolding rt_tick_increase_def Let_def using c s0 s'(1) by simp
  have "suspended s0 u = suspended s u" "thr_error (thr s0 u) = thr_error (thr s u)" for u
    using s0_susp [of u] s0_err [of u] by simp_all
  with run s' f show thesis
    by (intro that [of s' s0]) simp_all
qed

text \<open>Successive tick interrupts; the expiry loop of each gets one round more than there are hard timers.\<close>

fun ticks :: "callbacks \<Rightarrow> nat \<Rightarrow> kernel \<Rightarrow> kernel option" where
  "ticks call 0 s = Some s"
| "ticks call (Suc n) s = Option.bind (rt_tick_increase call (Suc (length (timer_lists s HardTimers))) s) (ticks call n)"

lemma awake_stays:
  assumes "tick_inv s" "expired s = {}" "well_behaved call" "\<not> suspended s u" "thr_error (thr s u) = e"
  obtains s' where "rt_tick_increase call (Suc (length (timer_lists s HardTimers))) s = Some s'" "tick_inv s'" "expired s' = {}"
    "\<not> suspended s' u" "thr_error (thr s' u) = e"
proof -
  obtain s0 s' where r: "rt_tick_increase call (Suc (length (timer_lists s HardTimers))) s = Some s'" "tick_inv s'" "expired s' = {}"
    "wake_rel call (expired s0) s0 s'"
    "\<And>u. suspended s0 u = suspended s u" "\<And>u. thr_error (thr s0 u) = thr_error (thr s u)"
    using tick_increase_result [OF assms(1-3) lessI] by metis
  with wake_relD(2) [OF r(4), of u] assms(4,5) that show thesis by simp
qed

lemma wait_or_wake:
  assumes inv: "tick_inv s" "expired s = {}" "well_behaved call"
    and t: "ThreadTimer u \<in> set (timer_lists s HardTimers)" "remaining s (ThreadTimer u) = Suc n"
  obtains s' where "rt_tick_increase call (Suc (length (timer_lists s HardTimers))) s = Some s'" "tick_inv s'" "expired s' = {}"
    "suspended s' u \<Longrightarrow> n \<noteq> 0 \<and> ThreadTimer u \<in> set (timer_lists s' HardTimers) \<and> remaining s' (ThreadTimer u) = n"
    "spares u call \<Longrightarrow> if n = 0 then \<not> suspended s' u \<and> thr_error (thr s' u) = - RT_ETIMEOUT else suspended s' u"
proof -
  obtain s0 s' where r: "rt_tick_increase call (Suc (length (timer_lists s HardTimers))) s = Some s'" "tick_inv s'" "expired s' = {}"
    "wake_rel call (expired s0) s0 s'" "rt_tick s0 = rt_tick s + 1" "timer_lists s0 = timer_lists s"
    "timers s0 = timers s" "\<And>u. suspended s0 u = suspended s u"
    using tick_increase_result [OF inv lessI] by metis
  have rem0: "remaining s0 (ThreadTimer u) = n"
    using remaining_tick_step [of s "ThreadTimer u"] t(2) by (simp add: remaining_def r)
  then have e: "ThreadTimer u \<in> expired s0 \<longleftrightarrow> n = 0"
    using t(1) by (simp add: expired_def r)
  have "suspended s0 u" using inv(1) kernel_invD(7) [of s u] t(1) r(8) by (simp add: tick_inv_def)
  then show thesis using that [OF r(1-3)] wake_relD(3-5) [OF r(4), of u] e rem0 t(1) r(6) by auto
qed

lemma ticks_awake:
  assumes "tick_inv s" "expired s = {}" "well_behaved call" "\<not> suspended s u" "thr_error (thr s u) = e"
  shows "\<exists>s'. ticks call n s = Some s' \<and> tick_inv s' \<and> \<not> suspended s' u \<and> thr_error (thr s' u) = e"
  using assms
proof (induction n arbitrary: s)
  case (Suc n)
  obtain s1 where s1: "rt_tick_increase call (Suc (length (timer_lists s HardTimers))) s = Some s1" "tick_inv s1" "expired s1 = {}"
    "\<not> suspended s1 u" "thr_error (thr s1 u) = e"
    using awake_stays [OF Suc.prems] by metis
  with Suc.IH [OF s1(2,3) Suc.prems(3) s1(4,5)] show ?case by simp
qed simp

lemma timer_wakes:
  assumes "tick_inv s" "expired s = {}" "well_behaved call" "ThreadTimer u \<in> set (timer_lists s HardTimers)"
  shows "\<exists>s'. ticks call n s = Some s' \<and> tick_inv s' \<and> (remaining s (ThreadTimer u) \<le> n \<longrightarrow> \<not> suspended s' u) \<and>
     (spares u call \<longrightarrow> (suspended s' u \<longleftrightarrow> n < remaining s (ThreadTimer u)) \<and>
       (remaining s (ThreadTimer u) \<le> n \<longrightarrow> thr_error (thr s' u) = - RT_ETIMEOUT))"
  using assms
proof (induction n arbitrary: s)
  case 0
  moreover have "suspended s u" using 0 kernel_invD(7) [of s u] by (simp add: tick_inv_def)
  moreover have "remaining s (ThreadTimer u) \<noteq> 0" using 0 by (auto simp: expired_def)
  ultimately show ?case by simp
next
  case (Suc n)
  then have "remaining s (ThreadTimer u) \<noteq> 0"
    by (auto simp: expired_def)
  then obtain m where m: "remaining s (ThreadTimer u) = Suc m"
    by (cases "remaining s (ThreadTimer u)") auto
  obtain s1 where s1: "rt_tick_increase call (Suc (length (timer_lists s HardTimers))) s = Some s1" "tick_inv s1" "expired s1 = {}"
    "suspended s1 u \<Longrightarrow> m \<noteq> 0 \<and> ThreadTimer u \<in> set (timer_lists s1 HardTimers) \<and> remaining s1 (ThreadTimer u) = m"
    "spares u call \<Longrightarrow> if m = 0 then \<not> suspended s1 u \<and> thr_error (thr s1 u) = - RT_ETIMEOUT else suspended s1 u"
    using wait_or_wake [OF Suc.prems m] by metis
  show ?case
  proof (cases "suspended s1 u")
    case False
    then show ?thesis
      using ticks_awake [OF s1(2,3) Suc.prems(3) False refl, of n] s1(1,5) m by (auto split: if_splits)
  next
    case True
    then show ?thesis
      using Suc.IH [OF s1(2,3) Suc.prems(3)] s1(1,4) m by auto
  qed
qed

text \<open>
  C10. A sleeping thread wakes up on time.  Between two interrupts, when no timer is overdue, take a thread whose timer has
  some ticks to go, and timer functions that are well behaved.  Any number of tick interrupts comes back with the tick invariant kept, whatever the value of the
  32-bit tick counter; after as many as the timer had to go the thread is not suspended any more.  If the timer functions do not
  wake this thread, it is suspended until exactly then and has \<^verbatim>\<open>-RT_ETIMEOUT\<close> afterwards.
\<close>

theorem sleeping_thread_wakes:
  assumes "tick_inv s" "expired s = {}" "well_behaved call" "ThreadTimer u \<in> set (timer_lists s HardTimers)"
  shows "\<exists>s'. ticks call n s = Some s' \<and> tick_inv s' \<and> (remaining s (ThreadTimer u) \<le> n \<longrightarrow> \<not> suspended s' u) \<and>
     (spares u call \<longrightarrow> (suspended s' u \<longleftrightarrow> n < remaining s (ThreadTimer u)) \<and>
       (remaining s (ThreadTimer u) \<le> n \<longrightarrow> thr_error (thr s' u) = - RT_ETIMEOUT))"
  by (rule timer_wakes [OF assms])

theorem sleeping_thread_wakes_witness:
  "(\<exists>s'. ticks stop_own 2 alarm_system = Some s' \<and> tick_inv s' \<and> suspended s' 2) \<and>
   (\<exists>s'. ticks stop_own 3 alarm_system = Some s' \<and> tick_inv s' \<and> \<not> suspended s' 2 \<and> thr_error (thr s' 2) = - RT_ETIMEOUT)"
proof -
  note a = alarm_system_facts
  have "expired alarm_system = {}" "ThreadTimer 2 \<in> set (timer_lists alarm_system HardTimers)" by (auto simp: expired_def a)
  note w = sleeping_thread_wakes [OF a(1) this(1) stop_own_ok(1) this(2)]
  show ?thesis using w [of 2] w [of 3] stop_own_ok(3) a(3) by auto
qed

text \<open>
  C11. \<^verbatim>\<open>rt_tick_from_millisecond\<close> rounds up to whole ticks: for every non-negative
  32-bit argument the result is the least number of 10 ms ticks that covers the
  interval, with no overflow; a negative argument is ``forever'', the largest tick.
\<close>

theorem tick_from_millisecond_ceiling:
  assumes "- (2 ^ 31) \<le> ms" "ms < 2 ^ 31"
  shows "if ms < 0 then rt_tick_from_millisecond ms = RT_TICK_MAX
     else uint (rt_tick_from_millisecond ms) = (ms + 9) div 10"
proof (cases "ms < 0")
  case True
  then show ?thesis by (simp add: rt_tick_from_millisecond_def)
next
  case False
  let ?a = "100 * (ms div 1000)" and ?b = "(100 * (ms mod 1000) + 999) div 1000"
  have hundred: "(100 * x + 99) div 100 = x" for x :: int
    by linarith
  have "?b = (100 * (ms mod 1000 + 9) + 99) div (100 * 10)"
    by simp
  also have "\<dots> = (100 * (ms mod 1000 + 9) + 99) div 100 div 10"
    by (rule zdiv_zmult2_eq) simp
  also have "(100 * (ms mod 1000 + 9) + 99) div 100 = ms mod 1000 + 9"
    by (rule hundred)
  finally have b: "?b = (ms mod 1000 + 9) div 10" .
  have "(10 * q + r) div 10 = q + r div 10" for q r :: int
    by simp
  from this [of ?a "ms mod 1000 + 9"]
  have "(10 * ?a + (ms mod 1000 + 9)) div 10 = ?a + (ms mod 1000 + 9) div 10" .
  moreover have "10 * ?a + (ms mod 1000 + 9) = ms + 9"
    using mult_div_mod_eq [of 1000 ms] by simp
  ultimately have sum: "?a + ?b = (ms + 9) div 10"
    using b by simp
  have "0 \<le> ?a + ?b" "?a + ?b < 2 ^ 32"
    using False assms(2) unfolding sum by auto
  then have u: "uint (word_of_int (?a + ?b) :: 32 word) = ?a + ?b"
    unfolding uint_word_of_int by (intro mod_pos_pos_trivial) simp_all
  have "rt_tick_from_millisecond ms = word_of_int (?a + ?b)"
    unfolding rt_tick_from_millisecond_def wi_hom_add using False by (simp only: if_False)
  with False sum u show ?thesis by (simp only: if_False)
qed

theorem tick_from_millisecond_ceiling_witness:
  "uint (rt_tick_from_millisecond 2147483647) = 214748365 \<and> rt_tick_from_millisecond (-1) = RT_TICK_MAX"
  using tick_from_millisecond_ceiling [of 2147483647] tick_from_millisecond_ceiling [of "-1"] by simp

end
