(* ===== verification/Thread.thy ===== *)
theory Thread
  imports Timer
begin

text \<open>
  Threads, \<^verbatim>\<open>src/thread.c\<close>: creation, start, yield and the sleeping calls.  A call
  that blocks is two definitions: the part up to and including its
  \<^verbatim>\<open>rt_schedule\<close>, which answers \<^verbatim>\<open>Blocked\<close> (or \<^verbatim>\<open>Done\<close> with the return value on
  the paths that do not block), and the part its thread runs when it is switched
  in again, named with the suffix \<^verbatim>\<open>_resumed\<close>.

  The stack of a thread (its fill pattern and the initial frame built by
  \<^verbatim>\<open>rt_hw_stack_init\<close>) is architecture state and is left out.
\<close>

section \<open>Operations\<close>

datatype 'r outcome = Done 'r | Blocked

definition thread_init ::
    "tid \<Rightarrow> string \<Rightarrow> 64 word \<Rightarrow> 64 word \<Rightarrow> 64 word \<Rightarrow> 32 word \<Rightarrow> 8 word \<Rightarrow> 32 word \<Rightarrow>
     kernel \<Rightarrow> (err \<times> kernel) option" where
  "thread_init t name ent param stack_start stksize priority tick s = do {
     rt_assert (unat priority < RT_THREAD_PRIORITY_MAX);
     let s1 = upd_thread t (\<lambda>r. r\<lparr>wakeup_func := None, entry := ent, thr_parameter := param,
                 stack_addr := stack_start, stack_size := stksize, init_priority := priority,
                 current_priority := priority, number_mask := 0, taken_object_list := [],
                 pending_object := None, event_set := 0, event_info := 0,
                 thr_init_tick := ucast tick, remaining_tick := ucast tick,
                 thr_error := RT_EOK, stat := RT_THREAD_INIT, cleanup := None, lwp := None,
                 sigq_pending := 0\<rparr>) s;
     s2 \<leftarrow> rt_timer_init (ThreadTimer t) (obj_name (objs s1 (OThread t))) thread_timeout_fn (ArgThread t) 0 0 s1;
     Some (RT_EOK, s2)
   }"

definition rt_thread_init ::
    "tid \<Rightarrow> string \<Rightarrow> 64 word \<Rightarrow> 64 word \<Rightarrow> 64 word \<Rightarrow> 32 word \<Rightarrow> 8 word \<Rightarrow> 32 word \<Rightarrow>
     kernel \<Rightarrow> (err \<times> kernel) option" where
  "rt_thread_init t name ent param stack_start stksize priority tick s = do {
     rt_assert (stack_start \<noteq> 0);
     s1 \<leftarrow> rt_object_init (OThread t) RT_Object_Class_Thread name s;
     thread_init t name ent param stack_start stksize priority tick s1
   }"

definition rt_thread_self :: "kernel \<Rightarrow> tid option" where
  "rt_thread_self s = rt_current_thread s"

definition rt_thread_startup :: "tid \<Rightarrow> kernel \<Rightarrow> (err \<times> kernel) option" where
  "rt_thread_startup t s = do {
     rt_assert (stat_of s t = RT_THREAD_INIT);
     rt_assert (rt_object_get_type (OThread t) s = RT_Object_Class_Thread);
     let s1 = upd_thread t (\<lambda>r. r\<lparr>number_mask := push_bit (unat (current_priority r)) 1,
                                  stat := RT_THREAD_SUSPEND_MASK\<rparr>) s;
     (_, s2) \<leftarrow> rt_thread_resume t s1;
     s3 \<leftarrow> (if rt_thread_self s2 \<noteq> None then rt_schedule s2 else Some s2);
     Some (RT_EOK, s3)
   }"

text \<open>\<^verbatim>\<open>mem\<close> and \<^verbatim>\<open>stack\<close> are what the two allocations of \<^verbatim>\<open>rt_thread_create\<close> answer.\<close>

definition rt_thread_create ::
    "tid option \<Rightarrow> 64 word option \<Rightarrow> string \<Rightarrow> 64 word \<Rightarrow> 64 word \<Rightarrow> 32 word \<Rightarrow> 8 word \<Rightarrow> 32 word \<Rightarrow>
     kernel \<Rightarrow> (tid option \<times> kernel) option" where
  "rt_thread_create mem stack name ent param stksize priority tick s = do {
     (a, s1) \<leftarrow> rt_object_allocate (map_option OThread mem) RT_Object_Class_Thread name s;
     case mem of
       None \<Rightarrow> Some (None, s1)
     | Some t \<Rightarrow>
         (case stack of
            None \<Rightarrow> do { s2 \<leftarrow> rt_object_delete (OThread t) s1; Some (None, s2) }
          | Some stack_start \<Rightarrow> do {
              (_, s2) \<leftarrow> thread_init t name ent param stack_start stksize priority tick s1;
              Some (Some t, s2)
            })
   }"

definition rt_thread_yield :: "kernel \<Rightarrow> (err \<times> kernel) option" where
  "rt_thread_yield s = do {
     t \<leftarrow> rt_thread_self s;
     s1 \<leftarrow> rt_schedule (upd_thread t (\<lambda>r. r\<lparr>remaining_tick := thr_init_tick r,
                                             stat := stat r OR RT_THREAD_STAT_YIELD\<rparr>) s);
     Some (RT_EOK, s1)
   }"

definition set_error :: "tid \<Rightarrow> err \<Rightarrow> kernel \<Rightarrow> kernel" where
  "set_error t e s = upd_thread t (\<lambda>r. r\<lparr>thr_error := e\<rparr>) s"

text \<open>Arming the timer of a thread, as every call with a timeout does.\<close>

definition arm_timer :: "tid \<Rightarrow> 32 word \<Rightarrow> kernel \<Rightarrow> kernel option" where
  "arm_timer t tick s = do {
     (_, _, s1) \<leftarrow> rt_timer_control (ThreadTimer t) 0 (TTick tick) s;
     (_, s2) \<leftarrow> rt_timer_start (ThreadTimer t) s1;
     Some s2
   }"

definition rt_thread_sleep :: "32 word \<Rightarrow> kernel \<Rightarrow> (err outcome \<times> kernel) option" where
  "rt_thread_sleep tick s =
    (if tick = 0 then Some (Done (- RT_EINVAL), s)
     else do {
       t \<leftarrow> rt_thread_self s;
       rt_assert (rt_object_get_type (OThread t) s = RT_Object_Class_Thread);
       (e, s1) \<leftarrow> rt_thread_suspend_with_flag t RT_INTERRUPTIBLE (set_error t RT_EOK s);
       if e = RT_EOK
       then do {
         s2 \<leftarrow> arm_timer t tick s1;
         s3 \<leftarrow> rt_schedule (set_error t (- RT_EINTR) s2);
         Some (Blocked, s3)
       }
       else Some (Done e, s1)
     })"

definition rt_thread_sleep_resumed :: "tid \<Rightarrow> kernel \<Rightarrow> err \<times> kernel" where
  "rt_thread_sleep_resumed t s =
    (RT_EOK, if thr_error (thr s t) = - RT_ETIMEOUT then set_error t RT_EOK s else s)"

definition rt_thread_delay :: "32 word \<Rightarrow> kernel \<Rightarrow> (err outcome \<times> kernel) option" where
  "rt_thread_delay tick s = rt_thread_sleep tick s"

definition rt_thread_mdelay :: "int \<Rightarrow> kernel \<Rightarrow> (err outcome \<times> kernel) option" where
  "rt_thread_mdelay ms s = rt_thread_sleep (rt_tick_from_millisecond ms) s"

text \<open>\<^verbatim>\<open>rt_thread_delay_until\<close> also returns the new value of the caller's tick variable.\<close>

definition rt_thread_delay_until ::
    "32 word \<Rightarrow> 32 word \<Rightarrow> kernel \<Rightarrow> (err outcome \<times> 32 word \<times> kernel) option" where
  "rt_thread_delay_until tick inc_tick s = do {
     t \<leftarrow> rt_thread_self s;
     rt_assert (rt_object_get_type (OThread t) s = RT_Object_Class_Thread);
     let s1 = set_error t RT_EOK s;
     let cur_tick = rt_tick s1;
     if cur_tick - tick < inc_tick
     then do {
       let tick' = tick + inc_tick;
       let left_tick = tick' - cur_tick;
       (_, s2) \<leftarrow> rt_thread_suspend_with_flag t RT_UNINTERRUPTIBLE s1;
       s3 \<leftarrow> arm_timer t left_tick s2;
       s4 \<leftarrow> rt_schedule s3;
       Some (Blocked, tick', s4)
     }
     else Some (Done (thr_error (thr s1 t)), cur_tick, s1)
   }"

definition rt_thread_delay_until_resumed :: "tid \<Rightarrow> kernel \<Rightarrow> err \<times> kernel" where
  "rt_thread_delay_until_resumed t s =
    (let s1 = (if thr_error (thr s t) = - RT_ETIMEOUT then set_error t RT_EOK s else s)
     in (thr_error (thr s1 t), s1))"

definition rt_thread_find :: "string option \<Rightarrow> kernel \<Rightarrow> (obj_id option \<times> kernel) option" where
  "rt_thread_find name s = rt_object_find name RT_Object_Class_Thread s"

definition rt_thread_get_name :: "tid option \<Rightarrow> 8 word \<Rightarrow> kernel \<Rightarrow> err \<times> string option" where
  "rt_thread_get_name t name_size s =
    (case t of None \<Rightarrow> (- RT_EINVAL, None) | Some u \<Rightarrow> rt_object_get_name (Some (OThread u)) name_size s)"

text \<open>
  The error variable of \<^verbatim>\<open>src/kservice.c\<close>: each thread has its own, and interrupt
  handlers share one.
\<close>

definition rt_get_errno :: "kernel \<Rightarrow> err" where
  "rt_get_errno s =
    (if rt_interrupt_nest s \<noteq> 0 then global_errno s
     else case rt_thread_self s of None \<Rightarrow> global_errno s | Some t \<Rightarrow> thr_error (thr s t))"

definition rt_set_errno :: "err \<Rightarrow> kernel \<Rightarrow> kernel" where
  "rt_set_errno e s =
    (if rt_interrupt_nest s \<noteq> 0 then s\<lparr>global_errno := e\<rparr>
     else case rt_thread_self s of None \<Rightarrow> s\<lparr>global_errno := e\<rparr> | Some t \<Rightarrow> set_error t e s)"

section \<open>Yielding\<close>

lemma yield_flag_set: "(x OR 8) AND (8 :: 8 word) \<noteq> 0"
  by (simp add: bit.conj_disj_distrib2)

lemma yield_step:
  assumes inv: "sched_inv s" and a: "rt_current_thread s = Some a" "stat_of s a = RT_THREAD_RUNNING"
    and lock: "rt_scheduler_lock_nest s = 0"
    and q: "lists s (Ready (prio_of s a)) = b # bs" "\<And>p. p < prio_of s a \<Longrightarrow> lists s (Ready p) = []"
  obtains s' where "rt_thread_yield s = Some (RT_EOK, s')" "sched_inv s'" "rt_current_thread s' = Some b"
    "stat_of s' b = RT_THREAD_RUNNING" "rt_scheduler_lock_nest s' = 0"
    "lists s' (Ready (prio_of s a)) = a # bs" "\<And>p. p < prio_of s a \<Longrightarrow> lists s' (Ready p) = []"
    "prio_of s' b = prio_of s a"
proof -
  let ?y = "upd_thread a (\<lambda>r. r\<lparr>remaining_tick := thr_init_tick r, stat := stat r OR 8\<rparr>) s"
  have r: "ready_inv s" using inv by (simp add: sched_inv_def)
  have y: "sched_inv ?y"
    by (rule sched_inv_fields [OF inv]) simp_all
  have y': "stat_of ?y a = RT_THREAD_RUNNING" "rt_current_thread ?y = Some a"
    "prio_of ?y a = prio_of s a" "lists ?y = lists s"
    using a by (simp_all add: stat_of_def prio_of_def)
  have yf: "stat (thr ?y a) AND RT_THREAD_STAT_YIELD \<noteq> 0"
    using yield_flag_set [of "stat (thr s a)"] by simp
  let ?p = "prio_of s a"
  have b: "b \<noteq> a" "prio_of s b = ?p"
    using ready_not_current [OF inv a(1), of b ?p] prio_of_ready [OF r, of b ?p] q(1) by simp_all
  have grp: "rt_thread_ready_priority_group ?y \<noteq> 0"
    using ready_invD(4) [OF r prio_lt [OF r, of a]] q(1) by auto
  have ry: "ready_inv ?y"
    using y by (simp only: sched_inv_def)
  obtain t p ts where top: "scheduler_get_highest_priority_thread ?y = Some (t, p)"
    "lists s (Ready p) = t # ts" and "p < 32" and tl: "\<And>k. k < p \<Longrightarrow> lists s (Ready k) = []"
    using highest_ready [OF ry grp, unfolded y'(4)] by blast
  have "p = ?p"
    using top(2) tl q by (metis list.discI linorder_neqE_nat)
  then have tb: "t = b" "ts = bs" "p = ?p"
    using top(2) q(1) by auto
  have sch: "rt_schedule ?y = Some (switch_to b ?p (put_back a ?y))"
    using rt_schedule_preempt [OF y y'(2) _ grp top(1)] lock b(1) y'(1,3) yf tb by simp
  let ?s' = "switch_to b ?p (put_back a ?y)"
  have lists': "lists ?s' (Ready k) = (if k = ?p then a # removeAll b (b # bs) else removeAll b (lists s (Ready k)))" for k
    using b(1) q(1) y'(3) by (simp add: put_back_lists family_remove_def)
  have "distinct (b # bs)"
    using r q(1) by (metis ready_inv_def family_ok_def)
  then have rm: "removeAll b (b # bs) = bs"
    by (rule removeAll_hd)
  show thesis
  proof (rule that)
    show "rt_thread_yield s = Some (RT_EOK, ?s')"
      unfolding rt_thread_yield_def rt_thread_self_def using a(1) sch by simp
    show "sched_inv ?s'"
      using sched_inv_schedule [OF y y'(2)] sch by simp
    show "rt_scheduler_lock_nest ?s' = 0"
      using schedule_keeps [OF sch] lock by simp
    show "lists ?s' (Ready ?p) = a # bs"
      using lists' [of ?p] rm by simp
    show "lists ?s' (Ready k) = []" if "k < ?p" for k
      using lists' [of k] q(2) [OF that] that by simp
    have "prio_of ?y b = prio_of s b"
      using b(1) by (simp add: prio_of_def)
    then show "prio_of ?s' b = ?p"
      using b(2) by (simp only: switch_to_facts prio_of_put_back)
  qed simp_all
qed

text \<open>
  C12. What \<^verbatim>\<open>rt_thread_yield\<close> does among threads of one priority.  The scheduler
  clears the yield flag before it puts the yielding thread back, so the thread
  goes to the head of its queue and not to the tail: with \<open>b\<close> first in the queue
  and \<open>bs\<close> behind it, two yields bring the first thread back to the CPU and \<open>bs\<close> is
  where it was.  Threads that yield to each other keep every third thread of
  their priority waiting.
\<close>

theorem yield_alternates_between_two:
  assumes inv: "sched_inv s" and a: "rt_current_thread s = Some a" "stat_of s a = RT_THREAD_RUNNING"
    and lock: "rt_scheduler_lock_nest s = 0"
    and q: "lists s (Ready (prio_of s a)) = b # bs" "\<forall>p < prio_of s a. lists s (Ready p) = []"
  shows "\<exists>s1 s2. rt_thread_yield s = Some (RT_EOK, s1) \<and> rt_current_thread s1 = Some b \<and>
     rt_thread_yield s1 = Some (RT_EOK, s2) \<and> rt_current_thread s2 = Some a \<and>
     lists s2 (Ready (prio_of s a)) = b # bs \<and> sched_inv s2"
proof -
  obtain s1 where s1: "rt_thread_yield s = Some (RT_EOK, s1)" "sched_inv s1" "rt_current_thread s1 = Some b"
    "stat_of s1 b = RT_THREAD_RUNNING" "rt_scheduler_lock_nest s1 = 0"
    "lists s1 (Ready (prio_of s a)) = a # bs" "\<And>p. p < prio_of s a \<Longrightarrow> lists s1 (Ready p) = []"
    "prio_of s1 b = prio_of s a"
    using yield_step [OF inv a lock q(1)] q(2) by metis
  obtain s2 where "rt_thread_yield s1 = Some (RT_EOK, s2)" "sched_inv s2" "rt_current_thread s2 = Some a"
    "lists s2 (Ready (prio_of s1 b)) = b # bs"
    using yield_step [OF s1(2,3,4,5)] s1(6,7,8) by metis
  with s1 show ?thesis by auto
qed

theorem yield_alternates_between_two_witness:
  "\<exists>s1 s2. rt_thread_yield small_system = Some (RT_EOK, s1) \<and> rt_current_thread s1 = Some 3 \<and>
     rt_thread_yield s1 = Some (RT_EOK, s2) \<and> rt_current_thread s2 = Some 2 \<and>
     lists s2 (Ready 10) = [3, 4] \<and> sched_inv s2"
  using yield_alternates_between_two [OF sched_inv_small, of 2 3 "[4]"]
  by (simp add: small_system_def kernel_reset_def sample_thread_def blank_thread_def stat_of_def prio_of_def)

section \<open>Arming the timer of a suspended thread\<close>

definition armed :: "tid \<Rightarrow> 32 word \<Rightarrow> kernel \<Rightarrow> kernel" where
  "armed t tick s = timer_on (ThreadTimer t) (upd_timer (ThreadTimer t) (\<lambda>r. r\<lparr>init_tick := tick\<rparr>) s)"

lemma armed_frame [simp]:
  "threads (armed t n s) = threads s" "lists (armed t n s) = lists s"
  "rt_current_thread (armed t n s) = rt_current_thread s"
  "rt_thread_ready_priority_group (armed t n s) = rt_thread_ready_priority_group s"
  "rt_scheduler_lock_nest (armed t n s) = rt_scheduler_lock_nest s" "rt_tick (armed t n s) = rt_tick s"
  "sems (armed t n s) = sems s" "mutexes (armed t n s) = mutexes s" "events (armed t n s) = events s"
  "mailboxes (armed t n s) = mailboxes s" "mqs (armed t n s) = mqs s"
  "rt_object_get_type a (armed t n s) = rt_object_get_type a s"
  "suspended (armed t n s) u = suspended s u" "live (armed t n s) u = live s u"
  "stat_of (armed t n s) u = stat_of s u" "prio_of (armed t n s) u = prio_of s u"
  by (simp_all add: armed_def)

lemma arm_timer_eq:
  assumes "thread_object_ok s t" "n < RT_TICK_HALF"
  shows "arm_timer t n s = Some (armed t n s)"
proof -
  let ?s = "upd_timer (ThreadTimer t) (\<lambda>r. r\<lparr>init_tick := n\<rparr>) s"
  have ok: "rt_object_get_type (OTimer (ThreadTimer t)) ?s = RT_Object_Class_Timer" "\<not> soft ?s (ThreadTimer t)"
    using assms(1) by (simp_all add: thread_object_ok_def)
  show ?thesis
    unfolding arm_timer_def rt_timer_control_def
    using assms timer_start_hard [OF ok] by (simp add: armed_def thread_object_ok_def)
qed

lemma kernel_inv_armed:
  assumes "kernel_inv s" "suspended s t" shows "kernel_inv (armed t n s)"
  unfolding armed_def
proof (rule kernel_inv_on)
  show "kernel_inv (upd_timer (ThreadTimer t) (\<lambda>r. r\<lparr>init_tick := n\<rparr>) s)"
    by (rule kernel_inv_init_tick [OF assms(1)])
  show "\<not> soft (upd_timer (ThreadTimer t) (\<lambda>r. r\<lparr>init_tick := n\<rparr>) s) (ThreadTimer t)"
    using kernel_invD(6) [OF assms(1) suspended_live [OF assms(2)]]
    by (simp add: thread_object_ok_def)
  show "suspended (upd_timer (ThreadTimer t) (\<lambda>r. r\<lparr>init_tick := n\<rparr>) s) u" if "ThreadTimer t = ThreadTimer u" for u
    using assms(2) that by simp
qed

lemma armed_timer:
  "set (timer_lists (armed t n s) HardTimers) = insert (ThreadTimer t) (set (timer_lists s HardTimers))"
  "remaining (armed t n s) u = (if u = ThreadTimer t then unat n else remaining s u)"
  by (auto simp: armed_def timer_on_list remaining_on) (simp_all add: remaining_def)

lemma tick_inv_armed:
  assumes inv: "tick_inv s" and t: "suspended s t" "n < RT_TICK_HALF"
  shows "tick_inv (armed t n s)"
    and "n \<noteq> 0 \<Longrightarrow> expired s = {} \<Longrightarrow> expired (armed t n s) = {}"
proof -
  let ?u = "upd_timer (ThreadTimer t) (\<lambda>r. r\<lparr>init_tick := n\<rparr>) s"
  have k: "kernel_inv s" using inv by (simp add: tick_inv_def)
  have ok: "thread_object_ok s t"
    using kernel_invD(6) [OF k suspended_live [OF t(1)]] .
  have b: "unat n < 0x7fffffff"
    using t(2) by (simp add: unat_lt_nat)
  have "remaining ?u = remaining s"
    by (auto simp: remaining_def fun_eq_iff)
  then have "timer_order ?u"
    using inv by (simp add: tick_inv_def timer_order_def)
  then have "timer_order (armed t n s)"
    unfolding armed_def using b by (intro timer_order_on(1)) simp_all
  moreover have "hard_timer_ok (armed t n s) u" if "u \<in> set (timer_lists (armed t n s) HardTimers)" for u
  proof (cases "u = ThreadTimer t")
    case True
    then show ?thesis
      using ok b by (simp add: hard_timer_ok_def thread_object_ok_def armed_def)
  next
    case False
    then have "hard_timer_ok s u"
      using that inv by (auto simp: armed_timer tick_inv_def)
    with False show ?thesis
      by (simp add: hard_timer_ok_def armed_def)
  qed
  ultimately show "tick_inv (armed t n s)"
    using inv kernel_inv_armed [OF k t(1)] by (simp add: tick_inv_def)
  show "expired (armed t n s) = {}" if "n \<noteq> 0" "expired s = {}"
    using that by (auto simp: expired_def armed_timer unat_gt_0)
qed

section \<open>Sleeping\<close>

lemma hard_timer_ok_off [simp]: "hard_timer_ok (timer_off t s) u = hard_timer_ok s u"
  by (simp add: hard_timer_ok_def)

lemma tick_inv_off:
  assumes "tick_inv s" shows "tick_inv (timer_off t s)" "expired (timer_off t s) \<subseteq> expired s"
proof -
  have rem: "remaining (timer_off t s) = remaining s"
    by (simp add: remaining_def fun_eq_iff)
  have sub: "set (timer_lists (timer_off t s) HardTimers) \<subseteq> set (timer_lists s HardTimers)"
    by (rule timer_off_lists)
  have "sorted (map (remaining s) (timer_lists (timer_off t s) HardTimers))"
    using assms by (simp add: tick_inv_def timer_order_def timer_off_def timer_clear_def tm_remove_def
        family_remove_def sorted_map_removeAll)
  then show "tick_inv (timer_off t s)"
    using assms sub kernel_inv_off [of s t] by (auto simp: tick_inv_def timer_order_def rem)
  show "expired (timer_off t s) \<subseteq> expired s"
    using sub by (auto simp: expired_def rem)
qed

lemma tick_inv_suspended_self:
  assumes inv: "tick_inv s" and c: "rt_current_thread s = Some t" and run: "stat_of s t = RT_THREAD_RUNNING"
  shows "tick_inv (suspended_self t flag s)" "expired (suspended_self t flag s) \<subseteq> expired s"
proof -
  let ?s1 = "upd_thread t (set_stat (suspend_code flag)) s"
  have k: "kernel_inv s" using inv by (simp add: tick_inv_def)
  have r: "ready_inv s" and u: "unlinked t (lists s)" and st: "started (thr s t)"
    using kernel_invD(1,2) [OF k] unlinked_current [OF _ c run] started_running(1) run by auto
  have k1: "kernel_inv ?s1"
    by (rule kernel_inv_thread_upd [OF k u])
       (use c st ready_invD(2) [OF r, of t] kernel_invD(6) [OF k running_live [OF run]]
        in \<open>auto simp: thr_ok_def\<close>)
  have t1: "tick_inv ?s1"
    by (rule tick_inv_sched_step [OF inv k1]) (simp_all add: c)
  have e1: "expired ?s1 = expired s"
    by (simp add: expired_def remaining_def)
  show "tick_inv (suspended_self t flag s)" "expired (suspended_self t flag s) \<subseteq> expired s"
    unfolding suspended_self_def e1 [symmetric] by (rule tick_inv_off [OF t1])+
qed

lemma tick_inv_set_error:
  assumes "tick_inv s" shows "tick_inv (set_error t e s)" "expired (set_error t e s) = expired s"
proof -
  have "kernel_inv (set_error t e s)"
    using assms kernel_inv_error [of s t e] by (simp add: tick_inv_def set_error_def)
  then show "tick_inv (set_error t e s)" "expired (set_error t e s) = expired s"
    using tick_inv_sched_step [OF assms, of "set_error t e s"] assms by (simp_all add: set_error_def tick_inv_def)
qed

lemma set_error_frame [simp]:
  "rt_current_thread (set_error t e s) = rt_current_thread s" "lists (set_error t e s) = lists s"
  "stat_of (set_error t e s) u = stat_of s u" "suspended (set_error t e s) u = suspended s u"
  "live (set_error t e s) u = live s u" "prio_of (set_error t e s) u = prio_of s u"
  "rest (set_error t e s) = rest s" "timer_lists (set_error t e s) = timer_lists s"
  "timers (set_error t e s) = timers s" "rt_tick (set_error t e s) = rt_tick s"
  "objs (set_error t e s) = objs s" "thr_error (thr (set_error t e s) t) = e"
  "u \<noteq> t \<Longrightarrow> thr (set_error t e s) u = thr s u" "lwp_pending (set_error t e s) = lwp_pending s"
  "sigq_pending (thr (set_error t e s) u) = sigq_pending (thr s u)" "lwp (thr (set_error t e s) u) = lwp (thr s u)"
  "rt_object_get_type a (set_error t e s) = rt_object_get_type a s"
  "rt_scheduler_lock_nest (set_error t e s) = rt_scheduler_lock_nest s"
  "remaining (set_error t e s) = remaining s"
  by (simp_all add: set_error_def remaining_def fun_eq_iff stat_of_def suspended_def live_def prio_of_def)

lemma suspend_check_error [simp]:
  "lwp_thread_signal_suspend_check t flag (set_error u e s) = lwp_thread_signal_suspend_check t flag s"
  by (cases "lwp (thr s t)") (simp_all add: lwp_thread_signal_suspend_check_def)

lemma thread_timer_member_rest:
  assumes "rest s' = rest s"
  shows "timer_lists s' = timer_lists s" "remaining s' u = remaining s u"
proof -
  have "same_rest s s'" using assms by (simp add: same_rest_def)
  from same_rest_fields [OF this] show "timer_lists s' = timer_lists s" "remaining s' u = remaining s u"
    by (simp_all add: remaining_def)
qed

text \<open>
  \<^verbatim>\<open>rt_thread_sleep\<close> with a tick count below half the counter range blocks the
  running thread with its timer set to exactly that many ticks (no timer has
  expired in between), keeping the tick invariant; together with C10 it sleeps
  for that long.  A count of zero is refused with \<^verbatim>\<open>-RT_EINVAL\<close>, and a pending
  signal with \<^verbatim>\<open>-RT_EINTR\<close>, without blocking.
\<close>

theorem thread_sleep_blocks:
  assumes inv: "tick_inv s" "expired s = {}" and t: "rt_current_thread s = Some t" "stat_of s t = RT_THREAD_RUNNING"
    and n: "n < RT_TICK_HALF" and chk: "lwp_thread_signal_suspend_check t RT_INTERRUPTIBLE s = Some k"
  shows "\<exists>r s'. rt_thread_sleep n s = Some (r, s') \<and> tick_inv s' \<and> expired s' = {} \<and>
     (if n = 0 then r = Done (- RT_EINVAL) \<and> s' = s
      else if k = 0 then r = Done (- RT_EINTR)
      else r = Blocked \<and> suspended s' t \<and> ThreadTimer t \<in> set (timer_lists s' HardTimers) \<and>
           remaining s' (ThreadTimer t) = unat n \<and> thr_error (thr s' t) = - RT_EINTR)"
proof (cases "n = 0")
  case True
  then show ?thesis using inv by (simp add: rt_thread_sleep_def)
next
  case n0: False
  let ?s0 = "set_error t RT_EOK s"
  have i0: "tick_inv ?s0" "expired ?s0 = {}" "kernel_inv ?s0"
    using tick_inv_set_error [OF inv(1)] inv(2) by (auto simp: tick_inv_def)
  have ok: "thread_object_ok s t"
    using kernel_invD(6) [OF _ running_live [OF t(2)]] inv(1) by (simp add: tick_inv_def)
  then have ty: "rt_object_get_type (OThread t) s = RT_Object_Class_Thread"
    by (simp add: thread_object_ok_def)
  show ?thesis
  proof (cases "k = 0")
    case True
    have "rt_thread_suspend_with_flag t RT_INTERRUPTIBLE ?s0 = Some (- RT_EINTR, ?s0)"
      using ty t chk True by (simp add: rt_thread_suspend_with_flag_def)
    then show ?thesis
      using n0 True t(1) ty i0 by (simp add: rt_thread_sleep_def rt_thread_self_def)
  next
    case False
    let ?s1 = "suspended_self t RT_INTERRUPTIBLE ?s0"
    let ?s2 = "armed t n ?s1"
    let ?s3 = "set_error t (- RT_EINTR) ?s2"
    have sus: "rt_thread_suspend_with_flag t RT_INTERRUPTIBLE ?s0 = Some (RT_EOK, ?s1)"
      by (rule suspend_self [OF i0(3)]) (use t chk False in \<open>simp_all add: suspend_flags_def\<close>)
    have c0: "rt_current_thread ?s0 = Some t" "stat_of ?s0 t = RT_THREAD_RUNNING"
      using t by simp_all
    note s1 = suspended_self_ok [OF i0(3) c0, of RT_INTERRUPTIBLE]
    note t1 = tick_inv_suspended_self [OF i0(1) c0, of RT_INTERRUPTIBLE]
    have e1: "expired ?s1 = {}" using t1(2) i0(2) by simp
    have arm: "arm_timer t n ?s1 = Some ?s2"
      using arm_timer_eq [OF kernel_invD(6) [OF s1(1) suspended_live [OF s1(3)]] n] .
    note t2 = tick_inv_armed [OF t1(1) s1(3) n]
    have t3: "tick_inv ?s3" "expired ?s3 = {}" "kernel_inv ?s3"
      using tick_inv_set_error [OF t2(1)] t2(2) [OF n0 e1] by (auto simp: tick_inv_def)
    obtain s' where s': "rt_schedule ?s3 = Some s'" "kernel_inv s'" "rest s' = rest ?s3"
      "\<And>u. suspended s' u = suspended ?s3 u" "rt_current_thread s' \<noteq> None"
      using kernel_inv_schedule [OF t3(3), of t] s1(4) by auto
    note t' = tick_inv_sched_step [OF t3(1) s'(2,3,5)]
    have "ThreadTimer t \<in> set (timer_lists s' HardTimers)" "remaining s' (ThreadTimer t) = unat n"
      using thread_timer_member_rest [OF s'(3)] by (simp_all add: armed_timer)
    moreover have "thr_error (thr s' t) = - RT_EINTR" "suspended s' t"
      using stat_only_fields(1) [OF stat_only_schedule [OF s'(1)], of t] s'(4) [of t] s1(3) by simp_all
    moreover have "rt_thread_sleep n s = Some (Blocked, s')"
      unfolding rt_thread_sleep_def rt_thread_self_def using n0 t(1) ty sus arm s'(1) by simp
    ultimately show ?thesis
      using n0 False t' t3(2) by auto
  qed
qed

theorem thread_sleep_blocks_witness:
  "\<exists>s'. rt_thread_sleep 5 small_system = Some (Blocked, s') \<and> tick_inv s' \<and> suspended s' 2 \<and>
     remaining s' (ThreadTimer 2) = 5"
  using thread_sleep_blocks [OF tick_inv_small, of 2 5 1]
  by (auto simp: small_system_def kernel_reset_def sample_thread_def blank_thread_def stat_of_def expired_def
      lwp_thread_signal_suspend_check_def sigqueue_isempty_def)

section \<open>Starting a thread\<close>

lemma kernel_inv_startup:
  assumes inv: "kernel_inv s" and st: "stat_of s t = RT_THREAD_INIT" and ok: "thread_object_ok s t"
  defines "s1 \<equiv> upd_thread t (\<lambda>r. r\<lparr>number_mask := push_bit (unat (current_priority r)) 1,
                                  stat := RT_THREAD_SUSPEND_MASK\<rparr>) s"
  shows "kernel_inv s1" "suspended s1 t"
proof -
  have u: "unlinked t (lists s)"
  proof -
    have "\<not> list_fits l (thr s t)" for l
      using st ready_not_suspended(4) [of "stat (thr s t)"] by (cases l) (auto simp: stat_of_def)
    then show ?thesis
      using kernel_invD(2) [OF inv] by (auto simp: ready_inv_def unlinked_def)
  qed
  have p: "unat (current_priority (thr s t)) < 32"
    using prio_lt [OF kernel_invD(2) [OF inv], of t] by (simp add: prio_of_def)
  have nt: "ThreadTimer t \<notin> set (timer_lists s HardTimers)"
    using kernel_invD(7) [OF inv, of t] suspended_live [of s t] st by (auto simp: live_def)
  show "kernel_inv s1"
    unfolding s1_def
    by (rule kernel_inv_thread_upd [OF inv u]) (use p ok nt in \<open>auto simp: thr_ok_def started_def\<close>)
  show "suspended s1 t"
    by (simp add: s1_def suspended_def)
qed

lemma ready_group_nonzero:
  assumes "ready_inv s" "t \<in> set (lists s (Ready p))" "p < 32"
  shows "rt_thread_ready_priority_group s \<noteq> 0"
proof
  assume "rt_thread_ready_priority_group s = 0"
  then have "lists s (Ready p) = []"
    using ready_invD(4) [OF assms(1,3)] by simp
  with assms(2) show False by simp
qed

text \<open>
  Starting an initialised thread: \<^verbatim>\<open>rt_thread_startup\<close> returns \<^verbatim>\<open>RT_EOK\<close>, the
  thread is runnable at its priority with its bitmap mask set, and the kernel
  invariant holds; if it is more urgent than the running thread and the scheduler
  is not locked, it is running when the call switches.
\<close>

theorem thread_startup_runs:
  assumes "kernel_inv s" "stat_of s t = RT_THREAD_INIT" "thread_object_ok s t"
    and "rt_current_thread s = Some c" "c \<noteq> t"
  shows "\<exists>s'. rt_thread_startup t s = Some (RT_EOK, s') \<and> kernel_inv s' \<and> t \<in> runnable s' \<and>
     prio_of s' t = prio_of s t \<and> started (thr s' t)"
proof -
  let ?s1 = "upd_thread t (\<lambda>r. r\<lparr>number_mask := push_bit (unat (current_priority r)) 1,
                                  stat := RT_THREAD_SUSPEND_MASK\<rparr>) s"
  note k1 = kernel_inv_startup [OF assms(1-3)]
  let ?s2 = "resumed t ?s1"
  have k2: "kernel_inv ?s2" and r2: "rt_thread_resume t ?s1 = Some (RT_EOK, ?s2)"
    using kernel_inv_resumed [OF k1] resume_suspended [OF k1] by auto
  have c2: "rt_current_thread ?s2 = Some c"
    using assms(4,5) by (simp add: resumed_def Let_def ready_insert_def tl_remove_def)
  have run2: "t \<in> set (lists ?s2 (Ready (prio_of s t)))" and p2: "prio_of ?s2 t = prio_of s t"
    using assms(4,5) by (auto simp: resumed_def Let_def ready_insert_def tl_remove_def prio_of_def)
  obtain s' where s': "rt_schedule ?s2 = Some s'" "kernel_inv s'" "\<And>u. live s' u = live ?s2 u"
    using kernel_inv_schedule [OF k2 c2] by blast
  have "t \<in> runnable s'"
  proof (cases "rt_scheduler_lock_nest ?s2 = 0")
    case True
    have g: "rt_thread_ready_priority_group ?s2 \<noteq> 0"
      using kernel_invD(2) [OF k2] run2 prio_lt [OF kernel_invD(2) [OF k2], of t]
      unfolding p2 by (rule ready_group_nonzero)
    have "runnable s' = runnable ?s2"
      using schedule_outcome [OF kernel_invD(1) [OF k2] c2 True g] s'(1) by auto
    with run2 show ?thesis by (auto simp: runnable_def)
  next
    case False
    then have "s' = ?s2"
      using rt_schedule_locked [of ?s2] s'(1) by simp
    with run2 show ?thesis by (auto simp: runnable_def)
  qed
  moreover have "prio_of s' t = prio_of s t"
    using stat_only_fields(8) [OF stat_only_schedule [OF s'(1)], of t] p2 by simp
  moreover have "started (thr s' t)"
  proof (rule live_started [OF kernel_invD(2) [OF s'(2)]])
    have "stat_of ?s2 t = RT_THREAD_READY"
      using ready_stat [OF kernel_invD(2) [OF k2] run2] .
    then show "live s' t" using s'(3) by (simp add: live_def)
  qed
  moreover have "rt_thread_startup t s = Some (RT_EOK, s')"
    unfolding rt_thread_startup_def rt_thread_self_def
    using assms(2,3) r2 c2 s'(1) by (simp add: thread_object_ok_def)
  ultimately show ?thesis using s'(2) by auto
qed

theorem thread_startup_runs_witness:
  "\<exists>s'. rt_thread_startup 5 small_system = Some (RT_EOK, s') \<and> kernel_inv s' \<and> 5 \<in> runnable s' \<and>
     prio_of s' 5 = 0"
  using thread_startup_runs [OF kernel_inv_small, of 5 2]
  by (auto simp: small_system_def kernel_reset_def sample_thread_def blank_thread_def stat_of_def prio_of_def
      thread_object_ok_def rt_object_get_type_def soft_def periodic_def timer_flag_def)

end
