(* ===== verification/Ipc.thy ===== *)
theory Ipc
  imports Thread
begin

text \<open>
  The part of \<^verbatim>\<open>src/ipc.c\<close> that all IPC objects share: the list of threads that
  wait on an object, how the running thread joins it and how threads leave it.
  The laws of these lists are the locale \<^verbatim>\<open>wait_list\<close>, interpreted for the lists
  of the kernel with both ways of waking up (with success, and with an error when
  the object goes away).

  \<^verbatim>\<open>sys_inv\<close> is the invariant of a running system between two kernel calls.
\<close>

section \<open>Operations\<close>

definition ipc_object_init :: "list_id \<Rightarrow> kernel \<Rightarrow> kernel" where
  "ipc_object_init l s = s\<lparr>lists := (lists s)(l := [])\<rparr>"

definition ipc_enqueue :: "list_id \<Rightarrow> tid \<Rightarrow> 8 word \<Rightarrow> kernel \<Rightarrow> kernel option" where
  "ipc_enqueue l t flag s =
    (if flag = RT_IPC_FLAG_FIFO then Some (tl_push_back l t s)
     else if flag = RT_IPC_FLAG_PRIO then
       Some (s\<lparr>lists := (lists s)(l :=
          insert_where (\<lambda>u. current_priority (thr s t) < current_priority (thr s u)) t (lists s l))\<rparr>)
     else None)"

definition ipc_list_suspend :: "list_id \<Rightarrow> tid \<Rightarrow> 8 word \<Rightarrow> int \<Rightarrow> kernel \<Rightarrow> (err \<times> kernel) option" where
  "ipc_list_suspend l t flag suspend_flag s = do {
     (ret, s1) \<leftarrow> (if stat (thr s t) AND RT_THREAD_SUSPEND_MASK \<noteq> RT_THREAD_SUSPEND_MASK
                    then rt_thread_suspend_with_flag t suspend_flag s
                    else Some (RT_EOK, s));
     if ret \<noteq> RT_EOK then Some (ret, s1)
     else do {
       s2 \<leftarrow> ipc_enqueue l t flag s1;
       Some (RT_EOK, s2)
     }
   }"

definition ipc_list_resume :: "list_id \<Rightarrow> kernel \<Rightarrow> kernel option" where
  "ipc_list_resume l s = do {
     t \<leftarrow> tl_first l s;
     (_, s1) \<leftarrow> rt_thread_resume t (set_error t RT_EOK s);
     Some s1
   }"

text \<open>
  The loop of \<^verbatim>\<open>_ipc_list_resume_all\<close>.  A round that does not take its thread off
  the list would be repeated for ever, so one round more than there are threads
  is enough fuel to tell the two cases apart.
\<close>

definition resume_failed :: "list_id \<Rightarrow> kernel \<Rightarrow> kernel option" where
  "resume_failed l s = do {
     t \<leftarrow> tl_first l s;
     (_, s1) \<leftarrow> rt_thread_resume t (set_error t (- RT_ERROR) s);
     Some s1
   }"

fun ipc_list_resume_all_loop :: "list_id \<Rightarrow> nat \<Rightarrow> kernel \<Rightarrow> kernel option" where
  "ipc_list_resume_all_loop l 0 s = None"
| "ipc_list_resume_all_loop l (Suc fuel) s =
    (if tl_isempty l s then Some s else Option.bind (resume_failed l s) (ipc_list_resume_all_loop l fuel))"

definition ipc_list_resume_all :: "list_id \<Rightarrow> kernel \<Rightarrow> kernel option" where
  "ipc_list_resume_all l s = ipc_list_resume_all_loop l (Suc (length (lists s l))) s"

section \<open>The interface of a wait list\<close>

locale wait_list =
  fixes inv :: "'s \<Rightarrow> bool" and waiters :: "'s \<Rightarrow> 'a list" and awake :: "'s \<Rightarrow> 'a \<Rightarrow> bool"
    and resume :: "'s \<Rightarrow> 's option" and drain :: "nat \<Rightarrow> 's \<Rightarrow> 's option"
  assumes resume_first: "\<lbrakk>inv s; waiters s = t # ts\<rbrakk>
      \<Longrightarrow> \<exists>s'. resume s = Some s' \<and> inv s' \<and> waiters s' = ts \<and> awake s' t"
    and awake_stays: "\<lbrakk>inv s; waiters s = t # ts; resume s = Some s'; awake s u; u \<noteq> t\<rbrakk> \<Longrightarrow> awake s' u"
    and drain_step: "drain (Suc n) s =
      (if waiters s = [] then Some s else Option.bind (resume s) (drain n))"
begin

lemma drain_all:
  assumes "inv s" "length (waiters s) < n"
  shows "\<exists>s'. drain n s = Some s' \<and> inv s' \<and> waiters s' = [] \<and> (\<forall>t \<in> set (waiters s). awake s' t) \<and>
     (\<forall>u. awake s u \<longrightarrow> awake s' u)"
  using assms
proof (induction n arbitrary: s)
  case (Suc n)
  show ?case
  proof (cases "waiters s")
    case Nil
    with Suc.prems show ?thesis by (simp add: drain_step)
  next
    case (Cons t ts)
    obtain s1 where s1: "resume s = Some s1" "inv s1" "waiters s1 = ts" "awake s1 t"
      using resume_first [OF Suc.prems(1) Cons] by blast
    have old: "awake s1 u" if "awake s u" for u
      using awake_stays [OF Suc.prems(1) Cons s1(1) that] s1(4) by (cases "u = t") auto
    obtain s' where "drain n s1 = Some s'" "inv s'" "waiters s' = []" "\<forall>t \<in> set ts. awake s' t"
      "\<forall>u. awake s1 u \<longrightarrow> awake s' u"
      using Suc.IH [OF s1(2)] Suc.prems(2) Cons s1(3) by auto
    with s1 old Cons show ?thesis by (auto simp: drain_step)
  qed
qed simp

end

section \<open>The invariant of a running system\<close>

definition sys_inv :: "kernel \<Rightarrow> bool" where
  "sys_inv s \<longleftrightarrow> tick_inv s \<and> expired s = {}"

fun wait_id :: "list_id \<Rightarrow> bool" where
  "wait_id (Ready _) \<longleftrightarrow> False"
| "wait_id Defunct \<longleftrightarrow> False"
| "wait_id _ \<longleftrightarrow> True"

lemma wait_id_not_ready [simp]: "wait_id l \<Longrightarrow> l \<noteq> Ready p" "wait_id l \<Longrightarrow> Ready p \<noteq> l"
  by auto

lemma wait_id_fits: "wait_id l \<Longrightarrow> list_fits l r \<longleftrightarrow> stat r AND 4 = 4"
  by (cases l) auto

lemma sys_invD:
  assumes "sys_inv s"
  shows "kernel_inv s" "tick_inv s" "expired s = {}" "\<exists>c. rt_current_thread s = Some c"
  using assms by (auto simp: sys_inv_def tick_inv_def)

lemma waiter_suspended: "kernel_inv s \<Longrightarrow> wait_id l \<Longrightarrow> t \<in> set (lists s l) \<Longrightarrow> suspended s t"
  using ready_invD(3) [OF kernel_invD(2), of s t l] by (simp add: wait_id_fits suspended_def)

lemma sys_inv_cong:
  assumes "sys_inv s" "kernel_inv s'" "timers s' = timers s" "timer_lists s' = timer_lists s" "objs s' = objs s"
    "rt_tick s' = rt_tick s" "rt_current_thread s' \<noteq> None"
  shows "sys_inv s'"
proof -
  have "remaining s' = remaining s"
    using assms by (simp add: remaining_def fun_eq_iff)
  moreover have "hard_timer_ok s' t = hard_timer_ok s t" for t
    using assms by (simp add: hard_timer_ok_def rt_object_get_type_def periodic_def timer_flag_def)
  ultimately show ?thesis
    using assms by (auto simp: sys_inv_def tick_inv_def timer_order_def expired_def)
qed

lemma sys_inv_other [simp]:
  "sys_inv (s\<lparr>sems := x1\<rparr>) = sys_inv s" "sys_inv (s\<lparr>mutexes := x2\<rparr>) = sys_inv s"
  "sys_inv (s\<lparr>events := x3\<rparr>) = sys_inv s" "sys_inv (s\<lparr>mailboxes := x4\<rparr>) = sys_inv s"
  "sys_inv (s\<lparr>mqs := x5\<rparr>) = sys_inv s" "sys_inv (s\<lparr>object_list := x6\<rparr>) = sys_inv s"
  by (simp_all add: sys_inv_def tick_inv_def timer_order_def expired_def remaining_def [abs_def] hard_timer_ok_def)

lemma sys_inv_set_error: "sys_inv s \<Longrightarrow> sys_inv (set_error t e s)"
  using tick_inv_set_error [of s t e] by (simp add: sys_inv_def)

lemma sys_inv_small: "sys_inv small_system"
  using tick_inv_small by (simp add: sys_inv_def expired_def small_system_def kernel_reset_def)

section \<open>Scheduling and the wait lists\<close>

lemma put_back_other_lists [simp]: "\<not> (\<exists>p. l = Ready p) \<Longrightarrow> lists (put_back c s) l = lists s l"
  by (auto simp: put_back_def ready_insert_def Let_def)

lemma in_ready_only:
  assumes "ready_inv s" "t \<in> set (lists s (Ready p))" "l \<noteq> Ready p"
  shows "t \<notin> set (lists s l)"
  using ready_invD(1) [OF assms(1)] assms(2,3) unfolding family_ok_def by blast

lemma schedule_wait_lists:
  assumes inv: "sched_inv s" and c: "rt_current_thread s = Some c" and s': "rt_schedule s = Some s'"
    and l: "\<not> (\<exists>p. l = Ready p)"
  shows "lists s' l = lists s l"
  using inv c
proof (cases rule: rt_schedule_cases)
  case idle
  with s' show ?thesis by simp
next
  case (keep t p)
  with s' show ?thesis by auto
next
  case (preempt t p ts)
  have "t \<notin> set (lists s l)"
    by (rule in_ready_only [of s t p]) (use inv preempt(1) l in \<open>auto simp: sched_inv_def\<close>)
  with preempt s' l show ?thesis
    by (auto simp: switch_to_def family_remove_def removeAll_notin)
next
  case (leave t p ts)
  have "t \<notin> set (lists s l)"
    by (rule in_ready_only [of s t p]) (use inv leave(1) l in \<open>auto simp: sched_inv_def\<close>)
  with leave s' l show ?thesis
    by (auto simp: switch_to_def family_remove_def removeAll_notin)
qed

section \<open>What the waiting and waking of threads leaves alone\<close>

definition ipc_frame :: "kernel \<Rightarrow> kernel \<Rightarrow> bool" where
  "ipc_frame s s' \<longleftrightarrow> sems s' = sems s \<and> mutexes s' = mutexes s \<and> events s' = events s \<and>
     mailboxes s' = mailboxes s \<and> mqs s' = mqs s \<and> object_list s' = object_list s \<and>
     (\<forall>a. rt_object_get_type a s' = rt_object_get_type a s) \<and>
     (\<forall>a. (\<forall>t. a \<noteq> OTimer t) \<longrightarrow> objs s' a = objs s a) \<and> rt_tick s' = rt_tick s \<and>
     rt_scheduler_lock_nest s' = rt_scheduler_lock_nest s \<and> lwp_pending s' = lwp_pending s"

lemma ipc_frame_refl [simp]: "ipc_frame s s"
  by (simp add: ipc_frame_def)

lemma ipc_frame_trans: "ipc_frame s s' \<Longrightarrow> ipc_frame s' s'' \<Longrightarrow> ipc_frame s s''"
  by (simp add: ipc_frame_def)

lemma ipc_frameD:
  assumes "ipc_frame s s'"
  shows "sems s' = sems s" "mutexes s' = mutexes s" "events s' = events s" "mailboxes s' = mailboxes s"
    "mqs s' = mqs s" "object_list s' = object_list s" "rt_object_get_type a s' = rt_object_get_type a s"
    "objs s' (OSem n) = objs s (OSem n)" "objs s' (OMutex n) = objs s (OMutex n)"
    "objs s' (OEvent n) = objs s (OEvent n)" "objs s' (OMailbox n) = objs s (OMailbox n)"
    "objs s' (OMq n) = objs s (OMq n)" "objs s' (OThread n) = objs s (OThread n)" "rt_tick s' = rt_tick s"
    "rt_scheduler_lock_nest s' = rt_scheduler_lock_nest s"
  using assms by (simp_all add: ipc_frame_def)

lemma ipc_frame_rest:
  "rest s' = rest s \<Longrightarrow> rt_scheduler_lock_nest s' = rt_scheduler_lock_nest s \<Longrightarrow> ipc_frame s s'"
  using same_rest_fields [of s s'] by (simp add: same_rest_def ipc_frame_def rt_object_get_type_def)

lemma ipc_frame_upd [simp]:
  "ipc_frame s (s\<lparr>threads := x\<rparr>)" "ipc_frame s (s\<lparr>lists := y\<rparr>)" "ipc_frame s (set_error t e s)"
  by (rule ipc_frame_rest, simp_all)+

lemma ipc_frame_timer_off [simp]: "ipc_frame s (timer_off t s)"
  by (simp add: ipc_frame_def) (auto simp: timer_off_def timer_clear_def tm_remove_def)

lemma ipc_frame_armed [simp]: "ipc_frame s (armed t n s)"
  by (simp add: ipc_frame_def) (auto simp: armed_def timer_on_def Let_def timer_set_def timer_clear_def tm_remove_def)

lemma ipc_frame_suspended_self [simp]: "ipc_frame s (suspended_self t flag s)"
  unfolding suspended_self_def
  by (rule ipc_frame_trans [OF _ ipc_frame_timer_off]) simp

lemma ipc_frame_resumed [simp]: "ipc_frame s (resumed t s)"
proof -
  have "ipc_frame s (timer_off (ThreadTimer t) (tl_remove t s))"
    by (rule ipc_frame_trans [OF _ ipc_frame_timer_off]) (simp add: tl_remove_def)
  then show ?thesis
    unfolding resumed_def Let_def
    by (auto intro!: ipc_frame_rest elim!: ipc_frame_trans simp: tl_remove_def ready_insert_def Let_def rest_def)
qed

section \<open>Scheduling, as the IPC calls see it\<close>

definition sched_to :: "kernel \<Rightarrow> kernel \<Rightarrow> bool" where
  "sched_to s s' \<longleftrightarrow> rest s' = rest s \<and> ipc_frame s s' \<and> stat_only s s' \<and> runnable s' = runnable s \<and>
     (\<forall>l. (\<forall>p. l \<noteq> Ready p) \<longrightarrow> lists s' l = lists s l) \<and>
     (\<forall>u. live s' u = live s u \<and> suspended s' u = suspended s u)"

lemma runnable_schedule:
  assumes inv: "sched_inv s" and c: "rt_current_thread s = Some c" and s': "rt_schedule s = Some s'"
  shows "runnable s' = runnable s"
proof (cases "rt_scheduler_lock_nest s \<noteq> 0 \<or> rt_thread_ready_priority_group s = 0")
  case True
  then have "s' = s" using rt_schedule_locked [of s] s' by auto
  then show ?thesis by simp
next
  case False
  with schedule_outcome [OF inv c] s' show ?thesis by auto
qed

lemma sys_schedule:
  assumes "sys_inv s"
  obtains s' where "rt_schedule s = Some s'" "sys_inv s'" "sched_to s s'"
proof -
  note k = sys_invD [OF assms]
  obtain c where c: "rt_current_thread s = Some c" using k(4) by blast
  obtain s' where s': "rt_schedule s = Some s'" "kernel_inv s'" "rest s' = rest s"
    "\<And>u. live s' u = live s u \<and> suspended s' u = suspended s u" "rt_current_thread s' \<noteq> None"
    using kernel_inv_schedule [OF k(1) c] by auto
  have "sys_inv s'"
    using tick_inv_sched_step [OF k(2) s'(2,3,5)] k(3) by (simp add: sys_inv_def)
  moreover have "sched_to s s'"
    unfolding sched_to_def
    using s' schedule_keeps [OF s'(1)] stat_only_schedule [OF s'(1)] kernel_invD(1) [OF k(1)] c
      runnable_schedule [of s c s'] schedule_wait_lists [of s c s']
    by (auto intro: ipc_frame_rest)
  ultimately show thesis using that s'(1) by blast
qed

lemma sched_toD:
  assumes "sched_to s s'"
  shows "ipc_frame s s'" "stat_only s s'" "runnable s' = runnable s" "wait_id l \<Longrightarrow> lists s' l = lists s l"
    "suspended s' u = suspended s u" "live s' u = live s u" "timer_lists s' = timer_lists s"
    "remaining s' v = remaining s v" "lists s' Defunct = lists s Defunct"
  using assms thread_timer_member_rest [of s' s] by (auto simp: sched_to_def)

section \<open>Joining a wait list\<close>

text \<open>
  The place of a thread in a wait list.  IPC objects have one of the two flags of \<^verbatim>\<open>rtdef.h\<close>; the
  third value stands for the lists whose users insert at the head (memory pools).
\<close>

abbreviation (input) WAIT_FRONT :: "8 word" where "WAIT_FRONT \<equiv> 0xff"

definition wait_order :: "8 word \<Rightarrow> kernel \<Rightarrow> tid \<Rightarrow> tid list \<Rightarrow> tid list" where
  "wait_order flag s t ts =
    (if flag = RT_IPC_FLAG_FIFO then ts @ [t]
     else if flag = WAIT_FRONT then t # ts
     else insert_where (\<lambda>u. current_priority (thr s t) < current_priority (thr s u)) t ts)"

definition enqueued :: "list_id \<Rightarrow> tid \<Rightarrow> 8 word \<Rightarrow> kernel \<Rightarrow> kernel" where
  "enqueued l t flag s = s\<lparr>lists := (lists s)(l := wait_order flag s t (lists s l))\<rparr>"

lemma set_wait_order [simp]: "set (wait_order flag s t ts) = insert t (set ts)"
  by (auto simp: wait_order_def)

lemma distinct_wait_order [simp]: "distinct (wait_order flag s t ts) \<longleftrightarrow> t \<notin> set ts \<and> distinct ts"
  by (auto simp: wait_order_def)

lemma ipc_enqueue_eq:
  "flag = RT_IPC_FLAG_FIFO \<or> flag = RT_IPC_FLAG_PRIO \<Longrightarrow> ipc_enqueue l t flag s = Some (enqueued l t flag s)"
  by (auto simp: ipc_enqueue_def enqueued_def wait_order_def tl_push_back_def)

lemma kernel_inv_enqueued:
  assumes "kernel_inv s" "suspended s t" "unlinked t (lists s)" "wait_id l"
  shows "kernel_inv (enqueued l t flag s)"
proof -
  have "distinct (lists s l)" "t \<notin> set (lists s l)"
    using ready_invD(1) [OF kernel_invD(2) [OF assms(1)]] assms(3) unfolding family_ok_def unlinked_def by blast+
  then have "ready_inv (s\<lparr>lists := (lists s)(l := wait_order flag s t (lists s l)),
        rt_thread_ready_priority_group := rt_thread_ready_priority_group s\<rparr>)"
    using assms wait_id_fits [OF assms(4)]
    by (intro ready_inv_link [OF kernel_invD(2) [OF assms(1)]]) (auto simp: suspended_def)
  then have "ready_inv (enqueued l t flag s)"
    by (simp add: enqueued_def)
  moreover have "cur_inv (enqueued l t flag s) = cur_inv s"
    by (rule cur_inv_cong) (simp_all add: enqueued_def)
  moreover have "timer_inv (enqueued l t flag s) = timer_inv s"
    by (rule timer_inv_cong) (simp_all add: enqueued_def)
  moreover have "thread_inv (enqueued l t flag s) = thread_inv s"
    by (simp add: enqueued_def thread_inv_def live_def suspended_def stat_of_def
        thread_object_ok_def rt_object_get_type_def soft_def periodic_def timer_flag_def)
  ultimately show ?thesis
    using assms(1) by (simp add: kernel_inv_def sched_inv_def)
qed

lemma enqueued_frame [simp]:
  "threads (enqueued l t flag s) = threads s" "timer_lists (enqueued l t flag s) = timer_lists s"
  "rt_current_thread (enqueued l t flag s) = rt_current_thread s" "rest (enqueued l t flag s) = rest s"
  "suspended (enqueued l t flag s) u = suspended s u" "live (enqueued l t flag s) u = live s u"
  "stat_of (enqueued l t flag s) u = stat_of s u" "ipc_frame s (enqueued l t flag s)"
  "timers (enqueued l t flag s) = timers s" "objs (enqueued l t flag s) = objs s" "rt_tick (enqueued l t flag s) = rt_tick s"
  by (simp_all add: enqueued_def suspended_def live_def stat_of_def)

lemma sys_inv_enqueued:
  assumes "sys_inv s" "suspended s t" "unlinked t (lists s)" "wait_id l"
  shows "sys_inv (enqueued l t flag s)"
  using sys_invD(4) [OF assms(1)]
  by (intro sys_inv_cong [OF assms(1) kernel_inv_enqueued [OF sys_invD(1) [OF assms(1)] assms(2-4)]]) auto

text \<open>What a call that waits on list \<open>l\<close> for at most \<open>n\<close> ticks (for ever when \<open>n\<close> is negative) leaves behind.\<close>

definition blocked_on :: "list_id \<Rightarrow> tid \<Rightarrow> 8 word \<Rightarrow> int \<Rightarrow> kernel \<Rightarrow> kernel \<Rightarrow> bool" where
  "blocked_on l t flag n s s' \<longleftrightarrow> sys_inv s' \<and> ipc_frame s s' \<and> stat_only s s' \<and> suspended s' t \<and>
     runnable s' = runnable s - {t} \<and>
     lists s' l = wait_order flag s t (lists s l) \<and>
     (\<forall>k. wait_id k \<longrightarrow> k \<noteq> l \<longrightarrow> lists s' k = lists s k) \<and>
     (if 0 < n then ThreadTimer t \<in> set (timer_lists s' HardTimers) \<and> remaining s' (ThreadTimer t) = nat n
      else ThreadTimer t \<notin> set (timer_lists s' HardTimers))"

lemma timeout_word:
  assumes "0 < n" "n < 0x7fffffff"
  shows "word_of_int n < (0x7fffffff :: 32 word)" "unat (word_of_int n :: 32 word) = nat n"
    "word_of_int n \<noteq> (0 :: 32 word)"
proof -
  have u: "uint (word_of_int n :: 32 word) = n"
    using assms by (simp add: uint_word_of_int)
  then show "unat (word_of_int n :: 32 word) = nat n" by (simp flip: nat_uint_eq)
  then show "word_of_int n < (0x7fffffff :: 32 word)" using assms by (simp add: unat_lt_nat)
  show "word_of_int n \<noteq> (0 :: 32 word)" using u assms(1) by force
qed

lemma stat_only_suspended_self: "stat_only s (suspended_self t flag s)"
  by (simp add: stat_only_def suspended_self_def set_stat_def)

lemma stat_only_same_threads: "threads s' = threads s \<Longrightarrow> stat_only s s'"
  by (simp add: stat_only_def)

lemma runnable_suspended_self:
  assumes "sched_inv s" "rt_current_thread s = Some t" "stat_of s t = RT_THREAD_RUNNING"
  shows "runnable (suspended_self t flag s) = runnable s - {t}"
proof -
  have "unlinked t (lists s)" using unlinked_current [OF assms] .
  then show ?thesis
    using assms(2,3) by (auto simp: runnable_def suspended_self_def stat_of_def unlinked_def)
qed

lemma runnable_cong:
  "\<lbrakk>rt_current_thread s' = rt_current_thread s; \<And>p. lists s' (Ready p) = lists s (Ready p);
    threads s' = threads s\<rbrakk> \<Longrightarrow> runnable s' = runnable s"
  by (simp add: runnable_def stat_of_def)

lemma wait_order_stat_only: "stat_only s s' \<Longrightarrow> wait_order flag s' t ts = wait_order flag s t ts"
  by (simp add: wait_order_def stat_only_fields(2))

lemma sys_inv_suspended_self:
  assumes "sys_inv s" "rt_current_thread s = Some t" "stat_of s t = RT_THREAD_RUNNING"
  shows "sys_inv (suspended_self t flag s)"
  using tick_inv_suspended_self [OF sys_invD(2) [OF assms(1)] assms(2,3)] sys_invD(3) [OF assms(1)]
  by (simp add: sys_inv_def)

lemma ipc_suspend_eq:
  assumes inv: "sys_inv s" and t: "rt_current_thread s = Some t" "stat_of s t = RT_THREAD_RUNNING"
    and flags: "flag = RT_IPC_FLAG_FIFO \<or> flag = RT_IPC_FLAG_PRIO" "sflag \<in> suspend_flags"
    and chk: "lwp_thread_signal_suspend_check t sflag s = Some k" and l: "wait_id l"
  shows "ipc_list_suspend l t flag sflag s =
     (if k = 0 then Some (- RT_EINTR, s) else Some (RT_EOK, enqueued l t flag (suspended_self t sflag s)))"
proof -
  have k: "kernel_inv s" by (rule sys_invD(1) [OF inv])
  have ty: "rt_object_get_type (OThread t) s = RT_Object_Class_Thread"
    using kernel_invD(6) [OF k running_live [OF t(2)]] by (simp add: thread_object_ok_def)
  have ns: "stat (thr s t) AND 4 \<noteq> 4"
    using ready_not_suspended(2) [of "stat (thr s t)"] t(2) by (simp add: stat_of_def)
  have "rt_thread_suspend_with_flag t sflag s = (if k = 0 then Some (- RT_EINTR, s) else Some (RT_EOK, suspended_self t sflag s))"
    using suspend_self [OF k t flags(2) chk] ty t chk by (simp add: rt_thread_suspend_with_flag_def)
  then show ?thesis
    using ns ipc_enqueue_eq [OF flags(1)] by (simp add: ipc_list_suspend_def)
qed

lemma ipc_block:
  assumes inv: "sys_inv s" and t: "rt_current_thread s = Some t" "stat_of s t = RT_THREAD_RUNNING"
    and l: "wait_id l" and n: "n < 0x7fffffff"
  obtains s2 s3 where
    "(if 0 < n then arm_timer t (word_of_int n) (enqueued l t flag (suspended_self t sflag s))
      else Some (enqueued l t flag (suspended_self t sflag s))) = Some s2"
    "rt_schedule s2 = Some s3" "blocked_on l t flag n s s3"
proof -
  let ?s0 = "suspended_self t sflag s"
  let ?s1 = "enqueued l t flag ?s0"
  let ?w = "word_of_int n :: 32 word"
  let ?s2 = "if 0 < n then armed t ?w ?s1 else ?s1"
  note ok0 = suspended_self_ok [OF sys_invD(1) [OF inv] t, of sflag]
  have i1: "sys_inv ?s1"
    by (rule sys_inv_enqueued [OF sys_inv_suspended_self [OF inv t] ok0(3,2) l])
  have su1: "suspended ?s1 t" using ok0(3) by simp
  have arm: "(if 0 < n then arm_timer t ?w ?s1 else Some ?s1) = Some ?s2"
    using arm_timer_eq [OF kernel_invD(6) [OF sys_invD(1) [OF i1] suspended_live [OF su1]]] timeout_word(1) n by simp
  have i2: "sys_inv ?s2"
  proof (cases "0 < n")
    case True
    note tw = timeout_word [OF True n]
    show ?thesis
      using True tick_inv_armed [OF sys_invD(2) [OF i1] su1 tw(1)] tw(3) sys_invD(3) [OF i1]
      by (simp add: sys_inv_def)
  qed (use i1 in simp)
  obtain s3 where s3: "rt_schedule ?s2 = Some s3" "sys_inv s3" "sched_to ?s2 s3"
    using sys_schedule [OF i2] .
  note st = sched_toD [OF s3(3)]
  have th2: "threads ?s2 = threads ?s0" "lists ?s2 = lists ?s1" "rt_current_thread ?s2 = rt_current_thread ?s0"
    by simp_all
  have so: "stat_only s s3"
    using stat_only_trans [OF stat_only_suspended_self stat_only_trans [OF stat_only_same_threads [OF th2(1)] st(2)]] .
  have fr: "ipc_frame s s3"
    by (rule ipc_frame_trans [OF ipc_frame_suspended_self [of s t sflag] ipc_frame_trans [OF _ st(1)]])
       (use ipc_frame_trans [OF enqueued_frame(8) ipc_frame_armed] in simp)
  have lists0: "lists ?s0 = lists s"
    by (simp add: suspended_self_def)
  have ls: "lists s3 l = wait_order flag s t (lists s l)" "wait_id k \<Longrightarrow> k \<noteq> l \<Longrightarrow> lists s3 k = lists s k" for k
    using st(4) l th2(2) lists0 wait_order_stat_only [OF stat_only_suspended_self]
    by (simp_all add: enqueued_def)
  have run: "runnable s3 = runnable s - {t}"
    using st(3) runnable_cong [of ?s2 ?s0] runnable_suspended_self [OF kernel_invD(1) [OF sys_invD(1) [OF inv]] t]
      l th2 by (simp add: enqueued_def)
  have tm: "if 0 < n then ThreadTimer t \<in> set (timer_lists s3 HardTimers) \<and> remaining s3 (ThreadTimer t) = nat n
      else ThreadTimer t \<notin> set (timer_lists s3 HardTimers)"
    using st(7,8) ok0(5) timeout_word(2) [of n] n by (simp add: armed_timer)
  have "suspended s3 t" using st(5) [of t] su1 by simp
  with s3(2) so fr ls run tm have "blocked_on l t flag n s s3"
    by (simp add: blocked_on_def)
  with arm s3(1) that show thesis by blast
qed

lemma set_error_fields [simp]:
  "current_priority (thr (set_error t e s) u) = current_priority (thr s u)"
  "event_set (thr (set_error t e s) u) = event_set (thr s u)"
  "event_info (thr (set_error t e s) u) = event_info (thr s u)"
  "pending_object (thr (set_error t e s) u) = pending_object (thr s u)"
  "taken_object_list (thr (set_error t e s) u) = taken_object_list (thr s u)"
  "init_priority (thr (set_error t e s) u) = init_priority (thr s u)"
  by (simp_all add: set_error_def)

lemma runnable_set_error [simp]: "runnable (set_error t e s) = runnable s"
  by (simp add: runnable_def)

lemma wait_order_set_error [simp]: "wait_order flag (set_error t e s) u ts = wait_order flag s u ts"
  by (simp add: wait_order_def)

lemma blocked_onD:
  assumes "blocked_on l t flag m s s'"
  shows "sys_inv s'" "ipc_frame s s'" "suspended s' t" "lists s' l = wait_order flag s t (lists s l)"
    "thr_error (thr s' u) = thr_error (thr s u)" "prio_of s' u = prio_of s u" "runnable s' = runnable s - {t}"
    "wait_id k \<Longrightarrow> k \<noteq> l \<Longrightarrow> lists s' k = lists s k"
    "0 < m \<Longrightarrow> ThreadTimer t \<in> set (timer_lists s' HardTimers) \<and> remaining s' (ThreadTimer t) = nat m"
  using assms stat_only_fields [of s s'] by (auto simp: blocked_on_def)

section \<open>Leaving a wait list\<close>

definition quiet :: "kernel \<Rightarrow> kernel \<Rightarrow> bool" where
  "quiet s s' \<longleftrightarrow> (\<forall>u. (thr s' u)\<lparr>stat := 0, wakeup_func := None\<rparr> = (thr s u)\<lparr>stat := 0, wakeup_func := None\<rparr>)"

lemma quiet_refl [simp]: "quiet s s"
  by (simp add: quiet_def)

lemma quiet_trans: "quiet s s' \<Longrightarrow> quiet s' s'' \<Longrightarrow> quiet s s''"
  by (simp add: quiet_def)

lemma quiet_stat_only: "stat_only s s' \<Longrightarrow> quiet s s'"
  unfolding stat_only_def quiet_def
proof
  fix u
  assume "\<forall>u. (thr s' u)\<lparr>stat := 0\<rparr> = (thr s u)\<lparr>stat := 0\<rparr>"
  then have "(thr s' u)\<lparr>stat := 0\<rparr>\<lparr>wakeup_func := None\<rparr> = (thr s u)\<lparr>stat := 0\<rparr>\<lparr>wakeup_func := None\<rparr>"
    by simp
  then show "(thr s' u)\<lparr>stat := 0, wakeup_func := None\<rparr> = (thr s u)\<lparr>stat := 0, wakeup_func := None\<rparr>" .
qed

lemma quiet_upd_fields: "r\<lparr>stat := 0, wakeup_func := None\<rparr> = r'\<lparr>stat := 0, wakeup_func := None\<rparr> \<Longrightarrow>
    thr_error r = thr_error r' \<and> current_priority r = current_priority r' \<and>
    taken_object_list r = taken_object_list r' \<and> pending_object r = pending_object r' \<and>
    event_set r = event_set r' \<and> event_info r = event_info r' \<and> init_priority r = init_priority r' \<and>
    sigq_pending r = sigq_pending r' \<and> lwp r = lwp r' \<and> number_mask r = number_mask r'"
  by (cases r; cases r') simp

lemma quietD:
  assumes "quiet s s'"
  shows "thr_error (thr s' u) = thr_error (thr s u)" "current_priority (thr s' u) = current_priority (thr s u)"
    "taken_object_list (thr s' u) = taken_object_list (thr s u)"
    "pending_object (thr s' u) = pending_object (thr s u)" "event_set (thr s' u) = event_set (thr s u)"
    "event_info (thr s' u) = event_info (thr s u)" "init_priority (thr s' u) = init_priority (thr s u)"
    "prio_of s' u = prio_of s u"
  using assms quiet_upd_fields [of "thr s' u" "thr s u"] by (simp_all add: quiet_def prio_of_def)

definition woken :: "list_id \<Rightarrow> tid \<Rightarrow> err \<Rightarrow> kernel \<Rightarrow> kernel \<Rightarrow> bool" where
  "woken l t e s s' \<longleftrightarrow> sys_inv s' \<and> ipc_frame s s' \<and> quiet (set_error t e s) s' \<and>
     runnable s' = insert t (runnable s) \<and>
     (\<forall>k. wait_id k \<longrightarrow> lists s' k = (if k = l then tl (lists s l) else lists s k))"

lemma thr_resumed: "(thr (resumed t s) u)\<lparr>stat := 0, wakeup_func := None\<rparr> = (thr s u)\<lparr>stat := 0, wakeup_func := None\<rparr>"
  by (simp add: resumed_def Let_def ready_insert_def tl_remove_def set_stat_def)

lemma quiet_resumed: "quiet s (resumed t s)"
  by (simp add: quiet_def thr_resumed)

lemma lists_resumed: "wait_id l \<Longrightarrow> lists (resumed t s) l = removeAll t (lists s l)"
  by (auto simp: resumed_def Let_def ready_insert_def tl_remove_def family_remove_def)

lemma ready_insert_set:
  "(\<exists>p. u \<in> set (lists (ready_insert t s) (Ready p))) \<longleftrightarrow> u = t \<or> (\<exists>p. u \<in> set (lists s (Ready p)))"
proof -
  have "set (lists (ready_insert t s) (Ready p)) = set (lists s (Ready p)) \<union> (if p = prio_of s t then {t} else {})" for p
    by (simp add: ready_insert_def Let_def)
  then show ?thesis by (auto split: if_splits intro: exI [of _ "prio_of s t"]) metis
qed

lemma runnable_resumed:
  assumes "kernel_inv s" "suspended s t"
  shows "runnable (resumed t s) = insert t (runnable s)"
proof -
  let ?s1 = "upd_thread t (\<lambda>r. r\<lparr>wakeup_func := None\<rparr>) (timer_off (ThreadTimer t) (tl_remove t s))"
  have "t \<notin> set (lists s (Ready p))" for p
    using ready_stat [OF kernel_invD(2) [OF assms(1)], of t p] assms(2) suspended_not_ready(3) [of "stat (thr s t)"]
    by (auto simp: suspended_def stat_of_def)
  then have ls: "lists ?s1 (Ready p) = lists s (Ready p)" for p
    by (simp add: tl_remove_def family_remove_def removeAll_notin)
  have cur: "rt_current_thread ?s1 = rt_current_thread s" "u \<noteq> t \<Longrightarrow> stat_of ?s1 u = stat_of s u" for u
    by (simp_all add: tl_remove_def stat_of_def)
  show ?thesis
  proof (cases "rt_current_thread s = Some t")
    case True
    then show ?thesis
      using ls cur by (auto simp: runnable_def resumed_def stat_of_def)
  next
    case False
    have "rt_current_thread (ready_insert t ?s1) = rt_current_thread s"
      "u \<noteq> t \<Longrightarrow> stat_of (ready_insert t ?s1) u = stat_of s u" for u
      using cur by (simp_all add: ready_insert_def Let_def stat_of_def)
    then show ?thesis
      using False ls unfolding resumed_def Let_def runnable_def
      by (simp only: ready_insert_set if_False) fastforce
  qed
qed

lemma tick_inv_resumed:
  assumes "sys_inv s" "suspended s t" shows "sys_inv (resumed t s)"
proof -
  let ?s1 = "timer_off (ThreadTimer t) (tl_remove t s)"
  have k1: "kernel_inv (tl_remove t s)"
    using kernel_inv_tl_remove [OF sys_invD(1) [OF assms(1)] assms(2)] .
  have "sys_inv (tl_remove t s)"
    by (rule sys_inv_cong [OF assms(1) k1]) (use sys_invD(4) [OF assms(1)] in \<open>auto simp: tl_remove_def\<close>)
  then have i1: "sys_inv ?s1"
    using tick_inv_off [of "tl_remove t s" "ThreadTimer t"] by (auto simp: sys_inv_def)
  show ?thesis
    by (rule sys_inv_cong [OF i1 kernel_inv_resumed [OF sys_invD(1) [OF assms(1)] assms(2)]])
       (use sys_invD(4) [OF i1] in \<open>auto simp: resumed_def Let_def ready_insert_def tl_remove_def\<close>)
qed

lemma resume_front:
  assumes inv: "sys_inv s" and l: "wait_id l" "lists s l = t # ts"
  shows "\<exists>s'. rt_thread_resume t (set_error t e s) = Some (RT_EOK, s') \<and> woken l t e s s'"
proof -
  let ?s0 = "set_error t e s"
  let ?s' = "resumed t ?s0"
  have i0: "sys_inv ?s0" by (rule sys_inv_set_error [OF inv])
  have su: "suspended ?s0 t"
    using waiter_suspended [OF sys_invD(1) [OF inv] l(1), of t] l(2) by simp
  have fam: "family_ok (lists s)"
    using ready_invD(1) [OF kernel_invD(2) [OF sys_invD(1) [OF inv]]] .
  have d: "distinct (t # ts)" "k \<noteq> l \<Longrightarrow> t \<notin> set (lists s k)" for k
    using fam l(2) unfolding family_ok_def by (metis list.set_intros(1))+
  have "lists ?s' k = (if k = l then tl (lists s l) else lists s k)" if "wait_id k" for k
    using lists_resumed [OF that, of t ?s0] l(2) removeAll_hd [OF d(1)] d(2) [of k] by simp
  moreover have "runnable ?s' = insert t (runnable s)"
    using runnable_resumed [OF sys_invD(1) [OF i0] su] by (simp add: runnable_def)
  moreover have "ipc_frame s ?s'"
    by (rule ipc_frame_trans [OF ipc_frame_upd(3) ipc_frame_resumed])
  ultimately have "woken l t e s ?s'"
    using tick_inv_resumed [OF i0 su] quiet_resumed [of ?s0 t] by (simp add: woken_def)
  then show ?thesis
    using resume_suspended [OF sys_invD(1) [OF i0] su] by blast
qed

lemma wokenD:
  assumes "woken l t e s s'"
  shows "sys_inv s'" "ipc_frame s s'" "runnable s' = insert t (runnable s)"
    "wait_id l \<Longrightarrow> lists s' l = tl (lists s l)" "wait_id k \<Longrightarrow> k \<noteq> l \<Longrightarrow> lists s' k = lists s k"
    "thr_error (thr s' t) = e" "u \<noteq> t \<Longrightarrow> thr_error (thr s' u) = thr_error (thr s u)"
    "prio_of s' u = prio_of s u"
  using assms quietD(1,8) [of "set_error t e s" s'] by (auto simp: woken_def)

lemma woken_sched:
  assumes "woken l t e s s1" "sched_to s1 s2" "sys_inv s2"
  shows "woken l t e s s2"
  using assms sched_toD [OF assms(2)]
    ipc_frame_trans [of s s1 s2] quiet_trans [OF _ quiet_stat_only, of "set_error t e s" s1 s2]
  by (auto simp: woken_def)

text \<open>What waking every thread of list \<open>l\<close> keeps, relative to the state \<open>s0\<close> it starts in.\<close>

definition drain_inv :: "list_id \<Rightarrow> kernel \<Rightarrow> kernel \<Rightarrow> bool" where
  "drain_inv l s0 s \<longleftrightarrow> sys_inv s \<and> wait_id l \<and> ipc_frame s0 s \<and>
     (\<forall>k. wait_id k \<longrightarrow> k \<noteq> l \<longrightarrow> lists s k = lists s0 k) \<and> set (lists s l) \<subseteq> set (lists s0 l) \<and>
     (\<forall>u. prio_of s u = prio_of s0 u) \<and>
     (\<forall>u. u \<notin> set (lists s0 l) \<longrightarrow> thr_error (thr s u) = thr_error (thr s0 u)) \<and> runnable s0 \<subseteq> runnable s"

lemma drain_inv_woken:
  assumes "drain_inv l s0 s" "lists s l = t # ts" "woken l t e s s'"
  shows "drain_inv l s0 s'"
proof -
  note w = wokenD [OF assms(3)]
  have t: "t \<in> set (lists s0 l)"
    using assms(1,2) by (auto simp: drain_inv_def)
  have "thr_error (thr s' u) = thr_error (thr s0 u)" if "u \<notin> set (lists s0 l)" for u
    using w(7) [of u] that t assms(1) by (auto simp: drain_inv_def)
  then show ?thesis
    using assms(1,2) w ipc_frame_trans [of s0 s s'] by (auto simp: drain_inv_def)
qed

interpretation wake: wait_list "drain_inv l s0" "\<lambda>s. lists s l"
  "\<lambda>s t. t \<in> runnable s \<and> thr_error (thr s t) = - RT_ERROR" "resume_failed l" "ipc_list_resume_all_loop l" for l s0
proof
  fix s t ts
  assume a: "drain_inv l s0 s" "lists s l = t # ts"
  obtain s' where s': "rt_thread_resume t (set_error t (- RT_ERROR) s) = Some (RT_EOK, s')"
    "woken l t (- RT_ERROR) s s'"
    using resume_front [of s l t ts "- RT_ERROR"] a by (auto simp: drain_inv_def)
  then have eq: "resume_failed l s = Some s'"
    using a(2) by (simp add: resume_failed_def tl_first_def)
  have w: "lists s' l = ts"
    using wokenD(4) [OF s'(2)] a by (simp add: drain_inv_def)
  show "\<exists>s'. resume_failed l s = Some s' \<and> drain_inv l s0 s' \<and> lists s' l = ts \<and>
      t \<in> runnable s' \<and> thr_error (thr s' t) = - RT_ERROR"
    using eq w drain_inv_woken [OF a s'(2)] wokenD [OF s'(2)] by auto
  show "u \<in> runnable s'' \<and> thr_error (thr s'' u) = - RT_ERROR"
    if "resume_failed l s = Some s''" "u \<in> runnable s \<and> thr_error (thr s u) = - RT_ERROR" "u \<noteq> t" for s'' u
    using that eq wokenD [OF s'(2)] by auto
qed (simp add: tl_isempty_def)

lemma resume_all:
  assumes "sys_inv s" "wait_id l"
  obtains s' where "ipc_list_resume_all l s = Some s'" "drain_inv l s s'" "lists s' l = []"
    "\<And>t. t \<in> set (lists s l) \<Longrightarrow> t \<in> runnable s' \<and> thr_error (thr s' t) = - RT_ERROR"
proof -
  have "drain_inv l s s"
    using assms by (simp add: drain_inv_def)
  from wake.drain_all [OF this, of "Suc (length (lists s l))"] that show thesis
    by (auto simp: ipc_list_resume_all_def simp del: ipc_list_resume_all_loop.simps)
qed

section \<open>Objects that leave the system\<close>

lemma sys_inv_obj:
  assumes "\<And>t. a \<noteq> OThread t" "\<And>t. a \<noteq> OTimer t"
  shows "sys_inv (upd_obj a f s) = sys_inv s"
proof -
  have n: "OThread t \<noteq> a" "OTimer u \<noteq> a" for t u using assms by metis+
  have "active (upd_obj a f s) = active s" "soft (upd_obj a f s) = soft s" "periodic (upd_obj a f s) = periodic s"
    "rt_object_get_type (OThread t) (upd_obj a f s) = rt_object_get_type (OThread t) s"
    "rt_object_get_type (OTimer u) (upd_obj a f s) = rt_object_get_type (OTimer u) s" for t u
    using n by (simp_all add: active_def soft_def periodic_def timer_flag_def rt_object_get_type_def fun_eq_iff)
  then show ?thesis
    by (simp add: sys_inv_def tick_inv_def kernel_inv_def timer_inv_def thread_inv_def thread_object_ok_def
        hard_timer_ok_def timer_order_def expired_def remaining_def [abs_def])
qed

lemma sys_inv_detach:
  assumes "\<And>t. a \<noteq> OThread t" "\<And>t. a \<noteq> OTimer t"
  shows "sys_inv (rt_object_detach a s) = sys_inv s" "lists (rt_object_detach a s) = lists s"
    "threads (rt_object_detach a s) = threads s" "runnable (rt_object_detach a s) = runnable s"
  using sys_inv_obj [OF assms, of "\<lambda>r. r\<lparr>obj_type := 0\<rparr>" s]
  by (simp_all add: rt_object_detach_def obj_unlink_def runnable_def stat_of_def)

section \<open>Counted contents\<close>

text \<open>
  An object that holds tokens up to a capacity, and a negative number of them while threads wait for
  tokens: a successful \<open>put\<close> raises and a successful \<open>get\<close> lowers the number by one.  \<open>run_ops\<close> counts the successful calls of a sequence.
\<close>

fun run_ops ::
    "('s \<Rightarrow> (err \<times> 's) option) \<Rightarrow> ('s \<Rightarrow> (err \<times> 's) option) \<Rightarrow> bool list \<Rightarrow> 's \<Rightarrow> (nat \<times> nat \<times> 's) option" where
  "run_ops put get [] s = Some (0, 0, s)"
| "run_ops put get (b # bs) s = do {
     (r, s1) \<leftarrow> (if b then put s else get s);
     (p, g, s2) \<leftarrow> run_ops put get bs s1;
     let one = (if r = RT_EOK then 1 else 0 :: nat);
     Some (if b then (p + one, g, s2) else (p, g + one, s2))
   }"

locale token_counter =
  fixes inv :: "'s \<Rightarrow> bool" and tokens :: "'s \<Rightarrow> int" and cap :: int
    and put get :: "'s \<Rightarrow> (err \<times> 's) option"
  assumes put_law: "inv s \<Longrightarrow> \<exists>r s'. put s = Some (r, s') \<and> inv s' \<and>
      (if tokens s < cap then r = RT_EOK \<and> tokens s' = tokens s + 1 else r \<noteq> RT_EOK \<and> tokens s' = tokens s)"
    and get_law: "inv s \<Longrightarrow> \<exists>r s'. get s = Some (r, s') \<and> inv s' \<and>
      (if 0 < tokens s then r = RT_EOK \<and> tokens s' = tokens s - 1 else r \<noteq> RT_EOK \<and> tokens s' = tokens s)"
    and tokens_le: "inv s \<Longrightarrow> tokens s \<le> cap"
begin

lemma conservation:
  assumes "inv s"
  shows "\<exists>p g s'. run_ops put get bs s = Some (p, g, s') \<and> inv s' \<and> tokens s' + int g = tokens s + int p \<and> tokens s' \<le> cap"
  using assms
proof (induction bs arbitrary: s)
  case Nil
  then show ?case using tokens_le by simp
next
  case (Cons b bs)
  obtain r s1 where r: "(if b then put s else get s) = Some (r, s1)" "inv s1"
    "tokens s1 + (if b then 0 else if r = RT_EOK then 1 else 0) = tokens s + (if b \<and> r = RT_EOK then 1 else 0)"
    using put_law [OF Cons.prems] get_law [OF Cons.prems] by (cases b) (auto split: if_splits)
  obtain p g s2 where "run_ops put get bs s1 = Some (p, g, s2)" "inv s2" "tokens s2 + int g = tokens s1 + int p" "tokens s2 \<le> cap"
    using Cons.IH [OF r(2)] by auto
  with r show ?case by (cases b) (auto split: if_splits)
qed

end

end
