(* ===== verification/Sem.thy ===== *)
theory Sem
  imports Ipc
begin

text \<open>
  Semaphores, \<^verbatim>\<open>src/ipc.c\<close>.  \<^verbatim>\<open>_rt_sem_take\<close> is split at its \<^verbatim>\<open>rt_schedule\<close>; the
  hooks \<^verbatim>\<open>RT_OBJECT_HOOK_CALL\<close> and the log output are not modelled.
\<close>

section \<open>Operations\<close>

abbreviation (input) RT_SEM_VALUE_MAX :: "16 word" where "RT_SEM_VALUE_MAX \<equiv> 0xffff"

definition set_sem :: "nat \<Rightarrow> 16 word \<Rightarrow> kernel \<Rightarrow> kernel" where
  "set_sem n v s = s\<lparr>sems := (sems s)(n := \<lparr>sem_value = v\<rparr>)\<rparr>"

definition valid_flag :: "8 word \<Rightarrow> bool" where
  "valid_flag flag \<longleftrightarrow> flag = RT_IPC_FLAG_FIFO \<or> flag = RT_IPC_FLAG_PRIO"

definition sem_flag :: "nat \<Rightarrow> kernel \<Rightarrow> 8 word" where
  "sem_flag n s = obj_flag (objs s (OSem n))"

definition rt_sem_init :: "nat \<Rightarrow> string \<Rightarrow> 32 word \<Rightarrow> 8 word \<Rightarrow> kernel \<Rightarrow> (err \<times> kernel) option" where
  "rt_sem_init n name value flag s = do {
     rt_assert (value < 0x10000);
     rt_assert (valid_flag flag);
     s1 \<leftarrow> rt_object_init (OSem n) RT_Object_Class_Semaphore name s;
     let s2 = set_sem n (ucast value) (ipc_object_init (SemWait n) s1);
     Some (RT_EOK, upd_obj (OSem n) (\<lambda>r. r\<lparr>obj_flag := flag\<rparr>) s2)
   }"

definition rt_sem_detach :: "nat \<Rightarrow> kernel \<Rightarrow> (err \<times> kernel) option" where
  "rt_sem_detach n s = do {
     rt_assert (rt_object_get_type (OSem n) s = RT_Object_Class_Semaphore);
     rt_assert (rt_object_is_systemobject (OSem n) s);
     s1 \<leftarrow> ipc_list_resume_all (SemWait n) s;
     Some (RT_EOK, rt_object_detach (OSem n) s1)
   }"

definition rt_sem_create ::
    "nat option \<Rightarrow> string \<Rightarrow> 32 word \<Rightarrow> 8 word \<Rightarrow> kernel \<Rightarrow> (nat option \<times> kernel) option" where
  "rt_sem_create mem name value flag s = do {
     rt_assert (value < 0x10000);
     rt_assert (valid_flag flag);
     (a, s1) \<leftarrow> rt_object_allocate (map_option OSem mem) RT_Object_Class_Semaphore name s;
     case mem of
       None \<Rightarrow> Some (None, s1)
     | Some n \<Rightarrow> do {
         let s2 = set_sem n (ucast value) (ipc_object_init (SemWait n) s1);
         Some (Some n, upd_obj (OSem n) (\<lambda>r. r\<lparr>obj_flag := flag\<rparr>) s2)
       }
   }"

definition rt_sem_delete :: "nat \<Rightarrow> kernel \<Rightarrow> (err \<times> kernel) option" where
  "rt_sem_delete n s = do {
     rt_assert (rt_object_get_type (OSem n) s = RT_Object_Class_Semaphore);
     rt_assert (\<not> rt_object_is_systemobject (OSem n) s);
     s1 \<leftarrow> ipc_list_resume_all (SemWait n) s;
     s2 \<leftarrow> rt_object_delete (OSem n) s1;
     Some (RT_EOK, s2)
   }"

definition rt_sem_take_flag :: "nat \<Rightarrow> int \<Rightarrow> int \<Rightarrow> kernel \<Rightarrow> (err outcome \<times> kernel) option" where
  "rt_sem_take_flag n timeout suspend_flag s = do {
     rt_assert (rt_object_get_type (OSem n) s = RT_Object_Class_Semaphore);
     if sem_value (sems s n) > 0
     then Some (Done RT_EOK, set_sem n (sem_value (sems s n) - 1) s)
     else if timeout = 0 then Some (Done (- RT_ETIMEOUT), s)
     else do {
       t \<leftarrow> rt_thread_self s;
       (ret, s1) \<leftarrow> ipc_list_suspend (SemWait n) t (sem_flag n s) suspend_flag (set_error t (- RT_EINTR) s);
       if ret \<noteq> RT_EOK then Some (Done ret, s1)
       else do {
         s2 \<leftarrow> (if 0 < timeout then arm_timer t (word_of_int timeout) s1 else Some s1);
         s3 \<leftarrow> rt_schedule s2;
         Some (Blocked, s3)
       }
     }
   }"

definition rt_sem_take_resumed :: "tid \<Rightarrow> kernel \<Rightarrow> err" where
  "rt_sem_take_resumed t s = (if thr_error (thr s t) \<noteq> RT_EOK then thr_error (thr s t) else RT_EOK)"

definition rt_sem_take :: "nat \<Rightarrow> int \<Rightarrow> kernel \<Rightarrow> (err outcome \<times> kernel) option" where
  "rt_sem_take n time s = rt_sem_take_flag n time RT_UNINTERRUPTIBLE s"

definition rt_sem_take_interruptible :: "nat \<Rightarrow> int \<Rightarrow> kernel \<Rightarrow> (err outcome \<times> kernel) option" where
  "rt_sem_take_interruptible n time s = rt_sem_take_flag n time RT_INTERRUPTIBLE s"

definition rt_sem_take_killable :: "nat \<Rightarrow> int \<Rightarrow> kernel \<Rightarrow> (err outcome \<times> kernel) option" where
  "rt_sem_take_killable n time s = rt_sem_take_flag n time RT_KILLABLE s"

definition rt_sem_trytake :: "nat \<Rightarrow> kernel \<Rightarrow> (err outcome \<times> kernel) option" where
  "rt_sem_trytake n s = rt_sem_take n RT_WAITING_NO s"

definition rt_sem_release :: "nat \<Rightarrow> kernel \<Rightarrow> (err \<times> kernel) option" where
  "rt_sem_release n s = do {
     rt_assert (rt_object_get_type (OSem n) s = RT_Object_Class_Semaphore);
     if \<not> tl_isempty (SemWait n) s
     then do {
       s1 \<leftarrow> ipc_list_resume (SemWait n) s;
       s2 \<leftarrow> rt_schedule s1;
       Some (RT_EOK, s2)
     }
     else if sem_value (sems s n) < RT_SEM_VALUE_MAX
     then Some (RT_EOK, set_sem n (sem_value (sems s n) + 1) s)
     else Some (- RT_EFULL, s)
   }"

definition rt_sem_control :: "nat \<Rightarrow> int \<Rightarrow> 64 word \<Rightarrow> kernel \<Rightarrow> (err \<times> kernel) option" where
  "rt_sem_control n cmd arg s = do {
     rt_assert (rt_object_get_type (OSem n) s = RT_Object_Class_Semaphore);
     if cmd = RT_IPC_CMD_RESET
     then do {
       s1 \<leftarrow> ipc_list_resume_all (SemWait n) s;
       s2 \<leftarrow> rt_schedule (set_sem n (ucast arg) s1);
       Some (RT_EOK, s2)
     }
     else Some (- RT_ERROR, s)
   }"

section \<open>The contract: a counter and a queue\<close>

text \<open>
  A semaphore promises its callers a counter and a queue of waiting threads of
  which one is always empty.
\<close>

definition sem_abs :: "nat \<Rightarrow> kernel \<Rightarrow> nat \<times> tid list" where
  "sem_abs n s = (unat (sem_value (sems s n)), lists s (SemWait n))"

definition sem_ok :: "nat \<Rightarrow> kernel \<Rightarrow> bool" where
  "sem_ok n s \<longleftrightarrow> rt_object_get_type (OSem n) s = RT_Object_Class_Semaphore \<and> valid_flag (sem_flag n s) \<and>
     (sem_value (sems s n) = 0 \<or> lists s (SemWait n) = [])"

fun spec_release :: "nat \<times> tid list \<Rightarrow> err \<times> (nat \<times> tid list)" where
  "spec_release (v, t # ts) = (RT_EOK, v, ts)"
| "spec_release (v, []) = (if v < 65535 then (RT_EOK, v + 1, []) else (- RT_EFULL, v, []))"

section \<open>Lemmas\<close>

lemma set_sem_frame [simp]:
  "sys_inv (set_sem n v s) = sys_inv s" "lists (set_sem n v s) = lists s" "threads (set_sem n v s) = threads s"
  "objs (set_sem n v s) = objs s" "rt_object_get_type a (set_sem n v s) = rt_object_get_type a s"
  "sem_value (sems (set_sem n v s) n) = v" "runnable (set_sem n v s) = runnable s"
  "m \<noteq> n \<Longrightarrow> sems (set_sem n v s) m = sems s m" "sem_flag m (set_sem n v s) = sem_flag m s"
  by (simp_all add: set_sem_def runnable_def stat_of_def sem_flag_def)

lemma sem_frame:
  assumes "ipc_frame s s'"
  shows "sem_flag n s' = sem_flag n s" "sem_value (sems s' n) = sem_value (sems s n)"
    "rt_object_get_type (OSem n) s' = rt_object_get_type (OSem n) s"
  using ipc_frameD [OF assms] by (simp_all add: sem_flag_def)

lemma sem_release_empty:
  assumes "sys_inv s" "sem_ok n s" "lists s (SemWait n) = []"
  shows "\<exists>r s'. rt_sem_release n s = Some (r, s') \<and> sys_inv s' \<and> sem_ok n s' \<and>
     (r, sem_abs n s') = spec_release (sem_abs n s)"
proof -
  let ?v = "sem_value (sems s n)"
  have max: "?v < RT_SEM_VALUE_MAX \<longleftrightarrow> unat ?v < 65535" by (simp add: unat_lt_nat)
  have up: "?v < RT_SEM_VALUE_MAX \<Longrightarrow> unat (?v + 1) = unat ?v + 1"
    by (rule unat_plus_one)
  show ?thesis
    using assms max up
    by (cases "?v < RT_SEM_VALUE_MAX") (simp_all add: rt_sem_release_def tl_isempty_def sem_ok_def sem_abs_def)
qed

lemma sem_release_waiting:
  assumes inv: "sys_inv s" and ok: "sem_ok n s" and q: "lists s (SemWait n) = t # ts"
  shows "\<exists>s'. rt_sem_release n s = Some (RT_EOK, s') \<and> woken (SemWait n) t RT_EOK s s'"
proof -
  obtain s1 where s1: "rt_thread_resume t (set_error t RT_EOK s) = Some (RT_EOK, s1)" "woken (SemWait n) t RT_EOK s s1"
    using resume_front [OF inv _ q] by auto
  obtain s2 where s2: "rt_schedule s1 = Some s2" "sys_inv s2" "sched_to s1 s2"
    using sys_schedule [OF wokenD(1) [OF s1(2)]] .
  have "rt_sem_release n s = Some (RT_EOK, s2)"
    using ok q s1(1) s2(1)
    by (simp add: rt_sem_release_def sem_ok_def tl_isempty_def ipc_list_resume_def tl_first_def)
  with woken_sched [OF s1(2) s2(3,2)] show ?thesis by blast
qed

lemma sem_take_wait:
  assumes inv: "sys_inv s" and ok: "sem_ok n s" and t: "rt_current_thread s = Some t" "stat_of s t = RT_THREAD_RUNNING"
    and v: "sem_value (sems s n) = 0" "timeout \<noteq> 0" "timeout < 0x7fffffff"
    and flag: "sflag \<in> suspend_flags" "lwp_thread_signal_suspend_check t sflag s = Some k"
  shows "if k = 0 then rt_sem_take_flag n timeout sflag s = Some (Done (- RT_EINTR), set_error t (- RT_EINTR) s)
     else \<exists>s'. rt_sem_take_flag n timeout sflag s = Some (Blocked, s') \<and>
            blocked_on (SemWait n) t (sem_flag n s) timeout (set_error t (- RT_EINTR) s) s'"
proof -
  let ?s0 = "set_error t (- RT_EINTR) s"
  have i0: "sys_inv ?s0" "rt_current_thread ?s0 = Some t" "stat_of ?s0 t = RT_THREAD_RUNNING"
    using sys_inv_set_error [OF inv] t by simp_all
  have fl: "sem_flag n s = RT_IPC_FLAG_FIFO \<or> sem_flag n s = RT_IPC_FLAG_PRIO"
    using ok by (simp add: sem_ok_def valid_flag_def)
  have sus: "ipc_list_suspend (SemWait n) t (sem_flag n s) sflag ?s0 =
     (if k = 0 then Some (- RT_EINTR, ?s0)
      else Some (RT_EOK, enqueued (SemWait n) t (sem_flag n s) (suspended_self t sflag ?s0)))"
    by (rule ipc_suspend_eq [OF i0 fl flag(1)]) (use flag(2) in simp_all)
  obtain s2 s3 where b: "(if 0 < timeout then arm_timer t (word_of_int timeout)
        (enqueued (SemWait n) t (sem_flag n s) (suspended_self t sflag ?s0))
      else Some (enqueued (SemWait n) t (sem_flag n s) (suspended_self t sflag ?s0))) = Some s2"
    "rt_schedule s2 = Some s3" "blocked_on (SemWait n) t (sem_flag n s) timeout ?s0 s3"
    using ipc_block [OF i0 _ v(3), of "SemWait n" "sem_flag n s" sflag] by auto
  show ?thesis
    unfolding rt_sem_take_flag_def rt_thread_self_def
    using ok v(1,2) t(1) sus b by (auto simp: sem_ok_def)
qed

section \<open>Properties\<close>

text \<open>
  C15. \<^verbatim>\<open>rt_sem_release\<close> implements the abstract semaphore: it hands the token to
  the first waiting thread, which becomes runnable with error code \<^verbatim>\<open>RT_EOK\<close>, or
  counts up when nobody waits, or answers \<^verbatim>\<open>-RT_EFULL\<close> with the counter at 65535;
  the counter never wraps and the contract and the system invariant are kept.
\<close>

theorem sem_release_refines:
  assumes "sys_inv s" "sem_ok n s"
  shows "\<exists>r s'. rt_sem_release n s = Some (r, s') \<and> sys_inv s' \<and> sem_ok n s' \<and>
     (r, sem_abs n s') = spec_release (sem_abs n s) \<and>
     (\<forall>t ts. lists s (SemWait n) = t # ts \<longrightarrow> t \<in> runnable s' \<and> thr_error (thr s' t) = RT_EOK)"
proof (cases "lists s (SemWait n)")
  case Nil
  with sem_release_empty [OF assms] show ?thesis by auto
next
  case (Cons t ts)
  obtain s' where s': "rt_sem_release n s = Some (RT_EOK, s')" "woken (SemWait n) t RT_EOK s s'"
    using sem_release_waiting [OF assms Cons] by blast
  note w = wokenD [OF s'(2)]
  have "sem_ok n s'" "sem_abs n s' = (unat (sem_value (sems s n)), ts)"
    using assms(2) sem_frame [OF w(2), of n] w(4) Cons by (simp_all add: sem_ok_def sem_abs_def)
  with s' w Cons show ?thesis by (auto simp: sem_abs_def)
qed

definition waiting_on_sem :: kernel where
  "waiting_on_sem = enqueued (SemWait 7) 2 0 (suspended_self 2 RT_UNINTERRUPTIBLE small_system)"

lemma small_running: "stat_of small_system 2 = RT_THREAD_RUNNING" "rt_current_thread small_system = Some 2"
  by (simp_all add: small_system_def kernel_reset_def sample_thread_def blank_thread_def stat_of_def)

lemma sem_ok_small: "sem_ok n small_system"
  by (simp add: sem_ok_def small_system_def kernel_reset_def rt_object_get_type_def sem_flag_def valid_flag_def)

lemma waiting_on_sem_ok: "sys_inv waiting_on_sem" "sem_ok 7 waiting_on_sem" "lists waiting_on_sem (SemWait 7) = [2]"
proof -
  let ?s = "suspended_self 2 RT_UNINTERRUPTIBLE small_system"
  note ok = suspended_self_ok [OF kernel_inv_small small_running(2,1), of RT_UNINTERRUPTIBLE]
  show "sys_inv waiting_on_sem"
    unfolding waiting_on_sem_def
    by (rule sys_inv_enqueued [OF sys_inv_suspended_self [OF sys_inv_small small_running(2,1)] ok(3,2)]) simp
  have f: "ipc_frame small_system waiting_on_sem"
    unfolding waiting_on_sem_def by (rule ipc_frame_trans [OF ipc_frame_suspended_self enqueued_frame(8)])
  show "lists waiting_on_sem (SemWait 7) = [2]"
    by (simp add: waiting_on_sem_def enqueued_def wait_order_def suspended_self_def small_system_def kernel_reset_def)
  have "sem_value (sems small_system 7) = 0" by (simp add: small_system_def kernel_reset_def)
  then show "sem_ok 7 waiting_on_sem"
    using sem_ok_small [of 7] sem_frame [OF f, of 7] by (simp add: sem_ok_def)
qed

theorem sem_release_refines_witness:
  "\<exists>r s'. rt_sem_release 7 waiting_on_sem = Some (r, s') \<and> r = RT_EOK \<and> lists s' (SemWait 7) = [] \<and>
     2 \<in> runnable s'"
  using sem_release_refines [OF waiting_on_sem_ok(1,2)] waiting_on_sem_ok(3) by (auto simp: sem_abs_def)

text \<open>
  C16. Taking a semaphore.  With a positive counter the call succeeds and counts
  down by one.  With the counter at zero a call that may not wait returns
  \<^verbatim>\<open>-RT_ETIMEOUT\<close> and changes nothing, a call interrupted by a signal returns
  \<^verbatim>\<open>-RT_EINTR\<close> and leaves counter and queue alone, and every other call suspends
  the running thread in the queue at the place the object's flag asks for, with
  its timer set to the given number of ticks when that is positive.
\<close>

theorem sem_take_refines:
  assumes "sys_inv s" "sem_ok n s" "rt_current_thread s = Some t" "stat_of s t = RT_THREAD_RUNNING"
    and "timeout < 0x7fffffff" "sflag \<in> suspend_flags" "lwp_thread_signal_suspend_check t sflag s = Some k"
  shows "\<exists>r s'. rt_sem_take_flag n timeout sflag s = Some (r, s') \<and> sys_inv s' \<and> sem_ok n s' \<and>
     (let (v, q) = sem_abs n s in
      if 0 < v then r = Done RT_EOK \<and> sem_abs n s' = (v - 1, q)
      else if timeout = 0 then r = Done (- RT_ETIMEOUT) \<and> s' = s
      else if k = 0 then r = Done (- RT_EINTR) \<and> sem_abs n s' = (v, q)
      else r = Blocked \<and> suspended s' t \<and> sem_abs n s' = (v, wait_order (sem_flag n s) s t q) \<and>
           (0 < timeout \<longrightarrow> ThreadTimer t \<in> set (timer_lists s' HardTimers) \<and>
                            remaining s' (ThreadTimer t) = nat timeout))"
proof (cases "sem_value (sems s n) = 0")
  case False
  then have "0 < unat (sem_value (sems s n))" "0 < sem_value (sems s n)"
    by (simp_all add: unat_gt_0 word_neq_0_conv)
  with False assms(1,2) show ?thesis
    by (auto simp: rt_sem_take_flag_def sem_ok_def sem_abs_def unat_minus_one)
next
  case v: True
  show ?thesis
  proof (cases "timeout = 0")
    case True
    with v assms(1,2) show ?thesis by (auto simp: rt_sem_take_flag_def sem_ok_def sem_abs_def)
  next
    case to: False
    note w = sem_take_wait [OF assms(1-4) v to assms(5-7)]
    show ?thesis
    proof (cases "k = 0")
      case True
      with w v to assms(2) sys_inv_set_error [OF assms(1), of t "- RT_EINTR"] show ?thesis
        by (auto simp: sem_ok_def sem_abs_def sem_flag_def set_error_def)
    next
      case False
      then obtain s' where s': "rt_sem_take_flag n timeout sflag s = Some (Blocked, s')"
        "blocked_on (SemWait n) t (sem_flag n s) timeout (set_error t (- RT_EINTR) s) s'"
        using w by auto
      note b = blocked_onD [OF s'(2)]
      have f: "ipc_frame s s'" using ipc_frame_trans [OF ipc_frame_upd(3) b(2)] .
      have "lists s' (SemWait n) = wait_order (sem_flag n s) s t (lists s (SemWait n))"
        using b(4) by simp
      with s' b(1,3,9) v to False sem_frame [OF f, of n] assms(2) show ?thesis
        by (auto simp: sem_ok_def sem_abs_def)
    qed
  qed
qed

theorem sem_take_refines_witness:
  "\<exists>s'. rt_sem_take_flag 7 20 RT_UNINTERRUPTIBLE small_system = Some (Blocked, s') \<and> suspended s' 2 \<and>
     sem_abs 7 s' = (0, [2]) \<and> remaining s' (ThreadTimer 2) = 20"
  using sem_take_refines [OF sys_inv_small sem_ok_small small_running(2,1), of 20 RT_UNINTERRUPTIBLE 1 7]
  by (auto simp: suspend_flags_def lwp_thread_signal_suspend_check_def sem_abs_def wait_order_def sem_flag_def
      small_system_def kernel_reset_def)

text \<open>
  C17. A semaphore that is taken out of service lets nobody wait for ever:
  \<^verbatim>\<open>rt_sem_detach\<close> leaves its queue empty, and every thread that was in it is
  runnable with error code \<^verbatim>\<open>-RT_ERROR\<close>, which is what its \<^verbatim>\<open>rt_sem_take\<close> returns;
  the waiting threads of other objects stay where they are.
\<close>

theorem sem_detach_wakes_all:
  assumes "sys_inv s" "sem_ok n s" "rt_object_is_systemobject (OSem n) s"
  shows "\<exists>s'. rt_sem_detach n s = Some (RT_EOK, s') \<and> sys_inv s' \<and> lists s' (SemWait n) = [] \<and>
     (\<forall>t \<in> set (lists s (SemWait n)). t \<in> runnable s' \<and> rt_sem_take_resumed t s' = - RT_ERROR) \<and>
     (\<forall>l. wait_id l \<longrightarrow> l \<noteq> SemWait n \<longrightarrow> lists s' l = lists s l)"
proof -
  obtain s1 where s1: "ipc_list_resume_all (SemWait n) s = Some s1" "drain_inv (SemWait n) s s1"
    "lists s1 (SemWait n) = []"
    "\<And>t. t \<in> set (lists s (SemWait n)) \<Longrightarrow> t \<in> runnable s1 \<and> thr_error (thr s1 t) = - RT_ERROR"
    using resume_all [OF assms(1), of "SemWait n"] by auto
  have "rt_sem_detach n s = Some (RT_EOK, rt_object_detach (OSem n) s1)"
    using assms(2,3) s1(1) by (simp add: rt_sem_detach_def sem_ok_def)
  with s1 sys_inv_detach [of "OSem n" s1] show ?thesis
    by (auto simp: rt_sem_take_resumed_def drain_inv_def)
qed

theorem sem_detach_wakes_all_witness:
  "\<exists>s'. rt_sem_detach 7 waiting_on_sem = Some (RT_EOK, s') \<and> 2 \<in> runnable s' \<and> rt_sem_take_resumed 2 s' = - RT_ERROR"
proof -
  have "ipc_frame small_system waiting_on_sem"
    unfolding waiting_on_sem_def by (rule ipc_frame_trans [OF ipc_frame_suspended_self enqueued_frame(8)])
  then have "rt_object_is_systemobject (OSem 7) waiting_on_sem"
    using ipc_frameD(8) [of small_system waiting_on_sem 7]
    by (simp add: rt_object_is_systemobject_def small_system_def kernel_reset_def)
  then show ?thesis
    using sem_detach_wakes_all [OF waiting_on_sem_ok(1,2)] waiting_on_sem_ok(3) by auto
qed

section \<open>Counting\<close>

definition sem_try :: "nat \<Rightarrow> kernel \<Rightarrow> (err \<times> kernel) option" where
  "sem_try n s = (case rt_sem_trytake n s of Some (Done r, s') \<Rightarrow> Some (r, s') | _ \<Rightarrow> None)"

text \<open>The balance of a semaphore: the tokens it holds, less the tokens that threads wait for.\<close>

definition sem_balance :: "nat \<Rightarrow> kernel \<Rightarrow> int" where
  "sem_balance n s = int (unat (sem_value (sems s n))) - int (length (lists s (SemWait n)))"

lemma sem_value_le: "unat (w :: 16 word) \<le> 65535"
proof -
  have "unat w < 2 ^ LENGTH(16)" by (rule unsigned_less)
  then show ?thesis by simp
qed

lemma sem_try_eq:
  assumes "sem_ok n s"
  shows "sem_try n s = Some (if sem_value (sems s n) = 0 then (- RT_ETIMEOUT, s) else (RT_EOK, set_sem n (sem_value (sems s n) - 1) s))"
  using assms by (auto simp: sem_try_def rt_sem_trytake_def rt_sem_take_def rt_sem_take_flag_def sem_ok_def word_neq_0_conv)

interpretation sem_count: token_counter "\<lambda>s. sys_inv s \<and> sem_ok n s" "sem_balance n" 65535 "rt_sem_release n" "sem_try n" for n
proof
  fix s
  assume a: "sys_inv s \<and> sem_ok n s"
  let ?v = "sem_value (sems s n)" and ?w = "lists s (SemWait n)"
  have le: "unat ?v \<le> 65535" by (rule sem_value_le)
  then show "sem_balance n s \<le> 65535" unfolding sem_balance_def by linarith
  have one: "?v = 0 \<or> ?w = []" using a by (simp add: sem_ok_def)
  show "\<exists>r s'. rt_sem_release n s = Some (r, s') \<and> (sys_inv s' \<and> sem_ok n s') \<and>
      (if sem_balance n s < 65535 then r = RT_EOK \<and> sem_balance n s' = sem_balance n s + 1 else r \<noteq> RT_EOK \<and> sem_balance n s' = sem_balance n s)"
  proof (cases ?w)
    case Nil
    obtain r s' where "rt_sem_release n s = Some (r, s')" "sys_inv s'" "sem_ok n s'" "(r, sem_abs n s') = spec_release (sem_abs n s)"
      using sem_release_empty [of s n] a Nil by auto
    then show ?thesis using Nil le by (auto simp: sem_abs_def sem_balance_def simp del: of_nat_unat split: if_splits)
  next
    case (Cons t ts)
    obtain s' where s': "rt_sem_release n s = Some (RT_EOK, s')" "woken (SemWait n) t RT_EOK s s'"
      using sem_release_waiting [of s n t ts] a Cons by blast
    note w = wokenD [OF s'(2)]
    have "sem_ok n s'" "sem_value (sems s' n) = ?v" "lists s' (SemWait n) = ts"
      using a sem_frame [OF w(2), of n] w(4) Cons by (simp_all add: sem_ok_def)
    then show ?thesis using s'(1) w(1) one Cons by (simp add: sem_balance_def del: of_nat_unat)
  qed
  show "\<exists>r s'. sem_try n s = Some (r, s') \<and> (sys_inv s' \<and> sem_ok n s') \<and>
      (if 0 < sem_balance n s then r = RT_EOK \<and> sem_balance n s' = sem_balance n s - 1 else r \<noteq> RT_EOK \<and> sem_balance n s' = sem_balance n s)"
  proof (cases "?v = 0")
    case True
    then show ?thesis using a by (simp add: sem_try_eq sem_balance_def del: of_nat_unat)
  next
    case False
    then have "unat (?v - 1) = unat ?v - 1" "0 < unat ?v" "?w = []" using one by (simp_all add: unat_minus_one unat_gt_0)
    then show ?thesis using a False by (auto simp: sem_try_eq sem_balance_def sem_ok_def simp del: of_nat_unat)
  qed
qed

text \<open>
  C18. Tokens are conserved, with or without waiting threads: over any sequence of non-blocking takes and releases,
  each of which returns, the counter less the number of waiting threads, plus the number of
  successful takes, is its initial value plus the number of successful releases.  At the end threads wait only if the counter
  is zero, so every token that was released and not taken is in the counter or has woken a thread; the counter stays within 16 bits.
\<close>

theorem sem_tokens_conserved:
  assumes "sys_inv s" "sem_ok n s"
  shows "\<exists>p g s'. run_ops (rt_sem_release n) (sem_try n) ops s = Some (p, g, s') \<and> sys_inv s' \<and> sem_ok n s' \<and>
     int (unat (sem_value (sems s' n))) - int (length (lists s' (SemWait n))) + int g =
       int (unat (sem_value (sems s n))) - int (length (lists s (SemWait n))) + int p \<and>
     (sem_value (sems s' n) = 0 \<or> lists s' (SemWait n) = []) \<and> unat (sem_value (sems s' n)) \<le> 65535"
proof -
  obtain p g s' where r: "run_ops (rt_sem_release n) (sem_try n) ops s = Some (p, g, s')" "sys_inv s'" "sem_ok n s'" "sem_balance n s' + int g = sem_balance n s + int p"
    using sem_count.conservation [of s n ops] assms by blast
  then show ?thesis using sem_value_le [of "sem_value (sems s' n)"] by (auto simp: sem_balance_def sem_ok_def)
qed

theorem sem_tokens_conserved_witness:
  "lists waiting_on_sem (SemWait 7) = [2] \<and>
   (\<exists>p g s'. run_ops (rt_sem_release 7) (sem_try 7) [False, True, True, False] waiting_on_sem = Some (p, g, s') \<and> sem_ok 7 s' \<and>
     int (unat (sem_value (sems s' 7))) - int (length (lists s' (SemWait 7))) + int g = int (unat (sem_value (sems waiting_on_sem 7))) - 1 + int p)"
  using sem_tokens_conserved [OF waiting_on_sem_ok(1,2), of "[False, True, True, False]"] waiting_on_sem_ok(3)
  by (auto simp del: run_ops.simps)

end
