(* ===== verification/Mutex.thy ===== *)
theory Mutex
  imports Sem
begin

text \<open>
  Mutexes, \<^verbatim>\<open>src/ipc.c\<close>, with priority inheritance and priority ceilings, and the
  priority change of \<^verbatim>\<open>rt_thread_control\<close> in \<^verbatim>\<open>src/thread.c\<close> they rest on.  The
  mutexes a thread holds are its \<^verbatim>\<open>taken_object_list\<close>; a mutex is linked into at
  most one of these lists through \<^verbatim>\<open>mutex->taken_list\<close>.
\<close>

section \<open>Operations\<close>

abbreviation (input) RT_MUTEX_HOLD_MAX :: "8 word" where "RT_MUTEX_HOLD_MAX \<equiv> 0xff"

definition upd_mutex :: "nat \<Rightarrow> (rt_mutex \<Rightarrow> rt_mutex) \<Rightarrow> kernel \<Rightarrow> kernel" where
  "upd_mutex m f s = s\<lparr>mutexes := (mutexes s)(m := f (mutexes s m))\<rparr>"

definition mutex_flag :: "nat \<Rightarrow> kernel \<Rightarrow> 8 word" where
  "mutex_flag m s = obj_flag (objs s (OMutex m))"

definition set_priority :: "8 word \<Rightarrow> rt_thread \<Rightarrow> rt_thread" where
  "set_priority p r = r\<lparr>current_priority := p, number_mask := push_bit (unat p) 1\<rparr>"

definition thread_change_priority :: "tid \<Rightarrow> 8 word \<Rightarrow> kernel \<Rightarrow> (err \<times> kernel) option" where
  "thread_change_priority t p s = do {
     rt_assert (rt_object_get_type (OThread t) s = RT_Object_Class_Thread);
     s' \<leftarrow> (if stat_of s t = RT_THREAD_READY
             then do {
               s1 \<leftarrow> rt_schedule_remove_thread t s;
               rt_schedule_insert_thread t (upd_thread t (set_priority p) s1)
             }
             else Some (upd_thread t (set_priority p) s));
     Some (RT_EOK, s')
   }"

definition head_priority :: "nat \<Rightarrow> kernel \<Rightarrow> 8 word" where
  "head_priority m s =
    (case lists s (MutexWait m) of [] \<Rightarrow> 0xff | t # _ \<Rightarrow> current_priority (thr s t))"

definition mutex_update_priority :: "nat \<Rightarrow> kernel \<Rightarrow> kernel" where
  "mutex_update_priority m s = upd_mutex m (\<lambda>r. r\<lparr>mtx_priority := head_priority m s\<rparr>) s"

text \<open>The loop over the taken mutexes keeps the smallest number, the highest priority.\<close>

fun get_mutex_priority_loop :: "nat list \<Rightarrow> 8 word \<Rightarrow> kernel \<Rightarrow> 8 word" where
  "get_mutex_priority_loop [] priority s = priority"
| "get_mutex_priority_loop (m # ms) priority s =
    (let mutex_prio = mtx_priority (mutexes s m);
         mutex_prio = (if mutex_prio < ceiling_priority (mutexes s m) then mutex_prio
                       else ceiling_priority (mutexes s m))
     in get_mutex_priority_loop ms (if priority > mutex_prio then mutex_prio else priority) s)"

definition thread_get_mutex_priority :: "tid \<Rightarrow> kernel \<Rightarrow> 8 word" where
  "thread_get_mutex_priority t s =
     get_mutex_priority_loop (taken_object_list (thr s t)) (init_priority (thr s t)) s"

text \<open>
  The chain of \<^verbatim>\<open>_thread_update_priority\<close>: as long as the thread whose priority
  changed waits for a mutex, it moves to its new place among the waiting threads
  and the owner of that mutex gets the priority it now inherits.
\<close>

partial_function (option) update_priority_loop :: "tid \<Rightarrow> int \<Rightarrow> kernel \<Rightarrow> kernel option" where
  "update_priority_loop t suspend_flag s =
    (if stat (thr s t) AND RT_THREAD_SUSPEND_MASK \<noteq> RT_THREAD_SUSPEND_MASK then Some s
     else case pending_object (thr s t) of
            Some (OMutex m) \<Rightarrow>
              if rt_object_get_type (OMutex m) s \<noteq> RT_Object_Class_Mutex then Some s
              else do {
                (ret, s1) \<leftarrow> ipc_list_suspend (MutexWait m) t (mutex_flag m s) suspend_flag (tl_remove t s);
                if ret \<noteq> RT_EOK then Some s1
                else do {
                  let s2 = mutex_update_priority m s1;
                  own \<leftarrow> owner (mutexes s2 m);
                  let p = thread_get_mutex_priority own s2;
                  if p \<noteq> current_priority (thr s2 own)
                  then do {
                    (ret, s3) \<leftarrow> thread_change_priority own p s2;
                    if ret = RT_EOK then update_priority_loop own suspend_flag s3 else Some s3
                  }
                  else Some s2
                }
              }
          | _ \<Rightarrow> Some s)"

definition thread_update_priority :: "tid \<Rightarrow> 8 word \<Rightarrow> int \<Rightarrow> kernel \<Rightarrow> kernel option" where
  "thread_update_priority t priority suspend_flag s = do {
     (ret, s1) \<leftarrow> thread_change_priority t priority s;
     if ret = RT_EOK then update_priority_loop t suspend_flag s1 else Some s1
   }"

definition blank_mutex :: rt_mutex where
  "blank_mutex = \<lparr>ceiling_priority = 0xff, mtx_priority = 0xff, hold = 0, owner = None\<rparr>"

text \<open>\<^verbatim>\<open>rt_list_remove(&mutex->taken_list)\<close>: the mutex leaves the list it is in, if any.\<close>

definition untake :: "nat \<Rightarrow> kernel \<Rightarrow> kernel" where
  "untake m s = s\<lparr>threads := (\<lambda>t. (threads s t)\<lparr>taken_object_list := removeAll m (taken_object_list (threads s t))\<rparr>)\<rparr>"

definition rt_mutex_init :: "nat \<Rightarrow> string \<Rightarrow> 8 word \<Rightarrow> kernel \<Rightarrow> (err \<times> kernel) option" where
  "rt_mutex_init m name flag s = do {
     s1 \<leftarrow> rt_object_init (OMutex m) RT_Object_Class_Mutex name s;
     let s2 = upd_mutex m (\<lambda>_. blank_mutex) (ipc_object_init (MutexWait m) s1);
     Some (RT_EOK, upd_obj (OMutex m) (\<lambda>r. r\<lparr>obj_flag := RT_IPC_FLAG_PRIO\<rparr>) s2)
   }"

definition rt_mutex_detach :: "nat \<Rightarrow> kernel \<Rightarrow> (err \<times> kernel) option" where
  "rt_mutex_detach m s = do {
     rt_assert (rt_object_get_type (OMutex m) s = RT_Object_Class_Mutex);
     rt_assert (rt_object_is_systemobject (OMutex m) s);
     s1 \<leftarrow> ipc_list_resume_all (MutexWait m) s;
     Some (RT_EOK, rt_object_detach (OMutex m) (untake m s1))
   }"

definition restore_owner :: "nat \<Rightarrow> kernel \<Rightarrow> kernel option" where
  "restore_owner m s = do {
     own \<leftarrow> owner (mutexes s m);
     let priority = thread_get_mutex_priority own s;
     if priority \<noteq> current_priority (thr s own)
     then thread_update_priority own priority RT_UNINTERRUPTIBLE s
     else Some s
   }"

definition owner_has_priority_of :: "nat \<Rightarrow> tid \<Rightarrow> kernel \<Rightarrow> bool" where
  "owner_has_priority_of m t s =
    (case owner (mutexes s m) of
       None \<Rightarrow> False
     | Some own \<Rightarrow> current_priority (thr s own) = current_priority (thr s t))"

definition rt_mutex_drop_thread :: "nat \<Rightarrow> tid \<Rightarrow> kernel \<Rightarrow> kernel option" where
  "rt_mutex_drop_thread m t s =
    (let s1 = tl_remove t s;
         need_update = owner_has_priority_of m t s1;
         s2 = upd_mutex m (\<lambda>r. r\<lparr>mtx_priority := head_priority m s1\<rparr>) s1
     in if need_update then restore_owner m s2 else Some s2)"

text \<open>A null mutex is \<^verbatim>\<open>None\<close>.\<close>

definition rt_mutex_setprioceiling :: "nat option \<Rightarrow> 8 word \<Rightarrow> kernel \<Rightarrow> (8 word \<times> kernel) option" where
  "rt_mutex_setprioceiling mutex priority s =
    (case mutex of
       Some m \<Rightarrow>
         if unat priority < RT_THREAD_PRIORITY_MAX
         then do {
           let ret_priority = ceiling_priority (mutexes s m);
           let s1 = upd_mutex m (\<lambda>r. r\<lparr>ceiling_priority := priority\<rparr>) s;
           s2 \<leftarrow> (if owner (mutexes s1 m) \<noteq> None then restore_owner m s1 else Some s1);
           Some (ret_priority, s2)
         }
         else Some (0xff, rt_set_errno (- RT_EINVAL) s)
     | None \<Rightarrow> Some (0xff, rt_set_errno (- RT_EINVAL) s))"

definition rt_mutex_getprioceiling :: "nat option \<Rightarrow> kernel \<Rightarrow> 8 word" where
  "rt_mutex_getprioceiling mutex s = (case mutex of None \<Rightarrow> 0xff | Some m \<Rightarrow> ceiling_priority (mutexes s m))"

definition rt_mutex_create :: "nat option \<Rightarrow> string \<Rightarrow> 8 word \<Rightarrow> kernel \<Rightarrow> (nat option \<times> kernel) option" where
  "rt_mutex_create mem name flag s = do {
     (a, s1) \<leftarrow> rt_object_allocate (map_option OMutex mem) RT_Object_Class_Mutex name s;
     case mem of
       None \<Rightarrow> Some (None, s1)
     | Some m \<Rightarrow> do {
         let s2 = upd_mutex m (\<lambda>_. blank_mutex) (ipc_object_init (MutexWait m) s1);
         Some (Some m, upd_obj (OMutex m) (\<lambda>r. r\<lparr>obj_flag := RT_IPC_FLAG_PRIO\<rparr>) s2)
       }
   }"

definition rt_mutex_delete :: "nat \<Rightarrow> kernel \<Rightarrow> (err \<times> kernel) option" where
  "rt_mutex_delete m s = do {
     rt_assert (rt_object_get_type (OMutex m) s = RT_Object_Class_Mutex);
     rt_assert (\<not> rt_object_is_systemobject (OMutex m) s);
     s1 \<leftarrow> ipc_list_resume_all (MutexWait m) s;
     s2 \<leftarrow> rt_object_delete (OMutex m) (untake m s1);
     Some (RT_EOK, s2)
   }"

definition take_free_mutex :: "nat \<Rightarrow> tid \<Rightarrow> int \<Rightarrow> kernel \<Rightarrow> kernel option" where
  "take_free_mutex m t suspend_flag s = do {
     let s1 = upd_mutex m (\<lambda>r. r\<lparr>owner := Some t, mtx_priority := 0xff, hold := 1\<rparr>) s;
     s2 \<leftarrow> (if ceiling_priority (mutexes s1 m) \<noteq> 0xff \<and>
                 ceiling_priority (mutexes s1 m) < current_priority (thr s1 t)
             then thread_update_priority t (ceiling_priority (mutexes s1 m)) suspend_flag s1
             else Some s1);
     Some (upd_thread t (\<lambda>r. r\<lparr>taken_object_list := m # taken_object_list r\<rparr>) s2)
   }"

definition inherit_priority :: "nat \<Rightarrow> tid \<Rightarrow> 8 word \<Rightarrow> kernel \<Rightarrow> kernel option" where
  "inherit_priority m own priority s =
    (if priority < mtx_priority (mutexes s m)
     then let s1 = upd_mutex m (\<lambda>r. r\<lparr>mtx_priority := priority\<rparr>) s
          in if priority < current_priority (thr s1 own)
             then thread_update_priority own priority RT_UNINTERRUPTIBLE s1
             else Some s1
     else Some s)"

definition rt_mutex_take_flag :: "nat \<Rightarrow> int \<Rightarrow> int \<Rightarrow> kernel \<Rightarrow> (err outcome \<times> kernel) option" where
  "rt_mutex_take_flag m timeout suspend_flag s = do {
     rt_assert (rt_object_get_type (OMutex m) s = RT_Object_Class_Mutex);
     t \<leftarrow> rt_thread_self s;
     let s0 = set_error t RT_EOK s;
     case owner (mutexes s0 m) of
       None \<Rightarrow> do {
         s1 \<leftarrow> take_free_mutex m t suspend_flag s0;
         Some (Done RT_EOK, s1)
       }
     | Some own \<Rightarrow>
         if own = t
         then if hold (mutexes s0 m) < RT_MUTEX_HOLD_MAX
              then Some (Done RT_EOK, upd_mutex m (\<lambda>r. r\<lparr>hold := hold r + 1\<rparr>) s0)
              else Some (Done (- RT_EFULL), s0)
         else if timeout = 0
              then Some (Done (- RT_ETIMEOUT), set_error t (- RT_ETIMEOUT) s0)
              else do {
                let priority = current_priority (thr s0 t);
                (ret, s1) \<leftarrow> ipc_list_suspend (MutexWait m) t (mutex_flag m s0) suspend_flag s0;
                if ret \<noteq> RT_EOK then Some (Done ret, s1)
                else do {
                  let s2 = upd_thread t (\<lambda>r. r\<lparr>pending_object := Some (OMutex m)\<rparr>) s1;
                  s3 \<leftarrow> inherit_priority m own priority s2;
                  s4 \<leftarrow> (if 0 < timeout then arm_timer t (word_of_int timeout) s3 else Some s3);
                  s5 \<leftarrow> rt_schedule s4;
                  Some (Blocked, s5)
                }
              }
   }"

definition rt_mutex_take_resumed :: "nat \<Rightarrow> tid \<Rightarrow> kernel \<Rightarrow> (err \<times> kernel) option" where
  "rt_mutex_take_resumed m t s =
    (if thr_error (thr s t) = RT_EOK then Some (RT_EOK, s)
     else do {
       let need_update = owner_has_priority_of m t s;
       let s1 = upd_mutex m (\<lambda>r. r\<lparr>mtx_priority := head_priority m s\<rparr>) s;
       s2 \<leftarrow> (if need_update then restore_owner m s1 else Some s1);
       let s3 = upd_thread t (\<lambda>r. r\<lparr>pending_object := None\<rparr>) s2;
       let ret = thr_error (thr s3 t);
       Some (if ret > 0 then - ret else ret, s3)
     })"

definition rt_mutex_take :: "nat \<Rightarrow> int \<Rightarrow> kernel \<Rightarrow> (err outcome \<times> kernel) option" where
  "rt_mutex_take m time s = rt_mutex_take_flag m time RT_UNINTERRUPTIBLE s"

definition rt_mutex_take_interruptible :: "nat \<Rightarrow> int \<Rightarrow> kernel \<Rightarrow> (err outcome \<times> kernel) option" where
  "rt_mutex_take_interruptible m time s = rt_mutex_take_flag m time RT_INTERRUPTIBLE s"

definition rt_mutex_take_killable :: "nat \<Rightarrow> int \<Rightarrow> kernel \<Rightarrow> (err outcome \<times> kernel) option" where
  "rt_mutex_take_killable m time s = rt_mutex_take_flag m time RT_KILLABLE s"

definition rt_mutex_trytake :: "nat \<Rightarrow> kernel \<Rightarrow> (err outcome \<times> kernel) option" where
  "rt_mutex_trytake m s = rt_mutex_take m RT_WAITING_NO s"

definition hand_over :: "nat \<Rightarrow> tid \<Rightarrow> kernel \<Rightarrow> kernel option" where
  "hand_over m next_thread s = do {
     let s1 = upd_mutex m (\<lambda>r. r\<lparr>owner := Some next_thread, hold := 1\<rparr>) (tl_remove next_thread s);
     let s2 = upd_thread next_thread (\<lambda>r. r\<lparr>taken_object_list := m # taken_object_list r,
                                            pending_object := None\<rparr>) s1;
     (_, s3) \<leftarrow> rt_thread_resume next_thread s2;
     Some (upd_mutex m (\<lambda>r. r\<lparr>mtx_priority := head_priority m s3\<rparr>) s3)
   }"

definition rt_mutex_release :: "nat \<Rightarrow> kernel \<Rightarrow> (err \<times> kernel) option" where
  "rt_mutex_release m s = do {
     rt_assert (rt_object_get_type (OMutex m) s = RT_Object_Class_Mutex);
     t \<leftarrow> rt_thread_self s;
     if owner (mutexes s m) \<noteq> Some t
     then Some (- RT_ERROR, set_error t (- RT_ERROR) s)
     else do {
       let s1 = upd_mutex m (\<lambda>r. r\<lparr>hold := hold r - 1\<rparr>) s;
       if hold (mutexes s1 m) \<noteq> 0 then Some (RT_EOK, s1)
       else do {
         let s2 = untake m s1;
         let lower = (ceiling_priority (mutexes s2 m) \<noteq> 0xff \<or>
                      current_priority (thr s2 t) = mtx_priority (mutexes s2 m));
         s3 \<leftarrow> (if lower
                 then do { (_, s') \<leftarrow> thread_change_priority t (thread_get_mutex_priority t s2) s2; Some s' }
                 else Some s2);
         (need_schedule, s4) \<leftarrow>
           (case lists s3 (MutexWait m) of
              next_thread # _ \<Rightarrow> do { s' \<leftarrow> hand_over m next_thread s3; Some (True, s') }
            | [] \<Rightarrow> Some (lower, upd_mutex m (\<lambda>r. r\<lparr>owner := None, mtx_priority := 0xff\<rparr>) s3));
         s5 \<leftarrow> (if need_schedule then rt_schedule s4 else Some s4);
         Some (RT_EOK, s5)
       }
     }
   }"

definition rt_mutex_control :: "nat \<Rightarrow> int \<Rightarrow> 64 word \<Rightarrow> kernel \<Rightarrow> (err \<times> kernel) option" where
  "rt_mutex_control m cmd arg s = do {
     rt_assert (rt_object_get_type (OMutex m) s = RT_Object_Class_Mutex);
     Some (- RT_ERROR, s)
   }"

end
