(* ===== verification/PriorityInherit.thy ===== *)
theory PriorityInherit
  imports Mutex
begin

text \<open>
  Priority inheritance.  \<^verbatim>\<open>pi_inv\<close> says how ownership, wait lists and priorities fit
  together when no mutex has a ceiling; the theory shows that the chain of
  \<^verbatim>\<open>_thread_update_priority\<close> comes to an end when the threads do not wait for each
  other in a circle, that it restores the invariant, and that taking and releasing
  keep it.
\<close>

section \<open>Changing a priority\<close>

definition prio_changed :: "tid \<Rightarrow> 8 word \<Rightarrow> kernel \<Rightarrow> kernel \<Rightarrow> bool" where
  "prio_changed t p s s' \<longleftrightarrow> sys_inv s' \<and> ipc_frame s s' \<and> stat_only (upd_thread t (set_priority p) s) s' \<and>
     (\<forall>u. live s' u = live s u \<and> suspended s' u = suspended s u \<and> stat_of s' u = stat_of s u) \<and>
     (\<forall>l. wait_id l \<or> l = Defunct \<longrightarrow> lists s' l = lists s l) \<and>
     rt_current_thread s' = rt_current_thread s \<and> runnable s \<subseteq> runnable s'"

lemma set_priority_simps [simp]:
  "stat (set_priority p r) = stat r" "current_priority (set_priority p r) = p"
  "started (set_priority p r)" "thr_error (set_priority p r) = thr_error r"
  "taken_object_list (set_priority p r) = taken_object_list r"
  "pending_object (set_priority p r) = pending_object r" "init_priority (set_priority p r) = init_priority r"
  by (simp_all add: set_priority_def started_def)

lemma kernel_inv_set_priority:
  assumes inv: "kernel_inv s" and p: "unat p < 32" and l: "\<And>q. t \<notin> set (lists s (Ready q))"
  shows "kernel_inv (upd_thread t (set_priority p) s)"
proof -
  let ?s = "upd_thread t (set_priority p) s"
  have "list_fits l (set_priority p (thr s t))" if "t \<in> set (lists s l)" "list_fits l (thr s t)" for l
    using that assms(3) by (cases l) auto
  then have "ready_inv ?s"
    using p by (intro ready_inv_upd [OF kernel_invD(2) [OF inv]]) (auto simp: thr_ok_def)
  moreover have "cur_inv ?s"
    using kernel_invD(3) [OF inv] by (auto simp: cur_inv_def stat_of_def)
  moreover have "timer_inv ?s = timer_inv s"
    by (rule timer_inv_cong) simp_all
  moreover have "thread_object_ok ?s u = thread_object_ok s u" for u
    by (rule thread_object_ok_cong) simp_all
  moreover have "live ?s u = live s u" "suspended ?s u = suspended s u" for u
    by (auto simp: live_def stat_of_def suspended_def)
  ultimately show ?thesis
    using inv by (simp add: kernel_inv_def sched_inv_def thread_inv_def)
qed

lemma kernel_inv_ready_remove:
  assumes "kernel_inv s" "started (thr s t)"
  shows "kernel_inv (ready_remove t s)"
proof -
  have r: "rest (ready_remove t s) = rest s"
    by (simp add: ready_remove_def Let_def tl_remove_def)
  have "timer_inv (ready_remove t s)" using rest_timer_inv [OF r] kernel_invD(4) [OF assms(1)] by simp
  moreover have "thread_inv (ready_remove t s)"
    by (rule thread_inv_sched_step [OF kernel_invD(5) [OF assms(1)] r])
       (auto simp: live_def suspended_def stat_of_def)
  ultimately show ?thesis
    using sched_inv_remove [OF kernel_invD(1) [OF assms(1)] assms(2)] by (simp add: kernel_inv_def)
qed

lemma change_priority_ready:
  assumes inv: "sys_inv s" and t: "stat_of s t = RT_THREAD_READY" and p: "unat p < 32"
  shows "\<exists>s'. thread_change_priority t p s = Some (RT_EOK, s') \<and> prio_changed t p s s'"
proof -
  note k = sys_invD(1) [OF inv]
  let ?s1 = "ready_remove t s"
  let ?s2 = "upd_thread t (set_priority p) ?s1"
  let ?s3 = "ready_insert t ?s2"
  have live: "live s t" using t by (simp add: live_def)
  have st: "started (thr s t)" using live_started [OF kernel_invD(2) [OF k] live] .
  have ok: "thread_object_ok s t" using kernel_invD(6) [OF k live] .
  have nc: "rt_current_thread s \<noteq> Some t"
    using kernel_invD(3) [OF k] t by (auto simp: cur_inv_def)
  have ns: "\<not> suspended s t"
    using t ready_not_suspended(1) [of "stat (thr s t)"] by (simp add: suspended_def stat_of_def)
  have rem: "rt_schedule_remove_thread t s = Some ?s1"
    using sched_inv_remove [OF kernel_invD(1) [OF k] st] by simp
  have u1: "unlinked t (lists ?s1)" by simp
  have k2: "kernel_inv ?s2"
    by (rule kernel_inv_set_priority [OF kernel_inv_ready_remove [OF k st] p]) (use u1 in \<open>auto simp: unlinked_def\<close>)
  have r1: "rest ?s1 = rest s" "rt_current_thread ?s1 = rt_current_thread s"
    "rt_scheduler_lock_nest ?s1 = rt_scheduler_lock_nest s"
    by (simp_all add: ready_remove_def Let_def tl_remove_def)
  have nt: "ThreadTimer t \<notin> set (timer_lists ?s2 HardTimers)"
    using kernel_invD(7) [OF k, of t] ns thread_timer_member_rest(1) [OF r1(1)] by auto
  have k3: "kernel_inv ?s3"
    by (rule kernel_inv_insert [OF k2])
       (use u1 nt nc r1 ok rest_thread_object_ok [of ?s2 s t] in auto)
  have ins: "rt_schedule_insert_thread t ?s2 = Some ?s3"
    using insert_thread_ready [of ?s2 t] nc r1(2) p by (simp add: prio_of_def)
  have r3: "rest ?s3 = rest s" "rt_current_thread ?s3 = rt_current_thread s"
    "rt_scheduler_lock_nest ?s3 = rt_scheduler_lock_nest s"
    using r1 by (simp_all add: ready_insert_def Let_def)
  have i3: "sys_inv ?s3"
    using tick_inv_sched_step [OF sys_invD(2) [OF inv] k3 r3(1)] r3(2) sys_invD(3,4) [OF inv] by (auto simp: sys_inv_def)
  have so: "stat_only (upd_thread t (set_priority p) s) ?s3"
    by (simp add: stat_only_def ready_insert_def Let_def set_stat_def)
  have sto: "stat_of ?s3 u = stat_of s u" for u
    using t by (simp add: stat_of_def ready_insert_def Let_def)
  have susp: "suspended ?s3 u = suspended s u" for u
    using ns by (auto simp: suspended_def ready_insert_def Let_def)
  have mem: "t \<in> set (lists s (Ready q)) \<Longrightarrow> q = prio_of s t" for q
    using prio_of_ready [OF kernel_invD(2) [OF k]] by metis
  have notw: "t \<notin> set (lists s l)" if "wait_id l \<or> l = Defunct" for l
    using that waiter_suspended [OF k, of l t] ns ready_invD(3) [OF kernel_invD(2) [OF k], of t Defunct] t
    by (auto simp: stat_of_def)
  have ls: "lists ?s3 l = lists s l" if "wait_id l \<or> l = Defunct" for l
    using that notw [OF that] by (auto simp: ready_insert_def Let_def family_remove_def removeAll_notin)
  have "(\<exists>q. u \<in> set (lists ?s3 (Ready q))) \<longleftrightarrow> u = t \<or> (\<exists>q. u \<in> set (lists s (Ready q)))" for u
    unfolding ready_insert_set by (auto simp: family_remove_def)
  then have run: "runnable ?s3 = insert t (runnable s)"
    using r3(2) sto by (auto simp: runnable_def)
  have eq: "thread_change_priority t p s = Some (RT_EOK, ?s3)"
    using ok t rem ins by (simp add: thread_change_priority_def thread_object_ok_def)
  have "live ?s3 u = live s u" for u using sto by (simp add: live_def)
  with i3 r3 so sto susp ls run have "prio_changed t p s ?s3"
    by (simp add: prio_changed_def ipc_frame_rest subset_insertI)
  with eq show ?thesis by blast
qed

lemma change_priority:
  assumes inv: "sys_inv s" and t: "live s t" and p: "unat p < 32"
  shows "\<exists>s'. thread_change_priority t p s = Some (RT_EOK, s') \<and> prio_changed t p s s'"
proof (cases "stat_of s t = RT_THREAD_READY")
  case True
  then show ?thesis by (rule change_priority_ready [OF inv _ p])
next
  case False
  let ?s = "upd_thread t (set_priority p) s"
  have k: "kernel_inv ?s"
    by (rule kernel_inv_set_priority [OF sys_invD(1) [OF inv] p])
       (use False ready_stat [OF kernel_invD(2) [OF sys_invD(1) [OF inv]], of t] in auto)
  have "sys_inv ?s"
    by (rule sys_inv_cong [OF inv k]) (use sys_invD(4) [OF inv] in auto)
  then have "prio_changed t p s ?s"
    by (auto simp: prio_changed_def live_def suspended_def stat_of_def runnable_def)
  moreover have "rt_object_get_type (OThread t) s = RT_Object_Class_Thread"
    using kernel_invD(6) [OF sys_invD(1) [OF inv] t] by (simp add: thread_object_ok_def)
  ultimately show ?thesis
    using False by (auto simp: thread_change_priority_def)
qed

lemma prio_changedD:
  assumes "prio_changed t p s s'"
  shows "sys_inv s'" "ipc_frame s s'" "live s' u = live s u" "suspended s' u = suspended s u"
    "stat_of s' u = stat_of s u" "wait_id l \<Longrightarrow> lists s' l = lists s l" "rt_current_thread s' = rt_current_thread s"
    "current_priority (thr s' t) = p" "u \<noteq> t \<Longrightarrow> current_priority (thr s' u) = current_priority (thr s u)"
    "taken_object_list (thr s' u) = taken_object_list (thr s u)" "pending_object (thr s' u) = pending_object (thr s u)"
    "init_priority (thr s' u) = init_priority (thr s u)" "thr_error (thr s' u) = thr_error (thr s u)"
    "mutexes s' = mutexes s" "runnable s \<subseteq> runnable s'" "lists s' Defunct = lists s Defunct"
  using assms stat_only_fields [of "upd_thread t (set_priority p) s" s'] ipc_frameD(2) [of s s']
  by (auto simp: prio_changed_def)

section \<open>The invariant\<close>

definition owns :: "kernel \<Rightarrow> tid \<Rightarrow> nat \<Rightarrow> bool" where
  "owns s t m \<longleftrightarrow> owner (mutexes s m) = Some t"

definition waits :: "kernel \<Rightarrow> tid \<Rightarrow> nat \<Rightarrow> bool" where
  "waits s t m \<longleftrightarrow> t \<in> set (lists s (MutexWait m))"

text \<open>The structure: who owns, who waits, and what the fields of the threads say about it.\<close>

definition mutex_struct :: "kernel \<Rightarrow> bool" where
  "mutex_struct s \<longleftrightarrow>
     (\<forall>t m. m \<in> set (taken_object_list (thr s t)) \<longleftrightarrow> owns s t m) \<and>
     (\<forall>t m. owns s t m \<longrightarrow> live s t) \<and>
     (\<forall>t m. waits s t m \<longrightarrow> pending_object (thr s t) = Some (OMutex m) \<and> (\<exists>u. owns s u m)) \<and>
     (\<forall>t m. suspended s t \<longrightarrow> pending_object (thr s t) = Some (OMutex m) \<longrightarrow> waits s t m) \<and>
     (\<forall>t m. owns s t m \<longrightarrow> rt_object_get_type (OMutex m) s = RT_Object_Class_Mutex \<and>
        mutex_flag m s = RT_IPC_FLAG_PRIO \<and> ceiling_priority (mutexes s m) = 0xff) \<and>
     (\<forall>t. unat (init_priority (thr s t)) < 32)"

definition prio_key :: "kernel \<Rightarrow> tid \<Rightarrow> 8 word" where
  "prio_key s t = current_priority (thr s t)"

text \<open>
  The priorities.  A mutex never claims a lower priority than its first waiter has,
  and a thread runs at the best of its own priority and those of its mutexes.
\<close>

definition pi_inv :: "kernel \<Rightarrow> bool" where
  "pi_inv s \<longleftrightarrow> mutex_struct s \<and>
     (\<forall>m. sorted (map (prio_key s) (lists s (MutexWait m)))) \<and>
     (\<forall>t m. owns s t m \<longrightarrow> mtx_priority (mutexes s m) \<le> head_priority m s) \<and>
     (\<forall>t. current_priority (thr s t) = thread_get_mutex_priority t s)"

text \<open>The same with the place of \<open>t\<close> in the list it waits in still to be corrected.\<close>

definition pi_except :: "tid \<Rightarrow> kernel \<Rightarrow> bool" where
  "pi_except t s \<longleftrightarrow> mutex_struct s \<and>
     (\<forall>m. sorted (map (prio_key s) (removeAll t (lists s (MutexWait m))))) \<and>
     (\<forall>u m. owns s u m \<longrightarrow> \<not> waits s t m \<longrightarrow> mtx_priority (mutexes s m) \<le> head_priority m s) \<and>
     (\<forall>u. current_priority (thr s u) = thread_get_mutex_priority u s)"

definition no_cycle :: "(tid \<Rightarrow> nat) \<Rightarrow> kernel \<Rightarrow> bool" where
  "no_cycle rank s \<longleftrightarrow> (\<forall>t u m. waits s t m \<longrightarrow> owns s u m \<longrightarrow> rank u < rank t)"

section \<open>The priority a thread inherits\<close>

lemma if_less_min: "(if a < b then a else b) = min a (b :: 'a :: linorder)"
  by (auto simp: min_def)

definition mutex_prio :: "kernel \<Rightarrow> nat \<Rightarrow> 8 word" where
  "mutex_prio s m = min (mtx_priority (mutexes s m)) (ceiling_priority (mutexes s m))"

lemma get_mutex_priority_Cons:
  "get_mutex_priority_loop (m # ms) p s = get_mutex_priority_loop ms (min (mutex_prio s m) p) s"
  by (simp only: get_mutex_priority_loop.simps Let_def if_less_min mutex_prio_def)

declare get_mutex_priority_loop.simps(2) [simp del] get_mutex_priority_Cons [simp]

lemma get_mutex_priority_base: "get_mutex_priority_loop ms p s \<le> p"
proof (induction ms arbitrary: p)
  case (Cons a ms)
  show ?case using Cons.IH [of "min (mutex_prio s a) p"] by simp
qed simp

lemma get_mutex_priority_le:
  "m \<in> set ms \<Longrightarrow> get_mutex_priority_loop ms p s \<le> mutex_prio s m"
proof (induction ms arbitrary: p)
  case (Cons a ms)
  with get_mutex_priority_base [of ms "min (mutex_prio s a) p" s] show ?case by auto
qed simp

lemma get_mutex_priority_attained:
  "get_mutex_priority_loop ms p s = p \<or> (\<exists>m \<in> set ms. get_mutex_priority_loop ms p s = mutex_prio s m)"
proof (induction ms arbitrary: p)
  case (Cons a ms)
  show ?case using Cons.IH [of "min (mutex_prio s a) p"] by (auto simp: min_def)
qed simp

lemma get_mutex_priority_cong:
  assumes "\<And>m. m \<in> set ms \<Longrightarrow> mutexes s' m = mutexes s m"
  shows "get_mutex_priority_loop ms p s' = get_mutex_priority_loop ms p s"
  using assms by (induction ms arbitrary: p) (simp_all add: mutex_prio_def)

text \<open>The least of the thread's own priority and those of its mutexes, as a characterisation.\<close>

lemma get_mutex_priority_eq:
  assumes "v \<le> p" "\<And>m. m \<in> set ms \<Longrightarrow> v \<le> mutex_prio s m" "v = p \<or> (\<exists>m \<in> set ms. v = mutex_prio s m)"
  shows "get_mutex_priority_loop ms p s = v"
  using get_mutex_priority_attained [of ms p s] get_mutex_priority_base [of ms p s]
    get_mutex_priority_le [of _ ms p s] assms by (metis order.antisym)

section \<open>One step of the chain\<close>

definition requeued :: "nat \<Rightarrow> tid \<Rightarrow> kernel \<Rightarrow> kernel" where
  "requeued m t s = enqueued (MutexWait m) t RT_IPC_FLAG_PRIO (tl_remove t s)"

definition pi_frame :: "kernel \<Rightarrow> kernel \<Rightarrow> bool" where
  "pi_frame s s' \<longleftrightarrow>
     (\<forall>m. (mutexes s' m)\<lparr>mtx_priority := 0\<rparr> = (mutexes s m)\<lparr>mtx_priority := 0\<rparr>) \<and>
     (\<forall>u. taken_object_list (thr s' u) = taken_object_list (thr s u) \<and> thr_error (thr s' u) = thr_error (thr s u) \<and>
        pending_object (thr s' u) = pending_object (thr s u) \<and> init_priority (thr s' u) = init_priority (thr s u) \<and>
        live s' u = live s u \<and> suspended s' u = suspended s u \<and> stat_of s' u = stat_of s u) \<and>
     (\<forall>m. set (lists s' (MutexWait m)) = set (lists s (MutexWait m))) \<and>
     (\<forall>l. wait_id l \<or> l = Defunct \<longrightarrow> (\<forall>m. l \<noteq> MutexWait m) \<longrightarrow> lists s' l = lists s l) \<and>
     rt_current_thread s' = rt_current_thread s \<and> sems s' = sems s \<and> events s' = events s \<and>
     mailboxes s' = mailboxes s \<and> mqs s' = mqs s \<and>
     (\<forall>a. rt_object_get_type a s' = rt_object_get_type a s) \<and> (\<forall>m. mutex_flag m s' = mutex_flag m s)"

lemma pi_frame_refl [simp]: "pi_frame s s"
  by (simp add: pi_frame_def)

lemma pi_frame_trans: "pi_frame s s' \<Longrightarrow> pi_frame s' s'' \<Longrightarrow> pi_frame s s''"
  by (simp add: pi_frame_def)

lemma mutex_upd_fields: "r\<lparr>mtx_priority := 0\<rparr> = r'\<lparr>mtx_priority := 0\<rparr> \<Longrightarrow>
    owner r = owner r' \<and> hold r = hold r' \<and> ceiling_priority r = ceiling_priority r'"
  by (cases r; cases r') simp

lemma pi_frameD:
  assumes "pi_frame s s'"
  shows "owner (mutexes s' m) = owner (mutexes s m)" "hold (mutexes s' m) = hold (mutexes s m)"
    "ceiling_priority (mutexes s' m) = ceiling_priority (mutexes s m)"
    "owns s' t m = owns s t m" "waits s' t m = waits s t m"
  using assms mutex_upd_fields [of "mutexes s' m" "mutexes s m"] by (auto simp: pi_frame_def owns_def waits_def)

lemma pi_frame_threads:
  assumes "pi_frame s s'"
  shows "taken_object_list (thr s' u) = taken_object_list (thr s u)" "thr_error (thr s' u) = thr_error (thr s u)"
    "pending_object (thr s' u) = pending_object (thr s u)" "init_priority (thr s' u) = init_priority (thr s u)"
    "live s' u = live s u" "suspended s' u = suspended s u" "stat_of s' u = stat_of s u"
    "rt_current_thread s' = rt_current_thread s" "rt_object_get_type a s' = rt_object_get_type a s"
    "mutex_flag m s' = mutex_flag m s"
  using assms by (simp_all add: pi_frame_def)

lemma mutex_struct_frame:
  assumes "pi_frame s s'" shows "mutex_struct s' = mutex_struct s"
  by (simp only: mutex_struct_def pi_frameD [OF assms] pi_frame_threads [OF assms])

lemma no_cycle_frame:
  assumes "pi_frame s s'" shows "no_cycle rank s' = no_cycle rank s"
  by (simp only: no_cycle_def pi_frameD(4,5) [OF assms])

lemma pi_frame_changed:
  assumes "prio_changed t p s s'" shows "pi_frame s s'"
  using prio_changedD [OF assms] ipc_frameD [OF prio_changedD(2) [OF assms]]
  by (simp add: pi_frame_def mutex_flag_def)

lemma upd_mutex_frame [simp]:
  "threads (upd_mutex m f s) = threads s" "lists (upd_mutex m f s) = lists s"
  "rt_current_thread (upd_mutex m f s) = rt_current_thread s" "sys_inv (upd_mutex m f s) = sys_inv s"
  "live (upd_mutex m f s) u = live s u" "suspended (upd_mutex m f s) u = suspended s u"
  "stat_of (upd_mutex m f s) u = stat_of s u" "rt_object_get_type a (upd_mutex m f s) = rt_object_get_type a s"
  "mutex_flag k (upd_mutex m f s) = mutex_flag k s" "mutexes (upd_mutex m f s) m = f (mutexes s m)"
  "k \<noteq> m \<Longrightarrow> mutexes (upd_mutex m f s) k = mutexes s k" "head_priority k (upd_mutex m f s) = head_priority k s"
  "prio_key (upd_mutex m f s) = prio_key s" "sems (upd_mutex m f s) = sems s" "events (upd_mutex m f s) = events s"
  "mailboxes (upd_mutex m f s) = mailboxes s" "mqs (upd_mutex m f s) = mqs s"
  "runnable (upd_mutex m f s) = runnable s"
  by (simp_all add: upd_mutex_def mutex_flag_def head_priority_def prio_key_def fun_eq_iff runnable_def stat_of_def
      split: list.split)

lemma sys_inv_tl_remove:
  assumes "sys_inv s" "suspended s t" shows "sys_inv (tl_remove t s)"
  by (rule sys_inv_cong [OF assms(1) kernel_inv_tl_remove [OF sys_invD(1) [OF assms(1)] assms(2)]])
     (use sys_invD(4) [OF assms(1)] in \<open>auto simp: tl_remove_def\<close>)

lemma tl_remove_frame [simp]:
  "threads (tl_remove t s) = threads s" "suspended (tl_remove t s) u = suspended s u" "live (tl_remove t s) u = live s u"
  "stat_of (tl_remove t s) u = stat_of s u" "rt_current_thread (tl_remove t s) = rt_current_thread s"
  "mutexes (tl_remove t s) = mutexes s" "ipc_frame s (tl_remove t s)" "lists (tl_remove t s) = family_remove t (lists s)"
  by (simp_all add: tl_remove_def suspended_def live_def stat_of_def)

lemma requeue_eq:
  assumes inv: "sys_inv s" and t: "suspended s t"
  shows "ipc_list_suspend (MutexWait m) t RT_IPC_FLAG_PRIO f (tl_remove t s) = Some (RT_EOK, requeued m t s)"
    and "sys_inv (requeued m t s)"
proof -
  have "stat (thr (tl_remove t s) t) AND 4 = 4" using t by (simp add: suspended_def)
  then show "ipc_list_suspend (MutexWait m) t RT_IPC_FLAG_PRIO f (tl_remove t s) = Some (RT_EOK, requeued m t s)"
    by (simp add: ipc_list_suspend_def ipc_enqueue_eq requeued_def)
  show "sys_inv (requeued m t s)"
    unfolding requeued_def using t
    by (intro sys_inv_enqueued [OF sys_inv_tl_remove [OF inv t]]) simp_all
qed

lemma requeued_lists:
  assumes inv: "sys_inv s" and w: "waits s t m"
  shows "lists (requeued m t s) (MutexWait m) =
      insert_where (\<lambda>u. prio_key s t < prio_key s u) t (removeAll t (lists s (MutexWait m)))"
    and "l \<noteq> MutexWait m \<Longrightarrow> lists (requeued m t s) l = lists s l"
proof -
  show "lists (requeued m t s) (MutexWait m) =
      insert_where (\<lambda>u. prio_key s t < prio_key s u) t (removeAll t (lists s (MutexWait m)))"
    by (simp add: requeued_def enqueued_def wait_order_def prio_key_def family_remove_def)
  have "t \<notin> set (lists s l)" if "l \<noteq> MutexWait m"
    using ready_invD(1) [OF kernel_invD(2) [OF sys_invD(1) [OF inv]]] w that
    unfolding family_ok_def waits_def by blast
  then show "l \<noteq> MutexWait m \<Longrightarrow> lists (requeued m t s) l = lists s l"
    by (simp add: requeued_def enqueued_def family_remove_def removeAll_notin)
qed

lemma requeued_frame [simp]:
  "threads (requeued m t s) = threads s" "mutexes (requeued m t s) = mutexes s" "prio_key (requeued m t s) = prio_key s"
  "rt_current_thread (requeued m t s) = rt_current_thread s" "ipc_frame s (requeued m t s)"
  "suspended (requeued m t s) u = suspended s u" "live (requeued m t s) u = live s u" "stat_of (requeued m t s) u = stat_of s u"
  using ipc_frame_trans [OF tl_remove_frame(7) enqueued_frame(8)]
    ipc_frameD(2) [OF ipc_frame_trans [OF tl_remove_frame(7) enqueued_frame(8)]]
  by (simp_all add: requeued_def prio_key_def fun_eq_iff)

definition settled :: "nat \<Rightarrow> tid \<Rightarrow> kernel \<Rightarrow> kernel" where
  "settled m t s = mutex_update_priority m (requeued m t s)"

lemma settled_frame:
  assumes "sys_inv s" "suspended s t" "waits s t m"
  shows "sys_inv (settled m t s)" "pi_frame s (settled m t s)" "threads (settled m t s) = threads s"
proof -
  have ls: "set (lists (requeued m t s) (MutexWait k)) = set (lists s (MutexWait k))" for k
    using requeued_lists [OF assms(1,3)] assms(3) by (cases "k = m") (auto simp: waits_def)
  show "sys_inv (settled m t s)" "threads (settled m t s) = threads s"
    using requeue_eq(2) [OF assms(1,2)] by (simp_all add: settled_def mutex_update_priority_def)
  let ?s1 = "requeued m t s"
  have mx: "(mutexes (settled m t s) k)\<lparr>mtx_priority := 0\<rparr> = (mutexes s k)\<lparr>mtx_priority := 0\<rparr>" for k
    by (cases "k = m") (simp_all add: settled_def mutex_update_priority_def)
  note f = ipc_frameD [OF requeued_frame(5) [of s m t]]
  have fl: "mutex_flag k ?s1 = mutex_flag k s" for k
    using f(9) by (simp add: mutex_flag_def)
  have other: "lists ?s1 l = lists s l" if "\<forall>k. l \<noteq> MutexWait k" for l
    using requeued_lists(2) [OF assms(1,3)] that by simp
  show "pi_frame s (settled m t s)"
    unfolding pi_frame_def using mx
    by (simp add: settled_def mutex_update_priority_def ls fl other f)
qed

lemma mutex_structD:
  assumes "mutex_struct s"
  shows "m \<in> set (taken_object_list (thr s t)) \<longleftrightarrow> owns s t m" "owns s t m \<Longrightarrow> live s t"
    "waits s t m \<Longrightarrow> pending_object (thr s t) = Some (OMutex m)" "waits s t m \<Longrightarrow> \<exists>u. owns s u m"
    "suspended s t \<Longrightarrow> pending_object (thr s t) = Some (OMutex m) \<Longrightarrow> waits s t m"
    "owns s t m \<Longrightarrow> rt_object_get_type (OMutex m) s = RT_Object_Class_Mutex"
    "owns s t m \<Longrightarrow> mutex_flag m s = RT_IPC_FLAG_PRIO" "owns s t m \<Longrightarrow> ceiling_priority (mutexes s m) = 0xff"
    "unat (init_priority (thr s t)) < 32"
  using assms unfolding mutex_struct_def by blast+

lemma get_priority_frame:
  assumes "pi_frame s s'" "\<And>m. m \<in> set (taken_object_list (thr s u)) \<Longrightarrow> mtx_priority (mutexes s' m) = mtx_priority (mutexes s m)"
  shows "thread_get_mutex_priority u s' = thread_get_mutex_priority u s"
  unfolding thread_get_mutex_priority_def pi_frame_threads [OF assms(1)]
proof (rule get_mutex_priority_cong)
  fix m
  assume "m \<in> set (taken_object_list (thr s u))"
  with assms(2) [of m] pi_frameD(1-3) [OF assms(1), of m] show "mutexes s' m = mutexes s m"
    by (simp add: rt_mutex.equality)
qed

lemma settled_pi:
  assumes inv: "sys_inv s" and ex: "pi_except t s" and t: "suspended s t" "waits s t m" and own: "owns s own m"
  shows "\<And>k. sorted (map (prio_key s) (lists (settled m t s) (MutexWait k)))"
    and "\<And>u k. owns s u k \<Longrightarrow> mtx_priority (mutexes (settled m t s) k) \<le> head_priority k (settled m t s)"
    and "\<And>u. u \<noteq> own \<Longrightarrow> current_priority (thr s u) = thread_get_mutex_priority u (settled m t s)"
proof -
  let ?s = "settled m t s"
  note rq = requeued_lists [OF inv t(2)]
  have lists: "lists ?s = lists (requeued m t s)"
    by (simp add: settled_def mutex_update_priority_def)
  have st: "mutex_struct s" using ex by (simp add: pi_except_def)
  have nw: "\<not> waits s t k" if "k \<noteq> m" for k
    using mutex_structD(3) [OF st, of t k] mutex_structD(3) [OF st t(2)] that by auto
  show "sorted (map (prio_key s) (lists ?s (MutexWait k)))" for k
  proof (cases "k = m")
    case True
    have "sorted (map (prio_key s) (removeAll t (lists s (MutexWait m))))"
      using ex by (simp add: pi_except_def)
    then show ?thesis
      using True lists rq(1) sorted_insert_where by simp
  next
    case False
    then have "removeAll t (lists s (MutexWait k)) = lists s (MutexWait k)"
      using nw [OF False] by (simp add: waits_def)
    with ex False show ?thesis
      using lists rq(2) by (simp add: pi_except_def) metis
  qed
  show "mtx_priority (mutexes ?s k) \<le> head_priority k ?s" if "owns s u k" for u k
  proof (cases "k = m")
    case True
    then show ?thesis by (simp add: settled_def mutex_update_priority_def)
  next
    case False
    have "head_priority k ?s = head_priority k s"
      using rq(2) [of "MutexWait k"] False
      by (simp add: head_priority_def lists settled_def mutex_update_priority_def cong: list.case_cong)
    with False nw [OF False] ex that show ?thesis
      by (auto simp: pi_except_def settled_def mutex_update_priority_def)
  qed
  show "current_priority (thr s u) = thread_get_mutex_priority u ?s" if "u \<noteq> own" for u
  proof -
    have "m \<notin> set (taken_object_list (thr s u))"
      using mutex_structD(1) [OF st, of m u] own that by (auto simp: owns_def)
    then have "thread_get_mutex_priority u ?s = thread_get_mutex_priority u s"
      by (intro get_priority_frame [OF settled_frame(2) [OF inv t]])
         (auto simp: settled_def mutex_update_priority_def upd_mutex_def)
    with ex show ?thesis by (simp add: pi_except_def)
  qed
qed

lemma pi_except_changed:
  assumes ch: "prio_changed own p s s'" and st: "mutex_struct s"
    and sorted: "\<And>k. sorted (map (prio_key s) (lists s (MutexWait k)))"
    and E: "\<And>u k. owns s u k \<Longrightarrow> mtx_priority (mutexes s k) \<le> head_priority k s"
    and F: "\<And>u. u \<noteq> own \<Longrightarrow> current_priority (thr s u) = thread_get_mutex_priority u s"
    and p: "p = thread_get_mutex_priority own s"
  shows "pi_except own s'"
proof -
  note c = prio_changedD [OF ch]
  have fr: "pi_frame s s'" by (rule pi_frame_changed [OF ch])
  have ls: "lists s' (MutexWait k) = lists s (MutexWait k)" for k by (simp add: c(6))
  have "map (prio_key s') (removeAll own (lists s (MutexWait k))) = map (prio_key s) (removeAll own (lists s (MutexWait k)))" for k
    using c(9) by (auto simp: prio_key_def)
  then have "sorted (map (prio_key s') (removeAll own (lists s' (MutexWait k))))" for k
    unfolding ls by (simp only: sorted_map_removeAll [OF sorted])
  moreover have "mtx_priority (mutexes s' k) \<le> head_priority k s'" if "owns s' u k" "\<not> waits s' own k" for u k
  proof -
    have "own \<notin> set (lists s (MutexWait k))" using that(2) ls by (simp add: waits_def)
    then have "head_priority k s' = head_priority k s"
      using c(9) by (auto simp: head_priority_def ls split: list.split)
    then show ?thesis using E [of u k] that(1) c(14) by (simp add: owns_def)
  qed
  moreover have "thread_get_mutex_priority u s' = thread_get_mutex_priority u s" for u
    by (rule get_priority_frame [OF fr]) (simp add: c(14))
  then have "current_priority (thr s' u) = thread_get_mutex_priority u s'" for u
    using F [of u] c(8) c(9) [of u] p by (cases "u = own") simp_all
  ultimately show ?thesis
    using st mutex_struct_frame [OF fr] by (simp add: pi_except_def)
qed

lemma pi_except_done:
  assumes "sys_inv s" "pi_except t s" "\<not> suspended s t \<or> (\<forall>m. pending_object (thr s t) \<noteq> Some (OMutex m))"
  shows "pi_inv s"
proof -
  have st: "mutex_struct s" using assms(2) by (simp add: pi_except_def)
  have nw: "\<not> waits s t m" for m
    using assms(3) mutex_structD(3) [OF st, of t m] waiter_suspended [OF sys_invD(1) [OF assms(1)], of "MutexWait m" t]
    by (auto simp: waits_def)
  then have "removeAll t (lists s (MutexWait m)) = lists s (MutexWait m)" for m
    by (simp add: waits_def)
  with nw assms(2) show ?thesis by (simp add: pi_inv_def pi_except_def)
qed

section \<open>The chain ends and restores the invariant\<close>

text \<open>The chain of changes goes down the rank: what is above the thread it starts at is left alone.\<close>

definition above_kept :: "(tid \<Rightarrow> nat) \<Rightarrow> tid \<Rightarrow> kernel \<Rightarrow> kernel \<Rightarrow> bool" where
  "above_kept rank t s s' \<longleftrightarrow>
     (\<forall>m. (\<forall>w. waits s w m \<longrightarrow> rank t < rank w) \<longrightarrow> mutexes s' m = mutexes s m \<and> lists s' (MutexWait m) = lists s (MutexWait m)) \<and>
     (\<forall>u. rank t < rank u \<longrightarrow> current_priority (thr s' u) = current_priority (thr s u))"

lemma settled_kept:
  assumes "sys_inv s" "waits s t m"
  shows "above_kept rank t s (settled m t s)"
proof -
  have "k \<noteq> m" if "\<forall>w. waits s w k \<longrightarrow> rank t < rank w" for k using that assms(2) by auto
  then show ?thesis using requeued_lists(2) [OF assms] ipc_frameD(2) [OF requeued_frame(5) [of s m t]] requeued_frame(1)
    by (auto simp: above_kept_def settled_def mutex_update_priority_def)
qed

lemma above_kept_step:
  assumes k: "above_kept rank t s s2" and c: "prio_changed own p s2 s3" and fr: "pi_frame s s3" and r: "rank own < rank t"
    and k3: "above_kept rank own s3 s'"
  shows "above_kept rank t s s'"
proof -
  note d = prio_changedD [OF c]
  have "mutexes s' m = mutexes s m \<and> lists s' (MutexWait m) = lists s (MutexWait m)" if a: "\<forall>w. waits s w m \<longrightarrow> rank t < rank w" for m
  proof -
    have "\<forall>w. waits s3 w m \<longrightarrow> rank own < rank w" using a r pi_frameD(5) [OF fr] by fastforce
    then show ?thesis using k k3 a d(6) [of "MutexWait m"] d(14) unfolding above_kept_def by simp
  qed
  moreover have "current_priority (thr s' u) = current_priority (thr s u)" if "rank t < rank u" for u
    using that r k k3 d(9) [of u] unfolding above_kept_def by fastforce
  ultimately show ?thesis unfolding above_kept_def by blast
qed

lemma update_priority_chain:
  assumes "sys_inv s" "pi_except t s" "no_cycle rank s"
  shows "\<exists>s'. update_priority_loop t f s = Some s' \<and> sys_inv s' \<and> pi_inv s' \<and> pi_frame s s' \<and> above_kept rank t s s'"
  using assms
proof (induction "rank t" arbitrary: t s rule: less_induct)
  case less
  have st: "mutex_struct s" using less.prems(2) by (simp add: pi_except_def)
  show ?case
  proof (cases "suspended s t \<and> (\<exists>m. pending_object (thr s t) = Some (OMutex m))")
    case False
    then have "update_priority_loop t f s = Some s"
      by (subst update_priority_loop.simps) (auto simp: suspended_def split: option.split obj_id.split)
    then show ?thesis
      using pi_except_done [OF less.prems(1,2)] False less.prems(1) by (auto simp: above_kept_def)
  next
    case True
    then obtain m where t: "suspended s t" "pending_object (thr s t) = Some (OMutex m)" by auto
    have w: "waits s t m" using mutex_structD(5) [OF st t] .
    obtain own where own: "owns s own m" using mutex_structD(4) [OF st w] by blast
    let ?s2 = "settled m t s"
    let ?p = "thread_get_mutex_priority own ?s2"
    note fr2 = settled_frame [OF less.prems(1) t(1) w]
    note pi2 = settled_pi [OF less.prems(1,2) t(1) w own]
    have st2: "mutex_struct ?s2" using mutex_struct_frame [OF fr2(2)] st by simp
    have pk: "prio_key ?s2 = prio_key s" using fr2(3) by (simp add: prio_key_def fun_eq_iff)
    have unfold: "update_priority_loop t f s =
        (if ?p \<noteq> current_priority (thr s own)
         then do { (ret, s3) \<leftarrow> thread_change_priority own ?p ?s2;
                   if ret = RT_EOK then update_priority_loop own f s3 else Some s3 }
         else Some ?s2)"
      using t mutex_structD(6,7) [OF st own] requeue_eq(1) [OF less.prems(1) t(1), of m f] own
      by (subst update_priority_loop.simps)
         (simp add: suspended_def owns_def settled_def mutex_update_priority_def Let_def)
    show ?thesis
    proof (cases "?p = current_priority (thr s own)")
      case True
      then have "current_priority (thr ?s2 u) = thread_get_mutex_priority u ?s2" for u
        using pi2(3) [of u] fr2(3) by (cases "u = own") simp_all
      then have "pi_inv ?s2"
        using pi2(1,2) st2 pi_frameD(4) [OF fr2(2)] by (simp add: pi_inv_def pk)
      with True unfold fr2 settled_kept [OF less.prems(1) w] show ?thesis by simp
    next
      case False
      have "unat ?p < 32"
        using get_mutex_priority_base [of "taken_object_list (thr ?s2 own)" "init_priority (thr ?s2 own)" ?s2]
          mutex_structD(9) [OF st2, of own]
        by (simp add: thread_get_mutex_priority_def word_le_nat_alt)
      then obtain s3 where s3: "thread_change_priority own ?p ?s2 = Some (RT_EOK, s3)" "prio_changed own ?p ?s2 s3"
        using change_priority [OF fr2(1) mutex_structD(2) [OF st2], of own m ?p] own pi_frameD(4) [OF fr2(2)] by auto
      have fr3: "pi_frame s s3" by (rule pi_frame_trans [OF fr2(2) pi_frame_changed [OF s3(2)]])
      have ex3: "pi_except own s3"
        by (rule pi_except_changed [OF s3(2) st2])
           (use pi2 pi_frameD(4) [OF fr2(2)] fr2(3) in \<open>simp_all add: pk\<close>)
      have rk: "rank own < rank t" using less.prems(3) w own by (auto simp: no_cycle_def)
      then obtain s' where s': "update_priority_loop own f s3 = Some s'" "sys_inv s'" "pi_inv s'" "pi_frame s3 s'" "above_kept rank own s3 s'"
        using less.hyps [OF _ prio_changedD(1) [OF s3(2)] ex3] no_cycle_frame [OF fr3] less.prems(3) by blast
      with False unfold s3(1) pi_frame_trans [OF fr3] above_kept_step [OF settled_kept [OF less.prems(1) w] s3(2) fr3 rk s'(5)] show ?thesis by auto
    qed
  qed
qed

text \<open>Steps that the invariant does not see.\<close>

definition pi_view :: "kernel \<Rightarrow> kernel \<Rightarrow> bool" where
  "pi_view s s' \<longleftrightarrow> mutexes s' = mutexes s \<and> (\<forall>m. lists s' (MutexWait m) = lists s (MutexWait m)) \<and>
     (\<forall>u. taken_object_list (thr s' u) = taken_object_list (thr s u) \<and>
        pending_object (thr s' u) = pending_object (thr s u) \<and> init_priority (thr s' u) = init_priority (thr s u) \<and>
        current_priority (thr s' u) = current_priority (thr s u) \<and> live s' u = live s u \<and> suspended s' u = suspended s u) \<and>
     (\<forall>m. rt_object_get_type (OMutex m) s' = rt_object_get_type (OMutex m) s \<and> mutex_flag m s' = mutex_flag m s)"

lemma pi_view_trans: "pi_view s s' \<Longrightarrow> pi_view s' s'' \<Longrightarrow> pi_view s s''"
  by (simp add: pi_view_def)

lemma pi_inv_view:
  assumes "pi_view s s'" shows "pi_inv s' = pi_inv s" "no_cycle rank s' = no_cycle rank s"
    "owns s' t m = owns s t m" "waits s' t m = waits s t m"
proof -
  have o: "owns s' t m = owns s t m" "waits s' t m = waits s t m" for t m
    using assms by (simp_all add: pi_view_def owns_def waits_def)
  then show "owns s' t m = owns s t m" "waits s' t m = waits s t m" "no_cycle rank s' = no_cycle rank s"
    by (simp_all add: no_cycle_def)
  have st: "mutex_struct s' = mutex_struct s"
    using assms by (simp add: mutex_struct_def o pi_view_def)
  have mp: "mutex_prio s' = mutex_prio s" "prio_key s' = prio_key s"
    using assms by (auto simp: pi_view_def mutex_prio_def prio_key_def fun_eq_iff)
  have "get_mutex_priority_loop ms p s' = get_mutex_priority_loop ms p s" for ms p
    using assms by (intro get_mutex_priority_cong) (simp add: pi_view_def)
  then have gp: "thread_get_mutex_priority u s' = thread_get_mutex_priority u s" for u
    using assms by (simp add: thread_get_mutex_priority_def pi_view_def)
  have hp: "head_priority k s' = head_priority k s" for k
    using assms by (simp add: head_priority_def pi_view_def split: list.split)
  have "mutexes s' = mutexes s" "lists s' (MutexWait k) = lists s (MutexWait k)"
    "current_priority (thr s' u) = current_priority (thr s u)" for k u
    using assms by (simp_all add: pi_view_def)
  then show "pi_inv s' = pi_inv s"
    by (simp add: pi_inv_def st mp gp hp o)
qed

lemma pi_view_sched: "sched_to s s' \<Longrightarrow> pi_view s s'"
  using sched_toD [of s s'] stat_only_fields [of s s'] ipc_frameD [of s s']
  by (simp add: pi_view_def mutex_flag_def)

lemma pi_view_armed [simp]: "pi_view s (armed t n s)"
  using ipc_frameD(9) [OF ipc_frame_armed [of s t n]] by (simp add: pi_view_def mutex_flag_def)

lemma pi_view_set_error [simp]: "pi_view s (set_error t e s)"
  by (simp add: pi_view_def mutex_flag_def) (simp add: set_error_def)

section \<open>Waiting for a mutex\<close>

definition joined :: "nat \<Rightarrow> tid \<Rightarrow> int \<Rightarrow> kernel \<Rightarrow> kernel" where
  "joined m t f s = upd_thread t (\<lambda>r. r\<lparr>pending_object := Some (OMutex m)\<rparr>)
     (enqueued (MutexWait m) t RT_IPC_FLAG_PRIO (suspended_self t f s))"

lemma joined_threads:
  "taken_object_list (thr (joined m t f s) u) = taken_object_list (thr s u)"
  "init_priority (thr (joined m t f s) u) = init_priority (thr s u)"
  "current_priority (thr (joined m t f s) u) = current_priority (thr s u)"
  "pending_object (thr (joined m t f s) u) = (if u = t then Some (OMutex m) else pending_object (thr s u))"
  "u \<noteq> t \<Longrightarrow> live (joined m t f s) u = live s u" "u \<noteq> t \<Longrightarrow> suspended (joined m t f s) u = suspended s u"
  "mutexes (joined m t f s) = mutexes s" "live (joined m t f s) t" "suspended (joined m t f s) t"
  "rt_object_get_type a (joined m t f s) = rt_object_get_type a s" "mutex_flag k (joined m t f s) = mutex_flag k s"
  "lists (joined m t f s) (MutexWait k) = (if k = m then insert_where (\<lambda>u. prio_key s t < prio_key s u) t (lists s (MutexWait m))
      else lists s (MutexWait k))"
  using ipc_frameD [OF ipc_frame_suspended_self [of s t f]]
  by (auto simp: joined_def suspended_self_def enqueued_def live_def suspended_def stat_of_def wait_order_def prio_key_def
      mutex_flag_def rt_object_get_type_def set_stat_def intro!: insert_where_cong)

lemma sys_inv_fields:
  assumes "sys_inv s" "\<And>r. stat (f r) = stat r" "\<And>r. current_priority (f r) = current_priority r"
    "\<And>r. number_mask (f r) = number_mask r"
  shows "sys_inv (upd_thread t f s)"
proof (rule sys_inv_cong [OF assms(1)])
  show "kernel_inv (upd_thread t f s)"
    by (rule kernel_inv_fields(1) [OF sys_invD(1) [OF assms(1)]]) (simp_all add: assms(2-4))
qed (use sys_invD(4) [OF assms(1)] in auto)

lemma sys_inv_joined:
  assumes "sys_inv s" "rt_current_thread s = Some t" "stat_of s t = RT_THREAD_RUNNING"
  shows "sys_inv (joined m t f s)"
proof -
  note ok = suspended_self_ok [OF sys_invD(1) [OF assms(1)] assms(2,3), of f]
  have "sys_inv (enqueued (MutexWait m) t 1 (suspended_self t f s))"
    by (rule sys_inv_enqueued [OF sys_inv_suspended_self [OF assms] ok(3,2)]) simp
  then show ?thesis
    unfolding joined_def by (rule sys_inv_fields) simp_all
qed

lemma running_not_waiting:
  assumes "sys_inv s" "rt_current_thread s = Some t" "stat_of s t = RT_THREAD_RUNNING"
  shows "\<not> waits s t m"
  using unlinked_current [OF kernel_invD(1) [OF sys_invD(1) [OF assms(1)]] assms(2,3)]
  by (simp add: waits_def unlinked_def)

lemma owns_joined: "owns (joined m t f s) u k = owns s u k"
  by (simp add: owns_def joined_threads)

lemma waits_joined: "waits (joined m t f s) u k \<longleftrightarrow> waits s u k \<or> u = t \<and> k = m"
  by (auto simp: waits_def joined_threads)

lemma mutex_struct_joined:
  assumes "mutex_struct s" "owns s own m" "\<And>k. \<not> waits s t k"
  shows "mutex_struct (joined m t f s)"
proof -
  let ?s = "joined m t f s"
  note d = mutex_structD [OF assms(1)] and j = joined_threads [where m = m and t = t and f = f and s = s]
  have "k \<in> set (taken_object_list (thr ?s u)) \<longleftrightarrow> owns ?s u k" for u k
    using d(1) by (simp add: j owns_joined)
  moreover have "owns ?s u k \<Longrightarrow> live ?s u" for u k
    using d(2) [of u k] j(5) [of u] j(8) by (cases "u = t") (simp_all add: owns_joined)
  moreover have "waits ?s u k \<Longrightarrow> pending_object (thr ?s u) = Some (OMutex k) \<and> (\<exists>v. owns ?s v k)" for u k
    using d(3,4) [of u k] assms(2,3) by (auto simp: waits_joined owns_joined j)
  moreover have "suspended ?s u \<Longrightarrow> pending_object (thr ?s u) = Some (OMutex k) \<Longrightarrow> waits ?s u k" for u k
    using d(5) [of u k] j(6) [of u] by (cases "u = t") (simp_all add: waits_joined j)
  moreover have "owns ?s u k \<Longrightarrow> rt_object_get_type (OMutex k) ?s = RT_Object_Class_Mutex \<and>
      mutex_flag k ?s = RT_IPC_FLAG_PRIO \<and> ceiling_priority (mutexes ?s k) = 0xff" for u k
    using d(6-8) [of u k] by (simp add: owns_joined j(7,10,11))
  moreover have "unat (init_priority (thr ?s u)) < 32" for u
    using d(9) by (simp add: j(2))
  ultimately show ?thesis
    unfolding mutex_struct_def by blast
qed

lemma head_insert_where:
  "hd (insert_where P x xs) = (case xs of [] \<Rightarrow> x | y # ys \<Rightarrow> if P y then x else y)"
  by (cases xs) auto

lemma head_priority_hd: "head_priority m s = (if lists s (MutexWait m) = [] then 0xff else prio_key s (hd (lists s (MutexWait m))))"
  by (simp add: head_priority_def prio_key_def split: list.split)

lemma head_joined:
  assumes "prio_key s t \<le> 0xff"
  shows "head_priority m (joined m t f s) = min (prio_key s t) (head_priority m s)"
    and "k \<noteq> m \<Longrightarrow> head_priority k (joined m t f s) = head_priority k s"
proof -
  have pk: "prio_key (joined m t f s) = prio_key s"
    by (simp add: prio_key_def joined_threads fun_eq_iff)
  show "head_priority m (joined m t f s) = min (prio_key s t) (head_priority m s)"
    using assms by (cases "lists s (MutexWait m)") (auto simp: head_priority_hd pk joined_threads min_def)
  show "k \<noteq> m \<Longrightarrow> head_priority k (joined m t f s) = head_priority k s"
    by (simp add: head_priority_hd pk joined_threads)
qed

lemma byte_le_ff: "(x :: 8 word) \<le> 0xff"
proof -
  have "unat x < 2 ^ 8" using unsigned_less [of x] by simp
  then show ?thesis by (simp add: word_le_nat_alt)
qed

lemma mutex_prio_no_ceiling: "mutex_struct s \<Longrightarrow> owns s t m \<Longrightarrow> mutex_prio s m = mtx_priority (mutexes s m)"
  using mutex_structD(8) [of s t m] byte_le_ff [of "mtx_priority (mutexes s m)"] by (simp add: mutex_prio_def min_def)

text \<open>
  What the owner inherits when the value of one of its mutexes is lowered to \<open>p\<close>:
  the lower of \<open>p\<close> and what it had.
\<close>

lemma inherited:
  assumes st: "mutex_struct s" and own: "owns s own m" and p: "p < mtx_priority (mutexes s m)"
  shows "thread_get_mutex_priority own (upd_mutex m (\<lambda>r. r\<lparr>mtx_priority := p\<rparr>) s) =
      min p (thread_get_mutex_priority own s)"
    and "u \<noteq> own \<Longrightarrow> thread_get_mutex_priority u (upd_mutex m (\<lambda>r. r\<lparr>mtx_priority := p\<rparr>) s) = thread_get_mutex_priority u s"
proof -
  let ?s = "upd_mutex m (\<lambda>r. r\<lparr>mtx_priority := p\<rparr>) s"
  let ?ms = "taken_object_list (thr s own)" and ?i = "init_priority (thr s own)"
  let ?e = "get_mutex_priority_loop ?ms ?i s"
  have m: "m \<in> set ?ms" using mutex_structD(1) [OF st] own by simp
  have old: "mutex_prio s m = mtx_priority (mutexes s m)" by (rule mutex_prio_no_ceiling [OF st own])
  have new: "mutex_prio ?s m = p" "k \<noteq> m \<Longrightarrow> mutex_prio ?s k = mutex_prio s k" for k
    using mutex_structD(8) [OF st own] byte_le_ff [of p] by (simp_all add: mutex_prio_def min_def)
  have "get_mutex_priority_loop ?ms ?i ?s = min p ?e"
  proof (rule get_mutex_priority_eq)
    show "min p ?e \<le> ?i" using get_mutex_priority_base [of ?ms ?i s] by (simp add: min.coboundedI2)
    show "min p ?e \<le> mutex_prio ?s k" if "k \<in> set ?ms" for k
      using get_mutex_priority_le [OF that, of ?i s] new by (cases "k = m") (simp_all add: min.coboundedI2)
    have "?e = ?i \<or> (\<exists>k \<in> set ?ms. k \<noteq> m \<and> ?e = mutex_prio s k) \<or> ?e = mutex_prio s m"
      using get_mutex_priority_attained [of ?ms ?i s] by auto
    then show "min p ?e = ?i \<or> (\<exists>k \<in> set ?ms. min p ?e = mutex_prio ?s k)"
      using m new p old by (metis min_def order.strict_implies_order)
  qed
  then show "thread_get_mutex_priority own ?s = min p (thread_get_mutex_priority own s)"
    by (simp add: thread_get_mutex_priority_def)
  show "thread_get_mutex_priority u ?s = thread_get_mutex_priority u s" if "u \<noteq> own"
  proof -
    have "m \<notin> set (taken_object_list (thr s u))"
      using mutex_structD(1) [OF st, of m u] own that by (auto simp: owns_def)
    then show ?thesis
      by (simp add: thread_get_mutex_priority_def) (rule get_mutex_priority_cong, simp add: upd_mutex_def, blast)
  qed
qed

lemma pi_frame_upd_mtx: "pi_frame s (upd_mutex m (\<lambda>r. r\<lparr>mtx_priority := p\<rparr>) s)"
proof -
  have "(mutexes (upd_mutex m (\<lambda>r. r\<lparr>mtx_priority := p\<rparr>) s) k)\<lparr>mtx_priority := 0\<rparr> = (mutexes s k)\<lparr>mtx_priority := 0\<rparr>" for k
    by (cases "k = m") simp_all
  then show ?thesis by (simp add: pi_frame_def)
qed

lemma pi_joined:
  assumes inv: "pi_inv s" and own: "owns s own m" and nw: "\<And>k. \<not> waits s t k"
  shows "mutex_struct (joined m t f s)"
    "sorted (map (prio_key (joined m t f s)) (lists (joined m t f s) (MutexWait k)))"
    "current_priority (thr (joined m t f s) u) = thread_get_mutex_priority u (joined m t f s)"
    "owns s v k \<Longrightarrow> k \<noteq> m \<Longrightarrow> mtx_priority (mutexes (joined m t f s) k) \<le> head_priority k (joined m t f s)"
proof -
  have st: "mutex_struct s" using inv by (simp add: pi_inv_def)
  show "mutex_struct (joined m t f s)" by (rule mutex_struct_joined [OF st own nw])
  have pk: "prio_key (joined m t f s) = prio_key s"
    by (simp add: prio_key_def joined_threads fun_eq_iff)
  show "sorted (map (prio_key (joined m t f s)) (lists (joined m t f s) (MutexWait k)))"
    using inv by (simp add: pk joined_threads(12) pi_inv_def sorted_insert_where)
  have "thread_get_mutex_priority u (joined m t f s) = thread_get_mutex_priority u s"
    by (simp add: thread_get_mutex_priority_def joined_threads)
       (rule get_mutex_priority_cong, simp add: joined_threads)
  then show "current_priority (thr (joined m t f s) u) = thread_get_mutex_priority u (joined m t f s)"
    using inv by (simp add: pi_inv_def joined_threads)
  show "owns s v k \<Longrightarrow> k \<noteq> m \<Longrightarrow> mtx_priority (mutexes (joined m t f s) k) \<le> head_priority k (joined m t f s)"
    using inv head_joined(2) [OF byte_le_ff, where k = k and m = m and s = s and t = t and f = f] by (simp add: pi_inv_def joined_threads(7))
qed

lemma inherit_ok:
  assumes inv: "sys_inv s" "pi_inv s" and nc: "no_cycle rank s" "rank own < rank t"
    and t: "rt_current_thread s = Some t" "stat_of s t = RT_THREAD_RUNNING" and own: "owns s own m"
  shows "\<exists>s'. inherit_priority m own (current_priority (thr s t)) (joined m t f s) = Some s' \<and>
     sys_inv s' \<and> pi_inv s' \<and> pi_frame (joined m t f s) s'"
proof -
  let ?j = "joined m t f s" and ?p = "prio_key s t"
  let ?s1 = "upd_mutex m (\<lambda>r. r\<lparr>mtx_priority := ?p\<rparr>) ?j"
  have nw: "\<not> waits s t k" for k using running_not_waiting [OF inv(1) t] .
  have st: "mutex_struct s" using inv(2) by (simp add: pi_inv_def)
  note j = pi_joined [OF inv(2) own nw, where f = f]
  have ij: "sys_inv ?j" by (rule sys_inv_joined [OF inv(1) t])
  have oj: "owns ?j own m" using own by (simp add: owns_joined)
  have ncj: "no_cycle rank ?j"
    using nc own by (auto simp: no_cycle_def waits_joined owns_def joined_threads(7))
  have E: "mtx_priority (mutexes s m) \<le> head_priority m s" using inv(2) own by (auto simp: pi_inv_def)
  have hj: "head_priority m ?j = min ?p (head_priority m s)" by (rule head_joined(1) [OF byte_le_ff])
  have mj: "mutexes ?j = mutexes s" by (simp add: joined_threads)
  have cj: "current_priority (thr ?j u) = current_priority (thr s u)" for u by (simp add: joined_threads)
  show ?thesis
  proof (cases "?p < mtx_priority (mutexes s m)")
    case False
    then have "mtx_priority (mutexes ?j k) \<le> head_priority k ?j" if "owns ?j u k" for u k
      using j(4) [of u k] that E by (cases "k = m") (simp_all add: owns_joined mj hj)
    then have "pi_inv ?j" using j(1-3) by (auto simp: pi_inv_def)
    with False ij show ?thesis by (simp add: inherit_priority_def prio_key_def mj)
  next
    case lt: True
    have fr1: "pi_frame ?j ?s1" by (rule pi_frame_upd_mtx)
    have lt': "?p < mtx_priority (mutexes ?j m)" using lt mj by simp
    have st1: "mutex_struct ?s1" using mutex_struct_frame [OF fr1] j(1) by simp
    have hm: "head_priority m ?j = ?p" using hj less_le_trans [OF lt E] by (simp add: min.absorb3)
    have E1: "mtx_priority (mutexes ?s1 k) \<le> head_priority k ?s1" if "owns ?s1 u k" for u k
      using j(4) [of u k] that pi_frameD(4) [OF fr1, of u k]
      by (cases "k = m") (simp_all add: owns_joined hm)
    note inh = inherited [OF j(1) oj lt']
    have F1: "current_priority (thr ?s1 u) = thread_get_mutex_priority u ?s1" if "u \<noteq> own" for u
      using inh(2) [OF that] j(3) [of u] by simp
    have eo: "thread_get_mutex_priority own ?s1 = min ?p (current_priority (thr s own))"
      using inh(1) j(3) [of own] cj [of own] by simp
    have sorted1: "sorted (map (prio_key ?s1) (lists ?s1 (MutexWait k)))" for k
      using j(2) by simp
    have i1: "sys_inv ?s1" using ij by simp
    show ?thesis
    proof (cases "?p < current_priority (thr s own)")
      case False
      then have "current_priority (thr ?s1 u) = thread_get_mutex_priority u ?s1" for u
        using F1 [of u] eo cj [of own] by (cases "u = own") (simp_all add: min_def)
      then have "pi_inv ?s1" using st1 sorted1 E1 by (auto simp: pi_inv_def)
      with False lt i1 fr1 show ?thesis
        by (simp add: inherit_priority_def prio_key_def mj cj)
    next
      case True
      have "unat ?p < 32"
        using prio_lt [OF kernel_invD(2) [OF sys_invD(1) [OF inv(1)]], of t] by (simp add: prio_of_def prio_key_def)
      moreover have "live ?s1 own"
        using mutex_structD(2) [OF st1, of own m] pi_frameD(4) [OF fr1] oj by simp
      ultimately obtain s4 where s4: "thread_change_priority own ?p ?s1 = Some (RT_EOK, s4)" "prio_changed own ?p ?s1 s4"
        using change_priority [OF i1] by blast
      have ex4: "pi_except own s4"
        by (rule pi_except_changed [OF s4(2) st1 sorted1 E1 F1]) (use eo True in \<open>simp_all add: min.absorb3\<close>)
      have fr4: "pi_frame ?j s4" by (rule pi_frame_trans [OF fr1 pi_frame_changed [OF s4(2)]])
      obtain s' where s': "update_priority_loop own RT_UNINTERRUPTIBLE s4 = Some s'" "sys_inv s'" "pi_inv s'" "pi_frame s4 s'"
        using update_priority_chain [OF prio_changedD(1) [OF s4(2)] ex4, of rank RT_UNINTERRUPTIBLE]
          no_cycle_frame [OF fr4] ncj by blast
      have "inherit_priority m own (current_priority (thr s t)) ?j = Some s'"
        using lt True s4(1) s'(1)
        by (simp add: inherit_priority_def prio_key_def mj cj thread_update_priority_def)
      with s' pi_frame_trans [OF fr4 s'(4)] show ?thesis by blast
    qed
  qed
qed

lemma sys_inv_armed:
  assumes "sys_inv s" "suspended s t" "0 < n" "n < 0x7fffffff"
  shows "arm_timer t (word_of_int n) s = Some (armed t (word_of_int n) s)" "sys_inv (armed t (word_of_int n) s)"
proof -
  note tw = timeout_word [OF assms(3,4)]
  show "arm_timer t (word_of_int n) s = Some (armed t (word_of_int n) s)"
    using arm_timer_eq [OF kernel_invD(6) [OF sys_invD(1) [OF assms(1)] suspended_live [OF assms(2)]] tw(1)] .
  show "sys_inv (armed t (word_of_int n) s)"
    using tick_inv_armed [OF sys_invD(2) [OF assms(1)] assms(2) tw(1)] tw(3) sys_invD(3) [OF assms(1)]
    by (simp add: sys_inv_def)
qed

lemma no_inversion:
  assumes inv: "pi_inv s" and own: "owns s own m" and w: "waits s t m"
  shows "current_priority (thr s own) \<le> current_priority (thr s t)"
proof -
  have st: "mutex_struct s" using inv by (simp add: pi_inv_def)
  let ?ts = "lists s (MutexWait m)"
  have "sorted (map (prio_key s) ?ts)" using inv by (simp add: pi_inv_def)
  then have "prio_key s (hd ?ts) \<le> prio_key s t"
    using w by (cases ?ts) (auto simp: waits_def)
  moreover have "mtx_priority (mutexes s m) \<le> prio_key s (hd ?ts)"
  proof -
    have "mtx_priority (mutexes s m) \<le> head_priority m s" using inv own by (auto simp: pi_inv_def)
    moreover have "?ts \<noteq> []" using w by (auto simp: waits_def)
    ultimately show ?thesis by (simp add: head_priority_hd)
  qed
  moreover have "current_priority (thr s own) \<le> mtx_priority (mutexes s m)"
    using inv get_mutex_priority_le [of m "taken_object_list (thr s own)" "init_priority (thr s own)" s]
      mutex_structD(1) [OF st, of m own] own mutex_prio_no_ceiling [OF st own]
    by (simp add: pi_inv_def thread_get_mutex_priority_def)
  ultimately show ?thesis by (simp add: prio_key_def)
qed

text \<open>
  C19. Priority inheritance.  When the running thread has to wait for a mutex that
  another thread owns and the threads do not wait for each other in a circle, the
  call blocks: the chain of priority changes ends, the thread is in the wait list
  of the mutex, the owner is who it was, and in the state reached the invariant
  holds for every mutex and thread.  In particular every owner, through chains of
  any length, runs at a priority at least as high as each thread that waits for it.
\<close>

theorem mutex_take_inherits:
  assumes inv: "sys_inv s" "pi_inv s" and nc: "no_cycle rank s" "rank own < rank t"
    and t: "rt_current_thread s = Some t" "stat_of s t = RT_THREAD_RUNNING" and own: "owns s own m" "own \<noteq> t"
    and n: "timeout \<noteq> 0" "timeout < 0x7fffffff"
    and flag: "sflag \<in> suspend_flags" "lwp_thread_signal_suspend_check t sflag s = Some k" "k \<noteq> 0"
  shows "\<exists>s'. rt_mutex_take_flag m timeout sflag s = Some (Blocked, s') \<and> sys_inv s' \<and> pi_inv s' \<and>
     waits s' t m \<and> owns s' own m \<and>
     (\<forall>u v k. owns s' u k \<longrightarrow> waits s' v k \<longrightarrow> current_priority (thr s' u) \<le> current_priority (thr s' v))"
proof -
  let ?s0 = "set_error t RT_EOK s"
  let ?j = "joined m t sflag ?s0"
  note v0 = pi_inv_view [OF pi_view_set_error [of s t RT_EOK]]
  have i0: "sys_inv ?s0" "pi_inv ?s0" "no_cycle rank ?s0" "rt_current_thread ?s0 = Some t"
    "stat_of ?s0 t = RT_THREAD_RUNNING" "owns ?s0 own m"
    using sys_inv_set_error [OF inv(1)] v0 inv(2) nc t own by simp_all
  have st: "mutex_struct ?s0" using i0(2) by (simp add: pi_inv_def)
  have sus: "ipc_list_suspend (MutexWait m) t RT_IPC_FLAG_PRIO sflag ?s0 =
      Some (RT_EOK, enqueued (MutexWait m) t RT_IPC_FLAG_PRIO (suspended_self t sflag ?s0))"
    using ipc_suspend_eq [OF i0(1,4,5) _ flag(1), of RT_IPC_FLAG_PRIO k "MutexWait m"] flag(2,3) by simp
  obtain s3 where s3: "inherit_priority m own (current_priority (thr ?s0 t)) ?j = Some s3"
    "sys_inv s3" "pi_inv s3" "pi_frame ?j s3"
    using inherit_ok [OF i0(1-3) nc(2) i0(4-6), of sflag] by blast
  have su3: "suspended s3 t"
    using pi_frame_threads(6) [OF s3(4), of t] by (simp add: joined_threads)
  let ?s4 = "if 0 < timeout then armed t (word_of_int timeout) s3 else s3"
  have arm: "(if 0 < timeout then arm_timer t (word_of_int timeout) s3 else Some s3) = Some ?s4"
    and i4: "sys_inv ?s4"
    using sys_inv_armed [OF s3(2) su3 _ n(2)] s3(2) by simp_all
  obtain s5 where s5: "rt_schedule ?s4 = Some s5" "sys_inv s5" "sched_to ?s4 s5"
    using sys_schedule [OF i4] .
  have v5: "pi_view s3 s5"
    using pi_view_trans [OF pi_view_armed pi_view_sched] pi_view_sched s5(3) by (cases "0 < timeout") simp_all
  note w5 = pi_inv_view [OF v5]
  have ow: "owner (mutexes ?s0 m) = Some own" using i0(6) by (simp add: owns_def)
  have fl: "mutex_flag m ?s0 = RT_IPC_FLAG_PRIO" "rt_object_get_type (OMutex m) s = RT_Object_Class_Mutex"
    using mutex_structD(6,7) [OF st i0(6)] by simp_all
  have run: "rt_mutex_take_flag m timeout sflag s = Some (Blocked, s5)"
    unfolding rt_mutex_take_flag_def rt_thread_self_def joined_def
    using t(1) own(2) n(1) ow fl sus s3(1) [unfolded joined_def] arm s5(1) by (simp add: Let_def del: upd_thread_def)
  have "waits s5 t m" "owns s5 own m" "pi_inv s5"
    using w5 s3(3) pi_frameD(4,5) [OF s3(4)] i0(6) by (simp_all add: waits_joined owns_joined)
  with run s5(2) no_inversion [of s5] show ?thesis by blast
qed

text \<open>A system in which the idle thread owns mutex 5 that the running thread wants.\<close>

definition owned_system :: kernel where
  "owned_system = upd_obj (OMutex 5) (\<lambda>r. r\<lparr>obj_flag := RT_IPC_FLAG_PRIO\<rparr>)
     (upd_mutex 5 (\<lambda>_. \<lparr>ceiling_priority = 0xff, mtx_priority = 0xff, hold = 1, owner = Some 0\<rparr>)
       (upd_thread 0 (\<lambda>r. r\<lparr>taken_object_list := [5]\<rparr>) small_system))"

lemma sys_inv_owned: "sys_inv owned_system"
proof -
  have "sys_inv (upd_thread 0 (\<lambda>r. r\<lparr>taken_object_list := [5]\<rparr>) small_system)"
    by (rule sys_inv_fields [OF sys_inv_small]) simp_all
  then show ?thesis
    unfolding owned_system_def by (subst sys_inv_obj) (simp_all del: upd_obj_def upd_thread_def)
qed

lemma owned_system_facts:
  "owns owned_system t m \<longleftrightarrow> t = 0 \<and> m = 5" "\<not> waits owned_system t m"
  "taken_object_list (thr owned_system t) = (if t = 0 then [5] else [])"
  "pending_object (thr owned_system t) = None" "live owned_system 0"
  "unat (current_priority (thr owned_system t)) < 32"
  "init_priority (thr owned_system t) = current_priority (thr owned_system t)"
  "rt_object_get_type (OMutex 5) owned_system = RT_Object_Class_Mutex" "mutex_flag 5 owned_system = RT_IPC_FLAG_PRIO"
  "mutexes owned_system 5 = \<lparr>ceiling_priority = 0xff, mtx_priority = 0xff, hold = 1, owner = Some 0\<rparr>"
  "lists owned_system (MutexWait m) = []" "rt_current_thread owned_system = Some 2"
  "stat_of owned_system 2 = RT_THREAD_RUNNING"
  by (auto simp: owned_system_def owns_def waits_def upd_mutex_def small_system_def kernel_reset_def sample_thread_def
      blank_thread_def live_def stat_of_def rt_object_get_type_def mutex_flag_def)

lemma pi_inv_owned: "pi_inv owned_system"
proof -
  have "mutex_struct owned_system"
    unfolding mutex_struct_def by (auto simp: owned_system_facts)
  moreover have "current_priority (thr owned_system t) = thread_get_mutex_priority t owned_system" for t
    by (simp add: thread_get_mutex_priority_def owned_system_facts mutex_prio_def min_absorb2 [OF byte_le_ff])
  ultimately show ?thesis
    by (simp add: pi_inv_def owned_system_facts head_priority_def)
qed

theorem mutex_take_inherits_witness:
  "\<exists>s'. rt_mutex_take_flag 5 30 RT_UNINTERRUPTIBLE owned_system = Some (Blocked, s') \<and> pi_inv s' \<and>
     waits s' 2 5 \<and> owns s' 0 5 \<and> current_priority (thr s' 0) \<le> current_priority (thr s' 2)"
proof -
  have "no_cycle (\<lambda>t. t) owned_system" by (simp add: no_cycle_def owned_system_facts)
  from mutex_take_inherits [OF sys_inv_owned pi_inv_owned this, of 0 2 5 30 RT_UNINTERRUPTIBLE 1]
  show ?thesis
    by (auto simp: owned_system_facts suspend_flags_def lwp_thread_signal_suspend_check_def)
qed

section \<open>Releasing a mutex\<close>

text \<open>The invariant while mutex \<open>m\<close> is between two owners.\<close>

definition free_pi :: "nat \<Rightarrow> kernel \<Rightarrow> bool" where
  "free_pi m s \<longleftrightarrow>
     (\<forall>u k. k \<in> set (taken_object_list (thr s u)) \<longleftrightarrow> k \<noteq> m \<and> owns s u k) \<and>
     (\<forall>u k. k \<noteq> m \<longrightarrow> owns s u k \<longrightarrow> live s u) \<and>
     (\<forall>u k. waits s u k \<longrightarrow> pending_object (thr s u) = Some (OMutex k) \<and> (k \<noteq> m \<longrightarrow> (\<exists>v. owns s v k))) \<and>
     (\<forall>u k. suspended s u \<longrightarrow> pending_object (thr s u) = Some (OMutex k) \<longrightarrow> waits s u k) \<and>
     (\<forall>u k. owns s u k \<longrightarrow> rt_object_get_type (OMutex k) s = RT_Object_Class_Mutex \<and>
        mutex_flag k s = RT_IPC_FLAG_PRIO \<and> ceiling_priority (mutexes s k) = 0xff) \<and>
     rt_object_get_type (OMutex m) s = RT_Object_Class_Mutex \<and> mutex_flag m s = RT_IPC_FLAG_PRIO \<and>
     ceiling_priority (mutexes s m) = 0xff \<and>
     (\<forall>u. unat (init_priority (thr s u)) < 32) \<and>
     (\<forall>k. sorted (map (prio_key s) (lists s (MutexWait k)))) \<and>
     (\<forall>u k. k \<noteq> m \<longrightarrow> owns s u k \<longrightarrow> mtx_priority (mutexes s k) \<le> head_priority k s) \<and>
     (\<forall>u. current_priority (thr s u) = thread_get_mutex_priority u s)"

lemma free_piD:
  assumes "free_pi m s"
  shows "k \<in> set (taken_object_list (thr s u)) \<longleftrightarrow> k \<noteq> m \<and> owns s u k"
    "k \<noteq> m \<Longrightarrow> owns s u k \<Longrightarrow> live s u" "waits s u k \<Longrightarrow> pending_object (thr s u) = Some (OMutex k)"
    "waits s u k \<Longrightarrow> k \<noteq> m \<Longrightarrow> \<exists>v. owns s v k"
    "suspended s u \<Longrightarrow> pending_object (thr s u) = Some (OMutex k) \<Longrightarrow> waits s u k"
    "owns s u k \<Longrightarrow> rt_object_get_type (OMutex k) s = RT_Object_Class_Mutex"
    "owns s u k \<Longrightarrow> mutex_flag k s = RT_IPC_FLAG_PRIO" "owns s u k \<Longrightarrow> ceiling_priority (mutexes s k) = 0xff"
    "unat (init_priority (thr s u)) < 32" "sorted (map (prio_key s) (lists s (MutexWait k)))"
    "k \<noteq> m \<Longrightarrow> owns s u k \<Longrightarrow> mtx_priority (mutexes s k) \<le> head_priority k s"
    "current_priority (thr s u) = thread_get_mutex_priority u s"
    "rt_object_get_type (OMutex m) s = RT_Object_Class_Mutex" "mutex_flag m s = RT_IPC_FLAG_PRIO"
    "ceiling_priority (mutexes s m) = 0xff"
  using assms unfolding free_pi_def by iprover+

lemma free_piI:
  assumes "\<And>u k. k \<in> set (taken_object_list (thr s u)) \<longleftrightarrow> k \<noteq> m \<and> owns s u k"
    and "\<And>u k. owns s u k \<Longrightarrow> live s u" "\<And>u k. waits s u k \<Longrightarrow> pending_object (thr s u) = Some (OMutex k)"
    "\<And>u k. waits s u k \<Longrightarrow> \<exists>v. owns s v k"
    "\<And>u k. suspended s u \<Longrightarrow> pending_object (thr s u) = Some (OMutex k) \<Longrightarrow> waits s u k"
    "\<And>u k. owns s u k \<Longrightarrow> rt_object_get_type (OMutex k) s = RT_Object_Class_Mutex"
    "\<And>u k. owns s u k \<Longrightarrow> mutex_flag k s = RT_IPC_FLAG_PRIO"
    "\<And>u k. owns s u k \<Longrightarrow> ceiling_priority (mutexes s k) = 0xff"
    "\<And>u. unat (init_priority (thr s u)) < 32" "\<And>k. sorted (map (prio_key s) (lists s (MutexWait k)))"
    "\<And>u k. owns s u k \<Longrightarrow> mtx_priority (mutexes s k) \<le> head_priority k s"
    "\<And>u. current_priority (thr s u) = thread_get_mutex_priority u s" and own: "owns s t m"
  shows "free_pi m s"
  unfolding free_pi_def
  by (intro conjI allI impI; rule assms; (assumption | rule own)+)

lemma get_priority_other_mutex:
  assumes "m \<notin> set (taken_object_list (thr s u))"
  shows "thread_get_mutex_priority u (upd_mutex m f s) = thread_get_mutex_priority u s"
  unfolding thread_get_mutex_priority_def
  by (simp, rule get_mutex_priority_cong) (use assms in \<open>auto simp: upd_mutex_def\<close>)

lemma free_none:
  assumes "free_pi m s" "lists s (MutexWait m) = []"
  shows "pi_inv (upd_mutex m (\<lambda>r. r\<lparr>owner := None, mtx_priority := 0xff\<rparr>) s)"
proof -
  let ?s = "upd_mutex m (\<lambda>r. r\<lparr>owner := None, mtx_priority := 0xff\<rparr>) s"
  note d = free_piD [OF assms(1)]
  have o: "owns ?s u k \<longleftrightarrow> k \<noteq> m \<and> owns s u k" for u k
    by (cases "k = m") (simp_all add: owns_def)
  have w: "waits ?s u k \<longleftrightarrow> waits s u k" "waits s u k \<Longrightarrow> k \<noteq> m" for u k
    using assms(2) by (auto simp: waits_def)
  have gp: "thread_get_mutex_priority u ?s = thread_get_mutex_priority u s" for u
    by (rule get_priority_other_mutex) (simp add: d(1))
  have c: "k \<noteq> m \<Longrightarrow> mutexes ?s k = mutexes s k" for k by simp
  have "owns ?s u k \<Longrightarrow> rt_object_get_type (OMutex k) ?s = RT_Object_Class_Mutex \<and>
      mutex_flag k ?s = RT_IPC_FLAG_PRIO \<and> ceiling_priority (mutexes ?s k) = 0xff" for u k
    using d(6-8) [of u k] by (simp add: o)
  moreover have "waits ?s u k \<Longrightarrow> pending_object (thr ?s u) = Some (OMutex k) \<and> (\<exists>v. owns ?s v k)" for u k
    using d(3,4) [of u k] w(2) [of u k] by (auto simp: w(1) o)
  moreover have "owns ?s u k \<Longrightarrow> live ?s u" for u k
    using d(2) [of k u] by (simp add: o)
  moreover have "k \<in> set (taken_object_list (thr ?s u)) \<longleftrightarrow> owns ?s u k" for u k
    using d(1) [of k u] by (simp add: o)
  moreover have "suspended ?s u \<Longrightarrow> pending_object (thr ?s u) = Some (OMutex k) \<Longrightarrow> waits ?s u k" for u k
    using d(5) [of u k] by (simp add: w(1))
  moreover have "unat (init_priority (thr ?s u)) < 32" for u
    using d(9) [of u] by simp
  ultimately have "mutex_struct ?s"
    unfolding mutex_struct_def by blast
  moreover have "mtx_priority (mutexes ?s k) \<le> head_priority k ?s" if "owns ?s u k" for u k
    using that d(11) [of k u] by (simp add: o)
  ultimately show ?thesis
    using d(10,12) by (simp add: pi_inv_def gp)
qed

lemma untake_frame [simp]:
  "lists (untake m s) = lists s" "mutexes (untake m s) = mutexes s" "rt_current_thread (untake m s) = rt_current_thread s"
  "taken_object_list (thr (untake m s) u) = removeAll m (taken_object_list (thr s u))"
  "pending_object (thr (untake m s) u) = pending_object (thr s u)" "init_priority (thr (untake m s) u) = init_priority (thr s u)"
  "current_priority (thr (untake m s) u) = current_priority (thr s u)" "stat (thr (untake m s) u) = stat (thr s u)"
  "live (untake m s) u = live s u" "suspended (untake m s) u = suspended s u" "stat_of (untake m s) u = stat_of s u"
  "rt_object_get_type a (untake m s) = rt_object_get_type a s" "mutex_flag k (untake m s) = mutex_flag k s"
  "thr_error (thr (untake m s) u) = thr_error (thr s u)"
  by (simp_all add: untake_def live_def suspended_def stat_of_def rt_object_get_type_def mutex_flag_def)

lemma untake_views [simp]:
  "prio_key (untake m s) = prio_key s" "head_priority k (untake m s) = head_priority k s" "runnable (untake m s) = runnable s"
  by (simp_all add: prio_key_def fun_eq_iff runnable_def head_priority_hd)

lemma sys_inv_untake: "sys_inv s \<Longrightarrow> sys_inv (untake m s)"
proof (rule sys_inv_cong)
  assume "sys_inv s"
  then have k: "kernel_inv s" by (rule sys_invD)
  have fits: "list_fits l (thr (untake m s) u) = list_fits l (thr s u)" "thr_ok (thr (untake m s) u) = thr_ok (thr s u)" for l u
    by (cases l; simp add: untake_def thr_ok_def started_def)+
  have "rt_thread_ready_priority_group (untake m s) = rt_thread_ready_priority_group s"
    by (simp add: untake_def)
  then have "sched_inv (untake m s)"
    using kernel_invD(1) [OF k] fits by (simp add: sched_inv_def ready_inv_def cur_inv_def)
  moreover have "timer_inv (untake m s) = timer_inv s"
    by (rule timer_inv_cong) (simp_all add: untake_def)
  moreover have "thread_inv (untake m s) = thread_inv s"
    using thread_object_ok_cong [of "untake m s" s] by (simp add: thread_inv_def) (simp add: untake_def)
  ultimately show "kernel_inv (untake m s)" using k by (simp add: kernel_inv_def)
  show "rt_current_thread (untake m s) \<noteq> None" using sys_invD(4) [OF \<open>sys_inv s\<close>] by auto
qed (simp_all add: untake_def)

text \<open>The state in which the next owner is resumed, before the value of the mutex is set.\<close>

definition handed :: "nat \<Rightarrow> tid \<Rightarrow> kernel \<Rightarrow> kernel" where
  "handed m w s = resumed w
     (upd_thread w (\<lambda>r. r\<lparr>taken_object_list := m # taken_object_list r, pending_object := None\<rparr>)
       (upd_mutex m (\<lambda>r. r\<lparr>owner := Some w, hold := 1\<rparr>) (tl_remove w s)))"

lemma live_resumed:
  "live (resumed w s) w" "\<not> suspended (resumed w s) w"
  "u \<noteq> w \<Longrightarrow> live (resumed w s) u = live s u" "u \<noteq> w \<Longrightarrow> suspended (resumed w s) u = suspended s u"
  by (simp_all add: resumed_def Let_def ready_insert_def live_def suspended_def stat_of_def)

lemma handed_facts:
  assumes inv: "sys_inv s" and w: "lists s (MutexWait m) = w # ws"
  shows "hand_over m w s = Some (upd_mutex m (\<lambda>r. r\<lparr>mtx_priority := head_priority m (handed m w s)\<rparr>) (handed m w s))"
    "sys_inv (handed m w s)" "runnable (handed m w s) = insert w (runnable s)"
    "lists (handed m w s) (MutexWait k) = (if k = m then ws else lists s (MutexWait k))"
    "taken_object_list (thr (handed m w s) u) = (if u = w then m # taken_object_list (thr s w) else taken_object_list (thr s u))"
    "pending_object (thr (handed m w s) u) = (if u = w then None else pending_object (thr s u))"
    "current_priority (thr (handed m w s) u) = current_priority (thr s u)"
    "init_priority (thr (handed m w s) u) = init_priority (thr s u)"
    "mutexes (handed m w s) = (mutexes s)(m := (mutexes s m)\<lparr>owner := Some w, hold := 1\<rparr>)"
    "rt_object_get_type a (handed m w s) = rt_object_get_type a s" "mutex_flag k (handed m w s) = mutex_flag k s"
proof -
  let ?s1 = "upd_mutex m (\<lambda>r. r\<lparr>owner := Some w, hold := 1\<rparr>) (tl_remove w s)"
  let ?s2 = "upd_thread w (\<lambda>r. r\<lparr>taken_object_list := m # taken_object_list r, pending_object := None\<rparr>) ?s1"
  have su: "suspended s w"
    using waiter_suspended [OF sys_invD(1) [OF inv], of "MutexWait m" w] w by simp
  have i2: "sys_inv ?s2"
    by (rule sys_inv_fields) (use sys_inv_tl_remove [OF inv su] in simp_all)
  have su2: "suspended ?s2 w" using su by (simp add: suspended_def)
  have res: "rt_thread_resume w ?s2 = Some (RT_EOK, resumed w ?s2)"
    by (rule resume_suspended [OF sys_invD(1) [OF i2] su2])
  then show "hand_over m w s = Some (upd_mutex m (\<lambda>r. r\<lparr>mtx_priority := head_priority m (handed m w s)\<rparr>) (handed m w s))"
    by (simp add: hand_over_def handed_def Let_def del: upd_thread_def)
  show "sys_inv (handed m w s)"
    unfolding handed_def by (rule tick_inv_resumed [OF i2 su2])
  have nr: "w \<notin> set (lists s (Ready p))" for p
    using in_ready_only [OF kernel_invD(2) [OF sys_invD(1) [OF inv]], of w p "MutexWait m"] w by auto
  have "runnable ?s2 = runnable s"
    using nr su ready_not_suspended(2) [of "stat (thr s w)"]
    by (auto simp: runnable_def stat_of_def family_remove_def removeAll_notin suspended_def)
  then show "runnable (handed m w s) = insert w (runnable s)"
    unfolding handed_def using runnable_resumed [OF sys_invD(1) [OF i2] su2] by simp
  have fam: "family_ok (lists s)" using ready_invD(1) [OF kernel_invD(2) [OF sys_invD(1) [OF inv]]] .
  have "distinct (w # ws)" "k \<noteq> m \<Longrightarrow> w \<notin> set (lists s (MutexWait k))" for k
    using fam w unfolding family_ok_def by (metis, metis list.set_intros(1) list_id.inject(3))
  then show "lists (handed m w s) (MutexWait k) = (if k = m then ws else lists s (MutexWait k))"
    unfolding handed_def by (simp add: lists_resumed family_remove_def w removeAll_notin)
  note q = quietD [OF quiet_resumed [of ?s2 w]] and f = ipc_frameD [OF ipc_frame_resumed [of ?s2 w]]
  show "taken_object_list (thr (handed m w s) u) = (if u = w then m # taken_object_list (thr s w) else taken_object_list (thr s u))"
    "pending_object (thr (handed m w s) u) = (if u = w then None else pending_object (thr s u))"
    "current_priority (thr (handed m w s) u) = current_priority (thr s u)"
    "init_priority (thr (handed m w s) u) = init_priority (thr s u)"
    unfolding handed_def q by simp_all
  show "mutexes (handed m w s) = (mutexes s)(m := (mutexes s m)\<lparr>owner := Some w, hold := 1\<rparr>)"
    unfolding handed_def f by (simp add: upd_mutex_def tl_remove_def)
  show "rt_object_get_type a (handed m w s) = rt_object_get_type a s" "mutex_flag k (handed m w s) = mutex_flag k s"
    unfolding handed_def mutex_flag_def f by (simp_all add: upd_mutex_def tl_remove_def rt_object_get_type_def)
qed

lemma handed_live:
  "live (handed m w s) w" "\<not> suspended (handed m w s) w"
  "u \<noteq> w \<Longrightarrow> live (handed m w s) u = live s u" "u \<noteq> w \<Longrightarrow> suspended (handed m w s) u = suspended s u"
  by (simp_all add: handed_def live_resumed) (simp_all add: live_def suspended_def stat_of_def)

lemma free_hand_over:
  assumes inv: "sys_inv s" and fr: "free_pi m s" and w: "lists s (MutexWait m) = w # ws"
  defines "s' \<equiv> upd_mutex m (\<lambda>r. r\<lparr>mtx_priority := head_priority m (handed m w s)\<rparr>) (handed m w s)"
  shows "pi_inv s'"
proof -
  let ?h = "handed m w s"
  note h = handed_facts [OF inv w] and d = free_piD [OF fr] and hl = handed_live [where m = m and w = w and s = s]
  have ow: "owns s' u k \<longleftrightarrow> (if k = m then u = w else owns s u k)" for u k
    by (auto simp: s'_def owns_def upd_mutex_def h(9))
  have wt: "waits s' u k \<longleftrightarrow> (if k = m then u \<in> set ws else waits s u k)" for u k
    by (auto simp: s'_def waits_def h(4))
  have dis: "w \<notin> set ws" "u \<in> set ws \<Longrightarrow> waits s u m" for u
    using ready_invD(1) [OF kernel_invD(2) [OF sys_invD(1) [OF inv]]] w
    unfolding family_ok_def waits_def by (metis distinct.simps(2), simp)
  have ww: "waits s w m" using w by (simp add: waits_def)
  have thr': "threads s' = threads ?h" "live s' u = live ?h u" "suspended s' u = suspended ?h u" for u
    by (simp_all add: s'_def)
  have pd: "waits s w k \<Longrightarrow> k = m" for k
    using d(3) [OF ww] d(3) [of w k] by simp
  have "k \<in> set (taken_object_list (thr s' u)) \<longleftrightarrow> owns s' u k" for u k
    using d(1) [of k u] by (auto simp: thr' h(5) ow)
  moreover have "owns s' u k \<Longrightarrow> live s' u" for u k
    using d(2) [of k u] hl(1,3) by (cases "u = w") (auto simp: thr' ow split: if_splits)
  moreover have "pending_object (thr s' u) = Some (OMutex k) \<and> (\<exists>v. owns s' v k)" if a: "waits s' u k" for u k
  proof -
    have wk: "waits s u k" "u \<noteq> w"
      using a dis pd [of k] by (auto simp: wt split: if_splits)
    show ?thesis
      using d(3) [OF wk(1)] d(4) [OF wk(1)] wk(2) by (auto simp: thr' h(6) ow)
  qed
  moreover have "suspended s' u \<Longrightarrow> pending_object (thr s' u) = Some (OMutex k) \<Longrightarrow> waits s' u k" for u k
    using d(5) [of u k] hl(2,4) w
    by (cases "u = w") (auto simp: thr' h(6) wt waits_def [of s] split: if_splits)
  moreover have "owns s' u k \<Longrightarrow> rt_object_get_type (OMutex k) s' = RT_Object_Class_Mutex \<and>
      mutex_flag k s' = RT_IPC_FLAG_PRIO \<and> ceiling_priority (mutexes s' k) = 0xff" for u k
    using d(6-8) [of u k] d(13-15)
    by (cases "k = m") (simp_all add: s'_def h(9,10,11) ow [unfolded s'_def])
  moreover have "unat (init_priority (thr s' u)) < 32" for u
    using d(9) by (simp add: thr' h(8))
  ultimately have st: "mutex_struct s'"
    unfolding mutex_struct_def by blast
  have pk: "prio_key s' = prio_key s"
    by (simp add: prio_key_def fun_eq_iff thr' h(7))
  have srt: "sorted (map (prio_key s) (w # ws))" using d(10) [of m] w by simp
  have D: "sorted (map (prio_key s') (lists s' (MutexWait k)))" for k
    using d(10) [of k] srt by (simp add: pk) (simp add: s'_def h(4))
  have hp: "k \<noteq> m \<Longrightarrow> head_priority k s' = head_priority k s" for k
    by (simp add: head_priority_hd pk) (simp add: s'_def h(4))
  have E: "owns s' u k \<Longrightarrow> mtx_priority (mutexes s' k) \<le> head_priority k s'" for u k
    using d(11) [of k u] hp by (cases "k = m") (simp_all add: ow, simp_all add: s'_def h(9))
  have mm: "mutex_prio s' m = head_priority m s'" "k \<noteq> m \<Longrightarrow> mutex_prio s' k = mutex_prio s k" for k
    using mutex_prio_no_ceiling [OF st, of w m] by (simp_all add: ow, simp_all add: s'_def mutex_prio_def h(9))
  have le: "prio_key s w \<le> head_priority m s'"
    using srt byte_le_ff by (cases ws) (simp_all add: head_priority_hd pk, simp_all add: s'_def h(4))
  have F: "current_priority (thr s' u) = thread_get_mutex_priority u s'" for u
  proof (cases "u = w")
    case False
    then have "thread_get_mutex_priority u s' = thread_get_mutex_priority u s"
      using d(1) [of m u] unfolding thread_get_mutex_priority_def thr' h(8) h(5)
      by (simp, intro get_mutex_priority_cong) (auto simp: s'_def upd_mutex_def h(9))
    then show ?thesis using d(12) [of u] by (simp add: thr' h(7))
  next
    case True
    let ?ms = "taken_object_list (thr s w)" and ?i = "init_priority (thr s w)"
    have cur: "get_mutex_priority_loop ?ms ?i s = prio_key s w"
      using d(12) [of w] by (simp add: thread_get_mutex_priority_def prio_key_def)
    have "get_mutex_priority_loop (m # ?ms) ?i s' = prio_key s w"
    proof (rule get_mutex_priority_eq)
      show "prio_key s w \<le> ?i" using get_mutex_priority_base [of ?ms ?i s] cur by simp
      show "prio_key s w \<le> mutex_prio s' k" if "k \<in> set (m # ?ms)" for k
        using that mm le get_mutex_priority_le [of k ?ms ?i s] cur by (cases "k = m") auto
      show "prio_key s w = ?i \<or> (\<exists>k \<in> set (m # ?ms). prio_key s w = mutex_prio s' k)"
        using get_mutex_priority_attained [of ?ms ?i s] cur mm(2) d(1) [of m w] by auto metis
    qed
    then show ?thesis
      using True by (simp add: thread_get_mutex_priority_def thr' h(5,7,8) prio_key_def del: get_mutex_priority_Cons)
  qed
  show ?thesis
    unfolding pi_inv_def using st D E F by blast
qed

lemma get_priority_untaken:
  assumes st: "mutex_struct s" and own: "owns s t m"
    and s': "\<And>k. mutex_prio s' k = mutex_prio s k" "\<And>u. taken_object_list (thr s' u) = removeAll m (taken_object_list (thr s u))"
      "\<And>u. init_priority (thr s' u) = init_priority (thr s u)"
  shows "u \<noteq> t \<Longrightarrow> thread_get_mutex_priority u s' = thread_get_mutex_priority u s"
    and "thread_get_mutex_priority t s \<noteq> mtx_priority (mutexes s m) \<Longrightarrow>
         thread_get_mutex_priority t s' = thread_get_mutex_priority t s"
proof -
  have same: "get_mutex_priority_loop ms p s' = get_mutex_priority_loop ms p s" for ms p
    by (induction ms arbitrary: p) (simp_all add: s'(1))
  show "thread_get_mutex_priority u s' = thread_get_mutex_priority u s" if "u \<noteq> t"
  proof -
    have "m \<notin> set (taken_object_list (thr s u))"
      using mutex_structD(1) [OF st, of m u] own that by (auto simp: owns_def)
    then show ?thesis by (simp add: thread_get_mutex_priority_def s' same)
  qed
  let ?ms = "taken_object_list (thr s t)" and ?i = "init_priority (thr s t)"
  let ?v = "get_mutex_priority_loop ?ms ?i s"
  assume ne: "thread_get_mutex_priority t s \<noteq> mtx_priority (mutexes s m)"
  have "get_mutex_priority_loop (removeAll m ?ms) ?i s = ?v"
  proof (rule get_mutex_priority_eq)
    show "?v \<le> ?i" by (rule get_mutex_priority_base)
    show "?v \<le> mutex_prio s k" if "k \<in> set (removeAll m ?ms)" for k
      using that by (intro get_mutex_priority_le) simp
    have "?v \<noteq> mutex_prio s m"
      using ne mutex_prio_no_ceiling [OF st own] by (simp add: thread_get_mutex_priority_def)
    then show "?v = ?i \<or> (\<exists>k \<in> set (removeAll m ?ms). ?v = mutex_prio s k)"
      using get_mutex_priority_attained [of ?ms ?i s] by auto
  qed
  then show "thread_get_mutex_priority t s' = thread_get_mutex_priority t s"
    by (simp add: thread_get_mutex_priority_def s' same)
qed

lemma free_pi_untaken:
  assumes inv: "pi_inv s" and own: "owns s t m" and nw: "\<And>k. \<not> waits s t k"
    and mx: "\<And>k. (mutexes s' k)\<lparr>hold := 0\<rparr> = (mutexes s k)\<lparr>hold := 0\<rparr>"
    and ls: "\<And>k. lists s' (MutexWait k) = lists s (MutexWait k)"
    and th: "\<And>u. taken_object_list (thr s' u) = removeAll m (taken_object_list (thr s u))"
      "\<And>u. pending_object (thr s' u) = pending_object (thr s u)" "\<And>u. init_priority (thr s' u) = init_priority (thr s u)"
      "\<And>u. live s' u = live s u" "\<And>u. suspended s' u = suspended s u"
      "\<And>u. u \<noteq> t \<Longrightarrow> current_priority (thr s' u) = current_priority (thr s u)"
    and ob: "\<And>k. rt_object_get_type (OMutex k) s' = rt_object_get_type (OMutex k) s" "\<And>k. mutex_flag k s' = mutex_flag k s"
    and cur: "current_priority (thr s' t) = thread_get_mutex_priority t s'"
  shows "free_pi m s'"
proof -
  have st: "mutex_struct s" using inv by (simp add: pi_inv_def)
  note d = mutex_structD [OF st]
  have fld: "owner (mutexes s' k) = owner (mutexes s k)" "mtx_priority (mutexes s' k) = mtx_priority (mutexes s k)"
    "ceiling_priority (mutexes s' k) = ceiling_priority (mutexes s k)" for k
    using mx [of k] by (cases "mutexes s' k"; cases "mutexes s k"; simp)+
  have ow: "owns s' u k = owns s u k" "waits s' u k = waits s u k" for u k
    using ls by (simp_all add: owns_def fld waits_def)
  have only: "owns s u m \<Longrightarrow> u = t" for u using own by (simp add: owns_def)
  have key: "map (prio_key s') (lists s (MutexWait k)) = map (prio_key s) (lists s (MutexWait k))" for k
    using nw [of k] th(6) by (intro map_cong refl) (metis prio_key_def waits_def)
  have hd: "head_priority k s' = head_priority k s" for k
    using key [of k] by (cases "lists s (MutexWait k)") (simp_all add: head_priority_hd ls)
  have prio: "current_priority (thr s' u) = thread_get_mutex_priority u s'" for u
  proof (cases "u = t")
    case False
    have "mutex_prio s' k = mutex_prio s k" for k by (simp add: mutex_prio_def fld)
    then have "thread_get_mutex_priority u s' = thread_get_mutex_priority u s"
      by (intro get_priority_untaken(1) [OF st own _ th(1,3) False])
    then show ?thesis using inv False by (simp add: th pi_inv_def)
  qed (use cur in simp)
  show ?thesis
  proof (rule free_piI)
    show "k \<in> set (taken_object_list (thr s' u)) \<longleftrightarrow> k \<noteq> m \<and> owns s' u k" for u k
      using d(1) [of k u] by (auto simp: th ow)
    show "sorted (map (prio_key s') (lists s' (MutexWait k)))" for k
      using inv by (simp add: ls key pi_inv_def)
    show "mtx_priority (mutexes s' k) \<le> head_priority k s'" if "owns s' u k" for u k
      using inv that by (auto simp: ow fld hd pi_inv_def)
    show "owns s' t m" using own ow(1) by simp
  qed ((unfold th(2-5) ow ob fld)?; (rule prio | rule d; assumption+))+
qed

lemma release_detach:
  assumes inv: "sys_inv s" "pi_inv s" and own: "owns s t m" and nw: "\<And>k. \<not> waits s t k"
  defines "s2 \<equiv> untake m (upd_mutex m (\<lambda>r. r\<lparr>hold := hold r - 1\<rparr>) s)"
  defines "lower \<equiv> current_priority (thr s2 t) = mtx_priority (mutexes s2 m)"
  shows "\<exists>s3. (if lower then do { (_, s') \<leftarrow> thread_change_priority t (thread_get_mutex_priority t s2) s2; Some s' }
           else Some s2) = Some s3 \<and> sys_inv s3 \<and> free_pi m s3 \<and> runnable s \<subseteq> runnable s3 \<and>
     (\<forall>l. wait_id l \<longrightarrow> lists s3 l = lists s l) \<and> mutexes s3 = mutexes s2 \<and> rt_current_thread s3 = rt_current_thread s"
proof -
  have st: "mutex_struct s" using inv(2) by (simp add: pi_inv_def)
  have i2: "sys_inv s2" unfolding s2_def by (rule sys_inv_untake) (use inv(1) in simp)
  have mx: "(mutexes s2 k)\<lparr>hold := 0\<rparr> = (mutexes s k)\<lparr>hold := 0\<rparr>" for k
    by (cases "k = m") (simp_all add: s2_def)
  have mp: "mutex_prio s2 k = mutex_prio s k" for k
    by (cases "k = m") (simp_all add: s2_def mutex_prio_def)
  show ?thesis
  proof (cases lower)
    case False
    have "current_priority (thr s t) = thread_get_mutex_priority t s" using inv(2) by (simp add: pi_inv_def)
    with False have "thread_get_mutex_priority t s \<noteq> mtx_priority (mutexes s m)"
      by (simp add: lower_def s2_def)
    then have "thread_get_mutex_priority t s2 = thread_get_mutex_priority t s"
      by (intro get_priority_untaken(2) [OF st own mp]) (simp_all add: s2_def)
    with \<open>current_priority (thr s t) = thread_get_mutex_priority t s\<close>
    have cur: "current_priority (thr s2 t) = thread_get_mutex_priority t s2" by (simp add: s2_def)
    have "free_pi m s2"
      by (rule free_pi_untaken [OF inv(2) own nw mx _ _ _ _ _ _ _ _ _ cur]) (simp_all add: s2_def)
    with False i2 show ?thesis by (auto simp: s2_def)
  next
    case True
    let ?p = "thread_get_mutex_priority t s2"
    have "unat ?p < 32"
      using get_mutex_priority_base [of "taken_object_list (thr s2 t)" "init_priority (thr s2 t)" s2]
        mutex_structD(9) [OF st, of t]
      by (simp add: thread_get_mutex_priority_def word_le_nat_alt s2_def)
    moreover have "live s2 t" using mutex_structD(2) [OF st own] by (simp add: s2_def)
    ultimately obtain s3 where s3: "thread_change_priority t ?p s2 = Some (RT_EOK, s3)" "prio_changed t ?p s2 s3"
      using change_priority [OF i2] by blast
    note c = prio_changedD [OF s3(2)] and f = ipc_frameD [OF prio_changedD(2) [OF s3(2)]]
    have "thread_get_mutex_priority t s3 = ?p"
      by (rule get_priority_frame [OF pi_frame_changed [OF s3(2)]]) (simp add: c(14))
    then have cur: "current_priority (thr s3 t) = thread_get_mutex_priority t s3" using c(8) by simp
    have fl: "mutex_flag k s3 = mutex_flag k s2" for k by (simp add: mutex_flag_def f)
    have "free_pi m s3"
      by (rule free_pi_untaken [OF inv(2) own nw _ _ _ _ _ _ _ _ _ _ cur])
         (simp_all add: c mx f fl, simp_all add: s2_def)
    with True s3(1) c show ?thesis by (auto simp: s2_def)
  qed
qed

lemma pi_inv_hold: "pi_inv (upd_mutex m (\<lambda>r. r\<lparr>hold := f r\<rparr>) s) = pi_inv s"
proof -
  let ?s = "upd_mutex m (\<lambda>r. r\<lparr>hold := f r\<rparr>) s"
  have fld: "owns ?s u k = owns s u k" "waits ?s u k = waits s u k" "mutex_prio ?s k = mutex_prio s k"
    "ceiling_priority (mutexes ?s k) = ceiling_priority (mutexes s k)"
    "mtx_priority (mutexes ?s k) = mtx_priority (mutexes s k)" for u k
    by (cases "k = m"; simp add: owns_def waits_def mutex_prio_def)+
  have "get_mutex_priority_loop ms p ?s = get_mutex_priority_loop ms p s" for ms p
    by (induction ms arbitrary: p) (simp_all add: fld)
  then show ?thesis
    by (simp only: pi_inv_def mutex_struct_def thread_get_mutex_priority_def fld upd_mutex_frame)
qed

text \<open>
  C20. Releasing a mutex.  The owner's call always returns \<^verbatim>\<open>RT_EOK\<close>: a nested hold
  is undone one level; at the last level the mutex goes to the first, that is a
  highest-priority, waiting thread, which becomes runnable as its owner with hold
  count one, or is free when nobody waits.  The releasing thread falls back to the
  priority that its own base priority and its remaining mutexes give it, and the
  inheritance invariant holds again for every thread and mutex.
\<close>

theorem mutex_release_hands_over:
  assumes inv: "sys_inv s" "pi_inv s"
    and t: "rt_current_thread s = Some t" "stat_of s t = RT_THREAD_RUNNING" and own: "owns s t m"
  shows "\<exists>s'. rt_mutex_release m s = Some (RT_EOK, s') \<and> sys_inv s' \<and> pi_inv s' \<and>
     (if hold (mutexes s m) \<noteq> 1
      then owns s' t m \<and> hold (mutexes s' m) = hold (mutexes s m) - 1
      else case lists s (MutexWait m) of
             [] \<Rightarrow> owner (mutexes s' m) = None
           | w # ws \<Rightarrow> owns s' w m \<and> hold (mutexes s' m) = 1 \<and> w \<in> runnable s' \<and> lists s' (MutexWait m) = ws)"
proof -
  let ?s1 = "upd_mutex m (\<lambda>r. r\<lparr>hold := hold r - 1\<rparr>) s"
  let ?s2 = "untake m ?s1"
  let ?lower = "current_priority (thr ?s2 t) = mtx_priority (mutexes ?s2 m)"
  have st: "mutex_struct s" using inv(2) by (simp add: pi_inv_def)
  note ow = own [unfolded owns_def] and ty = mutex_structD(6) [OF st own] and ce = mutex_structD(8) [OF st own]
  show ?thesis
  proof (cases "hold (mutexes s m) = 1")
    case False
    have "pi_inv ?s1" using inv(2) by (simp add: pi_inv_hold)
    moreover have "hold (mutexes ?s1 m) \<noteq> 0" using False by simp
    ultimately show ?thesis
      using False inv(1) t(1) ow ty by (auto simp: rt_mutex_release_def rt_thread_self_def owns_def)
  next
    case True
    obtain s3 where s3: "(if ?lower then do { (_, s') \<leftarrow> thread_change_priority t (thread_get_mutex_priority t ?s2) ?s2; Some s' }
           else Some ?s2) = Some s3" "sys_inv s3" "free_pi m s3" "runnable s \<subseteq> runnable s3"
      "\<And>l. wait_id l \<Longrightarrow> lists s3 l = lists s l" "mutexes s3 = mutexes ?s2"
      using release_detach [OF inv own running_not_waiting [OF inv(1) t]] by auto
    have eq: "rt_mutex_release m s = do {
         (need_schedule, s4) \<leftarrow>
           (case lists s3 (MutexWait m) of
              next_thread # _ \<Rightarrow> do { s' \<leftarrow> hand_over m next_thread s3; Some (True, s') }
            | [] \<Rightarrow> Some (?lower, upd_mutex m (\<lambda>r. r\<lparr>owner := None, mtx_priority := 0xff\<rparr>) s3));
         s5 \<leftarrow> (if need_schedule then rt_schedule s4 else Some s4);
         Some (RT_EOK, s5) }"
      unfolding rt_mutex_release_def rt_thread_self_def
      using t(1) ow ty True ce s3(1) by (simp add: Let_def cong: list.case_cong)
    show ?thesis
    proof (cases "lists s (MutexWait m)")
      case Nil
      let ?s4 = "upd_mutex m (\<lambda>r. r\<lparr>owner := None, mtx_priority := 0xff\<rparr>) s3"
      have p4: "pi_inv ?s4" "sys_inv ?s4" using free_none [OF s3(3)] s3(2,5) Nil by simp_all
      obtain s5 where s5: "rt_schedule ?s4 = Some s5" "sys_inv s5" "sched_to ?s4 s5" using sys_schedule [OF p4(2)] .
      note v = pi_view_sched [OF s5(3)]
      have "owner (mutexes s5 m) = None" using v by (simp add: pi_view_def)
      then show ?thesis
        using Nil True eq s3(5) s5 pi_inv_view(1) [OF v] p4 by (cases ?lower) auto
    next
      case (Cons w ws)
      have w3: "lists s3 (MutexWait m) = w # ws" using s3(5) Cons by simp
      let ?s4 = "upd_mutex m (\<lambda>r. r\<lparr>mtx_priority := head_priority m (handed m w s3)\<rparr>) (handed m w s3)"
      note h = handed_facts [OF s3(2) w3]
      have p4: "pi_inv ?s4" "sys_inv ?s4" using free_hand_over [OF s3(2,3) w3] h(2) by simp_all
      obtain s5 where s5: "rt_schedule ?s4 = Some s5" "sys_inv s5" "sched_to ?s4 s5" using sys_schedule [OF p4(2)] .
      note v = pi_view_sched [OF s5(3)]
      have "owns s5 w m" "hold (mutexes s5 m) = 1" "lists s5 (MutexWait m) = ws" "w \<in> runnable s5"
        using v sched_toD(3) [OF s5(3)] h(3,4) by (simp_all add: pi_view_def owns_def h(9))
      then show ?thesis
        using Cons True eq w3 h(1) s5 pi_inv_view(1) [OF v] p4 by auto
    qed
  qed
qed

definition held_system :: kernel where
  "held_system = upd_obj (OMutex 5) (\<lambda>r. r\<lparr>obj_flag := RT_IPC_FLAG_PRIO\<rparr>)
     (upd_mutex 5 (\<lambda>_. \<lparr>ceiling_priority = 0xff, mtx_priority = 0xff, hold = 1, owner = Some 2\<rparr>)
       (upd_thread 2 (\<lambda>r. r\<lparr>taken_object_list := [5]\<rparr>) small_system))"

lemma held_system_ok: "sys_inv held_system" "pi_inv held_system" "owns held_system 2 5"
  "rt_current_thread held_system = Some 2" "stat_of held_system 2 = RT_THREAD_RUNNING"
  "hold (mutexes held_system 5) = 1" "lists held_system (MutexWait 5) = []"
proof -
  have "sys_inv (upd_thread 2 (\<lambda>r. r\<lparr>taken_object_list := [5]\<rparr>) small_system)"
    by (rule sys_inv_fields [OF sys_inv_small]) simp_all
  then show "sys_inv held_system"
    unfolding held_system_def by (subst sys_inv_obj) (simp_all del: upd_obj_def upd_thread_def)
  have f: "owns held_system t m \<longleftrightarrow> t = 2 \<and> m = 5" "\<not> waits held_system t m"
    "taken_object_list (thr held_system t) = (if t = 2 then [5] else [])"
    "pending_object (thr held_system t) = None" "live held_system 2"
    "unat (current_priority (thr held_system t)) < 32"
    "init_priority (thr held_system t) = current_priority (thr held_system t)"
    "rt_object_get_type (OMutex 5) held_system = RT_Object_Class_Mutex" "mutex_flag 5 held_system = RT_IPC_FLAG_PRIO"
    "mutexes held_system 5 = \<lparr>ceiling_priority = 0xff, mtx_priority = 0xff, hold = 1, owner = Some 2\<rparr>"
    "lists held_system (MutexWait m) = []" "rt_current_thread held_system = Some 2"
    "stat_of held_system 2 = RT_THREAD_RUNNING" for t m
    by (auto simp: held_system_def owns_def waits_def upd_mutex_def small_system_def kernel_reset_def sample_thread_def
        blank_thread_def live_def stat_of_def rt_object_get_type_def mutex_flag_def)
  then show "owns held_system 2 5" "rt_current_thread held_system = Some 2" "stat_of held_system 2 = RT_THREAD_RUNNING"
    "hold (mutexes held_system 5) = 1" "lists held_system (MutexWait 5) = []"
    by simp_all
  have "mutex_struct held_system"
    unfolding mutex_struct_def by (auto simp: f)
  moreover have "current_priority (thr held_system t) = thread_get_mutex_priority t held_system" for t
    by (simp add: thread_get_mutex_priority_def f mutex_prio_def min_absorb2 [OF byte_le_ff])
  ultimately show "pi_inv held_system"
    by (simp add: pi_inv_def f head_priority_def)
qed

theorem mutex_release_hands_over_witness:
  "\<exists>s'. rt_mutex_release 5 held_system = Some (RT_EOK, s') \<and> pi_inv s' \<and> owner (mutexes s' 5) = None"
  using mutex_release_hands_over [OF held_system_ok(1,2,4,5,3)] held_system_ok(6,7) by auto

section \<open>Taking a mutex without waiting\<close>

lemma take_free_pi:
  assumes inv: "sys_inv s" "pi_inv s" and t: "live s t" and free: "owner (mutexes s m) = None"
    and m: "rt_object_get_type (OMutex m) s = RT_Object_Class_Mutex" "mutex_flag m s = RT_IPC_FLAG_PRIO"
      "ceiling_priority (mutexes s m) = 0xff"
  shows "\<exists>s'. take_free_mutex m t f s = Some s' \<and> sys_inv s' \<and> pi_inv s' \<and> owns s' t m \<and> hold (mutexes s' m) = 1"
proof -
  let ?s1 = "upd_mutex m (\<lambda>r. r\<lparr>owner := Some t, mtx_priority := 0xff, hold := 1\<rparr>) s"
  define s2 where "s2 = upd_thread t (\<lambda>r. r\<lparr>taken_object_list := m # taken_object_list r\<rparr>) ?s1"
  have st: "mutex_struct s" using inv(2) by (simp add: pi_inv_def)
  note d = mutex_structD [OF st]
  have eq: "take_free_mutex m t f s = Some s2"
    using m(3) by (simp add: take_free_mutex_def Let_def s2_def)
  have i2: "sys_inv s2" unfolding s2_def by (rule sys_inv_fields) (use inv(1) in simp_all)
  have nw: "\<not> waits s u m" for u using d(4) [of u m] free by (auto simp: owns_def)
  have nil: "lists s (MutexWait m) = []"
    using nw by (cases "lists s (MutexWait m)") (auto simp: waits_def)
  have ow: "owns s2 u k \<longleftrightarrow> (if k = m then u = t else owns s u k)" for u k
    by (auto simp: owns_def upd_mutex_def s2_def)
  have wt: "waits s2 u k = waits s u k" for u k by (simp add: waits_def s2_def)
  have th: "pending_object (thr s2 u) = pending_object (thr s u)" "init_priority (thr s2 u) = init_priority (thr s u)"
    "live s2 u = live s u" "suspended s2 u = suspended s u" "current_priority (thr s2 u) = current_priority (thr s u)" for u
    by (simp_all add: live_def suspended_def stat_of_def s2_def)
  have ob: "rt_object_get_type a s2 = rt_object_get_type a s" "mutex_flag k s2 = mutex_flag k s" for a k
    by (simp_all add: mutex_flag_def upd_mutex_def s2_def)
  have "k \<in> set (taken_object_list (thr s2 u)) \<longleftrightarrow> owns s2 u k" for u k
    using d(1) [of k u] free unfolding ow by (auto simp: owns_def s2_def)
  moreover have "owns s2 u k \<Longrightarrow> live s2 u" for u k
    using d(2) [of u k] t by (auto simp: ow th split: if_splits)
  moreover have "pending_object (thr s2 u) = Some (OMutex k) \<and> (\<exists>v. owns s2 v k)" if "waits s2 u k" for u k
    using that d(3) [of u k] d(4) [of u k] by (auto simp: wt th ow)
  moreover have "suspended s2 u \<Longrightarrow> pending_object (thr s2 u) = Some (OMutex k) \<Longrightarrow> waits s2 u k" for u k
    unfolding th wt by (rule d(5))
  moreover have "owns s2 u k \<Longrightarrow> rt_object_get_type (OMutex k) s2 = RT_Object_Class_Mutex \<and>
      mutex_flag k s2 = RT_IPC_FLAG_PRIO \<and> ceiling_priority (mutexes s2 k) = 0xff" for u k
    using d(6-8) [of u k] m unfolding ob ow by (cases "k = m") (simp_all add: upd_mutex_def s2_def)
  moreover have "unat (init_priority (thr s2 u)) < 32" for u unfolding th by (rule d(9))
  ultimately have st2: "mutex_struct s2" unfolding mutex_struct_def by blast
  have pk: "prio_key s2 = prio_key s" unfolding prio_key_def th ..
  have hp: "head_priority k s2 = head_priority k s" for k by (simp add: head_priority_hd pk) (simp add: s2_def)
  have E: "mtx_priority (mutexes s2 k) \<le> head_priority k s2" if "owns s2 u k" for u k
    using that inv(2) nil unfolding hp ow by (cases "k = m") (auto simp: upd_mutex_def pi_inv_def head_priority_def s2_def)
  have mp: "mutex_prio s2 m = 0xff" "k \<noteq> m \<Longrightarrow> mutex_prio s2 k = mutex_prio s k" for k
    using m(3) by (simp_all add: mutex_prio_def upd_mutex_def s2_def)
  have nm: "m \<notin> set (taken_object_list (thr s u))" for u using d(1) [of m u] free by (simp add: owns_def)
  have cg: "get_mutex_priority_loop (taken_object_list (thr s u)) p s2 = get_mutex_priority_loop (taken_object_list (thr s u)) p s" for u p
    using nm by (intro get_mutex_priority_cong) (auto simp: upd_mutex_def s2_def)
  have F: "current_priority (thr s2 u) = thread_get_mutex_priority u s2" for u
  proof -
    have "thread_get_mutex_priority u s2 = thread_get_mutex_priority u s"
    proof (cases "u = t")
      case True
      then have "taken_object_list (thr s2 u) = m # taken_object_list (thr s u)" by (simp add: s2_def)
      then show ?thesis
        using mp(1) byte_le_ff cg by (simp add: thread_get_mutex_priority_def th min_absorb2)
    next
      case False
      then have "taken_object_list (thr s2 u) = taken_object_list (thr s u)" by (simp add: s2_def)
      then show ?thesis using cg by (simp add: thread_get_mutex_priority_def th)
    qed
    then show ?thesis using inv(2) unfolding th by (simp add: pi_inv_def)
  qed
  have "sorted (map (prio_key s2) (lists s2 (MutexWait k)))" for k
    using inv(2) unfolding pk by (simp add: pi_inv_def s2_def)
  then have "pi_inv s2" unfolding pi_inv_def using st2 E F by blast
  moreover have "hold (mutexes s2 m) = 1" by (simp add: s2_def)
  ultimately show ?thesis using eq i2 by (auto simp: ow)
qed

text \<open>
  Taking a mutex that is free or already held by the caller never blocks,
  whatever the timeout: a free mutex becomes owned with hold count one, a held one
  counts one level up, and the call answers \<^verbatim>\<open>-RT_EFULL\<close> with everything as it was
  when the 8-bit count is at 255, so that it cannot wrap around to zero.
\<close>

theorem mutex_take_nonblocking:
  assumes inv: "sys_inv s" "pi_inv s" and t: "rt_current_thread s = Some t" "stat_of s t = RT_THREAD_RUNNING"
    and m: "rt_object_get_type (OMutex m) s = RT_Object_Class_Mutex" "mutex_flag m s = RT_IPC_FLAG_PRIO"
      "ceiling_priority (mutexes s m) = 0xff"
    and own: "owner (mutexes s m) = None \<or> owns s t m"
  shows "\<exists>r s'. rt_mutex_take_flag m timeout sflag s = Some (Done r, s') \<and> sys_inv s' \<and> pi_inv s' \<and> owns s' t m \<and>
     (if owner (mutexes s m) = None then r = RT_EOK \<and> hold (mutexes s' m) = 1
      else if hold (mutexes s m) < 255 then r = RT_EOK \<and> unat (hold (mutexes s' m)) = unat (hold (mutexes s m)) + 1
      else r = - RT_EFULL \<and> mutexes s' = mutexes s)"
proof -
  let ?s0 = "set_error t RT_EOK s"
  note v0 = pi_inv_view [OF pi_view_set_error [of s t RT_EOK]]
  have i0: "sys_inv ?s0" "pi_inv ?s0" "mutexes ?s0 = mutexes s" "mutex_flag m ?s0 = RT_IPC_FLAG_PRIO"
    using sys_inv_set_error [OF inv(1)] v0 inv(2) m(2) by (simp_all add: mutex_flag_def) (simp add: set_error_def)
  show ?thesis
  proof (cases "owner (mutexes s m)")
    case None
    obtain s' where "take_free_mutex m t sflag ?s0 = Some s'" "sys_inv s'" "pi_inv s'" "owns s' t m" "hold (mutexes s' m) = 1"
      using take_free_pi [OF i0(1,2), of t m sflag] running_live [OF t(2)] None m i0 by auto
    with None m(1) t(1) i0(3) show ?thesis by (simp add: rt_mutex_take_flag_def rt_thread_self_def)
  next
    case (Some u)
    then have u: "u = t" using own by (simp add: owns_def)
    let ?s1 = "upd_mutex m (\<lambda>r. r\<lparr>hold := hold r + 1\<rparr>) ?s0"
    have "pi_inv ?s1" "owns ?s1 t m" "owns ?s0 t m"
      using i0(2) pi_inv_hold [of m "\<lambda>r. hold r + 1" ?s0] Some u i0(3) by (simp_all add: owns_def)
    moreover have "hold (mutexes s m) < 255 \<Longrightarrow> unat (hold (mutexes s m) + 1) = unat (hold (mutexes s m)) + 1"
      by (rule unat_plus_one)
    ultimately show ?thesis
      using Some u m(1) t(1) i0
      by (cases "hold (mutexes s m) < 255") (auto simp: rt_mutex_take_flag_def rt_thread_self_def)
  qed
qed

theorem mutex_take_nonblocking_witness:
  "\<exists>s'. rt_mutex_take_flag 5 0 RT_UNINTERRUPTIBLE held_system = Some (Done RT_EOK, s') \<and> unat (hold (mutexes s' 5)) = 2"
proof -
  have "rt_object_get_type (OMutex 5) held_system = RT_Object_Class_Mutex" "mutex_flag 5 held_system = RT_IPC_FLAG_PRIO"
    "ceiling_priority (mutexes held_system 5) = 0xff" "owner (mutexes held_system 5) \<noteq> None"
    using held_system_ok(3) mutex_structD(6,7,8) [of held_system 2 5] held_system_ok(2)
    by (auto simp: pi_inv_def owns_def)
  with mutex_take_nonblocking [OF held_system_ok(1,2,4,5), of 5 0 RT_UNINTERRUPTIBLE] held_system_ok(3,6)
  show ?thesis by auto
qed

end
