(* ===== verification/Lifecycle.thy ===== *)
theory Lifecycle
  imports PriorityInherit
begin

text \<open>
  The end of threads: exit, detach, delete and \<^verbatim>\<open>rt_thread_control\<close> of \<^verbatim>\<open>src/thread.c\<close>, and the
  idle thread of \<^verbatim>\<open>src/idle.c\<close> that takes closed threads off the list of defunct threads and
  gives their objects and stacks back.  The clean-up functions of threads and the release of a
  stack (\<^verbatim>\<open>RT_KERNEL_FREE\<close>) are arguments; the signal data that \<^verbatim>\<open>rt_thread_free_sig\<close> frees is not
  part of the state.
\<close>

section \<open>Operations\<close>

definition rt_thread_defunct_enqueue :: "tid \<Rightarrow> kernel \<Rightarrow> kernel" where
  "rt_thread_defunct_enqueue t s = tl_push_front Defunct t s"

definition rt_thread_defunct_dequeue :: "kernel \<Rightarrow> tid option \<times> kernel" where
  "rt_thread_defunct_dequeue s =
    (case tl_first Defunct s of None \<Rightarrow> (None, s) | Some t \<Rightarrow> (Some t, tl_remove t s))"

definition thread_exit :: "kernel \<Rightarrow> kernel option" where
  "thread_exit s = do {
     t \<leftarrow> rt_thread_self s;
     s1 \<leftarrow> rt_schedule_remove_thread t s;
     (_, s2) \<leftarrow> rt_timer_detach (ThreadTimer t) s1;
     let s3 = upd_thread t (\<lambda>r. r\<lparr>stat := RT_THREAD_CLOSE\<rparr>) s2;
     rt_schedule (rt_thread_defunct_enqueue t s3)
   }"

text \<open>The common body of \<^verbatim>\<open>rt_thread_detach\<close> and \<^verbatim>\<open>rt_thread_delete\<close>.\<close>

definition drop_pending :: "tid \<Rightarrow> kernel \<Rightarrow> kernel option" where
  "drop_pending t s =
    (case pending_object (thr s t) of
       Some (OMutex m) \<Rightarrow>
         if rt_object_get_type (OMutex m) s = RT_Object_Class_Mutex
         then do {
           s1 \<leftarrow> rt_mutex_drop_thread m t s;
           Some (upd_thread t (\<lambda>r. r\<lparr>pending_object := None\<rparr>) s1)
         }
         else Some s
     | _ \<Rightarrow> Some s)"

definition thread_close :: "tid \<Rightarrow> kernel \<Rightarrow> (err \<times> kernel) option" where
  "thread_close t s =
    (if stat_of s t = RT_THREAD_CLOSE then Some (RT_EOK, s)
     else do {
       s1 \<leftarrow> (if stat_of s t \<noteq> RT_THREAD_INIT then rt_schedule_remove_thread t s else Some s);
       (_, s2) \<leftarrow> rt_timer_detach (ThreadTimer t) s1;
       let s3 = upd_thread t (\<lambda>r. r\<lparr>stat := RT_THREAD_CLOSE\<rparr>) s2;
       s4 \<leftarrow> drop_pending t s3;
       Some (RT_EOK, rt_thread_defunct_enqueue t s4)
     })"

definition rt_thread_detach :: "tid \<Rightarrow> kernel \<Rightarrow> (err \<times> kernel) option" where
  "rt_thread_detach t s = do {
     rt_assert (rt_object_get_type (OThread t) s = RT_Object_Class_Thread);
     rt_assert (rt_object_is_systemobject (OThread t) s);
     thread_close t s
   }"

definition rt_thread_delete :: "tid \<Rightarrow> kernel \<Rightarrow> (err \<times> kernel) option" where
  "rt_thread_delete t s = do {
     rt_assert (rt_object_get_type (OThread t) s = RT_Object_Class_Thread);
     rt_assert (\<not> rt_object_is_systemobject (OThread t) s);
     thread_close t s
   }"

abbreviation (input) RT_THREAD_CTRL_STARTUP :: int where "RT_THREAD_CTRL_STARTUP \<equiv> 0"
abbreviation (input) RT_THREAD_CTRL_CLOSE :: int where "RT_THREAD_CTRL_CLOSE \<equiv> 1"
abbreviation (input) RT_THREAD_CTRL_CHANGE_PRIORITY :: int where "RT_THREAD_CTRL_CHANGE_PRIORITY \<equiv> 2"

definition rt_thread_control :: "tid \<Rightarrow> int \<Rightarrow> 8 word \<Rightarrow> kernel \<Rightarrow> (err \<times> kernel) option" where
  "rt_thread_control t cmd arg s = do {
     rt_assert (rt_object_get_type (OThread t) s = RT_Object_Class_Thread);
     if cmd = RT_THREAD_CTRL_CHANGE_PRIORITY then thread_change_priority t arg s
     else if cmd = RT_THREAD_CTRL_STARTUP then rt_thread_startup t s
     else if cmd = RT_THREAD_CTRL_CLOSE
     then do {
       (err, s1) \<leftarrow> (if rt_object_is_systemobject (OThread t) s then rt_thread_detach t s else rt_thread_delete t s);
       s2 \<leftarrow> rt_schedule s1;
       Some (err, s2)
     }
     else Some (RT_EOK, s)
   }"

type_synonym cleaner = "nat \<Rightarrow> tid \<Rightarrow> kernel \<Rightarrow> kernel option"
type_synonym releaser = "64 word \<Rightarrow> kernel \<Rightarrow> kernel option"

text \<open>The body of the loop of \<^verbatim>\<open>rt_defunct_execute\<close> for one thread.\<close>

definition reclaim :: "cleaner \<Rightarrow> releaser \<Rightarrow> tid \<Rightarrow> kernel \<Rightarrow> kernel option" where
  "reclaim clean kfree t s = do {
     let clean_fn = cleanup (thr s t);
     let object_is_systemobject = rt_object_is_systemobject (OThread t) s;
     let s1 = (if object_is_systemobject then rt_object_detach (OThread t) s else s);
     s2 \<leftarrow> (case clean_fn of None \<Rightarrow> Some s1 | Some f \<Rightarrow> clean f t s1);
     if object_is_systemobject then Some s2
     else do {
       s3 \<leftarrow> kfree (stack_addr (thr s2 t)) s2;
       rt_object_delete (OThread t) s3
     }
   }"

partial_function (option) rt_defunct_execute :: "cleaner \<Rightarrow> releaser \<Rightarrow> kernel \<Rightarrow> kernel option" where
  "rt_defunct_execute clean kfree s =
    (case rt_thread_defunct_dequeue s of
       (None, s1) \<Rightarrow> Some s1
     | (Some t, s1) \<Rightarrow> do {
         s2 \<leftarrow> reclaim clean kfree t s1;
         rt_defunct_execute clean kfree s2
       })"

text \<open>The idle hooks: a table of four entries, a free one is \<^verbatim>\<open>None\<close>.\<close>

type_synonym idle_hooks = "nat option list"

fun sethook_loop :: "nat \<Rightarrow> idle_hooks \<Rightarrow> err \<times> idle_hooks" where
  "sethook_loop hook [] = (- RT_EFULL, [])"
| "sethook_loop hook (h # hs) =
    (if h = None then (RT_EOK, Some hook # hs)
     else case sethook_loop hook hs of (ret, hs') \<Rightarrow> (ret, h # hs'))"

definition rt_thread_idle_sethook :: "nat \<Rightarrow> idle_hooks \<Rightarrow> err \<times> idle_hooks" where
  "rt_thread_idle_sethook hook hooks = sethook_loop hook hooks"

fun delhook_loop :: "nat \<Rightarrow> idle_hooks \<Rightarrow> err \<times> idle_hooks" where
  "delhook_loop hook [] = (- RT_ENOSYS, [])"
| "delhook_loop hook (h # hs) =
    (if h = Some hook then (RT_EOK, None # hs)
     else case delhook_loop hook hs of (ret, hs') \<Rightarrow> (ret, h # hs'))"

definition rt_thread_idle_delhook :: "nat \<Rightarrow> idle_hooks \<Rightarrow> err \<times> idle_hooks" where
  "rt_thread_idle_delhook hook hooks = delhook_loop hook hooks"

text \<open>One round of \<^verbatim>\<open>idle_thread_entry\<close>: the hooks, then the defunct threads.\<close>

fun run_hooks :: "(nat \<Rightarrow> kernel \<Rightarrow> kernel option) \<Rightarrow> idle_hooks \<Rightarrow> kernel \<Rightarrow> kernel option" where
  "run_hooks call [] s = Some s"
| "run_hooks call (h # hs) s = do {
     s1 \<leftarrow> (case h of None \<Rightarrow> Some s | Some f \<Rightarrow> call f s);
     run_hooks call hs s1
   }"

definition idle_round :: "(nat \<Rightarrow> kernel \<Rightarrow> kernel option) \<Rightarrow> cleaner \<Rightarrow> releaser \<Rightarrow> idle_hooks \<Rightarrow> kernel \<Rightarrow> kernel option" where
  "idle_round call clean kfree hooks s = do {
     s1 \<leftarrow> run_hooks call hooks s;
     rt_defunct_execute clean kfree s1
   }"

definition rt_thread_idle_init :: "64 word \<Rightarrow> 64 word \<Rightarrow> 32 word \<Rightarrow> kernel \<Rightarrow> kernel option" where
  "rt_thread_idle_init ent stack stksize s = do {
     (_, s1) \<leftarrow> rt_thread_init idle_thread ''tidle0'' ent 0 stack stksize (of_nat (RT_THREAD_PRIORITY_MAX - 1)) 32 s;
     (_, s2) \<leftarrow> rt_thread_startup idle_thread s1;
     Some s2
   }"

definition rt_thread_idle_gethandler :: tid where
  "rt_thread_idle_gethandler = idle_thread"

section \<open>A closed thread leaves the lists and the timers\<close>

definition timer_gone :: "timer_id \<Rightarrow> kernel \<Rightarrow> kernel" where
  "timer_gone t s = timer_clear RT_TIMER_FLAG_ACTIVATED t (tm_remove t s)"

lemma timer_gone_frame [simp]:
  "threads (timer_gone t s) = threads s" "lists (timer_gone t s) = lists s"
  "rt_current_thread (timer_gone t s) = rt_current_thread s" "timers (timer_gone t s) = timers s"
  "rt_tick (timer_gone t s) = rt_tick s" "mutexes (timer_gone t s) = mutexes s"
  "rt_scheduler_lock_nest (timer_gone t s) = rt_scheduler_lock_nest s"
  "timer_lists (timer_gone t s) = family_remove t (timer_lists s)"
  "rt_object_get_type a (timer_gone t s) = rt_object_get_type a s"
  "rt_object_is_systemobject a (timer_gone t s) = rt_object_is_systemobject a s"
  "periodic (timer_gone t s) u = periodic s u"
  by (simp_all add: timer_gone_def timer_clear_def tm_remove_def rt_object_get_type_def rt_object_is_systemobject_def
      periodic_def timer_flag_def and.assoc)

lemma sys_inv_timer_gone:
  assumes "sys_inv s" shows "sys_inv (timer_gone t s)"
proof -
  have k: "kernel_inv (timer_gone t s)"
    unfolding timer_gone_def using sys_invD(1) [OF assms]
    by (intro kernel_inv_timer_clear kernel_inv_tm_remove) (auto simp: tm_remove_def family_remove_def)
  have rem: "remaining (timer_gone t s) = remaining s" by (simp add: remaining_def fun_eq_iff)
  have ok: "hard_timer_ok (timer_gone t s) u = hard_timer_ok s u" for u by (simp add: hard_timer_ok_def)
  have "sorted (map (remaining s) (family_remove t (timer_lists s) HardTimers))"
    using sys_invD(2) [OF assms] by (simp add: tick_inv_def timer_order_def family_remove_def sorted_map_removeAll)
  then show ?thesis
    using assms k ok by (auto simp: sys_inv_def tick_inv_def timer_order_def rem expired_def family_remove_def)
qed

definition closed :: "tid \<Rightarrow> kernel \<Rightarrow> kernel" where
  "closed t s = upd_thread t (\<lambda>r. r\<lparr>stat := RT_THREAD_CLOSE\<rparr>)
     (rt_object_detach (OTimer (ThreadTimer t)) (timer_gone (ThreadTimer t) (ready_remove t s)))"

lemma closed_steps:
  assumes inv: "sys_inv s" and t: "live s t" and sys: "rt_object_is_systemobject (OTimer (ThreadTimer t)) s"
  shows "rt_schedule_remove_thread t s = Some (ready_remove t s)"
    and "rt_timer_detach (ThreadTimer t) (ready_remove t s) =
      Some (RT_EOK, rt_object_detach (OTimer (ThreadTimer t)) (timer_gone (ThreadTimer t) (ready_remove t s)))"
proof -
  note k = sys_invD(1) [OF inv]
  have st: "started (thr s t)" using live_started [OF kernel_invD(2) [OF k] t] .
  show "rt_schedule_remove_thread t s = Some (ready_remove t s)"
    using sched_inv_remove [OF kernel_invD(1) [OF k] st] by simp
  have "objs (ready_remove t s) = objs s" by (simp add: ready_remove_def Let_def tl_remove_def)
  then have "rt_object_get_type (OTimer (ThreadTimer t)) (ready_remove t s) = RT_Object_Class_Timer"
    "rt_object_is_systemobject (OTimer (ThreadTimer t)) (ready_remove t s)"
    using kernel_invD(6) [OF k t] sys by (simp_all add: thread_object_ok_def rt_object_get_type_def rt_object_is_systemobject_def)
  then show "rt_timer_detach (ThreadTimer t) (ready_remove t s) =
      Some (RT_EOK, rt_object_detach (OTimer (ThreadTimer t)) (timer_gone (ThreadTimer t) (ready_remove t s)))"
    by (simp add: rt_timer_detach_def timer_gone_def rt_assert_def)
qed

lemma ready_remove_rest [simp]:
  "rest (ready_remove t s) = rest s" "rt_scheduler_lock_nest (ready_remove t s) = rt_scheduler_lock_nest s"
  "objs (ready_remove t s) = objs s" "timers (ready_remove t s) = timers s" "timer_lists (ready_remove t s) = timer_lists s"
  "mutexes (ready_remove t s) = mutexes s" "rt_tick (ready_remove t s) = rt_tick s" "object_list (ready_remove t s) = object_list s"
  by (simp_all add: ready_remove_def Let_def tl_remove_def)

lemma object_detach_frame [simp]:
  "threads (rt_object_detach a s) = threads s" "lists (rt_object_detach a s) = lists s"
  "rt_current_thread (rt_object_detach a s) = rt_current_thread s" "mutexes (rt_object_detach a s) = mutexes s"
  "timers (rt_object_detach a s) = timers s" "timer_lists (rt_object_detach a s) = timer_lists s"
  "rt_tick (rt_object_detach a s) = rt_tick s" "rt_scheduler_lock_nest (rt_object_detach a s) = rt_scheduler_lock_nest s"
  "rt_thread_ready_priority_group (rt_object_detach a s) = rt_thread_ready_priority_group s"
  "b \<noteq> a \<Longrightarrow> objs (rt_object_detach a s) b = objs s b" "obj_flag (objs (rt_object_detach a s) b) = obj_flag (objs s b)"
  "obj_type (objs (rt_object_detach a s) a) = 0"
  by (auto simp: rt_object_detach_def obj_unlink_def)

text \<open>Detaching an object of a thread that is not live.\<close>

lemma sys_inv_detach_dead:
  assumes inv: "sys_inv s" and t: "\<not> live s t" and a: "a = OThread t \<or> a = OTimer (ThreadTimer t)"
  shows "sys_inv (rt_object_detach a s)"
proof -
  let ?s = "rt_object_detach a s"
  have out: "ThreadTimer t \<notin> set (timer_lists s HardTimers)"
    using kernel_invD(7) [OF sys_invD(1) [OF inv], of t] suspended_live [of s t] t by blast
  have fl: "active ?s = active s" "soft ?s = soft s" "periodic ?s = periodic s"
    by (simp_all add: active_def soft_def periodic_def timer_flag_def fun_eq_iff)
  have ty: "rt_object_get_type b ?s = rt_object_get_type b s" if "b \<noteq> a" for b
    using that by (simp add: rt_object_get_type_def)
  have lv: "live ?s = live s" "suspended ?s = suspended s" by (simp_all add: live_def suspended_def stat_of_def fun_eq_iff)
  have tok: "thread_object_ok ?s u = thread_object_ok s u" if "u \<noteq> t" for u
  proof -
    have "OThread u \<noteq> a" "OTimer (ThreadTimer u) \<noteq> a" using that a by auto
    then show ?thesis by (simp add: thread_object_ok_def fl ty)
  qed
  have hok: "hard_timer_ok ?s u = hard_timer_ok s u" if "u \<noteq> ThreadTimer t" for u
  proof -
    have "OTimer u \<noteq> a" using that a by auto
    then show ?thesis by (simp add: hard_timer_ok_def fl ty)
  qed
  have "sched_inv ?s = sched_inv s" by (rule sched_inv_cong_all) simp_all
  moreover have "timer_inv ?s = timer_inv s" by (simp add: timer_inv_def fl)
  moreover have "thread_inv ?s"
    using kernel_invD(5) [OF sys_invD(1) [OF inv]] t tok unfolding thread_inv_def lv by (auto, metis)
  ultimately have "kernel_inv ?s" using sys_invD(1) [OF inv] by (simp add: kernel_inv_def)
  then show ?thesis
    using inv out hok by (auto simp: sys_inv_def tick_inv_def timer_order_def expired_def remaining_def [abs_def]) metis
qed

lemma sys_inv_closed:
  assumes inv: "sys_inv s" and t: "live s t"
  shows "sys_inv (closed t s)"
proof -
  note k = sys_invD(1) [OF inv]
  let ?s1 = "ready_remove t s"
  let ?s2 = "timer_gone (ThreadTimer t) ?s1"
  let ?s3 = "upd_thread t (\<lambda>r. r\<lparr>stat := RT_THREAD_CLOSE\<rparr>) ?s2"
  have st: "started (thr s t)" using live_started [OF kernel_invD(2) [OF k] t] .
  have "sys_inv ?s1"
    by (rule sys_inv_cong [OF inv kernel_inv_ready_remove [OF k st]]) (use sys_invD(4) [OF inv] in auto)
  then have i2: "sys_inv ?s2" by (rule sys_inv_timer_gone)
  have k3: "kernel_inv ?s3"
    by (rule kernel_inv_thread_upd [OF sys_invD(1) [OF i2]])
       (use ready_invD(2) [OF kernel_invD(2) [OF k], of t] in
         \<open>simp_all add: thr_ok_def family_remove_def [of "ThreadTimer t"]\<close>)
  have i3: "sys_inv ?s3"
    by (rule sys_inv_cong [OF i2 k3]) (use sys_invD(4) [OF i2] in auto)
  have "sys_inv (rt_object_detach (OTimer (ThreadTimer t)) ?s3)"
    by (rule sys_inv_detach_dead [OF i3]) (auto simp: live_def stat_of_def)
  moreover have "closed t s = rt_object_detach (OTimer (ThreadTimer t)) ?s3"
    by (simp add: closed_def rt_object_detach_def obj_unlink_def)
  ultimately show ?thesis by simp
qed

lemma closed_facts:
  shows "lists (closed t s) = family_remove t (lists s)" "stat (thr (closed t s) t) = RT_THREAD_CLOSE"
    "u \<noteq> t \<Longrightarrow> thr (closed t s) u = thr s u" "timer_lists (closed t s) = family_remove (ThreadTimer t) (timer_lists s)"
    "mutexes (closed t s) = mutexes s" "rt_current_thread (closed t s) = rt_current_thread s"
    "pending_object (thr (closed t s) u) = pending_object (thr s u)" "taken_object_list (thr (closed t s) u) = taken_object_list (thr s u)"
    "init_priority (thr (closed t s) u) = init_priority (thr s u)" "current_priority (thr (closed t s) u) = current_priority (thr s u)"
    "\<not> live (closed t s) t" "\<not> suspended (closed t s) t" "u \<noteq> t \<Longrightarrow> live (closed t s) u = live s u"
    "u \<noteq> t \<Longrightarrow> suspended (closed t s) u = suspended s u"
    "rt_object_get_type (OMutex m) (closed t s) = rt_object_get_type (OMutex m) s" "mutex_flag m (closed t s) = mutex_flag m s"
    "rt_scheduler_lock_nest (closed t s) = rt_scheduler_lock_nest s"
  by (auto simp: closed_def live_def suspended_def stat_of_def rt_object_get_type_def mutex_flag_def
      timer_gone_def timer_clear_def tm_remove_def)

section \<open>A closed thread no longer lends its priority\<close>

lemma head_removed:
  assumes "sorted (map (prio_key s) (lists s (MutexWait m)))" "lists s' (MutexWait m) = removeAll t (lists s (MutexWait m))"
    "\<And>u. u \<noteq> t \<Longrightarrow> prio_key s' u = prio_key s u"
  shows "head_priority m s \<le> head_priority m s'"
proof (cases "lists s (MutexWait m)")
  case (Cons w ws)
  show ?thesis
  proof (cases "removeAll t (lists s (MutexWait m))")
    case Nil
    then show ?thesis using assms(2) byte_le_ff by (simp add: head_priority_hd)
  next
    case (Cons v vs)
    then have "v \<in> set (lists s (MutexWait m))" "v \<noteq> t" by (metis list.set_intros(1) set_removeAll DiffE, metis list.set_intros(1) set_removeAll DiffE singletonI)
    then have "prio_key s w \<le> prio_key s v" using assms(1) \<open>lists s (MutexWait m) = w # ws\<close> by auto
    then show ?thesis using Cons assms(2,3) \<open>v \<noteq> t\<close> \<open>lists s (MutexWait m) = w # ws\<close> by (simp add: head_priority_hd)
  qed
qed (use assms(2) in \<open>simp add: head_priority_hd\<close>)

lemma pi_inv_closed:
  assumes pi: "pi_inv s" and none: "\<And>m. \<not> owns s t m"
  shows "pi_inv (closed t s)"
proof -
  let ?s = "closed t s"
  have st: "mutex_struct s" using pi by (simp add: pi_inv_def)
  note d = mutex_structD [OF st]
  have o: "owns ?s u m = owns s u m" for u m by (simp add: owns_def closed_facts)
  have w: "waits ?s u m \<longleftrightarrow> u \<noteq> t \<and> waits s u m" for u m by (auto simp: waits_def closed_facts family_remove_def)
  have pk: "prio_key ?s = prio_key s" by (simp add: prio_key_def closed_facts fun_eq_iff)
  have gp: "thread_get_mutex_priority u ?s = thread_get_mutex_priority u s" for u
    unfolding thread_get_mutex_priority_def closed_facts by (rule get_mutex_priority_cong) (simp add: closed_facts)
  have ls: "lists ?s (MutexWait m) = removeAll t (lists s (MutexWait m))" for m by (simp add: closed_facts family_remove_def)
  have own_live: "live ?s u" if "owns s u m" for u m
    using d(2) [OF that] none that closed_facts(13) by (cases "u = t") auto
  have "u \<noteq> t \<and> waits s u m" if "suspended ?s u" "pending_object (thr s u) = Some (OMutex m)" for u m
    using closed_facts(12,14) that d(5) [of u m] by (cases "u = t") auto
  then have "mutex_struct ?s"
    unfolding mutex_struct_def o w closed_facts(5,7,8,9,15,16) using d own_live by blast
  moreover have "sorted (map (prio_key ?s) (lists ?s (MutexWait m)))" for m
    using pi by (simp add: pi_inv_def pk ls sorted_map_removeAll)
  moreover have "mtx_priority (mutexes ?s m) \<le> head_priority m ?s" if "owns ?s u m" for u m
  proof -
    have "head_priority m s \<le> head_priority m ?s"
      using pi by (intro head_removed [of s m ?s t]) (simp_all add: pi_inv_def ls pk)
    then show ?thesis using pi that o unfolding pi_inv_def closed_facts by (metis order.trans)
  qed
  ultimately show ?thesis using pi by (simp add: pi_inv_def gp closed_facts(10))
qed

lemma reset_mutex_priority:
  fixes m :: nat
  assumes inv: "sys_inv s" "pi_inv s"
  defines "s2 \<equiv> upd_mutex m (\<lambda>r. r\<lparr>mtx_priority := head_priority m s\<rparr>) s"
  shows "sys_inv s2" "pi_frame s s2" "mutex_struct s2" "\<And>k. sorted (map (prio_key s2) (lists s2 (MutexWait k)))"
    "\<And>u k. owns s2 u k \<Longrightarrow> mtx_priority (mutexes s2 k) \<le> head_priority k s2"
    "\<And>u. \<not> owns s u m \<Longrightarrow> current_priority (thr s2 u) = thread_get_mutex_priority u s2"
proof -
  have st: "mutex_struct s" using inv(2) by (simp add: pi_inv_def)
  show i: "sys_inv s2" using inv(1) by (simp add: s2_def)
  show fr: "pi_frame s s2" unfolding s2_def by (rule pi_frame_upd_mtx)
  show "mutex_struct s2" using mutex_struct_frame [OF fr] st by simp
  show "sorted (map (prio_key s2) (lists s2 (MutexWait k)))" for k using inv(2) by (simp add: s2_def pi_inv_def)
  show "mtx_priority (mutexes s2 k) \<le> head_priority k s2" if "owns s2 u k" for u k
    using inv(2) that pi_frameD(4) [OF fr] by (cases "k = m") (auto simp: s2_def pi_inv_def)
  show "current_priority (thr s2 u) = thread_get_mutex_priority u s2" if "\<not> owns s u m" for u
    unfolding s2_def using inv(2) get_priority_other_mutex [of m s u] mutex_structD(1) [OF st, of m u] that
    by (simp add: pi_inv_def)
qed

text \<open>The owner keeps its priority when it does not come from the mutex that was reset.\<close>

lemma reset_keeps_priority:
  assumes pi: "pi_inv s" and own: "owns s own m" and ne: "mtx_priority (mutexes s m) \<noteq> current_priority (thr s own)"
  defines "s2 \<equiv> upd_mutex m (\<lambda>r. r\<lparr>mtx_priority := head_priority m s\<rparr>) s"
  shows "thread_get_mutex_priority own s2 = current_priority (thr s own)"
proof -
  have st: "mutex_struct s" using pi by (simp add: pi_inv_def)
  let ?ms = "taken_object_list (thr s own)" and ?i = "init_priority (thr s own)"
  let ?v = "get_mutex_priority_loop ?ms ?i s"
  have cur: "current_priority (thr s own) = ?v" using pi by (simp add: pi_inv_def thread_get_mutex_priority_def)
  have le: "mtx_priority (mutexes s m) \<le> head_priority m s" using pi own by (simp add: pi_inv_def)
  have cm: "ceiling_priority (mutexes s m) = 0xff" using mutex_structD(8) [OF st own] .
  have mp: "mutex_prio s2 k = mutex_prio s k" if "k \<noteq> m" for k using that by (simp add: mutex_prio_def s2_def)
  have mm: "mutex_prio s m = mtx_priority (mutexes s m)" "mutex_prio s2 m = head_priority m s"
    using cm byte_le_ff by (simp_all add: mutex_prio_def s2_def min_def)
  have "get_mutex_priority_loop ?ms ?i s2 = ?v"
  proof (rule get_mutex_priority_eq)
    show "?v \<le> ?i" by (rule get_mutex_priority_base)
    show "?v \<le> mutex_prio s2 k" if "k \<in> set ?ms" for k
      using get_mutex_priority_le [OF that, of ?i s] mp [of k] mm le by (cases "k = m") auto
    show "?v = ?i \<or> (\<exists>k \<in> set ?ms. ?v = mutex_prio s2 k)"
      using get_mutex_priority_attained [of ?ms ?i s] mp mm(1) ne cur by metis
  qed
  then show ?thesis using cur by (simp add: thread_get_mutex_priority_def s2_def)
qed

lemma restore_owner_ok:
  assumes inv: "sys_inv s" "mutex_struct s" "no_cycle rank s" and own: "owns s own m"
    and sorted: "\<And>k. sorted (map (prio_key s) (lists s (MutexWait k)))"
    and E: "\<And>u k. owns s u k \<Longrightarrow> mtx_priority (mutexes s k) \<le> head_priority k s"
    and F: "\<And>u. u \<noteq> own \<Longrightarrow> current_priority (thr s u) = thread_get_mutex_priority u s"
  shows "\<exists>s'. restore_owner m s = Some s' \<and> sys_inv s' \<and> pi_inv s' \<and> pi_frame s s' \<and> mutexes s' m = mutexes s m \<and> head_priority m s' = head_priority m s"
proof -
  let ?p = "thread_get_mutex_priority own s"
  show ?thesis
  proof (cases "?p = current_priority (thr s own)")
    case True
    have "current_priority (thr s u) = thread_get_mutex_priority u s" for u using True F by (cases "u = own") auto
    then have "pi_inv s" using inv(2) sorted E by (simp add: pi_inv_def)
    then show ?thesis using True own inv(1) by (simp add: restore_owner_def owns_def)
  next
    case False
    have "unat ?p < 32"
      using get_mutex_priority_base [of "taken_object_list (thr s own)" "init_priority (thr s own)" s] mutex_structD(9) [OF inv(2), of own]
      by (simp add: thread_get_mutex_priority_def word_le_nat_alt)
    then obtain s1 where s1: "thread_change_priority own ?p s = Some (RT_EOK, s1)" "prio_changed own ?p s s1"
      using change_priority [OF inv(1) mutex_structD(2) [OF inv(2) own]] by blast
    have ex: "pi_except own s1" by (rule pi_except_changed [OF s1(2) inv(2) sorted E F refl])
    have fr: "pi_frame s s1" by (rule pi_frame_changed [OF s1(2)])
    obtain s' where s': "update_priority_loop own RT_UNINTERRUPTIBLE s1 = Some s'" "sys_inv s'" "pi_inv s'" "pi_frame s1 s'" "above_kept rank own s1 s'"
      using update_priority_chain [OF prio_changedD(1) [OF s1(2)] ex, of rank] no_cycle_frame [OF fr] inv(3) by blast
    note c = prio_changedD [OF s1(2)]
    have up: "rank own < rank w" if "waits s w m" for w using inv(3) own that by (auto simp: no_cycle_def)
    then have "\<forall>w. waits s1 w m \<longrightarrow> rank own < rank w" using c(6) [of "MutexWait m"] by (simp add: waits_def)
    then have m: "mutexes s' m = mutexes s m" "lists s' (MutexWait m) = lists s (MutexWait m)"
      using s'(5) c(6) [of "MutexWait m"] c(14) unfolding above_kept_def by simp_all
    have "current_priority (thr s' w) = current_priority (thr s w)" if "waits s w m" for w
      using s'(5) c(9) [of w] up [OF that] unfolding above_kept_def by fastforce
    then have "head_priority m s' = head_priority m s"
      using m(2) by (cases "lists s (MutexWait m)") (simp_all add: head_priority_hd prio_key_def waits_def)
    then show ?thesis
      using False own s1(1) s'(1-4) m(1) pi_frame_trans [OF fr] by (simp add: restore_owner_def owns_def thread_update_priority_def)
  qed
qed

lemma drop_thread_ok:
  assumes inv: "sys_inv s" "pi_inv s" "no_cycle rank s" and out: "unlinked t (lists s)"
    and mtx: "mtx_priority (mutexes s m) = current_priority (thr s t) \<or> mtx_priority (mutexes s m) = head_priority m s"
  shows "\<exists>s'. rt_mutex_drop_thread m t s = Some s' \<and> sys_inv s' \<and> pi_inv s' \<and> pi_frame s s' \<and> mtx_priority (mutexes s' m) = head_priority m s'"
proof -
  define s2 where "s2 = upd_mutex m (\<lambda>r. r\<lparr>mtx_priority := head_priority m s\<rparr>) s"
  note r = reset_mutex_priority [OF inv(1,2), where m = m, folded s2_def]
  have "tl_remove t s = s" using family_remove_unlinked [OF out] by (simp add: tl_remove_def)
  then have drop: "rt_mutex_drop_thread m t s = (if owner_has_priority_of m t s then restore_owner m s2 else Some s2)"
    by (simp add: rt_mutex_drop_thread_def Let_def s2_def)
  have h2: "mtx_priority (mutexes s2 m) = head_priority m s2" by (simp add: s2_def head_priority_hd prio_key_def upd_mutex_def)
  have fin: ?thesis if "\<not> owner_has_priority_of m t s" "\<And>u. current_priority (thr s2 u) = thread_get_mutex_priority u s2"
    using that drop r h2 by (simp add: pi_inv_def)
  show ?thesis
  proof (cases "owner (mutexes s m)")
    case None
    then show ?thesis using r(6) by (intro fin) (simp_all add: owner_has_priority_of_def owns_def)
  next
    case (Some own)
    then have own: "owns s own m" by (simp add: owns_def)
    have other: "current_priority (thr s2 u) = thread_get_mutex_priority u s2" if "u \<noteq> own" for u
      using that Some by (intro r(6)) (simp add: owns_def)
    show ?thesis
    proof (cases "owner_has_priority_of m t s")
      case True
      have "\<exists>s'. restore_owner m s2 = Some s' \<and> sys_inv s' \<and> pi_inv s' \<and> pi_frame s2 s' \<and> mutexes s' m = mutexes s2 m \<and> head_priority m s' = head_priority m s2"
        by (rule restore_owner_ok [of s2 rank own]) (use r other own inv(3) no_cycle_frame [OF r(2)] pi_frameD(4) [OF r(2)] in auto)
      then show ?thesis using True drop h2 pi_frame_trans [OF r(2)] by auto
    next
      case False
      then have "current_priority (thr s own) \<noteq> current_priority (thr s t)" using Some by (simp add: owner_has_priority_of_def)
      then have "thread_get_mutex_priority own s2 = current_priority (thr s own)"
      proof (cases "mtx_priority (mutexes s m) = current_priority (thr s t)")
        case True
        then show ?thesis using \<open>current_priority (thr s own) \<noteq> _\<close> reset_keeps_priority [OF inv(2) own] by (simp add: s2_def)
      next
        case False
        then have "mutexes s2 = mutexes s" using mtx by (auto simp: s2_def upd_mutex_def)
        then have "thread_get_mutex_priority own s2 = thread_get_mutex_priority own s"
          by (intro get_priority_frame [OF r(2)]) simp
        then show ?thesis using inv(2) by (simp add: pi_inv_def)
      qed
      then show ?thesis using other False by (intro fin) (metis s2_def upd_mutex_frame(1))+
    qed
  qed
qed

section \<open>Closing a thread\<close>

lemma pi_inv_forget_pending:
  assumes "sys_inv s" "pi_inv s" "\<not> suspended s t"
  shows "pi_inv (upd_thread t (\<lambda>r. r\<lparr>pending_object := None\<rparr>) s)" "sys_inv (upd_thread t (\<lambda>r. r\<lparr>pending_object := None\<rparr>) s)"
proof -
  let ?s = "upd_thread t (\<lambda>r. r\<lparr>pending_object := None\<rparr>) s"
  have st: "mutex_struct s" using assms(2) by (simp add: pi_inv_def)
  note d = mutex_structD [OF st]
  have nw: "\<not> waits s t m" for m
    using waiter_suspended [OF sys_invD(1) [OF assms(1)], of "MutexWait m" t] assms(3) by (auto simp: waits_def)
  have f: "owns ?s u m = owns s u m" "waits ?s u m = waits s u m" "live ?s u = live s u" "suspended ?s u = suspended s u"
    "taken_object_list (thr ?s u) = taken_object_list (thr s u)" "init_priority (thr ?s u) = init_priority (thr s u)"
    "current_priority (thr ?s u) = current_priority (thr s u)" "rt_object_get_type a ?s = rt_object_get_type a s"
    "mutex_flag m ?s = mutex_flag m s" "mutexes ?s = mutexes s" "lists ?s = lists s" for u m a
    by (auto simp: owns_def waits_def live_def suspended_def stat_of_def rt_object_get_type_def mutex_flag_def)
  have w: "pending_object (thr ?s u) = Some (OMutex m)" if "waits s u m" for u m
    using d(3) [OF that] that nw [of m] by (cases "u = t") auto
  have p: "waits s u m" if "suspended s u" "pending_object (thr ?s u) = Some (OMutex m)" for u m
    using d(5) [OF that(1), of m] that(2) by (cases "u = t") auto
  have ms: "mutex_struct ?s" unfolding mutex_struct_def f using d w p by blast
  have "thread_get_mutex_priority u ?s = thread_get_mutex_priority u s" for u
    unfolding thread_get_mutex_priority_def f by (rule get_mutex_priority_cong) simp
  moreover have "prio_key ?s = prio_key s" by (simp add: prio_key_def f fun_eq_iff del: upd_thread_def)
  moreover have "head_priority m ?s = head_priority m s" for m by (simp add: head_priority_def split: list.split)
  ultimately show "pi_inv ?s" using assms(2) ms by (simp add: pi_inv_def f del: upd_thread_def)
  show "sys_inv ?s"
    by (rule sys_inv_cong [OF assms(1) kernel_inv_fields(1) [OF sys_invD(1) [OF assms(1)]]])
       (use sys_invD(4) [OF assms(1)] in auto)
qed

lemma defunct_enqueue_ok:
  assumes inv: "sys_inv s" and out: "unlinked t (lists s)" and c: "stat_of s t = RT_THREAD_CLOSE"
  shows "sys_inv (rt_thread_defunct_enqueue t s)" "pi_view s (rt_thread_defunct_enqueue t s)"
proof -
  let ?s = "rt_thread_defunct_enqueue t s"
  have e: "?s = s\<lparr>lists := (lists s)(Defunct := t # lists s Defunct), rt_thread_ready_priority_group := rt_thread_ready_priority_group s\<rparr>"
    by (simp add: rt_thread_defunct_enqueue_def tl_push_front_def)
  have fam: "distinct (lists s Defunct)" using ready_invD(1) [OF kernel_invD(2) [OF sys_invD(1) [OF inv]]] by (auto simp: family_ok_def)
  have "ready_inv ?s" unfolding e
    by (rule ready_inv_link [OF kernel_invD(2) [OF sys_invD(1) [OF inv]] out])
       (use c fam out in \<open>auto simp: stat_of_def unlinked_def\<close>)
  moreover have r: "rest ?s = rest s" by (simp add: rt_thread_defunct_enqueue_def)
  moreover have f: "threads ?s = threads s" "rt_current_thread ?s = rt_current_thread s" by (simp_all add: e)
  moreover have "cur_inv ?s = cur_inv s" by (rule cur_inv_cong) (simp_all add: f)
  moreover have "thread_inv ?s"
    by (rule thread_inv_sched_step [OF kernel_invD(5) [OF sys_invD(1) [OF inv]] r]) (auto simp: live_def suspended_def stat_of_def f)
  ultimately have "kernel_inv ?s"
    using sys_invD(1) [OF inv] rest_timer_inv [OF r] by (simp add: kernel_inv_def sched_inv_def)
  then show "sys_inv ?s"
    by (rule sys_inv_cong [OF inv]) (use sys_invD(4) [OF inv] in \<open>auto simp: e\<close>)
  show "pi_view s ?s"
    by (auto simp: pi_view_def rt_object_get_type_def mutex_flag_def live_def suspended_def stat_of_def e)
qed

lemma closed_unlinked:
  assumes "sys_inv s" "stat_of s t = RT_THREAD_CLOSE" "t \<notin> set (lists s Defunct)"
  shows "unlinked t (lists s)"
proof -
  have "t \<notin> set (lists s l)" for l
    using assms(2,3) ready_invD(3) [OF kernel_invD(2) [OF sys_invD(1) [OF assms(1)]], of t l]
      suspended_not_ready [of "stat (thr s t)"]
    by (cases l) (auto simp: stat_of_def)
  then show ?thesis by (simp add: unlinked_def)
qed

lemma pi_frame_defunct: "pi_frame s s' \<Longrightarrow> lists s' Defunct = lists s Defunct"
  by (simp add: pi_frame_def)

lemma drop_pending_ok:
  assumes inv: "sys_inv s" "pi_inv s" "no_cycle rank s" and t: "stat_of s t = RT_THREAD_CLOSE" "t \<notin> set (lists s Defunct)"
    and mtx: "\<And>m. pending_object (thr s t) = Some (OMutex m) \<Longrightarrow>
      mtx_priority (mutexes s m) = current_priority (thr s t) \<or> mtx_priority (mutexes s m) = head_priority m s"
  shows "\<exists>s'. drop_pending t s = Some s' \<and> sys_inv s' \<and> pi_inv s' \<and> stat_of s' t = RT_THREAD_CLOSE \<and>
    lists s' Defunct = lists s Defunct \<and> rt_current_thread s' = rt_current_thread s \<and> (\<forall>u m. owns s' u m = owns s u m \<and> waits s' u m = waits s u m) \<and>
    (\<forall>u. init_priority (thr s' u) = init_priority (thr s u)) \<and>
    (\<forall>m. pending_object (thr s t) = Some (OMutex m) \<and> rt_object_get_type (OMutex m) s = RT_Object_Class_Mutex \<longrightarrow> mtx_priority (mutexes s' m) = head_priority m s')"
proof (cases "\<exists>m. pending_object (thr s t) = Some (OMutex m) \<and> rt_object_get_type (OMutex m) s = RT_Object_Class_Mutex")
  case False
  then have "drop_pending t s = Some s" by (auto simp: drop_pending_def split: option.split obj_id.split)
  then show ?thesis using inv t False by auto
next
  case True
  then obtain m where m: "pending_object (thr s t) = Some (OMutex m)" "rt_object_get_type (OMutex m) s = RT_Object_Class_Mutex" by blast
  obtain s1 where s1: "rt_mutex_drop_thread m t s = Some s1" "sys_inv s1" "pi_inv s1" "pi_frame s s1" "mtx_priority (mutexes s1 m) = head_priority m s1"
    using drop_thread_ok [OF inv closed_unlinked [OF inv(1) t] mtx [OF m(1)]] by blast
  have c: "stat_of s1 t = RT_THREAD_CLOSE" using pi_frame_threads(7) [OF s1(4)] t(1) by simp
  then have "\<not> suspended s1 t" using suspended_live [of s1 t] by (auto simp: live_def)
  moreover have "head_priority m (upd_thread t (\<lambda>r. r\<lparr>pending_object := None\<rparr>) s1) = head_priority m s1" by (simp add: head_priority_def split: list.split)
  ultimately show ?thesis using pi_inv_forget_pending [OF s1(2,3)] m s1 c pi_frame_defunct [OF s1(4)] pi_frameD(4,5) [OF s1(4)] pi_frame_threads(4,8) [OF s1(4)]
    by (simp add: drop_pending_def stat_of_def owns_def waits_def)
qed

lemma head_closed:
  assumes "mtx_priority (mutexes s m) = current_priority (thr s t) \<or> mtx_priority (mutexes s m) = head_priority m s"
  shows "mtx_priority (mutexes (closed t s) m) = current_priority (thr (closed t s) t) \<or>
    mtx_priority (mutexes (closed t s) m) = head_priority m (closed t s)"
proof -
  have pk: "prio_key (closed t s) = prio_key s" by (simp add: prio_key_def closed_facts fun_eq_iff)
  have "head_priority m (closed t s) = head_priority m s \<or> head_priority m s = current_priority (thr s t)"
  proof (cases "lists s (MutexWait m)")
    case (Cons w ws)
    then show ?thesis by (cases "w = t") (simp_all add: head_priority_hd closed_facts(1) family_remove_def pk, simp add: prio_key_def)
  qed (simp add: head_priority_hd closed_facts(1) family_remove_def)
  then show ?thesis using assms by (auto simp: closed_facts)
qed

lemma no_cycle_closed: "no_cycle rank s \<Longrightarrow> no_cycle rank (closed t s)"
  by (auto simp: no_cycle_def owns_def waits_def closed_facts family_remove_def)

lemma live_not_defunct: "sys_inv s \<Longrightarrow> live s t \<Longrightarrow> t \<notin> set (lists s Defunct)"
  using ready_invD(3) [OF kernel_invD(2) [OF sys_invD(1)], of s t Defunct] by (auto simp: live_def stat_of_def)

lemma thread_close_ok:
  assumes inv: "sys_inv s" "pi_inv s" "no_cycle rank s"
    and t: "live s t" "rt_object_is_systemobject (OTimer (ThreadTimer t)) s" "\<And>m. \<not> owns s t m"
    and mtx: "\<And>m. pending_object (thr s t) = Some (OMutex m) \<Longrightarrow>
      mtx_priority (mutexes s m) = current_priority (thr s t) \<or> mtx_priority (mutexes s m) = head_priority m s"
  shows "\<exists>s'. thread_close t s = Some (RT_EOK, s') \<and> sys_inv s' \<and> pi_inv s' \<and> stat_of s' t = RT_THREAD_CLOSE \<and>
    lists s' Defunct = t # lists s Defunct \<and> rt_current_thread s' = rt_current_thread s \<and>
    (\<forall>u m. owns s' u m = owns s u m \<and> (waits s' u m \<longleftrightarrow> u \<noteq> t \<and> waits s u m)) \<and>
    (\<forall>u. init_priority (thr s' u) = init_priority (thr s u)) \<and> (\<forall>m. waits s t m \<longrightarrow> mtx_priority (mutexes s' m) = head_priority m s')"
proof -
  let ?c = "closed t s"
  have df: "lists ?c Defunct = lists s Defunct"
    using live_not_defunct [OF inv(1) t(1)] by (simp add: closed_facts family_remove_def)
  have "stat_of ?c t = RT_THREAD_CLOSE" by (simp add: stat_of_def closed_facts)
  moreover have "t \<notin> set (lists ?c Defunct)" unfolding df by (rule live_not_defunct [OF inv(1) t(1)])
  ultimately obtain s4 where s4: "drop_pending t ?c = Some s4" "sys_inv s4" "pi_inv s4" "stat_of s4 t = RT_THREAD_CLOSE"
    "lists s4 Defunct = lists ?c Defunct" "rt_current_thread s4 = rt_current_thread ?c"
    "\<And>u m. owns s4 u m = owns ?c u m \<and> waits s4 u m = waits ?c u m"
    "\<And>u. init_priority (thr s4 u) = init_priority (thr ?c u)"
    "\<And>m. pending_object (thr ?c t) = Some (OMutex m) \<Longrightarrow> rt_object_get_type (OMutex m) ?c = RT_Object_Class_Mutex \<Longrightarrow> mtx_priority (mutexes s4 m) = head_priority m s4"
    using drop_pending_ok [OF sys_inv_closed [OF inv(1) t(1)] pi_inv_closed [OF inv(2) t(3)] no_cycle_closed [OF inv(3)], of t]
      head_closed mtx by (auto simp: closed_facts)
  have u4: "unlinked t (lists s4)"
    using closed_unlinked [OF s4(2,4)] s4(5) df live_not_defunct [OF inv(1) t(1)] by simp
  note e = defunct_enqueue_ok [OF s4(2) u4 s4(4)]
  let ?s' = "rt_thread_defunct_enqueue t s4"
  have "thread_close t s = Some (RT_EOK, ?s')"
    using t(1) s4(1) closed_steps [OF inv(1) t(1,2)] by (simp add: thread_close_def live_def closed_def Let_def del: upd_thread_def)
  moreover have "pi_inv ?s'" using pi_inv_view(1) [OF e(2)] s4(3) by simp
  moreover have "lists ?s' Defunct = t # lists s Defunct" "stat_of ?s' t = RT_THREAD_CLOSE" "rt_current_thread ?s' = rt_current_thread s"
    using s4(4,5,6) df by (simp_all add: rt_thread_defunct_enqueue_def tl_push_front_def stat_of_def closed_facts)
  moreover have "owns ?s' u m = owns s u m" "waits ?s' u m \<longleftrightarrow> u \<noteq> t \<and> waits s u m" for u m
    using pi_inv_view(3,4) [OF e(2), of u m] s4(7) [of u m] by (auto simp: owns_def waits_def closed_facts family_remove_def)
  moreover have "init_priority (thr ?s' u) = init_priority (thr s u)" for u using s4(8) [of u] e(2) by (simp add: pi_view_def closed_facts)
  moreover have "mtx_priority (mutexes ?s' m) = head_priority m ?s'" if w: "waits s t m" for m
  proof -
    have st: "mutex_struct s" using inv(2) by (simp add: pi_inv_def)
    obtain own where "owns s own m" using mutex_structD(4) [OF st w] by blast
    from mutex_structD(6) [OF st this] mutex_structD(3) [OF st w] have "mtx_priority (mutexes s4 m) = head_priority m s4"
      by (intro s4(9)) (simp_all add: closed_facts)
    moreover have "head_priority m ?s' = head_priority m s4" "mutexes ?s' = mutexes s4"
      using e(2) by (simp_all add: pi_view_def head_priority_hd prio_key_def)
    ultimately show ?thesis by simp
  qed
  ultimately show ?thesis using e(1) by blast
qed

section \<open>A thread that returns from its entry function\<close>

lemma runnable_closed: "runnable (rt_thread_defunct_enqueue t (closed t s)) = runnable s - {t}"
proof -
  let ?e = "rt_thread_defunct_enqueue t (closed t s)"
  have "u \<in> set (lists ?e (Ready p)) \<longleftrightarrow> u \<in> set (lists s (Ready p)) \<and> u \<noteq> t" for u p
    by (auto simp: rt_thread_defunct_enqueue_def tl_push_front_def closed_facts(1) family_remove_def)
  moreover have "rt_current_thread ?e = rt_current_thread s" "stat_of ?e t = 1" "u \<noteq> t \<Longrightarrow> stat_of ?e u = stat_of s u" for u
    by (simp_all add: rt_thread_defunct_enqueue_def tl_push_front_def closed_facts(2,3,6) stat_of_def)
  ultimately have "u \<in> runnable ?e \<longleftrightarrow> u \<in> runnable s \<and> u \<noteq> t" for u
    unfolding runnable_def by (cases "u = t") auto
  then show ?thesis by auto
qed

lemma thread_exit_ok:
  assumes inv: "sys_inv s" "pi_inv s" and t: "rt_current_thread s = Some t" "stat_of s t = RT_THREAD_RUNNING"
    and tm: "rt_object_is_systemobject (OTimer (ThreadTimer t)) s" and none: "\<And>m. \<not> owns s t m"
    and free: "rt_scheduler_lock_nest s = 0" "lists s (Ready p) \<noteq> []"
  shows "\<exists>s' c. thread_exit s = Some s' \<and> sys_inv s' \<and> pi_inv s' \<and> rt_current_thread s' = Some c \<and> c \<noteq> t \<and>
    stat_of s' c = RT_THREAD_RUNNING \<and> (\<forall>q < prio_of s' c. lists s' (Ready q) = []) \<and> runnable s' = runnable s - {t} \<and>
    stat_of s' t = RT_THREAD_CLOSE \<and> lists s' Defunct = t # lists s Defunct \<and> (\<forall>n. objs s' (OSem n) = objs s (OSem n))"
proof -
  note k = sys_invD(1) [OF inv(1)]
  have live: "live s t" using t(2) by (rule running_live)
  let ?c = "closed t s"
  let ?e = "rt_thread_defunct_enqueue t ?c"
  have out: "unlinked t (lists ?c)" "stat_of ?c t = RT_THREAD_CLOSE" by (simp_all add: closed_facts stat_of_def)
  note e = defunct_enqueue_ok [OF sys_inv_closed [OF inv(1) live] out]
  have step: "thread_exit s = rt_schedule ?e"
    using t(1) closed_steps [OF inv(1) live tm] by (simp add: thread_exit_def rt_thread_self_def closed_def Let_def del: upd_thread_def)
  obtain s' where s': "rt_schedule ?e = Some s'" "sys_inv s'" "sched_to ?e s'" by (rule sys_schedule [OF e(1)])
  have "unlinked t (lists s)" using unlinked_current [OF kernel_invD(1) [OF k] t] .
  then have "lists ?e (Ready p) = lists s (Ready p)"
    by (simp add: rt_thread_defunct_enqueue_def tl_push_front_def closed_facts family_remove_unlinked)
  moreover have "p < 32" using ready_lists_beyond [OF kernel_invD(2) [OF k], of p] free(2) by blast
  ultimately have grp: "rt_thread_ready_priority_group ?e \<noteq> 0"
    using ready_invD(4) [OF kernel_invD(2) [OF sys_invD(1) [OF e(1)]], of p] free(2) by auto
  have cur: "rt_current_thread ?e = Some t" "rt_scheduler_lock_nest ?e = 0"
    using t(1) free(1) by (simp_all add: rt_thread_defunct_enqueue_def tl_push_front_def closed_facts)
  from schedule_outcome [OF kernel_invD(1) [OF sys_invD(1) [OF e(1)]] cur grp] s'(1)
  obtain c where c: "rt_current_thread s' = Some c" "stat_of s' c = RT_THREAD_RUNNING" "runnable s' = runnable ?e"
    "\<forall>q < prio_of s' c. lists s' (Ready q) = []" by auto
  have "c \<in> runnable s'" using c(1,2) by (simp add: runnable_def)
  then have "c \<noteq> t" using c(3) runnable_closed [of t s] by auto
  have df: "lists s' Defunct = t # lists s Defunct"
    using sched_toD(9) [OF s'(3)] live_not_defunct [OF inv(1) live]
    by (simp add: rt_thread_defunct_enqueue_def tl_push_front_def closed_facts family_remove_def)
  then have "stat_of s' t = RT_THREAD_CLOSE"
    using ready_invD(3) [OF kernel_invD(2) [OF sys_invD(1) [OF s'(2)]], of t Defunct] by (simp add: stat_of_def)
  moreover have "pi_inv s'"
    using pi_inv_view(1) [OF pi_view_trans [OF e(2) pi_view_sched [OF s'(3)]]] pi_inv_closed [OF inv(2) none] by simp
  moreover have "objs s' (OSem n) = objs s (OSem n)" for n
    using ipc_frameD(8) [OF sched_toD(1) [OF s'(3)], of n] by (simp add: rt_object_detach_def obj_unlink_def rt_thread_defunct_enqueue_def tl_push_front_def closed_def timer_gone_def timer_clear_def tm_remove_def)
  ultimately show ?thesis
    using step s'(1,2) c df \<open>c \<noteq> t\<close> runnable_closed [of t s] by (intro exI [of _ s'] exI [of _ c]) simp
qed

section \<open>The idle thread\<close>

lemma sys_inv_undefunct:
  assumes inv: "sys_inv s" and t: "t \<in> set (lists s Defunct)"
  shows "sys_inv (tl_remove t s)" "\<not> live s t"
proof -
  note k = sys_invD(1) [OF inv]
  have c: "stat_of s t = RT_THREAD_CLOSE" using ready_invD(3) [OF kernel_invD(2) [OF k] t] by (simp add: stat_of_def)
  then show "\<not> live s t" by (simp add: live_def)
  have other: "t \<notin> set (lists s (Ready p))" for p
    using ready_invD(3) [OF kernel_invD(2) [OF k], of t "Ready p"] c by (auto simp: stat_of_def)
  have "ready_inv (tl_remove t s)"
    using kernel_invD(2) [OF k] other family_ok_remove [of "lists s" t]
    by (auto simp: ready_inv_def tl_remove_def family_remove_def removeAll_notin)
  moreover have "cur_inv (tl_remove t s) = cur_inv s" by (rule cur_inv_cong) (simp_all add: tl_remove_def)
  moreover have r: "rest (tl_remove t s) = rest s" by simp
  moreover have "thread_inv (tl_remove t s)"
    by (rule thread_inv_sched_step [OF kernel_invD(5) [OF k] r]) (auto simp: live_def suspended_def stat_of_def tl_remove_def)
  ultimately have "kernel_inv (tl_remove t s)"
    using k rest_timer_inv [OF r] by (simp add: kernel_inv_def sched_inv_def)
  then show "sys_inv (tl_remove t s)"
    by (rule sys_inv_cong [OF inv]) (use sys_invD(4) [OF inv] in \<open>auto simp: tl_remove_def\<close>)
qed

text \<open>
  What the idle thread needs of the functions it calls.  \<open>I\<close> is what these functions rely on themselves, such as that a semaphore to be
  deleted exists.  In a consistent state with \<open>I\<close> they return and leave the state
  consistent and \<open>I\<close> true; they do not touch the list of defunct threads nor the object of a thread that is not live, and start no such thread.  Everything
  else they may change: they may delete other objects, wake threads and free memory.  \<open>I\<close> does not depend on the
  objects of threads, nor on the list a thread is in.
\<close>

definition mild :: "(kernel \<Rightarrow> bool) \<Rightarrow> (kernel \<Rightarrow> kernel option) \<Rightarrow> bool" where
  "mild I f \<longleftrightarrow> (\<forall>s. sys_inv s \<and> I s \<longrightarrow> (\<exists>s'. f s = Some s' \<and> sys_inv s' \<and> I s' \<and> lists s' Defunct = lists s Defunct \<and>
     (\<forall>u. \<not> live s u \<longrightarrow> \<not> live s' u \<and> objs s' (OThread u) = objs s (OThread u) \<and>
       (\<forall>l. OThread u \<in> set (object_list s' l) \<longleftrightarrow> OThread u \<in> set (object_list s l)))))"

definition thread_free :: "(kernel \<Rightarrow> bool) \<Rightarrow> bool" where
  "thread_free I \<longleftrightarrow> (\<forall>s u. I s \<longrightarrow> I (tl_remove u s) \<and> I (rt_object_detach (OThread u) s))"

definition dead_kept :: "tid set \<Rightarrow> kernel \<Rightarrow> kernel \<Rightarrow> bool" where
  "dead_kept T s s' \<longleftrightarrow> (\<forall>u \<in> T. \<not> live s u \<longrightarrow> \<not> live s' u \<and> objs s' (OThread u) = objs s (OThread u) \<and>
     (\<forall>l. OThread u \<in> set (object_list s' l) \<longleftrightarrow> OThread u \<in> set (object_list s l)))"

lemma dead_keptD:
  assumes "dead_kept T s s'" "u \<in> T" "\<not> live s u"
  shows "\<not> live s' u" "objs s' (OThread u) = objs s (OThread u)" "OThread u \<in> set (object_list s' l) \<longleftrightarrow> OThread u \<in> set (object_list s l)"
  using assms by (auto simp: dead_kept_def)

lemma dead_kept_trans:
  assumes "dead_kept T s s'" "dead_kept T s' s''"
  shows "dead_kept T s s''"
  using dead_keptD [OF assms(1)] dead_keptD [OF assms(2)] unfolding dead_kept_def by metis

lemma mildE:
  assumes "mild I f" "sys_inv s" "I s"
  obtains s' where "f s = Some s'" "sys_inv s'" "I s'" "lists s' Defunct = lists s Defunct" "dead_kept UNIV s s'"
  using assms unfolding mild_def dead_kept_def by blast

lemma dead_kept_mono: "dead_kept UNIV s s' \<Longrightarrow> dead_kept T s s'"
  by (simp add: dead_kept_def)

lemma detach_thread_kept:
  "dead_kept (- {t}) s (rt_object_detach (OThread t) s)" "obj_type (objs (rt_object_detach (OThread t) s) (OThread t)) = 0"
  "OThread t \<notin> set (object_list (rt_object_detach (OThread t) s) l)" "live (rt_object_detach (OThread t) s) u = live s u"
  by (auto simp: dead_kept_def rt_object_detach_def obj_unlink_def family_remove_def live_def stat_of_def)

lemma reclaim_ok:
  assumes inv: "sys_inv s" "I s" and t: "\<not> live s t" and mild: "\<And>f. mild I (clean f t)" "\<And>a. mild I (kfree a)" and free: "thread_free I"
  shows "\<exists>s'. reclaim clean kfree t s = Some s' \<and> sys_inv s' \<and> I s' \<and> lists s' Defunct = lists s Defunct \<and> \<not> live s' t \<and>
    (\<forall>l. OThread t \<notin> set (object_list s' l)) \<and> obj_type (objs s' (OThread t)) = 0 \<and> dead_kept (- {t}) s s'"
proof -
  have det: "I (rt_object_detach (OThread t) z)" if "I z" for z using free that by (simp add: thread_free_def)
  have cl: "\<exists>s'. (case c of None \<Rightarrow> Some z | Some f \<Rightarrow> clean f t z) = Some s' \<and> sys_inv s' \<and> I s' \<and> lists s' Defunct = lists z Defunct \<and> dead_kept UNIV z s'"
    if z: "sys_inv z" "I z" for c z
  proof (cases c)
    case None
    then show ?thesis using z by (simp add: dead_kept_def)
  next
    case (Some f)
    obtain s' where "clean f t z = Some s'" "sys_inv s'" "I s'" "lists s' Defunct = lists z Defunct" "dead_kept UNIV z s'" by (rule mildE [OF mild(1) z])
    then show ?thesis using Some by simp
  qed
  show ?thesis
  proof (cases "rt_object_is_systemobject (OThread t) s")
    case True
    let ?d = "rt_object_detach (OThread t) s"
    obtain s' where s': "(case cleanup (thr s t) of None \<Rightarrow> Some ?d | Some f \<Rightarrow> clean f t ?d) = Some s'" "sys_inv s'" "I s'"
      "lists s' Defunct = lists ?d Defunct" "dead_kept UNIV ?d s'"
      using cl [OF sys_inv_detach_dead [OF inv(1) t], of "OThread t"] det [OF inv(2)] by blast
    have "\<not> live ?d t" using t by (simp add: detach_thread_kept)
    note k = dead_keptD [OF s'(5) UNIV_I this]
    have "dead_kept (- {t}) s s'" by (rule dead_kept_trans [OF detach_thread_kept(1) dead_kept_mono [OF s'(5)]])
    then show ?thesis using True s' k detach_thread_kept(2,3) by (simp add: reclaim_def Let_def)
  next
    case False
    obtain s2 where s2: "(case cleanup (thr s t) of None \<Rightarrow> Some s | Some f \<Rightarrow> clean f t s) = Some s2" "sys_inv s2" "I s2"
      "lists s2 Defunct = lists s Defunct" "dead_kept UNIV s s2" using cl [OF inv] by blast
    obtain s3 where s3: "kfree (stack_addr (thr s2 t)) s2 = Some s3" "sys_inv s3" "I s3" "lists s3 Defunct = lists s2 Defunct" "dead_kept UNIV s2 s3"
      by (rule mildE [OF mild(2) s2(2,3)])
    note d = dead_kept_trans [OF s2(5) s3(5)]
    note k = dead_keptD [OF d UNIV_I t]
    let ?s' = "rt_object_detach (OThread t) s3"
    have "\<not> rt_object_is_systemobject (OThread t) s3" using False k(2) by (simp add: rt_object_is_systemobject_def)
    then have "reclaim clean kfree t s = Some ?s'"
      using False s2(1) s3(1) by (simp add: reclaim_def Let_def rt_object_delete_def rt_object_detach_def)
    moreover have "sys_inv ?s'" using sys_inv_detach_dead [OF s3(2) k(1), of "OThread t"] by simp
    moreover have "dead_kept (- {t}) s ?s'" by (rule dead_kept_trans [OF dead_kept_mono [OF d] detach_thread_kept(1)])
    ultimately show ?thesis using detach_thread_kept(2-4) k(1) det [OF s3(3)] s2(4) s3(4) by simp
  qed
qed

lemma defunct_execute_ok:
  assumes "sys_inv s" "I s" "\<And>f t. mild I (clean f t)" "\<And>a. mild I (kfree a)" "thread_free I"
  shows "\<exists>s'. rt_defunct_execute clean kfree s = Some s' \<and> sys_inv s' \<and> I s' \<and> lists s' Defunct = [] \<and>
    (\<forall>t \<in> set (lists s Defunct). obj_type (objs s' (OThread t)) = 0 \<and> (\<forall>l. OThread t \<notin> set (object_list s' l))) \<and> dead_kept (- set (lists s Defunct)) s s'"
  using assms(1,2)
proof (induction "lists s Defunct" arbitrary: s)
  case Nil
  then have "rt_defunct_execute clean kfree s = Some s"
    by (subst rt_defunct_execute.simps) (simp add: rt_thread_defunct_dequeue_def tl_first_def)
  then show ?case using Nil by (auto simp: dead_kept_def)
next
  case (Cons t ts)
  let ?s1 = "tl_remove t s"
  have t: "lists s Defunct = t # ts" "t \<in> set (lists s Defunct)" using Cons(2) by (metis, metis list.set_intros(1))
  note u = sys_inv_undefunct [OF Cons.prems(1) t(2)]
  have dist: "t \<notin> set ts"
    using ready_invD(1) [OF kernel_invD(2) [OF sys_invD(1) [OF Cons.prems(1)]]] t(1) by (metis distinct.simps(2) family_ok_def)
  have l1: "live ?s1 v = live s v" for v by (simp add: live_def stat_of_def tl_remove_def)
  have "I ?s1" using Cons.prems(2) assms(5) by (simp add: thread_free_def)
  from reclaim_ok [of ?s1 I t clean kfree, OF u(1) this _ assms(3,4,5)] u(2) l1 obtain s2 where
    s2: "reclaim clean kfree t ?s1 = Some s2" "sys_inv s2" "I s2" "lists s2 Defunct = lists ?s1 Defunct" "\<not> live s2 t"
    "\<And>l. OThread t \<notin> set (object_list s2 l)" "obj_type (objs s2 (OThread t)) = 0" "dead_kept (- {t}) ?s1 s2" by auto
  have d: "ts = lists s2 Defunct" using s2(4) t(1) dist by (simp add: tl_remove_def family_remove_def)
  obtain s' where s': "rt_defunct_execute clean kfree s2 = Some s'" "sys_inv s'" "I s'" "lists s' Defunct = []"
    "\<forall>t \<in> set ts. obj_type (objs s' (OThread t)) = 0 \<and> (\<forall>l. OThread t \<notin> set (object_list s' l))" "dead_kept (- set ts) s2 s'"
    using Cons(1) [OF d s2(2,3)] d by auto
  have "rt_defunct_execute clean kfree s = Some s'"
    using t(1) s2(1) s'(1) by (subst rt_defunct_execute.simps) (simp add: rt_thread_defunct_dequeue_def tl_first_def)
  moreover have "obj_type (objs s' (OThread t)) = 0 \<and> (\<forall>l. OThread t \<notin> set (object_list s' l))"
    using dead_keptD [OF s'(6) _ s2(5)] dist s2(6,7) by simp
  moreover have "dead_kept (- set (lists s Defunct)) s s'"
  proof -
    have "dead_kept (- {t}) s s2" using s2(8) l1 by (simp add: dead_kept_def) (simp add: tl_remove_def)
    then have "dead_kept (- set (t # ts)) s s2" "dead_kept (- set (t # ts)) s2 s'" using s'(6) by (auto simp: dead_kept_def)
    then show ?thesis unfolding t(1) by (rule dead_kept_trans)
  qed
  ultimately show ?case using s'(2-5) t(1) by auto
qed

subsection \<open>A clean-up function that deletes a semaphore\<close>

text \<open>
  As \<^verbatim>\<open>_pthread_cleanup\<close> does with the semaphore for the joining thread: \<^verbatim>\<open>rt_sem_delete\<close> if there is one still.
\<close>

definition sem_cleanup :: "nat \<Rightarrow> kernel \<Rightarrow> kernel option" where
  "sem_cleanup n s = (if rt_object_get_type (OSem n) s = 0 then Some s else map_option snd (rt_sem_delete n s))"

definition sem_there :: "nat \<Rightarrow> kernel \<Rightarrow> bool" where
  "sem_there n s \<longleftrightarrow> rt_object_get_type (OSem n) s = 0 \<or> (rt_object_get_type (OSem n) s = RT_Object_Class_Semaphore \<and> \<not> rt_object_is_systemobject (OSem n) s)"

lemma resume_all_dead:
  assumes "sys_inv s" "wait_id l" "ipc_list_resume_all_loop l n s = Some s'"
  shows "lists s' Defunct = lists s Defunct \<and> (\<forall>u. live s' u = live s u)"
  using assms(1,3)
proof (induction n arbitrary: s)
  case (Suc n)
  show ?case
  proof (cases "lists s l")
    case Nil
    then show ?thesis using Suc.prems(2) by (simp add: tl_isempty_def)
  next
    case (Cons t ts)
    define s0 where "s0 = set_error t (- RT_ERROR) s"
    have i0: "sys_inv s0" unfolding s0_def by (rule sys_inv_set_error [OF Suc.prems(1)])
    have su: "suspended s0 t" using waiter_suspended [OF sys_invD(1) [OF Suc.prems(1)] assms(2), of t] Cons by (simp add: s0_def)
    have r: "rt_thread_resume t s0 = Some (RT_EOK, resumed t s0)" by (rule resume_suspended [OF sys_invD(1) [OF i0] su])
    then have "ipc_list_resume_all_loop l n (resumed t s0) = Some s'"
      using Suc.prems(2) Cons by (simp add: tl_isempty_def tl_first_def resume_failed_def s0_def)
    moreover have "sys_inv (resumed t s0)"
      using resume_front [OF Suc.prems(1) assms(2) Cons, of "- RT_ERROR"] r wokenD(1) by (auto simp: s0_def)
    ultimately have k: "lists s' Defunct = lists (resumed t s0) Defunct" "\<And>u. live s' u = live (resumed t s0) u" using Suc.IH by auto
    have "t \<notin> set (lists s Defunct)"
      using live_not_defunct [OF i0 suspended_live [OF su]] by (simp add: s0_def)
    then have "lists (resumed t s0) Defunct = lists s Defunct"
      by (simp add: resumed_def Let_def ready_insert_def tl_remove_def family_remove_def s0_def)
    moreover have "live (resumed t s0) u = live s u" for u
    proof (cases "u = t")
      case True
      then show ?thesis using suspended_live [OF su]
        by (simp add: live_def stat_of_def resumed_def Let_def ready_insert_def tl_remove_def timer_off_def timer_clear_def tm_remove_def s0_def set_error_def)
    qed (simp add: live_def stat_of_def resumed_def Let_def ready_insert_def tl_remove_def timer_off_def timer_clear_def tm_remove_def s0_def set_error_def)
    ultimately show ?thesis using k by simp
  qed
qed simp

lemma sem_delete_mild: "mild (sem_there n) (sem_cleanup n)"
  unfolding mild_def
proof (intro allI impI)
  fix s assume s: "sys_inv s \<and> sem_there n s"
  show "\<exists>s'. sem_cleanup n s = Some s' \<and> sys_inv s' \<and> sem_there n s' \<and> lists s' Defunct = lists s Defunct \<and>
     (\<forall>u. \<not> live s u \<longrightarrow> \<not> live s' u \<and> objs s' (OThread u) = objs s (OThread u) \<and>
       (\<forall>l. OThread u \<in> set (object_list s' l) \<longleftrightarrow> OThread u \<in> set (object_list s l)))"
  proof (cases "rt_object_get_type (OSem n) s = 0")
    case True
    then show ?thesis using s by (simp add: sem_cleanup_def)
  next
    case False
    then have ty: "rt_object_get_type (OSem n) s = RT_Object_Class_Semaphore" "\<not> rt_object_is_systemobject (OSem n) s" using s by (auto simp: sem_there_def)
    obtain s1 where s1: "ipc_list_resume_all (SemWait n) s = Some s1" "drain_inv (SemWait n) s s1" using resume_all [of s "SemWait n"] s by auto
    have d: "lists s1 Defunct = lists s Defunct" "\<And>u. live s1 u = live s u"
      using resume_all_dead [of s "SemWait n"] s s1(1) by (auto simp: ipc_list_resume_all_def simp del: ipc_list_resume_all_loop.simps)
    have f: "objs s1 (OSem n) = objs s (OSem n)" "objs s1 (OThread u) = objs s (OThread u)" "object_list s1 = object_list s" "sys_inv s1" for u
      using s1(2) by (simp_all add: drain_inv_def ipc_frame_def)
    let ?s' = "rt_object_detach (OSem n) s1"
    have "sem_cleanup n s = Some ?s'" using False ty s1(1) f(1) 
      by (simp add: sem_cleanup_def rt_sem_delete_def rt_object_delete_def rt_object_detach_def rt_object_is_systemobject_def)
    moreover have "sem_there n ?s'" by (simp add: sem_there_def rt_object_get_type_def rt_object_detach_def obj_unlink_def)
    moreover have "sys_inv ?s'" "lists ?s' = lists s1" "threads ?s' = threads s1" using sys_inv_detach [of "OSem n" s1] f(4) by simp_all
    moreover have "objs ?s' (OThread u) = objs s1 (OThread u)" "OThread u \<in> set (object_list ?s' l) \<longleftrightarrow> OThread u \<in> set (object_list s1 l)" for u l
      by (simp_all add: rt_object_detach_def obj_unlink_def family_remove_def)
    ultimately show ?thesis using d f(2,3) by (auto simp: live_def stat_of_def)
  qed
qed

lemma sem_there_free: "thread_free (sem_there n)"
  by (simp add: thread_free_def sem_there_def rt_object_get_type_def rt_object_is_systemobject_def tl_remove_def rt_object_detach_def obj_unlink_def)

section \<open>Properties\<close>

text \<open>
  C37: closing a thread with \<^verbatim>\<open>rt_thread_detach\<close> (a static thread) or \<^verbatim>\<open>rt_thread_delete\<close> (a dynamic
  one), in a consistent system where threads do not wait for each other's mutexes in a circle.  The thread is live, whether ready, running or
  waiting anywhere, holds no mutex and its built-in timer is a static object, as \<^verbatim>\<open>_thread_init\<close> makes it; if it waits for a mutex, the priority recorded in
  that mutex is its own or that of the first waiting thread, as \<^verbatim>\<open>rt_mutex_take\<close> leaves it.  The
  call returns \<^verbatim>\<open>RT_EOK\<close>; the thread is closed, in no ready or wait list, has no running timer, and
  is queued exactly once for the idle thread.  If it waited for a mutex, the mutex records the priority of the first
  thread that still waits (255 if none does), and every thread, the owners along the chain included, has the priority that its own and the recorded ones
  of its mutexes give it: the inheritance invariant holds again.  No other thread gains or loses a mutex or a place in a mutex
  list.
\<close>

theorem thread_close_detaches:
  assumes inv: "sys_inv s" "pi_inv s" "no_cycle rank s"
    and t: "live s t" "rt_object_is_systemobject (OTimer (ThreadTimer t)) s" "\<And>m. \<not> owns s t m"
    and mtx: "\<And>m. pending_object (thr s t) = Some (OMutex m) \<Longrightarrow>
      mtx_priority (mutexes s m) = current_priority (thr s t) \<or> mtx_priority (mutexes s m) = head_priority m s"
  shows "\<exists>s'. (if rt_object_is_systemobject (OThread t) s then rt_thread_detach t s else rt_thread_delete t s) = Some (RT_EOK, s') \<and>
    sys_inv s' \<and> pi_inv s' \<and> stat_of s' t = RT_THREAD_CLOSE \<and> lists s' Defunct = t # lists s Defunct \<and> distinct (lists s' Defunct) \<and>
    (\<forall>l. l \<noteq> Defunct \<longrightarrow> t \<notin> set (lists s' l)) \<and> ThreadTimer t \<notin> set (timer_lists s' HardTimers) \<and>
    (\<forall>u m. owns s' u m = owns s u m \<and> (waits s' u m \<longleftrightarrow> u \<noteq> t \<and> waits s u m)) \<and>
    (\<forall>m. waits s t m \<longrightarrow> mtx_priority (mutexes s' m) = head_priority m s') \<and>
    (\<forall>u. current_priority (thr s' u) = thread_get_mutex_priority u s' \<and> init_priority (thr s' u) = init_priority (thr s u))"
proof -
  obtain s' where s': "thread_close t s = Some (RT_EOK, s')" "sys_inv s'" "pi_inv s'" "stat_of s' t = RT_THREAD_CLOSE"
    "lists s' Defunct = t # lists s Defunct" "\<forall>u m. owns s' u m = owns s u m \<and> (waits s' u m \<longleftrightarrow> u \<noteq> t \<and> waits s u m)"
    "\<forall>u. init_priority (thr s' u) = init_priority (thr s u)" "\<forall>m. waits s t m \<longrightarrow> mtx_priority (mutexes s' m) = head_priority m s'"
    using thread_close_ok [OF inv t mtx] by blast
  have "rt_object_get_type (OThread t) s = RT_Object_Class_Thread"
    using kernel_invD(6) [OF sys_invD(1) [OF inv(1)] t(1)] by (simp add: thread_object_ok_def)
  moreover note fam = ready_invD(1) [OF kernel_invD(2) [OF sys_invD(1) [OF s'(2)]]]
  have "distinct (lists s' Defunct)" "t \<notin> set (lists s' l)" if "l \<noteq> Defunct" for l
    using fam s'(5) that unfolding family_ok_def by (blast, metis list.set_intros(1))
  moreover have "distinct (lists s' Defunct)" using fam by (simp add: family_ok_def)
  moreover have "\<not> live s' t" using s'(4) by (simp add: live_def)
  then have "ThreadTimer t \<notin> set (timer_lists s' HardTimers)"
    using kernel_invD(7) [OF sys_invD(1) [OF s'(2)], of t] suspended_live [of s' t] by blast
  moreover have "\<forall>u. current_priority (thr s' u) = thread_get_mutex_priority u s'" using s'(3) by (simp add: pi_inv_def)
  ultimately show ?thesis using s' by (simp add: rt_thread_detach_def rt_thread_delete_def)
qed

text \<open>
  Thread 2 has queued for mutex 5 of the idle thread, which has got the priority of thread 2 for it: the state inside
  \<^verbatim>\<open>rt_mutex_take\<close> after the priority was passed on.
\<close>

lemma change_priority_objs: "thread_change_priority t p s = Some (r, s') \<Longrightarrow> objs s' = objs s"
  by (auto simp: thread_change_priority_def rt_schedule_remove_thread_def rt_schedule_insert_thread_def Let_def tl_remove_def tl_push_front_def tl_push_back_def
      bind_eq_Some_conv split: if_splits)

lemma lent_system:
  obtains s where "inherit_priority 5 0 (current_priority (thr owned_system 2)) (joined 5 2 RT_UNINTERRUPTIBLE owned_system) = Some s"
    "sys_inv s" "pi_inv s" "pi_frame (joined 5 2 RT_UNINTERRUPTIBLE owned_system) s" "objs s = objs (joined 5 2 RT_UNINTERRUPTIBLE owned_system)"
    "current_priority (thr s 0) = 10" "current_priority (thr s 2) = 10" "mtx_priority (mutexes s 5) = 10"
proof -
  let ?j = "joined 5 2 RT_UNINTERRUPTIBLE owned_system"
  define s1 where "s1 = upd_mutex 5 (\<lambda>r. r\<lparr>mtx_priority := 10\<rparr>) ?j"
  have nc: "no_cycle (\<lambda>t. t) owned_system" by (simp add: no_cycle_def owned_system_facts)
  have own: "owns owned_system 0 5" by (simp add: owned_system_facts)
  obtain s where s: "inherit_priority 5 0 (current_priority (thr owned_system 2)) ?j = Some s" "sys_inv s" "pi_inv s" "pi_frame ?j s"
    using inherit_ok [OF sys_inv_owned pi_inv_owned nc _ owned_system_facts(12,13) own] by auto
  have p: "current_priority (thr owned_system 2) = 10" "current_priority (thr owned_system 0) = 31"
    by (simp_all add: owned_system_def small_system_def sample_thread_def)
  have i1: "sys_inv s1" using sys_inv_joined [OF sys_inv_owned owned_system_facts(12,13)] by (simp add: s1_def)
  have l1: "live s1 0" using owned_system_facts(5) joined_threads(5) [of 0 2] by (simp add: s1_def)
  obtain s4 where s4: "thread_change_priority 0 10 s1 = Some (RT_EOK, s4)" "prio_changed 0 10 s1 s4"
    using change_priority [OF i1 l1, of 10] by auto
  note d = prio_changedD [OF s4(2)]
  have "pending_object (thr s4 0) = None" using d(11) [of 0] by (simp add: s1_def joined_threads owned_system_facts)
  then have "update_priority_loop 0 RT_UNINTERRUPTIBLE s4 = Some s4" by (subst update_priority_loop.simps) simp
  then have "inherit_priority 5 0 (current_priority (thr owned_system 2)) ?j = Some s4"
    using s4(1) p by (simp add: inherit_priority_def thread_update_priority_def joined_threads owned_system_facts s1_def del: upd_thread_def)
  then have e: "s = s4" using s(1) by simp
  have "current_priority (thr s 0) = 10" "current_priority (thr s 2) = 10" "mtx_priority (mutexes s 5) = 10" "objs s = objs ?j"
    unfolding e using d(8) d(9) [of 2] d(14) change_priority_objs [OF s4(1)] p by (simp_all add: s1_def joined_threads upd_mutex_def)
  then show thesis using s that by blast
qed

theorem thread_close_detaches_witness:
  "\<exists>s s'. inherit_priority 5 0 (current_priority (thr owned_system 2)) (joined 5 2 RT_UNINTERRUPTIBLE owned_system) = Some s \<and>
     pending_object (thr s 2) = Some (OMutex 5) \<and> current_priority (thr s 0) = 10 \<and>
     rt_thread_detach 2 s = Some (RT_EOK, s') \<and> sys_inv s' \<and> lists s' Defunct = [2] \<and> mtx_priority (mutexes s' 5) = 255 \<and> current_priority (thr s' 0) = 31"
proof -
  let ?j = "joined 5 2 RT_UNINTERRUPTIBLE owned_system"
  obtain s where s: "inherit_priority 5 0 (current_priority (thr owned_system 2)) ?j = Some s" "sys_inv s" "pi_inv s" "pi_frame ?j s" "objs s = objs ?j"
    "current_priority (thr s 0) = 10" "current_priority (thr s 2) = 10" "mtx_priority (mutexes s 5) = 10" by (rule lent_system)
  have o: "owns s u m \<longleftrightarrow> u = 0 \<and> m = 5" "waits s u m \<longleftrightarrow> u = 2 \<and> m = 5" for u m
    using pi_frameD(4,5) [OF s(4)] by (auto simp: owns_joined waits_joined owned_system_facts)
  have nc: "no_cycle (\<lambda>t. t) s" by (simp add: no_cycle_def o)
  have l: "live s 2" using pi_frame_threads(5) [OF s(4), of 2] joined_threads(8) by simp
  have po: "pending_object (thr s 2) = Some (OMutex 5)" using pi_frame_threads(3) [OF s(4), of 2] by (simp add: joined_threads)
  have ty: "obj_type (objs ?j a) = obj_type (objs small_system a)" for a
    by (simp add: joined_def suspended_self_def enqueued_def timer_off_def timer_clear_def owned_system_def upd_mutex_def tm_remove_def)
  have sy: "rt_object_is_systemobject (OTimer (ThreadTimer 2)) s" "rt_object_is_systemobject (OThread 2) s"
    using ty by (simp_all add: rt_object_is_systemobject_def s(5)) (simp_all add: small_system_def)
  have df: "lists s Defunct = []" using pi_frame_defunct [OF s(4)]
    by (simp add: joined_def suspended_self_def enqueued_def timer_off_def timer_clear_def owned_system_def upd_mutex_def tm_remove_def small_system_def kernel_reset_def)
  from thread_close_detaches [OF s(2,3) nc l sy(1)] o(1) po s(7,8) sy(2) df obtain s' where
    s': "rt_thread_detach 2 s = Some (RT_EOK, s')" "sys_inv s'" "pi_inv s'" "lists s' Defunct = [2]" "\<forall>u m. owns s' u m = owns s u m \<and> (waits s' u m \<longleftrightarrow> u \<noteq> 2 \<and> waits s u m)"
    "\<forall>m. waits s 2 m \<longrightarrow> mtx_priority (mutexes s' m) = head_priority m s'" "\<forall>u. current_priority (thr s' u) = thread_get_mutex_priority u s' \<and> init_priority (thr s' u) = init_priority (thr s u)" by auto
  have "lists s' (MutexWait 5) = []" using s'(5) o(2) unfolding waits_def by (metis all_not_in_conv set_empty)
  then have m: "mtx_priority (mutexes s' 5) = 255" using s'(6) o(2) by (simp add: head_priority_hd)
  have st: "mutex_struct s'" using s'(3) by (simp add: pi_inv_def)
  have tk: "k = 5" if "k \<in> set (taken_object_list (thr s' 0))" for k using mutex_structD(1) [OF st] that s'(5) o(1) by simp
  have "init_priority (thr owned_system 0) = 31" by (simp add: owned_system_def small_system_def sample_thread_def)
  then have i: "init_priority (thr s' 0) = 31" using s'(7) pi_frame_threads(4) [OF s(4), of 0] by (simp add: joined_threads)
  have "mutex_prio s' 5 = 255" using m mutex_structD(8) [OF st, of 0 5] s'(5) o(1) by (simp add: mutex_prio_def)
  then have "31 \<le> mutex_prio s' k" if "k \<in> set (taken_object_list (thr s' 0))" for k using tk [OF that] by simp
  then have "get_mutex_priority_loop (taken_object_list (thr s' 0)) 31 s' = 31" by (intro get_mutex_priority_eq) simp_all
  then have "current_priority (thr s' 0) = 31" using s'(7) i by (simp add: thread_get_mutex_priority_def)
  then show ?thesis using s(1) po s(6) s'(1,2,4) m by blast
qed

text \<open>
  C38: the end of a thread that returns from its entry function, and the idle thread.  Let the scheduler be unlocked, another thread
  be ready, and the exiting thread hold no mutex and have a static timer object.  \<^verbatim>\<open>_thread_exit\<close>
  switches to another runnable thread of the highest priority, never to return: the exiting thread is
  closed, not runnable and queued as defunct.  Let \<^verbatim>\<open>rt_defunct_execute\<close> run then, with clean-up
  functions and a stack release that return and keep the state consistent whenever their own invariant \<open>I\<close> holds, and that leave the list of defunct
  threads and the objects of closed threads alone; they may delete other objects and wake threads.  It comes to an end, the list of
  defunct threads is empty, every thread object in it has left its container and lost its type, \<open>I\<close> holds, and
  the objects of other closed threads are untouched.
\<close>

theorem thread_exit_reclaimed:
  assumes inv: "sys_inv s" "pi_inv s" and t: "rt_current_thread s = Some t" "stat_of s t = RT_THREAD_RUNNING"
    and tm: "rt_object_is_systemobject (OTimer (ThreadTimer t)) s" and none: "\<And>m. \<not> owns s t m"
    and sched: "rt_scheduler_lock_nest s = 0" "lists s (Ready p) \<noteq> []"
    and I: "\<And>s1. thread_exit s = Some s1 \<Longrightarrow> I s1" "thread_free I"
    and mild: "\<And>f u. mild I (clean f u)" "\<And>a. mild I (kfree a)"
  shows "\<exists>s1 c s2. thread_exit s = Some s1 \<and> rt_current_thread s1 = Some c \<and> c \<noteq> t \<and> stat_of s1 c = RT_THREAD_RUNNING \<and>
    (\<forall>q < prio_of s1 c. lists s1 (Ready q) = []) \<and> runnable s1 = runnable s - {t} \<and> pi_inv s1 \<and> lists s1 Defunct = t # lists s Defunct \<and>
    rt_defunct_execute clean kfree s1 = Some s2 \<and> sys_inv s2 \<and> I s2 \<and> lists s2 Defunct = [] \<and>
    (\<forall>u \<in> set (t # lists s Defunct). obj_type (objs s2 (OThread u)) = 0 \<and> (\<forall>l. OThread u \<notin> set (object_list s2 l))) \<and>
    (\<forall>u. u \<notin> set (t # lists s Defunct) \<and> \<not> live s1 u \<longrightarrow> objs s2 (OThread u) = objs s1 (OThread u))"
proof -
  obtain s1 c where s1: "thread_exit s = Some s1" "sys_inv s1" "pi_inv s1" "rt_current_thread s1 = Some c" "c \<noteq> t"
    "stat_of s1 c = RT_THREAD_RUNNING" "\<forall>q < prio_of s1 c. lists s1 (Ready q) = []" "runnable s1 = runnable s - {t}"
    "lists s1 Defunct = t # lists s Defunct"
    using thread_exit_ok [OF inv t tm none sched] by blast
  obtain s2 where s2: "rt_defunct_execute clean kfree s1 = Some s2" "sys_inv s2" "I s2" "lists s2 Defunct = []"
    "\<forall>u \<in> set (lists s1 Defunct). obj_type (objs s2 (OThread u)) = 0 \<and> (\<forall>l. OThread u \<notin> set (object_list s2 l))" "dead_kept (- set (lists s1 Defunct)) s1 s2"
    using defunct_execute_ok [of s1 I clean kfree, OF s1(2) I(1) [OF s1(1)] mild I(2)] by blast
  have "objs s2 (OThread u) = objs s1 (OThread u)" if "u \<notin> set (t # lists s Defunct)" "\<not> live s1 u" for u
    using dead_keptD(2) [OF s2(6) _ that(2)] that(1) s1(9) by simp
  then show ?thesis
    by (intro exI [of _ s1] exI [of _ c] exI [of _ s2] conjI) (use s1 s2 in simp_all)
qed

text \<open>
  The witness: thread 2 ends; its clean-up function deletes semaphore 7.
\<close>

definition join_system :: kernel where
  "join_system = upd_thread 2 (\<lambda>r. r\<lparr>cleanup := Some 1\<rparr>) (upd_obj (OSem 7) (\<lambda>r. r\<lparr>obj_type := RT_Object_Class_Semaphore\<rparr>) owned_system)"

lemma join_system_ok: "sys_inv join_system" "pi_inv join_system" "rt_current_thread join_system = Some 2" "stat_of join_system 2 = RT_THREAD_RUNNING"
  "rt_object_is_systemobject (OTimer (ThreadTimer 2)) join_system" "\<not> owns join_system 2 m" "rt_scheduler_lock_nest join_system = 0"
  "lists join_system (Ready 10) \<noteq> []" "sem_there 7 join_system" "rt_object_get_type (OSem 7) join_system \<noteq> 0"
proof -
  let ?s = "upd_obj (OSem 7) (\<lambda>r. r\<lparr>obj_type := RT_Object_Class_Semaphore\<rparr>) owned_system"
  have "sys_inv ?s" using sys_inv_owned by (subst sys_inv_obj) simp_all
  then show "sys_inv join_system" unfolding join_system_def by (rule sys_inv_fields) simp_all
  have "pi_view owned_system join_system"
    by (auto simp: pi_view_def join_system_def live_def suspended_def stat_of_def rt_object_get_type_def mutex_flag_def)
  from pi_inv_view(1) [OF this] pi_inv_owned show "pi_inv join_system" by simp
  show "rt_current_thread join_system = Some 2" "stat_of join_system 2 = RT_THREAD_RUNNING"
    using owned_system_facts(12,13) by (simp_all add: join_system_def stat_of_def)
  show "rt_object_is_systemobject (OTimer (ThreadTimer 2)) join_system" "\<not> owns join_system 2 m" "rt_scheduler_lock_nest join_system = 0"
    "lists join_system (Ready 10) \<noteq> []" "sem_there 7 join_system" "rt_object_get_type (OSem 7) join_system \<noteq> 0"
    by (simp_all add: join_system_def owns_def owned_system_def upd_mutex_def small_system_def kernel_reset_def rt_object_is_systemobject_def sem_there_def rt_object_get_type_def)
qed

theorem thread_exit_reclaimed_witness:
  "\<exists>s1 c s2. thread_exit join_system = Some s1 \<and> rt_current_thread s1 = Some c \<and> c \<noteq> 2 \<and> cleanup (thr join_system 2) = Some 1 \<and>
     rt_defunct_execute (\<lambda>f _. if f = 1 then sem_cleanup 7 else Some) (\<lambda>_. Some) s1 = Some s2 \<and> lists s2 Defunct = [] \<and>
     obj_type (objs s2 (OThread 2)) = 0 \<and> sem_there 7 s2"
proof -
  have some: "mild (sem_there 7) Some" by (simp add: mild_def)
  have i: "sem_there 7 s1" if "thread_exit join_system = Some s1" for s1
    using thread_exit_ok [OF join_system_ok(1-8)] that join_system_ok(9) by (auto simp: sem_there_def rt_object_get_type_def rt_object_is_systemobject_def)
  have m: "mild (sem_there 7) (if f = 1 then sem_cleanup 7 else Some)" for f :: nat using sem_delete_mild some by simp
  from thread_exit_reclaimed [where p = 10 and I = "sem_there 7" and clean = "\<lambda>f _. if f = 1 then sem_cleanup 7 else Some" and kfree = "\<lambda>_. Some",
      OF join_system_ok(1-8) i sem_there_free m some]
  show ?thesis by (auto simp: join_system_def)
qed

end
