(* ===== verification/Event.thy ===== *)
theory Event
  imports PriorityInherit
begin

text \<open>
  Event sets, \<^verbatim>\<open>src/ipc.c\<close>.  The third component of the result of a receive is what
  the call stores through \<^verbatim>\<open>recved\<close> (nothing when the call does not write it).
\<close>

section \<open>Operations\<close>

abbreviation (input) RT_EVENT_FLAG_AND :: "8 word" where "RT_EVENT_FLAG_AND \<equiv> 1"
abbreviation (input) RT_EVENT_FLAG_OR :: "8 word" where "RT_EVENT_FLAG_OR \<equiv> 2"
abbreviation (input) RT_EVENT_FLAG_CLEAR :: "8 word" where "RT_EVENT_FLAG_CLEAR \<equiv> 4"

definition put_event :: "nat \<Rightarrow> 32 word \<Rightarrow> kernel \<Rightarrow> kernel" where
  "put_event e v s = s\<lparr>events := (events s)(e := \<lparr>ev_set = v\<rparr>)\<rparr>"

definition event_flag :: "nat \<Rightarrow> kernel \<Rightarrow> 8 word" where
  "event_flag e s = obj_flag (objs s (OEvent e))"

definition rt_event_init :: "nat \<Rightarrow> string \<Rightarrow> 8 word \<Rightarrow> kernel \<Rightarrow> (err \<times> kernel) option" where
  "rt_event_init e name flag s = do {
     rt_assert (valid_flag flag);
     s1 \<leftarrow> rt_object_init (OEvent e) RT_Object_Class_Event name s;
     let s2 = upd_obj (OEvent e) (\<lambda>r. r\<lparr>obj_flag := flag\<rparr>) s1;
     Some (RT_EOK, put_event e 0 (ipc_object_init (EventWait e) s2))
   }"

definition rt_event_detach :: "nat \<Rightarrow> kernel \<Rightarrow> (err \<times> kernel) option" where
  "rt_event_detach e s = do {
     rt_assert (rt_object_get_type (OEvent e) s = RT_Object_Class_Event);
     rt_assert (rt_object_is_systemobject (OEvent e) s);
     s1 \<leftarrow> ipc_list_resume_all (EventWait e) s;
     Some (RT_EOK, rt_object_detach (OEvent e) s1)
   }"

definition rt_event_create :: "nat option \<Rightarrow> string \<Rightarrow> 8 word \<Rightarrow> kernel \<Rightarrow> (nat option \<times> kernel) option" where
  "rt_event_create mem name flag s = do {
     rt_assert (valid_flag flag);
     (a, s1) \<leftarrow> rt_object_allocate (map_option OEvent mem) RT_Object_Class_Event name s;
     case mem of
       None \<Rightarrow> Some (None, s1)
     | Some e \<Rightarrow> do {
         let s2 = upd_obj (OEvent e) (\<lambda>r. r\<lparr>obj_flag := flag\<rparr>) s1;
         Some (Some e, put_event e 0 (ipc_object_init (EventWait e) s2))
       }
   }"

definition rt_event_delete :: "nat \<Rightarrow> kernel \<Rightarrow> (err \<times> kernel) option" where
  "rt_event_delete e s = do {
     rt_assert (rt_object_get_type (OEvent e) s = RT_Object_Class_Event);
     rt_assert (\<not> rt_object_is_systemobject (OEvent e) s);
     s1 \<leftarrow> ipc_list_resume_all (EventWait e) s;
     s2 \<leftarrow> rt_object_delete (OEvent e) s1;
     Some (RT_EOK, s2)
   }"

text \<open>
  One round of the loop of \<^verbatim>\<open>rt_event_send\<close> for thread \<open>t\<close>: \<^verbatim>\<open>None\<close> in the result is
  the early return with \<^verbatim>\<open>-RT_EINVAL\<close>.  The successor of the node is read before the
  thread leaves the list, so the loop runs over the threads that waited at its start.
\<close>

definition event_match :: "nat \<Rightarrow> tid \<Rightarrow> kernel \<Rightarrow> (bool \<times> kernel) option" where
  "event_match e t s =
    (let v = ev_set (events s e); want = event_set (thr s t); info = event_info (thr s t)
     in if info AND RT_EVENT_FLAG_AND \<noteq> 0 then Some (want AND v = want, s)
        else if info AND RT_EVENT_FLAG_OR \<noteq> 0 then
          Some (if want AND v \<noteq> 0
                then (True, upd_thread t (\<lambda>r. r\<lparr>event_set := want AND v\<rparr>) s)
                else (False, s))
        else None)"

fun event_send_loop ::
    "nat \<Rightarrow> tid list \<Rightarrow> 32 word \<Rightarrow> bool \<Rightarrow> kernel \<Rightarrow> ((32 word \<times> bool) option \<times> kernel) option" where
  "event_send_loop e [] need_clear need_schedule s = Some (Some (need_clear, need_schedule), s)"
| "event_send_loop e (t # ts) need_clear need_schedule s =
    (case event_match e t s of
       None \<Rightarrow> Some (None, s)
     | Some (False, s1) \<Rightarrow> event_send_loop e ts need_clear need_schedule s1
     | Some (True, s1) \<Rightarrow> do {
         let need_clear' = (if event_info (thr s1 t) AND RT_EVENT_FLAG_CLEAR \<noteq> 0
                            then need_clear OR event_set (thr s1 t) else need_clear);
         (_, s2) \<leftarrow> rt_thread_resume t s1;
         event_send_loop e ts need_clear' True (set_error t RT_EOK s2)
       })"

definition rt_event_send :: "nat \<Rightarrow> 32 word \<Rightarrow> kernel \<Rightarrow> (err \<times> kernel) option" where
  "rt_event_send e bits s = do {
     rt_assert (rt_object_get_type (OEvent e) s = RT_Object_Class_Event);
     if bits = 0 then Some (- RT_ERROR, s)
     else do {
       let s1 = put_event e (ev_set (events s e) OR bits) s;
       (res, s2) \<leftarrow> event_send_loop e (lists s1 (EventWait e)) 0 False s1;
       case res of
         None \<Rightarrow> Some (- RT_EINVAL, s2)
       | Some (need_clear, need_schedule) \<Rightarrow> do {
           let s3 = (if need_clear \<noteq> 0 then put_event e (ev_set (events s2 e) AND NOT need_clear) s2 else s2);
           s4 \<leftarrow> (if need_schedule then rt_schedule s3 else Some s3);
           Some (RT_EOK, s4)
         }
     }
   }"

definition rt_event_recv_flag ::
    "nat \<Rightarrow> 32 word \<Rightarrow> 8 word \<Rightarrow> int \<Rightarrow> int \<Rightarrow> kernel \<Rightarrow> (err outcome \<times> 32 word option \<times> kernel) option" where
  "rt_event_recv_flag e bits opt timeout suspend_flag s = do {
     rt_assert (rt_object_get_type (OEvent e) s = RT_Object_Class_Event);
     if bits = 0 then Some (Done (- RT_ERROR), None, s)
     else do {
       t \<leftarrow> rt_thread_self s;
       let s0 = set_error t (- RT_EINTR) s;
       let v = ev_set (events s0 e);
       rt_assert (opt AND RT_EVENT_FLAG_AND \<noteq> 0 \<or> opt AND RT_EVENT_FLAG_OR \<noteq> 0);
       if (if opt AND RT_EVENT_FLAG_AND \<noteq> 0 then v AND bits = bits else v AND bits \<noteq> 0)
       then do {
         let s1 = upd_thread t (\<lambda>r. r\<lparr>event_set := v AND bits, event_info := opt\<rparr>) (set_error t RT_EOK s0);
         let s2 = (if opt AND RT_EVENT_FLAG_CLEAR \<noteq> 0 then put_event e (v AND NOT bits) s1 else s1);
         Some (Done (thr_error (thr s2 t)), Some (v AND bits), s2)
       }
       else if timeout = 0 then Some (Done (- RT_ETIMEOUT), None, set_error t (- RT_ETIMEOUT) s0)
       else do {
         let s1 = upd_thread t (\<lambda>r. r\<lparr>event_set := bits, event_info := opt\<rparr>) s0;
         (ret, s2) \<leftarrow> ipc_list_suspend (EventWait e) t (event_flag e s1) suspend_flag s1;
         if ret \<noteq> RT_EOK then Some (Done ret, None, s2)
         else do {
           s3 \<leftarrow> (if 0 < timeout then arm_timer t (word_of_int timeout) s2 else Some s2);
           s4 \<leftarrow> rt_schedule s3;
           Some (Blocked, None, s4)
         }
       }
     }
   }"

definition rt_event_recv_resumed :: "tid \<Rightarrow> kernel \<Rightarrow> err \<times> 32 word option" where
  "rt_event_recv_resumed t s =
    (if thr_error (thr s t) \<noteq> RT_EOK then (thr_error (thr s t), None)
     else (thr_error (thr s t), Some (event_set (thr s t))))"

definition rt_event_recv ::
    "nat \<Rightarrow> 32 word \<Rightarrow> 8 word \<Rightarrow> int \<Rightarrow> kernel \<Rightarrow> (err outcome \<times> 32 word option \<times> kernel) option" where
  "rt_event_recv e bits opt timeout s = rt_event_recv_flag e bits opt timeout RT_UNINTERRUPTIBLE s"

definition rt_event_recv_interruptible ::
    "nat \<Rightarrow> 32 word \<Rightarrow> 8 word \<Rightarrow> int \<Rightarrow> kernel \<Rightarrow> (err outcome \<times> 32 word option \<times> kernel) option" where
  "rt_event_recv_interruptible e bits opt timeout s = rt_event_recv_flag e bits opt timeout RT_INTERRUPTIBLE s"

definition rt_event_recv_killable ::
    "nat \<Rightarrow> 32 word \<Rightarrow> 8 word \<Rightarrow> int \<Rightarrow> kernel \<Rightarrow> (err outcome \<times> 32 word option \<times> kernel) option" where
  "rt_event_recv_killable e bits opt timeout s = rt_event_recv_flag e bits opt timeout RT_KILLABLE s"

definition rt_event_control :: "nat \<Rightarrow> int \<Rightarrow> 64 word \<Rightarrow> kernel \<Rightarrow> (err \<times> kernel) option" where
  "rt_event_control e cmd arg s = do {
     rt_assert (rt_object_get_type (OEvent e) s = RT_Object_Class_Event);
     if cmd = RT_IPC_CMD_RESET
     then do {
       s1 \<leftarrow> ipc_list_resume_all (EventWait e) s;
       s2 \<leftarrow> rt_schedule (put_event e 0 s1);
       Some (RT_EOK, s2)
     }
     else Some (- RT_ERROR, s)
   }"

section \<open>The contract\<close>

definition wants_ok :: "kernel \<Rightarrow> tid \<Rightarrow> bool" where
  "wants_ok s t \<longleftrightarrow> event_info (thr s t) AND RT_EVENT_FLAG_AND \<noteq> 0 \<or> event_info (thr s t) AND RT_EVENT_FLAG_OR \<noteq> 0"

definition satisfied :: "32 word \<Rightarrow> rt_thread \<Rightarrow> bool" where
  "satisfied v r \<longleftrightarrow> (if event_info r AND RT_EVENT_FLAG_AND \<noteq> 0 then event_set r AND v = event_set r
                      else event_set r AND v \<noteq> 0)"

definition got :: "32 word \<Rightarrow> rt_thread \<Rightarrow> 32 word" where
  "got v r = (if event_info r AND RT_EVENT_FLAG_AND \<noteq> 0 then event_set r else event_set r AND v)"

fun cleared :: "32 word \<Rightarrow> rt_thread list \<Rightarrow> 32 word" where
  "cleared v [] = 0"
| "cleared v (r # rs) =
    (if satisfied v r \<and> event_info r AND RT_EVENT_FLAG_CLEAR \<noteq> 0 then got v r else 0) OR cleared v rs"

definition event_ok :: "nat \<Rightarrow> kernel \<Rightarrow> bool" where
  "event_ok e s \<longleftrightarrow> rt_object_get_type (OEvent e) s = RT_Object_Class_Event \<and> valid_flag (event_flag e s) \<and>
     (\<forall>t \<in> set (lists s (EventWait e)). wants_ok s t)"

section \<open>Sending\<close>

lemma put_event_frame [simp]:
  "sys_inv (put_event e v s) = sys_inv s" "lists (put_event e v s) = lists s" "threads (put_event e v s) = threads s"
  "ev_set (events (put_event e v s) e) = v" "runnable (put_event e v s) = runnable s"
  "rt_object_get_type a (put_event e v s) = rt_object_get_type a s" "event_flag k (put_event e v s) = event_flag k s"
  "rt_current_thread (put_event e v s) = rt_current_thread s" "wants_ok (put_event e v s) t = wants_ok s t"
  by (simp_all add: put_event_def runnable_def stat_of_def event_flag_def wants_ok_def)

lemma events_set_error [simp]: "events (set_error t x s) = events s"
  by (simp add: set_error_def)

lemma thr_resumed_other: "u \<noteq> t \<Longrightarrow> thr (resumed t s) u = thr s u"
  by (simp add: resumed_def Let_def ready_insert_def)

lemma match_eq:
  assumes "wants_ok s t"
  shows "event_match e t s = Some (satisfied (ev_set (events s e)) (thr s t),
     if satisfied (ev_set (events s e)) (thr s t)
     then upd_thread t (\<lambda>r. r\<lparr>event_set := got (ev_set (events s e)) r\<rparr>) s else s)"
  using assms by (auto simp: event_match_def wants_ok_def satisfied_def got_def Let_def)

text \<open>Resuming a thread anywhere in a wait list, after its result is stored.\<close>

definition delivered :: "tid \<Rightarrow> 32 word \<Rightarrow> kernel \<Rightarrow> kernel" where
  "delivered t x s = set_error t RT_EOK (resumed t (upd_thread t (\<lambda>r. r\<lparr>event_set := x\<rparr>) s))"

lemma delivered_facts:
  assumes inv: "sys_inv s" and l: "wait_id l" "lists s l = us @ t # ts"
  shows "rt_thread_resume t (upd_thread t (\<lambda>r. r\<lparr>event_set := x\<rparr>) s) =
      Some (RT_EOK, resumed t (upd_thread t (\<lambda>r. r\<lparr>event_set := x\<rparr>) s))"
    "sys_inv (delivered t x s)" "lists (delivered t x s) l = us @ ts"
    "wait_id k \<Longrightarrow> k \<noteq> l \<Longrightarrow> lists (delivered t x s) k = lists s k"
    "runnable (delivered t x s) = insert t (runnable s)" "u \<noteq> t \<Longrightarrow> thr (delivered t x s) u = thr s u"
    "thr_error (thr (delivered t x s) t) = RT_EOK" "event_set (thr (delivered t x s) t) = x"
    "ipc_frame s (delivered t x s)" "t \<notin> set ts" "t \<notin> set us"
proof -
  let ?s1 = "upd_thread t (\<lambda>r. r\<lparr>event_set := x\<rparr>) s"
  have i1: "sys_inv ?s1" by (rule sys_inv_fields [OF inv]) simp_all
  have "suspended s t" using waiter_suspended [OF sys_invD(1) [OF inv] l(1), of t] l(2) by simp
  then have su: "suspended ?s1 t" by (simp add: suspended_def)
  show "rt_thread_resume t ?s1 = Some (RT_EOK, resumed t ?s1)"
    by (rule resume_suspended [OF sys_invD(1) [OF i1] su])
  show "sys_inv (delivered t x s)"
    unfolding delivered_def by (rule sys_inv_set_error [OF tick_inv_resumed [OF i1 su]])
  have fam: "family_ok (lists s)" using ready_invD(1) [OF kernel_invD(2) [OF sys_invD(1) [OF inv]]] .
  then have d: "distinct (us @ t # ts)" "k \<noteq> l \<Longrightarrow> t \<notin> set (lists s k)" for k
    using l(2) unfolding family_ok_def by (metis, metis in_set_conv_decomp)
  then show "t \<notin> set ts" "t \<notin> set us" by simp_all
  show "lists (delivered t x s) l = us @ ts"
    using l lists_resumed [OF l(1), of t ?s1] removeAll_split [OF d(1)] by (simp add: delivered_def)
  show "wait_id k \<Longrightarrow> k \<noteq> l \<Longrightarrow> lists (delivered t x s) k = lists s k"
    using lists_resumed [of k t ?s1] d(2) [of k] by (simp add: delivered_def removeAll_notin)
  have "runnable ?s1 = runnable s" by (auto simp: runnable_def stat_of_def)
  then show "runnable (delivered t x s) = insert t (runnable s)"
    using runnable_resumed [OF sys_invD(1) [OF i1] su] by (simp add: delivered_def)
  show "u \<noteq> t \<Longrightarrow> thr (delivered t x s) u = thr s u"
    using thr_resumed_other [of u t ?s1] by (simp add: delivered_def)
  show "thr_error (thr (delivered t x s) t) = RT_EOK" by (simp add: delivered_def)
  show "event_set (thr (delivered t x s) t) = x"
    using quietD(5) [OF quiet_resumed [of ?s1 t], of t] by (simp add: delivered_def)
  show "ipc_frame s (delivered t x s)"
    unfolding delivered_def
    by (rule ipc_frame_trans [OF _ ipc_frame_trans [OF ipc_frame_resumed ipc_frame_upd(3)]]) simp
qed

lemma event_send_loop_ok:
  assumes "sys_inv s" "lists s (EventWait e) = us @ ts" "\<forall>t \<in> set ts. wants_ok s t" "v = ev_set (events s e)"
  shows "\<exists>s'. event_send_loop e ts clr need s =
       Some (Some (clr OR cleared v (map (thr s) ts), need \<or> (\<exists>t \<in> set ts. satisfied v (thr s t))), s') \<and>
     sys_inv s' \<and> lists s' (EventWait e) = us @ filter (\<lambda>t. \<not> satisfied v (thr s t)) ts \<and> ipc_frame s s' \<and>
     runnable s' = runnable s \<union> {t \<in> set ts. satisfied v (thr s t)} \<and>
     (\<forall>l. wait_id l \<longrightarrow> l \<noteq> EventWait e \<longrightarrow> lists s' l = lists s l) \<and>
     (\<forall>u. u \<notin> {t \<in> set ts. satisfied v (thr s t)} \<longrightarrow> thr s' u = thr s u) \<and>
     (\<forall>t \<in> set ts. satisfied v (thr s t) \<longrightarrow> thr_error (thr s' t) = RT_EOK \<and> event_set (thr s' t) = got v (thr s t))"
  using assms
proof (induction ts arbitrary: us s clr need)
  case Nil
  then show ?case by simp
next
  case (Cons t ts)
  show ?case
  proof (cases "satisfied v (thr s t)")
    case False
    have "lists s (EventWait e) = (us @ [t]) @ ts" using Cons.prems(2) by simp
    note ih = Cons.IH [OF Cons.prems(1) this _ Cons.prems(4)]
    have step: "event_send_loop e (t # ts) clr need s = event_send_loop e ts clr need s"
      using match_eq [of s t e] Cons.prems(3,4) False by simp
    have st: "{u \<in> set (t # ts). satisfied v (thr s u)} = {u \<in> set ts. satisfied v (thr s u)}"
      "(\<exists>u \<in> set (t # ts). satisfied v (thr s u)) = (\<exists>u \<in> set ts. satisfied v (thr s u))"
      "cleared v (map (thr s) (t # ts)) = cleared v (map (thr s) ts)"
      using False by auto
    show ?thesis
      unfolding step st using ih [of clr need] Cons.prems(3) False by simp
  next
    case True
    let ?x = "got v (thr s t)"
    let ?s3 = "delivered t ?x s"
    have we: "wait_id (EventWait e)" by simp
    note d = delivered_facts(1-9) [where x = ?x, OF Cons.prems(1) we Cons.prems(2)]
      and fresh = delivered_facts(10) [OF Cons.prems(1) we Cons.prems(2)]
    have same: "map (thr ?s3) ts = map (thr s) ts" "u \<in> set ts \<Longrightarrow> thr ?s3 u = thr s u" for u
      using d(6) fresh by (metis map_cong, metis)
    have ev: "events ?s3 = events s" using ipc_frameD(3) [OF d(9)] .
    have upd: "upd_thread t (\<lambda>r. r\<lparr>event_set := got v r\<rparr>) s = upd_thread t (\<lambda>r. r\<lparr>event_set := ?x\<rparr>) s"
      by simp
    let ?clr = "if event_info (thr s t) AND RT_EVENT_FLAG_CLEAR \<noteq> 0 then clr OR ?x else clr"
    have step: "event_send_loop e (t # ts) clr need s = event_send_loop e ts ?clr True ?s3"
      using match_eq [of s t e] Cons.prems(3,4) True d(1)
      by (simp add: delivered_def Let_def)
    have "\<forall>u \<in> set ts. wants_ok ?s3 u"
      using Cons.prems(3) same(2) by (auto simp: wants_ok_def)
    moreover have "v = ev_set (events ?s3 e)" using ev Cons.prems(4) by simp
    ultimately obtain s' where s': "event_send_loop e ts ?clr True ?s3 = Some (Some (?clr OR cleared v (map (thr s) ts), True), s')"
      "sys_inv s'" "lists s' (EventWait e) = us @ filter (\<lambda>t. \<not> satisfied v (thr ?s3 t)) ts" "ipc_frame ?s3 s'"
      "runnable s' = runnable ?s3 \<union> {t \<in> set ts. satisfied v (thr ?s3 t)}"
      "\<And>l. wait_id l \<Longrightarrow> l \<noteq> EventWait e \<Longrightarrow> lists s' l = lists ?s3 l"
      "\<And>u. u \<notin> {t \<in> set ts. satisfied v (thr ?s3 t)} \<Longrightarrow> thr s' u = thr ?s3 u"
      "\<And>t. t \<in> set ts \<Longrightarrow> satisfied v (thr ?s3 t) \<Longrightarrow> thr_error (thr s' t) = RT_EOK \<and> event_set (thr s' t) = got v (thr ?s3 t)"
      using Cons.IH [OF d(2,3), of ?clr True, unfolded same(1)] by auto
    have flt: "filter (\<lambda>t. \<not> satisfied v (thr ?s3 t)) ts = filter (\<lambda>t. \<not> satisfied v (thr s t)) ts"
      using same(2) by (auto intro: filter_cong)
    have st: "{t \<in> set ts. satisfied v (thr ?s3 t)} = {t \<in> set ts. satisfied v (thr s t)}"
      using same(2) by auto
    have c: "?clr OR cleared v (map (thr s) ts) = clr OR cleared v (map (thr s) (t # ts))"
      using True by (simp add: or.assoc)
    have t': "thr s' t = thr ?s3 t" using s'(7) [of t] fresh by simp
    show ?thesis
    proof (intro exI conjI)
      show "event_send_loop e (t # ts) clr need s =
         Some (Some (clr OR cleared v (map (thr s) (t # ts)), need \<or> (\<exists>u \<in> set (t # ts). satisfied v (thr s u))), s')"
        using step s'(1) c True by auto
      show "lists s' (EventWait e) = us @ filter (\<lambda>t. \<not> satisfied v (thr s t)) (t # ts)"
        using s'(3) flt True by simp
      show "runnable s' = runnable s \<union> {u \<in> set (t # ts). satisfied v (thr s u)}"
        using s'(5) st d(5) True by auto
      show "\<forall>u. u \<notin> {u \<in> set (t # ts). satisfied v (thr s u)} \<longrightarrow> thr s' u = thr s u"
        using s'(7) st d(6) True by (metis (mono_tags, lifting) list.set_intros mem_Collect_eq)
      show "\<forall>u \<in> set (t # ts). satisfied v (thr s u) \<longrightarrow> thr_error (thr s' u) = RT_EOK \<and> event_set (thr s' u) = got v (thr s u)"
        using s'(8) same(2) t' d(7,8) by auto
    qed (use s' d(4,9) ipc_frame_trans in \<open>auto\<close>)
  qed
qed

section \<open>Properties\<close>

lemma event_frame:
  assumes "ipc_frame s s'" shows "event_flag e s' = event_flag e s" "events s' = events s"
  using ipc_frameD [OF assms] by (simp_all add: event_flag_def)

text \<open>
  C22. Sending events wakes exactly the threads whose condition now holds.  With \<open>v\<close>
  the set after adding the sent bits, every waiting thread whose AND or OR condition
  \<open>v\<close> satisfies becomes runnable with \<^verbatim>\<open>RT_EOK\<close> and the bits it receives, the others
  keep waiting in their order, and the event set that remains is \<open>v\<close> without the bits
  the woken threads asked to clear; no set bits is refused with \<^verbatim>\<open>-RT_ERROR\<close>.
\<close>

theorem event_send_wakes_satisfied:
  fixes bits :: "32 word"
  assumes inv: "sys_inv s" and ok: "event_ok e s"
  defines "v \<equiv> ev_set (events s e) OR bits"
  shows "if bits = 0 then rt_event_send e bits s = Some (- RT_ERROR, s)
     else \<exists>s'. rt_event_send e bits s = Some (RT_EOK, s') \<and> sys_inv s' \<and>
       lists s' (EventWait e) = filter (\<lambda>t. \<not> satisfied v (thr s t)) (lists s (EventWait e)) \<and>
       ev_set (events s' e) = v AND NOT (cleared v (map (thr s) (lists s (EventWait e)))) \<and>
       runnable s' = runnable s \<union> {t \<in> set (lists s (EventWait e)). satisfied v (thr s t)} \<and>
       (\<forall>t \<in> set (lists s (EventWait e)). satisfied v (thr s t) \<longrightarrow>
          rt_event_recv_resumed t s' = (RT_EOK, Some (got v (thr s t))))"
proof (cases "bits = 0")
  case True
  then show ?thesis using ok by (simp add: rt_event_send_def event_ok_def)
next
  case False
  let ?s1 = "put_event e v s" and ?q = "lists s (EventWait e)"
  let ?clr = "cleared v (map (thr s) ?q)" and ?need = "\<exists>t \<in> set ?q. satisfied v (thr s t)"
  obtain s2 where s2: "event_send_loop e ?q 0 False ?s1 = Some (Some (?clr, ?need), s2)"
     "sys_inv s2" "lists s2 (EventWait e) = filter (\<lambda>t. \<not> satisfied v (thr s t)) ?q" "ipc_frame ?s1 s2"
     "runnable s2 = runnable s \<union> {t \<in> set ?q. satisfied v (thr s t)}"
     "\<And>t. t \<in> set ?q \<Longrightarrow> satisfied v (thr s t) \<Longrightarrow> thr_error (thr s2 t) = RT_EOK \<and> event_set (thr s2 t) = got v (thr s t)"
    using event_send_loop_ok [of ?s1 e "[]" ?q v 0 False] inv ok by (auto simp: event_ok_def)
  have v2: "ev_set (events s2 e) = v" using event_frame(2) [OF s2(4)] by simp
  let ?s3 = "if ?clr \<noteq> 0 then put_event e (v AND NOT ?clr) s2 else s2"
  have s3: "sys_inv ?s3" "lists ?s3 = lists s2" "threads ?s3 = threads s2" "runnable ?s3 = runnable s2"
    "ev_set (events ?s3 e) = v AND NOT ?clr"
    using s2(2) v2 by simp_all
  obtain s4 where s4: "rt_schedule ?s3 = Some s4" "sys_inv s4" "sched_to ?s3 s4" using sys_schedule [OF s3(1)] .
  note st = sched_toD [OF s4(3)] and so = stat_only_fields [OF sched_toD(2) [OF s4(3)]]
  let ?s' = "if ?need then s4 else ?s3"
  have run: "rt_event_send e bits s = Some (RT_EOK, ?s')"
    using False ok s2(1) v2 s4(1)
    by (simp add: rt_event_send_def event_ok_def v_def [symmetric] Let_def split: if_split_asm)
  have l4: "lists s4 (EventWait e) = lists s2 (EventWait e)" using st(4) s3(2) by simp
  have e4: "ev_set (events s4 e) = v AND NOT ?clr" using event_frame(2) [OF st(1)] s3(5) by simp
  have r4: "runnable s4 = runnable s2" using st(3) s3(4) by simp
  have t4: "thr_error (thr s4 t) = thr_error (thr s2 t)" "event_set (thr s4 t) = event_set (thr s2 t)" for t
    using so s3(3) by simp_all
  have "sys_inv ?s'" "lists ?s' (EventWait e) = filter (\<lambda>t. \<not> satisfied v (thr s t)) ?q"
    "ev_set (events ?s' e) = v AND NOT ?clr"
    "runnable ?s' = runnable s \<union> {t \<in> set ?q. satisfied v (thr s t)}"
    using s4(2) s3 s2(3,5) l4 e4 r4 by (cases ?need; simp)+
  moreover have "rt_event_recv_resumed t ?s' = (RT_EOK, Some (got v (thr s t)))"
    if "t \<in> set ?q" "satisfied v (thr s t)" for t
    using s2(6) [OF that] t4 s3(3) by (cases ?need) (simp_all add: rt_event_recv_resumed_def)
  ultimately show ?thesis using False run by auto
qed

theorem event_send_wakes_satisfied_witness:
  "\<exists>s'. rt_event_send 3 5 small_system = Some (RT_EOK, s') \<and> sys_inv s' \<and> ev_set (events s' 3) = 5"
proof -
  have "event_ok 3 small_system"
    by (simp add: event_ok_def small_system_def kernel_reset_def rt_object_get_type_def event_flag_def valid_flag_def)
  from event_send_wakes_satisfied [OF sys_inv_small this, of 5] show ?thesis
    by (auto simp: small_system_def kernel_reset_def)
qed

text \<open>
  C23. Receiving events.  When the condition holds at once the call succeeds with the
  bits that are set and, on request, clears the bits it asked for; otherwise a call
  that may not wait answers \<^verbatim>\<open>-RT_ETIMEOUT\<close> with the event set untouched, an
  interrupted call \<^verbatim>\<open>-RT_EINTR\<close>, and every other call blocks with its wish recorded
  in the thread.
\<close>

theorem event_recv_cases:
  assumes inv: "sys_inv s" and ok: "event_ok e s" and t: "rt_current_thread s = Some t" "stat_of s t = RT_THREAD_RUNNING"
    and bits: "bits \<noteq> 0" and opt: "opt AND RT_EVENT_FLAG_AND \<noteq> 0 \<or> opt AND RT_EVENT_FLAG_OR \<noteq> 0"
    and n: "timeout < 0x7fffffff" and flag: "sflag \<in> suspend_flags" "lwp_thread_signal_suspend_check t sflag s = Some k"
  defines "v \<equiv> ev_set (events s e)"
  shows "\<exists>r x s'. rt_event_recv_flag e bits opt timeout sflag s = Some (r, x, s') \<and> sys_inv s' \<and>
     (if (if opt AND RT_EVENT_FLAG_AND \<noteq> 0 then v AND bits = bits else v AND bits \<noteq> 0)
      then r = Done RT_EOK \<and> x = Some (v AND bits) \<and>
           ev_set (events s' e) = (if opt AND RT_EVENT_FLAG_CLEAR \<noteq> 0 then v AND NOT bits else v)
      else x = None \<and> ev_set (events s' e) = v \<and>
           (if timeout = 0 then r = Done (- RT_ETIMEOUT)
            else if k = 0 then r = Done (- RT_EINTR)
            else r = Blocked \<and> suspended s' t \<and> event_set (thr s' t) = bits \<and> event_info (thr s' t) = opt \<and>
                 lists s' (EventWait e) = wait_order (event_flag e s) s t (lists s (EventWait e))))"
proof -
  let ?s0 = "set_error t (- RT_EINTR) s"
  let ?hit = "if opt AND RT_EVENT_FLAG_AND \<noteq> 0 then v AND bits = bits else v AND bits \<noteq> 0"
  have ty: "rt_object_get_type (OEvent e) s = RT_Object_Class_Event" using ok by (simp add: event_ok_def)
  have i0: "sys_inv ?s0" by (rule sys_inv_set_error [OF inv])
  have asr: "rt_assert (opt AND RT_EVENT_FLAG_AND \<noteq> 0 \<or> opt AND RT_EVENT_FLAG_OR \<noteq> 0) = Some ()" using opt by simp
  show ?thesis
  proof (cases ?hit)
    case True
    let ?s1 = "upd_thread t (\<lambda>r. r\<lparr>event_set := v AND bits, event_info := opt\<rparr>) (set_error t RT_EOK ?s0)"
    have i1: "sys_inv ?s1" by (rule sys_inv_fields [OF sys_inv_set_error [OF i0]]) simp_all
    let ?s2 = "if opt AND RT_EVENT_FLAG_CLEAR \<noteq> 0 then put_event e (v AND NOT bits) ?s1 else ?s1"
    have eq: "rt_event_recv_flag e bits opt timeout sflag s = Some (Done RT_EOK, Some (v AND bits), ?s2)"
      unfolding rt_event_recv_flag_def rt_thread_self_def asr
      using ty bits t(1) True by (simp add: v_def [symmetric] Let_def opt)
    have "sys_inv ?s2" "ev_set (events ?s2 e) = (if opt AND RT_EVENT_FLAG_CLEAR \<noteq> 0 then v AND NOT bits else v)"
      using i1 by (simp_all del: upd_thread_def) (simp add: v_def set_error_def)
    with eq True show ?thesis by auto
  next
    case miss: False
    show ?thesis
    proof (cases "timeout = 0")
      case True
      have "rt_event_recv_flag e bits opt timeout sflag s = Some (Done (- RT_ETIMEOUT), None, set_error t (- RT_ETIMEOUT) ?s0)"
        unfolding rt_event_recv_flag_def rt_thread_self_def
        using ty bits t(1) miss True opt by (simp add: v_def [symmetric] Let_def split: if_split_asm)
      with True miss sys_inv_set_error [OF i0] show ?thesis by (auto simp: v_def)
    next
      case to: False
      let ?s1 = "upd_thread t (\<lambda>r. r\<lparr>event_set := bits, event_info := opt\<rparr>) ?s0"
      have i1: "sys_inv ?s1" by (rule sys_inv_fields [OF i0]) simp_all
      have c1: "rt_current_thread ?s1 = Some t" "stat_of ?s1 t = RT_THREAD_RUNNING" "events ?s1 = events s"
        "event_flag e ?s1 = event_flag e s" "lists ?s1 = lists s" "ipc_frame s ?s1"
        using t ipc_frame_trans [OF ipc_frame_upd(3) [of s t "- RT_EINTR"] ipc_frame_upd(1)]
        by (simp_all add: stat_of_def event_flag_def set_error_def)
      have chk: "lwp_thread_signal_suspend_check t sflag ?s1 = Some k"
        using flag(2) by (simp add: lwp_thread_signal_suspend_check_def set_error_def Let_def cong: option.case_cong)
      have fl: "event_flag e s = RT_IPC_FLAG_FIFO \<or> event_flag e s = RT_IPC_FLAG_PRIO"
        using ok by (simp add: event_ok_def valid_flag_def)
      have sus: "ipc_list_suspend (EventWait e) t (event_flag e s) sflag ?s1 =
         (if k = 0 then Some (- RT_EINTR, ?s1)
          else Some (RT_EOK, enqueued (EventWait e) t (event_flag e s) (suspended_self t sflag ?s1)))"
        by (rule ipc_suspend_eq [OF i1 c1(1,2) fl flag(1) chk]) simp
      obtain s2 s3 where b: "(if 0 < timeout then arm_timer t (word_of_int timeout)
            (enqueued (EventWait e) t (event_flag e s) (suspended_self t sflag ?s1))
          else Some (enqueued (EventWait e) t (event_flag e s) (suspended_self t sflag ?s1))) = Some s2"
        "rt_schedule s2 = Some s3" "blocked_on (EventWait e) t (event_flag e s) timeout ?s1 s3"
        using ipc_block [OF i1 c1(1,2) _ n, of "EventWait e" "event_flag e s" sflag] by auto
      have eq: "rt_event_recv_flag e bits opt timeout sflag s =
          (if k = 0 then Some (Done (- RT_EINTR), None, ?s1) else Some (Blocked, None, s3))"
        unfolding rt_event_recv_flag_def rt_thread_self_def
        using ty bits t(1) miss to sus b(1,2) c1(4) opt
        by (cases "k = 0"; cases "0 < timeout"; cases "opt AND RT_EVENT_FLAG_AND = 0")
          (simp_all add: v_def [symmetric] Let_def del: upd_thread_def)
      note bd = blocked_onD [OF b(3)]
      have "events s3 = events s" using ipc_frameD(3) [OF bd(2)] c1(3) by simp
      moreover have "event_set (thr s3 t) = bits" "event_info (thr s3 t) = opt"
        using b(3) stat_only_fields [of ?s1 s3] by (simp_all add: blocked_on_def)
      moreover have "wait_order (event_flag e s) ?s1 t (lists s (EventWait e)) =
          wait_order (event_flag e s) s t (lists s (EventWait e))"
        by (simp add: wait_order_def set_error_def) (intro impI arg_cong [where f = "\<lambda>P. insert_where P t (lists s (EventWait e))"] ext, auto)
      ultimately show ?thesis
        using eq miss to i1 bd(1,3,4) c1(3,5) by (auto simp: v_def)
    qed
  qed
qed

theorem event_recv_cases_witness:
  "\<exists>s'. rt_event_recv_flag 3 5 1 (-1) RT_UNINTERRUPTIBLE small_system = Some (Blocked, None, s') \<and> suspended s' 2 \<and>
     lists s' (EventWait 3) = [2]"
proof -
  have ok: "event_ok 3 small_system"
    by (simp add: event_ok_def small_system_def kernel_reset_def rt_object_get_type_def event_flag_def valid_flag_def)
  have "lwp_thread_signal_suspend_check 2 RT_UNINTERRUPTIBLE small_system = Some 1"
    by (simp add: lwp_thread_signal_suspend_check_def)
  moreover have "ev_set (events small_system 3) = 0" "lists small_system (EventWait 3) = []" "event_flag 3 small_system = 0"
    by (simp_all add: small_system_def kernel_reset_def event_flag_def)
  ultimately show ?thesis
    using event_recv_cases [OF sys_inv_small ok small_running(2,1), of 5 1 "-1" RT_UNINTERRUPTIBLE 1]
    by (auto simp: suspend_flags_def wait_order_def)
qed

end
