(* ===== verification/Channel.thy ===== *)
theory Channel
  imports Sem
begin

text \<open>
  What mailboxes, message queues, memory pools and data queues share: the waiting part of their blocking calls
  (the suspension in a wait list with a timeout, the wake-up of the first waiting
  thread, the time that is left after a wake-up), circular arrays, and the interface
  of a bounded store of messages.
\<close>

section \<open>Waiting and waking\<close>

definition ipc_wait :: "list_id \<Rightarrow> tid \<Rightarrow> 8 word \<Rightarrow> int \<Rightarrow> int \<Rightarrow> kernel \<Rightarrow> (err outcome \<times> kernel) option" where
  "ipc_wait l t flag timeout suspend_flag s = do {
     (ret, s1) \<leftarrow> ipc_list_suspend l t flag suspend_flag s;
     if ret \<noteq> RT_EOK then Some (Done ret, s1)
     else do {
       s2 \<leftarrow> (if 0 < timeout then arm_timer t (word_of_int timeout) s1 else Some s1);
       s3 \<leftarrow> rt_schedule s2;
       Some (Blocked, s3)
     }
   }"

definition ipc_wake_one :: "list_id \<Rightarrow> kernel \<Rightarrow> kernel option" where
  "ipc_wake_one l s =
    (if \<not> tl_isempty l s then do { s1 \<leftarrow> ipc_list_resume l s; rt_schedule s1 } else Some s)"

definition time_left :: "int \<Rightarrow> 32 word \<Rightarrow> kernel \<Rightarrow> int" where
  "time_left timeout tick_delta s =
    (if 0 < timeout
     then let left = sint (word_of_int timeout - (rt_tick_get s - tick_delta)) in if left < 0 then 0 else left
     else timeout)"

lemma ipc_wait_ok:
  assumes inv: "sys_inv s" and t: "rt_current_thread s = Some t" "stat_of s t = RT_THREAD_RUNNING"
    and flag: "valid_flag flag" and n: "n < 0x7fffffff" and l: "wait_id l"
    and sflag: "sflag \<in> suspend_flags" "lwp_thread_signal_suspend_check t sflag s = Some k"
  shows "if k = 0 then ipc_wait l t flag n sflag s = Some (Done (- RT_EINTR), s)
     else \<exists>s'. ipc_wait l t flag n sflag s = Some (Blocked, s') \<and> blocked_on l t flag n s s'"
proof -
  have fl: "flag = RT_IPC_FLAG_FIFO \<or> flag = RT_IPC_FLAG_PRIO"
    using flag by (simp add: valid_flag_def)
  obtain s2 s3 where b: "(if 0 < n then arm_timer t (word_of_int n) (enqueued l t flag (suspended_self t sflag s))
      else Some (enqueued l t flag (suspended_self t sflag s))) = Some s2"
    "rt_schedule s2 = Some s3" "blocked_on l t flag n s s3"
    using ipc_block [OF inv t l n] .
  show ?thesis
    using ipc_suspend_eq [OF inv t fl sflag l] b by (auto simp: ipc_wait_def)
qed

text \<open>The waiting branch of a blocking call, from the state the call was made in.\<close>

lemma ipc_wait_call:
  assumes inv: "sys_inv s" and t: "rt_current_thread s = Some t" "stat_of s t = RT_THREAD_RUNNING"
    and flag: "valid_flag flag" and n: "n < 0x7fffffff" and l: "wait_id l"
    and sflag: "sflag \<in> suspend_flags" "lwp_thread_signal_suspend_check t sflag s = Some k"
  obtains r s' where "ipc_wait l t flag n sflag (set_error t (- RT_EINTR) s) = Some (r, s')" "sys_inv s'" "ipc_frame s s'"
    "\<And>m. wait_id m \<Longrightarrow> m \<noteq> l \<Longrightarrow> lists s' m = lists s m"
    "if k = 0 then r = Done (- RT_EINTR) \<and> lists s' l = lists s l
     else r = Blocked \<and> suspended s' t \<and> lists s' l = wait_order flag s t (lists s l)"
proof -
  let ?s0 = "set_error t (- RT_EINTR) s"
  have i0: "sys_inv ?s0" "rt_current_thread ?s0 = Some t" "stat_of ?s0 t = RT_THREAD_RUNNING"
    "lwp_thread_signal_suspend_check t sflag ?s0 = Some k" "ipc_frame s ?s0"
    using sys_inv_set_error [OF inv] t sflag(2) by simp_all
  note w = ipc_wait_ok [OF i0(1,2,3) flag n l sflag(1) i0(4)]
  show thesis
  proof (cases "k = 0")
    case True
    show thesis by (rule that [of "Done (- RT_EINTR)" ?s0]) (use w True i0 in simp_all)
  next
    case False
    then obtain s' where s': "ipc_wait l t flag n sflag ?s0 = Some (Blocked, s')" "blocked_on l t flag n ?s0 s'"
      using w by auto
    note b = blocked_onD [OF s'(2)]
    show thesis
      by (rule that [OF s'(1) b(1) ipc_frame_trans [OF i0(5) b(2)]]) (use b(3,4,8) False in simp_all)
  qed
qed

text \<open>\<open>woken_one\<close>: the first thread of list \<open>l\<close>, if any, is woken with \<^verbatim>\<open>RT_EOK\<close>.\<close>

definition woken_one :: "list_id \<Rightarrow> kernel \<Rightarrow> kernel \<Rightarrow> bool" where
  "woken_one l s s' \<longleftrightarrow> (case lists s l of [] \<Rightarrow> s' = s | t # _ \<Rightarrow> woken l t RT_EOK s s')"

lemma ipc_wake_one_ok:
  assumes inv: "sys_inv s" and l: "wait_id l"
  obtains s' where "ipc_wake_one l s = Some s'" "woken_one l s s'"
proof (cases "lists s l")
  case Nil
  then show thesis using that [of s] by (simp add: ipc_wake_one_def tl_isempty_def woken_one_def)
next
  case (Cons t ts)
  obtain s1 where s1: "rt_thread_resume t (set_error t RT_EOK s) = Some (RT_EOK, s1)" "woken l t RT_EOK s s1"
    using resume_front [OF inv l Cons] by auto
  obtain s2 where s2: "rt_schedule s1 = Some s2" "sys_inv s2" "sched_to s1 s2"
    using sys_schedule [OF wokenD(1) [OF s1(2)]] .
  have "ipc_wake_one l s = Some s2"
    using Cons s1(1) s2(1) by (simp add: ipc_wake_one_def tl_isempty_def ipc_list_resume_def tl_first_def)
  then show thesis
    using that woken_sched [OF s1(2) s2(3,2)] Cons by (simp add: woken_one_def)
qed

lemma woken_oneD:
  assumes "woken_one l s s'" "sys_inv s" "wait_id l"
  shows "sys_inv s'" "ipc_frame s s'" "lists s' l = tl (lists s l)" "wait_id k \<Longrightarrow> k \<noteq> l \<Longrightarrow> lists s' k = lists s k"
    "runnable s' = runnable s \<union> set (take 1 (lists s l))"
    "t \<in> set (take 1 (lists s l)) \<Longrightarrow> thr_error (thr s' t) = RT_EOK"
  using assms wokenD [of l _ RT_EOK s s'] by (cases "lists s l"; auto simp: woken_one_def)+

text \<open>
  Memory pools and the driver-level IPC wait in a simpler way: the caller clears its error code, is
  suspended and linked into the list of the object.  A wake-up resumes the first thread of the list
  and leaves its error code alone.
\<close>

definition plain_wait :: "(tid \<Rightarrow> kernel \<Rightarrow> kernel) \<Rightarrow> int \<Rightarrow> kernel \<Rightarrow> kernel option" where
  "plain_wait link timeout s = do {
     t \<leftarrow> rt_thread_self s;
     (_, s1) \<leftarrow> rt_thread_suspend_with_flag t RT_UNINTERRUPTIBLE (set_error t RT_EOK s);
     let s2 = link t s1;
     s3 \<leftarrow> (if 0 < timeout then arm_timer t (word_of_int timeout) s2 else Some s2);
     rt_schedule s3
   }"

definition plain_wake :: "list_id \<Rightarrow> kernel \<Rightarrow> kernel option" where
  "plain_wake l s =
    (case tl_first l s of
       None \<Rightarrow> Some s
     | Some t \<Rightarrow> do { (_, s1) \<leftarrow> rt_thread_resume t s; rt_schedule s1 })"

lemma plain_wait_ok:
  assumes inv: "sys_inv s" and t: "rt_current_thread s = Some t" "stat_of s t = RT_THREAD_RUNNING" and time: "time < 0x7fffffff"
    and link: "\<And>s. link t s = enqueued l t flag s" "wait_id l"
  shows "\<exists>s'. plain_wait link time s = Some s' \<and> blocked_on l t flag time (set_error t RT_EOK s) s'"
proof -
  let ?s0 = "set_error t RT_EOK s"
  have i0: "sys_inv ?s0" "rt_current_thread ?s0 = Some t" "stat_of ?s0 t = RT_THREAD_RUNNING"
    using sys_inv_set_error [OF inv] t by simp_all
  have "rt_thread_suspend_with_flag t RT_UNINTERRUPTIBLE ?s0 = Some (RT_EOK, suspended_self t RT_UNINTERRUPTIBLE ?s0)"
    by (rule suspend_self [OF sys_invD(1) [OF i0(1)] i0(2,3), of _ 1]) (simp_all add: suspend_flags_def lwp_thread_signal_suspend_check_def)
  moreover obtain s2 s3 where "(if 0 < time then arm_timer t (word_of_int time) (enqueued l t flag (suspended_self t RT_UNINTERRUPTIBLE ?s0))
      else Some (enqueued l t flag (suspended_self t RT_UNINTERRUPTIBLE ?s0))) = Some s2"
    "rt_schedule s2 = Some s3" "blocked_on l t flag time ?s0 s3"
    using ipc_block [OF i0 link(2) time, where flag = flag and sflag = RT_UNINTERRUPTIBLE] by auto
  ultimately show ?thesis
    using t(1) by (cases "0 < time") (simp_all add: plain_wait_def link(1) rt_thread_self_def Let_def)
qed

lemma push_front_enqueued: "tl_push_front l t s = enqueued l t WAIT_FRONT s"
  by (simp add: tl_push_front_def enqueued_def wait_order_def)

lemma push_back_enqueued: "tl_push_back l t s = enqueued l t RT_IPC_FLAG_FIFO s"
  by (simp add: tl_push_back_def enqueued_def wait_order_def)

text \<open>\<open>woken_first\<close>: the first thread of list \<open>l\<close>, if any, is woken with the error code it has.\<close>

definition woken_first :: "list_id \<Rightarrow> kernel \<Rightarrow> kernel \<Rightarrow> bool" where
  "woken_first l s s' \<longleftrightarrow> (case lists s l of [] \<Rightarrow> s' = s | t # _ \<Rightarrow> woken l t (thr_error (thr s t)) s s')"

lemma set_error_same: "set_error t (thr_error (thr s t)) s = s"
  by (simp add: set_error_def fun_upd_idem)

lemma plain_wake_ok:
  assumes inv: "sys_inv s" and l: "wait_id l"
  obtains s' where "plain_wake l s = Some s'" "woken_first l s s'"
proof (cases "lists s l")
  case Nil
  then show thesis using that [of s] by (simp add: plain_wake_def tl_first_def woken_first_def)
next
  case (Cons t ts)
  obtain s1 where s1: "rt_thread_resume t s = Some (RT_EOK, s1)" "woken l t (thr_error (thr s t)) s s1"
    using resume_front [OF inv l Cons, of "thr_error (thr s t)"] by (auto simp: set_error_same)
  obtain s2 where s2: "rt_schedule s1 = Some s2" "sys_inv s2" "sched_to s1 s2"
    using sys_schedule [OF wokenD(1) [OF s1(2)]] .
  have "plain_wake l s = Some s2" using Cons s1(1) s2(1) by (simp add: plain_wake_def tl_first_def)
  then show thesis using that woken_sched [OF s1(2) s2(3,2)] Cons by (simp add: woken_first_def)
qed

lemma woken_firstD:
  assumes "woken_first l s s'" "sys_inv s" "wait_id l"
  shows "sys_inv s'" "ipc_frame s s'" "lists s' l = tl (lists s l)" "wait_id k \<Longrightarrow> k \<noteq> l \<Longrightarrow> lists s' k = lists s k"
    "runnable s' = runnable s \<union> set (take 1 (lists s l))" "thr_error (thr s' t) = thr_error (thr s t)"
proof -
  have c: "lists s l = [] \<and> s' = s \<or> (\<exists>u us. lists s l = u # us \<and> woken l u (thr_error (thr s u)) s s')"
    using assms(1) by (auto simp: woken_first_def split: list.splits)
  note w = wokenD [of l _ "thr_error (thr s _)" s s']
  show "sys_inv s'" "ipc_frame s s'" "lists s' l = tl (lists s l)" "wait_id k \<Longrightarrow> k \<noteq> l \<Longrightarrow> lists s' k = lists s k"
    "runnable s' = runnable s \<union> set (take 1 (lists s l))"
    using c assms(2,3) w(1-5) by auto
  show "thr_error (thr s' t) = thr_error (thr s t)"
    using c wokenD(6,7) [of l _ _ s s'] by metis
qed

section \<open>Circular arrays\<close>

lemma unat_16: "unat (x :: 16 word) < 65536"
proof -
  have "unat x < 2 ^ LENGTH(16)" by (rule unsigned_less)
  then show ?thesis by simp
qed

definition ring_list :: "'a list \<Rightarrow> nat \<Rightarrow> nat \<Rightarrow> 'a list" where
  "ring_list pool out n = map (\<lambda>i. pool ! ((out + i) mod length pool)) [0..<n]"

lemma ring_list_0 [simp]: "ring_list pool out 0 = []"
  by (simp add: ring_list_def)

lemma length_ring_list [simp]: "length (ring_list pool out n) = n"
  by (simp add: ring_list_def)

lemma ring_index_inj:
  assumes "i < L" "j < L" "(a + i) mod L = (a + j) mod (L :: nat)"
  shows "i = j"
  using assms
proof (induction i j rule: linorder_wlog)
  case (le i j)
  then have "L dvd j - i" by (metis add_le_cancel_left diff_cancel2 mod_eq_dvd_iff_nat add.commute)
  with le show ?case by (auto dest: dvd_imp_le)
qed (metis)

lemma ring_list_push:
  assumes "n < length pool"
  shows "ring_list (pool[(out + n) mod length pool := x]) out (Suc n) = ring_list pool out n @ [x]"
proof -
  let ?L = "length pool"
  have "(out + i) mod ?L \<noteq> (out + n) mod ?L" if "i < n" for i
    using ring_index_inj [of i ?L n out] that assms by auto
  moreover have "(out + n) mod ?L < ?L" using assms by (cases pool) auto
  ultimately show ?thesis
    unfolding ring_list_def upt_Suc by (simp add: nth_list_update) (metis atLeastLessThan_iff)
qed

lemma ring_list_pop:
  assumes "0 < n" "out < length pool"
  shows "ring_list pool out n = pool ! out # ring_list pool (Suc out mod length pool) (n - 1)"
proof -
  obtain m where m: "n = Suc m" using assms(1) by (cases n) auto
  have "[0..<Suc m] = 0 # map Suc [0..<m]" by (simp add: map_Suc_upt upt_conv_Cons del: upt_Suc)
  then show ?thesis
    using assms(2) by (simp add: ring_list_def m mod_simps del: upt_Suc)
qed

lemma ring_list_unpop:
  assumes "n < length pool" "p < length pool" "out = Suc p mod length pool"
  shows "ring_list (pool[p := x]) p (Suc n) = x # ring_list pool out n"
proof -
  let ?L = "length pool"
  have "(p + Suc i) mod ?L \<noteq> p" if "i < n" for i
    using ring_index_inj [of "Suc i" ?L 0 p] that assms(1,2) by (cases pool) auto
  then have "ring_list (pool[p := x]) (Suc p mod ?L) n = ring_list pool out n"
    unfolding ring_list_def assms(3) by (auto simp: mod_simps nth_list_update_neq [OF not_sym])
  then show ?thesis
    using ring_list_pop [of "Suc n" p "pool[p := x]"] assms(2) by simp
qed

section \<open>The interface of a bounded store\<close>

text \<open>
  A bounded store keeps a list of messages: \<open>put\<close> adds one where the order \<open>ins\<close> of
  the store says, \<open>get\<close> takes the first and, in a store with \<open>front\<close>, \<open>urgent\<close> adds
  one at the front.  A full store refuses, an empty one has nothing to give.
\<close>

datatype 'a store_op = Put 'a | Urgent 'a | Get

fun list_store :: "('a \<Rightarrow> 'a list \<Rightarrow> 'a list) \<Rightarrow> nat \<Rightarrow> 'a store_op list \<Rightarrow> 'a list \<Rightarrow> 'a list \<times> 'a list" where
  "list_store ins cap [] xs = ([], xs)"
| "list_store ins cap (Put x # ops) xs = list_store ins cap ops (if length xs < cap then ins x xs else xs)"
| "list_store ins cap (Urgent x # ops) xs = list_store ins cap ops (if length xs < cap then x # xs else xs)"
| "list_store ins cap (Get # ops) xs =
    (case xs of [] \<Rightarrow> list_store ins cap ops []
     | y # ys \<Rightarrow> (let (out, zs) = list_store ins cap ops ys in (y # out, zs)))"

fun run_store ::
    "('a \<Rightarrow> 'b \<Rightarrow> 'b option) \<Rightarrow> ('a \<Rightarrow> 'b \<Rightarrow> 'b option) \<Rightarrow> ('b \<Rightarrow> ('a \<times> 'b) option) \<Rightarrow> ('b \<Rightarrow> bool) \<Rightarrow> ('b \<Rightarrow> bool) \<Rightarrow>
     'a store_op list \<Rightarrow> 'b \<Rightarrow> ('a list \<times> 'b) option" where
  "run_store put urgent get full vacant [] b = Some ([], b)"
| "run_store put urgent get full vacant (Put x # ops) b = do {
     b' \<leftarrow> (if full b then Some b else put x b);
     run_store put urgent get full vacant ops b'
   }"
| "run_store put urgent get full vacant (Urgent x # ops) b = do {
     b' \<leftarrow> (if full b then Some b else urgent x b);
     run_store put urgent get full vacant ops b'
   }"
| "run_store put urgent get full vacant (Get # ops) b =
    (if vacant b then run_store put urgent get full vacant ops b
     else do {
       (y, b') \<leftarrow> get b;
       (out, b'') \<leftarrow> run_store put urgent get full vacant ops b';
       Some (y # out, b'')
     })"

locale bounded_store =
  fixes ok :: "'b \<Rightarrow> bool" and contents :: "'b \<Rightarrow> 'a list" and cap :: "'b \<Rightarrow> nat"
    and ins :: "'a \<Rightarrow> 'a list \<Rightarrow> 'a list" and storable :: "'a \<Rightarrow> 'b \<Rightarrow> bool"
    and put urgent :: "'a \<Rightarrow> 'b \<Rightarrow> 'b option" and get :: "'b \<Rightarrow> ('a \<times> 'b) option"
    and full vacant :: "'b \<Rightarrow> bool" and front :: bool
  assumes full_law: "ok b \<Longrightarrow> full b \<longleftrightarrow> length (contents b) = cap b"
    and bound_law: "ok b \<Longrightarrow> length (contents b) \<le> cap b"
    and vacant_law: "ok b \<Longrightarrow> vacant b \<longleftrightarrow> contents b = []"
    and put_law: "ok b \<Longrightarrow> storable x b \<Longrightarrow> length (contents b) < cap b \<Longrightarrow>
      \<exists>b'. put x b = Some b' \<and> ok b' \<and> contents b' = ins x (contents b) \<and> cap b' = cap b \<and> (\<forall>y. storable y b' = storable y b)"
    and urgent_law: "front \<Longrightarrow> ok b \<Longrightarrow> storable x b \<Longrightarrow> length (contents b) < cap b \<Longrightarrow>
      \<exists>b'. urgent x b = Some b' \<and> ok b' \<and> contents b' = x # contents b \<and> cap b' = cap b \<and> (\<forall>y. storable y b' = storable y b)"
    and get_law: "ok b \<Longrightarrow> contents b = y # ys \<Longrightarrow>
      \<exists>b'. get b = Some (y, b') \<and> ok b' \<and> contents b' = ys \<and> cap b' = cap b \<and> (\<forall>z. storable z b' = storable z b)"
begin

lemma run_refines:
  assumes "ok b" "\<forall>x. Put x \<in> set ops \<or> Urgent x \<in> set ops \<longrightarrow> storable x b"
    and "(\<exists>x. Urgent x \<in> set ops) \<longrightarrow> front"
  shows "\<exists>out b'. run_store put urgent get full vacant ops b = Some (out, b') \<and> ok b' \<and> cap b' = cap b \<and>
     (out, contents b') = list_store ins (cap b) ops (contents b)"
  using assms
proof (induction ops arbitrary: b)
  case (Cons op ops)
  have room: "full b \<longleftrightarrow> \<not> length (contents b) < cap b"
    using full_law [OF Cons.prems(1)] bound_law [OF Cons.prems(1)] by auto
  show ?case
  proof (cases op)
    case (Put x)
    have "storable x b" using Cons.prems(2) Put by simp
    then obtain b' where b': "(if full b then Some b else put x b) = Some b'" "ok b'" "cap b' = cap b"
      "contents b' = (if length (contents b) < cap b then ins x (contents b) else contents b)"
      "\<And>y. storable y b' = storable y b"
      using put_law [OF Cons.prems(1)] room Cons.prems(1) by (cases "full b") auto
    then show ?thesis using Cons.IH [OF b'(2)] Cons.prems(2,3) Put by auto
  next
    case (Urgent x)
    have "storable x b" front using Cons.prems(2,3) Urgent by auto
    then obtain b' where b': "(if full b then Some b else urgent x b) = Some b'" "ok b'" "cap b' = cap b"
      "contents b' = (if length (contents b) < cap b then x # contents b else contents b)"
      "\<And>y. storable y b' = storable y b"
      using urgent_law [OF _ Cons.prems(1)] room Cons.prems(1) by (cases "full b") auto
    then show ?thesis using Cons.IH [OF b'(2)] Cons.prems(2,3) Urgent by auto
  next
    case Get
    show ?thesis
    proof (cases "contents b")
      case Nil
      then show ?thesis using Get Cons.IH [of b] Cons.prems vacant_law by fastforce
    next
      case (Cons y ys)
      obtain b' where b': "get b = Some (y, b')" "ok b'" "contents b' = ys" "cap b' = cap b" "\<And>z. storable z b' = storable z b"
        using get_law [OF Cons.prems(1) Cons] by blast
      have "\<forall>x. Put x \<in> set ops \<or> Urgent x \<in> set ops \<longrightarrow> storable x b'"
        using Cons.prems(2) b'(5) by simp
      then obtain out b'' where "run_store put urgent get full vacant ops b' = Some (out, b'')" "ok b''" "cap b'' = cap b"
        "(out, contents b'') = list_store ins (cap b) ops ys"
        using Cons.IH [OF b'(2)] Cons.prems(3) b'(3,4) by auto
      then show ?thesis
        using Get Cons b'(1) vacant_law [OF Cons.prems(1)] by (auto simp: Let_def split: prod.split)
    qed
  qed
qed auto

end

end
