(* ===== verification/Mailbox.thy ===== *)
theory Mailbox
  imports Channel
begin

text \<open>
  Mailboxes, \<^verbatim>\<open>src/ipc.c\<close>.  The array \<^verbatim>\<open>msg_pool\<close> is a list; an access outside it
  ends the model (\<open>None\<close>), so a proof that a call returns also shows that its
  accesses are in range.  The blocking calls are split at \<^verbatim>\<open>rt_schedule\<close>: the
  \<open>_resumed\<close> definitions run when the thread gets the processor back, with the
  \<^verbatim>\<open>timeout\<close> and \<^verbatim>\<open>tick_delta\<close> that the call kept on its stack.  The result of a
  receive carries what the call stores through \<^verbatim>\<open>value\<close>.
\<close>

section \<open>The circular buffer\<close>

abbreviation (input) RT_MB_ENTRY_MAX :: "16 word" where "RT_MB_ENTRY_MAX \<equiv> 0xffff"

definition mb_store :: "16 word \<Rightarrow> 64 word \<Rightarrow> rt_mailbox \<Rightarrow> rt_mailbox option" where
  "mb_store i v b = (if unat i < length (mb_pool b) then Some (b\<lparr>mb_pool := (mb_pool b)[unat i := v]\<rparr>) else None)"

definition mb_load :: "16 word \<Rightarrow> rt_mailbox \<Rightarrow> 64 word option" where
  "mb_load i b = (if unat i < length (mb_pool b) then Some (mb_pool b ! unat i) else None)"

definition mb_put :: "64 word \<Rightarrow> rt_mailbox \<Rightarrow> rt_mailbox option" where
  "mb_put v b = do {
     b1 \<leftarrow> mb_store (in_offset b) v b;
     let i = in_offset b1 + 1;
     Some (b1\<lparr>in_offset := (if mb_size b1 \<le> i then 0 else i)\<rparr>)
   }"

definition mb_get :: "rt_mailbox \<Rightarrow> (64 word \<times> rt_mailbox) option" where
  "mb_get b = do {
     v \<leftarrow> mb_load (out_offset b) b;
     let i = out_offset b + 1;
     let b1 = b\<lparr>out_offset := (if mb_size b \<le> i then 0 else i)\<rparr>;
     Some (v, if 0 < mb_entry b1 then b1\<lparr>mb_entry := mb_entry b1 - 1\<rparr> else b1)
   }"

definition mb_put_front :: "64 word \<Rightarrow> rt_mailbox \<Rightarrow> rt_mailbox option" where
  "mb_put_front v b = do {
     let i = (if 0 < out_offset b then out_offset b - 1 else mb_size b - 1);
     b1 \<leftarrow> mb_store i v (b\<lparr>out_offset := i\<rparr>);
     Some (b1\<lparr>mb_entry := mb_entry b1 + 1\<rparr>)
   }"

section \<open>Operations\<close>

definition put_mb :: "nat \<Rightarrow> rt_mailbox \<Rightarrow> kernel \<Rightarrow> kernel" where
  "put_mb mb b s = s\<lparr>mailboxes := (mailboxes s)(mb := b)\<rparr>"

definition mb_flag :: "nat \<Rightarrow> kernel \<Rightarrow> 8 word" where
  "mb_flag mb s = obj_flag (objs s (OMailbox mb))"

definition rt_mb_init :: "nat \<Rightarrow> string \<Rightarrow> 64 word list \<Rightarrow> 64 word \<Rightarrow> 8 word \<Rightarrow> kernel \<Rightarrow> (err \<times> kernel) option" where
  "rt_mb_init mb name msgpool sz flag s = do {
     rt_assert (valid_flag flag);
     s1 \<leftarrow> rt_object_init (OMailbox mb) RT_Object_Class_MailBox name s;
     let s2 = ipc_object_init (MbRecv mb) (upd_obj (OMailbox mb) (\<lambda>r. r\<lparr>obj_flag := flag\<rparr>) s1);
     let s3 = put_mb mb \<lparr>mb_pool = msgpool, mb_size = ucast sz, mb_entry = 0, in_offset = 0, out_offset = 0\<rparr> s2;
     Some (RT_EOK, ipc_object_init (MbSend mb) s3)
   }"

definition rt_mb_detach :: "nat \<Rightarrow> kernel \<Rightarrow> (err \<times> kernel) option" where
  "rt_mb_detach mb s = do {
     rt_assert (rt_object_get_type (OMailbox mb) s = RT_Object_Class_MailBox);
     rt_assert (rt_object_is_systemobject (OMailbox mb) s);
     s1 \<leftarrow> ipc_list_resume_all (MbRecv mb) s;
     s2 \<leftarrow> ipc_list_resume_all (MbSend mb) s1;
     Some (RT_EOK, rt_object_detach (OMailbox mb) s2)
   }"

text \<open>\<open>mem\<close> and \<open>pool\<close> are what the object allocation and \<^verbatim>\<open>RT_KERNEL_MALLOC\<close> give.\<close>

definition rt_mb_create ::
    "nat option \<Rightarrow> 64 word list option \<Rightarrow> string \<Rightarrow> 64 word \<Rightarrow> 8 word \<Rightarrow> kernel \<Rightarrow> (nat option \<times> kernel) option" where
  "rt_mb_create mem pool name sz flag s = do {
     rt_assert (valid_flag flag);
     (a, s1) \<leftarrow> rt_object_allocate (map_option OMailbox mem) RT_Object_Class_MailBox name s;
     case mem of
       None \<Rightarrow> Some (None, s1)
     | Some mb \<Rightarrow> do {
         let s2 = ipc_object_init (MbRecv mb) (upd_obj (OMailbox mb) (\<lambda>r. r\<lparr>obj_flag := flag\<rparr>) s1);
         case pool of
           None \<Rightarrow> do {
             s3 \<leftarrow> rt_object_delete (OMailbox mb) (put_mb mb ((mailboxes s2 mb)\<lparr>mb_pool := [], mb_size := ucast sz\<rparr>) s2);
             Some (None, s3)
           }
         | Some msgpool \<Rightarrow> do {
             let s3 = put_mb mb \<lparr>mb_pool = msgpool, mb_size = ucast sz, mb_entry = 0, in_offset = 0, out_offset = 0\<rparr> s2;
             Some (Some mb, ipc_object_init (MbSend mb) s3)
           }
       }
   }"

definition rt_mb_delete :: "nat \<Rightarrow> kernel \<Rightarrow> (err \<times> kernel) option" where
  "rt_mb_delete mb s = do {
     rt_assert (rt_object_get_type (OMailbox mb) s = RT_Object_Class_MailBox);
     rt_assert (\<not> rt_object_is_systemobject (OMailbox mb) s);
     s1 \<leftarrow> ipc_list_resume_all (MbRecv mb) s;
     s2 \<leftarrow> ipc_list_resume_all (MbSend mb) s1;
     s3 \<leftarrow> rt_object_delete (OMailbox mb) s2;
     Some (RT_EOK, s3)
   }"

definition mb_send_loop :: "nat \<Rightarrow> 64 word \<Rightarrow> int \<Rightarrow> int \<Rightarrow> kernel \<Rightarrow> (err outcome \<times> kernel) option" where
  "mb_send_loop mb value timeout suspend_flag s =
    (if mb_entry (mailboxes s mb) = mb_size (mailboxes s mb)
     then do {
       t \<leftarrow> rt_thread_self s;
       let s0 = set_error t (- RT_EINTR) s;
       if timeout = 0 then Some (Done (- RT_EFULL), s0)
       else ipc_wait (MbSend mb) t (mb_flag mb s0) timeout suspend_flag s0
     }
     else do {
       b \<leftarrow> mb_put value (mailboxes s mb);
       if mb_entry b < RT_MB_ENTRY_MAX
       then do {
         s' \<leftarrow> ipc_wake_one (MbRecv mb) (put_mb mb (b\<lparr>mb_entry := mb_entry b + 1\<rparr>) s);
         Some (Done RT_EOK, s')
       }
       else Some (Done (- RT_EFULL), put_mb mb b s)
     })"

definition rt_mb_send_wait_flag :: "nat \<Rightarrow> 64 word \<Rightarrow> int \<Rightarrow> int \<Rightarrow> kernel \<Rightarrow> (err outcome \<times> kernel) option" where
  "rt_mb_send_wait_flag mb value timeout suspend_flag s = do {
     rt_assert (rt_object_get_type (OMailbox mb) s = RT_Object_Class_MailBox);
     if mb_entry (mailboxes s mb) = mb_size (mailboxes s mb) \<and> timeout = 0 then Some (Done (- RT_EFULL), s)
     else mb_send_loop mb value timeout suspend_flag s
   }"

definition rt_mb_send_resumed ::
    "nat \<Rightarrow> 64 word \<Rightarrow> int \<Rightarrow> 32 word \<Rightarrow> int \<Rightarrow> kernel \<Rightarrow> (err outcome \<times> kernel) option" where
  "rt_mb_send_resumed mb value timeout tick_delta suspend_flag s = do {
     t \<leftarrow> rt_thread_self s;
     if thr_error (thr s t) \<noteq> RT_EOK then Some (Done (thr_error (thr s t)), s)
     else mb_send_loop mb value (time_left timeout tick_delta s) suspend_flag s
   }"

definition rt_mb_send_wait :: "nat \<Rightarrow> 64 word \<Rightarrow> int \<Rightarrow> kernel \<Rightarrow> (err outcome \<times> kernel) option" where
  "rt_mb_send_wait mb value timeout s = rt_mb_send_wait_flag mb value timeout RT_UNINTERRUPTIBLE s"

definition rt_mb_send_wait_interruptible :: "nat \<Rightarrow> 64 word \<Rightarrow> int \<Rightarrow> kernel \<Rightarrow> (err outcome \<times> kernel) option" where
  "rt_mb_send_wait_interruptible mb value timeout s = rt_mb_send_wait_flag mb value timeout RT_INTERRUPTIBLE s"

definition rt_mb_send_wait_killable :: "nat \<Rightarrow> 64 word \<Rightarrow> int \<Rightarrow> kernel \<Rightarrow> (err outcome \<times> kernel) option" where
  "rt_mb_send_wait_killable mb value timeout s = rt_mb_send_wait_flag mb value timeout RT_KILLABLE s"

definition rt_mb_send :: "nat \<Rightarrow> 64 word \<Rightarrow> kernel \<Rightarrow> (err outcome \<times> kernel) option" where
  "rt_mb_send mb value s = rt_mb_send_wait mb value 0 s"

definition rt_mb_send_interruptible :: "nat \<Rightarrow> 64 word \<Rightarrow> kernel \<Rightarrow> (err outcome \<times> kernel) option" where
  "rt_mb_send_interruptible mb value s = rt_mb_send_wait_interruptible mb value 0 s"

definition rt_mb_send_killable :: "nat \<Rightarrow> 64 word \<Rightarrow> kernel \<Rightarrow> (err outcome \<times> kernel) option" where
  "rt_mb_send_killable mb value s = rt_mb_send_wait_killable mb value 0 s"

definition rt_mb_urgent :: "nat \<Rightarrow> 64 word \<Rightarrow> kernel \<Rightarrow> (err \<times> kernel) option" where
  "rt_mb_urgent mb value s = do {
     rt_assert (rt_object_get_type (OMailbox mb) s = RT_Object_Class_MailBox);
     if mb_entry (mailboxes s mb) = mb_size (mailboxes s mb) then Some (- RT_EFULL, s)
     else do {
       b \<leftarrow> mb_put_front value (mailboxes s mb);
       s' \<leftarrow> ipc_wake_one (MbRecv mb) (put_mb mb b s);
       Some (RT_EOK, s')
     }
   }"

definition mb_recv_loop :: "nat \<Rightarrow> int \<Rightarrow> int \<Rightarrow> kernel \<Rightarrow> (err outcome \<times> 64 word option \<times> kernel) option" where
  "mb_recv_loop mb timeout suspend_flag s =
    (if mb_entry (mailboxes s mb) = 0
     then do {
       t \<leftarrow> rt_thread_self s;
       let s0 = set_error t (- RT_EINTR) s;
       if timeout = 0 then Some (Done (- RT_ETIMEOUT), None, set_error t (- RT_ETIMEOUT) s0)
       else do {
         (r, s1) \<leftarrow> ipc_wait (MbRecv mb) t (mb_flag mb s0) timeout suspend_flag s0;
         Some (r, None, s1)
       }
     }
     else do {
       (v, b) \<leftarrow> mb_get (mailboxes s mb);
       s' \<leftarrow> ipc_wake_one (MbSend mb) (put_mb mb b s);
       Some (Done RT_EOK, Some v, s')
     })"

definition rt_mb_recv_flag :: "nat \<Rightarrow> int \<Rightarrow> int \<Rightarrow> kernel \<Rightarrow> (err outcome \<times> 64 word option \<times> kernel) option" where
  "rt_mb_recv_flag mb timeout suspend_flag s = do {
     rt_assert (rt_object_get_type (OMailbox mb) s = RT_Object_Class_MailBox);
     if mb_entry (mailboxes s mb) = 0 \<and> timeout = 0 then Some (Done (- RT_ETIMEOUT), None, s)
     else mb_recv_loop mb timeout suspend_flag s
   }"

definition rt_mb_recv_resumed ::
    "nat \<Rightarrow> int \<Rightarrow> 32 word \<Rightarrow> int \<Rightarrow> kernel \<Rightarrow> (err outcome \<times> 64 word option \<times> kernel) option" where
  "rt_mb_recv_resumed mb timeout tick_delta suspend_flag s = do {
     t \<leftarrow> rt_thread_self s;
     if thr_error (thr s t) \<noteq> RT_EOK then Some (Done (thr_error (thr s t)), None, s)
     else mb_recv_loop mb (time_left timeout tick_delta s) suspend_flag s
   }"

definition rt_mb_recv :: "nat \<Rightarrow> int \<Rightarrow> kernel \<Rightarrow> (err outcome \<times> 64 word option \<times> kernel) option" where
  "rt_mb_recv mb timeout s = rt_mb_recv_flag mb timeout RT_UNINTERRUPTIBLE s"

definition rt_mb_recv_interruptible :: "nat \<Rightarrow> int \<Rightarrow> kernel \<Rightarrow> (err outcome \<times> 64 word option \<times> kernel) option" where
  "rt_mb_recv_interruptible mb timeout s = rt_mb_recv_flag mb timeout RT_INTERRUPTIBLE s"

definition rt_mb_recv_killable :: "nat \<Rightarrow> int \<Rightarrow> kernel \<Rightarrow> (err outcome \<times> 64 word option \<times> kernel) option" where
  "rt_mb_recv_killable mb timeout s = rt_mb_recv_flag mb timeout RT_KILLABLE s"

definition rt_mb_control :: "nat \<Rightarrow> int \<Rightarrow> 64 word \<Rightarrow> kernel \<Rightarrow> (err \<times> kernel) option" where
  "rt_mb_control mb cmd arg s = do {
     rt_assert (rt_object_get_type (OMailbox mb) s = RT_Object_Class_MailBox);
     if cmd = RT_IPC_CMD_RESET
     then do {
       s1 \<leftarrow> ipc_list_resume_all (MbRecv mb) s;
       s2 \<leftarrow> ipc_list_resume_all (MbSend mb) s1;
       let b = (mailboxes s2 mb)\<lparr>mb_entry := 0, in_offset := 0, out_offset := 0\<rparr>;
       s3 \<leftarrow> rt_schedule (put_mb mb b s2);
       Some (RT_EOK, s3)
     }
     else Some (- RT_ERROR, s)
   }"

section \<open>The contract: a bounded queue\<close>

definition mb_contents :: "rt_mailbox \<Rightarrow> 64 word list" where
  "mb_contents b = ring_list (mb_pool b) (unat (out_offset b)) (unat (mb_entry b))"

definition ring_ok :: "rt_mailbox \<Rightarrow> bool" where
  "ring_ok b \<longleftrightarrow> length (mb_pool b) = unat (mb_size b) \<and> mb_entry b \<le> mb_size b \<and>
     (mb_size b = 0 \<or> out_offset b < mb_size b) \<and>
     unat (in_offset b) = (unat (out_offset b) + unat (mb_entry b)) mod unat (mb_size b)"

definition mb_ok :: "nat \<Rightarrow> kernel \<Rightarrow> bool" where
  "mb_ok mb s \<longleftrightarrow> rt_object_get_type (OMailbox mb) s = RT_Object_Class_MailBox \<and> valid_flag (mb_flag mb s) \<and>
     ring_ok (mailboxes s mb)"

lemma mb_contents_length [simp]: "length (mb_contents b) = unat (mb_entry b)"
  by (simp add: mb_contents_def)

text \<open>An offset that steps by one and starts over at the end of the array.\<close>

lemma offset_next:
  fixes i n :: "16 word"
  assumes "i < n"
  shows "unat (if n \<le> i + 1 then 0 else i + 1) = Suc (unat i) mod unat n"
proof -
  have "unat i < unat n" using assms by (simp add: word_less_nat_alt)
  moreover have "unat (i + 1) = Suc (unat i)" using assms by (simp add: unat_plus_one)
  ultimately show ?thesis
    by (cases "unat n = Suc (unat i)") (auto simp: word_le_nat_alt)
qed

lemma offset_prev:
  fixes i n :: "16 word"
  assumes "i < n"
  defines "p \<equiv> if 0 < i then i - 1 else n - 1"
  shows "p < n" "unat i = Suc (unat p) mod unat n"
proof -
  have i: "unat i < unat n" using assms(1) by (simp add: word_less_nat_alt)
  have "unat p = (if unat i = 0 then unat n - 1 else unat i - 1)"
  proof (cases "i = 0")
    case True
    have "n \<noteq> 0" using assms(1) by auto
    with True show ?thesis by (simp add: p_def unat_minus_one)
  next
    case False
    then show ?thesis by (simp add: p_def word_neq_0_conv [symmetric] unat_minus_one unat_eq_0)
  qed
  with i show "p < n" "unat i = Suc (unat p) mod unat n" by (auto simp: word_less_nat_alt)
qed

lemma ring_okD:
  assumes "ring_ok b" "mb_size b \<noteq> 0"
  shows "length (mb_pool b) = unat (mb_size b)" "unat (mb_entry b) \<le> unat (mb_size b)"
    "unat (out_offset b) < length (mb_pool b)" "unat (in_offset b) < length (mb_pool b)" "0 < unat (mb_size b)"
    "unat (in_offset b) = (unat (out_offset b) + unat (mb_entry b)) mod length (mb_pool b)"
    "out_offset b < mb_size b" "in_offset b < mb_size b"
proof -
  show 0: "0 < unat (mb_size b)" using assms(2) by (simp add: unat_gt_0)
  with assms show "length (mb_pool b) = unat (mb_size b)" "unat (mb_entry b) \<le> unat (mb_size b)"
    "unat (out_offset b) < length (mb_pool b)" "unat (in_offset b) < length (mb_pool b)"
    "unat (in_offset b) = (unat (out_offset b) + unat (mb_entry b)) mod length (mb_pool b)"
    "out_offset b < mb_size b" "in_offset b < mb_size b"
    by (simp_all add: ring_ok_def word_le_nat_alt word_less_nat_alt)
qed

definition mb_put_count :: "64 word \<Rightarrow> rt_mailbox \<Rightarrow> rt_mailbox option" where
  "mb_put_count v b = map_option (\<lambda>b'. b'\<lparr>mb_entry := mb_entry b' + 1\<rparr>) (mb_put v b)"

lemma ring_room:
  assumes "ring_ok b" "mb_entry b \<noteq> mb_size b"
  shows "mb_size b \<noteq> 0" "unat (mb_entry b) < length (mb_pool b)" "unat (mb_entry b + 1) = Suc (unat (mb_entry b))"
    "mb_entry b + 1 \<le> mb_size b"
proof -
  have "mb_entry b < mb_size b" using assms by (simp add: ring_ok_def order.strict_iff_order)
  then show "mb_size b \<noteq> 0" "unat (mb_entry b) < length (mb_pool b)" and
    s: "unat (mb_entry b + 1) = Suc (unat (mb_entry b))"
    using assms(1) by (auto simp: ring_ok_def word_less_nat_alt unat_plus_one)
  with assms(1) show "mb_entry b + 1 \<le> mb_size b" by (simp add: ring_ok_def word_le_nat_alt)
qed

lemma mb_put_ok:
  assumes ok: "ring_ok b" and room: "mb_entry b \<noteq> mb_size b"
  shows "\<exists>b'. mb_put v b = Some b' \<and> mb_entry b' = mb_entry b \<and> mb_size b' = mb_size b \<and>
     ring_ok (b'\<lparr>mb_entry := mb_entry b' + 1\<rparr>) \<and>
     mb_contents (b'\<lparr>mb_entry := mb_entry b' + 1\<rparr>) = mb_contents b @ [v]"
proof -
  note r = ring_room [OF ok room] and d = ring_okD [OF ok ring_room(1) [OF ok room]]
  let ?o = "unat (out_offset b)" and ?L = "length (mb_pool b)" and ?e = "unat (mb_entry b)"
  have "Suc ((?o + ?e) mod ?L) mod ?L = Suc (?o + ?e) mod ?L" by (simp add: mod_Suc_eq)
  moreover have "ring_list ((mb_pool b)[(?o + ?e) mod ?L := v]) ?o (Suc ?e) = ring_list (mb_pool b) ?o ?e @ [v]"
    by (rule ring_list_push [OF r(2)])
  ultimately show ?thesis
    using d r offset_next [OF d(8)]
    by (cases "mb_size b \<le> in_offset b + 1") (simp_all add: mb_put_def mb_store_def ring_ok_def mb_contents_def)
qed

lemma mb_put_front_ok:
  assumes ok: "ring_ok b" and room: "mb_entry b \<noteq> mb_size b"
  shows "\<exists>b'. mb_put_front v b = Some b' \<and> mb_size b' = mb_size b \<and> ring_ok b' \<and> mb_contents b' = v # mb_contents b"
proof -
  note r = ring_room [OF ok room] and d = ring_okD [OF ok ring_room(1) [OF ok room]]
  let ?p = "if 0 < out_offset b then out_offset b - 1 else mb_size b - 1"
  let ?L = "length (mb_pool b)" and ?e = "unat (mb_entry b)"
  note p = offset_prev [OF d(7)]
  have lt: "unat ?p < ?L" using p(1) d(1) by (simp add: word_less_nat_alt)
  have nxt: "unat (out_offset b) = Suc (unat ?p) mod ?L" using p(2) d(1) by simp
  have "(unat ?p + Suc ?e) mod ?L = (unat (out_offset b) + ?e) mod ?L"
    unfolding nxt by (simp add: mod_simps)
  moreover have "ring_list ((mb_pool b)[unat ?p := v]) (unat ?p) (Suc ?e) = v # ring_list (mb_pool b) (unat (out_offset b)) ?e"
    by (rule ring_list_unpop [OF r(2) lt nxt])
  ultimately show ?thesis
    using d(1,6) r(3,4) p(1) lt unfolding mb_put_front_def Let_def mb_store_def ring_ok_def mb_contents_def
    by (simp del: of_nat_Suc)
qed

lemma mb_get_ok:
  assumes ok: "ring_ok b" and some: "mb_entry b \<noteq> 0"
  shows "\<exists>b'. mb_get b = Some (hd (mb_contents b), b') \<and> mb_size b' = mb_size b \<and> ring_ok b' \<and>
     mb_contents b' = tl (mb_contents b) \<and> mb_contents b \<noteq> []"
proof -
  have s: "mb_size b \<noteq> 0" using ok some by (auto simp: ring_ok_def)
  note d = ring_okD [OF ok s]
  let ?o = "unat (out_offset b)" and ?L = "length (mb_pool b)" and ?e = "unat (mb_entry b)"
  have e: "0 < ?e" "unat (mb_entry b - 1) = ?e - 1" "0 < mb_entry b"
    using some by (simp_all add: unat_gt_0 unat_minus_one word_neq_0_conv)
  have le: "mb_entry b - 1 \<le> mb_size b" using e(2) d(2) by (simp add: word_le_nat_alt)
  have "Suc ?o mod ?L < unat (mb_size b)" using d(1,5) by simp
  then have lt: "(if mb_size b \<le> out_offset b + 1 then 0 else out_offset b + 1) < mb_size b"
    using offset_next [OF d(7)] d(1) by (simp add: word_less_nat_alt)
  have "(Suc ?o mod ?L + (?e - 1)) mod ?L = (?o + ?e) mod ?L" using e(1) by (cases ?e) (simp_all add: mod_simps)
  then show ?thesis
    using d e le lt offset_next [OF d(7)] ring_list_pop [OF e(1) d(3)]
    unfolding mb_get_def mb_load_def Let_def ring_ok_def mb_contents_def by simp
qed

interpretation mbox: bounded_store ring_ok mb_contents "\<lambda>b. unat (mb_size b)" "\<lambda>x xs. xs @ [x]" "\<lambda>_ _. True"
  mb_put_count mb_put_front mb_get "\<lambda>b. mb_entry b = mb_size b" "\<lambda>b. mb_entry b = 0" True
proof
  fix b :: rt_mailbox and x y :: "64 word" and ys
  assume ok: "ring_ok b"
  have neq: "mb_entry b \<noteq> mb_size b" if "length (mb_contents b) < unat (mb_size b)" using that by auto
  show "mb_entry b = mb_size b \<longleftrightarrow> length (mb_contents b) = unat (mb_size b)" by (simp add: word_unat_eq_iff)
  show "length (mb_contents b) \<le> unat (mb_size b)" using ok by (simp add: ring_ok_def word_le_nat_alt)
  have "mb_entry b = 0 \<longleftrightarrow> length (mb_contents b) = 0" by (simp add: unat_eq_0)
  then show "mb_entry b = 0 \<longleftrightarrow> mb_contents b = []" unfolding length_0_conv .
  show "\<exists>b'. mb_put_count x b = Some b' \<and> ring_ok b' \<and> mb_contents b' = mb_contents b @ [x] \<and>
      unat (mb_size b') = unat (mb_size b) \<and> (\<forall>y. True = True)" if "length (mb_contents b) < unat (mb_size b)"
    using mb_put_ok [OF ok neq [OF that], of x] by (auto simp: mb_put_count_def)
  show "\<exists>b'. mb_put_front x b = Some b' \<and> ring_ok b' \<and> mb_contents b' = x # mb_contents b \<and>
      unat (mb_size b') = unat (mb_size b) \<and> (\<forall>y. True = True)" if "length (mb_contents b) < unat (mb_size b)"
    using mb_put_front_ok [OF ok neq [OF that], of x] by auto
  show "\<exists>b'. mb_get b = Some (y, b') \<and> ring_ok b' \<and> mb_contents b' = ys \<and>
      unat (mb_size b') = unat (mb_size b) \<and> (\<forall>z. True = True)" if "mb_contents b = y # ys"
  proof -
    have "length (mb_contents b) \<noteq> 0" using that by simp
    then have "mb_entry b \<noteq> 0" by (simp add: unat_eq_0)
    from mb_get_ok [OF ok this] that show ?thesis by auto
  qed
qed

section \<open>The calls\<close>

lemma put_mb_frame [simp]:
  "sys_inv (put_mb mb b s) = sys_inv s" "lists (put_mb mb b s) = lists s" "threads (put_mb mb b s) = threads s"
  "mailboxes (put_mb mb b s) mb = b" "runnable (put_mb mb b s) = runnable s"
  "rt_object_get_type a (put_mb mb b s) = rt_object_get_type a s" "mb_flag k (put_mb mb b s) = mb_flag k s"
  by (simp_all add: put_mb_def runnable_def stat_of_def mb_flag_def)

lemma mb_flag_set_error: "mb_flag mb (set_error t e s) = mb_flag mb s"
  by (simp add: mb_flag_def set_error_def)

lemma mb_frame:
  assumes "ipc_frame s s'"
  shows "mb_flag mb s' = mb_flag mb s" "mailboxes s' = mailboxes s" "mb_ok mb s' = mb_ok mb s"
  using ipc_frameD [OF assms] by (simp_all add: mb_flag_def mb_ok_def)

text \<open>
  The abstract mailbox: its messages, the threads that wait for one and the threads
  that wait for room.  A call that goes through wakes the first thread of the other
  side; \<open>mb_abs\<close> reads the three lists off the kernel state.
\<close>

definition mb_abs :: "nat \<Rightarrow> kernel \<Rightarrow> 64 word list \<times> tid list \<times> tid list" where
  "mb_abs mb s = (mb_contents (mailboxes s mb), lists s (MbRecv mb), lists s (MbSend mb))"

lemma mb_wake:
  assumes inv: "sys_inv s" and ok: "mb_ok mb s" "ring_ok b" and l: "l = MbRecv mb \<or> l = MbSend mb"
  obtains s' where "ipc_wake_one l (put_mb mb b s) = Some s'" "sys_inv s'" "mb_ok mb s'"
    "mailboxes s' mb = b" "lists s' l = tl (lists s l)" "\<And>k. wait_id k \<Longrightarrow> k \<noteq> l \<Longrightarrow> lists s' k = lists s k"
    "runnable s' = runnable s \<union> set (take 1 (lists s l))"
    "\<forall>t \<in> set (take 1 (lists s l)). thr_error (thr s' t) = RT_EOK"
proof -
  have i: "sys_inv (put_mb mb b s)" and wl: "wait_id l" using inv l by auto
  obtain s' where s': "ipc_wake_one l (put_mb mb b s) = Some s'" "woken_one l (put_mb mb b s) s'"
    using ipc_wake_one_ok [OF i wl] .
  note w = woken_oneD [OF s'(2) i wl]
  have "mb_ok mb (put_mb mb b s)" using ok by (simp add: mb_ok_def)
  then show thesis
    using that s'(1) w mb_frame [OF w(2)] by simp
qed

text \<open>
  C24. Sending to a mailbox refines the abstract one.  With room the value is
  appended, the call succeeds and the first waiting receiver becomes runnable with
  \<^verbatim>\<open>RT_EOK\<close>; without room a call that may not wait returns \<^verbatim>\<open>-RT_EFULL\<close> and
  changes nothing, an interrupted call returns \<^verbatim>\<open>-RT_EINTR\<close>, and any other call
  suspends the sender in the queue of senders.  Every array access is in range and
  the contract is kept.
\<close>

theorem mb_send_refines:
  assumes inv: "sys_inv s" and ok: "mb_ok mb s" and t: "rt_current_thread s = Some t" "stat_of s t = RT_THREAD_RUNNING"
    and n: "timeout < 0x7fffffff" and flag: "sflag \<in> suspend_flags" "lwp_thread_signal_suspend_check t sflag s = Some k"
  shows "\<exists>r s'. rt_mb_send_wait_flag mb v timeout sflag s = Some (r, s') \<and> sys_inv s' \<and> mb_ok mb s' \<and>
     (let (xs, rq, sq) = mb_abs mb s in
      if length xs < unat (mb_size (mailboxes s mb))
      then r = Done RT_EOK \<and> mb_abs mb s' = (xs @ [v], tl rq, sq) \<and> runnable s' = runnable s \<union> set (take 1 rq) \<and>
           (\<forall>u \<in> set (take 1 rq). thr_error (thr s' u) = RT_EOK)
      else if timeout = 0 then r = Done (- RT_EFULL) \<and> s' = s
      else if k = 0 then r = Done (- RT_EINTR) \<and> mb_abs mb s' = (xs, rq, sq)
      else r = Blocked \<and> suspended s' t \<and> mb_abs mb s' = (xs, rq, wait_order (mb_flag mb s) s t sq))"
proof (cases "mb_entry (mailboxes s mb) = mb_size (mailboxes s mb)")
  case False
  let ?b = "mailboxes s mb"
  have rg: "ring_ok ?b" and ty: "rt_object_get_type (OMailbox mb) s = RT_Object_Class_MailBox"
    using ok by (simp_all add: mb_ok_def)
  obtain b where b: "mb_put v ?b = Some b" "mb_entry b = mb_entry ?b" "mb_size b = mb_size ?b"
    "ring_ok (b\<lparr>mb_entry := mb_entry b + 1\<rparr>)" "mb_contents (b\<lparr>mb_entry := mb_entry b + 1\<rparr>) = mb_contents ?b @ [v]"
    using mb_put_ok [OF rg False, of v] by auto
  have room: "length (mb_contents ?b) < unat (mb_size ?b)"
    using ring_room(2) [OF rg False] rg by (simp add: ring_ok_def)
  have "mb_entry ?b < RT_MB_ENTRY_MAX"
    using room unat_16 [of "mb_size ?b"] by (simp add: word_less_nat_alt)
  moreover obtain s' where s': "ipc_wake_one (MbRecv mb) (put_mb mb (b\<lparr>mb_entry := mb_entry b + 1\<rparr>) s) = Some s'"
    "sys_inv s'" "mb_ok mb s'" "mailboxes s' mb = b\<lparr>mb_entry := mb_entry b + 1\<rparr>"
    "lists s' (MbRecv mb) = tl (lists s (MbRecv mb))" "\<And>k. wait_id k \<Longrightarrow> k \<noteq> MbRecv mb \<Longrightarrow> lists s' k = lists s k"
    "runnable s' = runnable s \<union> set (take 1 (lists s (MbRecv mb)))"
    "\<forall>t \<in> set (take 1 (lists s (MbRecv mb))). thr_error (thr s' t) = RT_EOK"
    using mb_wake [OF inv ok b(4), of "MbRecv mb"] by auto
  ultimately have "rt_mb_send_wait_flag mb v timeout sflag s = Some (Done RT_EOK, s')"
    using ty False b(1,2) by (simp add: rt_mb_send_wait_flag_def mb_send_loop_def)
  with s' b(5) room show ?thesis by (simp add: mb_abs_def)
next
  case full: True
  have ty: "rt_object_get_type (OMailbox mb) s = RT_Object_Class_MailBox" and vf: "valid_flag (mb_flag mb s)"
    using ok by (simp_all add: mb_ok_def)
  show ?thesis
  proof (cases "timeout = 0")
    case True
    with full ty inv ok show ?thesis by (simp add: rt_mb_send_wait_flag_def mb_abs_def)
  next
    case False
    obtain r s' where w: "ipc_wait (MbSend mb) t (mb_flag mb s) timeout sflag (set_error t (- RT_EINTR) s) = Some (r, s')"
      "sys_inv s'" "ipc_frame s s'" "\<And>m. wait_id m \<Longrightarrow> m \<noteq> MbSend mb \<Longrightarrow> lists s' m = lists s m"
      "if k = 0 then r = Done (- RT_EINTR) \<and> lists s' (MbSend mb) = lists s (MbSend mb)
       else r = Blocked \<and> suspended s' t \<and> lists s' (MbSend mb) = wait_order (mb_flag mb s) s t (lists s (MbSend mb))"
      using ipc_wait_call [OF inv t vf n _ flag, of "MbSend mb"] by auto
    have "rt_mb_send_wait_flag mb v timeout sflag s = Some (r, s')"
      using full ty False t(1) w(1)
      by (simp add: rt_mb_send_wait_flag_def mb_send_loop_def rt_thread_self_def Let_def mb_flag_set_error)
    with w full False ok mb_frame [OF w(3)] show ?thesis by (simp add: mb_abs_def split: if_split_asm)
  qed
qed

definition mail_system :: kernel where
  "mail_system = put_mb 5 \<lparr>mb_pool = [7, 8, 9], mb_size = 3, mb_entry = 1, in_offset = 0, out_offset = 2\<rparr> small_system"

lemma mail_system_ok: "sys_inv mail_system" "mb_ok 5 mail_system" "rt_current_thread mail_system = Some 2"
  "stat_of mail_system 2 = RT_THREAD_RUNNING" "mb_abs 5 mail_system = ([9], [], [])"
  using sys_inv_small small_running
  by (simp_all add: mail_system_def stat_of_def mb_ok_def mb_abs_def mb_contents_def ring_list_def ring_ok_def mb_flag_def
      valid_flag_def put_mb_def rt_object_get_type_def)
     (simp_all add: small_system_def kernel_reset_def)

lemma check_uninterruptible [simp]: "lwp_thread_signal_suspend_check t RT_UNINTERRUPTIBLE s = Some 1"
  by (simp add: lwp_thread_signal_suspend_check_def)

theorem mb_send_refines_witness:
  "\<exists>s'. rt_mb_send_wait_flag 5 11 0 RT_UNINTERRUPTIBLE mail_system = Some (Done RT_EOK, s') \<and> mb_abs 5 s' = ([9, 11], [], [])"
proof -
  have "unat (mb_size (mailboxes mail_system 5)) = 3" by (simp add: mail_system_def)
  with mb_send_refines [OF mail_system_ok(1-4), where timeout = 0 and sflag = RT_UNINTERRUPTIBLE and k = 1 and v = 11] mail_system_ok(5) show ?thesis
    by (auto simp: suspend_flags_def)
qed

text \<open>
  C25. Receiving from a mailbox refines the abstract one.  With a message the first
  one is delivered and removed and the first waiting sender becomes runnable; with
  none, a call that may not wait returns \<^verbatim>\<open>-RT_ETIMEOUT\<close> and changes nothing, an
  interrupted call returns \<^verbatim>\<open>-RT_EINTR\<close>, and any other call suspends the receiver.
\<close>

theorem mb_recv_refines:
  assumes inv: "sys_inv s" and ok: "mb_ok mb s" and t: "rt_current_thread s = Some t" "stat_of s t = RT_THREAD_RUNNING"
    and n: "timeout < 0x7fffffff" and flag: "sflag \<in> suspend_flags" "lwp_thread_signal_suspend_check t sflag s = Some k"
  shows "\<exists>r v s'. rt_mb_recv_flag mb timeout sflag s = Some (r, v, s') \<and> sys_inv s' \<and> mb_ok mb s' \<and>
     (let (xs, rq, sq) = mb_abs mb s in
      case xs of
        x # ys \<Rightarrow> r = Done RT_EOK \<and> v = Some x \<and> mb_abs mb s' = (ys, rq, tl sq) \<and>
           runnable s' = runnable s \<union> set (take 1 sq) \<and> (\<forall>u \<in> set (take 1 sq). thr_error (thr s' u) = RT_EOK)
      | [] \<Rightarrow> v = None \<and>
          (if timeout = 0 then r = Done (- RT_ETIMEOUT) \<and> s' = s
           else if k = 0 then r = Done (- RT_EINTR) \<and> mb_abs mb s' = (xs, rq, sq)
           else r = Blocked \<and> suspended s' t \<and> mb_abs mb s' = (xs, wait_order (mb_flag mb s) s t rq, sq)))"
proof (cases "mb_entry (mailboxes s mb) = 0")
  case False
  let ?b = "mailboxes s mb"
  have rg: "ring_ok ?b" and ty: "rt_object_get_type (OMailbox mb) s = RT_Object_Class_MailBox"
    using ok by (simp_all add: mb_ok_def)
  obtain b where b: "mb_get ?b = Some (hd (mb_contents ?b), b)" "ring_ok b" "mb_contents b = tl (mb_contents ?b)"
    "mb_contents ?b \<noteq> []"
    using mb_get_ok [OF rg False] by auto
  then obtain x ys where xs: "mb_contents ?b = x # ys" by (cases "mb_contents ?b") auto
  obtain s' where s': "ipc_wake_one (MbSend mb) (put_mb mb b s) = Some s'"
    "sys_inv s'" "mb_ok mb s'" "mailboxes s' mb = b"
    "lists s' (MbSend mb) = tl (lists s (MbSend mb))" "\<And>k. wait_id k \<Longrightarrow> k \<noteq> MbSend mb \<Longrightarrow> lists s' k = lists s k"
    "runnable s' = runnable s \<union> set (take 1 (lists s (MbSend mb)))"
    "\<forall>t \<in> set (take 1 (lists s (MbSend mb))). thr_error (thr s' t) = RT_EOK"
    using mb_wake [OF inv ok b(2), of "MbSend mb"] by auto
  have "rt_mb_recv_flag mb timeout sflag s = Some (Done RT_EOK, Some x, s')"
    using ty False b(1) s'(1) xs by (simp add: rt_mb_recv_flag_def mb_recv_loop_def)
  with s' b(3) xs show ?thesis by (simp add: mb_abs_def)
next
  case none: True
  have ty: "rt_object_get_type (OMailbox mb) s = RT_Object_Class_MailBox" and vf: "valid_flag (mb_flag mb s)"
    using ok by (simp_all add: mb_ok_def)
  have "length (mb_contents (mailboxes s mb)) = 0" using none by simp
  then have xs: "mb_contents (mailboxes s mb) = []" unfolding length_0_conv .
  show ?thesis
  proof (cases "timeout = 0")
    case True
    with none ty inv ok xs show ?thesis by (simp add: rt_mb_recv_flag_def mb_abs_def)
  next
    case False
    obtain r s' where w: "ipc_wait (MbRecv mb) t (mb_flag mb s) timeout sflag (set_error t (- RT_EINTR) s) = Some (r, s')"
      "sys_inv s'" "ipc_frame s s'" "\<And>m. wait_id m \<Longrightarrow> m \<noteq> MbRecv mb \<Longrightarrow> lists s' m = lists s m"
      "if k = 0 then r = Done (- RT_EINTR) \<and> lists s' (MbRecv mb) = lists s (MbRecv mb)
       else r = Blocked \<and> suspended s' t \<and> lists s' (MbRecv mb) = wait_order (mb_flag mb s) s t (lists s (MbRecv mb))"
      using ipc_wait_call [OF inv t vf n _ flag, of "MbRecv mb"] by auto
    have "rt_mb_recv_flag mb timeout sflag s = Some (r, None, s')"
      using none ty False t(1) w(1)
      by (simp add: rt_mb_recv_flag_def mb_recv_loop_def rt_thread_self_def Let_def mb_flag_set_error)
    with w xs False ok mb_frame [OF w(3)] show ?thesis by (simp add: mb_abs_def split: if_split_asm)
  qed
qed

theorem mb_recv_refines_witness:
  "\<exists>s'. rt_mb_recv_flag 5 0 RT_UNINTERRUPTIBLE mail_system = Some (Done RT_EOK, Some 9, s') \<and> mb_abs 5 s' = ([], [], [])"
  using mb_recv_refines [OF mail_system_ok(1-4), where timeout = 0 and sflag = RT_UNINTERRUPTIBLE and k = 1] mail_system_ok(5)
  by (auto simp: suspend_flags_def)

text \<open>
  C26. The circular buffer of a mailbox is a bounded queue: over any sequence of
  puts, urgent puts and gets, the values it delivers and the values it still holds
  are those of a list that grows at its end (at its front for an urgent message),
  refuses when the size is reached and is emptied from its front.  In particular
  messages arrive unchanged, once, in the order they were sent.
\<close>

theorem mailbox_is_a_queue:
  assumes "ring_ok b"
  shows "\<exists>out b'. run_store mb_put_count mb_put_front mb_get (\<lambda>b. mb_entry b = mb_size b) (\<lambda>b. mb_entry b = 0) ops b
       = Some (out, b') \<and> ring_ok b' \<and>
     (out, mb_contents b') = list_store (\<lambda>x xs. xs @ [x]) (unat (mb_size b)) ops (mb_contents b)"
  using mbox.run_refines [OF assms, of ops] by blast

theorem mailbox_is_a_queue_witness:
  "\<exists>b'. run_store mb_put_count mb_put_front mb_get (\<lambda>b. mb_entry b = mb_size b) (\<lambda>b. mb_entry b = 0)
       [Put 1, Put 2, Put 3, Urgent 4, Get, Get] \<lparr>mb_pool = [0, 0], mb_size = 2, mb_entry = 0, in_offset = 1, out_offset = 1\<rparr>
     = Some ([1, 2], b')"
  using mailbox_is_a_queue [of "\<lparr>mb_pool = [0, 0], mb_size = 2, mb_entry = 0, in_offset = 1, out_offset = 1\<rparr>"
      "[Put 1, Put 2, Put 3, Urgent 4, Get, Get]"]
  by (auto simp: ring_ok_def mb_contents_def)

end
