(* ===== verification/MessageQueue.thy ===== *)
theory MessageQueue
  imports Channel
begin

text \<open>
  Message queues, \<^verbatim>\<open>src/ipc.c\<close>, in the configuration with message priorities.  The
  message pool is a list of cells, each with its header and its data area; a
  pointer to a message is the index of its cell, and an access outside the pool or
  a copy outside a data area ends the model (\<open>None\<close>).  The critical sections of a
  call are definitions of their own: \<open>mq_take_free\<close>, \<open>mq_link\<close>, \<open>mq_unlink\<close>,
  \<open>mq_put_free\<close>; between them the call owns the cell it copies to or from.
\<close>

section \<open>The linked lists of cells\<close>

abbreviation (input) RT_MQ_ENTRY_MAX :: "16 word" where "RT_MQ_ENTRY_MAX \<equiv> 0xffff"

definition mq_cell :: "nat \<Rightarrow> rt_messagequeue \<Rightarrow> rt_mq_message option" where
  "mq_cell i q = (if i < length (mq_pool q) then Some (mq_pool q ! i) else None)"

definition mq_upd :: "nat \<Rightarrow> (rt_mq_message \<Rightarrow> rt_mq_message) \<Rightarrow> rt_messagequeue \<Rightarrow> rt_messagequeue option" where
  "mq_upd i f q = (if i < length (mq_pool q) then Some (q\<lparr>mq_pool := (mq_pool q)[i := f (mq_pool q ! i)]\<rparr>) else None)"

definition mq_take_free :: "nat \<Rightarrow> rt_messagequeue \<Rightarrow> rt_messagequeue option" where
  "mq_take_free i q = do {
     c \<leftarrow> mq_cell i q;
     Some (q\<lparr>msg_queue_free := msg_next c\<rparr>)
   }"

text \<open>\<^verbatim>\<open>length = size\<close> and the copy of \<open>sz\<close> bytes of \<open>buf\<close> into the data area.\<close>

definition mq_copy_in :: "nat \<Rightarrow> 8 word list \<Rightarrow> 64 word \<Rightarrow> rt_messagequeue \<Rightarrow> rt_messagequeue option" where
  "mq_copy_in i buf sz q = do {
     c \<leftarrow> mq_cell i q;
     rt_assert (unat sz \<le> length buf \<and> unat sz \<le> length (msg_data c));
     mq_upd i (\<lambda>c. c\<lparr>msg_length := sz, msg_data := take (unat sz) buf @ drop (unat sz) (msg_data c)\<rparr>) q
   }"

partial_function (option) mq_insert_loop ::
    "nat \<Rightarrow> nat option \<Rightarrow> nat option \<Rightarrow> rt_messagequeue \<Rightarrow> rt_messagequeue option" where
  "mq_insert_loop i prev node q =
    (case node of
       None \<Rightarrow> Some q
     | Some n \<Rightarrow> do {
         c \<leftarrow> mq_cell n q;
         m \<leftarrow> mq_cell i q;
         if msg_prio c < msg_prio m
         then do {
           q1 \<leftarrow> (case prev of None \<Rightarrow> Some (q\<lparr>msg_queue_head := Some i\<rparr>)
                  | Some p \<Rightarrow> mq_upd p (\<lambda>c. c\<lparr>msg_next := Some i\<rparr>) q);
           mq_upd i (\<lambda>c. c\<lparr>msg_next := Some n\<rparr>) q1
         }
         else if msg_next c = None
         then do {
           q1 \<leftarrow> (if n \<noteq> i then mq_upd n (\<lambda>c. c\<lparr>msg_next := Some i\<rparr>) q else Some q);
           Some (q1\<lparr>msg_queue_tail := Some i\<rparr>)
         }
         else mq_insert_loop i (Some n) (msg_next c) q
       })"

definition mq_link :: "nat \<Rightarrow> int \<Rightarrow> rt_messagequeue \<Rightarrow> rt_messagequeue option" where
  "mq_link i prio q = do {
     q1 \<leftarrow> mq_upd i (\<lambda>c. c\<lparr>msg_prio := prio\<rparr>) q;
     let q2 = (if msg_queue_head q1 = None then q1\<lparr>msg_queue_head := Some i\<rparr> else q1);
     mq_insert_loop i None (msg_queue_head q2) q2
   }"

definition mq_link_front :: "nat \<Rightarrow> rt_messagequeue \<Rightarrow> rt_messagequeue option" where
  "mq_link_front i q = do {
     q1 \<leftarrow> mq_upd i (\<lambda>c. c\<lparr>msg_next := msg_queue_head q\<rparr>) q;
     let q2 = q1\<lparr>msg_queue_head := Some i\<rparr>;
     Some (if msg_queue_tail q2 = None then q2\<lparr>msg_queue_tail := Some i\<rparr> else q2)
   }"

definition mq_unlink :: "rt_messagequeue \<Rightarrow> (nat \<times> rt_messagequeue) option" where
  "mq_unlink q = do {
     i \<leftarrow> msg_queue_head q;
     c \<leftarrow> mq_cell i q;
     let q1 = q\<lparr>msg_queue_head := msg_next c\<rparr>;
     Some (i, if msg_queue_tail q1 = Some i then q1\<lparr>msg_queue_tail := None\<rparr> else q1)
   }"

definition mq_put_free :: "nat \<Rightarrow> rt_messagequeue \<Rightarrow> rt_messagequeue option" where
  "mq_put_free i q = do {
     q1 \<leftarrow> mq_upd i (\<lambda>c. c\<lparr>msg_next := msg_queue_free q\<rparr>) q;
     Some (q1\<lparr>msg_queue_free := Some i\<rparr>)
   }"

text \<open>\<^verbatim>\<open>rt_memcpy(buffer, GET_MESSAGEBYTE_ADDR(msg), len)\<close>: the bytes that are delivered.\<close>

definition mq_copy_out :: "nat \<Rightarrow> 64 word \<Rightarrow> rt_messagequeue \<Rightarrow> (64 word \<times> 8 word list \<times> int) option" where
  "mq_copy_out i sz q = do {
     c \<leftarrow> mq_cell i q;
     let len = (if msg_length c > sz then sz else msg_length c);
     rt_assert (unat len \<le> length (msg_data c));
     Some (len, take (unat len) (msg_data c), msg_prio c)
   }"

section \<open>Operations\<close>

definition put_mq :: "nat \<Rightarrow> rt_messagequeue \<Rightarrow> kernel \<Rightarrow> kernel" where
  "put_mq mq q s = s\<lparr>mqs := (mqs s)(mq := q)\<rparr>"

definition mq_flag :: "nat \<Rightarrow> kernel \<Rightarrow> 8 word" where
  "mq_flag mq s = obj_flag (objs s (OMq mq))"

text \<open>\<^verbatim>\<open>sizeof(struct rt_mq_message)\<close>: two words of eight bytes and the priority, padded.\<close>

definition MQ_HEADER :: "64 word" where "MQ_HEADER = 24"

function mq_free_loop :: "nat \<Rightarrow> nat \<Rightarrow> rt_messagequeue \<Rightarrow> rt_messagequeue option" where
  "mq_free_loop temp n q =
    (if temp < n then do { q1 \<leftarrow> mq_put_free temp q; mq_free_loop (temp + 1) n q1 } else Some q)"
  by pat_completeness auto
termination by (relation "measure (\<lambda>(temp, n, q). n - temp)") auto

declare mq_free_loop.simps [simp del]

definition rt_mq_init ::
    "nat \<Rightarrow> string \<Rightarrow> rt_mq_message list \<Rightarrow> 64 word \<Rightarrow> 64 word \<Rightarrow> 8 word \<Rightarrow> kernel \<Rightarrow> (err \<times> kernel) option" where
  "rt_mq_init mq name msgpool sz pool_size flag s = do {
     rt_assert (valid_flag flag);
     s1 \<leftarrow> rt_object_init (OMq mq) RT_Object_Class_MessageQueue name s;
     let s2 = ipc_object_init (MqRecv mq) (upd_obj (OMq mq) (\<lambda>r. r\<lparr>obj_flag := flag\<rparr>) s1);
     let q = (mqs s2 mq)\<lparr>mq_pool := msgpool, msg_size := ucast sz,
                          max_msgs := ucast (pool_size div (RT_ALIGN sz 8 + MQ_HEADER))\<rparr>;
     if max_msgs q = 0 then Some (- RT_EINVAL, put_mq mq q s2)
     else do {
       q1 \<leftarrow> mq_free_loop 0 (unat (max_msgs q))
               (q\<lparr>msg_queue_head := None, msg_queue_tail := None, msg_queue_free := None\<rparr>);
       Some (RT_EOK, ipc_object_init (MqSend mq) (put_mq mq (q1\<lparr>mq_entry := 0\<rparr>) s2))
     }
   }"

definition rt_mq_detach :: "nat \<Rightarrow> kernel \<Rightarrow> (err \<times> kernel) option" where
  "rt_mq_detach mq s = do {
     rt_assert (rt_object_get_type (OMq mq) s = RT_Object_Class_MessageQueue);
     rt_assert (rt_object_is_systemobject (OMq mq) s);
     s1 \<leftarrow> ipc_list_resume_all (MqRecv mq) s;
     s2 \<leftarrow> ipc_list_resume_all (MqSend mq) s1;
     Some (RT_EOK, rt_object_detach (OMq mq) s2)
   }"

text \<open>\<open>mem\<close> and \<open>pool\<close> are what the object allocation and \<^verbatim>\<open>RT_KERNEL_MALLOC\<close> give.\<close>

definition rt_mq_create ::
    "nat option \<Rightarrow> rt_mq_message list option \<Rightarrow> string \<Rightarrow> 64 word \<Rightarrow> 64 word \<Rightarrow> 8 word \<Rightarrow> kernel \<Rightarrow>
     (nat option \<times> kernel) option" where
  "rt_mq_create mem pool name sz maxn flag s = do {
     rt_assert (valid_flag flag);
     (a, s1) \<leftarrow> rt_object_allocate (map_option OMq mem) RT_Object_Class_MessageQueue name s;
     case mem of
       None \<Rightarrow> Some (None, s1)
     | Some mq \<Rightarrow> do {
         let s2 = ipc_object_init (MqRecv mq) (upd_obj (OMq mq) (\<lambda>r. r\<lparr>obj_flag := flag\<rparr>) s1);
         let q = (mqs s2 mq)\<lparr>msg_size := ucast sz, max_msgs := ucast maxn\<rparr>;
         case pool of
           None \<Rightarrow> do {
             s3 \<leftarrow> rt_object_delete (OMq mq) (put_mq mq (q\<lparr>mq_pool := []\<rparr>) s2);
             Some (None, s3)
           }
         | Some msgpool \<Rightarrow> do {
             q1 \<leftarrow> mq_free_loop 0 (unat (max_msgs q))
                     (q\<lparr>mq_pool := msgpool, msg_queue_head := None, msg_queue_tail := None, msg_queue_free := None\<rparr>);
             Some (Some mq, ipc_object_init (MqSend mq) (put_mq mq (q1\<lparr>mq_entry := 0\<rparr>) s2))
           }
       }
   }"

definition rt_mq_delete :: "nat \<Rightarrow> kernel \<Rightarrow> (err \<times> kernel) option" where
  "rt_mq_delete mq s = do {
     rt_assert (rt_object_get_type (OMq mq) s = RT_Object_Class_MessageQueue);
     rt_assert (\<not> rt_object_is_systemobject (OMq mq) s);
     s1 \<leftarrow> ipc_list_resume_all (MqRecv mq) s;
     s2 \<leftarrow> ipc_list_resume_all (MqSend mq) s1;
     s3 \<leftarrow> rt_object_delete (OMq mq) s2;
     Some (RT_EOK, s3)
   }"

definition mq_send_loop ::
    "nat \<Rightarrow> 8 word list \<Rightarrow> 64 word \<Rightarrow> int \<Rightarrow> int \<Rightarrow> int \<Rightarrow> kernel \<Rightarrow> (err outcome \<times> kernel) option" where
  "mq_send_loop mq buf sz prio timeout suspend_flag s =
    (case msg_queue_free (mqs s mq) of
       None \<Rightarrow> do {
         t \<leftarrow> rt_thread_self s;
         let s0 = set_error t (- RT_EINTR) s;
         if timeout = 0 then Some (Done (- RT_EFULL), s0)
         else ipc_wait (MqSend mq) t (mq_flag mq s0) timeout suspend_flag s0
       }
     | Some i \<Rightarrow> do {
         q1 \<leftarrow> mq_take_free i (mqs s mq);
         q2 \<leftarrow> mq_upd i (\<lambda>c. c\<lparr>msg_next := None\<rparr>) q1;
         q3 \<leftarrow> mq_copy_in i buf sz q2;
         q4 \<leftarrow> mq_link i prio q3;
         if mq_entry q4 < RT_MQ_ENTRY_MAX
         then do {
           s' \<leftarrow> ipc_wake_one (MqRecv mq) (put_mq mq (q4\<lparr>mq_entry := mq_entry q4 + 1\<rparr>) s);
           Some (Done RT_EOK, s')
         }
         else Some (Done (- RT_EFULL), put_mq mq q4 s)
       })"

definition rt_mq_send_wait_flag ::
    "nat \<Rightarrow> 8 word list \<Rightarrow> 64 word \<Rightarrow> int \<Rightarrow> int \<Rightarrow> int \<Rightarrow> kernel \<Rightarrow> (err outcome \<times> kernel) option" where
  "rt_mq_send_wait_flag mq buf sz prio timeout suspend_flag s = do {
     rt_assert (rt_object_get_type (OMq mq) s = RT_Object_Class_MessageQueue);
     rt_assert (sz \<noteq> 0);
     if sz > ucast (msg_size (mqs s mq)) then Some (Done (- RT_ERROR), s)
     else if msg_queue_free (mqs s mq) = None \<and> timeout = 0 then Some (Done (- RT_EFULL), s)
     else mq_send_loop mq buf sz prio timeout suspend_flag s
   }"

definition rt_mq_send_resumed ::
    "nat \<Rightarrow> 8 word list \<Rightarrow> 64 word \<Rightarrow> int \<Rightarrow> int \<Rightarrow> 32 word \<Rightarrow> int \<Rightarrow> kernel \<Rightarrow> (err outcome \<times> kernel) option" where
  "rt_mq_send_resumed mq buf sz prio timeout tick_delta suspend_flag s = do {
     t \<leftarrow> rt_thread_self s;
     if thr_error (thr s t) \<noteq> RT_EOK then Some (Done (thr_error (thr s t)), s)
     else mq_send_loop mq buf sz prio (time_left timeout tick_delta s) suspend_flag s
   }"

definition rt_mq_send_wait :: "nat \<Rightarrow> 8 word list \<Rightarrow> 64 word \<Rightarrow> int \<Rightarrow> kernel \<Rightarrow> (err outcome \<times> kernel) option" where
  "rt_mq_send_wait mq buf sz timeout s = rt_mq_send_wait_flag mq buf sz 0 timeout RT_UNINTERRUPTIBLE s"

definition rt_mq_send_wait_interruptible ::
    "nat \<Rightarrow> 8 word list \<Rightarrow> 64 word \<Rightarrow> int \<Rightarrow> kernel \<Rightarrow> (err outcome \<times> kernel) option" where
  "rt_mq_send_wait_interruptible mq buf sz timeout s = rt_mq_send_wait_flag mq buf sz 0 timeout RT_INTERRUPTIBLE s"

definition rt_mq_send_wait_killable ::
    "nat \<Rightarrow> 8 word list \<Rightarrow> 64 word \<Rightarrow> int \<Rightarrow> kernel \<Rightarrow> (err outcome \<times> kernel) option" where
  "rt_mq_send_wait_killable mq buf sz timeout s = rt_mq_send_wait_flag mq buf sz 0 timeout RT_KILLABLE s"

definition rt_mq_send :: "nat \<Rightarrow> 8 word list \<Rightarrow> 64 word \<Rightarrow> kernel \<Rightarrow> (err outcome \<times> kernel) option" where
  "rt_mq_send mq buf sz s = rt_mq_send_wait mq buf sz 0 s"

definition rt_mq_send_interruptible :: "nat \<Rightarrow> 8 word list \<Rightarrow> 64 word \<Rightarrow> kernel \<Rightarrow> (err outcome \<times> kernel) option" where
  "rt_mq_send_interruptible mq buf sz s = rt_mq_send_wait_interruptible mq buf sz 0 s"

definition rt_mq_send_killable :: "nat \<Rightarrow> 8 word list \<Rightarrow> 64 word \<Rightarrow> kernel \<Rightarrow> (err outcome \<times> kernel) option" where
  "rt_mq_send_killable mq buf sz s = rt_mq_send_wait_killable mq buf sz 0 s"

definition rt_mq_send_wait_prio ::
    "nat \<Rightarrow> 8 word list \<Rightarrow> 64 word \<Rightarrow> int \<Rightarrow> int \<Rightarrow> int \<Rightarrow> kernel \<Rightarrow> (err outcome \<times> kernel) option" where
  "rt_mq_send_wait_prio mq buf sz prio timeout suspend_flag s = rt_mq_send_wait_flag mq buf sz prio timeout suspend_flag s"

definition rt_mq_urgent :: "nat \<Rightarrow> 8 word list \<Rightarrow> 64 word \<Rightarrow> kernel \<Rightarrow> (err \<times> kernel) option" where
  "rt_mq_urgent mq buf sz s = do {
     rt_assert (rt_object_get_type (OMq mq) s = RT_Object_Class_MessageQueue);
     rt_assert (sz \<noteq> 0);
     if sz > ucast (msg_size (mqs s mq)) then Some (- RT_ERROR, s)
     else case msg_queue_free (mqs s mq) of
       None \<Rightarrow> Some (- RT_EFULL, s)
     | Some i \<Rightarrow> do {
         q1 \<leftarrow> mq_take_free i (mqs s mq);
         q2 \<leftarrow> mq_copy_in i buf sz q1;
         q3 \<leftarrow> mq_link_front i q2;
         if mq_entry q3 < RT_MQ_ENTRY_MAX
         then do {
           s' \<leftarrow> ipc_wake_one (MqRecv mq) (put_mq mq (q3\<lparr>mq_entry := mq_entry q3 + 1\<rparr>) s);
           Some (RT_EOK, s')
         }
         else Some (- RT_EFULL, put_mq mq q3 s)
       }
   }"

text \<open>
  A receive returns the length of the message; with it comes what the call copies
  into \<^verbatim>\<open>buffer\<close> and the value it stores through a non-null \<^verbatim>\<open>prio\<close>.
\<close>

definition mq_recv_loop ::
    "nat \<Rightarrow> 64 word \<Rightarrow> int \<Rightarrow> int \<Rightarrow> kernel \<Rightarrow> (err outcome \<times> (8 word list \<times> int) option \<times> kernel) option" where
  "mq_recv_loop mq sz timeout suspend_flag s =
    (if mq_entry (mqs s mq) = 0
     then do {
       t \<leftarrow> rt_thread_self s;
       let s0 = set_error t (- RT_EINTR) s;
       if timeout = 0 then Some (Done (- RT_ETIMEOUT), None, set_error t (- RT_ETIMEOUT) s0)
       else do {
         (r, s1) \<leftarrow> ipc_wait (MqRecv mq) t (mq_flag mq s0) timeout suspend_flag s0;
         Some (r, None, s1)
       }
     }
     else do {
       (i, q1) \<leftarrow> mq_unlink (mqs s mq);
       let q2 = (if 0 < mq_entry q1 then q1\<lparr>mq_entry := mq_entry q1 - 1\<rparr> else q1);
       (len, bytes, prio) \<leftarrow> mq_copy_out i sz q2;
       q3 \<leftarrow> mq_put_free i q2;
       s' \<leftarrow> ipc_wake_one (MqSend mq) (put_mq mq q3 s);
       Some (Done (uint len), Some (bytes, prio), s')
     })"

definition rt_mq_recv_flag ::
    "nat \<Rightarrow> 64 word \<Rightarrow> int \<Rightarrow> int \<Rightarrow> kernel \<Rightarrow> (err outcome \<times> (8 word list \<times> int) option \<times> kernel) option" where
  "rt_mq_recv_flag mq sz timeout suspend_flag s = do {
     rt_assert (rt_object_get_type (OMq mq) s = RT_Object_Class_MessageQueue);
     rt_assert (sz \<noteq> 0);
     if mq_entry (mqs s mq) = 0 \<and> timeout = 0 then Some (Done (- RT_ETIMEOUT), None, s)
     else mq_recv_loop mq sz timeout suspend_flag s
   }"

definition rt_mq_recv_resumed ::
    "nat \<Rightarrow> 64 word \<Rightarrow> int \<Rightarrow> 32 word \<Rightarrow> int \<Rightarrow> kernel \<Rightarrow> (err outcome \<times> (8 word list \<times> int) option \<times> kernel) option" where
  "rt_mq_recv_resumed mq sz timeout tick_delta suspend_flag s = do {
     t \<leftarrow> rt_thread_self s;
     if thr_error (thr s t) \<noteq> RT_EOK then Some (Done (thr_error (thr s t)), None, s)
     else mq_recv_loop mq sz (time_left timeout tick_delta s) suspend_flag s
   }"

definition rt_mq_recv ::
    "nat \<Rightarrow> 64 word \<Rightarrow> int \<Rightarrow> kernel \<Rightarrow> (err outcome \<times> (8 word list \<times> int) option \<times> kernel) option" where
  "rt_mq_recv mq sz timeout s = rt_mq_recv_flag mq sz timeout RT_UNINTERRUPTIBLE s"

definition rt_mq_recv_interruptible ::
    "nat \<Rightarrow> 64 word \<Rightarrow> int \<Rightarrow> kernel \<Rightarrow> (err outcome \<times> (8 word list \<times> int) option \<times> kernel) option" where
  "rt_mq_recv_interruptible mq sz timeout s = rt_mq_recv_flag mq sz timeout RT_INTERRUPTIBLE s"

definition rt_mq_recv_killable ::
    "nat \<Rightarrow> 64 word \<Rightarrow> int \<Rightarrow> kernel \<Rightarrow> (err outcome \<times> (8 word list \<times> int) option \<times> kernel) option" where
  "rt_mq_recv_killable mq sz timeout s = rt_mq_recv_flag mq sz timeout RT_KILLABLE s"

definition rt_mq_recv_prio ::
    "nat \<Rightarrow> 64 word \<Rightarrow> int \<Rightarrow> int \<Rightarrow> kernel \<Rightarrow> (err outcome \<times> (8 word list \<times> int) option \<times> kernel) option" where
  "rt_mq_recv_prio mq sz timeout suspend_flag s = rt_mq_recv_flag mq sz timeout suspend_flag s"

partial_function (option) mq_clear_loop :: "rt_messagequeue \<Rightarrow> rt_messagequeue option" where
  "mq_clear_loop q =
    (if msg_queue_head q = None then Some q
     else do {
       (i, q1) \<leftarrow> mq_unlink q;
       q2 \<leftarrow> mq_put_free i q1;
       mq_clear_loop q2
     })"

definition rt_mq_control :: "nat \<Rightarrow> int \<Rightarrow> 64 word \<Rightarrow> kernel \<Rightarrow> (err \<times> kernel) option" where
  "rt_mq_control mq cmd arg s = do {
     rt_assert (rt_object_get_type (OMq mq) s = RT_Object_Class_MessageQueue);
     if cmd = RT_IPC_CMD_RESET
     then do {
       s1 \<leftarrow> ipc_list_resume_all (MqRecv mq) s;
       s2 \<leftarrow> ipc_list_resume_all (MqSend mq) s1;
       q \<leftarrow> mq_clear_loop (mqs s2 mq);
       s3 \<leftarrow> rt_schedule (put_mq mq (q\<lparr>mq_entry := 0\<rparr>) s2);
       Some (RT_EOK, s3)
     }
     else Some (- RT_ERROR, s)
   }"

section \<open>Linked segments\<close>

fun lseg :: "rt_mq_message list \<Rightarrow> nat option \<Rightarrow> nat list \<Rightarrow> nat option \<Rightarrow> bool" where
  "lseg pool p [] z \<longleftrightarrow> p = z"
| "lseg pool p (x # xs) z \<longleftrightarrow> p = Some x \<and> x < length pool \<and> lseg pool (msg_next (pool ! x)) xs z"

lemma lseg_append: "lseg pool p (xs @ ys) z \<longleftrightarrow> (\<exists>m. lseg pool p xs m \<and> lseg pool m ys z)"
  by (induction xs arbitrary: p) auto

lemma lseg_range: "lseg pool p xs z \<Longrightarrow> x \<in> set xs \<Longrightarrow> x < length pool"
  by (induction xs arbitrary: p) auto

lemma lseg_upd [simp]: "i \<notin> set xs \<Longrightarrow> lseg (pool[i := c]) p xs z = lseg pool p xs z"
  by (induction xs arbitrary: p) auto

lemma lseg_upd_same:
  assumes "msg_next c = msg_next (pool ! i)"
  shows "lseg (pool[i := c]) p xs z = lseg pool p xs z"
proof (induction xs arbitrary: p)
  case (Cons x xs)
  have "msg_next (pool[i := c] ! x) = msg_next (pool ! x)" if "x < length pool"
    using assms that by (cases "i = x") simp_all
  with Cons.IH show ?case by (simp cong: conj_cong)
qed simp

lemma lseg_head: "lseg pool p xs None \<Longrightarrow> p = (case xs of [] \<Rightarrow> None | x # _ \<Rightarrow> Some x)"
  by (cases xs) auto

text \<open>Reading the list off the pool: the contents of the queue and of the free list.\<close>

fun walk :: "rt_mq_message list \<Rightarrow> nat \<Rightarrow> nat option \<Rightarrow> nat list" where
  "walk pool (Suc n) (Some x) = x # walk pool n (if x < length pool then msg_next (pool ! x) else None)"
| "walk pool _ _ = []"

lemma walk_lseg: "lseg pool p xs None \<Longrightarrow> length xs \<le> n \<Longrightarrow> walk pool n p = xs"
proof (induction xs arbitrary: p n)
  case Nil
  then show ?case by (cases n) auto
next
  case (Cons x xs)
  then show ?case by (cases n) auto
qed

definition msg_of :: "rt_mq_message \<Rightarrow> int \<times> 8 word list" where
  "msg_of c = (msg_prio c, take (unat (msg_length c)) (msg_data c))"

text \<open>
  The shape of a message queue: \<open>qs\<close> are the cells of the queue, \<open>fs\<close> the free ones
  and \<open>xs\<close> those that calls in progress own; together they are the whole pool.
\<close>

definition mq_shape :: "rt_messagequeue \<Rightarrow> nat list \<Rightarrow> nat list \<Rightarrow> nat list \<Rightarrow> bool" where
  "mq_shape q qs fs xs \<longleftrightarrow> lseg (mq_pool q) (msg_queue_head q) qs None \<and> lseg (mq_pool q) (msg_queue_free q) fs None \<and>
     mset (qs @ fs @ xs) = mset [0..<length (mq_pool q)] \<and> length (mq_pool q) = unat (max_msgs q) \<and>
     msg_queue_tail q = (if qs = [] then None else Some (last qs)) \<and>
     (\<forall>c \<in> set (mq_pool q). unat (msg_size q) \<le> length (msg_data c)) \<and>
     (\<forall>i \<in> set qs. unat (msg_length (mq_pool q ! i)) \<le> unat (msg_size q))"

definition mq_queue :: "rt_messagequeue \<Rightarrow> nat list" where
  "mq_queue q = walk (mq_pool q) (length (mq_pool q)) (msg_queue_head q)"

definition mq_free :: "rt_messagequeue \<Rightarrow> nat list" where
  "mq_free q = walk (mq_pool q) (length (mq_pool q)) (msg_queue_free q)"

definition mq_contents :: "rt_messagequeue \<Rightarrow> (int \<times> 8 word list) list" where
  "mq_contents q = map (\<lambda>i. msg_of (mq_pool q ! i)) (mq_queue q)"

definition mq_struct :: "rt_messagequeue \<Rightarrow> bool" where
  "mq_struct q \<longleftrightarrow> mq_shape q (mq_queue q) (mq_free q) [] \<and> unat (mq_entry q) = length (mq_queue q)"

lemma mq_shapeD:
  assumes "mq_shape q qs fs xs"
  shows "lseg (mq_pool q) (msg_queue_head q) qs None" "lseg (mq_pool q) (msg_queue_free q) fs None"
    "distinct (qs @ fs @ xs)" "set (qs @ fs @ xs) = {..<length (mq_pool q)}"
    "length (qs @ fs @ xs) = length (mq_pool q)" "length (mq_pool q) = unat (max_msgs q)"
    "msg_queue_tail q = (if qs = [] then None else Some (last qs))"
    "c \<in> set (mq_pool q) \<Longrightarrow> unat (msg_size q) \<le> length (msg_data c)"
    "i \<in> set qs \<Longrightarrow> unat (msg_length (mq_pool q ! i)) \<le> unat (msg_size q)"
proof -
  note a = assms [unfolded mq_shape_def]
  show "distinct (qs @ fs @ xs)" using a by (metis distinct_upt mset_eq_imp_distinct_iff)
  show "set (qs @ fs @ xs) = {..<length (mq_pool q)}" using a by (metis atLeast0LessThan mset_eq_setD set_upt)
  show "length (qs @ fs @ xs) = length (mq_pool q)" using a by (metis diff_zero length_upt mset_eq_length)
qed (use assms in \<open>auto simp: mq_shape_def split: if_splits\<close>)

lemma shape_lists:
  assumes "mq_shape q qs fs xs"
  shows "mq_queue q = qs" "mq_free q = fs"
  using mq_shapeD(1,2,5) [OF assms] by (auto simp: mq_queue_def mq_free_def intro!: walk_lseg)

lemma mq_structI:
  assumes "mq_shape q qs fs []" "unat (mq_entry q) = length qs"
  shows "mq_struct q" "mq_contents q = map (\<lambda>i. msg_of (mq_pool q ! i)) qs" "mq_queue q = qs" "mq_free q = fs"
  using assms shape_lists [OF assms(1)] by (simp_all add: mq_struct_def mq_contents_def)

section \<open>The critical sections\<close>

text \<open>
  The lists of a queue do not depend on what a call writes into a cell it owns, and
  the data areas keep their size.
\<close>

lemma shape_upd:
  assumes sh: "mq_shape q qs fs xs" and i: "i < length (mq_pool q)" "i \<notin> set qs" "i \<notin> set fs"
    and d: "unat (msg_size q) \<le> length (msg_data c)"
  shows "mq_shape (q\<lparr>mq_pool := (mq_pool q)[i := c]\<rparr>) qs fs xs"
proof -
  have "set ((mq_pool q)[i := c]) \<subseteq> insert c (set (mq_pool q))" by (rule set_update_subset_insert)
  then show ?thesis
    using sh i d unfolding mq_shape_def by (auto simp: nth_list_update)
qed

lemma owned_cell:
  assumes "mq_shape q qs fs xs" "i \<in> set xs"
  shows "i < length (mq_pool q)" "i \<notin> set qs" "i \<notin> set fs" "mq_cell i q = Some (mq_pool q ! i)"
    "unat (msg_size q) \<le> length (msg_data (mq_pool q ! i))"
proof -
  show lt: "i < length (mq_pool q)" using mq_shapeD(4) [OF assms(1)] assms(2) by auto
  show "i \<notin> set qs" "i \<notin> set fs" using mq_shapeD(3) [OF assms(1)] assms(2) by auto
  show "mq_cell i q = Some (mq_pool q ! i)" using lt by (simp add: mq_cell_def)
  show "unat (msg_size q) \<le> length (msg_data (mq_pool q ! i))"
    by (rule mq_shapeD(8) [OF assms(1)]) (simp add: lt)
qed

lemma mq_take_free_ok:
  assumes sh: "mq_shape q qs (i # fs) xs"
  shows "mq_take_free i q = Some (q\<lparr>msg_queue_free := msg_next (mq_pool q ! i)\<rparr>)"
    "mq_shape (q\<lparr>msg_queue_free := msg_next (mq_pool q ! i)\<rparr>) qs fs (i # xs)" "msg_queue_free q = Some i"
  using sh by (auto simp: mq_shape_def mq_take_free_def mq_cell_def)

lemma mq_put_free_ok:
  assumes sh: "mq_shape q qs fs (i # xs)"
  defines "q' \<equiv> q\<lparr>mq_pool := (mq_pool q)[i := (mq_pool q ! i)\<lparr>msg_next := msg_queue_free q\<rparr>], msg_queue_free := Some i\<rparr>"
  shows "mq_put_free i q = Some q'" "mq_shape q' qs (i # fs) xs"
    "map (\<lambda>j. msg_of (mq_pool q' ! j)) qs = map (\<lambda>j. msg_of (mq_pool q ! j)) qs"
proof -
  note o = owned_cell [OF sh, of i, simplified]
  have "mq_shape (q\<lparr>mq_pool := (mq_pool q)[i := (mq_pool q ! i)\<lparr>msg_next := msg_queue_free q\<rparr>]\<rparr>) qs fs (i # xs)"
    by (rule shape_upd [OF sh o(1-3)]) (simp add: o(5))
  then show "mq_shape q' qs (i # fs) xs" using o by (auto simp: mq_shape_def q'_def)
  show "mq_put_free i q = Some q'" using o(1) by (simp add: mq_put_free_def mq_upd_def q'_def)
  show "map (\<lambda>j. msg_of (mq_pool q' ! j)) qs = map (\<lambda>j. msg_of (mq_pool q ! j)) qs"
    using o(2) by (simp add: q'_def) (metis nth_list_update_neq)
qed

lemma mq_unlink_ok:
  assumes sh: "mq_shape q (i # qs) fs xs"
  obtains q' where "mq_unlink q = Some (i, q')" "mq_shape q' qs fs (i # xs)" "mq_pool q' = mq_pool q"
    "msg_size q' = msg_size q" "max_msgs q' = max_msgs q" "mq_entry q' = mq_entry q"
proof -
  let ?q1 = "q\<lparr>msg_queue_head := msg_next (mq_pool q ! i)\<rparr>"
  let ?q' = "if msg_queue_tail ?q1 = Some i then ?q1\<lparr>msg_queue_tail := None\<rparr> else ?q1"
  have h: "msg_queue_head q = Some i" "i < length (mq_pool q)" using mq_shapeD(1) [OF sh] by auto
  have "last (i # qs) = i \<longleftrightarrow> qs = []" using mq_shapeD(3) [OF sh] by (cases qs rule: rev_cases) auto
  then have "mq_shape ?q' qs fs (i # xs)"
    using sh by (auto simp: mq_shape_def split: if_splits)
  moreover have "mq_unlink q = Some (i, ?q')" using h by (simp add: mq_unlink_def mq_cell_def Let_def)
  ultimately show thesis by (intro that [of ?q']) simp_all
qed

text \<open>Two pools that differ in the links only.\<close>

definition same_msgs :: "rt_mq_message list \<Rightarrow> rt_mq_message list \<Rightarrow> bool" where
  "same_msgs pool pool' \<longleftrightarrow>
     map (\<lambda>c. (msg_length c, msg_prio c, msg_data c)) pool' = map (\<lambda>c. (msg_length c, msg_prio c, msg_data c)) pool"

lemma same_msgsD:
  assumes "same_msgs pool pool'"
  shows "length pool' = length pool"
    "i < length pool \<Longrightarrow> msg_length (pool' ! i) = msg_length (pool ! i) \<and> msg_prio (pool' ! i) = msg_prio (pool ! i) \<and>
       msg_data (pool' ! i) = msg_data (pool ! i)"
proof -
  show l: "length pool' = length pool" using arg_cong [OF assms [unfolded same_msgs_def], of length] unfolding length_map .
  show "msg_length (pool' ! i) = msg_length (pool ! i) \<and> msg_prio (pool' ! i) = msg_prio (pool ! i) \<and>
       msg_data (pool' ! i) = msg_data (pool ! i)" if "i < length pool"
  proof -
    have "map (\<lambda>c. (msg_length c, msg_prio c, msg_data c)) pool' ! i = map (\<lambda>c. (msg_length c, msg_prio c, msg_data c)) pool ! i"
      using assms by (simp only: same_msgs_def)
    then show ?thesis using that l by simp
  qed
qed

lemma same_msgs_next [simp]: "same_msgs pool (pool[i := (pool ! i)\<lparr>msg_next := z\<rparr>])"
  by (cases "i < length pool") (auto simp: same_msgs_def map_update nth_list_update intro!: nth_equalityI)

lemma same_msgs_refl [simp]: "same_msgs a a"
  by (simp add: same_msgs_def)

lemma same_msgs_trans: "same_msgs a b \<Longrightarrow> same_msgs b c \<Longrightarrow> same_msgs a c"
  by (simp add: same_msgs_def)

lemma same_msgs_shape:
  assumes "mq_shape q qs fs xs" "same_msgs (mq_pool q) pool'"
  shows "c \<in> set pool' \<Longrightarrow> unat (msg_size q) \<le> length (msg_data c)"
    "i \<in> set qs \<Longrightarrow> unat (msg_length (pool' ! i)) \<le> unat (msg_size q)"
    "i < length (mq_pool q) \<Longrightarrow> msg_of (pool' ! i) = msg_of (mq_pool q ! i)"
proof -
  note sm = same_msgsD [OF assms(2)]
  show "unat (msg_size q) \<le> length (msg_data c)" if "c \<in> set pool'"
    using that sm mq_shapeD(8) [OF assms(1)] by (metis in_set_conv_nth nth_mem)
  show "unat (msg_length (pool' ! i)) \<le> unat (msg_size q)" if "i \<in> set qs"
    using that sm(2) mq_shapeD(9) [OF assms(1)] lseg_range [OF mq_shapeD(1) [OF assms(1)]] by metis
  show "msg_of (pool' ! i) = msg_of (mq_pool q ! i)" if "i < length (mq_pool q)"
    using sm(2) [OF that] by (simp add: msg_of_def)
qed

lemma lseg_cong:
  assumes "length pool' = length pool" "\<And>j. j \<in> set xs \<Longrightarrow> msg_next (pool' ! j) = msg_next (pool ! j)"
  shows "lseg pool' p xs z = lseg pool p xs z"
  using assms(2) by (induction xs arbitrary: p) (auto simp: assms(1))

lemma lseg_insert:
  assumes seg: "lseg pool h (us @ vs) None" and d: "distinct (us @ vs)" and i: "i \<notin> set (us @ vs)" "i < length pool"
    and len: "length pool' = length pool"
    and same: "\<And>j. j \<noteq> i \<Longrightarrow> us = [] \<or> j \<noteq> last us \<Longrightarrow> msg_next (pool' ! j) = msg_next (pool ! j)"
    and nxt: "msg_next (pool' ! i) = (case vs of [] \<Rightarrow> None | v # _ \<Rightarrow> Some v)"
    and prev: "us \<noteq> [] \<Longrightarrow> msg_next (pool' ! last us) = Some i"
  shows "lseg pool' (if us = [] then Some i else h) (us @ i # vs) None"
proof (cases us rule: rev_cases)
  case Nil
  have "msg_next (pool' ! j) = msg_next (pool ! j)" if "j \<in> set vs" for j
    using same [of j] that i(1) Nil by auto
  with seg Nil have "lseg pool' h vs None"
    using lseg_cong [OF len, of vs h None] by simp
  with Nil show ?thesis using i(2) nxt len lseg_head by fastforce
next
  case (snoc us' p)
  obtain m where m: "lseg pool h us' m" "m = Some p" "p < length pool" "lseg pool (msg_next (pool ! p)) vs None"
    using seg snoc by (auto simp: lseg_append)
  have keep: "j \<in> set us' \<or> j \<in> set vs \<Longrightarrow> msg_next (pool' ! j) = msg_next (pool ! j)" for j
    using same [of j] i d snoc by auto
  have "lseg pool' h us' m" "lseg pool' (msg_next (pool ! p)) vs None"
    using m(1,4) lseg_cong [OF len, of us' h m] lseg_cong [OF len, of vs _ None] keep by auto
  with m(2,3) show ?thesis
    using snoc i(2) len nxt prev lseg_head [of pool' "msg_next (pool ! p)" vs] by (auto simp: lseg_append)
qed

text \<open>The loop of a send: the new cell goes in front of the first cell of lower priority.\<close>

abbreviation lower :: "rt_mq_message list \<Rightarrow> nat \<Rightarrow> nat \<Rightarrow> bool" where
  "lower pool i j \<equiv> msg_prio (pool ! j) < msg_prio (pool ! i)"

definition linked_in :: "rt_messagequeue \<Rightarrow> nat \<Rightarrow> nat list \<Rightarrow> nat list \<Rightarrow> rt_messagequeue \<Rightarrow> bool" where
  "linked_in q i qs qs' q' \<longleftrightarrow> same_msgs (mq_pool q) (mq_pool q') \<and>
     (\<forall>j. j \<notin> insert i (set qs) \<longrightarrow> mq_pool q' ! j = mq_pool q ! j) \<and>
     lseg (mq_pool q') (msg_queue_head q') qs' None \<and> msg_queue_tail q' = Some (last qs') \<and>
     msg_queue_free q' = msg_queue_free q \<and> mq_entry q' = mq_entry q \<and> msg_size q' = msg_size q \<and> max_msgs q' = max_msgs q"

lemma mq_insert_loop_ok:
  assumes "lseg (mq_pool q) (msg_queue_head q) (us @ vs) None" "distinct (us @ vs)" "i \<notin> set (us @ vs)"
    "i < length (mq_pool q)" "msg_next (mq_pool q ! i) = None" "vs \<noteq> []" "msg_queue_tail q = Some (last vs)"
  shows "\<exists>q'. mq_insert_loop i (if us = [] then None else Some (last us)) (Some (hd vs)) q = Some q' \<and>
     linked_in q i (us @ vs) (us @ insert_where (lower (mq_pool q) i) i vs) q'"
  using assms
proof (induction vs arbitrary: us)
  case (Cons n vs)
  let ?pool = "mq_pool q"
  have n: "n < length ?pool" "n \<noteq> i" "n \<notin> set us"
    using lseg_range [OF Cons.prems(1), of n] Cons.prems(2,3) by auto
  have cell: "mq_cell n q = Some (?pool ! n)" "mq_cell i q = Some (?pool ! i)"
    using n(1) Cons.prems(4) by (simp_all add: mq_cell_def)
  obtain m where m: "lseg ?pool (msg_queue_head q) us m" "m = Some n" "lseg ?pool (msg_next (?pool ! n)) vs None"
    using Cons.prems(1) by (auto simp: lseg_append)
  have lst: "us \<noteq> [] \<Longrightarrow> last us < length ?pool \<and> last us \<noteq> i \<and> last us \<noteq> n"
    using lseg_range [OF Cons.prems(1), of "last us"] Cons.prems(2,3) by auto
  show ?case
  proof (cases "lower ?pool i n")
    case True
    let ?p1 = "if us = [] then ?pool else ?pool[last us := (?pool ! last us)\<lparr>msg_next := Some i\<rparr>]"
    let ?p2 = "?p1[i := (?p1 ! i)\<lparr>msg_next := Some n\<rparr>]"
    let ?q' = "q\<lparr>mq_pool := ?p2, msg_queue_head := (if us = [] then Some i else msg_queue_head q)\<rparr>"
    have seg: "lseg ?p2 (if us = [] then Some i else msg_queue_head q) (us @ i # n # vs) None"
      by (rule lseg_insert [OF Cons.prems(1-4)]) (use lst Cons.prems(4) in \<open>auto simp: nth_list_update\<close>)
    have "same_msgs ?pool ?p1" by (simp add: same_msgs_refl)
    then have sm: "same_msgs ?pool ?p2" by (rule same_msgs_trans) simp
    have out: "?p2 ! j = ?pool ! j" if "j \<notin> insert i (set (us @ n # vs))" for j
    proof -
      have "j \<noteq> i" "us \<noteq> [] \<Longrightarrow> j \<noteq> last us" using that by auto
      then show ?thesis by (cases "us = []") simp_all
    qed
    have "mq_insert_loop i (if us = [] then None else Some (last us)) (Some n) q = Some ?q'"
      using True cell lst Cons.prems(4)
      by (subst mq_insert_loop.simps) (auto simp: mq_upd_def)
    moreover have "linked_in q i (us @ n # vs) (us @ i # n # vs) ?q'"
      using seg sm out Cons.prems(7) by (simp add: linked_in_def)
    ultimately show ?thesis using True by auto
  next
    case False
    show ?thesis
    proof (cases vs)
      case Nil
      let ?p1 = "?pool[n := (?pool ! n)\<lparr>msg_next := Some i\<rparr>]"
      let ?q' = "q\<lparr>mq_pool := ?p1, msg_queue_tail := Some i\<rparr>"
      have "lseg ?p1 (if us @ [n] = [] then Some i else msg_queue_head q) ((us @ [n]) @ i # []) None"
        by (rule lseg_insert) (use Cons.prems n Nil in auto)
      then have "linked_in q i (us @ n # vs) (us @ [n, i]) ?q'" using Nil by (simp add: linked_in_def)
      moreover have "mq_insert_loop i (if us = [] then None else Some (last us)) (Some n) q = Some ?q'"
        using False cell n m(3) Nil by (subst mq_insert_loop.simps) (simp add: mq_upd_def)
      ultimately show ?thesis using False Nil by auto
    next
      case (Cons v ws)
      have nx: "msg_next (?pool ! n) = Some v" using m(3) Cons by simp
      have step: "mq_insert_loop i (if us = [] then None else Some (last us)) (Some n) q =
          mq_insert_loop i (Some n) (Some v) q"
        using False cell nx by (subst mq_insert_loop.simps) simp
      have "\<exists>q'. mq_insert_loop i (if us @ [n] = [] then None else Some (last (us @ [n]))) (Some (hd vs)) q = Some q' \<and>
         linked_in q i ((us @ [n]) @ vs) ((us @ [n]) @ insert_where (lower ?pool i) i vs) q'"
        by (rule Cons.IH) (use Cons.prems Cons in auto)
      then show ?thesis using step False Cons by simp
    qed
  qed
qed simp

lemma linked_in_shape:
  assumes sh: "mq_shape q qs fs (i # xs)" and q': "linked_in q i qs qs' q'" and len: "unat (msg_length (mq_pool q ! i)) \<le> unat (msg_size q)"
    and m: "mset qs' = add_mset i (mset qs)"
  shows "mq_shape q' qs' fs xs" "j < length (mq_pool q) \<Longrightarrow> msg_of (mq_pool q' ! j) = msg_of (mq_pool q ! j)"
proof -
  note d = mq_shapeD [OF sh] and o = owned_cell [OF sh, of i, simplified]
  have sm: "same_msgs (mq_pool q) (mq_pool q')" using q' by (simp add: linked_in_def)
  note sd = same_msgsD [OF sm] and ss = same_msgs_shape [OF sh sm]
  show "j < length (mq_pool q) \<Longrightarrow> msg_of (mq_pool q' ! j) = msg_of (mq_pool q ! j)" by (rule ss(3))
  have "msg_next (mq_pool q' ! j) = msg_next (mq_pool q ! j)" if "j \<in> set fs" for j
    using q' that d(3) o(2,3) by (auto simp: linked_in_def)
  then have fr: "lseg (mq_pool q') (msg_queue_free q) fs None"
    using lseg_cong [OF sd(1), of fs] d(2) by simp
  have "qs' \<noteq> []" "set qs' = insert i (set qs)"
    using m mset_eq_setD [of qs' "i # qs"] by auto
  moreover have "unat (msg_length (mq_pool q' ! i)) \<le> unat (msg_size q)" using sd(2) [OF o(1)] len by simp
  moreover have "mset (qs' @ fs @ xs) = mset [0..<length (mq_pool q')]"
    using sh m sd(1) by (simp add: mq_shape_def)
  ultimately show "mq_shape q' qs' fs xs"
    using q' fr d(6) sd(1) ss(1,2) by (auto simp: mq_shape_def linked_in_def)
qed

lemma mq_link_ok:
  fixes prio :: int
  assumes sh: "mq_shape q qs fs (i # xs)" and nx: "msg_next (mq_pool q ! i) = None"
    and len: "unat (msg_length (mq_pool q ! i)) \<le> unat (msg_size q)"
  defines "c \<equiv> (mq_pool q ! i)\<lparr>msg_prio := prio\<rparr>"
  obtains q' where "mq_link i prio q = Some q'" "mq_shape q' (insert_where (\<lambda>j. msg_prio (mq_pool q ! j) < prio) i qs) fs xs"
    "msg_of (mq_pool q' ! i) = msg_of c" "\<And>j. j \<in> set qs \<Longrightarrow> msg_of (mq_pool q' ! j) = msg_of (mq_pool q ! j)"
    "msg_size q' = msg_size q" "max_msgs q' = max_msgs q" "mq_entry q' = mq_entry q"
proof -
  note o = owned_cell [OF sh, of i, simplified]
  let ?q1 = "q\<lparr>mq_pool := (mq_pool q)[i := c]\<rparr>"
  let ?P = "\<lambda>j. msg_prio (mq_pool q ! j) < prio"
  have s1: "mq_shape ?q1 qs fs (i # xs)" by (rule shape_upd [OF sh o(1-3)]) (simp add: c_def o(5))
  have c1: "mq_pool ?q1 ! i = c" using o(1) by simp
  have same: "mq_pool ?q1 ! j = mq_pool q ! j" if "j \<in> set qs" for j
  proof -
    have "i \<noteq> j" using that o(2) by auto
    then show ?thesis by simp
  qed
  have P: "insert_where (lower (mq_pool ?q1) i) i qs = insert_where ?P i qs"
    by (rule insert_where_cong) (use same c1 in \<open>simp add: c_def\<close>)
  have "\<exists>q'. mq_link i prio q = Some q' \<and> linked_in ?q1 i qs (insert_where ?P i qs) q'"
  proof (cases qs)
    case Nil
    have h: "msg_queue_head q = None" using mq_shapeD(1) [OF sh] Nil by simp
    let ?q2 = "?q1\<lparr>msg_queue_head := Some i, msg_queue_tail := Some i\<rparr>"
    have "mq_link i prio q = Some ?q2"
      unfolding mq_link_def using o(1) h nx c1
      by (simp add: mq_upd_def c_def [symmetric] Let_def)
         (subst mq_insert_loop.simps, simp add: mq_cell_def c_def)
    moreover have "linked_in ?q1 i qs (insert_where ?P i qs) ?q2"
      using Nil o(1) nx by (simp add: linked_in_def c_def)
    ultimately show ?thesis by blast
  next
    case (Cons v vs)
    have h: "msg_queue_head q = Some v" using mq_shapeD(1) [OF sh] Cons by simp
    have "\<exists>q'. mq_insert_loop i None (Some v) ?q1 = Some q' \<and>
       linked_in ?q1 i qs (insert_where (lower (mq_pool ?q1) i) i qs) q'"
      using mq_insert_loop_ok [of ?q1 "[]" qs i] mq_shapeD(1,3,7) [OF s1] o(1,2) nx Cons c1 by (simp add: c_def)
    then show ?thesis
      using h Cons o(1) P by (simp add: mq_link_def mq_upd_def c_def Let_def)
  qed
  then obtain q' where q': "mq_link i prio q = Some q'" "linked_in ?q1 i qs (insert_where ?P i qs) q'" by blast
  have "unat (msg_length (mq_pool ?q1 ! i)) \<le> unat (msg_size ?q1)" using len c1 by (simp add: c_def)
  note ls = linked_in_shape [OF s1 q'(2) this, simplified]
  have lt: "j < length (mq_pool q)" if "j \<in> set qs" for j using lseg_range [OF mq_shapeD(1) [OF sh] that] .
  show thesis
    by (rule that [OF q'(1) ls(1)])
       (use ls(2) lt same c1 o(1) q'(2) in \<open>auto simp: linked_in_def\<close>)
qed

section \<open>Whole calls on the queue\<close>

lemma map_insert_where:
  assumes "\<And>y. y \<in> set ys \<Longrightarrow> Q (f y) = P y"
  shows "map f (insert_where P x ys) = insert_where Q (f x) (map f ys)"
  using assms by (induction ys) auto

definition by_prio :: "int \<times> 8 word list \<Rightarrow> (int \<times> 8 word list) list \<Rightarrow> (int \<times> 8 word list) list" where
  "by_prio m ms = insert_where (\<lambda>y. fst y < fst m) m ms"

lemma mq_structD:
  assumes "mq_struct q"
  shows "mq_shape q (mq_queue q) (mq_free q) []" "unat (mq_entry q) = length (mq_contents q)"
    "length (mq_contents q) \<le> unat (max_msgs q)" "msg_queue_free q = None \<longleftrightarrow> length (mq_contents q) = unat (max_msgs q)"
proof -
  show sh: "mq_shape q (mq_queue q) (mq_free q) []" and "unat (mq_entry q) = length (mq_contents q)"
    using assms by (simp_all add: mq_struct_def mq_contents_def)
  have "length (mq_queue q) + length (mq_free q) = unat (max_msgs q)" using mq_shapeD(5,6) [OF sh] by simp
  then show "length (mq_contents q) \<le> unat (max_msgs q)" "msg_queue_free q = None \<longleftrightarrow> length (mq_contents q) = unat (max_msgs q)"
    using lseg_head [OF mq_shapeD(2) [OF sh]] by (auto simp: mq_contents_def split: list.splits)
qed

lemma mq_fill_ok:
  assumes st: "mq_struct q" and i: "msg_queue_free q = Some i" and sz: "unat sz \<le> unat (msg_size q)" "unat sz \<le> length buf"
  obtains q1 q2 q3 where "mq_take_free i q = Some q1" "mq_upd i (\<lambda>c. c\<lparr>msg_next := None\<rparr>) q1 = Some q2"
    "mq_copy_in i buf sz q2 = Some q3" "mq_shape q3 (mq_queue q) (tl (mq_free q)) [i]"
    "msg_next (mq_pool q3 ! i) = None" "msg_length (mq_pool q3 ! i) = sz" "take (unat sz) (msg_data (mq_pool q3 ! i)) = take (unat sz) buf"
    "\<forall>j \<in> set (mq_queue q). mq_pool q3 ! j = mq_pool q ! j"
    "msg_size q3 = msg_size q" "max_msgs q3 = max_msgs q" "mq_entry q3 = mq_entry q"
proof -
  note sh = mq_structD(1) [OF st]
  obtain fs where fs: "mq_free q = i # fs"
    using lseg_head [OF mq_shapeD(2) [OF sh]] i by (auto split: list.splits)
  let ?q1 = "q\<lparr>msg_queue_free := msg_next (mq_pool q ! i)\<rparr>"
  have t: "mq_take_free i q = Some ?q1" "mq_shape ?q1 (mq_queue q) fs [i]"
    using mq_take_free_ok [OF sh [unfolded fs]] by simp_all
  note o1 = owned_cell [OF t(2), of i, simplified]
  let ?c2 = "(mq_pool q ! i)\<lparr>msg_next := None\<rparr>"
  let ?c3 = "?c2\<lparr>msg_length := sz, msg_data := take (unat sz) buf @ drop (unat sz) (msg_data ?c2)\<rparr>"
  let ?q2 = "?q1\<lparr>mq_pool := (mq_pool q)[i := ?c2]\<rparr>" and ?q3 = "?q1\<lparr>mq_pool := (mq_pool q)[i := ?c3]\<rparr>"
  have s3: "mq_shape ?q3 (mq_queue q) fs [i]"
    using shape_upd [OF t(2), of i ?c3] o1 sz by simp
  have ne: "mq_pool ?q3 ! j = mq_pool q ! j" if "j \<in> set (mq_queue q)" for j
  proof -
    have "i \<noteq> j" using that o1(2) by auto
    then show ?thesis by simp
  qed
  show thesis
    by (rule that [of ?q1 ?q2 ?q3])
       (use t s3 ne fs o1 sz in \<open>simp_all add: mq_upd_def mq_copy_in_def mq_cell_def\<close>)
qed

lemma mq_send_cell:
  assumes st: "mq_struct q" and i: "msg_queue_free q = Some i" and sz: "unat sz \<le> unat (msg_size q)" "unat sz \<le> length buf"
  obtains q1 q2 q3 q4 where "mq_take_free i q = Some q1" "mq_upd i (\<lambda>c. c\<lparr>msg_next := None\<rparr>) q1 = Some q2"
    "mq_copy_in i buf sz q2 = Some q3" "mq_link i prio q3 = Some q4" "mq_entry q4 = mq_entry q" "mq_entry q4 < RT_MQ_ENTRY_MAX"
    "mq_struct (q4\<lparr>mq_entry := mq_entry q4 + 1\<rparr>)" "msg_size q4 = msg_size q" "max_msgs q4 = max_msgs q"
    "mq_contents (q4\<lparr>mq_entry := mq_entry q4 + 1\<rparr>) = by_prio (prio, take (unat sz) buf) (mq_contents q)"
proof -
  note sd = mq_structD [OF st]
  obtain q1 q2 q3 where f: "mq_take_free i q = Some q1" "mq_upd i (\<lambda>c. c\<lparr>msg_next := None\<rparr>) q1 = Some q2"
    "mq_copy_in i buf sz q2 = Some q3" "mq_shape q3 (mq_queue q) (tl (mq_free q)) [i]"
    "msg_next (mq_pool q3 ! i) = None" "msg_length (mq_pool q3 ! i) = sz" "take (unat sz) (msg_data (mq_pool q3 ! i)) = take (unat sz) buf"
    "\<forall>j \<in> set (mq_queue q). mq_pool q3 ! j = mq_pool q ! j"
    "msg_size q3 = msg_size q" "max_msgs q3 = max_msgs q" "mq_entry q3 = mq_entry q"
    by (rule mq_fill_ok [OF st i sz])
  let ?P = "\<lambda>j. msg_prio (mq_pool q3 ! j) < prio" and ?m = "(prio, take (unat sz) buf)"
  have "unat (msg_length (mq_pool q3 ! i)) \<le> unat (msg_size q3)" using f(6,9) sz(1) by simp
  then obtain q4 where l: "mq_link i prio q3 = Some q4" "mq_shape q4 (insert_where ?P i (mq_queue q)) (tl (mq_free q)) []"
    "msg_of (mq_pool q4 ! i) = msg_of ((mq_pool q3 ! i)\<lparr>msg_prio := prio\<rparr>)"
    "\<And>j. j \<in> set (mq_queue q) \<Longrightarrow> msg_of (mq_pool q4 ! j) = msg_of (mq_pool q3 ! j)"
    "msg_size q4 = msg_size q3" "max_msgs q4 = max_msgs q3" "mq_entry q4 = mq_entry q3"
    using mq_link_ok [OF f(4,5), of prio] by blast
  have "unat (mq_entry q) < unat (max_msgs q)" using sd(2,3,4) i by auto
  then have lt: "mq_entry q < max_msgs q" by (simp add: word_less_nat_alt)
  then have e: "unat (mq_entry q + 1) = unat (mq_entry q) + 1" by (rule unat_plus_one)
  have le: "x \<le> 0xffff" for x :: "16 word" using unat_16 [of x] by (simp add: word_le_nat_alt)
  have max: "mq_entry q < RT_MQ_ENTRY_MAX" using less_le_trans [OF lt le] .
  let ?q5 = "q4\<lparr>mq_entry := mq_entry q4 + 1\<rparr>"
  have s5: "mq_shape ?q5 (insert_where ?P i (mq_queue q)) (tl (mq_free q)) []" using l(2) by (simp add: mq_shape_def)
  have "length (insert_where ?P i (mq_queue q)) = Suc (length (mq_queue q))"
    by (metis mset_insert_where size_add_mset size_mset)
  then have ent: "unat (mq_entry ?q5) = length (insert_where ?P i (mq_queue q))"
    using e l(7) f(11) sd(2) by (simp add: mq_contents_def)
  note si = mq_structI [OF s5 ent]
  have im: "msg_of (mq_pool q4 ! i) = ?m" using l(3) f(6,7) by (simp add: msg_of_def)
  have jm: "msg_of (mq_pool q4 ! j) = msg_of (mq_pool q ! j)" if "j \<in> set (mq_queue q)" for j
    using l(4) [OF that] f(8) that by simp
  have "mq_contents ?q5 = insert_where (\<lambda>y. fst y < prio) ?m (map (\<lambda>j. msg_of (mq_pool q4 ! j)) (mq_queue q))"
    unfolding si(2) using map_insert_where [of "mq_queue q" "\<lambda>y. fst y < prio" "\<lambda>j. msg_of (mq_pool q4 ! j)" ?P i]
      im jm f(8) by (simp add: msg_of_def)
  also have "\<dots> = by_prio ?m (mq_contents q)"
    using jm by (simp add: by_prio_def mq_contents_def cong: map_cong)
  finally show thesis
    using that [OF f(1-3) l(1)] si(1) l(5-7) f(9-11) max by simp
qed

lemma mq_recv_cell:
  assumes st: "mq_struct q" and ne: "mq_entry q \<noteq> 0"
  obtains i q1 q3 m ms where "mq_unlink q = Some (i, q1)" "mq_entry q1 = mq_entry q" "mq_contents q = m # ms"
    "mq_copy_out i sz (q1\<lparr>mq_entry := mq_entry q1 - 1\<rparr>) =
       Some (min sz (of_nat (length (snd m))), take (unat sz) (snd m), fst m)"
    "mq_put_free i (q1\<lparr>mq_entry := mq_entry q1 - 1\<rparr>) = Some q3" "mq_struct q3" "mq_contents q3 = ms"
    "max_msgs q3 = max_msgs q" "msg_size q3 = msg_size q" "length (snd m) \<le> unat (msg_size q)"
proof -
  note sd = mq_structD [OF st]
  have "0 < unat (mq_entry q)" using ne by (simp add: unat_gt_0)
  then obtain i qs where iq: "mq_queue q = i # qs" using sd(2) by (cases "mq_queue q") (auto simp: mq_contents_def)
  note sh = sd(1) [unfolded iq]
  obtain q1 where q1: "mq_unlink q = Some (i, q1)" "mq_shape q1 qs (mq_free q) [i]" "mq_pool q1 = mq_pool q"
    "msg_size q1 = msg_size q" "max_msgs q1 = max_msgs q" "mq_entry q1 = mq_entry q"
    using mq_unlink_ok [OF sh] by blast
  let ?q2 = "q1\<lparr>mq_entry := mq_entry q1 - 1\<rparr>" and ?c = "mq_pool q ! i"
  have s2: "mq_shape ?q2 qs (mq_free q) [i]" using q1(2) by (simp add: mq_shape_def)
  note o = owned_cell [OF s2, of i, simplified] and pf = mq_put_free_ok [OF s2]
  have len: "unat (msg_length ?c) \<le> unat (msg_size q)" using mq_shapeD(9) [OF sh, of i] by simp
  then have data: "unat (msg_length ?c) \<le> length (msg_data ?c)" using o(5) q1(3,4) by simp
  have "(if msg_length ?c > sz then sz else msg_length ?c) = min sz (msg_length ?c)"
    by (auto simp: min_def not_le)
  moreover have "unat (min sz (msg_length ?c)) \<le> length (msg_data ?c)"
    using data by (simp add: min_def word_le_nat_alt)
  ultimately have "mq_copy_out i sz ?q2 =
      Some (min sz (msg_length ?c), take (unat (min sz (msg_length ?c))) (msg_data ?c), msg_prio ?c)"
    using o(1) q1(3) by (simp add: mq_copy_out_def mq_cell_def Let_def)
  moreover have "take (unat (min sz (msg_length ?c))) (msg_data ?c) = take (unat sz) (snd (msg_of ?c))"
    by (auto simp: msg_of_def min_def word_le_nat_alt)
  moreover have "of_nat (length (snd (msg_of ?c))) = msg_length ?c" using data by (simp add: msg_of_def)
  moreover have "mq_contents q = msg_of ?c # map (\<lambda>j. msg_of (mq_pool q ! j)) qs" by (simp add: mq_contents_def iq)
  moreover have ent: "unat (mq_entry ?q2) = length qs"
    using sd(2) ne q1(6) by (simp add: mq_contents_def iq unat_minus_one)
  moreover have "length (snd (msg_of ?c)) \<le> unat (msg_size q)" using data len by (simp add: msg_of_def)
  ultimately show thesis
    using that [OF q1(1,6), of "msg_of ?c"] pf mq_structI [OF pf(2)] q1(3-5)
    by (simp add: msg_of_def)
qed

text \<open>The queue as a store: a whole send without its kernel part, and a whole receive.\<close>

definition mq_put :: "int \<times> 8 word list \<Rightarrow> rt_messagequeue \<Rightarrow> rt_messagequeue option" where
  "mq_put m q = do {
     i \<leftarrow> msg_queue_free q;
     q1 \<leftarrow> mq_take_free i q;
     q2 \<leftarrow> mq_upd i (\<lambda>c. c\<lparr>msg_next := None\<rparr>) q1;
     q3 \<leftarrow> mq_copy_in i (snd m) (of_nat (length (snd m))) q2;
     q4 \<leftarrow> mq_link i (fst m) q3;
     Some (q4\<lparr>mq_entry := mq_entry q4 + 1\<rparr>)
   }"

definition mq_get :: "rt_messagequeue \<Rightarrow> ((int \<times> 8 word list) \<times> rt_messagequeue) option" where
  "mq_get q = do {
     (i, q1) \<leftarrow> mq_unlink q;
     let q2 = q1\<lparr>mq_entry := mq_entry q1 - 1\<rparr>;
     (len, bytes, prio) \<leftarrow> mq_copy_out i (ucast (msg_size q)) q2;
     q3 \<leftarrow> mq_put_free i q2;
     Some ((prio, bytes), q3)
   }"

lemma unat_ucast_16 [simp]: "unat (ucast (x :: 16 word) :: 64 word) = unat x"
  by (simp add: unsigned_ucast_eq take_bit_nat_eq_self less_trans [OF unat_16])

interpretation msgq: bounded_store mq_struct mq_contents "\<lambda>q. unat (max_msgs q)" by_prio
  "\<lambda>m q. length (snd m) \<le> unat (msg_size q)" mq_put "\<lambda>_ _. None" mq_get "\<lambda>q. msg_queue_free q = None" "\<lambda>q. mq_entry q = 0" False
proof
  fix q :: rt_messagequeue and m y :: "int \<times> 8 word list" and ys
  assume st: "mq_struct q"
  note sd = mq_structD [OF st]
  show "msg_queue_free q = None \<longleftrightarrow> length (mq_contents q) = unat (max_msgs q)" by (rule sd(4))
  show "length (mq_contents q) \<le> unat (max_msgs q)" by (rule sd(3))
  have "mq_entry q = 0 \<longleftrightarrow> unat (mq_entry q) = 0" by (simp add: unat_eq_0)
  then show "mq_entry q = 0 \<longleftrightarrow> mq_contents q = []" using sd(2) by simp
  show "\<exists>q'. mq_put m q = Some q' \<and> mq_struct q' \<and> mq_contents q' = by_prio m (mq_contents q) \<and>
      unat (max_msgs q') = unat (max_msgs q) \<and> (\<forall>y. (length (snd y) \<le> unat (msg_size q')) = (length (snd y) \<le> unat (msg_size q)))"
    if a: "length (snd m) \<le> unat (msg_size q)" "length (mq_contents q) < unat (max_msgs q)"
  proof -
    obtain i where i: "msg_queue_free q = Some i" using sd(4) a(2) by (cases "msg_queue_free q") auto
    have "length (snd m) < 2 ^ 64" using a(1) unat_16 [of "msg_size q"] by simp
    then have u: "unat (of_nat (length (snd m)) :: 64 word) = length (snd m)"
      by (simp add: unat_of_nat)
    have sz: "unat (of_nat (length (snd m)) :: 64 word) \<le> unat (msg_size q)"
      "unat (of_nat (length (snd m)) :: 64 word) \<le> length (snd m)"
      unfolding u using a(1) by simp_all
    show ?thesis
    proof (rule mq_send_cell [OF st i sz, of "fst m"])
      fix q1 q2 q3 q4
      assume "mq_take_free i q = Some q1" "mq_upd i (\<lambda>c. c\<lparr>msg_next := None\<rparr>) q1 = Some q2"
        "mq_copy_in i (snd m) (of_nat (length (snd m))) q2 = Some q3" "mq_link i (fst m) q3 = Some q4"
        "mq_struct (q4\<lparr>mq_entry := mq_entry q4 + 1\<rparr>)" "msg_size q4 = msg_size q" "max_msgs q4 = max_msgs q"
        "mq_contents (q4\<lparr>mq_entry := mq_entry q4 + 1\<rparr>) =
           by_prio (fst m, take (unat (of_nat (length (snd m)) :: 64 word)) (snd m)) (mq_contents q)"
      then show ?thesis using i u by (simp add: mq_put_def)
    qed
  qed
  show "\<exists>q'. mq_get q = Some (y, q') \<and> mq_struct q' \<and> mq_contents q' = ys \<and> unat (max_msgs q') = unat (max_msgs q) \<and>
      (\<forall>z. (length (snd z) \<le> unat (msg_size q')) = (length (snd z) \<le> unat (msg_size q)))" if c: "mq_contents q = y # ys"
  proof -
    have "mq_entry q \<noteq> 0" using sd(2) c by auto
    then obtain i q1 q3 m ms where r: "mq_unlink q = Some (i, q1)" "mq_contents q = m # ms"
      "mq_copy_out i (ucast (msg_size q)) (q1\<lparr>mq_entry := mq_entry q1 - 1\<rparr>) =
         Some (min (ucast (msg_size q)) (of_nat (length (snd m))), take (unat (ucast (msg_size q) :: 64 word)) (snd m), fst m)"
      "mq_put_free i (q1\<lparr>mq_entry := mq_entry q1 - 1\<rparr>) = Some q3" "mq_struct q3" "mq_contents q3 = ms"
      "max_msgs q3 = max_msgs q" "msg_size q3 = msg_size q" "length (snd m) \<le> unat (msg_size q)"
      by (rule mq_recv_cell [OF st])
    then show ?thesis using c by (simp add: mq_get_def)
  qed
qed simp

section \<open>The calls\<close>

definition mq_ok :: "nat \<Rightarrow> kernel \<Rightarrow> bool" where
  "mq_ok mq s \<longleftrightarrow> rt_object_get_type (OMq mq) s = RT_Object_Class_MessageQueue \<and> valid_flag (mq_flag mq s) \<and>
     mq_struct (mqs s mq)"

definition mq_abs :: "nat \<Rightarrow> kernel \<Rightarrow> (int \<times> 8 word list) list \<times> tid list \<times> tid list" where
  "mq_abs mq s = (mq_contents (mqs s mq), lists s (MqRecv mq), lists s (MqSend mq))"

lemma put_mq_frame [simp]:
  "sys_inv (put_mq mq q s) = sys_inv s" "lists (put_mq mq q s) = lists s" "threads (put_mq mq q s) = threads s"
  "mqs (put_mq mq q s) mq = q" "runnable (put_mq mq q s) = runnable s"
  "rt_object_get_type a (put_mq mq q s) = rt_object_get_type a s" "mq_flag k (put_mq mq q s) = mq_flag k s"
  by (simp_all add: put_mq_def runnable_def stat_of_def mq_flag_def)

lemma mq_flag_set_error: "mq_flag mq (set_error t e s) = mq_flag mq s"
  by (simp add: mq_flag_def set_error_def)

lemma mq_frame:
  assumes "ipc_frame s s'"
  shows "mq_flag mq s' = mq_flag mq s" "mqs s' = mqs s" "mq_ok mq s' = mq_ok mq s"
  using ipc_frameD [OF assms] by (simp_all add: mq_flag_def mq_ok_def)

lemma mq_wake:
  assumes inv: "sys_inv s" and ok: "mq_ok mq s" "mq_struct q" and l: "l = MqRecv mq \<or> l = MqSend mq"
  obtains s' where "ipc_wake_one l (put_mq mq q s) = Some s'" "sys_inv s'" "mq_ok mq s'"
    "mqs s' mq = q" "lists s' l = tl (lists s l)" "\<And>k. wait_id k \<Longrightarrow> k \<noteq> l \<Longrightarrow> lists s' k = lists s k"
    "runnable s' = runnable s \<union> set (take 1 (lists s l))"
    "\<forall>t \<in> set (take 1 (lists s l)). thr_error (thr s' t) = RT_EOK"
proof -
  have i: "sys_inv (put_mq mq q s)" and wl: "wait_id l" using inv l by auto
  obtain s' where s': "ipc_wake_one l (put_mq mq q s) = Some s'" "woken_one l (put_mq mq q s) s'"
    using ipc_wake_one_ok [OF i wl] .
  note w = woken_oneD [OF s'(2) i wl]
  have "mq_ok mq (put_mq mq q s)" using ok by (simp add: mq_ok_def)
  then show thesis
    using that s'(1) w mq_frame [OF w(2)] by simp
qed

text \<open>
  C27. Sending to a message queue.  A message longer than the message size is
  refused with \<^verbatim>\<open>-RT_ERROR\<close>; with a free cell the bytes are stored behind all
  messages of the same or higher priority and the first waiting receiver becomes
  runnable; with none free, a call that may not wait returns \<^verbatim>\<open>-RT_EFULL\<close>, an
  interrupted one \<^verbatim>\<open>-RT_EINTR\<close>, and any other call suspends the sender.  No access
  leaves the pool or a data area, the two lists stay disjoint and cover the pool.
\<close>

theorem mq_send_refines:
  assumes inv: "sys_inv s" and ok: "mq_ok mq s" and t: "rt_current_thread s = Some t" "stat_of s t = RT_THREAD_RUNNING"
    and n: "timeout < 0x7fffffff" and flag: "sflag \<in> suspend_flags" "lwp_thread_signal_suspend_check t sflag s = Some k"
    and sz: "sz \<noteq> 0" "unat sz \<le> length buf"
  shows "\<exists>r s'. rt_mq_send_wait_flag mq buf sz prio timeout sflag s = Some (r, s') \<and> sys_inv s' \<and> mq_ok mq s' \<and>
     (let (ms, rq, sq) = mq_abs mq s in
      if unat (msg_size (mqs s mq)) < unat sz then r = Done (- RT_ERROR) \<and> s' = s
      else if length ms < unat (max_msgs (mqs s mq))
      then r = Done RT_EOK \<and> mq_abs mq s' = (by_prio (prio, take (unat sz) buf) ms, tl rq, sq) \<and>
           runnable s' = runnable s \<union> set (take 1 rq) \<and> (\<forall>u \<in> set (take 1 rq). thr_error (thr s' u) = RT_EOK)
      else if timeout = 0 then r = Done (- RT_EFULL) \<and> s' = s
      else if k = 0 then r = Done (- RT_EINTR) \<and> mq_abs mq s' = (ms, rq, sq)
      else r = Blocked \<and> suspended s' t \<and> mq_abs mq s' = (ms, rq, wait_order (mq_flag mq s) s t sq))"
proof -
  let ?q = "mqs s mq"
  have ty: "rt_object_get_type (OMq mq) s = RT_Object_Class_MessageQueue" and vf: "valid_flag (mq_flag mq s)"
    and st: "mq_struct ?q" using ok by (simp_all add: mq_ok_def)
  note sd = mq_structD [OF st]
  have big: "ucast (msg_size ?q) < sz \<longleftrightarrow> unat (msg_size ?q) < unat sz" by (simp add: word_less_nat_alt)
  show ?thesis
  proof (cases "unat (msg_size ?q) < unat sz")
    case True
    then show ?thesis using big ty sz(1) inv ok by (simp add: rt_mq_send_wait_flag_def mq_abs_def)
  next
    case small: False
    show ?thesis
    proof (cases "msg_queue_free ?q")
      case (Some i)
      have room: "length (mq_contents ?q) < unat (max_msgs ?q)" using sd(3,4) Some by auto
      have le: "unat sz \<le> unat (msg_size ?q)" using small by simp
      show ?thesis
      proof (rule mq_send_cell [OF st Some le sz(2), of prio])
        fix q1 q2 q3 q4
        assume c: "mq_take_free i ?q = Some q1" "mq_upd i (\<lambda>c. c\<lparr>msg_next := None\<rparr>) q1 = Some q2"
          "mq_copy_in i buf sz q2 = Some q3" "mq_link i prio q3 = Some q4" "mq_entry q4 < RT_MQ_ENTRY_MAX"
          "mq_struct (q4\<lparr>mq_entry := mq_entry q4 + 1\<rparr>)"
          "mq_contents (q4\<lparr>mq_entry := mq_entry q4 + 1\<rparr>) = by_prio (prio, take (unat sz) buf) (mq_contents ?q)"
        obtain s' where s': "ipc_wake_one (MqRecv mq) (put_mq mq (q4\<lparr>mq_entry := mq_entry q4 + 1\<rparr>) s) = Some s'"
          "sys_inv s'" "mq_ok mq s'" "mqs s' mq = q4\<lparr>mq_entry := mq_entry q4 + 1\<rparr>"
          "lists s' (MqRecv mq) = tl (lists s (MqRecv mq))" "\<And>k. wait_id k \<Longrightarrow> k \<noteq> MqRecv mq \<Longrightarrow> lists s' k = lists s k"
          "runnable s' = runnable s \<union> set (take 1 (lists s (MqRecv mq)))"
          "\<forall>t \<in> set (take 1 (lists s (MqRecv mq))). thr_error (thr s' t) = RT_EOK"
          using mq_wake [OF inv ok c(6), of "MqRecv mq"] by auto
        have "rt_mq_send_wait_flag mq buf sz prio timeout sflag s = Some (Done RT_EOK, s')"
          using ty sz(1) small big Some c(1-5) s'(1) by (simp add: rt_mq_send_wait_flag_def mq_send_loop_def)
        with s' c(7) room small show ?thesis by (simp add: mq_abs_def)
      qed
    next
      case None
      have full: "length (mq_contents ?q) = unat (max_msgs ?q)" using sd(4) None by simp
      show ?thesis
      proof (cases "timeout = 0")
        case True
        with full None ty inv ok sz(1) small big show ?thesis by (simp add: rt_mq_send_wait_flag_def mq_abs_def)
      next
        case False
        obtain r s' where w: "ipc_wait (MqSend mq) t (mq_flag mq s) timeout sflag (set_error t (- RT_EINTR) s) = Some (r, s')"
          "sys_inv s'" "ipc_frame s s'" "\<And>m. wait_id m \<Longrightarrow> m \<noteq> MqSend mq \<Longrightarrow> lists s' m = lists s m"
          "if k = 0 then r = Done (- RT_EINTR) \<and> lists s' (MqSend mq) = lists s (MqSend mq)
           else r = Blocked \<and> suspended s' t \<and> lists s' (MqSend mq) = wait_order (mq_flag mq s) s t (lists s (MqSend mq))"
          using ipc_wait_call [OF inv t vf n _ flag, of "MqSend mq"] by auto
        have "rt_mq_send_wait_flag mq buf sz prio timeout sflag s = Some (r, s')"
          using None ty False t(1) sz(1) small big w(1)
          by (simp add: rt_mq_send_wait_flag_def mq_send_loop_def rt_thread_self_def Let_def mq_flag_set_error)
        with w full False small ok mq_frame [OF w(3)] show ?thesis by (simp add: mq_abs_def split: if_split_asm)
      qed
    qed
  qed
qed

definition sample_cell :: rt_mq_message where
  "sample_cell = \<lparr>msg_next = None, msg_length = 0, msg_prio = 0, msg_data = [0, 0, 0, 0, 0, 0, 0, 0]\<rparr>"

text \<open>A queue of two cells of up to four bytes: cell 0 holds a message, cell 1 is free.\<close>

definition sample_mq :: rt_messagequeue where
  "sample_mq = \<lparr>mq_pool = [sample_cell\<lparr>msg_length := 2, msg_prio := 3, msg_data := [1, 2, 0, 0]\<rparr>, sample_cell],
     msg_size = 4, max_msgs = 2, mq_entry = 1, msg_queue_head = Some 0, msg_queue_tail = Some 0, msg_queue_free = Some 1\<rparr>"

definition mq_system :: kernel where
  "mq_system = put_mq 5 sample_mq small_system"

lemma sample_mq_ok: "mq_struct sample_mq" "mq_contents sample_mq = [(3, [1, 2])]"
proof -
  have "mq_shape sample_mq [0] [1] []"
    by (auto simp: mq_shape_def sample_mq_def sample_cell_def upt_rec)
  moreover have "unat (mq_entry sample_mq) = length [0 :: nat]" by (simp add: sample_mq_def)
  ultimately show "mq_struct sample_mq" "mq_contents sample_mq = [(3, [1, 2])]"
    using mq_structI [of sample_mq "[0]" "[1]"] by (simp_all add: sample_mq_def msg_of_def)
qed

lemma mq_system_ok: "sys_inv mq_system" "mq_ok 5 mq_system" "rt_current_thread mq_system = Some 2"
  "stat_of mq_system 2 = RT_THREAD_RUNNING" "mq_abs 5 mq_system = ([(3, [1, 2])], [], [])"
proof -
  show "sys_inv mq_system" "rt_current_thread mq_system = Some 2" "stat_of mq_system 2 = RT_THREAD_RUNNING"
    using sys_inv_small small_running by (simp_all add: mq_system_def stat_of_def) (simp add: put_mq_def)
  show "mq_ok 5 mq_system"
    using sample_mq_ok(1)
    by (simp add: mq_ok_def mq_system_def mq_flag_def valid_flag_def rt_object_get_type_def)
       (simp add: put_mq_def small_system_def kernel_reset_def)
  show "mq_abs 5 mq_system = ([(3, [1, 2])], [], [])"
    using sample_mq_ok(2) by (simp add: mq_abs_def mq_system_def small_system_def kernel_reset_def)
qed

theorem mq_send_refines_witness:
  "\<exists>s'. rt_mq_send_wait_flag 5 [9, 8, 7] 3 5 0 RT_UNINTERRUPTIBLE mq_system = Some (Done RT_EOK, s') \<and>
     mq_abs 5 s' = ([(5, [9, 8, 7]), (3, [1, 2])], [], [])"
proof -
  have "unat (msg_size (mqs mq_system 5)) = 4" "unat (max_msgs (mqs mq_system 5)) = 2"
    by (simp_all add: mq_system_def sample_mq_def)
  with mq_send_refines [OF mq_system_ok(1-4), where timeout = 0 and sflag = RT_UNINTERRUPTIBLE and k = 1 and sz = 3
      and buf = "[9, 8, 7]" and prio = 5] mq_system_ok(5)
  show ?thesis by (auto simp: suspend_flags_def by_prio_def lwp_thread_signal_suspend_check_def)
qed

text \<open>
  C28. Receiving from a message queue.  The first message is removed and its bytes,
  cut to the size of the caller's buffer, are delivered with its priority; the
  result is the number of bytes; its cell is free again and the first waiting
  sender becomes runnable.  With no message, a call that may not wait returns
  \<^verbatim>\<open>-RT_ETIMEOUT\<close>, an interrupted one \<^verbatim>\<open>-RT_EINTR\<close>, and any other suspends.
\<close>

theorem mq_recv_refines:
  assumes inv: "sys_inv s" and ok: "mq_ok mq s" and t: "rt_current_thread s = Some t" "stat_of s t = RT_THREAD_RUNNING"
    and n: "timeout < 0x7fffffff" and flag: "sflag \<in> suspend_flags" "lwp_thread_signal_suspend_check t sflag s = Some k"
    and sz: "sz \<noteq> 0"
  shows "\<exists>r v s'. rt_mq_recv_flag mq sz timeout sflag s = Some (r, v, s') \<and> sys_inv s' \<and> mq_ok mq s' \<and>
     (let (ms, rq, sq) = mq_abs mq s in
      case ms of
        (p, bytes) # ms' \<Rightarrow>
           r = Done (int (min (unat sz) (length bytes))) \<and> v = Some (take (unat sz) bytes, p) \<and>
           mq_abs mq s' = (ms', rq, tl sq) \<and> runnable s' = runnable s \<union> set (take 1 sq) \<and>
           (\<forall>u \<in> set (take 1 sq). thr_error (thr s' u) = RT_EOK)
      | [] \<Rightarrow> v = None \<and>
          (if timeout = 0 then r = Done (- RT_ETIMEOUT) \<and> s' = s
           else if k = 0 then r = Done (- RT_EINTR) \<and> mq_abs mq s' = (ms, rq, sq)
           else r = Blocked \<and> suspended s' t \<and> mq_abs mq s' = (ms, wait_order (mq_flag mq s) s t rq, sq)))"
proof -
  let ?q = "mqs s mq"
  have ty: "rt_object_get_type (OMq mq) s = RT_Object_Class_MessageQueue" and vf: "valid_flag (mq_flag mq s)"
    and st: "mq_struct ?q" using ok by (simp_all add: mq_ok_def)
  show ?thesis
  proof (cases "mq_entry ?q = 0")
    case False
    show ?thesis
    proof (rule mq_recv_cell [OF st False, of sz])
      fix i q1 q3 m ms
      assume c: "mq_unlink ?q = Some (i, q1)" "mq_entry q1 = mq_entry ?q" "mq_contents ?q = m # ms"
        "mq_copy_out i sz (q1\<lparr>mq_entry := mq_entry q1 - 1\<rparr>) =
           Some (min sz (of_nat (length (snd m))), take (unat sz) (snd m), fst m)"
        "mq_put_free i (q1\<lparr>mq_entry := mq_entry q1 - 1\<rparr>) = Some q3" "mq_struct q3" "mq_contents q3 = ms"
        "length (snd m) \<le> unat (msg_size ?q)"
      obtain s' where s': "ipc_wake_one (MqSend mq) (put_mq mq q3 s) = Some s'"
        "sys_inv s'" "mq_ok mq s'" "mqs s' mq = q3"
        "lists s' (MqSend mq) = tl (lists s (MqSend mq))" "\<And>k. wait_id k \<Longrightarrow> k \<noteq> MqSend mq \<Longrightarrow> lists s' k = lists s k"
        "runnable s' = runnable s \<union> set (take 1 (lists s (MqSend mq)))"
        "\<forall>t \<in> set (take 1 (lists s (MqSend mq))). thr_error (thr s' t) = RT_EOK"
        using mq_wake [OF inv ok c(6), of "MqSend mq"] by auto
      have "length (snd m) < 2 ^ 64" using c(8) unat_16 [of "msg_size ?q"] by simp
      then have u: "unat (of_nat (length (snd m)) :: 64 word) = length (snd m)" by (simp add: unat_of_nat)
      then have "unat (min sz (of_nat (length (snd m)))) = min (unat sz) (length (snd m))"
        by (simp add: min_def word_le_nat_alt)
      then have len: "uint (min sz (of_nat (length (snd m)))) = int (min (unat sz) (length (snd m)))"
        by (simp only: uint_nat)
      have "rt_mq_recv_flag mq sz timeout sflag s =
          Some (Done (uint (min sz (of_nat (length (snd m))))), Some (take (unat sz) (snd m), fst m), s')"
        using ty sz False c(1,2,4,5) s'(1) word_neq_0_conv [of "mq_entry ?q"]
        by (simp add: rt_mq_recv_flag_def mq_recv_loop_def Let_def)
      with s' c(3,7) len show ?thesis by (cases m) (simp add: mq_abs_def)
    qed
  next
    case none: True
    have "length (mq_contents ?q) = 0" using mq_structD(2) [OF st] none by simp
    then have ms: "mq_contents ?q = []" by simp
    show ?thesis
    proof (cases "timeout = 0")
      case True
      with none ty inv ok ms sz show ?thesis by (simp add: rt_mq_recv_flag_def mq_abs_def)
    next
      case False
      obtain r s' where w: "ipc_wait (MqRecv mq) t (mq_flag mq s) timeout sflag (set_error t (- RT_EINTR) s) = Some (r, s')"
        "sys_inv s'" "ipc_frame s s'" "\<And>m. wait_id m \<Longrightarrow> m \<noteq> MqRecv mq \<Longrightarrow> lists s' m = lists s m"
        "if k = 0 then r = Done (- RT_EINTR) \<and> lists s' (MqRecv mq) = lists s (MqRecv mq)
         else r = Blocked \<and> suspended s' t \<and> lists s' (MqRecv mq) = wait_order (mq_flag mq s) s t (lists s (MqRecv mq))"
        using ipc_wait_call [OF inv t vf n _ flag, of "MqRecv mq"] by auto
      have "rt_mq_recv_flag mq sz timeout sflag s = Some (r, None, s')"
        using none ty False t(1) w(1) sz
        by (simp add: rt_mq_recv_flag_def mq_recv_loop_def rt_thread_self_def Let_def mq_flag_set_error)
      with w ms False ok mq_frame [OF w(3)] show ?thesis by (simp add: mq_abs_def split: if_split_asm)
    qed
  qed
qed

theorem mq_recv_refines_witness:
  "\<exists>s'. rt_mq_recv_flag 5 1 0 RT_UNINTERRUPTIBLE mq_system = Some (Done 1, Some ([1], 3), s') \<and> mq_abs 5 s' = ([], [], [])"
  using mq_recv_refines [OF mq_system_ok(1-4), where timeout = 0 and sflag = RT_UNINTERRUPTIBLE and k = 1 and sz = 1] mq_system_ok(5)
  by (auto simp: suspend_flags_def lwp_thread_signal_suspend_check_def)

text \<open>
  C29. A message queue is a stable priority queue: over any sequence of sends and
  receives, the messages it delivers and those it still holds are the ones of a
  list in which a message is inserted behind all messages of the same or a higher
  priority and taken from the front, up to the capacity of the pool; when the
  queue starts in priority order it stays so.
\<close>

lemma by_prio_sorted:
  "sorted_wrt (\<lambda>a b. fst b \<le> fst a) ms \<Longrightarrow> sorted_wrt (\<lambda>a b. fst b \<le> fst a) (by_prio m ms)"
  unfolding by_prio_def by (induction ms) (auto simp: not_less)

lemma list_store_sorted:
  assumes "sorted_wrt (\<lambda>a b. fst b \<le> fst a) ms" "\<forall>x. Urgent x \<notin> set ops"
  shows "sorted_wrt (\<lambda>a b. fst b \<le> fst a) (snd (list_store by_prio n ops ms))"
  using assms
  by (induction "by_prio" n ops ms rule: list_store.induct)
     (auto simp: by_prio_sorted Let_def split: prod.splits list.splits)

theorem mq_is_a_priority_queue:
  assumes "mq_struct q" "\<forall>x. Urgent x \<notin> set ops" "\<forall>m. Put m \<in> set ops \<longrightarrow> length (snd m) \<le> unat (msg_size q)"
  shows "\<exists>out q'. run_store mq_put (\<lambda>_ _. None) mq_get (\<lambda>q. msg_queue_free q = None) (\<lambda>q. mq_entry q = 0) ops q
       = Some (out, q') \<and> mq_struct q' \<and>
     (out, mq_contents q') = list_store by_prio (unat (max_msgs q)) ops (mq_contents q) \<and>
     (sorted_wrt (\<lambda>a b. fst b \<le> fst a) (mq_contents q) \<longrightarrow> sorted_wrt (\<lambda>a b. fst b \<le> fst a) (mq_contents q'))"
proof -
  obtain out q' where r: "run_store mq_put (\<lambda>_ _. None) mq_get (\<lambda>q. msg_queue_free q = None) (\<lambda>q. mq_entry q = 0) ops q
       = Some (out, q')" "mq_struct q'" "(out, mq_contents q') = list_store by_prio (unat (max_msgs q)) ops (mq_contents q)"
    using msgq.run_refines [OF assms(1), of ops] assms(2,3) by auto
  then have "mq_contents q' = snd (list_store by_prio (unat (max_msgs q)) ops (mq_contents q))" by (metis snd_conv)
  then show ?thesis using r list_store_sorted [OF _ assms(2)] by auto
qed

theorem mq_is_a_priority_queue_witness:
  "\<exists>q'. run_store mq_put (\<lambda>_ _. None) mq_get (\<lambda>q. msg_queue_free q = None) (\<lambda>q. mq_entry q = 0)
     [Put (5, [7]), Put (9, [8]), Get, Put (3, [4]), Get, Get] sample_mq = Some ([(5, [7]), (3, [1, 2]), (3, [4])], q')"
proof -
  have "unat (msg_size sample_mq) = 4" "unat (max_msgs sample_mq) = 2" by (simp_all add: sample_mq_def)
  with mq_is_a_priority_queue [OF sample_mq_ok(1), of "[Put (5, [7]), Put (9, [8]), Get, Put (3, [4]), Get, Get]"] sample_mq_ok(2)
  show ?thesis by (auto simp: by_prio_def simp del: run_store.simps)
qed

text \<open>
  \<^verbatim>\<open>rt_mq_init\<close> cuts the caller's buffer into cells: with room for none it
  answers \<^verbatim>\<open>-RT_EINVAL\<close>, otherwise it returns with an empty, well formed queue all
  of whose cells are free, the last one first.
\<close>

lemma mq_free_loop_ok:
  assumes "mq_shape q [] fs ([temp..<n] @ xs)" "temp \<le> n"
  shows "\<exists>q'. mq_free_loop temp n q = Some q' \<and> mq_shape q' [] (rev [temp..<n] @ fs) xs \<and>
     msg_size q' = msg_size q \<and> max_msgs q' = max_msgs q \<and> length (mq_pool q') = length (mq_pool q)"
  using assms
proof (induction "n - temp" arbitrary: temp fs q)
  case (Suc d)
  then have lt: "temp < n" by simp
  have d: "d = n - (temp + 1)" using Suc.hyps(2) by simp
  from lt have up: "[temp..<n] = temp # [temp + 1..<n]" by (simp add: upt_conv_Cons)
  have sh: "mq_shape q [] fs (temp # ([temp + 1..<n] @ xs))" using Suc.prems(1) up by simp
  let ?q' = "q\<lparr>mq_pool := (mq_pool q)[temp := (mq_pool q ! temp)\<lparr>msg_next := msg_queue_free q\<rparr>], msg_queue_free := Some temp\<rparr>"
  note p = mq_put_free_ok [OF sh]
  obtain q'' where q'': "mq_free_loop (temp + 1) n ?q' = Some q''"
    "mq_shape q'' [] (rev [temp + 1..<n] @ temp # fs) xs" "msg_size q'' = msg_size q" "max_msgs q'' = max_msgs q"
    "length (mq_pool q'') = length (mq_pool q)"
    using Suc.hyps(1) [OF d p(2)] lt by auto
  show ?case
    using lt p(1) q'' up by (subst mq_free_loop.simps) simp
qed (simp add: mq_free_loop.simps)

theorem mq_init_cells:
  fixes pool_size :: "64 word"
  assumes inv: "sched_inv s" and new: "OMq mq \<notin> set (object_list s RT_Object_Class_MessageQueue)" and flag: "valid_flag flag"
    and data: "\<forall>c \<in> set pool. unat (ucast sz :: 16 word) \<le> length (msg_data c)"
  defines "n \<equiv> ucast (pool_size div (RT_ALIGN sz 8 + MQ_HEADER)) :: 16 word"
  assumes len: "length pool = unat n"
  shows "\<exists>s'. rt_mq_init mq name pool sz pool_size flag s = Some (if n = 0 then - RT_EINVAL else RT_EOK, s') \<and>
     (n \<noteq> 0 \<longrightarrow> mq_ok mq s' \<and> mq_abs mq s' = ([], [], []) \<and> mq_free (mqs s' mq) = rev [0..<unat n])"
proof -
  have cls: "RT_Object_Class_MessageQueue \<in> set object_classes" by (simp add: object_classes_def)
  from object_init_result [OF inv cls new, of name] obtain s0
    where init: "rt_object_init (OMq mq) RT_Object_Class_MessageQueue name s =
       Some (s0\<lparr>objs := (objs s)(OMq mq := (objs s (OMq mq))\<lparr>obj_type := RT_Object_Class_MessageQueue OR RT_Object_Class_Static,
                                               obj_name := take RT_NAME_MAX name\<rparr>),
               object_list := (object_list s)(RT_Object_Class_MessageQueue := OMq mq # object_list s RT_Object_Class_MessageQueue)\<rparr>)"
      (is "_ = Some ?s1")
    by metis
  let ?s2 = "ipc_object_init (MqRecv mq) (upd_obj (OMq mq) (\<lambda>r. r\<lparr>obj_flag := flag\<rparr>) ?s1)"
  let ?q = "(mqs ?s2 mq)\<lparr>mq_pool := pool, msg_size := ucast sz, max_msgs := n\<rparr>"
  let ?blank = "?q\<lparr>msg_queue_head := None, msg_queue_tail := None, msg_queue_free := None\<rparr>"
  have "mq_shape ?blank [] [] ([0..<unat n] @ [])" using len data by (simp add: mq_shape_def)
  then obtain q1 where q1: "mq_free_loop 0 (unat n) ?blank = Some q1" "mq_shape q1 [] (rev [0..<unat n]) []"
    using mq_free_loop_ok [of ?blank "[]" 0 "unat n" "[]"] by auto
  let ?q1 = "q1\<lparr>mq_entry := 0\<rparr>"
  have "mq_shape ?q1 [] (rev [0..<unat n]) []" using q1(2) by (simp add: mq_shape_def)
  note st = mq_structI [OF this, simplified]
  let ?s' = "if n = 0 then put_mq mq ?q ?s2 else ipc_object_init (MqSend mq) (put_mq mq ?q1 ?s2)"
  have "rt_mq_init mq name pool sz pool_size flag s = Some (if n = 0 then - RT_EINVAL else RT_EOK, ?s')"
    unfolding rt_mq_init_def using flag init q1(1)
    by (simp add: n_def [symmetric] Let_def ipc_object_init_def)
  moreover have "mq_ok mq ?s'" if "n \<noteq> 0"
    using that st(1) flag class_or_static [OF cls]
    by (simp add: mq_ok_def mq_flag_def rt_object_get_type_def ipc_object_init_def put_mq_def)
  moreover have "mq_abs mq ?s' = ([], [], [])" "mq_free (mqs ?s' mq) = rev [0..<unat n]" if "n \<noteq> 0"
    using that st(2-4) by (simp_all add: mq_abs_def ipc_object_init_def put_mq_def)
  ultimately show ?thesis by blast
qed

theorem mq_init_cells_witness:
  "\<exists>s'. rt_mq_init 6 [] [sample_cell, sample_cell] 6 70 0 small_system = Some (RT_EOK, s') \<and> mq_ok 6 s' \<and>
     mq_free (mqs s' 6) = [1, 0]"
proof -
  have "ucast (70 div (RT_ALIGN 6 8 + MQ_HEADER)) = (2 :: 16 word)"
    by (simp add: RT_ALIGN_def MQ_HEADER_def)
  then show ?thesis
    using mq_init_cells [OF kernel_invD(1) [OF kernel_inv_small], of 6 0 "[sample_cell, sample_cell]" 6 70 "[]"]
    by (auto simp: sample_cell_def valid_flag_def small_system_def kernel_reset_def upt_rec)
qed

end
