(* ===== verification/RingBuffer.thy ===== *)
theory RingBuffer
  imports Channel
begin

text \<open>
  The byte ring buffer of \<^verbatim>\<open>components/drivers/ipc/ringbuffer.c\<close>.  The bit fields are
  words of 1 and 31 bits, \<^verbatim>\<open>buffer_size\<close> a signed integer; the differences the code
  forms are converted to the unsigned type C compares them in.  A copy outside the
  buffer or outside the caller's data ends the model (\<open>None\<close>).
\<close>

section \<open>Operations\<close>

record rt_ringbuffer =
  buffer_ptr :: "8 word list"
  read_mirror :: "1 word"
  read_index :: "31 word"
  write_mirror :: "1 word"
  write_index :: "31 word"
  buffer_size :: int

datatype rt_ringbuffer_state = RT_RINGBUFFER_EMPTY | RT_RINGBUFFER_FULL | RT_RINGBUFFER_HALFFULL

definition rt_ringbuffer_status :: "rt_ringbuffer \<Rightarrow> rt_ringbuffer_state" where
  "rt_ringbuffer_status rb =
    (if read_index rb = write_index rb
     then if read_mirror rb = write_mirror rb then RT_RINGBUFFER_EMPTY else RT_RINGBUFFER_FULL
     else RT_RINGBUFFER_HALFFULL)"

definition rt_ringbuffer_data_len :: "rt_ringbuffer \<Rightarrow> 64 word" where
  "rt_ringbuffer_data_len rb =
    (case rt_ringbuffer_status rb of
       RT_RINGBUFFER_EMPTY \<Rightarrow> 0
     | RT_RINGBUFFER_FULL \<Rightarrow> word_of_int (buffer_size rb)
     | RT_RINGBUFFER_HALFFULL \<Rightarrow>
         (let wi = ucast (write_index rb); ri = ucast (read_index rb)
          in if ri < wi then wi - ri else word_of_int (buffer_size rb) - (ri - wi)))"

definition rt_ringbuffer_space_len :: "rt_ringbuffer \<Rightarrow> 64 word" where
  "rt_ringbuffer_space_len rb = word_of_int (buffer_size rb) - rt_ringbuffer_data_len rb"

definition rt_ringbuffer_get_size :: "rt_ringbuffer \<Rightarrow> 32 word" where
  "rt_ringbuffer_get_size rb = word_of_int (buffer_size rb)"

definition RT_ALIGN_DOWN :: "int \<Rightarrow> int \<Rightarrow> int" where
  "RT_ALIGN_DOWN sz align = sz AND NOT (align - 1)"

definition rt_ringbuffer_init :: "8 word list \<Rightarrow> int \<Rightarrow> rt_ringbuffer option" where
  "rt_ringbuffer_init pool sz = do {
     rt_assert (0 < sz);
     Some \<lparr>buffer_ptr = pool, read_mirror = 0, read_index = 0, write_mirror = 0, write_index = 0,
           buffer_size = RT_ALIGN_DOWN sz 8\<rparr>
   }"

text \<open>\<^verbatim>\<open>rt_memcpy\<close> of \<open>n\<close> bytes into the buffer at \<open>i\<close>, and out of it.\<close>

definition rb_copy_in :: "nat \<Rightarrow> 8 word list \<Rightarrow> nat \<Rightarrow> rt_ringbuffer \<Rightarrow> rt_ringbuffer option" where
  "rb_copy_in i src n rb =
    (if i + n \<le> length (buffer_ptr rb) \<and> n \<le> length src
     then Some (rb\<lparr>buffer_ptr := take i (buffer_ptr rb) @ take n src @ drop (i + n) (buffer_ptr rb)\<rparr>) else None)"

definition rb_copy_out :: "nat \<Rightarrow> nat \<Rightarrow> rt_ringbuffer \<Rightarrow> 8 word list option" where
  "rb_copy_out i n rb = (if i + n \<le> length (buffer_ptr rb) then Some (take n (drop i (buffer_ptr rb))) else None)"

text \<open>\<^verbatim>\<open>buffer_size - write_index\<close> and \<^verbatim>\<open>buffer_size - read_index\<close>, as compared with a length.\<close>

definition to_end :: "31 word \<Rightarrow> rt_ringbuffer \<Rightarrow> 32 word" where
  "to_end i rb = word_of_int (buffer_size rb - uint i)"

definition rt_ringbuffer_put :: "8 word list \<Rightarrow> 32 word \<Rightarrow> rt_ringbuffer \<Rightarrow> (64 word \<times> rt_ringbuffer) option" where
  "rt_ringbuffer_put ptr len rb =
    (let sz = ucast (rt_ringbuffer_space_len rb) :: 32 word
     in if sz = 0 then Some (0, rb)
        else let n = (if sz < len then sz else len); e = to_end (write_index rb) rb
        in if n < e
        then do {
          rb1 \<leftarrow> rb_copy_in (unat (write_index rb)) ptr (unat n) rb;
          Some (ucast n, rb1\<lparr>write_index := write_index rb1 + ucast n\<rparr>)
        }
        else do {
          rb1 \<leftarrow> rb_copy_in (unat (write_index rb)) ptr (unat e) rb;
          rb2 \<leftarrow> rb_copy_in 0 (drop (unat e) ptr) (unat (n - e)) rb1;
          Some (ucast n, rb2\<lparr>write_mirror := NOT (write_mirror rb2), write_index := ucast (n - e)\<rparr>)
        })"

definition rt_ringbuffer_put_force :: "8 word list \<Rightarrow> 32 word \<Rightarrow> rt_ringbuffer \<Rightarrow> (64 word \<times> rt_ringbuffer) option" where
  "rt_ringbuffer_put_force ptr0 len0 rb =
    (let space = ucast (rt_ringbuffer_space_len rb) :: 32 word; cap = word_of_int (buffer_size rb) :: 32 word;
         ptr = (if cap < len0 then drop (unat (len0 - cap)) ptr0 else ptr0);
         len = (if cap < len0 then cap else len0);
         e = to_end (write_index rb) rb
     in if len < e
        then do {
          rb1 \<leftarrow> rb_copy_in (unat (write_index rb)) ptr (unat len) rb;
          let rb2 = rb1\<lparr>write_index := write_index rb1 + ucast len\<rparr>;
          Some (ucast len, if space < len then rb2\<lparr>read_index := write_index rb2\<rparr> else rb2)
        }
        else do {
          rb1 \<leftarrow> rb_copy_in (unat (write_index rb)) ptr (unat e) rb;
          rb2 \<leftarrow> rb_copy_in 0 (drop (unat e) ptr) (unat (len - e)) rb1;
          let rb3 = rb2\<lparr>write_mirror := NOT (write_mirror rb2), write_index := ucast (len - e)\<rparr>;
          Some (ucast len,
            if space < len
            then (let rb4 = (if write_index rb3 \<le> read_index rb3 then rb3\<lparr>read_mirror := NOT (read_mirror rb3)\<rparr> else rb3)
                  in rb4\<lparr>read_index := write_index rb4\<rparr>)
            else rb3)
        })"

definition rt_ringbuffer_get :: "32 word \<Rightarrow> rt_ringbuffer \<Rightarrow> (64 word \<times> 8 word list \<times> rt_ringbuffer) option" where
  "rt_ringbuffer_get len rb =
    (let sz = rt_ringbuffer_data_len rb
     in if sz = 0 then Some (0, [], rb)
        else let n = (if sz < ucast len then ucast sz else len); e = to_end (read_index rb) rb
        in if n < e
        then do {
          out \<leftarrow> rb_copy_out (unat (read_index rb)) (unat n) rb;
          Some (ucast n, out, rb\<lparr>read_index := read_index rb + ucast n\<rparr>)
        }
        else do {
          out1 \<leftarrow> rb_copy_out (unat (read_index rb)) (unat e) rb;
          out2 \<leftarrow> rb_copy_out 0 (unat (n - e)) rb;
          Some (ucast n, out1 @ out2, rb\<lparr>read_mirror := NOT (read_mirror rb), read_index := ucast (n - e)\<rparr>)
        })"

text \<open>\<^verbatim>\<open>rt_ringbuffer_peek\<close> hands out a pointer into the buffer: the offset, if any, and the size.\<close>

definition rt_ringbuffer_peek :: "rt_ringbuffer \<Rightarrow> 64 word \<times> nat option \<times> rt_ringbuffer" where
  "rt_ringbuffer_peek rb =
    (let sz = rt_ringbuffer_data_len rb; e = word_of_int (buffer_size rb - uint (read_index rb)) :: 64 word
     in if sz = 0 then (0, None, rb)
        else if sz < e
        then (sz, Some (unat (read_index rb)), rb\<lparr>read_index := read_index rb + ucast sz\<rparr>)
        else (e, Some (unat (read_index rb)), rb\<lparr>read_mirror := NOT (read_mirror rb), read_index := 0\<rparr>))"

definition rt_ringbuffer_putchar :: "8 word \<Rightarrow> rt_ringbuffer \<Rightarrow> (64 word \<times> rt_ringbuffer) option" where
  "rt_ringbuffer_putchar ch rb =
    (if rt_ringbuffer_space_len rb = 0 then Some (0, rb)
     else do {
       rb1 \<leftarrow> rb_copy_in (unat (write_index rb)) [ch] 1 rb;
       Some (1, if uint (write_index rb1) = buffer_size rb1 - 1
                then rb1\<lparr>write_mirror := NOT (write_mirror rb1), write_index := 0\<rparr>
                else rb1\<lparr>write_index := write_index rb1 + 1\<rparr>)
     })"

definition rt_ringbuffer_putchar_force :: "8 word \<Rightarrow> rt_ringbuffer \<Rightarrow> (64 word \<times> rt_ringbuffer) option" where
  "rt_ringbuffer_putchar_force ch rb = do {
     let old_state = rt_ringbuffer_status rb;
     rb1 \<leftarrow> rb_copy_in (unat (write_index rb)) [ch] 1 rb;
     Some (1,
       if uint (write_index rb1) = buffer_size rb1 - 1
       then (let rb2 = rb1\<lparr>write_mirror := NOT (write_mirror rb1), write_index := 0\<rparr>
             in if old_state = RT_RINGBUFFER_FULL
                then rb2\<lparr>read_mirror := NOT (read_mirror rb2), read_index := write_index rb2\<rparr> else rb2)
       else (let rb2 = rb1\<lparr>write_index := write_index rb1 + 1\<rparr>
             in if old_state = RT_RINGBUFFER_FULL then rb2\<lparr>read_index := write_index rb2\<rparr> else rb2))
   }"

definition rt_ringbuffer_getchar :: "rt_ringbuffer \<Rightarrow> (64 word \<times> 8 word option \<times> rt_ringbuffer) option" where
  "rt_ringbuffer_getchar rb =
    (if rt_ringbuffer_data_len rb = 0 then Some (0, None, rb)
     else do {
       out \<leftarrow> rb_copy_out (unat (read_index rb)) 1 rb;
       Some (1, Some (hd out),
         if uint (read_index rb) = buffer_size rb - 1
         then rb\<lparr>read_mirror := NOT (read_mirror rb), read_index := 0\<rparr>
         else rb\<lparr>read_index := read_index rb + 1\<rparr>)
     })"

definition rt_ringbuffer_reset :: "rt_ringbuffer \<Rightarrow> rt_ringbuffer" where
  "rt_ringbuffer_reset rb = rb\<lparr>read_mirror := 0, read_index := 0, write_mirror := 0, write_index := 0\<rparr>"

text \<open>\<open>pool\<close> is what \<^verbatim>\<open>rt_malloc\<close> gives for the data, \<open>rb_mem\<close> whether it gave the control block.\<close>

definition rt_ringbuffer_create :: "bool \<Rightarrow> (nat \<Rightarrow> 8 word list option) \<Rightarrow> 32 word \<Rightarrow> rt_ringbuffer option option" where
  "rt_ringbuffer_create rb_mem pool sz0 = do {
     rt_assert (sz0 > 0);
     let sz = sz0 AND NOT (8 - 1);
     if \<not> rb_mem then Some None
     else case pool (unat sz) of
       None \<Rightarrow> Some None
     | Some p \<Rightarrow> do { rb \<leftarrow> rt_ringbuffer_init p (sint sz); Some (Some rb) }
   }"

section \<open>The contract: a bounded byte queue\<close>

text \<open>
  \<open>rb_rep rb n\<close>: the buffer holds \<open>n\<close> bytes from the read index on.  The mirror bits
  differ exactly when the data runs over the end of the array.
\<close>

definition rb_rep :: "rt_ringbuffer \<Rightarrow> nat \<Rightarrow> bool" where
  "rb_rep rb n \<longleftrightarrow>
    (let L = length (buffer_ptr rb); r = unat (read_index rb)
     in buffer_size rb = int L \<and> 0 < L \<and> L < 2 ^ 31 \<and> r < L \<and> n \<le> L \<and>
        unat (write_index rb) = (if r + n < L then r + n else r + n - L) \<and>
        (read_mirror rb = write_mirror rb \<longleftrightarrow> r + n < L))"

definition rb_len :: "rt_ringbuffer \<Rightarrow> nat" where
  "rb_len rb = unat (rt_ringbuffer_data_len rb)"

definition rb_ok :: "rt_ringbuffer \<Rightarrow> bool" where
  "rb_ok rb \<longleftrightarrow> rb_rep rb (rb_len rb)"

definition rb_contents :: "rt_ringbuffer \<Rightarrow> 8 word list" where
  "rb_contents rb = ring_list (buffer_ptr rb) (unat (read_index rb)) (rb_len rb)"

lemma unat_word_of_int: "0 \<le> i \<Longrightarrow> i < 2 ^ LENGTH('a) \<Longrightarrow> unat (word_of_int i :: 'a :: len word) = nat i"
  by (simp add: unsigned_of_int take_bit_int_eq_self)

lemma unat_31: "unat (x :: 31 word) < 2147483648"
proof -
  have "unat x < 2 ^ LENGTH(31)" by (rule unsigned_less)
  then show ?thesis by simp
qed

lemma ucast_31 [simp]: "unat (ucast (x :: 31 word) :: 64 word) = unat x"
  by (simp add: unsigned_ucast_eq take_bit_nat_eq_self less_trans [OF unat_31])

lemma rb_repD:
  assumes "rb_rep rb n"
  shows "buffer_size rb = int (length (buffer_ptr rb))" "0 < length (buffer_ptr rb)" "length (buffer_ptr rb) < 2147483648"
    "unat (read_index rb) < length (buffer_ptr rb)" "n \<le> length (buffer_ptr rb)"
    "unat (write_index rb) < length (buffer_ptr rb)"
    "unat (write_index rb) = (unat (read_index rb) + n) mod length (buffer_ptr rb)"
    "read_mirror rb = write_mirror rb \<Longrightarrow> unat (read_index rb) + n < length (buffer_ptr rb) \<and> unat (write_index rb) = unat (read_index rb) + n"
    "read_mirror rb \<noteq> write_mirror rb \<Longrightarrow> length (buffer_ptr rb) \<le> unat (read_index rb) + n \<and>
       unat (write_index rb) + length (buffer_ptr rb) = unat (read_index rb) + n"
  using assms by (auto simp: rb_rep_def Let_def mod_if split: if_splits)

lemma data_len_rep:
  assumes "rb_rep rb n"
  shows "unat (rt_ringbuffer_data_len rb) = n" "rb_len rb = n" "rb_ok rb"
proof -
  note a = rb_repD [OF assms]
  let ?L = "length (buffer_ptr rb)" and ?r = "unat (read_index rb)" and ?w = "unat (write_index rb)"
  have size: "unat (word_of_int (buffer_size rb) :: 64 word) = ?L"
    using a(1,3) by (subst unat_word_of_int) auto
  have eq: "read_index rb = write_index rb \<longleftrightarrow> ?r = ?w" by (simp add: word_unat_eq_iff)
  show d: "unat (rt_ringbuffer_data_len rb) = n"
  proof (cases "?r = ?w")
    case True
    then have "rt_ringbuffer_data_len rb = (if read_mirror rb = write_mirror rb then 0 else word_of_int (buffer_size rb))"
      using eq by (simp add: rt_ringbuffer_data_len_def rt_ringbuffer_status_def)
    moreover have "if read_mirror rb = write_mirror rb then n = 0 else n = ?L"
    proof (cases "read_mirror rb = write_mirror rb")
      case same: True
      have "n = 0" using a(8) [OF same] True by linarith
      with same show ?thesis by simp
    next
      case other: False
      have "n = ?L" using a(9) [OF other] True by linarith
      with other show ?thesis by simp
    qed
    ultimately show ?thesis using size by (cases "read_mirror rb = write_mirror rb") simp_all
  next
    case False
    let ?wi = "ucast (write_index rb) :: 64 word" and ?ri = "ucast (read_index rb) :: 64 word"
    have lt: "?ri < ?wi \<longleftrightarrow> ?r < ?w" by (simp add: word_less_nat_alt)
    have 1: "?r < ?w \<Longrightarrow> unat (?wi - ?ri) = ?w - ?r" by (subst unat_sub) (simp_all add: word_le_nat_alt)
    have 2: "unat (?ri - ?wi) = ?r - ?w" if "?w < ?r" using that by (subst unat_sub) (simp_all add: word_le_nat_alt)
    have "?ri - ?wi \<le> word_of_int (buffer_size rb)" if "?w < ?r"
      unfolding word_le_nat_alt size 2 [OF that] using a(4) by simp
    then have 3: "unat (word_of_int (buffer_size rb) - (?ri - ?wi)) = ?L - (?r - ?w)" if "?w < ?r"
      using that by (subst unat_sub) (simp_all only: size 2)
    have "rt_ringbuffer_data_len rb = (if ?r < ?w then ?wi - ?ri else word_of_int (buffer_size rb) - (?ri - ?wi))"
      using False eq lt by (simp add: rt_ringbuffer_data_len_def rt_ringbuffer_status_def)
    moreover have "if ?r < ?w then n = ?w - ?r else n = ?L - (?r - ?w)"
    proof (cases "read_mirror rb = write_mirror rb")
      case same: True
      have "?r < ?w" "n = ?w - ?r" using a(8) [OF same] False by linarith+
      then show ?thesis by simp
    next
      case other: False
      have "\<not> ?r < ?w" "n = ?L - (?r - ?w)" using a(4,5) a(9) [OF other] False by linarith+
      then show ?thesis by simp
    qed
    ultimately show ?thesis using False 1 3 by (cases "?r < ?w") simp_all
  qed
  then show "rb_len rb = n" by (simp add: rb_len_def)
  with assms show "rb_ok rb" by (simp add: rb_ok_def)
qed

section \<open>Copying around the end\<close>

text \<open>\<open>written buf w xs buf'\<close>: \<open>buf'\<close> is \<open>buf\<close> with \<open>xs\<close> stored from \<open>w\<close> on, past the end to the start.\<close>

definition written :: "'a list \<Rightarrow> nat \<Rightarrow> 'a list \<Rightarrow> 'a list \<Rightarrow> bool" where
  "written buf w xs buf' \<longleftrightarrow> length buf' = length buf \<and>
     (\<forall>j < length buf. buf' ! j =
        (if w \<le> j \<and> j < w + length xs then xs ! (j - w)
         else if j + length buf < w + length xs then xs ! (j + length buf - w) else buf ! j))"

lemma ring_list_nth: "i < n \<Longrightarrow> ring_list pool out n ! i = pool ! ((out + i) mod length pool)"
  by (simp add: ring_list_def)

lemma written_at:
  assumes "written buf w xs buf'" "w < length buf" "length xs \<le> length buf" "i < length xs"
  shows "buf' ! ((w + i) mod length buf) = xs ! i"
  using assms by (auto simp: written_def mod_if)

lemma written_off:
  assumes "written buf w xs buf'" "w < length buf" "length xs \<le> length buf" "j < length buf"
    and "\<And>i. i < length xs \<Longrightarrow> (w + i) mod length buf \<noteq> j"
  shows "buf' ! j = buf ! j"
proof -
  have "\<not> (w \<le> j \<and> j < w + length xs)"
  proof
    assume a: "w \<le> j \<and> j < w + length xs"
    then have "j - w < length xs" by linarith
    from assms(5) [OF this] a assms(4) show False by simp
  qed
  moreover have "\<not> j + length buf < w + length xs"
  proof
    assume a: "j + length buf < w + length xs"
    then have "j + length buf - w < length xs" using assms(2) by linarith
    from assms(5) [OF this] a assms(2,4) show False by simp
  qed
  ultimately show ?thesis using assms(1,4) by (auto simp: written_def)
qed

lemma written_ring:
  assumes wr: "written buf ((r + n) mod length buf) xs buf'" and r: "r < length buf" and n: "n \<le> length buf"
    and xs: "length xs \<le> length buf" and d: "d \<le> n" "n + length xs \<le> length buf + d"
  shows "ring_list buf' ((r + d) mod length buf) (n + length xs - d) = drop d (ring_list buf r n @ xs)"
proof (rule nth_equalityI)
  let ?L = "length buf" and ?k = "length xs"
  have L: "length buf' = ?L" using wr by (simp add: written_def)
  have w: "(r + n) mod ?L < ?L" using r by (cases buf) auto
  show "length (ring_list buf' ((r + d) mod ?L) (n + ?k - d)) = length (drop d (ring_list buf r n @ xs))" by simp
  fix j assume "j < length (ring_list buf' ((r + d) mod ?L) (n + ?k - d))"
  then have j: "j < n + ?k - d" by simp
  have lhs: "ring_list buf' ((r + d) mod ?L) (n + ?k - d) ! j = buf' ! ((r + d + j) mod ?L)"
    using j L by (simp add: ring_list_nth mod_simps)
  show "ring_list buf' ((r + d) mod ?L) (n + ?k - d) ! j = drop d (ring_list buf r n @ xs) ! j"
  proof (cases "d + j < n")
    case True
    have "((r + n) mod ?L + i) mod ?L \<noteq> (r + d + j) mod ?L" if "i < ?k" for i
    proof
      assume eq: "((r + n) mod ?L + i) mod ?L = (r + d + j) mod ?L"
      have "(r + d + (n + i - d)) mod ?L = (r + d + j) mod ?L" using eq d(1) by (simp add: mod_simps add.assoc)
      from ring_index_inj [OF _ _ this] that True d show False by simp
    qed
    moreover have "(r + d + j) mod ?L < ?L" using r by (cases buf) auto
    ultimately have "buf' ! ((r + d + j) mod ?L) = buf ! ((r + d + j) mod ?L)"
      using written_off [OF wr w xs] by blast
    moreover have "j < n - d" using True by linarith
    ultimately show ?thesis using lhs True by (simp add: nth_append ring_list_nth add.assoc)
  next
    case False
    then obtain m where m: "d + j = n + m" using le_Suc_ex by (metis not_less)
    have "buf' ! (((r + n) mod ?L + m) mod ?L) = xs ! m"
      by (rule written_at [OF wr w xs]) (use j m d in simp)
    moreover have "drop d (ring_list buf r n @ xs) ! j = (ring_list buf r n @ xs) ! (d + j)"
      using d(1) by (intro nth_drop) simp
    moreover have "(r + d + j) mod ?L = (r + n + m) mod ?L" using m by (simp add: add.assoc)
    ultimately show ?thesis using lhs m by (simp add: nth_append mod_simps)
  qed
qed

lemma copy_nth:
  assumes "i + n \<le> length buf" "n \<le> length src" "j < length buf"
  shows "(take i buf @ take n src @ drop (i + n) buf) ! j = (if i \<le> j \<and> j < i + n then src ! (j - i) else buf ! j)"
  using assms by (auto simp: nth_append)

lemma copy_one:
  assumes "w + n \<le> length (buffer_ptr rb)" "n \<le> length src"
  obtains buf where "rb_copy_in w src n rb = Some (rb\<lparr>buffer_ptr := buf\<rparr>)" "written (buffer_ptr rb) w (take n src) buf"
proof -
  let ?buf = "take w (buffer_ptr rb) @ take n src @ drop (w + n) (buffer_ptr rb)"
  have "written (buffer_ptr rb) w (take n src) ?buf"
    unfolding written_def using assms copy_nth [OF assms] by (auto simp del: append_assoc)
  then show thesis using that assms by (auto simp: rb_copy_in_def)
qed

lemma copy_two:
  assumes "w < length (buffer_ptr rb)" "length (buffer_ptr rb) - w = e" "e \<le> n" "n \<le> length (buffer_ptr rb)" "n \<le> length src"
  obtains rb1 buf where "rb_copy_in w src e rb = Some rb1" "rb_copy_in 0 (drop e src) (n - e) rb1 = Some (rb\<lparr>buffer_ptr := buf\<rparr>)"
    "written (buffer_ptr rb) w (take n src) buf"
proof -
  let ?b = "buffer_ptr rb"
  let ?b1 = "take w ?b @ take e src @ drop (w + e) ?b"
  let ?b2 = "take 0 ?b1 @ take (n - e) (drop e src) @ drop (0 + (n - e)) ?b1"
  have l1: "length ?b1 = length ?b" using assms by simp
  have n1: "?b1 ! j = (if w \<le> j \<and> j < w + e then src ! (j - w) else ?b ! j)" if "j < length ?b" for j
    using copy_nth [of w e ?b src j] assms that by simp
  have n2: "?b2 ! j = (if j < n - e then drop e src ! j else ?b1 ! j)" if "j < length ?b" for j
    using copy_nth [of 0 "n - e" ?b1 "drop e src" j] assms that l1 by simp
  have "written ?b w (take n src) ?b2"
    unfolding written_def
  proof (intro conjI allI impI)
    show "length ?b2 = length ?b" using assms by simp
    fix j assume j: "j < length ?b"
    show "?b2 ! j = (if w \<le> j \<and> j < w + length (take n src) then take n src ! (j - w)
         else if j + length ?b < w + length (take n src) then take n src ! (j + length ?b - w) else ?b ! j)"
      unfolding n2 [OF j] n1 [OF j] using assms j by (auto simp: add.commute)
  qed
  moreover have "rb_copy_in w src e rb = Some (rb\<lparr>buffer_ptr := ?b1\<rparr>)"
    using assms by (simp add: rb_copy_in_def)
  moreover have "rb_copy_in 0 (drop e src) (n - e) (rb\<lparr>buffer_ptr := ?b1\<rparr>) = Some (rb\<lparr>buffer_ptr := ?b2\<rparr>)"
  proof -
    have "n - e \<le> length ?b" "n - e \<le> length src - e" using assms by linarith+
    then show ?thesis using l1 by (simp add: rb_copy_in_def del: length_append)
  qed
  ultimately show thesis using that by blast
qed

section \<open>Moving the indices\<close>

lemma one_bit: "(x :: 1 word) = 0 \<or> x = 1"
proof -
  have "unat x < 2 ^ LENGTH(1)" by (rule unsigned_less)
  then have "unat x = 0 \<or> unat x = 1" by auto
  moreover have "x = 0 \<longleftrightarrow> unat x = 0" "x = 1 \<longleftrightarrow> unat x = 1"
    unfolding word_unat_eq_iff by simp_all
  ultimately show ?thesis by iprover
qed

lemma mirror_third: "x \<noteq> y \<Longrightarrow> x \<noteq> z \<Longrightarrow> y = (z :: 1 word)"
  using one_bit [of x] one_bit [of y] one_bit [of z] by metis

lemma mirror_not [simp]: "(NOT x = y) = (x \<noteq> (y :: 1 word))" "(y = NOT x) = (x \<noteq> (y :: 1 word))"
proof -
  have "bit (NOT x) 0 \<noteq> bit x 0" by (simp add: bit_simps)
  then have "NOT x \<noteq> x" by auto
  then show "(NOT x = y) = (x \<noteq> y)" "(y = NOT x) = (x \<noteq> y)"
    using one_bit [of x] one_bit [of y] one_bit [of "NOT x"] by metis+
qed

lemma unat_ucast_to_31: "unat (x :: 32 word) < 2147483648 \<Longrightarrow> unat (ucast x :: 31 word) = unat x"
  by (simp add: unsigned_ucast_eq take_bit_nat_eq_self)

lemma index_add:
  assumes "unat (i :: 31 word) + unat (k :: 32 word) < L" "L < 2147483648"
  shows "unat (i + ucast k) = unat i + unat k"
proof -
  have k: "unat (ucast k :: 31 word) = unat k" using assms by (intro unat_ucast_to_31) simp
  have "unat i + unat (ucast k :: 31 word) < 2 ^ LENGTH(31)" using assms k by simp
  then show ?thesis using k unat_add_lem [of i "ucast k"] by simp
qed

lemma rb_space:
  assumes "rb_rep rb n"
  shows "unat (rt_ringbuffer_space_len rb) = length (buffer_ptr rb) - n"
    "unat (ucast (rt_ringbuffer_space_len rb) :: 32 word) = length (buffer_ptr rb) - n"
    "i < length (buffer_ptr rb) \<Longrightarrow> i = unat j \<Longrightarrow> unat (to_end j rb) = length (buffer_ptr rb) - i"
proof -
  note d = rb_repD [OF assms] and l = data_len_rep(1) [OF assms]
  have s: "unat (word_of_int (buffer_size rb) :: 64 word) = length (buffer_ptr rb)"
    using d(1,3) by (subst unat_word_of_int) auto
  show sp: "unat (rt_ringbuffer_space_len rb) = length (buffer_ptr rb) - n"
    unfolding rt_ringbuffer_space_len_def
    by (subst unat_sub) (use s l d(5) in \<open>simp_all add: word_le_nat_alt\<close>)
  show "unat (ucast (rt_ringbuffer_space_len rb) :: 32 word) = length (buffer_ptr rb) - n"
    using sp d(3) by (simp add: unsigned_ucast_eq take_bit_nat_eq_self)
  show "unat (to_end j rb) = length (buffer_ptr rb) - i" if "i < length (buffer_ptr rb)" "i = unat j"
  proof -
    have "uint j = int i" using that(2) by (simp only: uint_nat)
    then show ?thesis
      using d(1,3) that(1) unfolding to_end_def by (subst unat_word_of_int) auto
  qed
qed

lemma advance_write:
  assumes "rb_rep rb n" "n + k \<le> length (buffer_ptr rb)"
    and "length buf = length (buffer_ptr rb)"
    and "unat i = (if unat (write_index rb) + k < length buf then unat (write_index rb) + k else unat (write_index rb) + k - length buf)"
    and "m = (if unat (write_index rb) + k < length buf then write_mirror rb else NOT (write_mirror rb))"
  shows "rb_rep (rb\<lparr>buffer_ptr := buf, write_mirror := m, write_index := i\<rparr>) (n + k)"
proof -
  note d = rb_repD [OF assms(1)]
  let ?L = "length (buffer_ptr rb)" and ?r = "unat (read_index rb)" and ?w = "unat (write_index rb)"
  show ?thesis
  proof (cases "read_mirror rb = write_mirror rb")
    case True
    then have "?r + n < ?L" "?w = ?r + n" using d(8) by simp_all
    then show ?thesis using d(1-5) assms(2-5) True by (auto simp: rb_rep_def Let_def)
  next
    case False
    then have a: "?L \<le> ?r + n" "?w + ?L = ?r + n" using d(9) by simp_all
    then have "?w + k < ?L" using d(4) assms(2) by linarith
    with a False show ?thesis using d(1-5) assms(2-5) by (auto simp: rb_rep_def Let_def)
  qed
qed

lemma advance_read:
  assumes "rb_rep rb n" "k \<le> n"
    and "unat i = (if unat (read_index rb) + k < length (buffer_ptr rb) then unat (read_index rb) + k
                   else unat (read_index rb) + k - length (buffer_ptr rb))"
    and "m = (if unat (read_index rb) + k < length (buffer_ptr rb) then read_mirror rb else NOT (read_mirror rb))"
  shows "rb_rep (rb\<lparr>read_mirror := m, read_index := i\<rparr>) (n - k)"
    "ring_list (buffer_ptr rb) (unat i) (n - k) = drop k (ring_list (buffer_ptr rb) (unat (read_index rb)) n)"
proof -
  note d = rb_repD [OF assms(1)]
  let ?L = "length (buffer_ptr rb)" and ?r = "unat (read_index rb)" and ?w = "unat (write_index rb)"
  have i: "unat i = (?r + k) mod ?L" using assms(2,3) d(4,5) by (auto simp: mod_if)
  show "ring_list (buffer_ptr rb) (unat i) (n - k) = drop k (ring_list (buffer_ptr rb) ?r n)"
    by (rule nth_equalityI) (auto simp: ring_list_nth i mod_simps add.assoc)
  show "rb_rep (rb\<lparr>read_mirror := m, read_index := i\<rparr>) (n - k)"
  proof (cases "read_mirror rb = write_mirror rb")
    case True
    then have a: "?r + n < ?L" "?w = ?r + n" using d(8) by simp_all
    then have b: "?r + k < ?L" using assms(2) by linarith
    then have "unat i = ?r + k" "m = read_mirror rb" using assms(3,4) by simp_all
    with a b show ?thesis using d(1-5) assms(2) True by (simp add: rb_rep_def Let_def)
  next
    case False
    then have a: "?L \<le> ?r + n" "?w + ?L = ?r + n" using d(9) by simp_all
    show ?thesis
    proof (cases "?r + k < ?L")
      case True
      then have "unat i = ?r + k" "m = read_mirror rb" using assms(3,4) by simp_all
      with a True False show ?thesis using d(1-5) assms(2) by (simp add: rb_rep_def Let_def) linarith
    next
      case wrap: False
      then have "unat i = ?r + k - ?L" "m = NOT (read_mirror rb)" using assms(3,4) by simp_all
      with a wrap False show ?thesis using d(1-6) assms(2) mirror_third [of "read_mirror rb" "write_mirror rb" m]
        by (auto simp: rb_rep_def Let_def)
    qed
  qed
qed

section \<open>The operations refine the byte queue\<close>

definition rb_cap :: "rt_ringbuffer \<Rightarrow> nat" where
  "rb_cap rb = length (buffer_ptr rb)"

lemma rb_contents_rep:
  assumes "rb_rep rb n"
  shows "rb_contents rb = ring_list (buffer_ptr rb) (unat (read_index rb)) n" "length (rb_contents rb) = n"
  using data_len_rep(2) [OF assms] by (simp_all add: rb_contents_def)

text \<open>Storing \<open>xs\<close> behind the data: what \<^verbatim>\<open>rt_ringbuffer_put\<close> does when they fit.\<close>

lemma rb_append:
  assumes rep: "rb_rep rb n" and wr: "written (buffer_ptr rb) (unat (write_index rb)) xs buf"
    and fit: "n + length xs \<le> length (buffer_ptr rb)"
    and i: "unat i = (if unat (write_index rb) + length xs < length buf then unat (write_index rb) + length xs
                   else unat (write_index rb) + length xs - length buf)"
    and m: "m = (if unat (write_index rb) + length xs < length buf then write_mirror rb else NOT (write_mirror rb))"
  shows "rb_rep (rb\<lparr>buffer_ptr := buf, write_mirror := m, write_index := i\<rparr>) (n + length xs)"
    "rb_contents (rb\<lparr>buffer_ptr := buf, write_mirror := m, write_index := i\<rparr>) = rb_contents rb @ xs"
proof -
  note d = rb_repD [OF rep]
  have len: "length buf = length (buffer_ptr rb)" using wr by (simp add: written_def)
  show r: "rb_rep (rb\<lparr>buffer_ptr := buf, write_mirror := m, write_index := i\<rparr>) (n + length xs)"
    by (rule advance_write [OF rep fit len i m])
  have "ring_list buf ((unat (read_index rb) + 0) mod length (buffer_ptr rb)) (n + length xs - 0) =
      drop 0 (ring_list (buffer_ptr rb) (unat (read_index rb)) n @ xs)"
    by (rule written_ring) (use wr d fit in \<open>simp_all\<close>)
  then show "rb_contents (rb\<lparr>buffer_ptr := buf, write_mirror := m, write_index := i\<rparr>) = rb_contents rb @ xs"
    using rb_contents_rep(1) [OF r] rb_contents_rep(1) [OF rep] d(4) by simp
qed

lemma unat_ucast_32_64 [simp]: "unat (ucast (x :: 32 word) :: 64 word) = unat x"
proof -
  have "unat x < 2 ^ LENGTH(32)" by (rule unsigned_less)
  then show ?thesis by (simp add: unsigned_ucast_eq take_bit_nat_eq_self)
qed

text \<open>The two ways of copying \<open>k\<close> bytes to the write index, with the index they lead to.\<close>

lemma rb_store:
  fixes len :: "32 word"
  assumes rep: "rb_rep rb n" and k: "unat len = k" "k \<le> length (buffer_ptr rb)" "k \<le> length ptr"
  defines "w \<equiv> unat (write_index rb)" and "e \<equiv> to_end (write_index rb) rb"
  shows "len < e \<Longrightarrow> w + k < length (buffer_ptr rb) \<and> unat (write_index rb + ucast len) = w + k \<and>
      (\<exists>buf. rb_copy_in w ptr k rb = Some (rb\<lparr>buffer_ptr := buf\<rparr>) \<and> written (buffer_ptr rb) w (take k ptr) buf)"
    "\<not> len < e \<Longrightarrow> length (buffer_ptr rb) \<le> w + k \<and> unat (ucast (len - e) :: 31 word) = w + k - length (buffer_ptr rb) \<and>
      (\<exists>rb1 buf. rb_copy_in w ptr (unat e) rb = Some rb1 \<and>
         rb_copy_in 0 (drop (unat e) ptr) (unat (len - e)) rb1 = Some (rb\<lparr>buffer_ptr := buf\<rparr>) \<and>
         written (buffer_ptr rb) w (take k ptr) buf)"
proof -
  note d = rb_repD [OF rep]
  let ?L = "length (buffer_ptr rb)"
  have w: "w < ?L" using d(6) by (simp add: w_def)
  have e: "unat e = ?L - w" using rb_space(3) [OF rep d(6) refl] by (simp add: e_def w_def)
  show "w + k < ?L \<and> unat (write_index rb + ucast len) = w + k \<and>
      (\<exists>buf. rb_copy_in w ptr k rb = Some (rb\<lparr>buffer_ptr := buf\<rparr>) \<and> written (buffer_ptr rb) w (take k ptr) buf)" if "len < e"
  proof -
    have lt: "w + k < ?L" using that e k(1) w by (simp only: word_less_nat_alt)
    then have "unat (write_index rb + ucast len) = w + k"
      using index_add [of "write_index rb" len ?L] k(1) d(3) by (simp add: w_def)
    moreover have "w + k \<le> ?L" using lt by simp
    ultimately show ?thesis using lt copy_one [of w k rb ptr] k(3) by metis
  qed
  show "?L \<le> w + k \<and> unat (ucast (len - e) :: 31 word) = w + k - ?L \<and>
      (\<exists>rb1 buf. rb_copy_in w ptr (unat e) rb = Some rb1 \<and>
         rb_copy_in 0 (drop (unat e) ptr) (unat (len - e)) rb1 = Some (rb\<lparr>buffer_ptr := buf\<rparr>) \<and>
         written (buffer_ptr rb) w (take k ptr) buf)" if "\<not> len < e"
  proof -
    have ge: "?L - w \<le> k" using that e k(1) by (simp only: word_less_nat_alt not_less)
    have le: "e \<le> len" using that by (simp only: not_less)
    have ne: "unat (len - e) = k - (?L - w)" unfolding unat_sub [OF le] e k(1) ..
    have "unat (ucast (len - e) :: 31 word) = w + k - ?L"
      using unat_ucast_to_31 [of "len - e"] ne k(2) d(3) ge w by simp
    moreover have "?L \<le> w + k" using ge by linarith
    ultimately show ?thesis using copy_two [OF w refl ge k(2,3)] unfolding ne e by metis
  qed
qed

lemma rb_put_ok:
  assumes rep: "rb_rep rb n" and src: "unat len \<le> length ptr"
  defines "k \<equiv> min (unat len) (length (buffer_ptr rb) - n)"
  shows "\<exists>c rb'. rt_ringbuffer_put ptr len rb = Some (c, rb') \<and> unat c = k \<and> rb_rep rb' (n + k) \<and>
     rb_contents rb' = rb_contents rb @ take k ptr \<and> rb_cap rb' = rb_cap rb"
proof -
  note d = rb_repD [OF rep] and sp = rb_space(2) [OF rep]
  let ?L = "length (buffer_ptr rb)" and ?sz = "ucast (rt_ringbuffer_space_len rb) :: 32 word"
  define nw where "nw = (if ?sz < len then ?sz else len)"
  let ?e = "to_end (write_index rb) rb"
  have n: "unat nw = k" using sp by (auto simp: k_def nw_def word_less_nat_alt)
  have kL: "k \<le> ?L" "n + k \<le> ?L" "k \<le> length ptr" using src d(5) by (auto simp: k_def)
  have tk: "length (take k ptr) = k" using kL(3) by simp
  have z: "?sz = 0 \<longleftrightarrow> ?L - n = 0" unfolding word_unat_eq_iff sp by simp
  show ?thesis
  proof (cases "?sz = 0")
    case True
    then show ?thesis using z rep by (simp add: rt_ringbuffer_put_def k_def)
  next
    case nz: False
    show ?thesis
    proof (cases "nw < ?e")
      case True
      obtain buf where s: "unat (write_index rb) + k < ?L" "unat (write_index rb + ucast nw) = unat (write_index rb) + k"
        "rb_copy_in (unat (write_index rb)) ptr k rb = Some (rb\<lparr>buffer_ptr := buf\<rparr>)"
        "written (buffer_ptr rb) (unat (write_index rb)) (take k ptr) buf"
        using rb_store(1) [OF rep n kL(1,3) True] by auto
      have len: "length buf = ?L" using s(4) by (simp add: written_def)
      let ?rb' = "rb\<lparr>buffer_ptr := buf, write_mirror := write_mirror rb, write_index := write_index rb + ucast nw\<rparr>"
      have "rt_ringbuffer_put ptr len rb = Some (ucast nw, ?rb')"
        unfolding rt_ringbuffer_put_def Let_def nw_def [symmetric] using nz True n s(3) by simp
      moreover have "rb_rep ?rb' (n + k)" "rb_contents ?rb' = rb_contents rb @ take k ptr"
        using rb_append [OF rep s(4), of "write_index rb + ucast nw" "write_mirror rb"] kL(2) s(1,2) len tk by simp_all
      ultimately show ?thesis using n len by (auto simp: rb_cap_def)
    next
      case False
      obtain rb1 buf where s: "?L \<le> unat (write_index rb) + k"
        "unat (ucast (nw - ?e) :: 31 word) = unat (write_index rb) + k - ?L"
        "rb_copy_in (unat (write_index rb)) ptr (unat ?e) rb = Some rb1"
        "rb_copy_in 0 (drop (unat ?e) ptr) (unat (nw - ?e)) rb1 = Some (rb\<lparr>buffer_ptr := buf\<rparr>)"
        "written (buffer_ptr rb) (unat (write_index rb)) (take k ptr) buf"
        using rb_store(2) [OF rep n kL(1,3) False] by auto
      have len: "length buf = ?L" using s(5) by (simp add: written_def)
      let ?rb' = "rb\<lparr>buffer_ptr := buf, write_mirror := NOT (write_mirror rb), write_index := ucast (nw - ?e)\<rparr>"
      have "rt_ringbuffer_put ptr len rb = Some (ucast nw, ?rb')"
        unfolding rt_ringbuffer_put_def Let_def nw_def [symmetric] using nz False s(3,4) by simp
      moreover have "rb_rep ?rb' (n + k)" "rb_contents ?rb' = rb_contents rb @ take k ptr"
        using rb_append [OF rep s(5), of "ucast (nw - ?e)" "NOT (write_mirror rb)"] kL(2) s(1,2) len tk
        by (simp_all del: mirror_not)
      ultimately show ?thesis using n len by (auto simp: rb_cap_def)
    qed
  qed
qed

text \<open>Storing more than fits: the oldest bytes give way and the buffer is full.\<close>

lemma rb_overrun:
  assumes rep: "rb_rep rb n" and wr: "written (buffer_ptr rb) (unat (write_index rb)) xs buf"
    and over: "length (buffer_ptr rb) < n + length xs" "length xs \<le> length (buffer_ptr rb)"
    and i: "unat i = (if unat (write_index rb) + length xs < length buf then unat (write_index rb) + length xs
                   else unat (write_index rb) + length xs - length buf)"
    and m: "rm \<noteq> wm"
  defines "rb' \<equiv> rb\<lparr>buffer_ptr := buf, read_mirror := rm, read_index := i, write_mirror := wm, write_index := i\<rparr>"
  shows "rb_rep rb' (length buf)" "rb_contents rb' = drop (n + length xs - length buf) (rb_contents rb @ xs)"
proof -
  note d = rb_repD [OF rep]
  let ?L = "length (buffer_ptr rb)" and ?r = "unat (read_index rb)" and ?w = "unat (write_index rb)" and ?k = "length xs"
  have len: "length buf = ?L" using wr by (simp add: written_def)
  have lt: "unat i < ?L" using i len d(6) over(2) by (auto split: if_splits)
  show r: "rb_rep rb' (length buf)" using d(1-3) len lt m by (simp add: rb'_def rb_rep_def Let_def)
  have "unat i = (?w + ?k) mod ?L" using i len d(6) over(2) by (auto simp: mod_if)
  then have "unat i = (?r + n + ?k) mod ?L" unfolding d(7) by (simp add: mod_simps)
  moreover have "(?r + (n + ?k - ?L)) mod ?L = (?r + (n + ?k - ?L) + ?L) mod ?L" by simp
  moreover have "?r + (n + ?k - ?L) + ?L = ?r + n + ?k" using over(1) by simp
  ultimately have ix: "unat i = (?r + (n + ?k - ?L)) mod ?L" by (simp add: add.assoc)
  have "ring_list buf ((?r + (n + ?k - ?L)) mod ?L) (n + ?k - (n + ?k - ?L)) =
      drop (n + ?k - ?L) (ring_list (buffer_ptr rb) ?r n @ xs)"
    by (rule written_ring) (use wr d over in \<open>simp_all\<close>)
  then show "rb_contents rb' = drop (n + ?k - length buf) (rb_contents rb @ xs)"
    using rb_contents_rep(1) [OF r] rb_contents_rep(1) [OF rep] ix over(1) len by (simp add: rb'_def)
qed

lemma rb_put_force_ok:
  assumes rep: "rb_rep rb n" and src: "unat len \<le> length ptr"
  defines "k \<equiv> min (unat len) (length (buffer_ptr rb))"
  shows "\<exists>c rb'. rt_ringbuffer_put_force ptr len rb = Some (c, rb') \<and> unat c = k \<and>
     rb_rep rb' (min (n + k) (length (buffer_ptr rb))) \<and> rb_cap rb' = rb_cap rb \<and>
     rb_contents rb' = drop (n + unat len - length (buffer_ptr rb)) (rb_contents rb @ take (unat len) ptr)"
proof -
  note d = rb_repD [OF rep] and sp = rb_space(2) [OF rep]
  let ?L = "length (buffer_ptr rb)" and ?r = "unat (read_index rb)" and ?w = "unat (write_index rb)"
  let ?e = "to_end (write_index rb) rb" and ?cap = "word_of_int (buffer_size rb) :: 32 word"
  let ?space = "ucast (rt_ringbuffer_space_len rb) :: 32 word"
  define p where "p = (if ?cap < len then drop (unat (len - ?cap)) ptr else ptr)"
  define nw where "nw = (if ?cap < len then ?cap else len)"
  have cap: "unat ?cap = ?L" using d(1,3) by (subst unat_word_of_int) auto
  have n: "unat nw = k" using cap by (auto simp: nw_def k_def word_less_nat_alt)
  have p': "p = drop (unat len - k) ptr"
    using cap unat_sub [of ?cap len] by (auto simp: p_def k_def word_less_nat_alt word_le_nat_alt)
  have kL: "k \<le> ?L" "k \<le> length p" using src by (auto simp: k_def p')
  have tk: "length (take k p) = k" using kL(2) by simp
  have src': "take k p = drop (unat len - k) (take (unat len) ptr)" using src by (simp add: p' k_def drop_take min_def)
  have old: "length (rb_contents rb) = n" using rb_contents_rep(2) [OF rep] .
  have ov: "?space < nw \<longleftrightarrow> ?L < n + k" using sp n d(5) by (auto simp: word_less_nat_alt)
  have res: "drop (n + k - ?L) (rb_contents rb @ take k p) = drop (n + unat len - ?L) (rb_contents rb @ take (unat len) ptr)"
  proof (cases "?L < unat len")
    case True
    then have "k = ?L" "n + unat len - ?L = n + (unat len - ?L)" by (simp_all add: k_def)
    then show ?thesis using old src' by simp
  next
    case False
    then show ?thesis using src' by (simp add: k_def)
  qed
  show ?thesis
  proof (cases "nw < ?e")
    case True
    obtain buf where s: "?w + k < ?L" "unat (write_index rb + ucast nw) = ?w + k"
      "rb_copy_in ?w p k rb = Some (rb\<lparr>buffer_ptr := buf\<rparr>)" "written (buffer_ptr rb) ?w (take k p) buf"
      using rb_store(1) [OF rep n kL True] by auto
    have len: "length buf = ?L" using s(4) by (simp add: written_def)
    let ?i = "write_index rb + ucast nw"
    let ?rb2 = "rb\<lparr>buffer_ptr := buf, write_mirror := write_mirror rb, write_index := ?i\<rparr>"
    let ?rb3 = "rb\<lparr>buffer_ptr := buf, read_mirror := read_mirror rb, read_index := ?i, write_mirror := write_mirror rb, write_index := ?i\<rparr>"
    have eq: "rt_ringbuffer_put_force ptr len rb = Some (ucast nw, if ?L < n + k then ?rb3 else ?rb2)"
      unfolding rt_ringbuffer_put_force_def Let_def nw_def [symmetric] p_def [symmetric] using True n s(3) ov by simp
    show ?thesis
    proof (cases "?L < n + k")
      case over: True
      have m: "read_mirror rb \<noteq> write_mirror rb" using d(8) s(1) over by linarith
      show ?thesis
        using rb_overrun [OF rep s(4) _ _ _ m, of ?i] over kL(1) tk s(1,2) len eq n res by (simp add: rb_cap_def)
    next
      case False
      then show ?thesis
        using rb_append [OF rep s(4), of ?i "write_mirror rb"] tk s(1,2) len eq n res by (simp add: rb_cap_def)
    qed
  next
    case wrap: False
    obtain rb1 buf where s: "?L \<le> ?w + k" "unat (ucast (nw - ?e) :: 31 word) = ?w + k - ?L"
      "rb_copy_in ?w p (unat ?e) rb = Some rb1"
      "rb_copy_in 0 (drop (unat ?e) p) (unat (nw - ?e)) rb1 = Some (rb\<lparr>buffer_ptr := buf\<rparr>)"
      "written (buffer_ptr rb) ?w (take k p) buf"
      using rb_store(2) [OF rep n kL wrap] by auto
    have len: "length buf = ?L" using s(5) by (simp add: written_def)
    let ?i = "ucast (nw - ?e) :: 31 word"
    let ?m = "if ?i \<le> read_index rb then NOT (read_mirror rb) else read_mirror rb"
    let ?rb2 = "rb\<lparr>buffer_ptr := buf, write_mirror := NOT (write_mirror rb), write_index := ?i\<rparr>"
    let ?rb3 = "rb\<lparr>buffer_ptr := buf, read_mirror := ?m, read_index := ?i, write_mirror := NOT (write_mirror rb), write_index := ?i\<rparr>"
    have eq: "rt_ringbuffer_put_force ptr len rb = Some (ucast nw, if ?L < n + k then ?rb3 else ?rb2)"
      unfolding rt_ringbuffer_put_force_def Let_def nw_def [symmetric] p_def [symmetric] using wrap s(3,4) ov by simp
    show ?thesis
    proof (cases "?L < n + k")
      case over: True
      have m: "?m \<noteq> NOT (write_mirror rb)"
      proof (cases "read_mirror rb = write_mirror rb")
        case True
        then have "?r < ?w + k - ?L" using d(8) over by linarith
        then show ?thesis using s(2) True by (simp add: word_le_nat_alt)
      next
        case False
        then have "?w + k - ?L \<le> ?r" using d(5,9) kL(1) by linarith
        then show ?thesis using s(2) False by (simp add: word_le_nat_alt)
      qed
      show ?thesis
        using rb_overrun [OF rep s(5) _ _ _ m, of ?i] over kL(1) tk s(1,2) len eq n res by (simp add: rb_cap_def)
    next
      case False
      then show ?thesis
        using rb_append [OF rep s(5), of ?i "NOT (write_mirror rb)"] tk s(1,2) len eq n res
        by (simp add: rb_cap_def del: mirror_not)
    qed
  qed
qed

lemma ring_take:
  assumes "r < length buf" "k \<le> n" "n \<le> length buf"
  shows "r + k < length buf \<Longrightarrow> take k (ring_list buf r n) = take k (drop r buf)"
    "length buf \<le> r + k \<Longrightarrow> take k (ring_list buf r n) = take (length buf - r) (drop r buf) @ take (k - (length buf - r)) buf"
proof -
  show "take k (ring_list buf r n) = take k (drop r buf)" if "r + k < length buf"
    using assms that by (intro nth_equalityI) (simp_all add: ring_list_nth)
  show "take k (ring_list buf r n) = take (length buf - r) (drop r buf) @ take (k - (length buf - r)) buf"
    if "length buf \<le> r + k"
  proof (rule nth_equalityI)
    show "length (take k (ring_list buf r n)) = length (take (length buf - r) (drop r buf) @ take (k - (length buf - r)) buf)"
      using assms that by simp
    fix i assume "i < length (take k (ring_list buf r n))"
    then have i: "i < k" using assms by simp
    show "take k (ring_list buf r n) ! i = (take (length buf - r) (drop r buf) @ take (k - (length buf - r)) buf) ! i"
    proof (cases "r + i < length buf")
      case True
      then have "i < length buf - r" by linarith
      then show ?thesis using i assms True by (simp add: ring_list_nth nth_append)
    next
      case False
      then have "\<not> i < length buf - r" "i - (length buf - r) < k - (length buf - r)" "(r + i) mod length buf = i - (length buf - r)"
        using i assms that by (auto simp: mod_if)
      then show ?thesis using i assms by (simp add: ring_list_nth nth_append)
    qed
  qed
qed

lemma rb_get_ok:
  fixes len :: "32 word"
  assumes rep: "rb_rep rb n"
  defines "k \<equiv> min (unat len) n"
  shows "\<exists>c rb'. rt_ringbuffer_get len rb = Some (c, take k (rb_contents rb), rb') \<and> unat c = k \<and>
     rb_rep rb' (n - k) \<and> rb_contents rb' = drop k (rb_contents rb) \<and> rb_cap rb' = rb_cap rb"
proof -
  note d = rb_repD [OF rep] and l = data_len_rep(1) [OF rep]
  let ?L = "length (buffer_ptr rb)" and ?r = "unat (read_index rb)"
  let ?sz = "rt_ringbuffer_data_len rb" and ?e = "to_end (read_index rb) rb"
  define nw where "nw = (if ?sz < ucast len then ucast ?sz else len)"
  have sz32: "unat (ucast ?sz :: 32 word) = n" using l d(3,5) by (simp add: unsigned_ucast_eq take_bit_nat_eq_self)
  have n: "unat nw = k" using l sz32 by (auto simp: nw_def k_def word_less_nat_alt)
  have e: "unat ?e = ?L - ?r" using rb_space(3) [OF rep d(4) refl] .
  have kn: "k \<le> n" by (simp add: k_def)
  have z: "?sz = 0 \<longleftrightarrow> n = 0" unfolding word_unat_eq_iff l by simp
  note ct = rb_contents_rep(1) [OF rep]
  show ?thesis
  proof (cases "?sz = 0")
    case True
    then show ?thesis using z rep by (simp add: rt_ringbuffer_get_def k_def)
  next
    case nz: False
    show ?thesis
    proof (cases "nw < ?e")
      case True
      then have lt: "?r + k < ?L" using n e d(4) by (simp only: word_less_nat_alt)
      let ?i = "read_index rb + ucast nw"
      have ix: "unat ?i = ?r + k" using index_add [of "read_index rb" nw ?L] lt n d(3) by simp
      let ?rb' = "rb\<lparr>read_mirror := read_mirror rb, read_index := ?i\<rparr>"
      have "rt_ringbuffer_get len rb = Some (ucast nw, take k (rb_contents rb), ?rb')"
        unfolding rt_ringbuffer_get_def Let_def nw_def [symmetric]
        using nz True n lt ring_take(1) [OF d(4) kn d(5) lt] ct by (simp add: rb_copy_out_def)
      moreover note advance_read [OF rep kn, of ?i "read_mirror rb"]
      ultimately show ?thesis
        using ix lt n ct rb_contents_rep(1) [of ?rb' "n - k"] by (simp add: rb_cap_def)
    next
      case False
      then have ge: "?L - ?r \<le> k" and le: "?e \<le> nw" using n e by (simp_all only: word_less_nat_alt word_le_nat_alt not_less)
      have ne: "unat (nw - ?e) = k - (?L - ?r)" unfolding unat_sub [OF le] n e ..
      let ?i = "ucast (nw - ?e) :: 31 word"
      have ix: "unat ?i = ?r + k - ?L" using unat_ucast_to_31 [of "nw - ?e"] ne kn d(3,4,5) ge by simp
      have wr: "?L \<le> ?r + k" using ge by linarith
      let ?rb' = "rb\<lparr>read_mirror := NOT (read_mirror rb), read_index := ?i\<rparr>"
      have "rt_ringbuffer_get len rb = Some (ucast nw, take k (rb_contents rb), ?rb')"
        unfolding rt_ringbuffer_get_def Let_def nw_def [symmetric]
        using nz False n e ne ge kn d(4,5) ring_take(2) [OF d(4) kn d(5) wr] ct by (simp add: rb_copy_out_def)
      moreover note advance_read [OF rep kn, of ?i "NOT (read_mirror rb)"]
      ultimately show ?thesis
        using ix wr n ct rb_contents_rep(1) [of ?rb' "n - k"] by (simp add: rb_cap_def del: mirror_not)
    qed
  qed
qed

text \<open>
  C31. Putting and getting bytes.  \<^verbatim>\<open>rt_ringbuffer_put\<close> appends as many of the given
  bytes as there is space for and returns their number; \<^verbatim>\<open>rt_ringbuffer_get\<close> delivers
  and removes the oldest bytes, as many as are asked for and there are.  All copies
  stay inside the buffer, also when they run around its end, and the mirror bits
  tell the full buffer from the empty one.
\<close>

theorem ringbuffer_put_get:
  assumes "rb_ok rb" "unat len \<le> length ptr"
  shows "(\<exists>c rb'. rt_ringbuffer_put ptr len rb = Some (c, rb') \<and> rb_ok rb' \<and> rb_cap rb' = rb_cap rb \<and>
       unat c = min (unat len) (rb_cap rb - length (rb_contents rb)) \<and> rb_contents rb' = rb_contents rb @ take (unat c) ptr) \<and>
     (\<exists>c rb'. rt_ringbuffer_get len rb = Some (c, take (unat c) (rb_contents rb), rb') \<and> rb_ok rb' \<and> rb_cap rb' = rb_cap rb \<and>
       unat c = min (unat len) (length (rb_contents rb)) \<and> rb_contents rb' = drop (unat c) (rb_contents rb))"
proof -
  have rep: "rb_rep rb (rb_len rb)" using assms(1) by (simp add: rb_ok_def)
  note l = rb_contents_rep(2) [OF rep]
  obtain c rb' where "rt_ringbuffer_put ptr len rb = Some (c, rb')" "rb_ok rb'" "rb_cap rb' = rb_cap rb"
    "unat c = min (unat len) (rb_cap rb - rb_len rb)" "rb_contents rb' = rb_contents rb @ take (unat c) ptr"
    using rb_put_ok [OF rep assms(2)] data_len_rep(3) by (auto simp: rb_cap_def)
  moreover obtain c' rb'' where "rt_ringbuffer_get len rb = Some (c', take (unat c') (rb_contents rb), rb'')" "rb_ok rb''"
    "rb_cap rb'' = rb_cap rb" "unat c' = min (unat len) (rb_len rb)" "rb_contents rb'' = drop (unat c') (rb_contents rb)"
    using rb_get_ok [OF rep, of len] data_len_rep(3) by auto
  ultimately show ?thesis using l by auto
qed

definition sample_rb :: rt_ringbuffer where
  "sample_rb = \<lparr>buffer_ptr = [3, 0, 0, 0, 0, 0, 1, 2], read_mirror = 0, read_index = 6, write_mirror = 1, write_index = 1,
     buffer_size = 8\<rparr>"

lemma sample_rb_ok: "rb_ok sample_rb" "rb_contents sample_rb = [1, 2, 3]" "rb_cap sample_rb = 8"
proof -
  have r: "rb_rep sample_rb 3" by (simp add: rb_rep_def sample_rb_def)
  show "rb_ok sample_rb" by (rule data_len_rep(3) [OF r])
  show "rb_contents sample_rb = [1, 2, 3]"
    unfolding rb_contents_rep(1) [OF r] by (simp add: sample_rb_def ring_list_def upt_rec)
  show "rb_cap sample_rb = 8" by (simp add: rb_cap_def sample_rb_def)
qed

theorem ringbuffer_put_get_witness:
  "\<exists>c rb'. rt_ringbuffer_put [4, 5, 6, 7, 8, 9] 6 sample_rb = Some (c, rb') \<and> unat c = 5 \<and>
     rb_contents rb' = [1, 2, 3, 4, 5, 6, 7, 8]"
  using ringbuffer_put_get [OF sample_rb_ok(1), of 6 "[4, 5, 6, 7, 8, 9]"] sample_rb_ok(2,3) by auto

text \<open>
  The forced put never refuses: afterwards the buffer holds the last bytes of
  its old contents followed by the given ones, as many as its size.
\<close>

theorem ringbuffer_force_keeps_newest:
  assumes "rb_ok rb" "unat len \<le> length ptr"
  shows "\<exists>c rb'. rt_ringbuffer_put_force ptr len rb = Some (c, rb') \<and> rb_ok rb' \<and> rb_cap rb' = rb_cap rb \<and>
     unat c = min (unat len) (rb_cap rb) \<and>
     rb_contents rb' = drop (length (rb_contents rb) + unat len - rb_cap rb) (rb_contents rb @ take (unat len) ptr)"
proof -
  have rep: "rb_rep rb (rb_len rb)" using assms(1) by (simp add: rb_ok_def)
  show ?thesis
    using rb_put_force_ok [OF rep assms(2)] data_len_rep(3) rb_contents_rep(2) [OF rep] by (auto simp: rb_cap_def)
qed

theorem ringbuffer_force_keeps_newest_witness:
  "\<exists>c rb'. rt_ringbuffer_put_force [4, 5, 6, 7, 8, 9] 6 sample_rb = Some (c, rb') \<and> rb_contents rb' = [2, 3, 4, 5, 6, 7, 8, 9]"
  using ringbuffer_force_keeps_newest [OF sample_rb_ok(1), of 6 "[4, 5, 6, 7, 8, 9]"] sample_rb_ok(2,3) by auto

section \<open>Single bytes\<close>

lemma index_last:
  fixes i :: "31 word"
  assumes rep: "rb_rep rb n" and i: "unat i < length (buffer_ptr rb)"
  shows "uint i = buffer_size rb - 1 \<longleftrightarrow> unat i + 1 = length (buffer_ptr rb)"
    "unat i + 1 < length (buffer_ptr rb) \<Longrightarrow> unat (i + 1) = unat i + 1"
proof -
  note d = rb_repD [OF rep]
  have "uint i = int (unat i)" by (rule uint_nat)
  then show "uint i = buffer_size rb - 1 \<longleftrightarrow> unat i + 1 = length (buffer_ptr rb)" using d(1) by linarith
  have "unat i + unat (1 :: 31 word) < 2 ^ LENGTH(31)" using i d(3) by simp
  then show "unat (i + 1) = unat i + 1" using unat_add_lem [of i 1] by simp
qed

lemma rb_putchar_ok:
  assumes rep: "rb_rep rb n" and room: "n < length (buffer_ptr rb)"
  shows "\<exists>rb'. rt_ringbuffer_putchar ch rb = Some (1, rb') \<and> rb_rep rb' (n + 1) \<and>
     rb_contents rb' = rb_contents rb @ [ch] \<and> rb_cap rb' = rb_cap rb"
proof -
  note d = rb_repD [OF rep]
  let ?L = "length (buffer_ptr rb)" and ?w = "unat (write_index rb)"
  have le: "?w + 1 \<le> ?L" using d(6) by simp
  obtain buf where s: "rb_copy_in ?w [ch] 1 rb = Some (rb\<lparr>buffer_ptr := buf\<rparr>)" "written (buffer_ptr rb) ?w [ch] buf"
    using copy_one [OF le, of "[ch]"] by auto
  have len: "length buf = ?L" using s(2) by (simp add: written_def)
  have "unat (rt_ringbuffer_space_len rb) \<noteq> 0" using rb_space(1) [OF rep] room by simp
  then have nz: "rt_ringbuffer_space_len rb \<noteq> 0" by auto
  note ix = index_last [OF rep d(6)]
  let ?i = "if ?w + 1 = ?L then 0 else write_index rb + 1" and ?m = "if ?w + 1 = ?L then NOT (write_mirror rb) else write_mirror rb"
  let ?rb' = "rb\<lparr>buffer_ptr := buf, write_mirror := ?m, write_index := ?i\<rparr>"
  have "rt_ringbuffer_putchar ch rb = Some (1, ?rb')"
    using nz s(1) ix(1) len by (simp add: rt_ringbuffer_putchar_def)
  moreover have "rb_rep ?rb' (n + 1)" "rb_contents ?rb' = rb_contents rb @ [ch]"
    using rb_append [OF rep s(2), of ?i ?m] room ix(2) len d(6) by (auto simp del: mirror_not)
  ultimately show ?thesis using len by (simp add: rb_cap_def)
qed

lemma rb_getchar_ok:
  assumes rep: "rb_rep rb n" and some: "0 < n"
  shows "\<exists>rb'. rt_ringbuffer_getchar rb = Some (1, Some (hd (rb_contents rb)), rb') \<and> rb_rep rb' (n - 1) \<and>
     rb_contents rb' = tl (rb_contents rb) \<and> rb_cap rb' = rb_cap rb"
proof -
  note d = rb_repD [OF rep] and l = data_len_rep(1) [OF rep] and ct = rb_contents_rep(1) [OF rep]
  let ?L = "length (buffer_ptr rb)" and ?r = "unat (read_index rb)"
  have nz: "rt_ringbuffer_data_len rb \<noteq> 0" using l some by auto
  note ix = index_last [OF rep d(4)]
  let ?i = "if ?r + 1 = ?L then 0 else read_index rb + 1" and ?m = "if ?r + 1 = ?L then NOT (read_mirror rb) else read_mirror rb"
  let ?rb' = "rb\<lparr>read_mirror := ?m, read_index := ?i\<rparr>"
  have hd: "hd (rb_contents rb) = buffer_ptr rb ! ?r"
    unfolding ct ring_list_pop [OF some d(4)] by simp
  have out: "rb_copy_out ?r 1 rb = Some [buffer_ptr rb ! ?r]"
    using d(4) by (simp add: rb_copy_out_def take_Suc_conv_app_nth hd_drop_conv_nth take_Suc)
  have "rt_ringbuffer_getchar rb = Some (1, Some (hd (rb_contents rb)), ?rb')"
    using nz out ix(1) hd by (simp add: rt_ringbuffer_getchar_def)
  moreover have u: "unat ?i = (if ?r + 1 < ?L then ?r + 1 else ?r + 1 - ?L)"
    "?m = (if ?r + 1 < ?L then read_mirror rb else NOT (read_mirror rb))"
    using ix(2) d(4) by (auto simp del: mirror_not)
  have "rb_rep ?rb' (n - 1)" "ring_list (buffer_ptr rb) (unat ?i) (n - 1) = tl (rb_contents rb)"
    using advance_read [OF rep _ u] some ct by (simp_all add: drop_Suc)
  then have "rb_rep ?rb' (n - 1)" "rb_contents ?rb' = tl (rb_contents rb)"
    using rb_contents_rep(1) [of ?rb' "n - 1"] by simp_all
  ultimately show ?thesis by (simp add: rb_cap_def)
qed

definition rb_putc :: "8 word \<Rightarrow> rt_ringbuffer \<Rightarrow> rt_ringbuffer option" where
  "rb_putc ch rb = map_option snd (rt_ringbuffer_putchar ch rb)"

definition rb_getc :: "rt_ringbuffer \<Rightarrow> (8 word \<times> rt_ringbuffer) option" where
  "rb_getc rb = do { (_, c, rb') \<leftarrow> rt_ringbuffer_getchar rb; ch \<leftarrow> c; Some (ch, rb') }"

interpretation rbq: bounded_store rb_ok rb_contents rb_cap "\<lambda>x xs. xs @ [x]" "\<lambda>_ _. True" rb_putc "\<lambda>_ _. None" rb_getc
  "\<lambda>rb. rt_ringbuffer_space_len rb = 0" "\<lambda>rb. rt_ringbuffer_data_len rb = 0" False
proof
  fix rb :: rt_ringbuffer and x y :: "8 word" and ys
  assume "rb_ok rb"
  then have rep: "rb_rep rb (rb_len rb)" by (simp add: rb_ok_def)
  note l = rb_contents_rep(2) [OF rep] and d = rb_repD [OF rep] and dl = data_len_rep(1) [OF rep] and sp = rb_space(1) [OF rep]
  have "rt_ringbuffer_space_len rb = 0 \<longleftrightarrow> rb_cap rb - rb_len rb = 0" unfolding word_unat_eq_iff sp by (simp add: rb_cap_def)
  then show "rt_ringbuffer_space_len rb = 0 \<longleftrightarrow> length (rb_contents rb) = rb_cap rb" using l d(5) by (auto simp: rb_cap_def)
  show "length (rb_contents rb) \<le> rb_cap rb" using l d(5) by (simp add: rb_cap_def)
  have "rt_ringbuffer_data_len rb = 0 \<longleftrightarrow> rb_len rb = 0" unfolding word_unat_eq_iff dl by simp
  then show "rt_ringbuffer_data_len rb = 0 \<longleftrightarrow> rb_contents rb = []" using l by auto
  show "\<exists>rb'. rb_putc x rb = Some rb' \<and> rb_ok rb' \<and> rb_contents rb' = rb_contents rb @ [x] \<and> rb_cap rb' = rb_cap rb \<and> (\<forall>y. True = True)"
    if "length (rb_contents rb) < rb_cap rb"
    using rb_putchar_ok [OF rep, of x] that l data_len_rep(3) by (auto simp: rb_putc_def rb_cap_def)
  show "\<exists>rb'. rb_getc rb = Some (y, rb') \<and> rb_ok rb' \<and> rb_contents rb' = ys \<and> rb_cap rb' = rb_cap rb \<and> (\<forall>z. True = True)"
    if "rb_contents rb = y # ys"
    using rb_getchar_ok [OF rep] that l data_len_rep(3) by (auto simp: rb_getc_def)
qed simp

text \<open>
  A ring buffer made by \<^verbatim>\<open>rt_ringbuffer_init\<close> on a pool of at least eight bytes
  is empty, and over any sequence of \<^verbatim>\<open>rt_ringbuffer_putchar\<close> and
  \<^verbatim>\<open>rt_ringbuffer_getchar\<close> it delivers and holds the bytes of a bounded queue.
\<close>

lemma align_down_8: "RT_ALIGN_DOWN x 8 = x - x mod 8"
proof -
  have "x AND NOT (mask 3) = x AND NOT (take_bit 3 x)"
    by (rule bit_eqI) (auto simp: bit_simps)
  also have "\<dots> = x - take_bit 3 x"
    by (rule disjunctive_diff_eq_and_not [symmetric]) (rule bit_eqI, auto simp: bit_simps)
  finally have "x AND NOT (mask 3) = x - x mod 8" by (simp add: take_bit_eq_mod)
  moreover have "(mask 3 :: int) = 8 - 1" by (simp add: mask_eq_exp_minus_1)
  ultimately show ?thesis by (simp add: RT_ALIGN_DOWN_def)
qed

theorem ringbuffer_is_a_queue:
  assumes "8 \<le> sz" "sz < 2 ^ 31" "length pool = nat (RT_ALIGN_DOWN sz 8)" "\<forall>x. Urgent x \<notin> set ops"
  shows "\<exists>rb out rb'. rt_ringbuffer_init pool sz = Some rb \<and> rb_ok rb \<and>
     run_store rb_putc (\<lambda>_ _. None) rb_getc (\<lambda>rb. rt_ringbuffer_space_len rb = 0) (\<lambda>rb. rt_ringbuffer_data_len rb = 0) ops rb
       = Some (out, rb') \<and> rb_ok rb' \<and> (out, rb_contents rb') = list_store (\<lambda>x xs. xs @ [x]) (length pool) ops []"
proof -
  let ?rb = "\<lparr>buffer_ptr = pool, read_mirror = 0, read_index = 0, write_mirror = 0, write_index = 0,
           buffer_size = RT_ALIGN_DOWN sz 8\<rparr>"
  have "0 < RT_ALIGN_DOWN sz 8" "RT_ALIGN_DOWN sz 8 < 2 ^ 31"
    using assms(1,2) pos_mod_bound [of 8 sz] pos_mod_sign [of 8 sz] unfolding align_down_8 by linarith+
  then have rep: "rb_rep ?rb 0" using assms(3) by (simp add: rb_rep_def Let_def)
  have "rt_ringbuffer_init pool sz = Some ?rb" using assms(1) by (simp add: rt_ringbuffer_init_def)
  moreover have "rb_contents ?rb = []" "rb_cap ?rb = length pool"
    using rb_contents_rep(1) [OF rep] by (simp_all add: rb_cap_def)
  moreover note ok = data_len_rep(3) [OF rep]
  ultimately show ?thesis using rbq.run_refines [OF ok, of ops] assms(4) by auto
qed

theorem ringbuffer_is_a_queue_witness:
  "\<exists>rb rb'. rt_ringbuffer_init [0, 0, 0, 0, 0, 0, 0, 0] 9 = Some rb \<and>
     run_store rb_putc (\<lambda>_ _. None) rb_getc (\<lambda>rb. rt_ringbuffer_space_len rb = 0) (\<lambda>rb. rt_ringbuffer_data_len rb = 0)
       [Get, Put 5, Put 6, Get, Put 7, Get] rb = Some ([5, 6], rb')"
  using ringbuffer_is_a_queue [of 9 "[0, 0, 0, 0, 0, 0, 0, 0]" "[Get, Put 5, Put 6, Get, Put 7, Get]"]
  by (auto simp: align_down_8 simp del: run_store.simps)

end
