(* ===== verification/SmallMem.thy ===== *)
theory SmallMem
  imports KernelState
begin

text \<open>
  The system heap, \<^verbatim>\<open>src/mem.c\<close>: first-fit allocation in a doubly linked list of
  blocks.  A block starts with a header \<^verbatim>\<open>struct rt_small_mem_item\<close>; \<open>items\<close> holds the
  headers by their offset from \<^verbatim>\<open>heap_ptr\<close>, \<open>heap_bytes\<close> the bytes between them.  The
  pointers \<^verbatim>\<open>heap_end\<close> and \<^verbatim>\<open>lfree\<close> are offsets too, all of them 64-bit words.  A failed
  \<^verbatim>\<open>RT_ASSERT\<close> ends the model (\<open>None\<close>), a null pointer is \<open>None\<close> in a result.
\<close>

section \<open>Operations\<close>

record rt_small_mem_item =
  pool_ptr :: "64 word"
  it_next :: "64 word"
  it_prev :: "64 word"
  it_thread :: string

record rt_small_mem =
  sm_addr :: "64 word"
  sm_type :: "8 word"
  mem_total :: "64 word"
  mem_used :: "64 word"
  mem_max :: "64 word"
  heap_ptr :: "64 word"
  heap_end :: "64 word"
  lfree :: "64 word"
  mem_size_aligned :: "64 word"
  items :: "nat \<Rightarrow> rt_small_mem_item"
  heap_bytes :: "nat \<Rightarrow> 8 word"

definition SIZEOF_STRUCT_MEM :: "64 word" where "SIZEOF_STRUCT_MEM = 40"
definition MIN_SIZE_ALIGNED :: "64 word" where "MIN_SIZE_ALIGNED = 24"
definition SIZEOF_SMALL_MEM :: "64 word" where "SIZEOF_SMALL_MEM = 120"

definition MEM_USED :: "rt_small_mem \<Rightarrow> 64 word" where
  "MEM_USED h = (sm_addr h AND NOT 1) OR 1"

definition MEM_FREED :: "rt_small_mem \<Rightarrow> 64 word" where
  "MEM_FREED h = (sm_addr h AND NOT 1) OR 0"

definition MEM_ISUSED :: "rt_small_mem_item \<Rightarrow> bool" where
  "MEM_ISUSED it \<longleftrightarrow> pool_ptr it AND 1 \<noteq> 0"

definition MEM_POOL :: "rt_small_mem_item \<Rightarrow> 64 word" where
  "MEM_POOL it = pool_ptr it AND NOT 1"

definition item :: "64 word \<Rightarrow> rt_small_mem \<Rightarrow> rt_small_mem_item" where
  "item p h = items h (unat p)"

definition upd_item :: "64 word \<Rightarrow> (rt_small_mem_item \<Rightarrow> rt_small_mem_item) \<Rightarrow> rt_small_mem \<Rightarrow> rt_small_mem" where
  "upd_item p f h = h\<lparr>items := (items h)(unat p := f (items h (unat p)))\<rparr>"

definition rt_smem_setname :: "string \<Rightarrow> rt_small_mem_item \<Rightarrow> rt_small_mem_item" where
  "rt_smem_setname name it = it\<lparr>it_thread := take 8 (name @ replicate 8 (CHR '' ''))\<rparr>"

definition smem_object_ok :: "rt_small_mem \<Rightarrow> bool" where
  "smem_object_ok h \<longleftrightarrow> sm_type h AND NOT RT_Object_Class_Static = RT_Object_Class_Memory \<and> sm_type h AND RT_Object_Class_Static \<noteq> 0"

text \<open>The block at \<open>x\<close> absorbs its successor \<open>n\<close>.\<close>

definition smem_join :: "64 word \<Rightarrow> 64 word \<Rightarrow> rt_small_mem \<Rightarrow> rt_small_mem" where
  "smem_join x n h =
    (let b = upd_item n (\<lambda>i. i\<lparr>pool_ptr := 0\<rparr>) h;
         c = upd_item x (\<lambda>i. i\<lparr>it_next := it_next (item n b)\<rparr>) b
     in upd_item (it_next (item n c)) (\<lambda>i. i\<lparr>it_prev := x\<rparr>) c)"

definition plug_next :: "64 word \<Rightarrow> rt_small_mem \<Rightarrow> rt_small_mem" where
  "plug_next mem h = (let nmem = it_next (item mem h)
     in if mem \<noteq> nmem \<and> \<not> MEM_ISUSED (item nmem h) \<and> nmem \<noteq> heap_end h
        then smem_join mem nmem (if lfree h = nmem then h\<lparr>lfree := mem\<rparr> else h) else h)"

definition plug_prev :: "64 word \<Rightarrow> rt_small_mem \<Rightarrow> rt_small_mem" where
  "plug_prev mem h = (let pmem = it_prev (item mem h)
     in if pmem \<noteq> mem \<and> \<not> MEM_ISUSED (item pmem h)
        then smem_join pmem mem (if lfree h = mem then h\<lparr>lfree := pmem\<rparr> else h) else h)"

definition plug_holes :: "64 word \<Rightarrow> rt_small_mem \<Rightarrow> rt_small_mem option" where
  "plug_holes mem h = do {
     rt_assert (mem < heap_end h);
     Some (plug_prev mem (plug_next mem h))
   }"

text \<open>
  \<open>mem\<close> is the old contents of the memory (headers and bytes); \<open>None\<close> in the result is the null
  pointer.  \<^verbatim>\<open>rt_object_init\<close> stores the class of the object with the static bit.
\<close>

definition rt_smem_init ::
    "(nat \<Rightarrow> rt_small_mem_item) \<times> (nat \<Rightarrow> 8 word) \<Rightarrow> 64 word \<Rightarrow> 64 word \<Rightarrow> rt_small_mem option" where
  "rt_smem_init mem begin_addr sz =
    (let small_mem = RT_ALIGN begin_addr 8;
         start_addr = small_mem + SIZEOF_SMALL_MEM;
         begin_align = RT_ALIGN start_addr 8;
         end_align = (begin_addr + sz) AND NOT (8 - 1)
     in if 2 * SIZEOF_STRUCT_MEM < end_align \<and> start_addr \<le> end_align - 2 * SIZEOF_STRUCT_MEM
        then let mem_size = end_align - begin_align - 2 * SIZEOF_STRUCT_MEM;
                 h = \<lparr>sm_addr = small_mem, sm_type = RT_Object_Class_Memory OR RT_Object_Class_Static, mem_total = mem_size, mem_used = 0, mem_max = 0, heap_ptr = begin_align,
                      heap_end = 0, lfree = 0, mem_size_aligned = mem_size, items = fst mem, heap_bytes = snd mem\<rparr>;
                 h1 = upd_item 0 (\<lambda>i. rt_smem_setname ''INIT''
                        (i\<lparr>pool_ptr := MEM_FREED h, it_next := mem_size_aligned h + SIZEOF_STRUCT_MEM, it_prev := 0\<rparr>)) h;
                 h2 = h1\<lparr>heap_end := it_next (item 0 h1)\<rparr>;
                 h3 = upd_item (heap_end h2) (\<lambda>i. rt_smem_setname ''INIT''
                        (i\<lparr>pool_ptr := MEM_USED h2, it_next := mem_size_aligned h2 + SIZEOF_STRUCT_MEM,
                           it_prev := mem_size_aligned h2 + SIZEOF_STRUCT_MEM\<rparr>)) h2
             in Some (h3\<lparr>lfree := 0\<rparr>)
        else None)"

definition rt_smem_detach :: "rt_small_mem \<Rightarrow> (err \<times> rt_small_mem) option" where
  "rt_smem_detach h = do {
     rt_assert (smem_object_ok h);
     Some (RT_EOK, h\<lparr>sm_type := 0\<rparr>)
   }"

text \<open>The search of \<^verbatim>\<open>rt_smem_alloc\<close>: the offset of the block it stops at, if any.\<close>

partial_function (option) smem_search :: "64 word \<Rightarrow> 64 word \<Rightarrow> rt_small_mem \<Rightarrow> 64 word option option" where
  "smem_search sz ptr h =
    (if ptr \<le> mem_size_aligned h - sz
     then if \<not> MEM_ISUSED (item ptr h) \<and> sz \<le> it_next (item ptr h) - (ptr + SIZEOF_STRUCT_MEM)
          then Some (Some ptr)
          else smem_search sz (it_next (item ptr h)) h
     else Some None)"

partial_function (option) smem_advance :: "64 word \<Rightarrow> rt_small_mem \<Rightarrow> 64 word option" where
  "smem_advance p h =
    (if MEM_ISUSED (item p h) \<and> p \<noteq> heap_end h then smem_advance (it_next (item p h)) h else Some p)"

definition smem_account :: "64 word \<Rightarrow> rt_small_mem \<Rightarrow> rt_small_mem" where
  "smem_account n h =
    (let h1 = h\<lparr>mem_used := mem_used h + n\<rparr> in if mem_max h1 < mem_used h1 then h1\<lparr>mem_max := mem_used h1\<rparr> else h1)"

definition smem_split :: "64 word \<Rightarrow> 64 word \<Rightarrow> rt_small_mem \<Rightarrow> rt_small_mem" where
  "smem_split ptr ptr2 h =
    (let h1 = upd_item ptr2 (\<lambda>i. rt_smem_setname ''    ''
                (i\<lparr>pool_ptr := MEM_FREED h, it_next := it_next (item ptr h), it_prev := ptr\<rparr>)) h;
         h2 = upd_item ptr (\<lambda>i. i\<lparr>it_next := ptr2\<rparr>) h1
     in if it_next (item ptr2 h2) \<noteq> mem_size_aligned h2 + SIZEOF_STRUCT_MEM
        then upd_item (it_next (item ptr2 h2)) (\<lambda>i. i\<lparr>it_prev := ptr2\<rparr>) h2 else h2)"

definition smem_carve :: "64 word \<Rightarrow> 64 word \<Rightarrow> rt_small_mem \<Rightarrow> rt_small_mem" where
  "smem_carve sz ptr h = (if sz + SIZEOF_STRUCT_MEM + MIN_SIZE_ALIGNED \<le> it_next (item ptr h) - (ptr + SIZEOF_STRUCT_MEM)
     then smem_account (sz + SIZEOF_STRUCT_MEM) (smem_split ptr (ptr + SIZEOF_STRUCT_MEM + sz) h)
     else smem_account (it_next (item ptr h) - ptr) h)"

definition smem_lowest :: "64 word \<Rightarrow> rt_small_mem \<Rightarrow> rt_small_mem option" where
  "smem_lowest ptr h =
    (if ptr = lfree h
     then do {
       l \<leftarrow> smem_advance (lfree h) h;
       rt_assert (l = heap_end h \<or> \<not> MEM_ISUSED (item l h));
       Some (h\<lparr>lfree := l\<rparr>)
     }
     else Some h)"

definition smem_take :: "64 word \<Rightarrow> 64 word \<Rightarrow> string option \<Rightarrow> rt_small_mem \<Rightarrow> (64 word option \<times> rt_small_mem) option" where
  "smem_take sz ptr who h =
    (let h1 = smem_carve sz ptr h;
         h2 = upd_item ptr (\<lambda>i. rt_smem_setname (case who of Some n \<Rightarrow> n | None \<Rightarrow> ''NONE'') (i\<lparr>pool_ptr := MEM_USED h1\<rparr>)) h1
     in do {
       h3 \<leftarrow> smem_lowest ptr h2;
       rt_assert (heap_ptr h3 + ptr + SIZEOF_STRUCT_MEM + sz \<le> heap_ptr h3 + heap_end h3);
       rt_assert ((heap_ptr h3 + ptr + SIZEOF_STRUCT_MEM) mod 8 = 0);
       rt_assert ((heap_ptr h3 + ptr) AND (8 - 1) = 0);
       Some (Some (heap_ptr h3 + ptr + SIZEOF_STRUCT_MEM), h3)
     })"

definition rt_smem_alloc :: "64 word \<Rightarrow> string option \<Rightarrow> rt_small_mem \<Rightarrow> (64 word option \<times> rt_small_mem) option" where
  "rt_smem_alloc size0 who h =
    (if size0 = 0 then Some (None, h)
     else do {
       rt_assert (smem_object_ok h);
       let size1 = RT_ALIGN size0 8;
       let sz = (if size1 < MIN_SIZE_ALIGNED then MIN_SIZE_ALIGNED else size1);
       if mem_size_aligned h < sz then Some (None, h)
       else do {
         found \<leftarrow> smem_search sz (lfree h) h;
         case found of None \<Rightarrow> Some (None, h) | Some ptr \<Rightarrow> smem_take sz ptr who h
       }
     })"

definition rt_smem_free :: "64 word option \<Rightarrow> rt_small_mem \<Rightarrow> rt_small_mem option" where
  "rt_smem_free rmem h =
    (case rmem of
       None \<Rightarrow> Some h
     | Some r \<Rightarrow> do {
         rt_assert (r AND (8 - 1) = 0);
         let mem = r - SIZEOF_STRUCT_MEM - heap_ptr h;
         rt_assert (MEM_POOL (item mem h) = sm_addr h \<and> sm_addr h \<noteq> 0);
         rt_assert (MEM_ISUSED (item mem h));
         rt_assert (smem_object_ok h);
         rt_assert (heap_ptr h \<le> r \<and> r < heap_ptr h + heap_end h);
         rt_assert (MEM_POOL (item (it_next (item mem h)) h) = sm_addr h);
         let h1 = upd_item mem (\<lambda>i. rt_smem_setname ''    '' (i\<lparr>pool_ptr := MEM_FREED h\<rparr>)) h;
         let h2 = (if mem < lfree h1 then h1\<lparr>lfree := mem\<rparr> else h1);
         let h3 = h2\<lparr>mem_used := mem_used h2 - (it_next (item mem h2) - mem)\<rparr>;
         plug_holes mem h3
       })"

definition smem_copy :: "64 word \<Rightarrow> 64 word \<Rightarrow> 64 word \<Rightarrow> rt_small_mem \<Rightarrow> rt_small_mem" where
  "smem_copy dst src n h =
    h\<lparr>heap_bytes := (\<lambda>i. if unat dst \<le> i \<and> i < unat dst + unat n then heap_bytes h (i - unat dst + unat src) else heap_bytes h i)\<rparr>"

definition rt_smem_realloc ::
    "64 word option \<Rightarrow> 64 word \<Rightarrow> string option \<Rightarrow> rt_small_mem \<Rightarrow> (64 word option \<times> rt_small_mem) option" where
  "rt_smem_realloc rmem newsize0 who h = do {
     rt_assert (smem_object_ok h);
     let newsize = RT_ALIGN newsize0 8;
     if mem_size_aligned h < newsize then Some (None, h)
     else if newsize = 0 then do { h1 \<leftarrow> rt_smem_free rmem h; Some (None, h1) }
     else case rmem of
       None \<Rightarrow> rt_smem_alloc newsize who h
     | Some r \<Rightarrow> do {
         rt_assert (r AND (8 - 1) = 0);
         rt_assert (heap_ptr h \<le> r);
         rt_assert (r < heap_ptr h + heap_end h);
         let ptr = r - SIZEOF_STRUCT_MEM - heap_ptr h;
         let sz = it_next (item ptr h) - ptr - SIZEOF_STRUCT_MEM;
         if sz = newsize then Some (Some r, h)
         else if newsize + SIZEOF_STRUCT_MEM + 24 < sz
         then do {
           let h1 = h\<lparr>mem_used := mem_used h - (sz - newsize)\<rparr>;
           let ptr2 = ptr + SIZEOF_STRUCT_MEM + newsize;
           let h2 = smem_split ptr ptr2 h1;
           let h3 = (if ptr2 < lfree h2 then h2\<lparr>lfree := ptr2\<rparr> else h2);
           h4 \<leftarrow> plug_holes ptr2 h3;
           Some (Some r, h4)
         }
         else do {
           (nmem, h1) \<leftarrow> rt_smem_alloc newsize who h;
           case nmem of
             None \<Rightarrow> Some (None, h1)
           | Some n \<Rightarrow> do {
               let h2 = smem_copy (n - heap_ptr h1) (r - heap_ptr h1) (if sz < newsize then sz else newsize) h1;
               h3 \<leftarrow> rt_smem_free (Some r) h2;
               Some (Some n, h3)
             }
         }
       }
   }"

section \<open>The list of blocks\<close>

definition tag :: "64 word \<Rightarrow> bool \<Rightarrow> 64 word" where
  "tag a u = (a AND NOT 1) OR (if u then 1 else 0)"

text \<open>
  \<open>hseg I a p x bs q y\<close>: from offset \<open>x\<close>, whose predecessor is \<open>p\<close>, the headers \<open>I\<close> of the
  heap at \<open>a\<close> link the blocks \<open>bs\<close> (offset and whether in use), up to offset \<open>y\<close> with
  predecessor \<open>q\<close>.
\<close>

fun hseg :: "(nat \<Rightarrow> rt_small_mem_item) \<Rightarrow> 64 word \<Rightarrow> nat \<Rightarrow> nat \<Rightarrow> (nat \<times> bool) list \<Rightarrow> nat \<Rightarrow> nat \<Rightarrow> bool" where
  "hseg I a p x [] q y \<longleftrightarrow> p = q \<and> x = y"
| "hseg I a p x (b # bs) q y \<longleftrightarrow> fst b = x \<and> pool_ptr (I x) = tag a (snd b) \<and> unat (it_prev (I x)) = p \<and>
     x + 40 \<le> unat (it_next (I x)) \<and> (snd b \<longrightarrow> x + 48 \<le> unat (it_next (I x))) \<and> 8 dvd unat (it_next (I x)) \<and> hseg I a x (unat (it_next (I x))) bs q y"

fun start :: "(nat \<times> bool) list \<Rightarrow> nat \<Rightarrow> nat" where
  "start [] e = e"
| "start (b # bs) e = fst b"

fun spans :: "(nat \<times> bool) list \<Rightarrow> nat \<Rightarrow> (nat \<times> nat \<times> bool) list" where
  "spans [] e = []"
| "spans (b # bs) e = (fst b, start bs e, snd b) # spans bs e"

definition allocated :: "(nat \<times> bool) list \<Rightarrow> nat \<Rightarrow> (nat \<times> nat) set" where
  "allocated bs e = {(x, y). (x, y, True) \<in> set (spans bs e)}"

fun used_bytes :: "(nat \<times> bool) list \<Rightarrow> nat \<Rightarrow> nat" where
  "used_bytes [] e = 0"
| "used_bytes (b # bs) e = (if snd b then start bs e - fst b else 0) + used_bytes bs e"

fun first_free :: "(nat \<times> bool) list \<Rightarrow> nat \<Rightarrow> nat" where
  "first_free [] e = e"
| "first_free (b # bs) e = (if snd b then first_free bs e else fst b)"

fun coalesced :: "(nat \<times> bool) list \<Rightarrow> bool" where
  "coalesced (b # c # bs) = ((snd b \<or> snd c) \<and> coalesced (c # bs))"
| "coalesced _ = True"

fun fit :: "nat \<Rightarrow> (nat \<times> bool) list \<Rightarrow> nat \<Rightarrow> nat option" where
  "fit s [] e = None"
| "fit s (b # bs) e = (if \<not> snd b \<and> fst b + 40 + s \<le> start bs e then Some (fst b) else fit s bs e)"

text \<open>The contract of the heap \<open>h\<close> with the blocks \<open>bs\<close>.\<close>

definition heap_inv :: "rt_small_mem \<Rightarrow> (nat \<times> bool) list \<Rightarrow> bool" where
  "heap_inv h bs \<longleftrightarrow>
    (let e = unat (heap_end h)
     in (\<exists>q. hseg (items h) (sm_addr h) 0 0 bs q e) \<and> pool_ptr (items h e) = tag (sm_addr h) True \<and>
        e = unat (mem_size_aligned h) + 40 \<and> 8 dvd e \<and> unat (heap_ptr h) + e + 40 < 2 ^ 64 \<and> 8 dvd unat (heap_ptr h) \<and>
        sm_addr h AND 1 = 0 \<and> sm_addr h \<noteq> 0 \<and> smem_object_ok h \<and> coalesced bs \<and>
        unat (lfree h) = first_free bs e \<and> unat (mem_used h) = used_bytes bs e)"

lemma tag_used: "MEM_ISUSED i \<longleftrightarrow> u" if "pool_ptr i = tag a u"
proof -
  have "tag a u AND 1 = (if u then 1 else 0)"
    unfolding tag_def or.commute [of "a AND NOT 1"] or_and_not by simp
  then show ?thesis using that by (simp add: MEM_ISUSED_def)
qed

lemma MEM_tags: "MEM_USED h = tag (sm_addr h) True" "MEM_FREED h = tag (sm_addr h) False"
  by (simp_all add: MEM_USED_def MEM_FREED_def tag_def)

lemma tag_pool: "a AND 1 = 0 \<Longrightarrow> pool_ptr i = tag a u \<Longrightarrow> MEM_POOL i = a"
proof -
  assume a: "a AND 1 = 0" "pool_ptr i = tag a u"
  have "((a AND NOT 1) OR (if u then 1 else 0)) AND NOT 1 = a AND NOT (1 :: 64 word)"
    by (rule bit_word_eqI) (auto simp: bit_simps)
  also have "\<dots> = a"
  proof (rule bit_word_eqI)
    fix n assume n: "n < LENGTH(64)"
    have "\<not> bit a 0" using a(1) by (metis and_one_eq even_iff_mod_2_eq_zero bit_0)
    with n show "bit (a AND NOT 1) n = bit a n" by (cases n) (auto simp: bit_simps)
  qed
  finally show "MEM_POOL i = a" using a(2) by (simp add: MEM_POOL_def tag_def)
qed

lemma hseg_append: "hseg I a p x (bs @ cs) q y \<longleftrightarrow> (\<exists>r z. hseg I a p x bs r z \<and> hseg I a r z cs q y)"
  by (induction bs arbitrary: p x) auto

lemma hseg_le: "hseg I a p x bs q y \<Longrightarrow> x + 40 * length bs \<le> y"
  by (induction bs arbitrary: p x) fastforce+

lemma hseg_in: "hseg I a p x bs q y \<Longrightarrow> b \<in> set bs \<Longrightarrow> x \<le> fst b \<and> fst b + 40 \<le> y"
proof (induction bs arbitrary: p x)
  case (Cons c bs)
  then have "x + 40 \<le> unat (it_next (I x))" "hseg I a x (unat (it_next (I x))) bs q y" by auto
  with Cons show ?case using hseg_le [of I a x "unat (it_next (I x))" bs q y] by fastforce
qed simp

lemma hseg_start: "hseg I a p x bs q y \<Longrightarrow> start bs y = x"
  by (cases bs) auto

lemma hseg_cong:
  assumes "\<And>b. b \<in> set bs \<Longrightarrow> J (fst b) = I (fst b)"
  shows "hseg J a p x bs q y = hseg I a p x bs q y"
  using assms
proof (induction bs arbitrary: p x)
  case (Cons b bs)
  have "J (fst b) = I (fst b)" "\<And>p x. hseg J a p x bs q y = hseg I a p x bs q y" using Cons by simp_all
  then show ?case by (cases "fst b = x") simp_all
qed simp

text \<open>Only the predecessor field of the first block changes.\<close>

lemma hseg_prev:
  assumes "hseg I a p x bs q y" "bs \<noteq> []" "J x = (I x)\<lparr>it_prev := w\<rparr>" "\<And>b. b \<in> set bs \<Longrightarrow> fst b \<noteq> x \<Longrightarrow> J (fst b) = I (fst b)"
  shows "hseg J a (unat w) x bs q y"
proof (cases bs)
  case (Cons b cs)
  have "J (fst c) = I (fst c)" if "c \<in> set cs" for c
  proof -
    have "hseg I a x (unat (it_next (I x))) cs q y" "x + 40 \<le> unat (it_next (I x))" using assms(1) Cons by auto
    from hseg_in [OF this(1) that] this(2) have "fst c \<noteq> x" by simp
    then show ?thesis using assms(4) that Cons by simp
  qed
  then show ?thesis using assms(1,3) Cons hseg_cong [of cs J I] by simp
qed (use assms in simp)

lemma heap_invD:
  assumes "heap_inv h bs"
  obtains q where "hseg (items h) (sm_addr h) 0 0 bs q (unat (heap_end h))" "pool_ptr (items h (unat (heap_end h))) = tag (sm_addr h) True"
    "unat (heap_end h) = unat (mem_size_aligned h) + 40" "8 dvd unat (heap_end h)" "unat (heap_ptr h) + unat (heap_end h) + 40 < 2 ^ 64"
    "8 dvd unat (heap_ptr h)" "sm_addr h AND 1 = 0" "sm_addr h \<noteq> 0" "smem_object_ok h" "coalesced bs"
    "unat (lfree h) = first_free bs (unat (heap_end h))" "unat (mem_used h) = used_bytes bs (unat (heap_end h))"
  using assms unfolding heap_inv_def Let_def by blast

section \<open>Searching\<close>

lemma fit_None: "(\<And>b. b \<in> set bs \<Longrightarrow> e < fst b + 40 + s) \<Longrightarrow> hseg I a p x bs q e \<Longrightarrow> fit s bs e = None"
proof (induction bs arbitrary: p x)
  case (Cons b bs)
  then have r: "hseg I a x (unat (it_next (I x))) bs q e" by simp
  have "start bs e \<le> e" using hseg_start [OF r] hseg_le [OF r] by simp
  then have "\<not> fst b + 40 + s \<le> start bs e" using Cons.prems(1) [of b] by simp
  then show ?case using Cons.IH [OF _ r] Cons.prems(1) by simp
qed simp

lemma fit_split:
  assumes "fit s bs e = Some x"
  obtains us vs where "bs = us @ (x, False) # vs" "x + 40 + s \<le> start vs e"
  using assms
proof (induction bs arbitrary: thesis)
  case (Cons b bs)
  show ?case
  proof (cases "\<not> snd b \<and> fst b + 40 + s \<le> start bs e")
    case True
    then show ?thesis using Cons.prems(1) [of "[]" bs] Cons.prems(2) by (cases b) auto
  next
    case False
    then have "fit s bs e = Some x" using Cons.prems(2) by (auto split: if_split_asm)
    then obtain us vs where "bs = us @ (x, False) # vs" "x + 40 + s \<le> start vs e" using Cons.IH by blast
    then show ?thesis using Cons.prems(1) [of "b # us" vs] by simp
  qed
qed simp

lemma used_prefix:
  obtains us rest where "bs = us @ rest" "\<forall>b \<in> set us. snd b" "first_free bs e = start rest e" "\<forall>s. fit s bs e = fit s rest e"
    "rest \<noteq> [] \<Longrightarrow> \<not> snd (hd rest)"
proof (induction bs arbitrary: thesis)
  case (Cons b bs)
  show ?case
  proof (cases "snd b")
    case True
    obtain us rest where "bs = us @ rest" "\<forall>b \<in> set us. snd b" "first_free bs e = start rest e" "\<forall>s. fit s bs e = fit s rest e"
      "rest \<noteq> [] \<Longrightarrow> \<not> snd (hd rest)"
      using Cons.IH by blast
    then show ?thesis using Cons.prems [of "b # us" rest] True by simp
  next
    case False
    then show ?thesis using Cons.prems [of "[]" "b # bs"] by simp
  qed
qed simp

lemma unat_room:
  fixes p n :: "64 word"
  assumes "unat p + 40 \<le> unat n"
  shows "unat (p + SIZEOF_STRUCT_MEM) = unat p + 40" "unat (n - (p + SIZEOF_STRUCT_MEM)) = unat n - (unat p + 40)"
    "unat (n - p) = unat n - unat p"
proof -
  have "unat n < 2 ^ LENGTH(64)" by (rule unsigned_less)
  then have "unat p + unat (40 :: 64 word) < 2 ^ LENGTH(64)" using assms by simp
  then show s: "unat (p + SIZEOF_STRUCT_MEM) = unat p + 40" unfolding SIZEOF_STRUCT_MEM_def unat_add_lem by simp
  show "unat (n - (p + SIZEOF_STRUCT_MEM)) = unat n - (unat p + 40)"
    using s assms by (subst unat_sub) (simp_all add: word_le_nat_alt)
  show "unat (n - p) = unat n - unat p" using assms by (subst unat_sub) (simp_all add: word_le_nat_alt)
qed

lemma smem_search_ok:
  assumes "hseg (items h) (sm_addr h) p (unat ptr) bs q e" "e = unat (mem_size_aligned h) + 40" "unat sz \<le> unat (mem_size_aligned h)"
  shows "smem_search sz ptr h = Some (map_option of_nat (fit (unat sz) bs e))"
  using assms(1)
proof (induction bs arbitrary: p ptr)
  case Nil
  have "\<not> ptr \<le> mem_size_aligned h - sz"
    using Nil assms(2,3) by (simp add: word_le_nat_alt unat_sub)
  then show ?case by (subst smem_search.simps) simp
next
  case (Cons b bs)
  let ?i = "item ptr h"
  have b: "fst b = unat ptr" "pool_ptr ?i = tag (sm_addr h) (snd b)" "unat ptr + 40 \<le> unat (it_next ?i)"
    and rest: "hseg (items h) (sm_addr h) (unat ptr) (unat (it_next ?i)) bs q e"
    using Cons.prems by (simp_all add: item_def)
  have guard: "ptr \<le> mem_size_aligned h - sz \<longleftrightarrow> unat ptr + unat sz \<le> unat (mem_size_aligned h)"
    using assms(3) by (auto simp: word_le_nat_alt unat_sub)
  have room: "sz \<le> it_next ?i - (ptr + SIZEOF_STRUCT_MEM) \<longleftrightarrow> unat ptr + 40 + unat sz \<le> unat (it_next ?i)"
    using unat_room(2) [OF b(3)] b(3) by (auto simp: word_le_nat_alt)
  show ?case
  proof (cases "ptr \<le> mem_size_aligned h - sz")
    case True
    show ?thesis
      using True room b(1) tag_used [OF b(2)] hseg_start [OF rest] Cons.IH [OF rest]
      by (subst smem_search.simps) auto
  next
    case False
    have "e < fst c + 40 + unat sz" if "c \<in> set (b # bs)" for c
      using hseg_in [OF Cons.prems that] False guard assms(2) by simp
    then have "fit (unat sz) (b # bs) e = None" using fit_None [OF _ Cons.prems] by blast
    then show ?thesis using False by (subst smem_search.simps) simp
  qed
qed

lemma smem_advance_ok:
  assumes "hseg (items h) (sm_addr h) p (unat ptr) bs q (unat (heap_end h))"
    "pool_ptr (items h (unat (heap_end h))) = tag (sm_addr h) True"
  shows "\<exists>l. smem_advance ptr h = Some l \<and> unat l = first_free bs (unat (heap_end h)) \<and> (l = heap_end h \<or> \<not> MEM_ISUSED (item l h))"
  using assms(1)
proof (induction bs arbitrary: p ptr)
  case Nil
  then have "ptr = heap_end h" by (simp add: word_unat_eq_iff)
  then show ?case by (subst smem_advance.simps) simp
next
  case (Cons b bs)
  have b: "fst b = unat ptr" "pool_ptr (item ptr h) = tag (sm_addr h) (snd b)" and
    rest: "hseg (items h) (sm_addr h) (unat ptr) (unat (it_next (item ptr h))) bs q (unat (heap_end h))"
    using Cons.prems by (simp_all add: item_def)
  have "unat ptr < unat (heap_end h)" using hseg_in [OF Cons.prems, of b] b(1) by simp
  then have "ptr \<noteq> heap_end h" by auto
  then show ?case
    using tag_used [OF b(2)] b(1) Cons.IH [OF rest] by (subst smem_advance.simps) auto
qed

section \<open>Changing the list\<close>

lemma hseg_mid:
  assumes "hseg I a p y (us @ (x, u) # vs) q e"
  shows "\<And>b. b \<in> set us \<Longrightarrow> y \<le> fst b \<and> fst b + 40 \<le> x" "\<And>b. b \<in> set vs \<Longrightarrow> x + 40 \<le> fst b \<and> fst b + 40 \<le> e"
    "start vs e = unat (it_next (I x))" "x + 40 \<le> start vs e" "start vs e \<le> e" "pool_ptr (I x) = tag a u" "8 dvd start vs e"
    "x < e" "y \<le> x" "u \<Longrightarrow> x + 48 \<le> start vs e"
proof -
  obtain r where us: "hseg I a p y us r x" and x: "pool_ptr (I x) = tag a u" "x + 40 \<le> unat (it_next (I x))" "8 dvd unat (it_next (I x))" "u \<Longrightarrow> x + 48 \<le> unat (it_next (I x))"
    and vs: "hseg I a x (unat (it_next (I x))) vs q e"
    using assms by (auto simp: hseg_append split: if_split_asm)
  show "b \<in> set us \<Longrightarrow> y \<le> fst b \<and> fst b + 40 \<le> x" for b by (rule hseg_in [OF us])
  show "b \<in> set vs \<Longrightarrow> x + 40 \<le> fst b \<and> fst b + 40 \<le> e" for b using hseg_in [OF vs, of b] x(2) by simp
  show s: "start vs e = unat (it_next (I x))" by (rule hseg_start [OF vs])
  show "x + 40 \<le> start vs e" "8 dvd start vs e" "u \<Longrightarrow> x + 48 \<le> start vs e" using x s by simp_all
  show "start vs e \<le> e" using hseg_le [OF vs] s by simp
  then show "x < e" using x(2) s by simp
  show "pool_ptr (I x) = tag a u" by (rule x(1))
  show "y \<le> x" using hseg_le [OF us] by simp
qed

text \<open>The tag of one block changes.\<close>

lemma hseg_set:
  assumes seg: "hseg I a p y (us @ (x, u) # vs) q e"
    and x: "pool_ptr (J x) = tag a v" "it_next (J x) = it_next (I x)" "it_prev (J x) = it_prev (I x)" "v \<Longrightarrow> x + 48 \<le> start vs e"
    and same: "\<And>z. z \<noteq> x \<Longrightarrow> J z = I z"
  shows "hseg J a p y (us @ (x, v) # vs) q e"
proof -
  note m = hseg_mid [OF seg]
  have "J (fst b) = I (fst b)" if "b \<in> set us \<or> b \<in> set vs" for b
  proof -
    have "fst b \<noteq> x" using m(1,2) [of b] that by fastforce
    then show ?thesis by (rule same)
  qed
  then have "hseg J a c z us d w = hseg I a c z us d w" "hseg J a c z vs d w = hseg I a c z vs d w" for c z d w
    by (intro hseg_cong; simp)+
  then show ?thesis using seg x m(3,4) by (auto simp: hseg_append)
qed

text \<open>One block becomes two.\<close>

lemma hseg_split:
  assumes seg: "hseg I a p y (us @ (x, u) # vs) q e" and x2: "x + 48 \<le> x2" "x2 + 40 \<le> start vs e" "8 dvd x2" "unat w = x2"
    and J: "pool_ptr (J x) = tag a u" "unat (it_next (J x)) = x2" "it_prev (J x) = it_prev (I x)"
      "pool_ptr (J x2) = tag a False" "it_next (J x2) = it_next (I x)" "unat (it_prev (J x2)) = x"
      "start vs e \<noteq> e \<Longrightarrow> J (start vs e) = (I (start vs e))\<lparr>it_prev := w\<rparr>"
    and same: "\<And>z. z \<noteq> x \<Longrightarrow> z \<noteq> x2 \<Longrightarrow> z \<noteq> start vs e \<Longrightarrow> J z = I z"
  shows "\<exists>q'. hseg J a p y (us @ (x, u) # (x2, False) # vs) q' e"
proof -
  note m = hseg_mid [OF seg]
  obtain r where us: "hseg I a p y us r x" "unat (it_prev (I x)) = r" and vs: "hseg I a x (start vs e) vs q e"
    using seg m(3) by (auto simp: hseg_append)
  have "J (fst b) = I (fst b)" if "b \<in> set us" for b
    using m(1) [OF that] m(4) x2 by (intro same) auto
  then have us': "hseg J a p y us r x" using us(1) hseg_cong [of us J I] by simp
  have far: "x2 + 40 \<le> fst b" if "b \<in> set vs" for b
    using hseg_in [OF vs that] x2(2) by simp
  have vs': "\<exists>q'. hseg J a x2 (start vs e) vs q' e"
  proof (cases "vs = []")
    case False
    then have "start vs e \<noteq> e" using hseg_in [OF vs, of "hd vs"] by (cases vs) auto
    moreover have "J (fst b) = I (fst b)" if "b \<in> set vs" "fst b \<noteq> start vs e" for b
      using far [OF that(1)] that(2) x2(1) by (intro same) auto
    ultimately have "hseg J a (unat w) (start vs e) vs q e" using hseg_prev [OF vs False] J(7) by blast
    then show ?thesis using x2(4) by auto
  qed simp
  show ?thesis
    using us' us(2) vs' J x2 m(3,7) by (auto simp: hseg_append)
qed

text \<open>Two blocks become one.\<close>

lemma hseg_merge:
  assumes seg: "hseg I a p y (us @ (x, u) # (n, v) # vs) q e"
    and J: "pool_ptr (J x) = tag a u" "it_next (J x) = it_next (I n)" "it_prev (J x) = it_prev (I x)"
      "start vs e \<noteq> e \<Longrightarrow> J (start vs e) = (I (start vs e))\<lparr>it_prev := w\<rparr>" "unat w = x"
    and same: "\<And>z. z \<noteq> x \<Longrightarrow> z \<noteq> n \<Longrightarrow> z \<noteq> start vs e \<Longrightarrow> J z = I z"
  shows "\<exists>q'. hseg J a p y (us @ (x, u) # vs) q' e"
proof -
  note m = hseg_mid [OF seg]
  have "hseg I a p y ((us @ [(x, u)]) @ (n, v) # vs) q e" using seg by simp
  note m2 = hseg_mid [OF this]
  obtain r where us: "hseg I a p y us r x" "unat (it_prev (I x)) = r" and vs: "hseg I a n (start vs e) vs q e"
    using seg m2(3) by (auto simp: hseg_append)
  have nx: "x + 40 \<le> n" using m(4) by simp
  have "J (fst b) = I (fst b)" if "b \<in> set us" for b
    using m(1) [OF that] nx m2(4) by (intro same) auto
  then have us': "hseg J a p y us r x" using us(1) hseg_cong [of us J I] by simp
  have vs': "\<exists>q'. hseg J a x (start vs e) vs q' e"
  proof (cases "vs = []")
    case False
    then have "start vs e \<noteq> e" using hseg_in [OF vs, of "hd vs"] by (cases vs) auto
    moreover have "J (fst b) = I (fst b)" if "b \<in> set vs" "fst b \<noteq> start vs e" for b
      using m2(2) [OF that(1)] that(2) nx by (intro same) auto
    ultimately have "hseg J a (unat w) (start vs e) vs q e" using hseg_prev [OF vs False] J(4) by blast
    then show ?thesis using J(5) by auto
  qed simp
  show ?thesis
    using us' us(2) vs' J(1-3) nx m2(3,4,7) by (auto simp: hseg_append)
qed

section \<open>Block lists\<close>

lemma start_append: "start (us @ vs) e = start us (start vs e)"
  by (cases us) auto

lemma spans_append: "spans (us @ vs) e = spans us (start vs e) @ spans vs e"
  by (induction us) (auto simp: start_append)

lemma used_bytes_append: "used_bytes (us @ vs) e = used_bytes us (start vs e) + used_bytes vs e"
  by (induction us) (auto simp: start_append)

lemma first_free_append: "first_free (us @ vs) e = first_free us (first_free vs e)"
  by (induction us) auto

lemma coalesced_append:
  "coalesced (us @ vs) \<longleftrightarrow> coalesced us \<and> coalesced vs \<and> (us \<noteq> [] \<longrightarrow> vs \<noteq> [] \<longrightarrow> snd (last us) \<or> snd (hd vs))"
proof (induction us)
  case (Cons b us)
  then show ?case by (cases us; cases vs) auto
qed simp

lemmas block_list = start_append spans_append used_bytes_append first_free_append coalesced_append

lemma first_free_cases:
  obtains "\<forall>b \<in> set us. snd b" "\<And>z. first_free us z = z"
  | b where "b \<in> set us" "\<And>z. first_free us z = fst b"
proof (induction us arbitrary: thesis)
  case (Cons c us)
  show ?case
  proof (cases "snd c")
    case True
    show ?thesis
    proof (rule Cons.IH)
      assume "\<forall>b \<in> set us. snd b" "\<And>z. first_free us z = z"
      then show ?thesis using Cons.prems(1) True by simp
    next
      fix b assume "b \<in> set us" "\<And>z. first_free us z = fst b"
      then show ?thesis using Cons.prems(2) [of b] True by simp
    qed
  next
    case False
    then show ?thesis using Cons.prems(2) [of c] by simp
  qed
qed simp

lemma used_bytes_le: "hseg I a p x bs q e \<Longrightarrow> x + used_bytes bs e \<le> e"
proof (induction bs arbitrary: p x)
  case (Cons b bs)
  then have r: "hseg I a x (unat (it_next (I x))) bs q e" and b: "fst b = x" "x + 40 \<le> unat (it_next (I x))" by simp_all
  show ?case using Cons.IH [OF r] hseg_start [OF r] b by simp
qed simp

lemma allocated_mid:
  "allocated (us @ (x, u) # vs) e = allocated us x \<union> (if u then {(x, start vs e)} else {}) \<union> allocated vs e"
  by (auto simp: allocated_def spans_append)

lemma allocated_free [simp]: "allocated ((x, False) # vs) e = allocated vs e"
  by (auto simp: allocated_def)

lemma allocated_bounds: "hseg I a p x bs q e \<Longrightarrow> (y, n) \<in> allocated bs e \<Longrightarrow> x \<le> y \<and> y + 48 \<le> n \<and> n \<le> e \<and> 8 dvd n"
proof (induction bs arbitrary: p x)
  case (Cons b bs)
  then have r: "hseg I a x (unat (it_next (I x))) bs q e" and b: "fst b = x" "x + 40 \<le> unat (it_next (I x))" "8 dvd unat (it_next (I x))"
    by simp_all
  note hs = hseg_start [OF r] hseg_le [OF r]
  consider "y = x" "n = start bs e" "x + 48 \<le> unat (it_next (I x))" | "(y, n) \<in> allocated bs e"
    using Cons.prems b(1) by (auto simp: allocated_def)
  then show ?case
  proof cases
    case 2
    then show ?thesis using Cons.IH [OF r] b(2) by fastforce
  qed (use hs b in simp)
qed (simp add: allocated_def)

lemma allocated_mem:
  assumes "(x, n) \<in> allocated bs e"
  obtains us vs where "bs = us @ (x, True) # vs" "n = start vs e"
  using assms
proof (induction bs arbitrary: thesis)
  case (Cons b bs)
  show ?case
  proof (cases "(x, n) \<in> allocated bs e")
    case True
    then obtain us vs where "bs = us @ (x, True) # vs" "n = start vs e" using Cons.IH by blast
    then show ?thesis using Cons.prems(1) [of "b # us" vs] by simp
  next
    case False
    then have "b = (x, True)" "n = start bs e" using Cons.prems(2) by (cases b; auto simp: allocated_def)+
    then show ?thesis using Cons.prems(1) [of "[]" bs] by simp
  qed
qed (simp add: allocated_def)

text \<open>A block shares no byte with the allocated blocks of the rest of the list.\<close>

lemma allocated_apart:
  assumes "hseg I a p y (us @ (x, u) # vs) q e"
  shows "(z, n) \<in> allocated us x \<Longrightarrow> n \<le> x" "(z, n) \<in> allocated vs e \<Longrightarrow> start vs e \<le> z"
proof -
  obtain r where us: "hseg I a p y us r x" and vs: "hseg I a x (start vs e) vs q e"
    using assms hseg_mid(3) [OF assms] by (auto simp: hseg_append)
  show "(z, n) \<in> allocated us x \<Longrightarrow> n \<le> x" using allocated_bounds [OF us] by blast
  show "(z, n) \<in> allocated vs e \<Longrightarrow> start vs e \<le> z" using allocated_bounds [OF vs] by blast
qed

lemma allocated_remove:
  assumes "hseg I a p y (us @ (x, True) # vs) q e"
  shows "allocated (us @ (x, True) # vs) e - {(x, start vs e)} = allocated us x \<union> allocated vs e"
proof -
  have "(x, start vs e) \<notin> allocated us x" "(x, start vs e) \<notin> allocated vs e"
    using allocated_apart [OF assms] hseg_mid(4) [OF assms] by fastforce+
  then show ?thesis by (auto simp: allocated_mid)
qed

section \<open>Allocation\<close>

definition same_heap :: "rt_small_mem \<Rightarrow> rt_small_mem \<Rightarrow> bool" where
  "same_heap h h' \<longleftrightarrow> sm_addr h' = sm_addr h \<and> sm_type h' = sm_type h \<and> heap_ptr h' = heap_ptr h \<and> heap_end h' = heap_end h \<and>
     mem_size_aligned h' = mem_size_aligned h \<and> mem_total h' = mem_total h"

lemma upd_item_fields [simp]:
  "sm_addr (upd_item p f h) = sm_addr h" "sm_type (upd_item p f h) = sm_type h" "heap_ptr (upd_item p f h) = heap_ptr h"
  "heap_end (upd_item p f h) = heap_end h" "mem_size_aligned (upd_item p f h) = mem_size_aligned h" "mem_total (upd_item p f h) = mem_total h"
  "lfree (upd_item p f h) = lfree h" "mem_used (upd_item p f h) = mem_used h" "mem_max (upd_item p f h) = mem_max h"
  "heap_bytes (upd_item p f h) = heap_bytes h"
  by (simp_all add: upd_item_def)

lemma items_upd_item: "items (upd_item p f h) = (items h)(unat p := f (items h (unat p)))"
  by (simp add: upd_item_def)

lemma rt_smem_setname_fields [simp]:
  "pool_ptr (rt_smem_setname n i) = pool_ptr i" "it_next (rt_smem_setname n i) = it_next i" "it_prev (rt_smem_setname n i) = it_prev i"
  by (simp_all add: rt_smem_setname_def)

lemma heap_invI:
  assumes "heap_inv h bs" "same_heap h h'" "hseg (items h') (sm_addr h) 0 0 bs' q (unat (heap_end h))"
    "pool_ptr (items h' (unat (heap_end h))) = tag (sm_addr h) True" "coalesced bs'"
    "unat (lfree h') = first_free bs' (unat (heap_end h))" "unat (mem_used h') = used_bytes bs' (unat (heap_end h))"
  shows "heap_inv h' bs'"
  using assms unfolding heap_inv_def same_heap_def smem_object_ok_def Let_def by auto

lemma smem_account_fields [simp]:
  "same_heap h (smem_account n h)" "items (smem_account n h) = items h" "lfree (smem_account n h) = lfree h"
  "mem_used (smem_account n h) = mem_used h + n" "heap_bytes (smem_account n h) = heap_bytes h"
  by (simp_all add: smem_account_def same_heap_def Let_def)

lemma smem_split_fields [simp]:
  "same_heap h (smem_split p r h)" "lfree (smem_split p r h) = lfree h" "mem_used (smem_split p r h) = mem_used h"
  "heap_bytes (smem_split p r h) = heap_bytes h"
  by (simp_all add: smem_split_def same_heap_def Let_def)

lemma smem_split_seg:
  assumes seg: "hseg (items h) (sm_addr h) p y (us @ (unat ptr, u) # vs) q e"
    and e: "e = unat (mem_size_aligned h) + 40" "e < 2 ^ 64" "pool_ptr (items h e) = t"
    and x2: "unat ptr + 48 \<le> unat ptr2" "unat ptr2 + 40 \<le> start vs e" "8 dvd unat ptr2"
  shows "\<exists>q'. hseg (items (smem_split ptr ptr2 h)) (sm_addr h) p y (us @ (unat ptr, u) # (unat ptr2, False) # vs) q' e"
    and "pool_ptr (items (smem_split ptr ptr2 h) e) = t"
proof -
  note m = hseg_mid [OF seg]
  let ?n = "it_next (items h (unat ptr))"
  let ?J = "items (smem_split ptr ptr2 h)"
  have n: "unat ?n = start vs e" using m(3) by simp
  have last: "?n \<noteq> mem_size_aligned h + SIZEOF_STRUCT_MEM \<longleftrightarrow> start vs e \<noteq> e"
  proof -
    have "unat (mem_size_aligned h) + unat (40 :: 64 word) < 2 ^ LENGTH(64)" using e by simp
    then have "unat (mem_size_aligned h + SIZEOF_STRUCT_MEM) = e" unfolding SIZEOF_STRUCT_MEM_def unat_add_lem using e by simp
    then show ?thesis using n unfolding word_unat_eq_iff by simp
  qed
  have d: "unat ptr2 \<noteq> unat ptr" "start vs e \<noteq> unat ptr" "start vs e \<noteq> unat ptr2" "e \<noteq> unat ptr" "e \<noteq> unat ptr2"
    using x2 m(4,5) by auto
  have J: "?J = (let I1 = (items h)(unat ptr2 := rt_smem_setname ''    '' ((items h (unat ptr2))\<lparr>pool_ptr := MEM_FREED h, it_next := ?n, it_prev := ptr\<rparr>),
                              unat ptr := (items h (unat ptr))\<lparr>it_next := ptr2\<rparr>)
                 in if start vs e \<noteq> e then I1(start vs e := (items h (start vs e))\<lparr>it_prev := ptr2\<rparr>) else I1)"
    using d last n by (simp add: smem_split_def Let_def items_upd_item item_def fun_upd_def)
  show "\<exists>q'. hseg ?J (sm_addr h) p y (us @ (unat ptr, u) # (unat ptr2, False) # vs) q' e"
    by (rule hseg_split [OF seg x2 refl]) (use d m(6) in \<open>simp_all add: J Let_def MEM_tags\<close>)
  show "pool_ptr (?J e) = t" using d e(3) by (simp add: J Let_def)
qed

lemma hseg_dvd: "hseg I a p x bs q e \<Longrightarrow> 8 dvd x \<Longrightarrow> b \<in> set bs \<Longrightarrow> 8 dvd fst b"
  by (induction bs arbitrary: p x) auto

text \<open>What the caller gets of a free block: all of it, or its head with the rest left free.\<close>

definition carved :: "nat \<Rightarrow> nat \<Rightarrow> (nat \<times> bool) list \<Rightarrow> nat \<Rightarrow> (nat \<times> bool) list" where
  "carved x s vs e = (if x + 40 + s + 64 \<le> start vs e then (x + 40 + s, False) # vs else vs)"

lemma same_heap_trans: "same_heap h h1 \<Longrightarrow> same_heap h1 h2 \<Longrightarrow> same_heap h h2"
  by (simp add: same_heap_def)

lemma unat_small: "k < 2 ^ 64 \<Longrightarrow> unat (of_nat k :: 64 word) = k"
  by (simp add: unat_of_nat)

lemma unat_plus: "unat p + unat n < 2 ^ 64 \<Longrightarrow> unat (p + n) = unat p + unat n" for p n :: "64 word"
  using unat_add_lem [of p n] by simp

lemma smem_carve_ok:
  fixes ptr sz :: "64 word"
  assumes inv: "heap_inv h (us @ (unat ptr, False) # vs)"
    and fits: "unat ptr + 40 + unat sz \<le> start vs (unat (heap_end h))" and dvd: "8 dvd unat sz" "8 \<le> unat sz"
  defines "h' \<equiv> smem_carve sz ptr h" and "e \<equiv> unat (heap_end h)" and "ws \<equiv> carved (unat ptr) (unat sz) vs (unat (heap_end h))"
  shows "\<exists>q. hseg (items h') (sm_addr h) 0 0 (us @ (unat ptr, False) # ws) q e"
    and "pool_ptr (items h' e) = tag (sm_addr h) True" and "same_heap h h'" and "lfree h' = lfree h" and "heap_bytes h' = heap_bytes h"
    and "unat (mem_used h') = used_bytes (us @ (unat ptr, True) # ws) e"
proof -
  obtain q where seg: "hseg (items h) (sm_addr h) 0 0 (us @ (unat ptr, False) # vs) q e" and ends: "pool_ptr (items h e) = tag (sm_addr h) True"
    "e = unat (mem_size_aligned h) + 40" "unat (heap_ptr h) + e + 40 < 2 ^ 64"
    and used: "unat (mem_used h) = used_bytes (us @ (unat ptr, False) # vs) e"
    using heap_invD [OF inv] unfolding e_def by metis
  note m = hseg_mid [OF seg]
  have lt: "e < 2 ^ 64" using ends(3) by linarith
  let ?n = "it_next (item ptr h)"
  have n: "unat ?n = start vs e" "unat ptr + 40 \<le> unat ?n" using m(3,4) by (simp_all add: item_def)
  note room = unat_room [OF n(2)]
  have s1: "unat (sz + SIZEOF_STRUCT_MEM) = unat sz + 40"
    using unat_plus [of sz 40] fits m(5) lt unfolding e_def [symmetric] SIZEOF_STRUCT_MEM_def by simp
  have s2: "unat (ptr + SIZEOF_STRUCT_MEM + sz) = unat ptr + 40 + unat sz"
    using unat_plus [of "ptr + SIZEOF_STRUCT_MEM" sz] fits m(5) lt room(1) unfolding e_def [symmetric] by simp
  have ub: "used_bytes us (unat ptr) + used_bytes vs e + (start vs e - unat ptr) \<le> e"
  proof -
    obtain r where "hseg (items h) (sm_addr h) 0 0 us r (unat ptr)" "hseg (items h) (sm_addr h) (unat ptr) (start vs e) vs q e"
      using seg m(3) by (auto simp: hseg_append)
    from used_bytes_le [OF this(1)] used_bytes_le [OF this(2)] show ?thesis using m(4) by linarith
  qed
  have u: "unat (mem_used h) = used_bytes us (unat ptr) + used_bytes vs e" using used by (simp add: block_list)
  have cond: "sz + SIZEOF_STRUCT_MEM + MIN_SIZE_ALIGNED \<le> ?n - (ptr + SIZEOF_STRUCT_MEM) \<longleftrightarrow> unat ptr + 40 + unat sz + 64 \<le> start vs e"
    if "unat sz + 64 < 2 ^ 64"
    using unat_plus [of "sz + SIZEOF_STRUCT_MEM" 24] s1 that room(2) n m(4)
    unfolding MIN_SIZE_ALIGNED_def word_le_nat_alt by auto
  have small: "unat sz + 64 < 2 ^ 64" using fits m(5) ends(3) unfolding e_def [symmetric] by linarith
  note c = cond [OF small]
  show "same_heap h h'" unfolding h'_def smem_carve_def
    using same_heap_trans [OF smem_split_fields(1) smem_account_fields(1)] by auto
  show "lfree h' = lfree h" "heap_bytes h' = heap_bytes h" by (simp_all add: h'_def smem_carve_def)
  show "\<exists>q. hseg (items h') (sm_addr h) 0 0 (us @ (unat ptr, False) # ws) q e"
    using seg smem_split_seg(1) [OF seg ends(2) lt ends(1), of "ptr + SIZEOF_STRUCT_MEM + sz"] c s2 dvd hseg_dvd [OF seg, of "(unat ptr, False)"]
    unfolding h'_def ws_def smem_carve_def carved_def e_def [symmetric] by auto
  show "pool_ptr (items h' e) = tag (sm_addr h) True"
    using ends(1) smem_split_seg(2) [OF seg ends(2) lt ends(1), of "ptr + SIZEOF_STRUCT_MEM + sz"] c s2 dvd hseg_dvd [OF seg, of "(unat ptr, False)"]
    unfolding h'_def smem_carve_def by auto
  show "unat (mem_used h') = used_bytes (us @ (unat ptr, True) # ws) e"
    using c u ub lt fits unat_plus [of "mem_used h" "sz + SIZEOF_STRUCT_MEM"] unat_plus [of "mem_used h" "?n - ptr"] s1 room(3) n
    unfolding h'_def ws_def smem_carve_def carved_def e_def [symmetric] by (auto simp: block_list)
qed

lemma word_8_dvd: "8 dvd unat w \<Longrightarrow> w mod 8 = 0" "8 dvd unat w \<Longrightarrow> w AND (8 - 1) = 0" for w :: "64 word"
proof -
  have m: "w mod 8 = 0" if "8 dvd unat w"
  proof -
    have "unat (w mod 8) = 0" using that by (simp add: unat_mod)
    then show ?thesis by (simp add: unat_eq_0)
  qed
  then show "8 dvd unat w \<Longrightarrow> w mod 8 = 0" .
  have "w AND (8 - 1) = w AND mask 3" by (simp add: mask_eq_exp_minus_1)
  also have "\<dots> = w mod 8" by (simp add: take_bit_eq_mod flip: take_bit_eq_mask)
  finally show "8 dvd unat w \<Longrightarrow> w AND (8 - 1) = 0" using m by simp
qed

lemma smem_lowest_ok:
  assumes seg: "hseg (items h) (sm_addr h) p x (us @ (unat ptr, True) # ws) q (unat (heap_end h))"
    and e: "pool_ptr (items h (unat (heap_end h))) = tag (sm_addr h) True" and lf: "unat (lfree h) = first_free us (unat ptr)"
  shows "\<exists>l. smem_lowest ptr h = Some (h\<lparr>lfree := l\<rparr>) \<and> unat l = first_free (us @ (unat ptr, True) # ws) (unat (heap_end h))"
proof (rule first_free_cases [of us])
  assume all: "\<forall>b \<in> set us. snd b" "\<And>z. first_free us z = z"
  then have "ptr = lfree h" using lf by (simp add: word_unat_eq_iff)
  moreover obtain r where "hseg (items h) (sm_addr h) r (unat ptr) ((unat ptr, True) # ws) q (unat (heap_end h))"
    using seg by (auto simp: hseg_append)
  note smem_advance_ok [OF this e]
  ultimately show ?thesis using all(2) by (auto simp: smem_lowest_def block_list rt_assert_def)
next
  fix b assume b: "b \<in> set us" "\<And>z. first_free us z = fst b"
  then have "unat (lfree h) \<noteq> unat ptr" using lf hseg_mid(1) [OF seg, of b] by simp
  then have "ptr \<noteq> lfree h" by auto
  moreover have "h\<lparr>lfree := lfree h\<rparr> = h" by simp
  ultimately show ?thesis using lf b(2) by (intro exI [of _ "lfree h"]) (simp add: block_list smem_lowest_def)
qed

lemma smem_take_ok:
  fixes ptr sz :: "64 word"
  assumes inv: "heap_inv h (us @ (unat ptr, False) # vs)"
    and fits: "unat ptr + 40 + unat sz \<le> start vs (unat (heap_end h))" and dvd: "8 dvd unat sz" "8 \<le> unat sz"
  defines "bs' \<equiv> us @ (unat ptr, True) # carved (unat ptr) (unat sz) vs (unat (heap_end h))"
  shows "\<exists>h'. smem_take sz ptr who h = Some (Some (heap_ptr h + ptr + SIZEOF_STRUCT_MEM), h') \<and> heap_inv h' bs' \<and> same_heap h h' \<and>
    heap_bytes h' = heap_bytes h"
proof -
  define e where "e = unat (heap_end h)"
  define ws where "ws = carved (unat ptr) (unat sz) vs e"
  define h1 where "h1 = smem_carve sz ptr h"
  define f where "f = (\<lambda>i. rt_smem_setname (case who of Some n \<Rightarrow> n | None \<Rightarrow> ''NONE'') (i\<lparr>pool_ptr := MEM_USED h1\<rparr>))"
  define h2 where "h2 = upd_item ptr f h1"
  note [simp] = e_def [symmetric] ws_def [symmetric]
  note cok = smem_carve_ok [OF inv fits dvd, folded h1_def]
  obtain q where seg1: "hseg (items h1) (sm_addr h) 0 0 (us @ (unat ptr, False) # ws) q e" using cok(1) by auto
  obtain qa where old: "hseg (items h) (sm_addr h) 0 0 (us @ (unat ptr, False) # vs) qa e" "coalesced (us @ (unat ptr, False) # vs)"
    "unat (lfree h) = first_free (us @ (unat ptr, False) # vs) e" "unat (heap_ptr h) + e + 40 < 2 ^ 64" "8 dvd unat (heap_ptr h)"
    using heap_invD [OF inv] unfolding e_def by metis
  note m = hseg_mid [OF seg1] and mo = hseg_mid [OF old(1)]
  have same: "same_heap h h2" using cok(3) by (simp add: h2_def same_heap_def)
  then have sh: "sm_addr h2 = sm_addr h" "heap_end h2 = heap_end h" "heap_ptr h2 = heap_ptr h" by (simp_all add: same_heap_def)
  have "sm_addr h1 = sm_addr h" using cok(3) by (simp add: same_heap_def)
  moreover have "unat ptr + 48 \<le> start ws e"
    using fits dvd(2) by (simp add: ws_def carved_def)
  ultimately have seg2: "hseg (items h2) (sm_addr h) 0 0 (us @ (unat ptr, True) # ws) q e"
    unfolding h2_def by (intro hseg_set [OF seg1]) (auto simp: items_upd_item f_def MEM_tags)
  have end2: "pool_ptr (items h2 e) = tag (sm_addr h) True" using cok(2) m(8) by (simp add: h2_def items_upd_item)
  have used2: "unat (mem_used h2) = used_bytes (us @ (unat ptr, True) # ws) e" using cok(6) by (simp add: h2_def)
  have coal: "coalesced (us @ (unat ptr, True) # ws)"
    using old(2) unfolding ws_def carved_def by (cases vs) (auto simp: block_list)
  have "unat (lfree h2) = first_free us (unat ptr)" using old(3) cok(4) by (simp add: h2_def block_list)
  then obtain l where l: "smem_lowest ptr h2 = Some (h2\<lparr>lfree := l\<rparr>)" "unat l = first_free (us @ (unat ptr, True) # ws) e"
    using smem_lowest_ok [of h2 0 0 us ptr ws q] seg2 end2 sh by auto
  have inv': "heap_inv (h2\<lparr>lfree := l\<rparr>) (us @ (unat ptr, True) # ws)"
    using seg2 end2 coal l(2) used2 same by (intro heap_invI [OF inv, where q = q]) (simp_all add: same_heap_def)
  have "unat ptr + 40 + unat sz \<le> e" using fits mo(5) by simp
  then have a1: "unat (heap_ptr h + ptr + SIZEOF_STRUCT_MEM + sz) = unat (heap_ptr h) + unat ptr + 40 + unat sz"
    "unat (heap_ptr h + ptr + SIZEOF_STRUCT_MEM) = unat (heap_ptr h) + unat ptr + 40"
    "unat (heap_ptr h + ptr) = unat (heap_ptr h) + unat ptr" "unat (heap_ptr h + heap_end h) = unat (heap_ptr h) + e"
    using old(4) by (simp_all add: unat_plus SIZEOF_STRUCT_MEM_def)
  have "8 dvd unat ptr" using hseg_dvd [OF old(1), of "(unat ptr, False)"] by simp
  then have a2: "8 dvd unat (heap_ptr h + ptr)" "8 dvd unat (heap_ptr h + ptr + SIZEOF_STRUCT_MEM)"
    unfolding a1 using old(5) by (simp_all add: dvd_add)
  have "heap_ptr h + ptr + SIZEOF_STRUCT_MEM + sz \<le> heap_ptr h + heap_end h"
    unfolding word_le_nat_alt a1 using fits mo(5) by simp
  then have "smem_take sz ptr who h = Some (Some (heap_ptr h + ptr + SIZEOF_STRUCT_MEM), h2\<lparr>lfree := l\<rparr>)"
    using l(1) word_8_dvd [OF a2(1)] word_8_dvd [OF a2(2)] sh
    unfolding smem_take_def Let_def h1_def [symmetric] f_def [symmetric] h2_def [symmetric] by (simp add: rt_assert_def)
  then show ?thesis using inv' same cok(5) unfolding bs'_def by (auto simp: same_heap_def h2_def)
qed

lemma round_down_8: "unat (z AND NOT (8 - 1)) = unat z div 8 * 8" for z :: "64 word"
proof -
  have eight: "(8 - 1 :: 64 word) = mask 3" by (simp add: mask_eq_exp_minus_1)
  have "z AND NOT (8 - 1) = push_bit 3 (drop_bit 3 z)"
    unfolding eight by (rule bit_word_eqI) (auto simp: bit_simps)
  also have "\<dots> = drop_bit 3 z * 8" by (simp add: push_bit_eq_mult)
  finally have z: "z AND NOT (8 - 1) = drop_bit 3 z * 8" .
  have d: "unat (drop_bit 3 z) = unat z div 8" by (simp add: drop_bit_eq_div unat_div)
  have "unat z < 2 ^ LENGTH(64)" by (rule unsigned_less)
  then have "unat (drop_bit 3 z) * unat (8 :: 64 word) < 2 ^ LENGTH(64)" unfolding d by simp
  then have "unat (drop_bit 3 z * 8) = unat (drop_bit 3 z) * unat (8 :: 64 word)" unfolding unat_mult_lem .
  then show ?thesis unfolding z d by simp
qed

lemma RT_ALIGN_8: "unat w + 7 < 2 ^ 64 \<Longrightarrow> unat (RT_ALIGN w 8) = (unat w + 7) div 8 * 8" for w :: "64 word"
proof -
  assume "unat w + 7 < 2 ^ 64"
  then have "unat (w + 7) = unat w + 7" using unat_plus [of w 7] by simp
  moreover have "w + 8 - 1 = w + 7" by simp
  ultimately show ?thesis unfolding RT_ALIGN_def using round_down_8 [of "w + 7"] by (simp only:)
qed

definition block_size :: "64 word \<Rightarrow> nat" where
  "block_size size0 = max 24 ((unat size0 + 7) div 8 * 8)"

lemma block_size_ok:
  assumes "unat size0 + 7 < 2 ^ 64"
  shows "unat (if RT_ALIGN size0 8 < MIN_SIZE_ALIGNED then MIN_SIZE_ALIGNED else RT_ALIGN size0 8) = block_size size0" "8 dvd block_size size0" "8 \<le> block_size size0"
  using RT_ALIGN_8 [OF assms] by (auto simp: block_size_def MIN_SIZE_ALIGNED_def word_less_nat_alt max_def)

lemma smem_search_inv:
  assumes "heap_inv h bs" "unat sz \<le> unat (mem_size_aligned h)"
  shows "smem_search sz (lfree h) h = Some (map_option of_nat (fit (unat sz) bs (unat (heap_end h))))"
proof -
  obtain q where inv: "hseg (items h) (sm_addr h) 0 0 bs q (unat (heap_end h))" "unat (heap_end h) = unat (mem_size_aligned h) + 40"
    "unat (lfree h) = first_free bs (unat (heap_end h))"
    using heap_invD [OF assms(1)] by metis
  obtain us rest where bs: "bs = us @ rest" "first_free bs (unat (heap_end h)) = start rest (unat (heap_end h))"
    "\<forall>s. fit s bs (unat (heap_end h)) = fit s rest (unat (heap_end h))"
    by (rule used_prefix [of bs "unat (heap_end h)"]) blast
  obtain r z where z: "hseg (items h) (sm_addr h) r z rest q (unat (heap_end h))" using inv(1) bs(1) by (auto simp: hseg_append)
  then have "unat (lfree h) = z" using hseg_start [OF z] inv(3) bs(2) by simp
  then show ?thesis using smem_search_ok [of h r "lfree h" rest q, OF _ inv(2) assms(2)] z bs(3) by simp
qed

lemma fit_le: "hseg I a p x bs q e \<Longrightarrow> fit s bs e = Some y \<Longrightarrow> y + 40 + s \<le> e"
proof -
  assume seg: "hseg I a p x bs q e" and "fit s bs e = Some y"
  then obtain us vs where "bs = us @ (y, False) # vs" "y + 40 + s \<le> start vs e" by (rule_tac fit_split)
  with seg show ?thesis using hseg_mid(5) [of I a p x us y False vs q e] by simp
qed

text \<open>The blocks after an allocation of \<open>s\<close> bytes at \<open>x\<close>.\<close>

fun carve_at :: "nat \<Rightarrow> nat \<Rightarrow> (nat \<times> bool) list \<Rightarrow> nat \<Rightarrow> (nat \<times> bool) list" where
  "carve_at x s [] e = []"
| "carve_at x s (b # bs) e = (if fst b = x then (x, True) # carved x s bs e else b # carve_at x s bs e)"

lemma carve_at_mid: "x \<notin> fst ` set us \<Longrightarrow> carve_at x s (us @ (x, u) # vs) e = us @ (x, True) # carved x s vs e"
  by (induction us) auto

lemma rt_smem_alloc_found:
  assumes inv: "heap_inv h bs" and size: "size0 \<noteq> 0" "unat size0 + 7 < 2 ^ 64"
    and f: "fit (block_size size0) bs (unat (heap_end h)) = Some x"
  shows "\<exists>h'. rt_smem_alloc size0 who h = Some (Some (heap_ptr h + of_nat (x + 40)), h') \<and>
    heap_inv h' (carve_at x (block_size size0) bs (unat (heap_end h))) \<and> same_heap h h' \<and> heap_bytes h' = heap_bytes h"
proof -
  define e where "e = unat (heap_end h)"
  define sz where "sz = (if RT_ALIGN size0 8 < MIN_SIZE_ALIGNED then MIN_SIZE_ALIGNED else RT_ALIGN size0 8)"
  have sz: "unat sz = block_size size0" "8 dvd unat sz" "8 \<le> unat sz" using block_size_ok [OF size(2)] by (simp_all add: sz_def)
  obtain q where seg: "hseg (items h) (sm_addr h) 0 0 bs q e" and e: "e = unat (mem_size_aligned h) + 40" "smem_object_ok h" "unat (heap_ptr h) + e + 40 < 2 ^ 64"
    using heap_invD [OF inv] unfolding e_def by metis
  obtain us vs where bs: "bs = us @ (x, False) # vs" "x + 40 + unat sz \<le> start vs e"
    using f sz(1) by (metis fit_split e_def)
  have le: "x + 40 + unat sz \<le> e" using fit_le [OF seg] f sz(1) by (simp add: e_def)
  have x: "unat (of_nat x :: 64 word) = x" using le e(3) by (simp add: unat_of_nat)
  have fits: "unat (of_nat x :: 64 word) + 40 + unat sz \<le> start vs (unat (heap_end h))" using bs(2) unfolding x e_def .
  have "heap_inv h (us @ (unat (of_nat x :: 64 word), False) # vs)" using inv bs(1) unfolding x by simp
  from smem_take_ok [OF this fits sz(2,3), of who]
  obtain h' where h': "smem_take sz (of_nat x) who h = Some (Some (heap_ptr h + of_nat x + SIZEOF_STRUCT_MEM), h')"
    "heap_inv h' (us @ (x, True) # carved x (block_size size0) vs e)" "same_heap h h'" "heap_bytes h' = heap_bytes h"
    unfolding x sz(1) e_def by blast
  have "smem_search sz (lfree h) h = Some (Some (of_nat x))" using smem_search_inv [OF inv, of sz] f sz(1) le e(1) by simp
  moreover have "\<not> mem_size_aligned h < sz" using le e(1) by (simp add: word_less_nat_alt)
  ultimately have "rt_smem_alloc size0 who h = Some (Some (heap_ptr h + of_nat (x + 40)), h')"
    using size(1) e(2) h'(1) unfolding rt_smem_alloc_def Let_def sz_def [symmetric] by (simp add: SIZEOF_STRUCT_MEM_def rt_assert_def)
  moreover have "x \<notin> fst ` set us" using hseg_mid(1) [OF seg [unfolded bs(1)]] by fastforce
  ultimately show ?thesis using h' bs(1) unfolding e_def by (simp add: carve_at_mid)
qed

lemma rt_smem_alloc_none:
  assumes inv: "heap_inv h bs" and size: "unat size0 + 7 < 2 ^ 64" and f: "fit (block_size size0) bs (unat (heap_end h)) = None"
  shows "rt_smem_alloc size0 who h = Some (None, h)"
proof -
  define sz where "sz = (if RT_ALIGN size0 8 < MIN_SIZE_ALIGNED then MIN_SIZE_ALIGNED else RT_ALIGN size0 8)"
  have sz: "unat sz = block_size size0" using block_size_ok [OF size] by (simp add: sz_def)
  have "smem_object_ok h" using heap_invD [OF inv] by metis
  then show ?thesis
    using smem_search_inv [OF inv, of sz] f sz unfolding rt_smem_alloc_def Let_def sz_def [symmetric]
    by (auto simp: rt_assert_def word_less_nat_alt not_less)
qed

section \<open>Merging\<close>

lemma smem_join_fields [simp]:
  "same_heap h (smem_join x n h)" "lfree (smem_join x n h) = lfree h" "mem_used (smem_join x n h) = mem_used h"
  "heap_bytes (smem_join x n h) = heap_bytes h"
  by (simp_all add: smem_join_def same_heap_def Let_def)

lemma smem_join_seg:
  assumes seg: "hseg (items h) a p y (us @ (unat x, u) # (unat n, v) # vs) q e" and e: "pool_ptr (items h e) = t"
  shows "\<exists>q'. hseg (items (smem_join x n h)) a p y (us @ (unat x, u) # vs) q' e" and "pool_ptr (items (smem_join x n h) e) = t"
proof -
  note m = hseg_mid [OF seg]
  have "hseg (items h) a p y ((us @ [(unat x, u)]) @ (unat n, v) # vs) q e" using seg by simp
  note m2 = hseg_mid [OF this]
  let ?J = "items (smem_join x n h)"
  have d: "unat n \<noteq> unat x" "start vs e \<noteq> unat x" "start vs e \<noteq> unat n" "e \<noteq> unat x" "e \<noteq> unat n"
    using m(4) m2(4,5) by auto
  have nn: "unat (it_next (items h (unat n))) = start vs e" using m2(3) by simp
  have J: "?J = (items h)(unat n := (items h (unat n))\<lparr>pool_ptr := 0\<rparr>, unat x := (items h (unat x))\<lparr>it_next := it_next (items h (unat n))\<rparr>,
                          start vs e := (items h (start vs e))\<lparr>it_prev := x\<rparr>)"
    using d nn by (simp add: smem_join_def Let_def items_upd_item item_def fun_upd_def)
  show "\<exists>q'. hseg ?J a p y (us @ (unat x, u) # vs) q' e"
    by (rule hseg_merge [OF seg, where w = x]) (use d m(6) in \<open>simp_all add: J\<close>)
  show "pool_ptr (?J e) = t" using d e by (simp add: J)
qed

text \<open>
  The states inside \<^verbatim>\<open>plug_holes\<close>: the list of blocks is whole and \<^verbatim>\<open>lfree\<close> is its first free block.
\<close>

definition linked :: "rt_small_mem \<Rightarrow> (nat \<times> bool) list \<Rightarrow> bool" where
  "linked h bs \<longleftrightarrow> (\<exists>q. hseg (items h) (sm_addr h) 0 0 bs q (unat (heap_end h))) \<and>
     pool_ptr (items h (unat (heap_end h))) = tag (sm_addr h) True \<and> unat (lfree h) = first_free bs (unat (heap_end h))"

lemma linked_join:
  assumes "linked h (us @ (unat x, False) # (unat n, False) # vs)"
  shows "linked (smem_join x n h) (us @ (unat x, False) # vs)" "lfree h \<noteq> n"
proof -
  obtain q where seg: "hseg (items h) (sm_addr h) 0 0 (us @ (unat x, False) # (unat n, False) # vs) q (unat (heap_end h))"
    and e: "pool_ptr (items h (unat (heap_end h))) = tag (sm_addr h) True"
      "unat (lfree h) = first_free (us @ (unat x, False) # (unat n, False) # vs) (unat (heap_end h))"
    using assms unfolding linked_def by blast
  have f: "sm_addr (smem_join x n h) = sm_addr h" "heap_end (smem_join x n h) = heap_end h"
    using smem_join_fields(1) [of h x n] by (simp_all add: same_heap_def)
  show "linked (smem_join x n h) (us @ (unat x, False) # vs)"
    unfolding linked_def f using smem_join_seg [OF seg e(1)] e(2) by (simp add: block_list)
  have "first_free us (unat x) \<le> unat x"
    by (rule first_free_cases [of us]) (use hseg_mid(1) [OF seg] in fastforce)+
  then have "unat (lfree h) < unat n" using e(2) hseg_mid(4) [OF seg] by (simp add: block_list)
  then show "lfree h \<noteq> n" by auto
qed

lemma linked_mid:
  assumes "linked h (us @ (unat mem, u) # vs)"
  shows "vs = [] \<Longrightarrow> it_next (item mem h) = heap_end h" "vs = c # cs \<Longrightarrow> unat (it_next (item mem h)) = fst c"
    "vs = c # cs \<Longrightarrow> MEM_ISUSED (item (it_next (item mem h)) h) \<longleftrightarrow> snd c"
    "us = [] \<Longrightarrow> it_prev (item mem h) = mem" "us = ds @ [d] \<Longrightarrow> unat (it_prev (item mem h)) = fst d"
    "us = ds @ [d] \<Longrightarrow> MEM_ISUSED (item (it_prev (item mem h)) h) \<longleftrightarrow> snd d"
proof -
  obtain q r where us: "hseg (items h) (sm_addr h) 0 0 us r (unat mem)" and mem: "unat (it_prev (item mem h)) = r"
    and vs: "hseg (items h) (sm_addr h) (unat mem) (unat (it_next (item mem h))) vs q (unat (heap_end h))"
    using assms unfolding linked_def by (auto simp: hseg_append item_def)
  show "vs = [] \<Longrightarrow> it_next (item mem h) = heap_end h" using vs by (simp add: word_unat_eq_iff)
  show c: "vs = c # cs \<Longrightarrow> unat (it_next (item mem h)) = fst c" using vs by simp
  show "vs = c # cs \<Longrightarrow> MEM_ISUSED (item (it_next (item mem h)) h) \<longleftrightarrow> snd c"
    using vs by (auto simp: item_def intro!: tag_used)
  show "us = [] \<Longrightarrow> it_prev (item mem h) = mem" using us mem by (simp add: word_unat_eq_iff)
  show d: "us = ds @ [d] \<Longrightarrow> unat (it_prev (item mem h)) = fst d" using us mem by (auto simp: hseg_append)
  show "us = ds @ [d] \<Longrightarrow> MEM_ISUSED (item (it_prev (item mem h)) h) \<longleftrightarrow> snd d"
    using us mem by (auto simp: hseg_append item_def intro!: tag_used)
qed

definition same_blocks :: "(nat \<times> bool) list \<Rightarrow> (nat \<times> bool) list \<Rightarrow> nat \<Rightarrow> bool" where
  "same_blocks bs bs' e \<longleftrightarrow> allocated bs' e = allocated bs e \<and> used_bytes bs' e = used_bytes bs e"

lemma same_blocks_join: "same_blocks (us @ (x, False) # (n, False) # vs) (us @ (x, False) # vs) e"
  by (auto simp: same_blocks_def block_list allocated_def)

definition same_use :: "rt_small_mem \<Rightarrow> rt_small_mem \<Rightarrow> bool" where
  "same_use h h' \<longleftrightarrow> same_heap h h' \<and> mem_used h' = mem_used h \<and> heap_bytes h' = heap_bytes h"

lemma plug_next_ok:
  assumes l: "linked h (us @ (unat mem, False) # vs)" and c: "coalesced vs"
  shows "\<exists>ws. linked (plug_next mem h) (us @ (unat mem, False) # ws) \<and> coalesced ((unat mem, False) # ws) \<and>
    same_blocks (us @ (unat mem, False) # vs) (us @ (unat mem, False) # ws) (unat (heap_end h)) \<and> same_use h (plug_next mem h)"
proof -
  note m = linked_mid [OF l]
  consider "vs = []" | n cs where "vs = (n, True) # cs" | n cs where "vs = (n, False) # cs"
    by (metis (full_types) list.exhaust surj_pair)
  then show ?thesis
  proof cases
    case 1
    then show ?thesis using l m(1) by (auto simp: plug_next_def same_blocks_def same_use_def same_heap_def Let_def)
  next
    case 2
    then show ?thesis using l m(3) c by (auto simp: plug_next_def same_blocks_def same_use_def same_heap_def Let_def)
  next
    case (3 n cs)
    define nm where "nm = it_next (item mem h)"
    have n: "n = unat nm" "\<not> MEM_ISUSED (item nm h)" using m(2,3) [OF 3] by (simp_all add: nm_def)
    have l': "linked h (us @ (unat mem, False) # (unat nm, False) # cs)" using l 3 n(1) by simp
    obtain q where seg: "hseg (items h) (sm_addr h) 0 0 (us @ (unat mem, False) # (unat nm, False) # cs) q (unat (heap_end h))"
      using l' unfolding linked_def by blast
    have "unat nm \<noteq> unat mem" "unat nm \<noteq> unat (heap_end h)"
      using hseg_mid(4) [OF seg] hseg_mid(2) [OF seg, of "(unat nm, False)"] by auto
    then have "plug_next mem h = smem_join mem nm h"
      using n(2) linked_join(2) [OF l'] by (auto simp: plug_next_def nm_def [symmetric] Let_def)
    moreover have "coalesced ((unat mem, False) # cs)" using c 3 by (cases cs) auto
    ultimately show ?thesis using linked_join(1) [OF l'] same_blocks_join 3 n(1) by (auto simp: same_use_def)
  qed
qed

lemma plug_prev_ok:
  assumes l: "linked h (us @ (unat mem, False) # vs)" and c: "coalesced us" "coalesced ((unat mem, False) # vs)"
  shows "\<exists>bs'. linked (plug_prev mem h) bs' \<and> coalesced bs' \<and>
    same_blocks (us @ (unat mem, False) # vs) bs' (unat (heap_end h)) \<and> same_use h (plug_prev mem h)"
proof -
  note m = linked_mid [OF l]
  have keep: ?thesis if "plug_prev mem h = h" "coalesced (us @ (unat mem, False) # vs)"
    using that l by (auto simp: same_blocks_def same_use_def same_heap_def)
  consider "us = []" | n ds where "us = ds @ [(n, True)]" | n ds where "us = ds @ [(n, False)]"
    by (metis (full_types) rev_exhaust surj_pair)
  then show ?thesis
  proof cases
    case 1
    then show ?thesis using m(4) c by (intro keep) (simp_all add: plug_prev_def Let_def)
  next
    case 2
    then show ?thesis using m(6) c by (intro keep) (simp_all add: plug_prev_def Let_def coalesced_append)
  next
    case (3 n ds)
    define pm where "pm = it_prev (item mem h)"
    have n: "n = unat pm" "\<not> MEM_ISUSED (item pm h)" using m(5,6) [OF 3] by (simp_all add: pm_def)
    have l': "linked h (ds @ (unat pm, False) # (unat mem, False) # vs)" using l 3 n(1) by simp
    obtain q where seg: "hseg (items h) (sm_addr h) 0 0 (ds @ (unat pm, False) # (unat mem, False) # vs) q (unat (heap_end h))"
      using l' unfolding linked_def by blast
    have "unat pm \<noteq> unat mem" using hseg_mid(4) [OF seg] by auto
    then have "plug_prev mem h = smem_join pm mem h"
      using n(2) linked_join(2) [OF l'] by (auto simp: plug_prev_def pm_def [symmetric] Let_def)
    moreover have "coalesced (ds @ (unat pm, False) # vs)" using c 3 by (cases vs) (auto simp: coalesced_append)
    ultimately show ?thesis using linked_join(1) [OF l'] same_blocks_join 3 n(1) by (auto simp: same_use_def)
  qed
qed

lemma plug_holes_ok:
  assumes l: "linked h (us @ (unat mem, False) # vs)" and c: "coalesced us" "coalesced vs"
  shows "\<exists>h' bs'. plug_holes mem h = Some h' \<and> linked h' bs' \<and> coalesced bs' \<and>
    same_blocks (us @ (unat mem, False) # vs) bs' (unat (heap_end h)) \<and> same_use h h'"
proof -
  obtain ws where n: "linked (plug_next mem h) (us @ (unat mem, False) # ws)" "coalesced ((unat mem, False) # ws)"
    "same_blocks (us @ (unat mem, False) # vs) (us @ (unat mem, False) # ws) (unat (heap_end h))" "same_use h (plug_next mem h)"
    using plug_next_ok [OF l c(2)] by blast
  obtain bs' where p: "linked (plug_prev mem (plug_next mem h)) bs'" "coalesced bs'"
    "same_blocks (us @ (unat mem, False) # ws) bs' (unat (heap_end (plug_next mem h)))" "same_use (plug_next mem h) (plug_prev mem (plug_next mem h))"
    using plug_prev_ok [OF n(1) c(1) n(2)] by blast
  obtain q where "hseg (items h) (sm_addr h) 0 0 (us @ (unat mem, False) # vs) q (unat (heap_end h))" using l unfolding linked_def by blast
  then have "mem < heap_end h" using hseg_mid(8) by (simp add: word_less_nat_alt)
  then show ?thesis using n p unfolding plug_holes_def by (auto simp: same_use_def same_heap_def same_blocks_def rt_assert_def)
qed

section \<open>Release\<close>

text \<open>The header of the block whose memory a client holds.\<close>

lemma client_header:
  assumes inv: "heap_inv h (us @ (unat mem, True) # vs)"
  defines "r \<equiv> heap_ptr h + mem + SIZEOF_STRUCT_MEM"
  shows "r - SIZEOF_STRUCT_MEM - heap_ptr h = mem" "r AND (8 - 1) = 0" "heap_ptr h \<le> r" "r < heap_ptr h + heap_end h"
    "MEM_POOL (item mem h) = sm_addr h" "sm_addr h \<noteq> 0" "MEM_ISUSED (item mem h)" "smem_object_ok h"
    "MEM_POOL (item (it_next (item mem h)) h) = sm_addr h" "unat (it_next (item mem h)) = start vs (unat (heap_end h))"
    "unat r = unat (heap_ptr h) + unat mem + 40"
proof -
  define e where "e = unat (heap_end h)"
  obtain q where seg: "hseg (items h) (sm_addr h) 0 0 (us @ (unat mem, True) # vs) q e" and e: "pool_ptr (items h e) = tag (sm_addr h) True"
    "unat (heap_ptr h) + e + 40 < 2 ^ 64" "8 dvd unat (heap_ptr h)" and a: "sm_addr h AND 1 = 0" "sm_addr h \<noteq> 0" "smem_object_ok h"
    using heap_invD [OF inv] unfolding e_def by metis
  note m = hseg_mid [OF seg]
  have lt: "unat mem + 40 \<le> e" using m(4,5) by simp
  show "r - SIZEOF_STRUCT_MEM - heap_ptr h = mem" by (simp add: r_def)
  show r: "unat r = unat (heap_ptr h) + unat mem + 40"
    unfolding r_def SIZEOF_STRUCT_MEM_def using lt e(2) by (simp add: unat_plus)
  have he: "unat (heap_ptr h + heap_end h) = unat (heap_ptr h) + e" using e(2) by (simp add: unat_plus e_def)
  show "heap_ptr h \<le> r" using r by (simp add: word_le_nat_alt)
  have "unat mem + 40 < e" using m(5,10) by simp
  then show "r < heap_ptr h + heap_end h" using r he by (simp add: word_less_nat_alt)
  have "8 dvd unat mem" using hseg_dvd [OF seg, of "(unat mem, True)"] by simp
  then have "8 dvd unat r" unfolding r using e(3) by (simp add: dvd_add)
  then show "r AND (8 - 1) = 0" by (rule word_8_dvd)
  show "MEM_POOL (item mem h) = sm_addr h" "MEM_ISUSED (item mem h)"
    using m(6) tag_pool [OF a(1)] tag_used by (auto simp: item_def)
  show "sm_addr h \<noteq> 0" "smem_object_ok h" by (rule a)+
  show nx: "unat (it_next (item mem h)) = start vs (unat (heap_end h))" using m(3) by (simp add: item_def e_def)
  have "\<exists>v. pool_ptr (items h (start vs e)) = tag (sm_addr h) v"
    using seg e(1) m(3) by (cases vs) (auto simp: hseg_append)
  then show "MEM_POOL (item (it_next (item mem h)) h) = sm_addr h"
    using tag_pool [OF a(1)] nx by (auto simp: item_def e_def)
qed

lemma lower_lfree:
  assumes seg: "hseg I a p y (us @ (unat mem, u) # vs) q e" and lf: "unat l = first_free us (first_free vs e)"
  shows "unat (if mem < l then mem else l) = first_free us (unat mem)"
proof (rule first_free_cases [of us])
  note m = hseg_mid [OF seg]
  assume all: "\<And>z. first_free us z = z"
  have "unat mem < first_free vs e"
  proof (rule first_free_cases [of vs])
    fix b assume "b \<in> set vs" "\<And>z. first_free vs z = fst b"
    then show ?thesis using m(2) [of b] by simp
  qed (use m(8) in simp)
  then have "mem < l" using all lf by (simp add: word_less_nat_alt)
  then show ?thesis using all by simp
next
  fix b assume b: "b \<in> set us" "\<And>z. first_free us z = fst b"
  then have "unat l = fst b" using lf by simp
  then show ?thesis using b hseg_mid(1) [OF seg, of b] by (simp add: word_less_nat_alt)
qed

lemma linked_release:
  assumes inv: "heap_inv h (us @ (unat mem, True) # vs)"
  defines "h1 \<equiv> upd_item mem (\<lambda>i. rt_smem_setname ''    '' (i\<lparr>pool_ptr := MEM_FREED h\<rparr>)) h"
  shows "linked (if mem < lfree h1 then h1\<lparr>lfree := mem\<rparr> else h1) (us @ (unat mem, False) # vs)"
proof -
  define e where "e = unat (heap_end h)"
  obtain q where seg: "hseg (items h) (sm_addr h) 0 0 (us @ (unat mem, True) # vs) q e" and e: "pool_ptr (items h e) = tag (sm_addr h) True"
    and lf: "unat (lfree h) = first_free (us @ (unat mem, True) # vs) e"
    using heap_invD [OF inv] unfolding e_def by metis
  have "hseg (items h1) (sm_addr h) 0 0 (us @ (unat mem, False) # vs) q e"
    unfolding h1_def by (intro hseg_set [OF seg]) (auto simp: items_upd_item MEM_tags)
  moreover have "pool_ptr (items h1 e) = tag (sm_addr h) True" using hseg_mid(8) [OF seg] e by (simp add: h1_def items_upd_item)
  moreover have "unat (if mem < lfree h then mem else lfree h) = first_free us (unat mem)"
    using lf by (intro lower_lfree [OF seg]) (simp add: block_list)
  ultimately show ?thesis by (auto simp: linked_def h1_def e_def block_list)
qed

lemma rt_smem_free_ok:
  assumes inv: "heap_inv h bs" and held: "(x, n) \<in> allocated bs (unat (heap_end h))"
  shows "\<exists>h' bs'. rt_smem_free (Some (heap_ptr h + of_nat (x + 40))) h = Some h' \<and> heap_inv h' bs' \<and>
    allocated bs' (unat (heap_end h)) = allocated bs (unat (heap_end h)) - {(x, n)} \<and> same_heap h h' \<and> heap_bytes h' = heap_bytes h"
proof -
  define e where "e = unat (heap_end h)"
  obtain us vs where bs: "bs = us @ (x, True) # vs" "n = start vs e" using held unfolding e_def by (rule allocated_mem)
  obtain q where seg: "hseg (items h) (sm_addr h) 0 0 bs q e" and lt: "unat (heap_ptr h) + e + 40 < 2 ^ 64"
    and used: "unat (mem_used h) = used_bytes bs e" and coal: "coalesced bs"
    using heap_invD [OF inv] unfolding e_def by metis
  note m = hseg_mid [OF seg [unfolded bs(1)]]
  define mem :: "64 word" where "mem = of_nat x"
  have x: "unat mem = x" using m(8) lt by (simp add: mem_def unat_of_nat)
  have inv': "heap_inv h (us @ (unat mem, True) # vs)" using inv bs(1) x by simp
  note c = client_header [OF inv']
  define h2 where "h2 = (let h1 = upd_item mem (\<lambda>i. rt_smem_setname ''    '' (i\<lparr>pool_ptr := MEM_FREED h\<rparr>)) h
    in if mem < lfree h1 then h1\<lparr>lfree := mem\<rparr> else h1)"
  define h3 where "h3 = h2\<lparr>mem_used := mem_used h2 - (it_next (item mem h2) - mem)\<rparr>"
  have same: "same_heap h h3" "heap_bytes h3 = heap_bytes h" by (simp_all add: h3_def h2_def same_heap_def Let_def)
  have "linked h2 (us @ (unat mem, False) # vs)" using linked_release [OF inv'] by (simp add: h2_def Let_def)
  then have "linked h3 (us @ (unat mem, False) # vs)" by (simp add: linked_def h3_def)
  then obtain h' bs' where h': "plug_holes mem h3 = Some h'" "linked h' bs'" "coalesced bs'"
    "same_blocks (us @ (unat mem, False) # vs) bs' (unat (heap_end h3))" "same_use h3 h'"
    using plug_holes_ok coal bs(1) by (auto simp: coalesced_append) (metis coalesced.simps(1) coalesced.simps(2) list.exhaust)
  have "it_next (item mem h2) = it_next (item mem h)" "mem_used h2 = mem_used h" by (simp_all add: h2_def Let_def item_def items_upd_item)
  moreover have "unat (it_next (item mem h) - mem) = start vs e - x" "unat (it_next (item mem h) - mem) \<le> unat (mem_used h)"
    using unat_room(3) [of mem "it_next (item mem h)"] m(4) c(10) x used bs by (simp_all add: e_def block_list)
  ultimately have used': "unat (mem_used h3) = used_bytes (us @ (x, False) # vs) e"
    using used bs by (simp add: h3_def unat_sub word_le_nat_alt block_list)
  have e': "heap_end h3 = heap_end h" "same_heap h h'" "mem_used h' = mem_used h3" "heap_bytes h' = heap_bytes h"
    using same h'(5) by (auto simp: same_use_def same_heap_def)
  have "heap_inv h' bs'"
    using h'(2,3,4) used' e' unfolding linked_def same_blocks_def
    by (auto simp: same_heap_def x e_def intro!: heap_invI [OF inv e'(2)])
  moreover have "allocated bs' e = allocated bs e - {(x, n)}"
    using h'(4) bs allocated_remove [OF seg [unfolded bs(1)]] unfolding same_blocks_def e' x e_def [symmetric]
    by (simp add: allocated_mid)
  moreover have r: "heap_ptr h + of_nat (x + 40) = heap_ptr h + mem + SIZEOF_STRUCT_MEM" by (simp add: mem_def SIZEOF_STRUCT_MEM_def)
  moreover have "rt_smem_free (Some (heap_ptr h + mem + SIZEOF_STRUCT_MEM)) h = Some h'"
    unfolding rt_smem_free_def option.case c(1) using c h'(1) by (simp add: rt_assert_def Let_def h3_def h2_def)
  ultimately show ?thesis using e' unfolding e_def by metis
qed

section \<open>Creation\<close>

lemma word_and_1: "8 dvd unat w \<Longrightarrow> w AND 1 = 0" for w :: "64 word"
proof -
  assume "8 dvd unat w"
  then have "unat (w mod 2) = 0" by (auto simp: unat_mod elim!: dvdE)
  then show "w AND 1 = 0" by (simp add: and_one_eq unat_eq_0)
qed

lemma rt_smem_init_ok:
  fixes begin_addr sz :: "64 word"
  assumes addr: "begin_addr \<noteq> 0" "unat begin_addr + unat sz < 2 ^ 64" "214 \<le> unat sz"
  shows "\<exists>h. rt_smem_init mem begin_addr sz = Some h \<and> heap_inv h [(0, False)] \<and>
    unat begin_addr + 120 \<le> unat (heap_ptr h) \<and> unat (heap_ptr h) + unat (heap_end h) + 40 \<le> unat begin_addr + unat sz \<and> heap_bytes h = snd mem"
proof -
  define sa where "sa = RT_ALIGN begin_addr 8"
  define ba where "ba = sa + SIZEOF_SMALL_MEM"
  define ea where "ea = (begin_addr + sz) AND NOT (8 - 1)"
  have sa: "unat sa = (unat begin_addr + 7) div 8 * 8" unfolding sa_def using addr by (intro RT_ALIGN_8) simp
  then have sa': "unat begin_addr \<le> unat sa" "unat sa \<le> unat begin_addr + 7" "8 dvd unat sa" by auto
  have ba: "unat ba = unat sa + 120" unfolding ba_def SIZEOF_SMALL_MEM_def using sa'(2) addr by (simp add: unat_plus)
  have "unat (RT_ALIGN ba 8) = (unat ba + 7) div 8 * 8" using ba sa'(2) addr by (intro RT_ALIGN_8) simp
  also have "\<dots> = unat ba" using ba sa'(3) by (auto elim!: dvdE)
  finally have al: "RT_ALIGN ba 8 = ba" by (simp add: word_unat_eq_iff)
  have "unat (begin_addr + sz) = unat begin_addr + unat sz" using addr by (simp add: unat_plus)
  then have ea: "unat ea = (unat begin_addr + unat sz) div 8 * 8" unfolding ea_def round_down_8 by simp
  then have ea': "unat ea \<le> unat begin_addr + unat sz" "unat begin_addr + unat sz \<le> unat ea + 7" "8 dvd unat ea" by auto
  have lt: "unat ba + 80 \<le> unat ea" using ba sa'(2) ea'(2) addr(3) by simp
  have two: "2 * SIZEOF_STRUCT_MEM = 80" by (simp add: SIZEOF_STRUCT_MEM_def)
  have g: "2 * SIZEOF_STRUCT_MEM < ea" "ba \<le> ea - 2 * SIZEOF_STRUCT_MEM"
    unfolding two using lt ba by (simp_all add: word_less_nat_alt word_le_nat_alt unat_sub)
  define ms where "ms = ea - ba - 2 * SIZEOF_STRUCT_MEM"
  have "unat (ea - ba) = unat ea - unat ba" using lt by (simp add: unat_sub word_le_nat_alt)
  then have ms: "unat ms = unat ea - unat ba - 80" unfolding ms_def two using lt by (simp add: unat_sub word_le_nat_alt)
  have ms40: "unat (ms + SIZEOF_STRUCT_MEM) = unat ms + 40"
    unfolding SIZEOF_STRUCT_MEM_def using ms lt unat_plus [of ms 40] ea'(1) addr(2) by simp
  have d: "8 dvd unat ms + 40" unfolding ms using ea'(3) sa'(3) ba lt by (auto elim!: dvdE simp: dvd_def) presburger
  obtain h where h: "rt_smem_init mem begin_addr sz = Some h" "sm_addr h = sa" "smem_object_ok h" "heap_ptr h = ba" "heap_end h = ms + SIZEOF_STRUCT_MEM"
    "lfree h = 0" "mem_used h = 0" "mem_size_aligned h = ms" "heap_bytes h = snd mem"
    "pool_ptr (items h 0) = tag sa False" "it_next (items h 0) = ms + SIZEOF_STRUCT_MEM" "it_prev (items h 0) = 0"
    "pool_ptr (items h (unat (ms + SIZEOF_STRUCT_MEM))) = tag sa True"
  proof -
    have "unat (ms + SIZEOF_STRUCT_MEM) \<noteq> 0" using ms40 by simp
    then show ?thesis
      using that g al unfolding rt_smem_init_def Let_def sa_def [symmetric] ba_def [symmetric] ea_def [symmetric]
      by (simp add: ms_def [symmetric] items_upd_item item_def MEM_tags smem_object_ok_def)
  qed
  have "sa \<noteq> 0"
  proof
    assume "sa = 0"
    then have "unat begin_addr = 0" using sa'(1) by simp
    then show False using addr(1) by (simp add: unat_eq_0)
  qed
  then have "heap_inv h [(0, False)]"
    unfolding heap_inv_def Let_def using h ms40 d word_and_1 [OF sa'(3)] sa'(3) ba lt ms ea'(1) addr(2) by simp
  then show ?thesis using h ba sa'(1) ms40 ms lt ea'(1) by auto
qed

section \<open>Resizing\<close>

lemma heap_inv_bytes [simp]: "heap_inv (h\<lparr>heap_bytes := f\<rparr>) bs = heap_inv h bs"
  by (simp add: heap_inv_def smem_object_ok_def)

lemma carve_at_alloc:
  assumes seg: "hseg I a p y bs q e" and f: "fit s bs e = Some x" and y: "8 dvd y"
  shows "\<exists>n. allocated (carve_at x s bs e) e = insert (x, n) (allocated bs e) \<and> x + 40 + s \<le> n \<and> n < x + 40 + s + 64 \<and> n \<le> e \<and>
    8 dvd x \<and> (\<forall>c d. (c, d) \<in> allocated bs e \<longrightarrow> d \<le> x \<or> n \<le> c)"
proof -
  obtain us vs where bs: "bs = us @ (x, False) # vs" "x + 40 + s \<le> start vs e" using f by (rule fit_split)
  note m = hseg_mid [OF seg [unfolded bs(1)]] and ap = allocated_apart [OF seg [unfolded bs(1)]]
  have "x \<notin> fst ` set us" using m(1) by fastforce
  then have c: "carve_at x s bs e = us @ (x, True) # carved x s vs e" using bs(1) by (simp add: carve_at_mid)
  have vs: "allocated (carved x s vs e) e = allocated vs e" by (auto simp: carved_def allocated_def)
  have d: "8 dvd x" using hseg_dvd [OF seg y, of "(x, False)"] bs(1) by simp
  have "start (carved x s vs e) e \<le> start vs e" "x + 40 + s \<le> start (carved x s vs e) e" "start (carved x s vs e) e < x + 40 + s + 64"
    using bs(2) by (auto simp: carved_def)
  moreover have "allocated (carve_at x s bs e) e = insert (x, start (carved x s vs e) e) (allocated bs e)"
    unfolding c using bs(1) vs by (auto simp: allocated_mid)
  moreover have "d \<le> x \<or> start (carved x s vs e) e \<le> c" if "(c, d) \<in> allocated bs e" for c d
    using that ap [of c d] bs(1) calculation(1) by (auto simp: allocated_mid)
  ultimately show ?thesis using d m(5) by (metis le_trans)
qed

lemma RT_ALIGN_idem: "unat w + 7 < 2 ^ 64 \<Longrightarrow> 8 dvd unat w \<Longrightarrow> RT_ALIGN w 8 = w" for w :: "64 word"
proof -
  assume "unat w + 7 < 2 ^ 64" "8 dvd unat w"
  then have "unat (RT_ALIGN w 8) = unat w" by (auto simp: RT_ALIGN_8 elim!: dvdE)
  then show ?thesis by (simp add: word_unat_eq_iff)
qed

lemma smem_shrink_ok:
  fixes ptr ptr2 :: "64 word"
  assumes inv: "heap_inv h (us @ (unat ptr, True) # vs)" and n: "n = start vs (unat (heap_end h))"
    and x2: "unat ptr + 48 \<le> unat ptr2" "unat ptr2 + 40 \<le> n" "8 dvd unat ptr2" and d: "unat d = n - unat ptr2"
  shows "\<exists>h' bs'. plug_holes ptr2 (let h2 = smem_split ptr ptr2 (h\<lparr>mem_used := mem_used h - d\<rparr>) in if ptr2 < lfree h2 then h2\<lparr>lfree := ptr2\<rparr> else h2) = Some h' \<and>
    heap_inv h' bs' \<and> allocated bs' (unat (heap_end h)) = insert (unat ptr, unat ptr2) (allocated (us @ (unat ptr, True) # vs) (unat (heap_end h)) - {(unat ptr, n)}) \<and>
    same_heap h h' \<and> heap_bytes h' = heap_bytes h"
proof -
  define e where "e = unat (heap_end h)"
  define h1 where "h1 = h\<lparr>mem_used := mem_used h - d\<rparr>"
  define h2 where "h2 = smem_split ptr ptr2 h1"
  define h3 where "h3 = (if ptr2 < lfree h2 then h2\<lparr>lfree := ptr2\<rparr> else h2)"
  let ?us = "us @ [(unat ptr, True)]"
  obtain q where seg: "hseg (items h) (sm_addr h) 0 0 (us @ (unat ptr, True) # vs) q e" and e: "pool_ptr (items h e) = tag (sm_addr h) True"
    "e = unat (mem_size_aligned h) + 40" "unat (heap_ptr h) + e + 40 < 2 ^ 64" and coal: "coalesced (us @ (unat ptr, True) # vs)"
    and lf: "unat (lfree h) = first_free (us @ (unat ptr, True) # vs) e" and used: "unat (mem_used h) = used_bytes (us @ (unat ptr, True) # vs) e"
    using heap_invD [OF inv] unfolding e_def by metis
  have h1: "items h1 = items h" "sm_addr h1 = sm_addr h" "mem_size_aligned h1 = mem_size_aligned h" "heap_end h1 = heap_end h" "lfree h1 = lfree h"
    by (simp_all add: h1_def)
  have h2: "sm_addr h2 = sm_addr h" "heap_end h2 = heap_end h" "lfree h2 = lfree h" "same_heap h h3" "mem_used h3 = mem_used h1" "heap_bytes h3 = heap_bytes h"
    using smem_split_fields [where h = h1 and p = ptr and r = ptr2] h1 by (auto simp: h1_def h2_def h3_def same_heap_def)
  note sp = smem_split_seg [of h1 0 0 us ptr True vs q e, unfolded h1, OF seg e(2) _ e(1) x2(1) _ x2(3), folded h2_def]
  obtain q' where seg2: "hseg (items h2) (sm_addr h) 0 0 (?us @ (unat ptr2, False) # vs) q' e"
    using sp(1) e(3) x2(2) n by (auto simp: e_def)
  have "unat (if ptr2 < lfree h then ptr2 else lfree h) = first_free ?us (unat ptr2)"
    using lf by (intro lower_lfree [OF seg2]) (simp add: block_list)
  then have "linked h3 (?us @ (unat ptr2, False) # vs)"
    using seg2 sp(2) e(3) x2(2) n h2 unfolding linked_def h3_def e_def by (auto simp: block_list)
  moreover have "coalesced ?us" "coalesced vs" using coal by (auto simp: coalesced_append) (cases vs; simp)
  ultimately obtain h' bs' where h': "plug_holes ptr2 h3 = Some h'" "linked h' bs'" "coalesced bs'"
    "same_blocks (?us @ (unat ptr2, False) # vs) bs' (unat (heap_end h3))" "same_use h3 h'"
    using plug_holes_ok by blast
  have "unat (mem_used h3) = used_bytes (?us @ (unat ptr2, False) # vs) e"
    using used d n x2 h2(5) by (simp add: h1_def unat_sub word_le_nat_alt block_list e_def)
  moreover have e': "heap_end h3 = heap_end h" "same_heap h h'" "mem_used h' = mem_used h3" "heap_bytes h' = heap_bytes h"
    using h2 h'(5) by (auto simp: same_use_def same_heap_def)
  ultimately have "heap_inv h' bs'"
    using h'(2,3,4) unfolding linked_def same_blocks_def by (auto simp: same_heap_def e_def intro!: heap_invI [OF inv e'(2)])
  moreover have "allocated bs' e = insert (unat ptr, unat ptr2) (allocated (us @ (unat ptr, True) # vs) e - {(unat ptr, n)})"
    using h'(4) n allocated_remove [OF seg] unfolding same_blocks_def e' e_def [symmetric] by (simp add: allocated_mid Un_commute)
  ultimately show ?thesis using h'(1) e' unfolding h3_def h2_def h1_def e_def Let_def by metis
qed

text \<open>What a client finds after its block \<open>(x, n)\<close> became \<open>(x', n')\<close>.\<close>

definition moved :: "(nat \<times> bool) list \<Rightarrow> (nat \<times> nat) \<Rightarrow> nat \<Rightarrow> rt_small_mem \<Rightarrow> nat \<Rightarrow> (64 word option \<times> rt_small_mem) option \<Rightarrow> bool" where
  "moved bs b ns h x' res \<longleftrightarrow> (\<exists>h' bs' n'. res = Some (Some (heap_ptr h + of_nat (x' + 40)), h') \<and> heap_inv h' bs' \<and> same_heap h h' \<and>
     x' + 40 + ns \<le> n' \<and> allocated bs' (unat (heap_end h)) = insert (x', n') (allocated bs (unat (heap_end h)) - {b}) \<and>
     (\<forall>i < min ns (snd b - (fst b + 40)). heap_bytes h' (x' + 40 + i) = heap_bytes h (fst b + 40 + i)) \<and>
     (\<forall>c d i. (c, d) \<in> allocated bs (unat (heap_end h)) \<longrightarrow> (c, d) \<noteq> b \<longrightarrow> c + 40 \<le> i \<longrightarrow> i < d \<longrightarrow> heap_bytes h' i = heap_bytes h i))"

lemma smem_copy_bytes:
  "heap_bytes (smem_copy dst src n h) i =
    (if unat dst \<le> i \<and> i < unat dst + unat n then heap_bytes h (i - unat dst + unat src) else heap_bytes h i)"
  by (simp add: smem_copy_def)

lemma smem_grow_ok:
  fixes ns :: "64 word"
  assumes inv: "heap_inv h bs" and held: "(x, n) \<in> allocated bs (unat (heap_end h))"
    and ns: "ns \<noteq> 0" "unat ns + 7 < 2 ^ 64" "8 dvd unat ns" and sz: "unat sz = n - (x + 40)" and f: "fit (block_size ns) bs (unat (heap_end h)) = Some y"
  shows "moved bs (x, n) (unat ns) h y (do { (nmem, h1) \<leftarrow> rt_smem_alloc ns who h;
           case nmem of
             None \<Rightarrow> Some (None, h1)
           | Some m \<Rightarrow> do {
               let h2 = smem_copy (m - heap_ptr h1) (heap_ptr h + of_nat (x + 40) - heap_ptr h1) (if sz < ns then sz else ns) h1;
               h3 \<leftarrow> rt_smem_free (Some (heap_ptr h + of_nat (x + 40))) h2;
               Some (Some m, h3)
             } })"
proof -
  define e where "e = unat (heap_end h)"
  define k where "k = min (unat ns) (n - (x + 40))"
  obtain h1 where h1: "rt_smem_alloc ns who h = Some (Some (heap_ptr h + of_nat (y + 40)), h1)"
    "heap_inv h1 (carve_at y (block_size ns) bs e)" "same_heap h h1" "heap_bytes h1 = heap_bytes h"
    using rt_smem_alloc_found [OF inv ns(1,2) f, of who] unfolding e_def by blast
  obtain q where seg: "hseg (items h) (sm_addr h) 0 0 bs q e" and lt: "unat (heap_ptr h) + e + 40 < 2 ^ 64"
    using heap_invD [OF inv] unfolding e_def by metis
  obtain n' where n': "allocated (carve_at y (block_size ns) bs e) e = insert (y, n') (allocated bs e)" "y + 40 + block_size ns \<le> n'" "n' \<le> e"
    and apart: "\<And>c d. (c, d) \<in> allocated bs e \<Longrightarrow> d \<le> y \<or> n' \<le> c"
    using carve_at_alloc [OF seg, of "block_size ns" y] f unfolding e_def by auto
  have b: "x + 48 \<le> n" "n \<le> e" using allocated_bounds [OF seg] held by (auto simp: e_def)
  define h2 where "h2 = smem_copy (of_nat (y + 40)) (of_nat (x + 40)) (if sz < ns then sz else ns) h1"
  have h2: "heap_inv h2 (carve_at y (block_size ns) bs e)" "heap_ptr h2 = heap_ptr h" "heap_end h2 = heap_end h" "same_heap h h2"
    using h1(2,3) by (simp_all add: h2_def smem_copy_def same_heap_def)
  have ns': "unat ns \<le> block_size ns" by (simp add: block_size_def)
  have wd: "unat (of_nat (y + 40) :: 64 word) = y + 40" "unat (of_nat (x + 40) :: 64 word) = x + 40"
    by (rule unat_small, use n'(2,3) b lt in linarith)+
  have len: "unat (if sz < ns then sz else ns) = k" using sz by (auto simp: k_def word_less_nat_alt)
  have bytes: "heap_bytes h2 i = (if y + 40 \<le> i \<and> i < y + 40 + k then heap_bytes h (i - (y + 40) + (x + 40)) else heap_bytes h i)" for i
    unfolding h2_def smem_copy_bytes wd len h1(4) ..
  have "(x, n) \<in> allocated (carve_at y (block_size ns) bs e) (unat (heap_end h2))" using held n'(1) h2(3) by (simp add: e_def)
  from rt_smem_free_ok [OF h2(1) this]
  obtain h' bs' where h': "rt_smem_free (Some (heap_ptr h + of_nat (x + 40))) h2 = Some h'" "heap_inv h' bs'" "same_heap h2 h'"
    "allocated bs' e = insert (y, n') (allocated bs e) - {(x, n)}" "heap_bytes h' = heap_bytes h2"
    using n'(1) h2(2,3) unfolding e_def by auto
  have other: "heap_bytes h' i = heap_bytes h i" if "(c, d) \<in> allocated bs e" "i < d" "c + 40 \<le> i" for c d i
    using apart [OF that(1)] that(2,3) n'(2) ns' k_def bytes [of i] h'(5) by auto
  have "(y, n') \<noteq> (x, n)" using apart [of x n] held b n'(2) by (auto simp: e_def)
  then have "allocated bs' e = insert (y, n') (allocated bs e - {(x, n)})" using h'(4) by auto
  moreover have "same_heap h h'" using h2(4) h'(3) same_heap_trans by blast
  moreover have "\<forall>i < k. heap_bytes h' (y + 40 + i) = heap_bytes h (x + 40 + i)" using bytes h'(5) by (simp add: add.commute [of _ "x + 40"])
  moreover have "heap_ptr h1 = heap_ptr h" using h1(3) by (simp add: same_heap_def)
  ultimately show ?thesis
    using h1(1) h'(1,2) other n'(2) ns' unfolding moved_def e_def [symmetric] fst_conv snd_conv k_def [symmetric]
    by (intro exI [of _ h'] exI [of _ bs'] exI [of _ n']) (auto simp: h2_def)
qed

lemma rt_smem_realloc_cases:
  assumes inv: "heap_inv h (us @ (unat ptr, True) # vs)" and ns: "unat newsize + 7 < 2 ^ 64" "RT_ALIGN newsize 8 = newsize" "newsize \<noteq> 0"
  defines "r \<equiv> heap_ptr h + ptr + SIZEOF_STRUCT_MEM" and "sz \<equiv> it_next (item ptr h) - ptr - SIZEOF_STRUCT_MEM"
  shows "rt_smem_realloc (Some r) newsize who h =
    (if mem_size_aligned h < newsize then Some (None, h)
     else if sz = newsize then Some (Some r, h)
     else if newsize + SIZEOF_STRUCT_MEM + 24 < sz
     then do {
       h4 \<leftarrow> plug_holes (ptr + SIZEOF_STRUCT_MEM + newsize)
         (let h2 = smem_split ptr (ptr + SIZEOF_STRUCT_MEM + newsize) (h\<lparr>mem_used := mem_used h - (sz - newsize)\<rparr>)
          in if ptr + SIZEOF_STRUCT_MEM + newsize < lfree h2 then h2\<lparr>lfree := ptr + SIZEOF_STRUCT_MEM + newsize\<rparr> else h2);
       Some (Some r, h4)
     }
     else do { (nmem, h1) \<leftarrow> rt_smem_alloc newsize who h;
           case nmem of
             None \<Rightarrow> Some (None, h1)
           | Some m \<Rightarrow> do {
               let h2 = smem_copy (m - heap_ptr h1) (r - heap_ptr h1) (if sz < newsize then sz else newsize) h1;
               h3 \<leftarrow> rt_smem_free (Some r) h2;
               Some (Some m, h3)
             } })"
proof -
  note c = client_header [OF inv, folded r_def]
  show ?thesis
    unfolding rt_smem_realloc_def ns(2) Let_def option.case c(1) sz_def [symmetric] using c(2,3,4,8) ns(3) by (simp add: rt_assert_def)
qed

lemma smem_shrink_moved:
  fixes ptr ns sz :: "64 word"
  assumes inv: "heap_inv h (us @ (unat ptr, True) # vs)" and n: "n = start vs (unat (heap_end h))" "unat sz = n - (unat ptr + 40)"
    and ns: "8 dvd unat ns" "ns \<noteq> 0" "\<not> mem_size_aligned h < ns" "ns + SIZEOF_STRUCT_MEM + 24 < sz"
  shows "moved (us @ (unat ptr, True) # vs) (unat ptr, n) (unat ns) h (unat ptr) (do {
       h4 \<leftarrow> plug_holes (ptr + SIZEOF_STRUCT_MEM + ns)
         (let h2 = smem_split ptr (ptr + SIZEOF_STRUCT_MEM + ns) (h\<lparr>mem_used := mem_used h - (sz - ns)\<rparr>)
          in if ptr + SIZEOF_STRUCT_MEM + ns < lfree h2 then h2\<lparr>lfree := ptr + SIZEOF_STRUCT_MEM + ns\<rparr> else h2);
       Some (Some (heap_ptr h + ptr + SIZEOF_STRUCT_MEM), h4)
     })"
proof -
  define x2 where "x2 = ptr + SIZEOF_STRUCT_MEM + ns"
  obtain q where seg: "hseg (items h) (sm_addr h) 0 0 (us @ (unat ptr, True) # vs) q (unat (heap_end h))"
    and e: "unat (heap_end h) = unat (mem_size_aligned h) + 40" "unat (heap_ptr h) + unat (heap_end h) + 40 < 2 ^ 64"
    using heap_invD [OF inv] by metis
  have le: "unat ns \<le> unat (mem_size_aligned h)" using ns(3) by (simp add: word_less_nat_alt)
  have "unat ns \<noteq> 0" using ns(2) by (simp add: unat_eq_0)
  then have n8: "8 \<le> unat ns" using ns(1) by (simp add: dvd_imp_le)
  have s64: "ns + SIZEOF_STRUCT_MEM + 24 = ns + 64" by (simp add: SIZEOF_STRUCT_MEM_def)
  have "unat (ns + 64) = unat ns + 64" using unat_plus [of ns 64] le e by simp
  then have room: "unat ns + 64 < n - (unat ptr + 40)" using ns(4) n(2) unfolding s64 word_less_nat_alt by simp
  have lt: "n \<le> unat (heap_end h)" using hseg_mid(5) [OF seg] n(1) by simp
  have p40: "unat (ptr + SIZEOF_STRUCT_MEM) = unat ptr + 40" using unat_room(1) [of ptr "heap_end h"] room lt by simp
  then have u2: "unat x2 = unat ptr + 40 + unat ns"
    unfolding x2_def using unat_plus [of "ptr + SIZEOF_STRUCT_MEM" ns] room lt e(2) by simp
  have d: "unat (sz - ns) = n - unat x2" using room n(2) u2 by (simp add: unat_sub word_le_nat_alt)
  have d8: "8 dvd unat x2" unfolding u2 using ns(1) hseg_dvd [OF seg, of "(unat ptr, True)"] by (simp add: dvd_add)
  have "unat ptr + 48 \<le> unat x2" "unat x2 + 40 \<le> n" using u2 n8 room by simp_all
  from smem_shrink_ok [OF inv n(1) this d8 d] obtain h' bs' where h': "plug_holes x2 (let h2 = smem_split ptr x2 (h\<lparr>mem_used := mem_used h - (sz - ns)\<rparr>)
      in if x2 < lfree h2 then h2\<lparr>lfree := x2\<rparr> else h2) = Some h'" "heap_inv h' bs'"
    "allocated bs' (unat (heap_end h)) = insert (unat ptr, unat x2) (allocated (us @ (unat ptr, True) # vs) (unat (heap_end h)) - {(unat ptr, n)})"
    "same_heap h h'" "heap_bytes h' = heap_bytes h"
    by blast
  have r: "heap_ptr h + ptr + SIZEOF_STRUCT_MEM = heap_ptr h + of_nat (unat ptr + 40)" by (simp add: SIZEOF_STRUCT_MEM_def)
  show ?thesis
    using h' u2 unfolding moved_def x2_def [symmetric] r
    by (intro exI [of _ h'] exI [of _ bs'] exI [of _ "unat x2"]) simp
qed

text \<open>
  Where a block ends up, for a size that is already rounded: nowhere if the size is out of the question, at
  its old place if it keeps its size or can give back a block, otherwise in the first free block with room.
\<close>

definition realloc_place :: "(nat \<times> bool) list \<Rightarrow> (nat \<times> nat) \<Rightarrow> nat \<Rightarrow> rt_small_mem \<Rightarrow> nat option" where
  "realloc_place bs b ns h =
    (if unat (mem_size_aligned h) < ns then None
     else if ns = snd b - (fst b + 40) \<or> ns + 64 < snd b - (fst b + 40) then Some (fst b)
     else fit (max 24 ns) bs (unat (heap_end h)))"

lemma rt_smem_realloc_ok:
  assumes inv: "heap_inv h bs" and held: "(x, n) \<in> allocated bs (unat (heap_end h))"
    and ns: "unat newsize + 7 < 2 ^ 64" "8 dvd unat newsize" "newsize \<noteq> 0"
  shows "case realloc_place bs (x, n) (unat newsize) h of
      None \<Rightarrow> rt_smem_realloc (Some (heap_ptr h + of_nat (x + 40))) newsize who h = Some (None, h)
    | Some x' \<Rightarrow> moved bs (x, n) (unat newsize) h x' (rt_smem_realloc (Some (heap_ptr h + of_nat (x + 40))) newsize who h)"
proof -
  define e where "e = unat (heap_end h)"
  obtain us vs where bs: "bs = us @ (x, True) # vs" "n = start vs e" using held unfolding e_def by (rule allocated_mem)
  obtain q where seg: "hseg (items h) (sm_addr h) 0 0 bs q e" and lt: "unat (heap_ptr h) + e + 40 < 2 ^ 64"
    using heap_invD [OF inv] unfolding e_def by metis
  note m = hseg_mid [OF seg [unfolded bs(1)]]
  define ptr :: "64 word" where "ptr = of_nat x"
  have x: "unat ptr = x" unfolding ptr_def using m(8) lt by (intro unat_small) simp
  have inv': "heap_inv h (us @ (unat ptr, True) # vs)" using inv bs(1) x by simp
  have r: "heap_ptr h + of_nat (x + 40) = heap_ptr h + ptr + SIZEOF_STRUCT_MEM" by (simp add: ptr_def SIZEOF_STRUCT_MEM_def)
  define sz where "sz = it_next (item ptr h) - ptr - SIZEOF_STRUCT_MEM"
  have nx: "unat (it_next (item ptr h)) = n" using client_header(10) [OF inv'] bs(2) by (simp add: e_def)
  have "unat (it_next (item ptr h) - (ptr + SIZEOF_STRUCT_MEM)) = n - (x + 40)"
    using unat_room(2) [of ptr "it_next (item ptr h)"] nx x m(4) bs(2) by simp
  then have sz: "unat sz = n - (x + 40)" by (simp add: sz_def algebra_simps)
  note step = rt_smem_realloc_cases [OF inv' ns(1) RT_ALIGN_idem [OF ns(1,2)] ns(3), of who, folded sz_def, folded r]
  have e2: "e = unat (mem_size_aligned h) + 40" using heap_invD [OF inv] unfolding e_def by metis
  have small: "mem_size_aligned h < newsize \<longleftrightarrow> unat (mem_size_aligned h) < unat newsize" "sz = newsize \<longleftrightarrow> unat newsize = n - (x + 40)"
    using sz by (auto simp: word_less_nat_alt word_unat_eq_iff)
  have give: "newsize + SIZEOF_STRUCT_MEM + 24 < sz \<longleftrightarrow> unat newsize + 64 < n - (x + 40)" if "\<not> mem_size_aligned h < newsize"
  proof -
    have "newsize + SIZEOF_STRUCT_MEM + 24 = newsize + 64" by (simp add: SIZEOF_STRUCT_MEM_def)
    moreover have "unat newsize \<le> unat (mem_size_aligned h)" using that by (simp add: word_less_nat_alt)
    then have "unat newsize + 64 < 2 ^ 64" using lt e2 by linarith
    then have "unat (newsize + 64) = unat newsize + 64" using unat_plus [of newsize 64] by simp
    ultimately show ?thesis using sz by (simp only: word_less_nat_alt)
  qed
  have bsz: "block_size newsize = max 24 (unat newsize)" using ns(2) by (auto simp: block_size_def elim!: dvdE)
  consider "mem_size_aligned h < newsize" | "\<not> mem_size_aligned h < newsize" "sz = newsize"
    | "\<not> mem_size_aligned h < newsize" "sz \<noteq> newsize" "newsize + SIZEOF_STRUCT_MEM + 24 < sz"
    | "\<not> mem_size_aligned h < newsize" "sz \<noteq> newsize" "\<not> newsize + SIZEOF_STRUCT_MEM + 24 < sz" by blast
  then show ?thesis
  proof cases
    case 1
    then show ?thesis using step small by (simp add: realloc_place_def)
  next
    case 2
    then have "x + 40 + unat newsize = n" using sz m(4) bs(2) by simp
    moreover have "insert (x, n) (allocated bs e - {(x, n)}) = allocated bs e" using held by (auto simp: e_def)
    ultimately have "moved bs (x, n) (unat newsize) h x (Some (Some (heap_ptr h + of_nat (x + 40)), h))"
      using inv unfolding moved_def e_def
      by (intro exI [of _ h] exI [of _ bs] exI [of _ n]) (simp add: same_heap_def)
    then show ?thesis using step 2 small by (simp add: realloc_place_def)
  next
    case 3
    have "moved (us @ (unat ptr, True) # vs) (unat ptr, n) (unat newsize) h (unat ptr) (rt_smem_realloc (Some (heap_ptr h + of_nat (x + 40))) newsize who h)"
      using smem_shrink_moved [OF inv' _ _ ns(2,3) 3(1,3), of n] bs(2) sz step 3 x unfolding e_def r by simp
    then show ?thesis using bs(1) x 3 small give by (simp add: realloc_place_def)
  next
    case 4
    then have place: "realloc_place bs (x, n) (unat newsize) h = fit (block_size newsize) bs e"
      using small give by (simp add: realloc_place_def bsz e_def)
    show ?thesis
    proof (cases "fit (block_size newsize) bs e")
      case None
      then have "rt_smem_alloc newsize who h = Some (None, h)" using rt_smem_alloc_none [OF inv ns(1)] by (simp add: e_def)
      then show ?thesis using step 4 place None by simp
    next
      case (Some y)
      then have "fit (block_size newsize) bs (unat (heap_end h)) = Some y" by (simp add: e_def)
      from smem_grow_ok [OF inv held ns(3,1,2) sz this, of who] show ?thesis using step 4 place Some by simp
    qed
  qed
qed

lemma RT_ALIGN_mod: "unat (RT_ALIGN w 8) = (unat w + 7) mod 2 ^ 64 div 8 * 8" for w :: "64 word"
proof -
  have "unat (w + 7) = (unat w + 7) mod 2 ^ 64" by (simp add: unat_word_ariths)
  moreover have "w + 8 - 1 = w + 7" by simp
  ultimately show ?thesis unfolding RT_ALIGN_def using round_down_8 [of "w + 7"] by (simp only:)
qed

lemma round_room: "k mod 2 ^ 64 div 8 * 8 + 7 < (2 :: nat) ^ 64"
proof -
  have "k mod 2 ^ 64 < (2 :: nat) ^ 61 * 8" by simp
  then have "k mod 2 ^ 64 div 8 < (2 :: nat) ^ 61" by (rule less_mult_imp_div_less)
  then show ?thesis by simp
qed

lemma rt_smem_realloc_rounds:
  "rt_smem_realloc rmem (RT_ALIGN newsize 8) who h = rt_smem_realloc rmem newsize who h"
proof -
  have "(unat newsize + 7) mod 2 ^ 64 div 8 * 8 + 7 < 2 ^ 64" by (rule round_room)
  then have "RT_ALIGN (RT_ALIGN newsize 8) 8 = RT_ALIGN newsize 8" by (intro RT_ALIGN_idem) (simp_all add: RT_ALIGN_mod)
  then show ?thesis by (simp add: rt_smem_realloc_def)
qed

section \<open>The interface of an allocator\<close>

text \<open>
  A client of the heap asks for memory and gives back what it holds; \<open>live\<close> lists the addresses
  it holds.
\<close>

datatype 'n request = Get 'n | Put_back nat

fun run_client :: "('n \<Rightarrow> 'h \<Rightarrow> ('p option \<times> 'h) option) \<Rightarrow> ('p option \<Rightarrow> 'h \<Rightarrow> 'h option) \<Rightarrow> 'n request list \<Rightarrow> 'p list \<times> 'h \<Rightarrow> ('p list \<times> 'h) option" where
  "run_client alloc free [] (live, h) = Some (live, h)"
| "run_client alloc free (Get n # rs) (live, h) = do {
     (p, h1) \<leftarrow> alloc n h;
     run_client alloc free rs ((case p of None \<Rightarrow> live | Some a \<Rightarrow> a # live), h1)
   }"
| "run_client alloc free (Put_back i # rs) (live, h) =
    (if i < length live
     then do {
       h1 \<leftarrow> free (Some (live ! i)) h;
       run_client alloc free rs (take i live @ drop (Suc i) live, h1)
     }
     else run_client alloc free rs (live, h))"

definition apart :: "(nat \<times> nat) set \<Rightarrow> bool" where
  "apart A \<longleftrightarrow> (\<forall>a b c d. (a, b) \<in> A \<longrightarrow> (c, d) \<in> A \<longrightarrow> (a, b) \<noteq> (c, d) \<longrightarrow> b \<le> c \<or> d \<le> a) \<and> (\<forall>a b. (a, b) \<in> A \<longrightarrow> a < b)"

text \<open>\<open>holds h A\<close>: the heap \<open>h\<close> has lent the address ranges \<open>A\<close>.\<close>

locale allocator =
  fixes holds :: "'h \<Rightarrow> (nat \<times> nat) set \<Rightarrow> bool"
    and alloc :: "'n \<Rightarrow> 'h \<Rightarrow> ('p option \<times> 'h) option"
    and free :: "'p option \<Rightarrow> 'h \<Rightarrow> 'h option"
    and addr :: "'p \<Rightarrow> nat"
    and request_ok :: "'n \<Rightarrow> bool"
  assumes addr_inj: "addr p = addr r \<Longrightarrow> p = r"
    and alloc_law: "holds h A \<Longrightarrow> request_ok n \<Longrightarrow>
      (\<exists>h'. alloc n h = Some (None, h') \<and> holds h' A) \<or> (\<exists>p h' z. alloc n h = Some (Some p, h') \<and> holds h' (insert (addr p, z) A) \<and> addr p < z \<and>
        (\<forall>a b. (a, b) \<in> A \<longrightarrow> b \<le> addr p \<or> z \<le> a))"
    and free_law: "holds h A \<Longrightarrow> (addr p, z) \<in> A \<Longrightarrow> \<exists>h'. free (Some p) h = Some h' \<and> holds h' (A - {(addr p, z)})"
begin

lemma apart_insert:
  assumes "apart A" "a < z" "\<And>c d. (c, d) \<in> A \<Longrightarrow> d \<le> a \<or> z \<le> c"
  shows "apart (insert (a, z) A)"
  using assms unfolding apart_def by blast

lemma apart_remove: "apart A \<Longrightarrow> apart (A - B)"
  by (auto simp: apart_def)

lemma apart_fst: "apart A \<Longrightarrow> (a, b) \<in> A \<Longrightarrow> (a, d) \<in> A \<Longrightarrow> b = d"
  unfolding apart_def by (metis leD prod.inject)

lemma apart_remove_fst:
  assumes "apart A" "(a, z) \<in> A"
  shows "fst ` (A - {(a, z)}) = fst ` A - {a}"
proof -
  have "c \<noteq> a" if "(c, d) \<in> A" "(c, d) \<noteq> (a, z)" for c d
    using apart_fst [OF assms(1), of a z d] assms(2) that by auto
  then show ?thesis by force
qed

lemma live_remove:
  assumes "i < length live" "distinct live"
  shows "set (take i live @ drop (Suc i) live) = set live - {live ! i}" "distinct (take i live @ drop (Suc i) live)"
proof -
  have "live = take i live @ live ! i # drop (Suc i) live" using assms(1) by (rule id_take_nth_drop)
  then obtain xs ys where l: "live = xs @ live ! i # ys" "take i live = xs" "drop (Suc i) live = ys" by blast
  have "distinct (xs @ live ! i # ys)" using assms(2) l(1) by simp
  then show "distinct (take i live @ drop (Suc i) live)" unfolding l(2,3) by simp
  have "set live = insert (live ! i) (set xs \<union> set ys)" using arg_cong [OF l(1), of set] by simp
  then show "set (take i live @ drop (Suc i) live) = set live - {live ! i}"
    unfolding l(2,3) using \<open>distinct (xs @ live ! i # ys)\<close> by auto
qed

lemma client_safe:
  assumes "holds h A" "apart A" "distinct live" "addr ` set live = fst ` A" "\<And>n. Get n \<in> set rs \<Longrightarrow> request_ok n"
  shows "\<exists>live' h' A'. run_client alloc free rs (live, h) = Some (live', h') \<and> holds h' A' \<and> apart A' \<and> distinct live' \<and> addr ` set live' = fst ` A'"
  using assms
proof (induction rs arbitrary: live h A)
  case (Cons r rs)
  note ih = Cons.IH [OF _ _ _ _ Cons.prems(5)]
  show ?case
  proof (cases r)
    case (Get n)
    have "request_ok n" using Cons.prems(5) Get by simp
    from alloc_law [OF Cons.prems(1) this] show ?thesis
    proof (elim disjE exE conjE)
      fix h' assume "alloc n h = Some (None, h')" "holds h' A"
      then show ?thesis using ih [of h' A live] Cons.prems Get by simp
    next
      fix p h' z assume r: "alloc n h = Some (Some p, h')" "holds h' (insert (addr p, z) A)" "addr p < z"
        "\<forall>a b. (a, b) \<in> A \<longrightarrow> b \<le> addr p \<or> z \<le> a"
      have "addr p \<notin> fst ` A" using r(3,4) Cons.prems(2) unfolding apart_def by fastforce
      then have "p \<notin> set live" using Cons.prems(4) by blast
      then show ?thesis
        using ih [OF r(2) apart_insert [OF Cons.prems(2) r(3)], of "p # live"] r(1,4) Cons.prems(3,4) Get by auto
    qed
  next
    case (Put_back i)
    show ?thesis
    proof (cases "i < length live")
      case True
      then have "addr (live ! i) \<in> fst ` A" using Cons.prems(4) nth_mem by blast
      then obtain z where z: "(addr (live ! i), z) \<in> A" by auto
      obtain h' where h': "free (Some (live ! i)) h = Some h'" "holds h' (A - {(addr (live ! i), z)})"
        using free_law [OF Cons.prems(1) z] by blast
      have "addr ` (set live - {live ! i}) = addr ` set live - {addr (live ! i)}" using addr_inj by auto
      also have "\<dots> = fst ` (A - {(addr (live ! i), z)})" unfolding Cons.prems(4) using apart_remove_fst [OF Cons.prems(2) z] by simp
      finally have "addr ` set (take i live @ drop (Suc i) live) = fst ` (A - {(addr (live ! i), z)})"
        unfolding live_remove(1) [OF True Cons.prems(3)] .
      then show ?thesis
        using ih [OF h'(2) apart_remove [OF Cons.prems(2)] live_remove(2) [OF True Cons.prems(3)]] h'(1) True Put_back by simp
    qed (use ih [of h A live] Cons.prems Put_back in simp)
  qed
qed auto

end

text \<open>The address ranges that the heap at \<open>lo\<close> with \<open>hi\<close> bytes has lent.\<close>

definition smem_holds :: "64 word \<Rightarrow> 64 word \<Rightarrow> rt_small_mem \<Rightarrow> (nat \<times> nat) set \<Rightarrow> bool" where
  "smem_holds lo hi h A \<longleftrightarrow> heap_ptr h = lo \<and> heap_end h = hi \<and>
     (\<exists>bs. heap_inv h bs \<and> A = (\<lambda>(x, n). (unat lo + x + 40, unat lo + n)) ` allocated bs (unat hi))"

lemma unat_client:
  assumes "heap_inv h bs" "x + 40 \<le> unat (heap_end h)"
  shows "unat (heap_ptr h + of_nat (x + 40)) = unat (heap_ptr h) + x + 40"
proof -
  have lt: "unat (heap_ptr h) + unat (heap_end h) + 40 < 2 ^ 64" using heap_invD [OF assms(1)] by metis
  then have "unat (of_nat (x + 40) :: 64 word) = x + 40" using assms(2) by (intro unat_small) simp
  then show ?thesis using unat_plus [of "heap_ptr h" "of_nat (x + 40)"] lt assms(2) by simp
qed

lemma smem_alloc_law:
  assumes holds: "smem_holds lo hi h A" and size: "unat size0 + 7 < 2 ^ 64"
  shows "rt_smem_alloc size0 who h = Some (None, h) \<or>
    (\<exists>p h' z. rt_smem_alloc size0 who h = Some (Some p, h') \<and> smem_holds lo hi h' (insert (unat p, z) A) \<and> unat p < z \<and>
      (\<forall>a b. (a, b) \<in> A \<longrightarrow> b \<le> unat p \<or> z \<le> a))"
proof -
  obtain bs where inv: "heap_inv h bs" and A: "A = (\<lambda>(x, n). (unat lo + x + 40, unat lo + n)) ` allocated bs (unat hi)"
    and lh: "heap_ptr h = lo" "heap_end h = hi" using holds unfolding smem_holds_def by blast
  obtain q where seg: "hseg (items h) (sm_addr h) 0 0 bs q (unat hi)" using heap_invD [OF inv] lh by metis
  consider "size0 = 0" | "fit (block_size size0) bs (unat hi) = None" | x where "size0 \<noteq> 0" "fit (block_size size0) bs (unat hi) = Some x"
    by fastforce
  then show ?thesis
  proof cases
    case 3
    obtain h' where h': "rt_smem_alloc size0 who h = Some (Some (lo + of_nat (x + 40)), h')"
      "heap_inv h' (carve_at x (block_size size0) bs (unat hi))" "same_heap h h'"
      using rt_smem_alloc_found [OF inv 3(1) size, of x who] 3(2) lh by blast
    obtain n where n: "allocated (carve_at x (block_size size0) bs (unat hi)) (unat hi) = insert (x, n) (allocated bs (unat hi))"
      "x + 40 + block_size size0 \<le> n" "n \<le> unat hi" "\<And>c d. (c, d) \<in> allocated bs (unat hi) \<Longrightarrow> d \<le> x \<or> n \<le> c"
      using carve_at_alloc [OF seg 3(2)] by auto
    have p: "unat (lo + of_nat (x + 40)) = unat lo + x + 40" using unat_client [OF inv, of x] lh n(2,3) by simp
    have "smem_holds lo hi h' (insert (unat lo + x + 40, unat lo + n) A)"
      unfolding smem_holds_def A using h'(2,3) n(1) lh
      by (simp add: same_heap_def) (intro exI [of _ "carve_at x (block_size size0) bs (unat hi)"], simp)
    moreover have "b \<le> unat lo + x + 40 \<or> unat lo + n \<le> a" if "(a, b) \<in> A" for a b
      using that n(4) unfolding A by force
    moreover have "unat lo + x + 40 < unat lo + n" using n(2) by (simp add: block_size_def)
    ultimately show ?thesis using h'(1) p
      by (intro disjI2 exI [of _ "lo + of_nat (x + 40)"] exI [of _ h'] exI [of _ "unat lo + n"]) simp
  qed (use rt_smem_alloc_none [OF inv size] lh in \<open>simp_all add: rt_smem_alloc_def\<close>)
qed

lemma smem_free_law:
  assumes holds: "smem_holds lo hi h A" and held: "(unat p, z) \<in> A"
  shows "\<exists>h'. rt_smem_free (Some p) h = Some h' \<and> smem_holds lo hi h' (A - {(unat p, z)})"
proof -
  obtain bs where inv: "heap_inv h bs" and A: "A = (\<lambda>(x, n). (unat lo + x + 40, unat lo + n)) ` allocated bs (unat hi)"
    and lh: "heap_ptr h = lo" "heap_end h = hi" using holds unfolding smem_holds_def by blast
  obtain x n where x: "(x, n) \<in> allocated bs (unat hi)" "unat p = unat lo + x + 40" "z = unat lo + n" using held A by auto
  obtain q where seg: "hseg (items h) (sm_addr h) 0 0 bs q (unat hi)" using heap_invD [OF inv] lh by metis
  have "x + 40 \<le> unat (heap_end h)" using allocated_bounds [OF seg x(1)] lh by simp
  then have "p = lo + of_nat (x + 40)" using unat_client [OF inv] lh x(2) by (simp add: word_unat_eq_iff)
  moreover obtain h' bs' where h': "rt_smem_free (Some (lo + of_nat (x + 40))) h = Some h'" "heap_inv h' bs'" "same_heap h h'"
    "allocated bs' (unat hi) = allocated bs (unat hi) - {(x, n)}"
    using rt_smem_free_ok [OF inv, of x n] x(1) lh by auto
  moreover have "A - {(unat p, z)} = (\<lambda>(x, n). (unat lo + x + 40, unat lo + n)) ` allocated bs' (unat hi)"
    unfolding A h'(4) x(2,3) by auto
  ultimately show ?thesis using lh unfolding smem_holds_def by (auto simp: same_heap_def)
qed

interpretation heap: allocator "smem_holds lo hi" "\<lambda>(s, who). rt_smem_alloc s who" rt_smem_free unat "\<lambda>(s, who). unat s + 7 < 2 ^ 64" for lo hi
proof
  show "unat p = unat r \<Longrightarrow> p = r" for p r :: "64 word" by (simp add: word_unat_eq_iff)
next
  fix h A and n :: "64 word \<times> string option"
  assume "smem_holds lo hi h A" "case n of (s, who) \<Rightarrow> unat s + 7 < 2 ^ 64"
  then show "(\<exists>h'. (case n of (s, who) \<Rightarrow> rt_smem_alloc s who) h = Some (None, h') \<and> smem_holds lo hi h' A) \<or>
      (\<exists>p h' z. (case n of (s, who) \<Rightarrow> rt_smem_alloc s who) h = Some (Some p, h') \<and> smem_holds lo hi h' (insert (unat p, z) A) \<and> unat p < z \<and>
        (\<forall>a b. (a, b) \<in> A \<longrightarrow> b \<le> unat p \<or> z \<le> a))"
    using smem_alloc_law [of lo hi h A "fst n" "snd n"] by (cases n) fastforce
next
  fix h A z and p :: "64 word"
  assume "smem_holds lo hi h A" "(unat p, z) \<in> A"
  then show "\<exists>h'. rt_smem_free (Some p) h = Some h' \<and> smem_holds lo hi h' (A - {(unat p, z)})" by (rule smem_free_law)
qed

lemma smem_holds_range: "smem_holds lo hi h A \<Longrightarrow> (a, b) \<in> A \<Longrightarrow> unat lo < a \<and> b \<le> unat lo + unat hi"
proof -
  assume "smem_holds lo hi h A" "(a, b) \<in> A"
  then obtain bs x n where b: "heap_inv h bs" "heap_end h = hi" "(x, n) \<in> allocated bs (unat hi)" "a = unat lo + x + 40" "b = unat lo + n"
    unfolding smem_holds_def by auto
  obtain q where "hseg (items h) (sm_addr h) 0 0 bs q (unat hi)" using heap_invD [OF b(1)] b(2) by metis
  from allocated_bounds [OF this b(3)] show ?thesis using b(4,5) by simp
qed

definition sample_heap :: rt_small_mem where
  "sample_heap = the (rt_smem_init (\<lambda>_. \<lparr>pool_ptr = 0, it_next = 0, it_prev = 0, it_thread = ''''\<rparr>, \<lambda>_. 0) 0x40000000 4096)"

lemma sample_heap_inv: "heap_inv sample_heap [(0, False)]" "unat (heap_end sample_heap) = 3936"
proof -
  obtain h where "rt_smem_init (\<lambda>_. \<lparr>pool_ptr = 0, it_next = 0, it_prev = 0, it_thread = ''''\<rparr>, \<lambda>_. 0) 0x40000000 4096 = Some h" "heap_inv h [(0, False)]"
    using rt_smem_init_ok [of "0x40000000" 4096 "(\<lambda>_. \<lparr>pool_ptr = 0, it_next = 0, it_prev = 0, it_thread = ''''\<rparr>, \<lambda>_. 0)"] by auto
  then show "heap_inv sample_heap [(0, False)]" by (simp add: sample_heap_def)
  show "unat (heap_end sample_heap) = 3936"
    by (simp add: sample_heap_def rt_smem_init_def Let_def RT_ALIGN_def SIZEOF_SMALL_MEM_def SIZEOF_STRUCT_MEM_def item_def items_upd_item)
qed

section \<open>Properties\<close>

text \<open>
  C34: \<^verbatim>\<open>rt_smem_alloc\<close> is first fit.  The request is rounded up to a multiple of 8 and at least 24
  bytes.  If no free block has room, the result is the null pointer and the heap is as before.
  Otherwise the lowest free block with room is used: the result is its data address, aligned to 8
  bytes inside the heap; the new allocated block has room for the request with less than 64 bytes
  lost and shares no byte with the other allocated blocks, which stay allocated; the heap satisfies
  its invariant again (the list is linked both ways, no two free blocks are neighbours, \<^verbatim>\<open>lfree\<close> is
  the lowest free block, \<^verbatim>\<open>used\<close> is the sum of the allocated blocks) and no byte of data changed.
\<close>

theorem smem_alloc_first_fit:
  assumes inv: "heap_inv h bs" and size: "size0 \<noteq> 0" "unat size0 + 7 < 2 ^ 64"
  shows "case fit (block_size size0) bs (unat (heap_end h)) of
      None \<Rightarrow> rt_smem_alloc size0 who h = Some (None, h)
    | Some x \<Rightarrow> (\<exists>h' bs' n. rt_smem_alloc size0 who h = Some (Some (heap_ptr h + of_nat (x + 40)), h') \<and> heap_inv h' bs' \<and>
        same_heap h h' \<and> heap_bytes h' = heap_bytes h \<and>
        allocated bs' (unat (heap_end h)) = insert (x, n) (allocated bs (unat (heap_end h))) \<and>
        x + 40 + block_size size0 \<le> n \<and> n < x + 40 + block_size size0 + 64 \<and> n \<le> unat (heap_end h) \<and> 8 dvd x \<and>
        (\<forall>c d. (c, d) \<in> allocated bs (unat (heap_end h)) \<longrightarrow> d \<le> x \<or> n \<le> c))"
proof (cases "fit (block_size size0) bs (unat (heap_end h))")
  case None
  then show ?thesis using rt_smem_alloc_none [OF inv size(2)] by simp
next
  case (Some x)
  obtain q where seg: "hseg (items h) (sm_addr h) 0 0 bs q (unat (heap_end h))" using heap_invD [OF inv] by metis
  show ?thesis
    using carve_at_alloc [OF seg Some] rt_smem_alloc_found [OF inv size Some, of who] unfolding Some option.case by simp blast
qed

theorem smem_alloc_first_fit_witness:
  "\<exists>h' bs' n. rt_smem_alloc 100 None sample_heap = Some (Some (heap_ptr sample_heap + of_nat (0 + 40)), h') \<and> heap_inv h' bs' \<and>
     allocated bs' 3936 = {(0, n)} \<and> 144 \<le> n \<and> n < 208"
  using smem_alloc_first_fit [OF sample_heap_inv(1), of 100 None] sample_heap_inv(2) by (auto simp: block_size_def allocated_def)

text \<open>
  C35: \<^verbatim>\<open>rt_smem_realloc\<close> of a block the client holds, for every size, which is rounded up to a multiple of 8 in
  64-bit arithmetic.  Rounded size 0 frees the block and gives the null pointer.  A size
  above that of the heap gives the null pointer and leaves the heap alone.  If the block has the size already, or would have more than 64 bytes to
  spare, it stays in its place; otherwise it goes to the first free block with room, and only when there is none the result is the null
  pointer with the heap left alone.  In the two cases of success the block has room for the new size and starts with the old data as far as both sizes go, the
  other allocated blocks keep their place and their data, and the heap satisfies its invariant again.  No assertion fails on the way.
\<close>

theorem smem_realloc_moves:
  fixes newsize :: "64 word" and who :: "string option"
  assumes inv: "heap_inv h bs" and held: "(x, n) \<in> allocated bs (unat (heap_end h))"
  defines "R \<equiv> (unat newsize + 7) mod 2 ^ 64 div 8 * 8" and "res \<equiv> rt_smem_realloc (Some (heap_ptr h + of_nat (x + 40))) newsize who h"
  shows "if R = 0 then \<exists>h' bs'. res = Some (None, h') \<and> heap_inv h' bs' \<and> same_heap h h' \<and> heap_bytes h' = heap_bytes h \<and>
       allocated bs' (unat (heap_end h)) = allocated bs (unat (heap_end h)) - {(x, n)}
    else case (if unat (mem_size_aligned h) < R then None
               else if R = n - (x + 40) \<or> R + 64 < n - (x + 40) then Some x
               else fit (max 24 R) bs (unat (heap_end h))) of
      None \<Rightarrow> res = Some (None, h)
    | Some x' \<Rightarrow> \<exists>h' bs' n'. res = Some (Some (heap_ptr h + of_nat (x' + 40)), h') \<and>
       heap_inv h' bs' \<and> same_heap h h' \<and> x' + 40 + R \<le> n' \<and>
       allocated bs' (unat (heap_end h)) = insert (x', n') (allocated bs (unat (heap_end h)) - {(x, n)}) \<and>
       (\<forall>i < min R (n - (x + 40)). heap_bytes h' (x' + 40 + i) = heap_bytes h (x + 40 + i)) \<and>
       (\<forall>c d i. (c, d) \<in> allocated bs (unat (heap_end h)) \<longrightarrow> (c, d) \<noteq> (x, n) \<longrightarrow> c + 40 \<le> i \<longrightarrow> i < d \<longrightarrow> heap_bytes h' i = heap_bytes h i)"
proof (cases "R = 0")
  case True
  then have z: "RT_ALIGN newsize 8 = 0" using RT_ALIGN_mod [of newsize] by (simp add: R_def unat_eq_zero)
  have "smem_object_ok h" using heap_invD [OF inv] by metis
  moreover have "\<not> mem_size_aligned h < 0" by simp
  ultimately have "res = do { h1 \<leftarrow> rt_smem_free (Some (heap_ptr h + of_nat (x + 40))) h; Some (None, h1) }"
    unfolding res_def rt_smem_realloc_def z Let_def by simp
  then show ?thesis using True rt_smem_free_ok [OF inv held] by auto
next
  case False
  let ?w = "RT_ALIGN newsize 8"
  have R: "unat ?w = R" by (simp add: RT_ALIGN_mod R_def)
  have "unat ?w + 7 < 2 ^ 64" unfolding R R_def by (rule round_room)
  moreover have "8 dvd unat ?w" unfolding R R_def by simp
  moreover have "?w \<noteq> 0" using False R by (metis unat_0)
  ultimately have "case realloc_place bs (x, n) R h of None \<Rightarrow> res = Some (None, h) | Some x' \<Rightarrow> moved bs (x, n) R h x' res"
    using rt_smem_realloc_ok [OF inv held, of ?w who] unfolding R rt_smem_realloc_rounds res_def by blast
  then show ?thesis using False unfolding realloc_place_def moved_def fst_conv snd_conv by simp
qed

theorem smem_realloc_moves_witness:
  "\<exists>h. rt_smem_alloc 100 None sample_heap = Some (Some (heap_ptr sample_heap + of_nat (0 + 40)), h) \<and>
     (\<exists>h' bs'. rt_smem_realloc (Some (heap_ptr h + of_nat (0 + 40))) 197 None h = Some (Some (heap_ptr h + of_nat (144 + 40)), h') \<and>
        heap_inv h' bs' \<and> (\<forall>i < 104. heap_bytes h' (144 + 40 + i) = heap_bytes h (40 + i))) \<and>
     (\<exists>h'. rt_smem_realloc (Some (heap_ptr h + of_nat (0 + 40))) 5 None h = Some (Some (heap_ptr h + of_nat (0 + 40)), h'))"
proof -
  have f: "fit (block_size 100) [(0, False)] (unat (heap_end sample_heap)) = Some 0" using sample_heap_inv(2) by (simp add: block_size_def)
  obtain h where h: "rt_smem_alloc 100 None sample_heap = Some (Some (heap_ptr sample_heap + of_nat (0 + 40)), h)"
    "heap_inv h (carve_at 0 (block_size 100) [(0, False)] 3936)" "same_heap sample_heap h"
    using rt_smem_alloc_found [OF sample_heap_inv(1) _ _ f, of None] sample_heap_inv(2) by auto
  have c: "carve_at 0 (block_size 100) [(0, False)] 3936 = [(0, True), (144, False)]" by (simp add: block_size_def carved_def)
  have e: "unat (heap_end h) = 3936" using h(3) sample_heap_inv(2) by (simp add: same_heap_def)
  moreover have "unat (heap_end h) = unat (mem_size_aligned h) + 40" using heap_invD [OF h(2)] by metis
  ultimately have m: "unat (mem_size_aligned h) = 3896" by simp
  have a: "(0, 144) \<in> allocated [(0, True), (144, False)] (unat (heap_end h))" by (simp add: allocated_def)
  note w = smem_realloc_moves [OF h(2) [unfolded c] a]
  show ?thesis using h(1) w [of 197 None] w [of 5 None] e m by (intro exI [of _ h]) auto
qed

text \<open>
  C36: a heap created by \<^verbatim>\<open>rt_smem_init\<close> is safe for its clients.  For every memory of at least 214
  bytes and every sequence of requests, each an allocation or the release of an address the client
  holds, all calls return (no assertion fails and every loop ends); afterwards the addresses that the
  client holds are the starts of ranges that do not overlap and that lie inside the given memory.
\<close>

theorem smem_client_safe:
  fixes begin_addr sz :: "64 word"
  assumes "begin_addr \<noteq> 0" "unat begin_addr + unat sz < 2 ^ 64" "214 \<le> unat sz"
    and "\<And>s who. Get (s, who) \<in> set rs \<Longrightarrow> unat s + 7 < 2 ^ 64"
  shows "\<exists>h live h' A. rt_smem_init mem begin_addr sz = Some h \<and>
    run_client (\<lambda>(s, who). rt_smem_alloc s who) rt_smem_free rs ([], h) = Some (live, h') \<and>
    smem_holds (heap_ptr h) (heap_end h) h' A \<and> distinct live \<and> unat ` set live = fst ` A \<and> apart A \<and>
    (\<forall>a b. (a, b) \<in> A \<longrightarrow> unat begin_addr < a \<and> b \<le> unat begin_addr + unat sz)"
proof -
  obtain h where h: "rt_smem_init mem begin_addr sz = Some h" "heap_inv h [(0, False)]" "unat begin_addr + 120 \<le> unat (heap_ptr h)"
    "unat (heap_ptr h) + unat (heap_end h) + 40 \<le> unat begin_addr + unat sz"
    using rt_smem_init_ok [OF assms(1-3), of mem] by blast
  have "smem_holds (heap_ptr h) (heap_end h) h {}"
    unfolding smem_holds_def using h(2) by (auto simp: allocated_def)
  then have "\<exists>live' h' A'. run_client (\<lambda>(s, who). rt_smem_alloc s who) rt_smem_free rs ([], h) = Some (live', h') \<and>
      smem_holds (heap_ptr h) (heap_end h) h' A' \<and> apart A' \<and> distinct live' \<and> unat ` set live' = fst ` A'"
    using assms(4) by (intro heap.client_safe [where A = "{}"]) (auto simp: apart_def)
  then obtain live h' A where r: "run_client (\<lambda>(s, who). rt_smem_alloc s who) rt_smem_free rs ([], h) = Some (live, h')"
    "smem_holds (heap_ptr h) (heap_end h) h' A" "apart A" "distinct live" "unat ` set live = fst ` A" by blast
  have "unat begin_addr < a \<and> b \<le> unat begin_addr + unat sz" if "(a, b) \<in> A" for a b
    using smem_holds_range [OF r(2) that] h(3,4) by simp
  then show ?thesis using h(1) r by blast
qed

theorem smem_client_safe_witness:
  "\<exists>h live h' A. rt_smem_init (\<lambda>_. \<lparr>pool_ptr = 0, it_next = 0, it_prev = 0, it_thread = ''''\<rparr>, \<lambda>_. 0) 0x40000000 4096 = Some h \<and>
     run_client (\<lambda>(s, who). rt_smem_alloc s who) rt_smem_free [Get (100, None), Get (5000, None), Get (16, None), Put_back 0] ([], h) = Some (live, h') \<and>
     smem_holds (heap_ptr h) (heap_end h) h' A \<and> unat ` set live = fst ` A \<and> apart A"
  using smem_client_safe [of "0x40000000" 4096 "[Get (100, None), Get (5000, None), Get (16, None), Put_back 0]"
      "(\<lambda>_. \<lparr>pool_ptr = 0, it_next = 0, it_prev = 0, it_thread = ''''\<rparr>, \<lambda>_. 0)"] by fastforce

end
