(* ===== verification/Mempool.thy ===== *)
theory Mempool
  imports Channel SmallMem
begin

text \<open>
  Memory pools, \<^verbatim>\<open>src/mempool.c\<close>: blocks of one size carved out of a piece of memory, each behind one
  header word.  The header of a free block holds the address of the next free block, the header of a
  lent block the address of the control block of its pool, which \<^verbatim>\<open>rt_mp_free\<close> reads back.  The
  memory is a map from the addresses of header words to such pointers; reading one kind of pointer
  as the other ends the model (\<open>None\<close>).  The hooks are left out.
\<close>

section \<open>State\<close>

datatype mp_ptr = Block "64 word" | Pool nat

record rt_mempool =
  start_address :: "64 word"
  mp_size :: "64 word"
  mp_block_size :: "64 word"
  block_list :: "64 word"
  block_total_count :: "64 word"
  block_free_count :: "64 word"

record mp_state =
  mps :: "nat \<Rightarrow> rt_mempool"
  mp_mem :: "64 word \<Rightarrow> mp_ptr"

type_synonym mp_sys = "mp_state \<times> kernel"

definition put_mp :: "nat \<Rightarrow> rt_mempool \<Rightarrow> mp_state \<Rightarrow> mp_state" where
  "put_mp n mp M = M\<lparr>mps := (mps M)(n := mp)\<rparr>"

definition mp_store :: "64 word \<Rightarrow> mp_ptr \<Rightarrow> mp_state \<Rightarrow> mp_state" where
  "mp_store a p M = M\<lparr>mp_mem := (mp_mem M)(a := p)\<rparr>"

section \<open>Operations\<close>

text \<open>The loop that links the blocks: the state after its first \<open>k\<close> rounds.\<close>

primrec mp_link_loop :: "64 word \<Rightarrow> 64 word \<Rightarrow> nat \<Rightarrow> mp_state \<Rightarrow> mp_state" where
  "mp_link_loop block_ptr stride 0 M = M"
| "mp_link_loop block_ptr stride (Suc k) M =
    mp_store (block_ptr + of_nat k * stride) (Block (block_ptr + (of_nat k + 1) * stride))
      (mp_link_loop block_ptr stride k M)"

definition mp_format :: "nat \<Rightarrow> mp_state \<Rightarrow> mp_state" where
  "mp_format n M =
    (let mp = mps M n; stride = mp_block_size mp + 8;
         M1 = mp_link_loop (start_address mp) stride (unat (block_total_count mp)) M;
         M2 = mp_store (start_address mp + (block_total_count mp - 1) * stride) (Block 0) M1
     in put_mp n (mp\<lparr>block_list := start_address mp\<rparr>) M2)"

definition rt_mp_init :: "nat \<Rightarrow> string \<Rightarrow> 64 word \<Rightarrow> 64 word \<Rightarrow> 64 word \<Rightarrow> mp_sys \<Rightarrow> (err \<times> mp_sys) option" where
  "rt_mp_init n name base sz bsize = (\<lambda>(M, s). do {
     rt_assert (base \<noteq> 0);
     rt_assert (0 < sz \<and> 0 < bsize);
     s1 \<leftarrow> rt_object_init (OMempool n) RT_Object_Class_MemPool name s;
     let mp_sz = sz AND NOT (8 - 1);
     let bs = RT_ALIGN bsize 8;
     let total = mp_sz div (bs + 8);
     let mp = (mps M n)\<lparr>start_address := base, mp_size := mp_sz, mp_block_size := bs,
                block_total_count := total, block_free_count := total\<rparr>;
     Some (RT_EOK, mp_format n (put_mp n mp M), ipc_object_init (MpWait n) s1)
   })"

definition rt_mp_detach :: "nat \<Rightarrow> mp_sys \<Rightarrow> (err \<times> mp_sys) option" where
  "rt_mp_detach n = (\<lambda>(M, s). do {
     rt_assert (rt_object_get_type (OMempool n) s = RT_Object_Class_MemPool);
     rt_assert (rt_object_is_systemobject (OMempool n) s);
     s1 \<leftarrow> ipc_list_resume_all (MpWait n) s;
     Some (RT_EOK, M, rt_object_detach (OMempool n) s1)
   })"

text \<open>\<open>mem\<close> and \<open>room\<close> are what the object allocation and \<^verbatim>\<open>rt_malloc\<close> give.\<close>

definition rt_mp_create ::
    "nat option \<Rightarrow> 64 word option \<Rightarrow> string \<Rightarrow> 64 word \<Rightarrow> 64 word \<Rightarrow> mp_sys \<Rightarrow> (nat option \<times> mp_sys) option" where
  "rt_mp_create mem room name cnt bsize = (\<lambda>(M, s). do {
     rt_assert (0 < cnt \<and> 0 < bsize);
     (_, s1) \<leftarrow> rt_object_allocate (map_option OMempool mem) RT_Object_Class_MemPool name s;
     case mem of
       None \<Rightarrow> Some (None, M, s1)
     | Some n \<Rightarrow> do {
         let bs = RT_ALIGN bsize 8;
         let mp = (mps M n)\<lparr>mp_block_size := bs, mp_size := (bs + 8) * cnt\<rparr>;
         case room of
           None \<Rightarrow> do {
             s2 \<leftarrow> rt_object_delete (OMempool n) s1;
             Some (None, put_mp n (mp\<lparr>start_address := 0\<rparr>) M, s2)
           }
         | Some base \<Rightarrow> do {
             let mp1 = mp\<lparr>start_address := base, block_total_count := cnt, block_free_count := cnt\<rparr>;
             Some (Some n, mp_format n (put_mp n mp1 M), ipc_object_init (MpWait n) s1)
           }
       }
   })"

text \<open>\<open>release\<close> is \<^verbatim>\<open>rt_free\<close>, which gives the memory of the pool back.\<close>

definition rt_mp_delete :: "(64 word \<Rightarrow> mp_sys \<Rightarrow> mp_sys option) \<Rightarrow> nat \<Rightarrow> mp_sys \<Rightarrow> (err \<times> mp_sys) option" where
  "rt_mp_delete release n = (\<lambda>(M, s). do {
     rt_assert (rt_object_get_type (OMempool n) s = RT_Object_Class_MemPool);
     rt_assert (\<not> rt_object_is_systemobject (OMempool n) s);
     s1 \<leftarrow> ipc_list_resume_all (MpWait n) s;
     (M2, s2) \<leftarrow> release (start_address (mps M n)) (M, s1);
     s3 \<leftarrow> rt_object_delete (OMempool n) s2;
     Some (RT_EOK, M2, s3)
   })"

definition mp_take :: "nat \<Rightarrow> mp_state \<Rightarrow> (64 word \<times> mp_state) option" where
  "mp_take n M = do {
     let mp = (mps M n)\<lparr>block_free_count := block_free_count (mps M n) - 1\<rparr>;
     let block_ptr = block_list mp;
     rt_assert (block_ptr \<noteq> 0);
     case mp_mem M block_ptr of
       Pool _ \<Rightarrow> None
     | Block next_block \<Rightarrow> Some (block_ptr + 8, mp_store block_ptr (Pool n) (put_mp n (mp\<lparr>block_list := next_block\<rparr>) M))
   }"

definition mp_wait :: "nat \<Rightarrow> int \<Rightarrow> kernel \<Rightarrow> kernel option" where
  "mp_wait n time s = plain_wait (tl_push_front (MpWait n)) time s"

text \<open>
  \<^verbatim>\<open>rt_mp_alloc\<close> from the head of its loop; a call that has to wait is split at \<^verbatim>\<open>rt_schedule\<close>, and
  \<open>rt_mp_alloc_resumed\<close> runs when the thread gets the processor back.
\<close>

definition rt_mp_alloc :: "nat \<Rightarrow> int \<Rightarrow> mp_sys \<Rightarrow> (64 word option outcome \<times> mp_sys) option" where
  "rt_mp_alloc n time = (\<lambda>(M, s).
     if block_free_count (mps M n) = 0
     then if time = 0 then Some (Done None, M, rt_set_errno (- RT_ETIMEOUT) s)
       else do { s1 \<leftarrow> mp_wait n time s; Some (Blocked, M, s1) }
     else do { (block, M1) \<leftarrow> mp_take n M; Some (Done (Some block), M1, s) })"

definition rt_mp_alloc_resumed :: "nat \<Rightarrow> int \<Rightarrow> 32 word \<Rightarrow> mp_sys \<Rightarrow> (64 word option outcome \<times> mp_sys) option" where
  "rt_mp_alloc_resumed n time before_sleep = (\<lambda>(M, s). do {
     t \<leftarrow> rt_thread_self s;
     if thr_error (thr s t) \<noteq> RT_EOK then Some (Done None, M, s)
     else rt_mp_alloc n (time_left time before_sleep s) (M, s)
   })"

definition mp_put_back :: "nat \<Rightarrow> 64 word \<Rightarrow> mp_state \<Rightarrow> mp_state" where
  "mp_put_back n block_ptr M =
    (let mp = (mps M n)\<lparr>block_free_count := block_free_count (mps M n) + 1\<rparr>
     in put_mp n (mp\<lparr>block_list := block_ptr\<rparr>) (mp_store block_ptr (Block (block_list mp)) M))"

text \<open>The waiting thread is woken as \<^verbatim>\<open>_ipc_list_resume\<close> does it: error code, resumption, scheduling.\<close>

definition rt_mp_free :: "64 word \<Rightarrow> mp_sys \<Rightarrow> mp_sys option" where
  "rt_mp_free block = (\<lambda>(M, s).
     if block = 0 then Some (M, s)
     else case mp_mem M (block - 8) of
       Block _ \<Rightarrow> None
     | Pool n \<Rightarrow> do {
         s1 \<leftarrow> ipc_wake_one (MpWait n) s;
         Some (mp_put_back n (block - 8) M, s1)
       })"

section \<open>The invariant of a pool\<close>

text \<open>
  \<open>mp_blocks\<close> are the header addresses of a pool; \<open>free_chain mem p fs\<close>: the free list that starts at
  \<open>p\<close> runs through the blocks \<open>fs\<close>.  In a consistent pool the free list runs through as many different
  blocks as the counter says, and every other block is lent: its header names the pool.
\<close>

definition block_at :: "rt_mempool \<Rightarrow> nat \<Rightarrow> 64 word" where
  "block_at mp i = start_address mp + of_nat i * (mp_block_size mp + 8)"

definition mp_blocks :: "rt_mempool \<Rightarrow> 64 word set" where
  "mp_blocks mp = block_at mp ` {..<unat (block_total_count mp)}"

fun free_chain :: "(64 word \<Rightarrow> mp_ptr) \<Rightarrow> 64 word \<Rightarrow> 64 word list \<Rightarrow> bool" where
  "free_chain mem p [] \<longleftrightarrow> p = 0"
| "free_chain mem p (b # bs) \<longleftrightarrow> p = b \<and> b \<noteq> 0 \<and> (\<exists>q. mem b = Block q \<and> free_chain mem q bs)"

definition mp_fits :: "rt_mempool \<Rightarrow> bool" where
  "mp_fits mp \<longleftrightarrow> start_address mp \<noteq> 0 \<and> 0 < mp_block_size mp \<and>
     unat (start_address mp) + unat (block_total_count mp) * (unat (mp_block_size mp) + 8) < 2 ^ 64"

definition pool_ok :: "nat \<Rightarrow> mp_state \<Rightarrow> 64 word list \<Rightarrow> bool" where
  "pool_ok n M fs \<longleftrightarrow> mp_fits (mps M n) \<and> distinct fs \<and> set fs \<subseteq> mp_blocks (mps M n) \<and>
     length fs = unat (block_free_count (mps M n)) \<and> free_chain (mp_mem M) (block_list (mps M n)) fs \<and>
     (\<forall>b \<in> mp_blocks (mps M n) - set fs. mp_mem M b = Pool n)"

text \<open>What the operations of pool \<open>n\<close> leave alone: its shape, the other pools, all memory but its headers.\<close>

definition pool_frame :: "nat \<Rightarrow> mp_state \<Rightarrow> mp_state \<Rightarrow> bool" where
  "pool_frame n M M' \<longleftrightarrow> start_address (mps M' n) = start_address (mps M n) \<and> mp_size (mps M' n) = mp_size (mps M n) \<and>
     mp_block_size (mps M' n) = mp_block_size (mps M n) \<and> block_total_count (mps M' n) = block_total_count (mps M n) \<and>
     (\<forall>m. m \<noteq> n \<longrightarrow> mps M' m = mps M m) \<and> (\<forall>a. a \<notin> mp_blocks (mps M n) \<longrightarrow> mp_mem M' a = mp_mem M a)"

lemma free_chain_upd [simp]: "a \<notin> set fs \<Longrightarrow> free_chain (mem(a := x)) p fs = free_chain mem p fs"
  by (induction fs arbitrary: p) auto

lemma put_mp_fields [simp]: "mps (put_mp n mp M) n = mp" "m \<noteq> n \<Longrightarrow> mps (put_mp n mp M) m = mps M m" "mp_mem (put_mp n mp M) = mp_mem M"
  by (simp_all add: put_mp_def)

lemma mp_store_fields [simp]: "mps (mp_store a p M) = mps M" "mp_mem (mp_store a p M) = (mp_mem M)(a := p)"
  by (simp_all add: mp_store_def)

lemma mp_blocks_cong:
  "start_address mp' = start_address mp \<Longrightarrow> mp_block_size mp' = mp_block_size mp \<Longrightarrow> block_total_count mp' = block_total_count mp \<Longrightarrow>
    mp_blocks mp' = mp_blocks mp \<and> mp_fits mp' = mp_fits mp"
  by (simp add: mp_blocks_def block_at_def mp_fits_def)

lemma pool_okD:
  assumes "pool_ok n M fs"
  shows "mp_fits (mps M n)" "distinct fs" "set fs \<subseteq> mp_blocks (mps M n)" "length fs = unat (block_free_count (mps M n))"
    "free_chain (mp_mem M) (block_list (mps M n)) fs" "\<And>b. b \<in> mp_blocks (mps M n) \<Longrightarrow> b \<notin> set fs \<Longrightarrow> mp_mem M b = Pool n"
  using assms by (simp_all add: pool_ok_def)

section \<open>Blocks and addresses\<close>

lemma unat_64: "unat (x :: 64 word) < 2 ^ 64"
proof -
  have "unat x < 2 ^ LENGTH(64)" by (rule unsigned_less)
  then show ?thesis by simp
qed

lemma block_at_unat:
  assumes "mp_fits mp" "i \<le> unat (block_total_count mp)"
  shows "unat (block_at mp i) = unat (start_address mp) + i * (unat (mp_block_size mp) + 8)"
proof -
  let ?s = "unat (mp_block_size mp) + 8" and ?k = "unat (block_total_count mp)"
  have lim: "unat (start_address mp) + ?k * ?s < 2 ^ 64" using assms(1) by (simp add: mp_fits_def)
  have le: "i * ?s \<le> ?k * ?s" using assms(2) by (rule mult_le_mono1)
  then have lt: "unat (start_address mp) + i * ?s < 2 ^ 64" using lim by linarith
  show ?thesis
  proof (cases "i = 0")
    case False
    then have "?s \<le> i * ?s" by simp
    then have "?s < 2 ^ 64" using le lim by linarith
    then have s: "unat (mp_block_size mp + 8) = ?s" using unat_plus [of "mp_block_size mp" 8] by simp
    have "unat (of_nat i :: 64 word) = i"
      using assms(2) unat_64 [of "block_total_count mp"] by (simp add: unat_of_nat)
    then have "unat (of_nat i * (mp_block_size mp + 8)) = i * ?s"
      using unat_mult_lem [of "of_nat i" "mp_block_size mp + 8"] lt s by simp
    then show ?thesis
      unfolding block_at_def using unat_plus [of "start_address mp" "of_nat i * (mp_block_size mp + 8)"] lt by simp
  qed (simp add: block_at_def)
qed

lemma block_at_inj:
  assumes "mp_fits mp" "i \<le> unat (block_total_count mp)" "j \<le> unat (block_total_count mp)" "block_at mp i = block_at mp j"
  shows "i = j"
  using arg_cong [OF assms(4), of unat] block_at_unat [OF assms(1)] assms(2,3) by simp

lemma mp_blocks_nonzero:
  assumes "mp_fits mp" "b \<in> mp_blocks mp" shows "b \<noteq> 0"
proof -
  obtain i where i: "b = block_at mp i" "i < unat (block_total_count mp)" using assms(2) by (auto simp: mp_blocks_def)
  have "0 < unat (start_address mp)" using assms(1) by (simp add: mp_fits_def unat_gt_0)
  then have "0 < unat b" using block_at_unat [OF assms(1)] i by simp
  then show ?thesis by auto
qed

lemma mp_blocks_finite: "finite (mp_blocks mp)" "card (mp_blocks mp) \<le> unat (block_total_count mp)"
  unfolding mp_blocks_def using card_image_le [of "{..<unat (block_total_count mp)}" "block_at mp"] by simp_all

section \<open>Taking and giving back a block\<close>

lemma pool_ok_step:
  assumes ok: "pool_ok n M fs"
    and same: "start_address (mps M' n) = start_address (mps M n)" "mp_block_size (mps M' n) = mp_block_size (mps M n)"
      "block_total_count (mps M' n) = block_total_count (mps M n)"
    and new: "distinct gs" "set gs \<subseteq> mp_blocks (mps M n)" "length gs = unat (block_free_count (mps M' n))"
      "free_chain (mp_mem M') (block_list (mps M' n)) gs" "\<And>b. b \<in> mp_blocks (mps M n) \<Longrightarrow> b \<notin> set gs \<Longrightarrow> mp_mem M' b = Pool n"
  shows "pool_ok n M' gs"
  using mp_blocks_cong [OF same] pool_okD(1) [OF ok] new by (simp add: pool_ok_def)

lemma mp_take_ok:
  assumes ok: "pool_ok n M (b # fs)"
  obtains M' where "mp_take n M = Some (b + 8, M')" "pool_ok n M' fs" "pool_frame n M M'"
proof -
  note d = pool_okD [OF ok]
  obtain q where q: "block_list (mps M n) = b" "b \<noteq> 0" "mp_mem M b = Block q" "free_chain (mp_mem M) q fs"
    using d(5) by auto
  let ?M = "mp_store b (Pool n) (put_mp n ((mps M n)\<lparr>block_free_count := block_free_count (mps M n) - 1, block_list := q\<rparr>) M)"
  have "block_free_count (mps M n) \<noteq> 0" using d(4) by auto
  then have "unat (block_free_count (mps M n) - 1) = unat (block_free_count (mps M n)) - 1"
    by (simp add: unat_minus_one)
  then have "pool_ok n ?M fs"
    using d(2,3,4,6) q by (intro pool_ok_step [OF ok]) auto
  moreover have "pool_frame n M ?M" using d(3) by (auto simp: pool_frame_def)
  moreover have "mp_take n M = Some (b + 8, ?M)" using q by (simp add: mp_take_def Let_def)
  ultimately show thesis using that by blast
qed

lemma mp_put_back_ok:
  assumes ok: "pool_ok n M fs" and b: "b \<in> mp_blocks (mps M n)" "b \<notin> set fs"
  shows "pool_ok n (mp_put_back n b M) (b # fs)" "pool_frame n M (mp_put_back n b M)"
proof -
  note d = pool_okD [OF ok]
  have "length (b # fs) \<le> card (mp_blocks (mps M n))"
    using card_mono [OF mp_blocks_finite(1), of "set (b # fs)"] distinct_card [of "b # fs"] d(2,3) b by simp
  then have "length fs + 1 < 2 ^ 64"
    using mp_blocks_finite(2) [of "mps M n"] unat_64 [of "block_total_count (mps M n)"] by simp
  then have "unat (block_free_count (mps M n) + 1) = length (b # fs)"
    using unat_plus [of "block_free_count (mps M n)" 1] d(4) by simp
  then show "pool_ok n (mp_put_back n b M) (b # fs)"
    using d b mp_blocks_nonzero [OF d(1) b(1)]
    by (intro pool_ok_step [OF ok]) (auto simp: mp_put_back_def Let_def)
  show "pool_frame n M (mp_put_back n b M)"
    using b(1) by (auto simp: pool_frame_def mp_put_back_def Let_def)
qed

section \<open>A new pool\<close>

lemma mp_link_loop_mps [simp]: "mps (mp_link_loop p st k M) = mps M"
  by (induction k) simp_all

lemma mp_link_loop_mem:
  assumes fits: "mp_fits mp" and k: "k \<le> unat (block_total_count mp)"
  defines "st \<equiv> mp_block_size mp + 8"
  shows "i < k \<Longrightarrow> mp_mem (mp_link_loop (start_address mp) st k M) (block_at mp i) = Block (block_at mp (Suc i))"
    "a \<notin> block_at mp ` {..<k} \<Longrightarrow> mp_mem (mp_link_loop (start_address mp) st k M) a = mp_mem M a"
proof -
  have step: "mp_mem (mp_link_loop (start_address mp) st (Suc j) M) =
      (mp_mem (mp_link_loop (start_address mp) st j M))(block_at mp j := Block (block_at mp (Suc j)))" for j
    by (simp add: block_at_def st_def algebra_simps)
  show "mp_mem (mp_link_loop (start_address mp) st k M) (block_at mp i) = Block (block_at mp (Suc i))" if "i < k"
    using k that
  proof (induction k)
    case (Suc k)
    then show ?case using step block_at_inj [OF fits, of i k] by (cases "i = k") (auto simp del: mp_link_loop.simps)
  qed simp
  show "mp_mem (mp_link_loop (start_address mp) st k M) a = mp_mem M a" if "a \<notin> block_at mp ` {..<k}"
    using that
  proof (induction k)
    case (Suc k)
    then have "a \<noteq> block_at mp k" "a \<notin> block_at mp ` {..<k}" by auto
    then show ?case using Suc.IH step by (auto simp del: mp_link_loop.simps)
  qed simp
qed

lemma free_chain_run:
  assumes "\<And>i. i < k \<Longrightarrow> mem (f i) = Block (if Suc i < k then f (Suc i) else 0) \<and> f i \<noteq> 0" "j < k"
  shows "free_chain mem (f j) (map f [j..<k])"
  using assms(2)
proof (induction "k - j" arbitrary: j)
  case (Suc d)
  then have j: "[j..<k] = j # [Suc j..<k]" by (simp add: upt_conv_Cons)
  show ?case using assms(1) [OF Suc.prems] Suc.hyps(1) [of "Suc j"] Suc.hyps(2) Suc.prems unfolding j by auto
qed simp

lemma mp_format_ok:
  assumes fits: "mp_fits (mps M n)" and cnt: "0 < block_total_count (mps M n)" "block_free_count (mps M n) = block_total_count (mps M n)"
  shows "pool_ok n (mp_format n M) (map (block_at (mps M n)) [0..<unat (block_total_count (mps M n))])" "pool_frame n M (mp_format n M)"
proof -
  define mp where "mp = mps M n"
  define k where "k = unat (block_total_count mp)"
  let ?L = "mp_link_loop (start_address mp) (mp_block_size mp + 8) k M"
  let ?M = "mp_format n M"
  have k: "0 < k" using cnt(1) by (simp add: k_def mp_def unat_gt_0 word_neq_0_conv)
  note lm = mp_link_loop_mem [OF fits [folded mp_def], of k, folded k_def, OF order_refl]
  have "of_nat (k - 1) = block_total_count mp - 1"
    using k by (simp add: k_def of_nat_diff)
  then have M: "mp_mem ?M = (mp_mem ?L)(block_at mp (k - 1) := Block 0)" "mps ?M n = mp\<lparr>block_list := block_at mp 0\<rparr>"
    "\<And>m. m \<noteq> n \<Longrightarrow> mps ?M m = mps M m"
    by (simp_all add: mp_format_def Let_def block_at_def flip: mp_def k_def)
  have blocks: "mp_blocks mp = block_at mp ` {..<k}" by (simp add: mp_blocks_def k_def)
  have inj: "i < k \<Longrightarrow> j < k \<Longrightarrow> block_at mp i = block_at mp j \<Longrightarrow> i = j" for i j
    using block_at_inj [OF fits [folded mp_def], of i j] by (simp add: k_def)
  have "mp_mem ?M (block_at mp i) = Block (if Suc i < k then block_at mp (Suc i) else 0) \<and> block_at mp i \<noteq> 0" if "i < k" for i
  proof (cases "Suc i < k")
    case True
    then have "block_at mp i \<noteq> block_at mp (k - 1)" using inj [of i "k - 1"] by auto
    then show ?thesis using True lm(1) [OF that] mp_blocks_nonzero [OF fits [folded mp_def]] blocks that unfolding M(1) by auto
  next
    case False
    then have "i = k - 1" using that by simp
    then show ?thesis using False mp_blocks_nonzero [OF fits [folded mp_def]] blocks that unfolding M(1) by auto
  qed
  then have ch: "free_chain (mp_mem ?M) (block_at mp 0) (map (block_at mp) [0..<k])" by (rule free_chain_run) (simp_all add: k)
  have d: "distinct (map (block_at mp) [0..<k])" using inj by (auto simp: distinct_map inj_on_def)
  have cong: "mp_blocks (mps ?M n) = mp_blocks mp" "mp_fits (mps ?M n)"
    using mp_blocks_cong [of "mps ?M n" mp] fits unfolding M(2) by (simp_all add: mp_def)
  show "pool_ok n ?M (map (block_at (mps M n)) [0..<unat (block_total_count (mps M n))])"
    unfolding pool_ok_def cong(1) using cong(2) ch d cnt(2) M(2) blocks by (auto simp: k_def simp flip: mp_def)
  show "pool_frame n M ?M"
    using M lm(2) blocks k unfolding pool_frame_def by (auto simp: mp_def)
qed

lemma rt_mp_init_ok:
  fixes base sz bsize :: "64 word"
  assumes inv: "sched_inv s" and new: "OMempool n \<notin> set (object_list s RT_Object_Class_MemPool)"
    and arg: "base \<noteq> 0" "0 < bsize" "unat bsize + 7 < 2 ^ 64" "unat base + unat sz < 2 ^ 64"
  defines "k \<equiv> unat sz div 8 * 8 div ((unat bsize + 7) div 8 * 8 + 8)"
  assumes room: "0 < k"
  shows "\<exists>M' s'. rt_mp_init n name base sz bsize (M, s) = Some (RT_EOK, M', s') \<and>
     pool_ok n M' (map (block_at (mps M' n)) [0..<k]) \<and> unat (block_total_count (mps M' n)) = k \<and> lists s' (MpWait n) = []"
proof -
  have cls: "RT_Object_Class_MemPool \<in> set object_classes" by (simp add: object_classes_def)
  from object_init_result [OF inv cls new, of name]
  obtain s1 where init: "rt_object_init (OMempool n) RT_Object_Class_MemPool name s = Some s1" by metis
  let ?sz = "sz AND NOT (8 - 1)" and ?bs = "RT_ALIGN bsize 8"
  let ?total = "?sz div (?bs + 8)"
  define mp where "mp = (mps M n)\<lparr>start_address := base, mp_size := ?sz, mp_block_size := ?bs, block_total_count := ?total, block_free_count := ?total\<rparr>"
  let ?b = "(unat bsize + 7) div 8 * 8"
  have z: "unat ?sz = unat sz div 8 * 8" and b: "unat ?bs = ?b"
    using round_down_8 [of sz] RT_ALIGN_8 [OF arg(3)] by simp_all
  have sz0: "0 < sz" using room unfolding k_def by (cases "sz = 0") (auto simp: word_neq_0_conv)
  have b8: "8 \<le> ?b" using arg(2) by (simp add: word_less_nat_alt)
  have "k * (?b + 8) \<le> unat sz div 8 * 8" unfolding k_def by simp
  then have kle: "k * (?b + 8) \<le> unat sz" using div_times_less_eq_dividend [of "unat sz" 8] by linarith
  have "?b + 8 \<le> k * (?b + 8)" using room by simp
  then have "?b + 8 < 2 ^ 64" using kle unat_64 [of sz] by linarith
  then have "unat (?bs + 8) = ?b + 8" using unat_plus [of ?bs 8] b by simp
  then have tot: "unat ?total = k" unfolding k_def unat_div z by (simp only:)
  have fits: "mp_fits mp"
    using arg(1,4) kle tot b b8 unfolding mp_fits_def mp_def by (simp add: word_less_nat_alt)
  have "0 < block_total_count mp" "block_free_count mp = block_total_count mp" "unat (block_total_count mp) = k"
    using tot room by (simp_all add: mp_def word_less_nat_alt)
  note f = mp_format_ok [of "put_mp n mp M" n, simplified, OF fits this(1,2), unfolded this(3)]
  have bl: "block_at (mps (mp_format n (put_mp n mp M)) n) = block_at mp"
    "block_total_count (mps (mp_format n (put_mp n mp M)) n) = ?total"
    using f(2) by (simp_all add: fun_eq_iff pool_frame_def block_at_def mp_def)
  have "rt_mp_init n name base sz bsize (M, s) = Some (RT_EOK, mp_format n (put_mp n mp M), ipc_object_init (MpWait n) s1)"
    using arg(1,2) sz0 init by (simp add: rt_mp_init_def Let_def mp_def)
  then show ?thesis using f(1) tot bl by (auto simp: ipc_object_init_def)
qed

section \<open>Waiting for a block\<close>

lemma mp_wait_ok:
  assumes "sys_inv s" "rt_current_thread s = Some t" "stat_of s t = RT_THREAD_RUNNING" "time < 0x7fffffff"
  shows "\<exists>s'. mp_wait n time s = Some s' \<and> blocked_on (MpWait n) t WAIT_FRONT time (set_error t RT_EOK s) s'"
  unfolding mp_wait_def by (rule plain_wait_ok [OF assms]) (simp_all add: push_front_enqueued)

lemma pool_ok_counter: "pool_ok n M fs \<Longrightarrow> block_free_count (mps M n) = 0 \<longleftrightarrow> fs = []"
  using pool_okD(4) [of n M fs] by (auto simp: unat_eq_0)

lemma rt_mp_alloc_free_block:
  assumes "pool_ok n M (b # fs)"
  shows "\<exists>M'. rt_mp_alloc n time (M, s) = Some (Done (Some (b + 8)), M', s) \<and> pool_ok n M' fs \<and> pool_frame n M M'"
  using mp_take_ok [OF assms] pool_ok_counter [OF assms] by (fastforce simp: rt_mp_alloc_def)

lemma rt_mp_free_ok:
  assumes ok: "pool_ok n M fs" and b: "b \<in> mp_blocks (mps M n)" "b \<notin> set fs" and inv: "sys_inv s"
  shows "\<exists>s'. rt_mp_free (b + 8) (M, s) = Some (mp_put_back n b M, s') \<and> woken_one (MpWait n) s s'"
proof -
  obtain i where i: "b = block_at (mps M n) i" "i < unat (block_total_count (mps M n))" using b(1) by (auto simp: mp_blocks_def)
  note fits = pool_okD(1) [OF ok]
  have "Suc i * (unat (mp_block_size (mps M n)) + 8) \<le> unat (block_total_count (mps M n)) * (unat (mp_block_size (mps M n)) + 8)"
    using i(2) by (intro mult_le_mono1) simp
  then have "unat b + 8 < 2 ^ 64" using block_at_unat [OF fits, of i] i fits by (simp add: mp_fits_def)
  then have "unat (b + 8) \<noteq> 0" using unat_plus [of b 8] by simp
  then have nz: "b + 8 \<noteq> 0" by auto
  obtain s' where "ipc_wake_one (MpWait n) s = Some s'" "woken_one (MpWait n) s s'"
    using ipc_wake_one_ok [OF inv] by (metis wait_id.simps)
  then show ?thesis using nz pool_okD(6) [OF ok b] by (simp add: rt_mp_free_def)
qed

section \<open>The client's view\<close>

text \<open>
  The ranges that a pool has lent, and the allocator interface: a client that allocates without waiting
  and gives back only what it holds never gets overlapping blocks.
\<close>

definition lent :: "nat \<Rightarrow> mp_state \<Rightarrow> 64 word list \<Rightarrow> (nat \<times> nat) set" where
  "lent n M fs = (\<lambda>b. (unat b + 8, unat b + 8 + unat (mp_block_size (mps M n)))) ` (mp_blocks (mps M n) - set fs)"

definition mp_holds :: "nat \<Rightarrow> mp_sys \<Rightarrow> (nat \<times> nat) set \<Rightarrow> bool" where
  "mp_holds n sys A \<longleftrightarrow> sys_inv (snd sys) \<and> (\<exists>fs. pool_ok n (fst sys) fs \<and> A = lent n (fst sys) fs)"

definition mp_try_alloc :: "nat \<Rightarrow> mp_sys \<Rightarrow> (64 word option \<times> mp_sys) option" where
  "mp_try_alloc n sys = do {
     (r, sys1) \<leftarrow> rt_mp_alloc n 0 sys;
     (case r of Done p \<Rightarrow> Some (p, sys1) | Blocked \<Rightarrow> None)
   }"

definition mp_give :: "64 word option \<Rightarrow> mp_sys \<Rightarrow> mp_sys option" where
  "mp_give p sys = rt_mp_free (case p of None \<Rightarrow> 0 | Some a \<Rightarrow> a) sys"

lemma block_apart:
  assumes fits: "mp_fits mp" and b: "b \<in> mp_blocks mp" "c \<in> mp_blocks mp" "b \<noteq> c"
  shows "unat b + 8 + unat (mp_block_size mp) \<le> unat c \<or> unat c + 8 + unat (mp_block_size mp) \<le> unat b"
proof -
  let ?s = "unat (mp_block_size mp) + 8"
  obtain i j where ij: "b = block_at mp i" "c = block_at mp j" "i < unat (block_total_count mp)" "j < unat (block_total_count mp)"
    using b(1,2) by (auto simp: mp_blocks_def)
  then have u: "unat b = unat (start_address mp) + i * ?s" "unat c = unat (start_address mp) + j * ?s"
    using block_at_unat [OF fits] by auto
  have "i \<noteq> j" using ij(1,2) b(3) by auto
  then have "Suc i * ?s \<le> j * ?s \<or> Suc j * ?s \<le> i * ?s" by (metis Suc_leI linorder_neq_iff mult_le_mono1)
  then show ?thesis using u by auto
qed

lemma block_data_unat:
  assumes fits: "mp_fits mp" and b: "b \<in> mp_blocks mp"
  shows "unat (b + 8) = unat b + 8" "unat b + 8 + unat (mp_block_size mp) < 2 ^ 64"
proof -
  obtain i where i: "b = block_at mp i" "i < unat (block_total_count mp)" using b by (auto simp: mp_blocks_def)
  have "Suc i * (unat (mp_block_size mp) + 8) \<le> unat (block_total_count mp) * (unat (mp_block_size mp) + 8)"
    using i(2) by (intro mult_le_mono1) simp
  then show "unat b + 8 + unat (mp_block_size mp) < 2 ^ 64" using block_at_unat [OF fits, of i] i fits by (simp add: mp_fits_def)
  then show "unat (b + 8) = unat b + 8" using unat_plus [of b 8] by simp
qed

lemma lent_inj: "inj_on (\<lambda>b. (unat b + 8, unat b + 8 + z)) (X :: 64 word set)"
  by (auto simp: inj_on_def word_unat_eq_iff)

lemma pool_frameD:
  assumes "pool_frame n M M'"
  shows "mp_blocks (mps M' n) = mp_blocks (mps M n)" "mp_block_size (mps M' n) = mp_block_size (mps M n)"
  using assms mp_blocks_cong [of "mps M' n" "mps M n"] by (simp_all add: pool_frame_def)

lemma kernel_inv_errno: "kernel_inv (s\<lparr>global_errno := e\<rparr>) = kernel_inv s"
proof -
  have "sched_inv (s\<lparr>global_errno := e\<rparr>) = sched_inv s"
    by (simp add: sched_inv_def ready_inv_def cur_inv_def stat_of_def)
  then show ?thesis
    by (simp add: kernel_inv_def timer_inv_def thread_inv_def active_def soft_def timer_flag_def
        thread_object_ok_def rt_object_get_type_def periodic_def live_def suspended_def stat_of_def)
qed

lemma sys_inv_set_errno: "sys_inv s \<Longrightarrow> sys_inv (rt_set_errno e s)"
proof -
  assume inv: "sys_inv s"
  have "sys_inv (s\<lparr>global_errno := e\<rparr>)"
    using sys_invD(4) [OF inv] by (intro sys_inv_cong [OF inv]) (use sys_invD(1) [OF inv] in \<open>auto simp: kernel_inv_errno\<close>)
  then show ?thesis using sys_inv_set_error [OF inv] by (simp add: rt_set_errno_def split: option.split)
qed

lemma mp_alloc_law:
  assumes "mp_holds n h A"
  shows "(\<exists>h'. mp_try_alloc n h = Some (None, h') \<and> mp_holds n h' A) \<or>
    (\<exists>p h' z. mp_try_alloc n h = Some (Some p, h') \<and> mp_holds n h' (insert (unat p, z) A) \<and> unat p < z \<and>
      (\<forall>a b. (a, b) \<in> A \<longrightarrow> b \<le> unat p \<or> z \<le> a))"
proof -
  obtain M s where h: "h = (M, s)" by (cases h)
  obtain fs where ok: "pool_ok n M fs" and A: "A = lent n M fs" and inv: "sys_inv s" using assms by (auto simp: mp_holds_def h)
  note d = pool_okD [OF ok]
  show ?thesis
  proof (cases fs)
    case Nil
    then have "mp_try_alloc n h = Some (None, M, rt_set_errno (- RT_ETIMEOUT) s)"
      using pool_ok_counter [OF ok] by (simp add: mp_try_alloc_def rt_mp_alloc_def h)
    then show ?thesis using ok A sys_inv_set_errno [OF inv] by (auto simp: mp_holds_def)
  next
    case (Cons b gs)
    have b: "b \<in> mp_blocks (mps M n)" "b \<notin> set gs" using d(2,3) Cons by auto
    note bd = block_data_unat [OF d(1) b(1)]
    obtain M' where M': "rt_mp_alloc n 0 (M, s) = Some (Done (Some (b + 8)), M', s)" "pool_ok n M' gs" "pool_frame n M M'"
      using rt_mp_alloc_free_block [of n M b gs 0 s] ok Cons by auto
    note f = pool_frameD [OF M'(3)]
    have "mp_blocks (mps M n) - set gs = insert b (mp_blocks (mps M n) - set fs)" using b Cons by auto
    then have "lent n M' gs = insert (unat (b + 8), unat b + 8 + unat (mp_block_size (mps M n))) A"
      unfolding lent_def f A bd(1) by simp
    moreover have "unat (b + 8) < unat b + 8 + unat (mp_block_size (mps M n))"
      using bd d(1) by (simp add: mp_fits_def unat_gt_0 word_neq_0_conv)
    moreover have "y \<le> unat (b + 8) \<or> unat b + 8 + unat (mp_block_size (mps M n)) \<le> x" if xy: "(x, y) \<in> A" for x y
    proof -
      obtain c where c: "c \<in> mp_blocks (mps M n)" "c \<noteq> b" "x = unat c + 8" "y = unat c + 8 + unat (mp_block_size (mps M n))"
        using xy Cons unfolding A lent_def by auto
      show ?thesis using block_apart [OF d(1) b(1) c(1)] c(2-4) bd(1) by auto
    qed
    moreover have "mp_try_alloc n h = Some (Some (b + 8), M', s)" using M'(1) by (simp add: mp_try_alloc_def h)
    ultimately show ?thesis
      using M'(2) inv unfolding mp_holds_def by (intro disjI2 exI [of _ "b + 8"] exI [of _ "(M', s)"]) auto
  qed
qed

lemma mp_free_law:
  assumes "mp_holds n h A" "(unat p, z) \<in> A"
  shows "\<exists>h'. mp_give (Some p) h = Some h' \<and> mp_holds n h' (A - {(unat p, z)})"
proof -
  obtain M s where h: "h = (M, s)" by (cases h)
  obtain fs where ok: "pool_ok n M fs" and A: "A = lent n M fs" and inv: "sys_inv s" using assms(1) by (auto simp: mp_holds_def h)
  let ?f = "\<lambda>b. (unat b + 8, unat b + 8 + unat (mp_block_size (mps M n)))"
  obtain b where b: "b \<in> mp_blocks (mps M n)" "b \<notin> set fs" "unat p = unat b + 8" "(unat p, z) = ?f b"
    using assms(2) unfolding A lent_def by auto
  have p: "p = b + 8" using b(3) block_data_unat(1) [OF pool_okD(1) [OF ok] b(1)] by (simp add: word_unat_eq_iff)
  obtain s' where s': "rt_mp_free p (M, s) = Some (mp_put_back n b M, s')" "woken_one (MpWait n) s s'"
    using rt_mp_free_ok [OF ok b(1,2) inv] p by auto
  note pb = mp_put_back_ok [OF ok b(1,2)]
  have "lent n (mp_put_back n b M) (b # fs) = ?f ` (mp_blocks (mps M n) - set fs - {b})"
    unfolding lent_def pool_frameD [OF pb(2)] by (rule arg_cong [of _ _ "image ?f"]) auto
  also have "\<dots> = ?f ` (mp_blocks (mps M n) - set fs) - ?f ` {b}"
    using b(1,2) by (intro inj_on_image_set_diff [OF lent_inj [of _ UNIV]]) auto
  finally have "lent n (mp_put_back n b M) (b # fs) = A - {(unat p, z)}"
    unfolding A lent_def using b(4) by simp
  moreover have "sys_inv s'" using woken_oneD(1) [OF s'(2) inv] by simp
  ultimately show ?thesis using s'(1) pb(1) by (auto simp: mp_give_def h mp_holds_def)
qed

interpretation pool: allocator "mp_holds n" "\<lambda>_ :: unit. mp_try_alloc n" mp_give "unat :: 64 word \<Rightarrow> nat" "\<lambda>_. True" for n
proof
  show "unat p = unat r \<Longrightarrow> p = r" for p r :: "64 word" by (simp add: word_unat_eq_iff)
qed (rule mp_alloc_law mp_free_law, assumption+)+

section \<open>Properties\<close>

text \<open>
  C39: the blocks of a memory pool.  In a consistent pool \<^verbatim>\<open>rt_mp_alloc\<close> takes the first free block and
  returns the address behind its header, without touching the kernel; an exhausted pool answers a call
  that may not wait with a null pointer and \<^verbatim>\<open>-RT_ETIMEOUT\<close> in the error variable of the caller,
  and makes a call that may wait block at the head of the list of the pool, for the time given.
  \<^verbatim>\<open>rt_mp_free\<close> of a lent block finds the pool through the header, puts the block in front of the free
  list and wakes the first waiting thread, if any, with \<^verbatim>\<open>RT_EOK\<close>.  The pool stays consistent: free and
  lent blocks stay a partition, and other pools and the data of the blocks are not written.
\<close>

theorem mp_alloc_free_blocks:
  assumes inv: "sys_inv s" and t: "rt_current_thread s = Some t" "stat_of s t = RT_THREAD_RUNNING" "rt_interrupt_nest s = 0"
    and pool: "pool_ok n M fs" and time: "time < 0x7fffffff"
  shows "(case fs of
      b # gs \<Rightarrow> (\<exists>M'. rt_mp_alloc n time (M, s) = Some (Done (Some (b + 8)), M', s) \<and> pool_ok n M' gs \<and> pool_frame n M M')
    | [] \<Rightarrow> if time = 0 then rt_mp_alloc n time (M, s) = Some (Done None, M, set_error t (- RT_ETIMEOUT) s)
      else (\<exists>s'. rt_mp_alloc n time (M, s) = Some (Blocked, M, s') \<and>
        blocked_on (MpWait n) t WAIT_FRONT time (set_error t RT_EOK s) s')) \<and>
    (\<forall>b \<in> mp_blocks (mps M n) - set fs. \<exists>M' s'. rt_mp_free (b + 8) (M, s) = Some (M', s') \<and>
      pool_ok n M' (b # fs) \<and> pool_frame n M M' \<and> woken_one (MpWait n) s s')"
proof (intro conjI ballI)
  fix b assume "b \<in> mp_blocks (mps M n) - set fs"
  then have b: "b \<in> mp_blocks (mps M n)" "b \<notin> set fs" by auto
  show "\<exists>M' s'. rt_mp_free (b + 8) (M, s) = Some (M', s') \<and> pool_ok n M' (b # fs) \<and> pool_frame n M M' \<and> woken_one (MpWait n) s s'"
    using rt_mp_free_ok [OF pool b inv] mp_put_back_ok [OF pool b] by blast
next
  show "case fs of
      b # gs \<Rightarrow> (\<exists>M'. rt_mp_alloc n time (M, s) = Some (Done (Some (b + 8)), M', s) \<and> pool_ok n M' gs \<and> pool_frame n M M')
    | [] \<Rightarrow> if time = 0 then rt_mp_alloc n time (M, s) = Some (Done None, M, set_error t (- RT_ETIMEOUT) s)
      else (\<exists>s'. rt_mp_alloc n time (M, s) = Some (Blocked, M, s') \<and>
        blocked_on (MpWait n) t WAIT_FRONT time (set_error t RT_EOK s) s')"
  proof (cases fs)
    case Nil
    then have "block_free_count (mps M n) = 0" using pool_ok_counter [OF pool] by simp
    then show ?thesis
      using Nil mp_wait_ok [OF inv t(1,2) time, of n] t(1,3) by (auto simp: rt_mp_alloc_def rt_set_errno_def rt_thread_self_def)
  next
    case (Cons b gs)
    then show ?thesis using rt_mp_alloc_free_block [of n M b gs time s] pool by simp
  qed
qed

text \<open>A pool of two blocks of 20 bytes, made with \<^verbatim>\<open>rt_mp_init\<close> in 70 bytes of memory.\<close>

definition sample_pools :: mp_state where
  "sample_pools = fst (snd (the (rt_mp_init 3 ''pool'' 0x1000 70 20 (\<lparr>mps = \<lambda>_. \<lparr>start_address = 0, mp_size = 0, mp_block_size = 0,
     block_list = 0, block_total_count = 0, block_free_count = 0\<rparr>, mp_mem = \<lambda>_. Block 0\<rparr>, small_system))))"

lemma sample_pools_ok: "pool_ok 3 sample_pools [0x1000, 0x1020]"
proof -
  let ?M = "\<lparr>mps = \<lambda>_. \<lparr>start_address = 0, mp_size = 0, mp_block_size = 0,
     block_list = 0, block_total_count = 0, block_free_count = 0\<rparr>, mp_mem = \<lambda>_. Block 0\<rparr>"
  obtain M' s' where r: "rt_mp_init 3 ''pool'' 0x1000 70 20 (?M, small_system) = Some (RT_EOK, M', s')"
    "pool_ok 3 M' (map (block_at (mps M' 3)) [0..<2])"
    using rt_mp_init_ok [OF kernel_invD(1) [OF kernel_inv_small], of 3 "0x1000" 20 70 "''pool''" ?M]
    by (auto simp: small_system_def kernel_reset_def)
  have "start_address (mps M' 3) = 0x1000" "mp_block_size (mps M' 3) = 24"
    using r(1) by (auto simp: rt_mp_init_def Let_def mp_format_def RT_ALIGN_def split: bind_splits)
  moreover have "sample_pools = M'" using r(1) by (simp add: sample_pools_def)
  ultimately show ?thesis using r(2) by (simp add: block_at_def upt_rec)
qed

theorem mp_alloc_free_blocks_witness:
  "\<exists>M'. rt_mp_alloc 3 5 (sample_pools, small_system) = Some (Done (Some 0x1008), M', small_system) \<and> pool_ok 3 M' [0x1020]"
  using mp_alloc_free_blocks [OF sys_inv_small _ _ _ sample_pools_ok, of 2 5]
  by (auto simp: small_system_def kernel_reset_def stat_of_def sample_thread_def)

text \<open>
  Over any sequence of non-waiting allocations and releases of held blocks the calls return and the
  client holds ranges that do not overlap.
\<close>

theorem mp_client_safe:
  assumes "sys_inv s" "pool_ok n M fs" "set fs = mp_blocks (mps M n)"
  shows "\<exists>live h A. run_client (\<lambda>_ :: unit. mp_try_alloc n) mp_give rs ([], M, s) = Some (live, h) \<and> mp_holds n h A \<and> apart A \<and>
    distinct live \<and> unat ` set live = fst ` A"
proof -
  have "mp_holds n (M, s) {}" using assms by (auto simp: mp_holds_def lent_def)
  from pool.client_safe [OF this, of "[]" rs] show ?thesis by (simp add: apart_def)
qed

end
