(* ===== verification/PageAlloc.thy ===== *)
theory PageAlloc
  imports SmallMem
begin

unbundle bit_operations_syntax

text \<open>
  The page allocator of RT-Smart, \<^verbatim>\<open>components/mm/mm_page.c\<close>: a buddy system.  A page is named by its
  index in the master page record; the free blocks of each order are a doubly linked list through the
  records of their first pages, one table of lists for pages below 4 GB and one for the others.  The
  buddy of a block is computed on virtual addresses as in the source, with the offset between virtual
  and physical addresses as part of the state.  \<open>mapped\<close> tells whether \<^verbatim>\<open>rt_kmem_v2p\<close> of the record of a page
  is not null.  A record is found by its index, whether it is reached at its virtual address or, before
  the kernel page table is loaded, through \<^verbatim>\<open>early_offset\<close>.

  \<open>page_inv\<close> is the invariant of the buddy system; this theory shows that the two loops, allocation and
  release keep it.
\<close>

section \<open>State\<close>

record rt_page =
  pg_next :: "64 word option"
  pg_pre :: "64 word option"
  size_bits :: "32 word"
  ref_cnt :: "32 word"

record page_state =
  pages :: "64 word \<Rightarrow> rt_page"
  page_list :: "bool \<Rightarrow> nat \<Rightarrow> 64 word option"
  pv_offset :: "64 word"
  high_page_configured :: bool
  page_nr :: "64 word"
  high_pages_nr :: "64 word"

abbreviation (input) RT_PAGE_MAX_ORDER :: nat where "RT_PAGE_MAX_ORDER \<equiv> 11"
abbreviation (input) ARCH_PAGE_SHIFT :: nat where "ARCH_PAGE_SHIFT \<equiv> 12"
abbreviation (input) ARCH_ADDRESS_WIDTH_BITS :: "32 word" where "ARCH_ADDRESS_WIDTH_BITS \<equiv> 64"

text \<open>\<^verbatim>\<open>rt_mpr_size\<close> has room for the pages of a 39-bit address space.\<close>

abbreviation (input) MPR_PAGES :: "64 word" where "MPR_PAGES \<equiv> 0x8000000"

definition upd_page :: "64 word \<Rightarrow> (rt_page \<Rightarrow> rt_page) \<Rightarrow> page_state \<Rightarrow> page_state" where
  "upd_page p f st = st\<lparr>pages := (pages st)(p := f (pages st p))\<rparr>"

definition set_list :: "bool \<Rightarrow> nat \<Rightarrow> 64 word option \<Rightarrow> page_state \<Rightarrow> page_state" where
  "set_list hi k p st = st\<lparr>page_list := (page_list st)(hi := (page_list st hi)(k := p))\<rparr>"

section \<open>Operations\<close>

text \<open>\<^verbatim>\<open>__builtin_clzl\<close>, the leading zeros of a word that is not zero.\<close>

definition rt_hw_clz :: "64 word \<Rightarrow> nat" where
  "rt_hw_clz n = length (takeWhile (\<lambda>i. \<not> bit n i) (rev [0..<64]))"

definition rt_page_bits :: "64 word \<Rightarrow> 64 word" where
  "rt_page_bits bytes =
    (let bit0 = 64 - int (rt_hw_clz bytes) - 1;
         bit1 = (if bytes XOR push_bit (nat bit0) 1 \<noteq> 0 then bit0 + 1 else bit0);
         bit2 = bit1 - int ARCH_PAGE_SHIFT
     in word_of_int (if bit2 < 0 then 0 else bit2))"

definition page_to_addr :: "64 word \<Rightarrow> page_state \<Rightarrow> 64 word" where
  "page_to_addr p st = push_bit ARCH_PAGE_SHIFT p - pv_offset st"

definition addr_to_page :: "64 word \<Rightarrow> page_state \<Rightarrow> 64 word" where
  "addr_to_page addr st = drop_bit ARCH_PAGE_SHIFT (addr + pv_offset st)"

definition buddy_get :: "64 word \<Rightarrow> nat \<Rightarrow> page_state \<Rightarrow> 64 word" where
  "buddy_get p k st = addr_to_page (page_to_addr p st XOR push_bit (k + ARCH_PAGE_SHIFT) 1) st"

definition page_remove :: "bool \<Rightarrow> 64 word \<Rightarrow> nat \<Rightarrow> page_state \<Rightarrow> page_state" where
  "page_remove hi p k st =
    (let st1 = (case pg_pre (pages st p) of
                  Some q \<Rightarrow> upd_page q (\<lambda>r. r\<lparr>pg_next := pg_next (pages st p)\<rparr>) st
                | None \<Rightarrow> set_list hi k (pg_next (pages st p)) st);
         st2 = (case pg_next (pages st1 p) of
                  Some q \<Rightarrow> upd_page q (\<lambda>r. r\<lparr>pg_pre := pg_pre (pages st1 p)\<rparr>) st1
                | None \<Rightarrow> st1)
     in upd_page p (\<lambda>r. r\<lparr>size_bits := ARCH_ADDRESS_WIDTH_BITS\<rparr>) st2)"

definition page_insert :: "bool \<Rightarrow> 64 word \<Rightarrow> nat \<Rightarrow> page_state \<Rightarrow> page_state" where
  "page_insert hi p k st =
    (let st1 = upd_page p (\<lambda>r. r\<lparr>pg_next := page_list st hi k\<rparr>) st;
         st2 = (case pg_next (pages st1 p) of
                  Some q \<Rightarrow> upd_page q (\<lambda>r. r\<lparr>pg_pre := Some p\<rparr>) st1
                | None \<Rightarrow> st1);
         st3 = set_list hi k (Some p) (upd_page p (\<lambda>r. r\<lparr>pg_pre := None\<rparr>) st2)
     in upd_page p (\<lambda>r. r\<lparr>size_bits := of_nat k\<rparr>) st3)"

definition group_head :: "64 word \<Rightarrow> nat \<Rightarrow> 64 word" where
  "group_head p k = p AND NOT (push_bit k 1 - 1)"

definition pages_ref_inc :: "64 word \<Rightarrow> nat \<Rightarrow> page_state \<Rightarrow> page_state" where
  "pages_ref_inc p k st = upd_page (group_head p k) (\<lambda>r. r\<lparr>ref_cnt := ref_cnt r + 1\<rparr>) st"

definition pages_ref_get :: "64 word \<Rightarrow> nat \<Rightarrow> page_state \<Rightarrow> 32 word" where
  "pages_ref_get p k st = ref_cnt (pages st (group_head p k))"

function pages_free_loop :: "bool \<Rightarrow> 64 word \<Rightarrow> nat \<Rightarrow> page_state \<Rightarrow> 64 word \<times> nat \<times> page_state" where
  "pages_free_loop hi p level st =
    (if level < RT_PAGE_MAX_ORDER - 1
     then let buddy = buddy_get p level st in
       if size_bits (pages st buddy) = of_nat level
       then pages_free_loop hi (if p < buddy then p else buddy) (level + 1) (page_remove hi buddy level st)
       else (p, level, st)
     else (p, level, st))"
  by pat_completeness auto
termination by (relation "measure (\<lambda>(_, _, level, _). RT_PAGE_MAX_ORDER - level)") auto

declare pages_free_loop.simps [simp del]

definition pages_free :: "(64 word \<Rightarrow> bool) \<Rightarrow> bool \<Rightarrow> 64 word \<Rightarrow> 32 word \<Rightarrow> page_state \<Rightarrow> (int \<times> page_state) option" where
  "pages_free mapped hi p bits st = do {
     rt_assert (p < MPR_PAGES);
     rt_assert (mapped p);
     rt_assert (ref_cnt (pages st p) > 0);
     rt_assert (size_bits (pages st p) = ARCH_ADDRESS_WIDTH_BITS);
     rt_assert (unat bits < RT_PAGE_MAX_ORDER);
     let st1 = upd_page p (\<lambda>r. r\<lparr>ref_cnt := ref_cnt r - 1\<rparr>) st;
     if ref_cnt (pages st1 p) \<noteq> 0 then Some (0, st1)
     else let (p', level, st2) = pages_free_loop hi p (unat bits) st1
       in Some (1, page_insert hi p' level st2)
   }"

text \<open>The first order from \<open>level\<close> on with a free block, \<^verbatim>\<open>RT_PAGE_MAX_ORDER\<close> when there is none.\<close>

function find_level :: "bool \<Rightarrow> nat \<Rightarrow> page_state \<Rightarrow> nat" where
  "find_level hi level st =
    (if level < RT_PAGE_MAX_ORDER \<and> page_list st hi level = None then find_level hi (level + 1) st else level)"
  by pat_completeness auto
termination by (relation "measure (\<lambda>(_, level, _). RT_PAGE_MAX_ORDER - level)") auto

declare find_level.simps [simp del]

text \<open>The loop that splits a block of order \<open>k + d\<close> down to order \<open>k\<close>.\<close>

fun pages_split_loop :: "bool \<Rightarrow> 64 word \<Rightarrow> nat \<Rightarrow> nat \<Rightarrow> page_state \<Rightarrow> 64 word \<times> page_state" where
  "pages_split_loop hi p k 0 st = (p, st)"
| "pages_split_loop hi p k (Suc d) st =
    (let st1 = page_insert hi p (k + d) st
     in pages_split_loop hi (buddy_get p (k + d) st1) k d st1)"

text \<open>
  \<^verbatim>\<open>_pages_alloc\<close> does not check the order; an order outside the table of lists is outside of the model.
\<close>

definition pages_alloc :: "bool \<Rightarrow> 32 word \<Rightarrow> page_state \<Rightarrow> (64 word option \<times> page_state) option" where
  "pages_alloc hi bits st = do {
     let k = unat bits;
     rt_assert (k < RT_PAGE_MAX_ORDER);
     let found = (case page_list st hi k of
         Some p \<Rightarrow> Some (p, page_remove hi p k st)
       | None \<Rightarrow>
         let level = find_level hi (k + 1) st
         in if level = RT_PAGE_MAX_ORDER then None
            else case page_list st hi level of
              None \<Rightarrow> None
            | Some p \<Rightarrow> Some (pages_split_loop hi p k (level - k) (page_remove hi p level st)));
     Some (case found of
         None \<Rightarrow> (None, st)
       | Some (p, st1) \<Rightarrow> (Some p, upd_page p (\<lambda>r. r\<lparr>size_bits := ARCH_ADDRESS_WIDTH_BITS, ref_cnt := 1\<rparr>) st1))
   }"

text \<open>
  The allocator while the master page record is not mapped yet: the records are reached at an offset,
  and every record that is put on a list is checked to be in range.
\<close>

fun early_split_loop :: "bool \<Rightarrow> 64 word \<Rightarrow> nat \<Rightarrow> nat \<Rightarrow> page_state \<Rightarrow> (64 word \<times> page_state) option" where
  "early_split_loop hi p k 0 st = Some (p, st)"
| "early_split_loop hi p k (Suc d) st = do {
     rt_assert (p < MPR_PAGES);
     let st1 = page_insert hi p (k + d) st;
     early_split_loop hi (buddy_get p (k + d) st1) k d st1
   }"

definition early_pages_alloc :: "bool \<Rightarrow> 32 word \<Rightarrow> page_state \<Rightarrow> (64 word option \<times> page_state) option" where
  "early_pages_alloc hi bits st = do {
     let k = unat bits;
     rt_assert (k < RT_PAGE_MAX_ORDER);
     found \<leftarrow> (case page_list st hi k of
         Some p \<Rightarrow> Some (Some (p, page_remove hi p k st))
       | None \<Rightarrow>
         let level = find_level hi (k + 1) st
         in if level = RT_PAGE_MAX_ORDER then Some None
            else case page_list st hi level of
              None \<Rightarrow> Some None
            | Some p \<Rightarrow> map_option Some (early_split_loop hi p k (level - k) (page_remove hi p level st)));
     Some (case found of
         None \<Rightarrow> (None, st)
       | Some (p, st1) \<Rightarrow> (Some p, upd_page p (\<lambda>r. r\<lparr>size_bits := ARCH_ADDRESS_WIDTH_BITS, ref_cnt := 1\<rparr>) st1))
   }"

abbreviation (input) PAGE_ANY_AVAILABLE :: "64 word" where "PAGE_ANY_AVAILABLE \<equiv> 1"

definition flag_to_page_list :: "64 word \<Rightarrow> page_state \<Rightarrow> bool" where
  "flag_to_page_list flags st \<longleftrightarrow> high_page_configured st \<and> flags AND PAGE_ANY_AVAILABLE \<noteq> 0"

definition do_pages_alloc :: "32 word \<Rightarrow> 64 word \<Rightarrow> page_state \<Rightarrow> (64 word option \<times> page_state) option" where
  "do_pages_alloc bits flags st = do {
     let hi = flag_to_page_list flags st;
     (p, st1) \<leftarrow> pages_alloc hi bits st;
     (p', st2) \<leftarrow> (if p = None \<and> hi then pages_alloc False bits st1 else Some (p, st1));
     Some (case p' of None \<Rightarrow> None | Some q \<Rightarrow> Some (page_to_addr q st2), st2)
   }"

text \<open>The same with the handler that \<^verbatim>\<open>rt_page_init\<close> sets until the record is mapped.\<close>

definition early_do_pages_alloc :: "32 word \<Rightarrow> 64 word \<Rightarrow> page_state \<Rightarrow> (64 word option \<times> page_state) option" where
  "early_do_pages_alloc bits flags st = do {
     let hi = flag_to_page_list flags st;
     (p, st1) \<leftarrow> early_pages_alloc hi bits st;
     (p', st2) \<leftarrow> (if p = None \<and> hi then early_pages_alloc False bits st1 else Some (p, st1));
     Some (case p' of None \<Rightarrow> None | Some q \<Rightarrow> Some (page_to_addr q st2), st2)
   }"

definition rt_pages_alloc :: "32 word \<Rightarrow> page_state \<Rightarrow> (64 word option \<times> page_state) option" where
  "rt_pages_alloc bits st = do_pages_alloc bits 0 st"

definition rt_pages_alloc_ext :: "32 word \<Rightarrow> 64 word \<Rightarrow> page_state \<Rightarrow> (64 word option \<times> page_state) option" where
  "rt_pages_alloc_ext bits flags st = do_pages_alloc bits flags st"

definition get_page_list :: "64 word \<Rightarrow> page_state \<Rightarrow> bool" where
  "get_page_list vaddr st \<longleftrightarrow> 0xffffffff < vaddr + pv_offset st"

definition rt_pages_free :: "(64 word \<Rightarrow> bool) \<Rightarrow> 64 word \<Rightarrow> 32 word \<Rightarrow> page_state \<Rightarrow> (int \<times> page_state) option" where
  "rt_pages_free mapped addr bits st = pages_free mapped (get_page_list addr st) (addr_to_page addr st) bits st"

definition rt_page_ref_get :: "64 word \<Rightarrow> 32 word \<Rightarrow> page_state \<Rightarrow> 32 word" where
  "rt_page_ref_get addr bits st = pages_ref_get (addr_to_page addr st) (unat bits) st"

definition rt_page_ref_inc :: "64 word \<Rightarrow> 32 word \<Rightarrow> page_state \<Rightarrow> page_state" where
  "rt_page_ref_inc addr bits st = pages_ref_inc (addr_to_page addr st) (unat bits) st"

text \<open>
  The walk over one list of free blocks, which adds up their pages; a list with a cycle has no end, so
  the value of the walk is then \<open>None\<close>.
\<close>

partial_function (option) count_list :: "page_state \<Rightarrow> nat \<Rightarrow> 64 word option \<Rightarrow> 64 word \<Rightarrow> 64 word option" where
  "count_list st i p total_free = (case p of
      None \<Rightarrow> Some total_free
    | Some q \<Rightarrow> count_list st i (pg_next (pages st q)) (total_free + push_bit i 1))"

fun count_levels :: "page_state \<Rightarrow> bool \<Rightarrow> nat list \<Rightarrow> 64 word \<Rightarrow> 64 word option" where
  "count_levels st hi [] total_free = Some total_free"
| "count_levels st hi (i # is) total_free = do {
     total_free' \<leftarrow> count_list st i (page_list st hi i) total_free;
     count_levels st hi is total_free'
   }"

definition rt_page_get_info :: "page_state \<Rightarrow> (64 word \<times> 64 word) option" where
  "rt_page_get_info st = do {
     low \<leftarrow> count_levels st False [0..<RT_PAGE_MAX_ORDER] 0;
     total_free \<leftarrow> count_levels st True [0..<RT_PAGE_MAX_ORDER] low;
     Some (page_nr st, total_free)
   }"

definition rt_page_high_get_info :: "page_state \<Rightarrow> (64 word \<times> 64 word) option" where
  "rt_page_high_get_info st = do {
     total_free \<leftarrow> count_levels st True [0..<RT_PAGE_MAX_ORDER] 0;
     Some (high_pages_nr st, total_free)
   }"

text \<open>
  Making a region of memory available.  The pages around the region, up to the next multiples of the
  largest block, are marked so that they are never taken for a free buddy; then the region is cut into
  the largest aligned blocks.  \<open>early\<close> tells \<^verbatim>\<open>_early_page_insert\<close>, which asserts that the record is in range,
  from \<^verbatim>\<open>_page_insert\<close>.  \<^verbatim>\<open>__builtin_ctzl\<close> is not defined for zero, and the loop has no end for a region
  that is not a multiple of a page, so both are outside of the model.
\<close>

abbreviation (input) shadow_mask :: "64 word" where "shadow_mask \<equiv> 0x3fffff"

definition FLOOR :: "64 word \<Rightarrow> 64 word \<Rightarrow> 64 word" where
  "FLOOR val align = (val + align - 1) AND NOT (align - 1)"

definition rt_hw_ctz :: "64 word \<Rightarrow> nat" where
  "rt_hw_ctz n = length (takeWhile (\<lambda>i. \<not> bit n i) [0..<64])"

function mark_illegal :: "64 word \<Rightarrow> 64 word \<Rightarrow> page_state \<Rightarrow> page_state" where
  "mark_illegal iter tail st =
    (if iter < tail
     then mark_illegal (iter + 1) tail (upd_page iter (\<lambda>r. r\<lparr>size_bits := ARCH_ADDRESS_WIDTH_BITS\<rparr>) st)
     else st)"
  by pat_completeness auto
termination
proof (relation "measure (\<lambda>(iter, tail, _). unat tail - unat iter)")
  fix iter tail :: "64 word" and st :: page_state
  assume "iter < tail"
  moreover have "unat tail < 2 ^ 64" using unsigned_less [of tail, where ?'a = nat] by simp
  ultimately have "unat (iter + 1) = unat iter + 1" "unat iter < unat tail"
    using unat_plus [of iter 1] by (simp_all add: word_less_nat_alt)
  then show "((iter + 1, tail, upd_page iter (\<lambda>r. r\<lparr>size_bits := 64\<rparr>) st), (iter, tail, st)) \<in> measure (\<lambda>(iter, tail, _). unat tail - unat iter)"
    by simp
qed auto

declare mark_illegal.simps [simp del]

definition block_bits :: "64 word \<Rightarrow> 64 word \<Rightarrow> nat" where
  "block_bits reg_start reg_end =
    (let size_bits0 = 64 - 1 - rt_hw_clz (reg_end - reg_start);
         align_bits = rt_hw_ctz reg_start;
         size_bits1 = (if align_bits < size_bits0 then align_bits else size_bits0);
         max_order = RT_PAGE_MAX_ORDER + ARCH_PAGE_SHIFT - 1
     in if max_order < size_bits1 then max_order else size_bits1)"

partial_function (option) install_loop :: "bool \<Rightarrow> 64 word \<Rightarrow> 64 word \<Rightarrow> page_state \<Rightarrow> page_state option" where
  "install_loop early reg_start reg_end st =
    (if reg_start = reg_end then Some st
     else do {
       rt_assert (reg_start \<noteq> 0);
       let bits = block_bits reg_start reg_end;
       rt_assert (ARCH_PAGE_SHIFT \<le> bits);
       let p = addr_to_page reg_start st;
       let st1 = upd_page p (\<lambda>r. r\<lparr>size_bits := ARCH_ADDRESS_WIDTH_BITS, ref_cnt := 0\<rparr>) st;
       let hi = get_page_list reg_start st1;
       let st2 = (if hi then st1\<lparr>high_pages_nr := high_pages_nr st1 + push_bit (bits - ARCH_PAGE_SHIFT) 1\<rparr> else st1);
       rt_assert (early \<longrightarrow> p < MPR_PAGES);
       install_loop early (reg_start + push_bit bits 1) reg_end (page_insert hi p (bits - ARCH_PAGE_SHIFT) st2)
     })"

definition install_page :: "bool \<Rightarrow> 64 word \<Rightarrow> 64 word \<Rightarrow> page_state \<Rightarrow> page_state option" where
  "install_page early reg_start reg_end st =
    (let shadow_start = reg_start AND NOT shadow_mask;
         shadow_end = FLOOR reg_end (shadow_mask + 1);
         st1 = (if 0xffffffff < shadow_end + pv_offset st then st\<lparr>high_page_configured := True\<rparr> else st);
         st2 = mark_illegal (addr_to_page shadow_start st) (addr_to_page reg_start st) st1;
         st3 = mark_illegal (addr_to_page reg_end st) (addr_to_page shadow_end st) st2
     in install_loop early reg_start reg_end st3)"

text \<open>
  The first part of \<^verbatim>\<open>rt_page_init\<close>, up to the work on the kernel page table: the lists are emptied, the front
  of the region is set aside for the master page record of the region and its surroundings, 32 bytes for
  each page, and the rest is installed.  \<open>rt_mpr_start\<close> is the address of the record, whose mapping into
  the kernel address space is taken to have succeeded.
\<close>

abbreviation (input) ARCH_PAGE_MASK :: "64 word" where "ARCH_PAGE_MASK \<equiv> 0xfff"

definition init_mpr_size :: "64 word \<Rightarrow> 64 word \<Rightarrow> 64 word \<Rightarrow> page_state \<Rightarrow> 64 word" where
  "init_mpr_size rt_mpr_start reg_start reg_end st =
    (let shadow_start = reg_start AND NOT shadow_mask;
         shadow_end = FLOOR reg_end (shadow_mask + 1);
         init_mpr_align_start = (rt_mpr_start + 32 * addr_to_page shadow_start st) AND NOT ARCH_PAGE_MASK;
         init_mpr_align_end = FLOOR (rt_mpr_start + 32 * addr_to_page shadow_end st) (ARCH_PAGE_MASK + 1)
     in init_mpr_align_end - init_mpr_align_start)"

definition page_init_lists :: "64 word \<Rightarrow> 64 word \<Rightarrow> 64 word \<Rightarrow> page_state \<Rightarrow> page_state option" where
  "page_init_lists rt_mpr_start start0 end0 st = do {
     let reg_start = (start0 + ARCH_PAGE_MASK) AND NOT ARCH_PAGE_MASK;
     let reg_end = end0 AND NOT ARCH_PAGE_MASK;
     rt_assert (reg_start < reg_end);
     let st1 = st\<lparr>page_nr := drop_bit ARCH_PAGE_SHIFT (reg_end - reg_start),
                 page_list := (\<lambda>_ _. None)\<rparr>;
     let st2 = mark_illegal (addr_to_page reg_start st) (addr_to_page reg_end st) st1;
     install_page True (reg_start + init_mpr_size rt_mpr_start reg_start reg_end st) reg_end st2
   }"

section \<open>Buddies\<close>

definition buddy :: "64 word \<Rightarrow> nat \<Rightarrow> 64 word" where
  "buddy p k = p XOR push_bit k 1"

lemma bit_unat: "bit p k \<longleftrightarrow> odd (unat p div 2 ^ k)" for p :: "64 word"
proof -
  have "bit (unat p) k = bit p k" using bit_imp_le_length [of p k] by (auto simp: bit_unsigned_iff)
  then show ?thesis by (simp add: bit_iff_odd)
qed

lemma xor_bit: "a XOR 2 ^ k = (if bit a k then a - 2 ^ k else a + 2 ^ k)" for a :: "64 word"
proof -
  have f: "a XOR 2 ^ k = flip_bit k a" by (simp add: flip_bit_eq_xor)
  show ?thesis
  proof (cases "bit a k")
    case True
    then have "flip_bit k a = unset_bit k a" by (simp add: flip_bit_eq_if)
    then show ?thesis using True f unset_bit_eq [of k a] by simp
  next
    case False
    then have "flip_bit k a = set_bit k a" by (simp add: flip_bit_eq_if)
    then show ?thesis using False f set_bit_eq [of k a] by simp
  qed
qed

lemma buddy_alt: "buddy p k = p XOR 2 ^ k"
  by (simp add: buddy_def)

lemma unat_pow: "k < 64 \<Longrightarrow> unat (2 ^ k :: 64 word) = 2 ^ k"
proof -
  assume "k < 64"
  then have "(2 :: nat) ^ k < 2 ^ 64" by (rule power_strict_increasing) simp
  moreover have "(2 :: 64 word) ^ k = of_nat (2 ^ k)" by simp
  ultimately show ?thesis by (simp only: unat_of_nat) simp
qed

lemma pow_10: "k \<le> 10 \<Longrightarrow> (2 :: nat) ^ k \<le> 1024"
  using power_increasing [of k 10 "2 :: nat"] by simp

lemma buddy_unat:
  assumes k: "k \<le> 10" and p: "2 ^ k dvd unat p" "unat p < 2 ^ 27"
  shows "unat (buddy p k) = (if odd (unat p div 2 ^ k) then unat p - 2 ^ k else unat p + 2 ^ k)"
proof -
  have pw: "unat (2 ^ k :: 64 word) = 2 ^ k" "(2 :: nat) ^ k \<le> 1024"
    using k by (simp_all add: unat_pow pow_10)
  show ?thesis
  proof (cases "odd (unat p div 2 ^ k)")
    case True
    then have "0 < unat p div 2 ^ k" by (cases "unat p div 2 ^ k = 0") auto
    then have "2 ^ k \<le> unat p" by (simp add: div_greater_zero_iff)
    then have "unat (p - 2 ^ k) = unat p - 2 ^ k" using unat_sub [of "2 ^ k" p] pw by (simp add: word_le_nat_alt)
    then show ?thesis using True by (simp add: buddy_alt xor_bit bit_unat)
  next
    case False
    have "unat p + 2 ^ k < 2 ^ 64" using pw(2) p(2) by simp
    then have "unat (p + 2 ^ k) = unat p + 2 ^ k" using unat_plus [of p "2 ^ k"] pw(1) by simp
    then show ?thesis using False by (simp add: buddy_alt xor_bit bit_unat)
  qed
qed

lemma buddy_buddy [simp]: "buddy (buddy p k) k = p"
  by (simp add: buddy_def xor.assoc)

text \<open>With the offset a multiple of the largest block, the buddy on addresses is the buddy on indices.\<close>

lemma bit_minus_multiple:
  fixes x pv :: "64 word"
  assumes pv: "take_bit 23 pv = 0" and n: "n < 23"
  shows "bit (x - pv) n = bit x n"
proof -
  have "uint (x - pv) = take_bit 64 (uint x - uint pv)" by (simp add: uint_word_ariths take_bit_eq_mod)
  then have "bit (x - pv) n = bit (uint x - uint pv) n"
    using n bit_uint_iff [of "x - pv" n] by (simp add: bit_take_bit_iff)
  also have "\<dots> = bit (take_bit 23 (uint x - uint pv)) n" using n by (simp add: bit_take_bit_iff)
  also have "take_bit 23 (uint x - uint pv) = take_bit 23 (uint x)"
  proof -
    have "take_bit 23 (uint pv) = uint (take_bit 23 pv)" by (simp add: unsigned_take_bit_eq)
    then show ?thesis using take_bit_diff [of 23 "uint x" "uint pv"] pv by simp
  qed
  also have "bit (take_bit 23 (uint x)) n = bit x n" using n by (simp add: bit_take_bit_iff bit_uint_iff)
  finally show ?thesis .
qed

lemma buddy_get_eq:
  assumes pv: "take_bit 23 (pv_offset st) = 0" and p: "unat p < 2 ^ 27" and k: "k \<le> 10"
  shows "buddy_get p k st = buddy p k"
proof -
  let ?a = "push_bit 12 p - pv_offset st" and ?n = "k + 12"
  have b: "bit ?a ?n = bit p k" using bit_minus_multiple [OF pv, of ?n "push_bit 12 p"] k by (simp add: bit_push_bit_iff)
  have x: "(?a XOR 2 ^ ?n) + pv_offset st = push_bit 12 (buddy p k)"
    unfolding buddy_alt xor_bit b by (simp add: push_bit_eq_mult power_add algebra_simps)
  have "unat (take_bit 52 p) = take_bit 52 (unat p)" by (simp add: unsigned_take_bit_eq)
  then have "take_bit 52 p = p" using p by (simp add: word_unat_eq_iff take_bit_nat_eq_self)
  moreover have "take_bit 52 (2 ^ k :: 64 word) = 2 ^ k" using k unat_pow [of k] pow_10 [OF k]
    by (simp add: word_unat_eq_iff unsigned_take_bit_eq take_bit_nat_eq_self)
  ultimately have "take_bit 52 (buddy p k) = buddy p k" by (simp add: buddy_alt take_bit_xor)
  moreover have "drop_bit 12 (push_bit 12 y) = take_bit 52 y" for y :: "64 word"
    by (rule bit_word_eqI) (auto simp: bit_simps)
  ultimately have "drop_bit 12 (push_bit 12 (buddy p k)) = buddy p k" by simp
  then show ?thesis using x by (simp add: buddy_get_def page_to_addr_def addr_to_page_def)
qed

section \<open>Lists of free blocks\<close>

text \<open>
  \<open>pseg pg pre head xs q n\<close>: from \<open>head\<close>, with back link \<open>pre\<close>, the links of \<open>pg\<close> run through \<open>xs\<close> and end at
  \<open>n\<close>, whose back link has to be \<open>q\<close>.
\<close>

fun pseg :: "(64 word \<Rightarrow> rt_page) \<Rightarrow> 64 word option \<Rightarrow> 64 word option \<Rightarrow> 64 word list \<Rightarrow> 64 word option \<Rightarrow> 64 word option \<Rightarrow> bool" where
  "pseg pg pre head [] q n \<longleftrightarrow> q = pre \<and> head = n"
| "pseg pg pre head (x # xs) q n \<longleftrightarrow> head = Some x \<and> pg_pre (pg x) = pre \<and> pseg pg (Some x) (pg_next (pg x)) xs q n"

type_synonym free_lists = "bool \<Rightarrow> nat \<Rightarrow> 64 word list"

definition dll :: "(64 word \<Rightarrow> rt_page) \<Rightarrow> 64 word option \<Rightarrow> 64 word list \<Rightarrow> bool" where
  "dll pg head xs \<longleftrightarrow> distinct xs \<and> (\<exists>q. pseg pg None head xs q None)"

definition lists_ok :: "page_state \<Rightarrow> free_lists \<Rightarrow> bool" where
  "lists_ok st fl \<longleftrightarrow> (\<forall>hi k. dll (pages st) (page_list st hi k) (fl hi k)) \<and>
     (\<forall>hi k hj j x. x \<in> set (fl hi k) \<longrightarrow> x \<in> set (fl hj j) \<longrightarrow> hi = hj \<and> k = j)"

definition without :: "64 word \<Rightarrow> free_lists \<Rightarrow> free_lists" where
  "without p fl = (\<lambda>hi k. removeAll p (fl hi k))"

definition push_fl :: "bool \<Rightarrow> nat \<Rightarrow> 64 word \<Rightarrow> free_lists \<Rightarrow> free_lists" where
  "push_fl hi k p fl = fl(hi := (fl hi)(k := p # fl hi k))"

lemma pseg_cong:
  assumes "\<And>x. x \<in> set xs \<Longrightarrow> pg_next (pg' x) = pg_next (pg x) \<and> pg_pre (pg' x) = pg_pre (pg x)"
  shows "pseg pg' pre head xs q n = pseg pg pre head xs q n"
  using assms by (induction xs arbitrary: pre head) auto

lemma pseg_append: "pseg pg pre head (xs @ ys) q n \<longleftrightarrow> (\<exists>m c. pseg pg pre head xs m c \<and> pseg pg m c ys q n)"
  by (induction xs arbitrary: pre head) auto

lemma dll_cong:
  "(\<And>x. x \<in> set xs \<Longrightarrow> pg_next (pg' x) = pg_next (pg x) \<and> pg_pre (pg' x) = pg_pre (pg x)) \<Longrightarrow> dll pg' head xs = dll pg head xs"
  using pseg_cong [of xs pg' pg] by (simp add: dll_def)

lemma dll_head: "dll pg head xs \<Longrightarrow> head = (case xs of [] \<Rightarrow> None | x # _ \<Rightarrow> Some x)"
  by (cases xs) (auto simp: dll_def)

text \<open>The neighbours of an element of a list, as its links name them.\<close>

lemma dll_links:
  assumes "dll pg head (us @ p # ws)"
  shows "pg_pre (pg p) = (if us = [] then None else Some (last us))" "pg_next (pg p) = (case ws of [] \<Rightarrow> None | w # _ \<Rightarrow> Some w)"
proof -
  obtain q m c where l: "pseg pg None head us m c" "pseg pg m c (p # ws) q None"
    using assms by (auto simp: dll_def pseg_append)
  have "m = (if us = [] then None else Some (last us))"
    using l(1) by (cases us rule: rev_cases) (auto simp: pseg_append)
  then show "pg_pre (pg p) = (if us = [] then None else Some (last us))" using l(2) by simp
  show "pg_next (pg p) = (case ws of [] \<Rightarrow> None | w # _ \<Rightarrow> Some w)" using l(2) by (cases ws) auto
qed

lemma pseg_relink_end:
  assumes "pseg pg pre head (vs @ [v]) q n" "distinct (vs @ [v])"
    and "\<And>x. x \<in> set (vs @ [v]) \<Longrightarrow> pg_pre (pg' x) = pg_pre (pg x)" "\<And>x. x \<in> set vs \<Longrightarrow> pg_next (pg' x) = pg_next (pg x)"
    and "pg_next (pg' v) = n'"
  shows "pseg pg' pre head (vs @ [v]) q n'"
proof -
  have "pseg pg' pre head vs m c = pseg pg pre head vs m c" for m c
    by (rule pseg_cong) (use assms(3,4) in auto)
  then show ?thesis using assms(1,3,5) by (auto simp: pseg_append)
qed

lemma pseg_relink_start:
  assumes "pseg pg pre head xs q n" "\<And>x. x \<in> set xs \<Longrightarrow> pg_next (pg' x) = pg_next (pg x)"
    and "\<And>x. x \<in> set xs \<Longrightarrow> pg_pre (pg' x) = (if head = Some x then pre' else pg_pre (pg x))" "distinct xs"
  shows "\<exists>q'. pseg pg' pre' head xs q' n"
proof (cases xs)
  case (Cons x ys)
  have "pseg pg' (Some x) (pg_next (pg x)) ys q n = pseg pg (Some x) (pg_next (pg x)) ys q n"
    by (rule pseg_cong) (use assms Cons in auto)
  then show ?thesis using assms Cons by auto
qed (use assms in auto)

lemma dll_remove:
  assumes d: "dll pg head (us @ p # ws)"
    and new: "\<And>x. x \<in> set us \<union> set ws \<Longrightarrow>
      pg_next (pg' x) = (if pg_pre (pg p) = Some x then pg_next (pg p) else pg_next (pg x)) \<and>
      pg_pre (pg' x) = (if pg_next (pg p) = Some x then pg_pre (pg p) else pg_pre (pg x))"
  shows "dll pg' (if pg_pre (pg p) = None then pg_next (pg p) else head) (us @ ws)"
proof -
  have dist: "distinct (us @ p # ws)" using d by (simp add: dll_def)
  obtain q m c where l: "pseg pg None head us m c" "pseg pg m c (p # ws) q None"
    using d by (auto simp: dll_def pseg_append)
  note lk = dll_links [OF d]
  have wsl: "pseg pg (Some p) (pg_next (pg p)) ws q None" using l(2) by simp
  have wn: "pg_next (pg' x) = pg_next (pg x)" if "x \<in> set ws" for x
    using new [of x] that lk(1) dist by (cases us rule: rev_cases) auto
  have wp: "pg_pre (pg' x) = (if pg_next (pg p) = Some x then pg_pre (pg p) else pg_pre (pg x))" if "x \<in> set ws" for x
    using new [of x] that by simp
  obtain q' where q': "pseg pg' (pg_pre (pg p)) (pg_next (pg p)) ws q' None"
    using pseg_relink_start [OF wsl wn wp] dist by auto
  show ?thesis
  proof (cases us rule: rev_cases)
    case Nil
    then show ?thesis using q' lk(1) dist by (auto simp: dll_def)
  next
    case (snoc vs v)
    have nw: "pg_next (pg p) \<noteq> Some x" if "x \<in> set us" for x using lk(2) that dist by (cases ws) auto
    have v: "pg_pre (pg p) = Some v" using lk(1) snoc by simp
    have "pseg pg' None head (vs @ [v]) m (pg_next (pg p))"
    proof (rule pseg_relink_end)
      show "pseg pg None head (vs @ [v]) m c" using l(1) snoc by simp
      show "distinct (vs @ [v])" using dist snoc by simp
      show "pg_pre (pg' x) = pg_pre (pg x)" if "x \<in> set (vs @ [v])" for x
      proof -
        have "x \<in> set us" using that snoc by simp
        then show ?thesis using new [of x] nw [of x] by simp
      qed
      show "pg_next (pg' x) = pg_next (pg x)" if "x \<in> set vs" for x
      proof -
        have "x \<noteq> v" using dist snoc that by auto
        then show ?thesis using new [of x] v that snoc by simp
      qed
      show "pg_next (pg' v) = pg_next (pg p)" using new [of v] v snoc by simp
    qed
    moreover have "m = pg_pre (pg p)" using l(2) by simp
    ultimately show ?thesis using q' lk(1) dist snoc by (auto simp: dll_def pseg_append)
  qed
qed

lemma dll_push:
  assumes d: "dll pg head xs" and p: "p \<notin> set xs" "pg_next (pg' p) = head" "pg_pre (pg' p) = None"
    and new: "\<And>x. x \<in> set xs \<Longrightarrow> pg_next (pg' x) = pg_next (pg x) \<and> pg_pre (pg' x) = (if head = Some x then Some p else pg_pre (pg x))"
  shows "dll pg' (Some p) (p # xs)"
proof -
  obtain q where "pseg pg None head xs q None" "distinct xs" using d by (auto simp: dll_def)
  then obtain q' where "pseg pg' (Some p) head xs q' None"
    using pseg_relink_start [of pg None head xs q None pg' "Some p"] new by auto
  then show ?thesis using p d by (auto simp: dll_def)
qed

lemma upd_page_fields [simp]:
  "pages (upd_page p f st) x = (if x = p then f (pages st p) else pages st x)" "page_list (upd_page p f st) = page_list st"
  "pv_offset (upd_page p f st) = pv_offset st" "high_page_configured (upd_page p f st) = high_page_configured st"
  by (simp_all add: upd_page_def)

lemma set_list_fields [simp]:
  "pages (set_list hi k p st) = pages st" "pv_offset (set_list hi k p st) = pv_offset st"
  "page_list (set_list hi k p st) hj j = (if hj = hi \<and> j = k then p else page_list st hj j)"
  "high_page_configured (set_list hi k p st) = high_page_configured st"
  by (simp_all add: set_list_def)

lemma lists_okD:
  assumes "lists_ok st fl"
  shows "dll (pages st) (page_list st hi k) (fl hi k)" "x \<in> set (fl hi k) \<Longrightarrow> x \<in> set (fl hj j) \<Longrightarrow> hi = hj \<and> k = j"
    "page_list st hi k = (case fl hi k of [] \<Rightarrow> None | x # _ \<Rightarrow> Some x)"
proof -
  show d: "dll (pages st) (page_list st hi k) (fl hi k)" using assms by (simp add: lists_ok_def)
  show "x \<in> set (fl hi k) \<Longrightarrow> x \<in> set (fl hj j) \<Longrightarrow> hi = hj \<and> k = j" using assms unfolding lists_ok_def by blast
  show "page_list st hi k = (case fl hi k of [] \<Rightarrow> None | x # _ \<Rightarrow> Some x)" by (rule dll_head [OF d])
qed

lemma without_in: "set (without p fl hi k) = set (fl hi k) - {p}"
  by (simp add: without_def)

lemma page_remove_ok:
  fixes hi :: bool and k :: nat
  assumes ok: "lists_ok st fl" and p: "p \<in> set (fl hi k)"
  defines "st' \<equiv> page_remove hi p k st"
  shows "lists_ok st' (without p fl)" "size_bits (pages st' x) = (if x = p then 64 else size_bits (pages st x))"
    "ref_cnt (pages st' x) = ref_cnt (pages st x)" "pv_offset st' = pv_offset st" "high_page_configured st' = high_page_configured st"
proof -
  obtain us ws where l: "fl hi k = us @ p # ws" using p by (meson split_list)
  note d = lists_okD(1) [OF ok, of hi k, unfolded l]
  note lk = dll_links [OF d]
  have dist: "distinct (us @ p # ws)" using d by (simp add: dll_def)
  have self: "pg_pre (pages st p) \<noteq> Some p" "pg_next (pages st p) \<noteq> Some p"
    using lk dist by (cases us rule: rev_cases; cases ws; auto)+
  have nx: "pg_next (pages st' x) = (if pg_pre (pages st p) = Some x then pg_next (pages st p) else pg_next (pages st x))"
    and pr: "pg_pre (pages st' x) = (if pg_next (pages st p) = Some x then pg_pre (pages st p) else pg_pre (pages st x))" for x
    using self by (auto simp: st'_def page_remove_def Let_def split: option.splits)
  have hd: "page_list st' hj j = (if hj = hi \<and> j = k \<and> pg_pre (pages st p) = None then pg_next (pages st p) else page_list st hj j)" for hj j
    using self by (auto simp: st'_def page_remove_def Let_def split: option.splits)
  have nb: "x \<in> set (fl hi k)" if "pg_pre (pages st p) = Some x \<or> pg_next (pages st p) = Some x" for x
    using that lk l by (cases us rule: rev_cases; cases ws) auto
  have "dll (pages st') (page_list st' hj j) (without p fl hj j)" for hj j
  proof (cases "hj = hi \<and> j = k")
    case True
    have "without p fl hi k = us @ ws" using dist by (simp add: without_def l removeAll_id)
    then show ?thesis using dll_remove [OF d, of "pages st'"] nx pr hd [of hi k] True by (simp split: if_splits)
  next
    case False
    have no: "x \<notin> set (fl hi k)" if "x \<in> set (fl hj j)" for x using lists_okD(2) [OF ok that, of hi k] False by auto
    then have "p \<notin> set (fl hj j)" using p by blast
    then have "without p fl hj j = fl hj j" by (simp add: without_def)
    moreover have "dll (pages st') (page_list st hj j) (fl hj j) = dll (pages st) (page_list st hj j) (fl hj j)"
      by (rule dll_cong) (use nx pr no nb in auto)
    ultimately show ?thesis using lists_okD(1) [OF ok, of hj j] hd [of hj j] False by auto
  qed
  moreover have "hj = hl \<and> j = i" if "x \<in> set (without p fl hj j)" "x \<in> set (without p fl hl i)" for hj j hl i x
    using lists_okD(2) [OF ok, of x hj j hl i] that by (auto simp: without_in)
  ultimately show "lists_ok st' (without p fl)" by (auto simp: lists_ok_def)
  show "size_bits (pages st' x) = (if x = p then 64 else size_bits (pages st x))" "ref_cnt (pages st' x) = ref_cnt (pages st x)"
    "pv_offset st' = pv_offset st" "high_page_configured st' = high_page_configured st"
    by (auto simp: st'_def page_remove_def Let_def split: option.splits)
qed

lemma page_insert_ok:
  fixes hi :: bool and k :: nat
  assumes ok: "lists_ok st fl" and p: "\<And>hj j. p \<notin> set (fl hj j)"
  defines "st' \<equiv> page_insert hi p k st"
  shows "lists_ok st' (push_fl hi k p fl)" "size_bits (pages st' x) = (if x = p then of_nat k else size_bits (pages st x))"
    "ref_cnt (pages st' x) = ref_cnt (pages st x)" "pv_offset st' = pv_offset st" "high_page_configured st' = high_page_configured st"
proof -
  have hp: "page_list st hi k \<noteq> Some p" using lists_okD(3) [OF ok, of hi k] p [of hi k] by (auto split: list.splits)
  have f: "pg_next (pages st' p) = page_list st hi k" "pg_pre (pages st' p) = None"
    "x \<noteq> p \<Longrightarrow> pg_next (pages st' x) = pg_next (pages st x)"
    "x \<noteq> p \<Longrightarrow> pg_pre (pages st' x) = (if page_list st hi k = Some x then Some p else pg_pre (pages st x))"
    "page_list st' hj j = (if hj = hi \<and> j = k then Some p else page_list st hj j)" for x hj j
    using hp by (auto simp: st'_def page_insert_def Let_def split: option.splits)
  have "dll (pages st') (page_list st' hj j) (push_fl hi k p fl hj j)" for hj j
  proof (cases "hj = hi \<and> j = k")
    case True
    have "dll (pages st') (Some p) (p # fl hi k)"
    proof (rule dll_push [where pg' = "pages st'", OF lists_okD(1) [OF ok, of hi k] p [of hi k] f(1,2)])
      fix x assume "x \<in> set (fl hi k)"
      then have "x \<noteq> p" using p [of hi k] by blast
      then show "pg_next (pages st' x) = pg_next (pages st x) \<and>
          pg_pre (pages st' x) = (if page_list st hi k = Some x then Some p else pg_pre (pages st x))" using f(3,4) by simp
    qed
    then show ?thesis using True f(5) by (simp add: push_fl_def)
  next
    case False
    have no: "x \<notin> set (fl hi k)" if "x \<in> set (fl hj j)" for x using lists_okD(2) [OF ok that, of hi k] False by auto
    have "page_list st hi k \<noteq> Some x" if "x \<in> set (fl hj j)" for x
      using no [OF that] lists_okD(3) [OF ok, of hi k] by (auto split: list.splits)
    then have "dll (pages st') (page_list st hj j) (fl hj j) = dll (pages st) (page_list st hj j) (fl hj j)"
      by (intro dll_cong) (metis f(3,4) p)
    moreover have "push_fl hi k p fl hj j = fl hj j" using False by (auto simp: push_fl_def)
    ultimately show ?thesis using lists_okD(1) [OF ok, of hj j] f(5) False by auto
  qed
  moreover have "hj = hl \<and> j = i" if "x \<in> set (push_fl hi k p fl hj j)" "x \<in> set (push_fl hi k p fl hl i)" for hj j hl i x
    using lists_okD(2) [OF ok, of x hj j hl i] that p by (auto simp: push_fl_def split: if_splits)
  ultimately show "lists_ok st' (push_fl hi k p fl)" by (auto simp: lists_ok_def)
  show "size_bits (pages st' x) = (if x = p then of_nat k else size_bits (pages st x))" "ref_cnt (pages st' x) = ref_cnt (pages st x)"
    "pv_offset st' = pv_offset st" "high_page_configured st' = high_page_configured st"
    by (auto simp: st'_def page_insert_def Let_def split: option.splits)
qed

section \<open>Blocks\<close>

text \<open>A block is its first page and its order.\<close>

definition rng :: "64 word \<times> nat \<Rightarrow> nat set" where
  "rng b = {unat (fst b) ..< unat (fst b) + 2 ^ snd b}"

definition block_ok :: "64 word \<times> nat \<Rightarrow> bool" where
  "block_ok b \<longleftrightarrow> snd b \<le> 10 \<and> 2 ^ snd b dvd unat (fst b) \<and> unat (fst b) + 2 ^ snd b \<le> 2 ^ 27"

definition blocks_ok :: "(64 word \<times> nat) set \<Rightarrow> bool" where
  "blocks_ok B \<longleftrightarrow> (\<forall>b \<in> B. block_ok b) \<and> (\<forall>b \<in> B. \<forall>c \<in> B. b \<noteq> c \<longrightarrow> rng b \<inter> rng c = {})"

definition lower :: "64 word \<Rightarrow> nat \<Rightarrow> 64 word" where
  "lower p k = (if p < buddy p k then p else buddy p k)"

lemma block_okD:
  assumes "block_ok (p, k)"
  shows "k \<le> 10" "2 ^ k dvd unat p" "unat p + 2 ^ k \<le> 2 ^ 27" "unat p < 2 ^ 27"
proof -
  show b: "k \<le> 10" "2 ^ k dvd unat p" "unat p + 2 ^ k \<le> 2 ^ 27"
    using assms unfolding block_ok_def by auto
  have "(1 :: nat) \<le> 2 ^ k" by simp
  then show "unat p < 2 ^ 27" using b(3) by linarith
qed

lemma buddy_block:
  assumes "block_ok (p, k)" "k < 10"
  obtains j where "unat (lower p k) = 2 ^ Suc k * j" "unat p = 2 ^ Suc k * j \<and> unat (buddy p k) = 2 ^ Suc k * j + 2 ^ k \<or>
      unat p = 2 ^ Suc k * j + 2 ^ k \<and> unat (buddy p k) = 2 ^ Suc k * j" "2 ^ Suc k * Suc j \<le> 2 ^ 27"
proof -
  note b = block_okD [OF assms(1)]
  obtain m where m: "unat p = 2 ^ k * m" using b(2) by blast
  have md: "unat p div 2 ^ k = m" using m by simp
  note u = buddy_unat [OF b(1,2,4)]
  have top: "2 ^ Suc k * Suc (m div 2) \<le> 2 ^ 27"
  proof -
    have "2 ^ k * Suc m \<le> 2 ^ k * 2 ^ (27 - k)" using b(3) m assms(2) by (simp flip: power_add)
    then have "Suc m \<le> 2 ^ (27 - k)" by (simp only: mult_le_cancel1) simp
    moreover have "(2 :: nat) ^ (27 - k) = 2 * 2 ^ (26 - k)" using assms(2) by (simp flip: power_Suc add: Suc_diff_Suc)
    moreover have "2 * Suc (m div 2) \<le> 2 * N" if "Suc m \<le> 2 * N" for N using that by presburger
    ultimately have "2 * Suc (m div 2) \<le> 2 ^ (27 - k)" by metis
    then have "2 ^ k * (2 * Suc (m div 2)) \<le> 2 ^ k * 2 ^ (27 - k)" by (rule mult_le_mono2)
    then show ?thesis using assms(2) by (simp flip: power_add)
  qed
  show thesis
  proof (cases "odd m")
    case True
    then have mm: "unat p = 2 ^ Suc k * (m div 2) + 2 ^ k" "unat (buddy p k) = 2 ^ Suc k * (m div 2)"
      using m u md by (auto elim!: oddE simp: algebra_simps)
    moreover have "lower p k = buddy p k" using mm by (simp add: lower_def word_less_nat_alt)
    ultimately show thesis using that [of "m div 2"] top by simp
  next
    case False
    then have mm: "unat p = 2 ^ Suc k * (m div 2)" "unat (buddy p k) = 2 ^ Suc k * (m div 2) + 2 ^ k"
      using m u md by (auto elim!: evenE simp: algebra_simps)
    moreover have "lower p k = p" using mm by (simp add: lower_def word_less_nat_alt)
    ultimately show thesis using that [of "m div 2"] top by simp
  qed
qed

lemma merged_block:
  assumes "block_ok (p, k)" "k < 10"
  shows "block_ok (buddy p k, k)" "block_ok (lower p k, Suc k)" "rng (lower p k, Suc k) = rng (p, k) \<union> rng (buddy p k, k)"
    "rng (p, k) \<inter> rng (buddy p k, k) = {}" "unat (buddy p k) div 1024 = unat p div 1024"
proof -
  obtain j where j: "unat (lower p k) = 2 ^ Suc k * j" "unat p = 2 ^ Suc k * j \<and> unat (buddy p k) = 2 ^ Suc k * j + 2 ^ k \<or>
      unat p = 2 ^ Suc k * j + 2 ^ k \<and> unat (buddy p k) = 2 ^ Suc k * j" "2 ^ Suc k * Suc j \<le> 2 ^ 27"
    using buddy_block [OF assms] by blast
  have s: "2 ^ Suc k * Suc j = 2 ^ Suc k * j + 2 ^ k + 2 ^ k" by simp
  have dv: "2 ^ k dvd 2 ^ Suc k * j + 2 ^ k" "2 ^ k dvd 2 ^ Suc k * j" by simp_all
  show "block_ok (buddy p k, k)" using j(2,3) dv assms(2) unfolding block_ok_def s fst_conv snd_conv by auto
  show "block_ok (lower p k, Suc k)" using j(1,3) assms(2) unfolding block_ok_def fst_conv snd_conv by simp
  show "rng (lower p k, Suc k) = rng (p, k) \<union> rng (buddy p k, k)" "rng (p, k) \<inter> rng (buddy p k, k) = {}"
    using j(1,2) by (auto simp: rng_def)
  have "(2 ^ Suc k * j + r) div 1024 = j div 2 ^ (9 - k)" if "r < 2 ^ Suc k" for r
  proof -
    have "(1024 :: nat) = 2 ^ Suc k * 2 ^ (9 - k)" using assms(2) by (simp flip: power_add power_Suc)
    then have "(2 ^ Suc k * j + r) div 1024 = (2 ^ Suc k * j + r) div 2 ^ Suc k div 2 ^ (9 - k)" by (simp only: div_mult2_eq)
    also have "(2 ^ Suc k * j + r) div 2 ^ Suc k = j" using that by simp
    finally show ?thesis .
  qed
  from this [of 0] this [of "2 ^ k"] show "unat (buddy p k) div 1024 = unat p div 1024" using j(2) by auto
qed

lemma blocks_same_head: "blocks_ok B \<Longrightarrow> (p, k) \<in> B \<Longrightarrow> (p, j) \<in> B \<Longrightarrow> k = j"
proof -
  assume "blocks_ok B" "(p, k) \<in> B" "(p, j) \<in> B"
  moreover have "unat p \<in> rng (p, k) \<inter> rng (p, j)" by (simp add: rng_def)
  ultimately show "k = j" unfolding blocks_ok_def by blast
qed

lemma blocks_okD:
  assumes "blocks_ok B"
  shows "b \<in> B \<Longrightarrow> block_ok b" "b \<in> B \<Longrightarrow> c \<in> B \<Longrightarrow> b \<noteq> c \<Longrightarrow> rng b \<inter> rng c = {}"
  using assms by (simp_all add: blocks_ok_def)

lemma blocks_replace:
  assumes B: "blocks_ok (X \<union> C)" and Y: "\<And>b. b \<in> Y \<Longrightarrow> block_ok b" "\<And>b c. b \<in> Y \<Longrightarrow> c \<in> Y \<Longrightarrow> b \<noteq> c \<Longrightarrow> rng b \<inter> rng c = {}"
    and sub: "(\<Union>b \<in> Y. rng b) \<subseteq> (\<Union>b \<in> X. rng b)" and X: "X \<inter> C = {}"
  shows "blocks_ok (Y \<union> C)" "Y \<inter> C = {}"
proof -
  have d: "rng b \<inter> rng c = {}" if bc: "b \<in> Y" "c \<in> C" for b c
  proof -
    have "rng x \<inter> rng c = {}" if x: "x \<in> X" for x
    proof -
      have "x \<noteq> c" using X x bc(2) by blast
      then show ?thesis using blocks_okD(2) [OF B] x bc(2) by simp
    qed
    then show ?thesis using sub bc(1) by blast
  qed
  show "blocks_ok (Y \<union> C)"
    unfolding blocks_ok_def
  proof (intro conjI ballI impI)
    fix b assume "b \<in> Y \<union> C" then show "block_ok b" using blocks_okD(1) [OF B] Y(1) by blast
  next
    fix b c assume "b \<in> Y \<union> C" "c \<in> Y \<union> C" "b \<noteq> c"
    then show "rng b \<inter> rng c = {}" using d [of b c] d [of c b] Y(2) [of b c] blocks_okD(2) [OF B, of b c] by (auto simp: Int_commute)
  qed
  have "rng b \<noteq> {}" for b by (auto simp: rng_def)
  then show "Y \<inter> C = {}" using d [of b b for b] by auto
qed

section \<open>The invariant\<close>

definition frees :: "free_lists \<Rightarrow> (64 word \<times> nat) set" where
  "frees fl = {(p, k). \<exists>hi. p \<in> set (fl hi k)}"

text \<open>
  \<open>page_inv S st fl A\<close>: the lists of free blocks are \<open>fl\<close>, the blocks \<open>A\<close> are lent.  All blocks are aligned
  and apart; a list of the high table has the blocks from 4 GB on; the record of a page in \<open>S\<close> shows an
  order exactly when the page is the first of a free block of that order, where \<open>S\<close> covers every page
  that can be reached as a buddy; no two buddies are both free, so free memory is never fragmented more
  than the lent blocks force it to be.
\<close>

definition covered :: "64 word set \<Rightarrow> (64 word \<times> nat) set \<Rightarrow> bool" where
  "covered S B \<longleftrightarrow> (\<forall>b \<in> B. \<forall>x. unat x div 1024 = unat (fst b) div 1024 \<longrightarrow> x \<in> S)"

definition page_inv :: "64 word set \<Rightarrow> page_state \<Rightarrow> free_lists \<Rightarrow> (64 word \<times> nat) set \<Rightarrow> bool" where
  "page_inv S st fl A \<longleftrightarrow> lists_ok st fl \<and> take_bit 23 (pv_offset st) = 0 \<and>
     frees fl \<inter> A = {} \<and> blocks_ok (frees fl \<union> A) \<and> covered S (frees fl \<union> A) \<and>
     (\<forall>hi k p. p \<in> set (fl hi k) \<longrightarrow> (hi \<longleftrightarrow> 2 ^ 20 \<le> unat p)) \<and>
     (\<forall>p k. (p, k) \<in> frees fl \<longrightarrow> size_bits (pages st p) = of_nat k) \<and>
     (\<forall>x \<in> S. x \<notin> fst ` frees fl \<longrightarrow> size_bits (pages st x) = 64) \<and>
     (\<forall>p k. (p, k) \<in> frees fl \<longrightarrow> k < 10 \<longrightarrow> (buddy p k, k) \<notin> frees fl)"

lemma page_invD:
  assumes "page_inv S st fl A"
  shows "lists_ok st fl" "take_bit 23 (pv_offset st) = 0" "frees fl \<inter> A = {}" "blocks_ok (frees fl \<union> A)" "covered S (frees fl \<union> A)"
    "p \<in> set (fl hi k) \<Longrightarrow> hi \<longleftrightarrow> 2 ^ 20 \<le> unat p" "(p, k) \<in> frees fl \<Longrightarrow> size_bits (pages st p) = of_nat k"
    "x \<in> S \<Longrightarrow> x \<notin> fst ` frees fl \<Longrightarrow> size_bits (pages st x) = 64"
    "(p, k) \<in> frees fl \<Longrightarrow> k < 10 \<Longrightarrow> (buddy p k, k) \<notin> frees fl"
  using assms unfolding page_inv_def by simp_all

lemma frees_without: "lists_ok st fl \<Longrightarrow> p \<in> set (fl hi k) \<Longrightarrow> frees (without p fl) = frees fl - {(p, k)}"
  using lists_okD(2) by (fastforce simp: frees_def without_in)

lemma push_fl_in: "set (push_fl hi k p fl hj j) = (if hj = hi \<and> j = k then insert p (set (fl hj j)) else set (fl hj j))"
  by (simp add: push_fl_def)

lemma frees_push [simp]: "frees (push_fl hi k p fl) = insert (p, k) (frees fl)"
proof (rule set_eqI)
  fix b :: "64 word \<times> nat"
  obtain q j where b: "b = (q, j)" by (cases b)
  show "b \<in> frees (push_fl hi k p fl) \<longleftrightarrow> b \<in> insert (p, k) (frees fl)"
    unfolding b frees_def mem_Collect_eq case_prod_conv push_fl_in insert_iff prod.inject by (metis insert_iff)
qed

text \<open>Lending and giving back a block as it is.\<close>

lemma page_inv_take:
  assumes inv: "page_inv S st fl A" and p: "p \<in> set (fl hi k)"
  shows "page_inv S (page_remove hi p k st) (without p fl) (insert (p, k) A)"
proof -
  note d = page_invD [OF inv] and r = page_remove_ok [OF page_invD(1) [OF inv] p]
  have f: "frees (without p fl) = frees fl - {(p, k)}" by (rule frees_without [OF d(1) p])
  have pf: "(p, k) \<in> frees fl" using p by (auto simp: frees_def)
  have all: "frees (without p fl) \<union> insert (p, k) A = frees fl \<union> A" using f pf by auto
  have only: "j = k" if "(p, j) \<in> frees fl" for j using blocks_same_head [OF d(4), of p j k] that pf by blast
  show ?thesis
    unfolding page_inv_def all
  proof (intro conjI allI impI ballI)
    show "size_bits (pages (page_remove hi p k st) q) = of_nat j" if "(q, j) \<in> frees (without p fl)" for q j
      using that r(2) [of q] d(7) [of q j] only [of j] f by auto
    show "size_bits (pages (page_remove hi p k st) x) = 64" if "x \<in> S" "x \<notin> fst ` frees (without p fl)" for x
    proof (cases "x = p")
      case False
      then have "x \<notin> fst ` frees fl" using that(2) f by force
      then show ?thesis using r(2) [of x] d(8) [OF that(1)] False by simp
    qed (use r(2) in simp)
  qed (use d r(1,4) f in \<open>auto simp: without_in\<close>)
qed

lemma page_inv_give:
  assumes inv: "page_inv S st fl (insert (p, k) A)" and p: "(p, k) \<notin> A" "k < 10 \<Longrightarrow> (buddy p k, k) \<notin> frees fl"
    and hi: "hi \<longleftrightarrow> 2 ^ 20 \<le> unat p"
  shows "page_inv S (page_insert hi p k st) (push_fl hi k p fl) A"
proof -
  note d = page_invD [OF inv]
  have new: "(p, j) \<notin> frees fl" for j
    using blocks_same_head [OF d(4), of p k j] d(3) by auto
  then have nl: "p \<notin> set (fl hj j)" for hj j by (auto simp: frees_def)
  note r = page_insert_ok [OF d(1) nl, where hi = hi and k = k]
  have k: "k \<le> 10" using blocks_okD(1) [OF d(4), of "(p, k)"] by (simp add: block_ok_def)
  have all: "frees (push_fl hi k p fl) \<union> A = frees fl \<union> insert (p, k) A" by auto
  show ?thesis
    unfolding page_inv_def all
  proof (intro conjI allI impI ballI)
    show "frees (push_fl hi k p fl) \<inter> A = {}" using d(3) p(1) by auto
    show "size_bits (pages (page_insert hi p k st) q) = of_nat j" if "(q, j) \<in> frees (push_fl hi k p fl)" for q j
      using that r(2) [of q] d(7) [of q j] new [of j] by auto
    show "size_bits (pages (page_insert hi p k st) x) = 64" if "x \<in> S" "x \<notin> fst ` frees (push_fl hi k p fl)" for x
      using that r(2) [of x] d(8) [OF that(1)] by auto
    show "(buddy q j, j) \<notin> frees (push_fl hi k p fl)" if "(q, j) \<in> frees (push_fl hi k p fl)" "j < 10" for q j
    proof -
      have ne: "buddy p k \<noteq> p" if "k < 10"
        using merged_block(4) [OF blocks_okD(1) [OF d(4), of "(p, k)"] that] by (auto simp: rng_def)
      have "(buddy q j, j) \<noteq> (p, k)" if "(q, j) \<in> frees fl"
        using p(2) \<open>j < 10\<close> that by auto
      then show ?thesis using that ne p(2) d(9) [of q j] by auto
    qed
    show "hj \<longleftrightarrow> 2 ^ 20 \<le> unat q" if "q \<in> set (push_fl hi k p fl hj j)" for hj j q
      using that hi d(6) [of q hj j] by (auto simp: push_fl_def split: if_splits)
  qed (use d r(1,4) in auto)
qed

text \<open>Regrouping lent pages.\<close>

definition span :: "(64 word \<times> nat) set \<Rightarrow> nat set" where
  "span B = (\<Union>b \<in> B. rng b)"

lemma span_simps [simp]: "span (A \<union> B) = span A \<union> span B" "span (insert b B) = rng b \<union> span B" "span {} = {}"
  by (simp_all add: span_def)

lemma page_inv_regroup:
  assumes inv: "page_inv S st fl (X \<union> A)" and X: "X \<inter> A = {}"
    and Y: "\<And>b. b \<in> Y \<Longrightarrow> block_ok b" "\<And>b c. b \<in> Y \<Longrightarrow> c \<in> Y \<Longrightarrow> b \<noteq> c \<Longrightarrow> rng b \<inter> rng c = {}"
      "span Y = span X"
    and near: "\<And>b. b \<in> Y \<Longrightarrow> \<exists>c \<in> X. unat (fst b) div 1024 = unat (fst c) div 1024"
  shows "page_inv S st fl (Y \<union> A)" "Y \<inter> A = {}"
proof -
  note d = page_invD [OF inv]
  have B: "blocks_ok (X \<union> (frees fl \<union> A))" "X \<inter> (frees fl \<union> A) = {}"
    using d(3,4) X by (auto simp: Un_ac)
  have "(\<Union>b \<in> Y. rng b) \<subseteq> (\<Union>b \<in> X. rng b)" using Y(3) by (simp add: span_def)
  note r = blocks_replace [OF B(1) Y(1,2) this B(2)]
  have "covered S (frees fl \<union> (Y \<union> A))"
    unfolding covered_def
  proof (intro ballI allI impI)
    fix b and x :: "64 word" assume b: "b \<in> frees fl \<union> (Y \<union> A)" "unat x div 1024 = unat (fst b) div 1024"
    have old: "x \<in> S" if "c \<in> frees fl \<union> (X \<union> A)" "unat (fst b) div 1024 = unat (fst c) div 1024" for c
      using d(5) that b(2) by (simp add: covered_def)
    show "x \<in> S" using b(1) old [of b] old near [of b] by blast
  qed
  moreover have "blocks_ok (frees fl \<union> (Y \<union> A))" using r(1) by (simp add: Un_ac)
  moreover have "frees fl \<inter> (Y \<union> A) = {}" using r(2) d(3) by auto
  ultimately show "page_inv S st fl (Y \<union> A)" using inv by (simp add: page_inv_def)
  show "Y \<inter> A = {}" using r(2) by blast
qed

lemma page_inv_merge:
  assumes inv: "page_inv S st fl (insert (p, k) A)" and p: "(p, k) \<notin> A" and k: "k < 10" and b: "buddy p k \<in> set (fl hi k)"
  defines "st' \<equiv> page_remove hi (buddy p k) k st" and "fl' \<equiv> without (buddy p k) fl"
  shows "page_inv S st' fl' (insert (lower p k, Suc k) A)" "(lower p k, Suc k) \<notin> A"
    "span (frees fl') \<union> rng (lower p k, Suc k) = span (frees fl) \<union> rng (p, k)" "frees fl' \<subseteq> frees fl"
proof -
  note d = page_invD [OF inv]
  have bf: "(buddy p k, k) \<in> frees fl" using b by (auto simp: frees_def)
  have ok: "block_ok (p, k)" using blocks_okD(1) [OF d(4)] by simp
  note m = merged_block [OF ok k]
  have t: "page_inv S st' fl' ({(buddy p k, k), (p, k)} \<union> A)"
    using page_inv_take [OF inv b] by (simp add: st'_def fl'_def)
  have x: "{(buddy p k, k), (p, k)} \<inter> A = {}" using d(3) bf p by auto
  have near: "unat (lower p k) div 1024 = unat p div 1024" using m(5) by (simp add: lower_def)
  have y: "span {(lower p k, Suc k)} = span {(buddy p k, k), (p, k)}" using m(3) by auto
  note r = page_inv_regroup [OF t x, of "{(lower p k, Suc k)}"]
  show "page_inv S st' fl' (insert (lower p k, Suc k) A)" using r(1) m(2) y near by auto
  show "(lower p k, Suc k) \<notin> A" using r(2) m(2) y near by auto
  have f: "frees fl' = frees fl - {(buddy p k, k)}" unfolding fl'_def by (rule frees_without [OF d(1) b])
  then have "span (frees fl) = span (frees fl') \<union> rng (buddy p k, k)" using bf by (metis insert_Diff span_simps(2) Un_commute)
  then show "span (frees fl') \<union> rng (lower p k, Suc k) = span (frees fl) \<union> rng (p, k)" using m(3) by auto
  show "frees fl' \<subseteq> frees fl" using f by auto
qed

lemma lower_aligned: "block_ok (p, Suc k) \<Longrightarrow> k < 10 \<Longrightarrow> block_ok (p, k) \<and> lower p k = p"
proof -
  assume a: "block_ok (p, Suc k)" "k < 10"
  note b = block_okD [OF a(1)]
  have ok: "block_ok (p, k)"
    using b dvd_trans [of "2 ^ k" "2 ^ Suc k" "unat p"] by (simp add: block_ok_def)
  have "even (unat p div 2 ^ k)" using b(2) by (metis dvd_div_iff_mult dvd_mult_left mult.commute power_Suc power_not_zero zero_neq_numeral)
  then have "unat (buddy p k) = unat p + 2 ^ k" using buddy_unat [of k p] block_okD [OF ok] by simp
  then have "p < buddy p k" by (simp add: word_less_nat_alt)
  then show ?thesis using ok by (simp add: lower_def)
qed

lemma high_buddy:
  assumes "block_ok (p, k)" "k < 10"
  shows "2 ^ 20 \<le> unat (buddy p k) \<longleftrightarrow> 2 ^ 20 \<le> unat p"
proof -
  have "2 ^ 20 \<le> x \<longleftrightarrow> 1024 \<le> x div 1024" for x :: nat by (simp add: le_div_geq less_eq_div_iff_mult_less_eq)
  then show ?thesis using merged_block(5) [OF assms] by metis
qed

lemma page_inv_split:
  assumes inv: "page_inv S st fl (insert (p, Suc k) A)" and p: "(p, Suc k) \<notin> A" and k: "k < 10" and hi: "hi \<longleftrightarrow> 2 ^ 20 \<le> unat p"
  defines "st' \<equiv> page_insert hi p k st" and "fl' \<equiv> push_fl hi k p fl"
  shows "page_inv S st' fl' (insert (buddy p k, k) A)" "(buddy p k, k) \<notin> A" "hi \<longleftrightarrow> 2 ^ 20 \<le> unat (buddy p k)"
    "span (frees fl') \<union> rng (buddy p k, k) = span (frees fl) \<union> rng (p, Suc k)" "rng (buddy p k, k) \<subseteq> rng (p, Suc k)"
proof -
  note d = page_invD [OF inv]
  have ok: "block_ok (p, k)" "lower p k = p" using lower_aligned [of p k] blocks_okD(1) [OF d(4), of "(p, Suc k)"] k by auto
  note m = merged_block [OF ok(1) k, unfolded ok(2)]
  let ?Y = "{(p, k), (buddy p k, k)}"
  have y: "span ?Y = span {(p, Suc k)}" using m(3) by simp
  have disj: "b \<in> ?Y \<Longrightarrow> c \<in> ?Y \<Longrightarrow> b \<noteq> c \<Longrightarrow> rng b \<inter> rng c = {}" for b c using m(4) by auto
  have "page_inv S st fl ({(p, Suc k)} \<union> A)" "{(p, Suc k)} \<inter> A = {}" using inv p by auto
  moreover have "b \<in> ?Y \<Longrightarrow> block_ok b" "b \<in> ?Y \<Longrightarrow> \<exists>c \<in> {(p, Suc k)}. unat (fst b) div 1024 = unat (fst c) div 1024" for b
    using ok m(1,5) by auto
  ultimately have r: "page_inv S st fl (?Y \<union> A)" and r2: "?Y \<inter> A = {}"
    using page_inv_regroup [of S st fl "{(p, Suc k)}" A ?Y] disj y by blast+
  have r1: "page_inv S st fl (insert (p, k) (insert (buddy p k, k) A))" "?Y \<inter> A = {}" using r r2 by simp_all
  have ne: "buddy p k \<noteq> p" using m(4) by (auto simp: rng_def)
  have nf: "(buddy p k, k) \<notin> frees fl" using page_invD(3) [OF r1(1)] by auto
  show "page_inv S st' fl' (insert (buddy p k, k) A)"
    unfolding st'_def fl'_def by (rule page_inv_give [OF r1(1)]) (use r1(2) ne nf hi in auto)
  show "(buddy p k, k) \<notin> A" using r1(2) by simp
  show "hi \<longleftrightarrow> 2 ^ 20 \<le> unat (buddy p k)" using high_buddy [OF ok(1) k] hi by simp
  show "span (frees fl') \<union> rng (buddy p k, k) = span (frees fl) \<union> rng (p, Suc k)" using m(3) by (auto simp: fl'_def)
  show "rng (buddy p k, k) \<subseteq> rng (p, Suc k)" using m(3) by auto
qed

section \<open>The loops\<close>

lemma of_nat_order: "k \<le> 10 \<Longrightarrow> unat (of_nat k :: 32 word) = k"
  by (simp add: unat_of_nat)

lemma buddy_free_iff:
  assumes inv: "page_inv S st fl (insert (p, k) A)" and k: "k < 10"
  shows "size_bits (pages st (buddy p k)) = of_nat k \<longleftrightarrow> (buddy p k, k) \<in> frees fl"
proof
  note d = page_invD [OF inv]
  have ok: "block_ok (p, k)" using blocks_okD(1) [OF d(4)] by simp
  assume s: "size_bits (pages st (buddy p k)) = of_nat k"
  have "buddy p k \<in> S" using d(5) merged_block(5) [OF ok k] by (simp add: covered_def)
  moreover have "(of_nat k :: 32 word) \<noteq> 64" using of_nat_order [of k] k by (auto simp: word_unat_eq_iff)
  ultimately obtain j where j: "(buddy p k, j) \<in> frees fl" using d(8) [of "buddy p k"] s by force
  then have "j \<le> 10" using blocks_okD(1) [OF d(4), of "(buddy p k, j)"] by (simp add: block_ok_def)
  moreover have "(of_nat j :: 32 word) = of_nat k" using d(7) [OF j] s by simp
  ultimately have "j = k" using of_nat_order [of j] of_nat_order [of k] k by (metis less_imp_le_nat)
  then show "(buddy p k, k) \<in> frees fl" using j by simp
qed (use page_invD(7) [OF inv] in simp)

lemma pages_free_loop_ok:
  assumes "page_inv S st fl (insert (p, k) A)" "(p, k) \<notin> A" "hi \<longleftrightarrow> 2 ^ 20 \<le> unat p"
  shows "\<exists>p' k' st' fl'. pages_free_loop hi p k st = (p', k', st') \<and> page_inv S st' fl' (insert (p', k') A) \<and> (p', k') \<notin> A \<and>
    (hi \<longleftrightarrow> 2 ^ 20 \<le> unat p') \<and> (k' < 10 \<longrightarrow> (buddy p' k', k') \<notin> frees fl') \<and>
    (\<forall>x. ref_cnt (pages st' x) = ref_cnt (pages st x)) \<and> span (frees fl') \<union> rng (p', k') = span (frees fl) \<union> rng (p, k)"
  using assms
proof (induction "10 - k" arbitrary: p k st fl)
  case 0
  then have "\<not> k < 10" by simp
  then have "pages_free_loop hi p k st = (p, k, st)" by (simp add: pages_free_loop.simps)
  then show ?case using 0 \<open>\<not> k < 10\<close> by blast
next
  case (Suc n)
  note inv = Suc.prems(1) and d = page_invD [OF Suc.prems(1)]
  have k: "k < 10" using Suc.hyps(2) by simp
  have ok: "block_ok (p, k)" using blocks_okD(1) [OF d(4)] by simp
  have bg: "buddy_get p k st = buddy p k" using buddy_get_eq [OF d(2)] block_okD [OF ok] k by simp
  show ?case
  proof (cases "(buddy p k, k) \<in> frees fl")
    case False
    then have "pages_free_loop hi p k st = (p, k, st)"
      using buddy_free_iff [OF inv k] k bg by (subst pages_free_loop.simps) (simp add: Let_def)
    then show ?thesis using Suc.prems False by blast
  next
    case True
    then obtain h where h: "buddy p k \<in> set (fl h k)" by (auto simp: frees_def)
    then have "h = hi" using d(6) [OF h] high_buddy [OF ok k] Suc.prems(3) by simp
    then have b: "buddy p k \<in> set (fl hi k)" using h by simp
    let ?st = "page_remove hi (buddy p k) k st" and ?fl = "without (buddy p k) fl"
    note m = page_inv_merge [OF inv Suc.prems(2) k b]
    have eq: "pages_free_loop hi p k st = pages_free_loop hi (lower p k) (Suc k) ?st"
      using True buddy_free_iff [OF inv k] k bg by (subst pages_free_loop.simps) (simp add: Let_def lower_def)
    have hl: "hi \<longleftrightarrow> 2 ^ 20 \<le> unat (lower p k)" using Suc.prems(3) high_buddy [OF ok k] by (simp add: lower_def)
    have "n = 10 - Suc k" using Suc.hyps(2) by simp
    from Suc.hyps(1) [OF this m(1,2) hl] obtain p' k' st' fl' where r:
      "pages_free_loop hi (lower p k) (Suc k) ?st = (p', k', st')" "page_inv S st' fl' (insert (p', k') A)" "(p', k') \<notin> A"
      "hi \<longleftrightarrow> 2 ^ 20 \<le> unat p'" "k' < 10 \<longrightarrow> (buddy p' k', k') \<notin> frees fl'"
      "\<forall>x. ref_cnt (pages st' x) = ref_cnt (pages ?st x)" "span (frees fl') \<union> rng (p', k') = span (frees ?fl) \<union> rng (lower p k, Suc k)"
      by blast
    have "\<forall>x. ref_cnt (pages st' x) = ref_cnt (pages st x)" using r(6) page_remove_ok(3) [OF d(1) b] by simp
    then show ?thesis using r eq m(3) by auto
  qed
qed

lemma pages_split_loop_ok:
  assumes "page_inv S st fl (insert (p, k + d) A)" "(p, k + d) \<notin> A" "hi \<longleftrightarrow> 2 ^ 20 \<le> unat p"
  shows "\<exists>p' st' fl'. pages_split_loop hi p k d st = (p', st') \<and> page_inv S st' fl' (insert (p', k) A) \<and> (p', k) \<notin> A \<and>
    (hi \<longleftrightarrow> 2 ^ 20 \<le> unat p') \<and> (\<forall>x. ref_cnt (pages st' x) = ref_cnt (pages st x)) \<and> pv_offset st' = pv_offset st \<and>
    span (frees fl') \<union> rng (p', k) = span (frees fl) \<union> rng (p, k + d) \<and> rng (p', k) \<subseteq> rng (p, k + d)"
  using assms
proof (induction d arbitrary: p st fl)
  case (Suc d)
  note dd = page_invD [OF Suc.prems(1)]
  have ok: "block_ok (p, Suc (k + d))" using blocks_okD(1) [OF dd(4)] by simp
  have kd: "k + d < 10" using block_okD(1) [OF ok] by simp
  note sp = page_inv_split [OF Suc.prems(1) [unfolded add_Suc_right] Suc.prems(2) [unfolded add_Suc_right] kd Suc.prems(3)]
  let ?st = "page_insert hi p (k + d) st"
  have nl: "p \<notin> set (fl hj j)" for hj j
    using blocks_same_head [OF dd(4), of p "k + Suc d" j] dd(3) by (auto simp: frees_def)
  note pi = page_insert_ok [OF dd(1) nl, where hi = hi and k = "k + d"]
  have bg: "buddy_get p (k + d) ?st = buddy p (k + d)"
    using buddy_get_eq [of ?st p "k + d"] dd(2) pi(4) block_okD(4) [OF ok] kd by simp
  from Suc.IH [OF sp(1,2,3)] obtain p' st' fl' where r: "pages_split_loop hi (buddy p (k + d)) k d ?st = (p', st')"
    "page_inv S st' fl' (insert (p', k) A)" "(p', k) \<notin> A" "hi \<longleftrightarrow> 2 ^ 20 \<le> unat p'"
    "\<forall>x. ref_cnt (pages st' x) = ref_cnt (pages ?st x)" "pv_offset st' = pv_offset ?st"
    "span (frees fl') \<union> rng (p', k) = span (frees (push_fl hi (k + d) p fl)) \<union> rng (buddy p (k + d), k + d)"
    "rng (p', k) \<subseteq> rng (buddy p (k + d), k + d)" by blast
  have "pages_split_loop hi p k (Suc d) st = (p', st')" using r(1) bg by (simp add: Let_def)
  moreover have "rng (p', k) \<subseteq> rng (p, k + Suc d)" using r(8) sp(5) by auto
  ultimately show ?case
    by (intro exI [of _ p'] exI [of _ st'] exI [of _ fl']) (use r(2-7) sp(4) pi(3,4) in simp)
qed auto

lemma find_level_ok:
  "find_level hi k st \<le> 11 \<or> 11 \<le> k" "find_level hi k st < 11 \<Longrightarrow> k \<le> find_level hi k st \<and> page_list st hi (find_level hi k st) \<noteq> None"
  "k \<le> 11 \<Longrightarrow> find_level hi k st = 11 \<longleftrightarrow> (\<forall>j. k \<le> j \<longrightarrow> j < 11 \<longrightarrow> page_list st hi j = None)"
proof (induction hi k st rule: find_level.induct)
  case (1 hi level st)
  {
    case 1
    then show ?case using "1.IH" by (subst (1) find_level.simps) auto
  next
    case 2
    then show ?case using "1.IH" by (subst (asm) (1) find_level.simps; subst (1 2) find_level.simps) (auto split: if_splits)
  next
    case 3
    then show ?case
    proof (cases "level < 11 \<and> page_list st hi level = None")
      case True
      then have "find_level hi level st = find_level hi (level + 1) st" by (subst find_level.simps) simp
      then show ?thesis using "1.IH"(3) True by (auto simp: Suc_le_eq) (metis le_neq_implies_less)
    next
      case False
      then have "find_level hi level st = level" by (subst find_level.simps) auto
      then show ?thesis using False 3 by auto
    qed
  }
qed

section \<open>Allocation and release\<close>

definition counted :: "page_state \<Rightarrow> (64 word \<times> nat) set \<Rightarrow> bool" where
  "counted st A \<longleftrightarrow> (\<forall>b \<in> A. 0 < ref_cnt (pages st (fst b)))"

lemma page_inv_ref:
  assumes "page_inv S st fl A" "\<And>r. pg_next (f r) = pg_next r \<and> pg_pre (f r) = pg_pre r" "size_bits (f (pages st p)) = size_bits (pages st p)"
  shows "page_inv S (upd_page p f st) fl A"
proof -
  have "dll (pages (upd_page p f st)) h xs = dll (pages st) h xs" for h xs
    by (rule dll_cong) (simp add: assms(2))
  then have "lists_ok (upd_page p f st) fl = lists_ok st fl" by (simp add: lists_ok_def)
  moreover have "size_bits (pages (upd_page p f st) x) = size_bits (pages st x)" for x using assms(3) by simp
  ultimately show ?thesis using assms(1) by (simp add: page_inv_def del: upd_page_fields(1))
qed

lemma lent_size:
  assumes "page_inv S st fl A" "(p, k) \<in> A"
  shows "size_bits (pages st p) = 64"
proof -
  note d = page_invD [OF assms(1)]
  have "p \<notin> fst ` frees fl"
  proof
    assume "p \<in> fst ` frees fl"
    then obtain j where "(p, j) \<in> frees fl" by auto
    then show False using blocks_same_head [OF d(4), of p j k] assms(2) d(3) by auto
  qed
  moreover have "p \<in> S" using d(5) assms(2) unfolding covered_def by (metis UnI2 fst_conv)
  ultimately show ?thesis using d(8) by blast
qed

lemma pages_alloc_ok:
  assumes inv: "page_inv S st fl A" and cnt: "counted st A" and k: "k \<le> 10"
  shows "if \<forall>j. k \<le> j \<longrightarrow> j \<le> 10 \<longrightarrow> fl hi j = [] then pages_alloc hi (of_nat k) st = Some (None, st)
    else \<exists>p st' fl'. pages_alloc hi (of_nat k) st = Some (Some p, st') \<and> page_inv S st' fl' (insert (p, k) A) \<and> (p, k) \<notin> A \<and>
      counted st' (insert (p, k) A) \<and> ref_cnt (pages st' p) = 1 \<and> (hi \<longleftrightarrow> 2 ^ 20 \<le> unat p) \<and> pv_offset st' = pv_offset st \<and>
      rng (p, k) \<subseteq> span (frees fl) \<and> span (frees fl') \<union> rng (p, k) = span (frees fl)"
proof -
  note d = page_invD [OF inv]
  have kk: "unat (of_nat k :: 32 word) = k" by (rule of_nat_order [OF k])
  note hd = lists_okD(3) [OF d(1)]
  define level where "level = (if page_list st hi k \<noteq> None then k else find_level hi (k + 1) st)"
  have fl: "find_level hi (k + 1) st \<le> 11" using find_level_ok(1) [of hi "k + 1" st] k
    by (cases "k = 10") (auto simp: find_level.simps)
  have none: "level = 11 \<longleftrightarrow> (\<forall>j. k \<le> j \<longrightarrow> j \<le> 10 \<longrightarrow> fl hi j = [])"
  proof -
    have e: "page_list st hi j = None \<longleftrightarrow> fl hi j = []" for j using hd [of hi j] by (auto split: list.splits)
    show ?thesis
    proof (cases "page_list st hi k = None")
      case True
      then have "level = 11 \<longleftrightarrow> (\<forall>j. k + 1 \<le> j \<longrightarrow> j < 11 \<longrightarrow> fl hi j = [])"
        using find_level_ok(3) [of "k + 1" hi st] k e by (simp add: level_def)
      also have "\<dots> \<longleftrightarrow> (\<forall>j. k \<le> j \<longrightarrow> j \<le> 10 \<longrightarrow> fl hi j = [])"
        using True e by (metis Suc_eq_plus1 Suc_leI le_neq_implies_less less_Suc_eq_le numeral_eq_Suc pred_numeral_simps(3) semiring_norm(26) semiring_norm(27) semiring_norm(28) Suc_leD)
      finally show ?thesis .
    qed (use e k in \<open>auto simp: level_def\<close>)
  qed
  show ?thesis
  proof (cases "level = 11")
    case True
    then have "page_list st hi k = None" using k by (auto simp: level_def split: if_splits)
    then have "pages_alloc hi (of_nat k) st = Some (None, st)"
      using True kk k by (simp add: pages_alloc_def level_def Let_def)
    then show ?thesis using True none by simp
  next
    case False
    have lv: "level < 11" "k \<le> level" "page_list st hi level \<noteq> None"
      using False fl k find_level_ok(2) [of hi "k + 1" st] by (auto simp: level_def split: if_splits)
    then obtain q qs where q: "page_list st hi level = Some q" "fl hi level = q # qs"
      using hd [of hi level] by (auto split: list.splits)
    have qin: "q \<in> set (fl hi level)" using q(2) by simp
    have qf: "(q, level) \<in> frees fl" using qin by (auto simp: frees_def)
    let ?st = "page_remove hi q level st" and ?fl = "without q fl"
    have t: "page_inv S ?st ?fl (insert (q, k + (level - k)) A)" using page_inv_take [OF inv qin] lv(2) by simp
    have tn: "(q, k + (level - k)) \<notin> A" using qf d(3) lv(2) by auto
    note rm = page_remove_ok [OF d(1) qin]
    from pages_split_loop_ok [OF t tn d(6) [OF qin]] obtain p st1 fl1 where r:
      "pages_split_loop hi q k (level - k) ?st = (p, st1)" "page_inv S st1 fl1 (insert (p, k) A)" "(p, k) \<notin> A"
      "hi \<longleftrightarrow> 2 ^ 20 \<le> unat p" "\<forall>x. ref_cnt (pages st1 x) = ref_cnt (pages ?st x)" "pv_offset st1 = pv_offset ?st"
      "span (frees fl1) \<union> rng (p, k) = span (frees ?fl) \<union> rng (q, level)" "rng (p, k) \<subseteq> rng (q, level)"
      using lv(2) by auto
    let ?st' = "upd_page p (\<lambda>r. r\<lparr>size_bits := ARCH_ADDRESS_WIDTH_BITS, ref_cnt := 1\<rparr>) st1"
    have "pages_alloc hi (of_nat k) st = Some (Some p, ?st')"
      using q(1) r(1) kk k lv False by (auto simp: pages_alloc_def Let_def level_def split: if_splits option.splits)
    moreover have "page_inv S ?st' fl1 (insert (p, k) A)"
      by (rule page_inv_ref [OF r(2)]) (use lent_size [OF r(2), of p k] in auto)
    moreover have "counted ?st' (insert (p, k) A)"
      using cnt r(5) rm(3) by (auto simp: counted_def)
    moreover have sp: "span (frees ?fl) \<union> rng (q, level) = span (frees fl)"
      using frees_without [OF d(1) qin] qf by (metis Un_commute insert_Diff span_simps(2))
    ultimately show ?thesis
      using False none r(3,4,6,7,8) rm(4) by (simp only: if_False) (intro exI [of _ p] exI [of _ ?st'] exI [of _ fl1], auto)
  qed
qed

lemma pages_free_ok:
  assumes inv: "page_inv S st fl A" and cnt: "counted st A" and p: "(p, k) \<in> A" "mapped p" and hi: "hi \<longleftrightarrow> 2 ^ 20 \<le> unat p"
  shows "if ref_cnt (pages st p) = 1
    then \<exists>st' fl'. pages_free mapped hi p (of_nat k) st = Some (1, st') \<and> page_inv S st' fl' (A - {(p, k)}) \<and> counted st' (A - {(p, k)}) \<and>
      span (frees fl') = span (frees fl) \<union> rng (p, k)
    else \<exists>st'. pages_free mapped hi p (of_nat k) st = Some (0, st') \<and> page_inv S st' fl A \<and> counted st' A \<and>
      ref_cnt (pages st' p) = ref_cnt (pages st p) - 1"
proof -
  note d = page_invD [OF inv]
  have ok: "block_ok (p, k)" using blocks_okD(1) [OF d(4)] p(1) by simp
  note b = block_okD [OF ok]
  have kk: "unat (of_nat k :: 32 word) = k" by (rule of_nat_order [OF b(1)])
  have pos: "0 < ref_cnt (pages st p)" using cnt p(1) by (fastforce simp: counted_def)
  have lim: "p < MPR_PAGES" using b(4) by (simp add: word_less_nat_alt)
  let ?st = "upd_page p (\<lambda>r. r\<lparr>ref_cnt := ref_cnt r - 1\<rparr>) st"
  have i1: "page_inv S ?st fl A" by (rule page_inv_ref [OF inv]) auto
  have other: "fst c \<noteq> p" if "c \<in> A" "c \<noteq> (p, k)" for c
    using blocks_same_head [OF d(4), of p k "snd c"] that p(1) by (metis UnI2 prod.collapse)
  have run: "pages_free mapped hi p (of_nat k) st = (if ref_cnt (pages st p) - 1 \<noteq> 0 then Some (0, ?st)
      else let (p', level, st2) = pages_free_loop hi p k ?st in Some (1, page_insert hi p' level st2))"
    using lim p(2) pos lent_size [OF inv p(1)] b(1) kk by (simp add: pages_free_def)
  show ?thesis
  proof (cases "ref_cnt (pages st p) = 1")
    case False
    then have nz: "ref_cnt (pages st p) - 1 \<noteq> 0" by simp
    then have "0 < ref_cnt (pages st p) - 1" by (simp only: word_gt_0)
    then have "counted ?st A" using cnt by (auto simp: counted_def)
    moreover note nz
    ultimately show ?thesis using False run i1 by (simp only: if_False) (intro exI [of _ ?st], auto)
  next
    case True
    let ?A = "A - {(p, k)}"
    have A: "insert (p, k) ?A = A" using p(1) by auto
    have "page_inv S ?st fl (insert (p, k) ?A)" "(p, k) \<notin> ?A" using i1 A by auto
    from pages_free_loop_ok [OF this hi] obtain p' k' st2 fl2 where r: "pages_free_loop hi p k ?st = (p', k', st2)"
      "page_inv S st2 fl2 (insert (p', k') ?A)" "(p', k') \<notin> ?A" "hi \<longleftrightarrow> 2 ^ 20 \<le> unat p'"
      "k' < 10 \<longrightarrow> (buddy p' k', k') \<notin> frees fl2" "\<forall>x. ref_cnt (pages st2 x) = ref_cnt (pages ?st x)"
      "span (frees fl2) \<union> rng (p', k') = span (frees fl) \<union> rng (p, k)" by blast
    let ?st' = "page_insert hi p' k' st2"
    have g: "page_inv S ?st' (push_fl hi k' p' fl2) ?A" by (rule page_inv_give [OF r(2,3) _ r(4)]) (use r(5) in auto)
    note d2 = page_invD [OF r(2)]
    have nl: "p' \<notin> set (fl2 hj j)" for hj j
      using blocks_same_head [OF d2(4), of p' k' j] d2(3) by (auto simp: frees_def)
    have "counted ?st' ?A"
      using cnt other r(6) page_insert_ok(3) [OF d2(1) nl, where hi = hi and k = k'] by (auto simp: counted_def)
    moreover have "span (frees (push_fl hi k' p' fl2)) = span (frees fl) \<union> rng (p, k)" using r(7) by auto
    moreover have "pages_free mapped hi p (of_nat k) st = Some (1, ?st')" using run True r(1) by simp
    ultimately show ?thesis using g unfolding if_P [OF True] by blast
  qed
qed

subsection \<open>The early allocator\<close>

text \<open>In a proper state the checks of the early allocator hold, and it does what the later one does.\<close>

lemma early_split_loop_eq:
  assumes "page_inv S st fl (insert (p, k + d) A)" "(p, k + d) \<notin> A" "hi \<longleftrightarrow> 2 ^ 20 \<le> unat p"
  shows "early_split_loop hi p k d st = Some (pages_split_loop hi p k d st)"
  using assms
proof (induction d arbitrary: p st fl)
  case (Suc d)
  note dd = page_invD [OF Suc.prems(1)]
  have ok: "block_ok (p, Suc (k + d))" using blocks_okD(1) [OF dd(4)] by simp
  have kd: "k + d < 10" using block_okD(1) [OF ok] by simp
  note sp = page_inv_split [OF Suc.prems(1) [unfolded add_Suc_right] Suc.prems(2) [unfolded add_Suc_right] kd Suc.prems(3)]
  let ?st = "page_insert hi p (k + d) st"
  have nl: "p \<notin> set (fl hj j)" for hj j
    using blocks_same_head [OF dd(4), of p "k + Suc d" j] dd(3) by (auto simp: frees_def)
  have bg: "buddy_get p (k + d) ?st = buddy p (k + d)"
    using buddy_get_eq [of ?st p "k + d"] dd(2) page_insert_ok(4) [OF dd(1) nl, where hi = hi and k = "k + d"] block_okD(4) [OF ok] kd by simp
  have "p < MPR_PAGES" using block_okD(4) [OF ok] by (simp add: word_less_nat_alt)
  then show ?case using Suc.IH [OF sp(1,2,3)] bg by (simp add: Let_def)
qed simp

lemma early_pages_alloc_eq:
  assumes inv: "page_inv S st fl A" and k: "k \<le> 10"
  shows "early_pages_alloc hi (of_nat k) st = pages_alloc hi (of_nat k) st"
proof (cases "page_list st hi k")
  case None
  note d = page_invD [OF inv]
  let ?level = "find_level hi (k + 1) st"
  have "early_split_loop hi q k (?level - k) (page_remove hi q ?level st) = Some (pages_split_loop hi q k (?level - k) (page_remove hi q ?level st))"
    if l: "?level \<noteq> 11" "page_list st hi ?level = Some q" for q
  proof -
    have "?level < 11" using l(1) find_level_ok(1) [of hi "k + 1" st] k by (cases "k = 10") (auto simp: find_level.simps)
    then have "k \<le> ?level" using find_level_ok(2) [of hi "k + 1" st] by auto
    moreover have qin: "q \<in> set (fl hi ?level)" using lists_okD(3) [OF d(1), of hi ?level] l(2) by (auto split: list.splits)
    moreover have "(q, ?level) \<notin> A" using qin d(3) by (auto simp: frees_def)
    ultimately show ?thesis using page_inv_take [OF inv qin] d(6) [OF qin] by (intro early_split_loop_eq) auto
  qed
  then show ?thesis using None of_nat_order [OF k] k by (auto simp: early_pages_alloc_def pages_alloc_def Let_def split: option.splits)
qed (use of_nat_order [OF k] k in \<open>simp add: early_pages_alloc_def pages_alloc_def\<close>)

end
