(* ===== verification/PageClient.thy ===== *)
theory PageClient
  imports PageAlloc
begin

unbundle bit_operations_syntax

text \<open>
  The page allocator as its callers see it: addresses instead of page indices, sizes instead of orders,
  the statistics, the lists that the first part of \<^verbatim>\<open>rt_page_init\<close> leaves, and arbitrary sequences of allocations and releases, for
  which the page allocator is, with blocks of one order and one owner, a third interpretation of the locale \<open>allocator\<close>.  The last
  part has all owners of pages, blocks of every order and shared blocks.
\<close>

section \<open>Addresses and sizes\<close>

lemma unat_page: "unat x \<le> 2 ^ 27 \<Longrightarrow> unat (push_bit 12 x) = 4096 * unat x" for x :: "64 word"
proof -
  assume "unat x \<le> 2 ^ 27"
  moreover have "unat (push_bit 12 x) = take_bit 64 (4096 * unat x)"
    by (simp only: unsigned_push_bit_eq) (simp add: push_bit_eq_mult mult.commute)
  ultimately show ?thesis by (simp add: take_bit_nat_eq_self)
qed

lemma addr_page: "unat p \<le> 2 ^ 27 \<Longrightarrow> addr_to_page (page_to_addr p st) st = p"
proof -
  assume p: "unat p \<le> 2 ^ 27"
  have "unat (drop_bit 12 (push_bit 12 p)) = drop_bit 12 (4096 * unat p)"
    using p by (simp only: unsigned_drop_bit_eq unat_page) (simp add: take_bit_nat_eq_self)
  then have "drop_bit 12 (push_bit 12 p) = p" by (simp add: word_unat_eq_iff drop_bit_eq_div)
  then show ?thesis by (simp add: addr_to_page_def page_to_addr_def)
qed

lemma mapped_page:
  assumes "unat p < 2 ^ 27"
  shows "addr_to_page (page_to_addr p st) st = p" "get_page_list (page_to_addr p st) st \<longleftrightarrow> 2 ^ 20 \<le> unat p"
    "unat (page_to_addr p st + pv_offset st) = 4096 * unat p"
proof -
  have sum: "page_to_addr p st + pv_offset st = push_bit 12 p" by (simp add: page_to_addr_def)
  have u: "unat (push_bit 12 p) = 4096 * unat p" using assms by (simp add: unat_page)
  then show "unat (page_to_addr p st + pv_offset st) = 4096 * unat p" by (simp add: sum)
  show "addr_to_page (page_to_addr p st) st = p" using assms by (simp add: addr_page)
  have "get_page_list (page_to_addr p st) st \<longleftrightarrow> 0xffffffff < 4096 * unat p"
    by (simp add: get_page_list_def sum word_less_nat_alt u)
  then show "get_page_list (page_to_addr p st) st \<longleftrightarrow> 2 ^ 20 \<le> unat p" by auto
qed

text \<open>The first page of the block a page belongs to.\<close>

lemma group_head_block:
  assumes ok: "block_ok (p, k)" and x: "unat x \<in> rng (p, k)"
  shows "group_head x k = p" "unat x < 2 ^ 27"
proof -
  note b = block_okD [OF ok]
  obtain m where m: "unat p = 2 ^ k * m" using b(2) by blast
  have "group_head x k = push_bit k (drop_bit k x)"
    unfolding group_head_def by (rule bit_word_eqI) (auto simp: bit_simps simp flip: mask_eq_exp_minus_1)
  moreover have "unat x div 2 ^ k = m" using x m by (intro div_nat_eqI) (auto simp: rng_def)
  moreover show u: "unat x < 2 ^ 27" using x b(3) by (auto simp: rng_def)
  moreover have "unat (drop_bit k x) = unat x div 2 ^ k"
    using u by (simp only: unsigned_drop_bit_eq) (simp add: take_bit_nat_eq_self drop_bit_eq_div)
  ultimately have "unat (group_head x k) = take_bit 64 (2 ^ k * m)"
    by (simp only: unsigned_push_bit_eq) (simp add: push_bit_eq_mult mult.commute)
  also have "\<dots> = unat p" using m b(4) by (simp add: take_bit_nat_eq_self)
  finally show "group_head x k = p" by (simp add: word_unat_eq_iff)
qed

text \<open>\<^verbatim>\<open>rt_page_bits\<close> is the least order whose blocks have room for \<open>bytes\<close> bytes.\<close>

lemma takeWhile_rev:
  assumes "i < m" "P i" "\<And>j. i < j \<Longrightarrow> j < m \<Longrightarrow> \<not> P j"
  shows "takeWhile (\<lambda>j. \<not> P j) (rev [0..<m]) = rev [Suc i..<m]"
  using assms
proof (induction m)
  case (Suc m)
  show ?case
  proof (cases "i = m")
    case False
    then have "i < m" "\<not> P m" using Suc.prems by auto
    then show ?thesis using Suc.IH Suc.prems(2,3) by simp
  qed (use Suc.prems in simp)
qed simp

lemma xor_zero: "x XOR y = 0 \<longleftrightarrow> x = y" for x y :: "64 word"
proof
  assume "x XOR y = 0"
  then have "(x XOR y) XOR y = y" by simp
  then show "x = y" by (simp only: xor.assoc xor_self_eq xor.right_neutral)
qed simp

lemma rt_hw_clz_ok:
  assumes "bytes \<noteq> 0"
  shows "\<exists>b < 64. rt_hw_clz bytes = 63 - b \<and> 2 ^ b \<le> unat bytes \<and> unat bytes < 2 ^ (b + 1)"
proof -
  have u: "0 < unat bytes" "unat bytes < 2 ^ 64" using assms unsigned_less [of bytes, where ?'a = nat] by (simp_all add: unat_gt_0)
  obtain b where b: "2 ^ b \<le> unat bytes" "unat bytes < 2 ^ (b + 1)"
    using ex_power_ivl1 [of 2 "unat bytes"] u(1) by auto
  have "b < 64" 
  proof (rule ccontr)
    assume "\<not> b < 64"
    then have "(2 :: nat) ^ 64 \<le> 2 ^ b" by (intro power_increasing) auto
    then show False using b(1) u(2) by simp
  qed
  moreover have "bit bytes b"
  proof -
    have "unat bytes div 2 ^ b = 1" using b by (intro div_nat_eqI) auto
    then show ?thesis by (simp add: bit_unat)
  qed
  moreover have "\<not> bit bytes j" if "b < j" for j
  proof -
    have "(2 :: nat) ^ (b + 1) \<le> 2 ^ j" using that by (intro power_increasing) auto
    then show ?thesis using b(2) by (simp add: bit_unat)
  qed
  ultimately have "takeWhile (\<lambda>i. \<not> bit bytes i) (rev [0..<64]) = rev [Suc b..<64]" by (intro takeWhile_rev) auto
  then have "rt_hw_clz bytes = length (rev [Suc b..<64])" by (simp only: rt_hw_clz_def)
  then have "rt_hw_clz bytes = 63 - b" by (simp only: length_rev length_upt)
  then show ?thesis using b \<open>b < 64\<close> by blast
qed

lemma rt_page_bits_ok:
  assumes "bytes \<noteq> 0"
  shows "unat bytes \<le> 4096 * 2 ^ unat (rt_page_bits bytes)" "0 < unat (rt_page_bits bytes) \<Longrightarrow> 4096 * 2 ^ (unat (rt_page_bits bytes) - 1) < unat bytes"
    "unat bytes \<le> 2 ^ 22 \<Longrightarrow> unat (rt_page_bits bytes) \<le> 10"
proof -
  obtain b where b: "b < 64" "rt_hw_clz bytes = 63 - b" "2 ^ b \<le> unat bytes" "unat bytes < 2 ^ (b + 1)"
    using rt_hw_clz_ok [OF assms] by blast
  define m where "m = (if unat bytes = 2 ^ b then b else b + 1)"
  have m: "m \<le> 64" using b(1) by (simp add: m_def)
  have "bytes XOR push_bit b 1 \<noteq> 0 \<longleftrightarrow> unat bytes \<noteq> 2 ^ b"
    using unat_pow [OF b(1)] word_unat_eq_iff [of bytes "2 ^ b"] by (simp add: xor_zero)
  moreover have "nat (64 - int (rt_hw_clz bytes) - 1) = b" "64 - int (rt_hw_clz bytes) - 1 = int b" using b(1,2) by simp_all
  ultimately have "rt_page_bits bytes = word_of_int (if int m < 12 then 0 else int m - 12)"
    by (auto simp: rt_page_bits_def Let_def m_def simp del: push_bit_of_1)
  also have "\<dots> = of_nat (m - 12)" by (auto simp: of_nat_diff)
  finally have r: "unat (rt_page_bits bytes) = m - 12" using m by (simp add: unat_of_nat take_bit_nat_eq_self)
  have le: "unat bytes \<le> 2 ^ m" "m = 0 \<or> 2 ^ (m - 1) < unat bytes"
    using b(3,4) by (auto simp: m_def intro: power_strict_increasing)
  show "unat bytes \<le> 4096 * 2 ^ unat (rt_page_bits bytes)"
  proof -
    have "(2 :: nat) ^ m \<le> 2 ^ (12 + (m - 12))" by (intro power_increasing) auto
    then show ?thesis using le(1) r by (simp add: power_add)
  qed
  show "4096 * 2 ^ (unat (rt_page_bits bytes) - 1) < unat bytes" if "0 < unat (rt_page_bits bytes)"
  proof -
    have "m - 1 = 12 + (m - 12 - 1)" using that r by simp
    then have "(2 :: nat) ^ (m - 1) = 2 ^ 12 * 2 ^ (m - 12 - 1)" by (metis power_add)
    then show ?thesis using le(2) r that by auto
  qed
  show "unat (rt_page_bits bytes) \<le> 10" if small: "unat bytes \<le> 2 ^ 22"
  proof (rule ccontr)
    assume "\<not> unat (rt_page_bits bytes) \<le> 10"
    then have "22 \<le> m - 1" using r by simp
    then have "(2 :: nat) ^ 22 \<le> 2 ^ (m - 1)" by (intro power_increasing) auto
    then show False using le(2) small r \<open>22 \<le> m - 1\<close> by auto
  qed
qed

text \<open>The statistics count the free pages.\<close>

lemma count_list_ok: "pseg (pages st) pre head xs q None \<Longrightarrow> count_list st i head acc = Some (acc + of_nat (length xs * 2 ^ i))"
proof (induction xs arbitrary: pre head acc)
  case Nil
  then show ?case by (subst count_list.simps) simp
next
  case (Cons x xs)
  then have h: "head = Some x" "pseg (pages st) (Some x) (pg_next (pages st x)) xs q None" by auto
  have "count_list st i (pg_next (pages st x)) (acc + 2 ^ i) = Some (acc + 2 ^ i + of_nat (length xs * 2 ^ i))"
    using Cons.IH [OF h(2), of "acc + 2 ^ i"] by simp
  then show ?case by (subst count_list.simps) (simp add: h(1) algebra_simps)
qed

lemma count_levels_ok:
  assumes "lists_ok st fl"
  shows "count_levels st hi is acc = Some (acc + of_nat (\<Sum>i \<leftarrow> is. length (fl hi i) * 2 ^ i))"
proof (induction "is" arbitrary: acc)
  case (Cons i "is")
  have "count_list st i (page_list st hi i) acc = Some (acc + of_nat (length (fl hi i) * 2 ^ i))"
    using assms count_list_ok unfolding lists_ok_def dll_def by blast
  then show ?case using Cons.IH by (simp add: algebra_simps)
qed simp

lemma span_card:
  assumes "finite B" "blocks_ok B"
  shows "card (span B) = (\<Sum>b \<in> B. 2 ^ snd b)"
proof -
  have "card (span B) = (\<Sum>b \<in> B. card (rng b))"
    unfolding span_def by (rule card_UN_disjoint [OF assms(1)]) (use assms(2) in \<open>auto simp: blocks_ok_def rng_def\<close>)
  then show ?thesis by (simp add: rng_def case_prod_beta)
qed

lemma frees_pages:
  assumes "page_inv S st fl A"
  shows "card (span (frees fl)) = (\<Sum>hi \<in> UNIV. \<Sum>k < 11. length (fl hi k) * 2 ^ k)" "finite (frees fl)"
proof -
  note d = page_invD [OF assms]
  let ?X = "SIGMA hi : UNIV. SIGMA k : {..<11}. set (fl hi k)" and ?f = "\<lambda>(hi :: bool, k :: nat, p :: 64 word). (p, k)"
  have img: "frees fl = ?f ` ?X"
  proof -
    have "k < 11" if "(p, k) \<in> frees fl" for p k using blocks_okD(1) [OF d(4), of "(p, k)"] that by (simp add: block_ok_def)
    then show ?thesis by (force simp: frees_def image_iff)
  qed
  have fin: "finite ?X" by simp
  then show finite: "finite (frees fl)" unfolding img by (rule finite_imageI)
  have "hi = hj" if "p \<in> set (fl hi k)" "p \<in> set (fl hj k)" for hi hj k p using lists_okD(2) [OF d(1) that] by blast
  then have inj: "inj_on ?f ?X" by (fastforce intro!: inj_onI)
  have "blocks_ok (frees fl)" using d(4) by (simp add: blocks_ok_def)
  then have "card (span (frees fl)) = (\<Sum>b \<in> ?f ` ?X. 2 ^ snd b)" using span_card finite by (simp only: img)
  also have "\<dots> = (\<Sum>(hi, k, p) \<in> ?X. 2 ^ k)" using sum.reindex [OF inj, of "\<lambda>b. 2 ^ snd b"] by (simp add: case_prod_beta comp_def)
  also have "\<dots> = (\<Sum>hi \<in> UNIV. \<Sum>(k, p) \<in> (SIGMA k : {..<11}. set (fl hi k)). 2 ^ k)" by (rule sum.Sigma [symmetric]) auto
  also have "\<dots> = (\<Sum>hi \<in> UNIV. \<Sum>k < 11. \<Sum>p \<in> set (fl hi k). 2 ^ k)" by (intro sum.cong refl sum.Sigma [symmetric]) auto
  also have "\<dots> = (\<Sum>hi \<in> UNIV. \<Sum>k < 11. length (fl hi k) * 2 ^ k)"
    using d(1) by (simp add: lists_ok_def dll_def distinct_card)
  finally show "card (span (frees fl)) = (\<Sum>hi \<in> UNIV. \<Sum>k < 11. length (fl hi k) * 2 ^ k)" .
qed

lemma rt_page_get_info_ok:
  assumes "page_inv S st fl A"
  shows "rt_page_get_info st = Some (page_nr st, of_nat (card (span (frees fl))))"
proof -
  have s: "(\<Sum>i \<leftarrow> [0..<11]. f i) = (\<Sum>k < 11. f k)" for f :: "nat \<Rightarrow> nat"
    by (simp add: sum_list_distinct_conv_sum_set atLeast_upt lessThan_atLeast0 del: upt_Suc)
  show ?thesis
    unfolding rt_page_get_info_def count_levels_ok [OF page_invD(1) [OF assms]] frees_pages(1) [OF assms] s
    by (simp add: UNIV_bool add.commute)
qed

section \<open>Installing a region\<close>

lemma mark_illegal_ok:
  "pages (mark_illegal a b st) x = (if a \<le> x \<and> x < b then (pages st x)\<lparr>size_bits := 64\<rparr> else pages st x)"
  "page_list (mark_illegal a b st) = page_list st" "pv_offset (mark_illegal a b st) = pv_offset st"
proof (induction a b st rule: mark_illegal.induct)
  case (1 iter tail st)
  {
    case 1
    show ?case
    proof (cases "iter < tail")
      case True
      have "iter + 1 \<le> x \<longleftrightarrow> iter \<le> x \<and> x \<noteq> iter"
      proof -
        have "unat tail < 2 ^ 64" using unsigned_less [of tail, where ?'a = nat] by simp
        then have "unat (iter + 1) = unat iter + 1" using unat_plus [of iter 1] True by (simp add: word_less_nat_alt)
        then show ?thesis by (auto simp: word_le_nat_alt word_unat_eq_iff)
      qed
      then show ?thesis using True "1.IH"(1) by (auto simp: mark_illegal.simps [of iter])
    qed (auto simp: mark_illegal.simps [of iter])
  next
    case 2
    then show ?case using "1.IH"(2) by (cases "iter < tail") (simp_all add: mark_illegal.simps [of iter])
  next
    case 3
    then show ?case using "1.IH"(3) by (cases "iter < tail") (simp_all add: mark_illegal.simps [of iter])
  }
qed

lemma takeWhile_upt:
  assumes "i < m" "P i" "\<And>j. j < i \<Longrightarrow> \<not> P j"
  shows "takeWhile (\<lambda>j. \<not> P j) [0..<m] = [0..<i]"
proof -
  have "[0..<m] = [0..<i] @ i # [Suc i..<m]"
    using assms(1) upt_add_eq_append [of 0 i "m - i"] upt_conv_Cons [of i m] by simp
  moreover have "takeWhile (\<lambda>j. \<not> P j) ([0..<i] @ ys) = [0..<i] @ takeWhile (\<lambda>j. \<not> P j) ys" for ys
    by (rule takeWhile_append2) (use assms(3) in auto)
  ultimately show ?thesis using assms(2) by simp
qed

lemma rt_hw_ctz_ok:
  assumes "n \<noteq> 0"
  shows "rt_hw_ctz n < 64" "bit n (rt_hw_ctz n)" "j < rt_hw_ctz n \<Longrightarrow> \<not> bit n j"
proof -
  obtain i where "bit n i" using assms by (auto simp: bit_eq_iff)
  then obtain t where t: "bit n t" "\<And>j. j < t \<Longrightarrow> \<not> bit n j" using exists_least_iff [of "bit n"] by auto
  have "t < 64" using bit_imp_le_length [OF t(1)] by simp
  then have "rt_hw_ctz n = t" using takeWhile_upt [of t 64 "bit n"] t by (simp add: rt_hw_ctz_def)
  then show "rt_hw_ctz n < 64" "bit n (rt_hw_ctz n)" "j < rt_hw_ctz n \<Longrightarrow> \<not> bit n j" using t \<open>t < 64\<close> by auto
qed

lemma dvd_bits: "2 ^ k dvd unat p \<longleftrightarrow> (\<forall>j < k. \<not> bit p j)" for p :: "64 word"
proof -
  have "2 ^ k dvd unat p \<longleftrightarrow> take_bit k (unat p) = 0" by (simp add: take_bit_eq_0_iff)
  also have "\<dots> \<longleftrightarrow> (\<forall>j. \<not> (j < k \<and> bit (unat p) j))" by (simp add: bit_eq_iff bit_take_bit_iff)
  finally show ?thesis using bit_imp_le_length [of p] by (auto simp: bit_unsigned_iff)
qed

lemma page_to_addr_bit:
  assumes "take_bit 23 (pv_offset st) = 0" "n < 23"
  shows "bit (page_to_addr p st) n \<longleftrightarrow> 12 \<le> n \<and> bit p (n - 12)"
  using bit_minus_multiple [OF assms, of "push_bit 12 p"] assms(2) by (simp add: page_to_addr_def bit_push_bit_iff)

text \<open>The order the loop chooses is the largest one that alignment and the rest of the region allow.\<close>

lemma block_bits_ok:
  assumes pv: "take_bit 23 (pv_offset st) = 0" and p: "unat p < unat q" "unat q \<le> 2 ^ 27" and nz: "page_to_addr p st \<noteq> 0"
  obtains k where "block_bits (page_to_addr p st) (page_to_addr q st) = 12 + k" "k \<le> 10" "2 ^ k dvd unat p" "2 ^ k \<le> unat q - unat p"
    "k < 10 \<Longrightarrow> 2 ^ Suc k dvd unat p \<Longrightarrow> unat q - unat p < 2 ^ Suc k"
proof -
  let ?a = "page_to_addr p st" and ?d = "page_to_addr q st - page_to_addr p st"
  have d: "?d = push_bit 12 (q - p)" by (simp add: page_to_addr_def push_bit_eq_mult algebra_simps)
  have qp: "unat (q - p) = unat q - unat p" using p(1) by (intro unat_sub) (simp add: word_le_nat_alt)
  have ud: "unat ?d = 4096 * (unat q - unat p)" unfolding d using unat_page [of "q - p"] qp p(2) by simp
  then have "?d \<noteq> 0" using p(1) by (auto simp: word_unat_eq_iff)
  then obtain b where b: "b < 64" "rt_hw_clz ?d = 63 - b" "2 ^ b \<le> unat ?d" "unat ?d < 2 ^ (b + 1)" using rt_hw_clz_ok by blast
  have b12: "12 \<le> b"
  proof (rule ccontr)
    assume "\<not> 12 \<le> b"
    then have "(2 :: nat) ^ (b + 1) \<le> 2 ^ 12" by (intro power_increasing) auto
    then show False using b(4) ud p(1) by simp
  qed
  then obtain c where c: "b = 12 + c" using le_Suc_ex by blast
  have cb: "2 ^ c \<le> unat q - unat p" "unat q - unat p < 2 ^ Suc c" using b(3,4) ud by (simp_all add: c power_add)
  note t = rt_hw_ctz_ok [OF nz]
  note pb = page_to_addr_bit [OF pv, of _ p]
  have t12: "12 \<le> rt_hw_ctz ?a" using t(2) pb [of "rt_hw_ctz ?a"] by (cases "rt_hw_ctz ?a < 23") auto
  define k where "k = min (min (rt_hw_ctz ?a - 12) c) 10"
  have k: "block_bits ?a (page_to_addr q st) = 12 + k"
    using b(1,2) c t12 by (auto simp: block_bits_def k_def Let_def)
  show thesis
  proof (rule that [OF k])
    show "k \<le> 10" by (simp add: k_def)
    have "\<not> bit p j" if "j < k" for j
    proof -
      have "j + 12 < rt_hw_ctz ?a" "j < 10" using that t12 by (simp_all add: k_def less_diff_conv)
      then show ?thesis using t(3) [of "j + 12"] pb [of "j + 12"] by simp
    qed
    then show "2 ^ k dvd unat p" by (simp add: dvd_bits)
    have "(2 :: nat) ^ k \<le> 2 ^ c" by (intro power_increasing) (auto simp: k_def)
    then show "2 ^ k \<le> unat q - unat p" using cb(1) by (rule le_trans)
    show "unat q - unat p < 2 ^ Suc k" if "k < 10" "2 ^ Suc k dvd unat p"
    proof -
      have "\<not> bit p k" using that(2) dvd_bits [of "Suc k" p] by blast
      then have "k \<noteq> rt_hw_ctz ?a - 12" using t(2) pb [of "k + 12"] t12 that(1) by auto
      then have "k = c" using that(1) by (auto simp: k_def min_def split: if_splits)
      then show ?thesis using cb(2) by simp
    qed
  qed
qed

text \<open>Taking over a block that belonged to nobody.\<close>

lemma page_inv_add:
  assumes inv: "page_inv S st fl A" and b: "block_ok b" "rng b \<inter> span (frees fl \<union> A) = {}" "covered S {b}"
  shows "page_inv S st fl (insert b A)" "b \<notin> A"
proof -
  note d = page_invD [OF inv]
  have apart: "rng b \<inter> rng c = {}" if "c \<in> frees fl \<union> A" for c using b(2) that unfolding span_def by blast
  have self: "rng b \<noteq> {}" by (cases b) (auto simp: rng_def)
  have new: "b \<notin> frees fl \<union> A" using apart [of b] self by auto
  have "blocks_ok (insert b (frees fl \<union> A))"
    unfolding blocks_ok_def
  proof (intro conjI ballI impI)
    fix c assume "c \<in> insert b (frees fl \<union> A)" then show "block_ok c" using b(1) blocks_okD(1) [OF d(4)] by blast
  next
    fix c e assume "c \<in> insert b (frees fl \<union> A)" "e \<in> insert b (frees fl \<union> A)" "c \<noteq> e"
    then show "rng c \<inter> rng e = {}" using apart [of c] apart [of e] blocks_okD(2) [OF d(4), of c e] by blast
  qed
  then have "blocks_ok (frees fl \<union> insert b A)" by simp
  moreover have "covered S (frees fl \<union> insert b A)" using d(5) b(3) unfolding covered_def by blast
  moreover have "frees fl \<inter> insert b A = {}" using d(3) new by blast
  ultimately show "page_inv S st fl (insert b A)" using inv by (simp add: page_inv_def)
  show "b \<notin> A" using new by blast
qed

lemma page_inv_high_nr: "page_inv S (st\<lparr>high_pages_nr := n\<rparr>) fl A = page_inv S st fl A"
  by (simp add: page_inv_def lists_ok_def)

lemma rng_buddy_above:
  assumes "block_ok (p, k)" "k < 10" "rng (buddy p k, k) \<subseteq> {unat p + 2 ^ k..<n}"
  shows "2 ^ Suc k dvd unat p" "unat p + 2 ^ Suc k \<le> n"
proof -
  obtain j where j: "unat p = 2 ^ Suc k * j \<and> unat (buddy p k) = 2 ^ Suc k * j + 2 ^ k \<or>
      unat p = 2 ^ Suc k * j + 2 ^ k \<and> unat (buddy p k) = 2 ^ Suc k * j" using buddy_block [OF assms(1,2)] by metis
  have sub: "{unat (buddy p k)..<unat (buddy p k) + 2 ^ k} \<subseteq> {unat p + 2 ^ k..<n}" using assms(3) by (simp add: rng_def)
  have pos: "(0 :: nat) < 2 ^ k" by simp
  have ends: "unat p + 2 ^ k \<le> unat (buddy p k)" "unat (buddy p k) + 2 ^ k \<le> n"
    using atLeastLessThan_subset_iff [OF sub] pos by auto
  then have "unat p = 2 ^ Suc k * j" using j pos by linarith
  then show "2 ^ Suc k dvd unat p" by simp
  show "unat p + 2 ^ Suc k \<le> n" using ends by simp
qed

text \<open>One round of the loop puts the block at page \<open>p\<close> into its list.\<close>

lemma install_step:
  assumes inv: "page_inv S st fl A" and pq: "unat p < unat q" "unat q \<le> 2 ^ 27" "{unat p..<unat q} \<inter> span (frees fl \<union> A) = {}"
    and S: "\<And>y. unat y div 1024 = unat p div 1024 \<Longrightarrow> y \<in> S"
    and J: "\<And>r j. (r, j) \<in> frees fl \<Longrightarrow> j < 10 \<Longrightarrow> \<not> rng (buddy r j, j) \<subseteq> {unat p..<unat q}"
    and nz: "push_bit 12 p \<noteq> pv_offset st"
  obtains k st' where "install_loop early (page_to_addr p st) (page_to_addr q st) st =
      install_loop early (page_to_addr (p + 2 ^ k) st') (page_to_addr q st') st'"
    "page_inv S st' (push_fl (2 ^ 20 \<le> unat p) k p fl) A" "pv_offset st' = pv_offset st" "unat (p + 2 ^ k) = unat p + 2 ^ k"
    "block_ok (p, k)" "unat p + 2 ^ k \<le> unat q" "k < 10 \<Longrightarrow> 2 ^ Suc k dvd unat p \<Longrightarrow> unat q < unat p + 2 ^ Suc k"
proof -
  note d = page_invD [OF inv]
  have a0: "page_to_addr p st \<noteq> 0" using nz by (simp add: page_to_addr_def)
  have "unat (push_bit 12 p) \<noteq> unat (push_bit 12 q)" using unat_page [of p] unat_page [of q] pq(1,2) by simp
  then have "push_bit 12 p \<noteq> push_bit 12 q" by metis
  then have ne: "page_to_addr p st \<noteq> page_to_addr q st" by (simp add: page_to_addr_def)
  obtain k where k: "block_bits (page_to_addr p st) (page_to_addr q st) = 12 + k" "k \<le> 10" "2 ^ k dvd unat p" "2 ^ k \<le> unat q - unat p"
    "k < 10 \<Longrightarrow> 2 ^ Suc k dvd unat p \<Longrightarrow> unat q - unat p < 2 ^ Suc k" using block_bits_ok [OF d(2) pq(1,2) a0] by blast
  have p27: "unat p < 2 ^ 27" using pq by simp
  have ok: "block_ok (p, k)" using k(2-4) pq by (simp add: block_ok_def)
  have sub: "rng (p, k) \<subseteq> {unat p..<unat q}" using k(4) pq by (auto simp: rng_def)
  let ?hi = "2 ^ 20 \<le> unat p"
  define st1 where "st1 = upd_page p (\<lambda>r. r\<lparr>size_bits := 64, ref_cnt := 0\<rparr>) st"
  define st2 where "st2 = (if ?hi then st1\<lparr>high_pages_nr := high_pages_nr st1 + 2 ^ k\<rparr> else st1)"
  define st3 where "st3 = page_insert ?hi p k st2"
  have add: "page_inv S st fl (insert (p, k) A)" "(p, k) \<notin> A"
    using page_inv_add [OF inv ok] sub pq(3) S unfolding covered_def by auto
  have "page_inv S st1 fl (insert (p, k) A)"
    unfolding st1_def by (rule page_inv_ref [OF add(1)]) (use lent_size [OF add(1), of p k] in auto)
  then have i2: "page_inv S st2 fl (insert (p, k) A)" by (simp add: st2_def page_inv_high_nr)
  have nb: "(buddy p k, k) \<notin> frees fl" if "k < 10" using J [of "buddy p k" k] that sub by auto
  have i3: "page_inv S st3 (push_fl ?hi k p fl) A" unfolding st3_def by (rule page_inv_give [OF i2 add(2) nb]) auto
  have "p \<notin> set (fl hj j)" for hj j
    using blocks_same_head [OF page_invD(4) [OF i2], of p k j] page_invD(3) [OF i2] by (auto simp: frees_def)
  then have pv: "pv_offset st3 = pv_offset st" using page_insert_ok(4) [OF page_invD(1) [OF i2]] by (simp add: st3_def st2_def st1_def)
  have up: "unat (p + 2 ^ k) = unat p + 2 ^ k"
    using unat_plus [of p "2 ^ k"] unat_pow [of k] k(2) pow_10 [OF k(2)] p27 by simp
  have "page_to_addr (p + 2 ^ k) st3 = page_to_addr p st + push_bit (12 + k) 1" "page_to_addr q st3 = page_to_addr q st"
    using pv by (simp_all add: page_to_addr_def push_bit_eq_mult power_add algebra_simps)
  moreover have "install_loop early (page_to_addr p st) (page_to_addr q st) st = install_loop early (page_to_addr p st + push_bit (12 + k) 1) (page_to_addr q st) st3"
    using ne a0 k(1) mapped_page [OF p27] p27
    by (subst install_loop.simps) (simp add: st3_def st2_def st1_def Let_def word_less_nat_alt get_page_list_def addr_to_page_def)
  moreover have "unat p + 2 ^ k \<le> unat q" using k(4) pq(1) by simp
  moreover have "unat q < unat p + 2 ^ Suc k" if "k < 10" "2 ^ Suc k dvd unat p" using k(5) [OF that] by simp
  ultimately show thesis using that [of k st3] i3 pv up ok by simp
qed

text \<open>The loop over the region from page \<open>p\<close> to page \<open>q\<close>.\<close>

lemma install_loop_ok:
  assumes "page_inv S st fl A" "p \<le> q" "unat q \<le> 2 ^ 27" "{unat p..<unat q} \<inter> span (frees fl \<union> A) = {}"
    "\<And>(x :: 64 word) y. unat p \<le> unat x \<Longrightarrow> unat x < unat q \<Longrightarrow> unat y div 1024 = unat x div 1024 \<Longrightarrow> y \<in> S"
    "\<And>r j. (r, j) \<in> frees fl \<Longrightarrow> j < 10 \<Longrightarrow> \<not> rng (buddy r j, j) \<subseteq> {unat p..<unat q}"
    "\<And>x. unat p \<le> unat x \<Longrightarrow> unat x < unat q \<Longrightarrow> push_bit 12 x \<noteq> pv_offset st"
  shows "\<exists>st' fl'. install_loop early (page_to_addr p st) (page_to_addr q st) st = Some st' \<and> page_inv S st' fl' A \<and>
    span (frees fl') = span (frees fl) \<union> {unat p..<unat q} \<and> pv_offset st' = pv_offset st"
  using assms
proof (induction "unat q - unat p" arbitrary: p st fl rule: less_induct)
  case less
  show ?case
  proof (cases "p = q")
    case True
    then have "install_loop early (page_to_addr p st) (page_to_addr q st) st = Some st" by (subst install_loop.simps) simp
    then show ?thesis using less.prems(1) True by auto
  next
    case False
    then have pq: "unat p < unat q" using less.prems(2) by (auto simp: word_le_nat_alt word_unat_eq_iff)
    have S: "y \<in> S" if "unat y div 1024 = unat p div 1024" for y using less.prems(5) [of p y] pq that by simp
    have nz: "push_bit 12 p \<noteq> pv_offset st" using less.prems(7) [of p] pq by simp
    obtain k st3 where r: "install_loop early (page_to_addr p st) (page_to_addr q st) st =
        install_loop early (page_to_addr (p + 2 ^ k) st3) (page_to_addr q st3) st3"
      "page_inv S st3 (push_fl (2 ^ 20 \<le> unat p) k p fl) A" "pv_offset st3 = pv_offset st" "unat (p + 2 ^ k) = unat p + 2 ^ k"
      "block_ok (p, k)" "unat p + 2 ^ k \<le> unat q" "k < 10 \<Longrightarrow> 2 ^ Suc k dvd unat p \<Longrightarrow> unat q < unat p + 2 ^ Suc k"
      by (rule install_step [where early = early, OF less.prems(1) pq less.prems(3,4) S less.prems(6) nz]) auto
    let ?p' = "p + 2 ^ k" and ?fl = "push_fl (2 ^ 20 \<le> unat p) k p fl"
    have pos: "(0 :: nat) < 2 ^ k" by simp
    have "\<exists>st' fl'. install_loop early (page_to_addr ?p' st3) (page_to_addr q st3) st3 = Some st' \<and> page_inv S st' fl' A \<and>
      span (frees fl') = span (frees ?fl) \<union> {unat ?p'..<unat q} \<and> pv_offset st' = pv_offset st3"
    proof (rule less.hyps [OF _ r(2)])
      show "unat q - unat ?p' < unat q - unat p" using r(4) pq pos by linarith
      show "?p' \<le> q" using r(4,6) by (simp add: word_le_nat_alt)
      show "unat q \<le> 2 ^ 27" by (rule less.prems(3))
      show "{unat ?p'..<unat q} \<inter> span (frees ?fl \<union> A) = {}"
      proof -
        have "{unat ?p'..<unat q} \<subseteq> {unat p..<unat q}" "{unat ?p'..<unat q} \<inter> rng (p, k) = {}" using r(4) by (auto simp: rng_def)
        moreover have "X \<inter> (R \<union> F \<union> B) = {}" if "X \<subseteq> Y" "X \<inter> R = {}" "Y \<inter> (F \<union> B) = {}" for X Y R F B :: "nat set"
          using that by blast
        ultimately show ?thesis using less.prems(4) unfolding frees_push span_simps by metis
      qed
      show "y \<in> S" if "unat ?p' \<le> unat x" "unat x < unat q" "unat y div 1024 = unat x div 1024" for x y :: "64 word"
        using less.prems(5) [of x y] that r(4) by simp
      show "push_bit 12 x \<noteq> pv_offset st3" if "unat ?p' \<le> unat x" "unat x < unat q" for x
        using less.prems(7) [of x] that r(3,4) by simp
      show "\<not> rng (buddy t j, j) \<subseteq> {unat ?p'..<unat q}" if "(t, j) \<in> frees ?fl" "j < 10" for t j
      proof
        assume a: "rng (buddy t j, j) \<subseteq> {unat ?p'..<unat q}"
        show False
        proof (cases "(t, j) = (p, k)")
          case True
          then show False using rng_buddy_above [OF r(5), of "unat q"] r(7) a that(2) r(4) by simp
        next
          case False
          then have "(t, j) \<in> frees fl" using that(1) by auto
          then have "\<not> rng (buddy t j, j) \<subseteq> {unat p..<unat q}" using less.prems(6) that(2) by blast
          moreover have "{unat ?p'..<unat q} \<subseteq> {unat p..<unat q}" using r(4) by auto
          ultimately show False using a by blast
        qed
      qed
    qed
    moreover have "rng (p, k) \<union> {unat ?p'..<unat q} = {unat p..<unat q}" using r(4,6) pq by (auto simp: rng_def)
    ultimately show ?thesis using r(1,3) by (simp add: Un_assoc) (metis Un_assoc Un_commute)
  qed
qed

lemma and_not_mask:
  fixes y z :: "64 word"
  assumes "take_bit n y = 0" "take_bit n z = z"
  shows "(y + z) AND NOT (2 ^ n - 1) = y"
proof -
  have y: "\<not> bit y j" if "j < n" for j
    using arg_cong [OF assms(1), of "\<lambda>x. bit x j"] that by (simp add: bit_take_bit_iff)
  have z: "\<not> bit z j" if "n \<le> j" for j
    using arg_cong [OF assms(2), of "\<lambda>x. bit x j"] that by (simp add: bit_take_bit_iff)
  have "y AND z = 0" by (rule bit_word_eqI) (use y z in \<open>auto simp: bit_simps not_le [symmetric]\<close>)
  then have "y + z = y OR z" by (rule disjunctive_add_eq_or)
  then show ?thesis using y z
    by (auto intro!: bit_word_eqI simp: bit_simps not_le simp flip: mask_eq_exp_minus_1)
qed

text \<open>The region and its surroundings in pages: from a multiple of 1024 to a multiple of 1024.\<close>

definition shadow_lo :: "64 word \<Rightarrow> nat" where
  "shadow_lo p = 1024 * (unat p div 1024)"

definition shadow_hi :: "64 word \<Rightarrow> nat" where
  "shadow_hi q = 1024 * ((unat q + 1023) div 1024)"

lemma shadow_bounds:
  "shadow_lo p \<le> unat p" "unat q \<le> shadow_hi q" "unat q \<le> 2 ^ 27 \<Longrightarrow> shadow_hi q \<le> 2 ^ 27" "shadow_hi q < unat q + 1024" "unat p < shadow_lo p + 1024"
  by (simp_all add: shadow_lo_def shadow_hi_def)

lemma unat_small_nat: "n \<le> 2 ^ 27 \<Longrightarrow> unat (of_nat n :: 64 word) = n"
  by (simp add: unat_of_nat take_bit_nat_eq_self)

lemma shadow_aligned:
  assumes pv: "take_bit 23 (pv_offset st) = 0" and x: "unat x = 1024 * m" "unat x \<le> 2 ^ 27"
  shows "take_bit 22 (page_to_addr x st) = 0"
proof (rule bit_word_eqI)
  fix n
  have "\<not> bit x j" if "j < 10" for j
  proof -
    have "2 ^ 10 dvd unat x" using x(1) by simp
    then show ?thesis using dvd_bits [of 10 x] that by blast
  qed
  then show "bit (take_bit 22 (page_to_addr x st)) n = bit 0 n"
    using page_to_addr_bit [OF pv, of n x] by (auto simp: bit_take_bit_iff)
qed

lemma shadow_start:
  assumes pv: "take_bit 23 (pv_offset st) = 0" and p: "unat p \<le> 2 ^ 27"
  shows "page_to_addr p st AND NOT 0x3fffff = page_to_addr (of_nat (shadow_lo p)) st"
proof -
  let ?b = "of_nat (shadow_lo p) :: 64 word"
  have b: "unat ?b = shadow_lo p" using unat_small_nat shadow_bounds(1) [of p] p by simp
  have z: "unat (p - ?b) = unat p mod 1024"
    using unat_sub [of ?b p] b shadow_bounds(1) [of p] by (simp add: word_le_nat_alt shadow_lo_def minus_mult_div_eq_mod)
  have "unat (push_bit 12 (p - ?b)) = 4096 * (unat p mod 1024)" using unat_page [of "p - ?b"] z by simp
  then have "take_bit 22 (push_bit 12 (p - ?b)) = push_bit 12 (p - ?b)"
    by (simp add: word_unat_eq_iff unsigned_take_bit_eq take_bit_nat_eq_self)
  moreover have "take_bit 22 (page_to_addr ?b st) = 0"
    by (rule shadow_aligned [OF pv, of _ "unat p div 1024"]) (use b p shadow_bounds(1) [of p] in \<open>simp_all add: shadow_lo_def\<close>)
  ultimately have "(page_to_addr ?b st + push_bit 12 (p - ?b)) AND NOT (2 ^ 22 - 1) = page_to_addr ?b st" by (intro and_not_mask)
  then show ?thesis by (simp add: page_to_addr_def push_bit_eq_mult algebra_simps)
qed

lemma shadow_end:
  assumes pv: "take_bit 23 (pv_offset st) = 0" and q: "unat q \<le> 2 ^ 27"
  shows "FLOOR (page_to_addr q st) (0x3fffff + 1) = page_to_addr (of_nat (shadow_hi q)) st"
proof -
  let ?b = "of_nat (shadow_hi q) :: 64 word" and ?z = "of_nat (4194303 - 4096 * (shadow_hi q - unat q)) :: 64 word"
  note s = shadow_bounds(2,3,4) [of q]
  have b: "unat ?b = shadow_hi q" using unat_small_nat s(2) q by simp
  have "4096 * (shadow_hi q - unat q) \<le> 4194303" using s(3) by simp
  then have "?z = 4194303 - 4096 * (?b - q)" using s(1)
    by (simp add: of_nat_diff word_of_nat_eq_iff)
  then have sum: "page_to_addr ?b st + ?z = page_to_addr q st + 0x3fffff"
    by (simp add: page_to_addr_def push_bit_eq_mult algebra_simps)
  have "take_bit 22 ?z = ?z" by (simp add: word_unat_eq_iff unsigned_take_bit_eq unat_of_nat take_bit_nat_eq_self)
  moreover have "take_bit 22 (page_to_addr ?b st) = 0"
    by (rule shadow_aligned [OF pv, of _ "(unat q + 1023) div 1024"]) (use b q s in \<open>simp_all add: shadow_hi_def\<close>)
  ultimately have "(page_to_addr ?b st + ?z) AND NOT (2 ^ 22 - 1) = page_to_addr ?b st" by (intro and_not_mask)
  then show ?thesis by (simp add: FLOOR_def sum add.commute)
qed

lemma install_page_ok:
  assumes pv: "take_bit 23 (pv_offset st) = 0" and lists: "page_list st = (\<lambda>_ _. None)" and pq: "unat p \<le> unat q" "unat q \<le> 2 ^ 27"
    and own: "\<And>x. unat p \<le> unat x \<Longrightarrow> unat x < unat q \<Longrightarrow> size_bits (pages st x) = 64 \<and> push_bit 12 x \<noteq> pv_offset st"
  shows "\<exists>st' fl'. install_page early (page_to_addr p st) (page_to_addr q st) st = Some st' \<and>
    page_inv {x. shadow_lo p \<le> unat x \<and> unat x < shadow_hi q} st' fl' {} \<and> span (frees fl') = {unat p..<unat q} \<and> pv_offset st' = pv_offset st"
proof -
  have p27: "unat p \<le> 2 ^ 27" using pq by simp
  let ?lo = "of_nat (shadow_lo p) :: 64 word" and ?hi = "of_nat (shadow_hi q) :: 64 word" and ?S = "{x. shadow_lo p \<le> unat x \<and> unat x < shadow_hi q}"
  note b = shadow_bounds(1,5) [of p] shadow_bounds(2,4) [of q] shadow_bounds(3) [OF pq(2)]
  have u: "unat ?lo = shadow_lo p" "unat ?hi = shadow_hi q" using unat_small_nat b p27 by simp_all
  define st3 where "st3 = mark_illegal q ?hi (mark_illegal ?lo p (if 0xffffffff < page_to_addr ?hi st + pv_offset st then st\<lparr>high_page_configured := True\<rparr> else st))"
  have pv3: "pv_offset st3 = pv_offset st" "page_list st3 = (\<lambda>_ _. None)" by (simp_all add: st3_def mark_illegal_ok lists)
  then have a: "page_to_addr x st = page_to_addr x st3" for x by (simp add: page_to_addr_def)
  have "install_page early (page_to_addr p st) (page_to_addr q st) st = install_loop early (page_to_addr p st) (page_to_addr q st) st3"
    using addr_page [of ?lo st] addr_page [of ?hi st] addr_page [OF p27, of st] addr_page [OF pq(2), of st] u b p27
    unfolding install_page_def shadow_start [OF pv p27] shadow_end [OF pv pq(2)] st3_def by (simp add: Let_def)
  then have "install_page early (page_to_addr p st) (page_to_addr q st) st = install_loop early (page_to_addr p st3) (page_to_addr q st3) st3"
    by (simp only: a)
  moreover have "size_bits (pages st3 x) = 64" if "x \<in> ?S" for x
  proof -
    have "size_bits (pages st x) = 64" if "p \<le> x" "x < q" using own [of x] that by (simp add: word_le_nat_alt word_less_nat_alt)
    moreover have "?lo \<le> x" "x < ?hi" using that u by (simp_all add: word_le_nat_alt word_less_nat_alt)
    ultimately show ?thesis by (auto simp: st3_def mark_illegal_ok(1) not_le not_less)
  qed
  then have "page_inv ?S st3 (\<lambda>_ _. []) {}"
    using pv pv3 by (simp add: page_inv_def lists_ok_def dll_def frees_def blocks_ok_def covered_def)
  then have "\<exists>st' fl'. install_loop early (page_to_addr p st3) (page_to_addr q st3) st3 = Some st' \<and> page_inv ?S st' fl' {} \<and>
    span (frees fl') = span (frees (\<lambda>_ _. [])) \<union> {unat p..<unat q} \<and> pv_offset st' = pv_offset st3"
  proof (rule install_loop_ok)
    show "p \<le> q" using pq(1) by (simp add: word_le_nat_alt)
    show "unat q \<le> 2 ^ 27" by (rule pq(2))
    show "y \<in> ?S" if "unat p \<le> unat x" "unat x < unat q" "unat y div 1024 = unat x div 1024" for x y :: "64 word"
    proof -
      have "unat p div 1024 \<le> unat y div 1024" "unat y div 1024 < (unat q + 1023) div 1024"
        using that div_le_mono [OF that(1), of 1024] by auto
      then show ?thesis by (auto simp: shadow_lo_def shadow_hi_def)
    qed
  qed (use own pv3 in \<open>auto simp: frees_def\<close>)
  ultimately show ?thesis using pv3(1) by (simp add: frees_def)
qed

definition record_pages :: "64 word \<Rightarrow> 64 word \<Rightarrow> nat" where
  "record_pages p q = (shadow_hi q - shadow_lo p) div 128"

lemma init_mpr_size_ok:
  assumes pv: "take_bit 23 (pv_offset st) = 0" and mpr: "take_bit 12 mpr = 0" and pq: "unat p \<le> unat q" "unat q \<le> 2 ^ 27"
  shows "page_to_addr p st + init_mpr_size mpr (page_to_addr p st) (page_to_addr q st) st = page_to_addr (p + of_nat (record_pages p q)) st"
proof -
  have p27: "unat p \<le> 2 ^ 27" using pq by simp
  let ?lo = "of_nat (shadow_lo p) :: 64 word" and ?hi = "of_nat (shadow_hi q) :: 64 word"
  note b = shadow_bounds(1) [of p] shadow_bounds(2) [of q] shadow_bounds(3) [OF pq(2)]
  have "unat ?lo = shadow_lo p" "unat ?hi = shadow_hi q" using unat_small_nat b p27 by simp_all
  then have ad: "addr_to_page (page_to_addr ?lo st) st = ?lo" "addr_to_page (page_to_addr ?hi st) st = ?hi"
    using b p27 by (simp_all add: addr_page)
  have al: "take_bit 12 (mpr + 32 * of_nat (1024 * m)) = 0" for m
  proof -
    have "32 * of_nat (1024 * m) = (push_bit 12 (of_nat (8 * m)) :: 64 word)" by (simp add: push_bit_eq_mult algebra_simps)
    moreover have "mpr = push_bit 12 (drop_bit 12 mpr)" using bits_ident [of 12 mpr] mpr by simp
    ultimately have "mpr + 32 * of_nat (1024 * m) = push_bit 12 (drop_bit 12 mpr + of_nat (8 * m))" by (metis push_bit_add)
    moreover have "take_bit 12 (push_bit 12 y) = 0" for y :: "64 word" by (rule bit_word_eqI) (auto simp: bit_simps)
    ultimately show ?thesis by (simp only:)
  qed
  have m12: "4095 AND mask 12 = (4095 :: 64 word)" by (simp add: mask_eq_exp_minus_1)
  have "init_mpr_size mpr (page_to_addr p st) (page_to_addr q st) st = (mpr + 32 * ?hi) - (mpr + 32 * ?lo)"
    using and_not_mask [of 12 "mpr + 32 * ?lo" 0] and_not_mask [of 12 "mpr + 32 * ?hi" "2 ^ 12 - 1"] al [of "unat p div 1024"] al [of "(unat q + 1023) div 1024"] m12
    unfolding init_mpr_size_def shadow_start [OF pv p27] shadow_end [OF pv pq(2)] Let_def ad
    by (simp add: FLOOR_def shadow_lo_def [symmetric] shadow_hi_def [symmetric] take_bit_eq_mask algebra_simps)
  moreover have "shadow_hi q = shadow_lo p + 128 * record_pages p q"
  proof -
    have "shadow_hi q - shadow_lo p = 128 * (8 * ((unat q + 1023) div 1024 - unat p div 1024))"
      by (simp add: shadow_hi_def shadow_lo_def algebra_simps)
    then show ?thesis using b pq(1) by (simp add: record_pages_def)
  qed
  ultimately show ?thesis by (simp add: page_to_addr_def push_bit_eq_mult algebra_simps)
qed

text \<open>The first state of the allocator: the pages behind the record are free.\<close>

lemma page_init_lists_ok:
  assumes pv: "take_bit 23 (pv_offset st) = 0" and mpr: "take_bit 12 mpr = 0"
    and reg: "(a + 0xfff) AND NOT 0xfff = page_to_addr p st" "b AND NOT 0xfff = page_to_addr q st" "page_to_addr p st < page_to_addr q st"
    and q: "unat q \<le> 2 ^ 27" and room: "unat p + record_pages p q \<le> unat q"
    and nz: "\<And>x. unat p \<le> unat x \<Longrightarrow> unat x < unat q \<Longrightarrow> push_bit 12 x \<noteq> pv_offset st"
  shows "\<exists>S st' fl'. page_init_lists mpr a b st = Some st' \<and> page_inv S st' fl' {} \<and>
    span (frees fl') = {unat p + record_pages p q..<unat q} \<and> pv_offset st' = pv_offset st"
proof -
  let ?p = "p + of_nat (record_pages p q)"
  have pq: "unat p \<le> unat q" "unat p \<le> 2 ^ 27" using room q by simp_all
  have up: "unat ?p = unat p + record_pages p q"
  proof -
    have "unat (of_nat (record_pages p q) :: 64 word) = record_pages p q" using room q by (intro unat_small_nat) simp
    then show ?thesis using unat_plus [of p "of_nat (record_pages p q)"] room q by simp
  qed
  define st2 where "st2 = mark_illegal p q (st\<lparr>page_nr := drop_bit 12 (page_to_addr q st - page_to_addr p st), page_list := (\<lambda>_ _. None)\<rparr>)"
  have s2: "pv_offset st2 = pv_offset st" "page_list st2 = (\<lambda>_ _. None)"
    "unat p \<le> unat x \<Longrightarrow> unat x < unat q \<Longrightarrow> size_bits (pages st2 x) = 64" for x
    by (simp_all add: st2_def mark_illegal_ok word_le_nat_alt word_less_nat_alt)
  then have ad: "page_to_addr x st = page_to_addr x st2" for x by (simp add: page_to_addr_def)
  have run: "page_init_lists mpr a b st = install_page True (page_to_addr ?p st2) (page_to_addr q st2) st2"
  proof -
    have "page_init_lists mpr a b st = install_page True (page_to_addr ?p st) (page_to_addr q st) st2"
      using reg addr_page [OF q, of st] addr_page [OF pq(2), of st] init_mpr_size_ok [OF pv mpr pq(1) q]
      unfolding page_init_lists_def st2_def by (simp add: Let_def)
    then show ?thesis by (simp only: ad)
  qed
  have "\<exists>st' fl'. install_page True (page_to_addr ?p st2) (page_to_addr q st2) st2 = Some st' \<and>
    page_inv {x. shadow_lo ?p \<le> unat x \<and> unat x < shadow_hi q} st' fl' {} \<and> span (frees fl') = {unat ?p..<unat q} \<and> pv_offset st' = pv_offset st2"
    by (rule install_page_ok) (use pv s2 up room q nz in auto)
  then show ?thesis using run up s2(1) by auto
qed

section \<open>Clients\<close>

text \<open>What the operations leave alone.\<close>

lemma page_lists_keep [simp]:
  "pv_offset (page_remove hi p k st) = pv_offset st" "ref_cnt (pages (page_remove hi p k st) x) = ref_cnt (pages st x)"
  "pv_offset (page_insert hi p k st) = pv_offset st" "ref_cnt (pages (page_insert hi p k st) x) = ref_cnt (pages st x)"
  by (auto simp: page_remove_def page_insert_def Let_def split: option.splits)

lemma pages_free_loop_keep:
  "pages_free_loop hi p k st = (p', k', st') \<Longrightarrow> pv_offset st' = pv_offset st \<and> ref_cnt (pages st' x) = ref_cnt (pages st x)"
  by (induction hi p k st rule: pages_free_loop.induct) (auto simp: pages_free_loop.simps Let_def split: if_splits)

lemma pages_split_loop_keep:
  "pages_split_loop hi p k d st = (p', st') \<Longrightarrow> pv_offset st' = pv_offset st \<and> ref_cnt (pages st' x) = ref_cnt (pages st x)"
  by (induction hi p k d st rule: pages_split_loop.induct) (auto simp: Let_def)

lemma pages_free_keep:
  assumes "pages_free mapped hi p bits st = Some (n, st')"
  shows "pv_offset st' = pv_offset st" "x \<noteq> p \<Longrightarrow> ref_cnt (pages st' x) = ref_cnt (pages st x)"
  using assms pages_free_loop_keep [of hi p "unat bits"]
  by (auto simp: pages_free_def Let_def bind_eq_Some_conv split: if_splits prod.splits)

lemma pages_alloc_keep:
  assumes "pages_alloc hi bits st = Some (Some p, st')"
  shows "pv_offset st' = pv_offset st" "x \<noteq> p \<Longrightarrow> ref_cnt (pages st' x) = ref_cnt (pages st x)"
  using assms pages_split_loop_keep [of hi _ "unat bits"]
  by (auto simp: pages_alloc_def Let_def bind_eq_Some_conv split: if_splits prod.splits option.splits)

definition any_free :: "free_lists \<Rightarrow> nat \<Rightarrow> bool \<Rightarrow> bool" where
  "any_free fl k hi \<longleftrightarrow> (\<exists>j. k \<le> j \<and> j \<le> 10 \<and> fl hi j \<noteq> [])"

text \<open>\<open>lends st fl A p k st'\<close>: from the state \<open>st\<close> a block of order \<open>k\<close> at page \<open>p\<close> was lent.\<close>

definition lends :: "64 word set \<Rightarrow> page_state \<Rightarrow> free_lists \<Rightarrow> (64 word \<times> nat) set \<Rightarrow> 64 word \<Rightarrow> nat \<Rightarrow> page_state \<Rightarrow> bool" where
  "lends S st fl A p k st' \<longleftrightarrow> (p, k) \<notin> A \<and> ref_cnt (pages st' p) = 1 \<and> (\<forall>x. x \<noteq> p \<longrightarrow> ref_cnt (pages st' x) = ref_cnt (pages st x)) \<and>
     pv_offset st' = pv_offset st \<and> (\<exists>fl'. page_inv S st' fl' (insert (p, k) A) \<and> span (frees fl') \<union> rng (p, k) = span (frees fl))"

lemma pages_alloc_lends:
  assumes "page_inv S st fl A" "counted st A" "k \<le> 10"
  shows "\<not> any_free fl k hi \<Longrightarrow> pages_alloc hi (of_nat k) st = Some (None, st)"
    "any_free fl k hi \<Longrightarrow> \<exists>p st'. pages_alloc hi (of_nat k) st = Some (Some p, st') \<and> lends S st fl A p k st' \<and> (2 ^ 20 \<le> unat p \<longleftrightarrow> hi)"
proof -
  note a = pages_alloc_ok [OF assms, of hi]
  show "pages_alloc hi (of_nat k) st = Some (None, st)" if "\<not> any_free fl k hi"
  proof -
    have "\<forall>j. k \<le> j \<longrightarrow> j \<le> 10 \<longrightarrow> fl hi j = []" using that unfolding any_free_def by blast
    from a [unfolded if_P [OF this]] show ?thesis .
  qed
  show "\<exists>p st'. pages_alloc hi (of_nat k) st = Some (Some p, st') \<and> lends S st fl A p k st' \<and> (2 ^ 20 \<le> unat p \<longleftrightarrow> hi)" if "any_free fl k hi"
  proof -
    have "\<not> (\<forall>j. k \<le> j \<longrightarrow> j \<le> 10 \<longrightarrow> fl hi j = [])" using that unfolding any_free_def by blast
    from a [unfolded if_not_P [OF this]] obtain p st' fl' where r: "pages_alloc hi (of_nat k) st = Some (Some p, st')"
      "page_inv S st' fl' (insert (p, k) A)" "(p, k) \<notin> A" "ref_cnt (pages st' p) = 1" "hi \<longleftrightarrow> 2 ^ 20 \<le> unat p"
      "span (frees fl') \<union> rng (p, k) = span (frees fl)" by blast
    then show ?thesis using pages_alloc_keep [OF r(1)] unfolding lends_def by blast
  qed
qed

lemma do_pages_alloc_ok:
  fixes flags :: "64 word"
  assumes "page_inv S st fl A" "counted st A" "k \<le> 10"
  defines "hi \<equiv> flag_to_page_list flags st"
  shows "if any_free fl k False \<or> hi \<and> any_free fl k True
    then \<exists>p st'. do_pages_alloc (of_nat k) flags st = Some (Some (page_to_addr p st), st') \<and> lends S st fl A p k st' \<and>
      (2 ^ 20 \<le> unat p \<longleftrightarrow> hi \<and> any_free fl k True)
    else do_pages_alloc (of_nat k) flags st = Some (None, st)"
proof -
  note a = pages_alloc_lends [OF assms(1-3)]
  have run: "do_pages_alloc (of_nat k) flags st = do {
      (p, st1) \<leftarrow> pages_alloc hi (of_nat k) st;
      (p', st2) \<leftarrow> (if p = None \<and> hi then pages_alloc False (of_nat k) st1 else Some (p, st1));
      Some (case p' of None \<Rightarrow> None | Some q \<Rightarrow> Some (page_to_addr q st2), st2) }"
    by (simp add: do_pages_alloc_def hi_def Let_def)
  have ad: "lends S st fl A p k st' \<Longrightarrow> page_to_addr p st' = page_to_addr p st" for p st' by (simp add: lends_def page_to_addr_def)
  show ?thesis
  proof (cases "any_free fl k hi")
    case True
    then obtain p st' where r: "pages_alloc hi (of_nat k) st = Some (Some p, st')" "lends S st fl A p k st'" "2 ^ 20 \<le> unat p \<longleftrightarrow> hi"
      using a(2) by blast
    moreover have "any_free fl k False \<or> hi \<and> any_free fl k True" "hi \<longleftrightarrow> hi \<and> any_free fl k True" using True by (cases hi; simp)+
    ultimately show ?thesis using ad [OF r(2)] unfolding run by auto
  next
    case n1: False
    show ?thesis
    proof (cases "hi \<and> any_free fl k False")
      case True
      then obtain p st' where r: "pages_alloc False (of_nat k) st = Some (Some p, st')" "lends S st fl A p k st'" "\<not> 2 ^ 20 \<le> unat p"
        using a(2) by blast
      then show ?thesis using True n1 a(1) [OF n1] ad [OF r(2)] unfolding run by auto
    qed (use n1 a(1) in \<open>cases hi; simp add: run\<close>)
  qed
qed

text \<open>
  For each order the allocator keeps the contract of the memory allocators: blocks are named by their
  address, and the range of a block is counted in physical addresses.
\<close>

definition pages_holds :: "(64 word \<Rightarrow> bool) \<Rightarrow> 64 word \<Rightarrow> nat \<Rightarrow> nat set \<Rightarrow> page_state \<Rightarrow> (nat \<times> nat) set \<Rightarrow> bool" where
  "pages_holds mapped pv k R st B \<longleftrightarrow> pv_offset st = pv \<and> k \<le> 10 \<and> (\<forall>p. unat p \<in> R \<longrightarrow> mapped p) \<and> (\<exists>S fl A. page_inv S st fl A \<and> (\<forall>b \<in> A. ref_cnt (pages st (fst b)) = 1 \<and> snd b = k) \<and>
     B = (\<lambda>(p, j). (4096 * unat p, 4096 * (unat p + 2 ^ j))) ` A \<and> span (frees fl \<union> A) = R)"

definition pages_give :: "(64 word \<Rightarrow> bool) \<Rightarrow> 32 word \<Rightarrow> 64 word option \<Rightarrow> page_state \<Rightarrow> page_state option" where
  "pages_give mapped bits addr st = (case addr of None \<Rightarrow> None | Some v \<Rightarrow> map_option snd (rt_pages_free mapped v bits st))"

lemma pages_holdsD:
  assumes "pages_holds mapped pv k R st B"
  obtains S fl A where "page_inv S st fl A" "counted st A" "B = (\<lambda>(p, j). (4096 * unat p, 4096 * (unat p + 2 ^ j))) ` A"
    "span (frees fl) \<union> span A = R" "\<And>b. b \<in> A \<Longrightarrow> ref_cnt (pages st (fst b)) = 1 \<and> snd b = k" "pv_offset st = pv" "k \<le> 10" "\<And>p. unat p \<in> R \<Longrightarrow> mapped p"
proof -
  from assms obtain S fl A where h: "page_inv S st fl A" "\<forall>b \<in> A. ref_cnt (pages st (fst b)) = 1 \<and> snd b = k"
    "B = (\<lambda>(p, j). (4096 * unat p, 4096 * (unat p + 2 ^ j))) ` A" "span (frees fl \<union> A) = R" "pv_offset st = pv" "k \<le> 10" "\<forall>p. unat p \<in> R \<longrightarrow> mapped p"
    unfolding pages_holds_def by blast
  moreover have "counted st A" using h(2) by (simp add: counted_def)
  ultimately show thesis by (intro that [of S fl A]) simp_all
qed

lemma page_range:
  assumes "page_inv S st fl A" "(p, k) \<in> A"
  shows "unat (page_to_addr p st + pv_offset st) = 4096 * unat p" "unat p < 2 ^ 27"
proof -
  have "block_ok (p, k)" using blocks_okD(1) [OF page_invD(4) [OF assms(1)]] assms(2) by simp
  then show "unat p < 2 ^ 27" by (rule block_okD(4))
  then show "unat (page_to_addr p st + pv_offset st) = 4096 * unat p" by (rule mapped_page(3))
qed

lemma ranges_apart:
  assumes "page_inv S st fl A" "(p, k) \<in> A" "(q, j) \<in> A" "(p, k) \<noteq> (q, j)"
  shows "unat q + 2 ^ j \<le> unat p \<or> unat p + 2 ^ k \<le> unat q"
proof -
  have "rng (p, k) \<inter> rng (q, j) = {}" using blocks_okD(2) [OF page_invD(4) [OF assms(1)], of "(p, k)" "(q, j)"] assms by simp
  moreover have "unat p \<in> rng (p, k)" "unat q \<in> rng (q, j)" by (simp_all add: rng_def)
  ultimately have "unat p \<notin> rng (q, j)" "unat q \<notin> rng (p, k)" by blast+
  then show ?thesis by (auto simp: rng_def not_less)
qed

lemma pages_alloc_law:
  assumes "pages_holds mapped pv k R st B"
  shows "(\<exists>st'. rt_pages_alloc_ext (of_nat k) flags st = Some (None, st') \<and> pages_holds mapped pv k R st' B) \<or>
    (\<exists>v st' z. rt_pages_alloc_ext (of_nat k) flags st = Some (Some v, st') \<and> pages_holds mapped pv k R st' (insert (unat (v + pv), z) B) \<and>
      unat (v + pv) < z \<and> (\<forall>a b. (a, b) \<in> B \<longrightarrow> b \<le> unat (v + pv) \<or> z \<le> a))"
proof -
  obtain S fl A where h: "page_inv S st fl A" "counted st A" "B = (\<lambda>(p, j). (4096 * unat p, 4096 * (unat p + 2 ^ j))) ` A"
    "span (frees fl) \<union> span A = R" "\<And>b. b \<in> A \<Longrightarrow> ref_cnt (pages st (fst b)) = 1 \<and> snd b = k" "pv_offset st = pv" "k \<le> 10" "\<And>p. unat p \<in> R \<Longrightarrow> mapped p"
    using pages_holdsD [OF assms] by blast
  show ?thesis
  proof (cases "any_free fl k False \<or> flag_to_page_list flags st \<and> any_free fl k True")
    case True
    from do_pages_alloc_ok [OF h(1,2,7), of flags, unfolded if_P [OF True]] obtain p st' where
      r: "do_pages_alloc (of_nat k) flags st = Some (Some (page_to_addr p st), st')" "lends S st fl A p k st'" by blast
    from r(2) obtain fl' where l: "page_inv S st' fl' (insert (p, k) A)" "span (frees fl') \<union> rng (p, k) = span (frees fl)"
      "(p, k) \<notin> A" "ref_cnt (pages st' p) = 1" "\<And>x. x \<noteq> p \<Longrightarrow> ref_cnt (pages st' x) = ref_cnt (pages st x)" "pv_offset st' = pv"
      using h(6) unfolding lends_def by blast
    have v: "unat (page_to_addr p st + pv) = 4096 * unat p"
      using page_range(1) [OF l(1), of p k] l(6) h(6) by (simp add: page_to_addr_def)
    have "pages_holds mapped pv k R st' (insert (4096 * unat p, 4096 * (unat p + 2 ^ k)) B)"
      unfolding pages_holds_def
    proof (intro conjI exI [of _ S] exI [of _ fl'] exI [of _ "insert (p, k) A"] ballI)
      show "ref_cnt (pages st' (fst b)) = 1" if "b \<in> insert (p, k) A" for b using that l(4) l(5) [of "fst b"] h(5) [of b] by (cases "fst b = p") auto
      show "span (frees fl' \<union> insert (p, k) A) = R" using l(2) h(4) by auto
    qed (use l(1,6) h(3,5,7,8) in auto)
    moreover have "b \<le> 4096 * unat p \<or> 4096 * (unat p + 2 ^ k) \<le> a" if ab: "(a, b) \<in> B" for a b
    proof -
      obtain q j where q: "(q, j) \<in> A" "a = 4096 * unat q" "b = 4096 * (unat q + 2 ^ j)" using ab unfolding h(3) by auto
      then have "(p, k) \<noteq> (q, j)" using l(3) by blast
      then have "unat q + 2 ^ j \<le> unat p \<or> unat p + 2 ^ k \<le> unat q" using ranges_apart [OF l(1), of p k q j] q(1) by simp
      then show ?thesis unfolding q(2,3) by (metis mult_le_mono2)
    qed
    ultimately show ?thesis using r(1) v unfolding rt_pages_alloc_ext_def
      by (intro disjI2 exI [of _ "page_to_addr p st"] exI [of _ st'] exI [of _ "4096 * (unat p + 2 ^ k)"]) auto
  next
    case False
    from do_pages_alloc_ok [OF h(1,2,7), of flags, unfolded if_not_P [OF this]] assms show ?thesis
      by (simp add: rt_pages_alloc_ext_def)
  qed
qed

lemma pages_free_law:
  assumes holds: "pages_holds mapped pv k R st B" and v: "(unat (v + pv), z) \<in> B"
  shows "\<exists>st'. pages_give mapped (of_nat k) (Some v) st = Some st' \<and> pages_holds mapped pv k R st' (B - {(unat (v + pv), z)})"
proof -
  obtain S fl A where h: "page_inv S st fl A" "counted st A" "B = (\<lambda>(p, j). (4096 * unat p, 4096 * (unat p + 2 ^ j))) ` A"
    "span (frees fl) \<union> span A = R" "\<And>b. b \<in> A \<Longrightarrow> ref_cnt (pages st (fst b)) = 1 \<and> snd b = k" "pv_offset st = pv" "k \<le> 10" "\<And>p. unat p \<in> R \<Longrightarrow> mapped p"
    using pages_holdsD [OF holds] by blast
  obtain p where p: "(p, k) \<in> A" "unat (v + pv) = 4096 * unat p" "z = 4096 * (unat p + 2 ^ k)"
  proof -
    obtain q j where q: "(q, j) \<in> A" "unat (v + pv) = 4096 * unat q" "z = 4096 * (unat q + 2 ^ j)" using v unfolding h(3) by auto
    then show thesis using that [of q] h(5) [OF q(1)] by simp
  qed
  note pr = page_range [OF h(1) p(1)]
  have "v + pv = page_to_addr p st + pv" using pr(1) p(2) h(6) by (simp add: word_unat_eq_iff)
  then have va: "v = page_to_addr p st" by simp
  have "unat p \<in> rng (p, k)" by (simp add: rng_def)
  then have "unat p \<in> R" using h(4) p(1) unfolding span_def by blast
  then have mp: "mapped p" by (rule h(8))
  note m = mapped_page [OF pr(2), of st]
  have one: "ref_cnt (pages st p) = 1" using h(5) [OF p(1)] by simp
  obtain st' fl' where f: "pages_free mapped (get_page_list v st) p (of_nat k) st = Some (1, st')" "page_inv S st' fl' (A - {(p, k)})"
    "span (frees fl') = span (frees fl) \<union> rng (p, k)"
    using pages_free_ok [where mapped = mapped and hi = "get_page_list v st", OF h(1,2) p(1) mp] m(2) one va by auto
  have other: "fst b \<noteq> p" if "b \<in> A - {(p, k)}" for b
    using that blocks_same_head [OF page_invD(4) [OF h(1)], of p k "snd b"] p(1) by (cases b) auto
  have "pages_holds mapped pv k R st' (B - {(unat (v + pv), z)})"
    unfolding pages_holds_def
  proof (intro conjI exI [of _ S] exI [of _ fl'] exI [of _ "A - {(p, k)}"] ballI)
    show "ref_cnt (pages st' (fst b)) = 1" if "b \<in> A - {(p, k)}" for b
      using pages_free_keep(2) [OF f(1), of "fst b"] other [OF that] h(5) [of b] that by auto
    show "span (frees fl' \<union> (A - {(p, k)})) = R"
    proof -
      have "span A = rng (p, k) \<union> span (A - {(p, k)})" using span_simps(2) [of "(p, k)" "A - {(p, k)}"] p(1) by (simp add: insert_absorb)
      then show ?thesis using f(3) h(4) by auto
    qed
    show "B - {(unat (v + pv), z)} = (\<lambda>(p, j). (4096 * unat p, 4096 * (unat p + 2 ^ j))) ` (A - {(p, k)})"
      unfolding h(3) p(2,3) using h(5) by (force simp: word_unat_eq_iff)
  qed (use pages_free_keep(1) [OF f(1)] f(2) h(5-8) in auto)
  then show ?thesis using f(1) va m(1) by (simp add: pages_give_def rt_pages_free_def)
qed

interpretation pages: allocator "pages_holds mapped pv k R" "rt_pages_alloc_ext (of_nat k)" "pages_give mapped (of_nat k)" "\<lambda>v. unat (v + pv)" "\<lambda>_. True" for mapped pv k R
proof
  show "unat (p + pv) = unat (r + pv) \<Longrightarrow> p = r" for p r by (simp add: word_unat_eq_iff [symmetric])
qed (rule pages_alloc_law pages_free_law, assumption+)+

section \<open>Owners of pages\<close>

text \<open>
  All owners of pages together: a call takes a block of some order, adds a reference to a held block through the address of any
  of its pages, or drops a reference.  The holdings are listed with block and number of references.  \<open>early\<close> is the time
  until the master page record is mapped: the early allocator is in use, and nothing is released.  The work of \<^verbatim>\<open>rt_page_init\<close> on
  the kernel page table is a sequence of such early calls: \<^verbatim>\<open>_map_one_page\<close> takes a page for each new table and adds a
  reference to the table above it.
\<close>

datatype page_call = Take nat "64 word" | Share nat nat | Drop nat

type_synonym holding = "(64 word \<times> nat) \<times> nat"

fun page_step :: "bool \<Rightarrow> (64 word \<Rightarrow> bool) \<Rightarrow> page_call \<Rightarrow> holding list \<times> page_state \<Rightarrow> (holding list \<times> page_state) option" where
  "page_step early mapped (Take k flags) (H, st) = do {
     (r, st') \<leftarrow> (if early then early_do_pages_alloc (of_nat k) flags st else rt_pages_alloc_ext (of_nat k) flags st);
     Some (case r of None \<Rightarrow> H | Some v \<Rightarrow> ((addr_to_page v st', k), 1) # H, st')
   }"
| "page_step early mapped (Share i d) (H, st) =
    (if i < length H
     then let ((p, k), n) = H ! i
       in Some (H[i := ((p, k), Suc n)], rt_page_ref_inc (page_to_addr (p + of_nat (d mod 2 ^ k)) st) (of_nat k) st)
     else Some (H, st))"
| "page_step early mapped (Drop i) (H, st) =
    (if i < length H
     then let ((p, k), n) = H ! i
       in do {
         (r, st') \<leftarrow> rt_pages_free mapped (page_to_addr p st) (of_nat k) st;
         Some (if r = 0 then H[i := ((p, k), n - 1)] else take i H @ drop (Suc i) H, st')
       }
     else Some (H, st))"

fun page_calls :: "bool \<Rightarrow> (64 word \<Rightarrow> bool) \<Rightarrow> page_call list \<Rightarrow> holding list \<times> page_state \<Rightarrow> (holding list \<times> page_state) option" where
  "page_calls early mapped [] w = Some w"
| "page_calls early mapped (c # cs) w = page_step early mapped c w \<bind> page_calls early mapped cs"

fun page_call_ok :: "bool \<Rightarrow> page_call \<Rightarrow> bool" where
  "page_call_ok early (Take k flags) \<longleftrightarrow> k \<le> 10"
| "page_call_ok early (Share i d) \<longleftrightarrow> True"
| "page_call_ok early (Drop i) \<longleftrightarrow> \<not> early"

text \<open>\<open>holdings R b H st\<close>: the pages \<open>R\<close> are free or held as \<open>H\<close> says, with at most \<open>b\<close> references to a block.\<close>

definition holdings :: "nat set \<Rightarrow> nat \<Rightarrow> holding list \<Rightarrow> page_state \<Rightarrow> bool" where
  "holdings R b H st \<longleftrightarrow> (\<exists>S fl. page_inv S st fl (fst ` set H) \<and> distinct (map fst H) \<and>
     (\<forall>h \<in> set H. 1 \<le> snd h \<and> snd h \<le> b \<and> ref_cnt (pages st (fst (fst h))) = of_nat (snd h)) \<and>
     span (frees fl) \<union> span (fst ` set H) = R)"

lemma early_do_pages_alloc_eq:
  assumes inv: "page_inv S st fl A" "counted st A" and k: "k \<le> 10"
  shows "early_do_pages_alloc (of_nat k) flags st = do_pages_alloc (of_nat k) flags st"
proof -
  note e = early_pages_alloc_eq [OF inv(1) k]
  have "early_pages_alloc False (of_nat k) st' = pages_alloc False (of_nat k) st'" if "pages_alloc hi (of_nat k) st = Some (None, st')" for hi st'
  proof (cases "any_free fl k hi")
    case True
    then show ?thesis using pages_alloc_lends(2) [OF inv k, of hi] that by auto
  next
    case False
    then show ?thesis using pages_alloc_lends(1) [OF inv k False] that e by simp
  qed
  then show ?thesis unfolding early_do_pages_alloc_def do_pages_alloc_def Let_def e
    by (cases "pages_alloc (flag_to_page_list flags st) (of_nat k) st") (auto split: prod.splits)
qed

lemma count_word: "1 \<le> n \<Longrightarrow> n < 2 ^ 32 \<Longrightarrow> 0 < (of_nat n :: 32 word) \<and> ((of_nat n :: 32 word) = 1 \<longleftrightarrow> n = 1)"
  by (simp add: word_less_nat_alt word_unat_eq_iff unat_of_nat take_bit_nat_eq_self)

lemma holdingsE:
  assumes "holdings R b H st" "b < 2 ^ 32"
  obtains S fl where "page_inv S st fl (fst ` set H)" "counted st (fst ` set H)" "distinct (map fst H)"
    "\<And>h. h \<in> set H \<Longrightarrow> 1 \<le> snd h \<and> snd h \<le> b \<and> ref_cnt (pages st (fst (fst h))) = of_nat (snd h)" "span (frees fl) \<union> span (fst ` set H) = R"
proof -
  from assms(1) obtain S fl where h: "page_inv S st fl (fst ` set H)" "distinct (map fst H)"
    "\<forall>h \<in> set H. 1 \<le> snd h \<and> snd h \<le> b \<and> ref_cnt (pages st (fst (fst h))) = of_nat (snd h)" "span (frees fl) \<union> span (fst ` set H) = R"
    unfolding holdings_def by blast
  have "0 < ref_cnt (pages st (fst (fst x)))" if "x \<in> set H" for x
  proof -
    have "1 \<le> snd x" "snd x < 2 ^ 32" "ref_cnt (pages st (fst (fst x))) = of_nat (snd x)" using h(3) [rule_format, OF that] assms(2) by linarith+
    then show ?thesis using count_word by metis
  qed
  then have c: "counted st (fst ` set H)" by (simp add: counted_def)
  show thesis by (rule that [OF h(1) c h(2) _ h(4)]) (rule h(3) [rule_format])
qed

lemma holdingsI:
  assumes "page_inv S st fl (fst ` set H)" "distinct (map fst H)" "span (frees fl) \<union> span (fst ` set H) = R"
    and "\<And>h. h \<in> set H \<Longrightarrow> 1 \<le> snd h \<and> snd h \<le> b \<and> ref_cnt (pages st (fst (fst h))) = of_nat (snd h)"
  shows "holdings R b H st"
  using assms unfolding holdings_def by blast

lemma one_head:
  assumes inv: "page_inv S st fl A" and "c \<in> A" "c' \<in> A" "fst c = fst c'"
  shows "c = c'"
  using blocks_same_head [OF page_invD(4) [OF inv], of "fst c" "snd c" "snd c'"] assms(2-4) by (metis UnI2 prod.collapse)

lemma other_holding:
  assumes d: "distinct (map fst H)" and i: "i < length H" and h: "h \<in> set (take i H @ drop (Suc i) H)"
  shows "h \<in> set H" "fst h \<noteq> fst (H ! i)" 
proof -
  have e: "H = take i H @ H ! i # drop (Suc i) H" using id_take_nth_drop [OF i] .
  then show "h \<in> set H" using h by (metis Un_iff set_append list.set_intros(2))
  have "distinct (map fst (take i H @ H ! i # drop (Suc i) H))" using d e by metis
  then show "fst h \<noteq> fst (H ! i)" using h by (auto simp: image_iff)
qed

lemma without_holding:
  assumes d: "distinct (map fst H)" and i: "i < length H"
  shows "distinct (map fst (take i H @ drop (Suc i) H))" "fst ` set (take i H @ drop (Suc i) H) = fst ` set H - {fst (H ! i)}"
proof -
  have e: "H = take i H @ H ! i # drop (Suc i) H" using id_take_nth_drop [OF i] .
  have "distinct (map fst (take i H @ H ! i # drop (Suc i) H))" using d e by metis
  then show "distinct (map fst (take i H @ drop (Suc i) H))" by auto
  have "set H = insert (H ! i) (set (take i H @ drop (Suc i) H))" by (subst e) auto
  then show "fst ` set (take i H @ drop (Suc i) H) = fst ` set H - {fst (H ! i)}" using other_holding(2) [OF d i] by auto
qed

lemma changed_holding:
  assumes i: "i < length H" and h: "fst h' = fst (H ! i)" and d: "distinct (map fst H)"
  shows "map fst (H[i := h']) = map fst H" "fst ` set (H[i := h']) = fst ` set H"
    "h \<in> set (H[i := h']) \<Longrightarrow> h = h' \<or> h \<in> set (take i H @ drop (Suc i) H)"
proof -
  show m: "map fst (H[i := h']) = map fst H" using i h by (simp add: map_update list_update_same_conv)
  then show "fst ` set (H[i := h']) = fst ` set H" by (metis set_map)
  have "H[i := h'] = take i H @ h' # drop (Suc i) H" using i by (simp add: upd_conv_take_nth_drop)
  then show "h \<in> set (H[i := h']) \<Longrightarrow> h = h' \<or> h \<in> set (take i H @ drop (Suc i) H)" by auto
qed

lemma take_step:
  assumes hold: "holdings R b H st" and b: "b < 2 ^ 32" and k: "k \<le> 10"
  shows "\<exists>H' st'. page_step early mapped (Take k flags) (H, st) = Some (H', st') \<and> holdings R (Suc b) H' st' \<and> pv_offset st' = pv_offset st"
proof -
  obtain S fl where h: "page_inv S st fl (fst ` set H)" "counted st (fst ` set H)" "distinct (map fst H)"
    "\<And>h. h \<in> set H \<Longrightarrow> 1 \<le> snd h \<and> snd h \<le> b \<and> ref_cnt (pages st (fst (fst h))) = of_nat (snd h)" "span (frees fl) \<union> span (fst ` set H) = R"
    using holdingsE [OF hold b] by blast
  have run: "page_step early mapped (Take k flags) (H, st) = do {
     (r, st') \<leftarrow> do_pages_alloc (of_nat k) flags st; Some (case r of None \<Rightarrow> H | Some v \<Rightarrow> ((addr_to_page v st', k), 1) # H, st') }"
    using early_do_pages_alloc_eq [OF h(1,2) k, of flags] by (simp add: rt_pages_alloc_ext_def)
  show ?thesis
  proof (cases "any_free fl k False \<or> flag_to_page_list flags st \<and> any_free fl k True")
    case True
    from do_pages_alloc_ok [OF h(1,2) k, of flags, unfolded if_P [OF True]] obtain p st' where
      r: "do_pages_alloc (of_nat k) flags st = Some (Some (page_to_addr p st), st')" "lends S st fl (fst ` set H) p k st'" by blast
    from r(2) obtain fl' where l: "page_inv S st' fl' (insert (p, k) (fst ` set H))" "span (frees fl') \<union> rng (p, k) = span (frees fl)"
      "(p, k) \<notin> fst ` set H" "ref_cnt (pages st' p) = 1" "\<And>x. x \<noteq> p \<Longrightarrow> ref_cnt (pages st' x) = ref_cnt (pages st x)" "pv_offset st' = pv_offset st"
      unfolding lends_def by blast
    have "addr_to_page (page_to_addr p st) st' = p"
      using mapped_page(1) [OF page_range(2) [OF l(1), of p k], of st'] l(6) by (simp add: page_to_addr_def)
    then have "page_step early mapped (Take k flags) (H, st) = Some (((p, k), 1) # H, st')" using run r(1) by simp
    moreover have "holdings R (Suc b) (((p, k), 1) # H) st'"
    proof (rule holdingsI)
      show "page_inv S st' fl' (fst ` set (((p, k), 1) # H))" using l(1) by simp
      show "distinct (map fst (((p, k), 1) # H))" using h(3) l(3) by simp
      show "span (frees fl') \<union> span (fst ` set (((p, k), 1) # H)) = R" using l(2) h(5) by auto
      fix x assume x: "x \<in> set (((p, k), 1 :: nat) # H)"
      show "1 \<le> snd x \<and> snd x \<le> Suc b \<and> ref_cnt (pages st' (fst (fst x))) = of_nat (snd x)"
      proof (cases "x = ((p, k), 1)")
        case False
        then have xH: "x \<in> set H" using x by simp
        then have "fst (fst x) \<noteq> p" using one_head [OF l(1), of "fst x" "(p, k)"] l(3) by auto
        then show ?thesis using h(4) [OF xH] l(5) by auto
      qed (use l(4) in simp)
    qed
    ultimately show ?thesis using l(6) by blast
  next
    case False
    from do_pages_alloc_ok [OF h(1,2) k, of flags, unfolded if_not_P [OF this]] have "page_step early mapped (Take k flags) (H, st) = Some (H, st)"
      unfolding run by simp
    moreover have "holdings R (Suc b) H st" using h(1,3,5) h(4) by (intro holdingsI) force+
    ultimately show ?thesis by simp
  qed
qed

lemma page_of_block:
  assumes ok: "block_ok (p, k)"
  shows "unat (p + of_nat (d mod 2 ^ k)) \<in> rng (p, k)"
proof -
  note b = block_okD [OF ok]
  have m: "d mod 2 ^ k < 2 ^ k" by simp
  then have "d mod 2 ^ k < 2 ^ 27" using b(3) by linarith
  then have "unat (of_nat (d mod 2 ^ k) :: 64 word) = d mod 2 ^ k" by (intro unat_small_nat) simp
  moreover have "unat p + d mod 2 ^ k < 2 ^ 64" using less_le_trans [OF add_strict_left_mono [OF m, of "unat p"] b(3)] by simp
  ultimately have "unat (p + of_nat (d mod 2 ^ k)) = unat p + d mod 2 ^ k" using unat_plus [of p "of_nat (d mod 2 ^ k)"] by metis
  then show ?thesis using m by (simp add: rng_def)
qed

lemma share_step:
  assumes hold: "holdings R b H st" and b: "b < 2 ^ 32"
  shows "\<exists>H' st'. page_step early mapped (Share i d) (H, st) = Some (H', st') \<and> holdings R (Suc b) H' st' \<and> pv_offset st' = pv_offset st"
proof -
  obtain S fl where h: "page_inv S st fl (fst ` set H)" "counted st (fst ` set H)" "distinct (map fst H)"
    "\<And>h. h \<in> set H \<Longrightarrow> 1 \<le> snd h \<and> snd h \<le> b \<and> ref_cnt (pages st (fst (fst h))) = of_nat (snd h)" "span (frees fl) \<union> span (fst ` set H) = R"
    using holdingsE [OF hold b] by blast
  show ?thesis
  proof (cases "i < length H")
    case False
    moreover have "holdings R (Suc b) H st" using h(1,3,5) h(4) by (intro holdingsI) force+
    ultimately show ?thesis by simp
  next
    case True
    obtain p k n where e: "H ! i = ((p, k), n)" by (metis prod.collapse)
    have hi: "((p, k), n) \<in> set H" using True e by (metis nth_mem)
    then have pk: "(p, k) \<in> fst ` set H" by force
    have ok: "block_ok (p, k)" using blocks_okD(1) [OF page_invD(4) [OF h(1)]] pk by simp
    note g = group_head_block [OF ok page_of_block [OF ok, of d]]
    let ?st = "upd_page p (\<lambda>r. r\<lparr>ref_cnt := ref_cnt r + 1\<rparr>) st" and ?H = "H[i := ((p, k), Suc n)]"
    have "rt_page_ref_inc (page_to_addr (p + of_nat (d mod 2 ^ k)) st) (of_nat k) st = ?st"
      using g mapped_page(1) [OF g(2), of st] of_nat_order [OF block_okD(1) [OF ok]] by (simp add: rt_page_ref_inc_def pages_ref_inc_def)
    then have "page_step early mapped (Share i d) (H, st) = Some (?H, ?st)" using True e by simp
    moreover have "holdings R (Suc b) ?H ?st"
    proof (rule holdingsI)
      note c = changed_holding [OF True _ h(3), of "((p, k), Suc n)", unfolded e, simplified]
      show "page_inv S ?st fl (fst ` set ?H)" unfolding c by (rule page_inv_ref [OF h(1)]) auto
      show "distinct (map fst ?H)" "span (frees fl) \<union> span (fst ` set ?H) = R" unfolding c using h(3,5) by simp_all
      fix x assume "x \<in> set ?H"
      then consider "x = ((p, k), Suc n)" | "x \<in> set (take i H @ drop (Suc i) H)" using changed_holding(3) [OF True _ h(3), of "((p, k), Suc n)" x] e by auto
      then show "1 \<le> snd x \<and> snd x \<le> Suc b \<and> ref_cnt (pages ?st (fst (fst x))) = of_nat (snd x)"
      proof cases
        case 1
        then show ?thesis using h(4) [OF hi] by simp
      next
        case 2
        note o = other_holding [OF h(3) True 2]
        have "fst (fst x) \<noteq> p" using one_head [OF h(1), of "fst x" "(p, k)"] o e pk by auto
        then show ?thesis using h(4) [OF o(1)] by auto
      qed
    qed
    ultimately show ?thesis by auto
  qed
qed

lemma drop_step:
  assumes hold: "holdings R b H st" and b: "b < 2 ^ 32" and mapped: "\<And>p. unat p \<in> R \<Longrightarrow> mapped p"
  shows "\<exists>H' st'. page_step early mapped (Drop i) (H, st) = Some (H', st') \<and> holdings R (Suc b) H' st' \<and> pv_offset st' = pv_offset st"
proof -
  obtain S fl where h: "page_inv S st fl (fst ` set H)" "counted st (fst ` set H)" "distinct (map fst H)"
    "\<And>h. h \<in> set H \<Longrightarrow> 1 \<le> snd h \<and> snd h \<le> b \<and> ref_cnt (pages st (fst (fst h))) = of_nat (snd h)" "span (frees fl) \<union> span (fst ` set H) = R"
    using holdingsE [OF hold b] by blast
  show ?thesis
  proof (cases "i < length H")
    case False
    moreover have "holdings R (Suc b) H st" using h(1,3,5) h(4) by (intro holdingsI) force+
    ultimately show ?thesis by simp
  next
    case True
    obtain p k n where e: "H ! i = ((p, k), n)" by (metis prod.collapse)
    have hi: "((p, k), n) \<in> set H" using True e by (metis nth_mem)
    then have pk: "(p, k) \<in> fst ` set H" by force
    note pr = page_range [OF h(1) pk]
    note m = mapped_page [OF pr(2), of st]
    have "unat p \<in> rng (p, k)" by (simp add: rng_def)
    then have mp: "mapped p" using h(5) pk mapped unfolding span_def by blast
    have n: "ref_cnt (pages st p) = of_nat n" "1 \<le> n" "n \<le> b" using h(4) [OF hi] by simp_all
    note one = count_word [OF n(2), THEN conjunct2]
    note f = pages_free_ok [where mapped = mapped, OF h(1,2) pk mp m(2)]
    have other: "fst (fst x) \<noteq> p" "x \<in> set H" if "x \<in> set (take i H @ drop (Suc i) H)" for x
      using one_head [OF h(1), of "fst x" "(p, k)"] other_holding [OF h(3) True that] e pk by auto
    show ?thesis
    proof (cases "n = 1")
      case last: True
      then obtain st' fl' where r: "pages_free mapped (get_page_list (page_to_addr p st) st) p (of_nat k) st = Some (1, st')"
        "page_inv S st' fl' (fst ` set H - {(p, k)})" "span (frees fl') = span (frees fl) \<union> rng (p, k)" using f n(1) by auto
      note keep = pages_free_keep [OF r(1)]
      let ?H = "take i H @ drop (Suc i) H"
      note w = without_holding [OF h(3) True, unfolded e fst_conv]
      have "page_step early mapped (Drop i) (H, st) = Some (?H, st')" using True e r(1) m(1) by (simp add: rt_pages_free_def)
      moreover have "holdings R (Suc b) ?H st'"
      proof (rule holdingsI)
        show "page_inv S st' fl' (fst ` set ?H)" "distinct (map fst ?H)" using r(2) w by (simp_all only: w)
        have "span (fst ` set H) = rng (p, k) \<union> span (fst ` set H - {(p, k)})" using span_simps(2) [of "(p, k)" "fst ` set H - {(p, k)}"] pk by (simp add: insert_absorb)
        then show "span (frees fl') \<union> span (fst ` set ?H) = R" using r(3) h(5) unfolding w(2) by auto
        fix x assume x: "x \<in> set ?H"
        show "1 \<le> snd x \<and> snd x \<le> Suc b \<and> ref_cnt (pages st' (fst (fst x))) = of_nat (snd x)"
          using h(4) [OF other(2) [OF x]] keep(2) [OF other(1) [OF x]] by auto
      qed
      ultimately show ?thesis using keep(1) by blast
    next
      case False
      then have "ref_cnt (pages st p) \<noteq> 1" using n one b by (simp only: n(1)) auto
      then obtain st' where r: "pages_free mapped (get_page_list (page_to_addr p st) st) p (of_nat k) st = Some (0, st')"
        "page_inv S st' fl (fst ` set H)" "ref_cnt (pages st' p) = ref_cnt (pages st p) - 1" using f by auto
      note keep = pages_free_keep [OF r(1)]
      let ?H = "H[i := ((p, k), n - 1)]"
      have "page_step early mapped (Drop i) (H, st) = Some (?H, st')" using True e r(1) m(1) by (simp add: rt_pages_free_def)
      moreover have "holdings R (Suc b) ?H st'"
      proof (rule holdingsI)
        note c = changed_holding [OF True _ h(3), of "((p, k), n - 1)", unfolded e, simplified]
        show "page_inv S st' fl (fst ` set ?H)" "distinct (map fst ?H)" "span (frees fl) \<union> span (fst ` set ?H) = R" using c r(2) h(3,5) by simp_all
        fix x assume "x \<in> set ?H"
        then consider "x = ((p, k), n - 1)" | "x \<in> set (take i H @ drop (Suc i) H)" using changed_holding(3) [OF True _ h(3), of "((p, k), n - 1)" x] e by auto
        then show "1 \<le> snd x \<and> snd x \<le> Suc b \<and> ref_cnt (pages st' (fst (fst x))) = of_nat (snd x)"
        proof cases
          case 1
          then show ?thesis using False n r(3) by (auto simp: of_nat_diff)
        next
          case 2
          then show ?thesis using h(4) [OF other(2) [OF 2]] keep(2) [OF other(1) [OF 2]] by auto
        qed
      qed
      ultimately show ?thesis using keep(1) by blast
    qed
  qed
qed

lemma page_calls_ok:
  assumes "holdings R b H st" "b + length cs \<le> 2 ^ 32" "\<forall>c \<in> set cs. page_call_ok early c" "early \<or> (\<forall>p. unat p \<in> R \<longrightarrow> mapped p)"
  shows "\<exists>H' st'. page_calls early mapped cs (H, st) = Some (H', st') \<and> holdings R (b + length cs) H' st' \<and> pv_offset st' = pv_offset st"
  using assms(1-3)
proof (induction cs arbitrary: b H st)
  case (Cons c cs)
  have b: "b < 2 ^ 32" using Cons.prems(2) by simp
  have "\<exists>H1 st1. page_step early mapped c (H, st) = Some (H1, st1) \<and> holdings R (Suc b) H1 st1 \<and> pv_offset st1 = pv_offset st"
  proof (cases c)
    case (Take k flags)
    then show ?thesis using take_step [OF Cons.prems(1) b] Cons.prems(3) by simp
  next
    case (Share i d)
    then show ?thesis using share_step [OF Cons.prems(1) b] by simp
  next
    case (Drop i)
    then show ?thesis using drop_step [OF Cons.prems(1) b] Cons.prems(3) assms(4) by simp
  qed
  then obtain H1 st1 where s: "page_step early mapped c (H, st) = Some (H1, st1)" "holdings R (Suc b) H1 st1" "pv_offset st1 = pv_offset st" by blast
  from Cons.IH [OF s(2)] Cons.prems(2,3) s(1,3) show ?case by simp
qed (simp add: assms)

text \<open>What the holders can rely on.\<close>

lemma holdings_facts:
  assumes hold: "holdings R b H st" and b: "b < 2 ^ 32"
  shows "((p, k), n) \<in> set H \<Longrightarrow> 1 \<le> n \<and> k \<le> 10 \<and> 2 ^ k dvd unat p \<and> rng (p, k) \<subseteq> R \<and> rt_page_ref_get (page_to_addr p st) (of_nat k) st = of_nat n"
    "i < j \<Longrightarrow> j < length H \<Longrightarrow> rng (fst (H ! i)) \<inter> rng (fst (H ! j)) = {}"
    "rt_page_get_info st = Some (page_nr st, of_nat (card R - (\<Sum>h \<leftarrow> H. 2 ^ snd (fst h))))"
    "\<exists>y \<in> R. y < 2 ^ 20 \<and> y \<notin> span (fst ` set H) \<Longrightarrow> \<exists>x st'. rt_pages_alloc 0 st = Some (Some x, st')"
proof -
  obtain S fl where h: "page_inv S st fl (fst ` set H)" "counted st (fst ` set H)" "distinct (map fst H)"
    "\<And>h. h \<in> set H \<Longrightarrow> 1 \<le> snd h \<and> snd h \<le> b \<and> ref_cnt (pages st (fst (fst h))) = of_nat (snd h)" "span (frees fl) \<union> span (fst ` set H) = R"
    using holdingsE [OF hold b] by blast
  note d = page_invD [OF h(1)]
  show "1 \<le> n \<and> k \<le> 10 \<and> 2 ^ k dvd unat p \<and> rng (p, k) \<subseteq> R \<and> rt_page_ref_get (page_to_addr p st) (of_nat k) st = of_nat n" if x: "((p, k), n) \<in> set H"
  proof -
    have pk: "(p, k) \<in> fst ` set H" using x by force
    have ok: "block_ok (p, k)" using blocks_okD(1) [OF d(4)] pk by simp
    note b = block_okD [OF ok]
    have "unat p \<in> rng (p, k)" by (simp add: rng_def)
    note g = group_head_block(1) [OF ok this]
    have "rt_page_ref_get (page_to_addr p st) (of_nat k) st = of_nat n"
      using g mapped_page(1) [OF b(4), of st] of_nat_order [OF b(1)] h(4) [OF x] by (simp add: rt_page_ref_get_def pages_ref_get_def)
    moreover have "rng (p, k) \<subseteq> R" using h(5) pk unfolding span_def by blast
    ultimately show ?thesis using b h(4) [OF x] by simp
  qed
  show "rng (fst (H ! i)) \<inter> rng (fst (H ! j)) = {}" if "i < j" "j < length H"
  proof -
    have "fst (H ! i) \<noteq> fst (H ! j)" using h(3) that nth_eq_iff_index_eq [OF h(3), of i j] by simp
    moreover have "fst (H ! i) \<in> fst ` set H" "fst (H ! j) \<in> fst ` set H" using that by simp_all
    ultimately show ?thesis using blocks_okD(2) [OF d(4)] by blast
  qed
  show "\<exists>x st'. rt_pages_alloc 0 st = Some (Some x, st')" if "\<exists>y \<in> R. y < 2 ^ 20 \<and> y \<notin> span (fst ` set H)"
  proof -
    from that h(5) obtain y p k where y: "y < 2 ^ 20" "(p, k) \<in> frees fl" "y \<in> rng (p, k)" unfolding span_def by fastforce
    then obtain hi where pin: "p \<in> set (fl hi k)" by (auto simp: frees_def)
    moreover have "\<not> hi" using d(6) [OF pin] y(1,3) by (simp add: rng_def)
    moreover have "k \<le> 10" using blocks_okD(1) [OF d(4), of "(p, k)"] y(2) by (simp add: block_ok_def)
    ultimately have "any_free fl 0 False" by (auto simp: any_free_def)
    then show ?thesis using do_pages_alloc_ok [OF h(1,2), of 0 0] by (auto simp: rt_pages_alloc_def)
  qed
  have fin: "finite (frees fl)" "finite (fst ` set H)" using frees_pages(2) [OF h(1)] by simp_all
  have sub: "blocks_ok (frees fl)" "blocks_ok (fst ` set H)" using d(4) by (simp_all add: blocks_ok_def)
  have "span (frees fl) \<inter> span (fst ` set H) = {}"
  proof -
    have "rng c \<inter> rng c' = {}" if "c \<in> frees fl" "c' \<in> fst ` set H" for c c'
      using blocks_okD(2) [OF d(4), of c c'] that d(3) by blast
    then show ?thesis unfolding span_def by blast
  qed
  moreover have "finite (span (frees fl))" "finite (span (fst ` set H))" using fin unfolding span_def by (simp_all add: rng_def)
  ultimately have "card R = card (span (frees fl)) + card (span (fst ` set H))" unfolding h(5) [symmetric] by (intro card_Un_disjoint)
  moreover have "card (span (fst ` set H)) = (\<Sum>h \<leftarrow> H. 2 ^ snd (fst h))"
  proof -
    have "(\<Sum>c \<in> set (map fst H). 2 ^ snd c) = (\<Sum>c \<leftarrow> map fst H. (2 :: nat) ^ snd c)" using h(3) by (rule sum_list_distinct_conv_sum_set [symmetric])
    then show ?thesis unfolding span_card [OF fin(2) sub(2)] by (simp add: comp_def)
  qed
  ultimately show "rt_page_get_info st = Some (page_nr st, of_nat (card R - (\<Sum>h \<leftarrow> H. 2 ^ snd (fst h))))"
    using rt_page_get_info_ok [OF h(1)] by simp
qed

section \<open>Properties\<close>

text \<open>
  A concrete allocator: the 16 pages from 0x40200 on are free.
\<close>

definition sample_pages :: page_state where
  "sample_pages = \<lparr>pages = (\<lambda>_. \<lparr>pg_next = None, pg_pre = None, size_bits = 64, ref_cnt = 0\<rparr>)
      (0x40200 := \<lparr>pg_next = None, pg_pre = None, size_bits = 4, ref_cnt = 0\<rparr>),
    page_list = (\<lambda>hi k. if \<not> hi \<and> k = 4 then Some 0x40200 else None), pv_offset = 0, high_page_configured = False, page_nr = 16, high_pages_nr = 0\<rparr>"

definition sample_free :: free_lists where
  "sample_free = (\<lambda>hi k. if \<not> hi \<and> k = 4 then [0x40200] else [])"

lemma sample_frees: "frees sample_free = {(0x40200, 4)}"
  by (auto simp: frees_def sample_free_def split: if_splits)

lemma sample_pages_inv: "page_inv UNIV sample_pages sample_free {}"
proof -
  have "lists_ok sample_pages sample_free"
    by (auto simp: lists_ok_def dll_def sample_pages_def sample_free_def split: if_splits)
  moreover have "buddy 0x40200 4 \<noteq> 0x40200" by (simp add: buddy_def)
  moreover have "\<forall>hi k p. p \<in> set (sample_free hi k) \<longrightarrow> (hi \<longleftrightarrow> 2 ^ 20 \<le> unat p)"
    by (simp add: sample_free_def)
  ultimately show ?thesis
    by (simp add: page_inv_def sample_frees blocks_ok_def block_ok_def covered_def) (simp add: sample_pages_def)
qed

text \<open>
  C3: allocation of pages.  For a request of up to 4 MB \<^verbatim>\<open>rt_page_bits\<close> is the least order with enough room.
  \<^verbatim>\<open>rt_pages_alloc_ext\<close> for this order returns the address of a block of that order, cut out of the free
  memory and lent with one reference: the block is aligned, overlaps no other block, and free memory is
  what it was without it.  The block is from the pages above 4 GB when the flags ask for them and a
  block is free there, otherwise from those below.  The call answers with a null pointer, and changes
  nothing, exactly when no block of the order or a larger one is free in the lists it may use.  The
  statistics show the number of free pages.
\<close>

theorem pages_alloc_buddy:
  assumes inv: "page_inv S st fl A" "counted st A" and n: "n \<noteq> 0" "unat n \<le> 2 ^ 22"
  shows "\<exists>k \<le> 10. rt_page_bits n = of_nat k \<and> unat n \<le> 4096 * 2 ^ k \<and> (0 < k \<longrightarrow> 4096 * 2 ^ (k - 1) < unat n) \<and>
    rt_page_get_info st = Some (page_nr st, of_nat (card (span (frees fl)))) \<and>
    (let high = flag_to_page_list flags st \<and> any_free fl k True in
      if any_free fl k False \<or> high
      then \<exists>p st'. rt_pages_alloc_ext (of_nat k) flags st = Some (Some (page_to_addr p st), st') \<and> lends S st fl A p k st' \<and>
        (2 ^ 20 \<le> unat p \<longleftrightarrow> high)
      else rt_pages_alloc_ext (of_nat k) flags st = Some (None, st))"
proof (intro exI [of _ "unat (rt_page_bits n)"] conjI)
  note b = rt_page_bits_ok [OF n(1)]
  show "unat (rt_page_bits n) \<le> 10" by (rule b(3) [OF n(2)])
  then show "let high = flag_to_page_list flags st \<and> any_free fl (unat (rt_page_bits n)) True in
      if any_free fl (unat (rt_page_bits n)) False \<or> high
      then \<exists>p st'. rt_pages_alloc_ext (of_nat (unat (rt_page_bits n))) flags st = Some (Some (page_to_addr p st), st') \<and>
        lends S st fl A p (unat (rt_page_bits n)) st' \<and> (2 ^ 20 \<le> unat p \<longleftrightarrow> high)
      else rt_pages_alloc_ext (of_nat (unat (rt_page_bits n))) flags st = Some (None, st)"
    using do_pages_alloc_ok [OF inv, of "unat (rt_page_bits n)" flags] unfolding rt_pages_alloc_ext_def Let_def by blast
qed (use rt_page_bits_ok [OF n(1)] rt_page_get_info_ok [OF inv(1)] in simp_all)

theorem pages_alloc_buddy_witness:
  "\<exists>k \<le> 10. rt_page_bits 5000 = of_nat k \<and> (5000 :: nat) \<le> 4096 * 2 ^ k \<and> any_free sample_free k False \<and>
    (\<exists>p st'. rt_pages_alloc_ext (of_nat k) 1 sample_pages = Some (Some (page_to_addr p sample_pages), st') \<and>
      lends UNIV sample_pages sample_free {} p k st')"
proof -
  have "counted sample_pages {}" by (simp add: counted_def)
  from pages_alloc_buddy [OF sample_pages_inv this, of 5000 1] obtain k where k: "k \<le> 10" "rt_page_bits 5000 = of_nat k"
    "(5000 :: nat) \<le> 4096 * 2 ^ k" "0 < k \<longrightarrow> 4096 * 2 ^ (k - 1) < (5000 :: nat)"
    "let high = flag_to_page_list 1 sample_pages \<and> any_free sample_free k True in
      if any_free sample_free k False \<or> high
      then \<exists>p st'. rt_pages_alloc_ext (of_nat k) 1 sample_pages = Some (Some (page_to_addr p sample_pages), st') \<and>
        lends UNIV sample_pages sample_free {} p k st' \<and> (2 ^ 20 \<le> unat p \<longleftrightarrow> high)
      else rt_pages_alloc_ext (of_nat k) 1 sample_pages = Some (None, sample_pages)" by auto
  have "k \<le> 4"
  proof (rule ccontr)
    assume "\<not> k \<le> 4"
    then have "(2 :: nat) ^ 4 \<le> 2 ^ (k - 1)" by (intro power_increasing) auto
    then show False using k(4) \<open>\<not> k \<le> 4\<close> by simp
  qed
  then have "any_free sample_free k False" by (auto simp: any_free_def sample_free_def)
  then show ?thesis using k unfolding Let_def by auto
qed

text \<open>
  C33: release of pages.  \<^verbatim>\<open>rt_pages_free\<close> of a lent block takes off one reference.  While references are
  left nothing else happens and the answer is 0.  With the last reference the answer is 1, the pages of
  the block are free again, and the block is merged with its buddy as long as the buddy is free: no two
  buddies of the same order are ever both free.  \<^verbatim>\<open>rt_page_ref_inc\<close> on any page of the block adds a
  reference, which one more \<^verbatim>\<open>rt_pages_free\<close> takes off.
\<close>

theorem pages_free_merges:
  assumes inv: "page_inv S st fl A" and cnt: "counted st A" and p: "(p, k) \<in> A" "mapped p"
  shows "(if ref_cnt (pages st p) = 1
    then \<exists>st' fl'. rt_pages_free mapped (page_to_addr p st) (of_nat k) st = Some (1, st') \<and>
      page_inv S st' fl' (A - {(p, k)}) \<and> counted st' (A - {(p, k)}) \<and> span (frees fl') = span (frees fl) \<union> rng (p, k)
    else \<exists>st'. rt_pages_free mapped (page_to_addr p st) (of_nat k) st = Some (0, st') \<and>
      page_inv S st' fl A \<and> counted st' A \<and> ref_cnt (pages st' p) = ref_cnt (pages st p) - 1) \<and>
    (\<forall>x :: 64 word. unat x \<in> rng (p, k) \<longrightarrow> (let st' = rt_page_ref_inc (page_to_addr x st) (of_nat k) st in
      page_inv S st' fl A \<and> (\<forall>y. ref_cnt (pages st' y) = ref_cnt (pages st y) + (if y = p then 1 else 0)) \<and>
      rt_page_ref_get (page_to_addr x st) (of_nat k) st' = ref_cnt (pages st p) + 1))"
proof (intro conjI allI impI)
  have ok: "block_ok (p, k)" using blocks_okD(1) [OF page_invD(4) [OF inv]] p(1) by simp
  note b = block_okD [OF ok]
  note m = mapped_page [OF b(4), of st]
  show "if ref_cnt (pages st p) = 1
    then \<exists>st' fl'. rt_pages_free mapped (page_to_addr p st) (of_nat k) st = Some (1, st') \<and>
      page_inv S st' fl' (A - {(p, k)}) \<and> counted st' (A - {(p, k)}) \<and> span (frees fl') = span (frees fl) \<union> rng (p, k)
    else \<exists>st'. rt_pages_free mapped (page_to_addr p st) (of_nat k) st = Some (0, st') \<and>
      page_inv S st' fl A \<and> counted st' A \<and> ref_cnt (pages st' p) = ref_cnt (pages st p) - 1"
    using pages_free_ok [where mapped = mapped, OF inv cnt p(1) p(2) m(2)] unfolding rt_pages_free_def m(1) .
  fix x :: "64 word" assume x: "unat x \<in> rng (p, k)"
  have h: "addr_to_page (page_to_addr x st') st' = x" "group_head x k = p" for st'
    using group_head_block [OF ok x] mapped_page(1) [of x st'] by auto
  have inc: "rt_page_ref_inc (page_to_addr x st) (of_nat k) st = upd_page p (\<lambda>r. r\<lparr>ref_cnt := ref_cnt r + 1\<rparr>) st" (is "_ = ?st")
    using h of_nat_order [OF b(1)] by (simp add: rt_page_ref_inc_def pages_ref_inc_def)
  moreover have "page_inv S ?st fl A" by (rule page_inv_ref [OF inv]) auto
  moreover have "page_to_addr x st = page_to_addr x ?st" by (simp add: page_to_addr_def)
  then have "rt_page_ref_get (page_to_addr x st) (of_nat k) ?st = ref_cnt (pages st p) + 1"
    using h of_nat_order [OF b(1)] by (simp add: rt_page_ref_get_def pages_ref_get_def)
  ultimately show "let st' = rt_page_ref_inc (page_to_addr x st) (of_nat k) st in
      page_inv S st' fl A \<and> (\<forall>y. ref_cnt (pages st' y) = ref_cnt (pages st y) + (if y = p then 1 else 0)) \<and>
      rt_page_ref_get (page_to_addr x st) (of_nat k) st' = ref_cnt (pages st p) + 1"
    by (simp add: Let_def)
qed

theorem pages_free_merges_witness:
  "\<exists>p st st' fl'. rt_pages_alloc_ext 1 0 sample_pages = Some (Some (page_to_addr p st), st) \<and>
    rt_pages_free (\<lambda>_. True) (page_to_addr p st) 1 st = Some (1, st') \<and> page_inv UNIV st' fl' {} \<and> span (frees fl') = {0x40200..<0x40210}"
proof -
  have c: "counted sample_pages {}" by (simp add: counted_def)
  have "any_free sample_free 1 False" by (auto simp: any_free_def sample_free_def)
  then obtain p st where r: "do_pages_alloc 1 0 sample_pages = Some (Some (page_to_addr p sample_pages), st)" "lends UNIV sample_pages sample_free {} p 1 st"
    using do_pages_alloc_ok [OF sample_pages_inv c, of 1 0] by auto
  then obtain fl where l: "page_inv UNIV st fl {(p, 1)}" "span (frees fl) \<union> rng (p, 1) = span (frees sample_free)" "ref_cnt (pages st p) = 1"
    "page_to_addr p st = page_to_addr p sample_pages" by (auto simp: lends_def page_to_addr_def)
  have "counted st {(p, 1)}" using l(3) by (simp add: counted_def)
  from pages_free_merges [OF l(1) this, of p 1 "\<lambda>_. True"] l(3) obtain st' fl' where
    f: "rt_pages_free (\<lambda>_. True) (page_to_addr p st) 1 st = Some (1, st')" "page_inv UNIV st' fl' {}" "span (frees fl') = span (frees fl) \<union> rng (p, 1)"
    by auto
  have "span (frees fl') = {0x40200..<0x40210}" using f(3) l(2) by (simp add: sample_frees rng_def)
  then show ?thesis using f(1,2) r(1) l(4) unfolding rt_pages_alloc_ext_def by metis
qed

text \<open>
  C32: the owners of pages.  The region given to \<^verbatim>\<open>rt_page_init\<close> is cut to whole pages; let it end below \<^verbatim>\<open>2^27\<close> pages, not
  contain the page with virtual address 0, and have room for the master page record; let the record begin at a page and the offset between virtual
  and physical addresses be a multiple of 8 MB.  Then the part of \<^verbatim>\<open>rt_page_init\<close> before \<^verbatim>\<open>rt_aspace_load_page\<close> returns and makes all pages
  behind the record free.  After it, let the owners of pages make any sequence of early calls, as \<^verbatim>\<open>rt_aspace_load_page\<close> does for
  the kernel page table (taking pages, adding references to held ones), and once the records of the free pages are mapped, any sequence of
  calls that take blocks of orders up to 10, add references and drop references, all together at most \<^verbatim>\<open>2^32 - 2\<close> calls.  No assertion fails.
  At the end each held block is aligned, lies in the region, and has the number of references that its holders count;
  blocks do not overlap; \<^verbatim>\<open>rt_page_get_info\<close> shows as free all pages that are not held; and if such a page is left
  below 4 GB, \<^verbatim>\<open>rt_pages_alloc\<close> of one page succeeds.
\<close>

theorem page_client_safe:
  assumes "take_bit 23 (pv_offset st) = 0" "take_bit 12 mpr = 0"
    "(a + 0xfff) AND NOT 0xfff = page_to_addr p st" "b AND NOT 0xfff = page_to_addr q st" "page_to_addr p st < page_to_addr q st"
    "unat q \<le> 2 ^ 27" "unat p + record_pages p q \<le> unat q"
    "\<And>x. unat p \<le> unat x \<Longrightarrow> unat x < unat q \<Longrightarrow> push_bit 12 x \<noteq> pv_offset st"
    and boot: "\<forall>c \<in> set boot. page_call_ok True c" and later: "\<forall>c \<in> set later. page_call_ok False c" "length boot + length later < 2 ^ 32 - 1"
    and mapped: "\<And>x. unat p + record_pages p q \<le> unat x \<Longrightarrow> unat x < unat q \<Longrightarrow> mapped x"
  defines "R \<equiv> {unat p + record_pages p q..<unat q}"
  shows "\<exists>st0 H1 st1 H st'. page_init_lists mpr a b st = Some st0 \<and> page_calls True unmapped boot ([], st0) = Some (H1, st1) \<and>
    page_calls False mapped later (H1, st1) = Some (H, st') \<and>
    (\<forall>i < length H. case H ! i of ((x, k), n) \<Rightarrow> 1 \<le> n \<and> k \<le> 10 \<and> 2 ^ k dvd unat x \<and> rng (x, k) \<subseteq> R \<and>
      rt_page_ref_get (page_to_addr x st') (of_nat k) st' = of_nat n) \<and>
    (\<forall>i j. i < j \<and> j < length H \<longrightarrow> rng (fst (H ! i)) \<inter> rng (fst (H ! j)) = {}) \<and>
    rt_page_get_info st' = Some (page_nr st', of_nat (card R - (\<Sum>h \<leftarrow> H. 2 ^ snd (fst h)))) \<and>
    ((\<exists>y \<in> R. y < 2 ^ 20 \<and> y \<notin> span (fst ` set H)) \<longrightarrow> (\<exists>x st''. rt_pages_alloc 0 st' = Some (Some x, st'')))"
proof -
  obtain S st0 fl where i: "page_init_lists mpr a b st = Some st0" "page_inv S st0 fl {}" "span (frees fl) = R" "pv_offset st0 = pv_offset st"
    using page_init_lists_ok [OF assms(1-8)] unfolding R_def by blast
  have "holdings R 1 [] st0" by (rule holdingsI) (use i(2,3) in simp_all)
  from page_calls_ok [OF this _ boot, of unmapped] later(2) obtain H1 st1 where
    s1: "page_calls True unmapped boot ([], st0) = Some (H1, st1)" "holdings R (1 + length boot) H1 st1" by auto
  have "\<forall>x. unat x \<in> R \<longrightarrow> mapped x" using mapped by (simp add: R_def)
  with page_calls_ok [OF s1(2) _ later(1), of mapped] later(2) obtain H st' where
    s2: "page_calls False mapped later (H1, st1) = Some (H, st')" "holdings R (1 + length boot + length later) H st'" by auto
  have "1 + length boot + length later < 2 ^ 32" using later(2) by simp
  note f = holdings_facts [OF s2(2) this]
  have "case H ! i of ((x, k), n) \<Rightarrow> 1 \<le> n \<and> k \<le> 10 \<and> 2 ^ k dvd unat x \<and> rng (x, k) \<subseteq> R \<and>
      rt_page_ref_get (page_to_addr x st') (of_nat k) st' = of_nat n" if "i < length H" for i
  proof -
    obtain x k n where e: "H ! i = ((x, k), n)" by (metis prod.collapse)
    then have "((x, k), n) \<in> set H" using nth_mem [OF that] by simp
    from f(1) [OF this] e show ?thesis by simp
  qed
  then show ?thesis using i(1) s1(1) s2(1) f(2-4) by blast
qed

text \<open>
  The witness: 2 MB from physical address 0x40200000 on, the page table takes two pages and adds a reference to the first; then a
  block of 8 pages is taken and shared, one reference is dropped, and the two pages of the page table stay.
\<close>

theorem page_client_safe_witness:
  "\<exists>st0 H1 st1 H st'. page_init_lists 0xffffffff70000000 0x40200000 0x40400000 sample_pages = Some st0 \<and>
    page_calls True (\<lambda>_. False) [Take 0 0, Take 0 0, Share 1 0] ([], st0) = Some (H1, st1) \<and>
    page_calls False (\<lambda>_. True) [Take 3 1, Share 0 5, Drop 0] (H1, st1) = Some (H, st') \<and>
    (\<forall>i j. i < j \<and> j < length H \<longrightarrow> rng (fst (H ! i)) \<inter> rng (fst (H ! j)) = {}) \<and>
    rt_page_get_info st' = Some (page_nr st', of_nat (504 - (\<Sum>h \<leftarrow> H. 2 ^ snd (fst h)))) \<and>
    rt_page_get_info st0 = Some (page_nr st0, 504) \<and> (\<exists>x st''. rt_pages_alloc 0 st0 = Some (Some x, st''))"
proof -
  have "push_bit 12 x \<noteq> pv_offset sample_pages" if "unat (0x40200 :: 64 word) \<le> unat x" "unat x < unat (0x40400 :: 64 word)" for x :: "64 word"
  proof
    assume "push_bit 12 x = pv_offset sample_pages"
    then have "unat (push_bit 12 x) = 0" by (simp add: sample_pages_def)
    then show False using that unat_page [of x] by simp
  qed
  moreover have "record_pages 0x40200 0x40400 = 8" by (simp add: record_pages_def shadow_lo_def shadow_hi_def)
  moreover have "0x40208 \<in> {0x40208..<0x40400 :: nat}" by simp
  ultimately show ?thesis
    using page_client_safe [where st = sample_pages and mpr = "0xffffffff70000000" and a = "0x40200000" and p = "0x40200" and b = "0x40400000" and q = "0x40400"
      and boot = "[Take 0 0, Take 0 0, Share 1 0]" and later = "[Take 3 1, Share 0 5, Drop 0]" and mapped = "\<lambda>_. True" and unmapped = "\<lambda>_. False"]
      page_client_safe [where st = sample_pages and mpr = "0xffffffff70000000" and a = "0x40200000" and p = "0x40200" and b = "0x40400000" and q = "0x40400"
      and boot = "[]" and later = "[]" and mapped = "\<lambda>_. True" and unmapped = "\<lambda>_. False"]
    by (simp add: sample_pages_def page_to_addr_def del: page_calls.simps(2)) fastforce
qed

end
