(* ===== verification/Avl.thy ===== *)
theory Avl
  imports Prelude "HOL-Library.Tree"
begin

text \<open>
  The balanced search trees of RT-Smart, \<^verbatim>\<open>components/lwp/lwp_avl.c\<close>, which index processes, threads and
  futexes by number or address.  The source works on a heap of nodes with an explicit stack of the
  pointers it went through; the model keeps this: a place is the root pointer or one of the two pointers
  in a node, and the stack is a list of places.  The proofs relate the heap to a tree with a hole in it,
  whose path to the root is the stack.
\<close>

section \<open>State\<close>

record lwp_avl_struct =
  avl_left :: "nat option"
  avl_right :: "nat option"
  avl_height :: int
  avl_key :: "64 word"
  avl_data :: "nat option"

record avl_state =
  avl_nodes :: "nat \<Rightarrow> lwp_avl_struct"
  avl_root :: "nat option"

datatype nodeplace = Tree_root | Left_of nat | Right_of nat

abbreviation (input) avl_maxheight :: nat where "avl_maxheight \<equiv> 32"

definition upd_node :: "nat \<Rightarrow> (lwp_avl_struct \<Rightarrow> lwp_avl_struct) \<Rightarrow> avl_state \<Rightarrow> avl_state" where
  "upd_node n f st = st\<lparr>avl_nodes := (avl_nodes st)(n := f (avl_nodes st n))\<rparr>"

fun read_place :: "nodeplace \<Rightarrow> avl_state \<Rightarrow> nat option" where
  "read_place Tree_root st = avl_root st"
| "read_place (Left_of n) st = avl_left (avl_nodes st n)"
| "read_place (Right_of n) st = avl_right (avl_nodes st n)"

fun write_place :: "nodeplace \<Rightarrow> nat option \<Rightarrow> avl_state \<Rightarrow> avl_state" where
  "write_place Tree_root v st = st\<lparr>avl_root := v\<rparr>"
| "write_place (Left_of n) v st = upd_node n (\<lambda>r. r\<lparr>avl_left := v\<rparr>) st"
| "write_place (Right_of n) v st = upd_node n (\<lambda>r. r\<lparr>avl_right := v\<rparr>) st"

definition heightof :: "avl_state \<Rightarrow> nat option \<Rightarrow> int" where
  "heightof st p = (case p of None \<Rightarrow> 0 | Some n \<Rightarrow> avl_height (avl_nodes st n))"

section \<open>Operations\<close>

text \<open>One round of the loop of \<^verbatim>\<open>lwp_avl_rebalance\<close>; the first component is false for \<^verbatim>\<open>break\<close>.\<close>

definition rotate_left_heavy :: "nodeplace \<Rightarrow> nat \<Rightarrow> nat \<Rightarrow> int \<Rightarrow> avl_state \<Rightarrow> avl_state option" where
  "rotate_left_heavy nodeplace node nodeleft heightleft st = do {
     let nodeleftleft = avl_left (avl_nodes st nodeleft);
     let nodeleftright = avl_right (avl_nodes st nodeleft);
     let heightleftright = heightof st nodeleftright;
     if heightof st nodeleftleft \<ge> heightleftright
     then let st1 = upd_node node (\<lambda>r. r\<lparr>avl_left := nodeleftright\<rparr>) st;
              st2 = upd_node nodeleft (\<lambda>r. r\<lparr>avl_right := Some node\<rparr>) st1;
              st3 = upd_node node (\<lambda>r. r\<lparr>avl_height := 1 + heightleftright\<rparr>) st2;
              st4 = upd_node nodeleft (\<lambda>r. r\<lparr>avl_height := 1 + (1 + heightleftright)\<rparr>) st3
          in Some (write_place nodeplace (Some nodeleft) st4)
     else do {
       n \<leftarrow> nodeleftright;
       let st1 = upd_node nodeleft (\<lambda>r. r\<lparr>avl_right := avl_left (avl_nodes st n)\<rparr>) st;
       let st2 = upd_node node (\<lambda>r. r\<lparr>avl_left := avl_right (avl_nodes st1 n)\<rparr>) st1;
       let st3 = upd_node n (\<lambda>r. r\<lparr>avl_left := Some nodeleft\<rparr>) st2;
       let st4 = upd_node n (\<lambda>r. r\<lparr>avl_right := Some node\<rparr>) st3;
       let st5 = upd_node node (\<lambda>r. r\<lparr>avl_height := heightleftright\<rparr>) st4;
       let st6 = upd_node nodeleft (\<lambda>r. r\<lparr>avl_height := heightleftright\<rparr>) st5;
       let st7 = upd_node n (\<lambda>r. r\<lparr>avl_height := heightleft\<rparr>) st6;
       Some (write_place nodeplace (Some n) st7)
     }
   }"

definition rotate_right_heavy :: "nodeplace \<Rightarrow> nat \<Rightarrow> nat \<Rightarrow> int \<Rightarrow> avl_state \<Rightarrow> avl_state option" where
  "rotate_right_heavy nodeplace node noderight heightright st = do {
     let noderightright = avl_right (avl_nodes st noderight);
     let noderightleft = avl_left (avl_nodes st noderight);
     let heightrightleft = heightof st noderightleft;
     if heightof st noderightright \<ge> heightrightleft
     then let st1 = upd_node node (\<lambda>r. r\<lparr>avl_right := noderightleft\<rparr>) st;
              st2 = upd_node noderight (\<lambda>r. r\<lparr>avl_left := Some node\<rparr>) st1;
              st3 = upd_node node (\<lambda>r. r\<lparr>avl_height := 1 + heightrightleft\<rparr>) st2;
              st4 = upd_node noderight (\<lambda>r. r\<lparr>avl_height := 1 + (1 + heightrightleft)\<rparr>) st3
          in Some (write_place nodeplace (Some noderight) st4)
     else do {
       n \<leftarrow> noderightleft;
       let st1 = upd_node noderight (\<lambda>r. r\<lparr>avl_left := avl_right (avl_nodes st n)\<rparr>) st;
       let st2 = upd_node node (\<lambda>r. r\<lparr>avl_right := avl_left (avl_nodes st1 n)\<rparr>) st1;
       let st3 = upd_node n (\<lambda>r. r\<lparr>avl_right := Some noderight\<rparr>) st2;
       let st4 = upd_node n (\<lambda>r. r\<lparr>avl_left := Some node\<rparr>) st3;
       let st5 = upd_node node (\<lambda>r. r\<lparr>avl_height := heightrightleft\<rparr>) st4;
       let st6 = upd_node noderight (\<lambda>r. r\<lparr>avl_height := heightrightleft\<rparr>) st5;
       let st7 = upd_node n (\<lambda>r. r\<lparr>avl_height := heightright\<rparr>) st6;
       Some (write_place nodeplace (Some n) st7)
     }
   }"

definition rebalance_node :: "nodeplace \<Rightarrow> avl_state \<Rightarrow> (bool \<times> avl_state) option" where
  "rebalance_node nodeplace st = do {
     node \<leftarrow> read_place nodeplace st;
     let nodeleft = avl_left (avl_nodes st node);
     let noderight = avl_right (avl_nodes st node);
     let heightleft = heightof st nodeleft;
     let heightright = heightof st noderight;
     if heightright + 1 < heightleft
     then do {
       nl \<leftarrow> nodeleft;
       st' \<leftarrow> rotate_left_heavy nodeplace node nl heightleft st;
       Some (True, st')
     }
     else if heightleft + 1 < heightright
     then do {
       nr \<leftarrow> noderight;
       st' \<leftarrow> rotate_right_heavy nodeplace node nr heightright st;
       Some (True, st')
     }
     else let height = (if heightleft < heightright then heightright else heightleft) + 1
       in if height = avl_height (avl_nodes st node) then Some (False, st)
          else Some (True, upd_node node (\<lambda>r. r\<lparr>avl_height := height\<rparr>) st)
   }"

fun lwp_avl_rebalance :: "nodeplace list \<Rightarrow> avl_state \<Rightarrow> avl_state option" where
  "lwp_avl_rebalance [] st = Some st"
| "lwp_avl_rebalance (nodeplace # stack) st = do {
     (more, st') \<leftarrow> rebalance_node nodeplace st;
     if more then lwp_avl_rebalance stack st' else Some st'
   }"

text \<open>
  The descents; a push beyond the \<^verbatim>\<open>avl_maxheight\<close> entries of the stack is outside of the model.  The top of
  the stack comes first in the list.
\<close>

function insert_descend :: "64 word \<Rightarrow> nodeplace \<Rightarrow> nodeplace list \<Rightarrow> avl_state \<Rightarrow> (nodeplace \<times> nodeplace list) option" where
  "insert_descend key nodeplace stack st =
    (case read_place nodeplace st of
       None \<Rightarrow> Some (nodeplace, stack)
     | Some node \<Rightarrow>
         if length stack < avl_maxheight
         then insert_descend key (if key < avl_key (avl_nodes st node) then Left_of node else Right_of node) (nodeplace # stack) st
         else None)"
  by pat_completeness auto
termination by (relation "measure (\<lambda>(_, _, stack, _). avl_maxheight - length stack)") auto

declare insert_descend.simps [simp del]

definition lwp_avl_insert :: "nat \<Rightarrow> avl_state \<Rightarrow> avl_state option" where
  "lwp_avl_insert new_node st = do {
     (nodeplace, stack) \<leftarrow> insert_descend (avl_key (avl_nodes st new_node)) Tree_root [] st;
     let st1 = upd_node new_node (\<lambda>r. r\<lparr>avl_left := None, avl_right := None, avl_height := 1\<rparr>) st;
     lwp_avl_rebalance stack (write_place nodeplace (Some new_node) st1)
   }"

text \<open>The result \<open>None\<close> inside of the option is the early return of \<^verbatim>\<open>lwp_avl_remove\<close>.\<close>

function remove_descend :: "64 word \<Rightarrow> nodeplace \<Rightarrow> nodeplace list \<Rightarrow> avl_state \<Rightarrow> (nodeplace \<times> nodeplace list) option option" where
  "remove_descend key nodeplace stack st =
    (case read_place nodeplace st of
       None \<Rightarrow> Some None
     | Some node \<Rightarrow>
         if length stack < avl_maxheight
         then (if key = avl_key (avl_nodes st node) then Some (Some (nodeplace, nodeplace # stack))
               else remove_descend key (if key < avl_key (avl_nodes st node) then Left_of node else Right_of node) (nodeplace # stack) st)
         else None)"
  by pat_completeness auto
termination by (relation "measure (\<lambda>(_, _, stack, _). avl_maxheight - length stack)") auto

declare remove_descend.simps [simp del]

function max_descend :: "nodeplace \<Rightarrow> nodeplace list \<Rightarrow> avl_state \<Rightarrow> (nodeplace \<times> nat \<times> nodeplace list) option" where
  "max_descend nodeplace stack st =
    (case read_place nodeplace st of
       None \<Rightarrow> None
     | Some node \<Rightarrow>
         if avl_right (avl_nodes st node) = None then Some (nodeplace, node, stack)
         else if length stack < avl_maxheight then max_descend (Right_of node) (nodeplace # stack) st
         else None)"
  by pat_completeness auto
termination by (relation "measure (\<lambda>(_, stack, _). avl_maxheight - length stack)") auto

declare max_descend.simps [simp del]

text \<open>The write through \<^verbatim>\<open>stack_ptr_to_delete\<close>: to the entry with number \<open>i\<close> from the bottom, or just above the top.\<close>

definition patch_stack :: "nat \<Rightarrow> nodeplace \<Rightarrow> nodeplace list \<Rightarrow> nodeplace list" where
  "patch_stack i pl stack = (if i < length stack then stack[length stack - 1 - i := pl] else stack)"

definition lwp_avl_remove :: "nat \<Rightarrow> avl_state \<Rightarrow> avl_state option" where
  "lwp_avl_remove node_to_delete st = do {
     found \<leftarrow> remove_descend (avl_key (avl_nodes st node_to_delete)) Tree_root [] st;
     case found of
       None \<Rightarrow> Some st
     | Some (nodeplace_to_delete, stack) \<Rightarrow>
         if avl_left (avl_nodes st node_to_delete) = None
         then lwp_avl_rebalance (tl stack) (write_place nodeplace_to_delete (avl_right (avl_nodes st node_to_delete)) st)
         else do {
           (nodeplace, node, stack2) \<leftarrow> max_descend (Left_of node_to_delete) stack st;
           rt_assert (length stack < avl_maxheight);
           let st1 = write_place nodeplace (avl_left (avl_nodes st node)) st;
           let st2 = upd_node node (\<lambda>r. r\<lparr>avl_left := avl_left (avl_nodes st1 node_to_delete)\<rparr>) st1;
           let st3 = upd_node node (\<lambda>r. r\<lparr>avl_right := avl_right (avl_nodes st2 node_to_delete)\<rparr>) st2;
           let st4 = upd_node node (\<lambda>r. r\<lparr>avl_height := avl_height (avl_nodes st3 node_to_delete)\<rparr>) st3;
           let st5 = write_place nodeplace_to_delete (Some node) st4;
           lwp_avl_rebalance (patch_stack (length stack) (Left_of node) stack2) st5
         }
   }"

text \<open>The loops below have no bound of their own: on a heap with a cycle their value is \<open>None\<close>.\<close>

partial_function (option) lwp_avl_find :: "64 word \<Rightarrow> nat option \<Rightarrow> avl_state \<Rightarrow> nat option option" where
  "lwp_avl_find key ptree st = (case ptree of
      None \<Rightarrow> Some None
    | Some n \<Rightarrow>
        if key = avl_key (avl_nodes st n) then Some (Some n)
        else lwp_avl_find key (if key < avl_key (avl_nodes st n) then avl_left (avl_nodes st n) else avl_right (avl_nodes st n)) st)"

text \<open>The function that is called on each node is an argument; it may change what \<^verbatim>\<open>arg\<close> points to.\<close>

partial_function (option) lwp_avl_traversal :: "nat option \<Rightarrow> (nat \<Rightarrow> 'a \<Rightarrow> int \<times> 'a) \<Rightarrow> 'a \<Rightarrow> avl_state \<Rightarrow> (int \<times> 'a) option" where
  "lwp_avl_traversal ptree f arg st = (case ptree of
      None \<Rightarrow> Some (0, arg)
    | Some n \<Rightarrow> do {
        (ret1, arg1) \<leftarrow> (if avl_left (avl_nodes st n) \<noteq> None then lwp_avl_traversal (avl_left (avl_nodes st n)) f arg st else Some (0, arg));
        if ret1 \<noteq> 0 then Some (ret1, arg1)
        else let (ret2, arg2) = f n arg1
          in if ret2 \<noteq> 0 then Some (ret2, arg2)
             else if avl_right (avl_nodes st n) \<noteq> None then lwp_avl_traversal (avl_right (avl_nodes st n)) f arg2 st
             else Some (ret2, arg2)
      })"

partial_function (option) find_first_loop :: "nat \<Rightarrow> avl_state \<Rightarrow> nat option" where
  "find_first_loop ptree st = (case avl_left (avl_nodes st ptree) of
      None \<Rightarrow> Some ptree
    | Some n \<Rightarrow> find_first_loop n st)"

definition lwp_map_find_first :: "nat option \<Rightarrow> avl_state \<Rightarrow> nat option option" where
  "lwp_map_find_first ptree st = (case ptree of None \<Rightarrow> Some None | Some n \<Rightarrow> map_option Some (find_first_loop n st))"

section \<open>Trees in the heap\<close>

lemma upd_node_fields [simp]:
  "avl_nodes (upd_node n f st) x = (if x = n then f (avl_nodes st n) else avl_nodes st x)" "avl_root (upd_node n f st) = avl_root st"
  by (simp_all add: upd_node_def)

text \<open>\<open>rep f p t\<close>: below the pointer \<open>p\<close> the heap \<open>f\<close> holds the tree \<open>t\<close> of node names, with its heights stored.\<close>

fun rep :: "(nat \<Rightarrow> lwp_avl_struct) \<Rightarrow> nat option \<Rightarrow> nat tree \<Rightarrow> bool" where
  "rep f p Leaf \<longleftrightarrow> p = None"
| "rep f p (Node l n r) \<longleftrightarrow> p = Some n \<and> rep f (avl_left (f n)) l \<and> rep f (avl_right (f n)) r \<and>
     avl_height (f n) = 1 + int (max (height l) (height r))"

fun avl_ok :: "nat tree \<Rightarrow> bool" where
  "avl_ok Leaf \<longleftrightarrow> True"
| "avl_ok (Node l n r) \<longleftrightarrow> height l \<le> height r + 1 \<and> height r \<le> height l + 1 \<and> avl_ok l \<and> avl_ok r"

lemma rep_cong: "(\<And>x. x \<in> set_tree t \<Longrightarrow> f' x = f x) \<Longrightarrow> rep f' p t = rep f p t"
  by (induction t arbitrary: p) auto

lemma rep_height: "rep (avl_nodes st) p t \<Longrightarrow> heightof st p = int (height t)"
  by (cases t) (auto simp: heightof_def)

lemma rep_Some: "rep f p t \<Longrightarrow> p = (case t of Leaf \<Rightarrow> None | Node l n r \<Rightarrow> Some n)"
  by (cases t) auto

lemma rep_unique: "rep f p t \<Longrightarrow> rep f p u \<Longrightarrow> t = u"
proof (induction t arbitrary: p u)
  case Leaf
  then show ?case by (cases u) auto
next
  case (Node l n r)
  then show ?case by (cases u) auto
qed

text \<open>A path to a hole: for each node above the hole the side, the name and the other subtree, innermost first.\<close>

datatype frame = In_left nat "nat tree" | In_right "nat tree" nat

fun place :: "nodeplace \<Rightarrow> frame list \<Rightarrow> nodeplace" where
  "place b [] = b"
| "place b (In_left n r # c) = Left_of n"
| "place b (In_right l n # c) = Right_of n"

fun stack_of :: "nodeplace \<Rightarrow> frame list \<Rightarrow> nodeplace list" where
  "stack_of b [] = []"
| "stack_of b (fr # c) = place b c # stack_of b c"

fun plug :: "nat tree \<Rightarrow> frame list \<Rightarrow> nat tree" where
  "plug t [] = t"
| "plug t (In_left n r # c) = plug (Node t n r) c"
| "plug t (In_right l n # c) = plug (Node l n t) c"

fun lefts :: "frame list \<Rightarrow> nat list" where
  "lefts [] = []"
| "lefts (In_left n r # c) = lefts c"
| "lefts (In_right l n # c) = lefts c @ inorder l @ [n]"

fun rights :: "frame list \<Rightarrow> nat list" where
  "rights [] = []"
| "rights (In_left n r # c) = n # inorder r @ rights c"
| "rights (In_right l n # c) = rights c"

lemma inorder_plug: "inorder (plug t c) = lefts c @ inorder t @ rights c"
  by (induction t c rule: plug.induct) auto

text \<open>
  \<open>cok st b h c\<close>: the heap holds the path \<open>c\<close> below the place \<open>b\<close>, balanced and with the heights stored that
  belong to a subtree of height \<open>h\<close> in the hole.
\<close>

fun cok :: "avl_state \<Rightarrow> nodeplace \<Rightarrow> nat \<Rightarrow> frame list \<Rightarrow> bool" where
  "cok st b h [] \<longleftrightarrow> True"
| "cok st b h (In_left n r # c) \<longleftrightarrow> read_place (place b c) st = Some n \<and> rep (avl_nodes st) (avl_right (avl_nodes st n)) r \<and> avl_ok r \<and>
     h \<le> height r + 1 \<and> height r \<le> h + 1 \<and> avl_height (avl_nodes st n) = 1 + int (max h (height r)) \<and> cok st b (Suc (max h (height r))) c"
| "cok st b h (In_right l n # c) \<longleftrightarrow> read_place (place b c) st = Some n \<and> rep (avl_nodes st) (avl_left (avl_nodes st n)) l \<and> avl_ok l \<and>
     h \<le> height l + 1 \<and> height l \<le> h + 1 \<and> avl_height (avl_nodes st n) = 1 + int (max (height l) h) \<and> cok st b (Suc (max (height l) h)) c"

lemma cok_plug:
  "cok st b (height t) c \<and> rep (avl_nodes st) (read_place (place b c) st) t \<and> avl_ok t \<longleftrightarrow>
    rep (avl_nodes st) (read_place b st) (plug t c) \<and> avl_ok (plug t c)"
  by (induction t c rule: plug.induct) (auto simp: max_def)

fun hole_height :: "nat \<Rightarrow> frame list \<Rightarrow> nat" where
  "hole_height h [] = h"
| "hole_height h (In_left n r # c) = hole_height (Suc (max h (height r))) c"
| "hole_height h (In_right l n # c) = hole_height (Suc (max (height l) h)) c"

lemma place_append: "place b (d @ c) = place (place b c) d"
  by (cases "(b, d)" rule: place.cases) auto

lemma stack_of_append: "stack_of b (d @ c) = stack_of (place b c) d @ stack_of b c"
  by (induction d) (auto simp: place_append)

lemma length_stack_of [simp]: "length (stack_of b c) = length c"
  by (induction c) auto

lemma plug_append: "plug t (d @ c) = plug (plug t d) c"
  by (induction t d rule: plug.induct) auto

lemma cok_append: "cok st b h (d @ c) \<longleftrightarrow> cok st (place b c) h d \<and> cok st b (hole_height h d) c"
  by (induction st "place b c" h d rule: cok.induct) (auto simp: place_append)

fun cnodes :: "frame list \<Rightarrow> nat list" where
  "cnodes [] = []"
| "cnodes (In_left n r # c) = n # inorder r @ cnodes c"
| "cnodes (In_right l n # c) = n # inorder l @ cnodes c"

lemma cnodes_set: "set (cnodes c) = set (lefts c) \<union> set (rights c)"
  by (induction c rule: cnodes.induct) auto

lemma cnodes_distinct: "distinct (lefts c @ xs @ rights c) \<Longrightarrow> distinct (cnodes c)"
proof (induction c arbitrary: xs rule: cnodes.induct)
  case (2 n r c)
  then show ?case using "2.IH" [of "xs @ n # inorder r"] by (auto simp: cnodes_set)
next
  case (3 l n c)
  then show ?case using "3.IH" [of "inorder l @ n # xs"] by (auto simp: cnodes_set)
qed simp

text \<open>A path is not affected by what happens elsewhere, nor by a write to its hole.\<close>

lemma cok_same:
  assumes "\<And>x. x \<in> set (cnodes c) \<Longrightarrow> avl_nodes st' x = avl_nodes st x" "read_place b' st' = read_place b st"
  shows "cok st' b' h c = cok st b h c" "read_place (place b' c) st' = read_place (place b c) st"
proof -
  have r: "read_place (place b' c) st' = read_place (place b c) st"
    if "\<And>x. x \<in> set (cnodes c) \<Longrightarrow> avl_nodes st' x = avl_nodes st x" for c
    using that assms(2) by (cases "(b, c)" rule: place.cases) auto
  show "cok st' b' h c = cok st b h c"
    using assms(1)
  proof (induction c arbitrary: h)
    case (Cons fr c)
    show ?case
    proof (cases fr)
      case (In_left n t)
      then show ?thesis
        using Cons.IH Cons.prems r [of c] rep_cong [of t "avl_nodes st'" "avl_nodes st"] by (simp add: set_inorder [symmetric] del: set_inorder)
    next
      case (In_right t n)
      then show ?thesis
        using Cons.IH Cons.prems r [of c] rep_cong [of t "avl_nodes st'" "avl_nodes st"] by (simp add: set_inorder [symmetric] del: set_inorder)
    qed
  qed simp
  show "read_place (place b' c) st' = read_place (place b c) st" using r assms(1) by simp
qed

lemma write_place_other:
  "avl_key (avl_nodes (write_place pl v st) x) = avl_key (avl_nodes st x)" "avl_data (avl_nodes (write_place pl v st) x) = avl_data (avl_nodes st x)"
  "avl_height (avl_nodes (write_place pl v st) x) = avl_height (avl_nodes st x)" "read_place pl (write_place pl v st) = v"
  by (cases pl; simp)+

lemma cok_hole:
  assumes "\<And>x. x \<in> set (cnodes c) \<Longrightarrow> avl_nodes st' x = avl_nodes (write_place (place b c) v st) x"
    "c \<noteq> [] \<Longrightarrow> read_place b' st' = read_place b st" "distinct (cnodes c)"
  shows "cok st' b' h c = cok st b h c"
proof (cases c)
  case (Cons fr d)
  show ?thesis
  proof (cases fr)
    case (In_left n t)
    have o: "avl_nodes st' x = avl_nodes st x" if "x \<in> set (cnodes d) \<union> set_tree t" for x
      using assms(1) [of x] assms(3) that Cons In_left by auto
    have "avl_nodes st' n = (avl_nodes st n)\<lparr>avl_left := v\<rparr>" using assms(1) [of n] Cons In_left by simp
    then show ?thesis
      using cok_same [of d st' st b' b] rep_cong [of t "avl_nodes st'" "avl_nodes st"] o assms(2) Cons In_left by simp
  next
    case (In_right t n)
    have o: "avl_nodes st' x = avl_nodes st x" if "x \<in> set (cnodes d) \<union> set_tree t" for x
      using assms(1) [of x] assms(3) that Cons In_right by auto
    have "avl_nodes st' n = (avl_nodes st n)\<lparr>avl_right := v\<rparr>" using assms(1) [of n] Cons In_right by simp
    then show ?thesis
      using cok_same [of d st' st b' b] rep_cong [of t "avl_nodes st'" "avl_nodes st"] o assms(2) Cons In_right by simp
  qed
qed simp

section \<open>Rebalancing\<close>

definition rot :: "nat tree \<Rightarrow> nat \<Rightarrow> nat tree \<Rightarrow> nat tree" where
  "rot l n r =
    (if height r + 1 < height l
     then (case l of Leaf \<Rightarrow> Leaf | Node ll nl lr \<Rightarrow>
       if height lr \<le> height ll then Node ll nl (Node lr n r)
       else (case lr of Leaf \<Rightarrow> Leaf | Node x m y \<Rightarrow> Node (Node ll nl x) m (Node y n r)))
     else if height l + 1 < height r
     then (case r of Leaf \<Rightarrow> Leaf | Node rl nr rr \<Rightarrow>
       if height rl \<le> height rr then Node (Node l n rl) nr rr
       else (case rl of Leaf \<Rightarrow> Leaf | Node x m y \<Rightarrow> Node (Node l n x) m (Node y nr rr)))
     else Node l n r)"

lemma rot_inorder: "inorder (rot l n r) = inorder l @ n # inorder r"
  by (auto simp: rot_def split: tree.splits)

lemma rot_same: "height l \<le> height r + 1 \<Longrightarrow> height r \<le> height l + 1 \<Longrightarrow> rot l n r = Node l n r"
  by (simp add: rot_def)

lemma rot_avl:
  assumes "avl_ok l" "avl_ok r" "height l \<le> height r + 2" "height r \<le> height l + 2"
  shows "avl_ok (rot l n r)" "height (rot l n r) \<le> Suc (max (height l) (height r))" "max (height l) (height r) \<le> height (rot l n r)"
proof -
  have "avl_ok (rot l n r) \<and> height (rot l n r) \<le> Suc (max (height l) (height r)) \<and> max (height l) (height r) \<le> height (rot l n r)"
  proof (cases "height r + 1 < height l")
    case True
    then obtain ll nl lr where l: "l = Node ll nl lr" by (cases l) auto
    show ?thesis
    proof (cases "height lr \<le> height ll")
      case True
      then show ?thesis using \<open>height r + 1 < height l\<close> assms unfolding l rot_def by simp
    next
      case False
      then obtain x m y where "lr = Node x m y" by (cases lr) auto
      then show ?thesis using \<open>height r + 1 < height l\<close> False assms unfolding l rot_def by simp linarith
    qed
  next
    case nl: False
    show ?thesis
    proof (cases "height l + 1 < height r")
      case True
      then obtain rl nr rr where r: "r = Node rl nr rr" by (cases r) auto
      show ?thesis
      proof (cases "height rl \<le> height rr")
        case True
        then show ?thesis using \<open>height l + 1 < height r\<close> nl assms unfolding r rot_def by simp
      next
        case False
        then obtain x m y where "rl = Node x m y" by (cases rl) auto
        then show ?thesis using \<open>height l + 1 < height r\<close> nl False assms unfolding r rot_def by simp linarith
      qed
    qed (use nl assms in \<open>simp add: rot_def max_def\<close>)
  qed
  then show "avl_ok (rot l n r)" "height (rot l n r) \<le> Suc (max (height l) (height r))" "max (height l) (height r) \<le> height (rot l n r)" by simp_all
qed

text \<open>
  \<open>changed st pl N st'\<close>: nothing but the place \<open>pl\<close> and the nodes \<open>N\<close> is different in \<open>st'\<close>; keys and data are
  never touched.
\<close>

definition changed :: "avl_state \<Rightarrow> nodeplace \<Rightarrow> nat set \<Rightarrow> avl_state \<Rightarrow> bool" where
  "changed st pl N st' \<longleftrightarrow> (\<exists>v. (\<forall>x. x \<notin> N \<longrightarrow> avl_nodes st' x = avl_nodes (write_place pl v st) x) \<and>
     avl_root st' = avl_root (write_place pl v st)) \<and>
     (\<forall>x. avl_key (avl_nodes st' x) = avl_key (avl_nodes st x) \<and> avl_data (avl_nodes st' x) = avl_data (avl_nodes st x))"

fun owner :: "nodeplace \<Rightarrow> nat set" where
  "owner Tree_root = {}"
| "owner (Left_of n) = {n}"
| "owner (Right_of n) = {n}"

lemma write_place_nodes: "x \<notin> owner pl \<Longrightarrow> avl_nodes (write_place pl v st) x = avl_nodes st x"
  by (cases pl) auto

lemma write_place_cong: "avl_nodes s x = avl_nodes s' x \<Longrightarrow> avl_nodes (write_place pl v s) x = avl_nodes (write_place pl v s') x"
  by (cases pl) auto

lemma write_place_root: "avl_root (write_place pl v st) = (if pl = Tree_root then v else avl_root st)"
  by (cases pl) auto

lemma rotate_left_heavy_ok:
  assumes rep: "rep (avl_nodes st) (Some nl) (Node ll nl lr)" "avl_left (avl_nodes st n) = Some nl" "rep (avl_nodes st) (avl_right (avl_nodes st n)) r"
    and ok: "avl_ok (Node ll nl lr)" "height (Node ll nl lr) = height r + 2"
    and dist: "distinct (inorder (Node (Node ll nl lr) n r))" "owner pl \<inter> set (inorder (Node (Node ll nl lr) n r)) = {}"
  shows "\<exists>st'. rotate_left_heavy pl n nl (int (height (Node ll nl lr))) st = Some st' \<and>
    rep (avl_nodes st') (read_place pl st') (rot (Node ll nl lr) n r) \<and> changed st pl (set (inorder (Node (Node ll nl lr) n r))) st'"
proof -
  have h: "heightof st (avl_left (avl_nodes st nl)) = int (height ll)" "heightof st (avl_right (avl_nodes st nl)) = int (height lr)"
    using rep(1) rep_height by auto
  show ?thesis
  proof (cases "height lr \<le> height ll")
    case True
    have hh: "height ll = height r + 1" "height r \<le> height lr" using ok True by auto
    define st' where "st' = write_place pl (Some nl) (upd_node nl (\<lambda>r. r\<lparr>avl_height := 1 + (1 + int (height lr))\<rparr>)
      (upd_node n (\<lambda>r. r\<lparr>avl_height := 1 + int (height lr)\<rparr>) (upd_node nl (\<lambda>r. r\<lparr>avl_right := Some n\<rparr>)
      (upd_node n (\<lambda>r. r\<lparr>avl_left := avl_right (avl_nodes st nl)\<rparr>) st))))"
    have run: "rotate_left_heavy pl n nl (int (height (Node ll nl lr))) st = Some st'"
      using True h by (simp add: rotate_left_heavy_def Let_def st'_def)
    have o: "avl_nodes st' x = avl_nodes st x" if "x \<in> set_tree ll \<union> set_tree lr \<union> set_tree r" for x
      unfolding st'_def using that dist by (subst write_place_nodes) auto
    have nn: "avl_nodes st' n = (avl_nodes st n)\<lparr>avl_left := avl_right (avl_nodes st nl), avl_height := 1 + int (height lr)\<rparr>"
      "avl_nodes st' nl = (avl_nodes st nl)\<lparr>avl_right := Some n, avl_height := 2 + int (height lr)\<rparr>"
      unfolding st'_def using dist by (subst write_place_nodes; auto)+
    have "rep (avl_nodes st') (read_place pl st') (Node ll nl (Node lr n r))"
      using rep nn hh True rep_cong [of ll "avl_nodes st'" "avl_nodes st"] rep_cong [of lr "avl_nodes st'" "avl_nodes st"] rep_cong [of r "avl_nodes st'" "avl_nodes st"] o
      by (auto simp: st'_def write_place_other(4))
    moreover have "rot (Node ll nl lr) n r = Node ll nl (Node lr n r)" using ok True by (auto simp: rot_def)
    moreover have "changed st pl (set (inorder (Node (Node ll nl lr) n r))) st'"
      unfolding changed_def st'_def by (intro conjI exI [of _ "Some nl"]) (cases pl; auto simp: write_place_other write_place_root)+
    ultimately show ?thesis using run by (intro exI [of _ st']) simp
  next
    case False
    then obtain x m y where lr: "lr = Node x m y" by (cases lr) auto
    have hh: "height lr = height r + 1" "height ll = height r" "height x \<le> height r" "height y \<le> height r" using ok False lr by auto
    have m: "avl_right (avl_nodes st nl) = Some m" using rep(1) lr by simp
    define st' where "st' = write_place pl (Some m) (upd_node m (\<lambda>r. r\<lparr>avl_height := int (height (Node ll nl lr))\<rparr>)
      (upd_node nl (\<lambda>r. r\<lparr>avl_height := int (height lr)\<rparr>) (upd_node n (\<lambda>r. r\<lparr>avl_height := int (height lr)\<rparr>)
      (upd_node m (\<lambda>r. r\<lparr>avl_right := Some n\<rparr>) (upd_node m (\<lambda>r. r\<lparr>avl_left := Some nl\<rparr>)
      (upd_node n (\<lambda>r. r\<lparr>avl_left := avl_right (avl_nodes st m)\<rparr>) (upd_node nl (\<lambda>r. r\<lparr>avl_right := avl_left (avl_nodes st m)\<rparr>) st)))))))"
    have ne: "m \<noteq> nl" "m \<noteq> n" "nl \<noteq> n" using dist lr by auto
    have run: "rotate_left_heavy pl n nl (int (height (Node ll nl lr))) st = Some st'"
      using False h m ne by (simp add: rotate_left_heavy_def Let_def st'_def)
    have o: "avl_nodes st' z = avl_nodes st z" if "z \<in> set_tree ll \<union> set_tree x \<union> set_tree y \<union> set_tree r" for z
      unfolding st'_def using that dist lr by (subst write_place_nodes) auto
    have nn: "avl_nodes st' n = (avl_nodes st n)\<lparr>avl_left := avl_right (avl_nodes st m), avl_height := int (height lr)\<rparr>"
      "avl_nodes st' nl = (avl_nodes st nl)\<lparr>avl_right := avl_left (avl_nodes st m), avl_height := int (height lr)\<rparr>"
      "avl_nodes st' m = (avl_nodes st m)\<lparr>avl_left := Some nl, avl_right := Some n, avl_height := int (height (Node ll nl lr))\<rparr>"
      unfolding st'_def using dist lr ne by (subst write_place_nodes; auto)+
    have "rep (avl_nodes st') (read_place pl st') (Node (Node ll nl x) m (Node y n r))"
      using rep nn hh lr rep_cong [of ll "avl_nodes st'" "avl_nodes st"] rep_cong [of x "avl_nodes st'" "avl_nodes st"]
        rep_cong [of y "avl_nodes st'" "avl_nodes st"] rep_cong [of r "avl_nodes st'" "avl_nodes st"] o
      by (auto simp: st'_def write_place_other(4))
    moreover have "rot (Node ll nl lr) n r = Node (Node ll nl x) m (Node y n r)" using ok False lr by (auto simp: rot_def)
    moreover have "changed st pl (set (inorder (Node (Node ll nl lr) n r))) st'"
      unfolding changed_def st'_def lr by (intro conjI exI [of _ "Some m"]) (cases pl; auto simp: write_place_other write_place_root)+
    ultimately show ?thesis using run by (intro exI [of _ st']) simp
  qed
qed

lemma rotate_right_heavy_ok:
  assumes rep: "rep (avl_nodes st) (Some nr) (Node rl nr rr)" "avl_right (avl_nodes st n) = Some nr" "rep (avl_nodes st) (avl_left (avl_nodes st n)) l"
    and ok: "avl_ok (Node rl nr rr)" "height (Node rl nr rr) = height l + 2"
    and dist: "distinct (inorder (Node l n (Node rl nr rr)))" "owner pl \<inter> set (inorder (Node l n (Node rl nr rr))) = {}"
  shows "\<exists>st'. rotate_right_heavy pl n nr (int (height (Node rl nr rr))) st = Some st' \<and>
    rep (avl_nodes st') (read_place pl st') (rot l n (Node rl nr rr)) \<and> changed st pl (set (inorder (Node l n (Node rl nr rr)))) st'"
proof -
  have h: "heightof st (avl_left (avl_nodes st nr)) = int (height rl)" "heightof st (avl_right (avl_nodes st nr)) = int (height rr)"
    using rep(1) rep_height by auto
  show ?thesis
  proof (cases "height rl \<le> height rr")
    case True
    have hh: "height rr = height l + 1" "height l \<le> height rl" using ok True by auto
    define st' where "st' = write_place pl (Some nr) (upd_node nr (\<lambda>r. r\<lparr>avl_height := 1 + (1 + int (height rl))\<rparr>)
      (upd_node n (\<lambda>r. r\<lparr>avl_height := 1 + int (height rl)\<rparr>) (upd_node nr (\<lambda>r. r\<lparr>avl_left := Some n\<rparr>)
      (upd_node n (\<lambda>r. r\<lparr>avl_right := avl_left (avl_nodes st nr)\<rparr>) st))))"
    have run: "rotate_right_heavy pl n nr (int (height (Node rl nr rr))) st = Some st'"
      using True h by (simp add: rotate_right_heavy_def Let_def st'_def)
    have o: "avl_nodes st' x = avl_nodes st x" if "x \<in> set_tree rl \<union> set_tree rr \<union> set_tree l" for x
      unfolding st'_def using that dist by (subst write_place_nodes) auto
    have nn: "avl_nodes st' n = (avl_nodes st n)\<lparr>avl_right := avl_left (avl_nodes st nr), avl_height := 1 + int (height rl)\<rparr>"
      "avl_nodes st' nr = (avl_nodes st nr)\<lparr>avl_left := Some n, avl_height := 2 + int (height rl)\<rparr>"
      unfolding st'_def using dist by (subst write_place_nodes; auto)+
    have "rep (avl_nodes st') (read_place pl st') (Node (Node l n rl) nr rr)"
      using rep nn hh True rep_cong [of rl "avl_nodes st'" "avl_nodes st"] rep_cong [of rr "avl_nodes st'" "avl_nodes st"] rep_cong [of l "avl_nodes st'" "avl_nodes st"] o
      by (auto simp: st'_def write_place_other(4))
    moreover have "rot l n (Node rl nr rr) = Node (Node l n rl) nr rr" using ok True by (auto simp: rot_def)
    moreover have "changed st pl (set (inorder (Node l n (Node rl nr rr)))) st'"
      unfolding changed_def st'_def by (intro conjI exI [of _ "Some nr"]) (cases pl; auto simp: write_place_other write_place_root)+
    ultimately show ?thesis using run by (intro exI [of _ st']) simp
  next
    case False
    then obtain x m y where rl: "rl = Node x m y" by (cases rl) auto
    have hh: "height rl = height l + 1" "height rr = height l" "height x \<le> height l" "height y \<le> height l" using ok False rl by auto
    have m: "avl_left (avl_nodes st nr) = Some m" using rep(1) rl by simp
    define st' where "st' = write_place pl (Some m) (upd_node m (\<lambda>r. r\<lparr>avl_height := int (height (Node rl nr rr))\<rparr>)
      (upd_node nr (\<lambda>r. r\<lparr>avl_height := int (height rl)\<rparr>) (upd_node n (\<lambda>r. r\<lparr>avl_height := int (height rl)\<rparr>)
      (upd_node m (\<lambda>r. r\<lparr>avl_left := Some n\<rparr>) (upd_node m (\<lambda>r. r\<lparr>avl_right := Some nr\<rparr>)
      (upd_node n (\<lambda>r. r\<lparr>avl_right := avl_left (avl_nodes st m)\<rparr>) (upd_node nr (\<lambda>r. r\<lparr>avl_left := avl_right (avl_nodes st m)\<rparr>) st)))))))"
    have ne: "m \<noteq> nr" "m \<noteq> n" "nr \<noteq> n" using dist rl by auto
    have run: "rotate_right_heavy pl n nr (int (height (Node rl nr rr))) st = Some st'"
      using False h m ne by (simp add: rotate_right_heavy_def Let_def st'_def)
    have o: "avl_nodes st' z = avl_nodes st z" if "z \<in> set_tree rr \<union> set_tree x \<union> set_tree y \<union> set_tree l" for z
      unfolding st'_def using that dist rl by (subst write_place_nodes) auto
    have nn: "avl_nodes st' n = (avl_nodes st n)\<lparr>avl_right := avl_left (avl_nodes st m), avl_height := int (height rl)\<rparr>"
      "avl_nodes st' nr = (avl_nodes st nr)\<lparr>avl_left := avl_right (avl_nodes st m), avl_height := int (height rl)\<rparr>"
      "avl_nodes st' m = (avl_nodes st m)\<lparr>avl_right := Some nr, avl_left := Some n, avl_height := int (height (Node rl nr rr))\<rparr>"
      unfolding st'_def using dist rl ne by (subst write_place_nodes; auto)+
    have "rep (avl_nodes st') (read_place pl st') (Node (Node l n x) m (Node y nr rr))"
      using rep nn hh rl rep_cong [of rr "avl_nodes st'" "avl_nodes st"] rep_cong [of x "avl_nodes st'" "avl_nodes st"]
        rep_cong [of y "avl_nodes st'" "avl_nodes st"] rep_cong [of l "avl_nodes st'" "avl_nodes st"] o
      by (auto simp: st'_def write_place_other(4))
    moreover have "rot l n (Node rl nr rr) = Node (Node l n x) m (Node y nr rr)" using ok False rl by (auto simp: rot_def)
    moreover have "changed st pl (set (inorder (Node l n (Node rl nr rr)))) st'"
      unfolding changed_def st'_def rl by (intro conjI exI [of _ "Some m"]) (cases pl; auto simp: write_place_other write_place_root)+
    ultimately show ?thesis using run by (intro exI [of _ st']) simp
  qed
qed

lemma rebalance_node_ok:
  assumes pl: "read_place pl st = Some n" and rep: "rep (avl_nodes st) (avl_left (avl_nodes st n)) l" "rep (avl_nodes st) (avl_right (avl_nodes st n)) r"
    and ok: "avl_ok l" "avl_ok r" "height l \<le> height r + 2" "height r \<le> height l + 2"
    and dist: "distinct (inorder (Node l n r))" "owner pl \<inter> set (inorder (Node l n r)) = {}"
  shows "\<exists>more st'. rebalance_node pl st = Some (more, st') \<and> rep (avl_nodes st') (read_place pl st') (rot l n r) \<and>
    changed st pl (set (inorder (Node l n r))) st' \<and> (\<not> more \<longrightarrow> st' = st \<and> rot l n r = Node l n r)"
proof -
  have h: "heightof st (avl_left (avl_nodes st n)) = int (height l)" "heightof st (avl_right (avl_nodes st n)) = int (height r)"
    using rep rep_height by auto
  consider "height r + 1 < height l" | "height l + 1 < height r" | "height l \<le> height r + 1" "height r \<le> height l + 1" by linarith
  then show ?thesis
  proof cases
    case 1
    then obtain ll nl lr where l: "l = Node ll nl lr" by (cases l) auto
    have nl: "avl_left (avl_nodes st n) = Some nl" "rep (avl_nodes st) (Some nl) (Node ll nl lr)" using rep(1) l by auto
    have "height (Node ll nl lr) = height r + 2" using 1 ok(3) unfolding l by linarith
    then obtain st' where "rotate_left_heavy pl n nl (int (height l)) st = Some st'"
      "rep (avl_nodes st') (read_place pl st') (rot l n r)" "changed st pl (set (inorder (Node l n r))) st'"
      using rotate_left_heavy_ok [OF nl(2,1) rep(2)] ok(1) dist unfolding l by blast
    then show ?thesis using 1 h pl nl(1) by (intro exI [of _ True] exI [of _ st']) (simp add: rebalance_node_def Let_def)
  next
    case 2
    then obtain rl nr rr where r: "r = Node rl nr rr" by (cases r) auto
    have nr: "avl_right (avl_nodes st n) = Some nr" "rep (avl_nodes st) (Some nr) (Node rl nr rr)" using rep(2) r by auto
    have "height (Node rl nr rr) = height l + 2" using 2 ok(4) unfolding r by linarith
    then obtain st' where "rotate_right_heavy pl n nr (int (height r)) st = Some st'"
      "rep (avl_nodes st') (read_place pl st') (rot l n r)" "changed st pl (set (inorder (Node l n r))) st'"
      using rotate_right_heavy_ok [OF nr(2,1) rep(1)] ok(2) dist unfolding r by blast
    then show ?thesis using 2 h pl nr(1) by (intro exI [of _ True] exI [of _ st']) (simp add: rebalance_node_def Let_def)
  next
    case 3
    have rot: "rot l n r = Node l n r" by (rule rot_same [OF 3])
    let ?h = "1 + int (max (height l) (height r))"
    have run: "rebalance_node pl st = (if ?h = avl_height (avl_nodes st n) then Some (False, st) else Some (True, upd_node n (\<lambda>r. r\<lparr>avl_height := ?h\<rparr>) st))"
      using 3 h pl by (simp add: rebalance_node_def Let_def max_def add.commute)
    show ?thesis
    proof (cases "?h = avl_height (avl_nodes st n)")
      case True
      have "changed st pl (set (inorder (Node l n r))) st"
        unfolding changed_def by (intro conjI exI [of _ "read_place pl st"]) (cases pl; auto)+
      then show ?thesis using True run rot pl rep by (intro exI [of _ False] exI [of _ st]) auto
    next
      case False
      let ?st = "upd_node n (\<lambda>r. r\<lparr>avl_height := ?h\<rparr>) st"
      have "changed st pl (set (inorder (Node l n r))) ?st"
        unfolding changed_def by (intro conjI exI [of _ "read_place pl st"]) (cases pl; auto)+
      moreover have "read_place pl ?st = Some n" using pl by (cases pl) auto
      moreover have "rep (avl_nodes ?st) p u = rep (avl_nodes st) p u" if "n \<notin> set_tree u" for p u
        by (rule rep_cong) (use that in auto)
      then have "rep (avl_nodes ?st) (avl_left (avl_nodes st n)) l" "rep (avl_nodes ?st) (avl_right (avl_nodes st n)) r"
        using rep dist(1) by simp_all
      ultimately show ?thesis using False run rot by (intro exI [of _ True] exI [of _ ?st]) auto
    qed
  qed
qed

text \<open>\<open>kept N st st'\<close>: keys and data are the same, and nodes outside of \<open>N\<close> are the same altogether.\<close>

definition kept :: "nat set \<Rightarrow> avl_state \<Rightarrow> avl_state \<Rightarrow> bool" where
  "kept N st st' \<longleftrightarrow> (\<forall>x. avl_key (avl_nodes st' x) = avl_key (avl_nodes st x) \<and> avl_data (avl_nodes st' x) = avl_data (avl_nodes st x)) \<and>
     (\<forall>x. x \<notin> N \<longrightarrow> avl_nodes st' x = avl_nodes st x)"

lemma kept_trans: "kept N st st1 \<Longrightarrow> kept N st1 st2 \<Longrightarrow> kept N st st2"
  by (simp add: kept_def)

lemma kept_refl: "kept N st st"
  by (simp add: kept_def)

lemma kept_mono: "kept N st st' \<Longrightarrow> N \<subseteq> M \<Longrightarrow> kept M st st'"
  by (auto simp: kept_def)

lemma changed_kept: "changed st pl N st' \<Longrightarrow> N \<union> owner pl \<subseteq> M \<Longrightarrow> kept M st st'"
  unfolding changed_def kept_def using write_place_nodes [of _ pl] by (metis Un_iff subset_iff)

lemma place_owner: "owner (place Tree_root c) \<subseteq> set (cnodes c)"
  by (cases "(Tree_root, c)" rule: place.cases) auto

lemma cok_changed:
  assumes "changed st (place Tree_root c) N st'" "N \<inter> set (cnodes c) = {}" "distinct (cnodes c)"
  shows "cok st' Tree_root h c = cok st Tree_root h c"
proof -
  obtain v where v: "\<forall>x. x \<notin> N \<longrightarrow> avl_nodes st' x = avl_nodes (write_place (place Tree_root c) v st) x"
    "avl_root st' = avl_root (write_place (place Tree_root c) v st)" using assms(1) unfolding changed_def by blast
  show ?thesis
  proof (rule cok_hole)
    show "avl_nodes st' x = avl_nodes (write_place (place Tree_root c) v st) x" if "x \<in> set (cnodes c)" for x
      using v(1) assms(2) that by blast
    show "read_place Tree_root st' = read_place Tree_root st" if "c \<noteq> []"
      using v(2) that by (cases "(Tree_root, c)" rule: place.cases) auto
  qed (rule assms(3))
qed

text \<open>
  One step up the path, with the subtree on either side: the height of the subtree in the hole differs
  by at most one from the height for which the path was balanced.
\<close>

lemma rebalance_step:
  assumes pl: "read_place (place Tree_root c) st = Some n" and rep: "rep (avl_nodes st) (avl_left (avl_nodes st n)) l" "rep (avl_nodes st) (avl_right (avl_nodes st n)) r"
    and ok: "avl_ok l" "avl_ok r" "height l \<le> height r + 2" "height r \<le> height l + 2"
    and old: "avl_height (avl_nodes st n) = int h" "cok st Tree_root h c" "height (rot l n r) \<le> h + 1" "h \<le> height (rot l n r) + 1"
    and dist: "distinct (inorder (plug (Node l n r) c))"
    and ih: "\<And>st t h. cok st Tree_root h c \<Longrightarrow> rep (avl_nodes st) (read_place (place Tree_root c) st) t \<Longrightarrow> avl_ok t \<Longrightarrow>
      height t \<le> h + 1 \<Longrightarrow> h \<le> height t + 1 \<Longrightarrow> distinct (inorder (plug t c)) \<Longrightarrow>
      \<exists>st' t'. lwp_avl_rebalance (stack_of Tree_root c) st = Some st' \<and> rep (avl_nodes st') (avl_root st') t' \<and> avl_ok t' \<and>
        inorder t' = inorder (plug t c) \<and> kept (set (inorder (plug t c))) st st'"
  shows "\<exists>st' t'. lwp_avl_rebalance (place Tree_root c # stack_of Tree_root c) st = Some st' \<and> rep (avl_nodes st') (avl_root st') t' \<and> avl_ok t' \<and>
    inorder t' = inorder (plug (Node l n r) c) \<and> kept (set (inorder (plug (Node l n r) c))) st st'"
proof -
  let ?t = "Node l n r" and ?pl = "place Tree_root c"
  have d: "distinct (lefts c @ inorder ?t @ rights c)" using dist by (simp only: inorder_plug)
  have dc: "distinct (cnodes c)" by (rule cnodes_distinct [OF d])
  have apart: "set (inorder ?t) \<inter> set (cnodes c) = {}" using d unfolding cnodes_set by auto
  have "distinct (inorder ?t)" "owner ?pl \<inter> set (inorder ?t) = {}" using d apart place_owner [of c] by auto
  from rebalance_node_ok [OF pl rep ok this] obtain more st1 where r: "rebalance_node ?pl st = Some (more, st1)"
    "rep (avl_nodes st1) (read_place ?pl st1) (rot l n r)" "changed st ?pl (set (inorder ?t)) st1" "\<not> more \<longrightarrow> st1 = st \<and> rot l n r = ?t" by blast
  show ?thesis
  proof (cases more)
    case True
    have "cok st1 Tree_root h c" using cok_changed [OF r(3) apart dc] old(2) by simp
    moreover have "distinct (inorder (plug (rot l n r) c))" using d by (simp add: inorder_plug rot_inorder)
    ultimately obtain st' t' where "lwp_avl_rebalance (stack_of Tree_root c) st1 = Some st'" "rep (avl_nodes st') (avl_root st') t'" "avl_ok t'"
      "inorder t' = inorder (plug (rot l n r) c)" "kept (set (inorder (plug (rot l n r) c))) st1 st'" using ih [OF _ r(2) rot_avl(1) [OF ok] old(3,4)] by blast
    moreover have "kept (set (inorder (plug (Node l n r) c))) st st1"
      by (rule changed_kept [OF r(3)]) (use place_owner [of c] in \<open>auto simp: inorder_plug cnodes_set\<close>)
    moreover have "inorder (plug (rot l n r) c) = inorder (plug (Node l n r) c)" by (simp add: inorder_plug rot_inorder)
    ultimately show ?thesis using r(1) True by (auto intro: kept_trans)
  next
    case False
    then have s: "st1 = st" "rot l n r = ?t" using r(4) by auto
    have "avl_height (avl_nodes st n) = int (height ?t)" using r(2) s by auto
    then have "h = height ?t" using old(1) by simp
    then have "rep (avl_nodes st) (avl_root st) (plug ?t c) \<and> avl_ok (plug ?t c)"
      using cok_plug [of st Tree_root ?t c] old(2) r(2) s rot_avl(1) [OF ok, of n] by simp
    then show ?thesis using r(1) False s by (auto simp: kept_refl)
  qed
qed

lemma rebalance_ok:
  assumes "cok st Tree_root h c" "rep (avl_nodes st) (read_place (place Tree_root c) st) t" "avl_ok t" "height t \<le> h + 1" "h \<le> height t + 1"
    "distinct (inorder (plug t c))"
  shows "\<exists>st' t'. lwp_avl_rebalance (stack_of Tree_root c) st = Some st' \<and> rep (avl_nodes st') (avl_root st') t' \<and> avl_ok t' \<and>
    inorder t' = inorder (plug t c) \<and> kept (set (inorder (plug t c))) st st'"
  using assms
proof (induction c arbitrary: st h t)
  case Nil
  then show ?case by (auto simp: kept_refl)
next
  case (Cons fr c)
  show ?case
  proof (cases fr)
    case (In_left n r)
    have f: "read_place (place Tree_root c) st = Some n" "rep (avl_nodes st) (avl_right (avl_nodes st n)) r" "avl_ok r" "h \<le> height r + 1" "height r \<le> h + 1"
      "avl_height (avl_nodes st n) = int (Suc (max h (height r)))" "cok st Tree_root (Suc (max h (height r))) c"
      "rep (avl_nodes st) (avl_left (avl_nodes st n)) t" using Cons.prems(1,2) In_left by auto
    have b: "height t \<le> height r + 2" "height r \<le> height t + 2" using f(4,5) Cons.prems(4,5) by linarith+
    note rot = rot_avl [OF Cons.prems(3) f(3) b, of n]
    have g: "height (rot t n r) \<le> Suc (max h (height r)) + 1" "Suc (max h (height r)) \<le> height (rot t n r) + 1"
    proof -
      show "height (rot t n r) \<le> Suc (max h (height r)) + 1" using rot(2) Cons.prems(4) by linarith
      show "Suc (max h (height r)) \<le> height (rot t n r) + 1"
      proof (cases "height r + 1 < height t \<or> height t + 1 < height r")
        case False
        then have "rot t n r = Node t n r" by (intro rot_same) auto
        then show ?thesis using Cons.prems(5) by (simp add: max_def)
      qed (use rot(3) f(4,5) Cons.prems(4,5) in linarith)
    qed
    from rebalance_step [OF f(1,8,2) Cons.prems(3) f(3) b f(6,7) g _ Cons.IH] Cons.prems(6) In_left show ?thesis by simp
  next
    case (In_right l n)
    have f: "read_place (place Tree_root c) st = Some n" "rep (avl_nodes st) (avl_left (avl_nodes st n)) l" "avl_ok l" "h \<le> height l + 1" "height l \<le> h + 1"
      "avl_height (avl_nodes st n) = int (Suc (max (height l) h))" "cok st Tree_root (Suc (max (height l) h)) c"
      "rep (avl_nodes st) (avl_right (avl_nodes st n)) t" using Cons.prems(1,2) In_right by auto
    have b: "height l \<le> height t + 2" "height t \<le> height l + 2" using f(4,5) Cons.prems(4,5) by linarith+
    note rot = rot_avl [OF f(3) Cons.prems(3) b, of n]
    have g: "height (rot l n t) \<le> Suc (max (height l) h) + 1" "Suc (max (height l) h) \<le> height (rot l n t) + 1"
    proof -
      show "height (rot l n t) \<le> Suc (max (height l) h) + 1" using rot(2) Cons.prems(4) by linarith
      show "Suc (max (height l) h) \<le> height (rot l n t) + 1"
      proof (cases "height t + 1 < height l \<or> height l + 1 < height t")
        case False
        then have "rot l n t = Node l n t" by (intro rot_same) auto
        then show ?thesis using Cons.prems(5) by (simp add: max_def)
      qed (use rot(3) f(4,5) Cons.prems(4,5) in linarith)
    qed
    from rebalance_step [OF f(1,2,8,3) Cons.prems(3) b f(6,7) g _ Cons.IH] Cons.prems(6) In_right show ?thesis by simp
  qed
qed

section \<open>Search trees\<close>

abbreviation key_of :: "avl_state \<Rightarrow> nat \<Rightarrow> 64 word" where
  "key_of st n \<equiv> avl_key (avl_nodes st n)"

text \<open>The invariant: the heap holds the tree \<open>t\<close>, which is balanced and ordered by strictly increasing keys.\<close>

definition avl_inv :: "avl_state \<Rightarrow> nat tree \<Rightarrow> bool" where
  "avl_inv st t \<longleftrightarrow> rep (avl_nodes st) (avl_root st) t \<and> avl_ok t \<and> sorted_wrt (<) (map (key_of st) (inorder t))"

lemma avl_invD:
  assumes "avl_inv st t"
  shows "rep (avl_nodes st) (avl_root st) t" "avl_ok t" "sorted_wrt (<) (map (key_of st) (inorder t))" "distinct (inorder t)"
    "inj_on (key_of st) (set (inorder t))"
proof -
  show s: "sorted_wrt (<) (map (key_of st) (inorder t))" "rep (avl_nodes st) (avl_root st) t" "avl_ok t" using assms by (simp_all add: avl_inv_def)
  have "distinct (map (key_of st) (inorder t))" using s(1) strict_sorted_iff by blast
  then show "distinct (inorder t)" "inj_on (key_of st) (set (inorder t))" by (simp_all only: distinct_map)
qed

text \<open>The stack of 32 entries is enough for every tree of fewer than 65536 nodes.\<close>

lemma avl_size: "avl_ok t \<Longrightarrow> 2 ^ height t \<le> (size1 t)\<^sup>2"
proof (induction t)
  case (Node l n r)
  have "2 ^ Suc (max (height l) (height r)) \<le> (size1 l + size1 r)\<^sup>2" if o: "2 ^ height l \<le> (size1 l)\<^sup>2" "2 ^ height r \<le> (size1 r)\<^sup>2"
    "height l \<le> height r + 1" "height r \<le> height l + 1" for l r :: "nat tree"
  proof -
    have half: "2 ^ (height a) \<le> 2 * (size1 a * size1 b)" if "2 ^ height a \<le> (size1 a)\<^sup>2" "2 ^ height b \<le> (size1 b)\<^sup>2" "height a \<le> height b + 1" for a b :: "nat tree"
    proof (rule power2_le_imp_le)
      have "(2 ^ height a)\<^sup>2 = 2 ^ height a * (2 :: nat) ^ height a" by (rule power2_eq_square)
      also have "\<dots> \<le> 2 ^ height a * 2 ^ (height b + 1)" using that(3) by (intro mult_le_mono2 power_increasing) auto
      also have "\<dots> \<le> 2 * ((size1 a)\<^sup>2 * (size1 b)\<^sup>2)" using mult_le_mono [OF that(1,2)] by simp
      also have "\<dots> \<le> (2 * (size1 a * size1 b))\<^sup>2" by (simp add: power_mult_distrib)
      finally show "(2 ^ height a)\<^sup>2 \<le> (2 * (size1 a * size1 b))\<^sup>2" .
    qed simp
    have sq: "(size1 l + size1 r)\<^sup>2 = (size1 l)\<^sup>2 + (size1 r)\<^sup>2 + 2 * (size1 l * size1 r)" by (simp add: power2_sum)
    show ?thesis
    proof (cases "height r \<le> height l")
      case True
      then show ?thesis using half [OF o(1,2,3)] o(1) sq by (simp add: max_absorb1)
    next
      case False
      then show ?thesis using half [OF o(2,1,4)] o(2) sq by (simp add: max_absorb2 mult.commute)
    qed
  qed
  then show ?case using Node by simp
qed simp

lemma avl_height_bound: "avl_ok t \<Longrightarrow> size t < 65535 \<Longrightarrow> height t < 32"
proof -
  assume t: "avl_ok t" "size t < 65535"
  have "(size1 t)\<^sup>2 < 65536\<^sup>2" using t(2) by (intro power_strict_mono) (auto simp: size1_size)
  then have "(2 :: nat) ^ height t < 2 ^ 32" using avl_size [OF t(1)] by simp
  then show "height t < 32" by (rule power_less_imp_less_exp [rotated]) simp
qed

lemma plug_height: "height t + length c \<le> height (plug t c)"
  by (induction t c rule: plug.induct) (auto intro: order_trans [rotated])

lemma insert_descend_ok:
  assumes "rep (avl_nodes st) (read_place (place Tree_root c) st) t" "length c + height t \<le> 32"
    "sorted_wrt (<) (map (key_of st) (inorder (plug t c)))" "key \<notin> key_of st ` set (inorder t)"
    "\<forall>x \<in> set (lefts c). key_of st x < key" "\<forall>x \<in> set (rights c). key < key_of st x"
  shows "\<exists>c'. insert_descend key (place Tree_root c) (stack_of Tree_root c) st = Some (place Tree_root c', stack_of Tree_root c') \<and>
    plug Leaf c' = plug t c \<and> (\<forall>x \<in> set (lefts c'). key_of st x < key) \<and> (\<forall>x \<in> set (rights c'). key < key_of st x)"
  using assms
proof (induction t arbitrary: c)
  case Leaf
  then show ?case by (intro exI [of _ c]) (simp add: insert_descend.simps)
next
  case (Node l n r)
  have n: "read_place (place Tree_root c) st = Some n" "rep (avl_nodes st) (avl_left (avl_nodes st n)) l" "rep (avl_nodes st) (avl_right (avl_nodes st n)) r"
    using Node.prems(1) by auto
  have s: "\<forall>x \<in> set_tree l. key_of st x < key_of st n" "\<forall>x \<in> set_tree r. key_of st n < key_of st x"
    using Node.prems(3) by (auto simp: inorder_plug sorted_wrt_append)
  have len: "length (stack_of Tree_root c) < 32" using Node.prems(2) by simp
  have ne: "key \<noteq> key_of st n" using Node.prems(4) by auto
  show ?case
  proof (cases "key < key_of st n")
    case True
    have "\<exists>c'. insert_descend key (place Tree_root (In_left n r # c)) (stack_of Tree_root (In_left n r # c)) st = Some (place Tree_root c', stack_of Tree_root c') \<and>
      plug Leaf c' = plug l (In_left n r # c) \<and> (\<forall>x \<in> set (lefts c'). key_of st x < key) \<and> (\<forall>x \<in> set (rights c'). key < key_of st x)"
      by (rule Node.IH(1)) (use Node.prems n s True in \<open>auto intro: order.strict_trans\<close>)
    then show ?thesis using n(1) len True by (simp add: insert_descend.simps [of key "place Tree_root c"])
  next
    case False
    then have gt: "key_of st n < key" using ne by auto
    have "\<exists>c'. insert_descend key (place Tree_root (In_right l n # c)) (stack_of Tree_root (In_right l n # c)) st = Some (place Tree_root c', stack_of Tree_root c') \<and>
      plug Leaf c' = plug r (In_right l n # c) \<and> (\<forall>x \<in> set (lefts c'). key_of st x < key) \<and> (\<forall>x \<in> set (rights c'). key < key_of st x)"
      by (rule Node.IH(2)) (use Node.prems n s gt in \<open>auto intro: order.strict_trans\<close>)
    then show ?thesis using n(1) len False by (simp add: insert_descend.simps [of key "place Tree_root c"])
  qed
qed

text \<open>The end of both operations: the rest of the path is rebalanced and the keys stay in order.\<close>

lemma rebalanced_inv:
  assumes path: "cok st1 Tree_root h c" "rep (avl_nodes st1) (read_place (place Tree_root c) st1) u" "avl_ok u" "height u \<le> h + 1" "h \<le> height u + 1"
    and keys: "kept N st st1" "sorted_wrt (<) (map (key_of st) (inorder (plug u c)))" "set (inorder (plug u c)) \<subseteq> N"
  shows "\<exists>st' t'. lwp_avl_rebalance (stack_of Tree_root c) st1 = Some st' \<and> avl_inv st' t' \<and> set (inorder t') = set (inorder (plug u c)) \<and> kept N st st'"
proof -
  have "distinct (map (key_of st) (inorder (plug u c)))" using keys(2) strict_sorted_iff by blast
  then have "distinct (inorder (plug u c))" by (simp only: distinct_map)
  from rebalance_ok [OF path this] obtain st' t' where r: "lwp_avl_rebalance (stack_of Tree_root c) st1 = Some st'" "rep (avl_nodes st') (avl_root st') t'"
    "avl_ok t'" "inorder t' = inorder (plug u c)" "kept (set (inorder (plug u c))) st1 st'" by blast
  have sk: "kept N st st'" by (rule kept_trans [OF keys(1) kept_mono [OF r(5) keys(3)]])
  then have "key_of st' = key_of st" by (auto simp: kept_def)
  then have "avl_inv st' t'" using r(2-4) keys(2) by (simp add: avl_inv_def)
  then show ?thesis using r(1,4) sk by (metis)
qed

text \<open>What an insertion or removal leaves behind: the set of nodes, their keys and data.\<close>

lemma lwp_avl_insert_ok:
  assumes inv: "avl_inv st t" and new: "new \<notin> set (inorder t)" "key_of st new \<notin> key_of st ` set (inorder t)" and room: "size t < 65535"
  shows "\<exists>st' t'. lwp_avl_insert new st = Some st' \<and> avl_inv st' t' \<and> set (inorder t') = insert new (set (inorder t)) \<and> kept (insert new (set (inorder t))) st st'"
proof -
  note d = avl_invD [OF inv]
  have "\<exists>c. insert_descend (key_of st new) (place Tree_root []) (stack_of Tree_root []) st = Some (place Tree_root c, stack_of Tree_root c) \<and>
    plug Leaf c = plug t [] \<and> (\<forall>x \<in> set (lefts c). key_of st x < key_of st new) \<and> (\<forall>x \<in> set (rights c). key_of st new < key_of st x)"
    by (rule insert_descend_ok) (use d(1,3) new(2) avl_height_bound [OF d(2) room] in auto)
  then obtain c where c: "insert_descend (key_of st new) Tree_root [] st = Some (place Tree_root c, stack_of Tree_root c)" "plug Leaf c = t"
    "\<forall>x \<in> set (lefts c). key_of st x < key_of st new" "\<forall>x \<in> set (rights c). key_of st new < key_of st x" by auto
  have io: "inorder t = lefts c @ rights c" using inorder_plug [of Leaf c] c(2) by simp
  have dc: "distinct (cnodes c)" using cnodes_distinct [of c "[]"] d(4) io by simp
  have nc: "new \<notin> set (cnodes c)" using new(1) io by (simp add: cnodes_set)
  define st1 where "st1 = write_place (place Tree_root c) (Some new) (upd_node new (\<lambda>r. r\<lparr>avl_left := None, avl_right := None, avl_height := 1\<rparr>) st)"
  have ch: "changed st (place Tree_root c) {new} st1"
    unfolding changed_def st1_def by (intro conjI exI [of _ "Some new"]) (cases "place Tree_root c"; auto)+
  have keys: "kept (insert new (set (inorder t))) st st1"
    by (rule changed_kept [OF ch]) (use place_owner [of c] io in \<open>auto simp: cnodes_set\<close>)
  have "cok st Tree_root 0 c" using cok_plug [of st Tree_root Leaf c] c(2) d(1,2) by simp
  then have "cok st1 Tree_root 0 c" using cok_changed [OF ch] nc dc by simp
  moreover have "rep (avl_nodes st1) (read_place (place Tree_root c) st1) (Node Leaf new Leaf)"
  proof -
    have "avl_nodes st1 new = (avl_nodes st new)\<lparr>avl_left := None, avl_right := None, avl_height := 1\<rparr>"
      unfolding st1_def using nc place_owner [of c] by (subst write_place_nodes) auto
    then show ?thesis by (simp add: st1_def write_place_other)
  qed
  moreover have "sorted_wrt (<) (map (key_of st) (inorder (plug (Node Leaf new Leaf) c)))"
    using d(3) c(3,4) unfolding io by (auto simp: inorder_plug sorted_wrt_append)
  moreover have set: "set (inorder (plug (Node Leaf new Leaf) c)) = insert new (set (inorder t))" using io by (auto simp: inorder_plug)
  ultimately obtain st' t' where r: "lwp_avl_rebalance (stack_of Tree_root c) st1 = Some st'" "avl_inv st' t'"
    "set (inorder t') = insert new (set (inorder t))" "kept (insert new (set (inorder t))) st st'"
    using rebalanced_inv [of st1 0 c "Node Leaf new Leaf", OF _ _ _ _ _ keys] by auto
  moreover have "lwp_avl_insert new st = Some st'" using c(1) r(1) by (simp add: lwp_avl_insert_def Let_def st1_def)
  ultimately show ?thesis by blast
qed

lemma remove_descend_ok:
  assumes "rep (avl_nodes st) (read_place (place Tree_root c) st) t" "length c + height t \<le> 32"
    "sorted_wrt (<) (map (key_of st) (inorder (plug t c)))" "n \<in> set (inorder t)"
  shows "\<exists>c' l r. remove_descend (key_of st n) (place Tree_root c) (stack_of Tree_root c) st =
      Some (Some (place Tree_root c', place Tree_root c' # stack_of Tree_root c')) \<and> plug (Node l n r) c' = plug t c \<and> length c' < 32"
  using assms
proof (induction t arbitrary: c)
  case (Node l m r)
  have n: "read_place (place Tree_root c) st = Some m" "rep (avl_nodes st) (avl_left (avl_nodes st m)) l" "rep (avl_nodes st) (avl_right (avl_nodes st m)) r"
    using Node.prems(1) by auto
  have s: "\<forall>x \<in> set_tree l. key_of st x < key_of st m" "\<forall>x \<in> set_tree r. key_of st m < key_of st x"
    using Node.prems(3) by (auto simp: inorder_plug sorted_wrt_append)
  have len: "length (stack_of Tree_root c) < 32" using Node.prems(2) by simp
  consider "n = m" | "n \<in> set_tree l" | "n \<in> set_tree r" using Node.prems(4) by auto
  then show ?case
  proof cases
    case 1
    then show ?thesis using n(1) len by (intro exI [of _ c] exI [of _ l] exI [of _ r]) (simp add: remove_descend.simps)
  next
    case 2
    have "\<exists>c' l' r'. remove_descend (key_of st n) (place Tree_root (In_left m r # c)) (stack_of Tree_root (In_left m r # c)) st =
      Some (Some (place Tree_root c', place Tree_root c' # stack_of Tree_root c')) \<and> plug (Node l' n r') c' = plug l (In_left m r # c) \<and> length c' < 32"
      by (rule Node.IH(1)) (use Node.prems n 2 in auto)
    moreover have "key_of st n < key_of st m" "key_of st n \<noteq> key_of st m" using s(1) 2 by force+
    ultimately show ?thesis using n(1) len by (simp add: remove_descend.simps [of _ "place Tree_root c"])
  next
    case 3
    have "\<exists>c' l' r'. remove_descend (key_of st n) (place Tree_root (In_right l m # c)) (stack_of Tree_root (In_right l m # c)) st =
      Some (Some (place Tree_root c', place Tree_root c' # stack_of Tree_root c')) \<and> plug (Node l' n r') c' = plug r (In_right l m # c) \<and> length c' < 32"
      by (rule Node.IH(2)) (use Node.prems n 3 in auto)
    moreover have "\<not> key_of st n < key_of st m" "key_of st n \<noteq> key_of st m" using s(2) 3 by force+
    ultimately show ?thesis using n(1) len by (simp add: remove_descend.simps [of _ "place Tree_root c"])
  qed
qed simp

text \<open>The descent to the largest node of a subtree goes to the right only.\<close>

lemma max_descend_ok:
  assumes "rep (avl_nodes st) (read_place (place Tree_root c) st) t" "length c + height t \<le> 32" "t \<noteq> Leaf"
  shows "\<exists>d l m. max_descend (place Tree_root c) (stack_of Tree_root c) st = Some (place Tree_root (d @ c), m, stack_of Tree_root (d @ c)) \<and>
    plug (Node l m Leaf) d = t \<and> rights d = []"
  using assms
proof (induction t arbitrary: c)
  case (Node l m r)
  have n: "read_place (place Tree_root c) st = Some m" "rep (avl_nodes st) (avl_right (avl_nodes st m)) r" using Node.prems(1) by auto
  show ?case
  proof (cases "r = Leaf")
    case True
    then show ?thesis using n by (intro exI [of _ "[]"] exI [of _ l] exI [of _ m]) (simp add: max_descend.simps)
  next
    case False
    then have ar: "avl_right (avl_nodes st m) \<noteq> None" using n(2) by (cases r) auto
    have len: "length (stack_of Tree_root c) < 32" using Node.prems(2) by simp
    have "\<exists>d l' m'. max_descend (place Tree_root (In_right l m # c)) (stack_of Tree_root (In_right l m # c)) st =
      Some (place Tree_root (d @ In_right l m # c), m', stack_of Tree_root (d @ In_right l m # c)) \<and> plug (Node l' m' Leaf) d = r \<and> rights d = []"
      by (rule Node.IH(2)) (use Node.prems n False in auto)
    then obtain d l' m' where r: "max_descend (Right_of m) (place Tree_root c # stack_of Tree_root c) st =
      Some (place Tree_root (d @ In_right l m # c), m', stack_of Tree_root (d @ In_right l m # c))" "plug (Node l' m' Leaf) d = r" "rights d = []" by auto
    have rd: "rights (d @ [In_right l m]) = []" using r(3) by (induction d rule: rights.induct) auto
    obtain y where "avl_right (avl_nodes st m) = Some y" using ar by blast
    then show ?thesis using n(1) len rd r
      by (intro exI [of _ "d @ [In_right l m]"] exI [of _ l'] exI [of _ m']) (simp add: max_descend.simps [of "place Tree_root c"] plug_append)
  qed
qed simp

lemma height_plug: "height (plug t d) = hole_height (height t) d"
  by (induction t d rule: plug.induct) auto

lemma place_base: "d \<noteq> [] \<Longrightarrow> place b' d = place b d"
  by (cases "(b, d)" rule: place.cases) auto

lemma stack_of_base: "d \<noteq> [] \<Longrightarrow> stack_of b' d = (stack_of b d)[length d - 1 := b']"
proof (induction d)
  case (Cons fr d)
  show ?case
  proof (cases d)
    case (Cons g e)
    then have "d \<noteq> []" by simp
    then show ?thesis using Cons.IH place_base [of d b' b] Cons by (simp add: list_update_code)
  qed simp
qed simp

lemma patch_stack_path:
  "patch_stack (Suc (length c)) (Left_of m) (stack_of Tree_root (d @ In_left n r # c)) = stack_of Tree_root (d @ In_left m r # c)"
proof (cases "d = []")
  case False
  then have "stack_of (Left_of m) d = (stack_of (Left_of n) d)[length d - 1 := Left_of m]" by (rule stack_of_base)
  then show ?thesis using False by (simp add: patch_stack_def stack_of_append list_update_append)
qed (simp add: patch_stack_def)

text \<open>
  The state in which the node \<open>n\<close> has been replaced by the largest node \<open>m\<close> of its left subtree, which left its
  own place to its left subtree \<open>l\<close>.
\<close>

definition moved_up :: "nat \<Rightarrow> nat \<Rightarrow> nodeplace \<Rightarrow> nodeplace \<Rightarrow> avl_state \<Rightarrow> avl_state" where
  "moved_up n m pl2 pl st =
    (let st1 = write_place pl2 (avl_left (avl_nodes st m)) st
     in write_place pl (Some m) (upd_node m (\<lambda>r. r\<lparr>avl_left := avl_left (avl_nodes st1 n), avl_right := avl_right (avl_nodes st n),
          avl_height := avl_height (avl_nodes st n)\<rparr>) st1))"

lemma moved_up_code:
  assumes "m \<noteq> n" "pl2 \<noteq> Right_of n"
  shows "(let st1 = write_place pl2 (avl_left (avl_nodes st m)) st;
      st2 = upd_node m (\<lambda>r. r\<lparr>avl_left := avl_left (avl_nodes st1 n)\<rparr>) st1;
      st3 = upd_node m (\<lambda>r. r\<lparr>avl_right := avl_right (avl_nodes st2 n)\<rparr>) st2;
      st4 = upd_node m (\<lambda>r. r\<lparr>avl_height := avl_height (avl_nodes st3 n)\<rparr>) st3
    in write_place pl (Some m) st4) = moved_up n m pl2 pl st"
proof -
  have "avl_right (avl_nodes (write_place pl2 v st) n) = avl_right (avl_nodes st n)" for v
    using assms(2) by (cases pl2) auto
  moreover have "upd_node m f (upd_node m g s) = upd_node m (\<lambda>r. f (g r)) s" for f g s by (simp add: upd_node_def)
  ultimately show ?thesis using assms(1) by (simp add: moved_up_def Let_def write_place_other)
qed

lemma moved_up_path:
  assumes t: "rep (avl_nodes st) (avl_root st) (plug (Node l' m Leaf) (d @ In_left n r # c))" "avl_ok (plug (Node l' m Leaf) (d @ In_left n r # c))"
    and dist: "distinct (inorder (plug (Node l' m Leaf) (d @ In_left n r # c)))"
  defines "st' \<equiv> moved_up n m (place Tree_root (d @ In_left n r # c)) (place Tree_root c) st"
  shows "cok st' Tree_root (Suc (height l')) (d @ In_left m r # c)" "rep (avl_nodes st') (read_place (place Tree_root (d @ In_left m r # c)) st') l'"
    "kept (set (inorder (plug (Node l' m Leaf) (d @ In_left n r # c)))) st st'" "avl_ok l'"
proof -
  let ?h = "Suc (height l')" and ?pl = "place Tree_root c" and ?pl2 = "place (Left_of n) d"
  let ?st1 = "write_place ?pl2 (avl_left (avl_nodes st m)) st"
  have st': "st' = moved_up n m ?pl2 ?pl st" by (simp add: st'_def place_append)
  have "cok st Tree_root ?h (d @ In_left n r # c) \<and> rep (avl_nodes st) (read_place (place Tree_root (d @ In_left n r # c)) st) (Node l' m Leaf) \<and> avl_ok (Node l' m Leaf)"
    using cok_plug [of st Tree_root "Node l' m Leaf" "d @ In_left n r # c"] t by simp
  then have a: "cok st (Left_of n) ?h d" "cok st Tree_root (hole_height ?h d) (In_left n r # c)" "rep (avl_nodes st) (avl_left (avl_nodes st m)) l'" "avl_ok l'"
    by (simp_all add: cok_append)
  have dl: "distinct (lefts c @ lefts d @ inorder l' @ m # rights d @ n # inorder r @ rights c)"
    using dist by (simp add: plug_append inorder_plug)
  have dd: "distinct (cnodes d)" "distinct (cnodes c)"
    using cnodes_distinct [of d "inorder l' @ [m]"] cnodes_distinct [of c "lefts d @ inorder l' @ m # rights d @ n # inorder r"] dl by auto
  have mn: "m \<notin> set (cnodes d)" "m \<noteq> n" "n \<notin> set (cnodes d)" "m \<notin> set (cnodes c)" "n \<notin> set (cnodes c)"
    "set (cnodes d) \<inter> set (cnodes c) = {}" "set_tree l' \<inter> (set (cnodes c) \<union> set (cnodes d) \<union> {m, n}) = {}" "set_tree r \<inter> (set (cnodes c) \<union> set (cnodes d) \<union> {m, n}) = {}"
    using dl unfolding cnodes_set by auto
  have own: "owner ?pl \<subseteq> set (cnodes c)" "owner ?pl2 \<subseteq> insert n (set (cnodes d))" "d \<noteq> [] \<Longrightarrow> owner ?pl2 \<subseteq> set (cnodes d)"
    using place_owner [of c] by (auto, (cases "(Left_of n, d)" rule: place.cases; auto)+)
  have node: "avl_nodes st' x = avl_nodes ?st1 x" if "x \<notin> set (cnodes c)" "x \<noteq> m" for x
    unfolding st' moved_up_def Let_def using own(1) that by (subst write_place_nodes) auto
  have still: "avl_nodes st' x = avl_nodes st x" if "x \<notin> set (cnodes c) \<union> set (cnodes d) \<union> {m, n}" for x
  proof -
    have "avl_nodes ?st1 x = avl_nodes st x" using that own(2) by (intro write_place_nodes) auto
    then show ?thesis using node [of x] that by simp
  qed
  have m': "avl_left (avl_nodes st' m) = avl_left (avl_nodes ?st1 n)" "avl_right (avl_nodes st' m) = avl_right (avl_nodes st n)"
    "avl_height (avl_nodes st' m) = avl_height (avl_nodes st n)"
    unfolding st' moved_up_def Let_def using own(1) mn(4) by (subst write_place_nodes; auto)+
  have rs: "rep (avl_nodes st') p r = rep (avl_nodes st) p r" "rep (avl_nodes st') p l' = rep (avl_nodes st) p l'" for p
  proof -
    have s: "avl_nodes st' x = avl_nodes st x" if "x \<in> set_tree r \<or> x \<in> set_tree l'" for x using still [of x] mn(7,8) that by blast
    show "rep (avl_nodes st') p r = rep (avl_nodes st) p r" by (rule rep_cong) (rule s, blast)
    show "rep (avl_nodes st') p l' = rep (avl_nodes st) p l'" by (rule rep_cong) (rule s, blast)
  qed
  have "cok st' (Left_of m) ?h d = cok st (Left_of n) ?h d"
  proof (rule cok_hole)
    show "avl_nodes st' x = avl_nodes ?st1 x" if "x \<in> set (cnodes d)" for x using node [of x] that mn by blast
    show "read_place (Left_of m) st' = read_place (Left_of n) st" if "d \<noteq> []"
    proof -
      have "avl_nodes ?st1 n = avl_nodes st n" using own(3) [OF that] mn(3) by (intro write_place_nodes) auto
      then show ?thesis using m'(1) by simp
    qed
  qed (rule dd(1))
  moreover have "cok st' Tree_root (hole_height ?h d) (In_left m r # c)"
  proof -
    have "changed st ?pl (set (cnodes d) \<union> {n, m}) st'"
      unfolding changed_def
    proof (intro conjI exI [of _ "Some m"] allI impI)
      show "avl_nodes st' x = avl_nodes (write_place ?pl (Some m) st) x" if "x \<notin> set (cnodes d) \<union> {n, m}" for x
      proof -
        have "avl_nodes ?st1 x = avl_nodes st x" using that own(2) by (intro write_place_nodes) auto
        then show ?thesis unfolding st' moved_up_def Let_def using that by (intro write_place_cong) simp
      qed
      have "?pl2 \<noteq> Tree_root" by (cases "(Left_of n, d)" rule: place.cases) auto
      then show "avl_root st' = avl_root (write_place ?pl (Some m) st)" by (simp add: st' moved_up_def Let_def write_place_root)
    qed (simp_all add: st' moved_up_def Let_def write_place_other)
    then have "cok st' Tree_root k c = cok st Tree_root k c" for k by (rule cok_changed) (use mn dd(2) in auto)
    moreover have "read_place ?pl st' = Some m" by (simp add: st' moved_up_def Let_def write_place_other)
    ultimately show ?thesis using a(2) m' rs(1) by simp
  qed
  ultimately show "cok st' Tree_root ?h (d @ In_left m r # c)" using a(1) by (simp add: cok_append)
  have "read_place (place (Left_of m) d) st' = avl_left (avl_nodes st m)"
  proof (cases "d = []")
    case False
    then obtain x where x: "x \<in> set (cnodes d)" "?pl2 = Left_of x \<or> ?pl2 = Right_of x" by (cases "(Left_of n, d)" rule: place.cases) auto
    then have "avl_nodes st' x = avl_nodes ?st1 x" using node [of x] mn by blast
    then have "read_place ?pl2 st' = read_place ?pl2 ?st1" using x(2) by auto
    then show ?thesis using place_base [OF False, of "Left_of m" "Left_of n"] by (simp add: write_place_other)
  qed (use m'(1) in simp)
  then show "rep (avl_nodes st') (read_place (place Tree_root (d @ In_left m r # c)) st') l'" using a(3) rs(2) by (simp add: place_append)
  show "kept (set (inorder (plug (Node l' m Leaf) (d @ In_left n r # c)))) st st'"
    unfolding kept_def
  proof (intro conjI allI impI)
    show "avl_nodes st' x = avl_nodes st x" if "x \<notin> set (inorder (plug (Node l' m Leaf) (d @ In_left n r # c)))" for x
    proof -
      have out: "x \<notin> set (cnodes d) \<union> {m, n}" "x \<notin> set (cnodes c)" using that by (auto simp: plug_append inorder_plug cnodes_set)
      have "avl_nodes ?st1 x = avl_nodes st x" using out own(2) by (intro write_place_nodes) auto
      then show ?thesis using node [of x] out by simp
    qed
  qed (simp_all add: st' moved_up_def Let_def write_place_other)
  show "avl_ok l'" by (rule a(4))
qed

lemma lwp_avl_remove_ok:
  assumes inv: "avl_inv st t" and n: "n \<in> set (inorder t)" and room: "size t < 65535"
  shows "\<exists>st' t'. lwp_avl_remove n st = Some st' \<and> avl_inv st' t' \<and> set (inorder t') = set (inorder t) - {n} \<and> kept (set (inorder t)) st st'"
proof -
  note d = avl_invD [OF inv]
  have h32: "height t < 32" by (rule avl_height_bound [OF d(2) room])
  have "\<exists>c l r. remove_descend (key_of st n) (place Tree_root []) (stack_of Tree_root []) st =
      Some (Some (place Tree_root c, place Tree_root c # stack_of Tree_root c)) \<and> plug (Node l n r) c = plug t [] \<and> length c < 32"
    by (rule remove_descend_ok) (use d(1,3) n h32 in auto)
  then obtain c l r where c: "remove_descend (key_of st n) Tree_root [] st = Some (Some (place Tree_root c, place Tree_root c # stack_of Tree_root c))"
    "plug (Node l n r) c = t" by auto
  have io: "inorder t = lefts c @ inorder l @ n # inorder r @ rights c" using inorder_plug [of "Node l n r" c] c(2) by simp
  have p: "cok st Tree_root (height (Node l n r)) c" "rep (avl_nodes st) (read_place (place Tree_root c) st) (Node l n r)" "avl_ok (Node l n r)"
    using cok_plug [of st Tree_root "Node l n r" c] c(2) d(1,2) by simp_all
  have len: "length c + height (Node l n r) < 32" using plug_height [of "Node l n r" c] h32 unfolding c(2) by linarith
  show ?thesis
  proof (cases "l = Leaf")
    case True
    let ?st = "write_place (place Tree_root c) (avl_right (avl_nodes st n)) st"
    have dl: "distinct (lefts c @ (n # inorder r) @ rights c)" using d(4) io True by simp
    have apart: "set_tree r \<inter> set (cnodes c) = {}" using dl by (auto simp: cnodes_set)
    have ch: "changed st (place Tree_root c) {} ?st"
      unfolding changed_def by (intro conjI exI [of _ "avl_right (avl_nodes st n)"]) (auto simp: write_place_other)
    then have "cok ?st Tree_root (Suc (height r)) c" using cok_changed [of st c "{}"] cnodes_distinct [OF dl] p(1) True by simp
    moreover have "rep (avl_nodes ?st) (read_place (place Tree_root c) ?st) r"
    proof -
      have "avl_nodes ?st x = avl_nodes st x" if "x \<in> set_tree r" for x
        using apart place_owner [of c] that by (intro write_place_nodes) blast
      from rep_cong [OF this] show ?thesis using p(2) by (simp add: write_place_other)
    qed
    moreover have "sorted_wrt (<) (map (key_of st) (inorder (plug r c)))" using d(3) io True by (simp add: inorder_plug sorted_wrt_append)
    moreover have "kept (set (inorder t)) st ?st"
      by (rule changed_kept [OF ch]) (use place_owner [of c] io in \<open>auto simp: cnodes_set\<close>)
    moreover have "set (inorder (plug r c)) \<subseteq> set (inorder t)" using io by (auto simp: inorder_plug)
    ultimately obtain st' t' where r: "lwp_avl_rebalance (stack_of Tree_root c) ?st = Some st'" "avl_inv st' t'"
      "set (inorder t') = set (inorder (plug r c))" "kept (set (inorder t)) st st'" using rebalanced_inv [of ?st "Suc (height r)" c r "set (inorder t)" st] p(3) by auto
    have "set (inorder (plug r c)) = set (inorder t) - {n}" using dl io True by (auto simp: inorder_plug)
    moreover have "lwp_avl_remove n st = Some st'" using c(1) r(1) p(2) True by (simp add: lwp_avl_remove_def)
    ultimately show ?thesis using r(2-4) by auto
  next
    case False
    let ?c = "In_left n r # c"
    have "\<exists>e l' m. max_descend (place Tree_root ?c) (stack_of Tree_root ?c) st = Some (place Tree_root (e @ ?c), m, stack_of Tree_root (e @ ?c)) \<and>
      plug (Node l' m Leaf) e = l \<and> rights e = []"
      by (rule max_descend_ok) (use p(2) len False in auto)
    then obtain e l' m where e: "max_descend (Left_of n) (place Tree_root c # stack_of Tree_root c) st = Some (place Tree_root (e @ ?c), m, stack_of Tree_root (e @ ?c))"
      "plug (Node l' m Leaf) e = l" "rights e = []" by auto
    have t: "plug (Node l' m Leaf) (e @ ?c) = t" using e(2) c(2) by (simp add: plug_append)
    let ?st = "moved_up n m (place Tree_root (e @ ?c)) (place Tree_root c) st"
    note mv = moved_up_path [of st l' m e n r c, unfolded t, OF d(1,2,4)]
    have il: "inorder l = lefts e @ inorder l' @ [m]" using e(2,3) inorder_plug [of "Node l' m Leaf" e] by simp
    have new: "inorder (plug l' (e @ In_left m r # c)) = lefts c @ inorder l @ inorder r @ rights c"
      using il e(3) by (simp add: plug_append inorder_plug)
    have "sorted_wrt (<) (map (key_of st) (inorder (plug l' (e @ In_left m r # c))))"
      using d(3) unfolding new io by (auto simp: sorted_wrt_append)
    then obtain st' t' where r: "lwp_avl_rebalance (stack_of Tree_root (e @ In_left m r # c)) ?st = Some st'" "avl_inv st' t'"
      "set (inorder t') = set (inorder (plug l' (e @ In_left m r # c)))" "kept (set (inorder t)) st st'"
      using rebalanced_inv [OF mv(1,2,4) _ _ mv(3)] unfolding new io by auto
    have "m \<noteq> n" using d(4) io il by auto
    moreover have "place Tree_root (e @ ?c) \<noteq> Right_of n"
    proof
      assume "place Tree_root (e @ ?c) = Right_of n"
      then have "n \<in> set (cnodes e)" by (cases "(Left_of n, e)" rule: place.cases) (auto simp: place_append)
      then show False using d(4) e(3) unfolding io il cnodes_set by auto
    qed
    ultimately have "(let st1 = write_place (place Tree_root (e @ ?c)) (avl_left (avl_nodes st m)) st;
        st2 = upd_node m (\<lambda>r. r\<lparr>avl_left := avl_left (avl_nodes st1 n)\<rparr>) st1;
        st3 = upd_node m (\<lambda>r. r\<lparr>avl_right := avl_right (avl_nodes st2 n)\<rparr>) st2;
        st4 = upd_node m (\<lambda>r. r\<lparr>avl_height := avl_height (avl_nodes st3 n)\<rparr>) st3
      in write_place (place Tree_root c) (Some m) st4) = ?st" by (rule moved_up_code)
    moreover obtain y where "avl_left (avl_nodes st n) = Some y" using p(2) False by (cases l) auto
    ultimately have "lwp_avl_remove n st = Some st'"
      using c(1) e(1) r(1) len patch_stack_path [of c m e n r] unfolding lwp_avl_remove_def Let_def
      by (simp del: upd_node_fields)
    moreover have "set (inorder t') = set (inorder t) - {n}" using r(3) new d(4) io by auto
    ultimately show ?thesis using r(2,4) by auto
  qed
qed

text \<open>The searches.\<close>

lemma find_rep:
  assumes "rep (avl_nodes st) p t" "sorted_wrt (<) (map (key_of st) (inorder t))"
  shows "lwp_avl_find key p st = Some (find (\<lambda>x. key_of st x = key) (inorder t))"
  using assms
proof (induction t arbitrary: p)
  case Leaf
  then show ?case by (subst lwp_avl_find.simps) simp
next
  case (Node l n r)
  have p: "p = Some n" "rep (avl_nodes st) (avl_left (avl_nodes st n)) l" "rep (avl_nodes st) (avl_right (avl_nodes st n)) r" using Node.prems(1) by auto
  have s: "\<forall>x \<in> set_tree l. key_of st x < key_of st n" "\<forall>x \<in> set_tree r. key_of st n < key_of st x"
    "sorted_wrt (<) (map (key_of st) (inorder l))" "sorted_wrt (<) (map (key_of st) (inorder r))"
    using Node.prems(2) by (auto simp: sorted_wrt_append)
  have none: "find P xs = None" if "\<forall>x \<in> set xs. \<not> P x" for P and xs :: "nat list" using that by (induction xs) auto
  have app: "find P (xs @ ys) = (case find P xs of None \<Rightarrow> find P ys | Some z \<Rightarrow> Some z)" for P and xs ys :: "nat list" by (induction xs) auto
  consider "key = key_of st n" | "key < key_of st n" | "key_of st n < key" by fastforce
  then show ?case
  proof cases
    case 1
    then have "find (\<lambda>x. key_of st x = key) (inorder l) = None" using s(1) by (intro none) auto
    then show ?thesis using 1 p(1) by (subst lwp_avl_find.simps) (simp add: app)
  next
    case 2
    then have "find (\<lambda>x. key_of st x = key) (inorder r) = None" using s(2) by (intro none) auto
    then show ?thesis using 2 p Node.IH(1) [OF p(2) s(3)] by (subst lwp_avl_find.simps) (auto simp: app split: option.splits)
  next
    case 3
    then have "find (\<lambda>x. key_of st x = key) (inorder l) = None" using s(1) by (intro none) auto
    then show ?thesis using 3 p Node.IH(2) [OF p(3) s(4)] by (subst lwp_avl_find.simps) (auto simp: app)
  qed
qed

lemma lwp_avl_find_ok:
  assumes "avl_inv st t"
  shows "n \<in> set (inorder t) \<Longrightarrow> lwp_avl_find (key_of st n) (avl_root st) st = Some (Some n)"
    "key \<notin> key_of st ` set (inorder t) \<Longrightarrow> lwp_avl_find key (avl_root st) st = Some None"
    "lwp_avl_find key (avl_root st) st = Some (Some n) \<Longrightarrow> n \<in> set (inorder t) \<and> key_of st n = key"
proof -
  note d = avl_invD [OF assms]
  note f = find_rep [OF d(1,3)]
  have some: "n \<in> set xs \<and> P n" if "find P xs = Some n" for P xs n using that by (auto simp: find_Some_iff)
  show "lwp_avl_find (key_of st n) (avl_root st) st = Some (Some n)" if n: "n \<in> set (inorder t)"
  proof -
    obtain m where m: "find (\<lambda>x. key_of st x = key_of st n) (inorder t) = Some m"
      using n find_None_iff [of "\<lambda>x. key_of st x = key_of st n" "inorder t"] by (cases "find (\<lambda>x. key_of st x = key_of st n) (inorder t)") auto
    have "m \<in> set (inorder t)" "key_of st m = key_of st n" using some [OF m] by auto
    then have "m = n" using d(5) n by (auto dest: inj_onD)
    then show ?thesis using f m by simp
  qed
  show "lwp_avl_find key (avl_root st) st = Some None" if "key \<notin> key_of st ` set (inorder t)"
    using that f [of key] find_None_iff [of "\<lambda>x. key_of st x = key" "inorder t"] by auto
  show "n \<in> set (inorder t) \<and> key_of st n = key" if "lwp_avl_find key (avl_root st) st = Some (Some n)"
    using that f [of key] some [of "\<lambda>x. key_of st x = key" "inorder t" n] by simp
qed

text \<open>The traversal calls the function on the nodes in the order of their keys until it answers a non-zero value.\<close>

fun visit :: "(nat \<Rightarrow> 'a \<Rightarrow> int \<times> 'a) \<Rightarrow> nat list \<Rightarrow> 'a \<Rightarrow> int \<times> 'a" where
  "visit f [] arg = (0, arg)"
| "visit f (n # ns) arg = (let (ret, arg') = f n arg in if ret \<noteq> 0 then (ret, arg') else visit f ns arg')"

lemma visit_append: "visit f (xs @ ys) arg = (let (ret, arg') = visit f xs arg in if ret \<noteq> 0 then (ret, arg') else visit f ys arg')"
  by (induction xs arbitrary: arg) (auto split: prod.splits)

lemma traversal_rep: "rep (avl_nodes st) p t \<Longrightarrow> lwp_avl_traversal p f arg st = Some (visit f (inorder t) arg)"
proof (induction t arbitrary: p arg)
  case Leaf
  then show ?case by (subst lwp_avl_traversal.simps) simp
next
  case (Node l n r)
  have p: "p = Some n" "rep (avl_nodes st) (avl_left (avl_nodes st n)) l" "rep (avl_nodes st) (avl_right (avl_nodes st n)) r" using Node.prems by auto
  have l: "(if avl_left (avl_nodes st n) \<noteq> None then lwp_avl_traversal (avl_left (avl_nodes st n)) f a st else Some (0, a)) = Some (visit f (inorder l) a)" for a
    using Node.IH(1) [OF p(2)] p(2) by (cases l) auto
  have r: "(if avl_right (avl_nodes st n) \<noteq> None then lwp_avl_traversal (avl_right (avl_nodes st n)) f a st else Some (0, a)) = Some (visit f (inorder r) a)" for a
    using Node.IH(2) [OF p(3)] p(3) by (cases r) auto
  obtain a1 x1 a2 x2 where v: "visit f (inorder l) arg = (x1, a1)" "f n a1 = (x2, a2)" by fastforce
  have "lwp_avl_traversal p f arg st = (if x1 \<noteq> 0 then Some (x1, a1) else if x2 \<noteq> 0 then Some (x2, a2) else Some (visit f (inorder r) a2))"
    unfolding p(1) by (subst lwp_avl_traversal.simps) (simp only: option.case l v, auto simp: v(2) r [symmetric])
  then show ?case using v by (simp add: visit_append)
qed

lemma find_first_rep: "rep (avl_nodes st) p t \<Longrightarrow> lwp_map_find_first p st = Some (case inorder t of [] \<Rightarrow> None | n # _ \<Rightarrow> Some n)"
proof -
  have "find_first_loop n st = Some (hd (inorder t))" if "rep (avl_nodes st) (Some n) t" for n t
    using that
  proof (induction t arbitrary: n)
    case (Node l m r)
    then show ?case
    proof (cases l)
      case Leaf
      then show ?thesis using Node.prems by (subst find_first_loop.simps) simp
    next
      case (Node ll k lr)
      then show ?thesis using Node.IH(1) [of k] Node.prems by (subst find_first_loop.simps) (auto simp: hd_append)
    qed
  qed simp
  note loop = this
  show "lwp_map_find_first p st = Some (case inorder t of [] \<Rightarrow> None | n # _ \<Rightarrow> Some n)" if "rep (avl_nodes st) p t"
  proof (cases t)
    case (Node l n r)
    then have "p = Some n" using that by simp
    moreover have "inorder t = hd (inorder t) # tl (inorder t)" using Node by simp
    ultimately show ?thesis using loop [of n t] that by (simp add: lwp_map_find_first_def) (metis list.simps(5))
  qed (use that in \<open>simp add: lwp_map_find_first_def\<close>)
qed

section \<open>Sequences of calls\<close>

datatype 'k index_call = Insert_node nat | Remove_node nat | Find_key 'k

fun run_index :: "(nat \<Rightarrow> 's \<Rightarrow> 's option) \<Rightarrow> (nat \<Rightarrow> 's \<Rightarrow> 's option) \<Rightarrow> ('k \<Rightarrow> 's \<Rightarrow> nat option option) \<Rightarrow> 'k index_call list \<Rightarrow> 's \<Rightarrow> (nat set list \<times> 's) option" where
  "run_index ins del look [] s = Some ([], s)"
| "run_index ins del look (Insert_node n # cs) s = do { s1 \<leftarrow> ins n s; run_index ins del look cs s1 }"
| "run_index ins del look (Remove_node n # cs) s = do { s1 \<leftarrow> del n s; run_index ins del look cs s1 }"
| "run_index ins del look (Find_key k # cs) s = do {
     r \<leftarrow> look k s;
     (rs, s1) \<leftarrow> run_index ins del look cs s;
     Some (set_option r # rs, s1)
   }"

text \<open>The abstract index: a set of nodes, searched by key.\<close>

fun index_nodes :: "'k index_call list \<Rightarrow> nat set \<Rightarrow> nat set" where
  "index_nodes [] N = N"
| "index_nodes (Insert_node n # cs) N = index_nodes cs (insert n N)"
| "index_nodes (Remove_node n # cs) N = index_nodes cs (N - {n})"
| "index_nodes (Find_key k # cs) N = index_nodes cs N"

fun index_answers :: "(nat \<Rightarrow> 'k) \<Rightarrow> 'k index_call list \<Rightarrow> nat set \<Rightarrow> nat set list" where
  "index_answers key [] N = []"
| "index_answers key (Insert_node n # cs) N = index_answers key cs (insert n N)"
| "index_answers key (Remove_node n # cs) N = index_answers key cs (N - {n})"
| "index_answers key (Find_key k # cs) N = {x \<in> N. key x = k} # index_answers key cs N"

fun index_calls_ok :: "(nat \<Rightarrow> 'k) \<Rightarrow> nat \<Rightarrow> 'k index_call list \<Rightarrow> nat set \<Rightarrow> bool" where
  "index_calls_ok key cap [] N \<longleftrightarrow> True"
| "index_calls_ok key cap (Insert_node n # cs) N \<longleftrightarrow> n \<notin> N \<and> (\<forall>x \<in> N. key x \<noteq> key n) \<and> card N < cap \<and> index_calls_ok key cap cs (insert n N)"
| "index_calls_ok key cap (Remove_node n # cs) N \<longleftrightarrow> n \<in> N \<and> card N < cap \<and> index_calls_ok key cap cs (N - {n})"
| "index_calls_ok key cap (Find_key k # cs) N \<longleftrightarrow> index_calls_ok key cap cs N"

section \<open>The tree as an index\<close>

text \<open>
  What the users of an index rely on: a set of nodes with different keys, insertion and removal of a node,
  and the search for a key.  Nodes outside of the set are left alone, and a node keeps its key and data.
\<close>

locale keyed_index =
  fixes holds :: "'s \<Rightarrow> nat set \<Rightarrow> bool"
    and node :: "'s \<Rightarrow> nat \<Rightarrow> 'r"
    and label :: "'r \<Rightarrow> 'k \<times> 'v"
    and ins :: "nat \<Rightarrow> 's \<Rightarrow> 's option"
    and del :: "nat \<Rightarrow> 's \<Rightarrow> 's option"
    and look :: "'k \<Rightarrow> 's \<Rightarrow> nat option option"
    and cap :: nat
  assumes holds_finite: "holds s N \<Longrightarrow> finite N"
    and ins_law: "holds s N \<Longrightarrow> n \<notin> N \<Longrightarrow> \<forall>x \<in> N. fst (label (node s x)) \<noteq> fst (label (node s n)) \<Longrightarrow> card N < cap \<Longrightarrow>
      \<exists>s'. ins n s = Some s' \<and> holds s' (insert n N) \<and> (\<forall>x. label (node s' x) = label (node s x)) \<and> (\<forall>x. x \<notin> insert n N \<longrightarrow> node s' x = node s x)"
    and del_law: "holds s N \<Longrightarrow> n \<in> N \<Longrightarrow> card N < cap \<Longrightarrow>
      \<exists>s'. del n s = Some s' \<and> holds s' (N - {n}) \<and> (\<forall>x. label (node s' x) = label (node s x)) \<and> (\<forall>x. x \<notin> N \<longrightarrow> node s' x = node s x)"
    and look_found: "holds s N \<Longrightarrow> n \<in> N \<Longrightarrow> look (fst (label (node s n))) s = Some (Some n)"
    and look_none: "holds s N \<Longrightarrow> \<forall>x \<in> N. fst (label (node s x)) \<noteq> k \<Longrightarrow> look k s = Some None"
begin

lemma look_cases:
  assumes "holds s N"
  shows "\<exists>r. look k s = Some r \<and> (case r of None \<Rightarrow> \<forall>x \<in> N. fst (label (node s x)) \<noteq> k | Some n \<Rightarrow> n \<in> N \<and> fst (label (node s n)) = k)"
proof (cases "\<exists>n \<in> N. fst (label (node s n)) = k")
  case True
  then obtain n where "n \<in> N" "fst (label (node s n)) = k" by blast
  then show ?thesis using look_found [OF assms, of n] by auto
next
  case False
  then show ?thesis using look_none [OF assms, of k] by auto
qed

lemma key_inj:
  assumes "holds s N" "n \<in> N" "m \<in> N" "fst (label (node s n)) = fst (label (node s m))"
  shows "n = m"
proof -
  have "Some (Some n) = look (fst (label (node s n))) s" by (rule look_found [OF assms(1,2), symmetric])
  also have "\<dots> = Some (Some m)" unfolding assms(4) by (rule look_found [OF assms(1,3)])
  finally show ?thesis by simp
qed

text \<open>Any sequence of calls: a node is inserted when it and its key are new, removed when it is there.\<close>

lemma run_index_ok:
  assumes "holds s N" "index_calls_ok (\<lambda>x. fst (label (node s x))) cap cs N"
  shows "\<exists>s'. run_index ins del look cs s = Some (index_answers (\<lambda>x. fst (label (node s x))) cs N, s') \<and>
    holds s' (index_nodes cs N) \<and> (\<forall>x. label (node s' x) = label (node s x))"
  using assms
proof (induction cs arbitrary: s N)
  case (Cons c cs)
  let ?key = "\<lambda>x. fst (label (node s x))"
  show ?case
  proof (cases c)
    case (Insert_node n)
    then obtain s1 where s1: "ins n s = Some s1" "holds s1 (insert n N)" "\<forall>x. label (node s1 x) = label (node s x)"
      using ins_law [OF Cons.prems(1), of n] Cons.prems(2) by auto
    then show ?thesis using Cons.IH [OF s1(2)] Cons.prems(2) Insert_node by auto
  next
    case (Remove_node n)
    then obtain s1 where s1: "del n s = Some s1" "holds s1 (N - {n})" "\<forall>x. label (node s1 x) = label (node s x)"
      using del_law [OF Cons.prems(1), of n] Cons.prems(2) by auto
    then show ?thesis using Cons.IH [OF s1(2)] Cons.prems(2) Remove_node by auto
  next
    case (Find_key k)
    obtain s' where s': "run_index ins del look cs s = Some (index_answers ?key cs N, s')" "holds s' (index_nodes cs N)" "\<forall>x. label (node s' x) = label (node s x)"
      using Cons.IH [OF Cons.prems(1)] Cons.prems(2) Find_key by auto
    obtain r where r: "look k s = Some r" "case r of None \<Rightarrow> \<forall>x \<in> N. ?key x \<noteq> k | Some n \<Rightarrow> n \<in> N \<and> ?key n = k"
      using look_cases [OF Cons.prems(1)] by blast
    have "{x \<in> N. ?key x = k} = set_option r" using r(2) key_inj [OF Cons.prems(1)] by (auto split: option.splits)
    then show ?thesis using s' r(1) Find_key by simp
  qed
qed simp

end

definition avl_holds :: "avl_state \<Rightarrow> nat set \<Rightarrow> bool" where
  "avl_holds st N \<longleftrightarrow> (\<exists>t. avl_inv st t \<and> set (inorder t) = N)"

definition avl_label :: "lwp_avl_struct \<Rightarrow> 64 word \<times> nat option" where
  "avl_label r = (avl_key r, avl_data r)"

lemma avl_size_card: "avl_inv st t \<Longrightarrow> size t = card (set (inorder t))"
  using avl_invD(4) [of st t] distinct_card [of "inorder t"] by simp

interpretation avl: keyed_index avl_holds avl_nodes avl_label lwp_avl_insert lwp_avl_remove "\<lambda>k st. lwp_avl_find k (avl_root st) st" 65535
proof
  fix s N
  assume "avl_holds s N"
  then obtain t where t: "avl_inv s t" "set (inorder t) = N" unfolding avl_holds_def by blast
  have size: "card N < 65535 \<Longrightarrow> size t < 65535" using avl_size_card [OF t(1)] t(2) by simp
  show "finite N" using t(2) by auto
  show "\<exists>s'. lwp_avl_insert n s = Some s' \<and> avl_holds s' (insert n N) \<and> (\<forall>x. avl_label (avl_nodes s' x) = avl_label (avl_nodes s x)) \<and>
      (\<forall>x. x \<notin> insert n N \<longrightarrow> avl_nodes s' x = avl_nodes s x)"
    if a: "n \<notin> N" "\<forall>x \<in> N. fst (avl_label (avl_nodes s x)) \<noteq> fst (avl_label (avl_nodes s n))" "card N < 65535" for n
  proof -
    have k: "n \<notin> set (inorder t)" "key_of s n \<notin> key_of s ` set (inorder t)" using a(1,2) t(2) by (auto simp: avl_label_def)
    obtain s' t' where "lwp_avl_insert n s = Some s'" "avl_inv s' t'" "set (inorder t') = insert n N" "kept (insert n N) s s'"
      using lwp_avl_insert_ok [OF t(1) k size [OF a(3)]] t(2) by auto
    then show ?thesis by (auto simp: avl_holds_def kept_def avl_label_def)
  qed
  show "\<exists>s'. lwp_avl_remove n s = Some s' \<and> avl_holds s' (N - {n}) \<and> (\<forall>x. avl_label (avl_nodes s' x) = avl_label (avl_nodes s x)) \<and>
      (\<forall>x. x \<notin> N \<longrightarrow> avl_nodes s' x = avl_nodes s x)"
    if a: "n \<in> N" "card N < 65535" for n
  proof -
    have "n \<in> set (inorder t)" using a(1) t(2) by simp
    from lwp_avl_remove_ok [OF t(1) this size [OF a(2)]] obtain s' t' where "lwp_avl_remove n s = Some s'" "avl_inv s' t'"
      "set (inorder t') = N - {n}" "kept N s s'" using t(2) by auto
    then show ?thesis by (auto simp: avl_holds_def kept_def avl_label_def)
  qed
  show "lwp_avl_find (fst (avl_label (avl_nodes s n))) (avl_root s) s = Some (Some n)" if "n \<in> N" for n
    using lwp_avl_find_ok(1) [OF t(1), of n] that t(2) by (simp add: avl_label_def)
  show "lwp_avl_find k (avl_root s) s = Some None" if "\<forall>x \<in> N. fst (avl_label (avl_nodes s x)) \<noteq> k" for k
    using lwp_avl_find_ok(2) [OF t(1), of k] that t(2) by (auto simp: avl_label_def)
qed

section \<open>Properties\<close>

text \<open>
  C30: the balanced tree is a finite map.  Starting from any consistent tree, every sequence of
  \<^verbatim>\<open>lwp_avl_insert\<close> of nodes with new keys, \<^verbatim>\<open>lwp_avl_remove\<close> of nodes in the tree and \<^verbatim>\<open>lwp_avl_find\<close>, with fewer
  than 65535 nodes, returns without a push beyond the stack of 32 entries; each search finds exactly
  the node with that key among the nodes inserted and not removed, and at the end the heap holds a tree
  of these nodes with correct heights, in which the subtrees of a node differ in height by at most one
  and the keys increase from left to right; \<^verbatim>\<open>lwp_avl_traversal\<close> visits the nodes in that order.
\<close>

theorem avl_is_a_map:
  assumes "avl_inv st t" "index_calls_ok (key_of st) 65535 cs (set (inorder t))"
  shows "\<exists>st' t'. run_index lwp_avl_insert lwp_avl_remove (\<lambda>k st. lwp_avl_find k (avl_root st) st) cs st =
      Some (index_answers (key_of st) cs (set (inorder t)), st') \<and>
    avl_inv st' t' \<and> set (inorder t') = index_nodes cs (set (inorder t)) \<and>
    (\<forall>f arg. lwp_avl_traversal (avl_root st') f arg st' = Some (visit f (inorder t') arg)) \<and>
    lwp_map_find_first (avl_root st') st' = Some (case inorder t' of [] \<Rightarrow> None | n # _ \<Rightarrow> Some n)"
proof -
  have "avl_holds st (set (inorder t))" using assms(1) by (auto simp: avl_holds_def)
  from avl.run_index_ok [OF this, of cs] assms(2) obtain st' where
    r: "run_index lwp_avl_insert lwp_avl_remove (\<lambda>k st. lwp_avl_find k (avl_root st) st) cs st = Some (index_answers (key_of st) cs (set (inorder t)), st')"
    "avl_holds st' (index_nodes cs (set (inorder t)))" by (auto simp: avl_label_def)
  then obtain t' where t': "avl_inv st' t'" "set (inorder t') = index_nodes cs (set (inorder t))" unfolding avl_holds_def by blast
  then show ?thesis using r(1) traversal_rep [OF avl_invD(1) [OF t'(1)]] find_first_rep [OF avl_invD(1) [OF t'(1)]] by blast
qed

text \<open>Nodes whose key is their name, and an empty tree.\<close>

definition sample_tree :: avl_state where
  "sample_tree = \<lparr>avl_nodes = (\<lambda>n. \<lparr>avl_left = None, avl_right = None, avl_height = 0, avl_key = of_nat n, avl_data = None\<rparr>), avl_root = None\<rparr>"

lemma sample_tree_inv: "avl_inv sample_tree Leaf"
  by (simp add: avl_inv_def sample_tree_def)

theorem avl_is_a_map_witness:
  "\<exists>st' t'. run_index lwp_avl_insert lwp_avl_remove (\<lambda>k st. lwp_avl_find k (avl_root st) st)
      [Insert_node 1, Insert_node 2, Insert_node 3, Find_key 2, Remove_node 2, Find_key 2] sample_tree = Some ([{2}, {}], st') \<and>
    avl_inv st' t' \<and> set (inorder t') = {1, 3}"
proof -
  let ?cs = "[Insert_node 1, Insert_node 2, Insert_node 3, Find_key 2, Remove_node 2, Find_key 2] :: 64 word index_call list"
  have key: "key_of sample_tree = of_nat" by (auto simp: sample_tree_def)
  have e: "index_answers (key_of sample_tree) ?cs (set (inorder Leaf)) = [{2}, {}]" "index_nodes ?cs (set (inorder Leaf)) = {1, 3}"
    unfolding key by auto
  have "index_calls_ok (key_of sample_tree) 65535 ?cs (set (inorder Leaf))" unfolding key by simp
  from avl_is_a_map [OF sample_tree_inv this] show ?thesis unfolding e by blast
qed

end
