(* ===== verification/LwpId.thy ===== *)
theory LwpId
  imports Avl
begin

text \<open>
  The numbers of threads and processes of RT-Smart (\<^verbatim>\<open>components/lwp/lwp_tid.c\<close> and the first functions of
  \<^verbatim>\<open>components/lwp/lwp_pid.c\<close>).  Both files have the same table: an array of nodes, a list of free nodes linked
  through their right pointers, the balanced tree of the nodes in use, and the number given out last.
  A node is named by its index in the array.
\<close>

section \<open>State and operations\<close>

record id_table =
  id_tree :: avl_state
  id_free_head :: "nat option"
  id_alloced :: nat
  current_id :: int

abbreviation (input) TID_MAX :: int where "TID_MAX \<equiv> 10000"
abbreviation (input) LWP_TID_MAX_NR :: nat where "LWP_TID_MAX_NR \<equiv> 64"
abbreviation (input) RT_LWP_MAX_NR :: nat where "RT_LWP_MAX_NR \<equiv> 30"

text \<open>The loops that look for a number that is not in use, from \<open>tid\<close> up to but not including \<open>stop\<close>.\<close>

function scan_ids :: "int \<Rightarrow> int \<Rightarrow> avl_state \<Rightarrow> (int \<times> bool) option" where
  "scan_ids tid stop st =
    (if tid < stop
     then do {
       r \<leftarrow> lwp_avl_find (word_of_int tid) (avl_root st) st;
       if r = None then Some (tid, True) else scan_ids (tid + 1) stop st
     }
     else Some (tid, False))"
  by pat_completeness auto
termination by (relation "measure (\<lambda>(tid, stop, _). nat (stop - tid))") auto

declare scan_ids.simps [simp del]

definition take_node :: "nat \<Rightarrow> id_table \<Rightarrow> nat option \<times> id_table" where
  "take_node max_nr T =
    (case id_free_head T of
       Some p \<Rightarrow> (Some p, T\<lparr>id_free_head := avl_right (avl_nodes (id_tree T) p)\<rparr>)
     | None \<Rightarrow> if id_alloced T < max_nr then (Some (id_alloced T), T\<lparr>id_alloced := id_alloced T + 1\<rparr>) else (None, T))"

definition id_get :: "nat \<Rightarrow> id_table \<Rightarrow> (int \<times> id_table) option" where
  "id_get max_nr T =
    (case take_node max_nr T of
       (None, T1) \<Rightarrow> Some (0, T1)
     | (Some p, T1) \<Rightarrow> do {
         rt_assert (avl_data (avl_nodes (id_tree T1) p) = None);
         (tid, found_noused) \<leftarrow> scan_ids (current_id T1 + 1) TID_MAX (id_tree T1);
         (tid', _) \<leftarrow> (if found_noused then Some (tid, True) else scan_ids 1 (current_id T1 + 1) (id_tree T1));
         tree \<leftarrow> lwp_avl_insert p (upd_node p (\<lambda>r. r\<lparr>avl_key := word_of_int tid'\<rparr>) (id_tree T1));
         Some (tid', T1\<lparr>id_tree := tree, current_id := tid'\<rparr>)
       })"

definition id_put :: "int \<Rightarrow> id_table \<Rightarrow> id_table option" where
  "id_put tid T = do {
     r \<leftarrow> lwp_avl_find (word_of_int tid) (avl_root (id_tree T)) (id_tree T);
     case r of
       None \<Rightarrow> Some T
     | Some p \<Rightarrow> do {
         tree \<leftarrow> lwp_avl_remove p (upd_node p (\<lambda>r. r\<lparr>avl_data := None\<rparr>) (id_tree T));
         Some (T\<lparr>id_tree := upd_node p (\<lambda>r. r\<lparr>avl_right := id_free_head T\<rparr>) tree, id_free_head := Some p\<rparr>)
       }
   }"

definition id_lookup :: "int \<Rightarrow> id_table \<Rightarrow> nat option option" where
  "id_lookup tid T = do {
     r \<leftarrow> lwp_avl_find (word_of_int tid) (avl_root (id_tree T)) (id_tree T);
     Some (case r of None \<Rightarrow> None | Some p \<Rightarrow> avl_data (avl_nodes (id_tree T) p))
   }"

definition id_set :: "int \<Rightarrow> nat option \<Rightarrow> id_table \<Rightarrow> id_table option" where
  "id_set tid v T = do {
     r \<leftarrow> lwp_avl_find (word_of_int tid) (avl_root (id_tree T)) (id_tree T);
     Some (case r of None \<Rightarrow> T | Some p \<Rightarrow> T\<lparr>id_tree := upd_node p (\<lambda>r. r\<lparr>avl_data := v\<rparr>) (id_tree T)\<rparr>)
   }"

definition lwp_tid_get :: "id_table \<Rightarrow> (int \<times> id_table) option" where
  "lwp_tid_get T = id_get LWP_TID_MAX_NR T"

definition lwp_tid_put :: "int \<Rightarrow> id_table \<Rightarrow> id_table option" where
  "lwp_tid_put tid T = id_put tid T"

definition lwp_tid_get_thread :: "int \<Rightarrow> id_table \<Rightarrow> nat option option" where
  "lwp_tid_get_thread tid T = id_lookup tid T"

definition lwp_tid_set_thread :: "int \<Rightarrow> nat option \<Rightarrow> id_table \<Rightarrow> id_table option" where
  "lwp_tid_set_thread tid thread T = id_set tid thread T"

definition lwp_pid_get :: "id_table \<Rightarrow> (int \<times> id_table) option" where
  "lwp_pid_get T = id_get RT_LWP_MAX_NR T"

definition lwp_pid_put :: "int \<Rightarrow> id_table \<Rightarrow> id_table option" where
  "lwp_pid_put pid T = (if pid = 0 then Some T else id_put pid T)"

definition lwp_pid_set_lwp :: "int \<Rightarrow> nat option \<Rightarrow> id_table \<Rightarrow> id_table option" where
  "lwp_pid_set_lwp pid lwp T = id_set pid lwp T"

definition lwp_from_pid :: "int \<Rightarrow> id_table \<Rightarrow> nat option option" where
  "lwp_from_pid pid T = id_lookup pid T"

section \<open>The invariant\<close>

fun free_nodes :: "(nat \<Rightarrow> lwp_avl_struct) \<Rightarrow> nat option \<Rightarrow> nat list \<Rightarrow> bool" where
  "free_nodes f p [] \<longleftrightarrow> p = None"
| "free_nodes f p (x # xs) \<longleftrightarrow> p = Some x \<and> free_nodes f (avl_right (f x)) xs"

text \<open>
  \<open>id_ok max_nr T N F\<close>: the tree has the nodes \<open>N\<close>, the list of free nodes is \<open>F\<close>; together they are the nodes
  handed out so far.  The numbers in use are between 1 and 9999, and nodes that are not in use have no data.
\<close>

definition id_ok :: "nat \<Rightarrow> id_table \<Rightarrow> nat set \<Rightarrow> nat list \<Rightarrow> bool" where
  "id_ok max_nr T N F \<longleftrightarrow> avl_holds (id_tree T) N \<and> free_nodes (avl_nodes (id_tree T)) (id_free_head T) F \<and> distinct F \<and> set F \<inter> N = {} \<and>
     set F \<union> N = {..<id_alloced T} \<and> id_alloced T \<le> max_nr \<and> (\<forall>x. x \<notin> N \<longrightarrow> avl_data (avl_nodes (id_tree T) x) = None) \<and>
     (\<forall>x \<in> N. \<exists>i. 1 \<le> i \<and> i < TID_MAX \<and> key_of (id_tree T) x = word_of_int i) \<and> 0 \<le> current_id T \<and> current_id T < TID_MAX"

text \<open>The table as its users see it: the numbers in use, each with its thread or process.\<close>

definition entries :: "avl_state \<Rightarrow> nat set \<Rightarrow> (int \<times> nat option) set" where
  "entries st N = (\<lambda>x. (uint (key_of st x), avl_data (avl_nodes st x))) ` N"

lemma entries_insert: "entries st (insert p N) = insert (uint (key_of st p), avl_data (avl_nodes st p)) (entries st N)"
  by (simp add: entries_def)

lemma entriesI: "x \<in> N \<Longrightarrow> (uint (key_of st x), avl_data (avl_nodes st x)) \<in> entries st N"
  by (simp add: entries_def)

lemma entriesE:
  assumes "(i, v) \<in> entries st N"
  obtains x where "x \<in> N" "i = uint (key_of st x)" "v = avl_data (avl_nodes st x)"
  using assms by (auto simp: entries_def)

lemma entries_cong:
  assumes "\<And>x. x \<in> N \<Longrightarrow> key_of st' x = key_of st x \<and> avl_data (avl_nodes st' x) = avl_data (avl_nodes st x)"
  shows "entries st' N = entries st N"
  unfolding entries_def by (rule image_cong) (use assms in auto)

lemma id_okD:
  assumes "id_ok max_nr T N F"
  shows "avl_holds (id_tree T) N" "free_nodes (avl_nodes (id_tree T)) (id_free_head T) F" "distinct F" "set F \<inter> N = {}" "set F \<union> N = {..<id_alloced T}"
    "id_alloced T \<le> max_nr" "x \<notin> N \<Longrightarrow> avl_data (avl_nodes (id_tree T) x) = None"
    "x \<in> N \<Longrightarrow> 1 \<le> uint (key_of (id_tree T) x) \<and> uint (key_of (id_tree T) x) < TID_MAX" "0 \<le> current_id T" "current_id T < TID_MAX" "finite N" "card N + length F = id_alloced T"
proof -
  show a: "avl_holds (id_tree T) N" "free_nodes (avl_nodes (id_tree T)) (id_free_head T) F" "distinct F" "set F \<inter> N = {}" "set F \<union> N = {..<id_alloced T}"
    "id_alloced T \<le> max_nr" "x \<notin> N \<Longrightarrow> avl_data (avl_nodes (id_tree T) x) = None" "0 \<le> current_id T" "current_id T < TID_MAX"
    using assms by (simp_all add: id_ok_def)
  have "uint (word_of_int i :: 64 word) = i" if "1 \<le> i" "i < 10000" for i using that by (simp add: uint_word_of_int take_bit_int_eq_self)
  then show "x \<in> N \<Longrightarrow> 1 \<le> uint (key_of (id_tree T) x) \<and> uint (key_of (id_tree T) x) < TID_MAX"
    using assms unfolding id_ok_def by force
  have "finite (set F \<union> N)" using a(5) by simp
  then show fin: "finite N" by simp
  have "card (set F \<union> N) = card (set F) + card N" using a(4) fin by (intro card_Un_disjoint) auto
  then show "card N + length F = id_alloced T" using a(3,5) by (simp add: distinct_card)
qed

definition c_int :: "int \<Rightarrow> bool" where
  "c_int i \<longleftrightarrow> - (2 ^ 31) \<le> i \<and> i < 2 ^ 31"

lemma c_int_key:
  fixes w :: "64 word"
  assumes "c_int i" "1 \<le> uint w" "uint w < TID_MAX"
  shows "w = word_of_int i \<longleftrightarrow> uint w = i"
proof -
  have "uint (word_of_int i :: 64 word) = i mod 2 ^ 64" by (simp add: uint_word_of_int take_bit_eq_mod)
  also have "\<dots> = (if i < 0 then i + 2 ^ 64 else i)"
  proof (cases "i < 0")
    case True
    have "(i + 2 ^ 64) mod 2 ^ 64 = i + 2 ^ 64" using True assms(1) by (intro mod_pos_pos_trivial) (auto simp: c_int_def)
    then show ?thesis using True by simp
  qed (use assms(1) in \<open>simp add: c_int_def\<close>)
  finally show ?thesis using assms by (auto simp: word_uint_eq_iff c_int_def split: if_splits)
qed

lemma id_find:
  assumes "id_ok max_nr T N F" "c_int i"
  shows "\<exists>r. lwp_avl_find (word_of_int i) (avl_root (id_tree T)) (id_tree T) = Some r \<and>
    (case r of None \<Rightarrow> i \<notin> fst ` entries (id_tree T) N | Some p \<Rightarrow> p \<in> N \<and> uint (key_of (id_tree T) p) = i)"
proof -
  obtain r where r: "lwp_avl_find (word_of_int i) (avl_root (id_tree T)) (id_tree T) = Some r"
    "case r of None \<Rightarrow> \<forall>x \<in> N. key_of (id_tree T) x \<noteq> word_of_int i | Some n \<Rightarrow> n \<in> N \<and> key_of (id_tree T) n = word_of_int i"
    using avl.look_cases [OF id_okD(1) [OF assms(1)], of "word_of_int i"] unfolding avl_label_def fst_conv by blast
  have "key_of (id_tree T) x = word_of_int i \<longleftrightarrow> uint (key_of (id_tree T) x) = i" if "x \<in> N" for x
    using c_int_key [OF assms(2)] id_okD(8) [OF assms(1) that] by blast
  then show ?thesis using r by (intro exI [of _ r]) (auto simp: entries_def image_image split: option.splits)
qed

lemma scan_ids_ok:
  assumes ok: "id_ok max_nr T N F" and a: "0 \<le> a" "a \<le> stop" "stop \<le> TID_MAX"
  shows "\<exists>i found. scan_ids a stop (id_tree T) = Some (i, found) \<and> {a..<i} \<subseteq> fst ` entries (id_tree T) N \<and>
    (if found then a \<le> i \<and> i < stop \<and> i \<notin> fst ` entries (id_tree T) N else i = stop)"
  using a
proof (induction a stop "id_tree T" rule: scan_ids.induct)
  case (1 a stop)
  show ?case
  proof (cases "a < stop")
    case True
    have "c_int a" using 1 by (simp add: c_int_def)
    from id_find [OF ok this] obtain r where r: "lwp_avl_find (word_of_int a) (avl_root (id_tree T)) (id_tree T) = Some r"
      "case r of None \<Rightarrow> a \<notin> fst ` entries (id_tree T) N | Some p \<Rightarrow> p \<in> N \<and> uint (key_of (id_tree T) p) = a" by blast
    show ?thesis
    proof (cases r)
      case None
      then show ?thesis using r True by (intro exI [of _ a] exI [of _ True]) (simp add: scan_ids.simps [of a])
    next
      case (Some p)
      then have used: "a \<in> fst ` entries (id_tree T) N" using r(2) by (force simp: entries_def image_image)
      obtain i found where i: "scan_ids (a + 1) stop (id_tree T) = Some (i, found)" "{a + 1..<i} \<subseteq> fst ` entries (id_tree T) N"
        "if found then a + 1 \<le> i \<and> i < stop \<and> i \<notin> fst ` entries (id_tree T) N else i = stop"
        using "1.hyps" [OF True, of r] r(1) Some 1(2-4) True by auto
      have "{a..<i} \<subseteq> insert a {a + 1..<i}" by auto
      then have "{a..<i} \<subseteq> fst ` entries (id_tree T) N" using i(2) used by blast
      then show ?thesis using i r(1) Some True by (intro exI [of _ i] exI [of _ found]) (auto simp: scan_ids.simps [of a])
    qed
  next
    case False
    then have "a = stop" using 1(3) by simp
    then have "scan_ids a stop (id_tree T) = Some (stop, False)" by (simp add: scan_ids.simps [of stop])
    then show ?thesis using False by (intro exI [of _ stop] exI [of _ False]) simp
  qed
qed

text \<open>A tree whose nodes have the same links is the same tree, whatever the data.\<close>

lemma avl_holds_cong:
  assumes "avl_holds st N" "avl_root st' = avl_root st"
    "\<And>x. x \<in> N \<Longrightarrow> avl_left (avl_nodes st' x) = avl_left (avl_nodes st x) \<and> avl_right (avl_nodes st' x) = avl_right (avl_nodes st x) \<and>
      avl_height (avl_nodes st' x) = avl_height (avl_nodes st x) \<and> key_of st' x = key_of st x"
  shows "avl_holds st' N"
proof -
  obtain t where t: "avl_inv st t" "set (inorder t) = N" using assms(1) unfolding avl_holds_def by blast
  have "rep (avl_nodes st') p u = rep (avl_nodes st) p u" if "set_tree u \<subseteq> N" for p u
    using that by (induction u arbitrary: p) (use assms(3) in auto)
  then have "rep (avl_nodes st') (avl_root st') t" using avl_invD(1) [OF t(1)] t(2) assms(2) by simp
  moreover have e: "map (key_of st') (inorder t) = map (key_of st) (inorder t)" using assms(3) t(2) by simp
  ultimately have "avl_inv st' t" using t(1) unfolding avl_inv_def e by blast
  then show ?thesis using t(2) unfolding avl_holds_def by blast
qed

lemma free_nodes_cong: "(\<And>x. x \<in> set F \<Longrightarrow> avl_right (f' x) = avl_right (f x)) \<Longrightarrow> free_nodes f' p F = free_nodes f p F"
  by (induction F arbitrary: p) auto

lemma take_node_ok:
  assumes ok: "id_ok max_nr T N F"
  shows "card N = max_nr \<Longrightarrow> take_node max_nr T = (None, T)"
    "card N \<noteq> max_nr \<Longrightarrow> \<exists>p T' F'. take_node max_nr T = (Some p, T') \<and> p \<notin> N \<and> p \<notin> set F' \<and> id_tree T' = id_tree T \<and> current_id T' = current_id T \<and>
      free_nodes (avl_nodes (id_tree T)) (id_free_head T') F' \<and> distinct F' \<and> set F' \<inter> N = {} \<and> insert p (set F' \<union> N) = {..<id_alloced T'} \<and> id_alloced T' \<le> max_nr"
proof -
  note d = id_okD [OF ok]
  show "take_node max_nr T = (None, T)" if "card N = max_nr"
  proof -
    have "length F = 0" "id_alloced T = max_nr" using d(6,12) that by linarith+
    then show ?thesis using d(2) by (simp add: take_node_def)
  qed
  show "\<exists>p T' F'. take_node max_nr T = (Some p, T') \<and> p \<notin> N \<and> p \<notin> set F' \<and> id_tree T' = id_tree T \<and> current_id T' = current_id T \<and>
      free_nodes (avl_nodes (id_tree T)) (id_free_head T') F' \<and> distinct F' \<and> set F' \<inter> N = {} \<and> insert p (set F' \<union> N) = {..<id_alloced T'} \<and> id_alloced T' \<le> max_nr"
    if ne: "card N \<noteq> max_nr"
  proof (cases F)
    case (Cons p F')
    let ?T = "T\<lparr>id_free_head := avl_right (avl_nodes (id_tree T) p)\<rparr>"
    have "take_node max_nr T = (Some p, ?T)" using d(2) Cons by (simp add: take_node_def)
    then show ?thesis using d(2-6) Cons by (intro exI [of _ p] exI [of _ ?T] exI [of _ F']) auto
  next
    case Nil
    then have lt: "id_alloced T < max_nr" "N = {..<id_alloced T}" "id_free_head T = None" using d(2,5,6,12) ne by auto
    let ?T = "T\<lparr>id_alloced := id_alloced T + 1\<rparr>"
    have "take_node max_nr T = (Some (id_alloced T), ?T)" using lt by (simp add: take_node_def)
    then show ?thesis using lt by (intro exI [of _ "id_alloced T"] exI [of _ ?T] exI [of _ "[]"]) auto
  qed
qed

definition next_unused :: "int \<Rightarrow> int set \<Rightarrow> int \<Rightarrow> bool" where
  "next_unused cur U i \<longleftrightarrow> i \<notin> U \<and> 1 \<le> i \<and> i < TID_MAX \<and>
     (cur < i \<and> {cur<..<i} \<subseteq> U \<or> i \<le> cur \<and> {cur<..<TID_MAX} \<union> {1..<i} \<subseteq> U)"

lemma search_ok:
  assumes ok: "id_ok max_nr T N F" and room: "card N < 9999"
  shows "\<exists>i. next_unused (current_id T) (fst ` entries (id_tree T) N) i \<and> (do {
      (tid, found_noused) \<leftarrow> scan_ids (current_id T + 1) TID_MAX (id_tree T);
      (tid', _) \<leftarrow> (if found_noused then Some (tid, True) else scan_ids 1 (current_id T + 1) (id_tree T));
      f tid' }) = f i"
proof -
  note d = id_okD [OF ok]
  let ?U = "fst ` entries (id_tree T) N" and ?c = "current_id T"
  obtain i found where i: "scan_ids (?c + 1) TID_MAX (id_tree T) = Some (i, found)" "{?c + 1..<i} \<subseteq> ?U"
    "if found then ?c + 1 \<le> i \<and> i < TID_MAX \<and> i \<notin> ?U else i = TID_MAX"
    using scan_ids_ok [OF ok, of "?c + 1" TID_MAX] d(9,10) by auto
  have open_left: "{?c + 1..<x} = {?c<..<x}" for x by auto
  show ?thesis
  proof (cases found)
    case True
    then show ?thesis using i d(9) open_left by (intro exI [of _ i]) (auto simp: next_unused_def)
  next
    case False
    obtain j found2 where j: "scan_ids 1 (?c + 1) (id_tree T) = Some (j, found2)" "{1..<j} \<subseteq> ?U"
      "if found2 then 1 \<le> j \<and> j < ?c + 1 \<and> j \<notin> ?U else j = ?c + 1"
      using scan_ids_ok [OF ok, of 1 "?c + 1"] d(9,10) by auto
    have "found2"
    proof (rule ccontr)
      assume "\<not> found2"
      then have "{1..<TID_MAX} \<subseteq> ?U" using i(2,3) j(2,3) False by (auto simp: subset_iff) (metis linorder_not_le zle_add1_eq_le add1_zle_eq)
      moreover have "card ?U \<le> card N" "finite ?U" using d(11) unfolding entries_def image_image by (auto intro: card_image_le)
      ultimately have "card {1..<TID_MAX} \<le> card N" using card_mono by (meson le_trans)
      then show False using room by simp
    qed
    then show ?thesis using i j False d(10) open_left by (intro exI [of _ j]) (auto simp: next_unused_def)
  qed
qed

lemma id_get_ok:
  assumes ok: "id_ok max_nr T N F" and max: "max_nr < 10000"
  shows "card N = max_nr \<Longrightarrow> id_get max_nr T = Some (0, T)"
    "card N \<noteq> max_nr \<Longrightarrow> \<exists>i T' N' F'. id_get max_nr T = Some (i, T') \<and> id_ok max_nr T' N' F' \<and> card N' = Suc (card N) \<and> current_id T' = i \<and>
      next_unused (current_id T) (fst ` entries (id_tree T) N) i \<and> entries (id_tree T') N' = insert (i, None) (entries (id_tree T) N)"
proof -
  note d = id_okD [OF ok]
  show "id_get max_nr T = Some (0, T)" if "card N = max_nr" using take_node_ok(1) [OF ok that] by (simp add: id_get_def)
  assume ne: "card N \<noteq> max_nr"
  obtain p T1 F1 where t: "take_node max_nr T = (Some p, T1)" "p \<notin> N" "p \<notin> set F1" "id_tree T1 = id_tree T" "current_id T1 = current_id T"
    "free_nodes (avl_nodes (id_tree T)) (id_free_head T1) F1" "distinct F1" "set F1 \<inter> N = {}" "insert p (set F1 \<union> N) = {..<id_alloced T1}" "id_alloced T1 \<le> max_nr"
    using take_node_ok(2) [OF ok ne] by blast
  have lt: "card N < max_nr" using ne d(6,12) by linarith
  then obtain i where i: "next_unused (current_id T) (fst ` entries (id_tree T) N) i"
    "(do { (tid, found_noused) \<leftarrow> scan_ids (current_id T + 1) TID_MAX (id_tree T);
      (tid', _) \<leftarrow> (if found_noused then Some (tid, True) else scan_ids 1 (current_id T + 1) (id_tree T));
      tree \<leftarrow> lwp_avl_insert p (upd_node p (\<lambda>r. r\<lparr>avl_key := word_of_int tid'\<rparr>) (id_tree T));
      Some (tid', T1\<lparr>id_tree := tree, current_id := tid'\<rparr>) }) = (do {
      tree \<leftarrow> lwp_avl_insert p (upd_node p (\<lambda>r. r\<lparr>avl_key := word_of_int i\<rparr>) (id_tree T));
      Some (i, T1\<lparr>id_tree := tree, current_id := i\<rparr>) })"
    using search_ok [OF ok, of "\<lambda>tid'. do {
      tree \<leftarrow> lwp_avl_insert p (upd_node p (\<lambda>r. r\<lparr>avl_key := word_of_int tid'\<rparr>) (id_tree T));
      Some (tid', T1\<lparr>id_tree := tree, current_id := tid'\<rparr>) }"] max by auto
  have ir: "1 \<le> i" "i < TID_MAX" "i \<notin> fst ` entries (id_tree T) N" "uint (word_of_int i :: 64 word) = i"
    using i(1) by (auto simp: next_unused_def uint_word_of_int take_bit_int_eq_self)
  let ?st = "upd_node p (\<lambda>r. r\<lparr>avl_key := word_of_int i\<rparr>) (id_tree T)"
  have h: "avl_holds ?st N" using d(1) by (rule avl_holds_cong) (use t(2) in auto)
  have "key_of (id_tree T) x \<noteq> word_of_int i" if "x \<in> N" for x using entriesI [OF that, of "id_tree T"] ir(3,4) by force
  then have "\<forall>x \<in> N. fst (avl_label (avl_nodes ?st x)) \<noteq> fst (avl_label (avl_nodes ?st p))"
    using t(2) by (auto simp: avl_label_def)
  then obtain st' where s: "lwp_avl_insert p ?st = Some st'" "avl_holds st' (insert p N)" "\<forall>x. avl_label (avl_nodes st' x) = avl_label (avl_nodes ?st x)"
    "\<forall>x. x \<notin> insert p N \<longrightarrow> avl_nodes st' x = avl_nodes ?st x"
    using avl.ins_law [OF h t(2)] lt max by auto
  have lab: "key_of st' x = (if x = p then word_of_int i else key_of (id_tree T) x)" "avl_data (avl_nodes st' x) = avl_data (avl_nodes (id_tree T) x)" for x
    using s(3) [rule_format, of x] by (auto simp: avl_label_def)
  let ?T = "T1\<lparr>id_tree := st', current_id := i\<rparr>"
  have "free_nodes (avl_nodes st') (id_free_head T1) F1 = free_nodes (avl_nodes (id_tree T)) (id_free_head T1) F1"
    by (rule free_nodes_cong) (use s(4) t(3,8) in auto)
  moreover have "\<exists>j. 1 \<le> j \<and> j < TID_MAX \<and> key_of st' x = word_of_int j" if "x \<in> insert p N" for x
    using that lab(1) [of x] ir ok unfolding id_ok_def by auto
  ultimately have ok': "id_ok max_nr ?T (insert p N) F1"
    unfolding id_ok_def using s(2) t(3,6-10) d(7) lab(2) ir by auto
  moreover have "id_get max_nr T = Some (i, ?T)" using t(1) i(2) s(1) d(7) [OF t(2)] by (simp add: id_get_def t(4,5) cong: if_cong)
  moreover have "entries st' (insert p N) = insert (i, None) (entries (id_tree T) N)"
  proof -
    have "entries st' N = entries (id_tree T) N" by (rule entries_cong) (use t(2) lab in auto)
    then show ?thesis using lab [of p] ir(4) d(7) [OF t(2)] by (simp add: entries_insert)
  qed
  ultimately show "\<exists>i T' N' F'. id_get max_nr T = Some (i, T') \<and> id_ok max_nr T' N' F' \<and> card N' = Suc (card N) \<and> current_id T' = i \<and>
      next_unused (current_id T) (fst ` entries (id_tree T) N) i \<and> entries (id_tree T') N' = insert (i, None) (entries (id_tree T) N)"
    using i(1) t(2) d(11) by (intro exI [of _ i] exI [of _ ?T] exI [of _ "insert p N"] exI [of _ F1]) simp
qed

lemma entry_of:
  assumes "id_ok max_nr T N F" "p \<in> N" "uint (key_of (id_tree T) p) = i"
  shows "(j, v) \<in> entries (id_tree T) N \<and> j = i \<longleftrightarrow> j = i \<and> v = avl_data (avl_nodes (id_tree T) p)"
    "entries (id_tree T) (N - {p}) = {e \<in> entries (id_tree T) N. fst e \<noteq> i}"
proof -
  have only: "x = p" if "x \<in> N" "uint (key_of (id_tree T) x) = i" for x
    using avl.key_inj [OF id_okD(1) [OF assms(1)] that(1) assms(2)] that(2) assms(3) by (simp add: avl_label_def word_uint_eq_iff)
  show "(j, v) \<in> entries (id_tree T) N \<and> j = i \<longleftrightarrow> j = i \<and> v = avl_data (avl_nodes (id_tree T) p)"
    using only entriesI [OF assms(2), of "id_tree T"] assms(3) by (metis entriesE)
  show "entries (id_tree T) (N - {p}) = {e \<in> entries (id_tree T) N. fst e \<noteq> i}"
  proof (intro set_eqI iffI)
    fix e assume "e \<in> entries (id_tree T) (N - {p})"
    then obtain x where "x \<in> N" "x \<noteq> p" "e = (uint (key_of (id_tree T) x), avl_data (avl_nodes (id_tree T) x))"
      unfolding entries_def by blast
    moreover from this(1,2) have "uint (key_of (id_tree T) x) \<noteq> i" using only by blast
    ultimately show "e \<in> {e \<in> entries (id_tree T) N. fst e \<noteq> i}" using entriesI by simp
  next
    fix e assume e: "e \<in> {e \<in> entries (id_tree T) N. fst e \<noteq> i}"
    then obtain x where x: "x \<in> N" "e = (uint (key_of (id_tree T) x), avl_data (avl_nodes (id_tree T) x))"
      unfolding entries_def by blast
    then have "x \<in> N - {p}" using e assms(3) by auto
    then show "e \<in> entries (id_tree T) (N - {p})" unfolding x(2) by (rule entriesI)
  qed
qed

lemma id_put_ok:
  assumes ok: "id_ok max_nr T N F" and max: "max_nr < 10000" and i: "c_int i"
  shows "\<exists>T' N' F'. id_put i T = Some T' \<and> id_ok max_nr T' N' F' \<and> entries (id_tree T') N' = {e \<in> entries (id_tree T) N. fst e \<noteq> i} \<and> current_id T' = current_id T"
proof -
  note d = id_okD [OF ok]
  obtain r where r: "lwp_avl_find (word_of_int i) (avl_root (id_tree T)) (id_tree T) = Some r"
    "case r of None \<Rightarrow> i \<notin> fst ` entries (id_tree T) N | Some p \<Rightarrow> p \<in> N \<and> uint (key_of (id_tree T) p) = i" using id_find [OF ok i] by blast
  show ?thesis
  proof (cases r)
    case None
    then have "{e \<in> entries (id_tree T) N. fst e \<noteq> i} = entries (id_tree T) N" using r(2) by auto
    then show ?thesis using ok r(1) None by (intro exI [of _ T] exI [of _ N] exI [of _ F]) (simp add: id_put_def)
  next
    case (Some p)
    then have p: "p \<in> N" "uint (key_of (id_tree T) p) = i" using r(2) by auto
    let ?st = "upd_node p (\<lambda>r. r\<lparr>avl_data := None\<rparr>) (id_tree T)"
    have h: "avl_holds ?st N" using d(1) by (rule avl_holds_cong) auto
    have "card N < 65535" using d(6,12) max by linarith
    then obtain st' where s: "lwp_avl_remove p ?st = Some st'" "avl_holds st' (N - {p})" "\<forall>x. avl_label (avl_nodes st' x) = avl_label (avl_nodes ?st x)"
      "\<forall>x. x \<notin> N \<longrightarrow> avl_nodes st' x = avl_nodes ?st x" using avl.del_law [OF h p(1)] by auto
    have lab: "key_of st' x = key_of (id_tree T) x" "avl_data (avl_nodes st' x) = (if x = p then None else avl_data (avl_nodes (id_tree T) x))" for x
      using s(3) [rule_format, of x] by (auto simp: avl_label_def)
    let ?st2 = "upd_node p (\<lambda>r. r\<lparr>avl_right := id_free_head T\<rparr>) st'" and ?F = "p # F"
    let ?T = "T\<lparr>id_tree := ?st2, id_free_head := Some p\<rparr>"
    have "avl_holds ?st2 (N - {p})" using s(2) by (rule avl_holds_cong) auto
    moreover have "free_nodes (avl_nodes ?st2) (id_free_head T) F = free_nodes (avl_nodes (id_tree T)) (id_free_head T) F"
      by (rule free_nodes_cong) (use s(4) d(4) p(1) in auto)
    moreover have "p \<notin> set F" using d(4) p(1) by blast
    ultimately have "id_ok max_nr ?T (N - {p}) ?F"
      unfolding id_ok_def using d(2-7,9,10) p(1) lab ok unfolding id_ok_def by (auto simp: insert_absorb)
    moreover have "id_put i T = Some ?T" using r(1) Some s(1) by (simp add: id_put_def)
    moreover have "entries ?st2 (N - {p}) = entries (id_tree T) (N - {p})" using lab by (auto simp: entries_def)
    ultimately show ?thesis using entry_of(2) [OF ok p] by (intro exI [of _ ?T] exI [of _ "N - {p}"] exI [of _ ?F]) simp
  qed
qed

lemma id_lookup_ok:
  assumes ok: "id_ok max_nr T N F" and i: "c_int i"
  shows "\<exists>v. id_lookup i T = Some v \<and> (if i \<in> fst ` entries (id_tree T) N then (i, v) \<in> entries (id_tree T) N else v = None)"
proof -
  obtain r where r: "lwp_avl_find (word_of_int i) (avl_root (id_tree T)) (id_tree T) = Some r"
    "case r of None \<Rightarrow> i \<notin> fst ` entries (id_tree T) N | Some p \<Rightarrow> p \<in> N \<and> uint (key_of (id_tree T) p) = i" using id_find [OF ok i] by blast
  then show ?thesis by (cases r) (force simp: id_lookup_def entries_def)+
qed

lemma id_set_ok:
  assumes ok: "id_ok max_nr T N F" and i: "c_int i"
  shows "\<exists>T'. id_set i v T = Some T' \<and> id_ok max_nr T' N F \<and> current_id T' = current_id T \<and>
    entries (id_tree T') N = (if i \<in> fst ` entries (id_tree T) N then insert (i, v) {e \<in> entries (id_tree T) N. fst e \<noteq> i} else entries (id_tree T) N)"
proof -
  note d = id_okD [OF ok]
  obtain r where r: "lwp_avl_find (word_of_int i) (avl_root (id_tree T)) (id_tree T) = Some r"
    "case r of None \<Rightarrow> i \<notin> fst ` entries (id_tree T) N | Some p \<Rightarrow> p \<in> N \<and> uint (key_of (id_tree T) p) = i" using id_find [OF ok i] by blast
  show ?thesis
  proof (cases r)
    case None
    then show ?thesis using r ok by (simp add: id_set_def)
  next
    case (Some p)
    then have p: "p \<in> N" "uint (key_of (id_tree T) p) = i" using r(2) by auto
    let ?T = "T\<lparr>id_tree := upd_node p (\<lambda>r. r\<lparr>avl_data := v\<rparr>) (id_tree T)\<rparr>"
    have "avl_holds (id_tree ?T) N" using d(1) by (rule avl_holds_cong) auto
    moreover have "free_nodes (avl_nodes (id_tree ?T)) (id_free_head T) F = free_nodes (avl_nodes (id_tree T)) (id_free_head T) F"
      by (rule free_nodes_cong) auto
    ultimately have "id_ok max_nr ?T N F" using ok p(1) unfolding id_ok_def by auto
    moreover have "entries (id_tree ?T) N = insert (i, v) (entries (id_tree T) (N - {p}))"
    proof -
      have "entries (id_tree ?T) (N - {p}) = entries (id_tree T) (N - {p})" by (rule entries_cong) auto
      then show ?thesis using entries_insert [of "id_tree ?T" p "N - {p}"] p by (simp add: insert_absorb)
    qed
    moreover have "i \<in> fst ` entries (id_tree T) N" using p by (force simp: entries_def)
    ultimately show ?thesis using r(1) Some entry_of(2) [OF ok p] by (intro exI [of _ ?T]) (simp add: id_set_def)
  qed
qed

section \<open>What the two tables promise\<close>

text \<open>
  The specification: a map from the numbers in use to their thread or process, and the number given out
  last.  A new number is the first unused one after it, in the cyclic order of 1 to 9999.
\<close>

type_synonym id_spec = "(int \<rightharpoonup> nat option) \<times> int"

datatype id_call = Get_id | Put_id int | Set_id int "nat option" | Look_id int
datatype id_answer = New_id int | Id_of "nat option" | No_answer

definition next_id :: "int \<Rightarrow> int set \<Rightarrow> int" where
  "next_id cur U = hd (filter (\<lambda>i. i \<notin> U) ([cur + 1..TID_MAX - 1] @ [1..cur]))"

fun spec_call :: "nat \<Rightarrow> id_call \<Rightarrow> id_spec \<Rightarrow> id_answer \<times> id_spec" where
  "spec_call max_nr Get_id (m, cur) =
    (if card (dom m) = max_nr then (New_id 0, (m, cur))
     else (New_id (next_id cur (dom m)), (m(next_id cur (dom m) \<mapsto> None), next_id cur (dom m))))"
| "spec_call max_nr (Put_id i) (m, cur) = (No_answer, (m(i := None), cur))"
| "spec_call max_nr (Set_id i v) (m, cur) = (No_answer, (if i \<in> dom m then m(i \<mapsto> v) else m, cur))"
| "spec_call max_nr (Look_id i) (m, cur) = (Id_of (Option.bind (m i) id), (m, cur))"

fun spec_calls :: "nat \<Rightarrow> id_call list \<Rightarrow> id_spec \<Rightarrow> id_answer list \<times> id_spec" where
  "spec_calls max_nr [] s = ([], s)"
| "spec_calls max_nr (c # cs) s = (let (a, s') = spec_call max_nr c s; (as, s'') = spec_calls max_nr cs s' in (a # as, s''))"

fun call_ok :: "id_call \<Rightarrow> bool" where
  "call_ok Get_id \<longleftrightarrow> True"
| "call_ok (Put_id i) \<longleftrightarrow> c_int i"
| "call_ok (Set_id i v) \<longleftrightarrow> c_int i"
| "call_ok (Look_id i) \<longleftrightarrow> c_int i"

definition id_sim :: "nat \<Rightarrow> id_table \<Rightarrow> id_spec \<Rightarrow> bool" where
  "id_sim max_nr T s \<longleftrightarrow> (\<exists>N F. id_ok max_nr T N F \<and> (\<forall>i v. fst s i = Some v \<longleftrightarrow> (i, v) \<in> entries (id_tree T) N) \<and> current_id T = snd s)"

lemma id_simE:
  assumes "id_sim max_nr T (m, cur)"
  obtains N F where "id_ok max_nr T N F" "\<And>i v. (i, v) \<in> entries (id_tree T) N \<longleftrightarrow> m i = Some v" "fst ` entries (id_tree T) N = dom m" "card N = card (dom m)" "current_id T = cur"
proof -
  obtain N F where nf: "id_ok max_nr T N F" "\<And>i v. (i, v) \<in> entries (id_tree T) N \<longleftrightarrow> m i = Some v" "current_id T = cur"
    using assms by (auto simp: id_sim_def)
  have d: "fst ` entries (id_tree T) N = dom m"
    by (auto simp: dom_def nf(2) image_iff) (metis nf(2) fst_conv)
  have "inj_on (\<lambda>x. uint (key_of (id_tree T) x)) N"
    using avl.key_inj [OF id_okD(1) [OF nf(1)]] by (intro inj_onI) (simp add: avl_label_def word_uint_eq_iff)
  then have "card N = card (dom m)" unfolding d [symmetric] entries_def image_image fst_conv by (simp add: card_image)
  then show thesis using that nf d by blast
qed

lemma next_unused_next_id:
  assumes "next_unused cur U i" "0 \<le> cur" "cur < TID_MAX"
  shows "next_id cur U = i"
proof -
  have split: "[a..b] = [a..i - 1] @ i # [i + 1..b]" if "a \<le> i" "i \<le> b" for a b
    using that by (rule upto_split3)
  have none: "filter (\<lambda>x. x \<notin> U) xs = []" if "set xs \<subseteq> U" for xs using that by (auto simp: filter_empty_conv)
  consider "cur < i" "{cur<..<i} \<subseteq> U" | "i \<le> cur" "{cur<..<TID_MAX} \<subseteq> U" "{1..<i} \<subseteq> U" using assms(1) by (auto simp: next_unused_def)
  then show ?thesis
  proof cases
    case 1
    have "filter (\<lambda>x. x \<notin> U) [cur + 1..i - 1] = []" by (rule none) (use 1 in auto)
    then show ?thesis using split [of "cur + 1" "TID_MAX - 1"] 1 assms(1) by (simp add: next_id_def next_unused_def)
  next
    case 2
    have "filter (\<lambda>x. x \<notin> U) [cur + 1..TID_MAX - 1] = []" "filter (\<lambda>x. x \<notin> U) [1..i - 1] = []" by (rule none, use 2 in auto)+
    then show ?thesis using split [of 1 cur] 2 assms(1) by (simp add: next_id_def next_unused_def)
  qed
qed

locale number_table =
  fixes get :: "id_table \<Rightarrow> (int \<times> id_table) option"
    and put :: "int \<Rightarrow> id_table \<Rightarrow> id_table option"
    and assign :: "int \<Rightarrow> nat option \<Rightarrow> id_table \<Rightarrow> id_table option"
    and look :: "int \<Rightarrow> id_table \<Rightarrow> nat option option"
    and max_nr :: nat
  assumes get_law: "id_sim max_nr T s \<Longrightarrow> spec_call max_nr Get_id s = (New_id i, s') \<Longrightarrow> \<exists>T'. get T = Some (i, T') \<and> id_sim max_nr T' s'"
    and put_law: "id_sim max_nr T s \<Longrightarrow> c_int i \<Longrightarrow> \<exists>T'. put i T = Some T' \<and> id_sim max_nr T' (snd (spec_call max_nr (Put_id i) s))"
    and assign_law: "id_sim max_nr T s \<Longrightarrow> c_int i \<Longrightarrow> \<exists>T'. assign i v T = Some T' \<and> id_sim max_nr T' (snd (spec_call max_nr (Set_id i v) s))"
    and look_law: "id_sim max_nr T s \<Longrightarrow> c_int i \<Longrightarrow> look i T = Some (Option.bind (fst s i) id)"

fun run_ids :: "(id_table \<Rightarrow> (int \<times> id_table) option) \<Rightarrow> (int \<Rightarrow> id_table \<Rightarrow> id_table option) \<Rightarrow> (int \<Rightarrow> nat option \<Rightarrow> id_table \<Rightarrow> id_table option) \<Rightarrow>
    (int \<Rightarrow> id_table \<Rightarrow> nat option option) \<Rightarrow> id_call list \<Rightarrow> id_table \<Rightarrow> (id_answer list \<times> id_table) option" where
  "run_ids get put assign look [] T = Some ([], T)"
| "run_ids get put assign look (c # cs) T = do {
     (a, T') \<leftarrow> (case c of
         Get_id \<Rightarrow> do { (i, T1) \<leftarrow> get T; Some (New_id i, T1) }
       | Put_id i \<Rightarrow> do { T1 \<leftarrow> put i T; Some (No_answer, T1) }
       | Set_id i v \<Rightarrow> do { T1 \<leftarrow> assign i v T; Some (No_answer, T1) }
       | Look_id i \<Rightarrow> do { v \<leftarrow> look i T; Some (Id_of v, T) });
     (as, T'') \<leftarrow> run_ids get put assign look cs T';
     Some (a # as, T'')
   }"

context number_table
begin

lemma run_ids_ok:
  assumes "id_sim max_nr T s" "list_all call_ok cs"
  shows "\<exists>T'. run_ids get put assign look cs T = Some (fst (spec_calls max_nr cs s), T') \<and> id_sim max_nr T' (snd (spec_calls max_nr cs s))"
  using assms
proof (induction cs arbitrary: T s)
  case (Cons c cs)
  obtain m cur where s: "s = (m, cur)" by (cases s)
  have "\<exists>T1. run_ids get put assign look [c] T = Some ([fst (spec_call max_nr c s)], T1) \<and> id_sim max_nr T1 (snd (spec_call max_nr c s))"
  proof (cases c)
    case Get_id
    obtain i s' where "spec_call max_nr Get_id s = (New_id i, s')" using s by (cases "card (dom m) = max_nr") auto
    moreover from get_law [OF Cons.prems(1) this] obtain T' where "get T = Some (i, T')" "id_sim max_nr T' s'" by blast
    ultimately show ?thesis using Get_id by simp
  next
    case (Put_id i)
    then show ?thesis using put_law [OF Cons.prems(1), of i] Cons.prems(2) s by force
  next
    case (Set_id i v)
    moreover obtain T1 where "assign i v T = Some T1" "id_sim max_nr T1 (snd (spec_call max_nr (Set_id i v) s))"
      using assign_law [OF Cons.prems(1), of i v] Cons.prems(2) Set_id by auto
    ultimately show ?thesis using s by auto
  next
    case (Look_id i)
    then show ?thesis using look_law [OF Cons.prems(1), of i] Cons.prems s by force
  qed
  then obtain T1 where t: "run_ids get put assign look [c] T = Some ([fst (spec_call max_nr c s)], T1)" "id_sim max_nr T1 (snd (spec_call max_nr c s))" by blast
  from Cons.IH [OF t(2)] Cons.prems(2) obtain T' where
    "run_ids get put assign look cs T1 = Some (fst (spec_calls max_nr cs (snd (spec_call max_nr c s))), T')"
    "id_sim max_nr T' (snd (spec_calls max_nr cs (snd (spec_call max_nr c s))))" by auto
  then show ?case using t(1) by (auto simp: bind_eq_Some_conv split: prod.splits)
qed simp

end

lemma id_get_sim:
  assumes sim: "id_sim max_nr T s" and max: "max_nr < 10000" and call: "spec_call max_nr Get_id s = (New_id i, s')"
  shows "\<exists>T'. id_get max_nr T = Some (i, T') \<and> id_sim max_nr T' s'"
proof -
  obtain m cur where s: "s = (m, cur)" by (cases s)
  obtain N F where nf: "id_ok max_nr T N F" "\<And>i v. (i, v) \<in> entries (id_tree T) N \<longleftrightarrow> m i = Some v" "fst ` entries (id_tree T) N = dom m" "card N = card (dom m)" "current_id T = cur"
    using id_simE [OF sim [unfolded s]] by metis
  show ?thesis
  proof (cases "card N = max_nr")
    case True
    then show ?thesis using id_get_ok(1) [OF nf(1) max True] call sim s nf(4) by auto
  next
    case False
    obtain j T' N' F' where j: "id_get max_nr T = Some (j, T')" "id_ok max_nr T' N' F'" "current_id T' = j"
      "next_unused cur (dom m) j" "entries (id_tree T') N' = insert (j, None) (entries (id_tree T) N)"
      using id_get_ok(2) [OF nf(1) max False] nf(3,5) by metis
    have nx: "next_id cur (dom m) = j" using next_unused_next_id [OF j(4)] id_okD(9,10) [OF nf(1)] nf(5) by simp
    then have "i = j" "s' = (m(j \<mapsto> None), j)" using call s False nf(4) by auto
    moreover have "m j = None" using j(4) by (auto simp: next_unused_def)
    then have "\<forall>i v. (m(j \<mapsto> None)) i = Some v \<longleftrightarrow> (i, v) \<in> entries (id_tree T') N'" unfolding j(5) using nf(2) by auto
    ultimately show ?thesis using j(1-3) unfolding id_sim_def by auto
  qed
qed

lemma id_put_sim:
  assumes sim: "id_sim max_nr T s" and max: "max_nr < 10000" and i: "c_int i"
  shows "\<exists>T'. id_put i T = Some T' \<and> id_sim max_nr T' (snd (spec_call max_nr (Put_id i) s))"
proof -
  obtain m cur where s: "s = (m, cur)" by (cases s)
  obtain N F where nf: "id_ok max_nr T N F" "\<And>i v. (i, v) \<in> entries (id_tree T) N \<longleftrightarrow> m i = Some v" "current_id T = cur"
    using id_simE [OF sim [unfolded s]] by metis
  obtain T' N' F' where t: "id_put i T = Some T'" "id_ok max_nr T' N' F'" "entries (id_tree T') N' = {e \<in> entries (id_tree T) N. fst e \<noteq> i}" "current_id T' = current_id T"
    using id_put_ok [OF nf(1) max i] by blast
  then have "\<forall>j v. (m(i := None)) j = Some v \<longleftrightarrow> (j, v) \<in> entries (id_tree T') N'" using nf(2) by auto
  then show ?thesis using t nf(3) s unfolding id_sim_def by auto
qed

lemma id_set_sim:
  assumes sim: "id_sim max_nr T s" and i: "c_int i"
  shows "\<exists>T'. id_set i v T = Some T' \<and> id_sim max_nr T' (snd (spec_call max_nr (Set_id i v) s))"
proof -
  obtain m cur where s: "s = (m, cur)" by (cases s)
  obtain N F where nf: "id_ok max_nr T N F" "\<And>i v. (i, v) \<in> entries (id_tree T) N \<longleftrightarrow> m i = Some v" "fst ` entries (id_tree T) N = dom m" "current_id T = cur"
    using id_simE [OF sim [unfolded s]] by metis
  obtain T' where t: "id_set i v T = Some T'" "id_ok max_nr T' N F" "current_id T' = current_id T"
    "entries (id_tree T') N = (if i \<in> dom m then insert (i, v) {e \<in> entries (id_tree T) N. fst e \<noteq> i} else entries (id_tree T) N)"
    using id_set_ok [OF nf(1) i, of v] unfolding nf(3) by blast
  let ?m = "if i \<in> dom m then m(i \<mapsto> v) else m"
  have "\<forall>j w. ?m j = Some w \<longleftrightarrow> (j, w) \<in> entries (id_tree T') N"
    by (cases "i \<in> dom m") (simp_all add: t(4) nf(2), auto)
  then show ?thesis using t(1-3) nf(4) s unfolding id_sim_def by auto
qed

lemma id_lookup_sim:
  assumes sim: "id_sim max_nr T s" and i: "c_int i"
  shows "id_lookup i T = Some (Option.bind (fst s i) id)"
proof -
  obtain m cur where s: "s = (m, cur)" by (cases s)
  obtain N F where nf: "id_ok max_nr T N F" "\<And>i v. (i, v) \<in> entries (id_tree T) N \<longleftrightarrow> m i = Some v" "fst ` entries (id_tree T) N = dom m"
    using id_simE [OF sim [unfolded s]] by metis
  obtain v where "id_lookup i T = Some v" "if i \<in> dom m then m i = Some v else v = None"
    using id_lookup_ok [OF nf(1) i] unfolding nf(2,3) by blast
  then show ?thesis using s by (cases "m i") (auto simp: dom_def)
qed

text \<open>Number 0 is never in a table.\<close>

lemma id_sim_0: "id_sim max_nr T (m, cur) \<Longrightarrow> m(0 := None) = m"
proof (rule ccontr)
  assume sim: "id_sim max_nr T (m, cur)" and "m(0 := None) \<noteq> m"
  then have "m 0 \<noteq> None" by (metis fun_upd_triv)
  with sim obtain N F v where "id_ok max_nr T N F" "(0, v) \<in> entries (id_tree T) N" by (metis id_simE not_None_eq)
  then show False using id_okD(8) by (metis entriesE not_one_le_zero)
qed

interpretation tids: number_table lwp_tid_get lwp_tid_put lwp_tid_set_thread lwp_tid_get_thread "LWP_TID_MAX_NR"
  unfolding lwp_tid_get_def lwp_tid_put_def lwp_tid_set_thread_def lwp_tid_get_thread_def
  by unfold_locales (simp_all add: id_get_sim id_put_sim id_set_sim id_lookup_sim)

interpretation pids: number_table lwp_pid_get lwp_pid_put lwp_pid_set_lwp lwp_from_pid "RT_LWP_MAX_NR"
proof unfold_locales
  fix T s i assume "id_sim RT_LWP_MAX_NR T s" "c_int i"
  then show "\<exists>T'. lwp_pid_put i T = Some T' \<and> id_sim RT_LWP_MAX_NR T' (snd (spec_call RT_LWP_MAX_NR (Put_id i) s))"
    using id_put_sim [of RT_LWP_MAX_NR T s i] id_sim_0 [of RT_LWP_MAX_NR T "fst s" "snd s"]
    by (cases "i = 0"; cases s) (simp_all add: lwp_pid_put_def)
qed (simp_all add: lwp_pid_get_def lwp_pid_set_lwp_def lwp_from_pid_def id_get_sim id_set_sim id_lookup_sim)

text \<open>
  C21: the tables of thread and process numbers keep their contract.  For every sequence of calls from
  related states all calls return, with the answers of the specification: \<^verbatim>\<open>lwp_tid_get\<close> gives 0 exactly
  when 64 numbers are in use (30 for \<^verbatim>\<open>lwp_pid_get\<close>), and otherwise the first number after the last
  one, cyclically in 1 to 9999, that is not in use, so a number belongs to one thread at a time;
  \<^verbatim>\<open>lwp_tid_put\<close> frees that number only, a number that is not in use is ignored; and a look-up
  gives what was set last for the number since it was handed out, and null before or for a number not in use.
\<close>

theorem id_tables_refine:
  assumes "list_all call_ok cs" "id_sim LWP_TID_MAX_NR T s" "id_sim RT_LWP_MAX_NR P p"
  shows "(\<exists>T'. run_ids lwp_tid_get lwp_tid_put lwp_tid_set_thread lwp_tid_get_thread cs T =
      Some (fst (spec_calls LWP_TID_MAX_NR cs s), T') \<and> id_sim LWP_TID_MAX_NR T' (snd (spec_calls LWP_TID_MAX_NR cs s))) \<and>
    (\<exists>P'. run_ids lwp_pid_get lwp_pid_put lwp_pid_set_lwp lwp_from_pid cs P =
      Some (fst (spec_calls RT_LWP_MAX_NR cs p), P') \<and> id_sim RT_LWP_MAX_NR P' (snd (spec_calls RT_LWP_MAX_NR cs p)))"
  using tids.run_ids_ok [OF assms(2,1)] pids.run_ids_ok [OF assms(3,1)] by blast

definition empty_ids :: id_table where
  "empty_ids = \<lparr>id_tree = sample_tree, id_free_head = None, id_alloced = 0, current_id = 0\<rparr>"

lemma empty_ids_sim: "id_sim max_nr empty_ids (Map.empty, 0)"
proof -
  have "avl_holds sample_tree {}" unfolding avl_holds_def using sample_tree_inv by (intro exI [of _ Leaf]) simp
  then have "id_ok max_nr empty_ids {} []" by (simp add: id_ok_def empty_ids_def sample_tree_def)
  then show ?thesis unfolding id_sim_def by (intro exI [of _ "{}"] exI [of _ "[]"]) (simp add: entries_def empty_ids_def)
qed

lemma next_id_0: "next_id 0 {} = 1" "next_id 1 {1} = 2"
  by (rule next_unused_next_id; force simp: next_unused_def)+

theorem id_tables_refine_witness:
  "(\<exists>T'. run_ids lwp_tid_get lwp_tid_put lwp_tid_set_thread lwp_tid_get_thread
      [Get_id, Set_id 1 (Some 7), Get_id, Look_id 1, Put_id 1, Look_id 1] empty_ids =
    Some ([New_id 1, No_answer, New_id 2, Id_of (Some 7), No_answer, Id_of None], T'))"
  using id_tables_refine [of "[Get_id, Set_id 1 (Some 7), Get_id, Look_id 1, Put_id 1, Look_id 1]", OF _ empty_ids_sim empty_ids_sim]
  by (auto simp: c_int_def next_id_0)

end
