(* ===== verification/Device.thy ===== *)
theory Device
  imports Thread
begin

text \<open>
  The device layer, \<^verbatim>\<open>components/drivers/core/device.c\<close>, and the four drivers of \<^verbatim>\<open>components/drivers/misc\<close> that are
  pure software: \<^verbatim>\<open>null\<close>, \<^verbatim>\<open>zero\<close>, \<^verbatim>\<open>random\<close> and \<^verbatim>\<open>urandom\<close>.  A driver is a record of optional functions (a null
  pointer in the structure is \<open>None\<close>) on the device structure and the private state of the driver; the
  functions of a driver that is not modelled are arguments.  A buffer is a list of bytes, and an access
  behind its end is \<open>None\<close>.
\<close>

section \<open>State\<close>

abbreviation (input) RT_DEVICE_FLAG_RDWR :: "16 word" where "RT_DEVICE_FLAG_RDWR \<equiv> 0x003"
abbreviation (input) RT_DEVICE_FLAG_STANDALONE :: "16 word" where "RT_DEVICE_FLAG_STANDALONE \<equiv> 0x008"
abbreviation (input) RT_DEVICE_FLAG_ACTIVATED :: "16 word" where "RT_DEVICE_FLAG_ACTIVATED \<equiv> 0x010"
abbreviation (input) RT_DEVICE_OFLAG_CLOSE :: "16 word" where "RT_DEVICE_OFLAG_CLOSE \<equiv> 0x000"
abbreviation (input) RT_DEVICE_OFLAG_OPEN :: "16 word" where "RT_DEVICE_OFLAG_OPEN \<equiv> 0x008"
abbreviation (input) RT_DEVICE_OFLAG_MASK :: "16 word" where "RT_DEVICE_OFLAG_MASK \<equiv> 0xf0f"
abbreviation (input) RT_Device_Class_Miscellaneous :: int where "RT_Device_Class_Miscellaneous \<equiv> 19"

record rt_device =
  dev_type :: int
  dev_flag :: "16 word"
  open_flag :: "16 word"
  ref_count :: "8 word"
  rx_indicate :: "nat option"
  tx_complete :: "nat option"
  dev_fops :: "nat option"
  wq_flag :: bool
  wq_waiting :: "nat list"
  user_data :: "nat option"

type_synonym 'd dev_ctx = "rt_device \<times> 'd"

record 'd rt_device_ops =
  device_init :: "('d dev_ctx \<Rightarrow> (err \<times> 'd dev_ctx) option) option"
  device_open :: "(16 word \<Rightarrow> 'd dev_ctx \<Rightarrow> (err \<times> 'd dev_ctx) option) option"
  device_close :: "('d dev_ctx \<Rightarrow> (err \<times> 'd dev_ctx) option) option"
  device_read :: "(int \<Rightarrow> 8 word list \<Rightarrow> 64 word \<Rightarrow> 'd dev_ctx \<Rightarrow> (int \<times> 8 word list \<times> 'd dev_ctx) option) option"
  device_write :: "(int \<Rightarrow> 8 word list \<Rightarrow> 64 word \<Rightarrow> 'd dev_ctx \<Rightarrow> (int \<times> 'd dev_ctx) option) option"
  device_control :: "(int \<Rightarrow> nat option \<Rightarrow> 'd dev_ctx \<Rightarrow> (err \<times> 'd dev_ctx) option) option"

text \<open>The devices of the system by number, with their operations and private states, beside the kernel.\<close>

record 'd dev_world =
  dw_kernel :: kernel
  dw_devs :: "nat \<Rightarrow> rt_device"
  dw_ops :: "nat \<Rightarrow> 'd rt_device_ops"
  dw_priv :: "nat \<Rightarrow> 'd"

definition upd_dev :: "nat \<Rightarrow> (rt_device \<Rightarrow> rt_device) \<Rightarrow> 'd dev_world \<Rightarrow> 'd dev_world" where
  "upd_dev n f W = W\<lparr>dw_devs := (dw_devs W)(n := f (dw_devs W n))\<rparr>"

definition dev_ctx :: "nat \<Rightarrow> 'd dev_world \<Rightarrow> 'd dev_ctx" where
  "dev_ctx n W = (dw_devs W n, dw_priv W n)"

definition put_ctx :: "nat \<Rightarrow> 'd dev_ctx \<Rightarrow> 'd dev_world \<Rightarrow> 'd dev_world" where
  "put_ctx n c W = W\<lparr>dw_devs := (dw_devs W)(n := fst c), dw_priv := (dw_priv W)(n := snd c)\<rparr>"

definition is_device :: "nat \<Rightarrow> 'd dev_world \<Rightarrow> bool" where
  "is_device n W \<longleftrightarrow> rt_object_get_type (OOther n) (dw_kernel W) = RT_Object_Class_Device"

section \<open>Operations\<close>

definition rt_device_find :: "string \<Rightarrow> 'd dev_world \<Rightarrow> (obj_id option \<times> 'd dev_world) option" where
  "rt_device_find name W = do {
     (object, s) \<leftarrow> rt_object_find (Some name) RT_Object_Class_Device (dw_kernel W);
     Some (object, W\<lparr>dw_kernel := s\<rparr>)
   }"

definition rt_device_register :: "nat option \<Rightarrow> string \<Rightarrow> 16 word \<Rightarrow> 'd dev_world \<Rightarrow> (err \<times> 'd dev_world) option" where
  "rt_device_register dev name flags W =
    (case dev of
       None \<Rightarrow> Some (- RT_ERROR, W)
     | Some n \<Rightarrow> do {
         (object, W1) \<leftarrow> rt_device_find name W;
         if object \<noteq> None then Some (- RT_ERROR, W1)
         else do {
           s \<leftarrow> rt_object_init (OOther n) RT_Object_Class_Device name (dw_kernel W1);
           Some (RT_EOK, upd_dev n (\<lambda>d. d\<lparr>dev_flag := flags, ref_count := 0, open_flag := 0, dev_fops := None,
             wq_flag := False, wq_waiting := []\<rparr>) (W1\<lparr>dw_kernel := s\<rparr>))
         }
       })"

definition rt_device_unregister :: "nat \<Rightarrow> 'd dev_world \<Rightarrow> (err \<times> 'd dev_world) option" where
  "rt_device_unregister n W = do {
     rt_assert (is_device n W);
     rt_assert (rt_object_is_systemobject (OOther n) (dw_kernel W));
     Some (RT_EOK, W\<lparr>dw_kernel := rt_object_detach (OOther n) (dw_kernel W)\<rparr>)
   }"

text \<open>\<open>mem\<close> is the structure that \<^verbatim>\<open>rt_malloc\<close> returns; \<^verbatim>\<open>rt_device_destroy\<close> gives it back.\<close>

definition blank_device :: rt_device where
  "blank_device = \<lparr>dev_type = 0, dev_flag = 0, open_flag = 0, ref_count = 0, rx_indicate = None, tx_complete = None,
     dev_fops = None, wq_flag = False, wq_waiting = [], user_data = None\<rparr>"

definition blank_ops :: "'d rt_device_ops" where
  "blank_ops = \<lparr>device_init = None, device_open = None, device_close = None, device_read = None, device_write = None, device_control = None\<rparr>"

definition rt_device_create :: "nat option \<Rightarrow> int \<Rightarrow> 'd dev_world \<Rightarrow> nat option \<times> 'd dev_world" where
  "rt_device_create mem type W =
    (case mem of
       None \<Rightarrow> (None, W)
     | Some n \<Rightarrow>
         let W1 = upd_dev n (\<lambda>_. blank_device) W;
             W2 = W1\<lparr>dw_kernel := zero_object (OOther n) (dw_kernel W1), dw_ops := (dw_ops W1)(n := blank_ops)\<rparr>
         in (Some n, upd_dev n (\<lambda>d. d\<lparr>dev_type := type\<rparr>) W2))"

definition rt_device_destroy :: "nat \<Rightarrow> 'd dev_world \<Rightarrow> (nat \<times> 'd dev_world) option" where
  "rt_device_destroy n W = do {
     rt_assert (is_device n W);
     rt_assert (\<not> rt_object_is_systemobject (OOther n) (dw_kernel W));
     Some (n, W\<lparr>dw_kernel := rt_object_detach (OOther n) (dw_kernel W)\<rparr>)
   }"

definition rt_device_init :: "nat \<Rightarrow> 'd dev_world \<Rightarrow> (err \<times> 'd dev_world) option" where
  "rt_device_init n W =
    (case device_init (dw_ops W n) of
       None \<Rightarrow> Some (RT_EOK, W)
     | Some f \<Rightarrow>
         if dev_flag (dw_devs W n) AND RT_DEVICE_FLAG_ACTIVATED = 0
         then do {
           (result, c) \<leftarrow> f (dev_ctx n W);
           let W1 = put_ctx n c W;
           if result \<noteq> RT_EOK then Some (result, W1)
           else Some (result, upd_dev n (\<lambda>d. d\<lparr>dev_flag := dev_flag d OR RT_DEVICE_FLAG_ACTIVATED\<rparr>) W1)
         }
         else Some (RT_EOK, W))"

text \<open>\<^verbatim>\<open>rt_device_open\<close>: the activation, the call of the driver and the reference count in turn.\<close>

definition open_activate :: "nat \<Rightarrow> 'd dev_world \<Rightarrow> (err \<times> 'd dev_world) option" where
  "open_activate n W =
    (if dev_flag (dw_devs W n) AND RT_DEVICE_FLAG_ACTIVATED = 0
     then do {
       (result, W1) \<leftarrow> (case device_init (dw_ops W n) of
           None \<Rightarrow> Some (RT_EOK, W)
         | Some f \<Rightarrow> do { (result, c) \<leftarrow> f (dev_ctx n W); Some (result, put_ctx n c W) });
       if result \<noteq> RT_EOK then Some (result, W1)
       else Some (RT_EOK, upd_dev n (\<lambda>d. d\<lparr>dev_flag := dev_flag d OR RT_DEVICE_FLAG_ACTIVATED\<rparr>) W1)
     }
     else Some (RT_EOK, W))"

definition open_driver :: "nat \<Rightarrow> 16 word \<Rightarrow> 'd dev_world \<Rightarrow> (err \<times> 'd dev_world) option" where
  "open_driver n oflag W =
    (let d = dw_devs W n
     in if open_flag d AND RT_DEVICE_OFLAG_OPEN = 0 \<or> open_flag d AND RT_DEVICE_OFLAG_MASK \<noteq> oflag AND RT_DEVICE_OFLAG_MASK
        then case device_open (dw_ops W n) of
               Some f \<Rightarrow> do { (result, c) \<leftarrow> f oflag (dev_ctx n W); Some (result, put_ctx n c W) }
             | None \<Rightarrow> Some (RT_EOK, upd_dev n (\<lambda>d. d\<lparr>open_flag := oflag AND RT_DEVICE_OFLAG_MASK\<rparr>) W)
        else Some (RT_EOK, W))"

definition rt_device_open :: "nat \<Rightarrow> 16 word \<Rightarrow> 'd dev_world \<Rightarrow> (err \<times> 'd dev_world) option" where
  "rt_device_open n oflag W = do {
     rt_assert (is_device n W);
     (result, W1) \<leftarrow> open_activate n W;
     if result \<noteq> RT_EOK then Some (result, W1)
     else if dev_flag (dw_devs W1 n) AND RT_DEVICE_FLAG_STANDALONE \<noteq> 0 \<and> open_flag (dw_devs W1 n) AND RT_DEVICE_OFLAG_OPEN \<noteq> 0
     then Some (- RT_EBUSY, W1)
     else do {
       (result, W2) \<leftarrow> open_driver n oflag W1;
       if result = RT_EOK \<or> result = - RT_ENOSYS
       then do {
         let W3 = upd_dev n (\<lambda>d. d\<lparr>open_flag := open_flag d OR RT_DEVICE_OFLAG_OPEN, ref_count := ref_count d + 1\<rparr>) W2;
         rt_assert (ref_count (dw_devs W3 n) \<noteq> 0);
         Some (result, W3)
       }
       else Some (result, W2)
     }
   }"

definition rt_device_close :: "nat \<Rightarrow> 'd dev_world \<Rightarrow> (err \<times> 'd dev_world) option" where
  "rt_device_close n W = do {
     rt_assert (is_device n W);
     if ref_count (dw_devs W n) = 0 then Some (- RT_ERROR, W)
     else do {
       let W1 = upd_dev n (\<lambda>d. d\<lparr>ref_count := ref_count d - 1\<rparr>) W;
       if ref_count (dw_devs W1 n) \<noteq> 0 then Some (RT_EOK, W1)
       else do {
         (result, W2) \<leftarrow> (case device_close (dw_ops W n) of
             Some f \<Rightarrow> do { (result, c) \<leftarrow> f (dev_ctx n W1); Some (result, put_ctx n c W1) }
           | None \<Rightarrow> Some (RT_EOK, W1));
         Some (result, if result = RT_EOK \<or> result = - RT_ENOSYS then upd_dev n (\<lambda>d. d\<lparr>open_flag := RT_DEVICE_OFLAG_CLOSE\<rparr>) W2 else W2)
       }
     }
   }"

definition dev_errno :: "err \<Rightarrow> 'd dev_world \<Rightarrow> 'd dev_world" where
  "dev_errno e W = W\<lparr>dw_kernel := rt_set_errno e (dw_kernel W)\<rparr>"

definition rt_device_read :: "nat \<Rightarrow> int \<Rightarrow> 8 word list \<Rightarrow> 64 word \<Rightarrow> 'd dev_world \<Rightarrow> (int \<times> 8 word list \<times> 'd dev_world) option" where
  "rt_device_read n pos buffer sz W = do {
     rt_assert (is_device n W);
     if ref_count (dw_devs W n) = 0 then Some (0, buffer, dev_errno (- RT_ERROR) W)
     else case device_read (dw_ops W n) of
       Some f \<Rightarrow> do { (len, buffer', c) \<leftarrow> f pos buffer sz (dev_ctx n W); Some (len, buffer', put_ctx n c W) }
     | None \<Rightarrow> Some (0, buffer, dev_errno (- RT_ENOSYS) W)
   }"

definition rt_device_write :: "nat \<Rightarrow> int \<Rightarrow> 8 word list \<Rightarrow> 64 word \<Rightarrow> 'd dev_world \<Rightarrow> (int \<times> 'd dev_world) option" where
  "rt_device_write n pos buffer sz W = do {
     rt_assert (is_device n W);
     if ref_count (dw_devs W n) = 0 then Some (0, dev_errno (- RT_ERROR) W)
     else case device_write (dw_ops W n) of
       Some f \<Rightarrow> do { (len, c) \<leftarrow> f pos buffer sz (dev_ctx n W); Some (len, put_ctx n c W) }
     | None \<Rightarrow> Some (0, dev_errno (- RT_ENOSYS) W)
   }"

definition rt_device_control :: "nat \<Rightarrow> int \<Rightarrow> nat option \<Rightarrow> 'd dev_world \<Rightarrow> (err \<times> 'd dev_world) option" where
  "rt_device_control n cmd arg W = do {
     rt_assert (is_device n W);
     case device_control (dw_ops W n) of
       Some f \<Rightarrow> do { (result, c) \<leftarrow> f cmd arg (dev_ctx n W); Some (result, put_ctx n c W) }
     | None \<Rightarrow> Some (- RT_ENOSYS, W)
   }"

definition rt_device_set_rx_indicate :: "nat \<Rightarrow> nat option \<Rightarrow> 'd dev_world \<Rightarrow> (err \<times> 'd dev_world) option" where
  "rt_device_set_rx_indicate n rx_ind W = do {
     rt_assert (is_device n W);
     Some (RT_EOK, upd_dev n (\<lambda>d. d\<lparr>rx_indicate := rx_ind\<rparr>) W)
   }"

definition rt_device_set_tx_complete :: "nat \<Rightarrow> nat option \<Rightarrow> 'd dev_world \<Rightarrow> (err \<times> 'd dev_world) option" where
  "rt_device_set_tx_complete n tx_done W = do {
     rt_assert (is_device n W);
     Some (RT_EOK, upd_dev n (\<lambda>d. d\<lparr>tx_complete := tx_done\<rparr>) W)
   }"

section \<open>Drivers without hardware\<close>

text \<open>The private state of these drivers is one 64-bit number, which only the random drivers use.\<close>

definition null_read :: "int \<Rightarrow> 8 word list \<Rightarrow> 64 word \<Rightarrow> 64 word dev_ctx \<Rightarrow> (int \<times> 8 word list \<times> 64 word dev_ctx) option" where
  "null_read pos buffer sz c = Some (0, buffer, c)"

definition null_write :: "int \<Rightarrow> 8 word list \<Rightarrow> 64 word \<Rightarrow> 64 word dev_ctx \<Rightarrow> (int \<times> 64 word dev_ctx) option" where
  "null_write pos buffer sz c = Some (sint sz, c)"

definition null_control :: "int \<Rightarrow> nat option \<Rightarrow> 64 word dev_ctx \<Rightarrow> (err \<times> 64 word dev_ctx) option" where
  "null_control cmd args c = Some (RT_EOK, c)"

definition zero_read :: "int \<Rightarrow> 8 word list \<Rightarrow> 64 word \<Rightarrow> 64 word dev_ctx \<Rightarrow> (int \<times> 8 word list \<times> 64 word dev_ctx) option" where
  "zero_read pos buffer sz c =
    (if unat sz \<le> length buffer then Some (sint sz, replicate (unat sz) 0 @ drop (unat sz) buffer, c) else None)"

definition zero_write :: "int \<Rightarrow> 8 word list \<Rightarrow> 64 word \<Rightarrow> 64 word dev_ctx \<Rightarrow> (int \<times> 64 word dev_ctx) option" where
  "zero_write pos buffer sz c = Some (sint sz, c)"

definition zero_control :: "int \<Rightarrow> nat option \<Rightarrow> 64 word dev_ctx \<Rightarrow> (err \<times> 64 word dev_ctx) option" where
  "zero_control cmd args c = Some (RT_EOK, c)"

definition calc_random :: "64 word \<Rightarrow> 16 word \<times> 64 word" where
  "calc_random seed = (let seed' = 214013 * seed + 2531011 in (ucast (drop_bit 16 seed' AND 0x7FFF), seed'))"

text \<open>The 16-bit number in the byte order of the machine, lowest byte first, and a 64-bit number from 8 bytes.\<close>

definition bytes_of_16 :: "16 word \<Rightarrow> 8 word list" where
  "bytes_of_16 w = [ucast w, ucast (drop_bit 8 w)]"

fun word_of_bytes :: "8 word list \<Rightarrow> 64 word" where
  "word_of_bytes [] = 0"
| "word_of_bytes (b # bs) = ucast b + push_bit 8 (word_of_bytes bs)"

definition random_read :: "int \<Rightarrow> 8 word list \<Rightarrow> 64 word \<Rightarrow> 64 word dev_ctx \<Rightarrow> (int \<times> 8 word list \<times> 64 word dev_ctx) option" where
  "random_read pos buffer sz c =
    (let (rand, seed) = calc_random (snd c)
     in if 2 \<le> length buffer then Some (2, bytes_of_16 rand @ drop 2 buffer, (fst c, seed)) else None)"

definition random_write :: "int \<Rightarrow> 8 word list \<Rightarrow> 64 word \<Rightarrow> 64 word dev_ctx \<Rightarrow> (int \<times> 64 word dev_ctx) option" where
  "random_write pos buffer sz c = (if 8 \<le> length buffer then Some (8, (fst c, word_of_bytes (take 8 buffer))) else None)"

definition random_control :: "int \<Rightarrow> nat option \<Rightarrow> 64 word dev_ctx \<Rightarrow> (err \<times> 64 word dev_ctx) option" where
  "random_control cmd args c = Some (RT_EOK, c)"

definition null_ops :: "64 word rt_device_ops" where
  "null_ops = \<lparr>device_init = None, device_open = None, device_close = None,
     device_read = Some null_read, device_write = Some null_write, device_control = Some null_control\<rparr>"

definition zero_ops :: "64 word rt_device_ops" where
  "zero_ops = \<lparr>device_init = None, device_open = None, device_close = None,
     device_read = Some zero_read, device_write = Some zero_write, device_control = Some zero_control\<rparr>"

definition random_ops :: "64 word rt_device_ops" where
  "random_ops = \<lparr>device_init = None, device_open = None, device_close = None,
     device_read = Some random_read, device_write = Some random_write, device_control = Some random_control\<rparr>"

text \<open>The four initialisers differ in the name and the operations; the flag is the static \<^verbatim>\<open>init_ok\<close>.\<close>

definition misc_device_init :: "string \<Rightarrow> 64 word rt_device_ops \<Rightarrow> nat \<Rightarrow> bool \<times> 64 word dev_world \<Rightarrow> (int \<times> bool \<times> 64 word dev_world) option" where
  "misc_device_init name ops n w =
    (if fst w then Some (0, w)
     else do {
       (object, W1) \<leftarrow> rt_device_find name (snd w);
       rt_assert (object = None);
       let W2 = upd_dev n (\<lambda>d. d\<lparr>dev_type := RT_Device_Class_Miscellaneous, user_data := None\<rparr>) W1;
       (_, W3) \<leftarrow> rt_device_register (Some n) name RT_DEVICE_FLAG_RDWR (W2\<lparr>dw_ops := (dw_ops W2)(n := ops)\<rparr>);
       Some (0, True, W3)
     })"

definition null_device_init :: "nat \<Rightarrow> bool \<times> 64 word dev_world \<Rightarrow> (int \<times> bool \<times> 64 word dev_world) option" where
  "null_device_init = misc_device_init ''null'' null_ops"

definition zero_device_init :: "nat \<Rightarrow> bool \<times> 64 word dev_world \<Rightarrow> (int \<times> bool \<times> 64 word dev_world) option" where
  "zero_device_init = misc_device_init ''zero'' zero_ops"

definition random_device_init :: "nat \<Rightarrow> bool \<times> 64 word dev_world \<Rightarrow> (int \<times> bool \<times> 64 word dev_world) option" where
  "random_device_init = misc_device_init ''random'' random_ops"

definition urandom_device_init :: "nat \<Rightarrow> bool \<times> 64 word dev_world \<Rightarrow> (int \<times> bool \<times> 64 word dev_world) option" where
  "urandom_device_init = misc_device_init ''urandom'' random_ops"

section \<open>Sessions\<close>

definition open_bit :: "rt_device \<Rightarrow> bool" where
  "open_bit d \<longleftrightarrow> open_flag d AND RT_DEVICE_OFLAG_OPEN \<noteq> 0"

definition standalone :: "rt_device \<Rightarrow> bool" where
  "standalone d \<longleftrightarrow> dev_flag d AND RT_DEVICE_FLAG_STANDALONE \<noteq> 0"

definition activated :: "rt_device \<Rightarrow> bool" where
  "activated d \<longleftrightarrow> dev_flag d AND RT_DEVICE_FLAG_ACTIVATED \<noteq> 0"

definition accepted :: "err \<Rightarrow> bool" where
  "accepted r \<longleftrightarrow> r = RT_EOK \<or> r = - RT_ENOSYS"

text \<open>
  The contract of a driver: what its functions answer and do to its private state, as functions of that
  state.  Every function returns and leaves the reference count and the standalone and activated flags
  alone; \<^verbatim>\<open>init\<close>, a refused \<^verbatim>\<open>open\<close> and a failed \<^verbatim>\<open>close\<close> leave the open bit alone too.  They may answer anything, and
  change every other field of the device structure.
\<close>

record 'd driver_spec =
  spec_init :: "'d \<Rightarrow> err \<times> 'd"
  spec_open :: "16 word \<Rightarrow> 'd \<Rightarrow> err \<times> 'd"
  spec_close :: "'d \<Rightarrow> err \<times> 'd"

definition same_session :: "rt_device \<Rightarrow> rt_device \<Rightarrow> bool" where
  "same_session d d' \<longleftrightarrow> ref_count d' = ref_count d \<and> standalone d' = standalone d \<and> activated d' = activated d"

definition hook_ok :: "('d dev_ctx \<Rightarrow> (err \<times> 'd dev_ctx) option) option \<Rightarrow> ('d \<Rightarrow> err \<times> 'd) \<Rightarrow> (err \<Rightarrow> bool) \<Rightarrow> bool" where
  "hook_ok hook g free \<longleftrightarrow>
    (case hook of
       None \<Rightarrow> (\<forall>p. g p = (RT_EOK, p))
     | Some f \<Rightarrow> \<forall>d p. \<exists>d'. f (d, p) = Some (fst (g p), d', snd (g p)) \<and> same_session d d' \<and> (free (fst (g p)) \<or> open_bit d' = open_bit d))"

definition driver_ok :: "'d rt_device_ops \<Rightarrow> 'd driver_spec \<Rightarrow> bool" where
  "driver_ok ops drv \<longleftrightarrow> hook_ok (device_init ops) (spec_init drv) (\<lambda>_. False) \<and>
    (\<forall>oflag. hook_ok (map_option (\<lambda>f. f oflag) (device_open ops)) (spec_open drv oflag) accepted) \<and>
    hook_ok (device_close ops) (spec_close drv) accepted"

text \<open>
  The specification of a session: the number of references, whether the device is marked open and has been
  activated, and the private state of the driver.
\<close>

datatype dev_call = Dev_open "16 word" | Dev_close

record 'd session =
  se_refs :: nat
  se_open :: bool
  se_active :: bool
  se_priv :: 'd

fun session_step :: "bool \<Rightarrow> 'd driver_spec \<Rightarrow> dev_call \<Rightarrow> 'd session \<Rightarrow> err \<times> 'd session" where
  "session_step alone drv (Dev_open oflag) S =
    (let (r, p) = if se_active S then (RT_EOK, se_priv S) else spec_init drv (se_priv S)
     in if r \<noteq> RT_EOK then (r, S\<lparr>se_priv := p\<rparr>)
        else let S1 = S\<lparr>se_active := True, se_priv := p\<rparr>
          in if alone \<and> se_open S then (- RT_EBUSY, S1)
             else let (r', q) = spec_open drv oflag p
               in (r', if accepted r' then S1\<lparr>se_refs := Suc (se_refs S), se_open := True, se_priv := q\<rparr> else S1\<lparr>se_priv := q\<rparr>))"
| "session_step alone drv Dev_close S =
    (case se_refs S of
       0 \<Rightarrow> (- RT_ERROR, S)
     | Suc 0 \<Rightarrow> let (r, q) = spec_close drv (se_priv S) in (r, S\<lparr>se_refs := 0, se_open := se_open S \<and> \<not> accepted r, se_priv := q\<rparr>)
     | Suc k \<Rightarrow> (RT_EOK, S\<lparr>se_refs := k\<rparr>))"

fun session_run :: "bool \<Rightarrow> 'd driver_spec \<Rightarrow> dev_call list \<Rightarrow> 'd session \<Rightarrow> err list \<times> 'd session" where
  "session_run alone drv [] S = ([], S)"
| "session_run alone drv (c # cs) S =
    (let (r, S1) = session_step alone drv c S; (rs, S2) = session_run alone drv cs S1 in (r # rs, S2))"

fun dev_run :: "nat \<Rightarrow> dev_call list \<Rightarrow> 'd dev_world \<Rightarrow> (err list \<times> 'd dev_world) option" where
  "dev_run n [] W = Some ([], W)"
| "dev_run n (c # cs) W = do {
     (r, W1) \<leftarrow> (case c of Dev_open oflag \<Rightarrow> rt_device_open n oflag W | Dev_close \<Rightarrow> rt_device_close n W);
     (rs, W2) \<leftarrow> dev_run n cs W1;
     Some (r # rs, W2)
   }"

definition device_session :: "nat \<Rightarrow> 'd dev_world \<Rightarrow> 'd session" where
  "device_session n W = \<lparr>se_refs = unat (ref_count (dw_devs W n)), se_open = open_bit (dw_devs W n),
     se_active = activated (dw_devs W n), se_priv = dw_priv W n\<rparr>"

text \<open>A device with references is open, and a standalone device has at most one reference.\<close>

definition session_ok :: "bool \<Rightarrow> 'd session \<Rightarrow> bool" where
  "session_ok alone S \<longleftrightarrow> (0 < se_refs S \<longrightarrow> se_open S) \<and> (alone \<longrightarrow> se_refs S \<le> 1)"

text \<open>The number of opens in a sequence, and that no caller passes the open bit, which is a mark of the device layer.\<close>

fun opens :: "dev_call list \<Rightarrow> nat" where
  "opens [] = 0"
| "opens (Dev_open oflag # cs) = Suc (opens cs)"
| "opens (Dev_close # cs) = opens cs"

fun plain_flags :: "dev_call \<Rightarrow> bool" where
  "plain_flags (Dev_open oflag) \<longleftrightarrow> oflag AND RT_DEVICE_OFLAG_OPEN = 0"
| "plain_flags Dev_close \<longleftrightarrow> True"

definition only_device :: "nat \<Rightarrow> 'd dev_world \<Rightarrow> 'd dev_world \<Rightarrow> bool" where
  "only_device n W W' \<longleftrightarrow> dw_kernel W' = dw_kernel W \<and> dw_ops W' = dw_ops W \<and> (\<forall>m. m \<noteq> n \<longrightarrow> dev_ctx m W' = dev_ctx m W)"

subsection \<open>The specification keeps its invariant\<close>

lemma session_step_ok:
  assumes "session_ok alone S"
  shows "session_ok alone (snd (session_step alone drv c S))"
  using assms by (cases c) (auto simp: session_ok_def Let_def split: prod.splits nat.splits)

lemma session_run_ok: "session_ok alone S \<Longrightarrow> session_ok alone (snd (session_run alone drv cs S))"
proof (induction cs arbitrary: S)
  case (Cons c cs)
  from Cons.IH [OF session_step_ok [OF Cons.prems, of drv c]] show ?case by (simp add: case_prod_beta Let_def)
qed simp

text \<open>With a driver that never refuses to close, a device without references is not marked open.\<close>

lemma session_step_closed:
  assumes "\<forall>p. accepted (fst (spec_close drv p))" "se_open S \<longleftrightarrow> 0 < se_refs S"
  shows "se_open (snd (session_step alone drv c S)) \<longleftrightarrow> 0 < se_refs (snd (session_step alone drv c S))"
  using assms by (cases c) (auto simp: Let_def split: prod.splits nat.splits, metis fst_conv)

lemma session_run_closed:
  assumes "\<forall>p. accepted (fst (spec_close drv p))" "se_open S \<longleftrightarrow> 0 < se_refs S"
  shows "se_open (snd (session_run alone drv cs S)) \<longleftrightarrow> 0 < se_refs (snd (session_run alone drv cs S))"
  using assms(2)
proof (induction cs arbitrary: S)
  case (Cons c cs)
  from Cons.IH [OF session_step_closed [OF assms(1) Cons.prems, of alone c]] show ?case by (simp add: case_prod_beta Let_def)
qed simp

lemma session_step_refs: "se_refs (snd (session_step alone drv c S)) + opens cs \<le> se_refs S + opens (c # cs)"
  by (cases c) (auto simp: Let_def split: prod.splits nat.splits)

subsection \<open>The code follows the specification\<close>

lemma only_device_refl [simp]: "only_device n W W"
  by (simp add: only_device_def)

lemma only_device_trans [trans]: "only_device n W W' \<Longrightarrow> only_device n W' W'' \<Longrightarrow> only_device n W W''"
  by (simp add: only_device_def)

lemma only_device_upd [simp]: "only_device n W (upd_dev n f W') = only_device n W W'" "only_device n W (put_ctx n c W') = only_device n W W'"
  by (auto simp: only_device_def upd_dev_def put_ctx_def dev_ctx_def)

lemma only_deviceD:
  assumes "only_device n W W'"
  shows "dw_kernel W' = dw_kernel W" "dw_ops W' = dw_ops W" "is_device m W' = is_device m W"
  using assms by (auto simp: only_device_def is_device_def)

lemma dev_simps [simp]:
  "dw_devs (upd_dev n f W) n = f (dw_devs W n)" "dw_ops (upd_dev n f W) = dw_ops W" "dw_kernel (upd_dev n f W) = dw_kernel W"
  "dw_devs (put_ctx n c W) n = fst c" "dw_ops (put_ctx n c W) = dw_ops W" "dw_kernel (put_ctx n c W) = dw_kernel W" "fst (dev_ctx n W) = dw_devs W n"
  "dw_priv (upd_dev n f W) = dw_priv W" "dw_priv (put_ctx n c W) n = snd c" "snd (dev_ctx n W) = dw_priv W n"
  by (simp_all add: upd_dev_def put_ctx_def dev_ctx_def)

lemma flag_bits [simp]: "((x :: 16 word) OR 0x10) AND 8 = x AND 8" "(x OR 8) AND 8 = 8" "(x OR 0x10) AND 0x10 = 0x10"
  by (simp_all add: bit.conj_disj_distrib2)

lemma accepted_simps [simp]: "accepted 0" "accepted (- 6)" "\<not> accepted (- 7)" "\<not> accepted (- 1)"
  by (simp_all add: accepted_def rt_consts)

lemma hook_okE:
  assumes "hook_ok hook g free" "hook = Some f"
  obtains d' where "f (dev_ctx n W) = Some (fst (g (dw_priv W n)), d', snd (g (dw_priv W n)))" "same_session (dw_devs W n) d'"
    "free (fst (g (dw_priv W n))) \<or> open_bit d' = open_bit (dw_devs W n)"
  using assms unfolding hook_ok_def dev_ctx_def by fastforce

lemma hook_ok_None: "hook_ok None g free \<Longrightarrow> g p = (RT_EOK, p)"
  by (simp add: hook_ok_def)

lemma session_fields:
  assumes "device_session n W' = S"
  shows "unat (ref_count (dw_devs W' n)) = se_refs S" "open_bit (dw_devs W' n) = se_open S" "activated (dw_devs W' n) = se_active S" "dw_priv W' n = se_priv S"
  using assms by (auto simp: device_session_def)

text \<open>Opening: the activation, then the call of the driver.\<close>

lemma open_activate_result:
  assumes drv: "driver_ok (dw_ops W n) drv"
  defines "a \<equiv> if activated (dw_devs W n) then (RT_EOK, dw_priv W n) else spec_init drv (dw_priv W n)"
  shows "\<exists>W'. open_activate n W = Some (fst a, W') \<and> only_device n W W' \<and> standalone (dw_devs W' n) = standalone (dw_devs W n) \<and>
    device_session n W' = (device_session n W)\<lparr>se_active := activated (dw_devs W n) \<or> fst a = RT_EOK, se_priv := snd a\<rparr>"
proof (cases "activated (dw_devs W n)")
  case True
  then show ?thesis by (simp add: open_activate_def a_def activated_def device_session_def rt_consts)
next
  case False
  note a = a_def [simplified False if_False]
  have h: "hook_ok (device_init (dw_ops W n)) (spec_init drv) (\<lambda>_. False)" using drv by (simp add: driver_ok_def)
  show ?thesis
  proof (cases "device_init (dw_ops W n)")
    case None
    then have "a = (RT_EOK, dw_priv W n)" unfolding a using hook_ok_None h by metis
    then show ?thesis using None False
      by (auto simp: open_activate_def activated_def device_session_def open_bit_def standalone_def rt_consts)
  next
    case (Some f)
    obtain d' where d': "f (dev_ctx n W) = Some (fst a, d', snd a)" "same_session (dw_devs W n) d'" "open_bit d' = open_bit (dw_devs W n)"
      using hook_okE [OF h Some] unfolding a by blast
    then show ?thesis using Some False
      by (cases "fst a = RT_EOK") (auto simp: open_activate_def activated_def device_session_def open_bit_def standalone_def same_session_def)
  qed
qed

text \<open>
  The open bit is one of the bits that \<^verbatim>\<open>RT_DEVICE_OFLAG_MASK\<close> selects, so for an open device the comparison with the
  flags of the new call always fails unless the caller passes the open bit: the driver is opened
  again although the access flags are the same.
\<close>

lemma reopen_calls_driver:
  assumes "oflag AND RT_DEVICE_OFLAG_OPEN = 0"
  shows "open_driver n oflag W =
    (case device_open (dw_ops W n) of
       Some f \<Rightarrow> do { (result, c) \<leftarrow> f oflag (dev_ctx n W); Some (result, put_ctx n c W) }
     | None \<Rightarrow> Some (RT_EOK, upd_dev n (\<lambda>d. d\<lparr>open_flag := oflag AND RT_DEVICE_OFLAG_MASK\<rparr>) W))"
proof (cases "open_bit (dw_devs W n)")
  case True
  then have "(open_flag (dw_devs W n) AND 0xf0f) AND 8 \<noteq> (oflag AND 0xf0f) AND 8" using assms by (simp add: open_bit_def and.assoc)
  then have "open_flag (dw_devs W n) AND 0xf0f \<noteq> oflag AND 0xf0f" by metis
  then show ?thesis by (simp add: open_driver_def)
qed (simp add: open_driver_def open_bit_def)

lemma open_driver_result:
  assumes drv: "driver_ok (dw_ops W n) drv" and flags: "oflag AND RT_DEVICE_OFLAG_OPEN = 0"
  defines "a \<equiv> spec_open drv oflag (dw_priv W n)"
  shows "\<exists>W'. open_driver n oflag W = Some (fst a, W') \<and> only_device n W W' \<and> same_session (dw_devs W n) (dw_devs W' n) \<and>
    dw_priv W' n = snd a \<and> (accepted (fst a) \<or> open_bit (dw_devs W' n) = open_bit (dw_devs W n))"
proof -
  have h: "hook_ok (map_option (\<lambda>f. f oflag) (device_open (dw_ops W n))) (spec_open drv oflag) accepted" using drv by (simp add: driver_ok_def)
  show ?thesis
  proof (cases "device_open (dw_ops W n)")
    case None
    then have "a = (RT_EOK, dw_priv W n)" unfolding a_def using hook_ok_None h by (metis option.map_disc_iff)
    then show ?thesis using None by (auto simp: reopen_calls_driver [OF flags] same_session_def standalone_def activated_def accepted_def)
  next
    case (Some f)
    then have "map_option (\<lambda>f. f oflag) (device_open (dw_ops W n)) = Some (f oflag)" by simp
    from hook_okE [OF h this] obtain d' where "f oflag (dev_ctx n W) = Some (fst a, d', snd a)" "same_session (dw_devs W n) d'"
      "accepted (fst a) \<or> open_bit d' = open_bit (dw_devs W n)" unfolding a_def by blast
    then show ?thesis using Some by (auto simp: reopen_calls_driver [OF flags])
  qed
qed

lemma device_open_step:
  assumes dev: "is_device n W" and drv: "driver_ok (dw_ops W n) drv" and room: "unat (ref_count (dw_devs W n)) < 255"
    and flags: "oflag AND RT_DEVICE_OFLAG_OPEN = 0"
  defines "st \<equiv> session_step (standalone (dw_devs W n)) drv (Dev_open oflag) (device_session n W)"
  shows "\<exists>W'. rt_device_open n oflag W = Some (fst st, W') \<and> only_device n W W' \<and> standalone (dw_devs W' n) = standalone (dw_devs W n) \<and>
    device_session n W' = snd st"
proof -
  define a where "a = (if activated (dw_devs W n) then (RT_EOK, dw_priv W n) else spec_init drv (dw_priv W n))"
  obtain W1 where w1: "open_activate n W = Some (fst a, W1)" "only_device n W W1" "standalone (dw_devs W1 n) = standalone (dw_devs W n)"
    "device_session n W1 = (device_session n W)\<lparr>se_active := activated (dw_devs W n) \<or> fst a = RT_EOK, se_priv := snd a\<rparr>"
    using open_activate_result [OF drv] unfolding a_def by blast
  note f1 = session_fields [OF w1(4)]
  have r1: "ref_count (dw_devs W1 n) = ref_count (dw_devs W n)" "open_bit (dw_devs W1 n) = open_bit (dw_devs W n)" "dw_priv W1 n = snd a"
    using f1 by (simp_all add: device_session_def word_unat_eq_iff)
  have st: "st = (if fst a \<noteq> RT_EOK then (fst a, (device_session n W)\<lparr>se_priv := snd a\<rparr>)
    else if standalone (dw_devs W n) \<and> open_bit (dw_devs W n) then (- RT_EBUSY, device_session n W1)
    else let b = spec_open drv oflag (snd a) in (fst b, if accepted (fst b) then (device_session n W1)\<lparr>se_refs := Suc (unat (ref_count (dw_devs W n))), se_open := True, se_priv := snd b\<rparr>
      else (device_session n W1)\<lparr>se_priv := snd b\<rparr>))"
    unfolding st_def w1(4) by (simp add: device_session_def a_def Let_def case_prod_beta)
  consider (init) "fst a \<noteq> RT_EOK" | (busy) "fst a = RT_EOK" "standalone (dw_devs W n) \<and> open_bit (dw_devs W n)"
    | (call) "fst a = RT_EOK" "\<not> (standalone (dw_devs W n) \<and> open_bit (dw_devs W n))" by blast
  then show ?thesis
  proof cases
    case init
    then have "activated (dw_devs W n) = False" by (auto simp: a_def)
    then show ?thesis using init w1 dev st by (auto simp: rt_device_open_def device_session_def)
  next
    case busy
    then have "rt_device_open n oflag W = Some (- RT_EBUSY, W1)" using w1(1,3) r1(2) dev by (auto simp: rt_device_open_def standalone_def open_bit_def)
    then show ?thesis using w1 st busy by simp
  next
    case call
    let ?b = "spec_open drv oflag (snd a)"
    have "driver_ok (dw_ops W1 n) drv" using drv only_deviceD(2) [OF w1(2)] by simp
    from open_driver_result [OF this flags] obtain W2 where w2: "open_driver n oflag W1 = Some (fst ?b, W2)" "only_device n W1 W2"
      "same_session (dw_devs W1 n) (dw_devs W2 n)" "dw_priv W2 n = snd ?b" "accepted (fst ?b) \<or> open_bit (dw_devs W2 n) = open_bit (dw_devs W1 n)" unfolding r1(3) by blast
    let ?W = "if accepted (fst ?b) then upd_dev n (\<lambda>d. d\<lparr>open_flag := open_flag d OR RT_DEVICE_OFLAG_OPEN, ref_count := ref_count d + 1\<rparr>) W2 else W2"
    have plus: "unat (ref_count (dw_devs W n) + 1) = Suc (unat (ref_count (dw_devs W n)))" using room by (simp add: unat_plus_if_size word_size)
    then have nz: "ref_count (dw_devs W n) + 1 \<noteq> 0" by (metis Zero_not_Suc unat_0)
    have "rt_device_open n oflag W = Some (fst ?b, ?W)" using w1(1,3) w2(1,3) dev call nz r1
      by (auto simp: rt_device_open_def standalone_def open_bit_def accepted_def same_session_def)
    moreover have "only_device n W ?W" using only_device_trans [OF w1(2) w2(2)] by simp
    moreover have "standalone (dw_devs ?W n) = standalone (dw_devs W n)" using w1(3) w2(3) by (simp add: same_session_def standalone_def)
    moreover have "device_session n ?W = snd st" using call w2(3-5) r1 plus unfolding st
      by (auto simp: device_session_def same_session_def activated_def open_bit_def Let_def)
    moreover have "fst st = fst ?b" using call unfolding st by (auto simp: Let_def)
    ultimately show ?thesis by auto
  qed
qed

lemma device_close_step:
  assumes dev: "is_device n W" and drv: "driver_ok (dw_ops W n) drv"
  defines "st \<equiv> session_step (standalone (dw_devs W n)) drv Dev_close (device_session n W)"
  shows "\<exists>W'. rt_device_close n W = Some (fst st, W') \<and> only_device n W W' \<and> standalone (dw_devs W' n) = standalone (dw_devs W n) \<and>
    device_session n W' = snd st"
proof (cases "ref_count (dw_devs W n) = 0")
  case True
  then show ?thesis using dev by (simp add: rt_device_close_def st_def device_session_def)
next
  case False
  define W1 where "W1 = upd_dev n (\<lambda>d. d\<lparr>ref_count := ref_count d - 1\<rparr>) W"
  have minus: "unat (ref_count (dw_devs W n)) = Suc (unat (ref_count (dw_devs W n) - 1))"
    using unat_minus_one [OF False] False by (simp add: unat_gt_0)
  have w1: "only_device n W W1" "standalone (dw_devs W1 n) = standalone (dw_devs W n)" "ref_count (dw_devs W1 n) = ref_count (dw_devs W n) - 1"
    "device_session n W1 = (device_session n W)\<lparr>se_refs := unat (ref_count (dw_devs W n) - 1)\<rparr>" "dw_priv W1 n = dw_priv W n" "open_bit (dw_devs W1 n) = open_bit (dw_devs W n)"
    "activated (dw_devs W1 n) = activated (dw_devs W n)" by (simp_all add: W1_def standalone_def device_session_def open_bit_def activated_def)
  show ?thesis
  proof (cases "ref_count (dw_devs W n) - 1 = 0")
    case more: False
    then have "rt_device_close n W = Some (RT_EOK, W1)" using False dev by (simp add: rt_device_close_def W1_def)
    moreover obtain k where "unat (ref_count (dw_devs W n) - 1) = Suc k" using more by (metis not0_implies_Suc unat_eq_zero)
    then have "st = (RT_EOK, device_session n W1)" unfolding st_def w1(4) using minus by (simp add: device_session_def)
    ultimately show ?thesis using w1(1,2) by simp
  next
    case last: True
    define a where "a = spec_close drv (dw_priv W n)"
    have h: "hook_ok (device_close (dw_ops W n)) (spec_close drv) accepted" using drv by (simp add: driver_ok_def)
    have "\<exists>W2. (case device_close (dw_ops W n) of Some f \<Rightarrow> do { (result, c) \<leftarrow> f (dev_ctx n W1); Some (result, put_ctx n c W1) } | None \<Rightarrow> Some (RT_EOK, W1)) = Some (fst a, W2) \<and>
      only_device n W W2 \<and> same_session (dw_devs W1 n) (dw_devs W2 n) \<and> dw_priv W2 n = snd a \<and> (accepted (fst a) \<or> open_bit (dw_devs W2 n) = open_bit (dw_devs W1 n))"
    proof (cases "device_close (dw_ops W n)")
      case None
      then have "a = (RT_EOK, dw_priv W n)" unfolding a_def using hook_ok_None h by metis
      then show ?thesis using None w1(1,5) by (simp add: same_session_def)
    next
      case (Some f)
      obtain d' where "f (dev_ctx n W1) = Some (fst a, d', snd a)" "same_session (dw_devs W1 n) d'" "accepted (fst a) \<or> open_bit d' = open_bit (dw_devs W1 n)"
        using hook_okE [OF h Some, of n W1] unfolding a_def w1(5) by blast
      then show ?thesis using Some w1(1) by auto
    qed
    then obtain W2 where w2: "(case device_close (dw_ops W n) of Some f \<Rightarrow> do { (result, c) \<leftarrow> f (dev_ctx n W1); Some (result, put_ctx n c W1) } | None \<Rightarrow> Some (RT_EOK, W1)) = Some (fst a, W2)"
      "only_device n W W2" "same_session (dw_devs W1 n) (dw_devs W2 n)" "dw_priv W2 n = snd a" "accepted (fst a) \<or> open_bit (dw_devs W2 n) = open_bit (dw_devs W1 n)" by blast
    define W3 where "W3 = (if accepted (fst a) then upd_dev n (\<lambda>d. d\<lparr>open_flag := RT_DEVICE_OFLAG_CLOSE\<rparr>) W2 else W2)"
    have "rt_device_close n W = Some (fst a, W3)" using False dev last w2(1) unfolding rt_device_close_def W1_def W3_def by (simp add: accepted_def)
    moreover have "only_device n W W3" "standalone (dw_devs W3 n) = standalone (dw_devs W n)" using w2(2,3) w1(2) by (simp_all add: W3_def same_session_def standalone_def)
    moreover have "st = (fst a, (device_session n W)\<lparr>se_refs := 0, se_open := open_bit (dw_devs W n) \<and> \<not> accepted (fst a), se_priv := snd a\<rparr>)"
      unfolding st_def using minus last by (simp add: device_session_def a_def case_prod_beta)
    moreover have "device_session n W3 = (device_session n W)\<lparr>se_refs := 0, se_open := open_bit (dw_devs W n) \<and> \<not> accepted (fst a), se_priv := snd a\<rparr>"
      using w2(3-5) w1(3,6,7) last by (auto simp: W3_def device_session_def same_session_def open_bit_def activated_def)
    ultimately show ?thesis by simp
  qed
qed

subsection \<open>Sequences of calls\<close>

locale device_driver =
  fixes ops :: "'d rt_device_ops" and drv :: "'d driver_spec"
  assumes driver: "driver_ok ops drv"
begin

lemma call_step:
  assumes "is_device n W" "dw_ops W n = ops" "unat (ref_count (dw_devs W n)) + opens (c # cs) \<le> 255" "plain_flags c"
  defines "st \<equiv> session_step (standalone (dw_devs W n)) drv c (device_session n W)"
  shows "\<exists>W'. (case c of Dev_open oflag \<Rightarrow> rt_device_open n oflag W | Dev_close \<Rightarrow> rt_device_close n W) = Some (fst st, W') \<and> only_device n W W' \<and>
    standalone (dw_devs W' n) = standalone (dw_devs W n) \<and> device_session n W' = snd st"
proof -
  have d: "driver_ok (dw_ops W n) drv" using assms(2) driver by simp
  show ?thesis
  proof (cases c)
    case (Dev_open oflag)
    with assms(3,4) have "unat (ref_count (dw_devs W n)) < 255" "oflag AND 8 = 0" by simp_all
    from device_open_step [OF assms(1) d this] show ?thesis unfolding st_def Dev_open by simp
  next
    case Dev_close
    from device_close_step [OF assms(1) d] show ?thesis unfolding st_def Dev_close by simp
  qed
qed

lemma sessions:
  assumes "is_device n W" "dw_ops W n = ops" "unat (ref_count (dw_devs W n)) + opens cs \<le> 255" "\<forall>c \<in> set cs. plain_flags c"
  defines "run \<equiv> session_run (standalone (dw_devs W n)) drv cs (device_session n W)"
  shows "\<exists>W'. dev_run n cs W = Some (fst run, W') \<and> only_device n W W' \<and> device_session n W' = snd run"
  using assms(1-4) unfolding run_def
proof (induction cs arbitrary: W)
  case (Cons c cs)
  let ?st = "session_step (standalone (dw_devs W n)) drv c (device_session n W)"
  have "plain_flags c" using Cons.prems(4) by simp
  from call_step [OF Cons.prems(1-3) this] obtain W1 where w1: "(case c of Dev_open oflag \<Rightarrow> rt_device_open n oflag W | Dev_close \<Rightarrow> rt_device_close n W) = Some (fst ?st, W1)"
    "only_device n W W1" "standalone (dw_devs W1 n) = standalone (dw_devs W n)" "device_session n W1 = snd ?st" by blast
  have "unat (ref_count (dw_devs W1 n)) + opens cs \<le> unat (ref_count (dw_devs W n)) + opens (c # cs)"
    using session_step_refs [of _ drv c "device_session n W" cs] session_fields(1) [OF w1(4)] by (simp add: device_session_def)
  then have b: "unat (ref_count (dw_devs W1 n)) + opens cs \<le> 255" using Cons.prems(3) by linarith
  have "is_device n W1" "dw_ops W1 n = ops" using only_deviceD [OF w1(2)] Cons.prems(1,2) by auto
  from Cons.IH [OF this b] Cons.prems(4) obtain W' where w': "dev_run n cs W1 = Some (fst (session_run (standalone (dw_devs W n)) drv cs (snd ?st)), W')" "only_device n W1 W'"
    "device_session n W' = snd (session_run (standalone (dw_devs W n)) drv cs (snd ?st))" unfolding w1(3,4) by auto
  show ?case using w1(1) w' only_device_trans [OF w1(2) w'(2)] by (simp add: case_prod_beta Let_def)
qed simp

end

definition quiet_driver :: "'d driver_spec" where
  "quiet_driver = \<lparr>spec_init = Pair RT_EOK, spec_open = (\<lambda>_. Pair RT_EOK), spec_close = Pair RT_EOK\<rparr>"

lemma driver_ok_no_hooks: "device_init ops = None \<Longrightarrow> device_open ops = None \<Longrightarrow> device_close ops = None \<Longrightarrow> driver_ok ops quiet_driver"
  by (simp add: driver_ok_def hook_ok_def quiet_driver_def)

interpretation null_dev: device_driver null_ops quiet_driver
  by unfold_locales (rule driver_ok_no_hooks, simp_all add: null_ops_def)

interpretation zero_dev: device_driver zero_ops quiet_driver
  by unfold_locales (rule driver_ok_no_hooks, simp_all add: zero_ops_def)

interpretation random_dev: device_driver random_ops quiet_driver
  by unfold_locales (rule driver_ok_no_hooks, simp_all add: random_ops_def)

lemma bind_pair:
  "m \<bind> (\<lambda>(a, b). Some (g a b)) = map_option (\<lambda>(a, b). g a b) m" "m' \<bind> (\<lambda>(a, b, c). Some (h a b c)) = map_option (\<lambda>(a, b, c). h a b c) m'"
  by (cases m; cases m'; auto)+

text \<open>
  C13: sessions on a device.  Let the functions of the driver return, with answers that depend on the private state of the driver,
  and leave the reference count and the standalone and activated flags alone, and the open bit except in an accepted \<^verbatim>\<open>open\<close> or \<^verbatim>\<open>close\<close>;
  let callers not pass the open bit, and let at most 255 references be possible.  Then every sequence of \<^verbatim>\<open>rt_device_open\<close> and
  \<^verbatim>\<open>rt_device_close\<close> returns, touches nothing but this device, and gives exactly the answers and the final state of the session
  specification: an open answers what a failing \<^verbatim>\<open>init\<close> does, or \<^verbatim>\<open>-RT_EBUSY\<close> for a standalone device that is open, or what the driver
  does, and counts one reference when that is \<^verbatim>\<open>RT_EOK\<close> or \<^verbatim>\<open>-RT_ENOSYS\<close>; a close answers \<^verbatim>\<open>-RT_ERROR\<close> without references, \<^verbatim>\<open>RT_EOK\<close> while others
  remain, and at the last one what the driver does, and always gives up its reference; the open mark stays if the driver refuses
  to close.  A device with references stays marked open, a standalone one has at most one, and with a driver that does not refuse
  to close the mark goes with the last reference.  Afterwards \<^verbatim>\<open>rt_device_read\<close> and \<^verbatim>\<open>rt_device_write\<close> are refused with
  \<^verbatim>\<open>-RT_ERROR\<close> if no reference is left and otherwise go to the driver.
\<close>

theorem device_sessions:
  assumes "driver_ok (dw_ops W n) drv" "is_device n W" "session_ok (standalone (dw_devs W n)) (device_session n W)"
    and "unat (ref_count (dw_devs W n)) + opens cs \<le> 255" "\<forall>c \<in> set cs. plain_flags c"
  defines "run \<equiv> session_run (standalone (dw_devs W n)) drv cs (device_session n W)"
  shows "\<exists>W'. dev_run n cs W = Some (fst run, W') \<and> only_device n W W' \<and> device_session n W' = snd run \<and>
    session_ok (standalone (dw_devs W n)) (snd run) \<and>
    ((\<forall>p. accepted (fst (spec_close drv p))) \<and> (open_bit (dw_devs W n) \<longleftrightarrow> 0 < unat (ref_count (dw_devs W n))) \<longrightarrow>
      (se_open (snd run) \<longleftrightarrow> 0 < se_refs (snd run))) \<and>
    rt_device_read n pos buffer sz W' =
      (if se_refs (snd run) = 0 then Some (0, buffer, dev_errno (- RT_ERROR) W')
       else case device_read (dw_ops W n) of None \<Rightarrow> Some (0, buffer, dev_errno (- RT_ENOSYS) W')
         | Some f \<Rightarrow> map_option (\<lambda>(len, buffer', c). (len, buffer', put_ctx n c W')) (f pos buffer sz (dev_ctx n W'))) \<and>
    rt_device_write n pos buffer sz W' =
      (if se_refs (snd run) = 0 then Some (0, dev_errno (- RT_ERROR) W')
       else case device_write (dw_ops W n) of None \<Rightarrow> Some (0, dev_errno (- RT_ENOSYS) W')
         | Some f \<Rightarrow> map_option (\<lambda>(len, c). (len, put_ctx n c W')) (f pos buffer sz (dev_ctx n W')))"
proof -
  from device_driver.sessions [OF device_driver.intro, OF assms(1,2) refl assms(4,5)] obtain W' where
    w: "dev_run n cs W = Some (fst run, W')" "only_device n W W'" "device_session n W' = snd run" unfolding run_def by blast
  have d: "is_device n W'" "dw_ops W' = dw_ops W" using only_deviceD [OF w(2)] assms(2) by auto
  have z: "ref_count (dw_devs W' n) = 0 \<longleftrightarrow> se_refs (snd run) = 0" using session_fields(1) [OF w(3)] by (metis unat_eq_zero)
  have "session_ok (standalone (dw_devs W n)) (snd run)" unfolding run_def by (rule session_run_ok [OF assms(3)])
  moreover have "(\<forall>p. accepted (fst (spec_close drv p))) \<and> (open_bit (dw_devs W n) \<longleftrightarrow> 0 < unat (ref_count (dw_devs W n))) \<longrightarrow>
      (se_open (snd run) \<longleftrightarrow> 0 < se_refs (snd run))"
    unfolding run_def by (intro impI session_run_closed) (simp_all add: device_session_def)
  moreover have "rt_device_read n pos buffer sz W' = (if se_refs (snd run) = 0 then Some (0, buffer, dev_errno (- RT_ERROR) W')
       else case device_read (dw_ops W n) of None \<Rightarrow> Some (0, buffer, dev_errno (- RT_ENOSYS) W')
         | Some f \<Rightarrow> map_option (\<lambda>(len, buffer', c). (len, buffer', put_ctx n c W')) (f pos buffer sz (dev_ctx n W')))"
    unfolding rt_device_read_def z d(2) using d(1) by (auto simp: bind_pair split: option.splits)
  moreover have "rt_device_write n pos buffer sz W' = (if se_refs (snd run) = 0 then Some (0, dev_errno (- RT_ERROR) W')
       else case device_write (dw_ops W n) of None \<Rightarrow> Some (0, dev_errno (- RT_ENOSYS) W')
         | Some f \<Rightarrow> map_option (\<lambda>(len, c). (len, put_ctx n c W')) (f pos buffer sz (dev_ctx n W')))"
    unfolding rt_device_write_def z d(2) using d(1) by (auto simp: bind_pair split: option.splits)
  ultimately show ?thesis using w by (intro exI [of _ W'] conjI)
qed

text \<open>The null device, registered in the small system.\<close>

definition null_world :: "64 word dev_world" where
  "null_world = snd (snd (the (null_device_init 5 (False, \<lparr>dw_kernel = small_system, dw_devs = (\<lambda>_. blank_device), dw_ops = (\<lambda>_. blank_ops), dw_priv = (\<lambda>_. 0)\<rparr>))))"

lemma device_class: "RT_Object_Class_Device \<in> set object_classes"
  by (simp add: object_classes_def)

lemma misc_device_init_ok:
  assumes inv: "sched_inv (dw_kernel W)" and new: "OOther n \<notin> set (object_list (dw_kernel W) RT_Object_Class_Device)"
    and free: "find (\<lambda>a. same_name (obj_name (objs (dw_kernel W) a)) name) (object_list (dw_kernel W) RT_Object_Class_Device) = None"
  shows "\<exists>W'. misc_device_init name ops n (False, W) = Some (0, True, W') \<and> is_device n W' \<and> dw_ops W' n = ops \<and>
    ref_count (dw_devs W' n) = 0 \<and> open_flag (dw_devs W' n) = 0 \<and> dev_flag (dw_devs W' n) = RT_DEVICE_FLAG_RDWR \<and> sched_inv (dw_kernel W')"
proof -
  obtain s1 where s1: "rt_object_find (Some name) RT_Object_Class_Device (dw_kernel W) = Some (None, s1)" "sched_inv s1" "same_rest (dw_kernel W) s1"
    using find_total [OF inv device_class, of name] free by auto
  note same = same_rest_fields(2,3) [OF s1(3)]
  obtain s2 where s2: "rt_object_find (Some name) RT_Object_Class_Device s1 = Some (None, s2)" "sched_inv s2" "same_rest s1 s2"
    using find_total [OF s1(2) device_class, of name] free unfolding same by auto
  note same2 = same_rest_fields(2,3) [OF s2(3)]
  have "OOther n \<notin> set (object_list s2 RT_Object_Class_Device)" using new unfolding same same2 .
  from object_init_result [OF s2(2) device_class this, of name] obtain s3 where s3: "sched_inv s3"
    "rt_object_init (OOther n) RT_Object_Class_Device name s2 = Some (s3\<lparr>objs := (objs s2)(OOther n := (objs s2 (OOther n))\<lparr>obj_type := RT_Object_Class_Device OR RT_Object_Class_Static,
       obj_name := take RT_NAME_MAX name\<rparr>), object_list := (object_list s2)(RT_Object_Class_Device := OOther n # object_list s2 RT_Object_Class_Device)\<rparr>)" by blast
  show ?thesis using s1(1) s2(1) s3
    by (simp add: misc_device_init_def rt_device_find_def rt_device_register_def is_device_def upd_dev_def rt_object_get_type_def)
qed

lemma null_world_ok: "is_device 5 null_world" "dw_ops null_world 5 = null_ops" "ref_count (dw_devs null_world 5) = 0" "open_flag (dw_devs null_world 5) = 0"
  "dev_flag (dw_devs null_world 5) = RT_DEVICE_FLAG_RDWR"
proof -
  let ?W = "\<lparr>dw_kernel = small_system, dw_devs = (\<lambda>_. blank_device), dw_ops = (\<lambda>_. blank_ops), dw_priv = (\<lambda>_. 0)\<rparr> :: 64 word dev_world"
  have "\<exists>W'. misc_device_init ''null'' null_ops 5 (False, ?W) = Some (0, True, W') \<and> is_device 5 W' \<and> dw_ops W' 5 = null_ops \<and>
    ref_count (dw_devs W' 5) = 0 \<and> open_flag (dw_devs W' 5) = 0 \<and> dev_flag (dw_devs W' 5) = RT_DEVICE_FLAG_RDWR \<and> sched_inv (dw_kernel W')"
    by (rule misc_device_init_ok) (simp add: sched_inv_small, simp_all add: small_system_def kernel_reset_def)
  then show "is_device 5 null_world" "dw_ops null_world 5 = null_ops" "ref_count (dw_devs null_world 5) = 0" "open_flag (dw_devs null_world 5) = 0"
    "dev_flag (dw_devs null_world 5) = RT_DEVICE_FLAG_RDWR"
    unfolding null_world_def null_device_init_def by auto
qed

text \<open>
  A read-only recorder with functions of its own: \<^verbatim>\<open>init\<close> fails at the first try, \<^verbatim>\<open>open\<close> refuses writers, and the first \<^verbatim>\<open>close\<close> is
  refused because data are pending.  The private state counts the calls of \<^verbatim>\<open>init\<close> and \<^verbatim>\<open>close\<close>.
\<close>

definition recorder_spec :: "64 word driver_spec" where
  "recorder_spec = \<lparr>spec_init = (\<lambda>p. (if p = 0 then - RT_EIO else RT_EOK, p + 1)),
     spec_open = (\<lambda>oflag p. (if oflag AND 2 = 0 then RT_EOK else - RT_EINVAL, p)),
     spec_close = (\<lambda>p. (if p = 2 then - RT_EIO else RT_EOK, p + 1))\<rparr>"

definition recorder_ops :: "64 word rt_device_ops" where
  "recorder_ops = null_ops\<lparr>device_init := Some (\<lambda>(d, p). let (r, q) = spec_init recorder_spec p in Some (r, d, q)),
     device_open := Some (\<lambda>oflag (d, p). let (r, q) = spec_open recorder_spec oflag p in Some (r, d\<lparr>open_flag := open_flag d OR (oflag AND 3)\<rparr>, q)),
     device_close := Some (\<lambda>(d, p). let (r, q) = spec_close recorder_spec p in Some (r, d, q))\<rparr>"

lemma recorder_bits: "(x OR (y AND (3 :: 16 word))) AND 8 = x AND 8"
  by (simp add: bit.conj_disj_distrib2 and.assoc)

interpretation recorder: device_driver recorder_ops recorder_spec
  by unfold_locales (simp add: driver_ok_def hook_ok_def recorder_ops_def Let_def case_prod_beta same_session_def standalone_def activated_def open_bit_def recorder_bits)

definition recorder_world :: "16 word \<Rightarrow> 64 word dev_world" where
  "recorder_world flags = upd_dev 5 (\<lambda>d. d\<lparr>dev_flag := flags\<rparr>) (null_world\<lparr>dw_ops := (dw_ops null_world)(5 := recorder_ops), dw_priv := (\<lambda>_. 0)\<rparr>)"

lemma recorder_world_ok:
  "is_device 5 (recorder_world flags)" "dw_ops (recorder_world flags) 5 = recorder_ops" "ref_count (dw_devs (recorder_world flags) 5) = 0"
  "open_flag (dw_devs (recorder_world flags) 5) = 0" "dev_flag (dw_devs (recorder_world flags) 5) = flags" "dw_priv (recorder_world flags) 5 = 0"
  using null_world_ok by (simp_all add: recorder_world_def is_device_def)

theorem device_sessions_witness:
  "\<exists>W' W''. dev_run 5 [Dev_open 1, Dev_open 3, Dev_open 1, Dev_open 1, Dev_close, Dev_close] (recorder_world 11) =
      Some ([- RT_EIO, - RT_EINVAL, RT_EOK, - RT_EBUSY, - RT_EIO, - RT_ERROR], W') \<and> se_open (device_session 5 W') \<and>
    dev_run 5 [Dev_open 1, Dev_open 1, Dev_open 1, Dev_close, Dev_close, Dev_open 1, Dev_close, Dev_close] (recorder_world 3) =
      Some ([- RT_EIO, RT_EOK, RT_EOK, RT_EOK, - RT_EIO, RT_EOK, RT_EOK, - RT_ERROR], W'') \<and> \<not> se_open (device_session 5 W'') \<and>
    rt_device_read 5 0 [] 0 W'' = Some (0, [], dev_errno (- RT_ERROR) W'')"
proof -
  have drv: "driver_ok (dw_ops (recorder_world flags) 5) recorder_spec" for flags unfolding recorder_world_ok(2) by (rule recorder.driver)
  have ok: "session_ok alone (device_session 5 (recorder_world flags))" for alone flags
    by (simp add: session_ok_def device_session_def recorder_world_ok)
  define c1 where "c1 = [Dev_open 1, Dev_open 3, Dev_open 1, Dev_open 1, Dev_close, Dev_close]"
  define c2 where "c2 = [Dev_open 1, Dev_open 1, Dev_open 1, Dev_close, Dev_close, Dev_open 1, Dev_close, Dev_close]"
  have s: "device_session 5 (recorder_world 11) = \<lparr>se_refs = 0, se_open = False, se_active = False, se_priv = 0\<rparr>"
    "device_session 5 (recorder_world 3) = \<lparr>se_refs = 0, se_open = False, se_active = False, se_priv = 0\<rparr>"
    "standalone (dw_devs (recorder_world 11) 5)" "\<not> standalone (dw_devs (recorder_world 3) 5)"
    by (simp_all add: device_session_def recorder_world_ok open_bit_def activated_def standalone_def)
  have r: "fst (session_run True recorder_spec c1 \<lparr>se_refs = 0, se_open = False, se_active = False, se_priv = 0\<rparr>) = [- RT_EIO, - RT_EINVAL, RT_EOK, - RT_EBUSY, - RT_EIO, - RT_ERROR]"
    "se_open (snd (session_run True recorder_spec c1 \<lparr>se_refs = 0, se_open = False, se_active = False, se_priv = 0\<rparr>))"
    "fst (session_run False recorder_spec c2 \<lparr>se_refs = 0, se_open = False, se_active = False, se_priv = 0\<rparr>) = [- RT_EIO, RT_EOK, RT_EOK, RT_EOK, - RT_EIO, RT_EOK, RT_EOK, - RT_ERROR]"
    "\<not> se_open (snd (session_run False recorder_spec c2 \<lparr>se_refs = 0, se_open = False, se_active = False, se_priv = 0\<rparr>))"
    "se_refs (snd (session_run False recorder_spec c2 \<lparr>se_refs = 0, se_open = False, se_active = False, se_priv = 0\<rparr>)) = 0"
    by (simp_all add: c1_def c2_def recorder_spec_def rt_consts accepted_def Let_def)
  have p: "unat (ref_count (dw_devs (recorder_world 11) 5)) + opens c1 \<le> 255" "unat (ref_count (dw_devs (recorder_world 3) 5)) + opens c2 \<le> 255"
    "\<forall>c \<in> set c1. plain_flags c" "\<forall>c \<in> set c2. plain_flags c"
    by (simp_all add: recorder_world_ok c1_def c2_def)
  have "standalone (dw_devs (recorder_world 11) 5) = True" "standalone (dw_devs (recorder_world 3) 5) = False" using s(3,4) by simp_all
  note s' = s(1,2) this
  from device_sessions [OF drv recorder_world_ok(1) ok p(1,3), of 0 "[]" 0, unfolded s'] obtain W1 where
    "dev_run 5 c1 (recorder_world 11) = Some ([- RT_EIO, - RT_EINVAL, RT_EOK, - RT_EBUSY, - RT_EIO, - RT_ERROR], W1)" "se_open (device_session 5 W1)"
    unfolding r(1) using r(2) by metis
  moreover from device_sessions [OF drv recorder_world_ok(1) ok p(2,4), of 0 "[]" 0, unfolded s'] obtain W2 where
    "dev_run 5 c2 (recorder_world 3) = Some ([- RT_EIO, RT_EOK, RT_EOK, RT_EOK, - RT_EIO, RT_EOK, RT_EOK, - RT_ERROR], W2)"
    "\<not> se_open (device_session 5 W2)" "rt_device_read 5 0 [] 0 W2 = Some (0, [], dev_errno (- RT_ERROR) W2)"
    unfolding r(3,5) using r(4) by (metis (full_types))
  ultimately show ?thesis unfolding c1_def c2_def by blast
qed

section \<open>Where the code departs from its intent\<close>

text \<open>The random drivers ignore the length of the buffer: they write two and read eight bytes of any buffer.\<close>

lemma random_ignores_length: "random_read pos [b] 1 c = None" "random_write pos [b] 1 c = None"
  by (simp_all add: random_read_def random_write_def split: prod.splits)

text \<open>If closing fails, the device is left without references but marked as open; a standalone device cannot be opened again.\<close>

lemma failed_close_blocks:
  assumes "is_device n W" "ref_count (dw_devs W n) = 1" "device_close (dw_ops W n) = Some (\<lambda>c. Some (r, c))" "\<not> accepted r" "open_bit (dw_devs W n)"
    "standalone (dw_devs W n)" "dev_flag (dw_devs W n) AND RT_DEVICE_FLAG_ACTIVATED \<noteq> 0"
  shows "\<exists>W'. rt_device_close n W = Some (r, W') \<and> ref_count (dw_devs W' n) = 0 \<and> rt_device_open n oflag W' = Some (- RT_EBUSY, W')"
  using assms by (auto simp: rt_device_close_def rt_device_open_def open_activate_def accepted_def open_bit_def standalone_def is_device_def dev_ctx_def put_ctx_def upd_dev_def)

end
