(* ===== verification/DataQueue.thy ===== *)
theory DataQueue
  imports Channel
begin

text \<open>
  Data queues, \<^verbatim>\<open>components/drivers/ipc/dataqueue.c\<close>: a ring of pointer and size pairs between drivers
  and threads, with 15-bit indices, flags that tell full from empty, and a low water mark at which
  a waiting writer is woken.  Access outside the ring ends the model (\<open>None\<close>).  The two wait lists are
  \<open>DqPush n\<close> and \<open>DqPop n\<close> of the kernel state.  The last action of a call is its notification
  \<^verbatim>\<open>evt_notify\<close>; the model returns the event that is passed to it.
\<close>

section \<open>State\<close>

type_synonym rt_data_item = "64 word \<times> 64 word"

record rt_data_queue =
  dq_magic :: "32 word"
  dq_size :: "16 word"
  lwm :: "16 word"
  get_index :: "15 word"
  is_empty :: bool
  put_index :: "15 word"
  is_full :: bool
  dq_queue :: "rt_data_item list"

abbreviation (input) DATAQUEUE_MAGIC :: "32 word" where "DATAQUEUE_MAGIC \<equiv> 0xbead0e0e"
abbreviation (input) RT_DATAQUEUE_EVENT_POP :: "32 word" where "RT_DATAQUEUE_EVENT_POP \<equiv> 1"
abbreviation (input) RT_DATAQUEUE_EVENT_PUSH :: "32 word" where "RT_DATAQUEUE_EVENT_PUSH \<equiv> 2"
abbreviation (input) RT_DATAQUEUE_EVENT_LWM :: "32 word" where "RT_DATAQUEUE_EVENT_LWM \<equiv> 3"

type_synonym dq_sys = "rt_data_queue \<times> kernel"

section \<open>The ring\<close>

definition dq_advance :: "15 word \<Rightarrow> rt_data_queue \<Rightarrow> 15 word" where
  "dq_advance i q = (if ucast (i + 1) = dq_size q then 0 else i + 1)"

definition dq_put :: "rt_data_item \<Rightarrow> rt_data_queue \<Rightarrow> rt_data_queue option" where
  "dq_put x q = do {
     rt_assert (unat (put_index q) < length (dq_queue q));
     let q1 = q\<lparr>dq_queue := (dq_queue q)[unat (put_index q) := x], put_index := dq_advance (put_index q) q, is_empty := False\<rparr>;
     Some (if put_index q1 = get_index q1 then q1\<lparr>is_full := True\<rparr> else q1)
   }"

definition dq_get :: "rt_data_queue \<Rightarrow> (rt_data_item \<times> rt_data_queue) option" where
  "dq_get q = do {
     rt_assert (unat (get_index q) < length (dq_queue q));
     let q1 = q\<lparr>get_index := dq_advance (get_index q) q, is_full := False\<rparr>;
     Some (dq_queue q ! unat (get_index q), if put_index q1 = get_index q1 then q1\<lparr>is_empty := True\<rparr> else q1)
   }"

definition rt_data_queue_len :: "rt_data_queue \<Rightarrow> 16 word option" where
  "rt_data_queue_len q = do {
     rt_assert (dq_magic q = DATAQUEUE_MAGIC);
     Some (if is_empty q then 0
           else if get_index q < put_index q then ucast (put_index q) - ucast (get_index q)
           else dq_size q + ucast (put_index q) - ucast (get_index q))
   }"

section \<open>Operations\<close>

text \<open>\<open>mem\<close> is what \<^verbatim>\<open>rt_malloc\<close> gives.\<close>

definition rt_data_queue_init :: "nat \<Rightarrow> rt_data_item list option \<Rightarrow> 16 word \<Rightarrow> 16 word \<Rightarrow> dq_sys \<Rightarrow> (err \<times> dq_sys) option" where
  "rt_data_queue_init n mem sz low = (\<lambda>(q, s). do {
     rt_assert (0 < sz);
     let q1 = \<lparr>dq_magic = DATAQUEUE_MAGIC, dq_size = sz, lwm = low, get_index = 0, is_empty = True,
               put_index = 0, is_full = False, dq_queue = (case mem of None \<Rightarrow> [] | Some items \<Rightarrow> items)\<rparr>;
     let s1 = s\<lparr>lists := (lists s)(DqPush n := [], DqPop n := [])\<rparr>;
     Some (if mem = None then - RT_ENOMEM else RT_EOK, q1, s1)
   })"

definition dq_push_loop :: "nat \<Rightarrow> rt_data_item \<Rightarrow> int \<Rightarrow> dq_sys \<Rightarrow> (err outcome \<times> 32 word option \<times> dq_sys) option" where
  "dq_push_loop n x timeout = (\<lambda>(q, s).
     if is_full q
     then if timeout = 0 then Some (Done (- RT_ETIMEOUT), None, q, s)
       else do { s1 \<leftarrow> plain_wait (tl_push_back (DqPush n)) timeout s; Some (Blocked, None, q, s1) }
     else do {
       q1 \<leftarrow> dq_put x q;
       if \<not> tl_isempty (DqPop n) s
       then do { s1 \<leftarrow> plain_wake (DqPop n) s; Some (Done RT_EOK, None, q1, s1) }
       else Some (Done RT_EOK, Some RT_DATAQUEUE_EVENT_PUSH, q1, s)
     })"

definition rt_data_queue_push :: "nat \<Rightarrow> rt_data_item \<Rightarrow> int \<Rightarrow> dq_sys \<Rightarrow> (err outcome \<times> 32 word option \<times> dq_sys) option" where
  "rt_data_queue_push n x timeout sys = do {
     rt_assert (dq_magic (fst sys) = DATAQUEUE_MAGIC);
     dq_push_loop n x timeout sys
   }"

definition rt_data_queue_push_resumed :: "nat \<Rightarrow> rt_data_item \<Rightarrow> int \<Rightarrow> dq_sys \<Rightarrow> (err outcome \<times> 32 word option \<times> dq_sys) option" where
  "rt_data_queue_push_resumed n x timeout = (\<lambda>(q, s). do {
     t \<leftarrow> rt_thread_self s;
     if thr_error (thr s t) \<noteq> RT_EOK then Some (Done (thr_error (thr s t)), None, q, s)
     else dq_push_loop n x timeout (q, s)
   })"

definition dq_pop_loop :: "nat \<Rightarrow> int \<Rightarrow> dq_sys \<Rightarrow> (err outcome \<times> rt_data_item option \<times> 32 word option \<times> dq_sys) option" where
  "dq_pop_loop n timeout = (\<lambda>(q, s).
     if is_empty q
     then if timeout = 0 then Some (Done (- RT_ETIMEOUT), None, None, q, s)
       else do { s1 \<leftarrow> plain_wait (tl_push_back (DqPop n)) timeout s; Some (Blocked, None, None, q, s1) }
     else do {
       (x, q1) \<leftarrow> dq_get q;
       len \<leftarrow> rt_data_queue_len q1;
       if len \<le> lwm q1
       then do {
         s1 \<leftarrow> (if \<not> tl_isempty (DqPush n) s then plain_wake (DqPush n) s else Some s);
         Some (Done RT_EOK, Some x, Some RT_DATAQUEUE_EVENT_LWM, q1, s1)
       }
       else Some (Done RT_EOK, Some x, Some RT_DATAQUEUE_EVENT_POP, q1, s)
     })"

definition rt_data_queue_pop :: "nat \<Rightarrow> int \<Rightarrow> dq_sys \<Rightarrow> (err outcome \<times> rt_data_item option \<times> 32 word option \<times> dq_sys) option" where
  "rt_data_queue_pop n timeout sys = do {
     rt_assert (dq_magic (fst sys) = DATAQUEUE_MAGIC);
     dq_pop_loop n timeout sys
   }"

definition rt_data_queue_pop_resumed :: "nat \<Rightarrow> int \<Rightarrow> dq_sys \<Rightarrow> (err outcome \<times> rt_data_item option \<times> 32 word option \<times> dq_sys) option" where
  "rt_data_queue_pop_resumed n timeout = (\<lambda>(q, s). do {
     t \<leftarrow> rt_thread_self s;
     if thr_error (thr s t) \<noteq> RT_EOK then Some (Done (thr_error (thr s t)), None, None, q, s)
     else dq_pop_loop n timeout (q, s)
   })"

definition rt_data_queue_peek :: "rt_data_queue \<Rightarrow> (err \<times> rt_data_item option) option" where
  "rt_data_queue_peek q = do {
     rt_assert (dq_magic q = DATAQUEUE_MAGIC);
     if is_empty q then Some (- RT_EEMPTY, None)
     else do {
       rt_assert (unat (get_index q) < length (dq_queue q));
       Some (RT_EOK, Some (dq_queue q ! unat (get_index q)))
     }
   }"

text \<open>The loops that wake all threads are those of \<^verbatim>\<open>_ipc_list_resume_all\<close>.\<close>

definition rt_data_queue_reset :: "nat \<Rightarrow> dq_sys \<Rightarrow> dq_sys option" where
  "rt_data_queue_reset n = (\<lambda>(q, s). do {
     rt_assert (dq_magic q = DATAQUEUE_MAGIC);
     let q1 = q\<lparr>get_index := 0, put_index := 0, is_empty := True, is_full := False\<rparr>;
     let s1 = rt_enter_critical s;
     s2 \<leftarrow> ipc_list_resume_all (DqPop n) s1;
     s3 \<leftarrow> ipc_list_resume_all (DqPush n) s2;
     s4 \<leftarrow> rt_exit_critical s3;
     s5 \<leftarrow> rt_schedule s4;
     Some (q1, s5)
   })"

definition rt_data_queue_deinit :: "nat \<Rightarrow> dq_sys \<Rightarrow> (err \<times> dq_sys) option" where
  "rt_data_queue_deinit n sys = do {
     (q, s) \<leftarrow> rt_data_queue_reset n sys;
     Some (RT_EOK, q\<lparr>dq_magic := 0, dq_queue := []\<rparr>, s)
   }"

section \<open>The contract: a bounded queue\<close>

definition dq_count :: "rt_data_queue \<Rightarrow> nat" where
  "dq_count q =
    (if is_empty q then 0
     else if get_index q < put_index q then unat (put_index q) - unat (get_index q)
     else unat (dq_size q) + unat (put_index q) - unat (get_index q))"

definition dq_contents :: "rt_data_queue \<Rightarrow> rt_data_item list" where
  "dq_contents q = ring_list (dq_queue q) (unat (get_index q)) (dq_count q)"

definition dq_ok :: "rt_data_queue \<Rightarrow> bool" where
  "dq_ok q \<longleftrightarrow> dq_magic q = DATAQUEUE_MAGIC \<and> 0 < unat (dq_size q) \<and> unat (dq_size q) \<le> 2 ^ 15 \<and>
     length (dq_queue q) = unat (dq_size q) \<and> unat (get_index q) < unat (dq_size q) \<and> unat (put_index q) < unat (dq_size q) \<and>
     (put_index q = get_index q \<longleftrightarrow> is_empty q \<or> is_full q) \<and> \<not> (is_empty q \<and> is_full q)"

lemma dq_okD:
  assumes "dq_ok q"
  shows "dq_magic q = DATAQUEUE_MAGIC" "0 < unat (dq_size q)" "unat (dq_size q) \<le> 2 ^ 15" "length (dq_queue q) = unat (dq_size q)"
    "unat (get_index q) < unat (dq_size q)" "unat (put_index q) < unat (dq_size q)"
    "put_index q = get_index q \<longleftrightarrow> is_empty q \<or> is_full q" "\<not> (is_empty q \<and> is_full q)"
  using assms by (simp_all add: dq_ok_def)

lemma dq_advance_unat:
  assumes "unat i < unat (dq_size q)" "unat (dq_size q) \<le> 2 ^ 15"
  shows "unat (dq_advance i q) = Suc (unat i) mod unat (dq_size q)"
proof (cases "Suc (unat i) = 2 ^ 15")
  case True
  then have "unat (i + 1) = 0" by (simp add: unat_word_ariths)
  then have "i + 1 = 0" by (simp add: unat_eq_zero)
  moreover have "unat (dq_size q) = 2 ^ 15" using assms True by simp
  ultimately show ?thesis using True by (auto simp: dq_advance_def)
next
  case False
  have "unat i < 2 ^ LENGTH(15)" by (rule unsigned_less)
  then have n: "unat (i + 1) = unat i + 1" using False unat_add_lem [of i 1] by simp
  then have "unat (ucast (i + 1) :: 16 word) = Suc (unat i)" using assms by (simp add: unsigned_ucast_eq take_bit_nat_eq_self)
  then have "ucast (i + 1) = dq_size q \<longleftrightarrow> Suc (unat i) = unat (dq_size q)" by (metis word_unat_eq_iff)
  then show ?thesis using assms n by (auto simp: dq_advance_def)
qed

lemma dq_count_alt:
  assumes "dq_ok q"
  shows "dq_count q \<le> unat (dq_size q)" "unat (put_index q) = (unat (get_index q) + dq_count q) mod unat (dq_size q)"
    "is_empty q \<longleftrightarrow> dq_count q = 0" "is_full q \<longleftrightarrow> dq_count q = unat (dq_size q)"
proof -
  note d = dq_okD [OF assms]
  have eq: "put_index q = get_index q \<longleftrightarrow> unat (put_index q) = unat (get_index q)" by (simp add: word_unat_eq_iff)
  show "dq_count q \<le> unat (dq_size q)" "is_empty q \<longleftrightarrow> dq_count q = 0" "is_full q \<longleftrightarrow> dq_count q = unat (dq_size q)"
    using d eq unfolding dq_count_def word_less_nat_alt by auto
  show "unat (put_index q) = (unat (get_index q) + dq_count q) mod unat (dq_size q)"
    using d eq unfolding dq_count_def word_less_nat_alt by (auto simp: mod_if)
qed

text \<open>A queue is determined by its read index and its length.\<close>

lemma dq_rep:
  assumes "dq_magic q = DATAQUEUE_MAGIC" "0 < unat (dq_size q)" "unat (dq_size q) \<le> 2 ^ 15" "length (dq_queue q) = unat (dq_size q)"
    and "unat (get_index q) < unat (dq_size q)" "k \<le> unat (dq_size q)"
    and put: "unat (put_index q) = (unat (get_index q) + k) mod unat (dq_size q)"
    and flags: "is_empty q \<longleftrightarrow> k = 0" "is_full q \<longleftrightarrow> k = unat (dq_size q)"
  shows "dq_ok q" "dq_count q = k"
proof -
  have p: "unat (put_index q) < unat (dq_size q)" using assms(2) put by simp
  have e: "unat (put_index q) = unat (get_index q) \<longleftrightarrow> k = 0 \<or> k = unat (dq_size q)"
    using assms(5,6) put by (cases "unat (get_index q) + k < unat (dq_size q)") (auto simp: mod_if)
  then show "dq_ok q"
    using assms p by (auto simp: dq_ok_def word_unat_eq_iff)
  show "dq_count q = k"
    using assms(2,5,6) put flags e unfolding dq_count_def word_less_nat_alt
    by (cases "unat (get_index q) + k < unat (dq_size q)") (auto simp: mod_if)
qed

lemma dq_put_ok:
  assumes ok: "dq_ok q" and room: "\<not> is_full q"
  obtains q' where "dq_put x q = Some q'" "dq_ok q'" "dq_contents q' = dq_contents q @ [x]" "dq_size q' = dq_size q" "lwm q' = lwm q"
proof -
  note d = dq_okD [OF ok] and c = dq_count_alt [OF ok]
  define k where "k = dq_count q"
  have k: "k < unat (dq_size q)" using c(1,4) room by (auto simp: k_def)
  let ?q1 = "q\<lparr>dq_queue := (dq_queue q)[unat (put_index q) := x], put_index := dq_advance (put_index q) q, is_empty := False\<rparr>"
  define q' where "q' = (if put_index ?q1 = get_index ?q1 then ?q1\<lparr>is_full := True\<rparr> else ?q1)"
  have adv: "unat (dq_advance (put_index q) q) = (unat (get_index q) + Suc k) mod unat (dq_size q)"
    using dq_advance_unat [OF d(6,3)] c(2) by (simp add: k_def mod_Suc_eq)
  have "dq_advance (put_index q) q = get_index q \<longleftrightarrow> Suc k = unat (dq_size q)"
    using adv d(5) k by (cases "unat (get_index q) + Suc k < unat (dq_size q)") (auto simp: word_unat_eq_iff mod_if)
  then have f: "is_full q' \<longleftrightarrow> Suc k = unat (dq_size q)" using room by (auto simp: q'_def)
  have fields: "dq_magic q' = dq_magic q" "dq_size q' = dq_size q" "get_index q' = get_index q" "lwm q' = lwm q" "\<not> is_empty q'"
    "put_index q' = dq_advance (put_index q) q" "dq_queue q' = (dq_queue q)[unat (put_index q) := x]" by (auto simp: q'_def)
  have r: "dq_ok q'" "dq_count q' = Suc k"
    by (rule dq_rep [of q' "Suc k"]; use d k adv f in \<open>simp add: fields\<close>)+
  have "dq_contents q' = dq_contents q @ [x]"
    unfolding dq_contents_def r(2) fields c(2) [folded k_def] using ring_list_push [of k "dq_queue q" "unat (get_index q)" x] k d(4)
    by (simp add: k_def)
  moreover have "dq_put x q = Some q'" using d(4,6) by (simp add: dq_put_def q'_def)
  ultimately show thesis using that [of q'] r(1) fields by blast
qed

lemma dq_get_ok:
  assumes ok: "dq_ok q" and some: "dq_contents q = y # ys"
  obtains q' where "dq_get q = Some (y, q')" "dq_ok q'" "dq_contents q' = ys" "dq_size q' = dq_size q" "lwm q' = lwm q"
proof -
  note d = dq_okD [OF ok] and c = dq_count_alt [OF ok]
  have "length (dq_contents q) = dq_count q" by (simp add: dq_contents_def)
  then obtain k where k: "dq_count q = Suc k" using some by (cases "dq_count q") auto
  let ?q1 = "q\<lparr>get_index := dq_advance (get_index q) q, is_full := False\<rparr>"
  define q' where "q' = (if put_index ?q1 = get_index ?q1 then ?q1\<lparr>is_empty := True\<rparr> else ?q1)"
  have adv: "unat (dq_advance (get_index q) q) = Suc (unat (get_index q)) mod unat (dq_size q)"
    using dq_advance_unat [OF d(5,3)] .
  have put: "unat (put_index q) = (Suc (unat (get_index q)) mod unat (dq_size q) + k) mod unat (dq_size q)"
    using c(2) k by (simp add: mod_simps)
  have lt: "k < unat (dq_size q)" using c(1) k by simp
  have "put_index q = dq_advance (get_index q) q \<longleftrightarrow> k = 0"
    using put adv lt ring_index_inj [of k "unat (dq_size q)" 0 "Suc (unat (get_index q)) mod unat (dq_size q)"] d(2)
    by (auto simp: word_unat_eq_iff)
  then have e: "is_empty q' \<longleftrightarrow> k = 0" using c(3) k by (auto simp: q'_def)
  have fields: "dq_magic q' = dq_magic q" "dq_size q' = dq_size q" "put_index q' = put_index q" "lwm q' = lwm q" "\<not> is_full q'"
    "get_index q' = dq_advance (get_index q) q" "dq_queue q' = dq_queue q" by (auto simp: q'_def)
  have r: "dq_ok q'" "dq_count q' = k"
    by (rule dq_rep [of q' k]; use d lt adv put e in \<open>simp add: fields\<close>)+
  have "dq_queue q ! unat (get_index q) = y" "dq_contents q' = ys"
    using ring_list_pop [of "dq_count q" "unat (get_index q)" "dq_queue q"] some d(4,5) k adv
    by (simp_all add: dq_contents_def r(2) fields)
  moreover have "dq_get q = Some (dq_queue q ! unat (get_index q), q')" using d(4,5) by (simp add: dq_get_def q'_def)
  ultimately show thesis using that [of q'] r(1) fields by blast
qed

lemma dq_flags:
  assumes "dq_ok q"
  shows "is_full q \<longleftrightarrow> length (dq_contents q) = unat (dq_size q)" "is_empty q \<longleftrightarrow> dq_contents q = []"
    "length (dq_contents q) \<le> unat (dq_size q)"
  using dq_count_alt [OF assms] unfolding dq_contents_def by (auto simp flip: length_0_conv)

lemma dq_len:
  assumes ok: "dq_ok q"
  shows "\<exists>w. rt_data_queue_len q = Some w \<and> unat w = length (dq_contents q)"
proof -
  note d = dq_okD [OF ok] and c = dq_count_alt [OF ok]
  have up: "unat (ucast (i :: 15 word) :: 16 word) = unat i" for i
  proof -
    have "unat i < 2 ^ LENGTH(15)" by (rule unsigned_less)
    then show ?thesis by (simp add: unsigned_ucast_eq take_bit_nat_eq_self)
  qed
  let ?p = "ucast (put_index q) :: 16 word" and ?g = "ucast (get_index q) :: 16 word"
  have s: "unat (dq_size q + ?p) = unat (dq_size q) + unat (put_index q)" using unat_add_lem [of "dq_size q" ?p] d(3,6) up by simp
  have "unat (?p - ?g) = unat (put_index q) - unat (get_index q)" if "get_index q < put_index q"
    using that up unat_sub [of ?g ?p] by (simp add: word_le_nat_alt word_less_nat_alt)
  moreover have "unat (dq_size q + ?p - ?g) = unat (dq_size q) + unat (put_index q) - unat (get_index q)"
    using up unat_sub [of ?g "dq_size q + ?p"] s d(5) by (simp add: word_le_nat_alt)
  ultimately show ?thesis
    using d(1) unfolding rt_data_queue_len_def dq_contents_def length_ring_list dq_count_def by simp
qed

interpretation dq: bounded_store dq_ok dq_contents "\<lambda>q. unat (dq_size q)" "\<lambda>x xs. xs @ [x]" "\<lambda>_ _. True"
  dq_put "\<lambda>_ _. None" dq_get is_full is_empty False
proof
  show "\<exists>q'. dq_put x q = Some q' \<and> dq_ok q' \<and> dq_contents q' = dq_contents q @ [x] \<and> unat (dq_size q') = unat (dq_size q) \<and> (\<forall>y. True = True)"
    if "dq_ok q" "length (dq_contents q) < unat (dq_size q)" for q x
    using dq_put_ok [OF that(1), of x] dq_flags(1) [OF that(1)] that(2) by (metis nat_neq_iff)
  show "\<exists>q'. dq_get q = Some (y, q') \<and> dq_ok q' \<and> dq_contents q' = ys \<and> unat (dq_size q') = unat (dq_size q) \<and> (\<forall>z. True = True)"
    if "dq_ok q" "dq_contents q = y # ys" for q y ys
    using dq_get_ok [OF that] by metis
qed (simp_all add: dq_flags)

section \<open>Properties\<close>

text \<open>
  C5: data queues of up to 32768 items, the range of the 15-bit indices, on every branch.  A push into a queue with room appends the item and wakes the first
  waiting reader (or, when none waits, notifies a push); into a full queue it answers
  \<^verbatim>\<open>-RT_ETIMEOUT\<close> or waits at the end of the list of writers.  A pop takes the oldest item; when not
  more items than the low water mark are left it wakes the first waiting writer and notifies the mark,
  otherwise it notifies a pop and wakes nobody; from an empty queue it answers \<^verbatim>\<open>-RT_ETIMEOUT\<close> or
  waits at the end of the list of readers.  All indices stay in range and the flags tell full from empty.
  The comments of the source promise the wake-up of a writer below the low water mark; the code wakes at the mark too.
\<close>

theorem data_queue_push_pop:
  assumes inv: "sys_inv s" and t: "rt_current_thread s = Some t" "stat_of s t = RT_THREAD_RUNNING"
    and ok: "dq_ok q" and time: "time < 0x7fffffff"
  shows "(if length (dq_contents q) < unat (dq_size q)
      then \<exists>q' s'. rt_data_queue_push n x time (q, s) =
          Some (Done RT_EOK, if lists s (DqPop n) = [] then Some RT_DATAQUEUE_EVENT_PUSH else None, q', s') \<and>
        dq_ok q' \<and> dq_size q' = dq_size q \<and> dq_contents q' = dq_contents q @ [x] \<and> woken_first (DqPop n) s s'
      else if time = 0 then rt_data_queue_push n x time (q, s) = Some (Done (- RT_ETIMEOUT), None, q, s)
      else \<exists>s'. rt_data_queue_push n x time (q, s) = Some (Blocked, None, q, s') \<and>
        blocked_on (DqPush n) t RT_IPC_FLAG_FIFO time (set_error t RT_EOK s) s') \<and>
    (case dq_contents q of
      y # ys \<Rightarrow> \<exists>q' s'. rt_data_queue_pop n time (q, s) = Some (Done RT_EOK, Some y,
          Some (if length ys \<le> unat (lwm q) then RT_DATAQUEUE_EVENT_LWM else RT_DATAQUEUE_EVENT_POP), q', s') \<and>
        dq_ok q' \<and> dq_size q' = dq_size q \<and> dq_contents q' = ys \<and> (if length ys \<le> unat (lwm q) then woken_first (DqPush n) s s' else s' = s)
    | [] \<Rightarrow> if time = 0 then rt_data_queue_pop n time (q, s) = Some (Done (- RT_ETIMEOUT), None, None, q, s)
      else \<exists>s'. rt_data_queue_pop n time (q, s) = Some (Blocked, None, None, q, s') \<and>
        blocked_on (DqPop n) t RT_IPC_FLAG_FIFO time (set_error t RT_EOK s) s')"
    (is "?push \<and> ?pop")
proof
  note m = dq_okD(1) [OF ok] and f = dq_flags [OF ok]
  have wait: "\<exists>s'. plain_wait (tl_push_back l) time s = Some s' \<and> blocked_on l t RT_IPC_FLAG_FIFO time (set_error t RT_EOK s) s'" if "wait_id l" for l
    using that by (intro plain_wait_ok [OF inv t time]) (simp_all add: push_back_enqueued)
  have wake: "\<exists>s'. (if \<not> tl_isempty l s then plain_wake l s else Some s) = Some s' \<and> woken_first l s s'" if "wait_id l" for l
    by (rule plain_wake_ok [OF inv that], cases "lists s l") (auto simp: tl_isempty_def woken_first_def)
  show ?push
  proof (cases "is_full q")
    case True
    then show ?thesis using f(1) wait [of "DqPush n"] m by (auto simp: rt_data_queue_push_def dq_push_loop_def)
  next
    case False
    then have room: "length (dq_contents q) < unat (dq_size q)" using f(1,3) by simp
    obtain q' where q': "dq_put x q = Some q'" "dq_ok q'" "dq_contents q' = dq_contents q @ [x]" "dq_size q' = dq_size q"
      using dq_put_ok [OF ok False] by metis
    obtain s' where s': "(if \<not> tl_isempty (DqPop n) s then plain_wake (DqPop n) s else Some s) = Some s'" "woken_first (DqPop n) s s'"
      using wake [of "DqPop n"] by (metis wait_id.simps)
    show ?thesis using room q' s' False m
      by (auto simp: rt_data_queue_push_def dq_push_loop_def tl_isempty_def split: if_splits)
  qed
  show ?pop
  proof (cases "dq_contents q")
    case Nil
    then show ?thesis using f(2) wait [of "DqPop n"] m by (auto simp: rt_data_queue_pop_def dq_pop_loop_def)
  next
    case (Cons y ys)
    obtain q' where q': "dq_get q = Some (y, q')" "dq_ok q'" "dq_contents q' = ys" "dq_size q' = dq_size q" "lwm q' = lwm q"
      using dq_get_ok [OF ok Cons] by metis
    obtain w where w: "rt_data_queue_len q' = Some w" "unat w = length ys" using dq_len [OF q'(2)] q'(3) by auto
    obtain s' where s': "(if \<not> tl_isempty (DqPush n) s then plain_wake (DqPush n) s else Some s) = Some s'" "woken_first (DqPush n) s s'"
      using wake [of "DqPush n"] by (metis wait_id.simps)
    have "w \<le> lwm q' \<longleftrightarrow> length ys \<le> unat (lwm q)" using w(2) q'(5) by (simp add: word_le_nat_alt)
    then show ?thesis using Cons q' w s' f(2) m
      by (auto simp: rt_data_queue_pop_def dq_pop_loop_def)
  qed
qed

definition sample_dq :: rt_data_queue where
  "sample_dq = \<lparr>dq_magic = DATAQUEUE_MAGIC, dq_size = 2, lwm = 1, get_index = 1, is_empty = False, put_index = 0, is_full = False,
     dq_queue = [(7, 8), (0x8000, 64)]\<rparr>"

lemma sample_dq_ok: "dq_ok sample_dq" "dq_contents sample_dq = [(0x8000, 64)]"
  by (simp_all add: sample_dq_def dq_ok_def dq_contents_def dq_count_def ring_list_def)

theorem data_queue_push_pop_witness:
  "(\<exists>q' s'. rt_data_queue_push 4 (9, 16) 0 (sample_dq, small_system) = Some (Done RT_EOK, Some RT_DATAQUEUE_EVENT_PUSH, q', s') \<and>
      dq_contents q' = [(0x8000, 64), (9, 16)]) \<and>
   (\<exists>q' s'. rt_data_queue_pop 4 0 (sample_dq, small_system) = Some (Done RT_EOK, Some (0x8000, 64), Some RT_DATAQUEUE_EVENT_LWM, q', s') \<and>
      dq_contents q' = [])"
proof -
  have c: "rt_current_thread small_system = Some 2" "stat_of small_system 2 = RT_THREAD_RUNNING" "lists small_system (DqPop 4) = []"
    "unat (dq_size sample_dq) = 2"
    by (simp_all add: small_system_def kernel_reset_def stat_of_def sample_thread_def sample_dq_def)
  show ?thesis
    using data_queue_push_pop [OF sys_inv_small c(1,2) sample_dq_ok(1), of 0 4 "(9, 16)"] c(3,4)
    by (auto simp: sample_dq_ok(2))
qed

text \<open>
  \<^verbatim>\<open>rt_data_queue_init\<close> takes any 16-bit size, but the indices have 15 bits: a larger queue is full with 32768 items.
\<close>

lemma big_queue_full_early:
  assumes "dq_size q = 40000" "length (dq_queue q) = 40000" "get_index q = 0" "put_index q = 32767"
  shows "\<exists>q'. dq_put x q = Some q' \<and> is_full q' \<and> put_index q' = 0"
  using assms by (simp add: dq_put_def dq_advance_def)

text \<open>Over any sequence of puts and gets the ring behaves as a bounded list.\<close>

theorem data_queue_is_a_queue:
  assumes "dq_ok q" "\<forall>x. Urgent x \<notin> set ops"
  shows "\<exists>out q'. run_store dq_put (\<lambda>_ _. None) dq_get is_full is_empty ops q = Some (out, q') \<and> dq_ok q' \<and>
     (out, dq_contents q') = list_store (\<lambda>x xs. xs @ [x]) (unat (dq_size q)) ops (dq_contents q)"
  using dq.run_refines [OF assms(1), of ops] assms(2) by auto

end
