(* ===== verification/Completion.thy ===== *)
theory Completion
  imports Channel
begin

text \<open>
  Completions, \<^verbatim>\<open>components/drivers/ipc/completion.c\<close>: a flag that a driver sets and at most one thread
  waits for.  The wait list is \<open>CompWait n\<close> of the kernel state.
\<close>

section \<open>State and operations\<close>

record rt_completion =
  comp_flag :: "32 word"

abbreviation (input) RT_COMPLETED :: "32 word" where "RT_COMPLETED \<equiv> 1"
abbreviation (input) RT_UNCOMPLETED :: "32 word" where "RT_UNCOMPLETED \<equiv> 0"

type_synonym comp_sys = "rt_completion \<times> kernel"

definition rt_completion_init :: "nat \<Rightarrow> comp_sys \<Rightarrow> comp_sys" where
  "rt_completion_init n = (\<lambda>(c, s). (c\<lparr>comp_flag := RT_UNCOMPLETED\<rparr>, s\<lparr>lists := (lists s)(CompWait n := [])\<rparr>))"

definition rt_completion_wait :: "nat \<Rightarrow> int \<Rightarrow> comp_sys \<Rightarrow> (err outcome \<times> comp_sys) option" where
  "rt_completion_wait n timeout = (\<lambda>(c, s).
     if comp_flag c \<noteq> RT_COMPLETED
     then do {
       rt_assert (tl_isempty (CompWait n) s);
       if timeout = 0 then Some (Done (- RT_ETIMEOUT), c, s)
       else do { s1 \<leftarrow> plain_wait (tl_push_back (CompWait n)) timeout s; Some (Blocked, c, s1) }
     }
     else Some (Done RT_EOK, c\<lparr>comp_flag := RT_UNCOMPLETED\<rparr>, s))"

definition rt_completion_wait_resumed :: "comp_sys \<Rightarrow> (err outcome \<times> comp_sys) option" where
  "rt_completion_wait_resumed = (\<lambda>(c, s). do {
     t \<leftarrow> rt_thread_self s;
     Some (Done (thr_error (thr s t)), c\<lparr>comp_flag := RT_UNCOMPLETED\<rparr>, s)
   })"

definition rt_completion_done :: "nat \<Rightarrow> comp_sys \<Rightarrow> comp_sys option" where
  "rt_completion_done n = (\<lambda>(c, s).
     if comp_flag c = RT_COMPLETED then Some (c, s)
     else do {
       s1 \<leftarrow> plain_wake (CompWait n) s;
       Some (c\<lparr>comp_flag := RT_COMPLETED\<rparr>, s1)
     })"

section \<open>Properties\<close>

text \<open>
  C14: the hand-shake of a completion.  A completion that is done already is consumed by the next wait
  at once; one that is not done answers \<^verbatim>\<open>-RT_ETIMEOUT\<close> to a wait without time and blocks any other
  wait, after which a second waiting thread runs into the assertion of the code.  \<^verbatim>\<open>rt_completion_done\<close>
  then makes the waiting thread runnable, another call of it changes nothing, and when the thread runs
  its wait returns \<^verbatim>\<open>RT_EOK\<close> and leaves the completion ready for the next round.
\<close>

theorem completion_hand_shake:
  assumes inv: "sys_inv s" and t: "rt_current_thread s = Some t" "stat_of s t = RT_THREAD_RUNNING"
    and c: "lists s (CompWait n) = []" and time: "time < 0x7fffffff"
  shows "if comp_flag c = RT_COMPLETED then rt_completion_wait n time (c, s) = Some (Done RT_EOK, c\<lparr>comp_flag := RT_UNCOMPLETED\<rparr>, s)
    else if time = 0 then rt_completion_wait n time (c, s) = Some (Done (- RT_ETIMEOUT), c, s)
    else \<exists>s1 s2. rt_completion_wait n time (c, s) = Some (Blocked, c, s1) \<and>
      blocked_on (CompWait n) t RT_IPC_FLAG_FIFO time (set_error t RT_EOK s) s1 \<and>
      (\<forall>m. rt_completion_wait n m (c, s1) = None) \<and>
      rt_completion_done n (c, s1) = Some (c\<lparr>comp_flag := RT_COMPLETED\<rparr>, s2) \<and> woken (CompWait n) t RT_EOK s1 s2 \<and>
      rt_completion_done n (c\<lparr>comp_flag := RT_COMPLETED\<rparr>, s2) = Some (c\<lparr>comp_flag := RT_COMPLETED\<rparr>, s2) \<and>
      (\<forall>s3 d. rt_current_thread s3 = Some t \<longrightarrow> thr_error (thr s3 t) = thr_error (thr s2 t) \<longrightarrow>
        rt_completion_wait_resumed (d, s3) = Some (Done RT_EOK, d\<lparr>comp_flag := RT_UNCOMPLETED\<rparr>, s3))"
proof (cases "comp_flag c = RT_COMPLETED \<or> time = 0")
  case True
  then show ?thesis using c by (auto simp: rt_completion_wait_def tl_isempty_def)
next
  case False
  obtain s1 where s1: "plain_wait (tl_push_back (CompWait n)) time s = Some s1"
    "blocked_on (CompWait n) t RT_IPC_FLAG_FIFO time (set_error t RT_EOK s) s1"
    using plain_wait_ok [OF inv t time, of "tl_push_back (CompWait n)" "CompWait n" RT_IPC_FLAG_FIFO] by (auto simp: push_back_enqueued)
  note b = blocked_onD [OF s1(2)]
  have l: "lists s1 (CompWait n) = [t]" using b(4) c by (simp add: wait_order_def)
  have e: "thr_error (thr s1 t) = RT_EOK" using b(5) [of t] by simp
  obtain s2 where s2: "plain_wake (CompWait n) s1 = Some s2" "woken_first (CompWait n) s1 s2"
    using plain_wake_ok [OF b(1), of "CompWait n"] by auto
  have w: "woken (CompWait n) t RT_EOK s1 s2" using s2(2) l e by (simp add: woken_first_def)
  have "\<forall>m. rt_completion_wait n m (c, s1) = None"
    using False l by (simp add: rt_completion_wait_def tl_isempty_def rt_assert_def)
  moreover have "rt_completion_wait n time (c, s) = Some (Blocked, c, s1)"
    using False c s1(1) by (simp add: rt_completion_wait_def tl_isempty_def)
  moreover have "rt_completion_done n (c, s1) = Some (c\<lparr>comp_flag := RT_COMPLETED\<rparr>, s2)"
    "rt_completion_done n (c\<lparr>comp_flag := RT_COMPLETED\<rparr>, s2) = Some (c\<lparr>comp_flag := RT_COMPLETED\<rparr>, s2)"
    using False s2(1) by (simp_all add: rt_completion_done_def)
  moreover have "rt_completion_wait_resumed (d, s3) = Some (Done RT_EOK, d\<lparr>comp_flag := RT_UNCOMPLETED\<rparr>, s3)"
    if "rt_current_thread s3 = Some t" "thr_error (thr s3 t) = thr_error (thr s2 t)" for s3 d
    using that wokenD(6) [OF w] by (simp add: rt_completion_wait_resumed_def rt_thread_self_def)
  ultimately show ?thesis using False s1(2) w by (simp add: exI [of _ s2])
qed

theorem completion_hand_shake_witness:
  "\<exists>s1 s2. rt_completion_wait 3 5 (\<lparr>comp_flag = 0\<rparr>, small_system) = Some (Blocked, \<lparr>comp_flag = 0\<rparr>, s1) \<and>
     rt_completion_done 3 (\<lparr>comp_flag = 0\<rparr>, s1) = Some (\<lparr>comp_flag = 1\<rparr>, s2) \<and> 2 \<in> runnable s2"
proof -
  have c: "rt_current_thread small_system = Some 2" "stat_of small_system 2 = RT_THREAD_RUNNING" "lists small_system (CompWait 3) = []"
    by (simp_all add: small_system_def kernel_reset_def stat_of_def sample_thread_def)
  show ?thesis
    using completion_hand_shake [OF sys_inv_small c, of 5 "\<lparr>comp_flag = 0\<rparr>"] wokenD(3) [of "CompWait 3" 2 RT_EOK] by fastforce
qed

text \<open>
  A completion that arrives between the expiry of the timer and the return of the wait is lost: the
  wait reports \<^verbatim>\<open>-RT_ETIMEOUT\<close> and clears the flag that \<^verbatim>\<open>rt_completion_done\<close> has set.
\<close>

lemma completion_lost_after_timeout:
  assumes "rt_current_thread s3 = Some t" "thr_error (thr s3 t) = - RT_ETIMEOUT" "lists s2 (CompWait n) = []"
  shows "rt_completion_done n (\<lparr>comp_flag = RT_UNCOMPLETED\<rparr>, s2) = Some (\<lparr>comp_flag = RT_COMPLETED\<rparr>, s2)"
    "rt_completion_wait_resumed (\<lparr>comp_flag = RT_COMPLETED\<rparr>, s3) = Some (Done (- RT_ETIMEOUT), \<lparr>comp_flag = RT_UNCOMPLETED\<rparr>, s3)"
  using assms by (simp_all add: rt_completion_done_def rt_completion_wait_resumed_def plain_wake_def tl_first_def rt_thread_self_def)

end
