(* ===== verification/Spec2Isabelle.thy ===== *)
theory Spec2Isabelle
  imports Lifecycle Event Mailbox MessageQueue RingBuffer Mempool PageClient LwpId Device DataQueue Completion Object Kservice
begin

text \<open>
  A verification library for the RT-Thread kernel of this repository (RT-Thread Smart on the
  Allwinner D1H, a 64-bit RISC-V with one core), configured as in \<^verbatim>\<open>bsp/allwinner/d1s_d1h/rtconfig.h\<close>:
  32 priorities, 100 ticks per second, names of 20 bytes, soft timers, memory tracing, idle hooks, no SMP.
  All file names below are relative to \<^verbatim>\<open>src/rt-thread/\<close>.

  \<^bold>\<open>The program.\<close>  The kernel keeps its data in intrusive circular lists (\<^verbatim>\<open>include/rtservice.h\<close>).
  Threads (\<^verbatim>\<open>src/thread.c\<close>) are linked into a ready list of the scheduler (\<^verbatim>\<open>src/scheduler_up.c\<close>), into
  the wait list of an IPC object (\<^verbatim>\<open>src/ipc.c\<close>) or a memory pool (\<^verbatim>\<open>src/mempool.c\<close>), or, when closed,
  into the list that the idle thread (\<^verbatim>\<open>src/idle.c\<close>) empties.  A bitmap of non-empty ready lists, searched
  with \<^verbatim>\<open>__rt_ffs\<close> (\<^verbatim>\<open>src/kservice.c\<close>), selects the next thread.  Each thread owns a timer; the tick
  interrupt (\<^verbatim>\<open>src/clock.c\<close>) runs the expired timers (\<^verbatim>\<open>src/timer.c\<close>), which wake threads whose wait has
  timed out.  Every such structure is also an object in a container by class (\<^verbatim>\<open>src/object.c\<close>).
  Mutexes pass priorities along chains of owners.  Memory comes from the small-memory heap
  (\<^verbatim>\<open>src/mem.c\<close>), from pools and, in whole pages, from the page allocator (\<^verbatim>\<open>components/mm/mm_page.c\<close>).  Drivers pass bytes through ring buffers,
  pointers through data queues and signals through completions (\<^verbatim>\<open>ringbuffer.c\<close>, \<^verbatim>\<open>dataqueue.c\<close> and
  \<^verbatim>\<open>completion.c\<close> of \<^verbatim>\<open>components/drivers/ipc\<close>).  Devices and their drivers meet in \<^verbatim>\<open>components/drivers/core/device.c\<close>.  RT-Smart finds threads and processes by number
  (\<^verbatim>\<open>lwp_tid.c\<close>, \<^verbatim>\<open>lwp_pid.c\<close>) in balanced trees (\<^verbatim>\<open>lwp_avl.c\<close> of \<^verbatim>\<open>components/lwp\<close>).

  \<^bold>\<open>The model.\<close>  One record \<^typ>\<open>kernel\<close> (theory KernelState) holds the static variables of the kernel
  sources and, by identifier, the structures of \<^verbatim>\<open>include/rtdef.h\<close>.  Machine integers are words of the
  width of the C type (16-bit counters, 32-bit ticks, 64-bit sizes and addresses); error codes and
  \<^verbatim>\<open>rt_int32_t\<close> time-outs are integers.  An operation is a function from the state to an optional
  result: \<open>None\<close> is a failed \<^verbatim>\<open>RT_ASSERT\<close>, an access out of range or a loop that does not end, so
  every theorem that an operation returns \<open>Some\<close> also says that none of these happens.  The sections
  between \<^verbatim>\<open>rt_hw_interrupt_disable\<close> and \<^verbatim>\<open>rt_hw_interrupt_enable\<close> are atomic on one core, and an
  operation is atomic up to its call of \<^verbatim>\<open>rt_schedule\<close>.  A call that blocks is split there: it returns
  \<open>Blocked\<close>, and the definition with suffix \<open>_resumed\<close> is the rest of the call, run when the thread gets
  the processor back.  Call-backs (timer functions, hooks, clean-up functions, wake-up functions) and
  the memory that a \<^verbatim>\<open>_create\<close> function obtains are arguments.

  \<^bold>\<open>The theories\<close>, in the order of the calls between components:
  \<^item> Prelude: collections of simplification rules, assertions as options, lemmas on lists and words.
  \<^item> RtList: \<^verbatim>\<open>rtservice.h\<close> on a heap of next and previous pointers; the locale \<open>list_family\<close> is the
    interface of a family of disjoint lists, interpreted on the pointer functions and on the abstract
    lists that the other theories use.
  \<^item> KernelState: records, constants, the list operations of the kernel, a small running system on
    which the properties are instantiated.
  \<^item> Kservice: bit search by table and by bisection (C1).
  \<^item> Scheduler: ready lists, \<^verbatim>\<open>rt_schedule\<close>, critical sections (C2); \<open>sched_inv\<close> ties the bitmap, the
    lists, the states of the threads and the running thread together.
  \<^item> Object: containers, names, static and dynamic objects (C4).
  \<^item> TimerCore, Timer: starting, stopping and expiry of hard and soft timers, the tick (C8 to C11);
    the time that remains is a difference of 32-bit ticks, so the order survives wrap-around.
  \<^item> ThreadCore, Thread: suspension, resumption, creation, start, yield, sleep (C6, C7, C12);
    \<open>kernel_inv\<close> extends \<open>sched_inv\<close> by timers and thread objects.
  \<^item> Ipc: wait lists with \<open>sys_inv\<close>, the invariant between two kernel calls, and the locales \<open>wait_list\<close>
    (everyone is woken when an object goes away) and \<open>token_counter\<close> (no token is lost).
  \<^item> Sem: semaphores refine a counter with a queue (C15 to C18).
  \<^item> Mutex, PriorityInherit: mutexes; \<open>pi_inv\<close> says that every owner runs at least at the priority of
    every thread that waits for it, along chains (C19, C20).
  \<^item> Event: events with AND, OR and CLEAR (C22, C23).
  \<^item> Channel, Mailbox, MessageQueue: the common part of waiting and waking, the locale
    \<open>bounded_store\<close>, mailboxes as circular arrays (C24 to C26) and message queues as linked cells in
    stable priority order (C27 to C29).
  \<^item> DataQueue: the queue of pointers between drivers and threads with its low water mark (C5);
    Completion: the one-shot signal of a driver (C14).
  \<^item> Device: devices with their drivers as records of functions, the drivers without hardware; the locale
    \<open>device_driver\<close> is what the layer relies on, and open and close refine an abstract session (C13).
  \<^item> RingBuffer: the byte queue with mirror bits (C31).
  \<^item> SmallMem: the first-fit heap (C34 to C36) and the locale \<open>allocator\<close> of its clients.
  \<^item> Mempool: blocks of one size with a header word each (C39); the pool is a second interpretation of
    \<open>allocator\<close>.
  \<^item> PageAlloc, PageClient: the buddy allocator for pages of RT-Smart; \<open>page_inv\<close> says that blocks are aligned
    and apart, that the records show which pages start a free block, and that two buddies are never
    both free (C3, C33); the free lists after the first part of \<^verbatim>\<open>rt_page_init\<close>, the early allocator that works while the page records
    are not mapped, and all owners of pages with their references (C32); for blocks of one order a third interpretation of \<open>allocator\<close>.
  \<^item> Avl: the balanced trees of RT-Smart on a heap of nodes; the proofs follow a tree with a hole whose path
    is the stack of the code, and the locale \<open>keyed_index\<close> is the interface for the users of a tree (C30).
  \<^item> LwpId: the tables of thread and process numbers, which use one tree each; the locale \<open>number_table\<close>
    states their contract as a simulation and is interpreted on both tables (C21).
  \<^item> Lifecycle: exit, detach, delete of threads, the idle thread (C37, C38).
  \<^item> this theory: the end of a timed wait across pools, timers, threads and the scheduler (C40).

  \<^bold>\<open>Call-backs.\<close>  The functions of user timers are arguments; the theorems on ticks (C8, C10, C40) hold for functions that are \<open>well_behaved\<close>: they come
  back and keep the invariant, do not start a timer that is due at once, do not suspend other threads, and leave the timer of a waiting thread running unless they wake it;
  they may stop, restart and start timers, their own included, and wake threads.  The clean-up functions that the idle thread calls (C38) may delete
  objects and wake threads but not touch closed threads; the functions of a driver (C13) may answer anything but
  not touch the bookkeeping of the device layer.

  \<^bold>\<open>Fuel and bounds.\<close>  \<open>rt_timer_check_loop\<close> takes fuel; C8 and C10 show that one more than the number
  of timers in the list is enough, since a timer that is run leaves the list or is put back with a later
  time and no timer function starts a timer that is due at once; \<open>ticks\<close> gives every interrupt that much.  \<open>ipc_list_resume_all_loop\<close> gets one round more than there are waiting threads; that it returns is part of
  C17.  The chain of \<^verbatim>\<open>_thread_update_priority\<close>, the loops of the heap and the loop of
  \<^verbatim>\<open>rt_defunct_execute\<close>, the walks over free pages and the installation of a region are partial functions or recursions that the theorems show to return; for the chain the hypothesis is
  that no threads wait for each other in a circle, which is necessary (the C code then loops).  The stack of
  \<^verbatim>\<open>lwp_avl.c\<close> has 32 entries; a balanced tree of fewer than 65535 nodes is never that high, and the
  tables have 64 and 30 nodes.  Time-outs
  are below \<^verbatim>\<open>RT_TICK_MAX / 2\<close>, as the code asserts.

  \<^bold>\<open>Not modelled.\<close>  Context switches, stack frames and interrupt entry (assembly); hooks; printing and
  shell commands; SMP variants, slab and memheap, which this board does not build; the string and
  memory functions of \<^verbatim>\<open>kservice.c\<close>, which are replaced by the C library in this configuration; signal
  delivery; drivers of hardware and the frameworks for their classes; file systems, network stack, C
  library, the user processes and address spaces of RT-Smart, which are separate subsystems above the kernel;
  of the page allocator, what works through the kernel page table (mapping the page records at the end of
  \<^verbatim>\<open>rt_page_init\<close>, of which C32 covers the calls of the allocator, and regions added after boot).  Of the
  signals only the test that \<^verbatim>\<open>rt_thread_suspend_with_flag\<close> makes is modelled.  The theorems on
  priority inheritance are for mutexes without a priority ceiling, those on message queues for queues
  without urgent messages.
\<close>

section \<open>A timed wait across components\<close>

text \<open>A pool with no free block: both blocks of the sample pool are lent.\<close>

definition drained_pools :: mp_state where
  "drained_pools = snd (the (mp_take 3 (snd (the (mp_take 3 sample_pools)))))"

lemma drained_pools_ok: "pool_ok 3 drained_pools []" "0x1000 \<in> mp_blocks (mps drained_pools 3)"
proof -
  obtain M1 where M1: "mp_take 3 sample_pools = Some (0x1000 + 8, M1)" "pool_ok 3 M1 [0x1020]" "pool_frame 3 sample_pools M1"
    using mp_take_ok [OF sample_pools_ok] .
  obtain M2 where M2: "mp_take 3 M1 = Some (0x1020 + 8, M2)" "pool_ok 3 M2 []" "pool_frame 3 M1 M2"
    using mp_take_ok [OF M1(2)] .
  have d: "drained_pools = M2" using M1(1) M2(1) by (simp add: drained_pools_def)
  show "pool_ok 3 drained_pools []" unfolding d by (rule M2(2))
  have "0x1000 \<in> mp_blocks (mps sample_pools 3)" using pool_okD(3) [OF sample_pools_ok] by simp
  then show "0x1000 \<in> mp_blocks (mps drained_pools 3)" unfolding d using pool_frameD(1) [OF M1(3)] pool_frameD(1) [OF M2(3)] by simp
qed

text \<open>
  C40: a timed wait comes to an end (memory pools, timers, threads and scheduler together).  A thread
  that asks an exhausted pool for a block and is ready to wait \<open>time\<close> ticks blocks.  If another thread
  gives a block back, the waiting thread becomes runnable with \<^verbatim>\<open>RT_EOK\<close> and, if it runs while the
  pool is as that call left it, its call returns this block.  If nobody does for \<open>time\<close> ticks, and the functions of the user timers are
  well behaved in the sense of C10 (they come back, keep the invariant, and may stop or start timers and wake threads), the tick interrupts all come back and
  the thread is not suspended any more.  If moreover these functions do not wake this thread (one that gives a block to the pool is the
  case above), it has \<^verbatim>\<open>-RT_ETIMEOUT\<close>, and its call returns a null pointer.
\<close>

theorem timed_allocation_ends:
  assumes inv: "sys_inv s" and t: "rt_current_thread s = Some t" "stat_of s t = RT_THREAD_RUNNING"
    and pool: "pool_ok n M []" "b \<in> mp_blocks (mps M n)" and time: "0 < time" "time < 0x7fffffff" and call: "well_behaved call"
  shows "\<exists>s1. rt_mp_alloc n time (M, s) = Some (Blocked, M, s1) \<and> t \<notin> runnable s1 \<and>
    (\<exists>M2 s2. rt_mp_free (b + 8) (M, s1) = Some (M2, s2) \<and> t \<in> runnable s2 \<and> thr_error (thr s2 t) = RT_EOK \<and>
      (\<forall>s3. rt_current_thread s3 = Some t \<longrightarrow> thr_error (thr s3 t) = thr_error (thr s2 t) \<longrightarrow>
        (\<exists>M3. rt_mp_alloc_resumed n time (rt_tick s1) (M2, s3) = Some (Done (Some (b + 8)), M3, s3) \<and> pool_ok n M3 []))) \<and>
    (\<exists>s2. ticks call (nat time) s1 = Some s2 \<and> tick_inv s2 \<and> \<not> suspended s2 t \<and> (spares t call \<longrightarrow> thr_error (thr s2 t) = - RT_ETIMEOUT \<and>
      (\<forall>s3. rt_current_thread s3 = Some t \<longrightarrow> thr_error (thr s3 t) = thr_error (thr s2 t) \<longrightarrow>
        rt_mp_alloc_resumed n time (rt_tick s1) (M, s3) = Some (Done None, M, s3))))"
proof -
  obtain s1 where s1: "mp_wait n time s = Some s1" "blocked_on (MpWait n) t WAIT_FRONT time (set_error t RT_EOK s) s1"
    using mp_wait_ok [OF inv t time(2)] by blast
  note b1 = blocked_onD [OF s1(2)]
  have front: "lists s1 (MpWait n) = t # lists s (MpWait n)" using b1(4) by (simp add: wait_order_def)
  have alloc: "rt_mp_alloc n time (M, s) = Some (Blocked, M, s1)"
    using s1(1) time(1) pool_ok_counter [OF pool(1)] by (simp add: rt_mp_alloc_def)
  have nr: "t \<notin> runnable s1" using b1(7) by simp
  have given: "\<exists>M2 s2. rt_mp_free (b + 8) (M, s1) = Some (M2, s2) \<and> t \<in> runnable s2 \<and> thr_error (thr s2 t) = RT_EOK \<and>
      (\<forall>s3. rt_current_thread s3 = Some t \<longrightarrow> thr_error (thr s3 t) = thr_error (thr s2 t) \<longrightarrow>
        (\<exists>M3. rt_mp_alloc_resumed n time (rt_tick s1) (M2, s3) = Some (Done (Some (b + 8)), M3, s3) \<and> pool_ok n M3 []))"
  proof -
    obtain s2 where s2: "rt_mp_free (b + 8) (M, s1) = Some (mp_put_back n b M, s2)" "woken_one (MpWait n) s1 s2"
      using rt_mp_free_ok [OF pool _ b1(1)] by auto
    have ok: "pool_ok n (mp_put_back n b M) [b]" using mp_put_back_ok(1) [OF pool] by simp
    have awake: "t \<in> runnable s2" "thr_error (thr s2 t) = RT_EOK"
      using woken_oneD(5,6) [OF s2(2) b1(1)] front by auto
    have "\<exists>M3. rt_mp_alloc_resumed n time (rt_tick s1) (mp_put_back n b M, s3) = Some (Done (Some (b + 8)), M3, s3) \<and> pool_ok n M3 []"
      if "rt_current_thread s3 = Some t" "thr_error (thr s3 t) = thr_error (thr s2 t)" for s3
      using rt_mp_alloc_free_block [OF ok, of "time_left time (rt_tick s1) s3" s3] that awake(2)
      by (auto simp: rt_mp_alloc_resumed_def rt_thread_self_def)
    then show ?thesis using s2(1) awake by blast
  qed
  have "\<exists>s2. ticks call (nat time) s1 = Some s2 \<and> tick_inv s2 \<and> \<not> suspended s2 t \<and> (spares t call \<longrightarrow> thr_error (thr s2 t) = - RT_ETIMEOUT \<and>
      (\<forall>s3. rt_current_thread s3 = Some t \<longrightarrow> thr_error (thr s3 t) = thr_error (thr s2 t) \<longrightarrow>
        rt_mp_alloc_resumed n time (rt_tick s1) (M, s3) = Some (Done None, M, s3)))"
    using timer_wakes [OF sys_invD(2,3) [OF b1(1)] call, of t "nat time"] b1(9) [OF time(1)]
    by (auto simp: rt_mp_alloc_resumed_def rt_thread_self_def)
  then show ?thesis using alloc nr given by blast
qed

theorem timed_allocation_ends_witness:
  "\<exists>s1. rt_mp_alloc 3 5 (drained_pools, small_system) = Some (Blocked, drained_pools, s1) \<and> 2 \<notin> runnable s1 \<and>
    (\<exists>M2 s2. rt_mp_free 0x1008 (drained_pools, s1) = Some (M2, s2) \<and> 2 \<in> runnable s2) \<and>
    (\<exists>s2. ticks stop_own 5 s1 = Some s2 \<and> \<not> suspended s2 2 \<and> thr_error (thr s2 2) = - RT_ETIMEOUT)"
proof -
  have c: "rt_current_thread small_system = Some 2" "stat_of small_system 2 = RT_THREAD_RUNNING"
    by (simp_all add: small_system_def kernel_reset_def stat_of_def sample_thread_def)
  have "(0 :: int) < 5" "(5 :: int) < 0x7fffffff" "nat 5 = 5" by simp_all
  then show ?thesis using timed_allocation_ends [OF sys_inv_small c drained_pools_ok _ _ stop_own_ok(1), of 5] stop_own_ok(3) [of 2] by fastforce
qed

end
